(* ===== verification/Prelude.thy ===== *)
theory Prelude
  imports Main "HOL-Library.Word"
begin

text \<open>
  Shared vocabulary of the development: the integer widths of the C types, the addresses that
  stand for C pointers, the result type of system calls, and the generic lemmas on lists and
  words that several components use.
\<close>

section \<open>Machine integers, addresses, collections\<close>

type_synonym u8 = "8 word"
type_synonym u16 = "16 word"
type_synonym u32 = "32 word"
type_synonym u64 = "64 word"

text \<open>A C pointer to a node is an address; a pointer that may be \<open>NULL\<close> is an option.\<close>

type_synonym addr = nat
type_synonym ptr = "addr option"

named_theorems ring_intros \<open>introduction of list representations of intrusive queues\<close>
named_theorems flag_simps \<open>evaluation of handle flag tests\<close>

section \<open>Generic lemmas\<close>

lemma distinct_remove_middle: "distinct (xs @ x # ys) \<Longrightarrow> distinct (xs @ ys)"
  by auto

lemma list_ends:
  obtains "xs = []" | x where "xs = [x]" | x zs y where "xs = x # zs @ [y]"
proof (cases xs)
  case (Cons x ys)
  then show thesis using that(2,3) by (cases ys rule: rev_cases) auto
qed (rule that(1))

lemma remove1_middle: "x \<notin> set xs \<Longrightarrow> remove1 x (xs @ x # ys) = xs @ ys"
  by (simp add: remove1_append)

end
