(* ===== verification/Queues.thy ===== *)
theory Queues
  imports Prelude
begin

text \<open>
  The intrusive doubly linked queues of \<open>src/queue.h\<close>, at the level of their pointers: the
  memory maps the address of a \<open>QUEUE\<close> cell to its two links, and every macro is the
  sequence of link updates it expands to.  \<open>ring m h xs\<close> says that the cells reached from the
  head \<open>h\<close> are exactly \<open>xs\<close>, in that order, linked in both directions; the lemmas show what each
  macro does to that list.  The locale \<open>fifo\<close> is the interface the event loop relies on; it is
  interpreted on the pointer model, which is why the other theories may keep queues as lists.
\<close>

section \<open>The memory and the macros\<close>

record qmem =
  q_next :: "addr \<Rightarrow> addr"
  q_prev :: "addr \<Rightarrow> addr"

definition set_next :: "addr \<Rightarrow> addr \<Rightarrow> qmem \<Rightarrow> qmem" where
  "set_next q v m = m\<lparr>q_next := (q_next m)(q := v)\<rparr>"

definition set_prev :: "addr \<Rightarrow> addr \<Rightarrow> qmem \<Rightarrow> qmem" where
  "set_prev q v m = m\<lparr>q_prev := (q_prev m)(q := v)\<rparr>"

definition QUEUE_EMPTY :: "addr \<Rightarrow> qmem \<Rightarrow> bool" where
  "QUEUE_EMPTY q m = (q = q_next m q)"

definition QUEUE_HEAD :: "addr \<Rightarrow> qmem \<Rightarrow> addr" where
  "QUEUE_HEAD q m = q_next m q"

definition QUEUE_INIT :: "addr \<Rightarrow> qmem \<Rightarrow> qmem" where
  "QUEUE_INIT q m =
     (let m = set_next q q m
      in set_prev q q m)"

definition QUEUE_ADD :: "addr \<Rightarrow> addr \<Rightarrow> qmem \<Rightarrow> qmem" where
  "QUEUE_ADD h n m =
     (let m = set_next (q_prev m h) (q_next m n) m;
          m = set_prev (q_next m n) (q_prev m h) m;
          m = set_prev h (q_prev m n) m
      in set_next (q_prev m h) h m)"

definition QUEUE_SPLIT :: "addr \<Rightarrow> addr \<Rightarrow> addr \<Rightarrow> qmem \<Rightarrow> qmem" where
  "QUEUE_SPLIT h q n m =
     (let m = set_prev n (q_prev m h) m;
          m = set_next (q_prev m n) n m;
          m = set_next n q m;
          m = set_prev h (q_prev m q) m;
          m = set_next (q_prev m h) h m
      in set_prev q n m)"

definition QUEUE_MOVE :: "addr \<Rightarrow> addr \<Rightarrow> qmem \<Rightarrow> qmem" where
  "QUEUE_MOVE h n m =
     (if QUEUE_EMPTY h m then QUEUE_INIT n m
      else let q = QUEUE_HEAD h m in QUEUE_SPLIT h q n m)"

definition QUEUE_INSERT_HEAD :: "addr \<Rightarrow> addr \<Rightarrow> qmem \<Rightarrow> qmem" where
  "QUEUE_INSERT_HEAD h q m =
     (let m = set_next q (q_next m h) m;
          m = set_prev q h m;
          m = set_prev (q_next m q) q m
      in set_next h q m)"

definition QUEUE_INSERT_TAIL :: "addr \<Rightarrow> addr \<Rightarrow> qmem \<Rightarrow> qmem" where
  "QUEUE_INSERT_TAIL h q m =
     (let m = set_next q h m;
          m = set_prev q (q_prev m h) m;
          m = set_next (q_prev m q) q m
      in set_prev h q m)"

definition QUEUE_REMOVE :: "addr \<Rightarrow> qmem \<Rightarrow> qmem" where
  "QUEUE_REMOVE q m =
     (let m = set_next (q_prev m q) (q_next m q) m
      in set_prev (q_next m q) (q_prev m q) m)"

text \<open>
  \<open>QUEUE_FOREACH(q, h)\<close>: the cells its body sees, for a body that leaves the links alone (the
  comment in the header requires it).  On a broken ring the loop need not end, so the walk is
  partial.
\<close>

partial_function (option) QUEUE_FOREACH_from :: "qmem \<Rightarrow> addr \<Rightarrow> addr \<Rightarrow> addr list \<Rightarrow> addr list option" where
  "QUEUE_FOREACH_from m h q seen =
     (if q = h then Some seen else QUEUE_FOREACH_from m h (q_next m q) (seen @ [q]))"

definition QUEUE_FOREACH :: "addr \<Rightarrow> qmem \<Rightarrow> addr list option" where
  "QUEUE_FOREACH h m = QUEUE_FOREACH_from m h (q_next m h) []"

section \<open>Linked segments and rings\<close>

fun dseg :: "qmem \<Rightarrow> addr \<Rightarrow> addr list \<Rightarrow> addr \<Rightarrow> bool" where
  "dseg m a [] b = (q_next m a = b \<and> q_prev m b = a)"
| "dseg m a (x # xs) b = (q_next m a = x \<and> q_prev m x = a \<and> dseg m x xs b)"

definition ring :: "qmem \<Rightarrow> addr \<Rightarrow> addr list \<Rightarrow> bool" where
  "ring m h xs = (distinct (h # xs) \<and> dseg m h xs h)"

lemma set_next_simps [simp]:
  "q_next (set_next q v m) = (q_next m)(q := v)" "q_prev (set_next q v m) = q_prev m"
  by (simp_all add: set_next_def)

lemma set_prev_simps [simp]:
  "q_prev (set_prev q v m) = (q_prev m)(q := v)" "q_next (set_prev q v m) = q_next m"
  by (simp_all add: set_prev_def)

lemma dseg_append [simp]:
  "dseg m a (xs @ y # ys) b = (dseg m a xs y \<and> dseg m y ys b)"
  by (induction xs arbitrary: a) auto

lemma dseg_frame_next: "u \<notin> insert a (set xs) \<Longrightarrow> dseg (set_next u v m) a xs b = dseg m a xs b"
  by (induction xs arbitrary: a) auto

lemma dseg_frame_prev: "u \<notin> insert b (set xs) \<Longrightarrow> dseg (set_prev u v m) a xs b = dseg m a xs b"
  by (induction xs arbitrary: a) auto

lemma dseg_cong:
  "(\<And>x. x \<in> insert a (set xs) \<Longrightarrow> q_next m x = q_next m' x) \<Longrightarrow>
   (\<And>x. x \<in> insert b (set xs) \<Longrightarrow> q_prev m x = q_prev m' x) \<Longrightarrow>
   dseg m a xs b = dseg m' a xs b"
  by (induction xs arbitrary: a) auto

lemma dseg_next: "dseg m a xs b \<Longrightarrow> q_next m a = hd (xs @ [b])"
  by (cases xs) auto

lemma dseg_prev: "dseg m a xs b \<Longrightarrow> q_prev m b = last (a # xs)"
  by (induction xs arbitrary: a) auto

lemma ring_next: "ring m h xs \<Longrightarrow> q_next m h = hd (xs @ [h])"
  unfolding ring_def by (blast dest: dseg_next)

lemma ring_prev: "ring m h xs \<Longrightarrow> q_prev m h = last (h # xs)"
  unfolding ring_def by (blast dest: dseg_prev)

text \<open>A ring whose cells are not touched stays as it is.\<close>

lemma ring_frame:
  assumes "ring m h xs"
    and "\<And>x. x \<in> insert h (set xs) \<Longrightarrow> q_next m' x = q_next m x \<and> q_prev m' x = q_prev m x"
  shows "ring m' h xs"
proof -
  have "dseg m' h xs h = dseg m h xs h"
    by (rule dseg_cong) (use assms(2) in auto)
  with assms(1) show ?thesis by (simp add: ring_def)
qed

section \<open>What each macro does to the list\<close>

lemma ring_init [ring_intros]: "ring (QUEUE_INIT q m) q []"
  by (simp add: ring_def QUEUE_INIT_def Let_def)

lemma ring_empty: "ring m h xs \<Longrightarrow> QUEUE_EMPTY h m = (xs = [])"
  by (cases xs) (auto simp: ring_def QUEUE_EMPTY_def)

lemma ring_head: "ring m h (x # xs) \<Longrightarrow> QUEUE_HEAD h m = x"
  by (auto simp: ring_def QUEUE_HEAD_def)


lemma ring_snoc_cases:
  assumes "ring m h xs"
  obtains "xs = []" "q_prev m h = h" "q_next m h = h"
  | ys z where "xs = ys @ [z]" "q_prev m h = z" "q_next m z = h"
proof (cases xs rule: rev_cases)
  case Nil
  with assms that(1) show thesis by (simp add: ring_def)
next
  case (snoc ys z)
  with assms have "q_prev m h = z" "q_next m z = h" by (auto simp: ring_def)
  with snoc that(2) show thesis by blast
qed

lemma ring_insert_tail [ring_intros]:
  assumes "ring m h xs" and "q \<notin> insert h (set xs)"
  shows "ring (QUEUE_INSERT_TAIL h q m) h (xs @ [q])"
  using assms(1)
proof (cases rule: ring_snoc_cases)
  case 1
  with assms show ?thesis by (auto simp: ring_def QUEUE_INSERT_TAIL_def Let_def)
next
  case (2 ys z)
  from assms 2 show ?thesis
    by (auto simp: ring_def QUEUE_INSERT_TAIL_def Let_def intro: dseg_cong [THEN iffD1, rotated -1])
qed

lemma ring_insert_head [ring_intros]:
  assumes "ring m h xs" and "q \<notin> insert h (set xs)"
  shows "ring (QUEUE_INSERT_HEAD h q m) h (q # xs)"
  using assms
  by (cases xs) (auto simp: ring_def QUEUE_INSERT_HEAD_def Let_def intro: dseg_cong [THEN iffD1, rotated -1])

lemma ring_remove [ring_intros]:
  assumes "ring m h (xs @ q # ys)"
  shows "ring (QUEUE_REMOVE q m) h (xs @ ys)"
proof (cases xs rule: rev_cases)
  case Nil
  with assms show ?thesis
    by (cases ys) (auto simp: ring_def QUEUE_REMOVE_def Let_def intro: dseg_cong [THEN iffD1, rotated -1])
next
  case (snoc xs' p)
  with assms show ?thesis
    by (cases ys) (auto simp: ring_def QUEUE_REMOVE_def Let_def intro: dseg_cong [THEN iffD1, rotated -1])
qed

lemma ring_remove_self [ring_intros]: "ring m q [] \<Longrightarrow> ring (QUEUE_REMOVE q m) q []"
  by (auto simp: ring_def QUEUE_REMOVE_def Let_def)

lemma QUEUE_SPLIT_whole:
  assumes "ring m h (x # xs)" and "n \<notin> insert h (set (x # xs))"
  shows "ring (QUEUE_SPLIT h x n m) n (x # xs) \<and> ring (QUEUE_SPLIT h x n m) h []"
  using assms
  by (cases xs rule: rev_cases)
     (auto simp: ring_def QUEUE_SPLIT_def Let_def intro: dseg_cong [THEN iffD1, rotated -1])

lemma ring_split:
  assumes "ring m h (xs @ q # ys)" and "n \<notin> insert h (set (xs @ q # ys))"
  shows "ring (QUEUE_SPLIT h q n m) n (q # ys) \<and> ring (QUEUE_SPLIT h q n m) h xs"
proof (cases xs rule: rev_cases)
  case Nil
  with assms QUEUE_SPLIT_whole [of m h q ys n] show ?thesis by simp
next
  case (snoc xs' p)
  with assms show ?thesis
    by (cases ys rule: rev_cases)
       (auto simp: ring_def QUEUE_SPLIT_def Let_def intro: dseg_cong [THEN iffD1, rotated -1])
qed

lemma ring_move:
  assumes "ring m h xs" and "n \<notin> insert h (set xs)"
  shows "ring (QUEUE_MOVE h n m) n xs \<and> ring (QUEUE_MOVE h n m) h []"
proof (cases xs)
  case Nil
  moreover have "ring (QUEUE_INIT n m) h []"
    by (rule ring_frame [of m]) (use assms Nil in \<open>auto simp: QUEUE_INIT_def Let_def\<close>)
  ultimately show ?thesis
    using assms ring_init [of n m] by (simp add: QUEUE_MOVE_def ring_empty)
next
  case (Cons x xs')
  with assms QUEUE_SPLIT_whole [of m h x xs' n] show ?thesis
    by (simp add: QUEUE_MOVE_def ring_empty ring_head Let_def)
qed

text \<open>Splicing: the links of the joined ring are those of its parts, redirected at four places.\<close>

lemma dseg_redirect:
  assumes "dseg m a xs b" and "distinct (a # xs)" and "distinct (xs @ [b])"
    and "q_next m' (last (a # xs)) = b'" and "q_prev m' b' = last (a # xs)"
    and "\<And>x. x \<in> set (butlast (a # xs)) \<Longrightarrow> q_next m' x = q_next m x"
    and "\<And>x. x \<in> set xs \<Longrightarrow> q_prev m' x = q_prev m x"
  shows "dseg m' a xs b'"
  using assms
proof (induction xs arbitrary: a)
  case (Cons x xs)
  have "dseg m' x xs b'"
    by (rule Cons.IH) (use Cons.prems in \<open>auto split: if_splits\<close>)
  with Cons.prems show ?case by auto
qed simp

lemma QUEUE_ADD_links:
  assumes "q_prev m h = p" "q_next m n = x" "q_prev m n = y" "n \<noteq> h" "n \<noteq> p" "x \<noteq> n" "x \<noteq> h"
  shows "q_next (QUEUE_ADD h n m) = (q_next m)(p := x, y := h)"
    and "q_prev (QUEUE_ADD h n m) = (q_prev m)(x := p, h := y)"
  using assms by (auto simp: QUEUE_ADD_def Let_def)

lemma ring_add_empty:
  assumes "ring m h xs" and "ring m n []" and "n \<notin> insert h (set xs)"
  shows "ring (QUEUE_ADD h n m) h xs"
  using assms
  by (cases xs rule: rev_cases)
     (auto simp: ring_def QUEUE_ADD_def Let_def intro: dseg_cong [THEN iffD1, rotated -1])

lemma ring_add:
  assumes h: "ring m h xs" and n: "ring m n ys" and disj: "insert h (set xs) \<inter> insert n (set ys) = {}"
  shows "ring (QUEUE_ADD h n m) h (xs @ ys)"
proof (cases ys)
  case Nil
  with assms show ?thesis by (simp add: ring_add_empty)
next
  case (Cons x ys')
  let ?p = "last (h # xs)" and ?y = "last (x # ys')" and ?m = "QUEUE_ADD h n m"
  have p: "q_prev m h = ?p" and x: "q_next m n = x" and y: "q_prev m n = ?y"
    using ring_prev [OF h] ring_next [OF n] ring_prev [OF n] Cons by simp_all
  have pin: "?p \<in> insert h (set xs)" and yin: "?y \<in> set ys"
    using Cons by (cases xs rule: rev_cases; simp)+
  have np: "n \<noteq> ?p" and yp: "?y \<noteq> ?p" "?y \<noteq> h" using disj pin yin by (metis disjoint_iff insertCI)+
  have nh: "n \<noteq> h" "x \<noteq> n" "x \<noteq> h" using disj n Cons by (auto simp: ring_def)
  note ne = nh(1) np nh(2,3) yp
  note links = QUEUE_ADD_links [OF p x y ne(1-4)]
  have dh: "dseg m h xs h" "distinct (h # xs)" and dn: "dseg m x ys' n" "distinct (n # x # ys')"
    using h n Cons by (auto simp: ring_def)
  have bl: "z \<noteq> ?p" if "z \<in> set (butlast (h # xs))" for z
    using that dh(2) by (cases xs rule: rev_cases) (auto simp: butlast_append)
  have bl': "z \<noteq> ?y" if "z \<in> set (butlast (x # ys'))" for z
    using that dn(2) by (cases ys' rule: rev_cases) (auto simp: butlast_append)
  have in_h: "z \<in> insert h (set xs)" if "z \<in> set (butlast (h # xs))" for z
    using in_set_butlastD [OF that] by simp
  have in_n: "z \<in> set ys" if "z \<in> set (butlast (x # ys'))" for z
    using in_set_butlastD [OF that] Cons by simp
  have "dseg ?m h xs x"
  proof (rule dseg_redirect [OF dh(1,2)])
    show "distinct (xs @ [h])" using dh(2) by simp
    show "q_next ?m ?p = x" "q_prev ?m x = ?p" using ne by (auto simp: links)
    show "q_next ?m z = q_next m z" if "z \<in> set (butlast (h # xs))" for z
      using bl [OF that] in_h [OF that] disj yin by (auto simp: links)
    show "q_prev ?m z = q_prev m z" if "z \<in> set xs" for z
      using that disj dh(2) Cons by (auto simp: links)
  qed
  moreover have "dseg ?m x ys' h"
  proof (rule dseg_redirect [OF dn(1)])
    show "distinct (x # ys')" "distinct (ys' @ [n])" using dn(2) by auto
    show "q_next ?m ?y = h" "q_prev ?m h = ?y" by (auto simp: links)
    show "q_next ?m z = q_next m z" if "z \<in> set (butlast (x # ys'))" for z
      using bl' [OF that] in_n [OF that] disj pin by (auto simp: links)
    show "q_prev ?m z = q_prev m z" if "z \<in> set ys'" for z
      using that disj dn(2) Cons by (auto simp: links)
  qed
  ultimately show ?thesis using assms Cons by (auto simp: ring_def)
qed

lemma foreach_from:
  "dseg m a ys h \<Longrightarrow> h \<notin> set ys \<Longrightarrow>
   QUEUE_FOREACH_from m h (q_next m a) seen = Some (seen @ ys)"
proof (induction ys arbitrary: a seen)
  case Nil
  then show ?case by (simp add: QUEUE_FOREACH_from.simps)
next
  case (Cons y ys)
  then have "QUEUE_FOREACH_from m h (q_next m y) (seen @ [y]) = Some ((seen @ [y]) @ ys)"
    by (intro Cons.IH) auto
  with Cons.prems show ?case by (simp add: QUEUE_FOREACH_from.simps [of m h y seen])
qed

lemma ring_foreach: "ring m h xs \<Longrightarrow> QUEUE_FOREACH h m = Some xs"
  using foreach_from [of m h xs h "[]"] by (simp add: QUEUE_FOREACH_def ring_def)

text \<open>The cells a macro leaves alone.\<close>

lemma untouched_insert_tail:
  "x \<noteq> q \<Longrightarrow> x \<noteq> h \<Longrightarrow> x \<noteq> q_prev m h \<Longrightarrow>
   q_next (QUEUE_INSERT_TAIL h q m) x = q_next m x \<and> q_prev (QUEUE_INSERT_TAIL h q m) x = q_prev m x"
  by (simp add: QUEUE_INSERT_TAIL_def Let_def)

lemma untouched_remove:
  "x \<noteq> q_prev m q \<Longrightarrow> x \<noteq> q_next m q \<Longrightarrow>
   q_next (QUEUE_REMOVE q m) x = q_next m x \<and> q_prev (QUEUE_REMOVE q m) x = q_prev m x"
  by (auto simp: QUEUE_REMOVE_def Let_def)

lemma ring_insert_tail_other:
  assumes "ring m h xs" and "ring m h' ys" and "insert h (set xs) \<inter> insert h' (set ys) = {}"
    and "q \<notin> insert h' (set ys)"
  shows "ring (QUEUE_INSERT_TAIL h q m) h' ys"
proof (rule ring_frame [OF assms(2)])
  have "q_prev m h \<in> insert h (set xs)"
    using ring_prev [OF assms(1)] by (cases xs rule: rev_cases) auto
  then show "q_next (QUEUE_INSERT_TAIL h q m) x = q_next m x \<and> q_prev (QUEUE_INSERT_TAIL h q m) x = q_prev m x"
    if "x \<in> insert h' (set ys)" for x
    using that assms(3,4) by (intro untouched_insert_tail) auto
qed

lemma ring_remove_other:
  assumes "ring m h (xs @ q # zs)" and "ring m h' ys"
    and "insert h (set (xs @ q # zs)) \<inter> insert h' (set ys) = {}"
  shows "ring (QUEUE_REMOVE q m) h' ys"
proof (rule ring_frame [OF assms(2)])
  have l: "dseg m h xs q" "dseg m q zs h" using assms(1) by (auto simp: ring_def)
  have "q_prev m q \<in> insert h (set xs)" using dseg_prev [OF l(1)] by (cases xs rule: rev_cases) auto
  moreover have "q_next m q \<in> insert h (set zs)" using dseg_next [OF l(2)] by (cases zs) auto
  ultimately show "q_next (QUEUE_REMOVE q m) x = q_next m x \<and> q_prev (QUEUE_REMOVE q m) x = q_prev m x"
    if "x \<in> insert h' (set ys)" for x
    using that assms(3) by (intro untouched_remove) auto
qed

section \<open>The interface the event loop relies on\<close>

text \<open>
  What the loop's code assumes of a queue: a head that names a list of cells, appended to at the
  tail, taken from at the front, and emptied into a local queue by a move.
\<close>

locale fifo =
  fixes rep :: "'m \<Rightarrow> 'a \<Rightarrow> 'a list \<Rightarrow> bool"
    and empty :: "'a \<Rightarrow> 'm \<Rightarrow> bool"
    and front :: "'a \<Rightarrow> 'm \<Rightarrow> 'a"
    and append_tail :: "'a \<Rightarrow> 'a \<Rightarrow> 'm \<Rightarrow> 'm"
    and unlink :: "'a \<Rightarrow> 'm \<Rightarrow> 'm"
    and move :: "'a \<Rightarrow> 'a \<Rightarrow> 'm \<Rightarrow> 'm"
  assumes rep_empty: "rep m h xs \<Longrightarrow> empty h m = (xs = [])"
    and rep_front: "rep m h (x # xs) \<Longrightarrow> front h m = x"
    and rep_append: "rep m h xs \<Longrightarrow> q \<noteq> h \<Longrightarrow> q \<notin> set xs \<Longrightarrow> rep (append_tail h q m) h (xs @ [q])"
    and rep_unlink: "rep m h (xs @ q # ys) \<Longrightarrow> rep (unlink q m) h (xs @ ys)"
    and rep_move: "rep m h xs \<Longrightarrow> n \<noteq> h \<Longrightarrow> n \<notin> set xs \<Longrightarrow> rep (move h n m) n xs"
    and rep_move_old: "rep m h xs \<Longrightarrow> n \<noteq> h \<Longrightarrow> n \<notin> set xs \<Longrightarrow> rep (move h n m) h []"

text \<open>
  The drain loop that \<open>uv__run_pending\<close>, \<open>uv__work_done\<close>, \<open>uv__async_event\<close> and the loop
  watchers share: take the head off, remove it, handle it, until the queue is empty.  The
  operations are arguments, so that the pointer model below runs the same loop.
\<close>

fun drain :: "('a \<Rightarrow> 'm \<Rightarrow> bool) \<Rightarrow> ('a \<Rightarrow> 'm \<Rightarrow> 'a) \<Rightarrow> ('a \<Rightarrow> 'm \<Rightarrow> 'm) \<Rightarrow>
    nat \<Rightarrow> 'a \<Rightarrow> 'm \<Rightarrow> ('a list \<times> 'm) option" where
  "drain emp hd_of rm 0 h m = (if emp h m then Some ([], m) else None)"
| "drain emp hd_of rm (Suc n) h m =
     (if emp h m then Some ([], m)
      else let q = hd_of h m
           in map_option (\<lambda>(qs, m'). (q # qs, m')) (drain emp hd_of rm n h (rm q m)))"

context fifo
begin

lemma drain_all:
  "rep m h xs \<Longrightarrow> length xs \<le> n \<Longrightarrow>
   \<exists>m'. drain empty front unlink n h m = Some (xs, m') \<and> rep m' h []"
proof (induction xs arbitrary: n m)
  case Nil
  then show ?case by (cases n) (auto simp: rep_empty)
next
  case (Cons x xs)
  then obtain k where n: "n = Suc k" "length xs \<le> k" by (cases n) auto
  have "rep (unlink x m) h xs" using rep_unlink [of m h "[]" x xs] Cons.prems by simp
  from Cons.IH [OF this n(2)] Cons.prems n show ?case
    by (auto simp: rep_empty rep_front)
qed

lemma move_drain:
  assumes "rep m h xs" "n \<noteq> h" "n \<notin> set xs" "length xs \<le> k"
  shows "\<exists>m'. drain empty front unlink k n (move h n m) = Some (xs, m') \<and> rep m' n []"
  using drain_all [OF rep_move [OF assms(1-3)] assms(4)] .

end

interpretation qq: fifo ring QUEUE_EMPTY QUEUE_HEAD QUEUE_INSERT_TAIL QUEUE_REMOVE QUEUE_MOVE
  by unfold_locales (auto simp: ring_empty ring_head ring_move intro: ring_insert_tail ring_remove)

section \<open>Properties\<close>

text \<open>C25: the link updates of \<open>QUEUE_INSERT_HEAD\<close>, \<open>QUEUE_INSERT_TAIL\<close> and \<open>QUEUE_REMOVE\<close> are
  the insertion at either end and the removal from anywhere of a list, and \<open>QUEUE_FOREACH\<close> ends and
  visits the list in order.\<close>
theorem queue_edits_lists:
  assumes "ring m h (xs @ ys)" and "q \<notin> insert h (set (xs @ ys))"
  shows "ring (QUEUE_INSERT_TAIL h q m) h (xs @ ys @ [q])
    \<and> ring (QUEUE_INSERT_HEAD h q m) h (q # xs @ ys)
    \<and> (ys \<noteq> [] \<longrightarrow> ring (QUEUE_REMOVE (hd ys) m) h (xs @ tl ys))
    \<and> QUEUE_FOREACH h m = Some (xs @ ys)"
  using assms ring_insert_tail [OF assms] ring_insert_head [OF assms] ring_foreach [OF assms(1)]
  by (cases ys) (auto intro: ring_remove)

definition three_cells :: qmem where
  "three_cells = QUEUE_INSERT_TAIL 0 3 (QUEUE_INSERT_TAIL 0 2 (QUEUE_INSERT_TAIL 0 1
     (QUEUE_INIT 0 \<lparr>q_next = (\<lambda>_. 9), q_prev = (\<lambda>_. 9)\<rparr>)))"

lemma three_cells_ring: "ring three_cells 0 [1, 2, 3]"
proof -
  have "ring three_cells 0 ((([] @ [1]) @ [2]) @ [3])"
    unfolding three_cells_def by (intro ring_insert_tail ring_init) auto
  then show ?thesis by simp
qed

theorem queue_edits_lists_witness:
  "ring (QUEUE_REMOVE 2 three_cells) 0 [1, 3] \<and> ring (QUEUE_INSERT_HEAD 0 7 three_cells) 0 [7, 1, 2, 3]
    \<and> QUEUE_FOREACH 0 three_cells = Some [1, 2, 3]"
  using queue_edits_lists [of three_cells 0 "[1]" "[2, 3]" 7] three_cells_ring by simp

text \<open>\<open>QUEUE_SPLIT\<close> cuts a queue in two at any of its elements and \<open>QUEUE_ADD\<close> appends one queue
  to another, so that adding the cut part back gives the queue it was cut from.\<close>
theorem queue_split_add:
  assumes "ring m h (xs @ q # ys)" and "n \<notin> insert h (set (xs @ q # ys))"
  shows "ring (QUEUE_SPLIT h q n m) h xs \<and> ring (QUEUE_SPLIT h q n m) n (q # ys)
    \<and> ring (QUEUE_ADD h n (QUEUE_SPLIT h q n m)) h (xs @ q # ys)"
proof -
  have s: "ring (QUEUE_SPLIT h q n m) n (q # ys)" "ring (QUEUE_SPLIT h q n m) h xs"
    using ring_split [OF assms] by simp_all
  have "distinct (h # xs @ q # ys)" using assms(1) by (simp add: ring_def)
  then have "insert h (set xs) \<inter> insert n (set (q # ys)) = {}" using assms(2) by auto
  then show ?thesis using s ring_add [OF s(2,1)] by simp
qed

theorem queue_split_add_witness:
  "ring (QUEUE_SPLIT 0 2 9 three_cells) 0 [1] \<and> ring (QUEUE_SPLIT 0 2 9 three_cells) 9 [2, 3]
    \<and> ring (QUEUE_ADD 0 9 (QUEUE_SPLIT 0 2 9 three_cells)) 0 [1, 2, 3]"
  using queue_split_add [of three_cells 0 "[1]" 2 "[3]" 9] three_cells_ring by simp

text \<open>moving a queue to a local head and taking its elements off one by one, as the loop does
  with pending watchers, finished work and async handles, visits every element once in the order of
  insertion, ends, and leaves both queues empty.\<close>
theorem queue_move_drain:
  assumes "ring m h xs" "n \<noteq> h" "n \<notin> set xs" "length xs \<le> k"
  shows "\<exists>m'. drain QUEUE_EMPTY QUEUE_HEAD QUEUE_REMOVE k n (QUEUE_MOVE h n m) = Some (xs, m')
    \<and> ring m' n [] \<and> ring (QUEUE_MOVE h n m) h []"
  using qq.move_drain [OF assms] qq.rep_move_old [OF assms(1-3)] by blast

theorem queue_move_drain_witness:
  "\<exists>m'. drain QUEUE_EMPTY QUEUE_HEAD QUEUE_REMOVE 3 9 (QUEUE_MOVE 0 9 three_cells) = Some ([1, 2, 3], m')"
  using queue_move_drain [OF three_cells_ring, of 9 3] by auto

end
