(* ===== verification/Heap_Inl.thy ===== *)
theory Heap_Inl
  imports Prelude
begin

unbundle bit_operations_syntax

text \<open>
  The intrusive binary min heap of \<open>src/heap-inl.h\<close>, pointer by pointer.  A store maps the
  address of a \<open>heap_node\<close> to its three links, \<open>struct heap\<close> is the root pointer and the element
  count, and the operations are the code's link updates.  The proof reads the structure as the
  array it encodes: \<open>heap_rep h n A\<close> says that \<open>A 1, \<dots>, A n\<close> are the nodes in level order, so
  that the children of position \<open>i\<close> sit at \<open>2 * i\<close> and \<open>2 * i + 1\<close>; a swap of parent and child
  exchanges two entries of \<open>A\<close>, and the walk along the path bits ends at position \<open>n\<close>.
\<close>

section \<open>The nodes and the operations\<close>

record heap_node =
  h_left :: ptr
  h_right :: ptr
  h_parent :: ptr

record heap =
  h_min :: ptr
  h_nelts :: u32
  h_mem :: "addr \<Rightarrow> heap_node"

definition set_left :: "addr \<Rightarrow> ptr \<Rightarrow> heap \<Rightarrow> heap" where
  "set_left a v h = h\<lparr>h_mem := (h_mem h)(a := (h_mem h a)\<lparr>h_left := v\<rparr>)\<rparr>"

definition set_right :: "addr \<Rightarrow> ptr \<Rightarrow> heap \<Rightarrow> heap" where
  "set_right a v h = h\<lparr>h_mem := (h_mem h)(a := (h_mem h a)\<lparr>h_right := v\<rparr>)\<rparr>"

definition set_parent :: "addr \<Rightarrow> ptr \<Rightarrow> heap \<Rightarrow> heap" where
  "set_parent a v h = h\<lparr>h_mem := (h_mem h)(a := (h_mem h a)\<lparr>h_parent := v\<rparr>)\<rparr>"

text \<open>\<open>if (p != NULL) p->parent = v\<close>\<close>

definition set_parent_of :: "ptr \<Rightarrow> addr \<Rightarrow> heap \<Rightarrow> heap" where
  "set_parent_of p v h = (case p of None \<Rightarrow> h | Some a \<Rightarrow> set_parent a (Some v) h)"

definition heap_init :: "heap \<Rightarrow> heap" where
  "heap_init h = h\<lparr>h_min := None, h_nelts := 0\<rparr>"

definition heap_min :: "heap \<Rightarrow> ptr" where
  "heap_min h = h_min h"

text \<open>The node \<open>old\<close>, child of \<open>up\<close> (or the root when there is none), gives its place to \<open>new\<close>.\<close>

definition replace_in_parent :: "ptr \<Rightarrow> addr \<Rightarrow> addr \<Rightarrow> heap \<Rightarrow> heap" where
  "replace_in_parent up old new h =
     (case up of
        None \<Rightarrow> h\<lparr>h_min := Some new\<rparr>
      | Some u \<Rightarrow> if h_left (h_mem h u) = Some old then set_left u (Some new) h
                 else set_right u (Some new) h)"

text \<open>
  The swap in three steps: exchange the two records, hook the old parent below the child (this
  tells which side the sibling is on), then redirect the links of the neighbours.
\<close>

definition swap_records :: "addr \<Rightarrow> addr \<Rightarrow> heap \<Rightarrow> heap" where
  "swap_records parent child h =
     (let t = h_mem h parent;
          h = h\<lparr>h_mem := (h_mem h)(parent := h_mem h child)\<rparr>;
          h = h\<lparr>h_mem := (h_mem h)(child := t)\<rparr>
      in set_parent parent (Some child) h)"

definition swap_hook :: "addr \<Rightarrow> addr \<Rightarrow> heap \<Rightarrow> heap \<times> ptr" where
  "swap_hook parent child h =
     (if h_left (h_mem h child) = Some child
      then (let h = set_left child (Some parent) h in (h, h_right (h_mem h child)))
      else (let h = set_right child (Some parent) h in (h, h_left (h_mem h child))))"

definition swap_relink :: "addr \<Rightarrow> addr \<Rightarrow> ptr \<Rightarrow> heap \<Rightarrow> heap" where
  "swap_relink parent child sibling h =
     (let h = set_parent_of sibling child h;
          h = set_parent_of (h_left (h_mem h parent)) parent h;
          h = set_parent_of (h_right (h_mem h parent)) parent h
      in replace_in_parent (h_parent (h_mem h child)) parent child h)"

definition heap_node_swap :: "addr \<Rightarrow> addr \<Rightarrow> heap \<Rightarrow> heap" where
  "heap_node_swap parent child h =
     (let h = swap_records parent child h;
          (h, sibling) = swap_hook parent child h
      in swap_relink parent child sibling h)"

text \<open>
  \<open>for (k = 0, n = ...; n >= 2; k += 1, n /= 2) path = (path << 1) | (n & 1);\<close>
\<close>

function heap_path :: "u32 \<Rightarrow> u32 \<Rightarrow> u32 \<Rightarrow> u32 \<times> u32" where
  "heap_path path k n =
     (if n \<ge> 2 then heap_path (push_bit 1 path OR (n AND 1)) (k + 1) (n div 2) else (path, k))"
  by pat_completeness auto
termination
  by (relation "measure (\<lambda>(path, k, n). unat n)")
     (auto simp: unat_div word_le_nat_alt)

text \<open>A \<open>struct heap_node **\<close>: the address of one of the three kinds of link.\<close>

datatype slot = Min_slot | Left_slot addr | Right_slot addr

fun read_slot :: "heap \<Rightarrow> slot \<Rightarrow> ptr" where
  "read_slot h Min_slot = h_min h"
| "read_slot h (Left_slot a) = h_left (h_mem h a)"
| "read_slot h (Right_slot a) = h_right (h_mem h a)"

fun write_slot :: "slot \<Rightarrow> ptr \<Rightarrow> heap \<Rightarrow> heap" where
  "write_slot Min_slot v h = h\<lparr>h_min := v\<rparr>"
| "write_slot (Left_slot a) v h = set_left a v h"
| "write_slot (Right_slot a) v h = set_right a v h"

text \<open>
  The walk along the path bits, lowest bit first.  It yields the slots \<open>parent\<close> and \<open>child\<close>;
  \<open>None\<close> is the dereference of a \<open>NULL\<close> link.
\<close>

fun heap_walk :: "heap \<Rightarrow> nat \<Rightarrow> u32 \<Rightarrow> slot \<times> slot \<Rightarrow> (slot \<times> slot) option" where
  "heap_walk h 0 path (up, cur) = Some (up, cur)"
| "heap_walk h (Suc k) path (up, cur) =
     (case read_slot h cur of
        None \<Rightarrow> None
      | Some a \<Rightarrow> heap_walk h k (drop_bit 1 path)
          (cur, if path AND 1 \<noteq> 0 then Right_slot a else Left_slot a))"

text \<open>The two loops that restore the order; they need not end on a damaged structure.\<close>

partial_function (option) heap_up :: "(addr \<Rightarrow> addr \<Rightarrow> bool) \<Rightarrow> addr \<Rightarrow> heap \<Rightarrow> heap option" where
  "heap_up lt node h =
     (case h_parent (h_mem h node) of
        None \<Rightarrow> Some h
      | Some p \<Rightarrow> if lt node p then heap_up lt node (heap_node_swap p node h) else Some h)"

definition smaller_child :: "(addr \<Rightarrow> addr \<Rightarrow> bool) \<Rightarrow> addr \<Rightarrow> heap \<Rightarrow> addr" where
  "smaller_child lt child h =
     (let smallest = child;
          smallest = (case h_left (h_mem h child) of
             None \<Rightarrow> smallest | Some l \<Rightarrow> if lt l smallest then l else smallest);
          smallest = (case h_right (h_mem h child) of
             None \<Rightarrow> smallest | Some r \<Rightarrow> if lt r smallest then r else smallest)
      in smallest)"

partial_function (option) heap_down :: "(addr \<Rightarrow> addr \<Rightarrow> bool) \<Rightarrow> addr \<Rightarrow> heap \<Rightarrow> heap option" where
  "heap_down lt child h =
     (let smallest = smaller_child lt child h
      in if smallest = child then Some h
         else heap_down lt child (heap_node_swap child smallest h))"

definition heap_insert :: "addr \<Rightarrow> (addr \<Rightarrow> addr \<Rightarrow> bool) \<Rightarrow> heap \<Rightarrow> heap option" where
  "heap_insert newnode lt h =
     (let h = set_left newnode None h;
          h = set_right newnode None h;
          h = set_parent newnode None h;
          (path, k) = heap_path 0 0 (1 + h_nelts h)
      in case heap_walk h (unat k) path (Min_slot, Min_slot) of
           None \<Rightarrow> None
         | Some (parent, child) \<Rightarrow>
             (let h = set_parent newnode (read_slot h parent) h;
                  h = write_slot child (Some newnode) h;
                  h = h\<lparr>h_nelts := h_nelts h + 1\<rparr>
              in heap_up lt newnode h))"

text \<open>The last node \<open>child\<close> replaces the node to be deleted.\<close>

definition take_over :: "addr \<Rightarrow> addr \<Rightarrow> heap \<Rightarrow> heap" where
  "take_over node child h =
     (let h = set_left child (h_left (h_mem h node)) h;
          h = set_right child (h_right (h_mem h node)) h;
          h = set_parent child (h_parent (h_mem h node)) h;
          h = set_parent_of (h_left (h_mem h child)) child h;
          h = set_parent_of (h_right (h_mem h child)) child h
      in replace_in_parent (h_parent (h_mem h node)) node child h)"

definition heap_remove :: "addr \<Rightarrow> (addr \<Rightarrow> addr \<Rightarrow> bool) \<Rightarrow> heap \<Rightarrow> heap option" where
  "heap_remove node lt h =
     (if h_nelts h = 0 then Some h
      else
        let (path, k) = heap_path 0 0 (h_nelts h)
        in case heap_walk h (unat k) path (Min_slot, Min_slot) of
             None \<Rightarrow> None
           | Some (_, max_slot) \<Rightarrow>
             (case read_slot h max_slot of
                None \<Rightarrow> None
              | Some child \<Rightarrow>
                 (let h = h\<lparr>h_nelts := h_nelts h - 1\<rparr>;
                      h = write_slot max_slot None h
                  in if child = node then
                       Some (if Some child = h_min h then h\<lparr>h_min := None\<rparr> else h)
                     else
                       let h = take_over node child h
                       in Option.bind (heap_down lt child h) (heap_up lt child))))"

definition heap_dequeue :: "(addr \<Rightarrow> addr \<Rightarrow> bool) \<Rightarrow> heap \<Rightarrow> heap option" where
  "heap_dequeue lt h =
     (if h_nelts h = 0 then Some h
      else case h_min h of None \<Rightarrow> None | Some m \<Rightarrow> heap_remove m lt h)"

section \<open>The array the nodes encode\<close>

text \<open>The node at a position, \<open>NULL\<close> outside \<open>1..n\<close>; position \<open>1 div 2 = 0\<close> has none.\<close>

definition at :: "nat \<Rightarrow> (nat \<Rightarrow> addr) \<Rightarrow> nat \<Rightarrow> ptr" where
  "at n A j = (if 1 \<le> j \<and> j \<le> n then Some (A j) else None)"

definition node_at :: "nat \<Rightarrow> (nat \<Rightarrow> addr) \<Rightarrow> nat \<Rightarrow> heap_node" where
  "node_at n A i = \<lparr>h_left = at n A (2 * i), h_right = at n A (2 * i + 1), h_parent = at n A (i div 2)\<rparr>"

definition heap_rep :: "heap \<Rightarrow> nat \<Rightarrow> (nat \<Rightarrow> addr) \<Rightarrow> bool" where
  "heap_rep h n A \<longleftrightarrow>
     inj_on A {1..n} \<and> h_min h = at n A 1 \<and> (\<forall>i \<in> {1..n}. h_mem h (A i) = node_at n A i)"

definition swap_at :: "nat \<Rightarrow> nat \<Rightarrow> (nat \<Rightarrow> addr) \<Rightarrow> nat \<Rightarrow> addr" where
  "swap_at i j A = A(i := A j, j := A i)"

lemma link_simps [simp]:
  "h_mem (set_left a v h) = (h_mem h)(a := (h_mem h a)\<lparr>h_left := v\<rparr>)"
  "h_mem (set_right a v h) = (h_mem h)(a := (h_mem h a)\<lparr>h_right := v\<rparr>)"
  "h_mem (set_parent a v h) = (h_mem h)(a := (h_mem h a)\<lparr>h_parent := v\<rparr>)"
  "h_min (set_left a v h) = h_min h" "h_min (set_right a v h) = h_min h"
  "h_min (set_parent a v h) = h_min h"
  "h_nelts (set_left a v h) = h_nelts h" "h_nelts (set_right a v h) = h_nelts h"
  "h_nelts (set_parent a v h) = h_nelts h"
  by (simp_all add: set_left_def set_right_def set_parent_def)

lemma set_parent_of_simps [simp]:
  "set_parent_of None v h = h" "set_parent_of (Some a) v h = set_parent a (Some v) h"
  by (simp_all add: set_parent_of_def)

lemma heap_rep_inj: "heap_rep h n A \<Longrightarrow> i \<in> {1..n} \<Longrightarrow> j \<in> {1..n} \<Longrightarrow> A i = A j \<longleftrightarrow> i = j"
  by (auto simp: heap_rep_def dest: inj_onD)

lemma heap_rep_mem: "heap_rep h n A \<Longrightarrow> 1 \<le> i \<Longrightarrow> i \<le> n \<Longrightarrow> h_mem h (A i) = node_at n A i"
  by (auto simp: heap_rep_def)


lemma replace_in_parent_simps [simp]:
  "h_mem (replace_in_parent None a c h) = h_mem h"
  "h_min (replace_in_parent None a c h) = Some c"
  "h_mem (replace_in_parent (Some u) a c h) =
     (h_mem h)(u := if h_left (h_mem h u) = Some a then (h_mem h u)\<lparr>h_left := Some c\<rparr>
                    else (h_mem h u)\<lparr>h_right := Some c\<rparr>)"
  "h_min (replace_in_parent (Some u) a c h) = h_min h"
  by (simp_all add: replace_in_parent_def)

lemma set_parent_of_mem:
  "h_mem (set_parent_of q v h) = (\<lambda>x. if Some x = q then (h_mem h x)\<lparr>h_parent := Some v\<rparr> else h_mem h x)"
  by (cases q) auto

lemma set_parent_of_min [simp]: "h_min (set_parent_of q v h) = h_min h"
  by (cases q) auto

text \<open>The swap, with \<open>a\<close> the parent, \<open>c\<close> the child, \<open>s\<close> its sibling, \<open>u\<close> the grandparent.\<close>

definition swapped :: "addr \<Rightarrow> addr \<Rightarrow> heap_node \<Rightarrow> ptr \<Rightarrow> ptr \<Rightarrow> ptr \<Rightarrow> ptr \<Rightarrow> (addr \<Rightarrow> heap_node) \<Rightarrow> addr \<Rightarrow> heap_node" where
  "swapped a c tp s l r u m x =
     (if x = c then tp
      else if x = a then \<lparr>h_left = l, h_right = r, h_parent = Some c\<rparr>
      else if Some x = s then (m x)\<lparr>h_parent := Some c\<rparr>
      else if Some x = l \<or> Some x = r then (m x)\<lparr>h_parent := Some a\<rparr>
      else if Some x = u then
        (if h_left (m x) = Some a then (m x)\<lparr>h_left := Some c\<rparr> else (m x)\<lparr>h_right := Some c\<rparr>)
      else m x)"

lemma swap_relink_mem:
  assumes "h_mem h a = \<lparr>h_left = l, h_right = r, h_parent = Some c\<rparr>" and "h_mem h c = tp" "h_parent tp = u"
    and ne: "a \<noteq> c" "Some a \<notin> {l, r, s, u}" "Some c \<notin> {l, r, s, u}"
    and "u = None \<or> u \<notin> {l, r, s}" and "s = None \<or> s \<notin> {l, r}"
  shows "h_mem (swap_relink a c s h) = swapped a c tp s l r u (h_mem h)"
    and "h_min (swap_relink a c s h) = (if u = None then Some c else h_min h)"
proof -
  define h3 where "h3 = set_parent_of r a (set_parent_of l a (set_parent_of s c h))"
  have 1: "swap_relink a c s h = replace_in_parent u a c h3"
    using assms by (auto simp: h3_def swap_relink_def Let_def set_parent_of_mem)
  have 2: "h_mem h3 = (\<lambda>x. if x = c then tp else if x = a then h_mem h a
      else if Some x = s then (h_mem h x)\<lparr>h_parent := Some c\<rparr>
      else if Some x = l \<or> Some x = r then (h_mem h x)\<lparr>h_parent := Some a\<rparr> else h_mem h x)"
    using assms by (auto simp: h3_def set_parent_of_mem fun_eq_iff)
  have 3: "h_min h3 = h_min h" by (simp add: h3_def)
  show "h_mem (swap_relink a c s h) = swapped a c tp s l r u (h_mem h)"
  proof (cases u)
    case None
    then show ?thesis using assms(1) by (simp add: 1 2 swapped_def fun_eq_iff)
  next
    case (Some x)
    with ne assms(7) have "x \<noteq> a" "x \<noteq> c" "Some x \<noteq> s" "Some x \<noteq> l" "Some x \<noteq> r" by auto
    with Some show ?thesis using assms(1) by (simp add: 1 2 swapped_def fun_eq_iff)
  qed
  show "h_min (swap_relink a c s h) = (if u = None then Some c else h_min h)"
    by (cases u) (simp_all add: 1 3)
qed

lemma swapped_cong: "(\<And>x. x \<noteq> a \<Longrightarrow> x \<noteq> c \<Longrightarrow> m x = m' x) \<Longrightarrow> swapped a c tp s l r u m = swapped a c tp s l r u m'"
  by (auto simp: swapped_def fun_eq_iff)

lemma heap_node_swap_left:
  assumes a: "h_mem h a = \<lparr>h_left = Some c, h_right = s, h_parent = u\<rparr>"
    and c: "h_mem h c = \<lparr>h_left = l, h_right = r, h_parent = Some a\<rparr>"
    and ne: "a \<noteq> c" "Some a \<notin> {l, r, s, u}" "Some c \<notin> {l, r, s, u}"
    and us: "u = None \<or> u \<notin> {l, r, s}" and sl: "s = None \<or> s \<notin> {l, r}"
  shows "h_mem (heap_node_swap a c h) = swapped a c \<lparr>h_left = Some a, h_right = s, h_parent = u\<rparr> s l r u (h_mem h)"
    and "h_min (heap_node_swap a c h) = (if u = None then Some c else h_min h)"
proof -
  let ?h = "set_left c (Some a) (swap_records a c h)"
  have 1: "heap_node_swap a c h = swap_relink a c s ?h"
    using assms by (simp add: heap_node_swap_def swap_hook_def swap_records_def)
  have 2: "h_mem ?h = (h_mem h)(a := \<lparr>h_left = l, h_right = r, h_parent = Some c\<rparr>,
       c := \<lparr>h_left = Some a, h_right = s, h_parent = u\<rparr>)" and 3: "h_min ?h = h_min h"
    using a c ne(1) by (simp_all add: swap_records_def Let_def fun_eq_iff)
  have pa: "h_mem ?h a = \<lparr>h_left = l, h_right = r, h_parent = Some c\<rparr>"
    and pc: "h_mem ?h c = \<lparr>h_left = Some a, h_right = s, h_parent = u\<rparr>" and pu: "h_parent \<lparr>h_left = Some a, h_right = s, h_parent = u\<rparr> = u"
    using ne(1) by (simp_all add: 2 del: link_simps)
  note m = swap_relink_mem [OF pa pc pu ne us sl]
  have "swapped a c \<lparr>h_left = Some a, h_right = s, h_parent = u\<rparr> s l r u (h_mem ?h) = swapped a c \<lparr>h_left = Some a, h_right = s, h_parent = u\<rparr> s l r u (h_mem h)"
    by (rule swapped_cong) (simp add: 2 del: link_simps)
  then show "h_mem (heap_node_swap a c h) = swapped a c \<lparr>h_left = Some a, h_right = s, h_parent = u\<rparr> s l r u (h_mem h)"
    unfolding 1 m(1) .
  show "h_min (heap_node_swap a c h) = (if u = None then Some c else h_min h)"
    unfolding 1 m(2) 3 ..
qed

lemma heap_node_swap_right:
  assumes a: "h_mem h a = \<lparr>h_left = s, h_right = Some c, h_parent = u\<rparr>"
    and c: "h_mem h c = \<lparr>h_left = l, h_right = r, h_parent = Some a\<rparr>"
    and ne: "a \<noteq> c" "Some a \<notin> {l, r, s, u}" "Some c \<notin> {l, r, s, u}"
    and us: "u = None \<or> u \<notin> {l, r, s}" and sl: "s = None \<or> s \<notin> {l, r}"
  shows "h_mem (heap_node_swap a c h) = swapped a c \<lparr>h_left = s, h_right = Some a, h_parent = u\<rparr> s l r u (h_mem h)"
    and "h_min (heap_node_swap a c h) = (if u = None then Some c else h_min h)"
proof -
  let ?h = "set_right c (Some a) (swap_records a c h)"
  have sc: "s \<noteq> Some c" using ne(3) by auto
  have 1: "heap_node_swap a c h = swap_relink a c s ?h"
    using assms sc by (simp add: heap_node_swap_def swap_hook_def swap_records_def)
  have 2: "h_mem ?h = (h_mem h)(a := \<lparr>h_left = l, h_right = r, h_parent = Some c\<rparr>,
       c := \<lparr>h_left = s, h_right = Some a, h_parent = u\<rparr>)" and 3: "h_min ?h = h_min h"
    using a c ne(1) by (simp_all add: swap_records_def Let_def fun_eq_iff)
  have pa: "h_mem ?h a = \<lparr>h_left = l, h_right = r, h_parent = Some c\<rparr>"
    and pc: "h_mem ?h c = \<lparr>h_left = s, h_right = Some a, h_parent = u\<rparr>" and pu: "h_parent \<lparr>h_left = s, h_right = Some a, h_parent = u\<rparr> = u"
    using ne(1) by (simp_all add: 2 del: link_simps)
  note m = swap_relink_mem [OF pa pc pu ne us sl]
  have "swapped a c \<lparr>h_left = s, h_right = Some a, h_parent = u\<rparr> s l r u (h_mem ?h) = swapped a c \<lparr>h_left = s, h_right = Some a, h_parent = u\<rparr> s l r u (h_mem h)"
    by (rule swapped_cong) (simp add: 2 del: link_simps)
  then show "h_mem (heap_node_swap a c h) = swapped a c \<lparr>h_left = s, h_right = Some a, h_parent = u\<rparr> s l r u (h_mem h)"
    unfolding 1 m(1) .
  show "h_min (heap_node_swap a c h) = (if u = None then Some c else h_min h)"
    unfolding 1 m(2) 3 ..
qed

lemma swap_at_inj:
  assumes "inj_on A {1..n}" "i \<in> {1..n}" "j \<in> {1..n}"
  shows "inj_on (swap_at i j A) {1..n}"
proof (rule inj_onI)
  fix x y
  assume "x \<in> {1..n}" "y \<in> {1..n}" "swap_at i j A x = swap_at i j A y"
  then show "x = y"
    using assms inj_on_eq_iff [OF assms(1)]
    by (cases "x = i"; cases "x = j"; cases "y = i"; cases "y = j") (simp_all add: swap_at_def)
qed

text \<open>A position of the array is the child, the parent, the sibling, below, above, or elsewhere.\<close>


lemma at_in [simp]: "1 \<le> j \<Longrightarrow> j \<le> n \<Longrightarrow> at n A j = Some (A j)"
  by (simp add: at_def)

lemma at_out [simp]: "j = 0 \<or> n < j \<Longrightarrow> at n A j = None"
  by (auto simp: at_def)

lemma at_eq_None: "at n A j = None \<longleftrightarrow> j = 0 \<or> n < j"
  by (auto simp: at_def)

lemma at_eq:
  assumes "inj_on A {1..n}" "x \<in> {1..n}"
  shows "at n A y = Some (A x) \<longleftrightarrow> y = x" "Some (A x) = at n A y \<longleftrightarrow> y = x"
  using assms by (auto simp: at_def inj_on_eq_iff)

lemma at_eq_at:
  assumes "inj_on A {1..n}" "x \<in> {1..n}"
  shows "at n A x = at n A y \<longleftrightarrow> y = x" "at n A y = at n A x \<longleftrightarrow> y = x"
  using assms by (auto simp: at_def inj_on_eq_iff)

lemma swap_at_apply [simp]:
  "i \<noteq> k \<Longrightarrow> swap_at i k A i = A k" "swap_at i k A k = A i" "j \<noteq> i \<Longrightarrow> j \<noteq> k \<Longrightarrow> swap_at i k A j = A j"
  by (simp_all add: swap_at_def)

lemma at_swap:
  assumes "i \<in> {1..n}" "k \<in> {1..n}" "i \<noteq> k"
  shows "at n (swap_at i k A) j = (if j = i then Some (A k) else if j = k then Some (A i) else at n A j)"
  using assms by (auto simp: at_def swap_at_def)

lemma heap_swap_rep:
  assumes rep: "heap_rep h n A" and i: "2 \<le> i" "i \<le> n"
  shows "heap_rep (heap_node_swap (A (i div 2)) (A i) h) n (swap_at i (i div 2) A)"
proof -
  define p where "p = i div 2"
  define b where "b = (if even i then i + 1 else i - 1)"
  have ib: "i = 2 * p \<and> b = 2 * p + 1 \<or> i = 2 * p + 1 \<and> b = 2 * p" and p: "1 \<le> p" "p < i" "p \<le> n"
    using i unfolding p_def b_def by auto
  let ?a = "A p" and ?c = "A i" and ?B = "swap_at i p A" and ?h = "heap_node_swap (A p) (A i) h"
  let ?s = "at n A b" and ?l = "at n A (2 * i)" and ?r = "at n A (2 * i + 1)" and ?u = "at n A (p div 2)"
  let ?tp = "if i = 2 * p then \<lparr>h_left = Some ?a, h_right = ?s, h_parent = ?u\<rparr>
             else \<lparr>h_left = ?s, h_right = Some ?a, h_parent = ?u\<rparr>"
  have inj: "inj_on A {1..n}" using rep by (simp add: heap_rep_def)
  have pin: "p \<in> {1..n}" "i \<in> {1..n}" using i p by auto
  note eqs = at_eq [OF inj pin(1)] at_eq [OF inj pin(2)] inj_on_eq_iff [OF inj pin]
  have mem: "h_mem h (A j) = node_at n A j" if "j \<in> {1..n}" for j
    using rep that by (auto simp: heap_rep_def)
  have c: "h_mem h ?c = \<lparr>h_left = ?l, h_right = ?r, h_parent = Some ?a\<rparr>"
    using mem [OF pin(2)] p i ib by (auto simp: node_at_def)
  have ne: "?a \<noteq> ?c" "Some ?a \<notin> {?l, ?r, ?s, ?u}" "Some ?c \<notin> {?l, ?r, ?s, ?u}"
    using p ib by (auto simp: eqs)
  have us: "?u = None \<or> ?u \<notin> {?l, ?r, ?s}"
  proof (cases "p = 1")
    case False
    then have pd: "p div 2 \<in> {1..n}" using p by auto
    have "p div 2 \<noteq> b" "p div 2 \<noteq> 2 * i" "p div 2 \<noteq> 2 * i + 1" using p ib by auto
    then show ?thesis by (auto simp: at_eq_at [OF inj pd] simp del: at_in)
  qed simp
  have sl: "?s = None \<or> ?s \<notin> {?l, ?r}"
  proof (cases "b \<le> n")
    case True
    then have sin: "b \<in> {1..n}" using ib p by auto
    have "b \<noteq> 2 * i" "b \<noteq> 2 * i + 1" using p ib by auto
    with sin show ?thesis using at_eq_at [OF inj sin] by (metis insertE singletonD)
  qed simp
  have mm: "h_mem ?h = swapped ?a ?c ?tp ?s ?l ?r ?u (h_mem h) \<and> h_min ?h = (if ?u = None then Some ?c else h_min h)"
  proof (cases "i = 2 * p")
    case True
    have a: "h_mem h ?a = \<lparr>h_left = Some ?c, h_right = ?s, h_parent = ?u\<rparr>"
      using mem [OF pin(1)] p i ib True by (auto simp: node_at_def)
    from heap_node_swap_left [OF a c ne us sl] True show ?thesis by simp
  next
    case False
    then have a: "h_mem h ?a = \<lparr>h_left = ?s, h_right = Some ?c, h_parent = ?u\<rparr>"
      using mem [OF pin(1)] p i ib by (auto simp: node_at_def)
    from heap_node_swap_right [OF a c ne us sl] False show ?thesis by simp
  qed
  note m = conjunct1 [OF mm] conjunct2 [OF mm]
  have "inj_on ?B {1..n}" using inj pin by (intro swap_at_inj) auto
  moreover have "h_min ?h = at n ?B 1"
    using m(2) rep p ib i by (cases "p = 1") (auto simp: heap_rep_def swap_at_def at_eq_None)
  moreover have "h_mem ?h (?B j) = node_at n ?B j" if j: "j \<in> {1..n}" for j
  proof -
    note eqj = at_eq [OF inj j] inj_on_eq_iff [OF inj j] at_eq_at [OF inj j]
    consider "j = p" | "j = i" | "j \<noteq> p" "j \<noteq> i" by blast
    then show ?thesis
    proof cases
      case 1
      have "p div 2 \<noteq> p" "p div 2 \<noteq> i" "b \<noteq> i" "b \<noteq> p" "p \<noteq> i" using p ib by auto
      with 1 show ?thesis using p ib pin i by (auto simp add: m swapped_def node_at_def at_swap)
    next
      case 2
      have "2 * i \<noteq> p" "2 * i + 1 \<noteq> p" "i div 2 = p" "p \<noteq> i" using p ib by auto
      with 2 show ?thesis using p i ib pin ne(1) by (simp add: m swapped_def node_at_def at_swap)
    next
      case 3
      have Aj: "A j \<noteq> ?a" "A j \<noteq> ?c" using 3 pin by (simp_all add: eqj)
      have left: "at n ?B (2 * j) = (if 2 * j = p then Some ?c else at n A (2 * j))"
        and right: "at n ?B (2 * j + 1) = (if 2 * j + 1 = p then Some ?c else at n A (2 * j + 1))"
        and up: "at n ?B (j div 2) = (if j div 2 = i then Some ?a else if j div 2 = p then Some ?c else at n A (j div 2))"
        using 3 p pin ib by (auto simp: at_swap)
      have ix: "(Some (A j) = ?s) = (j = b)" "(Some (A j) = ?l) = (j = 2 * i)"
        "(Some (A j) = ?r) = (j = 2 * i + 1)" "(Some (A j) = ?u) = (j = p div 2)"
        by (auto simp: eqj)
      have k: "(h_left (node_at n A j) = Some ?a) = (2 * j = p)"
        by (simp add: node_at_def eqs)
      have e: "swapped ?a ?c ?tp ?s ?l ?r ?u (h_mem h) (A j)
          = (if j = b then (node_at n A j)\<lparr>h_parent := Some ?c\<rparr>
             else if j = 2 * i \<or> j = 2 * i + 1 then (node_at n A j)\<lparr>h_parent := Some ?a\<rparr>
             else if j = p div 2 then
               (if 2 * j = p then (node_at n A j)\<lparr>h_left := Some ?c\<rparr> else (node_at n A j)\<lparr>h_right := Some ?c\<rparr>)
             else node_at n A j)"
        unfolding swapped_def ix mem [OF j] k using Aj by simp
      consider "j = b" | "j = 2 * i \<or> j = 2 * i + 1" | "j = p div 2" "2 * j = p" | "j = p div 2" "2 * j + 1 = p"
        | "j \<noteq> b" "j \<noteq> 2 * i" "j \<noteq> 2 * i + 1" "j \<noteq> p div 2" by linarith
      then have "swapped ?a ?c ?tp ?s ?l ?r ?u (h_mem h) (A j)
          = \<lparr>h_left = if 2 * j = p then Some ?c else at n A (2 * j),
             h_right = if 2 * j + 1 = p then Some ?c else at n A (2 * j + 1),
             h_parent = if j div 2 = i then Some ?a else if j div 2 = p then Some ?c else at n A (j div 2)\<rparr>"
      proof cases
        case 1
        then have "2 * j \<noteq> p" "2 * j + 1 \<noteq> p" "j div 2 \<noteq> i" "j div 2 = p" using p ib by auto
        with 1 show ?thesis unfolding e by (simp add: node_at_def)
      next
        case 2
        then have "2 * j \<noteq> p" "2 * j + 1 \<noteq> p" "j div 2 = i" "j \<noteq> b" "j \<noteq> p div 2" using p ib by auto
        with 2 show ?thesis unfolding e by (simp add: node_at_def)
      next
        case 3
        then have "2 * j + 1 \<noteq> p" "j div 2 \<noteq> i" "j div 2 \<noteq> p" "j \<noteq> b" "j \<noteq> 2 * i" "j \<noteq> 2 * i + 1" using p ib by auto
        with 3 show ?thesis unfolding e by (simp add: node_at_def)
      next
        case 4
        then have "2 * j \<noteq> p" "j div 2 \<noteq> i" "j div 2 \<noteq> p" "j \<noteq> b" "j \<noteq> 2 * i" "j \<noteq> 2 * i + 1" using p ib by auto
        with 4 show ?thesis unfolding e by (simp add: node_at_def)
      next
        case 5
        then have "2 * j \<noteq> p" "2 * j + 1 \<noteq> p" "j div 2 \<noteq> i" "j div 2 \<noteq> p"
          using \<open>j \<noteq> p\<close> \<open>j \<noteq> i\<close> ib by auto
        with 5 show ?thesis unfolding e by (simp add: node_at_def)
      qed
      moreover have "?B j = A j" using 3 by simp
      ultimately show ?thesis unfolding m(1) node_at_def left right up by simp
    qed
  qed
  ultimately show ?thesis by (simp add: heap_rep_def p_def)
qed

section \<open>The order the loops restore\<close>

definition heap_ok :: "(addr \<Rightarrow> addr \<Rightarrow> bool) \<Rightarrow> nat \<Rightarrow> (nat \<Rightarrow> addr) \<Rightarrow> bool" where
  "heap_ok lt n A \<longleftrightarrow> (\<forall>j \<in> {2..n}. \<not> lt (A j) (A (j div 2)))"

definition up_inv :: "(addr \<Rightarrow> addr \<Rightarrow> bool) \<Rightarrow> nat \<Rightarrow> (nat \<Rightarrow> addr) \<Rightarrow> nat \<Rightarrow> bool" where
  "up_inv lt n A i \<longleftrightarrow>
     (\<forall>j \<in> {2..n}. j \<noteq> i \<longrightarrow> \<not> lt (A j) (A (j div 2))) \<and>
     (2 \<le> i \<longrightarrow> (\<forall>j \<in> {2..n}. j div 2 = i \<longrightarrow> \<not> lt (A j) (A (i div 2))))"

definition down_inv :: "(addr \<Rightarrow> addr \<Rightarrow> bool) \<Rightarrow> nat \<Rightarrow> (nat \<Rightarrow> addr) \<Rightarrow> nat \<Rightarrow> bool" where
  "down_inv lt n A i \<longleftrightarrow>
     (\<forall>j \<in> {2..n}. j \<noteq> i \<longrightarrow> j div 2 \<noteq> i \<longrightarrow> \<not> lt (A j) (A (j div 2))) \<and>
     (2 \<le> i \<longrightarrow> (\<forall>j \<in> {2..n}. j div 2 = i \<longrightarrow> \<not> lt (A j) (A (i div 2))))"

lemma swap_at_image: "i \<in> S \<Longrightarrow> k \<in> S \<Longrightarrow> swap_at i k A ` S = A ` S"
  unfolding swap_at_def by (auto simp: image_iff)

lemma heap_node_swap_nelts [simp]: "h_nelts (heap_node_swap a c h) = h_nelts h"
proof -
  have [simp]: "h_nelts (set_parent_of q v g) = h_nelts g" for q v g
    by (cases q) auto
  have [simp]: "h_nelts (replace_in_parent u x y g) = h_nelts g" for u x y g
    by (cases u) (auto simp: replace_in_parent_def)
  show ?thesis
    by (simp add: heap_node_swap_def swap_records_def swap_hook_def swap_relink_def Let_def)
qed

text \<open>What the heap asks of its comparison: a strict weak order.\<close>

locale heap_order =
  fixes lt :: "addr \<Rightarrow> addr \<Rightarrow> bool"
  assumes lt_asym: "lt a b \<Longrightarrow> \<not> lt b a"
    and lt_negtrans: "\<not> lt a b \<Longrightarrow> \<not> lt b c \<Longrightarrow> \<not> lt a c"
begin

lemma up_inv_swap:
  assumes "up_inv lt n A i" "2 \<le> i" "i \<le> n" and lt: "lt (A i) (A (i div 2))"
  shows "up_inv lt n (swap_at i (i div 2) A) (i div 2)"
proof -
  let ?p = "i div 2" and ?B = "swap_at i (i div 2) A"
  have ne: "?p \<noteq> i" "?p div 2 \<noteq> i" using assms(2) by auto
  have 1: "\<not> lt (A j) (A (j div 2))" if "j \<in> {2..n}" "j \<noteq> i" for j
    using assms(1) that by (auto simp: up_inv_def)
  have 2: "\<not> lt (A j) (A ?p)" if "j \<in> {2..n}" "j div 2 = i" for j
    using assms(1,2) that by (auto simp: up_inv_def)
  have pi: "\<not> lt (A ?p) (A i)" using lt by (rule lt_asym)
  have "\<not> lt (?B j) (?B (j div 2))" if j: "j \<in> {2..n}" "j \<noteq> ?p" for j
  proof -
    have jj: "j div 2 \<noteq> j" using j(1) by auto
    consider "j = i" | "j div 2 = i" "j \<noteq> i" | "j div 2 = ?p" "j \<noteq> i" | "j div 2 \<noteq> i" "j div 2 \<noteq> ?p" "j \<noteq> i" by blast
    then show ?thesis
    proof cases
      case 3
      have "\<not> lt (A j) (A i)" using lt_negtrans [OF _ pi] 1 [OF j(1) 3(2)] 3(1) by auto
      with 3 j ne show ?thesis by simp
    qed (use j ne pi 1 2 in simp_all)
  qed
  moreover have "\<not> lt (?B j) (?B (?p div 2))" if "2 \<le> ?p" "j \<in> {2..n}" "j div 2 = ?p" for j
  proof -
    have pp: "?p div 2 \<noteq> ?p" "?p \<in> {2..n}" "j \<noteq> ?p" using that assms(3) by auto
    have up: "\<not> lt (A ?p) (A (?p div 2))" using 1 pp ne by blast
    show ?thesis
    proof (cases "j = i")
      case True
      with up ne pp show ?thesis by simp
    next
      case False
      with 1 [OF that(2)] that(3) have "\<not> lt (A j) (A ?p)" by simp
      from lt_negtrans [OF this up] False ne pp show ?thesis by simp
    qed
  qed
  ultimately show ?thesis unfolding up_inv_def by blast
qed

lemma heap_up_correct:
  assumes "heap_rep h n A" "1 \<le> i" "i \<le> n" "up_inv lt n A i"
  shows "\<exists>h' B. heap_up lt (A i) h = Some h' \<and> heap_rep h' n B \<and> heap_ok lt n B \<and>
    B ` {1..n} = A ` {1..n} \<and> h_nelts h' = h_nelts h"
  using assms
proof (induction i arbitrary: h A rule: less_induct)
  case (less i)
  have mem: "h_parent (h_mem h (A i)) = at n A (i div 2)"
    using less.prems by (auto simp: heap_rep_def node_at_def)
  show ?case
  proof (cases "2 \<le> i \<and> lt (A i) (A (i div 2))")
    case False
    then have "heap_up lt (A i) h = Some h"
      using less.prems mem by (auto simp: heap_up.simps at_def)
    moreover have "heap_ok lt n A"
      using False less.prems(2,4) by (auto simp: heap_ok_def up_inv_def)
    ultimately show ?thesis using less.prems(1) by blast
  next
    case True
    let ?p = "i div 2" and ?B = "swap_at i (i div 2) A" and ?h = "heap_node_swap (A (i div 2)) (A i) h"
    have rep: "heap_rep ?h n ?B" using heap_swap_rep less.prems True by blast
    have inv: "up_inv lt n ?B ?p" using up_inv_swap less.prems True by blast
    have "?p < i" "1 \<le> ?p" "?p \<le> n" using True less.prems by auto
    from less.IH [OF this(1) rep this(2,3) inv]
    obtain h' B where "heap_up lt (?B ?p) ?h = Some h'" "heap_rep h' n B" "heap_ok lt n B"
      "B ` {1..n} = ?B ` {1..n}" "h_nelts h' = h_nelts ?h" by blast
    moreover have "?B ?p = A i" using \<open>?p < i\<close> by simp
    moreover have "at n A ?p = Some (A ?p)" using True less.prems by auto
    then have "heap_up lt (A i) h = heap_up lt (A i) ?h"
      using True mem by (simp add: heap_up.simps [of lt "A i" h])
  
    moreover have "?B ` {1..n} = A ` {1..n}"
      using True less.prems by (intro swap_at_image) auto
    ultimately show ?thesis by auto
  qed
qed

lemma smaller_child_correct:
  assumes rep: "heap_rep h n A" and i: "1 \<le> i" "i \<le> n"
  obtains m where "smaller_child lt (A i) h = A m"
    and "m = i \<or> 2 \<le> m \<and> m \<le> n \<and> m div 2 = i"
    and "\<And>j. j \<in> {2..n} \<Longrightarrow> j div 2 = i \<Longrightarrow> \<not> lt (A j) (A m)"
proof -
  have mem: "h_mem h (A i) = node_at n A i" using assms by (auto simp: heap_rep_def)
  have irr: "\<not> lt a a" for a using lt_asym by blast
  have ch: "j = 2 * i \<or> j = 2 * i + 1" if "j div 2 = i" for j using that by auto
  define m1 where "m1 = (if 2 * i \<le> n \<and> lt (A (2 * i)) (A i) then 2 * i else i)"
  define m2 where "m2 = (if 2 * i + 1 \<le> n \<and> lt (A (2 * i + 1)) (A m1) then 2 * i + 1 else m1)"
  have "smaller_child lt (A i) h = A m2"
    using i by (auto simp: smaller_child_def mem node_at_def at_def m1_def m2_def)
  moreover have "m2 = i \<or> 2 \<le> m2 \<and> m2 \<le> n \<and> m2 div 2 = i"
    using i by (auto simp: m1_def m2_def)
  moreover have "\<not> lt (A j) (A m2)" if "j \<in> {2..n}" "j div 2 = i" for j
  proof -
    have 1: "\<not> lt (A (2 * i)) (A m1)" if "2 * i \<le> n" using that irr by (auto simp: m1_def)
    have "\<not> lt (A m1) (A m2)" using irr lt_asym by (auto simp: m2_def)
    with 1 have "\<not> lt (A (2 * i)) (A m2)" if "2 * i \<le> n" using that lt_negtrans by blast
    moreover have "\<not> lt (A (2 * i + 1)) (A m2)" if "2 * i + 1 \<le> n"
      using that irr by (auto simp: m2_def)
    ultimately show ?thesis using ch [OF that(2)] that(1) by auto
  qed
  ultimately show thesis by (rule that)
qed

lemma down_inv_swap:
  assumes inv: "down_inv lt n A i" and i: "1 \<le> i" and m: "2 \<le> m" "m \<le> n" "m div 2 = i"
    and least: "\<And>j. j \<in> {2..n} \<Longrightarrow> j div 2 = i \<Longrightarrow> \<not> lt (A j) (A m)"
  shows "down_inv lt n (swap_at m i A) m"
proof -
  let ?B = "swap_at m i A"
  have ne: "m \<noteq> i" "i div 2 \<noteq> i" "i div 2 \<noteq> m" using m i by auto
  have 1: "\<not> lt (A j) (A (j div 2))" if "j \<in> {2..n}" "j \<noteq> i" "j div 2 \<noteq> i" for j
    using inv that by (auto simp: down_inv_def)
  have 2: "\<not> lt (A m) (A (i div 2))" if "2 \<le> i" using inv that m by (auto simp: down_inv_def)
  have "\<not> lt (?B j) (?B (j div 2))" if j: "j \<in> {2..n}" "j \<noteq> m" "j div 2 \<noteq> m" for j
  proof -
    consider "j = i" | "j div 2 = i" "j \<noteq> i" | "j div 2 \<noteq> i" "j \<noteq> i" by blast
    then show ?thesis
      by cases (use j ne 1 2 least in simp_all)
  qed
  moreover have "\<not> lt (?B j) (?B (m div 2))" if j: "j \<in> {2..n}" "j div 2 = m" for j
  proof -
    have "j \<noteq> i" "j \<noteq> m" using j m i by auto
    with 1 [OF j(1)] j ne m(3) show ?thesis by simp
  qed
  ultimately show ?thesis unfolding down_inv_def by blast
qed

lemma heap_down_correct:
  assumes "heap_rep h n A" "1 \<le> i" "i \<le> n" "down_inv lt n A i"
  shows "\<exists>h' B k. heap_down lt (A i) h = Some h' \<and> heap_rep h' n B \<and> B k = A i \<and> k \<in> {1..n} \<and>
    up_inv lt n B k \<and> B ` {1..n} = A ` {1..n} \<and> h_nelts h' = h_nelts h"
  using assms
proof (induction "n - i" arbitrary: i h A rule: less_induct)
  case less
  from smaller_child_correct [OF less.prems(1-3)] obtain m
    where m: "smaller_child lt (A i) h = A m" "m = i \<or> 2 \<le> m \<and> m \<le> n \<and> m div 2 = i"
      and least: "\<And>j. j \<in> {2..n} \<Longrightarrow> j div 2 = i \<Longrightarrow> \<not> lt (A j) (A m)" by blast
  have inj: "inj_on A {1..n}" using less.prems by (simp add: heap_rep_def)
  show ?case
  proof (cases "m = i")
    case True
    with m have "heap_down lt (A i) h = Some h" by (simp add: heap_down.simps)
    moreover have "up_inv lt n A i"
      using less.prems(4) least True by (auto simp: up_inv_def down_inv_def)
    ultimately show ?thesis using less.prems by (intro exI [of _ h] exI [of _ A] exI [of _ i]) auto
  next
    case False
    let ?B = "swap_at m i A" and ?h = "heap_node_swap (A i) (A m) h"
    from False m have mm: "2 \<le> m" "m \<le> n" "m div 2 = i" by auto
    have "A m \<noteq> A i" using False mm less.prems inj by (auto simp: inj_on_eq_iff)
    then have step: "heap_down lt (A i) h = heap_down lt (A i) ?h"
      using m by (simp add: heap_down.simps [of lt "A i" h])
    have rep: "heap_rep ?h n ?B" using heap_swap_rep [OF less.prems(1) mm(1,2)] mm(3) by simp
    have inv: "down_inv lt n ?B m" by (rule down_inv_swap [OF less.prems(4,2) mm least])
    have "i < m" using mm less.prems(2) by auto
    then have "n - m < n - i" "1 \<le> m" using mm by auto
    from less.hyps [OF this(1) rep this(2) mm(2) inv] obtain h' B k
      where "heap_down lt (?B m) ?h = Some h'" "heap_rep h' n B" "B k = ?B m" "k \<in> {1..n}" "up_inv lt n B k"
        "B ` {1..n} = ?B ` {1..n}" "h_nelts h' = h_nelts ?h" by blast
    moreover have "?B m = A i" using False by simp
    moreover have "?B ` {1..n} = A ` {1..n}" using mm less.prems by (intro swap_at_image) auto
    ultimately show ?thesis using step by auto
  qed
qed

end

section \<open>The path to a position\<close>

text \<open>The turns from the root to position \<open>n\<close>, as the bits of \<open>n\<close> below its leading one.\<close>

fun turns :: "nat \<Rightarrow> bool list" where
  "turns n = (if n < 2 then [] else turns (n div 2) @ [odd n])"

declare turns.simps [simp del] heap_path.simps [simp del]

lemma turns_1 [simp]: "turns 0 = []" "turns (Suc 0) = []"
  by (simp_all add: turns.simps)

lemma turns_step: "2 \<le> n \<Longrightarrow> turns n = turns (n div 2) @ [odd n]"
  by (subst turns.simps) simp

lemma length_turns: "1 \<le> n \<Longrightarrow> n < 2 ^ Suc k \<Longrightarrow> length (turns n) \<le> k"
proof (induction k arbitrary: n)
  case 0
  then show ?case by (simp add: turns.simps)
next
  case (Suc k)
  show ?case
  proof (cases "n < 2")
    case False
    then have "length (turns (n div 2)) \<le> k" using Suc.prems by (intro Suc.IH) auto
    with False show ?thesis by (simp add: turns_step)
  qed (simp add: turns.simps)
qed

text \<open>The bits \<open>path\<close> holds, lowest first, in the order the walk consumes them.\<close>

definition low_bits :: "nat \<Rightarrow> u32 \<Rightarrow> bool list" where
  "low_bits k path = map (bit path) [0..<k]"

lemma bit0_unat: "bit (n :: u32) 0 = odd (unat n)"
  by transfer (simp add: bit_0 even_nat_iff)

lemma low_bits_push:
  assumes "k < 32"
  shows "low_bits (Suc k) (push_bit 1 path OR (n AND 1)) = bit n 0 # low_bits k path"
proof -
  have "[0..<Suc k] = 0 # map Suc [0..<k]" by (simp add: map_Suc_upt upt_conv_Cons del: upt_Suc)
  moreover have "bit (push_bit 1 path OR (n AND 1)) 0 = bit n 0"
    by (simp only: bit_or_iff bit_push_bit_iff bit_and_iff bit_1_iff) simp
  moreover have "bit (push_bit 1 path OR (n AND 1)) (Suc i) = bit path i" if "i < k" for i
    using that assms by (simp only: bit_or_iff bit_push_bit_iff bit_and_iff bit_1_iff) simp
  ultimately show ?thesis by (simp only: low_bits_def list.map map_map comp_def) simp
qed

lemma heap_path_turns:
  assumes "1 \<le> unat n" "unat k + length (turns (unat n)) \<le> 32"
  shows "\<exists>path' k'. heap_path path k n = (path', k') \<and> unat k' = unat k + length (turns (unat n)) \<and>
    low_bits (unat k') path' = turns (unat n) @ low_bits (unat k) path"
  using assms
proof (induction path k n rule: heap_path.induct)
  case (1 path k n)
  show ?case
  proof (cases "2 \<le> n")
    case False
    then have "unat n = 1" using "1.prems" by (simp add: word_le_nat_alt)
    with False show ?thesis by (simp add: heap_path.simps [of path k n])
  next
    case True
    have u: "unat (n div 2) = unat n div 2" by (simp add: unat_div)
    have n2: "2 \<le> unat n" using True by (simp add: word_le_nat_alt)
    have t: "turns (unat n) = turns (unat (n div 2)) @ [odd (unat n)]" using turns_step [OF n2] u by simp
    have k: "unat (k + 1) = Suc (unat k)" using "1.prems" t by (simp add: unat_word_ariths)
    have "1 \<le> unat (n div 2)" "unat (k + 1) + length (turns (unat (n div 2))) \<le> 32"
      using n2 u k t "1.prems" by auto
    from "1.IH" [OF True this] obtain path' k'
      where "heap_path (push_bit 1 path OR (n AND 1)) (k + 1) (n div 2) = (path', k')"
        "unat k' = unat (k + 1) + length (turns (unat (n div 2)))"
        "low_bits (unat k') path' = turns (unat (n div 2)) @ low_bits (unat (k + 1)) (push_bit 1 path OR (n AND 1))"
      by blast
    moreover have "low_bits (unat (k + 1)) (push_bit 1 path OR (n AND 1)) = odd (unat n) # low_bits (unat k) path"
      using low_bits_push [of "unat k" path n] k "1.prems" t by (simp add: bit0_unat del: push_bit_Suc)
    ultimately show ?thesis using True t k by (simp add: heap_path.simps [of path k n])
  qed
qed

text \<open>The slot through which position \<open>j\<close> hangs.\<close>

definition slot_of :: "(nat \<Rightarrow> addr) \<Rightarrow> nat \<Rightarrow> slot" where
  "slot_of A j = (if j < 2 then Min_slot else if odd j then Right_slot (A (j div 2)) else Left_slot (A (j div 2)))"

text \<open>Follow the turns from position \<open>j\<close>.\<close>

fun follow :: "nat \<Rightarrow> bool list \<Rightarrow> nat" where
  "follow j [] = j"
| "follow j (b # bs) = follow (2 * j + (if b then 1 else 0)) bs"

lemma follow_append: "follow j (xs @ ys) = follow (follow j xs) ys"
  by (induction xs arbitrary: j) auto

lemma follow_turns: "1 \<le> n \<Longrightarrow> follow 1 (turns n) = n"
proof (induction n rule: less_induct)
  case (less n)
  show ?case
  proof (cases "n < 2")
    case False
    then have "follow 1 (turns (n div 2)) = n div 2" by (intro less.IH) auto
    with False show ?thesis by (auto simp: turns_step follow_append)
  qed (use less.prems in \<open>simp add: turns.simps\<close>)
qed

lemma follow_ge: "1 \<le> j \<Longrightarrow> j \<le> follow j bs"
proof (induction bs arbitrary: j)
  case (Cons b bs)
  have "2 * j + (if b then 1 else 0) \<le> follow (2 * j + (if b then 1 else 0)) bs"
    using Cons.prems by (intro Cons.IH) auto
  then show ?case by simp
qed simp

lemma low_bits_Suc: "low_bits (Suc k) path = bit path 0 # low_bits k (drop_bit 1 path)"
proof -
  have "[0..<Suc k] = 0 # map Suc [0..<k]" by (simp add: map_Suc_upt upt_conv_Cons del: upt_Suc)
  then show ?thesis by (auto simp: low_bits_def bit_simps)
qed

lemma read_slot_of: "heap_rep h n A \<Longrightarrow> 1 \<le> j \<Longrightarrow> j div 2 \<le> n \<Longrightarrow> read_slot h (slot_of A j) = at n A j"
proof -
  assume a: "heap_rep h n A" "1 \<le> j" "j div 2 \<le> n"
  show ?thesis
  proof (cases "j < 2")
    case True
    then have "j = 1" using a by auto
    with a show ?thesis by (simp add: slot_of_def heap_rep_def)
  next
    case False
    then have "j div 2 \<in> {1..n}" using a by auto
    with a have "h_mem h (A (j div 2)) = node_at n A (j div 2)" by (simp add: heap_rep_def)
    moreover have "odd j \<Longrightarrow> 2 * (j div 2) + 1 = j" "even j \<Longrightarrow> 2 * (j div 2) = j" by auto
    ultimately show ?thesis using False by (auto simp: slot_of_def node_at_def)
  qed
qed

lemma heap_walk_correct:
  assumes "heap_rep h n A" "1 \<le> j" "follow j (low_bits k path) div 2 \<le> n"
  shows "heap_walk h k path (slot_of A (j div 2), slot_of A j) =
    Some (slot_of A (follow j (low_bits k path) div 2), slot_of A (follow j (low_bits k path)))"
  using assms
proof (induction k arbitrary: j path)
  case 0
  then show ?case by (simp add: low_bits_def)
next
  case (Suc k)
  let ?j = "2 * j + (if bit path 0 then 1 else 0)"
  have f: "follow j (low_bits (Suc k) path) = follow ?j (low_bits k (drop_bit 1 path))"
    by (simp add: low_bits_Suc)
  have "?j \<le> follow ?j (low_bits k (drop_bit 1 path))" by (rule follow_ge) (use Suc.prems in simp)
  then have j: "j \<in> {1..n}" "j div 2 \<le> n" using Suc.prems(2,3) f by auto
  have "read_slot h (slot_of A j) = Some (A j)" using read_slot_of [OF Suc.prems(1)] j by auto
  moreover have "slot_of A ?j = (if path AND 1 \<noteq> 0 then Right_slot (A j) else Left_slot (A j))"
    using j by (auto simp: slot_of_def bit_0 and_one_eq odd_iff_mod_2_eq_one)
  moreover have "?j div 2 = j" by auto
  ultimately show ?case
    using Suc.IH [OF Suc.prems(1), of ?j "drop_bit 1 path"] Suc.prems f by auto
qed


section \<open>The heap as a set\<close>

definition heap_of :: "(addr \<Rightarrow> addr \<Rightarrow> bool) \<Rightarrow> heap \<Rightarrow> addr set \<Rightarrow> bool" where
  "heap_of lt h S \<longleftrightarrow>
     (\<exists>A. heap_rep h (card S) A \<and> heap_ok lt (card S) A \<and> A ` {1..card S} = S \<and> unat (h_nelts h) = card S)"

lemma heap_ofI:
  assumes "heap_rep h n A" "heap_ok lt n A" "A ` {1..n} = S" "unat (h_nelts h) = n"
  shows "heap_of lt h S"
proof -
  have "card (A ` {1..n}) = card {1..n}"
    using assms(1) by (intro card_image) (simp add: heap_rep_def)
  then have "card S = n" using assms(3) by simp
  then show ?thesis using assms by (auto simp: heap_of_def)
qed

lemma heap_ofE:
  assumes "heap_of lt h S"
  obtains A where "heap_rep h (card S) A" "heap_ok lt (card S) A" "A ` {1..card S} = S" "unat (h_nelts h) = card S"
  using assms by (auto simp: heap_of_def)

lemma heap_of_finite: "heap_of lt h S \<Longrightarrow> finite S"
  by (metis heap_of_def finite_atLeastAtMost finite_imageI)

lemma heap_of_init: "heap_of lt (heap_init h) {}"
  by (rule heap_ofI [where n = 0 and A = "\<lambda>_. 0"]) (auto simp: heap_rep_def heap_ok_def heap_init_def)

text \<open>The heap looks at the comparison of its own nodes only.\<close>

lemma heap_of_cong:
  assumes "heap_of lt h S" "\<And>a b. a \<in> S \<Longrightarrow> b \<in> S \<Longrightarrow> lt a b = lt' a b"
  shows "heap_of lt' h S"
proof -
  from assms(1) obtain A where A: "heap_rep h (card S) A" "heap_ok lt (card S) A" "A ` {1..card S} = S"
    "unat (h_nelts h) = card S" by (rule heap_ofE)
  have "heap_ok lt' (card S) A"
    unfolding heap_ok_def
  proof
    fix j assume j: "j \<in> {2..card S}"
    then have "j \<in> {1..card S}" "j div 2 \<in> {1..card S}" by auto
    then have "A j \<in> S" "A (j div 2) \<in> S" using A(3) by blast+
    then have "lt (A j) (A (j div 2)) = lt' (A j) (A (j div 2))" by (rule assms(2))
    with A(2) j show "\<not> lt' (A j) (A (j div 2))" by (auto simp: heap_ok_def)
  qed
  with A show ?thesis by (auto simp: heap_of_def)
qed

lemma heap_min_none: "heap_of lt h S \<Longrightarrow> heap_min h = None \<longleftrightarrow> S = {}"
  by (elim heap_ofE) (auto simp: heap_rep_def heap_min_def at_eq_None)

context heap_order
begin

lemma heap_root_least:
  assumes "heap_ok lt n A" "1 \<le> j" "j \<le> n"
  shows "\<not> lt (A j) (A 1)"
  using assms(2,3)
proof (induction j rule: less_induct)
  case (less j)
  show ?case
  proof (cases "j = 1")
    case False
    then have "\<not> lt (A (j div 2)) (A 1)" using less by auto
    moreover have "\<not> lt (A j) (A (j div 2))" using assms(1) less.prems False by (auto simp: heap_ok_def)
    ultimately show ?thesis using lt_negtrans by blast
  qed (use lt_asym in blast)
qed

lemma heap_min_least:
  assumes "heap_of lt h S" "heap_min h = Some m"
  shows "m \<in> S \<and> (\<forall>y \<in> S. \<not> lt y m)"
proof -
  from assms(1) obtain A where A: "heap_rep h (card S) A" "heap_ok lt (card S) A" "A ` {1..card S} = S"
    by (rule heap_ofE)
  from A(1) assms(2) have m: "1 \<le> card S" "m = A 1"
    by (auto simp: heap_rep_def heap_min_def at_def split: if_splits)
  have "\<not> lt y m" if "y \<in> S" for y
  proof -
    from that A(3) obtain j where "j \<in> {1..card S}" "y = A j" by blast
    with heap_root_least [OF A(2)] m show ?thesis by simp
  qed
  moreover have "m \<in> S" using m A(3) by (metis atLeastAtMost_iff imageI order_refl)
  ultimately show ?thesis by blast
qed

end

lemma write_slot_other:
  "2 \<le> m \<Longrightarrow> y \<noteq> A (m div 2) \<Longrightarrow> h_mem (write_slot (slot_of A m) v h) y = h_mem h y"
  by (simp add: slot_of_def)

lemma half_cases:
  obtains "2 * i = m" "even m" "i = m div 2" | "2 * i + 1 = m" "odd m" "i = m div 2"
  | "2 * i \<noteq> m" "2 * i + 1 \<noteq> m" "i \<noteq> m div (2::nat)"
proof -
  have "i = m div 2 \<Longrightarrow> 2 * i = m \<or> 2 * i + 1 = m" by presburger
  then show thesis using that by (cases "2 * i = m"; cases "2 * i + 1 = m") auto
qed

text \<open>Linking a new last node below its parent.\<close>

lemma heap_rep_append:
  assumes rep: "heap_rep h n A" and x: "x \<notin> A ` {1..n}"
    and m: "h_mem h x = \<lparr>h_left = None, h_right = None, h_parent = at n A (Suc n div 2)\<rparr>"
  shows "heap_rep (write_slot (slot_of A (Suc n)) (Some x) h) (Suc n) (A(Suc n := x))"
proof -
  let ?p = "Suc n div 2" and ?B = "A(Suc n := x)" and ?h = "write_slot (slot_of A (Suc n)) (Some x) h"
  have inj: "inj_on A {1..n}" and mem: "\<And>i. i \<in> {1..n} \<Longrightarrow> h_mem h (A i) = node_at n A i"
    using rep by (auto simp: heap_rep_def)
  have atB: "at (Suc n) ?B j = (if j = Suc n then Some x else at n A j)" for j
    by (auto simp: at_def)
  have "inj_on ?B {1..Suc n}"
  proof (rule inj_onI)
    fix i j assume "i \<in> {1..Suc n}" "j \<in> {1..Suc n}" "?B i = ?B j"
    moreover have "A i \<noteq> x" if "i \<in> {1..n}" for i using x that by blast
    ultimately show "i = j"
      using inj by (cases "i = Suc n"; cases "j = Suc n") (force simp: inj_on_eq_iff)+
  qed
  moreover have "h_min ?h = at (Suc n) ?B 1"
    using rep by (cases "n = 0") (auto simp: slot_of_def heap_rep_def at_def)
  moreover have "h_mem ?h (?B i) = node_at (Suc n) ?B i" if i: "i \<in> {1..Suc n}" for i
  proof (cases "i = Suc n")
    case True
    have "x \<noteq> A ?p" if "n \<noteq> 0"
    proof -
      have "?p \<in> {1..n}" using that by auto
      then show ?thesis using x by blast
    qed
    with True m show ?thesis by (auto simp: slot_of_def node_at_def atB at_eq_None split: if_splits)
  next
    case False
    then have i': "i \<in> {1..n}" using i by auto
    then have "?p \<in> {1..n}" by auto
    then have p: "A i = A ?p \<longleftrightarrow> i = ?p" using inj i' by (simp add: inj_on_eq_iff)
    have ne: "i div 2 \<noteq> Suc n" "i \<noteq> Suc n" "2 \<le> Suc n" using i' by auto
    consider "2 * i = Suc n" "even (Suc n)" "i = ?p" | "2 * i + 1 = Suc n" "odd (Suc n)" "i = ?p"
      | "2 * i \<noteq> Suc n" "2 * i + 1 \<noteq> Suc n" "i \<noteq> ?p" using half_cases [of i "Suc n"] by blast
    then show ?thesis
    proof cases
      case 3
      then have "h_mem ?h (A i) = h_mem h (A i)" using p ne by (intro write_slot_other) auto
      with 3 ne show ?thesis using mem [OF i'] by (simp add: node_at_def atB)
    qed (use mem [OF i'] p ne in \<open>simp_all add: slot_of_def node_at_def atB\<close>)
  qed
  ultimately show ?thesis by (simp add: heap_rep_def)
qed


lemma heap_rep_cong:
  "heap_rep h n A \<Longrightarrow> h_min h' = h_min h \<Longrightarrow> (\<And>i. i \<in> {1..n} \<Longrightarrow> h_mem h' (A i) = h_mem h (A i)) \<Longrightarrow>
   heap_rep h' n A"
  by (simp add: heap_rep_def)

lemma write_slot_nelts [simp]: "h_nelts (write_slot sl v h) = h_nelts h"
  by (cases sl) auto

lemma h_nelts_update [simp]:
  "h_mem (h\<lparr>h_nelts := v\<rparr>) = h_mem h" "h_min (h\<lparr>h_nelts := v\<rparr>) = h_min h"
  by simp_all

lemma heap_path_position:
  assumes "1 \<le> n" "n < 2 ^ 32" "unat w = n"
  obtains path k where "heap_path 0 0 w = (path, k)" "follow 1 (low_bits (unat k) path) = n"
proof -
  have "length (turns n) \<le> 31" using assms by (intro length_turns) auto
  with assms heap_path_turns [of w 0 0] obtain path k where "heap_path 0 0 w = (path, k)"
    "low_bits (unat k) path = turns n @ low_bits 0 0" by auto
  then show thesis using follow_turns [OF assms(1)] by (intro that) (auto simp: low_bits_def)
qed

context heap_order
begin

lemma heap_insert_of:
  assumes h: "heap_of lt h S" and x: "x \<notin> S" and small: "Suc (card S) < 2 ^ 32"
  shows "\<exists>h'. heap_insert x lt h = Some h' \<and> heap_of lt h' (insert x S)"
proof -
  define n where "n = card S"
  from h obtain A where rep: "heap_rep h n A" and ok: "heap_ok lt n A" and img: "A ` {1..n} = S"
    and cnt: "unat (h_nelts h) = n" unfolding n_def by (rule heap_ofE)
  let ?h0 = "set_parent x None (set_right x None (set_left x None h))"
  have xA: "A i \<noteq> x" if "i \<in> {1..n}" for i using x img that by blast
  have rep0: "heap_rep ?h0 n A" by (rule heap_rep_cong [OF rep]) (use xA in auto)
  have "unat (1 + h_nelts h) = Suc n" using cnt small n_def by (simp add: unat_word_ariths)
  with heap_path_position [of "Suc n"] small obtain path k
    where path: "heap_path 0 0 (1 + h_nelts ?h0) = (path, k)" "follow 1 (low_bits (unat k) path) = Suc n"
    unfolding n_def by auto
  let ?up = "slot_of A (Suc n div 2)" and ?cur = "slot_of A (Suc n)"
  have "heap_walk ?h0 (unat k) path (slot_of A (1 div 2), slot_of A 1) = Some (?up, ?cur)"
    using heap_walk_correct [OF rep0, of 1 "unat k" path] path(2) by simp
  then have walk: "heap_walk ?h0 (unat k) path (Min_slot, Min_slot) = Some (?up, ?cur)"
    by (simp add: slot_of_def)
  have up: "read_slot ?h0 ?up = at n A (Suc n div 2)"
  proof (cases "n = 0")
    case True
    with rep0 show ?thesis by (simp add: slot_of_def heap_rep_def)
  qed (use read_slot_of [OF rep0, of "Suc n div 2"] in auto)
  let ?h1 = "set_parent x (at n A (Suc n div 2)) ?h0"
  let ?B = "A(Suc n := x)"
  let ?h2 = "write_slot ?cur (Some x) ?h1"
  let ?h3 = "?h2\<lparr>h_nelts := h_nelts ?h2 + 1\<rparr>"
  have rep1: "heap_rep ?h1 n A" by (rule heap_rep_cong [OF rep0]) (use xA in auto)
  have "heap_rep ?h2 (Suc n) ?B"
    by (rule heap_rep_append [OF rep1]) (use x img in auto)
  then have rep3: "heap_rep ?h3 (Suc n) ?B" by (rule heap_rep_cong) auto
  have "up_inv lt (Suc n) ?B (Suc n)"
    using ok by (auto simp: up_inv_def heap_ok_def)
  from heap_up_correct [OF rep3 _ _ this] obtain h' C
    where up': "heap_up lt x ?h3 = Some h'" "heap_rep h' (Suc n) C" "heap_ok lt (Suc n) C"
      "C ` {1..Suc n} = ?B ` {1..Suc n}" "h_nelts h' = h_nelts ?h3" by auto
  have "heap_insert x lt h = Some h'"
    using path(1) walk up up'(1) by (simp add: heap_insert_def Let_def del: link_simps)
  moreover have "?B ` {1..Suc n} = insert x S"
    using img by (auto simp: atLeastAtMostSuc_conv)
  moreover have "unat (h_nelts h') = Suc n"
    using up'(5) cnt small n_def by (simp add: unat_word_ariths)
  ultimately show ?thesis using heap_ofI [OF up'(2,3)] up'(4) by auto
qed


end

text \<open>The last node leaves its place.\<close>

lemma heap_rep_unlink_last:
  assumes rep: "heap_rep h (Suc n) A"
  shows "heap_rep (write_slot (slot_of A (Suc n)) None h) n A"
proof -
  let ?p = "Suc n div 2" and ?h = "write_slot (slot_of A (Suc n)) None h"
  have inj: "inj_on A {1..Suc n}" and mem: "\<And>i. i \<in> {1..Suc n} \<Longrightarrow> h_mem h (A i) = node_at (Suc n) A i"
    using rep by (auto simp: heap_rep_def)
  have atS: "at (Suc n) A j = (if j = Suc n then Some (A j) else at n A j)" for j
    by (auto simp: at_def)
  have "inj_on A {1..n}" using inj by (auto simp: inj_on_def)
  moreover have "h_min ?h = at n A 1"
    using rep by (cases "n = 0") (auto simp: slot_of_def heap_rep_def at_def)
  moreover have "h_mem ?h (A i) = node_at n A i" if i: "i \<in> {1..n}" for i
  proof -
    have iS: "i \<in> {1..Suc n}" and pS: "?p \<in> {1..Suc n}" using i by auto
    have p: "A i = A ?p \<longleftrightarrow> i = ?p" using inj iS pS by (simp add: inj_on_eq_iff)
    have ne: "i div 2 \<noteq> Suc n" "2 \<le> Suc n" using i by auto
    consider "2 * i = Suc n" "even (Suc n)" "i = ?p" | "2 * i + 1 = Suc n" "odd (Suc n)" "i = ?p"
      | "2 * i \<noteq> Suc n" "2 * i + 1 \<noteq> Suc n" "i \<noteq> ?p" using half_cases [of i "Suc n"] by blast
    then show ?thesis
    proof cases
      case 3
      then have "h_mem ?h (A i) = h_mem h (A i)" using p ne by (intro write_slot_other) auto
      with 3 ne show ?thesis using mem [OF iS] by (simp add: node_at_def atS)
    qed (use mem [OF iS] p ne in \<open>simp_all add: slot_of_def node_at_def atS\<close>)
  qed
  ultimately show ?thesis by (simp add: heap_rep_def)
qed

lemma take_over_mem:
  assumes m: "h_mem h x = \<lparr>h_left = l, h_right = r, h_parent = u\<rparr>" and "c \<noteq> x"
    and ne: "Some x \<notin> {l, r, u}" "Some c \<notin> {l, r, u}" and u: "u = None \<or> u \<notin> {l, r}"
  shows "h_mem (take_over x c h) = (\<lambda>y.
       if y = c then \<lparr>h_left = l, h_right = r, h_parent = u\<rparr>
       else if Some y = l \<or> Some y = r then (h_mem h y)\<lparr>h_parent := Some c\<rparr>
       else if Some y = u then
         (if h_left (h_mem h y) = Some x then (h_mem h y)\<lparr>h_left := Some c\<rparr> else (h_mem h y)\<lparr>h_right := Some c\<rparr>)
       else h_mem h y)"
    and "h_min (take_over x c h) = (if u = None then Some c else h_min h)"
    and "h_nelts (take_over x c h) = h_nelts h"
proof -
  define h3 where "h3 = set_parent_of r c (set_parent_of l c
     (set_parent c u (set_right c r (set_left c l h))))"
  have [simp]: "h_nelts (set_parent_of q v g) = h_nelts g" for q v g by (cases q) auto
  have 1: "take_over x c h = replace_in_parent u x c h3"
    using assms by (auto simp: take_over_def h3_def Let_def set_parent_of_mem)
  have 2: "h_mem h3 = (\<lambda>y. if y = c then \<lparr>h_left = l, h_right = r, h_parent = u\<rparr>
       else if Some y = l \<or> Some y = r then (h_mem h y)\<lparr>h_parent := Some c\<rparr> else h_mem h y)"
    using ne by (auto simp: h3_def set_parent_of_mem fun_eq_iff)
  have 3: "h_min h3 = h_min h" and 4: "h_nelts h3 = h_nelts h" by (simp_all add: h3_def)
  show "h_mem (take_over x c h) = (\<lambda>y.
       if y = c then \<lparr>h_left = l, h_right = r, h_parent = u\<rparr>
       else if Some y = l \<or> Some y = r then (h_mem h y)\<lparr>h_parent := Some c\<rparr>
       else if Some y = u then
         (if h_left (h_mem h y) = Some x then (h_mem h y)\<lparr>h_left := Some c\<rparr> else (h_mem h y)\<lparr>h_right := Some c\<rparr>)
       else h_mem h y)"
  proof (cases u)
    case (Some z)
    with ne u have "z \<noteq> x" "z \<noteq> c" "Some z \<noteq> l" "Some z \<noteq> r" by auto
    with Some show ?thesis by (simp add: 1 2 fun_eq_iff)
  next
    case None
    then show ?thesis by (simp add: 1 2 fun_eq_iff)
  qed
  show "h_min (take_over x c h) = (if u = None then Some c else h_min h)"
    by (cases u) (simp_all add: 1 3)
  show "h_nelts (take_over x c h) = h_nelts h"
    by (cases u) (simp_all add: 1 4 replace_in_parent_def)
qed

lemma heap_rep_take_over:
  assumes rep: "heap_rep h n A" and k: "1 \<le> k" "k \<le> n" and c: "c \<notin> A ` {1..n}"
  shows "heap_rep (take_over (A k) c h) n (A(k := c))"
proof -
  let ?B = "A(k := c)" and ?h = "take_over (A k) c h"
  let ?l = "at n A (2 * k)" and ?r = "at n A (2 * k + 1)" and ?u = "at n A (k div 2)"
  have inj: "inj_on A {1..n}" and mem: "\<And>i. i \<in> {1..n} \<Longrightarrow> h_mem h (A i) = node_at n A i"
    using rep by (auto simp: heap_rep_def)
  have kin: "k \<in> {1..n}" using k by auto
  have m: "h_mem h (A k) = \<lparr>h_left = ?l, h_right = ?r, h_parent = ?u\<rparr>"
    using mem [OF kin] by (simp add: node_at_def)
  have cA: "c \<noteq> A i" if "i \<in> {1..n}" for i using c that by blast
  have cat: "Some c \<noteq> at n A i" "at n A i \<noteq> Some c" for i using cA by (auto simp: at_def)
  have "k \<noteq> 2 * k" "k \<noteq> 2 * k + 1" "k \<noteq> k div 2" using k by auto
  then have ne: "Some (A k) \<notin> {?l, ?r, ?u}" "Some c \<notin> {?l, ?r, ?u}"
    by (auto simp: at_eq [OF inj kin] cat)
  have u: "?u = None \<or> ?u \<notin> {?l, ?r}"
  proof (cases "k = 1")
    case False
    then have "k div 2 \<in> {1..n}" "k div 2 \<noteq> 2 * k" "k div 2 \<noteq> 2 * k + 1" using k by auto
    then show ?thesis by (auto simp: at_eq_at [OF inj \<open>k div 2 \<in> {1..n}\<close>] simp del: at_in)
  qed simp
  note t = take_over_mem [OF m cA [OF kin] ne u]
  have atB: "at n ?B j = (if j = k then Some c else at n A j)" for j
    using k by (auto simp: at_def)
  have "inj_on ?B {1..n}"
  proof (rule inj_onI)
    fix i j assume "i \<in> {1..n}" "j \<in> {1..n}" "?B i = ?B j"
    then show "i = j" using inj cA [of i] cA [of j]
      by (cases "i = k"; cases "j = k") (simp_all add: inj_on_eq_iff)
  qed
  moreover have "h_min ?h = at n ?B 1"
    using t(2) rep k by (cases "k = 1") (auto simp: heap_rep_def atB at_eq_None)
  moreover have "h_mem ?h (?B j) = node_at n ?B j" if j: "j \<in> {1..n}" for j
  proof (cases "j = k")
    case True
    have "2 * k \<noteq> k" "2 * k + 1 \<noteq> k" "k div 2 \<noteq> k" using k by auto
    with True show ?thesis by (simp add: t(1) node_at_def atB)
  next
    case False
    have ix: "(Some (A j) = ?l) = (j = 2 * k)" "(Some (A j) = ?r) = (j = 2 * k + 1)" "(Some (A j) = ?u) = (j = k div 2)"
      by (auto simp: at_eq [OF inj j])
    have kk: "(h_left (node_at n A j) = Some (A k)) = (2 * j = k)"
      by (simp add: node_at_def at_eq [OF inj kin])
    have jc: "A j \<noteq> c" using cA [OF j] by simp
    have e: "h_mem ?h (?B j) =
       (if j = 2 * k \<or> j = 2 * k + 1 then (node_at n A j)\<lparr>h_parent := Some c\<rparr>
        else if j = k div 2 then
          (if 2 * j = k then (node_at n A j)\<lparr>h_left := Some c\<rparr> else (node_at n A j)\<lparr>h_right := Some c\<rparr>)
        else node_at n A j)"
      unfolding t(1) using False jc by (simp only: fun_upd_apply if_False ix mem [OF j] kk)
    consider "j = 2 * k \<or> j = 2 * k + 1" | "j = k div 2" "2 * j = k" | "j = k div 2" "2 * j + 1 = k"
      | "j \<noteq> 2 * k" "j \<noteq> 2 * k + 1" "j \<noteq> k div 2" by linarith
    then show ?thesis
    proof cases
      case 1
      then have "j div 2 = k" "2 * j \<noteq> k" "2 * j + 1 \<noteq> k" "j \<noteq> k div 2" using k by auto
      with 1 show ?thesis unfolding e by (simp add: node_at_def atB)
    next
      case 2
      then have "j div 2 \<noteq> k" "2 * j + 1 \<noteq> k" "j \<noteq> 2 * k" "j \<noteq> 2 * k + 1" using k by auto
      with 2 show ?thesis unfolding e by (simp add: node_at_def atB)
    next
      case 3
      then have "j div 2 \<noteq> k" "2 * j \<noteq> k" "j \<noteq> 2 * k" "j \<noteq> 2 * k + 1" using k by auto
      with 3 show ?thesis unfolding e by (simp add: node_at_def atB)
    next
      case 4
      then have "j div 2 \<noteq> k" "2 * j \<noteq> k" "2 * j + 1 \<noteq> k" using False by auto
      with 4 show ?thesis unfolding e by (simp add: node_at_def atB)
    qed
  qed
  ultimately show ?thesis by (simp add: heap_rep_def)
qed


context heap_order
begin

lemma heap_remove_of:
  assumes h: "heap_of lt h S" and x: "x \<in> S" and small: "card S < 2 ^ 32"
  shows "\<exists>h'. heap_remove x lt h = Some h' \<and> heap_of lt h' (S - {x})"
proof -
  have fin: "finite S" using h by (rule heap_of_finite)
  then obtain n where n: "card S = Suc n" using x by (metis card_gt_0_iff empty_iff gr0_implies_Suc)
  from h n obtain A where rep: "heap_rep h (Suc n) A" and ok: "heap_ok lt (Suc n) A"
    and img: "A ` {1..Suc n} = S" and cnt: "unat (h_nelts h) = Suc n" by (metis heap_ofE)
  have inj: "inj_on A {1..Suc n}" using rep by (simp add: heap_rep_def)
  from cnt have nz: "h_nelts h \<noteq> 0" by auto
  from heap_path_position [OF _ _ cnt] small n obtain path k
    where path: "heap_path 0 0 (h_nelts h) = (path, k)" "follow 1 (low_bits (unat k) path) = Suc n" by auto
  let ?up = "slot_of A (Suc n div 2)" and ?max = "slot_of A (Suc n)" and ?c = "A (Suc n)"
  have "heap_walk h (unat k) path (slot_of A (1 div 2), slot_of A 1) = Some (?up, ?max)"
    using heap_walk_correct [OF rep, of 1 "unat k" path] path(2) by simp
  then have walk: "heap_walk h (unat k) path (Min_slot, Min_slot) = Some (?up, ?max)"
    by (simp add: slot_of_def)
  have rd: "read_slot h ?max = Some ?c" using read_slot_of [OF rep, of "Suc n"] by simp
  let ?h1 = "h\<lparr>h_nelts := h_nelts h - 1\<rparr>"
  let ?h2 = "write_slot ?max None ?h1"
  have cnt2: "unat (h_nelts h - 1) = n" using cnt nz by (simp add: unat_minus_one)
  have rep2: "heap_rep ?h2 n A"
    by (rule heap_rep_unlink_last) (rule heap_rep_cong [OF rep], simp_all)
  have step: "heap_remove x lt h =
      (if ?c = x then Some (if Some ?c = h_min ?h2 then ?h2\<lparr>h_min := None\<rparr> else ?h2)
       else Option.bind (heap_down lt ?c (take_over x ?c ?h2)) (heap_up lt ?c))"
    using nz path(1) walk rd by (simp add: heap_remove_def Let_def)
  have rest: "A ` {1..n} = S - {?c}"
  proof -
    have "S = insert ?c (A ` {1..n})" using img by (auto simp: atLeastAtMostSuc_conv)
    moreover have "?c \<notin> A ` {1..n}" using inj by (auto simp: inj_on_eq_iff)
    ultimately show ?thesis by auto
  qed
  show ?thesis
  proof (cases "?c = x")
    case True
    have "h_min ?h2 \<noteq> Some ?c"
      using rep2 inj by (auto simp: heap_rep_def at_def inj_on_eq_iff)
    then have "heap_remove x lt h = Some ?h2" using True step by auto
    moreover have "heap_ok lt n A" using ok by (simp add: heap_ok_def)
    then have "heap_of lt ?h2 (S - {x})"
      by (rule heap_ofI [OF rep2]) (use rest cnt2 True in auto)
    ultimately show ?thesis by blast
  next
    case False
    from x img obtain p where "p \<in> {1..Suc n}" "x = A p" by blast
    with False have p: "1 \<le> p" "p \<le> n" "A p = x" by (auto simp: le_Suc_eq)
    let ?B = "A(p := ?c)" and ?h3 = "take_over x ?c ?h2"
    have cA: "?c \<notin> A ` {1..n}" using rest by auto
    have rep3: "heap_rep ?h3 n ?B" using heap_rep_take_over [OF rep2 p(1,2) cA] p(3) by simp
    have okA: "\<not> lt (A j) (A (j div 2))" if "j \<in> {2..n}" for j using ok that by (auto simp: heap_ok_def)
    have "down_inv lt n ?B p"
    proof -
      have "\<not> lt (A j) (A (p div 2))" if "j \<in> {2..n}" "j div 2 = p" "2 \<le> p" for j
        using lt_negtrans [of "A j" "A p" "A (p div 2)"] okA [OF that(1)] okA [of p] that p(2) by auto
      then show ?thesis using okA by (auto simp: down_inv_def)
    qed
    from heap_down_correct [OF rep3 p(1,2) this] obtain h4 C q
      where d: "heap_down lt ?c ?h3 = Some h4" "heap_rep h4 n C" "C q = ?c" "q \<in> {1..n}" "up_inv lt n C q"
        "C ` {1..n} = ?B ` {1..n}" "h_nelts h4 = h_nelts ?h3" by auto
    from heap_up_correct [OF d(2) _ _ d(5)] d(3,4) obtain h5 D
      where u: "heap_up lt ?c h4 = Some h5" "heap_rep h5 n D" "heap_ok lt n D" "D ` {1..n} = C ` {1..n}"
        "h_nelts h5 = h_nelts h4" by auto
    have "?B ` {1..n} = S - {x}"
    proof -
      have "A i \<noteq> x" if "i \<in> {1..n}" "i \<noteq> p" for i using inj p that by (auto simp: inj_on_eq_iff)
      moreover have "?c \<in> S" using img by auto
      moreover have "A ` ({1..n} - {p}) = S - {x, ?c}"
      proof -
        have "A ` ({1..n} - {p}) = A ` {1..n} - {A p}"
          using inj p by (subst inj_on_image_set_diff [of A "{1..Suc n}"]) auto
        then show ?thesis using rest p(3) by auto
      qed
      moreover have "?B ` {1..n} = insert ?c (A ` ({1..n} - {p}))" using p by auto
      ultimately show ?thesis using False by auto
    qed
    moreover have "h_nelts ?h3 = h_nelts ?h2"
      by (auto simp: take_over_def Let_def set_parent_of_def replace_in_parent_def split: option.splits)
    ultimately have "heap_of lt h5 (S - {x})"
      using heap_ofI [OF u(2,3)] u(4,5) d(6,7) cnt2 by auto
    then show ?thesis using step False d(1) u(1) by simp
  qed
qed

end

section \<open>Properties\<close>

text \<open>C13: inserting a node that is not in the heap ends without dereferencing \<open>NULL\<close> and gives a
  well-linked binary heap of the old nodes and the new one, for every strict weak order and every
  heap of fewer than \<open>2 ^ 32 - 1\<close> nodes.\<close>
theorem heap_insert_correct:
  assumes "heap_order lt" "heap_of lt h S" "x \<notin> S" "Suc (card S) < 2 ^ 32"
  shows "\<exists>h'. heap_insert x lt h = Some h' \<and> heap_of lt h' (insert x S)"
  using heap_order.heap_insert_of [OF assms] .

definition empty_heap :: heap where
  "empty_heap = heap_init \<lparr>h_min = None, h_nelts = 0, h_mem = (\<lambda>_. \<lparr>h_left = None, h_right = None, h_parent = None\<rparr>)\<rparr>"

lemma nat_heap_order: "heap_order ((<) :: nat \<Rightarrow> nat \<Rightarrow> bool)"
  by unfold_locales auto

theorem heap_insert_correct_witness:
  "\<exists>h'. heap_insert 5 (<) empty_heap = Some h' \<and> heap_of (<) h' {5}"
  using heap_insert_correct [OF nat_heap_order, of empty_heap "{}" 5] by (simp add: empty_heap_def heap_of_init)

definition one_heap :: heap where
  "one_heap = (case heap_insert 5 (<) empty_heap of None \<Rightarrow> empty_heap | Some h \<Rightarrow> h)"

lemma one_heap_of: "heap_of (<) one_heap {5}"
proof -
  have "heap_of (<) empty_heap {}" by (simp add: empty_heap_def heap_of_init)
  then obtain h where "heap_insert 5 (<) empty_heap = Some h" "heap_of (<) h {5}"
    using heap_order.heap_insert_of [OF nat_heap_order, of empty_heap "{}" 5] by auto
  then show ?thesis by (simp add: one_heap_def)
qed

text \<open>C12: removing any node of the heap, wherever it stands, ends and gives a well-linked heap of
  the other nodes: the last node takes its place and moves down or up as far as the order needs.\<close>
theorem heap_remove_correct:
  assumes "heap_order lt" "heap_of lt h S" "x \<in> S" "card S < 2 ^ 32"
  shows "\<exists>h'. heap_remove x lt h = Some h' \<and> heap_of lt h' (S - {x})"
  using heap_order.heap_remove_of [OF assms] .

theorem heap_remove_correct_witness:
  "\<exists>h'. heap_remove 5 (<) one_heap = Some h' \<and> heap_of (<) h' {}"
  using heap_remove_correct [OF nat_heap_order one_heap_of, of 5] by simp

text \<open>\<open>heap_dequeue\<close> removes a least node, the one \<open>heap_min\<close> names; on an empty heap
  \<open>heap_min\<close> is \<open>NULL\<close> and nothing is removed.\<close>
theorem heap_dequeue_least:
  assumes "heap_order lt" "heap_of lt h S" "card S < 2 ^ 32"
  shows "(S = {} \<longrightarrow> heap_min h = None \<and> heap_dequeue lt h = Some h)
    \<and> (S \<noteq> {} \<longrightarrow> (\<exists>m h'. heap_min h = Some m \<and> m \<in> S \<and> (\<forall>y \<in> S. \<not> lt y m)
        \<and> heap_dequeue lt h = Some h' \<and> heap_of lt h' (S - {m})))"
proof (intro conjI impI)
  have cnt: "unat (h_nelts h) = card S" using assms(2) by (auto elim: heap_ofE)
  show "heap_dequeue lt h = Some h" if "S = {}"
    using cnt that by (simp add: heap_dequeue_def unat_eq_0)
  show "heap_min h = None" if "S = {}"
    using heap_min_none [OF assms(2)] that by simp
  assume ne: "S \<noteq> {}"
  then obtain m where m: "heap_min h = Some m" using heap_min_none [OF assms(2)] by blast
  have least: "m \<in> S \<and> (\<forall>y \<in> S. \<not> lt y m)" by (rule heap_order.heap_min_least [OF assms(1,2) m])
  have "h_nelts h \<noteq> 0" using cnt ne heap_of_finite [OF assms(2)] by (auto simp: unat_eq_0 [symmetric])
  then have "heap_dequeue lt h = heap_remove m lt h" using m by (simp add: heap_dequeue_def heap_min_def)
  with m least heap_order.heap_remove_of [OF assms(1,2) _ assms(3), of m]
  show "\<exists>m h'. heap_min h = Some m \<and> m \<in> S \<and> (\<forall>y \<in> S. \<not> lt y m)
        \<and> heap_dequeue lt h = Some h' \<and> heap_of lt h' (S - {m})" by auto
qed

theorem heap_dequeue_least_witness:
  "\<exists>h'. heap_min one_heap = Some 5 \<and> heap_dequeue (<) one_heap = Some h' \<and> heap_of (<) h' {}"
  using heap_dequeue_least [OF nat_heap_order one_heap_of] by auto

end
