(* ===== verification/Kernel.thy ===== *)
theory Kernel
  imports Prelude "HOL-Library.Monad_Syntax"
begin

text \<open>
  The operating system as the library sees it.  The replies of the system calls are an input: a
  list, from which every call takes the next one, as the C library returns it (-1 and an error
  number on failure).  The calls made are recorded in order.  So the behaviour of a routine is a
  function of the script of replies, and the properties hold for every script.  A routine returns
  \<open>None\<close> when it aborts (a failed \<open>assert\<close>, \<open>abort()\<close>) or the script ends; loops that repeat a
  call on \<open>EINTR\<close> recurse on the script, since every call uses up a reply.
\<close>

section \<open>Error numbers (Linux)\<close>

abbreviation (input) EPERM :: int where "EPERM \<equiv> 1"
abbreviation (input) ENOENT :: int where "ENOENT \<equiv> 2"
abbreviation (input) ESRCH :: int where "ESRCH \<equiv> 3"
abbreviation (input) EINTR :: int where "EINTR \<equiv> 4"
abbreviation (input) EIO :: int where "EIO \<equiv> 5"
abbreviation (input) EBADF :: int where "EBADF \<equiv> 9"
abbreviation (input) ECHILD :: int where "ECHILD \<equiv> 10"
abbreviation (input) EAGAIN :: int where "EAGAIN \<equiv> 11"
abbreviation (input) EWOULDBLOCK :: int where "EWOULDBLOCK \<equiv> 11"
abbreviation (input) ENOMEM :: int where "ENOMEM \<equiv> 12"
abbreviation (input) EACCES :: int where "EACCES \<equiv> 13"
abbreviation (input) EBUSY :: int where "EBUSY \<equiv> 16"
abbreviation (input) EEXIST :: int where "EEXIST \<equiv> 17"
abbreviation (input) EXDEV :: int where "EXDEV \<equiv> 18"
abbreviation (input) EINVAL :: int where "EINVAL \<equiv> 22"
abbreviation (input) ENFILE :: int where "ENFILE \<equiv> 23"
abbreviation (input) EMFILE :: int where "EMFILE \<equiv> 24"
abbreviation (input) ENOTTY :: int where "ENOTTY \<equiv> 25"
abbreviation (input) EPIPE :: int where "EPIPE \<equiv> 32"
abbreviation (input) ERANGE :: int where "ERANGE \<equiv> 34"
abbreviation (input) ENAMETOOLONG :: int where "ENAMETOOLONG \<equiv> 36"
abbreviation (input) ENOSYS :: int where "ENOSYS \<equiv> 38"
abbreviation (input) ENOTSOCK :: int where "ENOTSOCK \<equiv> 88"
abbreviation (input) EDESTADDRREQ :: int where "EDESTADDRREQ \<equiv> 89"
abbreviation (input) ENOPROTOOPT :: int where "ENOPROTOOPT \<equiv> 92"
abbreviation (input) EPROTONOSUPPORT :: int where "EPROTONOSUPPORT \<equiv> 93"
abbreviation (input) ENOTSUP :: int where "ENOTSUP \<equiv> 95"
abbreviation (input) EAFNOSUPPORT :: int where "EAFNOSUPPORT \<equiv> 97"
abbreviation (input) EADDRINUSE :: int where "EADDRINUSE \<equiv> 98"
abbreviation (input) EADDRNOTAVAIL :: int where "EADDRNOTAVAIL \<equiv> 99"
abbreviation (input) ECONNABORTED :: int where "ECONNABORTED \<equiv> 103"
abbreviation (input) ECONNRESET :: int where "ECONNRESET \<equiv> 104"
abbreviation (input) ENOBUFS :: int where "ENOBUFS \<equiv> 105"
abbreviation (input) EISCONN :: int where "EISCONN \<equiv> 106"
abbreviation (input) ENOTCONN :: int where "ENOTCONN \<equiv> 107"
abbreviation (input) ETIMEDOUT :: int where "ETIMEDOUT \<equiv> 110"
abbreviation (input) ECONNREFUSED :: int where "ECONNREFUSED \<equiv> 111"
abbreviation (input) EALREADY :: int where "EALREADY \<equiv> 114"
abbreviation (input) EINPROGRESS :: int where "EINPROGRESS \<equiv> 115"
abbreviation (input) ECANCELED :: int where "ECANCELED \<equiv> 125"
abbreviation (input) UV_EOF :: int where "UV_EOF \<equiv> - 4095"

section \<open>System calls and replies\<close>

datatype syscall =
    Sys string "int list"
  | SysPath string "string list" "int list"
  | SysData string "int list" "u8 list list"

text \<open>The calls by name: numbers, path names or data are their arguments.\<close>

abbreviation (input) Ioctl_fionbio :: "int \<Rightarrow> int \<Rightarrow> syscall" where "Ioctl_fionbio fd on \<equiv> Sys ''ioctl FIONBIO'' [fd, on]"
abbreviation (input) Ioctl_cloexec :: "int \<Rightarrow> int \<Rightarrow> syscall" where "Ioctl_cloexec fd on \<equiv> Sys ''ioctl FIOCLEX'' [fd, on]"
abbreviation (input) Fcntl_getfl :: "int \<Rightarrow> syscall" where "Fcntl_getfl fd \<equiv> Sys ''fcntl F_GETFL'' [fd]"
abbreviation (input) Fcntl_getfd :: "int \<Rightarrow> syscall" where "Fcntl_getfd fd \<equiv> Sys ''fcntl F_GETFD'' [fd]"
abbreviation (input) Fcntl_setfl :: "int \<Rightarrow> int \<Rightarrow> syscall" where "Fcntl_setfl fd flags \<equiv> Sys ''fcntl F_SETFL'' [fd, flags]"
abbreviation (input) Fcntl_setfd :: "int \<Rightarrow> int \<Rightarrow> syscall" where "Fcntl_setfd fd flags \<equiv> Sys ''fcntl F_SETFD'' [fd, flags]"
abbreviation (input) Close :: "int \<Rightarrow> syscall" where "Close fd \<equiv> Sys ''close'' [fd]"
abbreviation (input) Dup :: "int \<Rightarrow> syscall" where "Dup fd \<equiv> Sys ''dup'' [fd]"
abbreviation (input) Dup2 :: "int \<Rightarrow> int \<Rightarrow> syscall" where "Dup2 ofd nfd \<equiv> Sys ''dup2'' [ofd, nfd]"
abbreviation (input) Dup3 :: "int \<Rightarrow> int \<Rightarrow> int \<Rightarrow> syscall" where "Dup3 ofd nfd flags \<equiv> Sys ''dup3'' [ofd, nfd, flags]"
abbreviation (input) Fdopen :: "int \<Rightarrow> syscall" where "Fdopen fd \<equiv> Sys ''fdopen'' [fd]"
abbreviation (input) Socket :: "int \<Rightarrow> int \<Rightarrow> int \<Rightarrow> syscall" where "Socket domain type proto \<equiv> Sys ''socket'' [domain, type, proto]"
abbreviation (input) Accept :: "int \<Rightarrow> syscall" where "Accept fd \<equiv> Sys ''accept'' [fd]"
abbreviation (input) Accept4 :: "int \<Rightarrow> int \<Rightarrow> syscall" where "Accept4 fd flags \<equiv> Sys ''accept4'' [fd, flags]"
abbreviation (input) Setsockopt :: "int \<Rightarrow> int \<Rightarrow> int \<Rightarrow> int \<Rightarrow> syscall" where "Setsockopt fd level opt val \<equiv> Sys ''setsockopt'' [fd, level, opt, val]"
abbreviation (input) Getsockopt :: "int \<Rightarrow> int \<Rightarrow> int \<Rightarrow> syscall" where "Getsockopt fd level opt \<equiv> Sys ''getsockopt'' [fd, level, opt]"
abbreviation (input) Recvmsg :: "int \<Rightarrow> int \<Rightarrow> syscall" where "Recvmsg fd flags \<equiv> Sys ''recvmsg'' [fd, flags]"
abbreviation (input) Getcwd :: "int \<Rightarrow> syscall" where "Getcwd sz \<equiv> Sys ''getcwd'' [sz]"
abbreviation (input) Sysconf :: "int \<Rightarrow> syscall" where "Sysconf name \<equiv> Sys ''sysconf'' [name]"
abbreviation (input) Getpwuid_r :: "int \<Rightarrow> syscall" where "Getpwuid_r sz \<equiv> Sys ''getpwuid_r'' [sz]"
abbreviation (input) Malloc :: "int \<Rightarrow> syscall" where "Malloc sz \<equiv> Sys ''malloc'' [sz]"
abbreviation (input) Epoll_create1 :: "int \<Rightarrow> syscall" where "Epoll_create1 flags \<equiv> Sys ''epoll_create1'' [flags]"
abbreviation (input) Epoll_create :: "int \<Rightarrow> syscall" where "Epoll_create sz \<equiv> Sys ''epoll_create'' [sz]"
abbreviation (input) Epoll_ctl :: "int \<Rightarrow> int \<Rightarrow> int \<Rightarrow> u32 \<Rightarrow> syscall" where "Epoll_ctl epfd op fd events \<equiv> Sys ''epoll_ctl'' [epfd, op, fd, uint events]"
abbreviation (input) Epoll_wait :: "int \<Rightarrow> int \<Rightarrow> syscall" where "Epoll_wait epfd timeout \<equiv> Sys ''epoll_wait'' [epfd, timeout]"
abbreviation (input) Epoll_pwait :: "int \<Rightarrow> int \<Rightarrow> u64 \<Rightarrow> syscall" where "Epoll_pwait epfd timeout sigs \<equiv> Sys ''epoll_pwait'' [epfd, timeout, uint sigs]"
abbreviation (input) Sigmask :: "int \<Rightarrow> syscall" where "Sigmask how \<equiv> Sys ''sigmask'' [how]"
abbreviation (input) Clock_getres :: "int \<Rightarrow> syscall" where "Clock_getres clk \<equiv> Sys ''clock_getres'' [clk]"
abbreviation (input) Clock_gettime :: "int \<Rightarrow> syscall" where "Clock_gettime clk \<equiv> Sys ''clock_gettime'' [clk]"
abbreviation (input) Read :: "int \<Rightarrow> int \<Rightarrow> syscall" where "Read fd len \<equiv> Sys ''read'' [fd, len]"
abbreviation (input) Eventfd :: "int \<Rightarrow> syscall" where "Eventfd flags \<equiv> Sys ''eventfd'' [flags]"
abbreviation (input) Pipe2 :: "int \<Rightarrow> syscall" where "Pipe2 flags \<equiv> Sys ''pipe2'' [flags]"
abbreviation (input) Pipe :: "syscall" where "Pipe \<equiv> Sys ''pipe'' []"
abbreviation (input) Kill :: "int \<Rightarrow> int \<Rightarrow> syscall" where "Kill pid sig \<equiv> Sys ''kill'' [pid, sig]"
abbreviation (input) Bind :: "int \<Rightarrow> syscall" where "Bind fd \<equiv> Sys ''bind'' [fd]"
abbreviation (input) Listen :: "int \<Rightarrow> int \<Rightarrow> syscall" where "Listen fd backlog \<equiv> Sys ''listen'' [fd, backlog]"
abbreviation (input) Connect :: "int \<Rightarrow> syscall" where "Connect fd \<equiv> Sys ''connect'' [fd]"
abbreviation (input) Shutdown :: "int \<Rightarrow> int \<Rightarrow> syscall" where "Shutdown fd how \<equiv> Sys ''shutdown'' [fd, how]"
abbreviation (input) Getsockname :: "int \<Rightarrow> syscall" where "Getsockname fd \<equiv> Sys ''getsockname'' [fd]"
abbreviation (input) Getpeername :: "int \<Rightarrow> syscall" where "Getpeername fd \<equiv> Sys ''getpeername'' [fd]"
abbreviation (input) Socketpair :: "int \<Rightarrow> int \<Rightarrow> int \<Rightarrow> syscall" where "Socketpair domain type proto \<equiv> Sys ''socketpair'' [domain, type, proto]"
abbreviation (input) Fork :: "syscall" where "Fork \<equiv> Sys ''fork'' []"
abbreviation (input) Waitpid :: "int \<Rightarrow> syscall" where "Waitpid pid \<equiv> Sys ''waitpid'' [pid]"
abbreviation (input) Poll :: "int \<Rightarrow> int \<Rightarrow> int \<Rightarrow> syscall" where "Poll fd events timeout \<equiv> Sys ''poll'' [fd, events, timeout]"
abbreviation (input) Open :: "string \<Rightarrow> int \<Rightarrow> int \<Rightarrow> syscall" where "Open path flags mode \<equiv> SysPath ''open'' [path] [flags, mode]"
abbreviation (input) Chdir :: "string \<Rightarrow> syscall" where "Chdir path \<equiv> SysPath ''chdir'' [path] []"
abbreviation (input) Getenv :: "string \<Rightarrow> syscall" where "Getenv name \<equiv> SysPath ''getenv'' [name] []"
abbreviation (input) Write :: "int \<Rightarrow> u8 list \<Rightarrow> syscall" where "Write fd bytes \<equiv> SysData ''write'' [fd] [bytes]"
abbreviation (input) Writev :: "int \<Rightarrow> u8 list list \<Rightarrow> syscall" where "Writev fd bufs \<equiv> SysData ''writev'' [fd] bufs"
abbreviation (input) Sendmsg :: "int \<Rightarrow> int \<Rightarrow> u8 list list \<Rightarrow> syscall" where "Sendmsg fd passed bufs \<equiv> SysData ''sendmsg'' [fd, passed] bufs"

record reply =
  r_ret :: int
  r_errno :: int
  r_val :: int
  r_clock :: "u64 \<times> u64"
  r_bytes :: "u8 list"
  r_str :: "string option"
  r_strs :: "string list"
  r_events :: "(int \<times> u32) list"
  r_fds :: "int list"
  r_nums :: "int list"

record kern =
  replies :: "reply list"
  syscalls :: "(syscall \<times> int) list"
  errno :: int
  no_accept4 :: bool
  no_msg_cmsg_cloexec :: bool
  no_cloexec :: bool
  no_dup3 :: bool
  no_epoll_pwait :: bool
  no_epoll_wait :: bool
  fast_clock_id :: int
  statics :: "string \<Rightarrow> bool"

text \<open>Further static variables that record a missing system call, by name.\<close>

definition set_static :: "string \<Rightarrow> 'a kern_scheme \<Rightarrow> 'a kern_scheme" where
  "set_static name s = s\<lparr>statics := (statics s)(name := True)\<rparr>"

definition ret :: "int \<Rightarrow> reply" where
  "ret n = \<lparr>r_ret = n, r_errno = 0, r_val = 0, r_clock = (0, 0), r_bytes = [], r_str = None, r_strs = [], r_events = [], r_fds = [], r_nums = []\<rparr>"

definition fail :: "int \<Rightarrow> reply" where
  "fail e = (ret (- 1))\<lparr>r_errno := e\<rparr>"

definition syscall :: "syscall \<Rightarrow> 'a kern_scheme \<Rightarrow> (reply \<times> 'a kern_scheme) option" where
  "syscall c s =
     (case replies s of
        [] \<Rightarrow> None
      | r # rs \<Rightarrow> Some (r, s\<lparr>replies := rs, syscalls := syscalls s @ [(c, r_ret r)],
                            errno := (if r_ret r = - 1 then r_errno r else errno s)\<rparr>))"

lemma syscall_shorter: "syscall c s = Some (r, t) \<Longrightarrow> length (replies t) < length (replies s)"
  by (auto simp: syscall_def split: list.splits)

lemma syscall_cons [simp]:
  "replies s = r # rs \<Longrightarrow> syscall c s = Some (r, s\<lparr>replies := rs, syscalls := syscalls s @ [(c, r_ret r)],
      errno := (if r_ret r = - 1 then r_errno r else errno s)\<rparr>)"
  by (simp add: syscall_def)

text \<open>\<open>do r = call(); while (r == -1 && errno == e)\<close>\<close>

function retry_while :: "int \<Rightarrow> syscall \<Rightarrow> 'a kern_scheme \<Rightarrow> (reply \<times> 'a kern_scheme) option" where
  "retry_while e c s =
     (case syscall c s of
        None \<Rightarrow> None
      | Some (r, t) \<Rightarrow> if r_ret r = - 1 \<and> errno t = e then retry_while e c t else Some (r, t))"
  by pat_completeness auto
termination
  by (relation "measure (\<lambda>(e, c, s). length (replies s))") (auto dest: syscall_shorter)

declare retry_while.simps [simp del]

abbreviation (input) eintr_loop :: "syscall \<Rightarrow> 'a kern_scheme \<Rightarrow> (reply \<times> 'a kern_scheme) option" where
  "eintr_loop \<equiv> retry_while EINTR"

text \<open>
  The loop ends at the first reply that is not the failure it retries on, whatever comes before:
  after \<open>n\<close> such failures it has made \<open>n + 1\<close> calls.
\<close>

definition failed_with :: "int \<Rightarrow> reply \<Rightarrow> bool" where
  "failed_with e r \<longleftrightarrow> r_ret r = - 1 \<and> r_errno r = e"

lemma retry_while_result:
  assumes "replies s = fs @ r # rs" "\<forall>f \<in> set fs. failed_with e f" "\<not> failed_with e r"
  shows "\<exists>t. retry_while e c s = Some (r, t) \<and> replies t = rs \<and> kern.more t = kern.more s
    \<and> syscalls t = syscalls s @ replicate (length fs) (c, - 1) @ [(c, r_ret r)]
    \<and> (r_ret r = - 1 \<longrightarrow> errno t = r_errno r)"
  using assms
proof (induction fs arbitrary: s)
  case Nil
  then show ?case by (subst retry_while.simps) (auto simp: failed_with_def)
next
  case (Cons f fs)
  let ?u = "s\<lparr>replies := fs @ r # rs, syscalls := syscalls s @ [(c, - 1)], errno := e\<rparr>"
  have "retry_while e c s = retry_while e c ?u"
    using Cons.prems by (subst retry_while.simps) (auto simp: failed_with_def)
  moreover from Cons.IH [of ?u] Cons.prems obtain t where "retry_while e c ?u = Some (r, t)"
    "replies t = rs" "kern.more t = kern.more s"
    "syscalls t = syscalls s @ replicate (length (f # fs)) (c, - 1) @ [(c, r_ret r)]"
    "r_ret r = - 1 \<longrightarrow> errno t = r_errno r" by auto
  ultimately show ?case by auto
qed

lemma retry_while_cons:
  assumes "replies s = r # rs"
  shows "retry_while e c s =
     (if failed_with e r then retry_while e c (s\<lparr>replies := rs, syscalls := syscalls s @ [(c, - 1)], errno := e\<rparr>)
      else syscall c s)"
  using assms by (subst retry_while.simps) (simp add: failed_with_def)

lemma retry_while_nil: "replies s = [] \<Longrightarrow> retry_while e c s = None"
  by (subst retry_while.simps) (simp add: syscall_def)

text \<open>What a routine that only talks to the system leaves alone, and the calls it made.\<close>

definition made :: "(syscall \<times> int) list \<Rightarrow> 'a kern_scheme \<Rightarrow> 'a kern_scheme \<Rightarrow> bool" where
  "made cs s t \<longleftrightarrow> syscalls t = syscalls s @ cs \<and> kern.more t = kern.more s"

lemma made_refl [simp]: "made [] s s"
  by (simp add: made_def)

lemma made_trans: "made cs s t \<Longrightarrow> made ds t u \<Longrightarrow> made (cs @ ds) s u"
  by (simp add: made_def)

lemma syscall_made: "syscall c s = Some (r, t) \<Longrightarrow> made [(c, r_ret r)] s t"
  by (auto simp: syscall_def made_def split: list.splits)

lemma syscall_errno: "syscall c s = Some (r, t) \<Longrightarrow> r_ret r = - 1 \<Longrightarrow> errno t = r_errno r"
  by (auto simp: syscall_def split: list.splits)

lemma retry_while_made:
  "retry_while e c s = Some (r, t) \<Longrightarrow> (\<exists>n. made (replicate n (c, - 1) @ [(c, r_ret r)]) s t) \<and> \<not> failed_with e r
     \<and> (r_ret r = - 1 \<longrightarrow> errno t = r_errno r)"
proof (induction e c s rule: retry_while.induct)
  case (1 e c s)
  from 1(2) obtain r' u where u: "syscall c s = Some (r', u)"
    by (subst (asm) retry_while.simps) (auto split: option.splits)
  show ?case
  proof (cases "r_ret r' = - 1 \<and> errno u = e")
    case True
    then have "retry_while e c u = Some (r, t)" using 1(2) u by (subst (asm) retry_while.simps) simp
    from 1(1) [OF u _ True this] obtain n where "made (replicate n (c, - 1) @ [(c, r_ret r)]) u t" "\<not> failed_with e r"
      "r_ret r = - 1 \<longrightarrow> errno t = r_errno r" by auto
    moreover from this(1) syscall_made [OF u] have "made (replicate (Suc n) (c, - 1) @ [(c, r_ret r)]) s t"
      using True by (simp add: made_def)
    ultimately show ?thesis by blast
  next
    case False
    then have "r' = r" "u = t" using 1(2) u by (subst (asm) retry_while.simps; simp)+
    then have "made (replicate 0 (c, - 1) @ [(c, r_ret r)]) s t" "\<not> failed_with e r" "r_ret r = - 1 \<longrightarrow> errno t = r_errno r"
      using u False syscall_made [OF u] syscall_errno [OF u] by (auto simp: failed_with_def)
    then show ?thesis by blast
  qed
qed

lemma retry_while_state:
  "retry_while e c s = Some (r, t) \<Longrightarrow> \<exists>n rs en. t = s\<lparr>replies := rs,
     syscalls := syscalls s @ replicate n (c, - 1) @ [(c, r_ret r)], errno := en\<rparr>"
proof (induction e c s rule: retry_while.induct)
  case (1 e c s)
  from 1(2) obtain r' u where u: "syscall c s = Some (r', u)"
    by (subst (asm) retry_while.simps) (auto split: option.splits)
  then obtain rs' en' where us: "u = s\<lparr>replies := rs', syscalls := syscalls s @ [(c, r_ret r')], errno := en'\<rparr>"
    by (auto simp: syscall_def split: list.splits)
  show ?case
  proof (cases "r_ret r' = - 1 \<and> errno u = e")
    case True
    then have "retry_while e c u = Some (r, t)" using 1(2) u by (subst (asm) retry_while.simps) simp
    from 1(1) [OF u _ True this] obtain n rs en where
      "t = u\<lparr>replies := rs, syscalls := syscalls u @ replicate n (c, - 1) @ [(c, r_ret r)], errno := en\<rparr>" by auto
    then have "t = s\<lparr>replies := rs, syscalls := syscalls s @ replicate (Suc n) (c, - 1) @ [(c, r_ret r)], errno := en\<rparr>"
      using us True by simp
    then show ?thesis by blast
  next
    case False
    then have "r' = r" "u = t" using 1(2) u by (subst (asm) retry_while.simps; simp)+
    then have "t = s\<lparr>replies := rs', syscalls := syscalls s @ replicate 0 (c, - 1) @ [(c, r_ret r)], errno := en'\<rparr>"
      using us by simp
    then show ?thesis by blast
  qed
qed

text \<open>
  The weakest precondition of a routine's result: a routine that stops satisfies every one.
  Rules of the shape \<open>wp\<close> for the calls let the automation step through a routine.
\<close>

definition wp :: "'x option \<Rightarrow> ('x \<Rightarrow> bool) \<Rightarrow> bool" where
  "wp m Q = (case m of None \<Rightarrow> True | Some x \<Rightarrow> Q x)"

named_theorems wp_rules \<open>rules for the system calls and the routines proved from them\<close>

lemma wp_simps [simp]:
  "wp None Q" "wp (Some x) Q = Q x" "wp (Option.bind m f) Q = wp m (\<lambda>x. wp (f x) Q)"
  "wp (if b then m1 else m2) Q = (if b then wp m1 Q else wp m2 Q)"
  by (auto simp: wp_def split: option.splits)

lemma wpD: "wp m Q \<Longrightarrow> m = Some x \<Longrightarrow> Q x"
  by (simp add: wp_def)

lemma wpI: "(\<And>x. m = Some x \<Longrightarrow> Q x) \<Longrightarrow> wp m Q"
  by (auto simp: wp_def split: option.splits)

lemma wp_mono: "wp m P \<Longrightarrow> (\<And>x. P x \<Longrightarrow> Q x) \<Longrightarrow> wp m Q"
  by (auto simp: wp_def split: option.splits)

text \<open>\<open>assert\<close>, and \<open>SAVE_ERRNO\<close> of \<open>src/unix/internal.h\<close>.\<close>

definition require :: "bool \<Rightarrow> unit option" where
  "require b = (if b then Some () else None)"

lemma require_simps [simp]: "require True = Some ()" "require False = None"
  by (simp_all add: require_def)

lemma wp_require [simp]: "wp (require b) Q = (b \<longrightarrow> Q ())"
  by (cases b) simp_all

lemma require_bind_eq_Some [simp]: "Option.bind (require b) f = Some x \<longleftrightarrow> b \<and> f () = Some x"
  by (cases b) simp_all

definition save_errno :: "('a kern_scheme \<Rightarrow> 'a kern_scheme option) \<Rightarrow> 'a kern_scheme \<Rightarrow> 'a kern_scheme option" where
  "save_errno block s = map_option (\<lambda>t. t\<lparr>errno := errno s\<rparr>) (block s)"

section \<open>Descriptors held\<close>

text \<open>
  The descriptors a program holds after a list of calls: those that calls have returned, less
  those that were closed.  A \<open>close\<close> that fails has given the descriptor up too.
\<close>

definition creates_fd :: "syscall \<Rightarrow> bool" where
  "creates_fd c =
     (case c of
        Sys n _ \<Rightarrow> n \<in> set [''socket'', ''accept'', ''accept4'', ''dup'', ''epoll_create1'', ''epoll_create'', ''eventfd'']
      | SysPath n _ _ \<Rightarrow> n = ''open''
      | SysData _ _ _ \<Rightarrow> False)"

definition closes_fd :: "syscall \<Rightarrow> int option" where
  "closes_fd c = (case c of Sys n as \<Rightarrow> if n = ''close'' then Some (hd as) else None | _ \<Rightarrow> None)"

definition held_step :: "syscall \<times> int \<Rightarrow> int list \<Rightarrow> int list" where
  "held_step e fds =
     (if creates_fd (fst e) \<and> snd e \<ge> 0 then snd e # fds
      else case closes_fd (fst e) of None \<Rightarrow> fds | Some fd \<Rightarrow> remove1 fd fds)"

definition held :: "(syscall \<times> int) list \<Rightarrow> int list" where
  "held log = fold held_step log []"

lemma held_append: "held (l1 @ l2) = fold held_step l2 (held l1)"
  by (simp add: held_def)

text \<open>The calls of \<open>s\<close> and \<open>t\<close> differ by \<open>keeps\<close> calls, or by calls that leave \<open>fd\<close> as new descriptor.\<close>

definition holds_more :: "int list \<Rightarrow> 'a kern_scheme \<Rightarrow> 'a kern_scheme \<Rightarrow> bool" where
  "holds_more fds s t \<longleftrightarrow> held (syscalls t) = fds @ held (syscalls s)"

end
