(* ===== verification/Fd_Ops.thy ===== *)
theory Fd_Ops
  imports Kernel
begin

unbundle bit_operations_syntax

text \<open>
  Descriptors: the routines of \<open>src/unix/core.cpp\<close> that open, duplicate, accept, mark and close
  them.  Every routine is a function of the script of replies.  The static variables that remember
  that a system call is missing (\<open>no_accept4\<close> and its like) are fields of the state.
\<close>

abbreviation (input) SOCK_NONBLOCK :: int where "SOCK_NONBLOCK \<equiv> 2048"
abbreviation (input) SOCK_CLOEXEC :: int where "SOCK_CLOEXEC \<equiv> 524288"
abbreviation (input) O_NONBLOCK :: int where "O_NONBLOCK \<equiv> 2048"
abbreviation (input) O_CLOEXEC :: int where "O_CLOEXEC \<equiv> 524288"
abbreviation (input) O_RDONLY :: int where "O_RDONLY \<equiv> 0"
abbreviation (input) FD_CLOEXEC :: int where "FD_CLOEXEC \<equiv> 1"
abbreviation (input) MSG_CMSG_CLOEXEC :: int where "MSG_CMSG_CLOEXEC \<equiv> 0x40000000"

definition uv__close_nocheckstdio :: "int \<Rightarrow> 'a kern_scheme \<Rightarrow> (int \<times> 'a kern_scheme) option" where
  "uv__close_nocheckstdio fd s = do {
     require (fd > - 1);
     let saved_errno = errno s;
     (r, s) \<leftarrow> syscall (Close fd) s;
     if r_ret r = - 1 then do {
       let rc = - errno s;
       let rc = (if rc = - EINTR \<or> rc = - EINPROGRESS then 0 else rc);
       Some (rc, s\<lparr>errno := saved_errno\<rparr>)
     } else Some (r_ret r, s)
   }"

definition uv__close :: "int \<Rightarrow> 'a kern_scheme \<Rightarrow> (int \<times> 'a kern_scheme) option" where
  "uv__close fd s = do { require (fd > 2); uv__close_nocheckstdio fd s }"

definition uv__nonblock_ioctl :: "int \<Rightarrow> int \<Rightarrow> 'a kern_scheme \<Rightarrow> (int \<times> 'a kern_scheme) option" where
  "uv__nonblock_ioctl fd on s = do {
     (r, s) \<leftarrow> eintr_loop (Ioctl_fionbio fd on) s;
     Some (if r_ret r \<noteq> 0 then - errno s else 0, s)
   }"

definition uv__cloexec_ioctl :: "int \<Rightarrow> int \<Rightarrow> 'a kern_scheme \<Rightarrow> (int \<times> 'a kern_scheme) option" where
  "uv__cloexec_ioctl fd on s = do {
     (r, s) \<leftarrow> eintr_loop (Ioctl_cloexec fd on) s;
     Some (if r_ret r \<noteq> 0 then - errno s else 0, s)
   }"

definition uv__nonblock_fcntl :: "int \<Rightarrow> int \<Rightarrow> 'a kern_scheme \<Rightarrow> (int \<times> 'a kern_scheme) option" where
  "uv__nonblock_fcntl fd on s = do {
     (r, s) \<leftarrow> eintr_loop (Fcntl_getfl fd) s;
     if r_ret r = - 1 then Some (- errno s, s)
     else if (r_ret r AND O_NONBLOCK \<noteq> 0) = (on \<noteq> 0) then Some (0, s)
     else do {
       let flags = (if on \<noteq> 0 then r_ret r OR O_NONBLOCK else r_ret r AND NOT O_NONBLOCK);
       (r, s) \<leftarrow> eintr_loop (Fcntl_setfl fd flags) s;
       Some (if r_ret r \<noteq> 0 then - errno s else 0, s)
     }
   }"

definition uv__cloexec_fcntl :: "int \<Rightarrow> int \<Rightarrow> 'a kern_scheme \<Rightarrow> (int \<times> 'a kern_scheme) option" where
  "uv__cloexec_fcntl fd on s = do {
     (r, s) \<leftarrow> eintr_loop (Fcntl_getfd fd) s;
     if r_ret r = - 1 then Some (- errno s, s)
     else if (r_ret r AND FD_CLOEXEC \<noteq> 0) = (on \<noteq> 0) then Some (0, s)
     else do {
       let flags = (if on \<noteq> 0 then r_ret r OR FD_CLOEXEC else r_ret r AND NOT FD_CLOEXEC);
       (r, s) \<leftarrow> eintr_loop (Fcntl_setfd fd flags) s;
       Some (if r_ret r \<noteq> 0 then - errno s else 0, s)
     }
   }"

text \<open>\<open>#define uv__cloexec uv__cloexec_ioctl\<close> and \<open>uv__nonblock\<close>, of \<open>src/unix/internal.h\<close>.\<close>

definition uv__cloexec :: "int \<Rightarrow> int \<Rightarrow> 'a kern_scheme \<Rightarrow> (int \<times> 'a kern_scheme) option" where
  "uv__cloexec = uv__cloexec_ioctl"

definition uv__nonblock :: "int \<Rightarrow> int \<Rightarrow> 'a kern_scheme \<Rightarrow> (int \<times> 'a kern_scheme) option" where
  "uv__nonblock = uv__nonblock_ioctl"

definition uv__dup :: "int \<Rightarrow> 'a kern_scheme \<Rightarrow> (int \<times> 'a kern_scheme) option" where
  "uv__dup fd s = do {
     (r, s) \<leftarrow> syscall (Dup fd) s;
     let fd = r_ret r;
     if fd = - 1 then Some (- errno s, s)
     else do {
       (err, s) \<leftarrow> uv__cloexec fd 1 s;
       if err \<noteq> 0 then do { (_, s) \<leftarrow> uv__close fd s; Some (err, s) }
       else Some (fd, s)
     }
   }"

definition uv__socket :: "int \<Rightarrow> int \<Rightarrow> int \<Rightarrow> 'a kern_scheme \<Rightarrow> (int \<times> 'a kern_scheme) option" where
  "uv__socket domain type protocol s = do {
     (r, s) \<leftarrow> syscall (Socket domain (type OR SOCK_NONBLOCK OR SOCK_CLOEXEC) protocol) s;
     if r_ret r \<noteq> - 1 then Some (r_ret r, s)
     else if errno s \<noteq> EINVAL then Some (- errno s, s)
     else do {
       (r, s) \<leftarrow> syscall (Socket domain type protocol) s;
       let sockfd = r_ret r;
       if sockfd = - 1 then Some (- errno s, s)
       else do {
         (err, s) \<leftarrow> uv__nonblock sockfd 1 s;
         (err, s) \<leftarrow> (if err = 0 then uv__cloexec sockfd 1 s else Some (err, s));
         if err \<noteq> 0 then do { (_, s) \<leftarrow> uv__close sockfd s; Some (err, s) }
         else Some (sockfd, s)
       }
     }
   }"

definition uv__open_cloexec :: "string \<Rightarrow> int \<Rightarrow> 'a kern_scheme \<Rightarrow> (int \<times> 'a kern_scheme) option" where
  "uv__open_cloexec path flags s = do {
     (got, s) \<leftarrow> (if no_cloexec s then Some (None, s) else do {
       (r, s) \<leftarrow> syscall (Open path (flags OR O_CLOEXEC) 0) s;
       if r_ret r \<noteq> - 1 then Some (Some (r_ret r), s)
       else if errno s \<noteq> EINVAL then Some (Some (- errno s), s)
       else Some (None, s\<lparr>no_cloexec := True\<rparr>)
     });
     case got of
       Some fd \<Rightarrow> Some (fd, s)
     | None \<Rightarrow> do {
         (r, s) \<leftarrow> syscall (Open path flags 0) s;
         let fd = r_ret r;
         if fd = - 1 then Some (- errno s, s)
         else do {
           (err, s) \<leftarrow> uv__cloexec fd 1 s;
           if err \<noteq> 0 then do { (_, s) \<leftarrow> uv__close fd s; Some (err, s) }
           else Some (fd, s)
         }
       }
   }"

text \<open>The stream over the descriptor, or \<open>NULL\<close>.\<close>

definition uv__open_file :: "string \<Rightarrow> 'a kern_scheme \<Rightarrow> (int option \<times> 'a kern_scheme) option" where
  "uv__open_file path s = do {
     (fd, s) \<leftarrow> uv__open_cloexec path O_RDONLY s;
     if fd < 0 then Some (None, s)
     else do {
       (r, s) \<leftarrow> syscall (Fdopen fd) s;
       if r_ret r = - 1 then do { (_, s) \<leftarrow> uv__close fd s; Some (None, s) }
       else Some (Some fd, s)
     }
   }"

text \<open>
  \<open>uv__accept\<close>: one round of its loop, \<open>None\<close> for \<open>continue\<close>.  The second half is the part behind
  the label \<open>skip\<close>.
\<close>

definition accept_skip :: "int \<Rightarrow> 'a kern_scheme \<Rightarrow> (int option \<times> 'a kern_scheme) option" where
  "accept_skip sockfd s = do {
     (r, s) \<leftarrow> syscall (Accept sockfd) s;
     let peerfd = r_ret r;
     if peerfd = - 1 then
       (if errno s = EINTR then Some (None, s) else Some (Some (- errno s), s))
     else do {
       (err, s) \<leftarrow> uv__cloexec peerfd 1 s;
       (err, s) \<leftarrow> (if err = 0 then uv__nonblock peerfd 1 s else Some (err, s));
       if err \<noteq> 0 then do { (_, s) \<leftarrow> uv__close peerfd s; Some (Some err, s) }
       else Some (Some peerfd, s)
     }
   }"

definition accept_round :: "int \<Rightarrow> 'a kern_scheme \<Rightarrow> (int option \<times> 'a kern_scheme) option" where
  "accept_round sockfd s =
     (if no_accept4 s then accept_skip sockfd s
      else do {
        (r, s) \<leftarrow> syscall (Accept4 sockfd (SOCK_NONBLOCK OR SOCK_CLOEXEC)) s;
        if r_ret r \<noteq> - 1 then Some (Some (r_ret r), s)
        else if errno s = EINTR then Some (None, s)
        else if errno s \<noteq> ENOSYS then Some (Some (- errno s), s)
        else accept_skip sockfd (s\<lparr>no_accept4 := True\<rparr>)
      })"

partial_function (option) accept_loop :: "int \<Rightarrow> 'a kern_scheme \<Rightarrow> (int \<times> 'a kern_scheme) option" where
  "accept_loop sockfd s =
     Option.bind (accept_round sockfd s)
       (\<lambda>(r, s). case r of None \<Rightarrow> accept_loop sockfd s | Some fd \<Rightarrow> Some (fd, s))"

definition uv__accept :: "int \<Rightarrow> 'a kern_scheme \<Rightarrow> (int \<times> 'a kern_scheme) option" where
  "uv__accept sockfd s = do { require (sockfd \<ge> 0); accept_loop sockfd s }"

definition uv__dup2_cloexec :: "int \<Rightarrow> int \<Rightarrow> 'a kern_scheme \<Rightarrow> (int \<times> 'a kern_scheme) option" where
  "uv__dup2_cloexec oldfd newfd s = do {
     (got, s) \<leftarrow> (if no_dup3 s then Some (None, s) else do {
       (r, s) \<leftarrow> retry_while EBUSY (Dup3 oldfd newfd O_CLOEXEC) s;
       if r_ret r \<noteq> - 1 then Some (Some (r_ret r), s)
       else if errno s \<noteq> ENOSYS then Some (Some (- errno s), s)
       else Some (None, s\<lparr>no_dup3 := True\<rparr>)
     });
     case got of
       Some r \<Rightarrow> Some (r, s)
     | None \<Rightarrow> do {
         (r, s) \<leftarrow> retry_while EBUSY (Dup2 oldfd newfd) s;
         if r_ret r = - 1 then Some (- errno s, s)
         else do {
           (err, s) \<leftarrow> uv__cloexec newfd 1 s;
           if err \<noteq> 0 then do { (_, s) \<leftarrow> uv__close newfd s; Some (err, s) }
           else Some (r_ret r, s)
         }
       }
   }"

text \<open>
  \<open>uv__recvmsg\<close>: \<open>r_fds\<close> are the descriptors in the ancillary data.  The kernel marks them itself
  when it knows the flag, otherwise each is marked here.
\<close>

fun cloexec_all :: "int list \<Rightarrow> 'a kern_scheme \<Rightarrow> 'a kern_scheme option" where
  "cloexec_all [] s = Some s"
| "cloexec_all (fd # fds) s = do { (_, s) \<leftarrow> uv__cloexec fd 1 s; cloexec_all fds s }"

definition uv__recvmsg :: "int \<Rightarrow> int \<Rightarrow> 'a kern_scheme \<Rightarrow> (int \<times> reply \<times> 'a kern_scheme) option" where
  "uv__recvmsg fd flags s = do {
     let first = \<not> no_msg_cmsg_cloexec s;
     (done, r, s) \<leftarrow> (if first then do {
         (r, s) \<leftarrow> syscall (Recvmsg fd (flags OR MSG_CMSG_CLOEXEC)) s;
         if r_ret r \<noteq> - 1 then Some (Some (r_ret r), r, s)
         else if errno s \<noteq> EINVAL then Some (Some (- errno s), r, s)
         else do {
           (r, s) \<leftarrow> syscall (Recvmsg fd flags) s;
           if r_ret r = - 1 then Some (Some (- errno s), r, s)
           else Some (None, r, s\<lparr>no_msg_cmsg_cloexec := True\<rparr>)
         }
       } else do { (r, s) \<leftarrow> syscall (Recvmsg fd flags) s; Some (None, r, s) });
     case done of
       Some rc \<Rightarrow> Some (rc, r, s)
     | None \<Rightarrow>
         if r_ret r = - 1 then Some (- errno s, r, s)
         else do { s \<leftarrow> cloexec_all (r_fds r) s; Some (r_ret r, r, s) }
   }"

text \<open>
  \<open>uv__make_socketpair\<close> and \<open>uv__make_pipe\<close> of \<open>src/unix/process.cpp\<close>: the two descriptors are the
  reply's \<open>r_fds\<close>.  \<open>SOCK_NONBLOCK\<close> and \<open>O_NONBLOCK\<close> are the same number, \<open>UV__F_NONBLOCK\<close>.
\<close>

definition mark_pair :: "int list \<Rightarrow> int \<Rightarrow> 'a kern_scheme \<Rightarrow> 'a kern_scheme option" where
  "mark_pair fds flags s = do {
     (_, s) \<leftarrow> uv__cloexec (fds ! 0) 1 s;
     (_, s) \<leftarrow> uv__cloexec (fds ! 1) 1 s;
     if flags AND O_NONBLOCK \<noteq> 0 then do {
       (_, s) \<leftarrow> uv__nonblock (fds ! 0) 1 s;
       (_, s) \<leftarrow> uv__nonblock (fds ! 1) 1 s;
       Some s
     } else Some s
   }"

definition uv__make_socketpair :: "int \<Rightarrow> 'a kern_scheme \<Rightarrow> ((int + int list) \<times> 'a kern_scheme) option" where
  "uv__make_socketpair flags s = do {
     (got, s) \<leftarrow> (if statics s ''socketpair no_cloexec'' then Some (None, s) else do {
       (r, s) \<leftarrow> syscall (Socketpair 1 (1 OR SOCK_CLOEXEC OR flags) 0) s;
       if r_ret r = 0 then Some (Some (Inr (r_fds r)), s)
       else if errno s \<noteq> EINVAL then Some (Some (Inl (- errno s)), s)
       else Some (None, set_static ''socketpair no_cloexec'' s)
     });
     case got of
       Some res \<Rightarrow> Some (res, s)
     | None \<Rightarrow> do {
         (r, s) \<leftarrow> syscall (Socketpair 1 1 0) s;
         if r_ret r \<noteq> 0 then Some (Inl (- errno s), s)
         else do { s \<leftarrow> mark_pair (r_fds r) flags s; Some (Inr (r_fds r), s) }
       }
   }"

definition uv__make_pipe :: "int \<Rightarrow> 'a kern_scheme \<Rightarrow> ((int + int list) \<times> 'a kern_scheme) option" where
  "uv__make_pipe flags s = do {
     (got, s) \<leftarrow> (if statics s ''no_pipe2'' then Some (None, s) else do {
       (r, s) \<leftarrow> syscall (Pipe2 (flags OR O_CLOEXEC)) s;
       if r_ret r = 0 then Some (Some (Inr (r_fds r)), s)
       else if errno s \<noteq> ENOSYS then Some (Some (Inl (- errno s)), s)
       else Some (None, set_static ''no_pipe2'' s)
     });
     case got of
       Some res \<Rightarrow> Some (res, s)
     | None \<Rightarrow> do {
         (r, s) \<leftarrow> syscall Pipe s;
         if r_ret r \<noteq> 0 then Some (Inl (- errno s), s)
         else do { s \<leftarrow> mark_pair (r_fds r) flags s; Some (Inr (r_fds r), s) }
       }
   }"

definition uv_chdir :: "string \<Rightarrow> 'a kern_scheme \<Rightarrow> (int \<times> 'a kern_scheme) option" where
  "uv_chdir dir s = do {
     (r, s) \<leftarrow> syscall (Chdir dir) s;
     Some (if r_ret r \<noteq> 0 then - errno s else 0, s)
   }"

text \<open>\<open>for (fd = 0; ; fd++) if (uv__cloexec(fd, 1) && fd > 15) break;\<close>\<close>

partial_function (option) uv_disable_stdio_inheritance_from :: "int \<Rightarrow> 'a kern_scheme \<Rightarrow> 'a kern_scheme option" where
  "uv_disable_stdio_inheritance_from fd s =
     Option.bind (uv__cloexec fd 1 s)
       (\<lambda>(r, s). if r \<noteq> 0 \<and> fd > 15 then Some s else uv_disable_stdio_inheritance_from (fd + 1) s)"

definition uv_disable_stdio_inheritance :: "'a kern_scheme \<Rightarrow> 'a kern_scheme option" where
  "uv_disable_stdio_inheritance s = uv_disable_stdio_inheritance_from 0 s"

definition uv_translate_sys_error :: "int \<Rightarrow> int" where
  "uv_translate_sys_error sys_errno = (if sys_errno \<le> 0 then sys_errno else - sys_errno)"

section \<open>No descriptor is lost\<close>

text \<open>What the kernel promises: a call returns -1 with a positive error number, or a value that is not negative.\<close>

definition sane_reply :: "reply \<Rightarrow> bool" where
  "sane_reply r \<longleftrightarrow> r_ret r \<ge> - 1 \<and> (r_ret r = - 1 \<longrightarrow> r_errno r > 0)"

definition sane :: "'a kern_scheme \<Rightarrow> bool" where
  "sane s \<longleftrightarrow> errno s \<ge> 0 \<and> (\<forall>r \<in> set (replies s). sane_reply r)"

definition fds :: "'a kern_scheme \<Rightarrow> int list" where
  "fds s = held (syscalls s)"

lemma fds_simps [simp]:
  "fds (s\<lparr>errno := e\<rparr>) = fds s" "fds (s\<lparr>no_accept4 := b\<rparr>) = fds s" "fds (s\<lparr>no_cloexec := b\<rparr>) = fds s"
  "fds (s\<lparr>no_dup3 := b\<rparr>) = fds s"
  by (simp_all add: fds_def)

lemma sane_simps [simp]:
  "sane (s\<lparr>no_accept4 := b\<rparr>) = sane s" "sane (s\<lparr>no_cloexec := b\<rparr>) = sane s" "sane (s\<lparr>no_dup3 := b\<rparr>) = sane s"
  "sane s \<Longrightarrow> e \<ge> 0 \<Longrightarrow> sane (s\<lparr>errno := e\<rparr>)"
  by (simp_all add: sane_def)

lemma syscall_sane:
  assumes "syscall c s = Some (r, t)" "sane s"
  shows "sane t \<and> sane_reply r \<and> fds t = held_step (c, r_ret r) (fds s) \<and> (r_ret r = - 1 \<longrightarrow> errno t > 0)"
  using assms by (auto simp: syscall_def sane_def sane_reply_def fds_def held_append split: list.splits)

text \<open>Calls that neither open nor close.\<close>

definition neutral :: "syscall \<Rightarrow> bool" where
  "neutral c \<longleftrightarrow> \<not> creates_fd c \<and> closes_fd c = None"

lemma held_step_neutral [simp]: "neutral c \<Longrightarrow> held_step (c, r) l = l"
  by (simp add: neutral_def held_step_def)

lemma neutral_calls [simp]:
  "neutral (Ioctl_fionbio fd on)" "neutral (Ioctl_cloexec fd on)" "neutral (Fdopen fd)"
  "neutral (Dup2 a b)" "neutral (Dup3 a b f)" "neutral (Fcntl_getfl fd)" "neutral (Fcntl_setfl fd fl)"
  "neutral (Fcntl_getfd fd)" "neutral (Fcntl_setfd fd fl)"
  by (simp_all add: neutral_def creates_fd_def closes_fd_def)

lemma held_step_open [simp]:
  "held_step (Socket d ty p, r) l = (if r \<ge> 0 then r # l else l)"
  "held_step (Accept fd, r) l = (if r \<ge> 0 then r # l else l)"
  "held_step (Accept4 fd fl, r) l = (if r \<ge> 0 then r # l else l)"
  "held_step (Dup fd, r) l = (if r \<ge> 0 then r # l else l)"
  "held_step (Open path fl m, r) l = (if r \<ge> 0 then r # l else l)"
  "held_step (Close fd, r) l = remove1 fd l"
  by (simp_all add: held_step_def creates_fd_def closes_fd_def)

lemma retry_sane:
  "retry_while e c s = Some (r, t) \<Longrightarrow> sane s \<Longrightarrow> neutral c
    \<Longrightarrow> sane t \<and> sane_reply r \<and> fds t = fds s \<and> (r_ret r = - 1 \<longrightarrow> errno t > 0)"
proof (induction e c s rule: retry_while.induct)
  case (1 e c s)
  from 1(2) obtain r' u where u: "syscall c s = Some (r', u)"
    by (subst (asm) retry_while.simps) (auto split: option.splits)
  from syscall_sane [OF u 1(3)] 1(4) have s: "sane u" "fds u = fds s" "sane_reply r'" "r_ret r' = - 1 \<longrightarrow> errno u > 0"
    by auto
  show ?case
  proof (cases "r_ret r' = - 1 \<and> errno u = e")
    case True
    then have "retry_while e c u = Some (r, t)" using 1(2) u by (subst (asm) retry_while.simps) simp
    from 1(1) [OF u _ True this s(1) 1(4)] s(2) show ?thesis by simp
  next
    case False
    then have "r' = r" "u = t" using 1(2) u by (subst (asm) retry_while.simps; simp)+
    with s show ?thesis by simp
  qed
qed

lemma sane_errno: "sane s \<Longrightarrow> errno s \<ge> 0"
  by (simp add: sane_def)

lemma wp_syscall [wp_rules]:
  assumes "sane s" and Q: "\<And>r t. sane t \<Longrightarrow> r_ret r \<ge> - 1 \<Longrightarrow> fds t = held_step (c, r_ret r) (fds s)
      \<Longrightarrow> r_ret r = - 1 \<longrightarrow> errno t > 0 \<Longrightarrow> errno t \<ge> 0 \<Longrightarrow> Q (r, t)"
  shows "wp (syscall c s) Q"
proof (rule wpI)
  fix x assume x: "syscall c s = Some x"
  obtain r t where rt: "x = (r, t)" by (cases x)
  with x have "syscall c s = Some (r, t)" by simp
  from syscall_sane [OF this assms(1)] show "Q x"
    using Q [of t r] sane_errno [of t] rt by (simp add: sane_reply_def)
qed

lemma wp_retry [wp_rules]:
  assumes "sane s" "neutral c" and Q: "\<And>r t. sane t \<Longrightarrow> r_ret r \<ge> - 1 \<Longrightarrow> fds t = fds s
      \<Longrightarrow> r_ret r = - 1 \<longrightarrow> errno t > 0 \<Longrightarrow> errno t \<ge> 0 \<Longrightarrow> Q (r, t)"
  shows "wp (retry_while e c s) Q"
proof (rule wpI)
  fix x assume x: "retry_while e c s = Some x"
  obtain r t where rt: "x = (r, t)" by (cases x)
  with x have "retry_while e c s = Some (r, t)" by simp
  from retry_sane [OF this assms(1,2)] show "Q x"
    using Q [of t r] sane_errno [of t] rt by (simp add: sane_reply_def)
qed

lemma wp_cloexec [wp_rules]:
  "sane s \<Longrightarrow> (\<And>e t. sane t \<Longrightarrow> fds t = fds s \<Longrightarrow> e \<le> 0 \<Longrightarrow> Q (e, t)) \<Longrightarrow> wp (uv__cloexec fd on s) Q"
  by (auto simp: uv__cloexec_def uv__cloexec_ioctl_def intro!: wp_rules dest: sane_errno)

lemma wp_nonblock [wp_rules]:
  "sane s \<Longrightarrow> (\<And>e t. sane t \<Longrightarrow> fds t = fds s \<Longrightarrow> e \<le> 0 \<Longrightarrow> Q (e, t)) \<Longrightarrow> wp (uv__nonblock fd on s) Q"
  by (auto simp: uv__nonblock_def uv__nonblock_ioctl_def intro!: wp_rules dest: sane_errno)

lemma wp_close [wp_rules]:
  "sane s \<Longrightarrow> (\<And>e t. sane t \<Longrightarrow> fds t = remove1 fd (fds s) \<Longrightarrow> Q (e, t)) \<Longrightarrow> wp (uv__close fd s) Q"
  by (auto simp: uv__close_def uv__close_nocheckstdio_def Let_def intro!: wp_rules dest: sane_errno)

text \<open>A descriptor is handed out, or none is held that was not held before.\<close>

definition no_leak :: "'a kern_scheme \<Rightarrow> int \<Rightarrow> 'a kern_scheme \<Rightarrow> bool" where
  "no_leak s fd t \<longleftrightarrow> sane t \<and> fds t = (if fd \<ge> 0 then fd # fds s else fds s)"

lemma wp_dup: "sane s \<Longrightarrow> wp (uv__dup fd s) (\<lambda>(r, t). no_leak s r t)"
  by (auto simp: uv__dup_def Let_def no_leak_def intro!: wp_rules)

lemma wp_socket: "sane s \<Longrightarrow> wp (uv__socket d ty p s) (\<lambda>(r, t). no_leak s r t)"
  by (auto simp: uv__socket_def Let_def no_leak_def intro!: wp_rules)

lemma wp_open_cloexec: "sane s \<Longrightarrow> wp (uv__open_cloexec path flags s) (\<lambda>(r, t). no_leak s r t)"
  by (auto simp: uv__open_cloexec_def Let_def no_leak_def intro!: wp_rules)

lemma wp_accept_skip:
  "sane s \<Longrightarrow> wp (accept_skip fd s) (\<lambda>(r, t). no_leak s (case r of None \<Rightarrow> - 1 | Some v \<Rightarrow> v) t)"
  by (auto simp: accept_skip_def Let_def no_leak_def intro!: wp_rules)

lemma wp_accept_round:
  "sane s \<Longrightarrow> wp (accept_round fd s) (\<lambda>(r, t). no_leak s (case r of None \<Rightarrow> - 1 | Some v \<Rightarrow> v) t)"
  by (auto simp: accept_round_def no_leak_def intro!: wp_rules wp_accept_skip [THEN wp_mono])

lemma accept_loop_no_leak: "accept_loop fd s = Some p \<Longrightarrow> sane s \<longrightarrow> no_leak s (fst p) (snd p)"
proof (induction rule: accept_loop.raw_induct [rotated, consumes 1])
  case (1 loop fd s p)
  show ?case
  proof
    assume s: "sane s"
    obtain r u where r: "accept_round fd s = Some (r, u)" using 1(2) by (cases "accept_round fd s") auto
    then have u: "no_leak s (case r of None \<Rightarrow> - 1 | Some v \<Rightarrow> v) u" using wpD [OF wp_accept_round [OF s]] by fastforce
    show "no_leak s (fst p) (snd p)"
    proof (cases r)
      case None
      then have "loop fd u = Some p" using 1(2) r by simp
      from 1(1) [OF this] u None show ?thesis by (simp add: no_leak_def)
    next
      case (Some v)
      then show ?thesis using 1(2) r u by auto
    qed
  qed
qed

lemma wp_accept: "sane s \<Longrightarrow> wp (uv__accept fd s) (\<lambda>(r, t). no_leak s r t)"
  using accept_loop_no_leak by (fastforce simp: uv__accept_def intro!: wpI)

lemma wp_open_file:
  "sane s \<Longrightarrow> wp (uv__open_file path s) (\<lambda>(f, t). sane t \<and> fds t = (case f of None \<Rightarrow> fds s | Some fd \<Rightarrow> fd # fds s))"
  by (auto simp: uv__open_file_def no_leak_def intro!: wp_rules wp_open_cloexec [THEN wp_mono])

lemma accept_loop_step:
  "accept_round fd s = Some (None, u) \<Longrightarrow> accept_loop fd s = accept_loop fd u"
  "accept_round fd s = Some (Some v, u) \<Longrightarrow> accept_loop fd s = Some (v, u)"
  by (subst accept_loop.simps, simp)+

section \<open>Accepting ends\<close>

text \<open>
  However often the call is interrupted, \<open>uv__accept\<close> returns the first descriptor the kernel
  hands out, asked for in non-blocking, close-on-exec mode.
\<close>

lemma accept_round_eintr:
  assumes "replies s = f # rs" "failed_with EINTR f" "\<not> no_accept4 s"
  shows "accept_round fd s = Some (None, s\<lparr>replies := rs, errno := EINTR,
    syscalls := syscalls s @ [(Accept4 fd (SOCK_NONBLOCK OR SOCK_CLOEXEC), - 1)]\<rparr>)"
  using assms by (simp add: accept_round_def failed_with_def)

lemma accept_loop_result:
  assumes "replies s = fs @ r # rs" "\<forall>f \<in> set fs. failed_with EINTR f" "r_ret r \<ge> 0" "\<not> no_accept4 s"
  shows "\<exists>t. accept_loop fd s = Some (r_ret r, t) \<and> replies t = rs
    \<and> syscalls t = syscalls s @ replicate (length fs) (Accept4 fd (SOCK_NONBLOCK OR SOCK_CLOEXEC), - 1)
         @ [(Accept4 fd (SOCK_NONBLOCK OR SOCK_CLOEXEC), r_ret r)]"
  using assms
proof (induction fs arbitrary: s)
  case Nil
  then have "accept_round fd s = Some (Some (r_ret r), s\<lparr>replies := rs,
      syscalls := syscalls s @ [(Accept4 fd (SOCK_NONBLOCK OR SOCK_CLOEXEC), r_ret r)]\<rparr>)"
    by (simp add: accept_round_def)
  then show ?case by (subst accept_loop.simps) simp
next
  case (Cons f fs)
  let ?u = "s\<lparr>replies := fs @ r # rs, errno := EINTR,
    syscalls := syscalls s @ [(Accept4 fd (SOCK_NONBLOCK OR SOCK_CLOEXEC), - 1)]\<rparr>"
  have "accept_loop fd s = accept_loop fd ?u"
    using Cons.prems accept_round_eintr [of s f "fs @ r # rs" fd] by (subst accept_loop.simps) simp
  moreover from Cons.IH [of ?u] Cons.prems obtain t where "accept_loop fd ?u = Some (r_ret r, t)" "replies t = rs"
    "syscalls t = syscalls ?u @ replicate (length fs) (Accept4 fd (SOCK_NONBLOCK OR SOCK_CLOEXEC), - 1)
         @ [(Accept4 fd (SOCK_NONBLOCK OR SOCK_CLOEXEC), r_ret r)]" by auto
  ultimately show ?case by auto
qed

section \<open>Properties\<close>

text \<open>C27: whatever the kernel answers, and however often calls are interrupted or unknown to it,
  \<open>uv__socket\<close>, \<open>uv__accept\<close>, \<open>uv__dup\<close> and \<open>uv__open_cloexec\<close> either return a descriptor, which is
  then the only one opened and not closed, or an error, and then every descriptor they opened is closed.\<close>
theorem descriptors_not_leaked:
  assumes "sane s"
    and "uv__socket d ty p s = Some (r, t) \<or> uv__accept fd s = Some (r, t) \<or> uv__dup fd s = Some (r, t)
      \<or> uv__open_cloexec path flags s = Some (r, t)"
  shows "held (syscalls t) = (if r \<ge> 0 then r # held (syscalls s) else held (syscalls s))"
proof -
  have "no_leak s r t"
    using assms(2) wpD [OF wp_socket [OF assms(1)], of d ty p "(r, t)"] wpD [OF wp_accept [OF assms(1)], of fd "(r, t)"]
      wpD [OF wp_dup [OF assms(1)], of fd "(r, t)"] wpD [OF wp_open_cloexec [OF assms(1)], of path flags "(r, t)"]
    by (elim disjE) simp_all
  then show ?thesis by (simp add: no_leak_def fds_def)
qed

definition kern_with :: "reply list \<Rightarrow> kern" where
  "kern_with rs = \<lparr>replies = rs, syscalls = [], errno = 0, no_accept4 = False, no_msg_cmsg_cloexec = False,
     no_cloexec = False, no_dup3 = False, no_epoll_pwait = False, no_epoll_wait = False, fast_clock_id = - 1,
     statics = (\<lambda>_. False)\<rparr>"

text \<open>An old kernel: \<open>accept4\<close> is missing, and marking the descriptor fails, so that it is closed.\<close>

theorem descriptors_not_leaked_witness:
  "\<exists>t. uv__accept 3 (kern_with [fail EINTR, fail ENOSYS, ret 9, fail EINVAL, ret 0]) = Some (- 22, t)
    \<and> held (syscalls t) = []"
proof -
  let ?s = "kern_with [fail EINTR, fail ENOSYS, ret 9, fail EINVAL, ret 0]"
  let ?u = "?s\<lparr>replies := tl (replies ?s), errno := EINTR, syscalls := [(Accept4 3 (SOCK_NONBLOCK OR SOCK_CLOEXEC), - 1)]\<rparr>"
  have "accept_round 3 ?s = Some (None, ?u)"
    by (simp add: kern_with_def accept_round_def fail_def ret_def)
  moreover have "\<exists>t. accept_round 3 ?u = Some (Some (- 22), t)"
    by (simp add: kern_with_def accept_round_def accept_skip_def fail_def ret_def Let_def
        uv__cloexec_def uv__cloexec_ioctl_def retry_while_cons failed_with_def uv__close_def uv__close_nocheckstdio_def)
  ultimately have run: "\<exists>t. uv__accept 3 ?s = Some (- 22, t)"
    by (auto simp: uv__accept_def accept_loop_step)
  have "sane ?s" by (simp add: sane_def sane_reply_def kern_with_def fail_def ret_def)
  with run descriptors_not_leaked [of ?s 0 0 0 "- 22" _ 3] show ?thesis
    by (fastforce simp: kern_with_def held_def)
qed

text \<open>\<open>uv__accept\<close> is not stopped by signals: it makes the call again after every \<open>EINTR\<close> and
  returns the descriptor of the first call that succeeds.\<close>
theorem accept_survives_signals:
  assumes "replies s = fs @ r # rs" "\<forall>f \<in> set fs. failed_with EINTR f" "r_ret r \<ge> 0" "\<not> no_accept4 s" "fd \<ge> 0"
  shows "\<exists>t. uv__accept fd s = Some (r_ret r, t) \<and> replies t = rs
    \<and> syscalls t = syscalls s @ replicate (length fs) (Accept4 fd (SOCK_NONBLOCK OR SOCK_CLOEXEC), - 1)
         @ [(Accept4 fd (SOCK_NONBLOCK OR SOCK_CLOEXEC), r_ret r)]"
  using accept_loop_result [OF assms(1-4), of fd] assms(5) by (simp add: uv__accept_def)

theorem accept_survives_signals_witness:
  "\<exists>t. uv__accept 3 (kern_with [fail EINTR, fail EINTR, ret 9]) = Some (9, t)"
  using accept_survives_signals [of "kern_with [fail EINTR, fail EINTR, ret 9]" "[fail EINTR, fail EINTR]" "ret 9" "[]" 3]
  by (auto simp: kern_with_def failed_with_def fail_def ret_def)

end
