(* ===== verification/Handles.thy ===== *)
theory Handles
  imports Queues Fd_Ops
begin

unbundle bit_operations_syntax

text \<open>
  Handles, requests and the loop's reference count: the macros of \<open>src/uv-common.h\<close> and
  \<open>src/unix/internal.h\<close> that every handle type shares, and the generic operations of
  \<open>src/uv-common.cpp\<close>.  A loop is a record with the fields of \<open>uv_loop_t\<close> these macros touch;
  the loops of the other theories extend it.  Queues are lists, which \<open>Queues\<close> justifies.
  The invariant \<open>refs_ok\<close> says that \<open>active_handles\<close> counts the queued handles that are both
  active and referenced, without wrapping around.
\<close>

section \<open>Flags\<close>

definition has_flag :: "u32 \<Rightarrow> u32 \<Rightarrow> bool" where
  "has_flag f m \<longleftrightarrow> f AND m \<noteq> 0"

definition set_flag :: "u32 \<Rightarrow> u32 \<Rightarrow> u32" where
  "set_flag f m = f OR m"

definition clear_flag :: "u32 \<Rightarrow> u32 \<Rightarrow> u32" where
  "clear_flag f m = f AND NOT m"

text \<open>\<open>src/uv-common.h\<close>\<close>

abbreviation (input) UV__HANDLE_INTERNAL :: u32 where "UV__HANDLE_INTERNAL \<equiv> 0x8000"
abbreviation (input) UV__HANDLE_ACTIVE :: u32 where "UV__HANDLE_ACTIVE \<equiv> 0x4000"
abbreviation (input) UV__HANDLE_REF :: u32 where "UV__HANDLE_REF \<equiv> 0x2000"
abbreviation (input) UV__HANDLE_CLOSING :: u32 where "UV__HANDLE_CLOSING \<equiv> 0"

text \<open>\<open>src/unix/internal.h\<close>\<close>

abbreviation (input) UV_CLOSING :: u32 where "UV_CLOSING \<equiv> 0x01"
abbreviation (input) UV_CLOSED :: u32 where "UV_CLOSED \<equiv> 0x02"
abbreviation (input) UV_STREAM_READING :: u32 where "UV_STREAM_READING \<equiv> 0x04"
abbreviation (input) UV_STREAM_SHUTTING :: u32 where "UV_STREAM_SHUTTING \<equiv> 0x08"
abbreviation (input) UV_STREAM_SHUT :: u32 where "UV_STREAM_SHUT \<equiv> 0x10"
abbreviation (input) UV_STREAM_READABLE :: u32 where "UV_STREAM_READABLE \<equiv> 0x20"
abbreviation (input) UV_STREAM_WRITABLE :: u32 where "UV_STREAM_WRITABLE \<equiv> 0x40"
abbreviation (input) UV_STREAM_BLOCKING :: u32 where "UV_STREAM_BLOCKING \<equiv> 0x80"
abbreviation (input) UV_STREAM_READ_PARTIAL :: u32 where "UV_STREAM_READ_PARTIAL \<equiv> 0x100"
abbreviation (input) UV_STREAM_READ_EOF :: u32 where "UV_STREAM_READ_EOF \<equiv> 0x200"
abbreviation (input) UV_TCP_NODELAY :: u32 where "UV_TCP_NODELAY \<equiv> 0x400"
abbreviation (input) UV_TCP_KEEPALIVE :: u32 where "UV_TCP_KEEPALIVE \<equiv> 0x800"
abbreviation (input) UV_TCP_SINGLE_ACCEPT :: u32 where "UV_TCP_SINGLE_ACCEPT \<equiv> 0x1000"
abbreviation (input) UV_HANDLE_IPV6 :: u32 where "UV_HANDLE_IPV6 \<equiv> 0x10000"
abbreviation (input) UV_UDP_PROCESSING :: u32 where "UV_UDP_PROCESSING \<equiv> 0x20000"
abbreviation (input) UV_HANDLE_BOUND :: u32 where "UV_HANDLE_BOUND \<equiv> 0x40000"

lemma has_flag_set [flag_simps]:
  "m1 AND m2 = 0 \<Longrightarrow> has_flag (set_flag f m1) m2 = has_flag f m2"
  "m \<noteq> 0 \<Longrightarrow> has_flag (set_flag f m) m"
  by (simp_all add: has_flag_def set_flag_def bit.conj_disj_distrib2 and.assoc or.commute)

lemma has_flag_clear [flag_simps]:
  "m1 AND m2 = 0 \<Longrightarrow> has_flag (clear_flag f m1) m2 = has_flag f m2"
  "\<not> has_flag (clear_flag f m) m"
proof -
  show "has_flag (clear_flag f m1) m2 = has_flag f m2" if "m1 AND m2 = 0"
  proof -
    have "NOT m1 AND m2 = m2" using that by (auto simp: bit_eq_iff bit_simps)
    then show ?thesis by (simp add: has_flag_def clear_flag_def and.assoc)
  qed
  show "\<not> has_flag (clear_flag f m) m"
    by (auto simp: has_flag_def clear_flag_def bit_eq_iff bit_simps)
qed

lemma has_flag_zero [flag_simps]: "\<not> has_flag 0 m" "\<not> has_flag f 0" "has_flag m m = (m \<noteq> 0)"
  by (simp_all add: has_flag_def)

lemma has_flag_numeral [flag_simps]:
  "has_flag (numeral a) (numeral b) = (numeral a AND numeral b \<noteq> (0::u32))"
  "has_flag 1 (numeral b) = (1 AND numeral b \<noteq> (0::u32))"
  "has_flag (numeral a) 1 = (numeral a AND 1 \<noteq> (0::u32))"
  by (simp_all add: has_flag_def)

section \<open>Handles and the loop\<close>

datatype uv_handle_type =
    UV_UNKNOWN_HANDLE | UV_ASYNC | UV_CHECK | UV_FS_EVENT | UV_FS_POLL | UV_HANDLE | UV_IDLE
  | UV_NAMED_PIPE | UV_POLL | UV_PREPARE | UV_PROCESS | UV_STREAM | UV_TCP | UV_TIMER | UV_TTY
  | UV_UDP | UV_SIGNAL | UV_FILE

datatype uv_req_type =
    UV_UNKNOWN_REQ | UV_REQ | UV_CONNECT | UV_WRITE | UV_SHUTDOWN | UV_UDP_SEND | UV_FS | UV_WORK
  | UV_GETADDRINFO | UV_GETNAMEINFO

text \<open>
  A call of a user's callback, as the loop makes it.  \<open>Close_cb h\<close> is the callback given to
  \<open>uv_close\<close>, the others the callback stored in the handle or the request.  \<open>Recv_cb\<close> has the
  number of bytes, the bytes, the peer's address, the empty list for none, and the flags.
\<close>

datatype callback =
    Timer_cb addr | Idle_cb addr | Prepare_cb addr | Check_cb addr | Async_cb addr
  | Close_cb addr | Signal_cb addr int | Walk_cb addr | Io_cb addr u32 | Poll_cb addr int u32
  | Exit_cb addr int int | Fs_poll_cb addr int | Work_cb addr | Done_cb addr int
  | Req_cb addr int | Read_cb addr int "u8 list" | Connection_cb addr int | Write_cb addr int
  | Connect_cb addr int | Shutdown_cb addr int | Recv_cb addr int "u8 list" "int list" u32 | Send_cb addr int
  | Fs_event_cb addr string u32

record uv_handle =
  h_type :: uv_handle_type
  h_flags :: u32
  h_close_cb :: bool

record loop = kern +
  active_handles :: u32
  handle_queue :: "addr list"
  active_reqs :: "addr list"
  closing_handles :: "addr list"
  stop_flag :: u32
  loop_time :: u64
  hnd :: "addr \<Rightarrow> uv_handle"
  trace :: "callback list"

text \<open>
  A user callback may do anything the interface allows, so it is a parameter: a function from
  the callback and the loop's state to the state it leaves.  The ghost field \<open>trace\<close> records the
  calls in order.
\<close>

definition invoke :: "(callback \<Rightarrow> 'a loop_scheme \<Rightarrow> 'a loop_scheme) \<Rightarrow> callback \<Rightarrow> 'a loop_scheme \<Rightarrow> 'a loop_scheme" where
  "invoke call c s = call c (s\<lparr>trace := trace s @ [c]\<rparr>)"

definition flags_of :: "'a loop_scheme \<Rightarrow> addr \<Rightarrow> u32" where
  "flags_of s h = h_flags (hnd s h)"

definition upd_flags :: "addr \<Rightarrow> (u32 \<Rightarrow> u32) \<Rightarrow> 'a loop_scheme \<Rightarrow> 'a loop_scheme" where
  "upd_flags h f s = s\<lparr>hnd := (hnd s)(h := (hnd s h)\<lparr>h_flags := f (h_flags (hnd s h))\<rparr>)\<rparr>"

definition uv__is_active :: "addr \<Rightarrow> 'a loop_scheme \<Rightarrow> bool" where
  "uv__is_active h s = has_flag (flags_of s h) UV__HANDLE_ACTIVE"

definition uv__is_closing :: "addr \<Rightarrow> 'a loop_scheme \<Rightarrow> bool" where
  "uv__is_closing h s = has_flag (flags_of s h) (UV_CLOSING OR UV_CLOSED)"

definition uv__has_ref :: "addr \<Rightarrow> 'a loop_scheme \<Rightarrow> bool" where
  "uv__has_ref h s = has_flag (flags_of s h) UV__HANDLE_REF"

definition uv__active_handle_add :: "'a loop_scheme \<Rightarrow> 'a loop_scheme" where
  "uv__active_handle_add s = s\<lparr>active_handles := active_handles s + 1\<rparr>"

definition uv__active_handle_rm :: "'a loop_scheme \<Rightarrow> 'a loop_scheme" where
  "uv__active_handle_rm s = s\<lparr>active_handles := active_handles s - 1\<rparr>"

definition uv__handle_start :: "addr \<Rightarrow> 'a loop_scheme \<Rightarrow> 'a loop_scheme" where
  "uv__handle_start h s =
     (if has_flag (flags_of s h) UV__HANDLE_ACTIVE then s
      else let s = upd_flags h (\<lambda>f. set_flag f UV__HANDLE_ACTIVE) s
           in if has_flag (flags_of s h) UV__HANDLE_REF then uv__active_handle_add s else s)"

definition uv__handle_stop :: "addr \<Rightarrow> 'a loop_scheme \<Rightarrow> 'a loop_scheme" where
  "uv__handle_stop h s =
     (if \<not> has_flag (flags_of s h) UV__HANDLE_ACTIVE then s
      else let s = upd_flags h (\<lambda>f. clear_flag f UV__HANDLE_ACTIVE) s
           in if has_flag (flags_of s h) UV__HANDLE_REF then uv__active_handle_rm s else s)"

definition uv__handle_ref :: "addr \<Rightarrow> 'a loop_scheme \<Rightarrow> 'a loop_scheme" where
  "uv__handle_ref h s =
     (if has_flag (flags_of s h) UV__HANDLE_REF then s
      else let s = upd_flags h (\<lambda>f. set_flag f UV__HANDLE_REF) s
           in if has_flag (flags_of s h) UV__HANDLE_CLOSING then s
              else if has_flag (flags_of s h) UV__HANDLE_ACTIVE then uv__active_handle_add s else s)"

definition uv__handle_unref :: "addr \<Rightarrow> 'a loop_scheme \<Rightarrow> 'a loop_scheme" where
  "uv__handle_unref h s =
     (if \<not> has_flag (flags_of s h) UV__HANDLE_REF then s
      else let s = upd_flags h (\<lambda>f. clear_flag f UV__HANDLE_REF) s
           in if has_flag (flags_of s h) UV__HANDLE_CLOSING then s
              else if has_flag (flags_of s h) UV__HANDLE_ACTIVE then uv__active_handle_rm s else s)"

definition uv__handle_init :: "addr \<Rightarrow> uv_handle_type \<Rightarrow> 'a loop_scheme \<Rightarrow> 'a loop_scheme" where
  "uv__handle_init h ty s =
     (let s = s\<lparr>hnd := (hnd s)(h := (hnd s h)\<lparr>h_type := ty, h_flags := UV__HANDLE_REF\<rparr>)\<rparr>
      in s\<lparr>handle_queue := handle_queue s @ [h]\<rparr>)"

definition uv__has_active_handles :: "'a loop_scheme \<Rightarrow> bool" where
  "uv__has_active_handles s = (active_handles s > 0)"

definition uv__has_active_reqs :: "'a loop_scheme \<Rightarrow> bool" where
  "uv__has_active_reqs s = (active_reqs s \<noteq> [])"

definition uv__req_register :: "addr \<Rightarrow> 'a loop_scheme \<Rightarrow> 'a loop_scheme" where
  "uv__req_register r s = s\<lparr>active_reqs := active_reqs s @ [r]\<rparr>"

definition uv__req_unregister :: "addr \<Rightarrow> 'a loop_scheme \<Rightarrow> 'a loop_scheme" where
  "uv__req_unregister r s = s\<lparr>active_reqs := remove1 r (active_reqs s)\<rparr>"

text \<open>\<open>src/uv-common.cpp\<close>: the public face of these macros.\<close>

definition uv_ref :: "addr \<Rightarrow> 'a loop_scheme \<Rightarrow> 'a loop_scheme" where
  "uv_ref h s = uv__handle_ref h s"

definition uv_unref :: "addr \<Rightarrow> 'a loop_scheme \<Rightarrow> 'a loop_scheme" where
  "uv_unref h s = uv__handle_unref h s"

definition uv_has_ref :: "addr \<Rightarrow> 'a loop_scheme \<Rightarrow> bool" where
  "uv_has_ref h s = uv__has_ref h s"

definition uv_is_active :: "addr \<Rightarrow> 'a loop_scheme \<Rightarrow> bool" where
  "uv_is_active h s = uv__is_active h s"

definition uv_is_closing :: "addr \<Rightarrow> 'a loop_scheme \<Rightarrow> bool" where
  "uv_is_closing h s = uv__is_closing h s"

definition uv_stop :: "'a loop_scheme \<Rightarrow> 'a loop_scheme" where
  "uv_stop s = s\<lparr>stop_flag := 1\<rparr>"

definition uv_now :: "'a loop_scheme \<Rightarrow> u64" where
  "uv_now s = loop_time s"

text \<open>
  \<open>uv_walk\<close>: the queue is moved to a local one, whose cells go back one at a time; a callback
  may add handles to the loop's queue but the walk only sees those it started with.  The local
  queue shrinks by its head in every round; a callback that unlinks a handle from it (none of
  the functions a walk callback may call does: \<open>uv_close\<close> unlinks later) is not modelled.
\<close>

fun uv_walk_queue :: "(callback \<Rightarrow> 'a loop_scheme \<Rightarrow> 'a loop_scheme) \<Rightarrow> addr list \<Rightarrow> 'a loop_scheme \<Rightarrow> 'a loop_scheme" where
  "uv_walk_queue call [] s = s"
| "uv_walk_queue call (h # q) s =
     (let s = s\<lparr>handle_queue := handle_queue s @ [h]\<rparr>
      in if has_flag (flags_of s h) UV__HANDLE_INTERNAL then uv_walk_queue call q s
         else uv_walk_queue call q (invoke call (Walk_cb h) s))"

definition uv_walk :: "(callback \<Rightarrow> 'a loop_scheme \<Rightarrow> 'a loop_scheme) \<Rightarrow> 'a loop_scheme \<Rightarrow> 'a loop_scheme" where
  "uv_walk call s =
     (let queue = handle_queue s
      in uv_walk_queue call queue (s\<lparr>handle_queue := []\<rparr>))"

section \<open>The reference count of the loop\<close>

lemma flags_of_upd [simp]: "flags_of (upd_flags h f s) k = (if k = h then f (flags_of s h) else flags_of s k)"
  by (simp add: flags_of_def upd_flags_def)

lemma upd_flags_fields [simp]:
  "active_handles (upd_flags h f s) = active_handles s"
  "handle_queue (upd_flags h f s) = handle_queue s"
  "active_reqs (upd_flags h f s) = active_reqs s"
  "closing_handles (upd_flags h f s) = closing_handles s"
  "stop_flag (upd_flags h f s) = stop_flag s"
  "loop_time (upd_flags h f s) = loop_time s"
  "trace (upd_flags h f s) = trace s"
  "replies (upd_flags h f s) = replies s"
  "syscalls (upd_flags h f s) = syscalls s"
  "loop.more (upd_flags h f s) = loop.more s"
  by (simp_all add: upd_flags_def)

text \<open>The handles that keep the loop alive, and the agreement of the counter with them.\<close>

definition counted :: "'a loop_scheme \<Rightarrow> addr set" where
  "counted s = {h \<in> set (handle_queue s). uv__is_active h s \<and> uv__has_ref h s}"

definition refs_ok :: "'a loop_scheme \<Rightarrow> bool" where
  "refs_ok s \<longleftrightarrow> distinct (handle_queue s) \<and> length (handle_queue s) < 2 ^ 32
     \<and> active_handles s = of_nat (card (counted s))"

lemma counted_finite [simp]: "finite (counted s)"
  by (simp add: counted_def)

lemma counted_bound: "refs_ok s \<Longrightarrow> card (counted s) < 2 ^ 32"
proof -
  assume ok: "refs_ok s"
  have "card (counted s) \<le> card (set (handle_queue s))"
    by (rule card_mono) (auto simp: counted_def)
  then show ?thesis using ok by (auto simp: refs_ok_def distinct_card)
qed

lemma has_active_iff: "refs_ok s \<Longrightarrow> uv__has_active_handles s \<longleftrightarrow> counted s \<noteq> {}"
proof -
  assume ok: "refs_ok s"
  have "unat (active_handles s) = card (counted s)"
    using ok counted_bound [OF ok] by (simp add: refs_ok_def unat_of_nat take_bit_nat_eq_self)
  then show ?thesis
    by (simp add: uv__has_active_handles_def word_neq_0_conv [symmetric] unat_eq_0 [symmetric])
qed

text \<open>
  The only fact the preservation proofs need: when only the flags of \<open>h\<close> change, the counter has
  to change by the difference \<open>h\<close> makes.
\<close>

lemma card_remove_of_nat:
  "finite A \<Longrightarrow> (of_nat (card A) :: u32) = of_nat (card (A - {h})) + (if h \<in> A then 1 else 0)"
  using arg_cong [OF card_Suc_Diff1 [of A h], of "of_nat :: nat \<Rightarrow> u32"]
  by (cases "h \<in> A") (simp_all add: add.commute del: card_Diff_insert card_Diff_singleton)

lemma refs_ok_flags_change:
  assumes ok: "refs_ok s" and h: "h \<in> set (handle_queue s)"
    and q: "handle_queue t = handle_queue s"
    and other: "\<And>k. k \<noteq> h \<Longrightarrow> flags_of t k = flags_of s k"
    and cnt: "active_handles t = active_handles s - (if h \<in> counted s then 1 else 0)
                + (if uv__is_active h t \<and> uv__has_ref h t then 1 else 0)"
  shows "refs_ok t"
proof -
  let ?n = "of_nat (card (counted s - {h})) :: u32"
  have eq: "counted t - {h} = counted s - {h}"
    using q other by (auto simp: counted_def uv__is_active_def uv__has_ref_def)
  have mem: "h \<in> counted t \<longleftrightarrow> uv__is_active h t \<and> uv__has_ref h t"
    using h q by (simp add: counted_def)
  have s: "of_nat (card (counted s)) = ?n + (if h \<in> counted s then 1 else 0)"
    using card_remove_of_nat [of "counted s" h] by simp
  have t: "of_nat (card (counted t)) = ?n + (if h \<in> counted t then 1 else 0)"
    using card_remove_of_nat [of "counted t" h] eq by simp
  have "active_handles t = of_nat (card (counted t))"
    using ok by (simp only: cnt t mem [symmetric] refs_ok_def s) simp
  then show ?thesis
    using ok q by (simp add: refs_ok_def)
qed

lemma refs_ok_cong:
  assumes "handle_queue t = handle_queue s" "active_handles t = active_handles s" "flags_of t = flags_of s"
  shows "refs_ok t = refs_ok s"
  using assms by (simp add: refs_ok_def counted_def uv__is_active_def uv__has_ref_def)

lemmas handle_defs = uv__handle_start_def uv__handle_stop_def uv__handle_ref_def uv__handle_unref_def
  uv__active_handle_add_def uv__active_handle_rm_def Let_def

lemma flags_of_count [simp]:
  "flags_of (s\<lparr>active_handles := n\<rparr>) = flags_of s"
  "flags_of (s\<lparr>handle_queue := q\<rparr>) = flags_of s"
  "flags_of (s\<lparr>active_reqs := q\<rparr>) = flags_of s"
  "flags_of (s\<lparr>closing_handles := q\<rparr>) = flags_of s"
  "flags_of (s\<lparr>stop_flag := n\<rparr>) = flags_of s"
  "flags_of (s\<lparr>loop_time := w\<rparr>) = flags_of s"
  "flags_of (s\<lparr>trace := tr\<rparr>) = flags_of s"
  "flags_of (s\<lparr>replies := rs\<rparr>) = flags_of s"
  "flags_of (s\<lparr>syscalls := cs\<rparr>) = flags_of s"
  "flags_of (s\<lparr>errno := e\<rparr>) = flags_of s"
  by (simp_all add: fun_eq_iff flags_of_def)

lemma handle_ops_frame [simp]:
  "handle_queue (uv__handle_start h s) = handle_queue s"
  "handle_queue (uv__handle_stop h s) = handle_queue s"
  "handle_queue (uv__handle_ref h s) = handle_queue s"
  "handle_queue (uv__handle_unref h s) = handle_queue s"
  "active_reqs (uv__handle_start h s) = active_reqs s"
  "active_reqs (uv__handle_stop h s) = active_reqs s"
  "active_reqs (uv__handle_ref h s) = active_reqs s"
  "active_reqs (uv__handle_unref h s) = active_reqs s"
  "closing_handles (uv__handle_start h s) = closing_handles s"
  "closing_handles (uv__handle_stop h s) = closing_handles s"
  "closing_handles (uv__handle_ref h s) = closing_handles s"
  "closing_handles (uv__handle_unref h s) = closing_handles s"
  "loop_time (uv__handle_start h s) = loop_time s"
  "loop_time (uv__handle_stop h s) = loop_time s"
  "loop_time (uv__handle_unref h s) = loop_time s"
  "stop_flag (uv__handle_start h s) = stop_flag s"
  "stop_flag (uv__handle_stop h s) = stop_flag s"
  "trace (uv__handle_start h s) = trace s"
  "trace (uv__handle_stop h s) = trace s"
  "trace (uv__handle_unref h s) = trace s"
  "replies (uv__handle_start h s) = replies s"
  "replies (uv__handle_stop h s) = replies s"
  "replies (uv__handle_unref h s) = replies s"
  "syscalls (uv__handle_start h s) = syscalls s"
  "syscalls (uv__handle_stop h s) = syscalls s"
  "syscalls (uv__handle_unref h s) = syscalls s"
  "loop.more (uv__handle_start h s) = loop.more s"
  "loop.more (uv__handle_stop h s) = loop.more s"
  "loop.more (uv__handle_ref h s) = loop.more s"
  "loop.more (uv__handle_unref h s) = loop.more s"
  by (simp_all add: handle_defs)

lemma has_flag_exp: "has_flag f (2 ^ n) \<longleftrightarrow> bit f n"
  by (simp add: has_flag_def and_exp_eq_0_iff_not_bit)

lemma set_flag_idem:
  assumes "has_flag f (2 ^ n)"
  shows "set_flag f (2 ^ n) = f"
  using assms by (auto simp: has_flag_exp set_flag_def bit_or_iff bit_exp_iff intro!: bit_word_eqI)

lemma clear_flag_idem:
  assumes "\<not> has_flag f (2 ^ n)"
  shows "clear_flag f (2 ^ n) = f"
  using assms by (auto simp: has_flag_exp clear_flag_def bit_and_iff bit_not_iff bit_exp_iff intro!: bit_word_eqI)

lemma flag_idem [flag_simps]:
  "has_flag f UV__HANDLE_ACTIVE \<Longrightarrow> set_flag f UV__HANDLE_ACTIVE = f"
  "\<not> has_flag f UV__HANDLE_ACTIVE \<Longrightarrow> clear_flag f UV__HANDLE_ACTIVE = f"
  "has_flag f UV__HANDLE_REF \<Longrightarrow> set_flag f UV__HANDLE_REF = f"
  "\<not> has_flag f UV__HANDLE_REF \<Longrightarrow> clear_flag f UV__HANDLE_REF = f"
  using set_flag_idem [of f 14] clear_flag_idem [of f 14] set_flag_idem [of f 13] clear_flag_idem [of f 13]
  by simp_all

lemma handle_ops_flags [flag_simps]:
  "flags_of (uv__handle_start h s) k = (if k = h then set_flag (flags_of s h) UV__HANDLE_ACTIVE else flags_of s k)"
  "flags_of (uv__handle_stop h s) k = (if k = h then clear_flag (flags_of s h) UV__HANDLE_ACTIVE else flags_of s k)"
  "flags_of (uv__handle_ref h s) k = (if k = h then set_flag (flags_of s h) UV__HANDLE_REF else flags_of s k)"
  "flags_of (uv__handle_unref h s) k = (if k = h then clear_flag (flags_of s h) UV__HANDLE_REF else flags_of s k)"
  by (auto simp: handle_defs flag_simps)

lemma handle_start_refs: "refs_ok s \<Longrightarrow> h \<in> set (handle_queue s) \<Longrightarrow> refs_ok (uv__handle_start h s)"
  by (erule refs_ok_flags_change [where h = h])
    (auto simp: handle_defs uv__is_active_def uv__has_ref_def counted_def flag_simps)

lemma handle_stop_refs: "refs_ok s \<Longrightarrow> h \<in> set (handle_queue s) \<Longrightarrow> refs_ok (uv__handle_stop h s)"
  by (erule refs_ok_flags_change [where h = h])
    (auto simp: handle_defs uv__is_active_def uv__has_ref_def counted_def flag_simps)

lemma handle_ref_refs: "refs_ok s \<Longrightarrow> h \<in> set (handle_queue s) \<Longrightarrow> refs_ok (uv__handle_ref h s)"
  by (erule refs_ok_flags_change [where h = h])
    (auto simp: handle_defs uv__is_active_def uv__has_ref_def counted_def flag_simps)

lemma handle_unref_refs: "refs_ok s \<Longrightarrow> h \<in> set (handle_queue s) \<Longrightarrow> refs_ok (uv__handle_unref h s)"
  by (erule refs_ok_flags_change [where h = h])
    (auto simp: handle_defs uv__is_active_def uv__has_ref_def counted_def flag_simps)

lemma handle_init_counted:
  "h \<notin> set (handle_queue s) \<Longrightarrow> counted (uv__handle_init h ty s) = counted s"
  by (auto simp: counted_def uv__handle_init_def Let_def uv__is_active_def uv__has_ref_def
      flags_of_def flag_simps)

lemma handle_init_fields [simp]:
  "handle_queue (uv__handle_init h ty s) = handle_queue s @ [h]"
  "active_handles (uv__handle_init h ty s) = active_handles s"
  "loop_time (uv__handle_init h ty s) = loop_time s"
  "active_reqs (uv__handle_init h ty s) = active_reqs s"
  "closing_handles (uv__handle_init h ty s) = closing_handles s"
  "trace (uv__handle_init h ty s) = trace s"
  "loop.more (uv__handle_init h ty s) = loop.more s"
  "flags_of (uv__handle_init h ty s) = (flags_of s)(h := UV__HANDLE_REF)"
  "h_type (hnd (uv__handle_init h ty s) h) = ty"
  by (auto simp: uv__handle_init_def Let_def flags_of_def)

lemma handle_init_refs:
  "refs_ok s \<Longrightarrow> h \<notin> set (handle_queue s) \<Longrightarrow> Suc (length (handle_queue s)) < 2 ^ 32
    \<Longrightarrow> refs_ok (uv__handle_init h ty s)"
  by (simp add: refs_ok_def handle_init_counted)

lemma handle_init_inactive: "\<not> uv__is_active h (uv__handle_init h ty s)"
  by (simp add: uv__is_active_def flag_simps)

text \<open>
  Unlinking a handle that no longer counts, as \<open>uv__finish_close\<close> does, keeps the agreement.
\<close>

lemma unlink_refs:
  assumes "refs_ok s" "h \<notin> counted s"
  shows "refs_ok (s\<lparr>handle_queue := remove1 h (handle_queue s)\<rparr>)"
proof -
  have "counted (s\<lparr>handle_queue := remove1 h (handle_queue s)\<rparr>) = counted s"
    using assms by (auto simp: counted_def refs_ok_def uv__is_active_def uv__has_ref_def)
  moreover have "length (remove1 h (handle_queue s)) \<le> length (handle_queue s)"
    by (simp add: length_remove1)
  ultimately show ?thesis
    using assms by (auto simp: refs_ok_def)
qed

lemma stop_not_counted: "h \<notin> counted (uv__handle_stop h s)"
  by (simp add: counted_def uv__is_active_def flag_simps)

lemma unref_not_counted: "h \<notin> counted (uv__handle_unref h s)"
  by (simp add: counted_def uv__has_ref_def flag_simps)

section \<open>Walking over the handles\<close>

definition walk_calls :: "'a loop_scheme \<Rightarrow> addr list \<Rightarrow> callback list" where
  "walk_calls s q = map Walk_cb (filter (\<lambda>h. \<not> has_flag (flags_of s h) UV__HANDLE_INTERNAL) q)"

lemma walk_queue_visits:
  assumes call: "\<And>c u. handle_queue (call c u) = handle_queue u \<and> flags_of (call c u) = flags_of u
      \<and> trace (call c u) = trace u"
  shows "handle_queue (uv_walk_queue call q s) = handle_queue s @ q
    \<and> flags_of (uv_walk_queue call q s) = flags_of s
    \<and> trace (uv_walk_queue call q s) = trace s @ walk_calls s q"
  by (induction q arbitrary: s)
    (simp_all add: Let_def invoke_def call walk_calls_def)

section \<open>Properties\<close>

text \<open>C26: starting, stopping, referencing and unreferencing a handle of the loop, in any order and
  any number of times, keep \<open>active_handles\<close> equal to the number of handles that are both active
  and referenced; so the loop is alive by its handles exactly when there is such a handle.\<close>
theorem handle_ops_count:
  assumes "refs_ok s" "h \<in> set (handle_queue s)"
  shows "(\<forall>f \<in> {uv__handle_start h, uv__handle_stop h, uv__handle_ref h, uv__handle_unref h}.
        refs_ok (f s) \<and> handle_queue (f s) = handle_queue s
        \<and> (uv__has_active_handles (f s) \<longleftrightarrow> counted (f s) \<noteq> {}))
    \<and> counted (uv__handle_stop h s) = counted s - {h}
    \<and> counted (uv__handle_start h s) = (if uv__has_ref h s then insert h (counted s) else counted s)
    \<and> counted (uv__handle_unref h s) = counted s - {h}
    \<and> counted (uv__handle_ref h s) = (if uv__is_active h s then insert h (counted s) else counted s)"
proof -
  have "counted (uv__handle_stop h s) = counted s - {h}"
    "counted (uv__handle_start h s) = (if uv__has_ref h s then insert h (counted s) else counted s)"
    "counted (uv__handle_unref h s) = counted s - {h}"
    "counted (uv__handle_ref h s) = (if uv__is_active h s then insert h (counted s) else counted s)"
    using assms(2) by (auto simp: counted_def uv__is_active_def uv__has_ref_def flag_simps split: if_splits)
  moreover note handle_start_refs [OF assms] handle_stop_refs [OF assms] handle_ref_refs [OF assms]
    handle_unref_refs [OF assms]
  ultimately show ?thesis by (simp add: has_active_iff)
qed

text \<open>A loop without handles, over a script of replies; \<open>ext\<close> holds the fields of its extensions.\<close>

definition empty_loop :: "reply list \<Rightarrow> u64 \<Rightarrow> 'a \<Rightarrow> 'a loop_scheme" where
  "empty_loop rs now ext =
     \<lparr>replies = rs, syscalls = [], errno = 0, no_accept4 = False, no_msg_cmsg_cloexec = False,
      no_cloexec = False, no_dup3 = False, no_epoll_pwait = False, no_epoll_wait = False, fast_clock_id = - 1,
      statics = (\<lambda>_. False), active_handles = 0, handle_queue = [], active_reqs = [], closing_handles = [], stop_flag = 0,
      loop_time = now, hnd = (\<lambda>_. \<lparr>h_type = UV_UNKNOWN_HANDLE, h_flags = 0, h_close_cb = False\<rparr>), trace = [],
      \<dots> = ext\<rparr>"

definition one_handle :: loop where
  "one_handle = uv__handle_init 4 UV_IDLE (empty_loop [] 0 ())"

lemma one_handle_ok: "refs_ok one_handle" "handle_queue one_handle = [4]" "counted one_handle = {}"
proof -
  show c: "counted one_handle = {}"
    by (auto simp: counted_def one_handle_def empty_loop_def handle_init_inactive)
  show "refs_ok one_handle" using c by (simp add: refs_ok_def) (simp add: one_handle_def empty_loop_def)
  show "handle_queue one_handle = [4]" by (simp add: one_handle_def empty_loop_def)
qed

theorem handle_ops_count_witness:
  "refs_ok (uv__handle_start 4 one_handle) \<and> uv__has_active_handles (uv__handle_start 4 one_handle)
    \<and> \<not> uv__has_active_handles (uv__handle_unref 4 one_handle)"
proof -
  have "uv__has_ref 4 one_handle" by (simp add: one_handle_def uv__has_ref_def flag_simps)
  then show ?thesis using handle_ops_count [of one_handle 4] one_handle_ok by simp
qed

text \<open>\<open>uv_walk\<close> calls back once for every handle of the loop but the internal ones, in the
  order of the handle queue, and leaves the queue as it was.\<close>
theorem walk_visits_all:
  assumes "\<And>c u. handle_queue (call c u) = handle_queue u \<and> flags_of (call c u) = flags_of u
      \<and> trace (call c u) = trace u"
  shows "handle_queue (uv_walk call s) = handle_queue s
    \<and> trace (uv_walk call s) = trace s
        @ map Walk_cb (filter (\<lambda>h. \<not> has_flag (flags_of s h) UV__HANDLE_INTERNAL) (handle_queue s))"
  using walk_queue_visits [of call "handle_queue s" "s\<lparr>handle_queue := []\<rparr>", OF assms]
  by (simp add: uv_walk_def walk_calls_def)

theorem walk_visits_all_witness: "trace (uv_walk (\<lambda>c. uv_stop) one_handle) = [Walk_cb 4]"
proof -
  have "\<not> has_flag (flags_of one_handle 4) UV__HANDLE_INTERNAL" "trace one_handle = []"
    by (simp_all add: one_handle_def empty_loop_def flag_simps)
  moreover have "trace (uv_walk (\<lambda>c. uv_stop) one_handle) = trace one_handle
        @ map Walk_cb (filter (\<lambda>h. \<not> has_flag (flags_of one_handle h) UV__HANDLE_INTERNAL) (handle_queue one_handle))"
    by (rule walk_visits_all [THEN conjunct2]) (simp add: uv_stop_def)
  ultimately show ?thesis using one_handle_ok by simp
qed

end
