(* ===== verification/Timers.thy ===== *)
theory Timers
  imports Handles Heap_Inl
begin

text \<open>
  Timers: \<open>src/unix/timer.cpp\<close>.  The loop gains the heap of armed timers, the timers' own fields
  and the counter that orders timers with equal deadlines.  The node of a timer in the heap has
  the timer's address (\<open>container_of\<close> is the identity).  The operations return \<open>None\<close> where a loop
  of the heap would not end, which \<open>timers_ok\<close> excludes.  \<open>uv__run_timers\<close> calls user code, which
  may arm timers again, so that it may run forever: it is a partial function.
\<close>

abbreviation (input) INT_MAX :: nat where "INT_MAX \<equiv> 2147483647"

record uv_timer =
  timer_cb :: ptr
  t_timeout :: u64
  t_repeat :: u64
  start_id :: u64

record tloop = loop +
  timer_heap :: heap
  timers :: "addr \<Rightarrow> uv_timer"
  timer_counter :: u64

definition timer_less_than :: "(addr \<Rightarrow> uv_timer) \<Rightarrow> addr \<Rightarrow> addr \<Rightarrow> bool" where
  "timer_less_than T a b =
     (if t_timeout (T a) < t_timeout (T b) then True
      else if t_timeout (T b) < t_timeout (T a) then False
      else if start_id (T a) < start_id (T b) then True
      else if start_id (T b) < start_id (T a) then False
      else False)"

definition upd_timer :: "addr \<Rightarrow> (uv_timer \<Rightarrow> uv_timer) \<Rightarrow> 'a tloop_scheme \<Rightarrow> 'a tloop_scheme" where
  "upd_timer h f s = s\<lparr>timers := (timers s)(h := f (timers s h))\<rparr>"

definition uv_timer_init :: "addr \<Rightarrow> 'a tloop_scheme \<Rightarrow> int \<times> 'a tloop_scheme" where
  "uv_timer_init h s =
     (let s = uv__handle_init h UV_TIMER s;
          s = upd_timer h (\<lambda>t. t\<lparr>timer_cb := None\<rparr>) s;
          s = upd_timer h (\<lambda>t. t\<lparr>t_repeat := 0\<rparr>) s
      in (0, s))"

definition uv_timer_stop :: "addr \<Rightarrow> 'a tloop_scheme \<Rightarrow> (int \<times> 'a tloop_scheme) option" where
  "uv_timer_stop h s =
     (if \<not> uv__is_active h s then Some (0, s)
      else case heap_remove h (timer_less_than (timers s)) (timer_heap s) of
             None \<Rightarrow> None
           | Some hp \<Rightarrow> Some (0, uv__handle_stop h (s\<lparr>timer_heap := hp\<rparr>)))"

definition clamp_timeout :: "u64 \<Rightarrow> u64 \<Rightarrow> u64" where
  "clamp_timeout time timeout =
     (let clamped_timeout = time + timeout
      in if clamped_timeout < timeout then - 1 else clamped_timeout)"

definition timer_arm :: "addr \<Rightarrow> addr \<Rightarrow> u64 \<Rightarrow> u64 \<Rightarrow> 'a tloop_scheme \<Rightarrow> (int \<times> 'a tloop_scheme) option" where
  "timer_arm h cb timeout repeat s =
     (let s = upd_timer h (\<lambda>t. t\<lparr>timer_cb := Some cb, t_timeout := clamp_timeout (loop_time s) timeout,
                  t_repeat := repeat, start_id := timer_counter s\<rparr>) s;
          s = s\<lparr>timer_counter := timer_counter s + 1\<rparr>
      in case heap_insert h (timer_less_than (timers s)) (timer_heap s) of
           None \<Rightarrow> None
         | Some hp \<Rightarrow> Some (0, uv__handle_start h (s\<lparr>timer_heap := hp\<rparr>)))"

definition uv_timer_start ::
    "addr \<Rightarrow> ptr \<Rightarrow> u64 \<Rightarrow> u64 \<Rightarrow> 'a tloop_scheme \<Rightarrow> (int \<times> 'a tloop_scheme) option" where
  "uv_timer_start h cb timeout repeat s =
     (case cb of
        None \<Rightarrow> Some (- EINVAL, s)
      | Some f \<Rightarrow>
          if uv__is_active h s then
            (case uv_timer_stop h s of None \<Rightarrow> None | Some (_, s) \<Rightarrow> timer_arm h f timeout repeat s)
          else timer_arm h f timeout repeat s)"

definition uv_timer_again :: "addr \<Rightarrow> 'a tloop_scheme \<Rightarrow> (int \<times> 'a tloop_scheme) option" where
  "uv_timer_again h s =
     (if timer_cb (timers s h) = None then Some (- EINVAL, s)
      else if t_repeat (timers s h) \<noteq> 0 then
        (case uv_timer_stop h s of
           None \<Rightarrow> None
         | Some (_, s) \<Rightarrow>
             (case uv_timer_start h (timer_cb (timers s h)) (t_repeat (timers s h)) (t_repeat (timers s h)) s of
                None \<Rightarrow> None
              | Some (_, s) \<Rightarrow> Some (0, s)))
      else Some (0, s))"

definition uv_timer_set_repeat :: "addr \<Rightarrow> u64 \<Rightarrow> 'a tloop_scheme \<Rightarrow> 'a tloop_scheme" where
  "uv_timer_set_repeat h repeat s = upd_timer h (\<lambda>t. t\<lparr>t_repeat := repeat\<rparr>) s"

definition uv_timer_get_repeat :: "addr \<Rightarrow> 'a tloop_scheme \<Rightarrow> u64" where
  "uv_timer_get_repeat h s = t_repeat (timers s h)"

definition uv__next_timeout :: "'a tloop_scheme \<Rightarrow> int" where
  "uv__next_timeout s =
     (case heap_min (timer_heap s) of
        None \<Rightarrow> - 1
      | Some h \<Rightarrow>
          if t_timeout (timers s h) \<le> loop_time s then 0
          else let diff = t_timeout (timers s h) - loop_time s;
                   diff = (if diff > of_nat INT_MAX then of_nat INT_MAX else diff)
               in int (unat diff))"

partial_function (option) uv__run_timers ::
    "(callback \<Rightarrow> 'a tloop_scheme \<Rightarrow> 'a tloop_scheme) \<Rightarrow> 'a tloop_scheme \<Rightarrow> 'a tloop_scheme option" where
  "uv__run_timers call s =
     (case heap_min (timer_heap s) of
        None \<Rightarrow> Some s
      | Some h \<Rightarrow>
          if t_timeout (timers s h) > loop_time s then Some s
          else case uv_timer_stop h s of
                 None \<Rightarrow> None
               | Some p \<Rightarrow>
                   (case uv_timer_again h (snd p) of
                      None \<Rightarrow> None
                    | Some q \<Rightarrow> uv__run_timers call (invoke call (Timer_cb h) (snd q))))"

definition uv__timer_close :: "addr \<Rightarrow> 'a tloop_scheme \<Rightarrow> 'a tloop_scheme option" where
  "uv__timer_close h s = (case uv_timer_stop h s of None \<Rightarrow> None | Some (_, s) \<Rightarrow> Some s)"

section \<open>The order of the timers\<close>

lemma timer_less_than_iff:
  "timer_less_than T a b \<longleftrightarrow> t_timeout (T a) < t_timeout (T b)
     \<or> t_timeout (T a) = t_timeout (T b) \<and> start_id (T a) < start_id (T b)"
  by (auto simp: timer_less_than_def)

interpretation th: heap_order "timer_less_than T" for T
  by unfold_locales (auto simp: timer_less_than_iff)

section \<open>The invariant\<close>

definition armed :: "'a tloop_scheme \<Rightarrow> addr set" where
  "armed s = {h \<in> set (handle_queue s). h_type (hnd s h) = UV_TIMER \<and> uv__is_active h s}"

text \<open>
  The counter of the loop agrees with the handles, the heap holds exactly the active timers, and
  each has a callback (\<open>timers_wf\<close>); their \<open>start_id\<close>s are below the counter and different
  (\<open>ids_ok\<close>), which holds as long as the counter has not wrapped around.
\<close>

definition timers_wf :: "'a tloop_scheme \<Rightarrow> bool" where
  "timers_wf s \<longleftrightarrow> refs_ok s
     \<and> heap_of (timer_less_than (timers s)) (timer_heap s) (armed s)
     \<and> (\<forall>h \<in> armed s. timer_cb (timers s h) \<noteq> None)"

definition ids_ok :: "'a tloop_scheme \<Rightarrow> bool" where
  "ids_ok s \<longleftrightarrow> (\<forall>h \<in> armed s. start_id (timers s h) < timer_counter s)
     \<and> inj_on (\<lambda>h. start_id (timers s h)) (armed s)"

definition timers_ok :: "'a tloop_scheme \<Rightarrow> bool" where
  "timers_ok s \<longleftrightarrow> timers_wf s \<and> ids_ok s"

definition is_timer :: "'a tloop_scheme \<Rightarrow> addr \<Rightarrow> bool" where
  "is_timer s h \<longleftrightarrow> h \<in> set (handle_queue s) \<and> h_type (hnd s h) = UV_TIMER"

lemma armed_iff: "h \<in> armed s \<longleftrightarrow> is_timer s h \<and> uv__is_active h s"
  by (auto simp: armed_def is_timer_def)

lemma tloop_handle_frame [simp]:
  "timer_heap (uv__handle_start h s) = timer_heap s"
  "timer_heap (uv__handle_stop h s) = timer_heap s"
  "timers (uv__handle_start h s) = timers s"
  "timers (uv__handle_stop h s) = timers s"
  "timer_counter (uv__handle_start h s) = timer_counter s"
  "timer_counter (uv__handle_stop h s) = timer_counter s"
  "h_type (hnd (uv__handle_start h s') k) = h_type (hnd s' k)"
  "h_type (hnd (uv__handle_stop h s') k) = h_type (hnd s' k)"
  "tloop.more (uv__handle_start h s) = tloop.more s"
  "tloop.more (uv__handle_stop h s) = tloop.more s"
  by (simp_all add: handle_defs upd_flags_def)

lemma flags_of_tloop [simp]:
  "flags_of (s\<lparr>timer_heap := hp\<rparr>) = flags_of s"
  "flags_of (s\<lparr>timers := T\<rparr>) = flags_of s"
  "flags_of (s\<lparr>timer_counter := n\<rparr>) = flags_of s"
  by (simp_all add: fun_eq_iff flags_of_def)

lemma armed_bound:
  assumes "refs_ok s"
  shows "card (armed s) < 2 ^ 32" and "is_timer s h \<Longrightarrow> h \<notin> armed s \<Longrightarrow> Suc (card (armed s)) < 2 ^ 32"
proof -
  have q: "card (set (handle_queue s)) < 2 ^ 32" using assms by (simp add: refs_ok_def distinct_card)
  have sub: "armed s \<subseteq> set (handle_queue s)" by (auto simp: armed_def)
  with q show "card (armed s) < 2 ^ 32" by (meson List.finite_set card_mono order_le_less_trans)
  show "Suc (card (armed s)) < 2 ^ 32" if "is_timer s h" "h \<notin> armed s"
  proof -
    have "insert h (armed s) \<subseteq> set (handle_queue s)" using sub that by (auto simp: is_timer_def)
    then have "card (insert h (armed s)) \<le> card (set (handle_queue s))" by (simp add: card_mono)
    then show ?thesis using that q finite_subset [OF sub] by simp
  qed
qed

section \<open>What the operations do\<close>

text \<open>What an operation on timers leaves alone.\<close>

definition timer_frame :: "'a tloop_scheme \<Rightarrow> 'a tloop_scheme \<Rightarrow> bool" where
  "timer_frame s t \<longleftrightarrow> handle_queue t = handle_queue s \<and> loop_time t = loop_time s \<and> trace t = trace s
     \<and> replies t = replies s \<and> syscalls t = syscalls s \<and> active_reqs t = active_reqs s \<and> closing_handles t = closing_handles s \<and> stop_flag t = stop_flag s
     \<and> (\<forall>k. h_type (hnd t k) = h_type (hnd s k)) \<and> tloop.more t = tloop.more s"

lemma timer_frame_refl [simp, intro!]: "timer_frame s s"
  by (simp add: timer_frame_def)

lemma timer_frame_trans [trans]: "timer_frame s t \<Longrightarrow> timer_frame t u \<Longrightarrow> timer_frame s u"
  by (simp add: timer_frame_def)

lemma is_timer_frame: "timer_frame s t \<Longrightarrow> is_timer t h = is_timer s h"
  by (simp add: timer_frame_def is_timer_def)

lemma refs_ok_tloop [simp]:
  "refs_ok (s\<lparr>timer_heap := hp\<rparr>) = refs_ok s"
  "refs_ok (s\<lparr>timers := T\<rparr>) = refs_ok s"
  "refs_ok (s\<lparr>timer_counter := n\<rparr>) = refs_ok s"
  by (rule refs_ok_cong; simp)+

lemma armed_start: "is_timer s h \<Longrightarrow> armed (uv__handle_start h s) = insert h (armed s)"
  by (auto simp: armed_def is_timer_def uv__is_active_def flag_simps split: if_splits)

lemma armed_stop: "armed (uv__handle_stop h s) = armed s - {h}"
  by (auto simp: armed_def uv__is_active_def flag_simps split: if_splits)

lemma armed_tloop [simp]:
  "armed (s\<lparr>timer_heap := hp\<rparr>) = armed s"
  "armed (s\<lparr>timers := T\<rparr>) = armed s"
  "armed (s\<lparr>timer_counter := n\<rparr>) = armed s"
  by (auto simp: armed_def uv__is_active_def)

lemma timer_stop_armed:
  assumes ok: "timers_wf s" and h: "h \<in> armed s"
  shows "\<exists>hp. uv_timer_stop h s = Some (0, uv__handle_stop h (s\<lparr>timer_heap := hp\<rparr>))
      \<and> timers_wf (uv__handle_stop h (s\<lparr>timer_heap := hp\<rparr>))"
proof -
  have bound: "card (armed s) < 2 ^ 32" using ok armed_bound(1) by (auto simp: timers_wf_def)
  with ok h obtain hp where hp: "heap_remove h (timer_less_than (timers s)) (timer_heap s) = Some hp"
    "heap_of (timer_less_than (timers s)) hp (armed s - {h})"
    using th.heap_remove_of by (force simp: timers_wf_def)
  have "refs_ok (uv__handle_stop h (s\<lparr>timer_heap := hp\<rparr>))"
    using ok h by (intro handle_stop_refs) (auto simp: timers_wf_def armed_def)
  then have "timers_wf (uv__handle_stop h (s\<lparr>timer_heap := hp\<rparr>))"
    using ok hp by (simp add: timers_wf_def armed_stop)
  then show ?thesis
    using h hp by (auto simp: uv_timer_stop_def armed_iff)
qed

lemma timer_stop_ok:
  assumes ok: "timers_wf s" and h: "is_timer s h"
  shows "\<exists>t. uv_timer_stop h s = Some (0, t) \<and> timers_wf t \<and> armed t = armed s - {h}
      \<and> timers t = timers s \<and> timer_counter t = timer_counter s \<and> timer_frame s t
      \<and> \<not> uv__is_active h t"
proof (cases "h \<in> armed s")
  case True
  then obtain hp where "uv_timer_stop h s = Some (0, uv__handle_stop h (s\<lparr>timer_heap := hp\<rparr>))"
      "timers_wf (uv__handle_stop h (s\<lparr>timer_heap := hp\<rparr>))"
    using timer_stop_armed [OF ok] by blast
  then show ?thesis
    by (auto simp: armed_stop timer_frame_def uv__is_active_def flag_simps)
next
  case False
  then have "\<not> uv__is_active h s" using h by (simp add: armed_iff)
  then show ?thesis using ok False by (auto simp: uv_timer_stop_def)
qed

lemma ids_ok_fewer:
  "ids_ok s \<Longrightarrow> armed t \<subseteq> armed s \<Longrightarrow> timers t = timers s \<Longrightarrow> timer_counter t = timer_counter s \<Longrightarrow> ids_ok t"
  by (auto simp: ids_ok_def intro: inj_on_subset)

text \<open>
  \<open>uv_timer_start\<close> arms the timer whether or not it was armed before; its deadline saturates.
\<close>

definition started :: "addr \<Rightarrow> addr \<Rightarrow> u64 \<Rightarrow> u64 \<Rightarrow> 'a tloop_scheme \<Rightarrow> 'a tloop_scheme \<Rightarrow> bool" where
  "started h cb timeout repeat s t \<longleftrightarrow> timers_wf t \<and> armed t = insert h (armed s)
     \<and> timers t = (timers s)(h := \<lparr>timer_cb = Some cb, t_timeout = clamp_timeout (loop_time s) timeout,
                                    t_repeat = repeat, start_id = timer_counter s\<rparr>)
     \<and> timer_counter t = timer_counter s + 1 \<and> timer_frame s t"

lemma timer_arm_ok:
  assumes ok: "timers_wf s" and h: "is_timer s h" "\<not> uv__is_active h s"
  shows "\<exists>t. timer_arm h cb timeout repeat s = Some (0, t) \<and> started h cb timeout repeat s t"
proof -
  let ?new = "\<lparr>timer_cb = Some cb, t_timeout = clamp_timeout (loop_time s) timeout,
               t_repeat = repeat, start_id = timer_counter s\<rparr>"
  let ?T = "(timers s)(h := ?new)"
  let ?s = "s\<lparr>timers := ?T, timer_counter := timer_counter s + 1\<rparr>"
  have out: "h \<notin> armed s" using h by (simp add: armed_iff)
  have "heap_of (timer_less_than (timers s)) (timer_heap s) (armed s)" using ok by (simp add: timers_wf_def)
  then have "heap_of (timer_less_than ?T) (timer_heap s) (armed s)"
    by (rule heap_of_cong) (use out in \<open>auto simp: timer_less_than_iff\<close>)
  moreover have "Suc (card (armed s)) < 2 ^ 32"
    using ok out h armed_bound(2) [of s h] by (simp add: timers_wf_def)
  ultimately obtain hp where hp: "heap_insert h (timer_less_than ?T) (timer_heap s) = Some hp"
    "heap_of (timer_less_than ?T) hp (insert h (armed s))"
    using th.heap_insert_of out by blast
  let ?t = "uv__handle_start h (?s\<lparr>timer_heap := hp\<rparr>)"
  have new: "(timers s h)\<lparr>timer_cb := Some cb, t_timeout := clamp_timeout (loop_time s) timeout,
      t_repeat := repeat, start_id := timer_counter s\<rparr> = ?new" by (cases "timers s h") simp
  have run: "timer_arm h cb timeout repeat s = Some (0, ?t)"
    using hp(1) by (simp add: timer_arm_def upd_timer_def Let_def new)
  have arm: "armed ?t = insert h (armed s)"
    using h by (subst armed_start) (auto simp: is_timer_def)
  have "refs_ok ?t"
    using ok h by (intro handle_start_refs) (auto simp: timers_wf_def is_timer_def)
  then have "timers_wf ?t"
    using hp(2) ok arm by (auto simp: timers_wf_def)
  with run arm show ?thesis by (auto simp: timer_frame_def started_def)
qed

text \<open>The counter wraps around after \<open>2 ^ 64\<close> starts only; until then the order is kept.\<close>

lemma started_ids:
  assumes st: "started h cb timeout repeat s t" and ids: "ids_ok s" and cnt: "timer_counter s < timer_counter s + 1"
  shows "ids_ok t"
proof -
  have below: "start_id (timers s k) < timer_counter s" if "k \<in> armed s" for k
    using ids that by (simp add: ids_ok_def)
  let ?id = "\<lambda>k. start_id (timers t k)"
  have "inj_on ?id (armed s - {h})"
    using ids st by (auto simp: ids_ok_def started_def inj_on_def)
  moreover have "?id h \<notin> ?id ` (armed s - {h})"
    using st by (auto simp: started_def dest: below)
  ultimately have "inj_on ?id (insert h (armed s - {h}))"
    by (subst inj_on_insert) simp
  then have "inj_on ?id (armed t)"
    using st by (simp add: started_def)
  moreover have "?id k < timer_counter t" if "k \<in> armed t" for k
    using that st below [of k] cnt by (cases "k = h") (auto simp: started_def intro: less_trans)
  ultimately show ?thesis by (simp add: ids_ok_def)
qed

lemma timer_start_ok:
  assumes ok: "timers_wf s" and h: "is_timer s h"
  shows "\<exists>t. uv_timer_start h (Some cb) timeout repeat s = Some (0, t) \<and> started h cb timeout repeat s t"
proof (cases "uv__is_active h s")
  case False
  with timer_arm_ok [OF ok h False] show ?thesis by (auto simp: uv_timer_start_def)
next
  case True
  from timer_stop_ok [OF ok h] obtain u where u: "uv_timer_stop h s = Some (0, u)" "timers_wf u"
    "armed u = armed s - {h}" "timers u = timers s" "timer_counter u = timer_counter s" "timer_frame s u"
    "\<not> uv__is_active h u" by blast
  have "is_timer u h" using h u(6) by (simp add: is_timer_frame)
  then obtain t where "timer_arm h cb timeout repeat u = Some (0, t)" and t: "started h cb timeout repeat u t"
    using timer_arm_ok u by blast
  moreover have "started h cb timeout repeat s t"
    using t u timer_frame_trans [OF u(6)] by (auto simp: started_def timer_frame_def)
  ultimately show ?thesis using True u(1) by (auto simp: uv_timer_start_def)
qed

lemma timer_again_ok:
  assumes ok: "timers_wf s" and h: "is_timer s h" and cb: "timer_cb (timers s h) = Some f"
    and r: "t_repeat (timers s h) \<noteq> 0"
  shows "\<exists>t. uv_timer_again h s = Some (0, t)
      \<and> started h f (t_repeat (timers s h)) (t_repeat (timers s h)) s t"
proof -
  let ?r = "t_repeat (timers s h)"
  from timer_stop_ok [OF ok h] obtain u where u: "uv_timer_stop h s = Some (0, u)" "timers_wf u"
    "armed u = armed s - {h}" "timers u = timers s" "timer_counter u = timer_counter s" "timer_frame s u" by blast
  have "is_timer u h" using h u(6) by (simp add: is_timer_frame)
  then obtain t where t: "uv_timer_start h (Some f) ?r ?r u = Some (0, t)" "started h f ?r ?r u t"
    using timer_start_ok u(2) by blast
  have "started h f ?r ?r s t"
    using t(2) u timer_frame_trans [OF u(6)] by (auto simp: started_def timer_frame_def)
  then show ?thesis using r cb u(1,4) t(1) by (auto simp: uv_timer_again_def)
qed

lemma timer_again_oneshot:
  "timer_cb (timers s h) = Some f \<Longrightarrow> t_repeat (timers s h) = 0 \<Longrightarrow> uv_timer_again h s = Some (0, s)"
  by (simp add: uv_timer_again_def)

section \<open>The next deadline\<close>

definition due :: "'a tloop_scheme \<Rightarrow> addr set" where
  "due s = {h \<in> armed s. t_timeout (timers s h) \<le> loop_time s}"

lemma timers_min:
  assumes "timers_wf s"
  shows "heap_min (timer_heap s) = None \<longleftrightarrow> armed s = {}"
    and "heap_min (timer_heap s) = Some h \<Longrightarrow> h \<in> armed s \<and> (\<forall>k \<in> armed s. \<not> timer_less_than (timers s) k h)"
  using assms heap_min_none th.heap_min_least by (fastforce simp: timers_wf_def)+

lemma min_timeout:
  "timers_wf s \<Longrightarrow> heap_min (timer_heap s) = Some h \<Longrightarrow> k \<in> armed s
    \<Longrightarrow> t_timeout (timers s h) \<le> t_timeout (timers s k)"
  using timers_min(2) [of s h] by (auto simp: timer_less_than_iff not_less)

lemma due_empty_iff:
  assumes "timers_wf s"
  shows "due s = {} \<longleftrightarrow> (case heap_min (timer_heap s) of None \<Rightarrow> True | Some h \<Rightarrow> t_timeout (timers s h) > loop_time s)"
proof (cases "heap_min (timer_heap s)")
  case None
  then show ?thesis using timers_min(1) [OF assms] by (simp add: due_def)
next
  case (Some h)
  have "h \<in> armed s" using timers_min(2) [OF assms Some] by simp
  moreover have "k \<notin> due s" if "t_timeout (timers s h) > loop_time s" for k
    using min_timeout [OF assms Some, of k] that by (auto simp: due_def)
  ultimately show ?thesis using Some by (fastforce simp: due_def not_less)
qed

definition wait_of :: "'a tloop_scheme \<Rightarrow> addr \<Rightarrow> nat" where
  "wait_of s h = unat (t_timeout (timers s h)) - unat (loop_time s)"

lemma wait_of_le: "timers_wf s \<Longrightarrow> heap_min (timer_heap s) = Some h \<Longrightarrow> k \<in> armed s \<Longrightarrow> wait_of s h \<le> wait_of s k"
  using min_timeout [of s h k] by (simp add: wait_of_def word_le_nat_alt diff_le_mono)

lemma next_timeout_min:
  assumes "heap_min (timer_heap s) = Some h"
  shows "uv__next_timeout s = int (min INT_MAX (wait_of s h))"
proof (cases "t_timeout (timers s h) \<le> loop_time s")
  case True
  then show ?thesis using assms by (simp add: uv__next_timeout_def wait_of_def word_le_nat_alt)
next
  case False
  then have diff: "unat (t_timeout (timers s h) - loop_time s) = wait_of s h"
    by (simp add: wait_of_def unat_sub)
  then have "uint (t_timeout (timers s h) - loop_time s) = int (wait_of s h)"
    by (metis uint_nat)
  with diff show ?thesis using assms False
    by (auto simp: uv__next_timeout_def Let_def word_less_nat_alt min_def)
qed

section \<open>Running the timers\<close>

text \<open>
  Whatever the callbacks do, nothing is due when \<open>uv__run_timers\<close> returns: the loop has no other
  exit.  This is a statement about its value only, so it holds of no run that does not end.
\<close>

definition none_due :: "'a tloop_scheme \<Rightarrow> bool" where
  "none_due s \<longleftrightarrow> (case heap_min (timer_heap s) of None \<Rightarrow> True | Some h \<Rightarrow> t_timeout (timers s h) > loop_time s)"

lemma none_due_iff: "timers_wf s \<Longrightarrow> none_due s \<longleftrightarrow> due s = {}"
  by (simp add: none_due_def due_empty_iff)

lemma none_due_exit:
  "heap_min (timer_heap s) = None \<Longrightarrow> none_due s"
  "heap_min (timer_heap s) = Some h \<Longrightarrow> t_timeout (timers s h) > loop_time s \<Longrightarrow> none_due s"
  by (simp_all add: none_due_def)

lemma run_timers_none_due: "uv__run_timers call s = Some t \<Longrightarrow> none_due t"
  by (induction rule: uv__run_timers.raw_induct [rotated, consumes 1])
    (auto intro: none_due_exit split: option.splits if_splits)

lemma run_timers_stop: "none_due s \<Longrightarrow> uv__run_timers call s = Some s"
  by (subst uv__run_timers.simps) (auto simp: none_due_def split: option.splits)

text \<open>One round: the least timer is taken off the heap and, when it repeats, armed again.\<close>

definition fired :: "addr \<Rightarrow> 'a tloop_scheme \<Rightarrow> 'a tloop_scheme \<Rightarrow> bool" where
  "fired h s t \<longleftrightarrow> timers_wf t \<and> timer_frame s t \<and> armed t \<subseteq> armed s
     \<and> (ids_ok s \<longrightarrow> timer_counter s < timer_counter s + 1 \<longrightarrow> ids_ok t)
     \<and> (\<forall>k. k \<noteq> h \<longrightarrow> timers t k = timers s k \<and> (k \<in> armed t \<longleftrightarrow> k \<in> armed s))
     \<and> timer_counter t \<in> {timer_counter s, timer_counter s + 1}
     \<and> timer_cb (timers t h) = timer_cb (timers s h)
     \<and> (loop_time s \<noteq> - 1 \<longrightarrow> h \<notin> due t)"

lemma clamp_later:
  assumes "r \<noteq> 0" "time \<noteq> - 1"
  shows "clamp_timeout time r > time"
proof (cases "time + r < r")
  case True
  then show ?thesis using assms(2) by (simp add: clamp_timeout_def word_order.not_eq_extremum)
next
  case False
  then have "unat (time + r) = unat time + unat r"
    by (metis add.commute no_olen_add_nat not_less unat_plus_simple word_le_nat_alt)
  moreover have "0 < unat r" using assms(1) by (simp add: unat_gt_0)
  ultimately show ?thesis using False by (simp add: clamp_timeout_def word_less_nat_alt)
qed

lemma timers_round:
  assumes ok: "timers_wf s" and busy: "\<not> none_due s"
  shows "\<exists>h u t. heap_min (timer_heap s) = Some h \<and> uv_timer_stop h s = Some (0, u)
    \<and> uv_timer_again h u = Some (0, t) \<and> h \<in> due s
    \<and> (\<forall>k \<in> armed s. \<not> timer_less_than (timers s) k h) \<and> fired h s t"
proof -
  from busy obtain h where m: "heap_min (timer_heap s) = Some h" and "t_timeout (timers s h) \<le> loop_time s"
    by (auto simp: none_due_def not_less split: option.splits)
  moreover have min: "h \<in> armed s" "\<forall>k \<in> armed s. \<not> timer_less_than (timers s) k h"
    using timers_min(2) [OF ok m] by auto
  ultimately have h: "h \<in> due s" "is_timer s h" by (simp_all add: due_def armed_iff)
  from timer_stop_ok [OF ok h(2)] obtain u where u: "uv_timer_stop h s = Some (0, u)" "timers_wf u"
    "armed u = armed s - {h}" "timers u = timers s" "timer_counter u = timer_counter s" "timer_frame s u" by blast
  have "is_timer u h" using h u(6) by (simp add: is_timer_frame)
  from min ok obtain f where f: "timer_cb (timers s h) = Some f" by (auto simp: timers_wf_def)
  have ids: "ids_ok s \<Longrightarrow> ids_ok u" using u by (auto intro: ids_ok_fewer)
  have "\<exists>t. uv_timer_again h u = Some (0, t) \<and> fired h s t"
  proof (cases "t_repeat (timers s h) = 0")
    case True
    with f u have "uv_timer_again h u = Some (0, u)" by (simp add: timer_again_oneshot)
    moreover have "fired h s u" using u ids by (auto simp: fired_def due_def)
    ultimately show ?thesis by blast
  next
    case False
    let ?r = "t_repeat (timers s h)"
    from timer_again_ok [OF u(2) \<open>is_timer u h\<close>, of f] f False u(4)
    obtain t where t: "uv_timer_again h u = Some (0, t)" "started h f ?r ?r u t" by auto
    have "loop_time u = loop_time s" "loop_time t = loop_time s" using u(6) t(2) by (auto simp: timer_frame_def started_def)
    then have "h \<notin> due t" if "loop_time s \<noteq> - 1"
      using t(2) clamp_later [OF False that] by (auto simp: due_def started_def)
    then have "fired h s t"
      using t(2) u min f ids timer_frame_trans [OF u(6)] started_ids [OF t(2)] by (auto simp: fired_def started_def)
    with t show ?thesis by blast
  qed
  then show ?thesis using m u(1) h min by blast
qed

lemma run_timers_round:
  assumes "timers_wf s" "\<not> none_due s"
  shows "\<exists>h t. h \<in> due s \<and> (\<forall>k \<in> armed s. \<not> timer_less_than (timers s) k h) \<and> fired h s t
    \<and> uv__run_timers call s = uv__run_timers call (invoke call (Timer_cb h) t)"
proof -
  from timers_round [OF assms] obtain h u t where r: "heap_min (timer_heap s) = Some h"
    "uv_timer_stop h s = Some (0, u)" "uv_timer_again h u = Some (0, t)" "h \<in> due s"
    "\<forall>k \<in> armed s. \<not> timer_less_than (timers s) k h" "fired h s t" by blast
  have "\<not> loop_time s < t_timeout (timers s h)" using assms(2) r(1) by (simp add: none_due_def)
  with r(1-3) have "uv__run_timers call s = uv__run_timers call (invoke call (Timer_cb h) t)"
    by (subst uv__run_timers.simps) simp
  with r show ?thesis by blast
qed


lemma trace_frame [simp]:
  "armed (s\<lparr>trace := tr\<rparr>) = armed s"
  "due (s\<lparr>trace := tr\<rparr>) = due s"
  "timers_wf (s\<lparr>trace := tr\<rparr>) = timers_wf s"
  "ids_ok (s\<lparr>trace := tr\<rparr>) = ids_ok s"
  "timers_ok (s\<lparr>trace := tr\<rparr>) = timers_ok s"
proof -
  have refs: "refs_ok (s\<lparr>trace := tr\<rparr>) = refs_ok s" by (rule refs_ok_cong) simp_all
  show a: "armed (s\<lparr>trace := tr\<rparr>) = armed s" by (auto simp: armed_def uv__is_active_def)
  then show "due (s\<lparr>trace := tr\<rparr>) = due s" by (simp add: due_def)
  show w: "timers_wf (s\<lparr>trace := tr\<rparr>) = timers_wf s" using a refs by (simp add: timers_wf_def)
  show i: "ids_ok (s\<lparr>trace := tr\<rparr>) = ids_ok s" using a by (simp add: ids_ok_def)
  show "timers_ok (s\<lparr>trace := tr\<rparr>) = timers_ok s" using w i by (simp add: timers_ok_def)
qed

lemma armed_finite: "finite (armed s)"
  by (simp add: armed_def)

lemma due_finite [simp]: "finite (due s)"
  using armed_finite by (rule rev_finite_subset) (auto simp: due_def)

lemma fired_due:
  assumes "fired h s t" "loop_time s \<noteq> - 1"
  shows "due t = due s - {h}" and "k \<in> due t \<Longrightarrow> timers t k = timers s k" and "loop_time t = loop_time s"
  using assms by (auto simp: fired_def due_def timer_frame_def)



text \<open>
  A callback that starts its timer again with a timeout of zero.  The deadline is the loop's time,
  which does not move in \<open>uv__run_timers\<close>: the timer is due again at once, and the loop does not end.
\<close>

definition restart_now :: "callback \<Rightarrow> 'a tloop_scheme \<Rightarrow> 'a tloop_scheme" where
  "restart_now c s =
     (case c of
        Timer_cb h \<Rightarrow> (case uv_timer_start h (timer_cb (timers s h)) 0 0 s of None \<Rightarrow> s | Some (_, s) \<Rightarrow> s)
      | _ \<Rightarrow> s)"

lemma started_zero_due: "started h cb 0 r s t \<Longrightarrow> h \<in> due t"
  by (auto simp: due_def started_def clamp_timeout_def timer_frame_def)

lemma restart_now_due:
  assumes "timers_wf s" "h \<in> due s" "fired h s t"
  shows "timers_wf (invoke restart_now (Timer_cb h) t) \<and> h \<in> due (invoke restart_now (Timer_cb h) t)"
proof -
  let ?t = "t\<lparr>trace := trace t @ [Timer_cb h]\<rparr>"
  have "timer_cb (timers s h) \<noteq> None" using assms(1,2) by (auto simp: timers_wf_def due_def)
  then obtain f where f: "timer_cb (timers ?t h) = Some f" using assms(3) by (auto simp: fired_def)
  have "is_timer ?t h" using assms(2,3) by (simp add: due_def armed_iff is_timer_def fired_def timer_frame_def)
  moreover have "timers_wf ?t" using assms(3) by (simp add: fired_def)
  ultimately obtain v where v: "uv_timer_start h (Some f) 0 0 ?t = Some (0, v)" "started h f 0 0 ?t v"
    using timer_start_ok by blast
  then have "invoke restart_now (Timer_cb h) t = v" using f by (simp add: invoke_def restart_now_def)
  with v(2) show ?thesis using started_zero_due [OF v(2)] by (simp add: started_def)
qed

lemma restart_now_no_result:
  "uv__run_timers call s = Some t \<Longrightarrow> call = restart_now \<longrightarrow> timers_wf s \<longrightarrow> due s = {}"
proof (induction rule: uv__run_timers.raw_induct [rotated, consumes 1])
  case (1 run call s t)
  show ?case
  proof (intro impI)
    assume call: "call = restart_now" and ok: "timers_wf s"
    show "due s = {}"
    proof (rule ccontr)
      assume "due s \<noteq> {}"
      then have "\<not> none_due s" using ok by (simp add: none_due_iff)
      with timers_round [OF ok this] obtain h u v where r: "heap_min (timer_heap s) = Some h"
        "uv_timer_stop h s = Some (0, u)" "uv_timer_again h u = Some (0, v)" "h \<in> due s" "fired h s v"
        "\<not> loop_time s < t_timeout (timers s h)" by (auto simp: none_due_def)
      then have "run call (invoke call (Timer_cb h) v) = Some t" using 1(2) by simp
      with 1(1) call have "timers_wf (invoke restart_now (Timer_cb h) v) \<longrightarrow> due (invoke restart_now (Timer_cb h) v) = {}"
        by blast
      with restart_now_due [OF ok r(4,5)] show False by simp
    qed
  qed
qed

text \<open>The same for so many calls: the callback restarts its timer until the trace has length \<open>n\<close>.\<close>

definition restart_until :: "nat \<Rightarrow> callback \<Rightarrow> 'a tloop_scheme \<Rightarrow> 'a tloop_scheme" where
  "restart_until n c s = (if length (trace s) < n then restart_now c s else s)"

lemma restart_now_only:
  assumes "timers_wf s" "due s = {h}" "loop_time s \<noteq> - 1" "fired h s t"
  shows "due (invoke restart_now (Timer_cb h) t) = {h} \<and> timers_wf (invoke restart_now (Timer_cb h) t)
    \<and> loop_time (invoke restart_now (Timer_cb h) t) = loop_time s \<and> trace (invoke restart_now (Timer_cb h) t) = trace s @ [Timer_cb h]"
proof -
  let ?t = "t\<lparr>trace := trace t @ [Timer_cb h]\<rparr>"
  have h: "h \<in> due s" using assms(2) by simp
  have "timer_cb (timers s h) \<noteq> None" using assms(1) h by (auto simp: timers_wf_def due_def)
  then obtain f where f: "timer_cb (timers ?t h) = Some f" using assms(4) by (auto simp: fired_def)
  have "is_timer ?t h" using h assms(4) by (simp add: due_def armed_iff is_timer_def fired_def timer_frame_def)
  moreover have "timers_wf ?t" using assms(4) by (simp add: fired_def)
  ultimately obtain v where v: "uv_timer_start h (Some f) 0 0 ?t = Some (0, v)" "started h f 0 0 ?t v"
    using timer_start_ok by blast
  have e: "invoke restart_now (Timer_cb h) t = v" using f v(1) by (simp add: invoke_def restart_now_def)
  have "due ?t = {}" using fired_due(1) [OF assms(4,3)] assms(2) by simp
  then have "due v \<subseteq> {h}" using v(2) by (auto simp: due_def started_def timer_frame_def)
  moreover have "loop_time v = loop_time s" "trace v = trace s @ [Timer_cb h]"
    using v(2) assms(4) by (simp_all add: started_def fired_def timer_frame_def)
  ultimately show ?thesis using started_zero_due [OF v(2)] v(2) e by (auto simp: started_def)
qed

lemma restart_until_runs:
  assumes "timers_wf s" "due s = {h}" "loop_time s \<noteq> - 1"
  shows "\<exists>t. uv__run_timers (restart_until (length (trace s) + Suc n)) s = Some t
    \<and> trace t = trace s @ replicate (Suc n) (Timer_cb h) \<and> due t = {}"
  using assms
proof (induction n arbitrary: s)
  case 0
  have "\<not> none_due s" using 0 by (simp add: none_due_iff)
  from run_timers_round [OF 0(1) this, of "restart_until (length (trace s) + Suc 0)"] obtain k t where
    k: "k \<in> due s" "fired k s t" "uv__run_timers (restart_until (length (trace s) + Suc 0)) s
      = uv__run_timers (restart_until (length (trace s) + Suc 0)) (invoke (restart_until (length (trace s) + Suc 0)) (Timer_cb k) t)" by blast
  have f: "fired h s t" "k = h" using k(1,2) 0(2) by auto
  let ?t = "t\<lparr>trace := trace t @ [Timer_cb h]\<rparr>"
  have t: "trace t = trace s" "timers_wf ?t" using f(1) by (simp_all add: fired_def timer_frame_def)
  then have i: "invoke (restart_until (length (trace s) + Suc 0)) (Timer_cb k) t = ?t" by (simp add: invoke_def restart_until_def f(2))
  have "due ?t = {}" using fired_due(1) [OF f(1) 0(3)] 0(2) by simp
  moreover from this have "none_due ?t" using none_due_iff [OF t(2)] by simp
  ultimately show ?case using k(3) i t(1) run_timers_stop [of ?t] by simp
next
  case (Suc n)
  let ?call = "restart_until (length (trace s) + Suc (Suc n))"
  have "\<not> none_due s" using Suc.prems by (simp add: none_due_iff)
  from run_timers_round [OF Suc.prems(1) this, of ?call] obtain k t where
    k: "k \<in> due s" "fired k s t" "uv__run_timers ?call s = uv__run_timers ?call (invoke ?call (Timer_cb k) t)" by blast
  have f: "fired h s t" "k = h" using k(1,2) Suc.prems(2) by auto
  have "trace t = trace s" using f(1) by (simp add: fired_def timer_frame_def)
  then have i: "invoke ?call (Timer_cb k) t = invoke restart_now (Timer_cb h) t" by (simp add: invoke_def restart_until_def f(2))
  let ?v = "invoke restart_now (Timer_cb h) t"
  have v: "due ?v = {h}" "timers_wf ?v" "loop_time ?v = loop_time s" "trace ?v = trace s @ [Timer_cb h]"
    using restart_now_only [OF Suc.prems f(1)] by simp_all
  from Suc.IH [OF v(2,1)] v(3,4) Suc.prems(3) obtain u where
    "uv__run_timers ?call ?v = Some u" "trace u = trace s @ Timer_cb h # replicate (Suc n) (Timer_cb h)" "due u = {}" by auto
  then show ?case using k(3) i by simp
qed

section \<open>Initialisation and closing\<close>

lemma timer_init_ok:
  assumes ok: "timers_ok s" and h: "h \<notin> set (handle_queue s)" "Suc (length (handle_queue s)) < 2 ^ 32"
  shows "timers_ok (snd (uv_timer_init h s))" and "armed (snd (uv_timer_init h s)) = armed s"
    and "is_timer (snd (uv_timer_init h s)) h"
proof -
  let ?s = "uv__handle_init h UV_TIMER s"
  let ?t = "snd (uv_timer_init h s)"
  have other: "hnd ?s k = hnd s k" "timers ?t k = timers s k" if "k \<noteq> h" for k
    using that by (simp_all add: uv_timer_init_def upd_timer_def uv__handle_init_def Let_def)
  have flds: "timer_heap ?t = timer_heap s" "timer_counter ?t = timer_counter s" "handle_queue ?t = handle_queue s @ [h]"
    "hnd ?t = hnd ?s" "flags_of ?t = flags_of ?s" "active_handles ?t = active_handles s"
    by (simp_all add: uv_timer_init_def upd_timer_def uv__handle_init_def Let_def)
  have mem: "k \<in> armed ?t \<longleftrightarrow> k \<in> armed s" for k
  proof (cases "k = h")
    case True
    then show ?thesis using h flds handle_init_inactive [of h UV_TIMER s] by (simp add: armed_def uv__is_active_def)
  next
    case False
    then show ?thesis using other [OF False] flds by (simp add: armed_def uv__is_active_def)
  qed
  then show armed: "armed ?t = armed s" by blast
  have out: "h \<notin> armed s" using h by (simp add: armed_def)
  have "refs_ok ?s" using ok h by (intro handle_init_refs) (auto simp: timers_ok_def timers_wf_def)
  moreover have "refs_ok ?t = refs_ok ?s" by (rule refs_ok_cong) (simp_all add: flds)
  moreover have "heap_of (timer_less_than (timers ?t)) (timer_heap s) (armed s)"
  proof (rule heap_of_cong)
    show "heap_of (timer_less_than (timers s)) (timer_heap s) (armed s)"
      using ok by (simp add: timers_ok_def timers_wf_def)
    fix a b assume "a \<in> armed s" "b \<in> armed s"
    then have "a \<noteq> h" "b \<noteq> h" using out by auto
    then show "timer_less_than (timers s) a b = timer_less_than (timers ?t) a b"
      by (simp add: timer_less_than_iff other)
  qed
  moreover have same: "timers ?t k = timers s k" if "k \<in> armed s" for k using that out other(2) by metis
  moreover have "inj_on (\<lambda>k. start_id (timers ?t k)) (armed s) = inj_on (\<lambda>k. start_id (timers s k)) (armed s)"
    by (rule inj_on_cong) (simp add: same)
  ultimately show "timers_ok ?t"
    using ok by (simp add: timers_ok_def timers_wf_def ids_ok_def armed flds same)
  show "is_timer ?t h" by (simp add: is_timer_def flds)
qed

lemma timer_close_ok:
  "timers_wf s \<Longrightarrow> is_timer s h \<Longrightarrow>
    \<exists>t. uv__timer_close h s = Some t \<and> timers_wf t \<and> armed t = armed s - {h} \<and> timer_frame s t
      \<and> timers t = timers s \<and> \<not> uv__is_active h t"
  using timer_stop_ok [of s h] by (auto simp: uv__timer_close_def)

lemma unat_max: "unat (- 1 :: u64) = 2 ^ 64 - 1"
  by (simp add: unsigned_minus_1_eq_mask mask_eq_exp_minus_1)

lemma clamp_unat: "unat (clamp_timeout time timeout) = min (2 ^ 64 - 1) (unat time + unat timeout)"
proof (cases "unat time + unat timeout < 2 ^ 64")
  case True
  then have "unat (time + timeout) = unat time + unat timeout" by (simp add: unat_word_ariths)
  moreover from this have "\<not> time + timeout < timeout" by (simp add: word_less_nat_alt)
  ultimately show ?thesis using True by (simp add: clamp_timeout_def)
next
  case False
  have b: "unat w < 2 ^ 64" for w :: u64
    using unsigned_less [of w, where 'a = nat] by simp
  have "unat (time + timeout) = unat time + unat timeout - 2 ^ 64"
    using False b [of time] b [of timeout]
    by (simp add: unat_word_ariths mod_if)
  then have "time + timeout < timeout"
    using False b [of time] by (simp add: word_less_nat_alt)
  then show ?thesis using False by (simp add: clamp_timeout_def unat_max)
qed

text \<open>A loop without handles, and the loop after the initialisation of timers.\<close>

definition empty_tloop :: "reply list \<Rightarrow> u64 \<Rightarrow> 'a \<Rightarrow> 'a tloop_scheme" where
  "empty_tloop rs now ext =
     empty_loop rs now
      (tloop_ext (heap_init \<lparr>h_min = None, h_nelts = 0, h_mem = (\<lambda>_. \<lparr>h_left = None, h_right = None, h_parent = None\<rparr>)\<rparr>)
         (\<lambda>_. \<lparr>timer_cb = None, t_timeout = 0, t_repeat = 0, start_id = 0\<rparr>) 0 ext)"

lemma empty_tloop_ok: "timers_ok (empty_tloop rs now ext)"
  by (simp add: empty_tloop_def empty_loop_def timers_ok_def timers_wf_def ids_ok_def armed_def refs_ok_def counted_def heap_of_init)

definition two_timers :: "u64 \<Rightarrow> unit tloop_scheme" where
  "two_timers now = snd (uv_timer_init 2 (snd (uv_timer_init 1 (empty_tloop [] now ()))))"

lemma two_timers_ok: "timers_ok (two_timers now)" "armed (two_timers now) = {}"
  "is_timer (two_timers now) 1" "is_timer (two_timers now) 2"
  "loop_time (two_timers now) = now" "timer_counter (two_timers now) = 0" "trace (two_timers now) = []"
proof -
  have a: "timers_ok (snd (uv_timer_init 1 (empty_tloop [] now ())))" "armed (snd (uv_timer_init 1 (empty_tloop [] now ()))) = {}"
    "handle_queue (snd (uv_timer_init 1 (empty_tloop [] now ()))) = [1]"
    "is_timer (snd (uv_timer_init 1 (empty_tloop [] now ()))) 1"
    using timer_init_ok [OF empty_tloop_ok [of "[]" now "()"], of 1]
    by (simp_all add: empty_tloop_def empty_loop_def uv_timer_init_def upd_timer_def uv__handle_init_def Let_def armed_def)
  show "timers_ok (two_timers now)" "armed (two_timers now) = {}" "is_timer (two_timers now) 2"
    using timer_init_ok [OF a(1), of 2] a by (simp_all add: two_timers_def)
  show "is_timer (two_timers now) 1"
    "loop_time (two_timers now) = now" "timer_counter (two_timers now) = 0" "trace (two_timers now) = []"
    by (simp_all add: two_timers_def is_timer_def empty_tloop_def empty_loop_def uv_timer_init_def upd_timer_def uv__handle_init_def Let_def)
qed

lemma started_properties:
  assumes "started h cb timeout repeat s t"
  shows "armed t = insert h (armed s)" "timer_frame s t" "timers_wf t"
    "t_timeout (timers t h) = clamp_timeout (loop_time s) timeout" "t_repeat (timers t h) = repeat"
    "k \<noteq> h \<Longrightarrow> timers t k = timers s k"
  using assms by (auto simp: started_def)

lemma counter_next: "timer_counter s \<noteq> - 1 \<Longrightarrow> timer_counter s < timer_counter s + 1"
proof -
  assume "timer_counter s \<noteq> - 1"
  then have "unat (timer_counter s) \<noteq> 2 ^ 64 - 1" using unat_max word_unat_eq_iff by metis
  moreover have "unat (timer_counter s) < 2 ^ 64" using unsigned_less [of "timer_counter s", where 'a = nat] by simp
  ultimately show ?thesis by (simp add: word_less_nat_alt unat_word_ariths)
qed

lemma next_timeout_value:
  assumes ok: "timers_wf s"
  shows "uv__next_timeout s = (if armed s = {} then - 1 else int (min INT_MAX (Min (wait_of s ` armed s))))"
proof (cases "heap_min (timer_heap s)")
  case None
  then show ?thesis using timers_min(1) [OF ok] by (simp add: uv__next_timeout_def)
next
  case (Some h)
  have "h \<in> armed s" using timers_min(2) [OF ok Some] by simp
  then have "Min (wait_of s ` armed s) = wait_of s h"
    using wait_of_le [OF ok Some] armed_finite by (intro Min_eqI) auto
  then show ?thesis using \<open>h \<in> armed s\<close> next_timeout_min [OF Some] by auto
qed

section \<open>Properties\<close>

text \<open>C5: \<open>uv_timer_start\<close> with a callback always succeeds, keeps the invariant of the loop (the
  heap holds the active timers, the reference count is exact), arms this timer and no other, and
  sets a deadline that saturates instead of wrapping around.\<close>
theorem timer_start_arms:
  assumes "timers_ok s" "is_timer s h" "timer_counter s \<noteq> - 1"
  shows "\<exists>t. uv_timer_start h (Some cb) timeout repeat s = Some (0, t) \<and> timers_ok t
    \<and> armed t = insert h (armed s)
    \<and> unat (t_timeout (timers t h)) = min (2 ^ 64 - 1) (unat (loop_time s) + unat timeout)
    \<and> t_repeat (timers t h) = repeat \<and> (\<forall>k. k \<noteq> h \<longrightarrow> timers t k = timers s k) \<and> timer_frame s t"
proof -
  have ok: "timers_wf s" "ids_ok s" using assms(1) by (simp_all add: timers_ok_def)
  from timer_start_ok [OF ok(1) assms(2)] obtain t where
    t: "uv_timer_start h (Some cb) timeout repeat s = Some (0, t)" "started h cb timeout repeat s t" by blast
  have "timers_ok t"
    using started_ids [OF t(2) ok(2) counter_next [OF assms(3)]] started_properties(3) [OF t(2)]
    by (simp add: timers_ok_def)
  with t started_properties [OF t(2)] show ?thesis by (simp add: clamp_unat)
qed

theorem timer_start_arms_witness:
  "\<exists>t. uv_timer_start 1 (Some 77) 50 0 (two_timers 1000) = Some (0, t) \<and> timers_ok t
    \<and> armed t = {1} \<and> unat (t_timeout (timers t 1)) = 1050"
  using timer_start_arms [of "two_timers 1000" 1 77 50 0] two_timers_ok by auto

text \<open>\<open>uv_timer_stop\<close> and the closing of a timer always succeed: the timer is taken out of the
  heap wherever it stands in it, the others stay armed with their deadlines, and the invariant and
  the reference count are kept.  A timer that is not armed is left alone.\<close>
theorem timer_stop_disarms:
  assumes "timers_ok s" "is_timer s h"
  shows "\<exists>t. uv_timer_stop h s = Some (0, t) \<and> uv__timer_close h s = Some t \<and> timers_ok t
    \<and> armed t = armed s - {h} \<and> timers t = timers s \<and> \<not> uv__is_active h t \<and> timer_frame s t"
proof -
  from assms timer_stop_ok obtain t where t: "uv_timer_stop h s = Some (0, t)" "timers_wf t" "armed t = armed s - {h}"
    "timers t = timers s" "timer_counter t = timer_counter s" "timer_frame s t" "\<not> uv__is_active h t"
    unfolding timers_ok_def by blast
  have "ids_ok t" using assms(1) t(3-5) by (auto simp: timers_ok_def intro: ids_ok_fewer)
  with t show ?thesis by (auto simp: timers_ok_def uv__timer_close_def)
qed

theorem timer_stop_disarms_witness:
  "\<exists>t. uv_timer_stop 2 (two_timers 5) = Some (0, t) \<and> timers_ok t \<and> armed t = {} \<and> \<not> uv__is_active 2 t"
  using timer_stop_disarms [of "two_timers 5" 2] two_timers_ok by auto

text \<open>\<open>uv__next_timeout\<close> is the time to the earliest deadline: -1 (block) without timers, 0
  when one is due, and never more than \<open>INT_MAX\<close>, whatever the 64-bit deadlines are.\<close>
theorem next_timeout_is_earliest:
  assumes "timers_ok s"
  shows "uv__next_timeout s = (if armed s = {} then - 1 else int (min INT_MAX (Min (wait_of s ` armed s))))
    \<and> (uv__next_timeout s = 0 \<longleftrightarrow> due s \<noteq> {})"
proof -
  have ok: "timers_wf s" using assms by (simp add: timers_ok_def)
  have "Min (wait_of s ` armed s) = 0 \<longleftrightarrow> due s \<noteq> {}" if "armed s \<noteq> {}"
  proof -
    have "Min (wait_of s ` armed s) = 0 \<longleftrightarrow> (\<exists>h \<in> armed s. wait_of s h = 0)"
      using that armed_finite [of s] by (subst Min_eq_iff) auto
    then show ?thesis by (auto simp: due_def wait_of_def word_le_nat_alt)
  qed
  moreover have "due s = {}" if "armed s = {}" using that by (auto simp: due_def)
  moreover have "int (min INT_MAX m) = 0 \<longleftrightarrow> m = 0" for m by (simp add: min_def)
  ultimately show ?thesis using next_timeout_value [OF ok]
    by (cases "armed s = {}") (simp_all del: of_nat_min)
qed

theorem next_timeout_is_earliest_witness:
  "uv__next_timeout (two_timers 5) = - 1 \<and> due (two_timers 5) = {}"
  using next_timeout_is_earliest [of "two_timers 5"] two_timers_ok by auto


definition due_timers :: "unit tloop_scheme" where
  "due_timers = (case uv_timer_start 2 (Some 7) 0 0 (two_timers 5) of None \<Rightarrow> two_timers 5 | Some p \<Rightarrow> snd p)"

lemma due_timers_ok: "timers_ok due_timers" "due due_timers = {2}" "loop_time due_timers = 5"
  "timer_counter due_timers = 1" "trace due_timers = []"
proof -
  have ok: "timers_wf (two_timers 5)" "ids_ok (two_timers 5)" "is_timer (two_timers 5) 2"
    "timer_counter (two_timers 5) < timer_counter (two_timers 5) + 1"
    using two_timers_ok [of 5] by (simp_all add: timers_ok_def)
  obtain t where t: "uv_timer_start 2 (Some 7) 0 0 (two_timers 5) = Some (0, t)" "started 2 7 0 0 (two_timers 5) t"
    using timer_start_ok [OF ok(1,3)] by blast
  then have e: "due_timers = t" by (simp add: due_timers_def)
  show "timers_ok due_timers"
    using started_ids [OF t(2) ok(2,4)] started_properties(3) [OF t(2)] e by (simp add: timers_ok_def)
  show "loop_time due_timers = 5" "timer_counter due_timers = 1" "trace due_timers = []"
    using t(2) e two_timers_ok [of 5] by (simp_all add: started_def timer_frame_def)
  then show "due due_timers = {2}"
    using t(2) e two_timers_ok [of 5] by (auto simp: started_def due_def clamp_timeout_def)
qed


text \<open>C33: when \<open>uv__run_timers\<close> returns nothing is due, whatever the callbacks do.  So a timer whose callback starts it
  again with a timeout of zero is called again in the same call: as often as it does so, for every number of times,
  before the poll is reached; and if it does so every time, \<open>uv__run_timers\<close> does not return.\<close>
theorem zero_timeout_starves:
  assumes "timers_ok s" "due s = {h}" "loop_time s \<noteq> - 1"
  shows "(\<forall>n. \<exists>t. uv__run_timers (restart_until (length (trace s) + Suc n)) s = Some t
        \<and> trace t = trace s @ replicate (Suc n) (Timer_cb h) \<and> due t = {})
    \<and> uv__run_timers restart_now s = None \<and> (\<forall>call t. uv__run_timers call s = Some t \<longrightarrow> none_due t)"
proof -
  have ok: "timers_wf s" using assms(1) by (simp add: timers_ok_def)
  have "uv__run_timers restart_now s = None"
    using restart_now_no_result [of restart_now s] ok assms(2) by (cases "uv__run_timers restart_now s") auto
  then show ?thesis using restart_until_runs [OF ok assms(2,3)] run_timers_none_due by blast
qed

theorem zero_timeout_starves_witness:
  "uv__run_timers restart_now due_timers = None
    \<and> (\<exists>t. uv__run_timers (restart_until 3) due_timers = Some t \<and> trace t = [Timer_cb 2, Timer_cb 2, Timer_cb 2])"
proof -
  have "loop_time due_timers \<noteq> - 1" using due_timers_ok(3) by simp
  from zero_timeout_starves [OF due_timers_ok(1,2) this] have
    "uv__run_timers restart_now due_timers = None"
    "\<exists>t. uv__run_timers (restart_until (length (trace due_timers) + Suc 2)) due_timers = Some t
        \<and> trace t = trace due_timers @ replicate (Suc 2) (Timer_cb 2)" by blast+
  then show ?thesis by (simp add: due_timers_ok numeral_3_eq_3 numeral_2_eq_2)
qed

text \<open>\<open>uv_timer_again\<close> refuses a timer without callback, restarts a repeating timer with its
  repeat value as timeout, and leaves a timer without repeat value alone.\<close>
theorem timer_again_cases:
  assumes "timers_ok s" "is_timer s h" "timer_counter s \<noteq> - 1"
  shows "(timer_cb (timers s h) = None \<longrightarrow> uv_timer_again h s = Some (- EINVAL, s))
    \<and> (timer_cb (timers s h) \<noteq> None \<and> uv_timer_get_repeat h s = 0 \<longrightarrow> uv_timer_again h s = Some (0, s))
    \<and> (timer_cb (timers s h) \<noteq> None \<and> uv_timer_get_repeat h s \<noteq> 0 \<longrightarrow>
        (\<exists>t. uv_timer_again h s = Some (0, t) \<and> timers_ok t \<and> armed t = insert h (armed s)
          \<and> timer_cb (timers t h) = timer_cb (timers s h)
          \<and> t_timeout (timers t h) = clamp_timeout (loop_time s) (uv_timer_get_repeat h s)
          \<and> uv_timer_get_repeat h t = uv_timer_get_repeat h s))"
proof (intro conjI impI)
  assume a: "timer_cb (timers s h) \<noteq> None \<and> uv_timer_get_repeat h s \<noteq> 0"
  then obtain f where f: "timer_cb (timers s h) = Some f" by blast
  have ok: "timers_wf s" "ids_ok s" using assms(1) by (simp_all add: timers_ok_def)
  from timer_again_ok [OF ok(1) assms(2) f] a obtain t where t: "uv_timer_again h s = Some (0, t)"
    "started h f (t_repeat (timers s h)) (t_repeat (timers s h)) s t" by (auto simp: uv_timer_get_repeat_def)
  have "ids_ok t" by (rule started_ids [OF t(2) ok(2) counter_next [OF assms(3)]])
  then show "\<exists>t. uv_timer_again h s = Some (0, t) \<and> timers_ok t \<and> armed t = insert h (armed s)
          \<and> timer_cb (timers t h) = timer_cb (timers s h)
          \<and> t_timeout (timers t h) = clamp_timeout (loop_time s) (uv_timer_get_repeat h s)
          \<and> uv_timer_get_repeat h t = uv_timer_get_repeat h s"
    using t f by (auto simp: started_def timers_ok_def uv_timer_get_repeat_def)
qed (auto simp: uv_timer_again_def uv_timer_get_repeat_def)

theorem timer_again_cases_witness: "uv_timer_again 1 (two_timers 5) = Some (- 22, two_timers 5)"
proof -
  have "timer_cb (timers (two_timers 5) 1) = None"
    by (simp add: two_timers_def empty_tloop_def empty_loop_def uv_timer_init_def upd_timer_def uv__handle_init_def Let_def)
  then show ?thesis using timer_again_cases [of "two_timers 5" 1] two_timers_ok by simp
qed

end
