(* ===== verification/Loop_Watchers.thy ===== *)
theory Loop_Watchers
  imports Timers "HOL-Library.Sublist"
begin

text \<open>
  Idle, prepare and check handles: \<open>src/unix/loop-watcher_idle.cpp\<close> and its two copies.  The three
  files are one program text over three queues, so that one set of operations takes the kind as an
  argument, and the functions of each file are its instances.  While \<open>uv__run_idle\<close> and its like
  run, the watchers still to be called are in a local queue; \<open>QUEUE_REMOVE\<close> takes a watcher out of
  whichever queue it is in, so that a callback may stop any watcher.
\<close>

datatype watcher = Idle | Prepare | Check

record wloop = tloop +
  lw_handles :: "watcher \<Rightarrow> addr list"
  lw_local :: "watcher \<Rightarrow> addr list"
  lw_cb :: "addr \<Rightarrow> ptr"

definition watcher_init :: "uv_handle_type \<Rightarrow> addr \<Rightarrow> 'a wloop_scheme \<Rightarrow> int \<times> 'a wloop_scheme" where
  "watcher_init ty h s =
     (let s = uv__handle_init h ty s
      in (0, s\<lparr>lw_cb := (lw_cb s)(h := None)\<rparr>))"

definition watcher_start :: "watcher \<Rightarrow> addr \<Rightarrow> ptr \<Rightarrow> 'a wloop_scheme \<Rightarrow> int \<times> 'a wloop_scheme" where
  "watcher_start k h cb s =
     (if uv__is_active h s then (0, s)
      else if cb = None then (- EINVAL, s)
      else let s = s\<lparr>lw_handles := (lw_handles s)(k := h # lw_handles s k)\<rparr>;
               s = s\<lparr>lw_cb := (lw_cb s)(h := cb)\<rparr>
           in (0, uv__handle_start h s))"

definition watcher_remove :: "addr \<Rightarrow> 'a wloop_scheme \<Rightarrow> 'a wloop_scheme" where
  "watcher_remove h s =
     s\<lparr>lw_handles := (\<lambda>k. remove1 h (lw_handles s k)), lw_local := (\<lambda>k. remove1 h (lw_local s k))\<rparr>"

definition watcher_stop :: "addr \<Rightarrow> 'a wloop_scheme \<Rightarrow> int \<times> 'a wloop_scheme" where
  "watcher_stop h s =
     (if \<not> uv__is_active h s then (0, s) else (0, uv__handle_stop h (watcher_remove h s)))"

definition watcher_call :: "watcher \<Rightarrow> addr \<Rightarrow> callback" where
  "watcher_call k h = (case k of Idle \<Rightarrow> Idle_cb h | Prepare \<Rightarrow> Prepare_cb h | Check \<Rightarrow> Check_cb h)"

partial_function (option) watcher_loop ::
    "watcher \<Rightarrow> (callback \<Rightarrow> 'a wloop_scheme \<Rightarrow> 'a wloop_scheme) \<Rightarrow> 'a wloop_scheme \<Rightarrow> 'a wloop_scheme option" where
  "watcher_loop k call s =
     (case lw_local s k of
        [] \<Rightarrow> Some s
      | h # q \<Rightarrow>
          watcher_loop k call
            (invoke call (watcher_call k h)
               (s\<lparr>lw_local := (lw_local s)(k := q), lw_handles := (lw_handles s)(k := lw_handles s k @ [h])\<rparr>)))"

definition watcher_run ::
    "watcher \<Rightarrow> (callback \<Rightarrow> 'a wloop_scheme \<Rightarrow> 'a wloop_scheme) \<Rightarrow> 'a wloop_scheme \<Rightarrow> 'a wloop_scheme option" where
  "watcher_run k call s =
     watcher_loop k call
       (s\<lparr>lw_local := (lw_local s)(k := lw_handles s k), lw_handles := (lw_handles s)(k := [])\<rparr>)"

section \<open>The functions of the three files\<close>

definition uv_idle_init :: "addr \<Rightarrow> 'a wloop_scheme \<Rightarrow> int \<times> 'a wloop_scheme" where
  "uv_idle_init = watcher_init UV_IDLE"
definition uv_idle_start :: "addr \<Rightarrow> ptr \<Rightarrow> 'a wloop_scheme \<Rightarrow> int \<times> 'a wloop_scheme" where
  "uv_idle_start = watcher_start Idle"
definition uv_idle_stop :: "addr \<Rightarrow> 'a wloop_scheme \<Rightarrow> int \<times> 'a wloop_scheme" where
  "uv_idle_stop = watcher_stop"
definition uv__run_idle :: "(callback \<Rightarrow> 'a wloop_scheme \<Rightarrow> 'a wloop_scheme) \<Rightarrow> 'a wloop_scheme \<Rightarrow> 'a wloop_scheme option" where
  "uv__run_idle = watcher_run Idle"
definition uv__idle_close :: "addr \<Rightarrow> 'a wloop_scheme \<Rightarrow> 'a wloop_scheme" where
  "uv__idle_close h s = snd (uv_idle_stop h s)"

definition uv_prepare_init :: "addr \<Rightarrow> 'a wloop_scheme \<Rightarrow> int \<times> 'a wloop_scheme" where
  "uv_prepare_init = watcher_init UV_PREPARE"
definition uv_prepare_start :: "addr \<Rightarrow> ptr \<Rightarrow> 'a wloop_scheme \<Rightarrow> int \<times> 'a wloop_scheme" where
  "uv_prepare_start = watcher_start Prepare"
definition uv_prepare_stop :: "addr \<Rightarrow> 'a wloop_scheme \<Rightarrow> int \<times> 'a wloop_scheme" where
  "uv_prepare_stop = watcher_stop"
definition uv__run_prepare :: "(callback \<Rightarrow> 'a wloop_scheme \<Rightarrow> 'a wloop_scheme) \<Rightarrow> 'a wloop_scheme \<Rightarrow> 'a wloop_scheme option" where
  "uv__run_prepare = watcher_run Prepare"
definition uv__prepare_close :: "addr \<Rightarrow> 'a wloop_scheme \<Rightarrow> 'a wloop_scheme" where
  "uv__prepare_close h s = snd (uv_prepare_stop h s)"

text \<open>\<open>uv_check_init\<close> passes \<open>UV_PREPARE\<close>: the copy was not adapted.\<close>

definition uv_check_init :: "addr \<Rightarrow> 'a wloop_scheme \<Rightarrow> int \<times> 'a wloop_scheme" where
  "uv_check_init = watcher_init UV_PREPARE"
definition uv_check_start :: "addr \<Rightarrow> ptr \<Rightarrow> 'a wloop_scheme \<Rightarrow> int \<times> 'a wloop_scheme" where
  "uv_check_start = watcher_start Check"
definition uv_check_stop :: "addr \<Rightarrow> 'a wloop_scheme \<Rightarrow> int \<times> 'a wloop_scheme" where
  "uv_check_stop = watcher_stop"
definition uv__run_check :: "(callback \<Rightarrow> 'a wloop_scheme \<Rightarrow> 'a wloop_scheme) \<Rightarrow> 'a wloop_scheme \<Rightarrow> 'a wloop_scheme option" where
  "uv__run_check = watcher_run Check"
definition uv__check_close :: "addr \<Rightarrow> 'a wloop_scheme \<Rightarrow> 'a wloop_scheme" where
  "uv__check_close h s = snd (uv_check_stop h s)"

lemma check_handle_has_prepare_type: "h_type (hnd (snd (uv_check_init h s)) h) = UV_PREPARE"
  by (simp add: uv_check_init_def watcher_init_def uv__handle_init_def Let_def)

section \<open>The invariant\<close>

text \<open>
  The watchers queued, in whatever queue, are active handles of the loop, each in one queue.
\<close>

definition queued :: "'a wloop_scheme \<Rightarrow> watcher \<Rightarrow> addr list" where
  "queued s k = lw_local s k @ lw_handles s k"

definition watchers_ok :: "'a wloop_scheme \<Rightarrow> bool" where
  "watchers_ok s \<longleftrightarrow> refs_ok s
     \<and> (\<forall>k. distinct (queued s k) \<and> (\<forall>h \<in> set (queued s k). h \<in> set (handle_queue s) \<and> uv__is_active h s))
     \<and> (\<forall>k l. k \<noteq> l \<longrightarrow> set (queued s k) \<inter> set (queued s l) = {})"

lemma wloop_frame [simp]:
  "lw_handles (uv__handle_start h s) = lw_handles s" "lw_handles (uv__handle_stop h s) = lw_handles s"
  "lw_local (uv__handle_start h s) = lw_local s" "lw_local (uv__handle_stop h s) = lw_local s"
  "lw_cb (uv__handle_start h s) = lw_cb s" "lw_cb (uv__handle_stop h s) = lw_cb s"
  "flags_of (s\<lparr>lw_handles := q\<rparr>) = flags_of s" "flags_of (s\<lparr>lw_local := q\<rparr>) = flags_of s"
  "flags_of (s\<lparr>lw_cb := c\<rparr>) = flags_of s"
  by (simp_all add: handle_defs upd_flags_def fun_eq_iff flags_of_def)

lemma active_wloop [simp]:
  "uv__is_active h (s\<lparr>lw_handles := q\<rparr>) = uv__is_active h s" "uv__is_active h (s\<lparr>lw_local := q\<rparr>) = uv__is_active h s"
  "uv__is_active h (s\<lparr>lw_cb := c\<rparr>) = uv__is_active h s" "uv__is_active h (s\<lparr>trace := tr\<rparr>) = uv__is_active h s"
  by (simp_all add: uv__is_active_def)

lemma refs_ok_wloop [simp]:
  "refs_ok (s\<lparr>lw_handles := q\<rparr>) = refs_ok s" "refs_ok (s\<lparr>lw_local := q\<rparr>) = refs_ok s"
  "refs_ok (s\<lparr>lw_cb := c\<rparr>) = refs_ok s" "refs_ok (s\<lparr>trace := tr\<rparr>) = refs_ok s"
  by (rule refs_ok_cong; simp)+

lemma watcher_remove_simps [simp]:
  "lw_handles (watcher_remove h s) k = remove1 h (lw_handles s k)"
  "lw_local (watcher_remove h s) k = remove1 h (lw_local s k)"
  "handle_queue (watcher_remove h s) = handle_queue s"
  "flags_of (watcher_remove h s) = flags_of s" "trace (watcher_remove h s) = trace s"
  "refs_ok (watcher_remove h s) = refs_ok s" "uv__is_active g (watcher_remove h s) = uv__is_active g s"
  by (simp_all add: watcher_remove_def)

lemma active_after [simp]:
  "uv__is_active g (uv__handle_start h s) = (g = h \<or> uv__is_active g s)"
  "uv__is_active g (uv__handle_stop h s) = (g \<noteq> h \<and> uv__is_active g s)"
  by (simp_all add: uv__is_active_def flag_simps)

lemma watcher_start_ok:
  assumes ok: "watchers_ok s" and h: "h \<in> set (handle_queue s)" "\<not> uv__is_active h s" and cb: "cb \<noteq> None"
  shows "watchers_ok (snd (watcher_start k h cb s))
    \<and> fst (watcher_start k h cb s) = 0
    \<and> lw_handles (snd (watcher_start k h cb s)) = (lw_handles s)(k := h # lw_handles s k)
    \<and> lw_cb (snd (watcher_start k h cb s)) h = cb \<and> uv__is_active h (snd (watcher_start k h cb s))"
proof -
  let ?u = "s\<lparr>lw_handles := (lw_handles s)(k := h # lw_handles s k), lw_cb := (lw_cb s)(h := cb)\<rparr>"
  let ?t = "uv__handle_start h ?u"
  have run: "watcher_start k h cb s = (0, ?t)" using h cb by (simp add: watcher_start_def)
  have out: "h \<notin> set (queued s l)" for l using ok h by (auto simp: watchers_ok_def)
  have q: "set (queued ?t l) = (if l = k then insert h (set (queued s l)) else set (queued s l))"
    "distinct (queued ?t l) = distinct (queued s l)" for l
    using out [of l] by (auto simp: queued_def)
  have "refs_ok ?t" using ok h by (intro handle_start_refs) (auto simp: watchers_ok_def)
  then have "watchers_ok ?t"
    using ok out h q by (auto simp: watchers_ok_def)
  then show ?thesis using run by simp
qed

lemma watcher_stop_ok:
  assumes ok: "watchers_ok s" and h: "h \<in> set (handle_queue s)"
  shows "watchers_ok (snd (watcher_stop h s)) \<and> fst (watcher_stop h s) = 0
    \<and> (\<forall>k. queued (snd (watcher_stop h s)) k = remove1 h (queued s k))
    \<and> \<not> uv__is_active h (snd (watcher_stop h s))"
proof (cases "uv__is_active h s")
  case False
  then have "\<forall>k. h \<notin> set (queued s k)" using ok by (auto simp: watchers_ok_def)
  then show ?thesis using False ok by (auto simp: watcher_stop_def remove1_idem)
next
  case True
  let ?t = "uv__handle_stop h (watcher_remove h s)"
  have run: "watcher_stop h s = (0, ?t)" using True by (simp add: watcher_stop_def)
  have dist: "distinct (lw_local s k @ lw_handles s k)" for k using ok by (simp add: watchers_ok_def queued_def)
  have q: "queued ?t k = remove1 h (queued s k)" for k
  proof -
    have "h \<in> set (lw_local s k) \<Longrightarrow> h \<notin> set (lw_handles s k)" using dist [of k] by auto
    then show ?thesis by (auto simp: queued_def remove1_append remove1_idem)
  qed
  have "refs_ok ?t" using ok h by (intro handle_stop_refs) (auto simp: watchers_ok_def)
  then have "watchers_ok ?t"
    using ok q set_remove1_subset [of h] by (fastforce simp: watchers_ok_def)
  then show ?thesis using run q by simp
qed

section \<open>One pass over the watchers\<close>

text \<open>
  Callbacks that do not add watchers to the queue being drained.  No function of the interface
  does: a start puts the watcher at the head of the loop's queue, a stop takes it out.
\<close>

definition drains :: "watcher \<Rightarrow> (callback \<Rightarrow> 'a wloop_scheme \<Rightarrow> 'a wloop_scheme) \<Rightarrow> bool" where
  "drains k call \<longleftrightarrow> (\<forall>c u. subseq (lw_local (call c u) k) (lw_local u k) \<and> trace (call c u) = trace u)"

lemma start_stop_drain:
  "lw_local (snd (watcher_start k' h cb s)) = lw_local s" "trace (snd (watcher_start k' h cb s)) = trace s"
  "subseq (lw_local (snd (watcher_stop h s)) k) (lw_local s k)" "trace (snd (watcher_stop h s)) = trace s"
proof -
  have "subseq (remove1 h xs) xs" for xs :: "addr list" by (induction xs) auto
  then show "subseq (lw_local (snd (watcher_stop h s)) k) (lw_local s k)" by (simp add: watcher_stop_def)
qed (simp_all add: watcher_start_def watcher_stop_def Let_def)

lemma watcher_loop_step:
  "lw_local s k = h # q \<Longrightarrow> watcher_loop k call s = watcher_loop k call (invoke call (watcher_call k h)
     (s\<lparr>lw_local := (lw_local s)(k := q), lw_handles := (lw_handles s)(k := lw_handles s k @ [h])\<rparr>))"
  "lw_local s k = [] \<Longrightarrow> watcher_loop k call s = Some s"
  by (subst watcher_loop.simps, simp)+

lemma watcher_loop_ends:
  assumes "drains k call"
  shows "\<exists>t hs. watcher_loop k call s = Some t \<and> lw_local t k = [] \<and> subseq hs (lw_local s k)
    \<and> trace t = trace s @ map (watcher_call k) hs
    \<and> ((\<forall>c u. lw_local (call c u) = lw_local u \<and> lw_handles (call c u) = lw_handles u) \<longrightarrow>
        hs = lw_local s k \<and> lw_handles t k = lw_handles s k @ lw_local s k)"
proof (induction "length (lw_local s k)" arbitrary: s rule: less_induct)
  case less
  show ?case
  proof (cases "lw_local s k")
    case Nil
    then show ?thesis by (auto simp: watcher_loop_step)
  next
    case (Cons h q)
    let ?u = "s\<lparr>lw_local := (lw_local s)(k := q), lw_handles := (lw_handles s)(k := lw_handles s k @ [h]),
                 trace := trace s @ [watcher_call k h]\<rparr>"
    let ?v = "call (watcher_call k h) ?u"
    have step: "watcher_loop k call s = watcher_loop k call ?v"
      using watcher_loop_step(1) [OF Cons] by (simp add: invoke_def)
    have "subseq (lw_local ?v k) (lw_local ?u k) \<and> trace ?v = trace ?u"
      using assms unfolding drains_def by blast
    then have v: "subseq (lw_local ?v k) q" "trace ?v = trace s @ [watcher_call k h]" by simp_all
    then have "length (lw_local ?v k) < length (lw_local s k)"
      using Cons list_emb_length [OF v(1)] by simp
    from less [OF this] obtain t hs where t: "watcher_loop k call ?v = Some t" "lw_local t k = []"
      "subseq hs (lw_local ?v k)" "trace t = trace ?v @ map (watcher_call k) hs"
      "(\<forall>c u. lw_local (call c u) = lw_local u \<and> lw_handles (call c u) = lw_handles u) \<longrightarrow>
        hs = lw_local ?v k \<and> lw_handles t k = lw_handles ?v k @ lw_local ?v k" by blast
    have "subseq (h # hs) (lw_local s k)"
      using subseq_order.order_trans [OF t(3) v(1)] Cons by simp
    moreover have "h # hs = lw_local s k \<and> lw_handles t k = lw_handles s k @ lw_local s k"
      if same: "\<forall>c u. lw_local (call c u) = lw_local u \<and> lw_handles (call c u) = lw_handles u"
    proof -
      have "lw_local ?v = lw_local ?u" "lw_handles ?v = lw_handles ?u" using same by blast+
      then show ?thesis using t(5) same Cons by simp
    qed
    ultimately show ?thesis
      using step t(1,2,4) v(2) by (intro exI [of _ t] exI [of _ "h # hs"]) simp
  qed
qed

section \<open>Properties\<close>

text \<open>starting and stopping idle, prepare and check watchers keep the invariant that the queued
  watchers are active handles of the loop, each in one queue, and that the reference count is exact:
  a start with a callback queues an inactive watcher at the head of its queue, without one it is
  refused; a stop takes the watcher out of whichever queue it is in, the one being drained included.\<close>
theorem watcher_start_stop:
  assumes "watchers_ok s" "h \<in> set (handle_queue s)"
  shows "watchers_ok (snd (watcher_start k h cb s)) \<and> watchers_ok (snd (watcher_stop h s))
    \<and> (\<not> uv__is_active h s \<and> cb = None \<longrightarrow> watcher_start k h cb s = (- EINVAL, s))
    \<and> (uv__is_active h s \<longrightarrow> watcher_start k h cb s = (0, s))
    \<and> (\<not> uv__is_active h s \<and> cb \<noteq> None \<longrightarrow> lw_handles (snd (watcher_start k h cb s)) k = h # lw_handles s k
        \<and> uv__is_active h (snd (watcher_start k h cb s)))
    \<and> (\<forall>l. queued (snd (watcher_stop h s)) l = remove1 h (queued s l))
    \<and> \<not> uv__is_active h (snd (watcher_stop h s))"
proof -
  have "watchers_ok (snd (watcher_start k h cb s))"
    using watcher_start_ok [OF assms] assms(1) by (cases "uv__is_active h s \<or> cb = None") (auto simp: watcher_start_def)
  then show ?thesis
    using watcher_start_ok [OF assms, of cb k] watcher_stop_ok [OF assms] by (auto simp: watcher_start_def)
qed

definition idle_loop :: "unit wloop_scheme" where
  "idle_loop = snd (uv_idle_init 1 (empty_tloop [] 0 (wloop_ext (\<lambda>_. []) (\<lambda>_. []) (\<lambda>_. None) ())))"

lemma idle_loop_ok: "watchers_ok idle_loop" "1 \<in> set (handle_queue idle_loop)" "\<not> uv__is_active 1 idle_loop"
  "lw_handles idle_loop = (\<lambda>_. [])" "lw_local idle_loop = (\<lambda>_. [])" "trace idle_loop = []"
proof -
  let ?s = "empty_tloop [] 0 (wloop_ext (\<lambda>_. []) (\<lambda>_. []) (\<lambda>_. None) ())"
  have "refs_ok ?s" by (simp add: empty_tloop_def empty_loop_def refs_ok_def counted_def)
  then have "refs_ok (uv__handle_init 1 UV_IDLE ?s)"
    by (rule handle_init_refs) (simp_all add: empty_tloop_def empty_loop_def)
  then have "refs_ok idle_loop" by (simp add: idle_loop_def uv_idle_init_def watcher_init_def Let_def)
  moreover have l: "lw_handles idle_loop = (\<lambda>_. [])" "lw_local idle_loop = (\<lambda>_. [])" "trace idle_loop = []"
    "1 \<in> set (handle_queue idle_loop)"
    by (simp_all add: idle_loop_def uv_idle_init_def watcher_init_def Let_def uv__handle_init_def empty_tloop_def empty_loop_def)
  ultimately show "watchers_ok idle_loop" by (simp add: watchers_ok_def queued_def)
  show "lw_handles idle_loop = (\<lambda>_. [])" "lw_local idle_loop = (\<lambda>_. [])" "trace idle_loop = []"
    "1 \<in> set (handle_queue idle_loop)" by (fact l)+
  show "\<not> uv__is_active 1 idle_loop"
    by (simp add: idle_loop_def uv_idle_init_def watcher_init_def Let_def handle_init_inactive)
qed

theorem watcher_start_stop_witness:
  "lw_handles (snd (watcher_start Idle 1 (Some 8) idle_loop)) Idle = [1]
    \<and> watchers_ok (snd (watcher_start Idle 1 (Some 8) idle_loop))
    \<and> watcher_start Idle 1 None idle_loop = (- 22, idle_loop)"
  using watcher_start_stop [of idle_loop 1 Idle "Some 8"] watcher_start_stop [of idle_loop 1 Idle None] idle_loop_ok
  by simp

text \<open>a pass over the idle, prepare or check watchers ends, whatever watchers the callbacks
  start or stop: it calls each watcher that was queued when it began at most once, in order, and
  those that are started meanwhile not before the next pass; if the callbacks leave the queues
  alone every watcher is called once and the queue is as before.\<close>
theorem watcher_pass:
  assumes "drains k call"
  shows "\<exists>t hs. watcher_run k call s = Some t \<and> lw_local t k = [] \<and> subseq hs (lw_handles s k)
    \<and> trace t = trace s @ map (watcher_call k) hs
    \<and> ((\<forall>c u. lw_local (call c u) = lw_local u \<and> lw_handles (call c u) = lw_handles u) \<longrightarrow>
        hs = lw_handles s k \<and> lw_handles t k = lw_handles s k)"
  using watcher_loop_ends [OF assms, of "s\<lparr>lw_local := (lw_local s)(k := lw_handles s k), lw_handles := (lw_handles s)(k := [])\<rparr>"]
  by (simp add: watcher_run_def)

text \<open>A callback that stops its own watcher.\<close>

definition stop_self :: "callback \<Rightarrow> 'a wloop_scheme \<Rightarrow> 'a wloop_scheme" where
  "stop_self c s = (case c of Idle_cb h \<Rightarrow> snd (uv_idle_stop h s) | _ \<Rightarrow> s)"

theorem watcher_pass_witness:
  "\<exists>t hs. uv__run_idle stop_self (snd (watcher_start Idle 1 (Some 8) idle_loop)) = Some t \<and> lw_local t Idle = []
     \<and> subseq hs [1] \<and> trace t = map Idle_cb hs"
proof -
  have "drains Idle stop_self"
    by (auto simp: drains_def stop_self_def uv_idle_stop_def start_stop_drain split: callback.split)
  from watcher_pass [OF this, of "snd (watcher_start Idle 1 (Some 8) idle_loop)"] obtain t hs where
    "uv__run_idle stop_self (snd (watcher_start Idle 1 (Some 8) idle_loop)) = Some t" "lw_local t Idle = []"
    "subseq hs (lw_handles (snd (watcher_start Idle 1 (Some 8) idle_loop)) Idle)"
    "trace t = trace (snd (watcher_start Idle 1 (Some 8) idle_loop)) @ map (watcher_call Idle) hs"
    unfolding uv__run_idle_def by blast
  moreover have "watcher_call Idle = Idle_cb" by (simp add: fun_eq_iff watcher_call_def)
  ultimately show ?thesis
    using idle_loop_ok by (simp add: start_stop_drain) (auto simp: watcher_start_def Let_def)
qed

end
