(* ===== verification/Io.thy ===== *)
theory Io
  imports Loop_Watchers
begin

text \<open>
  I/O watchers: the functions \<open>uv__io_*\<close> of \<open>src/unix/core.cpp\<close> and the epoll backend of
  \<open>src/unix/linux-core.cpp\<close>.  \<open>loop->watchers\<close> is a list of watcher addresses by descriptor
  (\<open>None\<close> while the pointer is \<open>NULL\<close>), without the two extra cells at its end: these hold the
  array of events being dispatched and its length, here the field \<open>poll_events\<close>, through which
  \<open>uv__io_close\<close> invalidates the events of a descriptor that a callback has closed.  The callbacks
  of watchers are library code, so they may abort: the parameter \<open>iocb\<close> is option-valued.
\<close>

abbreviation (input) POLLIN :: u32 where "POLLIN \<equiv> 1"
abbreviation (input) POLLPRI :: u32 where "POLLPRI \<equiv> 2"
abbreviation (input) POLLOUT :: u32 where "POLLOUT \<equiv> 4"
abbreviation (input) POLLERR :: u32 where "POLLERR \<equiv> 8"
abbreviation (input) POLLHUP :: u32 where "POLLHUP \<equiv> 16"
abbreviation (input) UV__POLLRDHUP :: u32 where "UV__POLLRDHUP \<equiv> 0x2000"
abbreviation (input) EPOLL_CTL_ADD :: int where "EPOLL_CTL_ADD \<equiv> 1"
abbreviation (input) EPOLL_CTL_DEL :: int where "EPOLL_CTL_DEL \<equiv> 2"
abbreviation (input) EPOLL_CTL_MOD :: int where "EPOLL_CTL_MOD \<equiv> 3"
abbreviation (input) EPOLL_CLOEXEC :: int where "EPOLL_CLOEXEC \<equiv> 524288"
abbreviation (input) UV_LOOP_BLOCK_SIGPROF :: u32 where "UV_LOOP_BLOCK_SIGPROF \<equiv> 1"

datatype io_cb =
    uv__async_io_cb | uv__stream_io_cb | uv__server_io_cb | uv__udp_io_cb | uv__signal_event_cb
  | uv__poll_io_cb | uv__inotify_read_cb

text \<open>\<open>w_linked\<close>: the node \<open>pending_queue\<close> does not point to itself.\<close>

record uv__io =
  w_cb :: io_cb
  w_fd :: int
  w_events :: u32
  w_pevents :: u32
  w_linked :: bool

record iloop = wloop +
  io :: "addr \<Rightarrow> uv__io"
  watchers :: "ptr list option"
  nwatchers :: u32
  nfds :: u32
  watcher_queue :: "addr list"
  pending_queue :: "addr list"
  pending_local :: "addr list"
  poll_events :: "(int \<times> u32) list option"
  backend_fd :: int
  loop_flags :: u32
  signal_io_watcher :: addr
  inotify_fd :: int
  inotify_read_watcher :: addr
  realloc_gives :: "nat \<Rightarrow> bool"

definition upd_io :: "addr \<Rightarrow> (uv__io \<Rightarrow> uv__io) \<Rightarrow> 'a iloop_scheme \<Rightarrow> 'a iloop_scheme" where
  "upd_io w f s = s\<lparr>io := (io s)(w := f (io s w))\<rparr>"

section \<open>Time\<close>

datatype uv_clocktype_t = UV_CLOCK_PRECISE | UV_CLOCK_FAST

abbreviation (input) CLOCK_MONOTONIC :: int where "CLOCK_MONOTONIC \<equiv> 1"
abbreviation (input) CLOCK_MONOTONIC_COARSE :: int where "CLOCK_MONOTONIC_COARSE \<equiv> 6"

definition uv__hrtime :: "uv_clocktype_t \<Rightarrow> 'a kern_scheme \<Rightarrow> (u64 \<times> 'a kern_scheme) option" where
  "uv__hrtime type s = do {
     s \<leftarrow> (if type = UV_CLOCK_FAST \<and> fast_clock_id s = - 1 then do {
         (r, s) \<leftarrow> syscall (Clock_getres CLOCK_MONOTONIC_COARSE) s;
         if r_ret r = 0 \<and> snd (r_clock r) \<le> 1 * 1000 * 1000
         then Some (s\<lparr>fast_clock_id := CLOCK_MONOTONIC_COARSE\<rparr>)
         else Some (s\<lparr>fast_clock_id := CLOCK_MONOTONIC\<rparr>)
       } else Some s);
     let clock_id = (if type = UV_CLOCK_FAST then fast_clock_id s else CLOCK_MONOTONIC);
     (r, s) \<leftarrow> syscall (Clock_gettime clock_id) s;
     Some (if r_ret r \<noteq> 0 then 0 else fst (r_clock r) * 1000000000 + snd (r_clock r), s)
   }"

definition uv_hrtime :: "'a kern_scheme \<Rightarrow> (u64 \<times> 'a kern_scheme) option" where
  "uv_hrtime s = uv__hrtime UV_CLOCK_PRECISE s"

definition uv__update_time :: "'a loop_scheme \<Rightarrow> 'a loop_scheme option" where
  "uv__update_time s = do {
     (t, s) \<leftarrow> uv__hrtime UV_CLOCK_FAST s;
     Some (s\<lparr>loop_time := t div 1000000\<rparr>)
   }"

definition uv_update_time :: "'a loop_scheme \<Rightarrow> 'a loop_scheme option" where
  "uv_update_time s = uv__update_time s"

section \<open>Watchers\<close>

definition next_power_of_two :: "u32 \<Rightarrow> u32" where
  "next_power_of_two v =
     (let v = v - 1;
          v = v OR drop_bit 1 v;
          v = v OR drop_bit 2 v;
          v = v OR drop_bit 4 v;
          v = v OR drop_bit 8 v;
          v = v OR drop_bit 16 v
      in v + 1)"

text \<open>\<open>realloc_gives n\<close> says whether \<open>uv__realloc\<close> gives \<open>n\<close> bytes to the table; the program aborts when it does not.
  A pointer has 8 bytes.\<close>

definition table_bytes :: "u32 \<Rightarrow> nat" where
  "table_bytes len = unat (next_power_of_two (len + 2) - 2 + 2) * 8"

definition maybe_resize :: "u32 \<Rightarrow> 'a iloop_scheme \<Rightarrow> 'a iloop_scheme option" where
  "maybe_resize len s =
     (if len \<le> nwatchers s then Some s
      else do {
        let n = next_power_of_two (len + 2) - 2;
        let old = (case watchers s of None \<Rightarrow> [] | Some ws \<Rightarrow> ws);
        require (realloc_gives s (table_bytes len));
        Some (s\<lparr>watchers := Some (old @ replicate (unat n - unat (nwatchers s)) None), nwatchers := n\<rparr>)
      })"

definition io_mask :: u32 where
  "io_mask = POLLIN OR POLLOUT OR UV__POLLRDHUP"

definition uv__io_init :: "addr \<Rightarrow> io_cb \<Rightarrow> int \<Rightarrow> 'a iloop_scheme \<Rightarrow> 'a iloop_scheme option" where
  "uv__io_init w cb fd s = do {
     require (fd \<ge> - 1);
     Some (upd_io w (\<lambda>_. \<lparr>w_cb = cb, w_fd = fd, w_events = 0, w_pevents = 0, w_linked = False\<rparr>) s)
   }"

definition watcher_at :: "int \<Rightarrow> 'a iloop_scheme \<Rightarrow> ptr option" where
  "watcher_at fd s =
     (case watchers s of
        None \<Rightarrow> None
      | Some ws \<Rightarrow> if 0 \<le> fd \<and> nat fd < length ws then Some (ws ! nat fd) else None)"

definition set_watcher :: "int \<Rightarrow> ptr \<Rightarrow> 'a iloop_scheme \<Rightarrow> 'a iloop_scheme" where
  "set_watcher fd p s = s\<lparr>watchers := map_option (\<lambda>ws. ws[nat fd := p]) (watchers s)\<rparr>"

definition enter_cell :: "addr \<Rightarrow> 'a iloop_scheme \<Rightarrow> 'a iloop_scheme option" where
  "enter_cell w s = do {
     cell \<leftarrow> watcher_at (w_fd (io s w)) s;
     Some (if cell = None then (set_watcher (w_fd (io s w)) (Some w) s)\<lparr>nfds := nfds s + 1\<rparr> else s)
   }"

definition uv__io_start :: "addr \<Rightarrow> u32 \<Rightarrow> 'a iloop_scheme \<Rightarrow> 'a iloop_scheme option" where
  "uv__io_start w events s = do {
     require (events AND NOT io_mask = 0 \<and> events \<noteq> 0);
     require (w_fd (io s w) \<ge> 0 \<and> w_fd (io s w) < int INT_MAX);
     let s = upd_io w (\<lambda>r. r\<lparr>w_pevents := w_pevents r OR events\<rparr>) s;
     s \<leftarrow> maybe_resize (of_int (w_fd (io s w) + 1)) s;
     if w_events (io s w) = w_pevents (io s w) then
       Some (if w_events (io s w) = 0 \<and> w \<in> set (watcher_queue s)
             then s\<lparr>watcher_queue := remove1 w (watcher_queue s)\<rparr> else s)
     else enter_cell w (if w \<notin> set (watcher_queue s) then s\<lparr>watcher_queue := watcher_queue s @ [w]\<rparr> else s)
   }"

definition uv__io_stop :: "addr \<Rightarrow> u32 \<Rightarrow> 'a iloop_scheme \<Rightarrow> 'a iloop_scheme option" where
  "uv__io_stop w events s = do {
     require (events AND NOT io_mask = 0 \<and> events \<noteq> 0);
     if w_fd (io s w) = - 1 then Some s
     else do {
       require (w_fd (io s w) \<ge> 0);
       if w_fd (io s w) \<ge> int (unat (nwatchers s)) then Some s
       else do {
         let s = upd_io w (\<lambda>r. r\<lparr>w_pevents := w_pevents r AND NOT events\<rparr>) s;
         if w_pevents (io s w) = 0 then do {
           let s = s\<lparr>watcher_queue := remove1 w (watcher_queue s)\<rparr>;
           cell \<leftarrow> watcher_at (w_fd (io s w)) s;
           if cell \<noteq> None then do {
             require (cell = Some w \<and> nfds s > 0);
             let s = (set_watcher (w_fd (io s w)) None s)\<lparr>nfds := nfds s - 1\<rparr>;
             Some (upd_io w (\<lambda>r. r\<lparr>w_events := 0\<rparr>) s)
           } else Some s
         }
         else Some (if w \<notin> set (watcher_queue s) then s\<lparr>watcher_queue := watcher_queue s @ [w]\<rparr> else s)
       }
     }
   }"

definition uv__platform_invalidate_fd :: "int \<Rightarrow> 'a iloop_scheme \<Rightarrow> 'a iloop_scheme option" where
  "uv__platform_invalidate_fd fd s = do {
     require (watchers s \<noteq> None);
     let s = s\<lparr>poll_events := map_option (map (\<lambda>(d, e). if d = fd then (- 1, e) else (d, e))) (poll_events s)\<rparr>;
     if backend_fd s \<ge> 0 then do {
       (_, s) \<leftarrow> syscall (Epoll_ctl (backend_fd s) EPOLL_CTL_DEL fd 0) s;
       Some s
     } else Some s
   }"

definition uv__io_close :: "addr \<Rightarrow> 'a iloop_scheme \<Rightarrow> 'a iloop_scheme option" where
  "uv__io_close w s = do {
     s \<leftarrow> uv__io_stop w io_mask s;
     let s = s\<lparr>pending_queue := remove1 w (pending_queue s), pending_local := remove1 w (pending_local s)\<rparr>;
     uv__platform_invalidate_fd (w_fd (io s w)) s
   }"

definition uv__io_feed :: "addr \<Rightarrow> 'a iloop_scheme \<Rightarrow> 'a iloop_scheme" where
  "uv__io_feed w s =
     (if \<not> w_linked (io s w)
      then (upd_io w (\<lambda>r. r\<lparr>w_linked := True\<rparr>) s)\<lparr>pending_queue := pending_queue s @ [w]\<rparr>
      else s)"

text \<open>The masks the callers pass are constants that satisfy the function's assertions.\<close>

definition uv__io_active :: "addr \<Rightarrow> u32 \<Rightarrow> 'a iloop_scheme \<Rightarrow> bool" where
  "uv__io_active w events s = (w_pevents (io s w) AND events \<noteq> 0)"

definition uv__io_check_fd :: "int \<Rightarrow> 'a iloop_scheme \<Rightarrow> (int \<times> 'a iloop_scheme) option" where
  "uv__io_check_fd fd s = do {
     (r, s) \<leftarrow> syscall (Epoll_ctl (backend_fd s) EPOLL_CTL_ADD fd POLLIN) s;
     let rc = (if r_ret r \<noteq> 0 \<and> errno s \<noteq> EEXIST then - errno s else 0);
     if rc = 0 then do {
       (r, s) \<leftarrow> syscall (Epoll_ctl (backend_fd s) EPOLL_CTL_DEL fd POLLIN) s;
       require (r_ret r = 0);
       Some (rc, s)
     } else Some (rc, s)
   }"

text \<open>\<open>w->cb(loop, w, events)\<close>: the ghost trace records the call.\<close>

definition io_invoke ::
    "(io_cb \<Rightarrow> addr \<Rightarrow> u32 \<Rightarrow> 'a iloop_scheme \<Rightarrow> 'a iloop_scheme option) \<Rightarrow> addr \<Rightarrow> u32 \<Rightarrow> 'a iloop_scheme \<Rightarrow> 'a iloop_scheme option" where
  "io_invoke iocb w events s = iocb (w_cb (io s w)) w events (s\<lparr>trace := trace s @ [Io_cb w events]\<rparr>)"

partial_function (option) pending_loop ::
    "(io_cb \<Rightarrow> addr \<Rightarrow> u32 \<Rightarrow> 'a iloop_scheme \<Rightarrow> 'a iloop_scheme option) \<Rightarrow> 'a iloop_scheme \<Rightarrow> 'a iloop_scheme option" where
  "pending_loop iocb s =
     (case pending_local s of
        [] \<Rightarrow> Some s
      | w # q \<Rightarrow>
          Option.bind (io_invoke iocb w POLLOUT
              (upd_io w (\<lambda>r. r\<lparr>w_linked := False\<rparr>) (s\<lparr>pending_local := q\<rparr>)))
            (pending_loop iocb))"

definition uv__run_pending ::
    "(io_cb \<Rightarrow> addr \<Rightarrow> u32 \<Rightarrow> 'a iloop_scheme \<Rightarrow> 'a iloop_scheme option) \<Rightarrow> 'a iloop_scheme \<Rightarrow> (int \<times> 'a iloop_scheme) option" where
  "uv__run_pending iocb s =
     (if pending_queue s = [] then Some (0, s)
      else map_option (Pair 1) (pending_loop iocb (s\<lparr>pending_local := pending_queue s, pending_queue := []\<rparr>)))"

section \<open>Polling\<close>

abbreviation (input) max_safe_timeout :: int where "max_safe_timeout \<equiv> 1789569"

text \<open>\<open>sizeof(int32_t) == sizeof(long)\<close> fails on the 64-bit Linux this models.\<close>

definition long_is_32 :: bool where
  "long_is_32 = False"

definition epoll_add_or_mod :: "addr \<Rightarrow> 'a iloop_scheme \<Rightarrow> 'a iloop_scheme option" where
  "epoll_add_or_mod w s = do {
     require (w_pevents (io s w) \<noteq> 0 \<and> w_fd (io s w) \<ge> 0 \<and> w_fd (io s w) < int (unat (nwatchers s)));
     let ev = w_pevents (io s w);
     let fd = w_fd (io s w);
     let op = (if w_events (io s w) = 0 then EPOLL_CTL_ADD else EPOLL_CTL_MOD);
     (r, s) \<leftarrow> syscall (Epoll_ctl (backend_fd s) op fd ev) s;
     s \<leftarrow> (if r_ret r \<noteq> 0 then do {
         require (errno s = EEXIST \<and> op = EPOLL_CTL_ADD);
         (r, s) \<leftarrow> syscall (Epoll_ctl (backend_fd s) EPOLL_CTL_MOD fd ev) s;
         require (r_ret r = 0);
         Some s
       } else Some s);
     Some (upd_io w (\<lambda>r. r\<lparr>w_events := w_pevents r\<rparr>) s)
   }"

text \<open>The loop over \<open>loop->watcher_queue\<close>; no callback runs in it, so it is the recursion on the queue.\<close>

fun poll_register :: "addr list \<Rightarrow> 'a iloop_scheme \<Rightarrow> 'a iloop_scheme option" where
  "poll_register [] s = Some s"
| "poll_register (w # q) s = do {
     let s = s\<lparr>watcher_queue := q\<rparr>;
     s \<leftarrow> epoll_add_or_mod w s;
     poll_register q s
   }"

text \<open>What a watcher is told of the events the kernel reports.\<close>

definition user_events :: "u32 \<Rightarrow> u32 \<Rightarrow> u32" where
  "user_events reported pevents =
     (let ev = reported AND (pevents OR POLLERR OR POLLHUP)
      in if ev = POLLERR \<or> ev = POLLHUP then ev OR (pevents AND (POLLIN OR POLLOUT)) else ev)"

text \<open>
  One event of the array, and the loop over the array: \<open>i\<close> is the index, \<open>n\<close> the number of events
  left.  The events are read from the state, since a callback may invalidate those to come.
\<close>

definition poll_dispatch_one ::
    "(io_cb \<Rightarrow> addr \<Rightarrow> u32 \<Rightarrow> 'a iloop_scheme \<Rightarrow> 'a iloop_scheme option) \<Rightarrow> nat \<Rightarrow> bool \<times> nat \<Rightarrow>
     'a iloop_scheme \<Rightarrow> ((bool \<times> nat) \<times> 'a iloop_scheme) option" where
  "poll_dispatch_one iocb i acc s = do {
     evs \<leftarrow> poll_events s;
     let (fd, reported) = evs ! i;
     if fd = - 1 then Some (acc, s)
     else do {
       require (fd \<ge> 0 \<and> fd < int (unat (nwatchers s)));
       cell \<leftarrow> watcher_at fd s;
       case cell of
         None \<Rightarrow> do { (_, s) \<leftarrow> syscall (Epoll_ctl (backend_fd s) EPOLL_CTL_DEL fd reported) s; Some (acc, s) }
       | Some w \<Rightarrow> do {
           let ev = user_events reported (w_pevents (io s w));
           if ev \<noteq> 0 then
             (if w = signal_io_watcher s then Some ((True, Suc (snd acc)), s)
              else do { s \<leftarrow> io_invoke iocb w ev s; Some ((fst acc, Suc (snd acc)), s) })
           else Some (acc, s)
         }
     }
   }"

fun poll_dispatch ::
    "(io_cb \<Rightarrow> addr \<Rightarrow> u32 \<Rightarrow> 'a iloop_scheme \<Rightarrow> 'a iloop_scheme option) \<Rightarrow> nat \<Rightarrow> nat \<Rightarrow> bool \<times> nat \<Rightarrow>
     'a iloop_scheme \<Rightarrow> ((bool \<times> nat) \<times> 'a iloop_scheme) option" where
  "poll_dispatch iocb 0 i acc s = Some (acc, s)"
| "poll_dispatch iocb (Suc n) i acc s = do {
     (acc, s) \<leftarrow> poll_dispatch_one iocb i acc s;
     poll_dispatch iocb n (Suc i) acc s
   }"

text \<open>The system call, with the fallback between \<open>epoll_wait\<close> and \<open>epoll_pwait\<close>; -1 is a failure.\<close>

definition poll_wait :: "u64 \<Rightarrow> int \<Rightarrow> 'a iloop_scheme \<Rightarrow> (int \<times> (int \<times> u32) list \<times> 'a iloop_scheme) option" where
  "poll_wait sigmask timeout s = do {
     s \<leftarrow> (if sigmask \<noteq> 0 \<and> no_epoll_pwait s
         then do { (r, s) \<leftarrow> syscall (Sigmask 0) s; require (r_ret r = 0); Some s } else Some s);
     (r, s) \<leftarrow> (if no_epoll_wait s \<or> (sigmask \<noteq> 0 \<and> \<not> no_epoll_pwait s) then do {
         (r, s) \<leftarrow> syscall (Epoll_pwait (backend_fd s) timeout sigmask) s;
         Some (r, if r_ret r = - 1 \<and> errno s = ENOSYS then s\<lparr>no_epoll_pwait := True\<rparr> else s)
       } else do {
         (r, s) \<leftarrow> syscall (Epoll_wait (backend_fd s) timeout) s;
         Some (r, if r_ret r = - 1 \<and> errno s = ENOSYS then s\<lparr>no_epoll_wait := True\<rparr> else s)
       });
     s \<leftarrow> (if sigmask \<noteq> 0 \<and> no_epoll_pwait s
         then do { (q, s) \<leftarrow> syscall (Sigmask 1) s; require (r_ret q = 0); Some s } else Some s);
     s \<leftarrow> save_errno uv__update_time s;
     Some (if r_ret r = - 1 then - 1 else int (length (r_events r)), r_events r, s)
   }"

definition int_of_u64 :: "u64 \<Rightarrow> int" where
  "int_of_u64 w = sint (ucast w :: u32)"

text \<open>\<open>update_timeout:\<close> the next timeout, or the end of the call.\<close>

definition update_timeout :: "u64 \<Rightarrow> int \<Rightarrow> int \<Rightarrow> 'a iloop_scheme \<Rightarrow> int option" where
  "update_timeout base timeout real_timeout s =
     (let real_timeout = real_timeout - int_of_u64 (loop_time s - base)
      in if real_timeout \<le> 0 then None else Some real_timeout)"

definition array_size :: nat where
  "array_size = 1024"

text \<open>
  One round of the loop: \<open>Inl\<close> is a \<open>return\<close>, \<open>Inr (count, timeout, real_timeout)\<close> another round
  with these values of the variables.
\<close>

definition poll_again :: "u64 \<Rightarrow> int \<Rightarrow> int \<Rightarrow> int \<Rightarrow> 'a iloop_scheme \<Rightarrow> ((unit + int \<times> int \<times> int) \<times> 'a iloop_scheme) option" where
  "poll_again base count timeout real_timeout s = do {
     require (timeout > 0);
     Some (case update_timeout base timeout real_timeout s of
             None \<Rightarrow> (Inl (), s)
           | Some t \<Rightarrow> (Inr (count, t, t), s))
   }"

definition poll_events_ready ::
    "(io_cb \<Rightarrow> addr \<Rightarrow> u32 \<Rightarrow> 'a iloop_scheme \<Rightarrow> 'a iloop_scheme option) \<Rightarrow> u64 \<Rightarrow> int \<Rightarrow> int \<Rightarrow> int \<Rightarrow>
     nat \<Rightarrow> (int \<times> u32) list \<Rightarrow> 'a iloop_scheme \<Rightarrow> ((unit + int \<times> int \<times> int) \<times> 'a iloop_scheme) option" where
  "poll_events_ready iocb base count timeout real_timeout n evs s = do {
     require (watchers s \<noteq> None);
     ((have_signals, nevents), s) \<leftarrow> poll_dispatch iocb n 0 (False, 0) (s\<lparr>poll_events := Some evs\<rparr>);
     s \<leftarrow> (if have_signals then io_invoke iocb (signal_io_watcher s) POLLIN s else Some s);
     let s = s\<lparr>poll_events := None\<rparr>;
     if have_signals then Some (Inl (), s)
     else if nevents \<noteq> 0 then
       Some (if n = array_size \<and> count - 1 \<noteq> 0 then Inr (count - 1, 0, real_timeout) else Inl (), s)
     else if timeout = 0 then Some (Inl (), s)
     else if timeout = - 1 then Some (Inr (count, timeout, real_timeout), s)
     else poll_again base count timeout real_timeout s
   }"

definition poll_round ::
    "(io_cb \<Rightarrow> addr \<Rightarrow> u32 \<Rightarrow> 'a iloop_scheme \<Rightarrow> 'a iloop_scheme option) \<Rightarrow> u64 \<Rightarrow> u64 \<Rightarrow> int \<Rightarrow> int \<Rightarrow> int \<Rightarrow>
     'a iloop_scheme \<Rightarrow> ((unit + int \<times> int \<times> int) \<times> 'a iloop_scheme) option" where
  "poll_round iocb sigmask base count timeout real_timeout s = do {
     let timeout = (if long_is_32 \<and> timeout \<ge> max_safe_timeout then max_safe_timeout else timeout);
     (n, evs, s) \<leftarrow> poll_wait sigmask timeout s;
     if n = 0 then do {
       require (timeout \<noteq> - 1);
       if timeout = 0 then Some (Inl (), s) else poll_again base count timeout real_timeout s
     }
     else if n = - 1 then
       (if errno s = ENOSYS then do {
          require (\<not> no_epoll_wait s \<or> \<not> no_epoll_pwait s);
          Some (Inr (count, timeout, real_timeout), s)
        }
        else do {
          require (errno s = EINTR);
          if timeout = - 1 then Some (Inr (count, timeout, real_timeout), s)
          else if timeout = 0 then Some (Inl (), s)
          else poll_again base count timeout real_timeout s
        })
     else poll_events_ready iocb base count timeout real_timeout (nat n) evs s
   }"

partial_function (option) poll_loop ::
    "(io_cb \<Rightarrow> addr \<Rightarrow> u32 \<Rightarrow> 'a iloop_scheme \<Rightarrow> 'a iloop_scheme option) \<Rightarrow> u64 \<Rightarrow> u64 \<Rightarrow> int \<Rightarrow> int \<Rightarrow> int \<Rightarrow>
     'a iloop_scheme \<Rightarrow> 'a iloop_scheme option" where
  "poll_loop iocb sigmask base count timeout real_timeout s =
     (case poll_round iocb sigmask base count timeout real_timeout s of
        None \<Rightarrow> None
      | Some p \<Rightarrow> (case fst p of
            Inl _ \<Rightarrow> Some (snd p)
          | Inr q \<Rightarrow> poll_loop iocb sigmask base (fst q) (fst (snd q)) (snd (snd q)) (snd p)))"

definition uv__io_poll ::
    "(io_cb \<Rightarrow> addr \<Rightarrow> u32 \<Rightarrow> 'a iloop_scheme \<Rightarrow> 'a iloop_scheme option) \<Rightarrow> int \<Rightarrow> 'a iloop_scheme \<Rightarrow> 'a iloop_scheme option" where
  "uv__io_poll iocb timeout s =
     (if nfds s = 0 then do { require (watcher_queue s = []); Some s }
      else do {
        s \<leftarrow> poll_register (watcher_queue s) s;
        let sigmask = (if loop_flags s AND UV_LOOP_BLOCK_SIGPROF \<noteq> 0 then push_bit 26 1 else 0);
        require (timeout \<ge> - 1);
        poll_loop iocb sigmask (loop_time s) 48 timeout timeout s
      })"

section \<open>The backend\<close>

definition uv__platform_loop_init :: "'a iloop_scheme \<Rightarrow> (int \<times> 'a iloop_scheme) option" where
  "uv__platform_loop_init s = do {
     (r, s) \<leftarrow> syscall (Epoll_create1 EPOLL_CLOEXEC) s;
     (fd, s) \<leftarrow> (if r_ret r = - 1 \<and> (errno s = ENOSYS \<or> errno s = EINVAL) then do {
         (r, s) \<leftarrow> syscall (Epoll_create 256) s;
         if r_ret r \<noteq> - 1 then do { (_, s) \<leftarrow> uv__cloexec (r_ret r) 1 s; Some (r_ret r, s) }
         else Some (- 1, s)
       } else Some (r_ret r, s));
     let s = s\<lparr>backend_fd := fd, inotify_fd := - 1\<rparr>;
     Some (if fd = - 1 then - errno s else 0, s)
   }"

definition uv__platform_loop_delete :: "'a iloop_scheme \<Rightarrow> 'a iloop_scheme option" where
  "uv__platform_loop_delete s =
     (if inotify_fd s = - 1 then Some s
      else do {
        s \<leftarrow> uv__io_stop (inotify_read_watcher s) POLLIN s;
        (_, s) \<leftarrow> uv__close (inotify_fd s) s;
        Some (s\<lparr>inotify_fd := - 1\<rparr>)
      })"

section \<open>The size of the watcher array\<close>

text \<open>Each step doubles the distance over which a set bit is copied downwards.\<close>

definition smeared :: "u32 \<Rightarrow> nat \<Rightarrow> u32 \<Rightarrow> bool" where
  "smeared v d w \<longleftrightarrow> (\<forall>i. bit w i \<longleftrightarrow> (\<exists>j < d. bit v (i + j)))"

lemma smeared_double:
  assumes "smeared v d w"
  shows "smeared v (2 * d) (w OR drop_bit d w)"
proof -
  have "(\<exists>j < d. bit v (i + j)) \<or> (\<exists>j < d. bit v (d + i + j)) \<longleftrightarrow> (\<exists>j < 2 * d. bit v (i + j))" for i
  proof
    assume "(\<exists>j < d. bit v (i + j)) \<or> (\<exists>j < d. bit v (d + i + j))"
    then show "\<exists>j < 2 * d. bit v (i + j)"
    proof
      assume "\<exists>j < d. bit v (d + i + j)"
      then obtain j where "j < d" "bit v (i + (d + j))" by (auto simp: ac_simps)
      then show ?thesis by (intro exI [of _ "d + j"]) simp
    next
      assume "\<exists>j < d. bit v (i + j)"
      then obtain j where "j < d" "bit v (i + j)" by blast
      then show ?thesis by (intro exI [of _ j]) simp
    qed
  next
    assume "\<exists>j < 2 * d. bit v (i + j)"
    then obtain j where j: "j < 2 * d" "bit v (i + j)" by blast
    show "(\<exists>j < d. bit v (i + j)) \<or> (\<exists>j < d. bit v (d + i + j))"
    proof (cases "j < d")
      case False
      then have "j - d < d" "bit v (d + i + (j - d))" using j by simp_all
      then show ?thesis by blast
    qed (use j in blast)
  qed
  then show ?thesis using assms by (simp add: smeared_def bit_or_iff bit_drop_bit_eq ac_simps)
qed

lemma smear32:
  "smeared v 32 (let w = v OR drop_bit 1 v; w = w OR drop_bit 2 w; w = w OR drop_bit 4 w;
      w = w OR drop_bit 8 w in w OR drop_bit 16 w)"
proof -
  have "smeared v 1 v" by (simp add: smeared_def)
  from smeared_double [OF smeared_double [OF smeared_double [OF smeared_double [OF smeared_double [OF this]]]]]
  show ?thesis by (simp add: Let_def)
qed

lemma smeared_mask:
  assumes s: "smeared v 32 w" and v: "2 ^ k \<le> unat v" "unat v < 2 ^ Suc k" and k: "k < 32"
  shows "w = mask (Suc k)"
proof (rule bit_word_eqI)
  fix n :: nat assume n: "n < LENGTH(32)"
  have vb: "bit v j \<longleftrightarrow> bit (unat v) j" for j by (simp add: bit_unsigned_iff)
  have top: "bit v k"
  proof -
    have "unat v div 2 ^ k = 1" using v by (simp add: div_nat_eqI)
    then show ?thesis using vb by (simp add: bit_iff_odd)
  qed
  have above: "\<not> bit v j" if "k < j" for j
  proof -
    have "unat v < 2 ^ j" using v(2) that by (meson Suc_leI less_le_trans one_le_numeral power_increasing)
    then show ?thesis using vb by (simp add: bit_iff_odd)
  qed
  show "bit w n = bit (mask (Suc k) :: u32) n"
  proof (cases "n \<le> k")
    case True
    then have "bit v (n + (k - n))" "k - n < 32" using top k by simp_all
    then show ?thesis using s True n by (auto simp: smeared_def bit_mask_iff)
  next
    case False
    then show ?thesis using s above by (auto simp: smeared_def bit_mask_iff)
  qed
qed

lemma next_power_of_two_value:
  assumes "2 \<le> unat v" "2 ^ k < unat v" "unat v \<le> 2 ^ Suc k" "k < 31"
  shows "unat (next_power_of_two v) = 2 ^ Suc k"
proof -
  have u: "unat (v - 1) = unat v - 1" using assms(1) by (simp add: unat_sub word_le_nat_alt)
  have "next_power_of_two v = mask (Suc k) + 1"
    using smeared_mask [OF smear32, of k "v - 1"] assms u by (simp add: next_power_of_two_def Let_def)
  also have "\<dots> = 2 ^ Suc k" by (simp add: mask_eq_exp_minus_1)
  also have "unat (2 ^ Suc k :: u32) = 2 ^ Suc k"
  proof -
    have "(2 :: nat) ^ Suc k < 2 ^ 32" using assms(4) by (intro power_strict_increasing) auto
    moreover have "unat (of_nat (2 ^ Suc k) :: u32) = 2 ^ Suc k mod 2 ^ 32" by (subst unat_of_nat) simp
    moreover have "of_nat (2 ^ Suc k) = (2 ^ Suc k :: u32)" by (simp only: of_nat_power of_nat_numeral)
    ultimately show ?thesis by (simp only: mod_less)
  qed
  finally show ?thesis .
qed
lemma next_power_of_two_bounds:
  assumes "2 \<le> unat v" "unat v \<le> 2 ^ 31"
  shows "\<exists>k. unat (next_power_of_two v) = 2 ^ k \<and> unat v \<le> 2 ^ k \<and> 2 ^ k < 2 * unat v"
proof -
  have "1 \<le> unat v - 1" using assms(1) by simp
  then obtain k where k: "2 ^ k \<le> unat v - 1" "unat v - 1 < 2 ^ (k + 1)"
    using ex_power_ivl1 [of 2 "unat v - 1"] by auto
  have "(2 :: nat) ^ k < 2 ^ 31" using k(1) assms by simp
  then have "k < 31" by (simp only: power_strict_increasing_iff)
  then have "unat (next_power_of_two v) = 2 ^ Suc k" using k assms by (intro next_power_of_two_value) auto
  then show ?thesis using k assms by (intro exI [of _ "Suc k"]) auto
qed

section \<open>The invariant\<close>

text \<open>
  The array has a cell for every descriptor below \<open>nwatchers\<close>; a watcher in a cell has that
  descriptor and wants events; \<open>nfds\<close> counts the cells in use; and the watchers to be told to epoll
  are in their cells, so that the assertions of \<open>uv__io_poll\<close> hold.
\<close>

definition cells :: "'a iloop_scheme \<Rightarrow> ptr list" where
  "cells s = (case watchers s of None \<Rightarrow> [] | Some ws \<Rightarrow> ws)"

definition used :: "ptr list \<Rightarrow> nat set" where
  "used ws = {i. i < length ws \<and> ws ! i \<noteq> None}"

definition cells_ok :: "'a iloop_scheme \<Rightarrow> bool" where
  "cells_ok s \<longleftrightarrow> length (cells s) = unat (nwatchers s)
     \<and> (\<forall>i < length (cells s). \<forall>w. cells s ! i = Some w \<longrightarrow> w_fd (io s w) = int i \<and> w_pevents (io s w) \<noteq> 0)
     \<and> nfds s = of_nat (card (used (cells s)))"

definition queue_ok :: "'a iloop_scheme \<Rightarrow> bool" where
  "queue_ok s \<longleftrightarrow> distinct (watcher_queue s)
     \<and> (\<forall>w \<in> set (watcher_queue s). w_fd (io s w) \<ge> 0 \<and> watcher_at (w_fd (io s w)) s = Some (Some w))"

definition io_ok :: "'a iloop_scheme \<Rightarrow> bool" where
  "io_ok s \<longleftrightarrow> cells_ok s \<and> queue_ok s"

lemma used_finite [simp]: "finite (used ws)"
  by (simp add: used_def)

lemma used_update:
  "k < length ws \<Longrightarrow> used (ws[k := Some w]) = insert k (used ws)"
  "k < length ws \<Longrightarrow> used (ws[k := None]) = used ws - {k}"
  by (auto simp: used_def nth_list_update)

lemma used_append: "used (ws @ replicate n None) = used ws"
proof (rule set_eqI)
  show "i \<in> used (ws @ replicate n None) \<longleftrightarrow> i \<in> used ws" for i
    by (cases "i < length ws") (auto simp: used_def nth_append)
qed

lemma watcher_at_cells:
  "watcher_at fd s = Some c \<longleftrightarrow> 0 \<le> fd \<and> nat fd < length (cells s) \<and> c = cells s ! nat fd"
  by (auto simp: watcher_at_def cells_def split: option.splits if_splits)

text \<open>The table has room for the descriptor, or can grow.\<close>

definition has_room :: "u32 \<Rightarrow> 'a iloop_scheme \<Rightarrow> bool" where
  "has_room len s \<longleftrightarrow> len \<le> nwatchers s \<or> realloc_gives s (table_bytes len)"

definition room_for :: "addr \<Rightarrow> 'a iloop_scheme \<Rightarrow> bool" where
  "room_for w s \<longleftrightarrow> has_room (of_int (w_fd (io s w) + 1)) s"

lemma maybe_resize_None: "maybe_resize len s = None \<longleftrightarrow> \<not> has_room len s"
  by (simp add: maybe_resize_def has_room_def require_def Let_def)

lemma maybe_resize_ok:
  assumes ok: "io_ok s" and len: "unat len + 2 \<le> 2 ^ 31" and room: "has_room len s"
  shows "\<exists>t. maybe_resize len s = Some t \<and> io_ok t \<and> unat len \<le> length (cells t) \<and> (\<exists>n. cells t = cells s @ replicate n None)
    \<and> io t = io s \<and> watcher_queue t = watcher_queue s \<and> nfds t = nfds s"
proof (cases "len \<le> nwatchers s")
  case True
  then have "maybe_resize len s = Some s" by (simp add: maybe_resize_def)
  moreover have "unat len \<le> length (cells s)" using True ok by (auto simp: io_ok_def cells_ok_def word_le_nat_alt)
  moreover have "cells s = cells s @ replicate 0 None" by simp
  ultimately show ?thesis using ok by blast
next
  case False
  let ?n = "next_power_of_two (len + 2) - 2"
  let ?t = "s\<lparr>watchers := Some ((case watchers s of None \<Rightarrow> [] | Some ws \<Rightarrow> ws) @ replicate (unat ?n - unat (nwatchers s)) None), nwatchers := ?n\<rparr>"
  have run: "maybe_resize len s = Some ?t" using False room by (simp add: maybe_resize_def has_room_def require_def Let_def)
  have "unat (len + 2) = unat len + 2" using len by (simp add: unat_word_ariths)
  with next_power_of_two_bounds [of "len + 2"] len obtain k where
    k: "unat (next_power_of_two (len + 2)) = 2 ^ k" "unat len + 2 \<le> 2 ^ k" by auto
  then have n: "unat ?n = 2 ^ k - 2" "unat len \<le> unat ?n"
    by (simp_all add: unat_sub word_le_nat_alt)
  have c: "cells ?t = cells s @ replicate (unat ?n - unat (nwatchers s)) None" "nwatchers ?t = ?n"
    "io ?t = io s" "watcher_queue ?t = watcher_queue s" "nfds ?t = nfds s"
    using False by (auto simp: cells_def Let_def split: option.split)
  have small: "unat (nwatchers s) < unat ?n" using False n by (simp add: word_le_nat_alt)
  have len_t: "length (cells ?t) = unat ?n" using c small ok by (simp add: io_ok_def cells_ok_def queue_ok_def)
  have "watcher_at fd s = Some x \<Longrightarrow> watcher_at fd ?t = Some x" for fd x
    using c len_t by (auto simp: watcher_at_cells nth_append)
  then have "io_ok ?t"
    using ok c len_t by (auto simp: io_ok_def cells_ok_def queue_ok_def used_append nth_append split: if_splits)
  then show ?thesis using run c n len_t by auto
qed

lemma set_watcher_cells [simp]:
  "cells (set_watcher fd p s) = (cells s)[nat fd := p]" "nwatchers (set_watcher fd p s) = nwatchers s"
  "io (set_watcher fd p s) = io s" "watcher_queue (set_watcher fd p s) = watcher_queue s"
  "nfds (set_watcher fd p s) = nfds s"
  by (simp_all add: set_watcher_def cells_def split: option.split)

lemma cells_simps [simp]:
  "cells (upd_io w f s) = cells s" "nwatchers (upd_io w f s) = nwatchers s" "nfds (upd_io w f s) = nfds s"
  "watcher_queue (upd_io w f s) = watcher_queue s" "watcher_at fd (upd_io w f s) = watcher_at fd s"
  "io (upd_io w f s) = (io s)(w := f (io s w))"
  "cells (s\<lparr>watcher_queue := q\<rparr>) = cells s" "watcher_at fd (s\<lparr>watcher_queue := q\<rparr>) = watcher_at fd s"
  "cells (s\<lparr>nfds := n\<rparr>) = cells s" "watcher_at fd (s\<lparr>nfds := n\<rparr>) = watcher_at fd s"
  by (simp_all add: upd_io_def cells_def watcher_at_def)

text \<open>
  A watcher that is open and alone on its descriptor: it is in its cell if it wants events, and
  otherwise the cell is empty and the kernel does not know it.
\<close>

definition may_watch :: "'a iloop_scheme \<Rightarrow> addr \<Rightarrow> bool" where
  "may_watch s w \<longleftrightarrow> 0 \<le> w_fd (io s w) \<and> w_fd (io s w) + 3 \<le> 2 ^ 31
     \<and> (if w_pevents (io s w) = 0
        then w_events (io s w) = 0 \<and> (nat (w_fd (io s w)) < length (cells s) \<longrightarrow> cells s ! nat (w_fd (io s w)) = None)
        else watcher_at (w_fd (io s w)) s = Some (Some w))"

lemma io_ok_events:
  assumes "io_ok s" "w_fd r = w_fd (io s w)" "w_pevents r \<noteq> 0"
  shows "io_ok (upd_io w (\<lambda>_. r) s)"
  using assms by (auto simp: io_ok_def cells_ok_def queue_ok_def)

lemma or_nonzero: "(e :: u32) \<noteq> 0 \<Longrightarrow> p OR e \<noteq> 0"
  by (metis bit.disj_zero_right word_bw_assocs(2) word_bw_same(2) or.assoc or.idem or.right_idem or_eq_0_iff)

lemma fd_word: "0 \<le> fd \<Longrightarrow> fd + 3 \<le> 2 ^ 31 \<Longrightarrow> unat (of_int (fd + 1) :: u32) = Suc (nat fd)"
proof -
  assume "0 \<le> fd" "fd + 3 \<le> 2 ^ 31"
  then have "unat (of_nat (Suc (nat fd)) :: u32) = Suc (nat fd)"
    by (simp add: unat_of_nat take_bit_nat_eq_self nat_less_iff del: of_nat_Suc)
  moreover have "(of_int (fd + 1) :: u32) = of_nat (Suc (nat fd))"
    using \<open>0 \<le> fd\<close> by (simp add: of_nat_nat)
  ultimately show ?thesis by (simp only:)
qed

lemma enter_cell_ok:
  assumes ok: "cells_ok s" and fd: "0 \<le> w_fd (io s w)" "nat (w_fd (io s w)) < length (cells s)"
    and cell: "cells s ! nat (w_fd (io s w)) \<in> {None, Some w}" and pev: "w_pevents (io s w) \<noteq> 0"
  shows "\<exists>t. enter_cell w s = Some t \<and> io t = io s \<and> watcher_queue t = watcher_queue s \<and> cells_ok t
    \<and> cells t = (cells s)[nat (w_fd (io s w)) := Some w]"
proof -
  let ?i = "nat (w_fd (io s w))"
  let ?u = "(set_watcher (w_fd (io s w)) (Some w) s)\<lparr>nfds := nfds s + 1\<rparr>"
  have at: "watcher_at (w_fd (io s w)) s = Some (cells s ! ?i)" using fd by (simp add: watcher_at_cells)
  show ?thesis
  proof (cases "cells s ! ?i = None")
    case False
    then have c: "cells s ! ?i = Some w" using cell by auto
    then have "(cells s)[?i := Some w] = cells s" by (metis list_update_id)
    moreover have "enter_cell w s = Some s" using at c by (simp add: enter_cell_def)
    ultimately show ?thesis using ok by (intro exI [of _ s]) (simp only: simp_thms)
  next
    case True
    then have "?i \<notin> used (cells s)" by (simp add: used_def)
    then have n: "nfds ?u = of_nat (card (used (cells ?u)))"
    proof -
      have "nfds s = of_nat (card (used (cells s)))" using ok by (simp only: cells_ok_def)
      moreover have "used (cells ?u) = insert ?i (used (cells s))" using fd by (simp add: used_update)
      ultimately show ?thesis using \<open>?i \<notin> used (cells s)\<close> by simp
    qed
    have len: "length (cells s) = unat (nwatchers s)" using ok by (simp only: cells_ok_def)
    have "cells_ok ?u"
      unfolding cells_ok_def
    proof (intro conjI allI impI n)
      show "length (cells ?u) = unat (nwatchers ?u)" using len by simp
      fix j v assume j: "j < length (cells ?u)" "cells ?u ! j = Some v"
      have "w_fd (io s v) = int j \<and> w_pevents (io s v) \<noteq> 0"
      proof (cases "j = ?i")
        case True
        then have "v = w" using j by simp
        then show ?thesis using True fd pev by simp
      next
        case False
        then have "cells s ! j = Some v" using j by simp
        then show ?thesis using j(1) ok by (simp add: cells_ok_def)
      qed
      then show "w_fd (io ?u v) = int j" "w_pevents (io ?u v) \<noteq> 0" by simp_all
    qed
    moreover have "enter_cell w s = Some ?u" using at True by (simp add: enter_cell_def)
    ultimately show ?thesis by (intro exI [of _ ?u]) simp
  qed
qed

lemma io_start_ok:
  assumes ok: "io_ok s" and w: "may_watch s w" and ev: "events AND NOT io_mask = 0" "events \<noteq> 0" and room: "room_for w s"
  shows "\<exists>t. uv__io_start w events s = Some t \<and> io_ok t
    \<and> io t = (io s)(w := (io s w)\<lparr>w_pevents := w_pevents (io s w) OR events\<rparr>)
    \<and> (w_events (io s w) \<noteq> w_pevents (io t w) \<longrightarrow> w \<in> set (watcher_queue t)) \<and> may_watch t w"
proof -
  let ?fd = "w_fd (io s w)"
  let ?r = "(io s w)\<lparr>w_pevents := w_pevents (io s w) OR events\<rparr>"
  let ?s1 = "upd_io w (\<lambda>r. r\<lparr>w_pevents := w_pevents r OR events\<rparr>) s"
  define len where "len = (of_int (?fd + 1) :: u32)"
  have len: "unat len = Suc (nat ?fd)" "Suc (nat ?fd) + 2 \<le> 2 ^ 31"
    using w fd_word [of ?fd] by (auto simp: may_watch_def len_def simp del: of_int_add)
  have pev: "w_pevents ?r \<noteq> 0" using or_nonzero ev(2) by simp
  have "?s1 = upd_io w (\<lambda>_. ?r) s" by (simp add: upd_io_def)
  then have "io_ok ?s1" using io_ok_events [OF ok, of ?r w] pev by simp
  moreover have "has_room len ?s1" using room by (simp add: room_for_def has_room_def len_def upd_io_def)
  ultimately obtain s2 where run2: "maybe_resize len ?s1 = Some s2" and
    s2: "io_ok s2" "Suc (nat ?fd) \<le> length (cells s2)" "\<exists>n. cells s2 = cells s @ replicate n None"
      "io s2 = (io s)(w := ?r)" "watcher_queue s2 = watcher_queue s"
    using maybe_resize_ok [of ?s1 len] len by auto
  have asserts: "?fd < int INT_MAX" "0 \<le> ?fd" using w by (auto simp: may_watch_def)
  show ?thesis
  proof (cases "w_events (io s w) = w_pevents ?r")
    case True
    then have "uv__io_start w events s = Some s2"
      using ev asserts s2(4) pev run2 by (simp add: uv__io_start_def Let_def flip: len_def del: of_int_add)
    moreover have "may_watch s2 w"
    proof -
      have "w_pevents (io s w) \<noteq> 0" using True pev w by (auto simp: may_watch_def)
      then have "watcher_at ?fd s = Some (Some w)" using w by (simp add: may_watch_def)
      then have "watcher_at ?fd s2 = Some (Some w)" using s2(3) by (auto simp: watcher_at_cells nth_append)
      then show ?thesis using w pev s2(4) by (auto simp: may_watch_def)
    qed
    ultimately show ?thesis using True s2 by simp
  next
    case False
    let ?s3 = "if w \<notin> set (watcher_queue s2) then s2\<lparr>watcher_queue := watcher_queue s2 @ [w]\<rparr> else s2"
    have s3: "io ?s3 = (io s)(w := ?r)" "cells ?s3 = cells s2" "cells_ok ?s3" "distinct (watcher_queue ?s3)"
      "set (watcher_queue ?s3) = insert w (set (watcher_queue s))"
      using s2(1,4,5) by (auto simp: io_ok_def cells_ok_def queue_ok_def)
    have cell: "cells s2 ! nat ?fd \<in> {None, Some w}"
    proof -
      obtain n where n: "cells s2 = cells s @ replicate n None" using s2(3) by blast
      then show ?thesis using w s2(2) by (cases "nat ?fd < length (cells s)") (auto simp: may_watch_def nth_append watcher_at_cells split: if_splits)
    qed
    from enter_cell_ok [OF s3(3), of w] obtain t where t: "enter_cell w ?s3 = Some t" "io t = io ?s3"
      "watcher_queue t = watcher_queue ?s3" "cells_ok t" "cells t = (cells s2)[nat ?fd := Some w]"
      using s3(1,2) cell s2(2) asserts pev by auto
    have run: "uv__io_start w events s = Some t"
      using ev asserts s2(4) False t(1) run2
      by (cases "w \<in> set (watcher_queue s2)") (simp_all add: uv__io_start_def Let_def flip: len_def del: of_int_add)
    have "w_fd (io t v) \<ge> 0 \<and> watcher_at (w_fd (io t v)) t = Some (Some v)" if "v \<in> set (watcher_queue t)" for v
    proof (cases "v = w")
      case True
      then show ?thesis using t(2,5) s3(1) asserts s2(2) by (simp add: watcher_at_cells)
    next
      case False
      then have "v \<in> set (watcher_queue s2)" using that t(3) s3(5) s2(5) by simp
      then have "w_fd (io s2 v) \<ge> 0" "watcher_at (w_fd (io s2 v)) s2 = Some (Some v)"
        using s2(1) by (auto simp: io_ok_def queue_ok_def)
      then have v: "0 \<le> w_fd (io s v)" "nat (w_fd (io s v)) < length (cells s2)" "cells s2 ! nat (w_fd (io s v)) = Some v"
        using False s2(4) by (auto simp: watcher_at_cells)
      then have "nat (w_fd (io s v)) \<noteq> nat ?fd" using False cell by auto
      then have "cells t ! nat (w_fd (io s v)) = Some v" using v t(5) by simp
      then show ?thesis using False v t(2,5) s3(1) by (simp add: watcher_at_cells)
    qed
    then have "io_ok t" using t(3,4) s3(4) by (simp add: io_ok_def queue_ok_def)
    moreover have "may_watch t w"
    proof -
      have "watcher_at ?fd t = Some (Some w)" using t(5) s2(2) asserts by (simp add: watcher_at_cells)
      then show ?thesis using w pev t(2) s3(1) by (auto simp: may_watch_def)
    qed
    ultimately show ?thesis using run t(2,3) s3(1,5) by simp
  qed
qed

lemma io_start_no_room:
  assumes "may_watch s w" "\<not> room_for w s"
  shows "uv__io_start w events s = None"
proof -
  have "maybe_resize (of_int (w_fd (io s w) + 1)) (upd_io w (\<lambda>r. r\<lparr>w_pevents := w_pevents r OR events\<rparr>) s) = None"
    using assms(2) by (simp add: maybe_resize_None room_for_def has_room_def upd_io_def)
  then show ?thesis by (simp add: uv__io_start_def Let_def require_def del: of_int_add)
qed

lemma nfds_positive:
  assumes "cells_ok s" "i < length (cells s)" "cells s ! i = Some w"
  shows "nfds s > 0"
proof -
  have "i \<in> used (cells s)" using assms by (simp add: used_def)
  then have "0 < card (used (cells s))" by (auto simp: card_gt_0_iff)
  moreover have "card (used (cells s)) \<le> length (cells s)"
  proof -
    have "used (cells s) \<subseteq> {..< length (cells s)}" by (auto simp: used_def)
    then show ?thesis using card_mono [of "{..< length (cells s)}"] by simp
  qed
  moreover have "unat (nwatchers s) < 2 ^ 32" using unsigned_less [of "nwatchers s", where 'a = nat] by simp
  ultimately have "unat (nfds s) > 0"
    using assms(1) by (simp add: cells_ok_def unat_of_nat take_bit_nat_eq_self)
  then show ?thesis by (simp add: word_less_nat_alt)
qed

lemma leave_cell_ok:
  assumes ok: "cells_ok s" and i: "0 \<le> fd" "nat fd < length (cells s)" and w: "cells s ! nat fd = Some w"
  shows "cells_ok (upd_io w f ((set_watcher fd None s)\<lparr>nfds := nfds s - 1\<rparr>))"
proof -
  let ?t = "upd_io w f ((set_watcher fd None s)\<lparr>nfds := nfds s - 1\<rparr>)"
  have c: "cells ?t = (cells s)[nat fd := None]" by simp
  show ?thesis
    unfolding cells_ok_def
  proof (intro conjI allI impI)
    show "length (cells ?t) = unat (nwatchers ?t)" using ok by (simp add: cells_ok_def)
    have "nat fd \<in> used (cells s)" using i w by (simp add: used_def)
    then have "(of_nat (card (used (cells s))) :: u32) = of_nat (card (used (cells s) - {nat fd})) + 1"
      using card_remove_of_nat [of "used (cells s)" "nat fd"] by simp
    then show "nfds ?t = of_nat (card (used (cells ?t)))"
      using ok i by (simp add: cells_ok_def used_update)
    fix j v assume j: "j < length (cells ?t)" "cells ?t ! j = Some v"
    then have "j \<noteq> nat fd" using i by auto
    then have v: "cells s ! j = Some v" using j by simp
    have at: "w_fd (io s w) = int (nat fd)" "w_fd (io s v) = int j" "w_pevents (io s v) \<noteq> 0"
      using ok i w j(1) v by (simp_all add: cells_ok_def)
    then have "v \<noteq> w" using \<open>j \<noteq> nat fd\<close> of_nat_eq_iff by metis
    then show "w_fd (io ?t v) = int j" "w_pevents (io ?t v) \<noteq> 0" using at by simp_all
  qed
qed

lemma io_stop_ok:
  assumes ok: "io_ok s" and w: "may_watch s w" and ev: "events AND NOT io_mask = 0" "events \<noteq> 0"
  shows "\<exists>t. uv__io_stop w events s = Some t \<and> io_ok t \<and> may_watch t w
    \<and> w_pevents (io t w) = w_pevents (io s w) AND NOT events \<and> (\<forall>v. v \<noteq> w \<longrightarrow> io t v = io s v)"
proof (cases "w_fd (io s w) \<ge> int (unat (nwatchers s))")
  case True
  have len: "length (cells s) = unat (nwatchers s)" using ok by (simp add: io_ok_def cells_ok_def)
  have "w_pevents (io s w) = 0"
  proof (rule ccontr)
    assume "w_pevents (io s w) \<noteq> 0"
    then have "watcher_at (w_fd (io s w)) s = Some (Some w)" using w by (simp add: may_watch_def)
    then have "nat (w_fd (io s w)) < unat (nwatchers s)" "0 \<le> w_fd (io s w)" using len by (auto simp: watcher_at_cells)
    then have "w_fd (io s w) < int (unat (nwatchers s))" by (simp only: nat_less_iff)
    then show False using True by linarith
  qed
  moreover have "uv__io_stop w events s = Some s"
    using True ev w by (auto simp: uv__io_stop_def may_watch_def)
  ultimately show ?thesis using ok w by simp
next
  case False
  let ?fd = "w_fd (io s w)"
  let ?p = "w_pevents (io s w) AND NOT events"
  let ?s1 = "upd_io w (\<lambda>r. r\<lparr>w_pevents := w_pevents r AND NOT events\<rparr>) s"
  let ?s2 = "?s1\<lparr>watcher_queue := remove1 w (watcher_queue s)\<rparr>"
  have pos: "0 \<le> ?fd" using w by (simp add: may_watch_def)
  moreover have "length (cells s) = unat (nwatchers s)" using ok by (simp add: io_ok_def cells_ok_def)
  moreover have "nat ?fd < unat (nwatchers s)" using False pos by (simp only: nat_less_iff not_le)
  ultimately have fd: "0 \<le> ?fd" "?fd \<noteq> - 1" "nat ?fd < length (cells s)" by simp_all
  have at_fd: "watcher_at ?fd s = Some (cells s ! nat ?fd)" using fd by (simp add: watcher_at_cells)
  have q: "distinct (watcher_queue s)" "\<forall>v \<in> set (watcher_queue s). 0 \<le> w_fd (io s v) \<and> watcher_at (w_fd (io s v)) s = Some (Some v)"
    using ok by (auto simp: io_ok_def queue_ok_def)
  show ?thesis
  proof (cases "?p = 0")
    case False
    then have "w_pevents (io s w) \<noteq> 0" by auto
    then have cell: "watcher_at ?fd s = Some (Some w)" using w by (simp add: may_watch_def)
    let ?t = "if w \<notin> set (watcher_queue s) then ?s1\<lparr>watcher_queue := watcher_queue s @ [w]\<rparr> else ?s1"
    have "uv__io_stop w events s = Some ?t"
      using fd ev \<open>\<not> ?fd \<ge> _\<close> False by (simp add: uv__io_stop_def Let_def)
    moreover have "cells_ok ?t" using ok False by (auto simp: io_ok_def cells_ok_def)
    moreover have "queue_ok ?t" using q cell fd False by (auto simp: queue_ok_def)
    moreover have "may_watch ?t w" using w cell False by (auto simp: may_watch_def)
    ultimately show ?thesis by (auto simp: io_ok_def)
  next
    case True
    show ?thesis
    proof (cases "cells s ! nat ?fd")
      case None
      then have pz: "w_pevents (io s w) = 0" "w_events (io s w) = 0"
        using w fd by (auto simp: may_watch_def watcher_at_cells split: if_splits)
      have out: "w \<notin> set (watcher_queue s)" using q None by (auto simp: watcher_at_cells)
      have same: "(io s w)\<lparr>w_pevents := w_pevents (io s w) AND NOT events\<rparr> = io s w"
        using pz(1) by (cases "io s w") simp
      have "?s2 = s" using out same by (simp add: remove1_idem upd_io_def)
      moreover have "uv__io_stop w events s = Some ?s2"
        using fd ev \<open>\<not> ?fd \<ge> _\<close> True None at_fd by (simp add: uv__io_stop_def Let_def)
      ultimately show ?thesis using ok w pz True by (intro exI [of _ s]) simp
    next
      case (Some v)
      then have v: "v = w"
        using w fd by (auto simp: may_watch_def watcher_at_cells split: if_splits)
      let ?t = "upd_io w (\<lambda>r. r\<lparr>w_events := 0\<rparr>) ((set_watcher ?fd None ?s2)\<lparr>nfds := nfds ?s2 - 1\<rparr>)"
      let ?f = "\<lambda>r. r\<lparr>w_pevents := ?p, w_events := 0\<rparr>"
      have cok: "cells_ok s" using ok by (simp add: io_ok_def)
      have run: "uv__io_stop w events s = Some ?t"
        using fd ev \<open>\<not> ?fd \<ge> _\<close> True Some v nfds_positive [OF cok fd(3) Some]
        at_fd by (simp add: uv__io_stop_def Let_def)
      have "cells_ok (upd_io w ?f ((set_watcher ?fd None s)\<lparr>nfds := nfds s - 1\<rparr>))"
        using leave_cell_ok [OF cok fd(1,3)] Some v by blast
      then have "cells_ok ?t" by (simp add: cells_ok_def)
      moreover have "queue_ok ?t"
        unfolding queue_ok_def
      proof (intro conjI ballI)
        show "distinct (watcher_queue ?t)" using q by simp
        fix u assume u: "u \<in> set (watcher_queue ?t)"
        then have "u \<noteq> w" "u \<in> set (watcher_queue s)" using q by auto
        then have at: "0 \<le> w_fd (io s u)" "nat (w_fd (io s u)) < length (cells s)" "cells s ! nat (w_fd (io s u)) = Some u"
          using q by (auto simp: watcher_at_cells)
        then have "nat (w_fd (io s u)) \<noteq> nat ?fd" using Some v \<open>u \<noteq> w\<close> by auto
        then have "cells ?t ! nat (w_fd (io s u)) = Some u" using at by simp
        then show "0 \<le> w_fd (io ?t u)" "watcher_at (w_fd (io ?t u)) ?t = Some (Some u)"
          using at \<open>u \<noteq> w\<close> by (simp_all add: watcher_at_cells)
      qed
      moreover have "may_watch ?t w" using w fd True by (simp add: may_watch_def)
      ultimately show ?thesis using run by (auto simp: io_ok_def)
    qed
  qed
qed

section \<open>Pending watchers and invalidated events\<close>

definition feeds_later :: "(io_cb \<Rightarrow> addr \<Rightarrow> u32 \<Rightarrow> 'a iloop_scheme \<Rightarrow> 'a iloop_scheme option) \<Rightarrow> bool" where
  "feeds_later iocb \<longleftrightarrow> (\<forall>c w e u. \<exists>v. iocb c w e u = Some v \<and> subseq (pending_local v) (pending_local u) \<and> trace v = trace u)"

lemma feed_local: "pending_local (uv__io_feed w s) = pending_local s" "trace (uv__io_feed w s) = trace s"
  by (simp_all add: uv__io_feed_def upd_io_def)

lemma pending_loop_ends:
  assumes "feeds_later iocb"
  shows "\<exists>t ws. pending_loop iocb s = Some t \<and> pending_local t = [] \<and> subseq ws (pending_local s)
    \<and> trace t = trace s @ map (\<lambda>w. Io_cb w POLLOUT) ws"
proof (induction "length (pending_local s)" arbitrary: s rule: less_induct)
  case less
  show ?case
  proof (cases "pending_local s")
    case Nil
    then show ?thesis by (subst pending_loop.simps) auto
  next
    case (Cons w q)
    let ?u = "upd_io w (\<lambda>r. r\<lparr>w_linked := False\<rparr>) (s\<lparr>pending_local := q\<rparr>)"
    let ?v = "?u\<lparr>trace := trace ?u @ [Io_cb w POLLOUT]\<rparr>"
    from assms obtain v where v: "iocb (w_cb (io ?u w)) w POLLOUT ?v = Some v"
      "subseq (pending_local v) (pending_local ?v)" "trace v = trace ?v"
      unfolding feeds_later_def by blast
    have inv: "io_invoke iocb w POLLOUT ?u = Some v" using v(1) by (simp add: io_invoke_def)
    have sub: "subseq (pending_local v) q" "trace v = trace s @ [Io_cb w POLLOUT]"
      using v by (simp_all add: upd_io_def)
    then have "length (pending_local v) < length (pending_local s)" using Cons list_emb_length [OF sub(1)] by simp
    from less [OF this] obtain t ws where t: "pending_loop iocb v = Some t" "pending_local t = []"
      "subseq ws (pending_local v)" "trace t = trace v @ map (\<lambda>w. Io_cb w POLLOUT) ws" by blast
    have "pending_loop iocb s = Some t"
      using Cons inv t(1) by (subst pending_loop.simps) simp
    moreover have "subseq (w # ws) (pending_local s)"
      using subseq_order.order_trans [OF t(3) sub(1)] Cons by simp
    ultimately show ?thesis using t(2,4) sub(2) by (intro exI [of _ t] exI [of _ "w # ws"]) simp
  qed
qed

lemma invalidate_events:
  assumes "uv__platform_invalidate_fd fd s = Some t"
  shows "poll_events t = map_option (map (\<lambda>(d, e). if d = fd then (- 1, e) else (d, e))) (poll_events s)"
  using assms by (auto simp: uv__platform_invalidate_fd_def syscall_def Let_def Option.bind_eq_Some_conv
      split: if_splits list.splits)

lemma poll_events_simps [simp]:
  "poll_events (upd_io w f s) = poll_events s" "poll_events (set_watcher fd p s) = poll_events s"
  by (simp_all add: upd_io_def set_watcher_def)

lemma wp_io_stop_frame: "wp (uv__io_stop w events s) (\<lambda>t. poll_events t = poll_events s \<and> w_fd (io t w) = w_fd (io s w))"
  by (simp add: uv__io_stop_def Let_def) (auto intro!: wpI)

lemmas io_stop_frame = wp_io_stop_frame [THEN wpD]

lemma wp_io_stop_room: "wp (uv__io_stop w events s) (\<lambda>t. \<forall>v. room_for v t = room_for v s)"
  by (simp add: uv__io_stop_def Let_def) (auto simp: room_for_def has_room_def upd_io_def set_watcher_def intro!: wpI)

lemmas io_stop_room = wp_io_stop_room [THEN wpD, rule_format]

section \<open>Properties\<close>

text \<open>\<open>next_power_of_two\<close> gives the least power of two that is not below its argument, for every
  argument from 2 to \<open>2 ^ 31\<close>.\<close>
theorem next_power_of_two_least:
  assumes "2 \<le> unat v" "unat v \<le> 2 ^ 31"
  shows "\<exists>k. unat (next_power_of_two v) = 2 ^ k \<and> unat v \<le> 2 ^ k \<and> 2 ^ k < 2 * unat v"
  using next_power_of_two_bounds [OF assms] .

theorem next_power_of_two_least_witness: "\<exists>k. unat (next_power_of_two 5) = 2 ^ k \<and> 5 \<le> (2 :: nat) ^ k"
  using next_power_of_two_least [of 5] by auto

text \<open>C16: starting and stopping the watcher of an open descriptor never fails an assertion or an
  array access, adds or removes exactly the events given, and keeps the invariant: a watcher with
  events is in the cell of its descriptor, \<open>nfds\<close> counts the cells in use, and a watcher whose events
  the kernel does not know yet is queued for it.  Starting ends the program in one case only: the table of watchers has
  no cell for the descriptor and there is no memory to let it grow.\<close>
theorem io_start_stop:
  assumes "io_ok s" "may_watch s w" "events AND NOT io_mask = 0" "events \<noteq> 0"
  shows "(room_for w s \<longrightarrow> (\<exists>t. uv__io_start w events s = Some t \<and> io_ok t \<and> may_watch t w
        \<and> io t = (io s)(w := (io s w)\<lparr>w_pevents := w_pevents (io s w) OR events\<rparr>)
        \<and> (w_events (io s w) \<noteq> w_pevents (io t w) \<longrightarrow> w \<in> set (watcher_queue t))))
    \<and> (\<not> room_for w s \<longrightarrow> uv__io_start w events s = None)
    \<and> (\<exists>t. uv__io_stop w events s = Some t \<and> io_ok t \<and> may_watch t w
        \<and> w_pevents (io t w) = w_pevents (io s w) AND NOT events \<and> (\<forall>v. v \<noteq> w \<longrightarrow> io t v = io s v))"
  using io_start_ok [OF assms] io_start_no_room [OF assms(2)] io_stop_ok [OF assms] by blast

definition io_fields :: "addr \<Rightarrow> int \<Rightarrow> 'a \<Rightarrow> 'a iloop_ext" where
  "io_fields w fd ext = iloop_ext (\<lambda>_. \<lparr>w_cb = uv__stream_io_cb, w_fd = fd, w_events = 0, w_pevents = 0, w_linked = False\<rparr>)
     None 0 0 [] [] [] None 5 0 99 (- 1) 98 (\<lambda>_. True) ext"

definition io_loop :: "reply list \<Rightarrow> addr \<Rightarrow> int \<Rightarrow> unit iloop_scheme" where
  "io_loop rs w fd = empty_tloop rs 0 (wloop_ext (\<lambda>_. []) (\<lambda>_. []) (\<lambda>_. None) (io_fields w fd ()))"

lemmas io_loop_defs = io_loop_def io_fields_def empty_tloop_def empty_loop_def

lemma io_loop_ok: "io_ok (io_loop rs w 7)" "may_watch (io_loop rs w 7) w"
  by (simp_all add: io_loop_defs io_ok_def cells_ok_def queue_ok_def may_watch_def cells_def used_def)

lemma io_loop_room: "room_for w (io_loop rs w 7)"
  by (simp add: io_loop_defs room_for_def has_room_def)

theorem io_start_stop_witness:
  "(\<exists>t. uv__io_start 1 POLLIN (io_loop [] 1 7) = Some t \<and> io_ok t \<and> w_pevents (io t 1) = POLLIN)
    \<and> uv__io_start 1 POLLIN ((io_loop [] 1 7)\<lparr>realloc_gives := \<lambda>_. False\<rparr>) = None"
proof -
  have m: "POLLIN AND NOT io_mask = 0" by (simp add: io_mask_def)
  moreover have "w_pevents (io (io_loop [] 1 7) 1) = 0" by (simp add: io_loop_defs)
  ultimately have "\<exists>t. uv__io_start 1 POLLIN (io_loop [] 1 7) = Some t \<and> io_ok t \<and> w_pevents (io t 1) = POLLIN"
    using io_start_stop [OF io_loop_ok, of POLLIN 1 "[]"] io_loop_room [of 1 "[]"] by fastforce
  moreover have "io_ok ((io_loop [] 1 7)\<lparr>realloc_gives := \<lambda>_. False\<rparr>)" "may_watch ((io_loop [] 1 7)\<lparr>realloc_gives := \<lambda>_. False\<rparr>) 1"
    "\<not> room_for 1 ((io_loop [] 1 7)\<lparr>realloc_gives := \<lambda>_. False\<rparr>)"
    by (simp_all add: io_loop_defs io_ok_def cells_ok_def queue_ok_def may_watch_def cells_def used_def room_for_def has_room_def)
  from io_start_stop [OF this(1,2) m] this(3) have "uv__io_start 1 POLLIN ((io_loop [] 1 7)\<lparr>realloc_gives := \<lambda>_. False\<rparr>) = None" by simp
  ultimately show ?thesis by blast
qed

text \<open>\<open>uv__run_pending\<close> ends even when callbacks feed watchers again: it calls each watcher that
  was pending when it began at most once, in the order they were fed, with \<open>POLLOUT\<close>; those fed
  meanwhile wait for the next call.\<close>
theorem run_pending_once:
  assumes "feeds_later iocb"
  shows "\<exists>r t ws. uv__run_pending iocb s = Some (r, t) \<and> subseq ws (pending_queue s)
    \<and> trace t = trace s @ map (\<lambda>w. Io_cb w POLLOUT) ws
    \<and> (r = 0 \<longleftrightarrow> pending_queue s = []) \<and> (pending_queue s \<noteq> [] \<longrightarrow> pending_local t = [])"
proof (cases "pending_queue s")
  case (Cons w q)
  from pending_loop_ends [OF assms, of "s\<lparr>pending_local := pending_queue s, pending_queue := []\<rparr>"] obtain t ws
    where "pending_loop iocb (s\<lparr>pending_local := pending_queue s, pending_queue := []\<rparr>) = Some t" "pending_local t = []"
      "subseq ws (pending_queue s)" "trace t = trace s @ map (\<lambda>w. Io_cb w POLLOUT) ws" by auto
  then show ?thesis using Cons by (auto simp: uv__run_pending_def)
qed (simp add: uv__run_pending_def)

theorem run_pending_once_witness:
  "\<exists>t ws. uv__run_pending (\<lambda>c w e u. Some (uv__io_feed w u)) (uv__io_feed 1 (io_loop [] 1 7)) = Some (1, t)
    \<and> pending_local t = [] \<and> subseq ws [1]"
proof -
  have "feeds_later (\<lambda>c w e u :: unit iloop_scheme. Some (uv__io_feed w u))"
    by (simp add: feeds_later_def feed_local)
  from run_pending_once [OF this, of "uv__io_feed 1 (io_loop [] 1 7)"] show ?thesis
    by (auto simp: uv__run_pending_def uv__io_feed_def upd_io_def io_loop_defs)
qed

text \<open>C15: once a watcher is closed, the events for its descriptor that the kernel reported before are
  passed over by the dispatch loop that is running: no callback sees them, even when another
  handle has got the same descriptor number since.\<close>
theorem closed_descriptor_silent:
  assumes "uv__io_close w s = Some t" "poll_events s = Some evs" "i < length evs" "fst (evs ! i) = w_fd (io s w)"
  shows "poll_dispatch_one iocb i acc t = Some (acc, t)"
proof -
  from assms(1) obtain u where u: "uv__io_stop w io_mask s = Some u"
    "uv__platform_invalidate_fd (w_fd (io u w))
      (u\<lparr>pending_queue := remove1 w (pending_queue u), pending_local := remove1 w (pending_local u)\<rparr>) = Some t"
    by (auto simp: uv__io_close_def Let_def Option.bind_eq_Some_conv)
  have "poll_events u = Some evs" "w_fd (io u w) = w_fd (io s w)" using io_stop_frame [OF u(1)] assms(2) by simp_all
  with invalidate_events [OF u(2)]
  have "poll_events t = Some (map (\<lambda>(d, e). if d = w_fd (io s w) then (- 1, e) else (d, e)) evs)" by simp
  moreover obtain e where "evs ! i = (w_fd (io s w), e)" using assms(4) by (cases "evs ! i") simp
  ultimately show ?thesis using assms(3) by (simp add: poll_dispatch_one_def)
qed

theorem closed_descriptor_silent_witness:
  "\<exists>t. uv__io_close 1 ((io_loop [ret 0] 1 7)\<lparr>watchers := Some [], poll_events := Some [(7, POLLIN)]\<rparr>) = Some t
    \<and> poll_dispatch_one (\<lambda>c w e u. None) 0 (False, 0) t = Some ((False, 0), t)"
proof -
  let ?s = "(io_loop [ret 0] 1 7)\<lparr>watchers := Some [], poll_events := Some [(7, POLLIN)]\<rparr>"
  have "\<exists>t. uv__io_close 1 ?s = Some t"
    by (simp add: uv__io_close_def uv__io_stop_def uv__platform_invalidate_fd_def io_loop_defs io_mask_def Let_def)
  then obtain t where "uv__io_close 1 ?s = Some t" by blast
  moreover have "w_fd (io ?s 1) = 7" by (simp add: io_loop_defs)
  ultimately show ?thesis using closed_descriptor_silent [of 1 ?s t "[(7, POLLIN)]" 0] by simp
qed

text \<open>A reply of the clock, in milliseconds.\<close>

definition clock_ms :: "nat \<Rightarrow> reply" where
  "clock_ms n = (ret 0)\<lparr>r_clock := (of_nat (n div 1000), of_nat (n mod 1000 * 1000000))\<rparr>"

definition interrupted_loop :: "reply list \<Rightarrow> unit iloop_scheme" where
  "interrupted_loop rs = (io_loop rs 1 7)\<lparr>fast_clock_id := 6\<rparr>"

lemma poll_loop_step:
  "poll_round iocb sigmask base count timeout real_timeout s = Some (Inl (), t)
    \<Longrightarrow> poll_loop iocb sigmask base count timeout real_timeout s = Some t"
  "poll_round iocb sigmask base count timeout real_timeout s = Some (Inr (c, t1, t2), t)
    \<Longrightarrow> poll_loop iocb sigmask base count timeout real_timeout s = poll_loop iocb sigmask base c t1 t2 t"
  by (subst poll_loop.simps, simp)+

lemmas poll_round_defs = poll_round_def poll_wait_def poll_again_def update_timeout_def long_is_32_def int_of_u64_def
  save_errno_def uv__update_time_def uv__hrtime_def

text \<open>a poll that signals interrupt twice ends too early: the time since the call began is
  subtracted from the remaining timeout at every interruption, while the base it is measured from is
  not moved.  With a timeout of 100 ms and signals after 40 and 60 ms, \<open>uv__io_poll\<close> returns after 60
  ms without an event.\<close>
theorem poll_interrupted_early:
  "\<exists>t. poll_loop iocb 0 0 48 100 100 (interrupted_loop [fail EINTR, clock_ms 40, fail EINTR, clock_ms 60]) = Some t
    \<and> loop_time t = 60 \<and> replies t = [] \<and> trace t = []"
proof -
  let ?s = "interrupted_loop [fail EINTR, clock_ms 40, fail EINTR, clock_ms 60]"
  let ?u = "?s\<lparr>replies := [fail EINTR, clock_ms 60], loop_time := 40, errno := EINTR,
      syscalls := [(Epoll_wait 5 100, - 1), (Clock_gettime 6, 0)]\<rparr>"
  have "poll_round iocb 0 0 48 100 100 ?s = Some (Inr (48, 60, 60), ?u)"
    by (simp add: poll_round_defs interrupted_loop_def io_loop_defs fail_def ret_def clock_ms_def Let_def)
  moreover have "\<exists>t. poll_round iocb 0 0 48 60 60 ?u = Some (Inl (), t) \<and> loop_time t = 60 \<and> replies t = [] \<and> trace t = []"
    by (simp add: poll_round_defs interrupted_loop_def io_loop_defs fail_def ret_def clock_ms_def Let_def)
  ultimately show ?thesis by (auto simp: poll_loop_step)
qed

end
