(* ===== verification/Inet.thy ===== *)
theory Inet
  imports Prelude
begin

unbundle bit_operations_syntax

text \<open>
  Printing and reading of IP addresses, \<open>src/inet.cpp\<close>.  An address is its list of bytes; a C string
  is the list of its characters without the final zero.  A function returns \<open>Inl\<close> the error code or
  \<open>Inr\<close> what it has written to its destination; nothing is written on an error.
\<close>

abbreviation (input) UV_ENOSPC :: int where "UV_ENOSPC \<equiv> - 28"
abbreviation (input) UV_EINVAL :: int where "UV_EINVAL \<equiv> - 22"
abbreviation (input) UV_EAFNOSUPPORT :: int where "UV_EAFNOSUPPORT \<equiv> - 97"
abbreviation (input) AF_INET :: int where "AF_INET \<equiv> 2"
abbreviation (input) AF_INET6 :: int where "AF_INET6 \<equiv> 10"
abbreviation (input) INET_ADDRSTRLEN :: nat where "INET_ADDRSTRLEN \<equiv> 16"
abbreviation (input) INET6_ADDRSTRLEN :: nat where "INET6_ADDRSTRLEN \<equiv> 46"

section \<open>What the C library provides\<close>

text \<open>\<open>strchr(s, c) - s\<close>, and the conversions \<open>%u\<close> and \<open>%x\<close> of \<open>printf\<close>.\<close>

fun strchr :: "string \<Rightarrow> char \<Rightarrow> nat option" where
  "strchr [] c = None"
| "strchr (d # ds) c = (if d = c then Some 0 else map_option Suc (strchr ds c))"

definition xdigits_l :: string where "xdigits_l = ''0123456789abcdef''"
definition xdigits_u :: string where "xdigits_u = ''0123456789ABCDEF''"
definition digits :: string where "digits = ''0123456789''"

function in_base :: "nat \<Rightarrow> nat \<Rightarrow> string" where
  "in_base b n = (if n < b \<or> b < 2 then [xdigits_l ! n] else in_base b (n div b) @ [xdigits_l ! (n mod b)])"
  by pat_completeness auto
termination by (relation "measure snd") (auto simp: div_less_dividend)

declare in_base.simps [simp del]

definition dec :: "nat \<Rightarrow> string" where "dec = in_base 10"
definition hex :: "nat \<Rightarrow> string" where "hex = in_base 16"

section \<open>Printing\<close>

definition dotted :: "u8 list \<Rightarrow> string" where
  "dotted src = dec (unat (src ! 0)) @ ''.'' @ dec (unat (src ! 1)) @ ''.'' @ dec (unat (src ! 2)) @ ''.'' @ dec (unat (src ! 3))"

text \<open>\<open>snprintf\<close> writes at most 15 characters to the buffer of 16, and returns how many it would have written.\<close>

definition inet_ntop4 :: "u8 list \<Rightarrow> nat \<Rightarrow> int + string" where
  "inet_ntop4 src dlen =
     (let l = length (dotted src);
          tmp = take (INET_ADDRSTRLEN - 1) (dotted src)
      in if l = 0 \<or> l \<ge> dlen then Inl UV_ENOSPC else Inr (take (dlen - 1) tmp))"

text \<open>The 16 bytes as 8 words.\<close>

fun ntop6_words :: "u8 list \<Rightarrow> u32 list" where
  "ntop6_words (a # b # src) = (push_bit 8 (ucast a) OR ucast b) # ntop6_words src"
| "ntop6_words _ = []"

text \<open>
  The search for the longest run of zero words: \<open>best\<close> and \<open>cur\<close> are the structs with members
  \<open>base\<close> and \<open>len\<close>.
\<close>

type_synonym run = "int \<times> int"

definition better_run :: "run \<Rightarrow> run \<Rightarrow> run" where
  "better_run best cur = (if fst best = - 1 \<or> snd cur > snd best then cur else best)"

definition scan_word :: "int \<Rightarrow> u32 \<Rightarrow> run \<times> run \<Rightarrow> run \<times> run" where
  "scan_word i w bc =
     (let (best, cur) = bc
      in if w = 0 then (if fst cur = - 1 then (best, (i, 1)) else (best, (fst cur, snd cur + 1)))
         else if fst cur \<noteq> - 1 then (better_run best cur, (- 1, snd cur))
         else (best, cur))"

fun scan_words :: "int \<Rightarrow> u32 list \<Rightarrow> run \<times> run \<Rightarrow> run \<times> run" where
  "scan_words i [] bc = bc"
| "scan_words i (w # ws) bc = scan_words (i + 1) ws (scan_word i w bc)"

definition best_run :: "u32 list \<Rightarrow> run" where
  "best_run words =
     (let (best, cur) = scan_words 0 words ((- 1, 0), (- 1, 0));
          best = (if fst cur \<noteq> - 1 then better_run best cur else best)
      in if fst best \<noteq> - 1 \<and> snd best < 2 then (- 1, snd best) else best)"

definition is_encapsulated :: "run \<Rightarrow> u32 list \<Rightarrow> bool" where
  "is_encapsulated best words \<longleftrightarrow>
     fst best = 0 \<and> (snd best = 6 \<or> (snd best = 7 \<and> words ! 7 \<noteq> 1) \<or> (snd best = 5 \<and> words ! 5 = 0xffff))"

text \<open>The loop that formats word \<open>i\<close> and those behind it; \<open>tp\<close> is what the buffer of 46 bytes holds so far.\<close>

fun format_words :: "run \<Rightarrow> u32 list \<Rightarrow> u8 list \<Rightarrow> int \<Rightarrow> u32 list \<Rightarrow> string \<Rightarrow> int + string" where
  "format_words best words src i [] tp = Inr tp"
| "format_words best words src i (w # ws) tp =
     (if fst best \<noteq> - 1 \<and> i \<ge> fst best \<and> i < fst best + snd best then
        format_words best words src (i + 1) ws (if i = fst best then tp @ '':'' else tp)
      else
        let tp = (if i \<noteq> 0 then tp @ '':'' else tp)
        in if i = 6 \<and> is_encapsulated best words then
             (case inet_ntop4 (drop 12 src) (INET6_ADDRSTRLEN - length tp) of
                Inl err \<Rightarrow> Inl err
              | Inr t \<Rightarrow> Inr (tp @ t))
           else format_words best words src (i + 1) ws (tp @ hex (unat w)))"

definition inet_ntop6 :: "u8 list \<Rightarrow> nat \<Rightarrow> int + string" where
  "inet_ntop6 src dlen =
     (let words = ntop6_words src; best = best_run words
      in case format_words best words src 0 words [] of
           Inl err \<Rightarrow> Inl err
         | Inr tp \<Rightarrow>
             let tp = (if fst best \<noteq> - 1 \<and> fst best + snd best = int (length words) then tp @ '':'' else tp)
             in if length tp + 1 > dlen then Inl UV_ENOSPC else Inr tp)"

definition uv_inet_ntop :: "int \<Rightarrow> u8 list \<Rightarrow> nat \<Rightarrow> int + string" where
  "uv_inet_ntop af src dlen =
     (if af = AF_INET then inet_ntop4 src dlen
      else if af = AF_INET6 then inet_ntop6 src dlen
      else Inl UV_EAFNOSUPPORT)"

section \<open>Reading\<close>

text \<open>\<open>octs\<close> are the bytes before \<open>*tp\<close>, and \<open>b\<close> is \<open>*tp\<close>.\<close>

fun pton4_loop :: "string \<Rightarrow> bool \<Rightarrow> nat \<Rightarrow> u8 list \<Rightarrow> u8 \<Rightarrow> int + u8 list" where
  "pton4_loop [] saw_digit octets octs b =
     (if octets < 4 then Inl UV_EINVAL else Inr (take 4 (octs @ [b])))"
| "pton4_loop (ch # src) saw_digit octets octs b =
     (case strchr digits ch of
        Some d \<Rightarrow>
          let nw = ucast b * 10 + of_nat d :: u32
          in if saw_digit \<and> b = 0 then Inl UV_EINVAL
             else if nw > 255 then Inl UV_EINVAL
             else if \<not> saw_digit then
               (if octets + 1 > 4 then Inl UV_EINVAL else pton4_loop src True (octets + 1) octs (ucast nw))
             else pton4_loop src True octets octs (ucast nw)
      | None \<Rightarrow>
          if ch = CHR ''.'' \<and> saw_digit then
            (if octets = 4 then Inl UV_EINVAL else pton4_loop src False octets (octs @ [b]) 0)
          else Inl UV_EINVAL)"

definition inet_pton4 :: "string \<Rightarrow> int + u8 list" where
  "inet_pton4 src = pton4_loop src False 0 [] 0"

definition xdigit :: "char \<Rightarrow> nat option" where
  "xdigit ch = (case strchr xdigits_l ch of Some d \<Rightarrow> Some d | None \<Rightarrow> strchr xdigits_u ch)"

definition word_bytes :: "u32 \<Rightarrow> u8 list" where
  "word_bytes val = [ucast (drop_bit 8 val) AND 0xff, ucast val AND 0xff]"

text \<open>
  The loop over the text.  \<open>tp\<close> is the part of the 16 bytes of \<open>tmp\<close> written so far, \<open>colonp\<close> the
  offset at which \<open>::\<close> stood; the result is these and \<open>seen_xdigits\<close> and \<open>val\<close>.
\<close>

fun pton6_loop :: "string \<Rightarrow> string \<Rightarrow> u8 list \<Rightarrow> nat option \<Rightarrow> nat \<Rightarrow> u32 \<Rightarrow> int + (u8 list \<times> nat option \<times> nat \<times> u32)" where
  "pton6_loop [] curtok tp colonp seen val = Inr (tp, colonp, seen, val)"
| "pton6_loop (ch # src) curtok tp colonp seen val =
     (case xdigit ch of
        Some d \<Rightarrow>
          if seen + 1 > 4 then Inl UV_EINVAL
          else pton6_loop src curtok tp colonp (seen + 1) (push_bit 4 val OR of_nat d)
      | None \<Rightarrow>
          if ch = CHR '':'' then
            (if seen = 0 then
               (if colonp \<noteq> None then Inl UV_EINVAL
                else pton6_loop src src tp (Some (length tp)) seen val)
             else if src = [] then Inl UV_EINVAL
             else if length tp + 2 > 16 then Inl UV_EINVAL
             else pton6_loop src src (tp @ word_bytes val) colonp 0 0)
          else if ch = CHR ''.'' \<and> length tp + 4 \<le> 16 then
            (case inet_pton4 curtok of
               Inl _ \<Rightarrow> Inl UV_EINVAL
             | Inr bs \<Rightarrow> Inr (tp @ bs, colonp, 0, val))
          else Inl UV_EINVAL)"

text \<open>
  The shift by hand: \<open>for (i = 1; i <= n; i++) { endp[-i] = colonp[n - i]; colonp[n - i] = 0; }\<close>
  with \<open>c\<close> the offset of \<open>colonp\<close>.
\<close>

fun shift_right :: "nat \<Rightarrow> nat \<Rightarrow> nat \<Rightarrow> u8 list \<Rightarrow> u8 list" where
  "shift_right c n 0 tmp = tmp"
| "shift_right c n (Suc i) tmp =
     (let tmp = shift_right c n i tmp;
          tmp = tmp[16 - Suc i := tmp ! (c + (n - Suc i))]
      in tmp[c + (n - Suc i) := 0])"

definition pton6_end :: "u8 list \<times> nat option \<times> nat \<times> u32 \<Rightarrow> int + u8 list" where
  "pton6_end st =
     (let (tp, colonp, seen, val) = st
      in if seen \<noteq> 0 \<and> length tp + 2 > 16 then Inl UV_EINVAL
         else
           let tp = (if seen \<noteq> 0 then tp @ word_bytes val else tp);
               tmp = tp @ replicate (16 - length tp) 0
           in case colonp of
                None \<Rightarrow> if length tp \<noteq> 16 then Inl UV_EINVAL else Inr tmp
              | Some c \<Rightarrow>
                  let n = length tp - c
                  in if length tp = 16 then Inl UV_EINVAL else Inr (shift_right c n n tmp))"

text \<open>A leading colon must be the first of two; the loop starts at the second.\<close>

definition inet_pton6 :: "string \<Rightarrow> int + u8 list" where
  "inet_pton6 src =
     (let start = (if src \<noteq> [] \<and> hd src = CHR '':'' then
                     (if tl src \<noteq> [] \<and> hd (tl src) = CHR '':'' then Some (tl src) else None)
                   else Some src)
      in case start of
           None \<Rightarrow> Inl UV_EINVAL
         | Some src \<Rightarrow>
             (case pton6_loop src src [] None 0 0 of
                Inl err \<Rightarrow> Inl err
              | Inr st \<Rightarrow> pton6_end st))"

text \<open>The text before a \<open>%\<close>, which starts the zone, is copied to a buffer of 46 bytes.\<close>

definition uv_inet_pton :: "int \<Rightarrow> string option \<Rightarrow> bool \<Rightarrow> int + u8 list" where
  "uv_inet_pton af src dst_null =
     (case src of
        None \<Rightarrow> Inl UV_EINVAL
      | Some src \<Rightarrow>
          if dst_null then Inl UV_EINVAL
          else if af = AF_INET then inet_pton4 src
          else if af = AF_INET6 then
            (case strchr src (CHR ''%'') of
               None \<Rightarrow> inet_pton6 src
             | Some len \<Rightarrow> if len > INET6_ADDRSTRLEN - 1 then Inl UV_EINVAL else inet_pton6 (take len src))
          else Inl UV_EAFNOSUPPORT)"

section \<open>Dotted addresses\<close>

lemma in_base_digit: "n < b \<Longrightarrow> in_base b n = [xdigits_l ! n]"
  by (subst in_base.simps) simp

lemma in_base_step: "b \<ge> 2 \<Longrightarrow> n > 0 \<Longrightarrow> d < b \<Longrightarrow> in_base b (n * b + d) = in_base b n @ [xdigits_l ! d]"
proof -
  assume a: "b \<ge> 2" "n > 0" "d < b"
  then have "b \<le> n * b" by simp
  then have "\<not> n * b + d < b" by linarith
  moreover have "(n * b + d) div b = n" "(n * b + d) mod b = d" using a by simp_all
  ultimately show ?thesis using a by (subst in_base.simps) simp
qed

lemma strchr_Some: "strchr s c = Some d \<Longrightarrow> d < length s \<and> s ! d = c"
  by (induction s c arbitrary: d rule: strchr.induct) (auto split: if_splits)

lemma strchr_None: "strchr s c = None \<Longrightarrow> c \<notin> set s"
  by (induction s c rule: strchr.induct) (auto split: if_splits)

lemma strchr_nth: "distinct s \<Longrightarrow> d < length s \<Longrightarrow> strchr s (s ! d) = Some d"
  by (induction s "s ! d" arbitrary: d rule: strchr.induct) (auto simp: nth_Cons' less_Suc_eq_0_disj)

lemma digits_prefix: "d < 10 \<Longrightarrow> xdigits_l ! d = digits ! d"
  by (simp add: xdigits_l_def digits_def nth_Cons' )

lemma distinct_digits [simp]: "distinct digits" "distinct xdigits_l" "length digits = 10" "length xdigits_l = 16"
  by (simp_all add: digits_def xdigits_l_def)

lemma strchr_digit [simp]: "d < 10 \<Longrightarrow> strchr digits (xdigits_l ! d) = Some d"
  using strchr_nth [of digits d] by (simp add: digits_prefix)

lemma strchr_digits_Some: "strchr digits c = Some d \<Longrightarrow> d < 10 \<and> c = xdigits_l ! d"
  using strchr_Some [of digits c d] by (auto simp: digits_prefix)

lemma strchr_dot [simp]: "strchr digits (CHR ''.'') = None"
  by (simp add: digits_def)

text \<open>One to three digits of a byte, without a leading zero.\<close>

lemma dec_cases:
  assumes "n < 256"
  obtains "n < 10" "dec n = [xdigits_l ! n]"
  | "10 \<le> n" "n < 100" "dec n = [xdigits_l ! (n div 10), xdigits_l ! (n mod 10)]"
  | "100 \<le> n" "dec n = [xdigits_l ! (n div 100), xdigits_l ! (n div 10 mod 10), xdigits_l ! (n mod 10)]"
proof -
  have step: "m \<ge> 10 \<Longrightarrow> dec m = dec (m div 10) @ [xdigits_l ! (m mod 10)]" for m
    unfolding dec_def by (subst in_base.simps) simp
  have one: "m < 10 \<Longrightarrow> dec m = [xdigits_l ! m]" for m
    by (simp add: dec_def in_base_digit)
  consider "n < 10" | "10 \<le> n" "n < 100" | "100 \<le> n" by linarith
  then show thesis
  proof cases
    case 1 then show thesis using that(1) one by blast
  next
    case 2 then show thesis using that(2) step [of n] one [of "n div 10"] by simp
  next
    case 3
    have "n div 10 div 10 = n div 100" by (simp flip: div_mult2_eq)
    moreover have "n div 100 < 10" using assms by simp
    ultimately show thesis using 3 that(3) step [of n] step [of "n div 10"] one [of "n div 100"] by simp
  qed
qed

lemma dec_append: "n > 0 \<Longrightarrow> d < 10 \<Longrightarrow> dec n @ [xdigits_l ! d] = dec (n * 10 + d)"
  by (simp add: dec_def in_base_step)

lemma dec_length: "n < 256 \<Longrightarrow> length (dec n) \<in> {1..3}"
  by (erule dec_cases) simp_all

lemma unat_byte [simp]: "unat (b :: u8) < 256"
  using unsigned_less [of b, where 'a = nat] by simp

lemmas pton4_step = pton4_loop.simps(2)
declare pton4_step [simp del]

lemma pton4_digit:
  assumes "d < 10" "unat b * 10 + d < 256"
  shows "pton4_loop ((xdigits_l ! d) # src) saw octets octs b =
    (if saw \<and> b = 0 then Inl UV_EINVAL
     else if \<not> saw then (if octets + 1 > 4 then Inl UV_EINVAL else pton4_loop src True (octets + 1) octs (of_nat (unat b * 10 + d)))
     else pton4_loop src True octets octs (of_nat (unat b * 10 + d)))"
proof -
  have "ucast b * 10 + of_nat d = (of_nat (unat b * 10 + d) :: u32)" by simp
  moreover have "\<not> (of_nat (unat b * 10 + d) :: u32) > 255"
    using assms(2) by (simp only: word_less_nat_alt unat_of_nat) simp
  moreover have "ucast (of_nat (unat b * 10 + d) :: u32) = (of_nat (unat b * 10 + d) :: u8)"
    using assms(2) by (simp add: unsigned_of_nat take_bit_eq_mod del: of_nat_add of_nat_mult)
  ultimately show ?thesis using assms(1) by (simp add: Let_def pton4_step del: of_nat_add of_nat_mult)
qed

lemma pton4_big:
  assumes "d < 10" "unat b * 10 + d \<ge> 256"
  shows "pton4_loop ((xdigits_l ! d) # src) saw octets octs b = Inl UV_EINVAL"
proof -
  have "ucast b * 10 + of_nat d = (of_nat (unat b * 10 + d) :: u32)" by simp
  moreover have "(of_nat (unat b * 10 + d) :: u32) > 255"
  proof -
    have "unat b * 10 + d < 4294967296" using assms(1) unat_byte [of b] by linarith
    then show ?thesis using assms(2) by (simp only: word_less_nat_alt unat_of_nat) simp
  qed
  ultimately show ?thesis using assms(1) by (simp add: Let_def pton4_step del: of_nat_add of_nat_mult)
qed

text \<open>The digits of a byte are read back, and nothing else is read as a byte.\<close>

lemma pton4_dec:
  assumes "octets < 4"
  shows "pton4_loop (dec (unat n) @ src) False octets octs 0 = pton4_loop src True (octets + 1) octs n"
proof -
  have nz: "m > 0 \<Longrightarrow> m < 256 \<Longrightarrow> (of_nat m :: u8) \<noteq> 0" for m
    by (simp add: word_unat_eq_iff unat_of_nat)
  have un: "m < 256 \<Longrightarrow> unat (of_nat m :: u8) = m" for m by (simp add: unat_of_nat)
  show ?thesis
  proof (rule dec_cases [OF unat_byte [of n]])
    assume "unat n < 10" "dec (unat n) = [xdigits_l ! unat n]"
    then show ?thesis using assms by (simp add: pton4_digit)
  next
    assume a: "10 \<le> unat n" "unat n < 100" "dec (unat n) = [xdigits_l ! (unat n div 10), xdigits_l ! (unat n mod 10)]"
    have "unat n div 10 > 0" "unat n div 10 < 10" using a by simp_all
    then show ?thesis using assms a nz [of "unat n div 10"]
      by (simp add: pton4_digit un del: of_nat_add of_nat_mult)
  next
    assume a: "100 \<le> unat n"
      "dec (unat n) = [xdigits_l ! (unat n div 100), xdigits_l ! (unat n div 10 mod 10), xdigits_l ! (unat n mod 10)]"
    let ?h = "unat n div 100"
    have h: "?h > 0" "?h < 10" using a unat_byte [of n] by linarith+
    have t: "?h * 10 + unat n div 10 mod 10 = unat n div 10" by (simp add: div_mult2_eq [of _ 10 10, simplified])
    have "unat n div 10 > 0" "unat n div 10 < 256" using a unat_byte [of n] by linarith+
    moreover have "(unat n div 10) * 10 + unat n mod 10 = unat n" by simp
    ultimately show ?thesis using assms a h t nz [of ?h] nz [of "unat n div 10"] unat_byte [of n]
      by (simp add: pton4_digit un del: of_nat_add of_nat_mult)
  qed
qed

lemma four: "length bs = 4 \<longleftrightarrow> (\<exists>a b c d. bs = [a, b, c, d])"
  by (auto simp: numeral_eq_Suc length_Suc_conv)

lemma pton4_dotted: "length bs = 4 \<Longrightarrow> inet_pton4 (dotted bs) = Inr bs"
  using pton4_dec [where src = "[]"]
  by (auto simp: four dotted_def inet_pton4_def pton4_dec pton4_step nth_Cons')

definition dots :: "u8 list \<Rightarrow> string" where
  "dots bs = concat (map (\<lambda>b. dec (unat b) @ ''.'') bs)"

lemma pton4_sound:
  "pton4_loop src saw octets octs b = Inr bs \<Longrightarrow> octets \<le> 4 \<Longrightarrow>
   (if saw then octets = Suc (length octs) else octets = length octs \<and> octets < 4 \<and> b = 0) \<Longrightarrow>
   length bs = 4 \<and> dots octs @ (if saw then dec (unat b) else []) @ src = dotted bs"
proof (induction src saw octets octs b rule: pton4_loop.induct)
  case (1 saw octets octs b)
  then obtain x y z where "octs = [x, y, z]" "bs = octs @ [b]" "saw"
    by (auto split: if_splits simp: numeral_eq_Suc length_Suc_conv)
  then show ?case by (simp add: dots_def dotted_def)
next
  case (2 ch src saw octets octs b)
  show ?case
  proof (cases "strchr digits ch")
    case (Some d)
    then have d: "d < 10" "ch = xdigits_l ! d" by (simp_all add: strchr_digits_Some)
    show ?thesis
    proof (cases "unat b * 10 + d < 256")
      case True
      let ?nw = "ucast b * 10 + of_nat d :: u32"
      let ?m = "of_nat (unat b * 10 + d) :: u8"
      have nw: "?nw = of_nat (unat b * 10 + d)" by simp
      have le: "\<not> ?nw > 255" unfolding nw using True by (simp only: word_less_nat_alt unat_of_nat) simp
      have m: "ucast ?nw = ?m" unfolding nw using True by (simp add: unsigned_of_nat take_bit_eq_mod del: of_nat_add of_nat_mult)
      have um: "unat ?m = unat b * 10 + d" using True by (simp add: unat_of_nat del: of_nat_add of_nat_mult)
      have run: "pton4_loop (ch # src) saw octets octs b =
        (if saw \<and> b = 0 then Inl UV_EINVAL
         else if \<not> saw then (if octets + 1 > 4 then Inl UV_EINVAL else pton4_loop src True (octets + 1) octs ?m)
         else pton4_loop src True octets octs ?m)"
        unfolding d(2) by (rule pton4_digit [OF d(1) True])
      show ?thesis
      proof (cases saw)
        case True
        then have b: "b \<noteq> 0" and r: "pton4_loop src True octets octs ?m = Inr bs" using 2(4) unfolding run by (auto split: if_splits)
        have "\<not> (saw \<and> b = 0)" "\<not> \<not> saw" using True b by auto
        from 2(3) [OF Some refl this(1) le this(2), unfolded m, OF r 2(5)] 2(6) True
        have "length bs = 4" "dots octs @ dec (unat ?m) @ src = dotted bs" by simp_all
        moreover have "unat b > 0" using b by (simp add: unat_gt_0)
        then have "dec (unat ?m) = dec (unat b) @ [ch]" unfolding um d(2) using d(1) by (rule dec_append [symmetric])
        ultimately show ?thesis using True by simp
      next
        case False
        then have o: "octets + 1 \<le> 4" and r: "pton4_loop src True (octets + 1) octs ?m = Inr bs" using 2(4) unfolding run by (auto split: if_splits)
        have n: "\<not> (saw \<and> b = 0)" "\<not> octets + 1 > 4" using False o by auto
        from 2(2) [OF Some refl n(1) le False n(2), unfolded m, OF r o] 2(6) False
        have "length bs = 4" "dots octs @ dec (unat ?m) @ src = dotted bs" by simp_all
        moreover have "unat ?m = d" unfolding um using 2(6) False by simp
        then have "dec (unat ?m) = [ch]" using d by (simp add: dec_def in_base_digit)
        ultimately show ?thesis using False by simp
      qed
    next
      case False
      then have "pton4_loop (ch # src) saw octets octs b = Inl UV_EINVAL" unfolding d(2) using d(1) by (intro pton4_big) simp_all
      then show ?thesis using 2(4) by simp
    qed
  next
    case None
    then have c: "ch = CHR ''.'' \<and> saw" "octets \<noteq> 4" and r: "pton4_loop src False octets (octs @ [b]) 0 = Inr bs"
      using 2(4) by (auto simp: pton4_step split: if_splits)
    from 2(1) [OF None c r 2(5)] 2(5,6) c
    show ?thesis by (auto simp: dots_def)
  qed
qed

lemma pton4_iff: "inet_pton4 s = Inr bs \<longleftrightarrow> length bs = 4 \<and> s = dotted bs"
  using pton4_sound [of s False 0 "[]" 0 bs] pton4_dotted [of bs]
  by (auto simp: inet_pton4_def dots_def)

lemma dotted_length: "length (dotted bs) \<in> {7..15}"
proof -
  have "length (dec (unat b)) \<in> {1..3}" for b :: u8 by (rule dec_length) simp
  from this [of "bs ! 0"] this [of "bs ! 1"] this [of "bs ! 2"] this [of "bs ! 3"]
  show ?thesis by (simp add: dotted_def)
qed

lemma ntop4_value: "inet_ntop4 bs n = (if length (dotted bs) < n then Inr (dotted bs) else Inl UV_ENOSPC)"
  using dotted_length [of bs] by (auto simp: inet_ntop4_def)

section \<open>IPv6 addresses\<close>

lemma or_low:
  assumes "d < 2 ^ k"
  shows "push_bit k (x :: u32) OR of_nat d = push_bit k x + of_nat d"
proof (rule disjunctive_add [symmetric])
  fix n
  have "d = take_bit k d" using assms by (simp add: take_bit_nat_eq_self)
  then have "bit d n \<Longrightarrow> n < k" by (metis bit_take_bit_iff)
  then show "\<not> bit (push_bit k x) n \<or> \<not> bit (of_nat d :: u32) n" by (auto simp: bit_simps)
qed

lemma hex_length: "n < 16 ^ Suc k \<Longrightarrow> length (hex n) \<in> {1..Suc k}"
proof (induction k arbitrary: n)
  case 0
  then show ?case by (simp add: hex_def in_base_digit)
next
  case (Suc k)
  then have "n div 16 < 16 ^ Suc k" by (simp add: less_mult_imp_div_less mult.commute)
  from Suc.IH [OF this] show ?case by (subst hex_def, subst in_base.simps) (auto simp: hex_def)
qed

lemma xdigit_nth [simp]: "d < 16 \<Longrightarrow> xdigit (xdigits_l ! d) = Some d"
  by (simp add: xdigit_def strchr_nth)

lemma xdigit_colon [simp]: "xdigit (CHR '':'') = None"
  by (simp add: xdigit_def xdigits_l_def xdigits_u_def)

lemma pton6_hex:
  "n < 65536 \<Longrightarrow> pton6_loop (hex n @ rest) cur tp cp 0 0 = pton6_loop rest cur tp cp (length (hex n)) (of_nat n)"
proof (induction n arbitrary: rest rule: less_induct)
  case (less n)
  show ?case
  proof (cases "n < 16")
    case True
    then show ?thesis by (simp add: hex_def in_base_digit)
  next
    case False
    let ?m = "n div 16" and ?d = "n mod 16"
    have h: "hex n = hex ?m @ [xdigits_l ! ?d]" using False unfolding hex_def by (subst in_base.simps) simp
    have m: "?m < n" "?m < 65536" "?m < 16 ^ Suc 2" using less.prems False by auto
    have "push_bit 4 (of_nat ?m :: u32) OR of_nat ?d = of_nat n"
    proof -
      have "push_bit 4 (of_nat ?m :: u32) OR of_nat ?d = of_nat (?m * 16 + ?d)"
        by (subst or_low) (simp, simp only: push_bit_eq_mult of_nat_add of_nat_mult, simp)
      then show ?thesis by (simp only: div_mult_mod_eq)
    qed
    moreover have "length (hex ?m) \<le> 3" using hex_length [OF m(3)] by simp
    ultimately show ?thesis unfolding h append_assoc less.IH [OF m(1,2)] by (simp del: of_nat_add of_nat_mult)
  qed
qed

lemma hex_nonempty [simp]: "hex n \<noteq> []"
  unfolding hex_def by (subst in_base.simps) simp

definition short :: "u32 \<Rightarrow> bool" where
  "short w \<longleftrightarrow> unat w < 65536"

lemma pton6_word:
  "short w \<Longrightarrow> \<exists>n. n \<noteq> 0 \<and> pton6_loop (hex (unat w) @ rest) cur tp cp 0 0 = pton6_loop rest cur tp cp n w"
  using pton6_hex [of "unat w" rest cur tp cp] hex_length [of "unat w" 3]
  by (intro exI [of _ "length (hex (unat w))"]) (simp add: short_def)

lemma all_ones: "(0xff :: u8) = - 1"
  by simp

lemma word_pair: "short (push_bit 8 (ucast (a :: u8)) OR ucast (b :: u8))"
  "word_bytes (push_bit 8 (ucast (a :: u8)) OR ucast (b :: u8)) = [a, b]"
proof -
  have "push_bit 8 (ucast a) OR ucast b = (of_nat (unat a * 256 + unat b) :: u32)"
    using or_low [of "unat b" 8 "ucast a"] unat_byte [of b] by (simp add: push_bit_eq_mult)
  moreover have "unat a * 256 + unat b < 65536" using unat_byte [of a] unat_byte [of b] by linarith
  ultimately show "short (push_bit 8 (ucast a) OR ucast b)"
    by (simp add: short_def unat_of_nat del: of_nat_add of_nat_mult)
  show "word_bytes (push_bit 8 (ucast a) OR ucast b) = [a, b]"
  proof -
    have "\<not> bit b (8 + n)" for n using bit_imp_le_length [of b "8 + n"] by auto
    then show ?thesis unfolding word_bytes_def all_ones by (auto simp: bit_simps intro!: bit_word_eqI)
  qed
qed

lemma ntop6_words_bytes:
  "even (length src) \<Longrightarrow> concat (map word_bytes (ntop6_words src)) = src \<and> list_all short (ntop6_words src)
     \<and> length (ntop6_words src) = length src div 2"
  by (induction src rule: ntop6_words.induct) (auto simp: word_pair)

lemma word_bytes_length [simp]: "length (word_bytes w) = 2"
  by (simp add: word_bytes_def)

definition bytes :: "u32 list \<Rightarrow> u8 list" where
  "bytes ws = concat (map word_bytes ws)"

lemma bytes_simps [simp]:
  "bytes [] = []" "bytes (w # ws) = word_bytes w @ bytes ws" "bytes (vs @ ws) = bytes vs @ bytes ws"
  "length (bytes ws) = 2 * length ws"
  by (simp_all add: bytes_def) (induction ws; simp add: bytes_def)

text \<open>What is printed of a list of words, each behind a colon.\<close>

definition colons :: "u32 list \<Rightarrow> string" where
  "colons ws = concat (map (\<lambda>w. '':'' @ hex (unat w)) ws)"

lemma colons_simps [simp]:
  "colons [] = []" "colons (w # ws) = '':'' @ hex (unat w) @ colons ws" "colons (vs @ ws) = colons vs @ colons ws"
  by (simp_all add: colons_def)

fun words_text :: "u32 list \<Rightarrow> string" where
  "words_text [] = []"
| "words_text (w # ws) = hex (unat w) @ colons ws"

lemma pton6_colons:
  "list_all short ws \<Longrightarrow> seen \<noteq> 0 \<Longrightarrow> length tp + 2 * length ws \<le> 16 \<Longrightarrow>
   \<exists>cur' n. n \<noteq> 0 \<and> pton6_loop (colons ws @ rest) cur tp cp seen val
     = pton6_loop rest cur' (tp @ bytes (butlast (val # ws))) cp n (last (val # ws))"
proof (induction ws arbitrary: cur tp seen val)
  case Nil
  then show ?case by auto
next
  case (Cons w ws)
  let ?s = "hex (unat w) @ colons ws @ rest"
  from Cons.prems pton6_word [of w "colons ws @ rest" ?s "tp @ word_bytes val" cp] obtain n where
    n: "n \<noteq> 0" "pton6_loop ?s ?s (tp @ word_bytes val) cp 0 0 = pton6_loop (colons ws @ rest) ?s (tp @ word_bytes val) cp n w"
    by auto
  from Cons.IH [of n "tp @ word_bytes val" ?s w] Cons.prems n obtain cur' k where
    "k \<noteq> 0" "pton6_loop ?s ?s (tp @ word_bytes val) cp 0 0
      = pton6_loop rest cur' ((tp @ word_bytes val) @ bytes (butlast (w # ws))) cp k (last (w # ws))" by auto
  then show ?case using Cons.prems by (auto simp del: append_assoc) (auto)
qed

text \<open>A list of words at the start of the text or behind \<open>::\<close>.\<close>

lemma pton6_words_text:
  assumes "list_all short ws" "ws \<noteq> []" "length tp + 2 * length ws \<le> 16"
  shows "\<exists>cur' n. n \<noteq> 0 \<and> pton6_loop (words_text ws @ rest) cur tp cp 0 0
     = pton6_loop rest cur' (tp @ bytes (butlast ws)) cp n (last ws)"
proof -
  obtain w vs where ws: "ws = w # vs" using assms(2) by (cases ws) auto
  from pton6_word [of w "colons vs @ rest" cur tp cp] assms(1) obtain n where
    n: "n \<noteq> 0" "pton6_loop (hex (unat w) @ colons vs @ rest) cur tp cp 0 0 = pton6_loop (colons vs @ rest) cur tp cp n w"
    by (auto simp: ws)
  from pton6_colons [of vs n tp rest cur cp w] assms n show ?thesis by (auto simp: ws)
qed

lemma bytes_butlast: "ws \<noteq> [] \<Longrightarrow> bytes (butlast ws) @ word_bytes (last ws) = bytes ws"
  by (induction ws rule: rev_induct) auto

text \<open>The shift moves the bytes behind \<open>::\<close> to the end and leaves zeros.\<close>

lemma shift_right_nth:
  assumes "length tp = c + n" "c + n < 16" "i \<le> n" "tmp = tp @ replicate (16 - (c + n)) 0"
  shows "length (shift_right c n i tmp) = 16 \<and> (\<forall>j < 16. shift_right c n i tmp ! j =
     (if j \<ge> 16 - i then tmp ! (j + (c + n) - 16) else if j \<ge> c + n - i then 0 else tmp ! j))"
  using assms(3)
proof (induction i)
  case 0
  then show ?case using assms by (auto simp: nth_append)
next
  case (Suc i)
  let ?t = "shift_right c n i tmp"
  have IH: "length ?t = 16" "\<And>j. j < 16 \<Longrightarrow> ?t ! j =
     (if j \<ge> 16 - i then tmp ! (j + (c + n) - 16) else if j \<ge> c + n - i then 0 else tmp ! j)"
    using Suc by auto
  have src: "c + (n - Suc i) < 16 - Suc i" using assms Suc.prems by linarith
  have val: "?t ! (c + (n - Suc i)) = tmp ! (c + (n - Suc i))" using IH(2) [of "c + (n - Suc i)"] src Suc.prems by auto
  have eq: "16 - Suc i + (c + n) - 16 = c + (n - Suc i)" using Suc.prems assms(2) by linarith
  show ?case
  proof (intro conjI allI impI)
    show "length (shift_right c n (Suc i) tmp) = 16" using IH(1) by (simp add: Let_def)
    fix j :: nat assume j: "j < 16"
    consider "j = 16 - Suc i" | "j = c + (n - Suc i)" | "j \<noteq> 16 - Suc i" "j \<noteq> c + (n - Suc i)" by blast
    then show "shift_right c n (Suc i) tmp ! j =
      (if j \<ge> 16 - Suc i then tmp ! (j + (c + n) - 16) else if j \<ge> c + n - Suc i then 0 else tmp ! j)"
    proof cases
      case 1
      then show ?thesis using IH(1) src j val eq by (simp add: Let_def)
    next
      case 2
      then show ?thesis using IH(1) src j Suc.prems by (auto simp: Let_def)
    next
      case 3
      then have "shift_right c n (Suc i) tmp ! j = ?t ! j" using IH(1) by (simp add: Let_def)
      moreover have "(16 - i \<le> j) = (16 - Suc i \<le> j)" "(c + n - i \<le> j) = (c + n - Suc i \<le> j)"
        using 3 Suc.prems by linarith+
      ultimately show ?thesis using IH(2) [OF j] by simp
    qed
  qed
qed

lemma shift_right_bytes:
  assumes "length pre + length post < 16"
  shows "shift_right (length pre) (length post) (length post) (pre @ post @ replicate (16 - (length pre + length post)) 0)
    = pre @ replicate (16 - (length pre + length post)) 0 @ post"
proof -
  let ?c = "length pre" and ?n = "length post"
  let ?tmp = "(pre @ post) @ replicate (16 - (?c + ?n)) 0"
  from shift_right_nth [of "pre @ post" ?c ?n ?n ?tmp] assms
  have l: "length (shift_right ?c ?n ?n ?tmp) = 16" and
    e: "\<And>j. j < 16 \<Longrightarrow> shift_right ?c ?n ?n ?tmp ! j =
      (if j \<ge> 16 - ?n then ?tmp ! (j + (?c + ?n) - 16) else if j \<ge> ?c then 0 else ?tmp ! j)"
    by auto
  have "shift_right ?c ?n ?n ?tmp = pre @ replicate (16 - (?c + ?n)) 0 @ post"
  proof (rule nth_equalityI)
    show "length (shift_right ?c ?n ?n ?tmp) = length (pre @ replicate (16 - (?c + ?n)) 0 @ post)"
      using l assms by simp
    fix j assume "j < length (shift_right ?c ?n ?n ?tmp)"
    then have j: "j < 16" using l by simp
    show "shift_right ?c ?n ?n ?tmp ! j = (pre @ replicate (16 - (?c + ?n)) 0 @ post) ! j"
      using e [OF j] j assms by (auto simp: nth_append)
  qed
  then show ?thesis by simp
qed

section \<open>The longest run of zeros\<close>

definition zeros_at :: "run \<Rightarrow> u32 list \<Rightarrow> bool" where
  "zeros_at r ws \<longleftrightarrow> fst r = - 1 \<or> (fst r \<ge> 0 \<and> snd r \<ge> 1 \<and> fst r + snd r \<le> int (length ws)
     \<and> (\<forall>j. fst r \<le> j \<and> j < fst r + snd r \<longrightarrow> ws ! nat j = 0))"

lemma zeros_at_append: "zeros_at r ws \<Longrightarrow> zeros_at r (ws @ vs)"
  by (auto simp: zeros_at_def nth_append nat_less_iff)

lemma zeros_at_better: "zeros_at best ws \<Longrightarrow> zeros_at cur ws \<Longrightarrow> zeros_at (better_run best cur) ws"
  by (simp add: better_run_def)

lemma scan_word_zeros:
  assumes "zeros_at best pre" "zeros_at cur pre" "fst cur \<noteq> - 1 \<longrightarrow> fst cur + snd cur = int (length pre)"
    "scan_word (int (length pre)) w (best, cur) = (best', cur')"
  shows "zeros_at best' (pre @ [w]) \<and> zeros_at cur' (pre @ [w])
    \<and> (fst cur' \<noteq> - 1 \<longrightarrow> fst cur' + snd cur' = int (length (pre @ [w])))"
proof (cases "w = 0")
  case False
  then have "cur' = (- 1, snd cur) \<and> best' = better_run best cur \<or> cur' = cur \<and> fst cur = - 1 \<and> best' = best"
    using assms(4) by (auto simp: scan_word_def split: if_splits)
  moreover have "zeros_at (- 1, snd cur) vs" for vs by (simp add: zeros_at_def)
  ultimately show ?thesis using zeros_at_append [OF zeros_at_better [OF assms(1,2)]]
      zeros_at_append [OF assms(1)] zeros_at_append [OF assms(2)] by auto
next
  case True
  have b: "best' = best" using assms(4) True by (auto simp: scan_word_def split: if_splits)
  show ?thesis
  proof (cases "fst cur = - 1")
    case True
    then have "cur' = (int (length pre), 1)" using assms(4) \<open>w = 0\<close> by (simp add: scan_word_def)
    then show ?thesis using b assms(1) \<open>w = 0\<close> zeros_at_append by (auto simp: zeros_at_def nth_append)
  next
    case False
    then have c: "cur' = (fst cur, snd cur + 1)" using assms(4) True by (simp add: scan_word_def)
    have z: "(pre @ [w]) ! nat j = 0" if "fst cur \<le> j" "j < fst cur + snd cur + 1" for j
    proof (cases "j < int (length pre)")
      case True
      then show ?thesis using that False assms(2,3) by (auto simp: zeros_at_def nth_append nat_less_iff)
    next
      case False
      then have "nat j = length pre" using that assms(3) \<open>fst cur \<noteq> - 1\<close> by auto
      then show ?thesis using \<open>w = 0\<close> by simp
    qed
    then have "zeros_at cur' (pre @ [w])" "fst cur' + snd cur' = int (length (pre @ [w]))"
      using c False assms(2,3) by (auto simp: zeros_at_def)
    then show ?thesis using b zeros_at_append [OF assms(1)] by simp
  qed
qed

lemma scan_words_zeros:
  "zeros_at best pre \<Longrightarrow> zeros_at cur pre \<Longrightarrow> (fst cur \<noteq> - 1 \<longrightarrow> fst cur + snd cur = int (length pre)) \<Longrightarrow>
   scan_words (int (length pre)) ws (best, cur) = (best', cur') \<Longrightarrow>
   zeros_at best' (pre @ ws) \<and> zeros_at cur' (pre @ ws)"
proof (induction ws arbitrary: pre best cur)
  case Nil
  then show ?case by simp
next
  case (Cons w ws)
  obtain b c where s: "scan_word (int (length pre)) w (best, cur) = (b, c)" by (rule prod.exhaust)
  from scan_word_zeros [OF Cons.prems(1-3) s] have
    z: "zeros_at b (pre @ [w])" "zeros_at c (pre @ [w])" "fst c \<noteq> - 1 \<longrightarrow> fst c + snd c = int (length (pre @ [w]))"
    by auto
  have "scan_words (int (length (pre @ [w]))) ws (b, c) = (best', cur')"
    using Cons.prems(4) s by (simp add: add.commute)
  from Cons.IH [OF z this] show ?case by simp
qed

lemma best_run_zeros: "zeros_at (best_run ws) ws \<and> (fst (best_run ws) \<noteq> - 1 \<longrightarrow> snd (best_run ws) \<ge> 2)"
proof -
  obtain b c where s: "scan_words 0 ws ((- 1, 0), (- 1, 0)) = (b, c)" by (rule prod.exhaust)
  then have "zeros_at b ws" "zeros_at c ws"
    using scan_words_zeros [of "(- 1, 0)" "[]" "(- 1, 0)" ws b c] by (auto simp: zeros_at_def)
  then have "zeros_at (if fst c \<noteq> - 1 then better_run b c else b) ws" using zeros_at_better by simp
  then show ?thesis using s by (auto simp: best_run_def Let_def zeros_at_def)
qed

text \<open>The words are cut at the run.\<close>

lemma best_run_split:
  obtains "fst (best_run ws) = - 1"
  | pre l post where "ws = pre @ replicate l 0 @ post" "best_run ws = (int (length pre), int l)" "l \<ge> 2"
proof (cases "fst (best_run ws) = - 1")
  case False
  let ?b = "nat (fst (best_run ws))" and ?l = "nat (snd (best_run ws))"
  have z: "fst (best_run ws) \<ge> 0" "snd (best_run ws) \<ge> 2" "fst (best_run ws) + snd (best_run ws) \<le> int (length ws)"
    "\<And>j. fst (best_run ws) \<le> j \<and> j < fst (best_run ws) + snd (best_run ws) \<Longrightarrow> ws ! nat j = 0"
    using best_run_zeros [of ws] False by (auto simp: zeros_at_def)
  have len: "?b + ?l \<le> length ws" using z by linarith
  have "take ?l (drop ?b ws) = replicate ?l 0"
  proof (rule nth_equalityI)
    show "length (take ?l (drop ?b ws)) = length (replicate ?l (0 :: u32))" using len by simp
    fix i assume "i < length (take ?l (drop ?b ws))"
    then have i: "i < ?l" by simp
    then have "ws ! nat (fst (best_run ws) + int i) = 0" using z by (intro z(4)) auto
    moreover have "nat (fst (best_run ws) + int i) = ?b + i" using z(1) by (simp add: nat_add_distrib)
    ultimately show "take ?l (drop ?b ws) ! i = replicate ?l 0 ! i" using i len by simp
  qed
  then have "ws = take ?b ws @ replicate ?l 0 @ drop ?l (drop ?b ws)" by (metis append_take_drop_id)
  moreover have "best_run ws = (int (length (take ?b ws)), int ?l)" using z len by (simp add: prod_eq_iff min_def)
  ultimately show thesis using that(2) z(2) by simp
qed (rule that(1))

section \<open>The text of an address\<close>

lemma format_outside:
  assumes "\<not> is_encapsulated best words \<or> i > 6" "i > 0" "fst best = - 1 \<or> fst best + snd best \<le> i"
  shows "format_words best words src i ws tp = Inr (tp @ colons ws)"
  using assms
proof (induction ws arbitrary: i tp)
  case (Cons w ws)
  from Cons.prems have "\<not> (fst best \<noteq> - 1 \<and> fst best \<le> i \<and> i < fst best + snd best)" by auto
  with Cons.prems Cons.IH [of "i + 1" "(tp @ '':'') @ hex (unat w)"] show ?case by (auto simp: Let_def)
qed simp

lemma format_before:
  assumes "fst best = i + int (length pre)" "i > 0" "\<not> is_encapsulated best words"
  shows "format_words best words src i (pre @ ws) tp = format_words best words src (fst best) ws (tp @ colons pre)"
  using assms(1,2)
proof (induction pre arbitrary: i tp)
  case Nil
  then show ?case by simp
next
  case (Cons w pre)
  from Cons.prems Cons.IH [of "i + 1" "(tp @ '':'') @ hex (unat w)"] assms(3) show ?case by (auto simp: Let_def)
qed

lemma format_run_rest:
  assumes "fst best < i" "i + int l = fst best + snd best" "fst best \<ge> 0"
  shows "format_words best words src i (replicate l 0 @ ws) tp = format_words best words src (fst best + snd best) ws tp"
  using assms
proof (induction l arbitrary: i)
  case 0
  then show ?case by simp
next
  case (Suc l)
  from Suc.prems Suc.IH [of "i + 1"] show ?case by (auto simp: algebra_simps)
qed

lemma format_run:
  assumes "snd best = int l" "l \<ge> 1" "fst best \<ge> 0"
  shows "format_words best words src (fst best) (replicate l 0 @ ws) tp
    = format_words best words src (fst best + snd best) ws (tp @ '':'')"
proof -
  obtain k where k: "l = Suc k" using assms(2) by (cases l) auto
  from format_run_rest [of best "fst best + 1" k words src ws "tp @ '':''"] assms k show ?thesis by auto
qed

lemma not_encapsulated: "fst best \<noteq> 0 \<Longrightarrow> \<not> is_encapsulated best words"
  by (simp add: is_encapsulated_def)

definition ipv6_text :: "u32 list \<Rightarrow> u32 list \<Rightarrow> string" where
  "ipv6_text pre post = words_text pre @ ''::'' @ words_text post"

lemma colons_words_text: "ws \<noteq> [] \<Longrightarrow> colons ws = '':'' @ words_text ws"
  by (cases ws) auto

text \<open>The three shapes: eight words, words around \<open>::\<close>, and an IPv4 address at the end.\<close>

lemma format_plain:
  assumes "fst best = - 1" "words \<noteq> []"
  shows "format_words best words src 0 words [] = Inr (words_text words)"
proof -
  obtain w ws where "words = w # ws" using assms(2) by (cases words) auto
  then show ?thesis using assms format_outside [of best words 1 src ws "hex (unat w)"]
    by (simp add: is_encapsulated_def)
qed

lemma format_gap:
  assumes "best = (int (length pre), int l)" "l \<ge> 2" "\<not> is_encapsulated best words \<or> l > 6"
  shows "format_words best words src 0 (pre @ replicate l 0 @ post) [] = Inr (words_text pre @ '':'' @ colons post)"
proof (cases pre)
  case Nil
  then show ?thesis using assms format_run [of best l words src post "[]"] format_outside [of best words "int l" src post "'':''"]
    by simp
next
  case (Cons w pre')
  have "format_words best words src 0 (pre @ replicate l 0 @ post) []
      = format_words best words src 1 (pre' @ replicate l 0 @ post) (hex (unat w))"
    using Cons assms(1) not_encapsulated by (simp add: Let_def)
  also have "\<dots> = format_words best words src (fst best) (replicate l 0 @ post) (hex (unat w) @ colons pre')"
    using Cons assms(1) by (intro format_before not_encapsulated) auto
  also have "\<dots> = format_words best words src (fst best + snd best) post ((hex (unat w) @ colons pre') @ '':'')"
    using assms by (intro format_run) auto
  also have "\<dots> = Inr (((hex (unat w) @ colons pre') @ '':'') @ colons post)"
    using assms(1) Cons not_encapsulated [of best words] by (intro format_outside) auto
  finally show ?thesis using Cons by simp
qed

lemma format_encapsulated:
  assumes "is_encapsulated best words" "best = (0, int l)" "words = replicate l 0 @ post" "length words = 8" "length post \<noteq> 1"
  shows "format_words best words src 0 words [] =
    Inr ((if l = 6 then ''::'' else ''::ffff:'') @ dotted (drop 12 src)) \<and> (l = 6 \<or> (l = 5 \<and> hd post = 0xffff))"
proof -
  have f: "inet_ntop4 (drop 12 src) n = Inr (dotted (drop 12 src))" if "n > 20" for n
    using that dotted_length [of "drop 12 src"] by (simp add: ntop4_value)
  have r: "l \<ge> 1 \<Longrightarrow> format_words best words src 0 words [] = format_words best words src (int l) post '':''"
    using format_run [of best l words src post "[]"] assms(2,3) by simp
  from assms have "l \<noteq> 7" by auto
  with assms(1,2) consider "l = 6" | "l = 5" "words ! 5 = 0xffff" by (auto simp: is_encapsulated_def)
  then show ?thesis
  proof cases
    case 1
    then obtain w ws where p: "post = w # ws" using assms(3,4) by (cases post) auto
    show ?thesis using r 1 assms(1,2) f by (simp add: p)
  next
    case 2
    have "length post = 3" using assms(3,4) 2 by simp
    then obtain w v ws where p: "post = w # v # ws" by (cases post; cases "tl post") auto
    then have "w = 0xffff" using 2 assms(3) by (simp add: nth_append)
    moreover have "hex (unat (0xffff :: u32)) = ''ffff''"
      unfolding hex_def by (simp add: in_base.simps xdigits_l_def)
    ultimately show ?thesis using r 2 assms(1,2) f by (simp add: p)
  qed
qed

section \<open>Reading the text of an address\<close>

lemma in_base_digits: "b \<le> 16 \<Longrightarrow> b \<ge> 2 \<Longrightarrow> set (in_base b n) \<subseteq> set xdigits_l"
proof (induction b n rule: in_base.induct)
  case (1 b n)
  have d: "m < 16 \<Longrightarrow> xdigits_l ! m \<in> set xdigits_l" for m by (simp add: nth_mem)
  show ?case
  proof (cases "n < b")
    case True
    then show ?thesis using 1 d [of n] by (subst in_base.simps) simp
  next
    case False
    have "n mod b < 16" using 1(2,3) mod_less_divisor [of b n] by linarith
    then show ?thesis using 1 False d [of "n mod b"] by (subst in_base.simps) simp
  qed
qed

lemma hex_digits: "set (hex n) \<subseteq> set xdigits_l" and dec_digits: "set (dec n) \<subseteq> set xdigits_l"
  by (simp_all add: hex_def dec_def in_base_digits)

definition address_chars :: "char set" where
  "address_chars = set ('':.'' @ xdigits_l)"

lemma text_chars:
  "set (colons ws) \<subseteq> address_chars" "set (words_text ws) \<subseteq> address_chars" "set (dotted bs) \<subseteq> address_chars"
proof -
  have h: "set (hex n) \<subseteq> address_chars" "set (dec n) \<subseteq> address_chars" for n
    using hex_digits dec_digits by (auto simp: address_chars_def)
  have c: "CHR '':'' \<in> address_chars" "CHR ''.'' \<in> address_chars" by (simp_all add: address_chars_def)
  show 1: "set (colons ws) \<subseteq> address_chars" for ws using h c by (induction ws) auto
  show "set (words_text ws) \<subseteq> address_chars" using h 1 by (cases ws) auto
  show "set (dotted bs) \<subseteq> address_chars" using h c by (auto simp: dotted_def)
qed

lemma no_percent: "set t \<subseteq> address_chars \<Longrightarrow> strchr t (CHR ''%'') = None"
proof -
  assume t: "set t \<subseteq> address_chars"
  have "CHR ''%'' \<notin> address_chars" by (simp add: address_chars_def xdigits_l_def)
  with t show ?thesis by (metis nth_mem not_None_eq strchr_Some subsetD)
qed

lemma hd_hex: "hd (hex n) \<noteq> CHR '':''"
proof -
  have "hd (hex n) \<in> set xdigits_l" using hex_digits [of n] hd_in_set [OF hex_nonempty] by blast
  then show ?thesis by (auto simp: xdigits_l_def)
qed

lemma inet_pton6_start:
  "hd t \<noteq> CHR '':'' \<Longrightarrow> inet_pton6 t = (case pton6_loop t t [] None 0 0 of Inl err \<Rightarrow> Inl err | Inr st \<Rightarrow> pton6_end st)"
  by (simp add: inet_pton6_def)

lemma pton6_plain:
  assumes "list_all short ws" "length ws = 8"
  shows "inet_pton6 (words_text ws) = Inr (bytes ws)"
proof -
  have ne: "ws \<noteq> []" using assms by auto
  then obtain w vs where w: "ws = w # vs" by (cases ws) auto
  have h: "hd (words_text ws) \<noteq> CHR '':''" using hd_hex by (simp add: w)
  from pton6_words_text [of ws "[]" "[]" "words_text ws" None] assms ne obtain n where
    "n \<noteq> 0" "pton6_loop (words_text ws) (words_text ws) [] None 0 0 = Inr (bytes (butlast ws), None, n, last ws)" by auto
  then show ?thesis using h assms bytes_butlast [OF ne]
    by (simp add: inet_pton6_start pton6_end_def Let_def)
qed

lemma bytes_butlast_append: "ws \<noteq> [] \<Longrightarrow> bytes (butlast ws) @ word_bytes (last ws) @ r = bytes ws @ r"
  using bytes_butlast [of ws] by (metis append_assoc)

lemma pton6_tail:
  assumes "list_all short post" "length pre + length post \<le> 7"
  shows "(case pton6_loop (words_text post) cur (bytes pre) (Some (2 * length pre)) 0 0 of
      Inl err \<Rightarrow> Inl err | Inr st \<Rightarrow> pton6_end st)
    = Inr (bytes pre @ replicate (16 - 2 * (length pre + length post)) 0 @ bytes post)"
proof (cases "post = []")
  case True
  then show ?thesis using assms by (simp add: pton6_end_def Let_def)
next
  case False
  from pton6_words_text [of post "bytes pre" "[]" cur "Some (2 * length pre)"] assms False obtain n where
    n: "n \<noteq> 0" "pton6_loop (words_text post) cur (bytes pre) (Some (2 * length pre)) 0 0
      = Inr (bytes pre @ bytes (butlast post), Some (2 * length pre), n, last post)" by auto
  have len: "2 * length pre + 2 * (length post - 1) + 2 = 2 * (length pre + length post)" using False by (cases post) auto
  have "pton6_end (bytes pre @ bytes (butlast post), Some (2 * length pre), n, last post)
     = Inr (shift_right (2 * length pre) (2 * length post) (2 * length post)
          (bytes pre @ bytes post @ replicate (16 - 2 * (length pre + length post)) 0))"
    using n(1) len assms by (simp add: pton6_end_def Let_def bytes_butlast_append [OF False])
  with n(2) shift_right_bytes [of "bytes pre" "bytes post"] assms(2) show ?thesis by simp
qed

lemma pton6_gap:
  assumes "list_all short pre" "list_all short post" "length pre + length post \<le> 7"
  shows "inet_pton6 (ipv6_text pre post) = Inr (bytes pre @ replicate (16 - 2 * (length pre + length post)) 0 @ bytes post)"
proof (cases "pre = []")
  case True
  then show ?thesis using pton6_tail [OF assms(2), of "[]" "words_text post"] assms(3)
    by (simp add: ipv6_text_def inet_pton6_def)
next
  case False
  then obtain w vs where w: "pre = w # vs" by (cases pre) auto
  let ?t = "ipv6_text pre post" and ?rest = "''::'' @ words_text post"
  have h: "hd ?t \<noteq> CHR '':''" using hd_hex by (simp add: w ipv6_text_def)
  from pton6_words_text [of pre "[]" ?rest ?t None] assms False obtain c n where
    "n \<noteq> 0" "pton6_loop ?t ?t [] None 0 0 = pton6_loop ?rest c (bytes (butlast pre)) None n (last pre)"
    by (auto simp: ipv6_text_def)
  moreover have "2 * (length pre - 1) + 2 \<le> 16" "2 * (length pre - 1) + 2 = 2 * length pre" using assms(3) w by auto
  ultimately have "pton6_loop ?t ?t [] None 0 0
      = pton6_loop (words_text post) (words_text post) (bytes pre) (Some (2 * length pre)) 0 0"
    using bytes_butlast [OF False] by simp
  then show ?thesis using h pton6_tail [OF assms(2), of pre "words_text post"] assms(3)
    by (simp add: inet_pton6_start)
qed

text \<open>The digits of a first byte, then a dot: the rest is read as an IPv4 address.\<close>

lemma xdigit_dot [simp]: "xdigit (CHR ''.'') = None"
  by (simp add: xdigit_def xdigits_l_def xdigits_u_def)

lemma nth_digit_chars: "d < 16 \<Longrightarrow> xdigits_l ! d \<noteq> CHR '':'' \<and> xdigits_l ! d \<noteq> CHR ''.''"
  using nth_mem [of d xdigits_l] by (auto simp: xdigits_l_def)

lemma pton6_dec:
  assumes "n < 256" "length tp + 4 \<le> 16" "inet_pton4 cur = Inr bs"
  shows "\<exists>v. pton6_loop (dec n @ CHR ''.'' # rest) cur tp cp 0 0 = Inr (tp @ bs, cp, 0, v)"
proof -
  have "n div 10 < 26" "n div 100 < 16" "n div 10 mod 10 < 16" "n mod 10 < 16" using assms(1) by auto
  then show ?thesis using assms by (elim dec_cases) (auto simp: xdigit_nth nth_digit_chars)
qed

lemma pton6_dotted:
  assumes "length bs = 4" "length tp + 4 \<le> 16"
  shows "\<exists>v. pton6_loop (dotted bs) (dotted bs) tp cp 0 0 = Inr (tp @ bs, cp, 0, v)"
  using pton6_dec [OF unat_byte assms(2) pton4_dotted [OF assms(1)], of "bs ! 0"] by (simp add: dotted_def)

lemma pton6_mapped:
  assumes "length bs = 4"
  shows "inet_pton6 (''::'' @ dotted bs) = Inr (replicate 12 0 @ bs)"
    "inet_pton6 (''::ffff:'' @ dotted bs) = Inr (replicate 10 0 @ [0xff, 0xff] @ bs)"
proof -
  obtain v where v: "pton6_loop (dotted bs) (dotted bs) [] (Some 0) 0 0 = Inr (bs, Some 0, 0, v)"
    using pton6_dotted [of bs "[]" "Some 0"] assms by auto
  show "inet_pton6 (''::'' @ dotted bs) = Inr (replicate 12 0 @ bs)"
    using assms v shift_right_bytes [of "[]" bs] by (simp add: inet_pton6_def pton6_end_def Let_def)
  obtain v where v: "pton6_loop (dotted bs) (dotted bs) [0xff, 0xff] (Some 0) 0 0 = Inr ([0xff, 0xff] @ bs, Some 0, 0, v)"
    using pton6_dotted [of bs "[0xff, 0xff]" "Some 0"] assms by auto
  have ne: "dotted bs \<noteq> []" using dotted_length [of bs] by auto
  have x: "xdigit (CHR ''f'') = Some 15" using xdigit_nth [of 15] by (simp add: xdigits_l_def)
  have "word_bytes 0xffff = [0xff, 0xff]" by (simp add: word_bytes_def)
  then have "pton6_loop ('':ffff:'' @ dotted bs) ('':ffff:'' @ dotted bs) [] None 0 0 = Inr ([0xff, 0xff] @ bs, Some 0, 0, v)"
    using v ne by (simp add: x push_bit_eq_mult)
  then show "inet_pton6 (''::ffff:'' @ dotted bs) = Inr (replicate 10 0 @ [0xff, 0xff] @ bs)"
    using assms shift_right_bytes [of "[]" "[0xff, 0xff] @ bs"] by (simp add: inet_pton6_def pton6_end_def Let_def)
qed

lemma length_words_text: "list_all short ws \<Longrightarrow> length (words_text ws) \<le> 5 * length ws - 1"
proof (cases ws)
  case (Cons w vs)
  have h: "short v \<Longrightarrow> length (hex (unat v)) \<le> 4" for v using hex_length [of "unat v" 3] by (simp add: short_def)
  have "list_all short vs \<Longrightarrow> length (colons vs) \<le> 5 * length vs" for vs
  proof (induction vs)
    case (Cons v vs)
    then show ?case using h [of v] by simp
  qed simp
  moreover assume "list_all short ws"
  ultimately show ?thesis using h [of w] Cons by (auto simp: algebra_simps) (metis add_mono add.commute)
qed simp

lemma words_of_address:
  assumes "length src = 16" "ntop6_words src = ws"
  shows "length ws = 8" "list_all short ws" "bytes ws = src"
  using ntop6_words_bytes [of src] assms by (simp_all add: bytes_def)

lemma bytes_zeros: "bytes (replicate l 0) = replicate (2 * l) 0"
  by (induction l) (simp_all add: word_bytes_def)

lemma encapsulated_address:
  assumes "length src = 16" "ntop6_words src = replicate l 0 @ post" "l = 6 \<or> (l = 5 \<and> hd post = 0xffff)" "length post = 8 - l"
  shows "src = replicate (2 * l) 0 @ (if l = 6 then [] else [0xff, 0xff]) @ drop 12 src"
proof -
  have b: "src = replicate (2 * l) 0 @ bytes post"
    using words_of_address(3) [OF assms(1,2)] by (simp add: bytes_zeros)
  show ?thesis
  proof (cases "l = 6")
    case True
    have "drop 12 src = bytes post" using arg_cong [OF b, of "drop 12"] True by simp
    then show ?thesis using b True by simp
  next
    case False
    then obtain vs where p: "post = 0xffff # vs" "l = 5" using assms(3,4) by (cases post) auto
    have "word_bytes 0xffff = [0xff, 0xff]" by (simp add: word_bytes_def)
    then have "src = (replicate 10 0 @ [0xff, 0xff]) @ bytes vs" using b p by simp
    moreover from arg_cong [OF this, of "drop 12"] have "drop 12 src = bytes vs" by simp
    ultimately show ?thesis using p by simp
  qed
qed

text \<open>The text of an address: no longer than the buffer, and read back as the same address.\<close>

lemma ntop6_text:
  assumes "length src = 16"
  shows "\<exists>t. length t \<le> 45 \<and> set t \<subseteq> address_chars \<and> inet_pton6 t = Inr src
    \<and> (\<forall>n. inet_ntop6 src n = (if length t < n then Inr t else Inl UV_ENOSPC))"
proof -
  define ws where "ws = ntop6_words src"
  note w = words_of_address [OF assms ws_def [symmetric]]
  let ?best = "best_run ws"
  have result: "inet_ntop6 src n = (if length t < n then Inr t else Inl UV_ENOSPC)"
    if "format_words ?best ws src 0 ws [] = Inr tp"
      "t = (if fst ?best \<noteq> - 1 \<and> fst ?best + snd ?best = 8 then tp @ '':'' else tp)" for tp t n
    using that w(1) by (auto simp: inet_ntop6_def ws_def [symmetric] Let_def)
  show ?thesis
  proof (rule best_run_split [of ws])
    assume b: "fst ?best = - 1"
    have "format_words ?best ws src 0 ws [] = Inr (words_text ws)" using b w(1) by (intro format_plain) auto
    then show ?thesis using result [of "words_text ws"] b pton6_plain [OF w(2,1)] w text_chars(2) [of ws] length_words_text [OF w(2)]
      by (intro exI [of _ "words_text ws"]) auto
  next
    fix pre post l
    assume s: "ws = pre @ replicate l 0 @ post" "?best = (int (length pre), int l)" "l \<ge> 2"
    have len: "length pre + l + length post = 8" using s w(1) by simp
    have sh: "list_all short pre" "list_all short post" using w(2) s(1) by auto
    have src: "src = bytes pre @ replicate (16 - 2 * (length pre + length post)) 0 @ bytes post"
    proof -
      have "16 - 2 * (length pre + length post) = 2 * l" using arg_cong [OF len, of "\<lambda>n. 2 * n - 2 * (length pre + length post)"] by simp
      then show ?thesis using w(3) s(1) by (simp add: bytes_zeros)
    qed
    show ?thesis
    proof (cases "is_encapsulated ?best ws \<and> l < 7")
      case True
      then have p: "pre = []" using s(2) not_encapsulated [of ?best ws] by auto
      have e: "format_words ?best ws src 0 ws [] = Inr ((if l = 6 then ''::'' else ''::ffff:'') @ dotted (drop 12 src))"
        and l: "l = 6 \<or> (l = 5 \<and> hd post = 0xffff)"
        using format_encapsulated [of ?best ws l post src] True s p len w(1) by auto
      let ?t = "(if l = 6 then ''::'' else ''::ffff:'') @ dotted (drop 12 src)"
      have "length (drop 12 src) = 4" using assms by simp
      moreover have "src = replicate (2 * l) 0 @ (if l = 6 then [] else [0xff, 0xff]) @ drop 12 src"
        using encapsulated_address [OF assms, of l post] l s(1) p len ws_def by auto
      ultimately have "inet_pton6 ?t = Inr src"
        using pton6_mapped [of "drop 12 src"] l by (cases "l = 6") auto
      moreover have "set ?t \<subseteq> address_chars" using text_chars(3) [of "drop 12 src"] by (auto simp: address_chars_def xdigits_l_def)
      moreover have "inet_ntop6 src n = (if length ?t < n then Inr ?t else Inl UV_ENOSPC)" for n
        using result [OF e] s(2) p l by auto
      moreover have "length ?t \<le> 45" using dotted_length [of "drop 12 src"] by auto
      ultimately show ?thesis by blast
    next
      case False
      have f: "format_words ?best ws src 0 ws [] = Inr (words_text pre @ '':'' @ colons post)"
        using format_gap [OF s(2,3), of ws src post] False s(1) by auto
      have t: "ipv6_text pre post = (if fst ?best \<noteq> - 1 \<and> fst ?best + snd ?best = 8
          then (words_text pre @ '':'' @ colons post) @ '':'' else words_text pre @ '':'' @ colons post)"
        using s(2) len by (cases post) (auto simp: ipv6_text_def)
      have "inet_pton6 (ipv6_text pre post) = Inr src"
        using pton6_gap [OF sh] len s(3) src by simp
      moreover have "set (ipv6_text pre post) \<subseteq> address_chars"
        using text_chars(2) by (auto simp: ipv6_text_def address_chars_def)
      moreover have "length (ipv6_text pre post) \<le> 45"
        using length_words_text [OF sh(1)] length_words_text [OF sh(2)] len s(3) by (simp add: ipv6_text_def)
      ultimately show ?thesis using result [OF f t] by blast
    qed
  qed
qed

section \<open>Properties\<close>

text \<open>C19: \<open>uv_inet_pton\<close> for IPv4 accepts exactly the four decimal numbers without leading zeros,
  separated by dots, that \<open>uv_inet_ntop\<close> prints, and \<open>uv_inet_ntop\<close> prints them whenever the destination
  has room for the text and its final zero.\<close>
theorem ipv4_text_exact:
  "(uv_inet_pton AF_INET (Some s) False = Inr bs) = (length bs = 4 \<and> s = dotted bs)
   \<and> uv_inet_ntop AF_INET src n = (if length (dotted src) < n then Inr (dotted src) else Inl UV_ENOSPC)"
  by (simp_all add: uv_inet_pton_def uv_inet_ntop_def pton4_iff ntop4_value)

text \<open>C18: Every IPv6 address is printed as a text of at most 45 characters, which fits the buffers
  of the printing and the reading function, and reading the text gives the address back; if the
  destination is too small for the text, \<open>UV_ENOSPC\<close> is returned instead.\<close>
theorem ipv6_text_roundtrip:
  assumes "length src = 16"
  shows "\<exists>t. length t \<le> 45
    \<and> (\<forall>n. uv_inet_ntop AF_INET6 src n = (if length t < n then Inr t else Inl UV_ENOSPC))
    \<and> uv_inet_pton AF_INET6 (Some t) False = Inr src"
  using ntop6_text [OF assms] no_percent by (auto simp: uv_inet_ntop_def uv_inet_pton_def)

theorem ipv6_text_roundtrip_witness:
  "\<exists>t. uv_inet_ntop AF_INET6 (replicate 15 0 @ [1]) 46 = Inr t \<and> uv_inet_pton AF_INET6 (Some t) False = Inr (replicate 15 0 @ [1])"
proof -
  from ipv6_text_roundtrip [of "replicate 15 0 @ [1]"] obtain t where
    "length t \<le> 45" "\<forall>n. uv_inet_ntop AF_INET6 (replicate 15 0 @ [1]) n = (if length t < n then Inr t else Inl UV_ENOSPC)"
    "uv_inet_pton AF_INET6 (Some t) False = Inr (replicate 15 0 @ [1])" by auto
  then show ?thesis by (intro exI [of _ t]) simp
qed

end
