(* ===== verification/Common.thy ===== *)
theory Common
  imports Handles Fd_Ops Inet
begin

text \<open>
  The parts of \<open>src/uv-common.cpp\<close> and of \<open>src/unix/core.cpp\<close> that stand by themselves: the error
  codes and their names (\<open>include/uv-errno.h\<close>, \<open>include/uv.h\<close>), copies of strings, socket addresses,
  the queries of the environment, and the iteration over the entries of a directory.
\<close>

section \<open>Error codes\<close>

text \<open>The codes, with the error numbers of Linux, and the map of names to messages.\<close>

definition uv_errno_codes :: "(string \<times> int) list" where
  "uv_errno_codes =
    [(''EOF'', - 4095), (''UNKNOWN'', - 4094), (''EAI_ADDRFAMILY'', - 3000), (''EAI_AGAIN'', - 3001),
     (''EAI_BADFLAGS'', - 3002), (''EAI_CANCELED'', - 3003), (''EAI_FAIL'', - 3004), (''EAI_FAMILY'', - 3005),
     (''EAI_MEMORY'', - 3006), (''EAI_NODATA'', - 3007), (''EAI_NONAME'', - 3008), (''EAI_OVERFLOW'', - 3009),
     (''EAI_SERVICE'', - 3010), (''EAI_SOCKTYPE'', - 3011), (''EAI_BADHINTS'', - 3013), (''EAI_PROTOCOL'', - 3014),
     (''E2BIG'', - 7), (''EACCES'', - 13), (''EADDRINUSE'', - 98), (''EADDRNOTAVAIL'', - 99),
     (''EAFNOSUPPORT'', - 97), (''EAGAIN'', - 11), (''EALREADY'', - 114), (''EBADF'', - 9),
     (''EBUSY'', - 16), (''ECANCELED'', - 125), (''ECONNABORTED'', - 103), (''ECONNREFUSED'', - 111),
     (''ECONNRESET'', - 104), (''EDESTADDRREQ'', - 89), (''EEXIST'', - 17), (''EFAULT'', - 14),
     (''EHOSTUNREACH'', - 113), (''EINTR'', - 4), (''EINVAL'', - 22), (''EIO'', - 5),
     (''EISCONN'', - 106), (''EISDIR'', - 21), (''ELOOP'', - 40), (''EMFILE'', - 24),
     (''EMSGSIZE'', - 90), (''ENAMETOOLONG'', - 36), (''ENETDOWN'', - 100), (''ENETUNREACH'', - 101),
     (''ENFILE'', - 23), (''ENOBUFS'', - 105), (''ENODEV'', - 19), (''ENOENT'', - 2),
     (''ENOMEM'', - 12), (''ENONET'', - 64), (''ENOSPC'', - 28), (''ENOSYS'', - 38),
     (''ENOTCONN'', - 107), (''ENOTDIR'', - 20), (''ENOTEMPTY'', - 39), (''ENOTSOCK'', - 88),
     (''ENOTSUP'', - 95), (''EPERM'', - 1), (''EPIPE'', - 32), (''EPROTO'', - 71),
     (''EPROTONOSUPPORT'', - 93), (''EPROTOTYPE'', - 91), (''EROFS'', - 30), (''ESHUTDOWN'', - 108),
     (''ESPIPE'', - 29), (''ESRCH'', - 3), (''ETIMEDOUT'', - 110), (''ETXTBSY'', - 26),
     (''EXDEV'', - 18), (''EFBIG'', - 27), (''ENOPROTOOPT'', - 92), (''ERANGE'', - 34),
     (''ENXIO'', - 6), (''EMLINK'', - 31), (''EHOSTDOWN'', - 112)]"

definition uv_errno_map :: "(string \<times> string) list" where
  "uv_errno_map =
    [(''E2BIG'', ''argument list too long''),
     (''EACCES'', ''permission denied''),
     (''EADDRINUSE'', ''address already in use''),
     (''EADDRNOTAVAIL'', ''address not available''),
     (''EAFNOSUPPORT'', ''address family not supported''),
     (''EAGAIN'', ''resource temporarily unavailable''),
     (''EAI_ADDRFAMILY'', ''address family not supported''),
     (''EAI_AGAIN'', ''temporary failure''),
     (''EAI_BADFLAGS'', ''bad ai_flags value''),
     (''EAI_BADHINTS'', ''invalid value for hints''),
     (''EAI_CANCELED'', ''request canceled''),
     (''EAI_FAIL'', ''permanent failure''),
     (''EAI_FAMILY'', ''ai_family not supported''),
     (''EAI_MEMORY'', ''out of memory''),
     (''EAI_NODATA'', ''no address''),
     (''EAI_NONAME'', ''unknown node or service''),
     (''EAI_OVERFLOW'', ''argument buffer overflow''),
     (''EAI_PROTOCOL'', ''resolved protocol is unknown''),
     (''EAI_SERVICE'', ''service not available for socket type''),
     (''EAI_SOCKTYPE'', ''socket type not supported''),
     (''EALREADY'', ''connection already in progress''),
     (''EBADF'', ''bad file descriptor''),
     (''EBUSY'', ''resource busy or locked''),
     (''ECANCELED'', ''operation canceled''),
     (''ECONNABORTED'', ''software caused connection abort''),
     (''ECONNREFUSED'', ''connection refused''),
     (''ECONNRESET'', ''connection reset by peer''),
     (''EDESTADDRREQ'', ''destination address required''),
     (''EEXIST'', ''file already exists''),
     (''EFAULT'', ''bad address in system call argument''),
     (''EFBIG'', ''file too large''),
     (''EHOSTUNREACH'', ''host is unreachable''),
     (''EINTR'', ''interrupted system call''),
     (''EINVAL'', ''invalid argument''),
     (''EIO'', ''i/o error''),
     (''EISCONN'', ''socket is already connected''),
     (''EISDIR'', ''illegal operation on a directory''),
     (''ELOOP'', ''too many symbolic links encountered''),
     (''EMFILE'', ''too many open files''),
     (''EMSGSIZE'', ''message too long''),
     (''ENAMETOOLONG'', ''name too long''),
     (''ENETDOWN'', ''network is down''),
     (''ENETUNREACH'', ''network is unreachable''),
     (''ENFILE'', ''file table overflow''),
     (''ENOBUFS'', ''no buffer space available''),
     (''ENODEV'', ''no such device''),
     (''ENOENT'', ''no such file or directory''),
     (''ENOMEM'', ''not enough memory''),
     (''ENONET'', ''machine is not on the network''),
     (''ENOPROTOOPT'', ''protocol not available''),
     (''ENOSPC'', ''no space left on device''),
     (''ENOSYS'', ''function not implemented''),
     (''ENOTCONN'', ''socket is not connected''),
     (''ENOTDIR'', ''not a directory''),
     (''ENOTEMPTY'', ''directory not empty''),
     (''ENOTSOCK'', ''socket operation on non-socket''),
     (''ENOTSUP'', ''operation not supported on socket''),
     (''EPERM'', ''operation not permitted''),
     (''EPIPE'', ''broken pipe''),
     (''EPROTO'', ''protocol error''),
     (''EPROTONOSUPPORT'', ''protocol not supported''),
     (''EPROTOTYPE'', ''protocol wrong type for socket''),
     (''ERANGE'', ''result too large''),
     (''EROFS'', ''read-only file system''),
     (''ESHUTDOWN'', ''cannot send after transport endpoint shutdown''),
     (''ESPIPE'', ''invalid seek''),
     (''ESRCH'', ''no such process''),
     (''ETIMEDOUT'', ''connection timed out''),
     (''EXDEV'', ''cross-device link not permitted''),
     (''UNKNOWN'', ''unknown error''),
     (''EOF'', ''end of file''),
     (''ENXIO'', ''no such device or address''),
     (''EMLINK'', ''too many links''),
     (''EHOSTDOWN'', ''host is down'')]"

definition uv_code :: "string \<Rightarrow> int option" where
  "uv_code name = map_of uv_errno_codes name"

text \<open>\<open>%d\<close>, \<open>uv__strdup\<close> and \<open>uv__strndup\<close>.  A string that \<open>malloc\<close> has no memory for is \<open>None\<close>.\<close>

definition show_int :: "int \<Rightarrow> string" where
  "show_int n = (if n < 0 then ''-'' @ dec (nat (- n)) else dec (nat n))"

definition uv__strndup :: "string \<Rightarrow> nat \<Rightarrow> 'a kern_scheme \<Rightarrow> (string option \<times> 'a kern_scheme) option" where
  "uv__strndup str n s = do {
     let len = length str;
     let len = (if n < len then n else len);
     (r, s) \<leftarrow> syscall (Malloc (int len + 1)) s;
     Some (if r_ret r = - 1 then None else Some (take len str), s)
   }"

definition uv__strdup :: "string \<Rightarrow> 'a kern_scheme \<Rightarrow> (string option \<times> 'a kern_scheme) option" where
  "uv__strdup str s = do {
     let len = length str + 1;
     (r, s) \<leftarrow> syscall (Malloc (int len)) s;
     Some (if r_ret r = - 1 then None else Some str, s)
   }"

definition uv__unknown_err_code :: "int \<Rightarrow> 'a kern_scheme \<Rightarrow> (string \<times> 'a kern_scheme) option" where
  "uv__unknown_err_code err s = do {
     let buf = take 31 (''Unknown system error '' @ show_int err);
     (copy, s) \<leftarrow> uv__strdup buf s;
     Some (case copy of Some c \<Rightarrow> c | None \<Rightarrow> ''Unknown system error'', s)
   }"

text \<open>The case of the \<open>switch\<close> for a code.\<close>

definition err_entry :: "int \<Rightarrow> (string \<times> string) option" where
  "err_entry err = find (\<lambda>(name, msg). uv_code name = Some err) uv_errno_map"

definition uv_err_name :: "int \<Rightarrow> 'a kern_scheme \<Rightarrow> (string \<times> 'a kern_scheme) option" where
  "uv_err_name err s =
     (case err_entry err of Some (name, _) \<Rightarrow> Some (name, s) | None \<Rightarrow> uv__unknown_err_code err s)"

definition uv_strerror :: "int \<Rightarrow> 'a kern_scheme \<Rightarrow> (string \<times> 'a kern_scheme) option" where
  "uv_strerror err s =
     (case err_entry err of Some (_, msg) \<Rightarrow> Some (msg, s) | None \<Rightarrow> uv__unknown_err_code err s)"

section \<open>Socket addresses\<close>

text \<open>\<open>sin_port\<close> in network byte order, \<open>sin_addr\<close> and \<open>sin6_scope_id\<close>.\<close>

record sockaddr =
  sa_family :: int
  sa_port :: "u8 list"
  sa_addr :: "u8 list"
  sa_scope :: int

definition htons :: "int \<Rightarrow> u8 list" where
  "htons port = [of_int (port div 256), of_int port]"

definition uv_ip4_addr :: "string \<Rightarrow> int \<Rightarrow> int \<times> sockaddr" where
  "uv_ip4_addr ip port =
     (let addr = \<lparr>sa_family = AF_INET, sa_port = htons port, sa_addr = replicate 4 0, sa_scope = 0\<rparr>
      in case uv_inet_pton AF_INET (Some ip) False of
           Inl err \<Rightarrow> (err, addr)
         | Inr bs \<Rightarrow> (0, addr\<lparr>sa_addr := bs\<rparr>))"

text \<open>The part before \<open>%\<close> goes to a buffer of 40 bytes; the rest names the interface.\<close>

definition uv_ip6_addr :: "string \<Rightarrow> int \<Rightarrow> 'a kern_scheme \<Rightarrow> (int \<times> sockaddr \<times> 'a kern_scheme) option" where
  "uv_ip6_addr ip port s = do {
     let addr = \<lparr>sa_family = AF_INET6, sa_port = htons port, sa_addr = replicate 16 0, sa_scope = 0\<rparr>;
     (ip, addr, s) \<leftarrow> (case strchr ip (CHR ''%'') of
         None \<Rightarrow> Some (ip, addr, s)
       | Some address_part_size \<Rightarrow> do {
           let zone_index = drop (address_part_size + 1) ip;
           let address_part_size = (if address_part_size \<ge> 40 then 39 else address_part_size);
           (r, s) \<leftarrow> syscall (SysPath ''if_nametoindex'' [zone_index] []) s;
           Some (take address_part_size ip, addr\<lparr>sa_scope := r_ret r\<rparr>, s)
         });
     Some (case uv_inet_pton AF_INET6 (Some ip) False of
         Inl err \<Rightarrow> (err, addr, s)
       | Inr bs \<Rightarrow> (0, addr\<lparr>sa_addr := bs\<rparr>, s))
   }"

definition uv_ip4_name :: "sockaddr \<Rightarrow> nat \<Rightarrow> int + string" where
  "uv_ip4_name src dlen = uv_inet_ntop AF_INET (sa_addr src) dlen"

definition uv_ip6_name :: "sockaddr \<Rightarrow> nat \<Rightarrow> int + string" where
  "uv_ip6_name src dlen = uv_inet_ntop AF_INET6 (sa_addr src) dlen"

text \<open>The test with which \<open>uv_tcp_bind\<close> and its like begin, and the length of the address they pass on.\<close>

definition addrlen_of :: "uv_handle_type \<Rightarrow> uv_handle_type \<Rightarrow> sockaddr \<Rightarrow> int + nat" where
  "addrlen_of wanted type addr =
     (if type \<noteq> wanted then Inl (- EINVAL)
      else if sa_family addr = AF_INET then Inr 16
      else if sa_family addr = AF_INET6 then Inr 28
      else Inl (- EINVAL))"

definition uv__count_bufs :: "u8 list list \<Rightarrow> u64" where
  "uv__count_bufs bufs = fold (\<lambda>b bytes. bytes + of_nat (length b)) bufs 0"

section \<open>Listing of handles\<close>

definition type_name :: "uv_handle_type \<Rightarrow> string" where
  "type_name t =
     (case t of
        UV_ASYNC \<Rightarrow> ''async'' | UV_CHECK \<Rightarrow> ''check'' | UV_FS_EVENT \<Rightarrow> ''fs_event'' | UV_FS_POLL \<Rightarrow> ''fs_poll''
      | UV_HANDLE \<Rightarrow> ''handle'' | UV_IDLE \<Rightarrow> ''idle'' | UV_NAMED_PIPE \<Rightarrow> ''pipe'' | UV_POLL \<Rightarrow> ''poll''
      | UV_PREPARE \<Rightarrow> ''prepare'' | UV_PROCESS \<Rightarrow> ''process'' | UV_STREAM \<Rightarrow> ''stream'' | UV_TCP \<Rightarrow> ''tcp''
      | UV_TIMER \<Rightarrow> ''timer'' | UV_TTY \<Rightarrow> ''tty'' | UV_UDP \<Rightarrow> ''udp'' | UV_SIGNAL \<Rightarrow> ''signal''
      | _ \<Rightarrow> ''<unknown>'')"

definition handle_line :: "'a loop_scheme \<Rightarrow> addr \<Rightarrow> string \<times> string \<times> addr" where
  "handle_line s h =
     ([if has_flag (flags_of s h) UV__HANDLE_REF then CHR ''R'' else CHR ''-'',
       if has_flag (flags_of s h) UV__HANDLE_ACTIVE then CHR ''A'' else CHR ''-'',
       if has_flag (flags_of s h) UV__HANDLE_INTERNAL then CHR ''I'' else CHR ''-''],
      type_name (h_type (hnd s h)), h)"

definition uv__print_handles :: "bool \<Rightarrow> 'a loop_scheme \<Rightarrow> (string \<times> string \<times> addr) list" where
  "uv__print_handles only_active s =
     map (handle_line s) (filter (\<lambda>h. \<not> (only_active \<and> \<not> uv__is_active h s)) (handle_queue s))"

definition uv_print_all_handles :: "'a loop_scheme \<Rightarrow> (string \<times> string \<times> addr) list" where
  "uv_print_all_handles s = uv__print_handles False s"

definition uv_print_active_handles :: "'a loop_scheme \<Rightarrow> (string \<times> string \<times> addr) list" where
  "uv_print_active_handles s = uv__print_handles True s"

section \<open>Environment\<close>

text \<open>
  A function that fills a buffer of \<open>*size\<close> bytes: the result is the error code, the C string it
  leaves in the buffer (\<open>None\<close> if it writes nothing) and the new \<open>*size\<close>.
\<close>

definition uv_cwd :: "bool \<Rightarrow> nat option \<Rightarrow> 'a kern_scheme \<Rightarrow> (int \<times> string option \<times> nat option \<times> 'a kern_scheme) option" where
  "uv_cwd buffer_null sz s =
     (case sz of
        None \<Rightarrow> Some (- EINVAL, None, None, s)
      | Some n \<Rightarrow>
          if buffer_null then Some (- EINVAL, None, sz, s)
          else do {
            (r, s) \<leftarrow> syscall (Getcwd (int n)) s;
            case r_str r of
              None \<Rightarrow> Some (- errno s, None, sz, s)
            | Some buf \<Rightarrow>
                let n = length buf
                in if n > 1 \<and> buf ! (n - 1) = CHR ''/'' then Some (0, Some (take (n - 1) buf), Some (n - 1), s)
                   else Some (0, Some buf, Some n, s)
          })"

record uv_passwd =
  pw_username :: "string option"
  pw_shell :: "string option"
  pw_homedir :: "string option"

text \<open>
  \<open>getpwuid_r\<close> returns 0 or an error number; when it finds the user, \<open>r_strs\<close> are the name, the
  directory and the shell.  The loop doubles the buffer while it is too small.
\<close>

function getpwuid_loop :: "int \<Rightarrow> 'a kern_scheme \<Rightarrow> ((int + string list) \<times> 'a kern_scheme) option" where
  "getpwuid_loop bufsize s =
     (case syscall (Malloc bufsize) s of
        None \<Rightarrow> None
      | Some (m, t) \<Rightarrow>
          if r_ret m = - 1 then Some (Inl (- ENOMEM), t)
          else (case syscall (Getpwuid_r bufsize) t of
              None \<Rightarrow> None
            | Some (r, u) \<Rightarrow>
                if r_ret r = ERANGE then getpwuid_loop (bufsize * 2) u
                else if r_ret r \<noteq> 0 then Some (Inl (- r_ret r), u)
                else if r_strs r = [] then Some (Inl (- ENOENT), u)
                else Some (Inr (r_strs r), u)))"
  by pat_completeness auto
termination
  by (relation "measure (\<lambda>(b, s). length (replies s))") (auto dest!: syscall_shorter)

declare getpwuid_loop.simps [simp del]

definition uv__getpwuid_r :: "bool \<Rightarrow> 'a kern_scheme \<Rightarrow> ((int + uv_passwd) \<times> 'a kern_scheme) option" where
  "uv__getpwuid_r pwd_null s =
     (if pwd_null then Some (Inl (- EINVAL), s)
      else do {
        (r, s) \<leftarrow> syscall (Sysconf 70) s;
        let bufsize = (if r_ret r \<le> 0 then 4096 else r_ret r);
        (found, s) \<leftarrow> getpwuid_loop bufsize s;
        case found of
          Inl err \<Rightarrow> Some (Inl err, s)
        | Inr strs \<Rightarrow> do {
            let (name, dir, sh) = (strs ! 0, strs ! 1, strs ! 2);
            let name_size = length name + 1;
            let homedir_size = length dir + 1;
            let shell_size = length sh + 1;
            (m, s) \<leftarrow> syscall (Malloc (int (name_size + homedir_size + shell_size))) s;
            if r_ret m = - 1 then Some (Inl (- ENOMEM), s)
            else Some (Inr \<lparr>pw_username = Some name, pw_shell = Some sh, pw_homedir = Some dir\<rparr>, s)
          }
      })"

definition uv_os_get_passwd :: "bool \<Rightarrow> 'a kern_scheme \<Rightarrow> ((int + uv_passwd) \<times> 'a kern_scheme) option" where
  "uv_os_get_passwd pwd_null s = uv__getpwuid_r pwd_null s"

definition uv_os_free_passwd :: "uv_passwd option \<Rightarrow> uv_passwd option" where
  "uv_os_free_passwd pwd =
     map_option (\<lambda>p. p\<lparr>pw_username := None, pw_shell := None, pw_homedir := None\<rparr>) pwd"

text \<open>The copy of a string to the caller's buffer, with the size needed when it does not fit.\<close>

definition return_string :: "string \<Rightarrow> nat \<Rightarrow> int \<times> string option \<times> nat" where
  "return_string buf sz =
     (let len = length buf
      in if len \<ge> sz then (- ENOBUFS, None, len + 1) else (0, Some buf, len))"

definition uv_os_homedir :: "bool \<Rightarrow> nat option \<Rightarrow> 'a kern_scheme \<Rightarrow> (int \<times> string option \<times> nat option \<times> 'a kern_scheme) option" where
  "uv_os_homedir buffer_null sz s =
     (case sz of
        None \<Rightarrow> Some (- EINVAL, None, None, s)
      | Some n \<Rightarrow>
          if buffer_null \<or> n = 0 then Some (- EINVAL, None, sz, s)
          else do {
            (r, s) \<leftarrow> syscall (Getenv ''HOME'') s;
            case r_str r of
              Some buf \<Rightarrow> let (rc, out, n) = return_string buf n in Some (rc, out, Some n, s)
            | None \<Rightarrow> do {
                (p, s) \<leftarrow> uv__getpwuid_r False s;
                case p of
                  Inl err \<Rightarrow> Some (err, None, sz, s)
                | Inr pwd \<Rightarrow> do {
                    dir \<leftarrow> pw_homedir pwd;
                    let (rc, out, n) = return_string dir n;
                    Some (rc, out, Some n, s)
                  }
              }
          })"

text \<open>The first of the variables that is set.\<close>

fun first_env :: "string list \<Rightarrow> 'a kern_scheme \<Rightarrow> (string option \<times> 'a kern_scheme) option" where
  "first_env [] s = Some (None, s)"
| "first_env (name # names) s = do {
     (r, s) \<leftarrow> syscall (Getenv name) s;
     if r_str r \<noteq> None then Some (r_str r, s) else first_env names s
   }"

definition uv_os_tmpdir :: "bool \<Rightarrow> nat option \<Rightarrow> 'a kern_scheme \<Rightarrow> (int \<times> string option \<times> nat option \<times> 'a kern_scheme) option" where
  "uv_os_tmpdir buffer_null sz s =
     (case sz of
        None \<Rightarrow> Some (- EINVAL, None, None, s)
      | Some n \<Rightarrow>
          if buffer_null \<or> n = 0 then Some (- EINVAL, None, sz, s)
          else do {
            (env, s) \<leftarrow> first_env [''TMPDIR'', ''TMP'', ''TEMP'', ''TEMPDIR''] s;
            let buf = (case env of Some b \<Rightarrow> b | None \<Rightarrow> ''/tmp'');
            let len = length buf;
            if len \<ge> n then Some (- ENOBUFS, None, Some (len + 1), s)
            else do {
              let len = (if len > 1 \<and> buf ! (len - 1) = CHR ''/'' then len - 1 else len);
              Some (0, Some (take len buf), Some len, s)
            }
          })"

text \<open>\<open>uv__getiovmax\<close>: \<open>IOV_MAX\<close> is a constant of Linux.\<close>

definition uv__getiovmax :: nat where
  "uv__getiovmax = 1024"

section \<open>Directory entries\<close>

text \<open>
  The result of \<open>uv_fs_scandir\<close>: the array of entries, each with a name and a type, and how many
  were given out.  \<open>d_freed\<close> is a ghost record of the indices freed, in order.
\<close>

datatype uv_dirent_type =
    UV_DIRENT_UNKNOWN | UV_DIRENT_FILE | UV_DIRENT_DIR | UV_DIRENT_LINK | UV_DIRENT_FIFO
  | UV_DIRENT_SOCKET | UV_DIRENT_CHAR | UV_DIRENT_BLOCK

record dir_req =
  d_result :: int
  d_ptr :: "(string \<times> int) list option"
  d_nbufs :: nat
  d_freed :: "nat list"

definition dirent_type :: "int \<Rightarrow> uv_dirent_type" where
  "dirent_type d_type =
     (if d_type = 4 then UV_DIRENT_DIR else if d_type = 8 then UV_DIRENT_FILE
      else if d_type = 10 then UV_DIRENT_LINK else if d_type = 1 then UV_DIRENT_FIFO
      else if d_type = 12 then UV_DIRENT_SOCKET else if d_type = 2 then UV_DIRENT_CHAR
      else if d_type = 6 then UV_DIRENT_BLOCK else UV_DIRENT_UNKNOWN)"

definition uv_fs_scandir_next :: "dir_req \<Rightarrow> int \<times> (string \<times> uv_dirent_type) option \<times> dir_req" where
  "uv_fs_scandir_next req =
     (if d_result req < 0 then (d_result req, None, req)
      else case d_ptr req of
        None \<Rightarrow> (UV_EOF, None, req)
      | Some dents \<Rightarrow>
          let req = (if d_nbufs req > 0 then req\<lparr>d_freed := d_freed req @ [d_nbufs req - 1]\<rparr> else req)
          in if d_nbufs req = nat (d_result req) then (UV_EOF, None, req\<lparr>d_ptr := None\<rparr>)
             else let dent = dents ! d_nbufs req
                  in (0, Some (fst dent, dirent_type (snd dent)), req\<lparr>d_nbufs := d_nbufs req + 1\<rparr>))"

definition uv__fs_scandir_cleanup :: "dir_req \<Rightarrow> dir_req" where
  "uv__fs_scandir_cleanup req =
     (let n = (if d_nbufs req > 0 \<and> d_nbufs req \<noteq> nat (d_result req) then d_nbufs req - 1 else d_nbufs req)
      in req\<lparr>d_freed := d_freed req @ [n ..< nat (d_result req)], d_nbufs := max n (nat (d_result req)), d_ptr := None\<rparr>)"

fun scandir_take :: "nat \<Rightarrow> dir_req \<Rightarrow> (string \<times> uv_dirent_type) option list \<times> dir_req" where
  "scandir_take 0 req = ([], req)"
| "scandir_take (Suc n) req =
     (let (rc, ent, req) = uv_fs_scandir_next req; (ents, req) = scandir_take n req in (ent # ents, req))"

section \<open>Lemmas\<close>

lemma distinct_codes: "distinct (map snd uv_errno_codes)" "distinct (map fst uv_errno_codes)" "distinct (map fst uv_errno_map)"
  by code_simp+

lemma entry_code:
  assumes "(name, msg) \<in> set uv_errno_map" "uv_code name = Some c"
  shows "err_entry c = Some (name, msg)"
proof -
  have only: "uv_code n = Some c \<Longrightarrow> n = name" for n
    using assms(2) distinct_codes(1) unfolding uv_code_def
    by (metis distinct_map fst_conv inj_onD map_of_SomeD snd_conv)
  have "find (\<lambda>(name, msg). uv_code name = Some c) xs = Some (name, msg)"
    if "(name, msg) \<in> set xs" "distinct (map fst xs)" for xs :: "(string \<times> string) list"
    using that
  proof (induction xs)
    case (Cons x xs)
    obtain n m where x: "x = (n, m)" by (rule prod.exhaust)
    show ?case
    proof (cases "n = name")
      case True
      then have "(name, msg) \<notin> set xs" using Cons.prems x by force
      then show ?thesis using Cons.prems x True assms(2) by simp
    next
      case False
      then have "uv_code n \<noteq> Some c" using only by blast
      then show ?thesis using Cons x False by simp
    qed
  qed simp
  then show ?thesis using assms(1) distinct_codes(3) by (simp add: err_entry_def)
qed

lemma strchr_append: "c \<notin> set xs \<Longrightarrow> strchr (xs @ c # ys) c = Some (length xs)"
  by (induction xs) auto

lemma scandir_next_step:
  assumes "d_result req = int (length dents)" "d_ptr req = Some dents" "d_nbufs req = k" "k < length dents" "d_freed req = [0 ..< k - 1]"
  shows "uv_fs_scandir_next req = (0, Some (fst (dents ! k), dirent_type (snd (dents ! k))),
     req\<lparr>d_nbufs := Suc k, d_freed := [0 ..< Suc k - 1]\<rparr>)"
  using assms by (cases k) (simp_all add: uv_fs_scandir_next_def Let_def)

lemma scandir_take_some:
  "d_result req = int (length dents) \<Longrightarrow> d_ptr req = Some dents \<Longrightarrow> d_nbufs req = k \<Longrightarrow> k + n \<le> length dents \<Longrightarrow>
   d_freed req = [0 ..< k - 1] \<Longrightarrow>
   scandir_take n req = (map (\<lambda>(name, t). Some (name, dirent_type t)) (take n (drop k dents)),
     req\<lparr>d_nbufs := k + n, d_freed := [0 ..< k + n - 1]\<rparr>)"
proof (induction n arbitrary: req k)
  case 0
  then show ?case by (cases req) simp
next
  case (Suc n)
  have step: "uv_fs_scandir_next req = (0, Some (fst (dents ! k), dirent_type (snd (dents ! k))),
      req\<lparr>d_nbufs := Suc k, d_freed := [0 ..< Suc k - 1]\<rparr>)"
    using Suc.prems by (intro scandir_next_step) auto
  have "take (Suc n) (drop k dents) = dents ! k # take n (drop (Suc k) dents)"
    using Suc.prems(4) by (simp add: Cons_nth_drop_Suc [symmetric])
  then show ?case using Suc.IH [of "req\<lparr>d_nbufs := Suc k, d_freed := [0 ..< Suc k - 1]\<rparr>" "Suc k"] Suc.prems
    by (simp add: step case_prod_beta)
qed

section \<open>Properties\<close>

text \<open>Every error code of the library has exactly its own name and message: the codes are
  pairwise different, and the functions that look a code up return the entry of the map for it
  without an allocation.\<close>
theorem error_codes_have_names:
  assumes "(name, msg) \<in> set uv_errno_map"
  shows "\<exists>c. uv_code name = Some c \<and> c < 0 \<and> uv_err_name c s = Some (name, s) \<and> uv_strerror c s = Some (msg, s)"
proof -
  have "\<forall>(name, msg) \<in> set uv_errno_map. case uv_code name of Some c \<Rightarrow> c < 0 | None \<Rightarrow> False" by code_simp
  then obtain c where "uv_code name = Some c" "c < 0" using assms by (fastforce split: option.splits)
  then show ?thesis using entry_code [OF assms] by (auto simp: uv_err_name_def uv_strerror_def)
qed

theorem error_codes_have_names_witness:
  "\<exists>c. uv_code ''ENOENT'' = Some c \<and> c < 0 \<and> uv_err_name c (kern_with []) = Some (''ENOENT'', kern_with [])
     \<and> uv_strerror c (kern_with []) = Some (''no such file or directory'', kern_with [])"
  by (rule error_codes_have_names) code_simp

text \<open>Reading the entries of a directory gives each once, in order, and frees the entry before;
  a read behind the last gives \<open>UV_EOF\<close> and has then freed every entry exactly once.  The cleanup
  before the end frees every entry that is left - but not the last one, when exactly all entries were
  read and the end was not asked for: that entry is lost.\<close>
theorem scandir_frees_entries:
  assumes "k \<le> length dents"
    and "req = \<lparr>d_result = int (length dents), d_ptr = Some dents, d_nbufs = 0, d_freed = []\<rparr>"
  shows "fst (scandir_take k req) = map (\<lambda>(name, t). Some (name, dirent_type t)) (take k dents)
    \<and> d_freed (uv__fs_scandir_cleanup (snd (scandir_take k req)))
        = (if k = length dents then [0 ..< k - 1] else [0 ..< length dents])
    \<and> (k = length dents \<longrightarrow> fst (uv_fs_scandir_next (snd (scandir_take k req))) = UV_EOF
        \<and> d_freed (snd (snd (uv_fs_scandir_next (snd (scandir_take k req))))) = [0 ..< k])"
proof -
  have t: "scandir_take k req = (map (\<lambda>(name, t). Some (name, dirent_type t)) (take k dents),
      req\<lparr>d_nbufs := k, d_freed := [0 ..< k - 1]\<rparr>)"
    using scandir_take_some [of req dents 0 k] assms by simp
  have f: "d_result req = int (length dents)" "d_ptr req = Some dents" using assms(2) by simp_all
  have "[0 ..< k - 1] @ [k - 1 ..< length dents] = [0 ..< length dents]"
    using assms(1) upt_add_eq_append [of 0 "k - 1" "length dents - (k - 1)"] by simp
  then have c: "d_freed (uv__fs_scandir_cleanup (snd (scandir_take k req)))
      = (if k = length dents then [0 ..< k - 1] else [0 ..< length dents])"
    using assms(1) f unfolding t by (cases "k = 0"; cases "k = length dents") (simp_all add: uv__fs_scandir_cleanup_def Let_def)
  have "k > 0 \<Longrightarrow> [0 ..< k - 1] @ [k - 1] = [0 ..< k]" using upt_Suc_append [of 0 "k - 1"] by simp
  then have "k = length dents \<Longrightarrow> fst (uv_fs_scandir_next (snd (scandir_take k req))) = UV_EOF
      \<and> d_freed (snd (snd (uv_fs_scandir_next (snd (scandir_take k req))))) = [0 ..< k]"
    using f unfolding t by (cases "k = 0") (simp_all add: uv_fs_scandir_next_def Let_def)
  with c show ?thesis by (simp add: t)
qed

theorem scandir_frees_entries_witness:
  "d_freed (uv__fs_scandir_cleanup (snd (scandir_take 2
     \<lparr>d_result = 2, d_ptr = Some [(''a'', 8), (''b'', 4)], d_nbufs = 0, d_freed = []\<rparr>))) = [0]"
  using scandir_frees_entries [of 2 "[(''a'', 8), (''b'', 4)]"
    "\<lparr>d_result = 2, d_ptr = Some [(''a'', 8), (''b'', 4)], d_nbufs = 0, d_freed = []\<rparr>"] by simp

text \<open>\<open>uv_ip6_addr\<close> reads the address before the zone as \<open>uv_inet_pton\<close> reads it alone, as long as it
  has at most 39 characters.  A longer one is cut to 39 characters without an error: the address that
  ends in \<open>10.2.3.100\<close> becomes the one that ends in \<open>10.2.3.10\<close> when a zone is given.\<close>
theorem ip6_zone_truncates:
  "(CHR ''%'' \<notin> set part \<and> length part \<le> 39 \<and> replies s = r # rs
     \<longrightarrow> (\<exists>rc addr t. uv_ip6_addr (part @ CHR ''%'' # zone) port s = Some (rc, addr, t) \<and> sa_scope addr = r_ret r
       \<and> (case uv_inet_pton AF_INET6 (Some part) False of Inl err \<Rightarrow> rc = err | Inr bs \<Rightarrow> rc = 0 \<and> sa_addr addr = bs)))
   \<and> uv_inet_pton AF_INET6 (Some ''0000:0000:0000:0000:0000:ffff:10.2.3.100'') False
        = Inr [0, 0, 0, 0, 0, 0, 0, 0, 0, 0, 255, 255, 10, 2, 3, 100]
   \<and> map_option (\<lambda>(rc, addr, t). (rc, sa_addr addr))
        (uv_ip6_addr ''0000:0000:0000:0000:0000:ffff:10.2.3.100%1'' 80 (kern_with [ret 1]))
        = Some (0, [0, 0, 0, 0, 0, 0, 0, 0, 0, 0, 255, 255, 10, 2, 3, 10])"
proof (intro conjI impI)
  assume a: "CHR ''%'' \<notin> set part \<and> length part \<le> 39 \<and> replies s = r # rs"
  then have "strchr (part @ CHR ''%'' # zone) (CHR ''%'') = Some (length part)" using strchr_append by blast
  with a show "\<exists>rc addr t. uv_ip6_addr (part @ CHR ''%'' # zone) port s = Some (rc, addr, t) \<and> sa_scope addr = r_ret r
       \<and> (case uv_inet_pton AF_INET6 (Some part) False of Inl err \<Rightarrow> rc = err | Inr bs \<Rightarrow> rc = 0 \<and> sa_addr addr = bs)"
    by (cases "uv_inet_pton AF_INET6 (Some part) False") (auto simp: uv_ip6_addr_def)
qed (code_simp, code_simp)

theorem ip6_zone_truncates_witness:
  "\<exists>rc addr t. uv_ip6_addr ''fe80::1%eth0'' 80 (kern_with [ret 7]) = Some (rc, addr, t) \<and> sa_scope addr = 7"
proof -
  have "replies (kern_with [ret 7]) = ret 7 # []" by (simp add: kern_with_def)
  with conjunct1 [OF ip6_zone_truncates [of "''fe80::1''" "kern_with [ret 7]" "ret 7" "[]" "''eth0''" 80]]
  show ?thesis by (auto simp: ret_def)
qed

end
