(* ===== verification/Async.thy ===== *)
theory Async
  imports Io Common
begin

text \<open>
  Async handles, \<open>src/unix/async.cpp\<close>: waking the loop from another thread.  A watcher embedded in a
  handle has the handle's address.  The loop's own \<open>async_watcher\<close> is the watcher at that address and
  the write end \<open>async_wfd\<close>, which is -1 when the descriptor is an eventfd.  The last section treats
  the senders as threads: a step relation over the atomic operations of \<open>uv_async_send\<close> and of the
  loop.
\<close>

datatype async_cb = User_async_cb | uv__work_done_cb

record uv_async =
  a_cb :: "async_cb option"
  a_pending :: bool

record aloop = iloop +
  asyncs :: "addr \<Rightarrow> uv_async"
  async_handles :: "addr list"
  async_local :: "addr list"
  async_watcher :: addr
  async_wfd :: int

abbreviation (input) O_RDWR :: int where "O_RDWR \<equiv> 2"
abbreviation (input) EFD_CLOEXEC :: int where "EFD_CLOEXEC \<equiv> 524288"
abbreviation (input) EFD_NONBLOCK :: int where "EFD_NONBLOCK \<equiv> 2048"

definition upd_async :: "addr \<Rightarrow> (uv_async \<Rightarrow> uv_async) \<Rightarrow> 'a aloop_scheme \<Rightarrow> 'a aloop_scheme" where
  "upd_async h f s = s\<lparr>asyncs := (asyncs s)(h := f (asyncs s h))\<rparr>"

section \<open>The descriptor\<close>

text \<open>\<open>eventfd2\<close> is the call with flags; the static variables remember what is missing.\<close>

definition uv__async_eventfd :: "'a kern_scheme \<Rightarrow> (int \<times> 'a kern_scheme) option" where
  "uv__async_eventfd s = do {
     (got, s) \<leftarrow> (if statics s ''no_eventfd2'' then Some (None, s) else do {
       (r, s) \<leftarrow> syscall (Sys ''eventfd2'' [0, EFD_CLOEXEC OR EFD_NONBLOCK]) s;
       if r_ret r \<noteq> - 1 then Some (Some (r_ret r), s)
       else if errno s \<noteq> ENOSYS then Some (Some (- errno s), s)
       else Some (None, set_static ''no_eventfd2'' s)
     });
     case got of
       Some fd \<Rightarrow> Some (fd, s)
     | None \<Rightarrow>
         if statics s ''no_eventfd'' then Some (- ENOSYS, s)
         else do {
           (r, s) \<leftarrow> syscall (Eventfd 0) s;
           if r_ret r \<noteq> - 1 then do {
             (_, s) \<leftarrow> uv__cloexec (r_ret r) 1 s;
             (_, s) \<leftarrow> uv__nonblock (r_ret r) 1 s;
             Some (r_ret r, s)
           }
           else if errno s \<noteq> ENOSYS then Some (- errno s, s)
           else Some (- ENOSYS, set_static ''no_eventfd'' s)
         }
   }"

definition uv__async_init :: "'a aloop_scheme \<Rightarrow> 'a aloop_scheme" where
  "uv__async_init s = (upd_io (async_watcher s) (\<lambda>w. w\<lparr>w_fd := - 1\<rparr>) s)\<lparr>async_wfd := - 1\<rparr>"

text \<open>A pipe opened again through \<open>/proc\<close> for both directions: one descriptor instead of two.\<close>

definition async_pipe :: "'a kern_scheme \<Rightarrow> ((int + int \<times> int) \<times> 'a kern_scheme) option" where
  "async_pipe s = do {
     (p, s) \<leftarrow> uv__make_pipe O_NONBLOCK s;
     case p of
       Inl err \<Rightarrow> Some (Inl err, s)
     | Inr pipefd \<Rightarrow> do {
         (fd, s) \<leftarrow> uv__open_cloexec (''/proc/self/fd/'' @ show_int (pipefd ! 0)) O_RDWR s;
         if fd \<ge> 0 then do {
           (_, s) \<leftarrow> uv__close (pipefd ! 0) s;
           (_, s) \<leftarrow> uv__close (pipefd ! 1) s;
           Some (Inr (fd, fd), s)
         } else Some (Inr (pipefd ! 0, pipefd ! 1), s)
       }
   }"

definition uv__async_start :: "'a aloop_scheme \<Rightarrow> (int \<times> 'a aloop_scheme) option" where
  "uv__async_start s =
     (if w_fd (io s (async_watcher s)) \<noteq> - 1 then Some (0, s)
      else do {
        (err, s) \<leftarrow> uv__async_eventfd s;
        (pair, s) \<leftarrow> (if err \<ge> 0 then Some (Inr (err, - 1), s)
                     else if err = - ENOSYS then async_pipe s
                     else Some (Inl err, s));
        case pair of
          Inl err \<Rightarrow> Some (err, s)
        | Inr (rfd, wfd) \<Rightarrow> do {
            s \<leftarrow> uv__io_init (async_watcher s) uv__async_io_cb rfd s;
            s \<leftarrow> uv__io_start (async_watcher s) POLLIN s;
            Some (0, s\<lparr>async_wfd := wfd\<rparr>)
          }
      })"

definition uv__async_stop :: "'a aloop_scheme \<Rightarrow> 'a aloop_scheme option" where
  "uv__async_stop s =
     (if w_fd (io s (async_watcher s)) = - 1 then Some s
      else do {
        s \<leftarrow> (if async_wfd s \<noteq> - 1 then do {
            s \<leftarrow> (if async_wfd s \<noteq> w_fd (io s (async_watcher s)) then map_option snd (uv__close (async_wfd s) s) else Some s);
            Some (s\<lparr>async_wfd := - 1\<rparr>)
          } else Some s);
        s \<leftarrow> uv__io_stop (async_watcher s) POLLIN s;
        (_, s) \<leftarrow> uv__close (w_fd (io s (async_watcher s))) s;
        Some (upd_io (async_watcher s) (\<lambda>w. w\<lparr>w_fd := - 1\<rparr>) s)
      })"

text \<open>One byte for a pipe, the number 1 in eight bytes for an eventfd (little endian).\<close>

definition uv__async_send :: "'a aloop_scheme \<Rightarrow> 'a aloop_scheme option" where
  "uv__async_send s = do {
     let (fd, buf) = (if async_wfd s = - 1 then (w_fd (io s (async_watcher s)), [1, 0, 0, 0, 0, 0, 0, 0])
                      else (async_wfd s, [0]));
     (r, s) \<leftarrow> eintr_loop (Write fd buf) s;
     if r_ret r = int (length buf) then Some s
     else if r_ret r = - 1 \<and> (errno s = EAGAIN \<or> errno s = EWOULDBLOCK) then Some s
     else None
   }"

section \<open>Handles\<close>

definition uv_async_init :: "addr \<Rightarrow> async_cb option \<Rightarrow> 'a aloop_scheme \<Rightarrow> (int \<times> 'a aloop_scheme) option" where
  "uv_async_init h cb s = do {
     (err, s) \<leftarrow> uv__async_start s;
     if err \<noteq> 0 then Some (err, s)
     else do {
       let s = uv__handle_init h UV_ASYNC s;
       let s = upd_async h (\<lambda>_. \<lparr>a_cb = cb, a_pending = False\<rparr>) s;
       let s = s\<lparr>async_handles := async_handles s @ [h]\<rparr>;
       Some (0, uv__handle_start h s)
     }
   }"

text \<open>\<open>cmpxchgi\<close>, as one operation, has set \<open>pending\<close>; only the thread that set it writes.\<close>

definition uv_async_send :: "addr \<Rightarrow> 'a aloop_scheme \<Rightarrow> (int \<times> 'a aloop_scheme) option" where
  "uv_async_send h s =
     (if a_pending (asyncs s h) then Some (0, s)
      else do {
        s \<leftarrow> uv__async_send (upd_async h (\<lambda>a. a\<lparr>a_pending := True\<rparr>) s);
        Some (0, s)
      })"

definition uv__async_close :: "addr \<Rightarrow> 'a aloop_scheme \<Rightarrow> 'a aloop_scheme" where
  "uv__async_close h s =
     uv__handle_stop h (s\<lparr>async_handles := remove1 h (async_handles s), async_local := remove1 h (async_local s)\<rparr>)"

text \<open>
  \<open>uv__async_event\<close>: \<open>acb\<close> is what the callbacks do.  A callback may close handles that are still in
  the local queue, so the loop reads it again every time.
\<close>

definition async_visit ::
    "(async_cb \<Rightarrow> addr \<Rightarrow> 'a aloop_scheme \<Rightarrow> 'a aloop_scheme option) \<Rightarrow> addr \<Rightarrow> 'a aloop_scheme \<Rightarrow> 'a aloop_scheme option" where
  "async_visit acb h s =
     (if \<not> a_pending (asyncs s h) then Some s
      else let s = upd_async h (\<lambda>a. a\<lparr>a_pending := False\<rparr>) s
           in case a_cb (asyncs s h) of
                None \<Rightarrow> Some s
              | Some cb \<Rightarrow> acb cb h (s\<lparr>trace := trace s @ [Async_cb h]\<rparr>))"

partial_function (option) async_event_loop ::
    "(async_cb \<Rightarrow> addr \<Rightarrow> 'a aloop_scheme \<Rightarrow> 'a aloop_scheme option) \<Rightarrow> 'a aloop_scheme \<Rightarrow> 'a aloop_scheme option" where
  "async_event_loop acb s =
     (case async_local s of
        [] \<Rightarrow> Some s
      | h # q \<Rightarrow>
          Option.bind (async_visit acb h (s\<lparr>async_local := q, async_handles := async_handles s @ [h]\<rparr>))
            (async_event_loop acb))"

definition uv__async_event ::
    "(async_cb \<Rightarrow> addr \<Rightarrow> 'a aloop_scheme \<Rightarrow> 'a aloop_scheme option) \<Rightarrow> 'a aloop_scheme \<Rightarrow> 'a aloop_scheme option" where
  "uv__async_event acb s = async_event_loop acb (s\<lparr>async_local := async_handles s, async_handles := []\<rparr>)"

text \<open>The loop that empties the descriptor; \<open>n\<close> counts the bytes, modulo \<open>2 ^ 32\<close>.\<close>

function async_drain :: "int \<Rightarrow> u32 \<Rightarrow> 'a kern_scheme \<Rightarrow> (u32 \<times> 'a kern_scheme) option" where
  "async_drain fd n s =
     (case syscall (Read fd 1024) s of
        None \<Rightarrow> None
      | Some (r, t) \<Rightarrow>
          let n = (if r_ret r > 0 then n + of_int (r_ret r) else n)
          in if r_ret r = 1024 then async_drain fd n t
             else if r_ret r \<noteq> - 1 then Some (n, t)
             else if errno t = EAGAIN \<or> errno t = EWOULDBLOCK then Some (n, t)
             else if errno t = EINTR then async_drain fd n t
             else None)"
  by pat_completeness auto
termination
  by (relation "measure (\<lambda>(fd, n, s). length (replies s))") (auto dest!: syscall_shorter)

declare async_drain.simps [simp del]

definition uv__async_io ::
    "(async_cb \<Rightarrow> addr \<Rightarrow> 'a aloop_scheme \<Rightarrow> 'a aloop_scheme option) \<Rightarrow> addr \<Rightarrow> 'a aloop_scheme \<Rightarrow> 'a aloop_scheme option" where
  "uv__async_io acb w s = do {
     (n, s) \<leftarrow> async_drain (w_fd (io s w)) 0 s;
     if async_wfd s = - 1 then do { require (n = 8); uv__async_event acb s }
     else uv__async_event acb s
   }"

section \<open>No wake-up is lost\<close>

text \<open>
  The senders and the loop as concurrent processes: a sender that finds \<open>pending\<close> clear sets it in
  the same atomic operation and then has a write to do; the loop sleeps until the descriptor holds
  something, empties it (at least partly: a write may come in between) and visits the handles.  A
  write to a full descriptor fails, but then the descriptor is readable.  \<open>wk_calls\<close> are the handles
  whose mark the loop has taken: it calls those that have a callback (\<open>async_io_refines\<close>).
\<close>

datatype loop_pc = Waiting | Visiting "addr list"

record wake =
  wk_pending :: "addr \<Rightarrow> bool"
  wk_tokens :: nat
  wk_writers :: "addr list"
  wk_pc :: loop_pc
  wk_calls :: "addr list"

inductive sender_step :: "wake \<Rightarrow> wake \<Rightarrow> bool" where
  send_seen: "wk_pending s h \<Longrightarrow> sender_step s s"
| send_set: "\<not> wk_pending s h \<Longrightarrow>
    sender_step s (s\<lparr>wk_pending := (wk_pending s)(h := True), wk_writers := h # wk_writers s\<rparr>)"
| send_write: "h \<in> set (wk_writers s) \<Longrightarrow>
    sender_step s (s\<lparr>wk_writers := remove1 h (wk_writers s), wk_tokens := Suc (wk_tokens s)\<rparr>)"
| send_full: "h \<in> set (wk_writers s) \<Longrightarrow> wk_tokens s > 0 \<Longrightarrow>
    sender_step s (s\<lparr>wk_writers := remove1 h (wk_writers s)\<rparr>)"

inductive loop_step :: "addr list \<Rightarrow> wake \<Rightarrow> wake \<Rightarrow> bool" for hs where
  loop_read: "wk_pc s = Waiting \<Longrightarrow> k < wk_tokens s \<Longrightarrow>
    loop_step hs s (s\<lparr>wk_tokens := k, wk_pc := Visiting hs\<rparr>)"
| loop_call: "wk_pc s = Visiting (h # q) \<Longrightarrow> wk_pending s h \<Longrightarrow>
    loop_step hs s (s\<lparr>wk_pending := (wk_pending s)(h := False), wk_pc := Visiting q, wk_calls := wk_calls s @ [h]\<rparr>)"
| loop_skip: "wk_pc s = Visiting (h # q) \<Longrightarrow> \<not> wk_pending s h \<Longrightarrow> loop_step hs s (s\<lparr>wk_pc := Visiting q\<rparr>)"
| loop_sleep: "wk_pc s = Visiting [] \<Longrightarrow> loop_step hs s (s\<lparr>wk_pc := Waiting\<rparr>)"

inductive wake_reach :: "addr list \<Rightarrow> wake \<Rightarrow> bool" for hs where
  reach_start: "wake_reach hs \<lparr>wk_pending = (\<lambda>_. False), wk_tokens = 0, wk_writers = [], wk_pc = Waiting, wk_calls = []\<rparr>"
| reach_send: "wake_reach hs s \<Longrightarrow> sender_step s t \<Longrightarrow> wake_reach hs t"
| reach_loop: "wake_reach hs s \<Longrightarrow> loop_step hs s t \<Longrightarrow> wake_reach hs t"

inductive_cases sender_stepE: "sender_step s t"
inductive_cases loop_stepE: "loop_step hs s t"

text \<open>A handle marked pending has a write outstanding, or the descriptor is readable, or it is still to be visited.\<close>

definition to_visit :: "wake \<Rightarrow> addr set" where
  "to_visit s = (case wk_pc s of Waiting \<Rightarrow> {} | Visiting q \<Rightarrow> set q)"

definition wake_ok :: "addr list \<Rightarrow> wake \<Rightarrow> bool" where
  "wake_ok hs s \<longleftrightarrow> (\<forall>h \<in> set hs. wk_pending s h \<longrightarrow> wk_tokens s > 0 \<or> wk_writers s \<noteq> [] \<or> h \<in> to_visit s)"

lemma sender_step_ok: "sender_step s t \<Longrightarrow> wake_ok hs s \<Longrightarrow> wake_ok hs t"
  by (erule sender_stepE) (auto simp: wake_ok_def to_visit_def)

lemma loop_step_ok: "loop_step hs s t \<Longrightarrow> wake_ok hs s \<Longrightarrow> wake_ok hs t"
  by (erule loop_stepE) (auto simp: wake_ok_def to_visit_def)

lemma wake_reach_ok: "wake_reach hs s \<Longrightarrow> wake_ok hs s"
proof (induction rule: wake_reach.induct)
  case reach_start
  then show ?case by (simp add: wake_ok_def)
qed (rule sender_step_ok loop_step_ok; assumption)+

text \<open>The steps that need no new send: the outstanding writes and those of the loop.\<close>

definition own_step :: "addr list \<Rightarrow> wake \<Rightarrow> wake \<Rightarrow> bool" where
  "own_step hs s t \<longleftrightarrow> loop_step hs s t \<or> (sender_step s t \<and> length (wk_writers t) < length (wk_writers s))"

lemma own_visit:
  "wk_pc s = Visiting q \<Longrightarrow> \<exists>t cs. (own_step hs)\<^sup>*\<^sup>* s t \<and> wk_pc t = Waiting \<and> wk_tokens t = wk_tokens s
    \<and> wk_writers t = wk_writers s \<and> wk_calls t = wk_calls s @ cs \<and> (\<forall>h. wk_pending s h \<longrightarrow> h \<in> set cs \<or> wk_pending t h)
    \<and> (\<forall>h \<in> set q. wk_pending s h \<longrightarrow> h \<in> set cs)"
proof (induction q arbitrary: s)
  case Nil
  have "own_step hs s (s\<lparr>wk_pc := Waiting\<rparr>)" using loop_sleep [OF Nil] by (simp add: own_step_def)
  then show ?case by (intro exI [of _ "s\<lparr>wk_pc := Waiting\<rparr>"] exI [of _ "[]"]) auto
next
  case (Cons h q)
  show ?case
  proof (cases "wk_pending s h")
    case True
    let ?u = "s\<lparr>wk_pending := (wk_pending s)(h := False), wk_pc := Visiting q, wk_calls := wk_calls s @ [h]\<rparr>"
    have u: "own_step hs s ?u" using loop_call [OF Cons.prems True] by (simp add: own_step_def)
    from Cons.IH [of ?u] obtain t cs where t: "(own_step hs)\<^sup>*\<^sup>* ?u t" "wk_pc t = Waiting" "wk_tokens t = wk_tokens s"
      "wk_writers t = wk_writers s" "wk_calls t = (wk_calls s @ [h]) @ cs"
      "\<forall>g. wk_pending ?u g \<longrightarrow> g \<in> set cs \<or> wk_pending t g" "\<forall>g \<in> set q. wk_pending ?u g \<longrightarrow> g \<in> set cs"
      by auto
    have "(own_step hs)\<^sup>*\<^sup>* s t" using u t(1) by (rule converse_rtranclp_into_rtranclp)
    then show ?thesis using t(2-7) by (intro exI [of _ t] exI [of _ "h # cs"]) (auto split: if_splits)
  next
    case False
    let ?u = "s\<lparr>wk_pc := Visiting q\<rparr>"
    have u: "own_step hs s ?u" using loop_skip [OF Cons.prems False] by (simp add: own_step_def)
    from Cons.IH [of ?u] obtain t cs where t: "(own_step hs)\<^sup>*\<^sup>* ?u t" "wk_pc t = Waiting" "wk_tokens t = wk_tokens s"
      "wk_writers t = wk_writers s" "wk_calls t = wk_calls s @ cs"
      "\<forall>g. wk_pending ?u g \<longrightarrow> g \<in> set cs \<or> wk_pending t g" "\<forall>g \<in> set q. wk_pending ?u g \<longrightarrow> g \<in> set cs"
      by auto
    have "(own_step hs)\<^sup>*\<^sup>* s t" using u t(1) by (rule converse_rtranclp_into_rtranclp)
    then show ?thesis using t(2-7) False by (intro exI [of _ t] exI [of _ cs]) auto
  qed
qed

lemma own_write:
  assumes "wk_writers s \<noteq> []"
  shows "\<exists>t. own_step hs s t \<and> wk_tokens t > 0 \<and> wk_pc t = wk_pc s \<and> wk_calls t = wk_calls s \<and> wk_pending t = wk_pending s"
proof -
  obtain g ws where w: "wk_writers s = g # ws" using assms by (cases "wk_writers s") auto
  let ?t = "s\<lparr>wk_writers := remove1 g (wk_writers s), wk_tokens := Suc (wk_tokens s)\<rparr>"
  have "sender_step s ?t" using w by (intro send_write) simp
  then have "own_step hs s ?t" using w by (simp add: own_step_def)
  then show ?thesis by (intro exI [of _ ?t]) simp
qed

lemma own_read:
  assumes "wk_pc s = Waiting" "wk_tokens s > 0" "wk_pending s h" "h \<in> set hs"
  shows "\<exists>t cs. (own_step hs)\<^sup>*\<^sup>* s t \<and> wk_calls t = wk_calls s @ cs \<and> h \<in> set cs"
proof -
  let ?u = "s\<lparr>wk_tokens := 0, wk_pc := Visiting hs\<rparr>"
  have u: "own_step hs s ?u" using loop_read [OF assms(1,2)] by (simp add: own_step_def)
  from own_visit [of ?u hs hs] obtain t cs where "(own_step hs)\<^sup>*\<^sup>* ?u t" "wk_calls t = wk_calls s @ cs"
    "\<forall>g \<in> set hs. wk_pending s g \<longrightarrow> g \<in> set cs" by auto
  with assms(3,4) converse_rtranclp_into_rtranclp [of "own_step hs" s ?u, OF u] show ?thesis by blast
qed

lemma own_waiting:
  assumes "wk_pc s = Waiting" "wake_ok hs s" "wk_pending s h" "h \<in> set hs"
  shows "\<exists>t cs. (own_step hs)\<^sup>*\<^sup>* s t \<and> wk_calls t = wk_calls s @ cs \<and> h \<in> set cs"
proof (cases "wk_tokens s > 0")
  case True
  then show ?thesis using own_read assms by blast
next
  case False
  then have "wk_writers s \<noteq> []" using assms by (auto simp: wake_ok_def to_visit_def)
  from own_write [OF this] obtain u where u: "own_step hs s u" "wk_tokens u > 0" "wk_pc u = wk_pc s"
    "wk_calls u = wk_calls s" "wk_pending u = wk_pending s" by blast
  from own_read [of u h hs] u assms obtain t cs where "(own_step hs)\<^sup>*\<^sup>* u t" "wk_calls t = wk_calls s @ cs" "h \<in> set cs"
    by auto
  with u(1) show ?thesis by (meson converse_rtranclp_into_rtranclp)
qed

lemma own_steps_ok: "(own_step hs)\<^sup>*\<^sup>* s t \<Longrightarrow> wake_ok hs s \<Longrightarrow> wake_ok hs t"
  by (induction rule: rtranclp_induct) (auto simp: own_step_def intro: sender_step_ok loop_step_ok)

text \<open>The abstraction of the program's state when no other thread sends.\<close>

definition token_step :: "int \<Rightarrow> int \<Rightarrow> syscall \<times> int \<Rightarrow> nat \<Rightarrow> nat" where
  "token_step rfd wfd e n =
     (case fst e of
        SysData name as _ \<Rightarrow> if name = ''write'' \<and> as = [wfd] \<and> snd e > 0 then Suc n else n
      | Sys name as \<Rightarrow> if name = ''read'' \<and> hd as = rfd \<and> snd e > 0 then 0 else n
      | SysPath _ _ _ \<Rightarrow> n)"

definition wake_of :: "'a aloop_scheme \<Rightarrow> wake" where
  "wake_of s =
     (let rfd = w_fd (io s (async_watcher s)); wfd = (if async_wfd s = - 1 then rfd else async_wfd s)
      in \<lparr>wk_pending = (\<lambda>h. a_pending (asyncs s h)),
          wk_tokens = fold (token_step rfd wfd) (syscalls s) 0,
          wk_writers = [],
          wk_pc = (if async_local s = [] then Waiting else Visiting (async_local s)),
          wk_calls = []\<rparr>)"

lemma token_write:
  "token_step rfd wfd (Write wfd buf, r) n = (if r > 0 then Suc n else n)"
  by (simp add: token_step_def)

lemma token_fail: "(token_step rfd wfd (Write wfd buf, - 1) ^^ n) m = m"
  by (induction n) (simp_all add: token_write)

text \<open>
  The loop's side of the code makes the steps of the relation: one read of a readable descriptor, a visit of each handle in
  order, and back to waiting.  The callbacks here leave the handles, the watchers and the descriptors alone.
\<close>

definition leaves_asyncs :: "(async_cb \<Rightarrow> addr \<Rightarrow> 'a aloop_scheme \<Rightarrow> 'a aloop_scheme option) \<Rightarrow> bool" where
  "leaves_asyncs acb \<longleftrightarrow> (\<forall>cb h s. \<exists>t. acb cb h s = Some t \<and> asyncs t = asyncs s \<and> async_local t = async_local s
     \<and> async_handles t = async_handles s \<and> io t = io s \<and> async_watcher t = async_watcher s \<and> async_wfd t = async_wfd s
     \<and> syscalls t = syscalls s \<and> trace t = trace s)"

definition wake_at :: "loop_pc \<Rightarrow> addr list \<Rightarrow> 'a aloop_scheme \<Rightarrow> wake" where
  "wake_at pc cs s = (wake_of s)\<lparr>wk_pc := pc, wk_calls := cs\<rparr>"

lemma wake_at_cong:
  assumes "asyncs t = asyncs s" "io t = io s" "async_watcher t = async_watcher s" "async_wfd t = async_wfd s" "syscalls t = syscalls s"
  shows "wake_at pc cs t = wake_at pc cs s"
  using assms by (simp add: wake_at_def wake_of_def Let_def)

lemma async_visits_refine:
  assumes acb: "leaves_asyncs acb" and "async_local s = q"
  shows "\<exists>t cs. async_event_loop acb s = Some t \<and> async_local t = []
    \<and> (loop_step hs)\<^sup>*\<^sup>* (wake_at (Visiting q) calls s) (wake_at (Visiting []) (calls @ cs) t)
    \<and> async_handles t = async_handles s @ q
    \<and> trace t = trace s @ map Async_cb (filter (\<lambda>h. a_cb (asyncs s h) \<noteq> None) cs)"
  using assms(2)
proof (induction q arbitrary: s calls)
  case Nil
  then show ?case by (intro exI [of _ s] exI [of _ "[]"]) (simp add: async_event_loop.simps)
next
  case (Cons h q)
  let ?s = "s\<lparr>async_local := q, async_handles := async_handles s @ [h]\<rparr>"
  have same: "wake_at pc cs ?s = wake_at pc cs s" for pc cs by (rule wake_at_cong) simp_all
  show ?case
  proof (cases "a_pending (asyncs s h)")
    case False
    have step: "loop_step hs (wake_at (Visiting (h # q)) calls s) (wake_at (Visiting q) calls s)"
      using loop_skip [of "wake_at (Visiting (h # q)) calls s" h q hs] False by (simp add: wake_at_def wake_of_def Let_def)
    from Cons.IH [of ?s calls] obtain t cs where "async_event_loop acb ?s = Some t" "async_local t = []"
      "(loop_step hs)\<^sup>*\<^sup>* (wake_at (Visiting q) calls s) (wake_at (Visiting []) (calls @ cs) t)"
      "async_handles t = async_handles s @ h # q" "trace t = trace s @ map Async_cb (filter (\<lambda>h. a_cb (asyncs s h) \<noteq> None) cs)"
      unfolding same by auto
    then show ?thesis using Cons.prems False step
      by (intro exI [of _ t] exI [of _ cs]) (auto simp: async_event_loop.simps [of acb s] async_visit_def intro: converse_rtranclp_into_rtranclp)
  next
    case True
    let ?u = "upd_async h (\<lambda>a. a\<lparr>a_pending := False\<rparr>) ?s"
    obtain v where v: "async_visit acb h ?s = Some v" "asyncs v = asyncs ?u" "async_local v = q" "async_handles v = async_handles s @ [h]"
      "io v = io s" "async_watcher v = async_watcher s" "async_wfd v = async_wfd s" "syscalls v = syscalls s"
      "trace v = trace s @ (if a_cb (asyncs s h) = None then [] else [Async_cb h])"
    proof (cases "a_cb (asyncs s h)")
      case None
      then show thesis using that [of ?u] True by (simp add: async_visit_def upd_async_def)
    next
      case (Some cb)
      let ?w = "?u\<lparr>trace := trace ?u @ [Async_cb h]\<rparr>"
      from acb obtain v where v: "acb cb h ?w = Some v" "asyncs v = asyncs ?w" "async_local v = async_local ?w"
        "async_handles v = async_handles ?w" "io v = io ?w" "async_watcher v = async_watcher ?w" "async_wfd v = async_wfd ?w"
        "syscalls v = syscalls ?w" "trace v = trace ?w" unfolding leaves_asyncs_def by blast
      show thesis by (rule that [of v]) (use v True Some in \<open>simp_all add: async_visit_def upd_async_def\<close>)
    qed
    have "wake_at (Visiting q) (calls @ [h]) v
        = (wake_at (Visiting (h # q)) calls s)\<lparr>wk_pending := (wk_pending (wake_at (Visiting (h # q)) calls s))(h := False), wk_pc := Visiting q,
            wk_calls := wk_calls (wake_at (Visiting (h # q)) calls s) @ [h]\<rparr>"
      by (simp add: wake_at_def wake_of_def Let_def v fun_eq_iff upd_async_def)
    then have step: "loop_step hs (wake_at (Visiting (h # q)) calls s) (wake_at (Visiting q) (calls @ [h]) v)"
      using loop_call [of "wake_at (Visiting (h # q)) calls s" h q hs] True by (simp add: wake_at_def wake_of_def Let_def)
    from Cons.IH [OF v(3), of "calls @ [h]"] obtain t cs where t: "async_event_loop acb v = Some t" "async_local t = []"
      "(loop_step hs)\<^sup>*\<^sup>* (wake_at (Visiting q) (calls @ [h]) v) (wake_at (Visiting []) ((calls @ [h]) @ cs) t)"
      "async_handles t = async_handles v @ q" "trace t = trace v @ map Async_cb (filter (\<lambda>h. a_cb (asyncs v h) \<noteq> None) cs)" by blast
    have cb: "a_cb (asyncs v g) = a_cb (asyncs s g)" for g by (simp add: v(2) upd_async_def)
    have "(loop_step hs)\<^sup>*\<^sup>* (wake_at (Visiting (h # q)) calls s) (wake_at (Visiting []) (calls @ h # cs) t)"
      using converse_rtranclp_into_rtranclp [OF step t(3)] by simp
    then show ?thesis using Cons.prems v(1,4,9) t(1,2,4,5)
      by (intro exI [of _ t] exI [of _ "h # cs"]) (auto simp: async_event_loop.simps [of acb s] cb)
  qed
qed

theorem async_io_refines:
  assumes "leaves_asyncs acb" "async_local s = []" "w = async_watcher s" "wk_tokens (wake_of s) > 0"
    "replies s = r # rs" "0 < r_ret r" "r_ret r < 1024" "async_wfd s = - 1 \<longrightarrow> r_ret r = 8"
  shows "\<exists>t cs. uv__async_io acb w s = Some t \<and> (loop_step (async_handles s))\<^sup>*\<^sup>* (wake_of s) ((wake_of t)\<lparr>wk_calls := cs\<rparr>)
    \<and> async_handles t = async_handles s \<and> trace t = trace s @ map Async_cb (filter (\<lambda>h. a_cb (asyncs s h) \<noteq> None) cs)"
proof -
  let ?fd = "w_fd (io s w)"
  define u where "u = s\<lparr>replies := rs, syscalls := syscalls s @ [(Read ?fd 1024, r_ret r)], errno := errno s\<rparr>"
  have drain: "async_drain ?fd 0 s = Some (of_int (r_ret r), u)"
    using assms(5-7) by (subst async_drain.simps) (simp add: Let_def u_def)
  have wfd: "async_wfd u = async_wfd s" "async_handles u = async_handles s" by (simp_all add: u_def)
  define v where "v = u\<lparr>async_local := async_handles s, async_handles := []\<rparr>"
  have tokens: "wake_at (Visiting (async_handles s)) [] v = (wake_of s)\<lparr>wk_tokens := 0, wk_pc := Visiting (async_handles s)\<rparr>"
    using assms(3,6) by (simp add: wake_at_def wake_of_def Let_def v_def u_def token_step_def)
  have "loop_step (async_handles s) (wake_of s) (wake_at (Visiting (async_handles s)) [] v)"
    unfolding tokens by (rule loop_read [of "wake_of s" 0]) (use assms(2,4) in \<open>simp_all add: wake_of_def Let_def\<close>)
  note step = this
  obtain t cs where t: "async_event_loop acb v = Some t" "async_local t = []"
    "(loop_step (async_handles s))\<^sup>*\<^sup>* (wake_at (Visiting (async_handles s)) [] v) (wake_at (Visiting []) cs t)"
    "async_handles t = async_handles s" "trace t = trace s @ map Async_cb (filter (\<lambda>h. a_cb (asyncs s h) \<noteq> None) cs)"
    using async_visits_refine [OF assms(1), of v "async_handles s" "async_handles s" "[]"] by (auto simp: v_def u_def)
  have "loop_step (async_handles s) (wake_at (Visiting []) cs t) ((wake_of t)\<lparr>wk_calls := cs\<rparr>)"
    using loop_sleep [of "wake_at (Visiting []) cs t" "async_handles s"] t(2) by (simp add: wake_at_def wake_of_def Let_def)
  then have "(loop_step (async_handles s))\<^sup>*\<^sup>* (wake_of s) ((wake_of t)\<lparr>wk_calls := cs\<rparr>)"
    using converse_rtranclp_into_rtranclp [OF step t(3)] by (rule rtranclp.rtrancl_into_rtrancl [rotated])
  moreover have "async_wfd s = - 1 \<longrightarrow> (of_int (r_ret r) :: u32) = 8" using assms(8) by auto
  then have "uv__async_io acb w s = Some t"
    using drain t(1) v_def wfd by (simp add: uv__async_io_def uv__async_event_def require_def)
  ultimately show ?thesis using t(4,5) by blast
qed

section \<open>Properties\<close>

text \<open>C4: Waking the loop from other threads: in every reachable state of the senders and the loop, a
  handle of the loop that is marked pending is called by the steps that are already under way - the
  outstanding writes and the loop's own - without another send.\<close>
theorem async_wakeup_not_lost:
  assumes "wake_reach hs s" "wk_pending s h" "h \<in> set hs"
  shows "\<exists>t cs. (own_step hs)\<^sup>*\<^sup>* s t \<and> wk_calls t = wk_calls s @ cs \<and> h \<in> set cs"
proof (cases "wk_pc s")
  case Waiting
  then show ?thesis using own_waiting wake_reach_ok [OF assms(1)] assms(2,3) by blast
next
  case (Visiting q)
  from own_visit [OF Visiting] obtain u cs where u: "(own_step hs)\<^sup>*\<^sup>* s u" "wk_pc u = Waiting"
    "wk_calls u = wk_calls s @ cs" "h \<in> set cs \<or> wk_pending u h" using assms(2) by blast
  show ?thesis
  proof (cases "h \<in> set cs")
    case False
    then have "wk_pending u h" using u(4) by blast
    from own_waiting [OF u(2) own_steps_ok [OF u(1) wake_reach_ok [OF assms(1)]] this assms(3)] obtain t ds where
      "(own_step hs)\<^sup>*\<^sup>* u t" "wk_calls t = wk_calls u @ ds" "h \<in> set ds" by blast
    with u(1,3) show ?thesis by (intro exI [of _ t] exI [of _ "cs @ ds"]) auto
  qed (use u in blast)
qed

theorem async_wakeup_not_lost_witness:
  "\<exists>t cs. (own_step [7])\<^sup>*\<^sup>* \<lparr>wk_pending = (\<lambda>_. False)(7 := True), wk_tokens = 0, wk_writers = [7], wk_pc = Waiting, wk_calls = []\<rparr> t
    \<and> wk_calls t = cs \<and> 7 \<in> set cs"
proof -
  let ?s = "\<lparr>wk_pending = (\<lambda>_. False), wk_tokens = 0, wk_writers = [], wk_pc = Waiting, wk_calls = []\<rparr>"
  have "sender_step ?s (?s\<lparr>wk_pending := (wk_pending ?s)(7 := True), wk_writers := 7 # wk_writers ?s\<rparr>)"
    by (intro send_set) simp
  then have "wake_reach [7] \<lparr>wk_pending = (\<lambda>_. False)(7 := True), wk_tokens = 0, wk_writers = [7], wk_pc = Waiting, wk_calls = []\<rparr>"
    by (intro reach_send [OF reach_start]) simp
  from async_wakeup_not_lost [OF this, of 7] show ?thesis by auto
qed

text \<open>C21: \<open>uv_async_send\<close> is a run of the sender: it changes nothing when the handle is pending, and
  otherwise marks it and writes, retrying on \<open>EINTR\<close>; a full descriptor is not an error.  The
  hypothesis is the kernel's promise that a write fails with \<open>EAGAIN\<close> only when the descriptor is
  readable.\<close>
theorem async_send_refines:
  assumes "uv_async_send h s = Some (rc, t)"
    and "errno t = EAGAIN \<longrightarrow> wk_tokens (wake_of s) > 0"
  shows "rc = 0 \<and> sender_step\<^sup>*\<^sup>* (wake_of s) (wake_of t) \<and> wk_pending (wake_of t) h"
proof (cases "a_pending (asyncs s h)")
  case True
  then show ?thesis using assms(1) by (auto simp: uv_async_send_def wake_of_def Let_def)
next
  case False
  define u where "u = upd_async h (\<lambda>a. a\<lparr>a_pending := True\<rparr>) s"
  define rfd where "rfd = w_fd (io s (async_watcher s))"
  define wfd where "wfd = (if async_wfd s = - 1 then rfd else async_wfd s)"
  define buf :: "u8 list" where "buf = (if async_wfd s = - 1 then [1, 0, 0, 0, 0, 0, 0, 0] else [0])"
  have buf: "length buf > 0" "uv__async_send u = do {
     (r, s) \<leftarrow> eintr_loop (Write wfd buf) u;
     if r_ret r = int (length buf) then Some s
     else if r_ret r = - 1 \<and> (errno s = EAGAIN \<or> errno s = EWOULDBLOCK) then Some s
     else None }"
    by (simp_all add: buf_def uv__async_send_def u_def upd_async_def wfd_def rfd_def)
  have "uv__async_send u = Some t" "rc = 0"
    using assms(1) False by (auto simp: uv_async_send_def u_def split: bind_splits)
  then obtain r where r: "eintr_loop (Write wfd buf) u = Some (r, t)"
    "r_ret r = int (length buf) \<or> (r_ret r = - 1 \<and> errno t = EAGAIN)"
    using buf(2) by (auto split: bind_splits if_splits)
  from retry_while_state [OF r(1)] obtain n rs en where
    t: "t = u\<lparr>replies := rs, syscalls := syscalls u @ replicate n (Write wfd buf, - 1) @ [(Write wfd buf, r_ret r)], errno := en\<rparr>"
    by blast
  let ?v = "(wake_of s)\<lparr>wk_pending := (wk_pending (wake_of s))(h := True), wk_writers := [h]\<rparr>"
  have v: "sender_step (wake_of s) ?v"
    using send_set [of "wake_of s" h] False by (simp add: wake_of_def Let_def)
  have wt: "wake_of t = (wake_of s)\<lparr>wk_pending := (wk_pending (wake_of s))(h := True),
      wk_tokens := (if r_ret r > 0 then Suc (wk_tokens (wake_of s)) else wk_tokens (wake_of s))\<rparr>"
    by (auto simp: wake_of_def t u_def upd_async_def Let_def rfd_def wfd_def token_write token_fail fun_eq_iff)
  have "sender_step ?v (wake_of t)"
  proof (cases "r_ret r > 0")
    case True
    then show ?thesis using send_write [of h ?v] wt by (simp add: wake_of_def Let_def)
  next
    case False
    then have "errno t = EAGAIN" using r(2) buf(1) by auto
    then have "wk_tokens (wake_of s) > 0" using assms(2) by blast
    then show ?thesis using send_full [of h ?v] wt False by (simp add: wake_of_def Let_def)
  qed
  with v have "sender_step\<^sup>*\<^sup>* (wake_of s) (wake_of t)" by (meson converse_rtranclp_into_rtranclp rtranclp.rtrancl_refl)
  then show ?thesis using \<open>rc = 0\<close> by (simp add: wt)
qed


definition empty_iloop :: "reply list \<Rightarrow> addr \<Rightarrow> int \<Rightarrow> 'a \<Rightarrow> 'a iloop_scheme" where
  "empty_iloop rs w fd ext = empty_tloop rs 0 (wloop_ext (\<lambda>_. []) (\<lambda>_. []) (\<lambda>_. None) (io_fields w fd ext))"

lemmas empty_iloop_defs = empty_iloop_def io_fields_def empty_tloop_def empty_loop_def

definition async_loop :: "reply list \<Rightarrow> unit aloop_scheme" where
  "async_loop rs = empty_iloop rs 50 7 (aloop_ext (\<lambda>_. \<lparr>a_cb = None, a_pending = False\<rparr>) [1] [] 50 (- 1) ())"

theorem async_send_refines_witness:
  "\<exists>t. uv_async_send 1 (async_loop [fail EINTR, ret 8]) = Some (0, t) \<and> wk_pending (wake_of t) 1
    \<and> sender_step\<^sup>*\<^sup>* (wake_of (async_loop [fail EINTR, ret 8])) (wake_of t)"
proof -
  let ?s = "async_loop [fail EINTR, ret 8]"
  obtain t where t: "uv_async_send 1 ?s = Some (0, t)" "errno t = EINTR"
    by (simp add: uv_async_send_def uv__async_send_def async_loop_def empty_iloop_defs upd_async_def
        retry_while_cons failed_with_def fail_def ret_def)
  from async_send_refines [OF t(1)] t show ?thesis by simp
qed

end
