(* ===== verification/Poll.thy ===== *)
theory Poll
  imports Async
begin

text \<open>
  Poll handles, \<open>src/unix/poll.cpp\<close>: a user's descriptor watched for the user's own purposes.  The
  watcher in handle \<open>h\<close> is the watcher at the address \<open>h\<close>; \<open>poll_cb h\<close> says that a callback is stored.
\<close>

abbreviation (input) UV_READABLE :: u32 where "UV_READABLE \<equiv> 1"
abbreviation (input) UV_WRITABLE :: u32 where "UV_WRITABLE \<equiv> 2"
abbreviation (input) UV_DISCONNECT :: u32 where "UV_DISCONNECT \<equiv> 4"

record ploop = aloop +
  poll_cb :: "addr \<Rightarrow> bool"

definition poll_call ::
    "(callback \<Rightarrow> 'a ploop_scheme \<Rightarrow> 'a ploop_scheme) \<Rightarrow> addr \<Rightarrow> int \<Rightarrow> u32 \<Rightarrow> 'a ploop_scheme \<Rightarrow> 'a ploop_scheme option" where
  "poll_call call h status events s = do { require (poll_cb s h); Some (invoke call (Poll_cb h status events) s) }"

text \<open>What the callback is told of the events of epoll, and what epoll is asked for.\<close>

definition poll_pevents :: "u32 \<Rightarrow> u32" where
  "poll_pevents events =
     (let pevents = 0;
          pevents = (if events AND POLLIN \<noteq> 0 then pevents OR UV_READABLE else pevents);
          pevents = (if events AND POLLOUT \<noteq> 0 then pevents OR UV_WRITABLE else pevents)
      in if events AND UV__POLLRDHUP \<noteq> 0 then pevents OR UV_DISCONNECT else pevents)"

definition poll_events_of :: "u32 \<Rightarrow> u32" where
  "poll_events_of pevents =
     (let events = 0;
          events = (if pevents AND UV_READABLE \<noteq> 0 then events OR POLLIN else events);
          events = (if pevents AND UV_WRITABLE \<noteq> 0 then events OR POLLOUT else events)
      in if pevents AND UV_DISCONNECT \<noteq> 0 then events OR UV__POLLRDHUP else events)"

definition uv__poll_io ::
    "(callback \<Rightarrow> 'a ploop_scheme \<Rightarrow> 'a ploop_scheme) \<Rightarrow> addr \<Rightarrow> u32 \<Rightarrow> 'a ploop_scheme \<Rightarrow> 'a ploop_scheme option" where
  "uv__poll_io call h events s =
     (if events AND POLLERR \<noteq> 0 then do {
        s \<leftarrow> uv__io_stop h (POLLIN OR POLLOUT OR UV__POLLRDHUP) s;
        poll_call call h (- EBADF) 0 (uv__handle_stop h s)
      }
      else poll_call call h 0 (poll_pevents events) s)"

definition uv_poll_init :: "addr \<Rightarrow> int \<Rightarrow> 'a ploop_scheme \<Rightarrow> (int \<times> 'a ploop_scheme) option" where
  "uv_poll_init h fd s = do {
     (err, s) \<leftarrow> uv__io_check_fd fd s;
     if err \<noteq> 0 then Some (err, s)
     else do {
       (err, s) \<leftarrow> uv__nonblock fd 1 s;
       (err, s) \<leftarrow> (if err = - ENOTTY then uv__nonblock_fcntl fd 1 s else Some (err, s));
       if err \<noteq> 0 then Some (err, s)
       else do {
         let s = uv__handle_init h UV_POLL s;
         s \<leftarrow> uv__io_init h uv__poll_io_cb fd s;
         Some (0, s\<lparr>poll_cb := (poll_cb s)(h := False)\<rparr>)
       }
     }
   }"

definition uv_poll_init_socket :: "addr \<Rightarrow> int \<Rightarrow> 'a ploop_scheme \<Rightarrow> (int \<times> 'a ploop_scheme) option" where
  "uv_poll_init_socket h socket s = uv_poll_init h socket s"

definition uv__poll_stop :: "addr \<Rightarrow> 'a ploop_scheme \<Rightarrow> 'a ploop_scheme option" where
  "uv__poll_stop h s = do {
     s \<leftarrow> uv__io_stop h (POLLIN OR POLLOUT OR UV__POLLRDHUP) s;
     Some (uv__handle_stop h s)
   }"

definition uv_poll_stop :: "addr \<Rightarrow> 'a ploop_scheme \<Rightarrow> (int \<times> 'a ploop_scheme) option" where
  "uv_poll_stop h s = do {
     require (\<not> uv__is_closing h s);
     s \<leftarrow> uv__poll_stop h s;
     Some (0, s)
   }"

definition uv_poll_start :: "addr \<Rightarrow> u32 \<Rightarrow> bool \<Rightarrow> 'a ploop_scheme \<Rightarrow> (int \<times> 'a ploop_scheme) option" where
  "uv_poll_start h pevents cb s = do {
     require (pevents AND NOT (UV_READABLE OR UV_WRITABLE OR UV_DISCONNECT) = 0);
     require (\<not> uv__is_closing h s);
     s \<leftarrow> uv__poll_stop h s;
     if pevents = 0 then Some (0, s)
     else do {
       s \<leftarrow> uv__io_start h (poll_events_of pevents) s;
       let s = uv__handle_start h s;
       Some (0, s\<lparr>poll_cb := (poll_cb s)(h := cb)\<rparr>)
     }
   }"

definition uv__poll_close :: "addr \<Rightarrow> 'a ploop_scheme \<Rightarrow> 'a ploop_scheme option" where
  "uv__poll_close h s = uv__poll_stop h s"

section \<open>Lemmas\<close>

text \<open>The events asked for and told are the same eight sets.\<close>

lemma three_bits:
  assumes "(p :: u32) AND NOT (UV_READABLE OR UV_WRITABLE OR UV_DISCONNECT) = 0"
  shows "p \<in> {0, 1, 2, 3, 4, 5, 6, 7}"
proof -
  have "p AND 7 = p"
  proof (rule bit_word_eqI)
    fix n :: nat assume "n < LENGTH(32)"
    have "\<not> (bit p n \<and> \<not> bit (7 :: u32) n \<and> n < 32)"
      using arg_cong [OF assms, of "\<lambda>w. bit w n"] by (auto simp: bit_simps)
    then show "bit (p AND 7) n = bit p n" using \<open>n < LENGTH(32)\<close> by (auto simp: bit_simps)
  qed
  then have "p \<le> 7" by (metis word_and_le1)
  then have "unat p \<le> 7" by (simp add: word_le_nat_alt)
  then have "unat p \<in> {0, 1, 2, 3, 4, 5, 6, 7}" by auto
  then have "of_nat (unat p) \<in> (of_nat ` {0, 1, 2, 3, 4, 5, 6, 7} :: u32 set)" by blast
  then show ?thesis by simp
qed

lemma poll_events_sets:
  assumes "p AND NOT (UV_READABLE OR UV_WRITABLE OR UV_DISCONNECT) = 0"
  shows "poll_pevents (poll_events_of p) = p \<and> (poll_events_of p = 0 \<longleftrightarrow> p = 0) \<and> poll_events_of p AND NOT io_mask = 0"
  using three_bits [OF assms] by (auto simp: poll_pevents_def poll_events_of_def io_mask_def)

text \<open>Watching a descriptor leaves the handles alone.\<close>

definition handles_same :: "'a loop_scheme \<Rightarrow> 'a loop_scheme \<Rightarrow> bool" where
  "handles_same s t \<longleftrightarrow> hnd t = hnd s \<and> handle_queue t = handle_queue s \<and> active_handles t = active_handles s
     \<and> active_reqs t = active_reqs s \<and> closing_handles t = closing_handles s \<and> trace t = trace s"

lemma handles_same_refl [simp]: "handles_same s s"
  by (simp add: handles_same_def)

lemma handles_same_trans [trans]: "handles_same s t \<Longrightarrow> handles_same t u \<Longrightarrow> handles_same s u"
  by (simp add: handles_same_def)

lemma refs_ok_same: "handles_same s t \<Longrightarrow> refs_ok t = refs_ok s"
  by (simp add: handles_same_def refs_ok_def counted_def uv__is_active_def uv__has_ref_def flags_of_def)

lemma io_start_handles: "wp (uv__io_start w events s) (handles_same s)"
  by (auto simp: uv__io_start_def Let_def enter_cell_def maybe_resize_def upd_io_def set_watcher_def handles_same_def intro!: wpI)

lemma io_stop_handles: "wp (uv__io_stop w events s) (handles_same s)"
  by (auto simp: uv__io_stop_def Let_def upd_io_def set_watcher_def handles_same_def intro!: wpI)

lemmas io_handles = io_start_handles [THEN wpD] io_stop_handles [THEN wpD]

definition io_same :: "'a iloop_scheme \<Rightarrow> 'a iloop_scheme \<Rightarrow> bool" where
  "io_same s t \<longleftrightarrow> io t = io s \<and> watchers t = watchers s \<and> nwatchers t = nwatchers s \<and> nfds t = nfds s
     \<and> watcher_queue t = watcher_queue s \<and> realloc_gives t = realloc_gives s"

lemma io_same_ok: "io_same s t \<Longrightarrow> io_ok t = io_ok s \<and> (\<forall>w. may_watch t w = may_watch s w) \<and> (\<forall>w. room_for w t = room_for w s)"
  by (simp add: io_same_def io_ok_def cells_ok_def queue_ok_def cells_def watcher_at_def may_watch_def room_for_def has_room_def)

lemma handle_ops_io_same: "io_same s (uv__handle_start h s)" "io_same s (uv__handle_stop h s)"
  by (simp_all add: io_same_def uv__handle_start_def uv__handle_stop_def upd_flags_def uv__active_handle_add_def uv__active_handle_rm_def Let_def)

lemmas handle_ops_io [simp] = handle_ops_io_same [THEN io_same_ok]

lemma handle_ops_watchers [simp]:
  "io (uv__handle_start h s) = io s" "io (uv__handle_stop h s) = io s"
  using handle_ops_io_same [of s h] by (simp_all add: io_same_def)

lemma poll_cb_frame [simp]:
  "io_ok (p\<lparr>poll_cb := f\<rparr>) = io_ok p" "may_watch (p\<lparr>poll_cb := f\<rparr>) w = may_watch p w"
  "refs_ok (p\<lparr>poll_cb := f\<rparr>) = refs_ok p" "uv__is_active h (p\<lparr>poll_cb := f\<rparr>) = uv__is_active h p"
  by (simp_all add: io_ok_def cells_ok_def queue_ok_def cells_def watcher_at_def may_watch_def
      refs_ok_def counted_def flags_of_def uv__is_active_def uv__has_ref_def)

lemma is_active_start_stop: "uv__is_active h (uv__handle_start h s)" "\<not> uv__is_active h (uv__handle_stop h s)"
  by (simp_all add: uv__is_active_def flag_simps)

lemma poll_stop_ok:
  assumes "io_ok s" "may_watch s h" "refs_ok s" "h \<in> set (handle_queue s)" "w_pevents (io s h) AND NOT io_mask = 0"
  shows "\<exists>t. uv__poll_stop h s = Some t \<and> io_ok t \<and> may_watch t h \<and> refs_ok t \<and> w_pevents (io t h) = 0
    \<and> \<not> uv__is_active h t \<and> handle_queue t = handle_queue s \<and> room_for h t = room_for h s"
proof -
  have m: "POLLIN OR POLLOUT OR UV__POLLRDHUP = io_mask" "io_mask AND NOT io_mask = 0" "io_mask \<noteq> 0"
    by (simp_all add: io_mask_def)
  from io_stop_ok [OF assms(1,2) m(2,3)] obtain u where u: "uv__io_stop h io_mask s = Some u" "io_ok u" "may_watch u h"
    "w_pevents (io u h) = w_pevents (io s h) AND NOT io_mask" by blast
  have same: "handles_same s u" using io_handles(2) [OF u(1)] .
  have "refs_ok u" "h \<in> set (handle_queue u)"
    using refs_ok_same [OF same] same assms by (simp_all add: handles_same_def)
  then have "refs_ok (uv__handle_stop h u)" by (rule handle_stop_refs)
  moreover have "uv__poll_stop h s = Some (uv__handle_stop h u)" unfolding uv__poll_stop_def m(1) by (simp add: u(1))
  ultimately show ?thesis using u same assms(5) is_active_start_stop(2) io_stop_room [OF u(1)] by (auto simp: handles_same_def)
qed

section \<open>Properties\<close>

text \<open>\<open>uv_poll_start\<close> watches the descriptor for exactly the events asked for, translated to those of
  epoll and back without loss, and makes the handle active; with no events it stops the handle.  The
  watcher array, the queue of watchers and the count of active handles stay consistent, and no
  assertion fails, if there is memory for the array.\<close>
theorem poll_start_watches:
  assumes "io_ok s" "may_watch s h" "refs_ok s" "h \<in> set (handle_queue s)" "w_pevents (io s h) AND NOT io_mask = 0"
    and "\<not> uv__is_closing h s" "pevents AND NOT (UV_READABLE OR UV_WRITABLE OR UV_DISCONNECT) = 0" "room_for h s"
  shows "\<exists>t. uv_poll_start h pevents cb s = Some (0, t) \<and> io_ok t \<and> may_watch t h \<and> refs_ok t
    \<and> (uv__is_active h t \<longleftrightarrow> pevents \<noteq> 0) \<and> poll_pevents (w_pevents (io t h)) = pevents"
proof -
  from poll_stop_ok [OF assms(1-5)] obtain u where u: "uv__poll_stop h s = Some u" "io_ok u" "may_watch u h" "refs_ok u"
    "w_pevents (io u h) = 0" "\<not> uv__is_active h u" "handle_queue u = handle_queue s" "room_for h u" using assms(8) by blast
  note ev = poll_events_sets [OF assms(7)]
  show ?thesis
  proof (cases "pevents = 0")
    case True
    then show ?thesis using u assms(6) by (simp add: uv_poll_start_def poll_pevents_def)
  next
    case False
    with ev io_start_ok [OF u(2,3) _ _ u(8), of "poll_events_of pevents"] obtain v where
      v: "uv__io_start h (poll_events_of pevents) u = Some v" "io_ok v" "may_watch v h"
      "io v = (io u)(h := (io u h)\<lparr>w_pevents := w_pevents (io u h) OR poll_events_of pevents\<rparr>)" by auto
    have same: "handles_same u v" using io_handles(1) [OF v(1)] .
    have r: "refs_ok v" "h \<in> set (handle_queue v)"
      using refs_ok_same [OF same] same u assms(4) by (simp_all add: handles_same_def)
    have "w_pevents (io v h) = poll_events_of pevents" using v(4) u(5) by simp
    then show ?thesis using u(1) v(1-3) r handle_start_refs [OF r] assms(6,7) ev False is_active_start_stop(1)
      by (simp add: uv_poll_start_def Let_def)
  qed
qed

theorem poll_start_watches_witness:
  "\<exists>t. uv_poll_start 1 (UV_READABLE OR UV_DISCONNECT) True
      (empty_iloop [] 1 7 (aloop_ext (\<lambda>_. \<lparr>a_cb = None, a_pending = False\<rparr>) [] [] 50 (- 1) (ploop_ext (\<lambda>_. False) ()))
         \<lparr>handle_queue := [1]\<rparr>) = Some (0, t)
    \<and> uv__is_active 1 t \<and> poll_pevents (w_pevents (io t 1)) = UV_READABLE OR UV_DISCONNECT"
proof -
  let ?s = "empty_iloop [] 1 7 (aloop_ext (\<lambda>_. \<lparr>a_cb = None, a_pending = False\<rparr>) [] [] 50 (- 1) (ploop_ext (\<lambda>_. False) ()))
         \<lparr>handle_queue := [1]\<rparr>"
  have "\<exists>t. uv_poll_start 1 (UV_READABLE OR UV_DISCONNECT) True ?s = Some (0, t) \<and> io_ok t \<and> may_watch t 1 \<and> refs_ok t
    \<and> (uv__is_active 1 t \<longleftrightarrow> UV_READABLE OR UV_DISCONNECT \<noteq> 0) \<and> poll_pevents (w_pevents (io t 1)) = UV_READABLE OR UV_DISCONNECT"
    by (rule poll_start_watches)
      (simp_all add: empty_iloop_defs io_ok_def cells_ok_def queue_ok_def may_watch_def cells_def used_def refs_ok_def counted_def
        uv__is_active_def uv__is_closing_def flags_of_def flag_simps room_for_def has_room_def)
  then show ?thesis by auto
qed

end
