(* ===== verification/Streams.thy ===== *)
theory Streams
  imports Poll
begin

text \<open>
  Streams, \<open>src/unix/stream.cpp\<close>: what TCP handles, pipes and terminals share.  The watcher in handle
  \<open>h\<close> is the watcher at the address \<open>h\<close>.  A buffer is the list of its bytes; the base and length of a
  buffer that a write request still has to send are the bytes that are left of it.  \<open>call\<close> is what
  the user's callbacks do, and \<open>alloc\<close> what \<open>alloc_cb\<close> does: it returns the length of the buffer, 0
  when there is none.  Callbacks run in the middle of the library's functions, so every test
  behind a callback reads the state again, as the code does.
\<close>

record uv_stream =
  st_read_cb :: bool
  st_alloc_cb :: bool
  st_connection_cb :: bool
  st_connect_req :: "addr option"
  st_shutdown_req :: "addr option"
  st_accepted_fd :: int
  st_queued_fds :: "(nat \<times> int list) option"
  st_delayed_error :: int
  st_write_queue :: "addr list"
  st_write_completed :: "addr list"
  st_write_queue_size :: u64
  st_ipc :: bool
  st_pipe_fname :: "string option"

record uv_write_t =
  wr_handle :: addr
  wr_bufs :: "u8 list list option"
  wr_index :: nat
  wr_error :: int
  wr_send_handle :: "addr option"
  wr_cb :: bool

record sloop = ploop +
  streams :: "addr \<Rightarrow> uv_stream"
  writes :: "addr \<Rightarrow> uv_write_t"
  req_has_cb :: "addr \<Rightarrow> bool"
  emfile_fd :: int
  single_accept :: int

abbreviation (input) STDERR_FILENO :: int where "STDERR_FILENO \<equiv> 2"
abbreviation (input) SOL_SOCKET :: int where "SOL_SOCKET \<equiv> 1"
abbreviation (input) SO_ERROR :: int where "SO_ERROR \<equiv> 4"
abbreviation (input) SO_TYPE :: int where "SO_TYPE \<equiv> 3"
abbreviation (input) SO_REUSEADDR :: int where "SO_REUSEADDR \<equiv> 2"
abbreviation (input) SO_KEEPALIVE :: int where "SO_KEEPALIVE \<equiv> 9"
abbreviation (input) IPPROTO_TCP :: int where "IPPROTO_TCP \<equiv> 6"
abbreviation (input) TCP_NODELAY :: int where "TCP_NODELAY \<equiv> 1"
abbreviation (input) TCP_KEEPIDLE :: int where "TCP_KEEPIDLE \<equiv> 4"
abbreviation (input) SHUT_WR :: int where "SHUT_WR \<equiv> 1"
abbreviation (input) AF_UNIX :: int where "AF_UNIX \<equiv> 1"
abbreviation (input) SOCK_STREAM :: int where "SOCK_STREAM \<equiv> 1"
abbreviation (input) SOCK_DGRAM :: int where "SOCK_DGRAM \<equiv> 2"

definition upd_stream :: "addr \<Rightarrow> (uv_stream \<Rightarrow> uv_stream) \<Rightarrow> 'a sloop_scheme \<Rightarrow> 'a sloop_scheme" where
  "upd_stream h f s = s\<lparr>streams := (streams s)(h := f (streams s h))\<rparr>"

definition upd_write :: "addr \<Rightarrow> (uv_write_t \<Rightarrow> uv_write_t) \<Rightarrow> 'a sloop_scheme \<Rightarrow> 'a sloop_scheme" where
  "upd_write q f s = s\<lparr>writes := (writes s)(q := f (writes s q))\<rparr>"

definition uv__stream_fd :: "addr \<Rightarrow> 'a iloop_scheme \<Rightarrow> int" where
  "uv__stream_fd h s = w_fd (io s h)"

definition has :: "addr \<Rightarrow> u32 \<Rightarrow> 'a loop_scheme \<Rightarrow> bool" where
  "has h flag s = has_flag (flags_of s h) flag"

definition set_flags :: "addr \<Rightarrow> u32 \<Rightarrow> 'a loop_scheme \<Rightarrow> 'a loop_scheme" where
  "set_flags h flag s = upd_flags h (\<lambda>f. set_flag f flag) s"

definition clear_flags :: "addr \<Rightarrow> u32 \<Rightarrow> 'a loop_scheme \<Rightarrow> 'a loop_scheme" where
  "clear_flags h flag s = upd_flags h (\<lambda>f. clear_flag f flag) s"

definition handle_type :: "addr \<Rightarrow> 'a loop_scheme \<Rightarrow> uv_handle_type" where
  "handle_type h s = h_type (hnd s h)"

text \<open>\<open>uv__io_stop\<close>, and \<open>uv__handle_stop\<close> when the watcher wants nothing else.\<close>

definition stop_events :: "addr \<Rightarrow> u32 \<Rightarrow> u32 \<Rightarrow> 'a sloop_scheme \<Rightarrow> 'a sloop_scheme option" where
  "stop_events h events others s = do {
     s \<leftarrow> uv__io_stop h events s;
     Some (if \<not> uv__io_active h others s then uv__handle_stop h s else s)
   }"

text \<open>\<open>uv__req_unregister\<close> with its assertion.\<close>

definition req_unregister :: "addr \<Rightarrow> 'a loop_scheme \<Rightarrow> 'a loop_scheme option" where
  "req_unregister q s = do { require (uv__has_active_reqs s); Some (uv__req_unregister q s) }"

section \<open>Opening\<close>

definition uv__stream_init :: "addr \<Rightarrow> uv_handle_type \<Rightarrow> 'a sloop_scheme \<Rightarrow> 'a sloop_scheme option" where
  "uv__stream_init h type s = do {
     let s = uv__handle_init h type s;
     let s = s\<lparr>hnd := (hnd s)(h := (hnd s h)\<lparr>h_close_cb := False\<rparr>)\<rparr>;
     let s = upd_stream h (\<lambda>st. st\<lparr>st_read_cb := False, st_alloc_cb := False, st_connection_cb := False,
        st_connect_req := None, st_shutdown_req := None, st_accepted_fd := - 1, st_queued_fds := None,
        st_delayed_error := 0, st_write_queue := [], st_write_completed := [], st_write_queue_size := 0\<rparr>) s;
     s \<leftarrow> (if emfile_fd s = - 1 then do {
         (err, s) \<leftarrow> uv__open_cloexec ''/dev/null'' O_RDONLY s;
         (err, s) \<leftarrow> (if err < 0 then uv__open_cloexec ''/'' O_RDONLY s else Some (err, s));
         Some (if err \<ge> 0 then s\<lparr>emfile_fd := err\<rparr> else s)
       } else Some s);
     uv__io_init h uv__stream_io_cb (- 1) s
   }"

definition uv__tcp_nodelay :: "int \<Rightarrow> int \<Rightarrow> 'a kern_scheme \<Rightarrow> (int \<times> 'a kern_scheme) option" where
  "uv__tcp_nodelay fd on s = do {
     (r, s) \<leftarrow> syscall (Setsockopt fd IPPROTO_TCP TCP_NODELAY on) s;
     Some (if r_ret r \<noteq> 0 then - errno s else 0, s)
   }"

definition uv__tcp_keepalive :: "int \<Rightarrow> int \<Rightarrow> int \<Rightarrow> 'a kern_scheme \<Rightarrow> (int \<times> 'a kern_scheme) option" where
  "uv__tcp_keepalive fd on delay s = do {
     (r, s) \<leftarrow> syscall (Setsockopt fd SOL_SOCKET SO_KEEPALIVE on) s;
     if r_ret r \<noteq> 0 then Some (- errno s, s)
     else if on \<noteq> 0 then do {
       (r, s) \<leftarrow> syscall (Setsockopt fd IPPROTO_TCP TCP_KEEPIDLE delay) s;
       Some (if r_ret r \<noteq> 0 then - errno s else 0, s)
     } else Some (0, s)
   }"

definition uv__stream_open :: "addr \<Rightarrow> int \<Rightarrow> u32 \<Rightarrow> 'a sloop_scheme \<Rightarrow> (int \<times> 'a sloop_scheme) option" where
  "uv__stream_open h fd flags s =
     (if \<not> (w_fd (io s h) = - 1 \<or> w_fd (io s h) = fd) then Some (- EBUSY, s)
      else do {
        require (fd \<ge> 0);
        let s = set_flags h flags s;
        (failed, s) \<leftarrow> (if handle_type h s = UV_TCP then do {
            (err, s) \<leftarrow> (if has h UV_TCP_NODELAY s then uv__tcp_nodelay fd 1 s else Some (0, s));
            if err \<noteq> 0 then Some (True, s)
            else do {
              (err, s) \<leftarrow> (if has h UV_TCP_KEEPALIVE s then uv__tcp_keepalive fd 1 60 s else Some (0, s));
              Some (err \<noteq> 0, s)
            }
          } else Some (False, s));
        if failed then Some (- errno s, s)
        else Some (0, upd_io h (\<lambda>w. w\<lparr>w_fd := fd\<rparr>) s)
      })"

definition uv__set_reuse :: "int \<Rightarrow> 'a kern_scheme \<Rightarrow> (int \<times> 'a kern_scheme) option" where
  "uv__set_reuse fd s = do {
     (r, s) \<leftarrow> syscall (Setsockopt fd SOL_SOCKET SO_REUSEADDR 1) s;
     Some (if r_ret r \<noteq> 0 then - errno s else 0, s)
   }"

definition uv_udp_open :: "addr \<Rightarrow> int \<Rightarrow> 'a iloop_scheme \<Rightarrow> (int \<times> 'a iloop_scheme) option" where
  "uv_udp_open h sock s =
     (if w_fd (io s h) \<noteq> - 1 then Some (- EBUSY, s)
      else do {
        (err, s) \<leftarrow> uv__nonblock sock 1 s;
        if err \<noteq> 0 then Some (err, s)
        else do {
          (err, s) \<leftarrow> uv__set_reuse sock s;
          if err \<noteq> 0 then Some (err, s)
          else Some (0, upd_io h (\<lambda>w. w\<lparr>w_fd := sock\<rparr>) s)
        }
      })"

section \<open>Writing\<close>

text \<open>The bytes a request still has to send, and their number as \<open>uv__write_req_size\<close> counts them.\<close>

definition req_left :: "uv_write_t \<Rightarrow> u8 list list" where
  "req_left w = (case wr_bufs w of None \<Rightarrow> [] | Some bufs \<Rightarrow> drop (wr_index w) bufs)"

definition uv__write_req_size :: "addr \<Rightarrow> 'a sloop_scheme \<Rightarrow> u64 option" where
  "uv__write_req_size q s = do {
     require (wr_bufs (writes s q) \<noteq> None);
     let size = uv__count_bufs (req_left (writes s q));
     require (st_write_queue_size (streams s (wr_handle (writes s q))) \<ge> size);
     Some size
   }"

definition uv__write_req_finish :: "addr \<Rightarrow> 'a sloop_scheme \<Rightarrow> 'a sloop_scheme" where
  "uv__write_req_finish q s =
     (let h = wr_handle (writes s q);
          s = upd_stream h (\<lambda>st. st\<lparr>st_write_queue := remove1 q (st_write_queue st)\<rparr>) s;
          s = (if wr_error (writes s q) = 0 then upd_write q (\<lambda>w. w\<lparr>wr_bufs := None\<rparr>) s else s);
          s = upd_stream h (\<lambda>st. st\<lparr>st_write_completed := st_write_completed st @ [q]\<rparr>) s
      in uv__io_feed h s)"

definition uv__handle_fd :: "addr \<Rightarrow> 'a iloop_scheme \<Rightarrow> int" where
  "uv__handle_fd h s =
     (if handle_type h s \<in> {UV_NAMED_PIPE, UV_TCP, UV_UDP} then w_fd (io s h) else - 1)"

text \<open>
  The loop that takes the bytes written off the request: \<open>k\<close> is the number of its buffers that are
  left.  It ends with a new start of the function, behind the loop, or with the request finished.
\<close>

datatype advance = Start_again | Break_loop | Return_done

fun write_advance :: "nat \<Rightarrow> addr \<Rightarrow> addr \<Rightarrow> nat \<Rightarrow> 'a sloop_scheme \<Rightarrow> (advance \<times> 'a sloop_scheme) option" where
  "write_advance 0 h q n s = None"
| "write_advance (Suc k) h q n s = do {
     bufs \<leftarrow> wr_bufs (writes s q);
     let i = wr_index (writes s q);
     let len = length (bufs ! i);
     if n < len then
       let s = upd_write q (\<lambda>w. w\<lparr>wr_bufs := Some (bufs[i := drop n (bufs ! i)])\<rparr>) s;
           s = upd_stream h (\<lambda>st. st\<lparr>st_write_queue_size := st_write_queue_size st - of_nat n\<rparr>) s
       in Some (if has h UV_STREAM_BLOCKING s then Start_again else Break_loop, s)
     else do {
       let s = upd_write q (\<lambda>w. w\<lparr>wr_index := i + 1\<rparr>) s;
       let n = n - len;
       require (st_write_queue_size (streams s h) \<ge> of_nat len);
       let s = upd_stream h (\<lambda>st. st\<lparr>st_write_queue_size := st_write_queue_size st - of_nat len\<rparr>) s;
       if i + 1 = length bufs then do {
         require (n = 0);
         Some (Return_done, uv__write_req_finish q s)
       } else write_advance k h q n s
     }
   }"

text \<open>\<open>write\<close>, \<open>writev\<close> or \<open>sendmsg\<close> of the first request.\<close>

definition write_syscall :: "addr \<Rightarrow> addr \<Rightarrow> 'a sloop_scheme \<Rightarrow> (reply \<times> 'a sloop_scheme) option" where
  "write_syscall h q s = do {
     let iov = take (min (length (req_left (writes s q))) uv__getiovmax) (req_left (writes s q));
     case wr_send_handle (writes s q) of
       Some sh \<Rightarrow> do {
         let fd_to_send = uv__handle_fd sh s;
         require (fd_to_send \<ge> 0);
         eintr_loop (Sendmsg (uv__stream_fd h s) fd_to_send iov) s
       }
     | None \<Rightarrow>
         if length iov = 1 then eintr_loop (Write (uv__stream_fd h s) (iov ! 0)) s
         else eintr_loop (Writev (uv__stream_fd h s) iov) s
   }"

text \<open>One pass from the label \<open>start\<close>; the result says whether the function goes back to it.\<close>

definition write_wait :: "addr \<Rightarrow> 'a sloop_scheme \<Rightarrow> (bool \<times> 'a sloop_scheme) option" where
  "write_wait h s = do {
     require (\<not> has h UV_STREAM_BLOCKING s);
     s \<leftarrow> uv__io_start h POLLOUT s;
     Some (False, s)
   }"

definition write_round :: "addr \<Rightarrow> 'a sloop_scheme \<Rightarrow> (bool \<times> 'a sloop_scheme) option" where
  "write_round h s = do {
     require (uv__stream_fd h s \<ge> 0);
     case st_write_queue (streams s h) of
       [] \<Rightarrow> Some (False, s)
     | q # _ \<Rightarrow> do {
         require (wr_handle (writes s q) = h);
         (r, s) \<leftarrow> write_syscall h q s;
         if r_ret r < 0 then
           (if errno s \<noteq> EAGAIN \<and> errno s \<noteq> EWOULDBLOCK then do {
              let s = upd_write q (\<lambda>w. w\<lparr>wr_error := - errno s\<rparr>) s;
              s \<leftarrow> stop_events h POLLOUT POLLIN (uv__write_req_finish q s);
              Some (False, s)
            }
            else if has h UV_STREAM_BLOCKING s then Some (True, s)
            else do { require (r_ret r = - 1); write_wait h s })
         else do {
           bufs \<leftarrow> wr_bufs (writes s q);
           (how, s) \<leftarrow> write_advance (length bufs - wr_index (writes s q)) h q (nat (r_ret r)) s;
           case how of
             Start_again \<Rightarrow> Some (True, s)
           | Break_loop \<Rightarrow> write_wait h s
           | Return_done \<Rightarrow> Some (False, s)
         }
       }
   }"

partial_function (option) uv__write :: "addr \<Rightarrow> 'a sloop_scheme \<Rightarrow> 'a sloop_scheme option" where
  "uv__write h s =
     (case write_round h s of
        None \<Rightarrow> None
      | Some p \<Rightarrow> if fst p then uv__write h (snd p) else Some (snd p))"

definition write_callback_one ::
    "(callback \<Rightarrow> 'a sloop_scheme \<Rightarrow> 'a sloop_scheme) \<Rightarrow> addr \<Rightarrow> addr \<Rightarrow> 'a sloop_scheme \<Rightarrow> 'a sloop_scheme option" where
  "write_callback_one call h q s = do {
     let s = upd_stream h (\<lambda>st. st\<lparr>st_write_completed := remove1 q (st_write_completed st)\<rparr>) s;
     s \<leftarrow> req_unregister q s;
     s \<leftarrow> (if wr_bufs (writes s q) \<noteq> None then do {
         size \<leftarrow> uv__write_req_size q s;
         let s = upd_stream h (\<lambda>st. st\<lparr>st_write_queue_size := st_write_queue_size st - size\<rparr>) s;
         Some (upd_write q (\<lambda>w. w\<lparr>wr_bufs := None\<rparr>) s)
       } else Some s);
     Some (if wr_cb (writes s q) then invoke call (Write_cb q (wr_error (writes s q))) s else s)
   }"

partial_function (option) uv__write_callbacks ::
    "(callback \<Rightarrow> 'a sloop_scheme \<Rightarrow> 'a sloop_scheme) \<Rightarrow> addr \<Rightarrow> 'a sloop_scheme \<Rightarrow> 'a sloop_scheme option" where
  "uv__write_callbacks call h s =
     (case st_write_completed (streams s h) of
        [] \<Rightarrow> Some s
      | q # _ \<Rightarrow> Option.bind (write_callback_one call h q s) (uv__write_callbacks call h))"

section \<open>Closing\<close>

definition uv__stream_flush_write_queue :: "addr \<Rightarrow> int \<Rightarrow> 'a sloop_scheme \<Rightarrow> 'a sloop_scheme" where
  "uv__stream_flush_write_queue h error s =
     (let q = st_write_queue (streams s h);
          s = s\<lparr>writes := (\<lambda>r. if r \<in> set q then (writes s r)\<lparr>wr_error := error\<rparr> else writes s r)\<rparr>
      in upd_stream h (\<lambda>st. st\<lparr>st_write_queue := [], st_write_completed := st_write_completed st @ q\<rparr>) s)"

text \<open>The callback of a connect or shutdown request.\<close>

definition req_callback ::
    "(callback \<Rightarrow> 'a sloop_scheme \<Rightarrow> 'a sloop_scheme) \<Rightarrow> callback \<Rightarrow> addr \<Rightarrow> 'a sloop_scheme \<Rightarrow> 'a sloop_scheme" where
  "req_callback call c r s = (if req_has_cb s r then invoke call c s else s)"

definition uv__stream_destroy ::
    "(callback \<Rightarrow> 'a sloop_scheme \<Rightarrow> 'a sloop_scheme) \<Rightarrow> addr \<Rightarrow> 'a sloop_scheme \<Rightarrow> 'a sloop_scheme option" where
  "uv__stream_destroy call h s = do {
     require (\<not> uv__io_active h (POLLIN OR POLLOUT) s);
     require (has h UV_CLOSED s);
     s \<leftarrow> (case st_connect_req (streams s h) of
         None \<Rightarrow> Some s
       | Some r \<Rightarrow> do {
           s \<leftarrow> req_unregister r s;
           require (req_has_cb s r);
           let s = invoke call (Connect_cb r (- ECANCELED)) s;
           Some (upd_stream h (\<lambda>st. st\<lparr>st_connect_req := None\<rparr>) s)
         });
     s \<leftarrow> uv__write_callbacks call h (uv__stream_flush_write_queue h (- ECANCELED) s);
     s \<leftarrow> (case st_shutdown_req (streams s h) of
         None \<Rightarrow> Some s
       | Some r \<Rightarrow> do {
           s \<leftarrow> req_unregister r s;
           require (req_has_cb s r);
           let s = invoke call (Shutdown_cb r (- ECANCELED)) s;
           Some (upd_stream h (\<lambda>st. st\<lparr>st_shutdown_req := None\<rparr>) s)
         });
     require (st_write_queue_size (streams s h) = 0);
     Some s
   }"

fun close_all :: "int list \<Rightarrow> 'a kern_scheme \<Rightarrow> 'a kern_scheme option" where
  "close_all [] s = Some s"
| "close_all (fd # fdl) s = do { (_, s) \<leftarrow> uv__close fd s; close_all fdl s }"

definition uv_read_stop :: "addr \<Rightarrow> 'a sloop_scheme \<Rightarrow> (int \<times> 'a sloop_scheme) option" where
  "uv_read_stop h s =
     (if \<not> has h UV_STREAM_READING s then Some (0, s)
      else do {
        s \<leftarrow> stop_events h POLLIN POLLOUT (clear_flags h UV_STREAM_READING s);
        Some (0, upd_stream h (\<lambda>st. st\<lparr>st_read_cb := False, st_alloc_cb := False\<rparr>) s)
      })"

definition uv__stream_close :: "addr \<Rightarrow> 'a sloop_scheme \<Rightarrow> 'a sloop_scheme option" where
  "uv__stream_close h s = do {
     s \<leftarrow> uv__io_close h s;
     (_, s) \<leftarrow> uv_read_stop h s;
     let s = uv__handle_stop h s;
     s \<leftarrow> (if w_fd (io s h) \<noteq> - 1 then do {
         s \<leftarrow> (if w_fd (io s h) > STDERR_FILENO then map_option snd (uv__close (w_fd (io s h)) s) else Some s);
         Some (upd_io h (\<lambda>w. w\<lparr>w_fd := - 1\<rparr>) s)
       } else Some s);
     s \<leftarrow> (if st_accepted_fd (streams s h) \<noteq> - 1 then do {
         (_, s) \<leftarrow> uv__close (st_accepted_fd (streams s h)) s;
         Some (upd_stream h (\<lambda>st. st\<lparr>st_accepted_fd := - 1\<rparr>) s)
       } else Some s);
     s \<leftarrow> (case st_queued_fds (streams s h) of
         None \<Rightarrow> Some s
       | Some (sz, fdl) \<Rightarrow> do {
           s \<leftarrow> close_all fdl s;
           Some (upd_stream h (\<lambda>st. st\<lparr>st_queued_fds := None\<rparr>) s)
         });
     require (\<not> uv__io_active h (POLLIN OR POLLOUT) s);
     Some s
   }"

section \<open>Accepting\<close>

text \<open>The loop of \<open>uv__emfile_trick\<close>: accept and close until there is nothing left to accept.\<close>

partial_function (option) accept_and_close :: "int \<Rightarrow> 'a kern_scheme \<Rightarrow> (int \<times> 'a kern_scheme) option" where
  "accept_and_close accept_fd s =
     Option.bind (uv__accept accept_fd s) (\<lambda>p.
       if fst p \<ge> 0 then Option.bind (uv__close (fst p) (snd p)) (\<lambda>q. accept_and_close accept_fd (snd q))
       else if fst p = - EINTR then accept_and_close accept_fd (snd p)
       else Some p)"

definition uv__emfile_trick :: "int \<Rightarrow> 'a sloop_scheme \<Rightarrow> (int \<times> 'a sloop_scheme) option" where
  "uv__emfile_trick accept_fd s =
     (if emfile_fd s = - 1 then Some (- EMFILE, s)
      else do {
        (_, s) \<leftarrow> uv__close (emfile_fd s) s;
        (err, s) \<leftarrow> accept_and_close accept_fd (s\<lparr>emfile_fd := - 1\<rparr>);
        (fd, s) \<leftarrow> uv__open_cloexec ''/'' O_RDONLY s;
        Some (err, if fd \<ge> 0 then s\<lparr>emfile_fd := fd\<rparr> else s)
      })"

text \<open>One pass of the loop of \<open>uv__server_io\<close>; the result says whether it goes on.\<close>

definition server_round ::
    "(callback \<Rightarrow> 'a sloop_scheme \<Rightarrow> 'a sloop_scheme) \<Rightarrow> addr \<Rightarrow> 'a sloop_scheme \<Rightarrow> (bool \<times> 'a sloop_scheme) option" where
  "server_round call h s =
     (if uv__stream_fd h s = - 1 then Some (False, s)
      else do {
        require (st_accepted_fd (streams s h) = - 1);
        (err, s) \<leftarrow> uv__accept (uv__stream_fd h s) s;
        if err < 0 then
          (if err = - EAGAIN \<or> err = - EWOULDBLOCK then Some (False, s)
           else if err = - ECONNABORTED then Some (True, s)
           else do {
             (err, s) \<leftarrow> (if err = - EMFILE \<or> err = - ENFILE then uv__emfile_trick (uv__stream_fd h s) s else Some (err, s));
             if err = - EAGAIN \<or> err = - EWOULDBLOCK then Some (False, s)
             else do {
               require (st_connection_cb (streams s h));
               Some (True, invoke call (Connection_cb h err) s)
             }
           })
        else do {
          let s = upd_stream h (\<lambda>st. st\<lparr>st_accepted_fd := err\<rparr>) s;
          require (st_connection_cb (streams s h));
          let s = invoke call (Connection_cb h 0) s;
          if st_accepted_fd (streams s h) \<noteq> - 1 then do {
            s \<leftarrow> uv__io_stop h POLLIN s;
            Some (False, s)
          }
          else if handle_type h s = UV_TCP \<and> has h UV_TCP_SINGLE_ACCEPT s then do {
            (_, s) \<leftarrow> syscall (Sys ''nanosleep'' [0, 1]) s;
            Some (True, s)
          }
          else Some (True, s)
        }
      })"

partial_function (option) server_loop ::
    "(callback \<Rightarrow> 'a sloop_scheme \<Rightarrow> 'a sloop_scheme) \<Rightarrow> addr \<Rightarrow> 'a sloop_scheme \<Rightarrow> 'a sloop_scheme option" where
  "server_loop call h s =
     (case server_round call h s of
        None \<Rightarrow> None
      | Some p \<Rightarrow> if fst p then server_loop call h (snd p) else Some (snd p))"

definition uv__server_io ::
    "(callback \<Rightarrow> 'a sloop_scheme \<Rightarrow> 'a sloop_scheme) \<Rightarrow> addr \<Rightarrow> u32 \<Rightarrow> 'a sloop_scheme \<Rightarrow> 'a sloop_scheme option" where
  "uv__server_io call h events s = do {
     require (events = POLLIN);
     require (st_accepted_fd (streams s h) = - 1);
     require (\<not> has h UV_CLOSING s);
     s \<leftarrow> uv__io_start h POLLIN s;
     server_loop call h s
   }"

text \<open>The end of \<open>uv_accept\<close>, from the label \<open>done\<close>: the next descriptor that was received, if any.\<close>

definition accept_done :: "addr \<Rightarrow> int \<Rightarrow> 'a sloop_scheme \<Rightarrow> (int \<times> 'a sloop_scheme) option" where
  "accept_done server err s =
     (case st_queued_fds (streams s server) of
        Some (sz, fdl) \<Rightarrow> do {
          require (length fdl > 0);
          Some (err, upd_stream server (\<lambda>st. st\<lparr>st_accepted_fd := hd fdl,
            st_queued_fds := (if length fdl - 1 = 0 then None else Some (sz, tl fdl))\<rparr>) s)
        }
      | None \<Rightarrow> do {
          let s = upd_stream server (\<lambda>st. st\<lparr>st_accepted_fd := - 1\<rparr>) s;
          s \<leftarrow> (if err = 0 then uv__io_start server POLLIN s else Some s);
          Some (err, s)
        })"

definition uv_accept :: "addr \<Rightarrow> addr \<Rightarrow> 'a sloop_scheme \<Rightarrow> (int \<times> 'a sloop_scheme) option" where
  "uv_accept server client s =
     (if st_accepted_fd (streams s server) = - 1 then Some (- EAGAIN, s)
      else if handle_type client s \<notin> {UV_NAMED_PIPE, UV_TCP, UV_UDP} then Some (- EINVAL, s)
      else do {
        (err, s) \<leftarrow> (if handle_type client s = UV_UDP
            then uv_udp_open client (st_accepted_fd (streams s server)) s
            else uv__stream_open client (st_accepted_fd (streams s server)) (UV_STREAM_READABLE OR UV_STREAM_WRITABLE) s);
        if err \<noteq> 0 then do {
          (_, s) \<leftarrow> uv__close (st_accepted_fd (streams s server)) s;
          accept_done server err s
        }
        else accept_done server err (set_flags client UV_HANDLE_BOUND s)
      })"

section \<open>Draining, shutdown, connecting\<close>

definition uv__drain ::
    "(callback \<Rightarrow> 'a sloop_scheme \<Rightarrow> 'a sloop_scheme) \<Rightarrow> addr \<Rightarrow> 'a sloop_scheme \<Rightarrow> 'a sloop_scheme option" where
  "uv__drain call h s = do {
     require (st_write_queue (streams s h) = []);
     s \<leftarrow> uv__io_stop h POLLOUT s;
     if has h UV_STREAM_SHUTTING s \<and> \<not> has h UV_CLOSING s \<and> \<not> has h UV_STREAM_SHUT s then do {
       r \<leftarrow> st_shutdown_req (streams s h);
       let s = upd_stream h (\<lambda>st. st\<lparr>st_shutdown_req := None\<rparr>) s;
       s \<leftarrow> req_unregister r (clear_flags h UV_STREAM_SHUTTING s);
       (q, s) \<leftarrow> syscall (Shutdown (uv__stream_fd h s) SHUT_WR) s;
       let err = (if r_ret q \<noteq> 0 then - errno s else 0);
       let s = (if err = 0 then set_flags h UV_STREAM_SHUT s else s);
       Some (req_callback call (Shutdown_cb r err) r s)
     } else Some s
   }"

definition uv_shutdown :: "addr \<Rightarrow> addr \<Rightarrow> bool \<Rightarrow> 'a sloop_scheme \<Rightarrow> (int \<times> 'a sloop_scheme) option" where
  "uv_shutdown r h cb s = do {
     require (handle_type h s = UV_TCP \<or> handle_type h s = UV_NAMED_PIPE);
     if \<not> has h UV_STREAM_WRITABLE s \<or> has h UV_STREAM_SHUT s \<or> has h UV_STREAM_SHUTTING s \<or> uv__is_closing h s
     then Some (- ENOTCONN, s)
     else do {
       require (uv__stream_fd h s \<ge> 0);
       let s = uv__req_register r s;
       let s = s\<lparr>req_has_cb := (req_has_cb s)(r := cb)\<rparr>;
       let s = upd_stream h (\<lambda>st. st\<lparr>st_shutdown_req := Some r\<rparr>) s;
       let s = set_flags h UV_STREAM_SHUTTING s;
       s \<leftarrow> uv__io_start h POLLOUT s;
       Some (0, s)
     }
   }"

definition uv__stream_connect ::
    "(callback \<Rightarrow> 'a sloop_scheme \<Rightarrow> 'a sloop_scheme) \<Rightarrow> addr \<Rightarrow> 'a sloop_scheme \<Rightarrow> 'a sloop_scheme option" where
  "uv__stream_connect call h s = do {
     require (handle_type h s = UV_TCP \<or> handle_type h s = UV_NAMED_PIPE);
     r \<leftarrow> st_connect_req (streams s h);
     (error, s) \<leftarrow> (if st_delayed_error (streams s h) \<noteq> 0
         then Some (st_delayed_error (streams s h), upd_stream h (\<lambda>st. st\<lparr>st_delayed_error := 0\<rparr>) s)
         else do {
           require (uv__stream_fd h s \<ge> 0);
           (q, s) \<leftarrow> syscall (Getsockopt (uv__stream_fd h s) SOL_SOCKET SO_ERROR) s;
           Some (- r_val q, s)
         });
     if error = - EINPROGRESS then Some s
     else do {
       s \<leftarrow> req_unregister r (upd_stream h (\<lambda>st. st\<lparr>st_connect_req := None\<rparr>) s);
       s \<leftarrow> (if error < 0 \<or> st_write_queue (streams s h) = [] then uv__io_stop h POLLOUT s else Some s);
       let s = req_callback call (Connect_cb r error) r s;
       if uv__stream_fd h s = - 1 then Some s
       else if error < 0 then uv__write_callbacks call h (uv__stream_flush_write_queue h (- ECANCELED) s)
       else Some s
     }
   }"

section \<open>Reading\<close>

definition uv__handle_type :: "int \<Rightarrow> 'a kern_scheme \<Rightarrow> (uv_handle_type \<times> 'a kern_scheme) option" where
  "uv__handle_type fd s = do {
     (r, s) \<leftarrow> syscall (Getsockname fd) s;
     if r_ret r \<noteq> 0 then Some (UV_UNKNOWN_HANDLE, s)
     else do {
       let family = r_val r;
       (r, s) \<leftarrow> syscall (Getsockopt fd SOL_SOCKET SO_TYPE) s;
       if r_ret r \<noteq> 0 then Some (UV_UNKNOWN_HANDLE, s)
       else let type = r_val r
         in Some (if type = SOCK_STREAM \<and> family = AF_UNIX then UV_NAMED_PIPE
                  else if type = SOCK_STREAM \<and> (family = AF_INET \<or> family = AF_INET6) then UV_TCP
                  else if type = SOCK_DGRAM \<and> (family = AF_INET \<or> family = AF_INET6) then UV_UDP
                  else UV_UNKNOWN_HANDLE, s)
     }
   }"

text \<open>\<open>call\<close> of \<open>read_cb\<close> with the bytes read; they are none on an error or at the end.\<close>

definition read_call ::
    "(callback \<Rightarrow> 'a sloop_scheme \<Rightarrow> 'a sloop_scheme) \<Rightarrow> addr \<Rightarrow> int \<Rightarrow> u8 list \<Rightarrow> 'a sloop_scheme \<Rightarrow> 'a sloop_scheme option" where
  "read_call call h nread data s = do {
     require (st_read_cb (streams s h));
     Some (invoke call (Read_cb h nread data) s)
   }"

definition uv__stream_eof ::
    "(callback \<Rightarrow> 'a sloop_scheme \<Rightarrow> 'a sloop_scheme) \<Rightarrow> addr \<Rightarrow> 'a sloop_scheme \<Rightarrow> 'a sloop_scheme option" where
  "uv__stream_eof call h s = do {
     s \<leftarrow> stop_events h POLLIN POLLOUT (set_flags h UV_STREAM_READ_EOF s);
     s \<leftarrow> read_call call h UV_EOF [] s;
     Some (clear_flags h UV_STREAM_READING s)
   }"

text \<open>
  The queue of descriptors received and not yet accepted: its capacity grows by 8.  \<open>realloc\<close> is a
  system call of the script, as \<open>malloc\<close> is.
\<close>

definition uv__stream_queue_fd :: "addr \<Rightarrow> int \<Rightarrow> 'a sloop_scheme \<Rightarrow> (int \<times> 'a sloop_scheme) option" where
  "uv__stream_queue_fd h fd s = do {
     (queue, s) \<leftarrow> (case st_queued_fds (streams s h) of
         None \<Rightarrow> do {
           (r, s) \<leftarrow> syscall (Malloc ((8 - 1) * 4 + 12)) s;
           Some (if r_ret r = - 1 then None else Some (8, []), s)
         }
       | Some (sz, fdl) \<Rightarrow>
           if sz = length fdl then do {
             (r, s) \<leftarrow> syscall (Sys ''realloc'' [(int sz + 8 - 1) * 4 + 12]) s;
             Some (if r_ret r = - 1 then None else Some (sz + 8, fdl), s)
           } else Some (Some (sz, fdl), s));
     case queue of
       None \<Rightarrow> Some (- ENOMEM, s)
     | Some (sz, fdl) \<Rightarrow> Some (0, upd_stream h (\<lambda>st. st\<lparr>st_queued_fds := Some (sz, fdl @ [fd])\<rparr>) s)
   }"

text \<open>The descriptors of the ancillary data, one after the other.\<close>

fun uv__stream_recv_cmsg :: "addr \<Rightarrow> int list \<Rightarrow> 'a sloop_scheme \<Rightarrow> (int \<times> 'a sloop_scheme) option" where
  "uv__stream_recv_cmsg h [] s = Some (0, s)"
| "uv__stream_recv_cmsg h (fd # pi) s =
     (if st_accepted_fd (streams s h) \<noteq> - 1 then do {
        (err, s) \<leftarrow> uv__stream_queue_fd h fd s;
        if err \<noteq> 0 then do { s \<leftarrow> close_all (fd # pi) s; Some (err, s) }
        else uv__stream_recv_cmsg h pi s
      }
      else uv__stream_recv_cmsg h pi (upd_stream h (\<lambda>st. st\<lparr>st_accepted_fd := fd\<rparr>) s))"

text \<open>\<open>read\<close>, or \<open>uv__recvmsg\<close> on a pipe that passes handles, repeated on \<open>EINTR\<close>.\<close>

partial_function (option) recvmsg_loop :: "int \<Rightarrow> 'a kern_scheme \<Rightarrow> (int \<times> reply \<times> 'a kern_scheme) option" where
  "recvmsg_loop fd s =
     Option.bind (uv__recvmsg fd 0 s) (\<lambda>p.
       if fst p < 0 \<and> errno (snd (snd p)) = EINTR then recvmsg_loop fd (snd (snd p)) else Some p)"

definition read_syscall :: "bool \<Rightarrow> addr \<Rightarrow> nat \<Rightarrow> 'a sloop_scheme \<Rightarrow> (int \<times> reply \<times> 'a sloop_scheme) option" where
  "read_syscall is_ipc h len s =
     (if is_ipc then recvmsg_loop (uv__stream_fd h s) s
      else do { (r, s) \<leftarrow> eintr_loop (Read (uv__stream_fd h s) (int len)) s; Some (r_ret r, r, s) })"

text \<open>One pass of the loop of \<open>uv__read\<close>; the result says whether it goes on.\<close>

definition read_round ::
    "(callback \<Rightarrow> 'a sloop_scheme \<Rightarrow> 'a sloop_scheme) \<Rightarrow> (addr \<Rightarrow> 'a sloop_scheme \<Rightarrow> nat \<times> 'a sloop_scheme) \<Rightarrow>
     bool \<Rightarrow> addr \<Rightarrow> 'a sloop_scheme \<Rightarrow> (bool \<times> 'a sloop_scheme) option" where
  "read_round call alloc is_ipc h s = do {
     require (st_alloc_cb (streams s h));
     let (len, s) = alloc h s;
     if len = 0 then do { s \<leftarrow> read_call call h (- ENOBUFS) [] s; Some (False, s) }
     else do {
       require (uv__stream_fd h s \<ge> 0);
       (nread, r, s) \<leftarrow> read_syscall is_ipc h len s;
       if nread < 0 then
         (if errno s = EAGAIN \<or> errno s = EWOULDBLOCK then do {
            s \<leftarrow> (if has h UV_STREAM_READING s then uv__io_start h POLLIN s else Some s);
            s \<leftarrow> read_call call h 0 [] s;
            Some (False, s)
          }
          else do {
            s \<leftarrow> read_call call h (- errno s) [] s;
            s \<leftarrow> (if has h UV_STREAM_READING s then stop_events h POLLIN POLLOUT (clear_flags h UV_STREAM_READING s) else Some s);
            Some (False, s)
          })
       else if nread = 0 then do { s \<leftarrow> uv__stream_eof call h s; Some (False, s) }
       else do {
         (err, s) \<leftarrow> (if is_ipc then uv__stream_recv_cmsg h (r_fds r) s else Some (0, s));
         if err \<noteq> 0 then do { s \<leftarrow> read_call call h err [] s; Some (False, s) }
         else do {
           s \<leftarrow> read_call call h nread (r_bytes r) s;
           if nread < int len then Some (False, set_flags h UV_STREAM_READ_PARTIAL s)
           else Some (True, s)
         }
       }
     }
   }"

fun read_loop ::
    "(callback \<Rightarrow> 'a sloop_scheme \<Rightarrow> 'a sloop_scheme) \<Rightarrow> (addr \<Rightarrow> 'a sloop_scheme \<Rightarrow> nat \<times> 'a sloop_scheme) \<Rightarrow>
     bool \<Rightarrow> nat \<Rightarrow> addr \<Rightarrow> 'a sloop_scheme \<Rightarrow> 'a sloop_scheme option" where
  "read_loop call alloc is_ipc 0 h s = Some s"
| "read_loop call alloc is_ipc (Suc count) h s =
     (if \<not> (st_read_cb (streams s h) \<and> has h UV_STREAM_READING s) then Some s
      else do {
        (more, s) \<leftarrow> read_round call alloc is_ipc h s;
        if more then read_loop call alloc is_ipc count h s else Some s
      })"

definition uv__read ::
    "(callback \<Rightarrow> 'a sloop_scheme \<Rightarrow> 'a sloop_scheme) \<Rightarrow> (addr \<Rightarrow> 'a sloop_scheme \<Rightarrow> nat \<times> 'a sloop_scheme) \<Rightarrow>
     addr \<Rightarrow> 'a sloop_scheme \<Rightarrow> 'a sloop_scheme option" where
  "uv__read call alloc h s =
     (let s = clear_flags h UV_STREAM_READ_PARTIAL s;
          is_ipc = (handle_type h s = UV_NAMED_PIPE \<and> st_ipc (streams s h))
      in read_loop call alloc is_ipc 32 h s)"

definition uv__stream_io ::
    "(callback \<Rightarrow> 'a sloop_scheme \<Rightarrow> 'a sloop_scheme) \<Rightarrow> (addr \<Rightarrow> 'a sloop_scheme \<Rightarrow> nat \<times> 'a sloop_scheme) \<Rightarrow>
     addr \<Rightarrow> u32 \<Rightarrow> 'a sloop_scheme \<Rightarrow> 'a sloop_scheme option" where
  "uv__stream_io call alloc h events s = do {
     require (handle_type h s \<in> {UV_TCP, UV_NAMED_PIPE, UV_TTY});
     require (\<not> has h UV_CLOSING s);
     if st_connect_req (streams s h) \<noteq> None then uv__stream_connect call h s
     else do {
       require (uv__stream_fd h s \<ge> 0);
       s \<leftarrow> (if events AND (POLLIN OR POLLERR OR POLLHUP) \<noteq> 0 then uv__read call alloc h s else Some s);
       if uv__stream_fd h s = - 1 then Some s
       else do {
         s \<leftarrow> (if events AND POLLHUP \<noteq> 0 \<and> has h UV_STREAM_READING s \<and> has h UV_STREAM_READ_PARTIAL s
                  \<and> \<not> has h UV_STREAM_READ_EOF s
                then uv__stream_eof call h s else Some s);
         if uv__stream_fd h s = - 1 then Some s
         else if events AND (POLLOUT OR POLLERR OR POLLHUP) \<noteq> 0 then do {
           s \<leftarrow> uv__write h s;
           s \<leftarrow> uv__write_callbacks call h s;
           if st_write_queue (streams s h) = [] then uv__drain call h s else Some s
         }
         else Some s
       }
     }
   }"

section \<open>The interface\<close>

definition uv_write2 :: "addr \<Rightarrow> addr \<Rightarrow> u8 list list \<Rightarrow> addr option \<Rightarrow> bool \<Rightarrow> 'a sloop_scheme \<Rightarrow> (int \<times> 'a sloop_scheme) option" where
  "uv_write2 q h bufs send_handle cb s = do {
     require (bufs \<noteq> []);
     require (handle_type h s \<in> {UV_TCP, UV_NAMED_PIPE, UV_TTY});
     if uv__stream_fd h s < 0 then Some (- EBADF, s)
     else if send_handle \<noteq> None \<and> (handle_type h s \<noteq> UV_NAMED_PIPE \<or> \<not> st_ipc (streams s h)) then Some (- EINVAL, s)
     else if (case send_handle of None \<Rightarrow> False | Some sh \<Rightarrow> uv__handle_fd sh s < 0) then Some (- EBADF, s)
     else do {
       let empty_queue = (st_write_queue_size (streams s h) = 0);
       let s = uv__req_register q s;
       (ok, s) \<leftarrow> (if length bufs > 4 then do {
           (r, s) \<leftarrow> syscall (Malloc (int (length bufs) * 16)) s;
           Some (r_ret r \<noteq> - 1, s)
         } else Some (True, s));
       let s = upd_write q (\<lambda>_. \<lparr>wr_handle = h, wr_bufs = (if ok then Some bufs else None), wr_index = 0, wr_error = 0,
          wr_send_handle = send_handle, wr_cb = cb\<rparr>) s;
       if \<not> ok then Some (- ENOMEM, s)
       else do {
         let s = upd_stream h (\<lambda>st. st\<lparr>st_write_queue_size := st_write_queue_size st + uv__count_bufs bufs,
            st_write_queue := st_write_queue st @ [q]\<rparr>) s;
         s \<leftarrow> (if st_connect_req (streams s h) \<noteq> None then Some s
              else if empty_queue then uv__write h s
              else do { require (\<not> has h UV_STREAM_BLOCKING s); uv__io_start h POLLOUT s });
         Some (0, s)
       }
     }
   }"

definition uv_write :: "addr \<Rightarrow> addr \<Rightarrow> u8 list list \<Rightarrow> bool \<Rightarrow> 'a sloop_scheme \<Rightarrow> (int \<times> 'a sloop_scheme) option" where
  "uv_write q h bufs cb s = uv_write2 q h bufs None cb s"

text \<open>\<open>q\<close> is the request on the function's stack.\<close>

definition uv_try_write :: "addr \<Rightarrow> addr \<Rightarrow> u8 list list \<Rightarrow> 'a sloop_scheme \<Rightarrow> (int \<times> 'a sloop_scheme) option" where
  "uv_try_write q h bufs s =
     (if st_connect_req (streams s h) \<noteq> None \<or> st_write_queue_size (streams s h) \<noteq> 0 then Some (- EAGAIN, s)
      else do {
        let has_pollout = uv__io_active h POLLOUT s;
        (r, s) \<leftarrow> uv_write q h bufs True s;
        if r \<noteq> 0 then Some (r, s)
        else do {
          req_size \<leftarrow> (if wr_bufs (writes s q) \<noteq> None then uv__write_req_size q s else Some 0);
          let written = uv__count_bufs bufs - req_size;
          let s = upd_stream h (\<lambda>st. st\<lparr>st_write_queue_size := st_write_queue_size st - req_size,
             st_write_queue := remove1 q (st_write_queue st), st_write_completed := remove1 q (st_write_completed st)\<rparr>) s;
          s \<leftarrow> req_unregister q s;
          let s = upd_write q (\<lambda>w. w\<lparr>wr_bufs := None\<rparr>) s;
          s \<leftarrow> (if \<not> has_pollout then uv__io_stop h POLLOUT s else Some s);
          Some (if written = 0 \<and> req_size \<noteq> 0 then - EAGAIN else sint (ucast written :: u32), s)
        }
      })"

definition uv_read_start :: "addr \<Rightarrow> bool \<Rightarrow> bool \<Rightarrow> 'a sloop_scheme \<Rightarrow> (int \<times> 'a sloop_scheme) option" where
  "uv_read_start h alloc_cb read_cb s = do {
     require (handle_type h s \<in> {UV_TCP, UV_NAMED_PIPE, UV_TTY});
     if has h UV_CLOSING s then Some (- EINVAL, s)
     else do {
       let s = set_flags h UV_STREAM_READING s;
       require (uv__stream_fd h s \<ge> 0);
       require alloc_cb;
       let s = upd_stream h (\<lambda>st. st\<lparr>st_read_cb := read_cb, st_alloc_cb := alloc_cb\<rparr>) s;
       s \<leftarrow> uv__io_start h POLLIN s;
       Some (0, uv__handle_start h s)
     }
   }"

definition uv_is_readable :: "addr \<Rightarrow> 'a loop_scheme \<Rightarrow> bool" where
  "uv_is_readable h s = has h UV_STREAM_READABLE s"

definition uv_is_writable :: "addr \<Rightarrow> 'a loop_scheme \<Rightarrow> bool" where
  "uv_is_writable h s = has h UV_STREAM_WRITABLE s"

definition uv_stream_set_blocking :: "addr \<Rightarrow> bool \<Rightarrow> 'a sloop_scheme \<Rightarrow> (int \<times> 'a sloop_scheme) option" where
  "uv_stream_set_blocking h blocking s = uv__nonblock (uv__stream_fd h s) (if blocking then 0 else 1) s"

section \<open>The bytes of the write queue\<close>

text \<open>The bytes that still have to be sent, in order, and the bytes the kernel has taken, by the log of calls.\<close>

definition left_bytes :: "uv_write_t \<Rightarrow> u8 list" where
  "left_bytes w = concat (req_left w)"

definition pending :: "addr \<Rightarrow> 'a sloop_scheme \<Rightarrow> u8 list" where
  "pending h s = concat (map (\<lambda>q. left_bytes (writes s q)) (st_write_queue (streams s h)))"

definition took :: "int \<Rightarrow> syscall \<times> int \<Rightarrow> u8 list" where
  "took fd e = (case e of
     (SysData name args data, n) \<Rightarrow>
       if name \<in> set [''write'', ''writev'', ''sendmsg''] \<and> args \<noteq> [] \<and> hd args = fd \<and> n > 0 then take (nat n) (concat data) else []
   | _ \<Rightarrow> [])"

definition wrote :: "int \<Rightarrow> (syscall \<times> int) list \<Rightarrow> u8 list" where
  "wrote fd log = concat (map (took fd) log)"

text \<open>
  A request in the queue belongs to the stream and has buffers left; the size of the queue counts the
  bytes of the requests that are queued, or have failed and are not yet reported.
\<close>

definition queued_bytes :: "addr \<Rightarrow> 'a sloop_scheme \<Rightarrow> nat" where
  "queued_bytes h s = sum_list (map (\<lambda>q. length (left_bytes (writes s q)))
     (st_write_queue (streams s h) @ st_write_completed (streams s h)))"

definition req_ok :: "addr \<Rightarrow> uv_write_t \<Rightarrow> bool" where
  "req_ok h w \<longleftrightarrow> wr_handle w = h \<and> (\<exists>bufs. wr_bufs w = Some bufs \<and> wr_index w < length bufs) \<and> wr_error w = 0"

definition writes_ok :: "addr \<Rightarrow> 'a sloop_scheme \<Rightarrow> bool" where
  "writes_ok h s \<longleftrightarrow> distinct (st_write_queue (streams s h) @ st_write_completed (streams s h))
     \<and> (\<forall>q \<in> set (st_write_queue (streams s h)). req_ok h (writes s q))
     \<and> unat (st_write_queue_size (streams s h)) = queued_bytes h s"

lemma wrote_append [simp]: "wrote fd (l1 @ l2) = wrote fd l1 @ wrote fd l2"
  by (simp add: wrote_def)

lemma wrote_one: "wrote fd [e] = took fd e"
  by (simp add: wrote_def)

lemma wrote_failed [simp]: "wrote fd (replicate n (c, - 1)) = []"
  by (induction n) (simp_all add: wrote_def took_def split: syscall.splits)

lemma upd_stream_simps [simp]:
  "streams (upd_stream h f s) = (streams s)(h := f (streams s h))" "writes (upd_stream h f s) = writes s"
  "hnd (upd_stream h f s) = hnd s" "io (upd_stream h f s) = io s" "syscalls (upd_stream h f s) = syscalls s"
  "active_reqs (upd_stream h f s) = active_reqs s" "replies (upd_stream h f s) = replies s"
  "has g flag (upd_stream h f s) = has g flag s"
  by (simp_all add: upd_stream_def has_def flags_of_def)

lemma upd_write_simps [simp]:
  "streams (upd_write q f s) = streams s" "writes (upd_write q f s) = (writes s)(q := f (writes s q))"
  "hnd (upd_write q f s) = hnd s" "io (upd_write q f s) = io s" "syscalls (upd_write q f s) = syscalls s"
  "active_reqs (upd_write q f s) = active_reqs s" "replies (upd_write q f s) = replies s"
  "has g flag (upd_write q f s) = has g flag s"
  by (simp_all add: upd_write_def has_def flags_of_def)

lemma upd_stream_twice: "upd_stream h f (upd_stream h g s) = upd_stream h (\<lambda>st. f (g st)) s"
  by (simp add: upd_stream_def)

lemma upd_write_twice: "upd_write q f (upd_write q g s) = upd_write q (\<lambda>w. f (g w)) s"
  by (simp add: upd_write_def)

lemma upd_stream_write: "upd_write q f (upd_stream h g s) = upd_stream h g (upd_write q f s)"
  by (simp add: upd_write_def upd_stream_def)

lemma upd_write_cong: "f (writes s q) = g (writes s q) \<Longrightarrow> upd_write q f s = upd_write q g s"
  by (simp add: upd_write_def)

lemma unat_of_smaller: "n \<le> unat (w :: u64) \<Longrightarrow> unat (of_nat n :: u64) = n"
  using unsigned_less [of w, where ?'a = nat] by (simp add: unat_of_nat take_bit_nat_eq_self)

lemma drop_nth_concat:
  assumes "i < length bufs"
  shows "concat (drop i bufs) = bufs ! i @ concat (drop (i + 1) bufs)"
  using assms by (simp add: Cons_nth_drop_Suc [symmetric])

text \<open>The loop over the buffers takes exactly the bytes that were written off the request.\<close>

abbreviation took_off :: "addr \<Rightarrow> addr \<Rightarrow> nat \<Rightarrow> nat \<Rightarrow> u8 list list \<Rightarrow> 'a sloop_scheme \<Rightarrow> 'a sloop_scheme" where
  "took_off h q n i bufs s \<equiv> upd_stream h (\<lambda>st. st\<lparr>st_write_queue_size := st_write_queue_size st - of_nat n\<rparr>)
     (upd_write q (\<lambda>w. w\<lparr>wr_index := i, wr_bufs := Some bufs\<rparr>) s)"

lemma write_advance_takes:
  assumes "wr_bufs (writes s q) = Some bufs" "wr_index (writes s q) < length bufs"
    "k = length bufs - wr_index (writes s q)" "n \<le> length (left_bytes (writes s q))"
    "length (left_bytes (writes s q)) \<le> unat (st_write_queue_size (streams s h))"
  shows "if n = length (left_bytes (writes s q))
     then write_advance k h q n s = Some (Return_done, uv__write_req_finish q (took_off h q n (length bufs) bufs s))
     else \<exists>i' bufs'. i' < length bufs' \<and> length (drop i' bufs') \<le> k \<and> concat (drop i' bufs') = drop n (left_bytes (writes s q))
       \<and> write_advance k h q n s = Some (if has h UV_STREAM_BLOCKING s then Start_again else Break_loop, took_off h q n i' bufs' s)"
  using assms
proof (induction k arbitrary: n s)
  case 0
  then show ?case by simp
next
  case (Suc k)
  let ?i = "wr_index (writes s q)"
  let ?b = "bufs ! ?i"
  have left: "left_bytes (writes s q) = ?b @ concat (drop (?i + 1) bufs)"
    using Suc.prems(1,2) drop_nth_concat by (simp add: left_bytes_def req_left_def)
  show ?case
  proof (cases "n < length ?b")
    case True
    let ?bufs = "bufs[?i := drop n ?b]"
    have "upd_write q (\<lambda>w. w\<lparr>wr_bufs := Some ?bufs\<rparr>) s = upd_write q (\<lambda>w. w\<lparr>wr_index := ?i, wr_bufs := Some ?bufs\<rparr>) s"
      by (intro upd_write_cong) simp
    note same = this
    have "concat (drop ?i ?bufs) = drop n (left_bytes (writes s q))"
      using Suc.prems(2) True left drop_nth_concat [of ?i ?bufs] by (simp add: drop_update_cancel)
    moreover have "write_advance (Suc k) h q n s
      = Some (if has h UV_STREAM_BLOCKING s then Start_again else Break_loop, took_off h q n ?i ?bufs s)"
      using True Suc.prems(1) same by (simp add: Let_def)
    ultimately show ?thesis using True left Suc.prems(2,3)
      by (simp del: write_advance.simps, intro exI [of _ ?i] exI [of _ ?bufs]) (simp del: write_advance.simps)
  next
    case False
    let ?len = "length ?b"
    let ?u = "took_off h q ?len (?i + 1) bufs s"
    have size: "of_nat ?len \<le> st_write_queue_size (streams s h)"
      using Suc.prems(5) left by (simp add: word_le_nat_alt unat_of_nat)
    have step: "write_advance (Suc k) h q n s =
       (if ?i + 1 = length bufs then (if n - ?len = 0 then Some (Return_done, uv__write_req_finish q ?u) else None)
        else write_advance k h q (n - ?len) ?u)"
    proof -
      have "upd_write q (\<lambda>w. w\<lparr>wr_index := ?i + 1\<rparr>) s = upd_write q (\<lambda>w. w\<lparr>wr_index := ?i + 1, wr_bufs := Some bufs\<rparr>) s"
        using Suc.prems(1) by (intro upd_write_cong) simp
      then show ?thesis using False Suc.prems(1) size by (simp add: Let_def require_def)
    qed
    show ?thesis
    proof (cases "?i + 1 = length bufs")
      case True
      then have "left_bytes (writes s q) = ?b" using left by simp
      then show ?thesis using step True False Suc.prems(4) by (simp del: write_advance.simps)
    next
      case more: False
      have fits: "unat (of_nat ?len :: u64) = ?len"
        using Suc.prems(5) left by (intro unat_of_smaller [of _ "st_write_queue_size (streams s h)"]) simp
      have u: "wr_bufs (writes ?u q) = Some bufs" "wr_index (writes ?u q) = ?i + 1"
        "left_bytes (writes ?u q) = concat (drop (?i + 1) bufs)" by (simp_all add: left_bytes_def req_left_def)
      have "unat (st_write_queue_size (streams ?u h)) = unat (st_write_queue_size (streams s h)) - ?len"
        using size fits by (simp add: unat_sub)
      note size' = this
      have at_end: "n - ?len = length (left_bytes (writes ?u q)) \<longleftrightarrow> n = length (left_bytes (writes s q))"
        and rest: "drop (n - ?len) (left_bytes (writes ?u q)) = drop n (left_bytes (writes s q))"
        and block: "has h UV_STREAM_BLOCKING ?u = has h UV_STREAM_BLOCKING s"
        and on: "write_advance (Suc k) h q n s = write_advance k h q (n - ?len) ?u"
        unfolding u(3) left using False step more by auto
      have again: "took_off h q (n - ?len) i' b' ?u = took_off h q n i' b' s" for i' b'
      proof -
        have "(of_nat (n - ?len) :: u64) = of_nat n - of_nat ?len" using False by (simp add: of_nat_diff)
        then show ?thesis by (simp add: upd_stream_def upd_write_def)
      qed
      have "if n - ?len = length (left_bytes (writes ?u q))
         then write_advance k h q (n - ?len) ?u = Some (Return_done, uv__write_req_finish q (took_off h q (n - ?len) (length bufs) bufs ?u))
         else \<exists>i' bufs'. i' < length bufs' \<and> length (drop i' bufs') \<le> k
           \<and> concat (drop i' bufs') = drop (n - ?len) (left_bytes (writes ?u q))
           \<and> write_advance k h q (n - ?len) ?u
             = Some (if has h UV_STREAM_BLOCKING ?u then Start_again else Break_loop, took_off h q (n - ?len) i' bufs' ?u)"
        using Suc.prems u left more size' by (intro Suc.IH) auto
      from this [unfolded at_end rest block again] show ?thesis unfolding on
        by (cases "n = length (left_bytes (writes s q))") (simp_all only: if_True if_False refl simp_thms, blast intro: le_SucI)
    qed
  qed
qed

text \<open>What a change of the watchers leaves alone.\<close>

definition streams_same :: "'a sloop_scheme \<Rightarrow> 'a sloop_scheme \<Rightarrow> bool" where
  "streams_same s t \<longleftrightarrow> streams t = streams s \<and> writes t = writes s \<and> syscalls t = syscalls s \<and> active_reqs t = active_reqs s"

lemma io_start_streams: "wp (uv__io_start w events s) (streams_same s)"
  by (auto simp: uv__io_start_def Let_def enter_cell_def maybe_resize_def upd_io_def set_watcher_def streams_same_def intro!: wpI)

lemma io_stop_streams: "wp (uv__io_stop w events s) (streams_same s)"
  by (auto simp: uv__io_stop_def Let_def upd_io_def set_watcher_def streams_same_def intro!: wpI)

lemmas io_streams = io_start_streams [THEN wpD] io_stop_streams [THEN wpD]

lemma handle_stop_streams: "streams_same s (uv__handle_stop h s)"
  by (simp add: streams_same_def uv__handle_stop_def upd_flags_def uv__active_handle_rm_def Let_def)

lemma streams_same_trans [trans]: "streams_same s t \<Longrightarrow> streams_same t u \<Longrightarrow> streams_same s u"
  by (simp add: streams_same_def)

lemma streams_sameD:
  assumes "streams_same s t"
  shows "writes_ok h t = writes_ok h s" "pending h t = pending h s" "streams t = streams s" "writes t = writes s"
    "syscalls t = syscalls s" "active_reqs t = active_reqs s"
  using assms by (simp_all add: streams_same_def writes_ok_def queued_bytes_def pending_def)

lemma feed_simps [simp]:
  "streams (uv__io_feed w s) = streams s" "writes (uv__io_feed w s) = writes s" "syscalls (uv__io_feed w s) = syscalls s"
  by (simp_all add: uv__io_feed_def upd_io_def)

lemma feed_io_simps [simp]:
  "active_reqs (uv__io_feed w s) = active_reqs s"
  "hnd (uv__io_feed w s) = hnd s" "w_fd (io (uv__io_feed w s) v) = w_fd (io s v)"
  "w_pevents (io (uv__io_feed w s) v) = w_pevents (io s v)" "w_events (io (uv__io_feed w s) v) = w_events (io s v)"
  "cells (uv__io_feed w s) = cells s" "nwatchers (uv__io_feed w s) = nwatchers s" "nfds (uv__io_feed w s) = nfds s"
  "watcher_queue (uv__io_feed w s) = watcher_queue s" "watcher_at fd (uv__io_feed w s) = watcher_at fd s"
  by (simp_all add: uv__io_feed_def upd_io_def cells_def watcher_at_def)

lemma feed_io_ok: "io_ok (uv__io_feed w s) = io_ok s" "may_watch (uv__io_feed w s) v = may_watch s v"
  by (simp_all add: io_ok_def cells_ok_def queue_ok_def may_watch_def)

lemma room_frame [simp]:
  "room_for v (upd_stream h f s) = room_for v s" "room_for v (upd_write q g s) = room_for v s"
  "room_for v (s\<lparr>replies := a, syscalls := b, errno := e\<rparr>) = room_for v s"
  by (simp_all add: room_for_def has_room_def upd_stream_def upd_write_def)

lemma upd_io_ok [simp]:
  "io_ok (upd_stream h f s) = io_ok s" "may_watch (upd_stream h f s) v = may_watch s v"
  "io_ok (upd_write q g s) = io_ok s" "may_watch (upd_write q g s) v = may_watch s v"
  by (simp_all add: io_ok_def cells_ok_def queue_ok_def may_watch_def cells_def watcher_at_def upd_stream_def upd_write_def)

text \<open>The three ends of a pass over the first request.\<close>

lemma head_parts:
  assumes "writes_ok h s" "st_write_queue (streams s h) = q # rest"
  shows "pending h s = left_bytes (writes s q) @ concat (map (\<lambda>r. left_bytes (writes s r)) rest)"
    "unat (st_write_queue_size (streams s h)) = length (left_bytes (writes s q))
      + sum_list (map (\<lambda>r. length (left_bytes (writes s r))) (rest @ st_write_completed (streams s h)))"
    "q \<notin> set rest" "q \<notin> set (st_write_completed (streams s h))" "distinct (rest @ st_write_completed (streams s h))"
    "req_ok h (writes s q)" "\<forall>r \<in> set rest. req_ok h (writes s r)"
  using assms by (auto simp: writes_ok_def pending_def queued_bytes_def)

lemma others_same:
  assumes "q \<notin> set rs" "\<forall>r. r \<noteq> q \<longrightarrow> g' r = g r"
  shows "map (\<lambda>r. f (g' r)) rs = map (\<lambda>r. f (g r)) rs"
  using assms by (induction rs) auto

lemma head_replaced:
  assumes ok: "writes_ok h s" and q: "st_write_queue (streams s h) = q # rest"
    and others: "\<And>r. r \<noteq> q \<Longrightarrow> writes t r = writes s r"
  shows "concat (map (\<lambda>r. left_bytes (writes t r)) rest) = drop (length (left_bytes (writes s q))) (pending h s)"
    "sum_list (map (\<lambda>r. length (left_bytes (writes t r))) (rest @ st_write_completed (streams s h)))
      = unat (st_write_queue_size (streams s h)) - length (left_bytes (writes s q))"
    "\<forall>r \<in> set rest. req_ok h (writes t r)"
proof -
  note p = head_parts [OF ok q]
  have m: "map (\<lambda>r. f (writes t r)) rest = map (\<lambda>r. f (writes s r)) rest"
    "map (\<lambda>r. f (writes t r)) (st_write_completed (streams s h)) = map (\<lambda>r. f (writes s r)) (st_write_completed (streams s h))"
    for f :: "uv_write_t \<Rightarrow> 'x" using p(3,4) others by (intro others_same [of q]; simp)+
  show "concat (map (\<lambda>r. left_bytes (writes t r)) rest) = drop (length (left_bytes (writes s q))) (pending h s)"
    using p(1) by (simp add: m del: map_eq_conv)
  show "sum_list (map (\<lambda>r. length (left_bytes (writes t r))) (rest @ st_write_completed (streams s h)))
      = unat (st_write_queue_size (streams s h)) - length (left_bytes (writes s q))"
    using p(2) m [of "\<lambda>w. length (left_bytes w)"] by (simp del: map_eq_conv)
  show "\<forall>r \<in> set rest. req_ok h (writes t r)" using p(3,7) others by metis
qed

lemma took_off_partly:
  assumes ok: "writes_ok h s" and q: "st_write_queue (streams s h) = q # rest"
    and n: "n \<le> length (left_bytes (writes s q))" and i: "i < length bufs"
    and left: "concat (drop i bufs) = drop n (left_bytes (writes s q))"
  shows "writes_ok h (took_off h q n i bufs s) \<and> pending h (took_off h q n i bufs s) = drop n (pending h s)"
proof -
  note p = head_parts [OF ok q]
  define t where "t = took_off h q n i bufs s"
  have w: "left_bytes (writes t q) = drop n (left_bytes (writes s q))" "req_ok h (writes t q)"
    using left i p(6) by (auto simp: t_def left_bytes_def req_left_def req_ok_def)
  have r: "r \<noteq> q \<Longrightarrow> writes t r = writes s r" for r by (simp add: t_def)
  note rest = head_replaced [OF ok q r]
  have st: "st_write_queue (streams t h) = q # rest" "st_write_completed (streams t h) = st_write_completed (streams s h)"
    "st_write_queue_size (streams t h) = st_write_queue_size (streams s h) - of_nat n" using q by (simp_all add: t_def)
  have size: "unat (st_write_queue_size (streams t h)) = unat (st_write_queue_size (streams s h)) - n"
    using unat_of_smaller [of n "st_write_queue_size (streams s h)"] p(2) n st(3) by (simp add: unat_sub word_le_nat_alt)
  have "pending h t = drop n (pending h s)"
    unfolding pending_def [of h t] st(1) using rest(1) w(1) p(1) n by simp
  moreover have "queued_bytes h t = unat (st_write_queue_size (streams s h)) - n"
    unfolding queued_bytes_def st using rest(2) w(1) p(2) n by simp
  ultimately show ?thesis using ok q size st rest(3) w(2) by (simp add: writes_ok_def t_def [symmetric])
qed

text \<open>A request that leaves the queue, sent or failed.\<close>

lemma req_finish_streams:
  assumes "req_ok h (writes s q) \<or> wr_handle (writes s q) = h"
  shows "st_write_queue (streams (uv__write_req_finish q s) h) = remove1 q (st_write_queue (streams s h))"
    "st_write_completed (streams (uv__write_req_finish q s) h) = st_write_completed (streams s h) @ [q]"
    "st_write_queue_size (streams (uv__write_req_finish q s) h) = st_write_queue_size (streams s h)"
    "r \<noteq> q \<Longrightarrow> writes (uv__write_req_finish q s) r = writes s r"
    "writes (uv__write_req_finish q s) q =
      (if wr_error (writes s q) = 0 then (writes s q)\<lparr>wr_bufs := None\<rparr> else writes s q)"
    "syscalls (uv__write_req_finish q s) = syscalls s" "active_reqs (uv__write_req_finish q s) = active_reqs s"
    "io_ok (uv__write_req_finish q s) = io_ok s" "may_watch (uv__write_req_finish q s) v = may_watch s v"
  using assms by (auto simp: uv__write_req_finish_def req_ok_def Let_def feed_io_ok)

lemma finish_head:
  assumes ok: "writes_ok h s" and q: "st_write_queue (streams s h) = q # rest"
    and others: "\<And>r. r \<noteq> q \<Longrightarrow> writes t r = writes s r"
    and t: "wr_handle (writes t q) = h" "st_write_queue (streams t h) = q # rest"
      "st_write_completed (streams t h) = st_write_completed (streams s h)"
      "unat (st_write_queue_size (streams t h)) =
        unat (st_write_queue_size (streams s h)) - (if wr_error (writes t q) = 0 then length (left_bytes (writes s q)) else 0)"
      "wr_error (writes t q) \<noteq> 0 \<Longrightarrow> left_bytes (writes t q) = left_bytes (writes s q)"
  shows "writes_ok h (uv__write_req_finish q t)"
    "pending h (uv__write_req_finish q t) = drop (length (left_bytes (writes s q))) (pending h s)"
    "wr_error (writes (uv__write_req_finish q t) q) = wr_error (writes t q)"
    "st_write_queue (streams (uv__write_req_finish q t) h) = rest"
    "st_write_completed (streams (uv__write_req_finish q t) h) = st_write_completed (streams s h) @ [q]"
    "left_bytes (writes (uv__write_req_finish q t) q) = (if wr_error (writes t q) = 0 then [] else left_bytes (writes s q))"
    "wr_error (writes t q) = 0 \<Longrightarrow> wr_bufs (writes (uv__write_req_finish q t) q) = None"
    "wr_handle (writes (uv__write_req_finish q t) q) = h"
proof -
  define u where "u = uv__write_req_finish q t"
  note p = head_parts [OF ok q]
  have fin: "st_write_queue (streams u h) = rest" "st_write_completed (streams u h) = st_write_completed (streams s h) @ [q]"
    "st_write_queue_size (streams u h) = st_write_queue_size (streams t h)" "r \<noteq> q \<Longrightarrow> writes u r = writes t r"
    "writes u q = (if wr_error (writes t q) = 0 then (writes t q)\<lparr>wr_bufs := None\<rparr> else writes t q)" for r
    using req_finish_streams [of h t q] t(1-3) by (simp_all add: u_def)
  have r: "r \<noteq> q \<Longrightarrow> writes u r = writes s r" for r using fin(4) others by simp
  note rest = head_replaced [OF ok q r]
  have left: "length (left_bytes (writes u q)) = (if wr_error (writes t q) = 0 then 0 else length (left_bytes (writes s q)))"
    using fin(5) t(5) by (simp add: left_bytes_def req_left_def)
  show "pending h (uv__write_req_finish q t) = drop (length (left_bytes (writes s q))) (pending h s)"
    using rest(1) fin(1) by (simp add: pending_def u_def)
  show "wr_error (writes (uv__write_req_finish q t) q) = wr_error (writes t q)" using fin(5) by (simp add: u_def)
  show "st_write_queue (streams (uv__write_req_finish q t) h) = rest" using fin(1) by (simp add: u_def)
  show "st_write_completed (streams (uv__write_req_finish q t) h) = st_write_completed (streams s h) @ [q]"
    using fin(2) by (simp add: u_def)
  show "left_bytes (writes (uv__write_req_finish q t) q) = (if wr_error (writes t q) = 0 then [] else left_bytes (writes s q))"
    using fin(5) t(5) by (simp add: u_def left_bytes_def req_left_def)
  show "wr_error (writes t q) = 0 \<Longrightarrow> wr_bufs (writes (uv__write_req_finish q t) q) = None"
    "wr_handle (writes (uv__write_req_finish q t) q) = h" using fin(5) t(1) by (simp_all add: u_def)
  have "queued_bytes h u = unat (st_write_queue_size (streams u h))"
    unfolding queued_bytes_def fin(1,2,3) using rest(2) left t(4) p(2) by auto
  then show "writes_ok h (uv__write_req_finish q t)"
    using fin(1,2) rest(3) p(3,4,5) by (simp add: writes_ok_def u_def)
qed

text \<open>The call of a pass takes a prefix of the bytes that are left of the first request.\<close>

lemma retry_while_gives:
  assumes "replies s = fs @ r # rs" "\<forall>f \<in> set fs. failed_with e f" "\<not> failed_with e r"
  shows "\<exists>n en. retry_while e c s = Some (r, s\<lparr>replies := rs,
      syscalls := syscalls s @ replicate n (c, - 1) @ [(c, r_ret r)], errno := en\<rparr>) \<and> (r_ret r = - 1 \<longrightarrow> en = r_errno r)"
proof -
  from retry_while_result [OF assms, of c] obtain t where t: "retry_while e c s = Some (r, t)" "replies t = rs"
    "r_ret r = - 1 \<longrightarrow> errno t = r_errno r" by auto
  from retry_while_state [OF t(1)] obtain n rs' en where
    "t = s\<lparr>replies := rs', syscalls := syscalls s @ replicate n (c, - 1) @ [(c, r_ret r)], errno := en\<rparr>" by auto
  with t show ?thesis by (intro exI [of _ n] exI [of _ en]) simp
qed

lemma take_concat_take: "n \<le> length (concat (take k bufs)) \<Longrightarrow> take n (concat (take k bufs)) = take n (concat bufs)"
  by (metis append_take_drop_id concat_append take_append diff_is_0_eq take0 append_Nil2)

definition iov_bytes :: "addr \<Rightarrow> 'a sloop_scheme \<Rightarrow> u8 list" where
  "iov_bytes q s = concat (take uv__getiovmax (req_left (writes s q)))"

lemma write_syscall_takes:
  assumes "replies s = fs @ r # rs" "\<forall>f \<in> set fs. failed_with EINTR f" "\<not> failed_with EINTR r"
    and len: "r_ret r \<le> int (length (iov_bytes q s))"
    and send: "\<forall>sh. wr_send_handle (writes s q) = Some sh \<longrightarrow> uv__handle_fd sh s \<ge> 0"
  shows "\<exists>c n en. write_syscall h q s = Some (r, s\<lparr>replies := rs,
      syscalls := syscalls s @ replicate n (c, - 1) @ [(c, r_ret r)], errno := en\<rparr>) \<and> (r_ret r = - 1 \<longrightarrow> en = r_errno r)
    \<and> took (uv__stream_fd h s) (c, r_ret r) = take (nat (r_ret r)) (left_bytes (writes s q))"
proof -
  let ?iov = "take (min (length (req_left (writes s q))) uv__getiovmax) (req_left (writes s q))"
  have iov: "?iov = take uv__getiovmax (req_left (writes s q))" by (simp add: min_def)
  have data: "take (nat (r_ret r)) (concat ?iov) = take (nat (r_ret r)) (left_bytes (writes s q))"
    using len take_concat_take [of "nat (r_ret r)"] by (simp add: iov left_bytes_def iov_bytes_def nat_le_iff)
  have "\<exists>c. write_syscall h q s = eintr_loop c s
    \<and> (\<forall>m. took (uv__stream_fd h s) (c, m) = (if m > 0 then take (nat m) (concat ?iov) else []))"
  proof (cases "wr_send_handle (writes s q)")
    case (Some sh)
    with send have "uv__handle_fd sh s \<ge> 0" by simp
    then show ?thesis
      by (intro exI [of _ "Sendmsg (uv__stream_fd h s) (uv__handle_fd sh s) ?iov"]) (simp add: write_syscall_def Some took_def Let_def)
  next
    case None
    show ?thesis
    proof (cases "length ?iov = 1")
      case True
      have "concat [xs ! 0] = concat xs" if "length xs = 1" for xs :: "u8 list list" using that by (cases xs) auto
      note one = this [OF True]
      show ?thesis unfolding one [symmetric]
        by (intro exI [of _ "Write (uv__stream_fd h s) (?iov ! 0)"])
          (simp add: write_syscall_def None took_def Let_def True del: length_take)
    next
      case False
      then show ?thesis by (intro exI [of _ "Writev (uv__stream_fd h s) ?iov"])
          (simp add: write_syscall_def None took_def Let_def del: length_take)
    qed
  qed
  then obtain c where c: "write_syscall h q s = eintr_loop c s"
    "\<And>m. took (uv__stream_fd h s) (c, m) = (if m > 0 then take (nat m) (concat ?iov) else [])" by blast
  from retry_while_gives [OF assms(1-3), of c] c data show ?thesis by (intro exI [of _ c]) auto
qed

text \<open>
  The contract of \<open>uv__write\<close>, for the first request \<open>q\<close> of the queue: the kernel took \<open>n\<close> more bytes
  between \<open>s\<close> and \<open>t\<close>, and the request goes on (\<open>None\<close>), was sent (\<open>Some 0\<close>) or failed with an error.
\<close>

definition write_result :: "addr \<Rightarrow> addr \<Rightarrow> nat \<Rightarrow> int option \<Rightarrow> 'a sloop_scheme \<Rightarrow> 'a sloop_scheme \<Rightarrow> bool" where
  "write_result h q n ended s t \<longleftrightarrow>
     (let left = left_bytes (writes s q)
      in wrote (uv__stream_fd h s) (syscalls t) = wrote (uv__stream_fd h s) (syscalls s) @ take n (pending h s)
       \<and> active_reqs t = active_reqs s \<and> wr_handle (writes t q) = h
       \<and> (case ended of
            None \<Rightarrow> pending h t = drop n (pending h s)
              \<and> st_write_queue (streams t h) = st_write_queue (streams s h)
              \<and> st_write_completed (streams t h) = st_write_completed (streams s h)
          | Some e \<Rightarrow> pending h t = drop (length left) (pending h s)
              \<and> st_write_queue (streams t h) = tl (st_write_queue (streams s h))
              \<and> st_write_completed (streams t h) = st_write_completed (streams s h) @ [q]
              \<and> wr_error (writes t q) = e \<and> left_bytes (writes t q) = drop n left
              \<and> (e = 0 \<longrightarrow> wr_bufs (writes t q) = None)))"

text \<open>What the reply of the call makes of the request.\<close>

definition ended_by :: "addr \<Rightarrow> reply \<Rightarrow> 'a sloop_scheme \<Rightarrow> int option" where
  "ended_by q r s =
     (if r_ret r = - 1 \<and> r_errno r \<noteq> EAGAIN \<and> r_errno r \<noteq> EWOULDBLOCK then Some (- r_errno r)
      else if r_ret r = int (length (left_bytes (writes s q))) then Some 0 else None)"

definition write_outcome :: "addr \<Rightarrow> addr \<Rightarrow> reply \<Rightarrow> 'a sloop_scheme \<Rightarrow> 'a sloop_scheme \<Rightarrow> bool" where
  "write_outcome h q r s t \<longleftrightarrow> write_result h q (nat (r_ret r)) (ended_by q r s) s t
     \<and> (ended_by q r s = None \<longrightarrow> uv__io_active h POLLOUT t)"

lemma mask_cleared: "((e :: u32) AND NOT m) AND m = 0"
  by (rule bit_word_eqI) (simp add: bit_simps)

lemma pollout_set: "((e :: u32) OR POLLOUT) AND POLLOUT \<noteq> 0"
  by (simp add: bit.conj_disj_distrib2)

lemma write_wait_result:
  assumes "io_ok s" "may_watch s h" "\<not> has h UV_STREAM_BLOCKING s"
  shows "if room_for h s
    then \<exists>t. write_wait h s = Some (False, t) \<and> io_ok t \<and> may_watch t h \<and> streams_same s t \<and> uv__io_active h POLLOUT t
    else write_wait h s = None"
proof (cases "room_for h s")
  case True
  have "POLLOUT AND NOT io_mask = 0" "POLLOUT \<noteq> 0" by (simp_all add: io_mask_def)
  from io_start_ok [OF assms(1,2) this True] obtain t where t: "uv__io_start h POLLOUT s = Some t" "io_ok t"
    "io t = (io s)(h := (io s h)\<lparr>w_pevents := w_pevents (io s h) OR POLLOUT\<rparr>)" "may_watch t h" by auto
  then show ?thesis using True assms(3) io_streams(1) [OF t(1)] pollout_set
    by (simp, intro exI [of _ t]) (simp add: write_wait_def uv__io_active_def)
next
  case False
  then show ?thesis using io_start_no_room [OF assms(2) False] by (simp add: write_wait_def)
qed

lemma stop_events_result:
  assumes "io_ok s" "may_watch s h" "events AND NOT io_mask = 0" "events \<noteq> 0"
  shows "\<exists>t. stop_events h events others s = Some t \<and> io_ok t \<and> may_watch t h \<and> streams_same s t"
proof -
  from io_stop_ok [OF assms] obtain t where t: "uv__io_stop h events s = Some t" "io_ok t" "may_watch t h" by auto
  with io_streams(2) [OF t(1)] handle_stop_streams [of t h] show ?thesis
    by (auto simp: stop_events_def intro: streams_same_trans)
qed

lemma kern_upd_same:
  "streams_same (s\<lparr>replies := a, syscalls := b, errno := e\<rparr>) t \<Longrightarrow> streams t = streams s \<and> writes t = writes s \<and> syscalls t = b \<and> active_reqs t = active_reqs s"
  by (simp add: streams_same_def)

lemma kern_upd_frame [simp]:
  "writes_ok h (s\<lparr>replies := a, syscalls := b, errno := e\<rparr>) = writes_ok h s"
  "pending h (s\<lparr>replies := a, syscalls := b, errno := e\<rparr>) = pending h s"
  "io_ok (s\<lparr>replies := a, syscalls := b, errno := e\<rparr>) = io_ok s"
  "may_watch (s\<lparr>replies := a, syscalls := b, errno := e\<rparr>) v = may_watch s v"
  "has v flag (s\<lparr>replies := a, syscalls := b, errno := e\<rparr>) = has v flag s"
  by (simp_all add: writes_ok_def queued_bytes_def pending_def io_ok_def cells_ok_def queue_ok_def may_watch_def cells_def
      watcher_at_def has_def flags_of_def)

lemma write_failed:
  assumes ok: "writes_ok h s" and q: "st_write_queue (streams s h) = q # rest" and e: "e \<noteq> 0"
    and io: "io_ok s" "may_watch s h"
  shows "\<exists>t. stop_events h POLLOUT POLLIN (uv__write_req_finish q (upd_write q (\<lambda>w. w\<lparr>wr_error := e\<rparr>) s)) = Some t
    \<and> io_ok t \<and> may_watch t h \<and> writes_ok h t \<and> syscalls t = syscalls s \<and> active_reqs t = active_reqs s
    \<and> st_write_queue (streams t h) = rest \<and> wr_handle (writes t q) = h
    \<and> wr_error (writes t q) = e \<and> pending h t = drop (length (left_bytes (writes s q))) (pending h s)
    \<and> st_write_completed (streams t h) = st_write_completed (streams s h) @ [q] \<and> left_bytes (writes t q) = left_bytes (writes s q)"
proof -
  define u where "u = upd_write q (\<lambda>w. w\<lparr>wr_error := e\<rparr>) s"
  have hq: "wr_handle (writes s q) = h" using head_parts(6) [OF ok q] by (simp add: req_ok_def)
  have u: "wr_handle (writes u q) = h" "wr_error (writes u q) = e" "streams u = streams s" "syscalls u = syscalls s"
    "active_reqs u = active_reqs s" "io_ok u" "may_watch u h" "left_bytes (writes u q) = left_bytes (writes s q)" "r \<noteq> q \<Longrightarrow> writes u r = writes s r" for r
    using io hq by (simp_all add: u_def left_bytes_def req_left_def split: option.split)
  note fin = finish_head [OF ok q u(9)] 
  have f: "writes_ok h (uv__write_req_finish q u)" "st_write_queue (streams (uv__write_req_finish q u) h) = rest"
    "pending h (uv__write_req_finish q u) = drop (length (left_bytes (writes s q))) (pending h s)"
    "wr_error (writes (uv__write_req_finish q u) q) = e" "wr_handle (writes (uv__write_req_finish q u) q) = h"
    "st_write_completed (streams (uv__write_req_finish q u) h) = st_write_completed (streams s h) @ [q]"
    "left_bytes (writes (uv__write_req_finish q u) q) = left_bytes (writes s q)"
    using fin u e q by simp_all
  have m: "io_ok (uv__write_req_finish q u)" "may_watch (uv__write_req_finish q u) h" "syscalls (uv__write_req_finish q u) = syscalls s"
    "active_reqs (uv__write_req_finish q u) = active_reqs s"
    using req_finish_streams(6-9) [of h u q] u by simp_all
  have "POLLOUT AND NOT io_mask = 0" "POLLOUT \<noteq> 0" by (simp_all add: io_mask_def)
  from stop_events_result [OF m(1,2) this, of POLLIN] obtain t where t: "io_ok t" "may_watch t h"
    "stop_events h POLLOUT POLLIN (uv__write_req_finish q u) = Some t" "streams_same (uv__write_req_finish q u) t" by blast
  then show ?thesis using f m(3,4) streams_sameD [OF t(4)] by (simp add: u_def)
qed

lemma write_sent:
  assumes ok: "writes_ok h s" and q: "st_write_queue (streams s h) = q # rest" and io: "io_ok s" "may_watch s h"
    and n: "n = length (left_bytes (writes s q))"
  shows "let t = uv__write_req_finish q (took_off h q n (length bufs) bufs s) in
    io_ok t \<and> may_watch t h \<and> writes_ok h t \<and> syscalls t = syscalls s \<and> active_reqs t = active_reqs s
    \<and> st_write_queue (streams t h) = rest \<and> wr_handle (writes t q) = h
    \<and> wr_error (writes t q) = 0 \<and> pending h t = drop n (pending h s) \<and> wr_bufs (writes t q) = None
    \<and> st_write_completed (streams t h) = st_write_completed (streams s h) @ [q] \<and> left_bytes (writes t q) = []"
proof -
  define u where "u = took_off h q n (length bufs) bufs s"
  note p = head_parts [OF ok q]
  have size: "unat (st_write_queue_size (streams s h) - of_nat n) = unat (st_write_queue_size (streams s h)) - n"
    using unat_of_smaller [of n "st_write_queue_size (streams s h)"] p(2) n by (simp add: unat_sub word_le_nat_alt)
  have u: "wr_handle (writes u q) = h" "wr_error (writes u q) = 0" "st_write_queue (streams u h) = q # rest"
    "st_write_completed (streams u h) = st_write_completed (streams s h)" "syscalls u = syscalls s" "active_reqs u = active_reqs s"
    "unat (st_write_queue_size (streams u h)) = unat (st_write_queue_size (streams s h)) - n"
    "io_ok u" "may_watch u h" "r \<noteq> q \<Longrightarrow> writes u r = writes s r" for r
    using io p(6) q size by (simp_all add: u_def req_ok_def)
  note fin = finish_head [OF ok q u(10)]
  have "writes_ok h (uv__write_req_finish q u)" "st_write_queue (streams (uv__write_req_finish q u) h) = rest"
    "pending h (uv__write_req_finish q u) = drop n (pending h s)" "wr_error (writes (uv__write_req_finish q u) q) = 0"
    "wr_handle (writes (uv__write_req_finish q u) q) = h"
    "st_write_completed (streams (uv__write_req_finish q u) h) = st_write_completed (streams s h) @ [q]"
    "left_bytes (writes (uv__write_req_finish q u) q) = []" "wr_bufs (writes (uv__write_req_finish q u) q) = None"
    using fin u n by simp_all
  moreover have "io_ok (uv__write_req_finish q u)" "may_watch (uv__write_req_finish q u) h" "syscalls (uv__write_req_finish q u) = syscalls s"
    "active_reqs (uv__write_req_finish q u) = active_reqs s"
    using req_finish_streams(6-9) [of h u q] u by simp_all
  ultimately show ?thesis by (simp add: u_def Let_def)
qed

text \<open>One pass: its effect on the first request, the state it goes on with, and what follows it.\<close>

definition goes_on :: "addr \<Rightarrow> addr \<Rightarrow> nat \<Rightarrow> 'a sloop_scheme \<Rightarrow> 'a sloop_scheme \<Rightarrow> bool" where
  "goes_on h q n s t \<longleftrightarrow> left_bytes (writes t q) = drop n (left_bytes (writes s q))
     \<and> length (req_left (writes t q)) \<le> length (req_left (writes s q))
     \<and> wr_send_handle (writes t q) = wr_send_handle (writes s q) \<and> (\<forall>g. uv__handle_fd g t = uv__handle_fd g s)
     \<and> uv__stream_fd h t = uv__stream_fd h s \<and> has h UV_STREAM_BLOCKING t = has h UV_STREAM_BLOCKING s
     \<and> room_for h t = room_for h s"

lemma write_round_result:
  assumes ok: "writes_ok h s" and q: "st_write_queue (streams s h) = q # rest" and io: "io_ok s" "may_watch s h"
    and send: "\<forall>sh. wr_send_handle (writes s q) = Some sh \<longrightarrow> uv__handle_fd sh s \<ge> 0"
    and rs: "replies s = fs @ r # rs" "\<forall>f \<in> set fs. failed_with EINTR f" "\<not> failed_with EINTR r"
    and r: "- 1 \<le> r_ret r" "r_ret r \<le> int (length (iov_bytes q s))" "r_ret r = - 1 \<longrightarrow> r_errno r > 0"
  shows "\<exists>t. io_ok t \<and> may_watch t h \<and> writes_ok h t \<and> write_result h q (nat (r_ret r)) (ended_by q r s) s t
    \<and> write_round h s = (if ended_by q r s \<noteq> None then Some (False, t)
        else if has h UV_STREAM_BLOCKING s then Some (True, t) else write_wait h t)
    \<and> (ended_by q r s = None \<longrightarrow> goes_on h q (nat (r_ret r)) s t \<and> replies t = rs)"
proof -
  note p = head_parts [OF ok q]
  have hq: "wr_handle (writes s q) = h" using p(6) by (simp add: req_ok_def)
  from write_syscall_takes [OF rs r(2) send, of h] obtain c n en where c:
    "write_syscall h q s = Some (r, s\<lparr>replies := rs, syscalls := syscalls s @ replicate n (c, - 1) @ [(c, r_ret r)], errno := en\<rparr>)"
    "r_ret r = - 1 \<longrightarrow> en = r_errno r" "took (uv__stream_fd h s) (c, r_ret r) = take (nat (r_ret r)) (left_bytes (writes s q))"
    by blast
  define u where "u = s\<lparr>replies := rs, syscalls := syscalls s @ replicate n (c, - 1) @ [(c, r_ret r)], errno := en\<rparr>"
  have u: "writes_ok h u" "st_write_queue (streams u h) = q # rest" "io_ok u" "may_watch u h"
    "has h UV_STREAM_BLOCKING u = has h UV_STREAM_BLOCKING s"
    "writes u = writes s" "streams u = streams s" "pending h u = pending h s" "errno u = en" "active_reqs u = active_reqs s"
    using ok q io by (simp_all add: u_def)
  have frame: "replies u = rs" "uv__handle_fd g u = uv__handle_fd g s" "uv__stream_fd h u = uv__stream_fd h s"
    "room_for h u = room_for h s" for g
    by (simp_all add: u_def uv__handle_fd_def uv__stream_fd_def handle_type_def)
  have log: "wrote (uv__stream_fd h s) (syscalls u)
      = wrote (uv__stream_fd h s) (syscalls s) @ take (nat (r_ret r)) (left_bytes (writes s q))"
    using c(3) by (simp add: u_def wrote_one)
  have start: "write_round h s = (if r_ret r < 0 then
         (if en \<noteq> EAGAIN \<and> en \<noteq> EWOULDBLOCK then
            Option.bind (stop_events h POLLOUT POLLIN (uv__write_req_finish q (upd_write q (\<lambda>w. w\<lparr>wr_error := - en\<rparr>) u))) (\<lambda>s. Some (False, s))
          else if has h UV_STREAM_BLOCKING s then Some (True, u) else write_wait h u)
       else Option.bind (wr_bufs (writes s q)) (\<lambda>bufs.
         Option.bind (write_advance (length bufs - wr_index (writes s q)) h q (nat (r_ret r)) u) (\<lambda>(how, s).
           case how of Start_again \<Rightarrow> Some (True, s) | Break_loop \<Rightarrow> write_wait h s | Return_done \<Rightarrow> Some (False, s))))"
    using q c(1) p(6) io r(1) u(5,6,9) unfolding u_def [symmetric]
    by (auto simp: write_round_def uv__stream_fd_def may_watch_def req_ok_def)
  consider (err) "r_ret r = - 1" "en \<noteq> EAGAIN" "en \<noteq> EWOULDBLOCK" | (again) "r_ret r = - 1" "en = EAGAIN \<or> en = EWOULDBLOCK"
    | (sent) "r_ret r \<ge> 0" using r(1) by linarith
  then show ?thesis
  proof cases
    case err
    then have "- en \<noteq> 0" using c(2) r(3) by simp
    from write_failed [OF u(1,2) this u(3,4)] obtain t where t: "stop_events h POLLOUT POLLIN
        (uv__write_req_finish q (upd_write q (\<lambda>w. w\<lparr>wr_error := - en\<rparr>) u)) = Some t" "io_ok t" "may_watch t h" "writes_ok h t"
      "syscalls t = syscalls u" "st_write_queue (streams t h) = rest" "wr_error (writes t q) = - en"
      "active_reqs t = active_reqs u" "wr_handle (writes t q) = h"
      "pending h t = drop (length (left_bytes (writes u q))) (pending h u)"
      "st_write_completed (streams t h) = st_write_completed (streams u h) @ [q]" "left_bytes (writes t q) = left_bytes (writes u q)" by blast
    have e: "ended_by q r s = Some (- r_errno r)" using err c(2) by (simp add: ended_by_def)
    have "write_result h q (nat (r_ret r)) (ended_by q r s) s t"
      unfolding e using t(5-12) u(6-10) log err c(2) r(3) q by (simp add: write_result_def Let_def)
    then show ?thesis using start err t e by simp
  next
    case again
    have e: "ended_by q r s = None" using again c(2) by (auto simp: ended_by_def)
    have "write_result h q (nat (r_ret r)) None s u" using u(6-10) hq log again by (simp add: write_result_def Let_def)
    moreover have "goes_on h q (nat (r_ret r)) s u" using again frame u(5,6) by (simp add: goes_on_def)
    ultimately show ?thesis using start again u(1,3,4,5) frame(1) e by (intro exI [of _ u]) auto
  next
    case sent
    define m where "m = nat (r_ret r)"
    obtain bufs where bufs: "wr_bufs (writes u q) = Some bufs" "wr_index (writes u q) < length bufs"
      using p(6) u(6) by (auto simp: req_ok_def)
    have m: "m \<le> length (left_bytes (writes u q))"
    proof -
      have "length (concat (take k xs)) \<le> length (concat xs)" for k and xs :: "u8 list list"
        by (metis append_take_drop_id concat_append le_add1 length_append)
      then show ?thesis using r(2) sent u(6) by (simp add: m_def iov_bytes_def left_bytes_def nat_le_iff) (meson le_trans of_nat_le_iff order_trans)
    qed
    have size: "length (left_bytes (writes u q)) \<le> unat (st_write_queue_size (streams u h))" using p(2) u(6,7) by simp
    note adv = write_advance_takes [OF bufs refl m size]
    have log: "wrote (uv__stream_fd h s) (syscalls u) = wrote (uv__stream_fd h s) (syscalls s) @ take m (pending h s)"
      using log p(1) m u(6) by (simp add: m_def)
    have out: "r_ret r = int m" "nat (r_ret r) = m" using sent by (simp_all add: m_def)
    show ?thesis
    proof (cases "m = length (left_bytes (writes u q))")
      case True
      define v where "v = uv__write_req_finish q (took_off h q m (length bufs) bufs u)"
      from write_sent [OF u(1-4) True, of bufs, folded v_def] have t: "io_ok v" "may_watch v h" "writes_ok h v" "syscalls v = syscalls u"
        "st_write_queue (streams v h) = rest" "wr_error (writes v q) = 0" "pending h v = drop m (pending h u)"
        "st_write_completed (streams v h) = st_write_completed (streams u h) @ [q]" "left_bytes (writes v q) = []"
        "wr_bufs (writes v q) = None" "active_reqs v = active_reqs u" "wr_handle (writes v q) = h" by (simp_all add: Let_def)
      have e: "ended_by q r s = Some 0" using out True u(6) by (simp add: ended_by_def)
      have "write_result h q (nat (r_ret r)) (ended_by q r s) s v"
        unfolding e using t(4-12) out log True q u(6-10) by (simp add: write_result_def Let_def)
      moreover have "write_round h s = Some (False, v)" using start sent adv True bufs(1) u(6) by (simp add: m_def v_def)
      ultimately show ?thesis using t(1-3) e by (intro exI [of _ v]) simp
    next
      case False
      with adv obtain i' bufs' where a: "i' < length bufs'" "concat (drop i' bufs') = drop m (left_bytes (writes u q))"
        "write_advance (length bufs - wr_index (writes u q)) h q m u
          = Some (if has h UV_STREAM_BLOCKING u then Start_again else Break_loop, took_off h q m i' bufs' u)"
        "length (drop i' bufs') \<le> length bufs - wr_index (writes u q)" by auto
      have e: "ended_by q r s = None" using out False u(6) by (simp add: ended_by_def)
      let ?v = "took_off h q m i' bufs' u"
      note off = took_off_partly [OF u(1,2) m a(1,2)]
      have v: "io_ok ?v" "may_watch ?v h" "replies ?v = rs" using u(3,4) frame(1) by simp_all
      have "write_result h q (nat (r_ret r)) None s ?v"
        using off u(6-10) hq out log by (simp add: write_result_def Let_def)
      moreover have "write_round h s = (if has h UV_STREAM_BLOCKING s then Some (True, ?v) else write_wait h ?v)"
        using start sent a(3) bufs(1) u(5,6) by (simp add: m_def)
      moreover have "uv__handle_fd g ?v = uv__handle_fd g u" "uv__stream_fd h ?v = uv__stream_fd h u" for g
        by (simp_all add: uv__handle_fd_def uv__stream_fd_def handle_type_def)
      then have "goes_on h q m s ?v"
        using a(2,4) u(5,6) bufs frame by (simp add: goes_on_def left_bytes_def req_left_def)
      ultimately show ?thesis using v off out(2) by (intro exI [of _ ?v]) (simp add: e)
    qed
  qed
qed

text \<open>A stream that does not block makes one pass; then it waits, if the table has room for it.\<close>

lemma write_once:
  assumes "writes_ok h s" "st_write_queue (streams s h) = q # rest" "io_ok s" "may_watch s h"
    "\<forall>sh. wr_send_handle (writes s q) = Some sh \<longrightarrow> uv__handle_fd sh s \<ge> 0"
    "replies s = fs @ r # rs" "\<forall>f \<in> set fs. failed_with EINTR f" "\<not> failed_with EINTR r"
    "- 1 \<le> r_ret r" "r_ret r \<le> int (length (iov_bytes q s))" "r_ret r = - 1 \<longrightarrow> r_errno r > 0"
    and block: "\<not> has h UV_STREAM_BLOCKING s"
  shows "if ended_by q r s = None \<and> \<not> room_for h s then uv__write h s = None
    else \<exists>t. uv__write h s = Some t \<and> io_ok t \<and> may_watch t h \<and> writes_ok h t \<and> write_outcome h q r s t"
proof -
  from write_round_result [OF assms(1-11)] obtain t where t: "io_ok t" "may_watch t h" "writes_ok h t"
    "write_result h q (nat (r_ret r)) (ended_by q r s) s t"
    "write_round h s = (if ended_by q r s \<noteq> None then Some (False, t) else write_wait h t)"
    "ended_by q r s = None \<longrightarrow> goes_on h q (nat (r_ret r)) s t" using block by auto
  show ?thesis
  proof (cases "ended_by q r s")
    case None
    have "\<not> has h UV_STREAM_BLOCKING t" "room_for h t = room_for h s" using t(6) None block by (simp_all add: goes_on_def)
    note w = write_wait_result [OF t(1,2) this(1), unfolded this(2)]
    have round: "write_round h s = write_wait h t" using t(5) None by simp
    show ?thesis
    proof (cases "room_for h s")
      case False
      then have "uv__write h s = None" using w round by (subst uv__write.simps) simp
      then show ?thesis using None False by simp
    next
      case True
      with w obtain v where v: "write_wait h t = Some (False, v)" "io_ok v" "may_watch v h" "streams_same t v"
        "uv__io_active h POLLOUT v" by auto
      note same = streams_sameD [OF v(4)]
      have "uv__write h s = Some v" using v(1) round by (subst uv__write.simps) simp
      moreover have "write_outcome h q r s v" using t(4) v(5) same by (simp add: write_outcome_def write_result_def Let_def None)
      ultimately show ?thesis using v(2,3) same(1) t(3) True by auto
    qed
  next
    case (Some e)
    then have "uv__write h s = Some t" using t(5) by (subst uv__write.simps) simp
    then show ?thesis using t(1-4) Some by (simp add: write_outcome_def)
  qed
qed

text \<open>A blocking stream goes on until the request is sent or fails.\<close>

definition taken :: "reply list \<Rightarrow> nat" where
  "taken fs = sum_list (map (\<lambda>f. nat (r_ret f)) fs)"


lemma taken_simps [simp]: "taken [] = 0" "taken (f # fs) = nat (r_ret f) + taken fs" "taken (fs @ gs) = taken fs + taken gs"
  by (simp_all add: taken_def)



lemma int_of_word_small:
  assumes "n < 2 ^ 31"
  shows "sint (ucast (of_nat n :: u64) :: u32) = int n"
proof -
  have "unat (ucast (of_nat n :: u64) :: u32) = n"
    using assms by (simp add: unsigned_ucast_eq unat_of_nat take_bit_nat_eq_self)
  from arg_cong [OF this, of int] have "uint (ucast (of_nat n :: u64) :: u32) = int n" by (simp only: of_nat_unat)
  then have "sint (ucast (of_nat n :: u64) :: u32) = signed_take_bit 31 (int n)" by (simp only: sint_uint) simp
  then show ?thesis using assms by (simp add: signed_take_bit_int_eq_self)
qed

lemma count_bufs_length: "uv__count_bufs bufs = of_nat (length (concat bufs))"
proof -
  have "fold (\<lambda>b m. m + of_nat (length b)) bufs k = k + (of_nat (length (concat bufs)) :: u64)" for k
    by (induction bufs arbitrary: k) simp_all
  then show ?thesis by (simp add: uv__count_bufs_def)
qed

lemma req_register_frame [simp]:
  "streams (uv__req_register q s) = streams s" "writes (uv__req_register q s) = writes s" "hnd (uv__req_register q s) = hnd s"
  "io (uv__req_register q s) = io s" "syscalls (uv__req_register q s) = syscalls s" "replies (uv__req_register q s) = replies s"
  "io_ok (uv__req_register q s) = io_ok s" "may_watch (uv__req_register q s) v = may_watch s v"
  "active_reqs (uv__req_register q s) = active_reqs s @ [q]" "has v flag (uv__req_register q s) = has v flag s"
  "room_for v (uv__req_register q s) = room_for v s"
  by (simp_all add: uv__req_register_def room_for_def has_room_def io_ok_def cells_ok_def queue_ok_def may_watch_def cells_def watcher_at_def has_def flags_of_def)

lemma req_unregister_frame [simp]:
  "streams (uv__req_unregister q s) = streams s" "writes (uv__req_unregister q s) = writes s"
  "io (uv__req_unregister q s) = io s" "syscalls (uv__req_unregister q s) = syscalls s"
  "io_ok (uv__req_unregister q s) = io_ok s" "may_watch (uv__req_unregister q s) v = may_watch s v"
  "active_reqs (uv__req_unregister q s) = remove1 q (active_reqs s)"
  by (simp_all add: uv__req_unregister_def io_ok_def cells_ok_def queue_ok_def may_watch_def cells_def watcher_at_def)

text \<open>A write to a stream with nothing queued, of a request with its own four buffers.\<close>

abbreviation queued_alone :: "addr \<Rightarrow> addr \<Rightarrow> u8 list list \<Rightarrow> bool \<Rightarrow> 'a sloop_scheme \<Rightarrow> 'a sloop_scheme" where
  "queued_alone q h bufs cb s \<equiv> upd_stream h (\<lambda>st. st\<lparr>st_write_queue_size := st_write_queue_size st + uv__count_bufs bufs,
     st_write_queue := st_write_queue st @ [q]\<rparr>) (upd_write q (\<lambda>_. \<lparr>wr_handle = h, wr_bufs = Some bufs, wr_index = 0,
     wr_error = 0, wr_send_handle = None, wr_cb = cb\<rparr>) (uv__req_register q s))"

lemma write_idle:
  assumes idle: "st_connect_req (streams s h) = None" "st_write_queue (streams s h) = []" "st_write_completed (streams s h) = []"
      "st_write_queue_size (streams s h) = 0"
    and io: "io_ok s" "may_watch s h" "room_for h s" and nonblock: "\<not> has h UV_STREAM_BLOCKING s"
    and h: "handle_type h s \<in> {UV_TCP, UV_NAMED_PIPE, UV_TTY}" and bufs: "bufs \<noteq> []" "length bufs \<le> 4" "length (concat bufs) < 2 ^ 64"
    and rs: "replies s = fs @ r # rs" "\<forall>f \<in> set fs. failed_with EINTR f" "\<not> failed_with EINTR r"
    and r: "- 1 \<le> r_ret r" "r_ret r \<le> int (length (concat bufs))" "r_ret r = - 1 \<longrightarrow> r_errno r > 0"
  shows "\<exists>t. uv_write q h bufs cb s = Some (0, t) \<and> io_ok t \<and> may_watch t h \<and> writes_ok h t
    \<and> write_outcome h q r (queued_alone q h bufs cb s) t"
proof -
  let ?u = "queued_alone q h bufs cb s"
  have u: "st_write_queue (streams ?u h) = [q]" "io_ok ?u" "may_watch ?u h" "\<not> has h UV_STREAM_BLOCKING ?u" "room_for h ?u"
    using assms by simp_all
  have ok: "writes_ok h ?u"
    using idle bufs by (simp add: writes_ok_def queued_bytes_def req_ok_def left_bytes_def req_left_def count_bufs_length
        unat_of_nat take_bit_nat_eq_self)
  have len: "r_ret r \<le> int (length (iov_bytes q ?u))"
    using r(2) bufs(2) by (simp add: iov_bytes_def req_left_def uv__getiovmax_def)
  from write_once [OF ok u(1-3) _ _ rs(2,3) r(1) len r(3) u(4), of rs] u(5) rs(1) obtain t where
    t: "uv__write h ?u = Some t" "io_ok t" "may_watch t h" "writes_ok h t" "write_outcome h q r ?u t" by auto
  then have "uv_write q h bufs cb s = Some (0, t)"
    using idle bufs h io(2) by (simp add: uv_write_def uv_write2_def uv__stream_fd_def may_watch_def Let_def)
  then show ?thesis using t by blast
qed

lemma uv_try_write_result:
  assumes idle: "st_connect_req (streams s h) = None" "st_write_queue (streams s h) = []" "st_write_completed (streams s h) = []"
      "st_write_queue_size (streams s h) = 0" "\<not> uv__io_active h POLLOUT s" "q \<notin> set (active_reqs s)"
    and io: "io_ok s" "may_watch s h" "room_for h s" and nonblock: "\<not> has h UV_STREAM_BLOCKING s"
    and h: "handle_type h s \<in> {UV_TCP, UV_NAMED_PIPE, UV_TTY}" and bufs: "concat bufs \<noteq> []" "length bufs \<le> 4" "length (concat bufs) < 2 ^ 31"
    and rs: "replies s = fs @ r # rs" "\<forall>f \<in> set fs. failed_with EINTR f" "\<not> failed_with EINTR r"
    and r: "- 1 \<le> r_ret r" "r_ret r \<le> int (length (concat bufs))" "r_ret r = - 1 \<longrightarrow> r_errno r > 0"
  shows "\<exists>t. uv_try_write q h bufs s = Some (if r_ret r > 0 then r_ret r else - EAGAIN, t)
    \<and> st_write_queue (streams t h) = [] \<and> st_write_completed (streams t h) = [] \<and> st_write_queue_size (streams t h) = 0
    \<and> active_reqs t = active_reqs s \<and> \<not> uv__io_active h POLLOUT t
    \<and> wrote (uv__stream_fd h s) (syscalls t) = wrote (uv__stream_fd h s) (syscalls s) @ take (nat (r_ret r)) (concat bufs)"
proof -
  let ?u = "queued_alone q h bufs True s"
  let ?n = "nat (r_ret r)" and ?N = "length (concat bufs)"
  have bufs64: "bufs \<noteq> []" "?N < 2 ^ 64" using bufs by auto
  from write_idle [OF idle(1-4) io nonblock h bufs64(1) bufs(2) bufs64(2) rs r, of q True] obtain t where
    t: "uv_write q h bufs True s = Some (0, t)" "io_ok t" "may_watch t h" "writes_ok h t" "write_outcome h q r ?u t" by blast
  define u0 where "u0 = ?u"
  have u0: "pending h u0 = concat bufs" "left_bytes (writes u0 q) = concat bufs" "st_write_queue (streams u0 h) = [q]"
    "st_write_completed (streams u0 h) = []" "active_reqs u0 = active_reqs s @ [q]" "syscalls u0 = syscalls s"
    "uv__stream_fd h u0 = uv__stream_fd h s"
    using idle(2,3) by (simp_all add: u0_def pending_def left_bytes_def req_left_def uv__stream_fd_def)
  note o = t(5) [folded u0_def, unfolded write_outcome_def write_result_def ended_by_def Let_def u0]
  define left where "left = left_bytes (writes t q)"
  define failed where "failed = (r_ret r = - 1 \<and> r_errno r \<noteq> EAGAIN \<and> r_errno r \<noteq> EWOULDBLOCK)"
  have out: "wrote (uv__stream_fd h s) (syscalls t) = wrote (uv__stream_fd h s) (syscalls s) @ take ?n (concat bufs)"
    "active_reqs t = active_reqs s @ [q]" "wr_handle (writes t q) = h" using o by blast+
  have queues: "(st_write_queue (streams t h) = [] \<and> st_write_completed (streams t h) = [q] \<and> length left = ?N - ?n)
     \<or> (st_write_queue (streams t h) = [q] \<and> st_write_completed (streams t h) = [] \<and> pending h t = drop ?n (concat bufs))"
  proof (cases "failed \<or> r_ret r = int ?N")
    case True
    with o have "st_write_queue (streams t h) = []" "st_write_completed (streams t h) = [q]" "left = drop ?n (concat bufs)"
      unfolding failed_def left_def by (auto split: if_splits)
    then show ?thesis by simp
  next
    case False
    with o show ?thesis unfolding failed_def by (auto simp del: concat_eq_Nil_conv)
  qed
  have all: "length left = ?N - ?n" "unat (st_write_queue_size (streams t h)) = length left"
    using queues t(4) by (auto simp: pending_def left_def writes_ok_def queued_bytes_def)
  define req where "req = (of_nat (?N - ?n) :: u64)"
  have unat: "unat req = ?N - ?n" "unat (of_nat ?N :: u64) = ?N" using bufs(3)
    by (simp_all add: req_def unat_of_nat take_bit_nat_eq_self)
  have size: "st_write_queue_size (streams t h) = req" using all unat by (simp add: word_unat_eq_iff)
  have req: "(if wr_bufs (writes t q) \<noteq> None then uv__write_req_size q t else Some 0) = Some req"
  proof (cases "wr_bufs (writes t q)")
    case None
    then have "length left = 0" by (simp add: left_def left_bytes_def req_left_def)
    then show ?thesis using None all(1) by (simp add: req_def)
  next
    case (Some b)
    have "uv__count_bufs (req_left (writes t q)) = req"
      using all(1) by (simp add: count_bufs_length left_def left_bytes_def req_def)
    then show ?thesis using Some out(3) size by (simp add: uv__write_req_size_def)
  qed
  have "(of_nat ?N - req :: u64) = of_nat ?n" using r(1,2) by (simp add: req_def of_nat_diff nat_le_iff)
  then have written: "uv__count_bufs bufs - req = of_nat ?n" by (simp add: count_bufs_length)
  have n: "?n \<le> ?N" using r(2) by (simp add: nat_le_iff)
  have result: "(if (of_nat ?n :: u64) = 0 \<and> req \<noteq> 0 then - EAGAIN else sint (ucast (of_nat ?n :: u64) :: u32))
      = (if r_ret r > 0 then r_ret r else - EAGAIN)"
  proof -
    have small: "unat (of_nat ?n :: u64) = ?n" "?n < 2 ^ 31" using n bufs(3) by (simp_all add: unat_of_nat take_bit_nat_eq_self)
    note s = int_of_word_small [OF small(2)]
    have "(of_nat ?n :: u64) = 0 \<longleftrightarrow> ?n = 0" using small(1) by (simp add: word_unat_eq_iff)
    moreover have "req \<noteq> 0" if "?n = 0" using that unat(1) bufs(1) by auto
    ultimately show ?thesis using s r(1) by (cases "?n = 0") (simp_all, linarith?)
  qed
  define u where "u = upd_write q (\<lambda>w. w\<lparr>wr_bufs := None\<rparr>) (uv__req_unregister q
     (upd_stream h (\<lambda>st. st\<lparr>st_write_queue_size := st_write_queue_size st - req,
       st_write_queue := remove1 q (st_write_queue st), st_write_completed := remove1 q (st_write_completed st)\<rparr>) t))"
  have u: "io_ok u" "may_watch u h" "syscalls u = syscalls t" "active_reqs u = active_reqs s"
    "st_write_queue (streams u h) = []" "st_write_completed (streams u h) = []" "st_write_queue_size (streams u h) = 0"
    using t(2,3) out(2) queues idle(6) size by (auto simp: u_def remove1_append)
  have "POLLOUT AND NOT io_mask = 0" "POLLOUT \<noteq> 0" by (simp_all add: io_mask_def)
  from io_stop_ok [OF u(1,2) this] obtain v where v: "uv__io_stop h POLLOUT u = Some v"
    "w_pevents (io v h) = w_pevents (io u h) AND NOT POLLOUT" by auto
  have "uv_try_write q h bufs s = Some (if uv__count_bufs bufs - req = 0 \<and> req \<noteq> 0 then - EAGAIN
      else sint (ucast (uv__count_bufs bufs - req) :: u32), v)"
    using idle(1,4,5) t(1) req out(2) v(1)
    by (simp add: uv_try_write_def req_unregister_def uv__has_active_reqs_def Let_def u_def)
  then have "uv_try_write q h bufs s = Some (if r_ret r > 0 then r_ret r else - EAGAIN, v)"
    by (simp only: written result)
  moreover have "\<not> uv__io_active h POLLOUT v"
    using v(2) by (simp only: uv__io_active_def mask_cleared)
  ultimately show ?thesis using u streams_sameD [OF io_streams(2) [OF v(1)]] out(1) by simp
qed

section \<open>The chunks that are read\<close>

text \<open>A callback that lets the stream read on, and a reply to \<open>read\<close>.\<close>

definition reads_on :: "(callback \<Rightarrow> 'a sloop_scheme \<Rightarrow> 'a sloop_scheme) \<Rightarrow> addr \<Rightarrow> bool" where
  "reads_on call h \<longleftrightarrow> (\<forall>c u. replies (call c u) = replies u \<and> trace (call c u) = trace u \<and> streams (call c u) h = streams u h
     \<and> hnd (call c u) h = hnd u h \<and> w_fd (io (call c u) h) = w_fd (io u h))"

definition chunk :: "u8 list \<Rightarrow> reply" where
  "chunk d = (ret (int (length d)))\<lparr>r_bytes := d\<rparr>"

text \<open>The chunks up to the first that does not fill a buffer of length \<open>len\<close>.\<close>

fun until_short :: "nat \<Rightarrow> u8 list list \<Rightarrow> u8 list list" where
  "until_short len [] = []"
| "until_short len (d # ds) = d # (if length d < len then [] else until_short len ds)"

lemma read_round_chunk:
  assumes "reads_on call h" "\<And>u. alloc h u = (len, u)" "replies s = chunk d # rs" "d \<noteq> []" "length d \<le> len"
    "st_read_cb (streams s h)" "st_alloc_cb (streams s h)" "uv__stream_fd h s \<ge> 0"
  shows "\<exists>t. read_round call alloc False h s = Some (\<not> length d < len, t) \<and> replies t = rs
    \<and> trace t = trace s @ [Read_cb h (int (length d)) d] \<and> streams t h = streams s h \<and> w_fd (io t h) = w_fd (io s h)
    \<and> flags_of t h = (if length d < len then set_flag (flags_of s h) UV_STREAM_READ_PARTIAL else flags_of s h)"
proof -
  let ?u = "s\<lparr>replies := rs, syscalls := syscalls s @ [(Read (uv__stream_fd h s) (int len), int (length d))]\<rparr>"
  have read: "read_syscall False h len s = Some (int (length d), chunk d, ?u)"
    using assms(3,4) by (simp add: read_syscall_def retry_while_cons failed_with_def chunk_def ret_def syscall_def)
  let ?v = "invoke call (Read_cb h (int (length d)) d) ?u"
  have v: "replies ?v = rs" "trace ?v = trace s @ [Read_cb h (int (length d)) d]" "streams ?v h = streams s h"
    "w_fd (io ?v h) = w_fd (io s h)" "hnd ?v h = hnd s h"
    using assms(1) by (simp_all add: reads_on_def invoke_def)
  have "read_round call alloc False h s = Some (if length d < len then (False, set_flags h UV_STREAM_READ_PARTIAL ?v) else (True, ?v))"
    using assms(2,4-8) read by (auto simp: read_round_def read_call_def chunk_def ret_def)
  then show ?thesis using v by (auto simp: set_flags_def upd_flags_def flags_of_def)
qed

lemma has_reading: "has h flag s = has_flag (flags_of s h) flag"
  by (simp add: has_def)

lemma read_loop_chunks:
  assumes "reads_on call h" "\<And>u. alloc h u = (len, u)"
  shows "replies s = map chunk ds @ rs \<Longrightarrow> \<forall>d \<in> set ds. d \<noteq> [] \<and> length d \<le> len \<Longrightarrow>
    n \<le> length ds \<or> (\<exists>d \<in> set ds. length d < len) \<Longrightarrow>
    st_read_cb (streams s h) \<Longrightarrow> st_alloc_cb (streams s h) \<Longrightarrow> uv__stream_fd h s \<ge> 0 \<Longrightarrow>
    has h UV_STREAM_READING s \<Longrightarrow> \<not> has h UV_STREAM_READ_PARTIAL s \<Longrightarrow>
    \<exists>t. read_loop call alloc False n h s = Some t
      \<and> trace t = trace s @ map (\<lambda>d. Read_cb h (int (length d)) d) (take n (until_short len ds))
      \<and> replies t = drop (length (take n (until_short len ds))) (replies s)
      \<and> (has h UV_STREAM_READ_PARTIAL t \<longleftrightarrow> (\<exists>d \<in> set (take n (until_short len ds)). length d < len))
      \<and> has h UV_STREAM_READING t"
proof (induction n arbitrary: s ds)
  case 0
  then show ?case by simp
next
  case (Suc n)
  then obtain d ds' where ds: "ds = d # ds'" by (cases ds) auto
  with Suc.prems have d: "replies s = chunk d # (map chunk ds' @ rs)" "d \<noteq> []" "length d \<le> len" by auto
  from read_round_chunk [of call h alloc len, OF assms d Suc.prems(4-6)] obtain t where
    t: "read_round call alloc False h s = Some (\<not> length d < len, t)" "replies t = map chunk ds' @ rs"
      "trace t = trace s @ [Read_cb h (int (length d)) d]" "streams t h = streams s h" "w_fd (io t h) = w_fd (io s h)"
      "flags_of t h = (if length d < len then set_flag (flags_of s h) UV_STREAM_READ_PARTIAL else flags_of s h)" by blast
  show ?case
  proof (cases "length d < len")
    case True
    then show ?thesis using Suc.prems(4,7) t ds d(1) by (simp add: has_reading flag_simps)
  next
    case False
    from Suc.IH [of t ds'] obtain u where "read_loop call alloc False n h t = Some u"
      "trace u = trace t @ map (\<lambda>d. Read_cb h (int (length d)) d) (take n (until_short len ds'))"
      "replies u = drop (length (take n (until_short len ds'))) (replies t)"
      "has h UV_STREAM_READ_PARTIAL u \<longleftrightarrow> (\<exists>d \<in> set (take n (until_short len ds')). length d < len)" "has h UV_STREAM_READING u"
      using t False Suc.prems ds by (auto simp: has_reading uv__stream_fd_def)
    then show ?thesis using t False Suc.prems(4,7) ds d(1) by simp
  qed
qed

section \<open>Properties\<close>


text \<open>A loop with one TCP stream, handle 1 on descriptor 7, and write requests 10, 11 queued on it.\<close>

definition a_stream :: "addr list \<Rightarrow> nat \<Rightarrow> uv_stream" where
  "a_stream queue n = \<lparr>st_read_cb = True, st_alloc_cb = True, st_connection_cb = False, st_connect_req = None,
     st_shutdown_req = None, st_accepted_fd = - 1, st_queued_fds = None, st_delayed_error = 0, st_write_queue = queue,
     st_write_completed = [], st_write_queue_size = of_nat n, st_ipc = False, st_pipe_fname = None\<rparr>"

definition a_write :: "u8 list list \<Rightarrow> uv_write_t" where
  "a_write bufs = \<lparr>wr_handle = 1, wr_bufs = Some bufs, wr_index = 0, wr_error = 0, wr_send_handle = None, wr_cb = True\<rparr>"

definition stream_loop :: "reply list \<Rightarrow> addr list \<Rightarrow> nat \<Rightarrow> u8 list list \<Rightarrow> 'b \<Rightarrow> 'b sloop_scheme" where
  "stream_loop rs queue n bufs ext = empty_iloop rs 1 7 (aloop_ext (\<lambda>_. \<lparr>a_cb = None, a_pending = False\<rparr>) [] [] 50 (- 1)
     (ploop_ext (\<lambda>_. False) (sloop_ext (\<lambda>_. a_stream queue n) (\<lambda>_. a_write bufs) (\<lambda>_. True) (- 1) 0 ext)))"

lemmas stream_loop_defs = stream_loop_def a_stream_def a_write_def empty_iloop_defs

lemma stream_loop_ok: "io_ok (stream_loop rs queue n bufs ext)" "may_watch (stream_loop rs queue n bufs ext) 1"
  by (simp_all add: stream_loop_defs io_ok_def cells_ok_def queue_ok_def may_watch_def cells_def used_def)




text \<open>\<open>uv_try_write\<close> on an idle stream writes what the socket takes at once and leaves nothing behind:
  no request in the loop or in the stream's queues, no bytes in \<open>write_queue_size\<close>, no wait for
  \<open>POLLOUT\<close>.  It returns the number of bytes taken; but when the call fails it returns \<open>-EAGAIN\<close> for
  every error, such as \<open>EPIPE\<close> or \<open>ECONNRESET\<close>, as if the socket were full: the error that \<open>uv__write\<close>
  recorded in the request is never looked at.\<close>
theorem try_write_hides_errors:
  assumes "st_connect_req (streams s h) = None" "st_write_queue (streams s h) = []" "st_write_completed (streams s h) = []"
      "st_write_queue_size (streams s h) = 0" "\<not> uv__io_active h POLLOUT s" "q \<notin> set (active_reqs s)"
    "io_ok s" "may_watch s h" "room_for h s" "\<not> has h UV_STREAM_BLOCKING s"
    "handle_type h s \<in> {UV_TCP, UV_NAMED_PIPE, UV_TTY}" "concat bufs \<noteq> []" "length bufs \<le> 4" "length (concat bufs) < 2 ^ 31"
    "replies s = fs @ r # rs" "\<forall>f \<in> set fs. failed_with EINTR f" "\<not> failed_with EINTR r"
    "- 1 \<le> r_ret r" "r_ret r \<le> int (length (concat bufs))" "r_ret r = - 1 \<longrightarrow> r_errno r > 0"
  shows "\<exists>t. uv_try_write q h bufs s = Some (if r_ret r > 0 then r_ret r else - EAGAIN, t)
    \<and> st_write_queue (streams t h) = [] \<and> st_write_completed (streams t h) = [] \<and> st_write_queue_size (streams t h) = 0
    \<and> active_reqs t = active_reqs s \<and> \<not> uv__io_active h POLLOUT t
    \<and> wrote (uv__stream_fd h s) (syscalls t) = wrote (uv__stream_fd h s) (syscalls s) @ take (nat (r_ret r)) (concat bufs)"
  using uv_try_write_result [OF assms] .

theorem try_write_hides_errors_witness:
  "\<exists>t. uv_try_write 20 1 [[1, 2], [3]] ((stream_loop [fail EINTR, fail EPIPE] [] 0 [] ())
      \<lparr>hnd := \<lambda>_. \<lparr>h_type = UV_TCP, h_flags = 0, h_close_cb = False\<rparr>\<rparr>) = Some (- EAGAIN, t)"
proof -
  let ?s = "(stream_loop [fail EINTR, fail EPIPE] [] 0 [] ())\<lparr>hnd := \<lambda>_. \<lparr>h_type = UV_TCP, h_flags = 0, h_close_cb = False\<rparr>\<rparr>"
  have "\<exists>t. uv_try_write 20 1 [[1, 2], [3]] ?s = Some (if r_ret (fail EPIPE) > 0 then r_ret (fail EPIPE) else - EAGAIN, t)
    \<and> st_write_queue (streams t 1) = [] \<and> st_write_completed (streams t 1) = [] \<and> st_write_queue_size (streams t 1) = 0
    \<and> active_reqs t = active_reqs ?s \<and> \<not> uv__io_active 1 POLLOUT t
    \<and> wrote (uv__stream_fd 1 ?s) (syscalls t) = wrote (uv__stream_fd 1 ?s) (syscalls ?s) @ take (nat (r_ret (fail EPIPE))) (concat [[1, 2], [3]])"
    by (rule try_write_hides_errors [where fs = "[fail EINTR]" and rs = "[]"])
      (simp_all add: stream_loop_defs has_def flags_of_def flag_simps failed_with_def fail_def ret_def handle_type_def
        uv__io_active_def io_ok_def cells_ok_def queue_ok_def may_watch_def cells_def used_def room_for_def has_room_def)
  then obtain t where "uv_try_write 20 1 [[1, 2], [3]] ?s = Some (if r_ret (fail EPIPE) > 0 then r_ret (fail EPIPE) else - EAGAIN, t)"
    by blast
  then have "uv_try_write 20 1 [[1, 2], [3]] ?s = Some (- EAGAIN, t)" by (simp add: fail_def ret_def)
  then show ?thesis by (rule exI)
qed

text \<open>C20: \<open>uv__read\<close> hands the data to \<open>read_cb\<close> chunk by chunk, in the order the kernel returns it and
  nothing else, and it always ends: after a chunk that does not fill its buffer, which it marks in the
  stream's flags, or after 32 chunks, so that a fast sender cannot keep the loop from other handles.
  The chunks behind stay in the kernel and the stream goes on reading.\<close>
theorem read_in_order:
  assumes "reads_on call h" "\<And>u. alloc h u = (len, u)" "replies s = map chunk ds @ rs"
    "\<forall>d \<in> set ds. d \<noteq> [] \<and> length d \<le> len" "32 \<le> length ds \<or> (\<exists>d \<in> set ds. length d < len)"
    "st_read_cb (streams s h)" "st_alloc_cb (streams s h)" "uv__stream_fd h s \<ge> 0" "has h UV_STREAM_READING s"
    "handle_type h s \<noteq> UV_NAMED_PIPE \<or> \<not> st_ipc (streams s h)"
  shows "\<exists>t. uv__read call alloc h s = Some t
    \<and> trace t = trace s @ map (\<lambda>d. Read_cb h (int (length d)) d) (take 32 (until_short len ds))
    \<and> replies t = drop (length (take 32 (until_short len ds))) (replies s)
    \<and> (has h UV_STREAM_READ_PARTIAL t \<longleftrightarrow> (\<exists>d \<in> set (take 32 (until_short len ds)). length d < len))
    \<and> has h UV_STREAM_READING t"
proof -
  let ?u = "clear_flags h UV_STREAM_READ_PARTIAL s"
  have u: "replies ?u = replies s" "trace ?u = trace s" "streams ?u = streams s" "io ?u = io s"
    "handle_type h ?u = handle_type h s" "flags_of ?u h = clear_flag (flags_of s h) UV_STREAM_READ_PARTIAL"
    by (simp_all add: clear_flags_def upd_flags_def handle_type_def flags_of_def)
  have "uv__read call alloc h s = read_loop call alloc False 32 h ?u"
    using assms(10) u by (auto simp: uv__read_def Let_def)
  with read_loop_chunks [of call h alloc len ?u ds rs 32, OF assms(1,2)] show ?thesis
    using assms(3-9) u by (simp add: has_reading uv__stream_fd_def flag_simps)
qed

theorem read_in_order_witness:
  "\<exists>t. uv__read (\<lambda>c u. u) (\<lambda>h u. (2, u)) 1 ((stream_loop (map chunk [[1, 2], [3], [4, 5]]) [] 0 [] ())
      \<lparr>hnd := \<lambda>_. \<lparr>h_type = UV_TCP, h_flags = UV_STREAM_READING, h_close_cb = False\<rparr>\<rparr>) = Some t
    \<and> trace t = [Read_cb 1 2 [1, 2], Read_cb 1 1 [3]] \<and> replies t = [chunk [4, 5]]"
proof -
  let ?s = "(stream_loop (map chunk [[1, 2], [3], [4, 5]]) [] 0 [] ())
      \<lparr>hnd := \<lambda>_. \<lparr>h_type = UV_TCP, h_flags = UV_STREAM_READING, h_close_cb = False\<rparr>\<rparr>"
  have "reads_on (\<lambda>c u. u :: unit sloop_scheme) 1" by (simp add: reads_on_def)
  moreover have "has 1 UV_STREAM_READING ?s" "uv__stream_fd 1 ?s \<ge> 0" "handle_type 1 ?s = UV_TCP"
    "st_read_cb (streams ?s 1)" "st_alloc_cb (streams ?s 1)" "replies ?s = map chunk [[1, 2], [3], [4, 5]] @ []"
    by (simp_all add: stream_loop_defs has_def flags_of_def flag_simps uv__stream_fd_def handle_type_def)
  ultimately obtain t where "uv__read (\<lambda>c u. u) (\<lambda>h u. (2, u)) 1 ?s = Some t"
    "trace t = trace ?s @ map (\<lambda>d. Read_cb 1 (int (length d)) d) (take 32 (until_short 2 [[1, 2], [3], [4, 5]]))"
    "replies t = drop (length (take 32 (until_short 2 [[1, 2], [3], [4, 5]]))) (replies ?s)"
    using read_in_order [of "\<lambda>c u. u" 1 "\<lambda>h u. (2, u)" 2 ?s "[[1, 2], [3], [4, 5]]" "[]"] by auto
  moreover have "trace ?s = []" "replies ?s = map chunk [[1, 2], [3], [4, 5]]" by (simp_all add: stream_loop_defs)
  ultimately show ?thesis by simp
qed

end
