(* ===== verification/Tcp.thy ===== *)
theory Tcp
  imports Streams
begin

text \<open>
  TCP handles, \<open>src/unix/tcp.cpp\<close>, and the tests of their arguments in \<open>src/uv-common.cpp\<close>.  The
  address a call passes to the kernel is recorded with the call.
\<close>

abbreviation (input) UV_TCP_IPV6ONLY :: u32 where "UV_TCP_IPV6ONLY \<equiv> 1"
abbreviation (input) AF_UNSPEC :: int where "AF_UNSPEC \<equiv> 0"
abbreviation (input) IPPROTO_IPV6 :: int where "IPPROTO_IPV6 \<equiv> 41"
abbreviation (input) IPV6_V6ONLY :: int where "IPV6_V6ONLY \<equiv> 26"
abbreviation (input) Bind_addr :: "int \<Rightarrow> sockaddr \<Rightarrow> syscall" where
  "Bind_addr fd a \<equiv> SysData ''bind'' [fd, sa_family a, sa_scope a] [sa_port a, sa_addr a]"
abbreviation (input) Connect_addr :: "int \<Rightarrow> sockaddr \<Rightarrow> syscall" where
  "Connect_addr fd a \<equiv> SysData ''connect'' [fd, sa_family a, sa_scope a] [sa_port a, sa_addr a]"

definition maybe_new_socket :: "addr \<Rightarrow> int \<Rightarrow> u32 \<Rightarrow> 'a sloop_scheme \<Rightarrow> (int \<times> 'a sloop_scheme) option" where
  "maybe_new_socket h domain flags s =
     (if domain = AF_UNSPEC \<or> uv__stream_fd h s \<noteq> - 1 then Some (0, set_flags h flags s)
      else do {
        (err, s) \<leftarrow> uv__socket domain SOCK_STREAM 0 s;
        if err < 0 then Some (err, s)
        else do {
          let sockfd = err;
          (err, s) \<leftarrow> uv__stream_open h sockfd flags s;
          if err \<noteq> 0 then do { (_, s) \<leftarrow> uv__close sockfd s; Some (err, s) }
          else Some (0, s)
        }
      })"

definition uv_tcp_init_ex :: "addr \<Rightarrow> u32 \<Rightarrow> 'a sloop_scheme \<Rightarrow> (int \<times> 'a sloop_scheme) option" where
  "uv_tcp_init_ex h flags s =
     (let domain = uint (flags AND 0xFF)
      in if domain \<noteq> AF_INET \<and> domain \<noteq> AF_INET6 \<and> domain \<noteq> AF_UNSPEC then Some (- EINVAL, s)
         else if flags AND NOT 0xFF \<noteq> 0 then Some (- EINVAL, s)
         else do {
           s \<leftarrow> uv__stream_init h UV_TCP s;
           if domain \<noteq> AF_UNSPEC then do {
             (err, s) \<leftarrow> maybe_new_socket h domain 0 s;
             if err \<noteq> 0 then Some (err, s\<lparr>handle_queue := remove1 h (handle_queue s)\<rparr>) else Some (0, s)
           } else Some (0, s)
         })"

definition uv_tcp_init :: "addr \<Rightarrow> 'a sloop_scheme \<Rightarrow> (int \<times> 'a sloop_scheme) option" where
  "uv_tcp_init h s = uv_tcp_init_ex h 0 s"

definition uv__tcp_bind :: "addr \<Rightarrow> sockaddr \<Rightarrow> u32 \<Rightarrow> 'a sloop_scheme \<Rightarrow> (int \<times> 'a sloop_scheme) option" where
  "uv__tcp_bind h addr flags s =
     (if flags AND UV_TCP_IPV6ONLY \<noteq> 0 \<and> sa_family addr \<noteq> AF_INET6 then Some (- EINVAL, s)
      else do {
        (err, s) \<leftarrow> maybe_new_socket h (sa_family addr) (UV_STREAM_READABLE OR UV_STREAM_WRITABLE) s;
        if err \<noteq> 0 then Some (err, s)
        else do {
          (r, s) \<leftarrow> syscall (Setsockopt (w_fd (io s h)) SOL_SOCKET SO_REUSEADDR 1) s;
          if r_ret r \<noteq> 0 then Some (- errno s, s)
          else do {
            (failed, s) \<leftarrow> (if sa_family addr = AF_INET6 then do {
                let on = (if flags AND UV_TCP_IPV6ONLY \<noteq> 0 then 1 else 0);
                (r, s) \<leftarrow> syscall (Setsockopt (w_fd (io s h)) IPPROTO_IPV6 IPV6_V6ONLY on) s;
                Some (r_ret r = - 1, s)
              } else Some (False, s));
            if failed then Some (- errno s, s)
            else do {
              (r, s) \<leftarrow> syscall (Bind_addr (w_fd (io s h)) addr) (s\<lparr>errno := 0\<rparr>);
              if r_ret r \<noteq> 0 \<and> errno s \<noteq> EADDRINUSE then
                Some (if errno s = EAFNOSUPPORT then - EINVAL else - errno s, s)
              else
                let s = upd_stream h (\<lambda>st. st\<lparr>st_delayed_error := - errno s\<rparr>) s;
                    s = set_flags h UV_HANDLE_BOUND s
                in Some (0, if sa_family addr = AF_INET6 then set_flags h UV_HANDLE_IPV6 s else s)
            }
          }
        }
      })"

text \<open>\<open>errno = 0; r = connect(...)\<close>, repeated on \<open>EINTR\<close>.\<close>

function connect_loop :: "int \<Rightarrow> sockaddr \<Rightarrow> 'a kern_scheme \<Rightarrow> (reply \<times> 'a kern_scheme) option" where
  "connect_loop fd addr s =
     (case syscall (Connect_addr fd addr) (s\<lparr>errno := 0\<rparr>) of
        None \<Rightarrow> None
      | Some (r, t) \<Rightarrow> if r_ret r = - 1 \<and> errno t = EINTR then connect_loop fd addr t else Some (r, t))"
  by pat_completeness auto
termination
  by (relation "measure (\<lambda>(fd, addr, s). length (replies s))") (auto dest!: syscall_shorter)

declare connect_loop.simps [simp del]

definition uv__tcp_connect :: "addr \<Rightarrow> addr \<Rightarrow> sockaddr \<Rightarrow> bool \<Rightarrow> 'a sloop_scheme \<Rightarrow> (int \<times> 'a sloop_scheme) option" where
  "uv__tcp_connect q h addr cb s = do {
     require (handle_type h s = UV_TCP);
     if st_connect_req (streams s h) \<noteq> None then Some (- EALREADY, s)
     else do {
       (err, s) \<leftarrow> maybe_new_socket h (sa_family addr) (UV_STREAM_READABLE OR UV_STREAM_WRITABLE) s;
       if err \<noteq> 0 then Some (err, s)
       else do {
         let s = upd_stream h (\<lambda>st. st\<lparr>st_delayed_error := 0\<rparr>) s;
         (r, s) \<leftarrow> connect_loop (uv__stream_fd h s) addr s;
         if r_ret r = - 1 \<and> errno s \<noteq> 0 \<and> errno s \<noteq> EINPROGRESS \<and> errno s \<noteq> ECONNREFUSED then Some (- errno s, s)
         else do {
           let s = (if r_ret r = - 1 \<and> errno s = ECONNREFUSED
                    then upd_stream h (\<lambda>st. st\<lparr>st_delayed_error := - errno s\<rparr>) s else s);
           let s = uv__req_register q s;
           let s = s\<lparr>req_has_cb := (req_has_cb s)(q := cb)\<rparr>;
           let s = upd_stream h (\<lambda>st. st\<lparr>st_connect_req := Some q\<rparr>) s;
           s \<leftarrow> uv__io_start h POLLOUT s;
           Some (0, if st_delayed_error (streams s h) \<noteq> 0 then uv__io_feed h s else s)
         }
       }
     }
   }"

definition uv_tcp_open :: "addr \<Rightarrow> int \<Rightarrow> 'a sloop_scheme \<Rightarrow> (int \<times> 'a sloop_scheme) option" where
  "uv_tcp_open h sock s = do {
     (err, s) \<leftarrow> uv__nonblock sock 1 s;
     if err \<noteq> 0 then Some (err, s) else uv__stream_open h sock (UV_STREAM_READABLE OR UV_STREAM_WRITABLE) s
   }"

text \<open>The name and its length are in the reply.\<close>

definition tcp_getname :: "(int \<Rightarrow> syscall) \<Rightarrow> addr \<Rightarrow> 'a sloop_scheme \<Rightarrow> ((int + reply) \<times> 'a sloop_scheme) option" where
  "tcp_getname func h s =
     (if st_delayed_error (streams s h) \<noteq> 0 then Some (Inl (st_delayed_error (streams s h)), s)
      else if uv__stream_fd h s < 0 then Some (Inl (- EINVAL), s)
      else do {
        (r, s) \<leftarrow> syscall (func (uv__stream_fd h s)) s;
        Some (if r_ret r \<noteq> 0 then Inl (- errno s) else Inr r, s)
      })"

definition uv_tcp_getsockname :: "addr \<Rightarrow> 'a sloop_scheme \<Rightarrow> ((int + reply) \<times> 'a sloop_scheme) option" where
  "uv_tcp_getsockname h s = tcp_getname (\<lambda>fd. Getsockname fd) h s"

definition uv_tcp_getpeername :: "addr \<Rightarrow> 'a sloop_scheme \<Rightarrow> ((int + reply) \<times> 'a sloop_scheme) option" where
  "uv_tcp_getpeername h s = tcp_getname (\<lambda>fd. Getpeername fd) h s"

text \<open>\<open>atoi(val) != 0\<close> for the value of the environment variable is the reply's \<open>r_val\<close>.\<close>

definition uv_tcp_listen :: "addr \<Rightarrow> int \<Rightarrow> bool \<Rightarrow> 'a sloop_scheme \<Rightarrow> (int \<times> 'a sloop_scheme) option" where
  "uv_tcp_listen h backlog cb s =
     (if st_delayed_error (streams s h) \<noteq> 0 then Some (st_delayed_error (streams s h), s)
      else do {
        s \<leftarrow> (if single_accept s = - 1 then do {
            (r, s) \<leftarrow> syscall (Getenv ''UV_TCP_SINGLE_ACCEPT'') s;
            Some (s\<lparr>single_accept := (if r_str r \<noteq> None \<and> r_val r \<noteq> 0 then 1 else 0)\<rparr>)
          } else Some s);
        let s = (if single_accept s \<noteq> 0 then set_flags h UV_TCP_SINGLE_ACCEPT s else s);
        (err, s) \<leftarrow> maybe_new_socket h AF_INET UV_STREAM_READABLE s;
        if err \<noteq> 0 then Some (err, s)
        else do {
          (r, s) \<leftarrow> syscall (Listen (w_fd (io s h)) backlog) s;
          if r_ret r \<noteq> 0 then Some (- errno s, s)
          else do {
            let s = upd_stream h (\<lambda>st. st\<lparr>st_connection_cb := cb\<rparr>) s;
            let s = set_flags h UV_HANDLE_BOUND s;
            let s = upd_io h (\<lambda>w. w\<lparr>w_cb := uv__server_io_cb\<rparr>) s;
            s \<leftarrow> uv__io_start h POLLIN s;
            Some (0, s)
          }
        }
      })"

definition uv_tcp_nodelay :: "addr \<Rightarrow> int \<Rightarrow> 'a sloop_scheme \<Rightarrow> (int \<times> 'a sloop_scheme) option" where
  "uv_tcp_nodelay h on s = do {
     (err, s) \<leftarrow> (if uv__stream_fd h s \<noteq> - 1 then uv__tcp_nodelay (uv__stream_fd h s) on s else Some (0, s));
     if err \<noteq> 0 then Some (err, s)
     else Some (0, if on \<noteq> 0 then set_flags h UV_TCP_NODELAY s else clear_flags h UV_TCP_NODELAY s)
   }"

definition uv_tcp_keepalive :: "addr \<Rightarrow> int \<Rightarrow> int \<Rightarrow> 'a sloop_scheme \<Rightarrow> (int \<times> 'a sloop_scheme) option" where
  "uv_tcp_keepalive h on delay s = do {
     (err, s) \<leftarrow> (if uv__stream_fd h s \<noteq> - 1 then uv__tcp_keepalive (uv__stream_fd h s) on delay s else Some (0, s));
     if err \<noteq> 0 then Some (err, s)
     else Some (0, if on \<noteq> 0 then set_flags h UV_TCP_KEEPALIVE s else clear_flags h UV_TCP_KEEPALIVE s)
   }"

definition uv_tcp_simultaneous_accepts :: "addr \<Rightarrow> bool \<Rightarrow> 'a loop_scheme \<Rightarrow> int \<times> 'a loop_scheme" where
  "uv_tcp_simultaneous_accepts h enable s =
     (0, if enable then clear_flags h UV_TCP_SINGLE_ACCEPT s else set_flags h UV_TCP_SINGLE_ACCEPT s)"

definition uv__tcp_close :: "addr \<Rightarrow> 'a sloop_scheme \<Rightarrow> 'a sloop_scheme option" where
  "uv__tcp_close h s = uv__stream_close h s"

section \<open>\<open>src/uv-common.cpp\<close>\<close>

definition uv_tcp_bind :: "addr \<Rightarrow> sockaddr \<Rightarrow> u32 \<Rightarrow> 'a sloop_scheme \<Rightarrow> (int \<times> 'a sloop_scheme) option" where
  "uv_tcp_bind h addr flags s =
     (case addrlen_of UV_TCP (handle_type h s) addr of
        Inl err \<Rightarrow> Some (err, s)
      | Inr _ \<Rightarrow> uv__tcp_bind h addr flags s)"

definition uv_tcp_connect :: "addr \<Rightarrow> addr \<Rightarrow> sockaddr \<Rightarrow> bool \<Rightarrow> 'a sloop_scheme \<Rightarrow> (int \<times> 'a sloop_scheme) option" where
  "uv_tcp_connect q h addr cb s =
     (case addrlen_of UV_TCP (handle_type h s) addr of
        Inl err \<Rightarrow> Some (err, s)
      | Inr _ \<Rightarrow> uv__tcp_connect q h addr cb s)"

end
