(* ===== verification/Pipes.thy ===== *)
theory Pipes
  imports Tcp
begin

text \<open>
  Pipes, \<open>src/unix/pipe.cpp\<close>, and \<open>uv_listen\<close>, which serves both kinds of server.  The name a socket is
  bound or connected to is cut to the 107 characters of \<open>sun_path\<close>; it is an argument of the call.
\<close>

abbreviation (input) Bind_path :: "int \<Rightarrow> string \<Rightarrow> syscall" where "Bind_path fd name \<equiv> SysPath ''bind'' [name] [fd]"
abbreviation (input) Connect_path :: "int \<Rightarrow> string \<Rightarrow> syscall" where "Connect_path fd name \<equiv> SysPath ''connect'' [name] [fd]"
abbreviation (input) Unlink :: "string \<Rightarrow> syscall" where "Unlink name \<equiv> SysPath ''unlink'' [name] []"

definition sun_path :: "string \<Rightarrow> string" where
  "sun_path name = take 107 name"

definition uv_pipe_init :: "addr \<Rightarrow> bool \<Rightarrow> 'a sloop_scheme \<Rightarrow> (int \<times> 'a sloop_scheme) option" where
  "uv_pipe_init h ipc s = do {
     s \<leftarrow> uv__stream_init h UV_NAMED_PIPE s;
     Some (0, upd_stream h (\<lambda>st. st\<lparr>st_shutdown_req := None, st_connect_req := None, st_pipe_fname := None, st_ipc := ipc\<rparr>) s)
   }"

definition uv_pipe_bind :: "addr \<Rightarrow> string \<Rightarrow> 'a sloop_scheme \<Rightarrow> (int \<times> 'a sloop_scheme) option" where
  "uv_pipe_bind h name s =
     (if uv__stream_fd h s \<ge> 0 then Some (- EINVAL, s)
      else do {
        (pipe_fname, s) \<leftarrow> uv__strdup name s;
        case pipe_fname of
          None \<Rightarrow> Some (- ENOMEM, s)
        | Some pipe_fname \<Rightarrow> do {
            (err, s) \<leftarrow> uv__socket AF_UNIX SOCK_STREAM 0 s;
            if err < 0 then Some (err, s)
            else do {
              let sockfd = err;
              (r, s) \<leftarrow> syscall (Bind_path sockfd (sun_path pipe_fname)) s;
              if r_ret r \<noteq> 0 then do {
                let err = (if - errno s = - ENOENT then - EACCES else - errno s);
                (_, s) \<leftarrow> uv__close sockfd s;
                Some (err, s)
              }
              else
                let s = set_flags h UV_HANDLE_BOUND s;
                    s = upd_stream h (\<lambda>st. st\<lparr>st_pipe_fname := Some pipe_fname\<rparr>) s
                in Some (0, upd_io h (\<lambda>w. w\<lparr>w_fd := sockfd\<rparr>) s)
            }
          }
      })"

definition uv_pipe_listen :: "addr \<Rightarrow> int \<Rightarrow> bool \<Rightarrow> 'a sloop_scheme \<Rightarrow> (int \<times> 'a sloop_scheme) option" where
  "uv_pipe_listen h backlog cb s =
     (if uv__stream_fd h s = - 1 then Some (- EINVAL, s)
      else do {
        (r, s) \<leftarrow> syscall (Listen (uv__stream_fd h s) backlog) s;
        if r_ret r \<noteq> 0 then Some (- errno s, s)
        else do {
          let s = upd_stream h (\<lambda>st. st\<lparr>st_connection_cb := cb\<rparr>) s;
          let s = upd_io h (\<lambda>w. w\<lparr>w_cb := uv__server_io_cb\<rparr>) s;
          s \<leftarrow> uv__io_start h POLLIN s;
          Some (0, s)
        }
      })"

definition uv_listen :: "addr \<Rightarrow> int \<Rightarrow> bool \<Rightarrow> 'a sloop_scheme \<Rightarrow> (int \<times> 'a sloop_scheme) option" where
  "uv_listen h backlog cb s = do {
     (err, s) \<leftarrow> (if handle_type h s = UV_TCP then uv_tcp_listen h backlog cb s
                  else if handle_type h s = UV_NAMED_PIPE then uv_pipe_listen h backlog cb s
                  else Some (- EINVAL, s));
     Some (err, if err = 0 then uv__handle_start h s else s)
   }"

definition uv__pipe_close :: "addr \<Rightarrow> 'a sloop_scheme \<Rightarrow> 'a sloop_scheme option" where
  "uv__pipe_close h s = do {
     s \<leftarrow> (case st_pipe_fname (streams s h) of
         None \<Rightarrow> Some s
       | Some name \<Rightarrow> do {
           (_, s) \<leftarrow> syscall (Unlink name) s;
           Some (upd_stream h (\<lambda>st. st\<lparr>st_pipe_fname := None\<rparr>) s)
         });
     uv__stream_close h s
   }"

definition uv_pipe_open :: "addr \<Rightarrow> int \<Rightarrow> 'a sloop_scheme \<Rightarrow> (int \<times> 'a sloop_scheme) option" where
  "uv_pipe_open h fd s = do {
     (err, s) \<leftarrow> uv__nonblock fd 1 s;
     if err \<noteq> 0 then Some (err, s) else uv__stream_open h fd (UV_STREAM_READABLE OR UV_STREAM_WRITABLE) s
   }"

text \<open>From the label \<open>out\<close>: every error is reported through the callback, on the next tick.\<close>

definition pipe_connect_out :: "addr \<Rightarrow> addr \<Rightarrow> bool \<Rightarrow> int \<Rightarrow> 'a sloop_scheme \<Rightarrow> 'a sloop_scheme" where
  "pipe_connect_out q h cb err s =
     (let s = upd_stream h (\<lambda>st. st\<lparr>st_delayed_error := err, st_connect_req := Some q\<rparr>) s;
          s = uv__req_register q s;
          s = s\<lparr>req_has_cb := (req_has_cb s)(q := cb)\<rparr>
      in if err \<noteq> 0 then uv__io_feed h s else s)"

definition uv_pipe_connect :: "addr \<Rightarrow> addr \<Rightarrow> string \<Rightarrow> bool \<Rightarrow> 'a sloop_scheme \<Rightarrow> 'a sloop_scheme option" where
  "uv_pipe_connect q h name cb s = do {
     let new_sock = (uv__stream_fd h s = - 1);
     (err, s) \<leftarrow> (if new_sock then do {
         (err, s) \<leftarrow> uv__socket AF_UNIX SOCK_STREAM 0 s;
         Some (err, if err < 0 then s else upd_io h (\<lambda>w. w\<lparr>w_fd := err\<rparr>) s)
       } else Some (0, s));
     if err < 0 then Some (pipe_connect_out q h cb err s)
     else do {
       (r, s) \<leftarrow> eintr_loop (Connect_path (uv__stream_fd h s) (sun_path name)) s;
       if r_ret r = - 1 \<and> errno s \<noteq> EINPROGRESS then Some (pipe_connect_out q h cb (- errno s) s)
       else do {
         (err, s) \<leftarrow> (if new_sock
             then uv__stream_open h (uv__stream_fd h s) (UV_STREAM_READABLE OR UV_STREAM_WRITABLE) s else Some (0, s));
         s \<leftarrow> (if err = 0 then uv__io_start h (POLLIN OR POLLOUT) s else Some s);
         Some (pipe_connect_out q h cb err s)
       }
     }
   }"

text \<open>
  The name is \<open>r_str\<close>; a name in the abstract name space starts with a zero byte and its length is that
  of the address, \<open>r_val\<close>, less the offset of \<open>sun_path\<close>.  The result is the error and the new \<open>*size\<close>.
\<close>

definition uv__pipe_getsockpeername :: "(int \<Rightarrow> syscall) \<Rightarrow> addr \<Rightarrow> nat \<Rightarrow> 'a sloop_scheme \<Rightarrow> (int \<times> string option \<times> nat \<times> 'a sloop_scheme) option" where
  "uv__pipe_getsockpeername func h sz s = do {
     (r, s) \<leftarrow> syscall (func (uv__stream_fd h s)) s;
     if r_ret r < 0 then Some (- errno s, None, 0, s)
     else do {
       path \<leftarrow> r_str r;
       let addrlen = (if path = [] \<or> hd path = CHR 0x00 then nat (r_val r - 2) else length path);
       if addrlen \<ge> sz then Some (- ENOBUFS, None, addrlen + 1, s)
       else Some (0, Some (take addrlen path), addrlen, s)
     }
   }"

definition uv_pipe_getsockname :: "addr \<Rightarrow> nat \<Rightarrow> 'a sloop_scheme \<Rightarrow> (int \<times> string option \<times> nat \<times> 'a sloop_scheme) option" where
  "uv_pipe_getsockname h sz s = uv__pipe_getsockpeername (\<lambda>fd. Getsockname fd) h sz s"

definition uv_pipe_getpeername :: "addr \<Rightarrow> nat \<Rightarrow> 'a sloop_scheme \<Rightarrow> (int \<times> string option \<times> nat \<times> 'a sloop_scheme) option" where
  "uv_pipe_getpeername h sz s = uv__pipe_getsockpeername (\<lambda>fd. Getpeername fd) h sz s"

definition uv_pipe_pending_count :: "addr \<Rightarrow> 'a sloop_scheme \<Rightarrow> nat" where
  "uv_pipe_pending_count h s =
     (if \<not> st_ipc (streams s h) then 0
      else if st_accepted_fd (streams s h) = - 1 then 0
      else case st_queued_fds (streams s h) of None \<Rightarrow> 1 | Some (sz, fdl) \<Rightarrow> length fdl + 1)"

definition uv_pipe_pending_type :: "addr \<Rightarrow> 'a sloop_scheme \<Rightarrow> (uv_handle_type \<times> 'a sloop_scheme) option" where
  "uv_pipe_pending_type h s =
     (if \<not> st_ipc (streams s h) then Some (UV_UNKNOWN_HANDLE, s)
      else if st_accepted_fd (streams s h) = - 1 then Some (UV_UNKNOWN_HANDLE, s)
      else uv__handle_type (st_accepted_fd (streams s h)) s)"

end
