(* ===== verification/Udp.thy ===== *)
theory Udp
  imports Pipes
begin

text \<open>
  UDP handles, \<open>src/unix/udp.cpp\<close>: a queue of datagrams to send, a queue of those that were sent or
  have failed, and the reading loop.  The watcher in handle \<open>h\<close> is the watcher at the address \<open>h\<close>.
  \<open>uv__set_reuse\<close> and \<open>uv_udp_open\<close> are in the theory \<open>Streams\<close>, which needs them.
\<close>

abbreviation (input) UV_UDP_IPV6ONLY :: u32 where "UV_UDP_IPV6ONLY \<equiv> 1"
abbreviation (input) UV_UDP_REUSEADDR :: u32 where "UV_UDP_REUSEADDR \<equiv> 4"
abbreviation (input) UV_UDP_PARTIAL :: u32 where "UV_UDP_PARTIAL \<equiv> 2"
abbreviation (input) MSG_TRUNC :: u32 where "MSG_TRUNC \<equiv> 0x20"
abbreviation (input) IPPROTO_IP :: int where "IPPROTO_IP \<equiv> 0"
abbreviation (input) SO_BROADCAST :: int where "SO_BROADCAST \<equiv> 6"
abbreviation (input) IP_TTL :: int where "IP_TTL \<equiv> 2"
abbreviation (input) IP_MULTICAST_IF :: int where "IP_MULTICAST_IF \<equiv> 32"
abbreviation (input) IP_MULTICAST_TTL :: int where "IP_MULTICAST_TTL \<equiv> 33"
abbreviation (input) IP_MULTICAST_LOOP :: int where "IP_MULTICAST_LOOP \<equiv> 34"
abbreviation (input) IP_ADD_MEMBERSHIP :: int where "IP_ADD_MEMBERSHIP \<equiv> 35"
abbreviation (input) IP_DROP_MEMBERSHIP :: int where "IP_DROP_MEMBERSHIP \<equiv> 36"
abbreviation (input) IPV6_UNICAST_HOPS :: int where "IPV6_UNICAST_HOPS \<equiv> 16"
abbreviation (input) IPV6_MULTICAST_IF :: int where "IPV6_MULTICAST_IF \<equiv> 17"
abbreviation (input) IPV6_MULTICAST_HOPS :: int where "IPV6_MULTICAST_HOPS \<equiv> 18"
abbreviation (input) IPV6_MULTICAST_LOOP :: int where "IPV6_MULTICAST_LOOP \<equiv> 19"
abbreviation (input) IPV6_ADD_MEMBERSHIP :: int where "IPV6_ADD_MEMBERSHIP \<equiv> 20"
abbreviation (input) IPV6_DROP_MEMBERSHIP :: int where "IPV6_DROP_MEMBERSHIP \<equiv> 21"
abbreviation (input) Sendmsg_to :: "int \<Rightarrow> sockaddr \<Rightarrow> u8 list list \<Rightarrow> syscall" where
  "Sendmsg_to fd a bufs \<equiv> SysData ''sendmsg'' [fd, sa_family a, sa_scope a] (sa_port a # sa_addr a # bufs)"
abbreviation (input) Setsockopt_data :: "int \<Rightarrow> int \<Rightarrow> int \<Rightarrow> u8 list list \<Rightarrow> syscall" where
  "Setsockopt_data fd level opt data \<equiv> SysData ''setsockopt'' [fd, level, opt] data"

record uv_udp_send_t =
  us_addr :: sockaddr
  us_bufs :: "u8 list list option"
  us_status :: int
  us_cb :: bool

record uv_udp =
  ud_alloc_cb :: bool
  ud_recv_cb :: bool
  ud_send_queue_size :: u64
  ud_send_queue_count :: u64
  ud_write_queue :: "addr list"
  ud_write_completed :: "addr list"

record uloop = sloop +
  udps :: "addr \<Rightarrow> uv_udp"
  sends :: "addr \<Rightarrow> uv_udp_send_t"

definition upd_udp :: "addr \<Rightarrow> (uv_udp \<Rightarrow> uv_udp) \<Rightarrow> 'a uloop_scheme \<Rightarrow> 'a uloop_scheme" where
  "upd_udp h f s = s\<lparr>udps := (udps s)(h := f (udps s h))\<rparr>"

definition upd_send :: "addr \<Rightarrow> (uv_udp_send_t \<Rightarrow> uv_udp_send_t) \<Rightarrow> 'a uloop_scheme \<Rightarrow> 'a uloop_scheme" where
  "upd_send q f s = s\<lparr>sends := (sends s)(q := f (sends s q))\<rparr>"

definition send_bufs :: "addr \<Rightarrow> 'a uloop_scheme \<Rightarrow> u8 list list" where
  "send_bufs q s = (case us_bufs (sends s q) of None \<Rightarrow> [] | Some bufs \<Rightarrow> bufs)"

section \<open>Sending\<close>

text \<open>One completed request.\<close>

definition udp_completed_one ::
    "(callback \<Rightarrow> 'a uloop_scheme \<Rightarrow> 'a uloop_scheme) \<Rightarrow> addr \<Rightarrow> addr \<Rightarrow> 'a uloop_scheme \<Rightarrow> 'a uloop_scheme option" where
  "udp_completed_one call h q s = do {
     let s = upd_udp h (\<lambda>u. u\<lparr>ud_write_completed := remove1 q (ud_write_completed u)\<rparr>) s;
     s \<leftarrow> req_unregister q s;
     let s = upd_udp h (\<lambda>u. u\<lparr>ud_send_queue_size := ud_send_queue_size u - uv__count_bufs (send_bufs q s),
        ud_send_queue_count := ud_send_queue_count u - 1\<rparr>) s;
     let s = upd_send q (\<lambda>r. r\<lparr>us_bufs := None\<rparr>) s;
     Some (if \<not> us_cb (sends s q) then s
           else if us_status (sends s q) \<ge> 0 then invoke call (Send_cb q 0) s
           else invoke call (Send_cb q (us_status (sends s q))) s)
   }"

partial_function (option) udp_completed_loop ::
    "(callback \<Rightarrow> 'a uloop_scheme \<Rightarrow> 'a uloop_scheme) \<Rightarrow> addr \<Rightarrow> 'a uloop_scheme \<Rightarrow> 'a uloop_scheme option" where
  "udp_completed_loop call h s =
     (case ud_write_completed (udps s h) of
        [] \<Rightarrow> Some s
      | q # _ \<Rightarrow> Option.bind (udp_completed_one call h q s) (udp_completed_loop call h))"

definition uv__udp_run_completed ::
    "(callback \<Rightarrow> 'a uloop_scheme \<Rightarrow> 'a uloop_scheme) \<Rightarrow> addr \<Rightarrow> 'a uloop_scheme \<Rightarrow> 'a uloop_scheme option" where
  "uv__udp_run_completed call h s = do {
     require (\<not> has h UV_UDP_PROCESSING s);
     s \<leftarrow> udp_completed_loop call h (set_flags h UV_UDP_PROCESSING s);
     s \<leftarrow> (if ud_write_queue (udps s h) = [] then do {
         s \<leftarrow> uv__io_stop h POLLOUT s;
         Some (if \<not> uv__io_active h POLLIN s then uv__handle_stop h s else s)
       } else Some s);
     Some (clear_flags h UV_UDP_PROCESSING s)
   }"

text \<open>The datagrams at the head of the queue, until one has to wait.\<close>

fun udp_sendmsg_loop :: "addr list \<Rightarrow> addr \<Rightarrow> 'a uloop_scheme \<Rightarrow> 'a uloop_scheme option" where
  "udp_sendmsg_loop [] h s = Some s"
| "udp_sendmsg_loop (q # queue) h s = do {
     (r, s) \<leftarrow> eintr_loop (Sendmsg_to (w_fd (io s h)) (us_addr (sends s q)) (send_bufs q s)) s;
     if r_ret r = - 1 \<and> (errno s = EAGAIN \<or> errno s = EWOULDBLOCK) then Some s
     else do {
       let s = upd_send q (\<lambda>u. u\<lparr>us_status := (if r_ret r = - 1 then - errno s else r_ret r)\<rparr>) s;
       let s = upd_udp h (\<lambda>u. u\<lparr>ud_write_queue := remove1 q (ud_write_queue u),
          ud_write_completed := ud_write_completed u @ [q]\<rparr>) s;
       udp_sendmsg_loop queue h (uv__io_feed h s)
     }
   }"

definition uv__udp_sendmsg :: "addr \<Rightarrow> 'a uloop_scheme \<Rightarrow> 'a uloop_scheme option" where
  "uv__udp_sendmsg h s = udp_sendmsg_loop (ud_write_queue (udps s h)) h s"

section \<open>Closing\<close>

definition uv__udp_close :: "addr \<Rightarrow> 'a uloop_scheme \<Rightarrow> 'a uloop_scheme option" where
  "uv__udp_close h s = do {
     s \<leftarrow> uv__io_close h s;
     let s = uv__handle_stop h s;
     if w_fd (io s h) \<noteq> - 1 then do {
       (_, s) \<leftarrow> uv__close (w_fd (io s h)) s;
       Some (upd_io h (\<lambda>w. w\<lparr>w_fd := - 1\<rparr>) s)
     } else Some s
   }"

definition uv__udp_finish_close ::
    "(callback \<Rightarrow> 'a uloop_scheme \<Rightarrow> 'a uloop_scheme) \<Rightarrow> addr \<Rightarrow> 'a uloop_scheme \<Rightarrow> 'a uloop_scheme option" where
  "uv__udp_finish_close call h s = do {
     require (\<not> uv__io_active h (POLLIN OR POLLOUT) s);
     require (w_fd (io s h) = - 1);
     let queue = ud_write_queue (udps s h);
     let s = s\<lparr>sends := (\<lambda>r. if r \<in> set queue then (sends s r)\<lparr>us_status := - ECANCELED\<rparr> else sends s r)\<rparr>;
     let s = upd_udp h (\<lambda>u. u\<lparr>ud_write_queue := [], ud_write_completed := ud_write_completed u @ queue\<rparr>) s;
     s \<leftarrow> uv__udp_run_completed call h s;
     require (ud_send_queue_size (udps s h) = 0);
     require (ud_send_queue_count (udps s h) = 0);
     Some (upd_udp h (\<lambda>u. u\<lparr>ud_recv_cb := False, ud_alloc_cb := False\<rparr>) s)
   }"

section \<open>Receiving\<close>

definition recv_call ::
    "(callback \<Rightarrow> 'a uloop_scheme \<Rightarrow> 'a uloop_scheme) \<Rightarrow> addr \<Rightarrow> int \<Rightarrow> u8 list \<Rightarrow> int list \<Rightarrow> u32 \<Rightarrow>
     'a uloop_scheme \<Rightarrow> 'a uloop_scheme option" where
  "recv_call call h nread data peer flags s = do {
     require (ud_recv_cb (udps s h));
     Some (invoke call (Recv_cb h nread data peer flags) s)
   }"

text \<open>What \<open>recvmsg\<close> leaves in the header: the numbers of the reply are its flags and, if it has one, the bytes of the address.\<close>

definition msg_flags :: "reply \<Rightarrow> u32" where
  "msg_flags r = (case r_nums r of [] \<Rightarrow> 0 | f # _ \<Rightarrow> of_int f)"

definition msg_name :: "reply \<Rightarrow> int list" where
  "msg_name r = (case r_nums r of [] \<Rightarrow> [] | _ # peer \<Rightarrow> peer)"

text \<open>One pass of the loop; the result is \<open>nread\<close>, or \<open>None\<close> when the function has returned.\<close>

definition udp_recv_round ::
    "(callback \<Rightarrow> 'a uloop_scheme \<Rightarrow> 'a uloop_scheme) \<Rightarrow> (addr \<Rightarrow> 'a uloop_scheme \<Rightarrow> nat \<times> 'a uloop_scheme) \<Rightarrow>
     addr \<Rightarrow> 'a uloop_scheme \<Rightarrow> (int option \<times> 'a uloop_scheme) option" where
  "udp_recv_round call alloc h s = do {
     require (ud_alloc_cb (udps s h));
     let (len, s) = alloc h s;
     if len = 0 then do { s \<leftarrow> recv_call call h (- ENOBUFS) [] [] 0 s; Some (None, s) }
     else do {
       (r, s) \<leftarrow> eintr_loop (Recvmsg (w_fd (io s h)) 0) s;
       if r_ret r = - 1 then
         (if errno s = EAGAIN \<or> errno s = EWOULDBLOCK then do {
            s \<leftarrow> recv_call call h 0 [] [] 0 s;
            Some (Some (- 1), s)
          }
          else do { s \<leftarrow> recv_call call h (- errno s) [] [] 0 s; Some (Some (- 1), s) })
       else do {
         let flags = (if msg_flags r AND MSG_TRUNC \<noteq> 0 then UV_UDP_PARTIAL else 0);
         s \<leftarrow> recv_call call h (r_ret r) (r_bytes r) (msg_name r) flags s;
         Some (Some (r_ret r), s)
       }
     }
   }"

text \<open>\<open>do ... while (nread != -1 && count-- > 0 && ...)\<close>: the body runs once more than \<open>count\<close>.\<close>

fun udp_recv_loop ::
    "(callback \<Rightarrow> 'a uloop_scheme \<Rightarrow> 'a uloop_scheme) \<Rightarrow> (addr \<Rightarrow> 'a uloop_scheme \<Rightarrow> nat \<times> 'a uloop_scheme) \<Rightarrow>
     nat \<Rightarrow> addr \<Rightarrow> 'a uloop_scheme \<Rightarrow> 'a uloop_scheme option" where
  "udp_recv_loop call alloc 0 h s = map_option snd (udp_recv_round call alloc h s)"
| "udp_recv_loop call alloc (Suc count) h s = do {
     (nread, s) \<leftarrow> udp_recv_round call alloc h s;
     if nread \<noteq> None \<and> nread \<noteq> Some (- 1) \<and> w_fd (io s h) \<noteq> - 1 \<and> ud_recv_cb (udps s h)
     then udp_recv_loop call alloc count h s else Some s
   }"

definition uv__udp_recvmsg ::
    "(callback \<Rightarrow> 'a uloop_scheme \<Rightarrow> 'a uloop_scheme) \<Rightarrow> (addr \<Rightarrow> 'a uloop_scheme \<Rightarrow> nat \<times> 'a uloop_scheme) \<Rightarrow>
     addr \<Rightarrow> 'a uloop_scheme \<Rightarrow> 'a uloop_scheme option" where
  "uv__udp_recvmsg call alloc h s = do {
     require (ud_recv_cb (udps s h));
     require (ud_alloc_cb (udps s h));
     udp_recv_loop call alloc 32 h s
   }"

definition uv__udp_io ::
    "(callback \<Rightarrow> 'a uloop_scheme \<Rightarrow> 'a uloop_scheme) \<Rightarrow> (addr \<Rightarrow> 'a uloop_scheme \<Rightarrow> nat \<times> 'a uloop_scheme) \<Rightarrow>
     addr \<Rightarrow> u32 \<Rightarrow> 'a uloop_scheme \<Rightarrow> 'a uloop_scheme option" where
  "uv__udp_io call alloc h revents s = do {
     require (handle_type h s = UV_UDP);
     s \<leftarrow> (if revents AND POLLIN \<noteq> 0 then uv__udp_recvmsg call alloc h s else Some s);
     if revents AND POLLOUT \<noteq> 0 then do {
       s \<leftarrow> uv__udp_sendmsg h s;
       uv__udp_run_completed call h s
     } else Some s
   }"

section \<open>Binding\<close>

definition udp_bind_out :: "addr \<Rightarrow> int \<Rightarrow> 'a uloop_scheme \<Rightarrow> (int \<times> 'a uloop_scheme) option" where
  "udp_bind_out h err s = do {
     (_, s) \<leftarrow> uv__close (w_fd (io s h)) s;
     Some (err, upd_io h (\<lambda>w. w\<lparr>w_fd := - 1\<rparr>) s)
   }"

definition uv__udp_bind :: "addr \<Rightarrow> sockaddr \<Rightarrow> u32 \<Rightarrow> 'a uloop_scheme \<Rightarrow> (int \<times> 'a uloop_scheme) option" where
  "uv__udp_bind h addr flags s =
     (if flags AND NOT (UV_UDP_IPV6ONLY OR UV_UDP_REUSEADDR) \<noteq> 0 then Some (- EINVAL, s)
      else if flags AND UV_UDP_IPV6ONLY \<noteq> 0 \<and> sa_family addr \<noteq> AF_INET6 then Some (- EINVAL, s)
      else do {
        (err, s) \<leftarrow> (if w_fd (io s h) = - 1 then do {
            (err, s) \<leftarrow> uv__socket (sa_family addr) SOCK_DGRAM 0 s;
            Some (if err < 0 then (err, s) else (0, upd_io h (\<lambda>w. w\<lparr>w_fd := err\<rparr>) s))
          } else Some (0, s));
        if err < 0 then Some (err, s)
        else do {
          let fd = w_fd (io s h);
          (err, s) \<leftarrow> (if flags AND UV_UDP_REUSEADDR \<noteq> 0 then uv__set_reuse fd s else Some (0, s));
          if err \<noteq> 0 then udp_bind_out h err s
          else do {
            (failed, s) \<leftarrow> (if flags AND UV_UDP_IPV6ONLY \<noteq> 0 then do {
                (r, s) \<leftarrow> syscall (Setsockopt fd IPPROTO_IPV6 IPV6_V6ONLY 1) s;
                Some (r_ret r = - 1, s)
              } else Some (False, s));
            if failed then udp_bind_out h (- errno s) s
            else do {
              (r, s) \<leftarrow> syscall (Bind_addr fd addr) s;
              if r_ret r \<noteq> 0 then udp_bind_out h (if errno s = EAFNOSUPPORT then - EINVAL else - errno s) s
              else
                let s = (if sa_family addr = AF_INET6 then set_flags h UV_HANDLE_IPV6 s else s)
                in Some (0, set_flags h UV_HANDLE_BOUND s)
            }
          }
        }
      })"

text \<open>The address is \<open>INADDR_ANY\<close> or \<open>in6addr_any\<close>, port 0.  Another domain aborts.\<close>

definition any_addr :: "int \<Rightarrow> sockaddr option" where
  "any_addr domain =
     (if domain = AF_INET then Some \<lparr>sa_family = AF_INET, sa_port = [0, 0], sa_addr = replicate 4 0, sa_scope = 0\<rparr>
      else if domain = AF_INET6 then Some \<lparr>sa_family = AF_INET6, sa_port = [0, 0], sa_addr = replicate 16 0, sa_scope = 0\<rparr>
      else None)"

definition uv__udp_maybe_deferred_bind :: "addr \<Rightarrow> int \<Rightarrow> u32 \<Rightarrow> 'a uloop_scheme \<Rightarrow> (int \<times> 'a uloop_scheme) option" where
  "uv__udp_maybe_deferred_bind h domain flags s =
     (if w_fd (io s h) \<noteq> - 1 then Some (0, s)
      else do {
        addr \<leftarrow> any_addr domain;
        uv__udp_bind h addr flags s
      })"

section \<open>Requests to send\<close>

text \<open>
  The four buffers of \<open>bufsml\<close> are part of the request; more are copied to memory of their own, 16
  bytes each.
\<close>

definition uv__udp_send :: "addr \<Rightarrow> addr \<Rightarrow> u8 list list \<Rightarrow> sockaddr \<Rightarrow> bool \<Rightarrow> 'a uloop_scheme \<Rightarrow> (int \<times> 'a uloop_scheme) option" where
  "uv__udp_send q h bufs addr cb s = do {
     require (bufs \<noteq> []);
     (err, s) \<leftarrow> uv__udp_maybe_deferred_bind h (sa_family addr) 0 s;
     if err \<noteq> 0 then Some (err, s)
     else do {
       let empty_queue = (ud_send_queue_count (udps s h) = 0);
       let s = uv__req_register q s;
       (ok, s) \<leftarrow> (if length bufs > 4 then do {
           (r, s) \<leftarrow> syscall (Malloc (int (length bufs) * 16)) s;
           Some (r_ret r \<noteq> - 1, s)
         } else Some (True, s));
       let s = upd_send q (\<lambda>r. r\<lparr>us_addr := addr, us_cb := cb, us_bufs := (if ok then Some bufs else None)\<rparr>) s;
       if \<not> ok then do {
         s \<leftarrow> req_unregister q s;
         Some (- ENOMEM, s)
       } else do {
         let s = upd_udp h (\<lambda>u. u\<lparr>ud_send_queue_size := ud_send_queue_size u + uv__count_bufs bufs,
            ud_send_queue_count := ud_send_queue_count u + 1, ud_write_queue := ud_write_queue u @ [q]\<rparr>) s;
         let s = uv__handle_start h s;
         s \<leftarrow> (if empty_queue \<and> \<not> has h UV_UDP_PROCESSING s then uv__udp_sendmsg h s else uv__io_start h POLLOUT s);
         Some (0, s)
       }
     }
   }"

definition uv__udp_try_send :: "addr \<Rightarrow> u8 list list \<Rightarrow> sockaddr \<Rightarrow> 'a uloop_scheme \<Rightarrow> (int \<times> 'a uloop_scheme) option" where
  "uv__udp_try_send h bufs addr s = do {
     require (bufs \<noteq> []);
     if ud_send_queue_count (udps s h) \<noteq> 0 then Some (- EAGAIN, s)
     else do {
       (err, s) \<leftarrow> uv__udp_maybe_deferred_bind h (sa_family addr) 0 s;
       if err \<noteq> 0 then Some (err, s)
       else do {
         (r, s) \<leftarrow> eintr_loop (Sendmsg_to (w_fd (io s h)) addr bufs) s;
         Some (if r_ret r = - 1 then (if errno s = EAGAIN \<or> errno s = EWOULDBLOCK then - EAGAIN else - errno s)
               else r_ret r, s)
       }
     }
   }"

section \<open>Groups and options\<close>

text \<open>A \<open>membership\<close> that is neither of the two is the third case.\<close>

datatype uv_membership = UV_LEAVE_GROUP | UV_JOIN_GROUP | Other_membership

definition uv__udp_set_membership4 ::
    "addr \<Rightarrow> sockaddr \<Rightarrow> string option \<Rightarrow> uv_membership \<Rightarrow> 'a uloop_scheme \<Rightarrow> (int \<times> 'a uloop_scheme) option" where
  "uv__udp_set_membership4 h multicast_addr interface_addr membership s =
     (case (case interface_addr of None \<Rightarrow> Inr (replicate 4 0) | Some ip \<Rightarrow> uv_inet_pton AF_INET (Some ip) False) of
        Inl err \<Rightarrow> Some (err, s)
      | Inr interface \<Rightarrow>
          if membership = Other_membership then Some (- EINVAL, s)
          else do {
            let optname = (if membership = UV_JOIN_GROUP then IP_ADD_MEMBERSHIP else IP_DROP_MEMBERSHIP);
            (r, s) \<leftarrow> syscall (Setsockopt_data (w_fd (io s h)) IPPROTO_IP optname [sa_addr multicast_addr, interface]) s;
            Some (if r_ret r \<noteq> 0 then - errno s else 0, s)
          })"

text \<open>\<open>ipv6mr_interface\<close> is recorded with the call's numbers.\<close>

definition uv__udp_set_membership6 ::
    "addr \<Rightarrow> sockaddr \<Rightarrow> string option \<Rightarrow> uv_membership \<Rightarrow> 'a uloop_scheme \<Rightarrow> (int \<times> 'a uloop_scheme) option" where
  "uv__udp_set_membership6 h multicast_addr interface_addr membership s = do {
     (err, interface, s) \<leftarrow> (case interface_addr of
         None \<Rightarrow> Some (0, 0, s)
       | Some ip \<Rightarrow> do { (rc, addr6, s) \<leftarrow> uv_ip6_addr ip 0 s; Some (rc, sa_scope addr6, s) });
     if err \<noteq> 0 then Some (- EINVAL, s)
     else if membership = Other_membership then Some (- EINVAL, s)
     else do {
       let optname = (if membership = UV_JOIN_GROUP then IPV6_ADD_MEMBERSHIP else IPV6_DROP_MEMBERSHIP);
       (r, s) \<leftarrow> syscall (SysData ''setsockopt'' [w_fd (io s h), IPPROTO_IPV6, optname, interface] [sa_addr multicast_addr]) s;
       Some (if r_ret r \<noteq> 0 then - errno s else 0, s)
     }
   }"

definition uv_udp_set_membership ::
    "addr \<Rightarrow> string \<Rightarrow> string option \<Rightarrow> uv_membership \<Rightarrow> 'a uloop_scheme \<Rightarrow> (int \<times> 'a uloop_scheme) option" where
  "uv_udp_set_membership h multicast_addr interface_addr membership s =
     (let (rc, addr4) = uv_ip4_addr multicast_addr 0
      in if rc = 0 then do {
           (err, s) \<leftarrow> uv__udp_maybe_deferred_bind h AF_INET UV_UDP_REUSEADDR s;
           if err \<noteq> 0 then Some (err, s) else uv__udp_set_membership4 h addr4 interface_addr membership s
         }
         else do {
           (rc, addr6, s) \<leftarrow> uv_ip6_addr multicast_addr 0 s;
           if rc = 0 then do {
             (err, s) \<leftarrow> uv__udp_maybe_deferred_bind h AF_INET6 UV_UDP_REUSEADDR s;
             if err \<noteq> 0 then Some (err, s) else uv__udp_set_membership6 h addr6 interface_addr membership s
           } else Some (- EINVAL, s)
         })"

definition uv__setsockopt :: "addr \<Rightarrow> int \<Rightarrow> int \<Rightarrow> int \<Rightarrow> 'a uloop_scheme \<Rightarrow> (int \<times> 'a uloop_scheme) option" where
  "uv__setsockopt h option4 option6 val s = do {
     (r, s) \<leftarrow> (if has h UV_HANDLE_IPV6 s then syscall (Setsockopt (w_fd (io s h)) IPPROTO_IPV6 option6 val) s
                else syscall (Setsockopt (w_fd (io s h)) IPPROTO_IP option4 val) s);
     Some (if r_ret r \<noteq> 0 then - errno s else 0, s)
   }"

definition uv__setsockopt_maybe_char :: "addr \<Rightarrow> int \<Rightarrow> int \<Rightarrow> int \<Rightarrow> 'a uloop_scheme \<Rightarrow> (int \<times> 'a uloop_scheme) option" where
  "uv__setsockopt_maybe_char h option4 option6 val s =
     (if val < 0 \<or> val > 255 then Some (- EINVAL, s) else uv__setsockopt h option4 option6 val s)"

definition uv_udp_set_broadcast :: "addr \<Rightarrow> int \<Rightarrow> 'a uloop_scheme \<Rightarrow> (int \<times> 'a uloop_scheme) option" where
  "uv_udp_set_broadcast h on s = do {
     (r, s) \<leftarrow> syscall (Setsockopt (w_fd (io s h)) SOL_SOCKET SO_BROADCAST on) s;
     Some (if r_ret r \<noteq> 0 then - errno s else 0, s)
   }"

definition uv_udp_set_ttl :: "addr \<Rightarrow> int \<Rightarrow> 'a uloop_scheme \<Rightarrow> (int \<times> 'a uloop_scheme) option" where
  "uv_udp_set_ttl h ttl s =
     (if ttl < 1 \<or> ttl > 255 then Some (- EINVAL, s) else uv__setsockopt_maybe_char h IP_TTL IPV6_UNICAST_HOPS ttl s)"

definition uv_udp_set_multicast_ttl :: "addr \<Rightarrow> int \<Rightarrow> 'a uloop_scheme \<Rightarrow> (int \<times> 'a uloop_scheme) option" where
  "uv_udp_set_multicast_ttl h ttl s = uv__setsockopt_maybe_char h IP_MULTICAST_TTL IPV6_MULTICAST_HOPS ttl s"

definition uv_udp_set_multicast_loop :: "addr \<Rightarrow> int \<Rightarrow> 'a uloop_scheme \<Rightarrow> (int \<times> 'a uloop_scheme) option" where
  "uv_udp_set_multicast_loop h on s = uv__setsockopt_maybe_char h IP_MULTICAST_LOOP IPV6_MULTICAST_LOOP on s"

definition uv_udp_set_multicast_interface :: "addr \<Rightarrow> string option \<Rightarrow> 'a uloop_scheme \<Rightarrow> (int \<times> 'a uloop_scheme) option" where
  "uv_udp_set_multicast_interface h interface_addr s = do {
     (found, s) \<leftarrow> (case interface_addr of
         None \<Rightarrow> Some (any_addr (if has h UV_HANDLE_IPV6 s then AF_INET6 else AF_INET), s)
       | Some ip \<Rightarrow>
           let (rc, addr4) = uv_ip4_addr ip 0
           in if rc = 0 then Some (Some addr4, s)
              else do {
                (rc, addr6, s) \<leftarrow> uv_ip6_addr ip 0 s;
                Some (if rc = 0 then Some addr6 else None, s)
              });
     case found of
       None \<Rightarrow> Some (- EINVAL, s)
     | Some addr_st \<Rightarrow> do {
         (r, s) \<leftarrow> (if sa_family addr_st = AF_INET
             then syscall (Setsockopt_data (w_fd (io s h)) IPPROTO_IP IP_MULTICAST_IF [sa_addr addr_st]) s
             else syscall (Setsockopt (w_fd (io s h)) IPPROTO_IPV6 IPV6_MULTICAST_IF (sa_scope addr_st)) s);
         Some (if r_ret r = - 1 then - errno s else 0, s)
       }
   }"

text \<open>The name and its length are in the reply.\<close>

definition uv_udp_getsockname :: "addr \<Rightarrow> 'a uloop_scheme \<Rightarrow> ((int + reply) \<times> 'a uloop_scheme) option" where
  "uv_udp_getsockname h s =
     (if w_fd (io s h) = - 1 then Some (Inl (- EINVAL), s)
      else do {
        (r, s) \<leftarrow> syscall (Getsockname (w_fd (io s h))) s;
        Some (if r_ret r \<noteq> 0 then Inl (- errno s) else Inr r, s)
      })"

section \<open>Starting\<close>

definition uv_udp_init_ex :: "addr \<Rightarrow> u32 \<Rightarrow> 'a uloop_scheme \<Rightarrow> (int \<times> 'a uloop_scheme) option" where
  "uv_udp_init_ex h flags s =
     (let domain = uint (flags AND 0xFF)
      in if domain \<noteq> AF_INET \<and> domain \<noteq> AF_INET6 \<and> domain \<noteq> AF_UNSPEC then Some (- EINVAL, s)
         else if flags AND NOT 0xFF \<noteq> 0 then Some (- EINVAL, s)
         else do {
           (fd, s) \<leftarrow> (if domain \<noteq> AF_UNSPEC then uv__socket domain SOCK_DGRAM 0 s else Some (- 1, s));
           if domain \<noteq> AF_UNSPEC \<and> fd < 0 then Some (fd, s)
           else do {
             let s = uv__handle_init h UV_UDP s;
             let s = upd_udp h (\<lambda>u. u\<lparr>ud_alloc_cb := False, ud_recv_cb := False, ud_send_queue_size := 0,
                ud_send_queue_count := 0\<rparr>) s;
             s \<leftarrow> uv__io_init h uv__udp_io_cb fd s;
             Some (0, upd_udp h (\<lambda>u. u\<lparr>ud_write_queue := [], ud_write_completed := []\<rparr>) s)
           }
         })"

definition uv_udp_init :: "addr \<Rightarrow> 'a uloop_scheme \<Rightarrow> (int \<times> 'a uloop_scheme) option" where
  "uv_udp_init h s = uv_udp_init_ex h 0 s"

definition uv__udp_recv_start :: "addr \<Rightarrow> bool \<Rightarrow> bool \<Rightarrow> 'a uloop_scheme \<Rightarrow> (int \<times> 'a uloop_scheme) option" where
  "uv__udp_recv_start h alloc_cb recv_cb s =
     (if \<not> alloc_cb \<or> \<not> recv_cb then Some (- EINVAL, s)
      else if uv__io_active h POLLIN s then Some (- EALREADY, s)
      else do {
        (err, s) \<leftarrow> uv__udp_maybe_deferred_bind h AF_INET 0 s;
        if err \<noteq> 0 then Some (err, s)
        else do {
          let s = upd_udp h (\<lambda>u. u\<lparr>ud_alloc_cb := alloc_cb, ud_recv_cb := recv_cb\<rparr>) s;
          s \<leftarrow> uv__io_start h POLLIN s;
          Some (0, uv__handle_start h s)
        }
      })"

definition uv__udp_recv_stop :: "addr \<Rightarrow> 'a uloop_scheme \<Rightarrow> (int \<times> 'a uloop_scheme) option" where
  "uv__udp_recv_stop h s = do {
     s \<leftarrow> stop_events h POLLIN POLLOUT s;
     Some (0, upd_udp h (\<lambda>u. u\<lparr>ud_alloc_cb := False, ud_recv_cb := False\<rparr>) s)
   }"

section \<open>\<open>src/uv-common.cpp\<close>\<close>

definition uv_udp_bind :: "addr \<Rightarrow> sockaddr \<Rightarrow> u32 \<Rightarrow> 'a uloop_scheme \<Rightarrow> (int \<times> 'a uloop_scheme) option" where
  "uv_udp_bind h addr flags s =
     (case addrlen_of UV_UDP (handle_type h s) addr of
        Inl err \<Rightarrow> Some (err, s)
      | Inr _ \<Rightarrow> uv__udp_bind h addr flags s)"

definition uv_udp_send :: "addr \<Rightarrow> addr \<Rightarrow> u8 list list \<Rightarrow> sockaddr \<Rightarrow> bool \<Rightarrow> 'a uloop_scheme \<Rightarrow> (int \<times> 'a uloop_scheme) option" where
  "uv_udp_send q h bufs addr cb s =
     (case addrlen_of UV_UDP (handle_type h s) addr of
        Inl err \<Rightarrow> Some (err, s)
      | Inr _ \<Rightarrow> uv__udp_send q h bufs addr cb s)"

definition uv_udp_try_send :: "addr \<Rightarrow> u8 list list \<Rightarrow> sockaddr \<Rightarrow> 'a uloop_scheme \<Rightarrow> (int \<times> 'a uloop_scheme) option" where
  "uv_udp_try_send h bufs addr s =
     (case addrlen_of UV_UDP (handle_type h s) addr of
        Inl err \<Rightarrow> Some (err, s)
      | Inr _ \<Rightarrow> uv__udp_try_send h bufs addr s)"

definition uv_udp_recv_start :: "addr \<Rightarrow> bool \<Rightarrow> bool \<Rightarrow> 'a uloop_scheme \<Rightarrow> (int \<times> 'a uloop_scheme) option" where
  "uv_udp_recv_start h alloc_cb recv_cb s =
     (if handle_type h s \<noteq> UV_UDP \<or> \<not> alloc_cb \<or> \<not> recv_cb then Some (- EINVAL, s)
      else uv__udp_recv_start h alloc_cb recv_cb s)"

definition uv_udp_recv_stop :: "addr \<Rightarrow> 'a uloop_scheme \<Rightarrow> (int \<times> 'a uloop_scheme) option" where
  "uv_udp_recv_stop h s =
     (if handle_type h s \<noteq> UV_UDP then Some (- EINVAL, s) else uv__udp_recv_stop h s)"

section \<open>The queue of datagrams\<close>

text \<open>
  The counters count the requests that are queued or not yet reported, and their bytes; each has its
  buffers and is registered with the loop.
\<close>

definition send_bytes :: "addr \<Rightarrow> 'a uloop_scheme \<Rightarrow> nat" where
  "send_bytes q s = length (concat (send_bufs q s))"

definition udp_reqs :: "addr \<Rightarrow> 'a uloop_scheme \<Rightarrow> addr list" where
  "udp_reqs h s = ud_write_queue (udps s h) @ ud_write_completed (udps s h)"

definition udp_ok :: "addr \<Rightarrow> 'a uloop_scheme \<Rightarrow> bool" where
  "udp_ok h s \<longleftrightarrow> distinct (udp_reqs h s) \<and> set (udp_reqs h s) \<subseteq> set (active_reqs s)
     \<and> ud_send_queue_count (udps s h) = of_nat (length (udp_reqs h s))
     \<and> ud_send_queue_size (udps s h) = of_nat (sum_list (map (\<lambda>q. send_bytes q s) (udp_reqs h s)))"

definition status_of :: "reply \<Rightarrow> int" where
  "status_of r = (if r_ret r = - 1 then - r_errno r else r_ret r)"

definition cb_status :: "int \<Rightarrow> int" where
  "cb_status status = (if status \<ge> 0 then 0 else status)"

definition would_block :: "reply \<Rightarrow> bool" where
  "would_block r \<longleftrightarrow> r_ret r = - 1 \<and> (r_errno r = EAGAIN \<or> r_errno r = EWOULDBLOCK)"

lemma upd_udp_simps [simp]:
  "udps (upd_udp h f s) = (udps s)(h := f (udps s h))" "sends (upd_udp h f s) = sends s" "replies (upd_udp h f s) = replies s"
  "syscalls (upd_udp h f s) = syscalls s" "trace (upd_udp h f s) = trace s" "hnd (upd_udp h f s) = hnd s" "io (upd_udp h f s) = io s"
  "active_reqs (upd_udp h f s) = active_reqs s" "io_ok (upd_udp h f s) = io_ok s" "may_watch (upd_udp h f s) v = may_watch s v"
  "send_bufs q (upd_udp h f s) = send_bufs q s"
  by (simp_all add: upd_udp_def io_ok_def cells_ok_def queue_ok_def may_watch_def cells_def watcher_at_def send_bufs_def)

lemma upd_send_simps [simp]:
  "udps (upd_send q f s) = udps s" "sends (upd_send q f s) = (sends s)(q := f (sends s q))" "replies (upd_send q f s) = replies s"
  "syscalls (upd_send q f s) = syscalls s" "trace (upd_send q f s) = trace s" "hnd (upd_send q f s) = hnd s" "io (upd_send q f s) = io s"
  "active_reqs (upd_send q f s) = active_reqs s" "io_ok (upd_send q f s) = io_ok s" "may_watch (upd_send q f s) v = may_watch s v"
  by (simp_all add: upd_send_def io_ok_def cells_ok_def queue_ok_def may_watch_def cells_def watcher_at_def)

lemma feed_udp_simps [simp]:
  "udps (uv__io_feed w s) = udps s" "sends (uv__io_feed w s) = sends s" "replies (uv__io_feed w s) = replies s"
  "syscalls (uv__io_feed w s) = syscalls s" "trace (uv__io_feed w s) = trace s"
  by (simp_all add: uv__io_feed_def upd_io_def)

text \<open>Sending: the log of calls, the states of the requests, and the two queues.\<close>

definition sent_call :: "addr \<Rightarrow> 'a uloop_scheme \<Rightarrow> addr \<Rightarrow> syscall" where
  "sent_call h s q = Sendmsg_to (w_fd (io s h)) (us_addr (sends s q)) (send_bufs q s)"

lemma udp_sendmsg_steps:
  assumes "length rs = length qs" "\<forall>r \<in> set rs. \<not> failed_with EINTR r \<and> \<not> would_block r"
    "rest = [] \<or> (\<exists>r0 rs'. rs0 = r0 # rs' \<and> would_block r0)"
  shows "replies s = rs @ rs0 \<Longrightarrow> distinct (qs @ rest) \<Longrightarrow> ud_write_queue (udps s h) = qs @ rest \<Longrightarrow>
    \<exists>t. udp_sendmsg_loop (qs @ rest) h s = Some t \<and> ud_write_queue (udps t h) = rest
      \<and> ud_write_completed (udps t h) = ud_write_completed (udps s h) @ qs
      \<and> ud_send_queue_count (udps t h) = ud_send_queue_count (udps s h) \<and> ud_send_queue_size (udps t h) = ud_send_queue_size (udps s h)
      \<and> (\<forall>q. us_bufs (sends t q) = us_bufs (sends s q) \<and> us_cb (sends t q) = us_cb (sends s q) \<and> us_addr (sends t q) = us_addr (sends s q))
      \<and> map (\<lambda>q. us_status (sends t q)) qs = map status_of rs \<and> (\<forall>q. q \<notin> set qs \<longrightarrow> sends t q = sends s q)
      \<and> syscalls t = syscalls s @ zip (map (sent_call h s) qs) (map r_ret rs)
          @ (if rest = [] then [] else [(sent_call h s (hd rest), - 1)])
      \<and> replies t = (if rest = [] then rs0 else tl rs0) \<and> trace t = trace s \<and> hnd t = hnd s \<and> active_reqs t = active_reqs s
      \<and> (io_ok s \<longrightarrow> io_ok t) \<and> (may_watch s h \<longrightarrow> may_watch t h) \<and> w_pevents (io t h) = w_pevents (io s h)
      \<and> w_fd (io t h) = w_fd (io s h)"
  using assms(1,2)
proof (induction rs qs arbitrary: s rule: list_induct2)
  case Nil
  show ?case
  proof (cases rest)
    case Nil
    then show ?thesis using Nil.prems by simp
  next
    case (Cons q rest')
    with assms(3) obtain r0 rs' where r0: "rs0 = r0 # rs'" "would_block r0" by auto
    then have "\<not> failed_with EINTR r0" by (auto simp: would_block_def failed_with_def)
    then show ?thesis using Cons Nil.prems r0 by (auto simp: retry_while_cons syscall_def would_block_def sent_call_def)
  qed
next
  case (Cons r rs q qs)
  let ?u = "s\<lparr>replies := rs @ rs0, syscalls := syscalls s @ [(sent_call h s q, r_ret r)], errno := (if r_ret r = - 1 then r_errno r else errno s)\<rparr>"
  let ?v = "uv__io_feed h (upd_udp h (\<lambda>u. u\<lparr>ud_write_queue := remove1 q (ud_write_queue u),
          ud_write_completed := ud_write_completed u @ [q]\<rparr>) (upd_send q (\<lambda>u. u\<lparr>us_status := status_of r\<rparr>) ?u))"
  have r: "\<not> failed_with EINTR r" "\<not> would_block r" "\<not> (r_ret r = - 1 \<and> (r_errno r = EAGAIN \<or> r_errno r = EWOULDBLOCK))"
    using Cons.prems by (simp_all add: would_block_def)
  have step: "udp_sendmsg_loop ((q # qs) @ rest) h s = udp_sendmsg_loop (qs @ rest) h ?v"
    using Cons.prems(1) r by (auto simp: retry_while_cons syscall_def sent_call_def status_of_def Let_def)
  have v: "replies ?v = rs @ rs0" "distinct (qs @ rest)" "ud_write_queue (udps ?v h) = qs @ rest" using Cons.prems by simp_all
  have same: "io_ok ?v = io_ok s" "may_watch ?v h = may_watch s h"
    by (simp_all add: feed_io_ok)
  have calls: "p \<noteq> q \<Longrightarrow> sent_call h ?v p = sent_call h s p" for p
    by (simp add: sent_call_def send_bufs_def)
  have rs: "\<forall>r \<in> set rs. \<not> failed_with EINTR r \<and> \<not> would_block r" using Cons.prems by simp
  obtain t where t: "udp_sendmsg_loop (qs @ rest) h ?v = Some t" "ud_write_queue (udps t h) = rest"
      "ud_write_completed (udps t h) = ud_write_completed (udps ?v h) @ qs"
      "ud_send_queue_count (udps t h) = ud_send_queue_count (udps ?v h)" "ud_send_queue_size (udps t h) = ud_send_queue_size (udps ?v h)"
      "\<And>q. us_bufs (sends t q) = us_bufs (sends ?v q) \<and> us_cb (sends t q) = us_cb (sends ?v q) \<and> us_addr (sends t q) = us_addr (sends ?v q)"
      "map (\<lambda>q. us_status (sends t q)) qs = map status_of rs" "\<And>q. q \<notin> set qs \<Longrightarrow> sends t q = sends ?v q"
      "syscalls t = syscalls ?v @ zip (map (sent_call h ?v) qs) (map r_ret rs)
          @ (if rest = [] then [] else [(sent_call h ?v (hd rest), - 1)])"
      "replies t = (if rest = [] then rs0 else tl rs0)" "trace t = trace ?v" "hnd t = hnd ?v" "active_reqs t = active_reqs ?v"
      "io_ok ?v \<longrightarrow> io_ok t" "may_watch ?v h \<longrightarrow> may_watch t h" "w_pevents (io t h) = w_pevents (io ?v h)"
      "w_fd (io t h) = w_fd (io ?v h)"
    using Cons.IH [OF v rs] by blast
  have q: "q \<notin> set qs" "q \<notin> set rest" using Cons.prems(2) by simp_all
  have m1: "map (sent_call h ?v) qs = map (sent_call h s) qs" by (rule map_cong [OF refl]) (rule calls, use q(1) in blast)
  have m2: "rest \<noteq> [] \<Longrightarrow> sent_call h ?v (hd rest) = sent_call h s (hd rest)"
    using q(2) by (intro calls) (metis hd_in_set)
  have "syscalls t = syscalls s @ zip (map (sent_call h s) (q # qs)) (map r_ret (r # rs))
      @ (if rest = [] then [] else [(sent_call h s (hd rest), - 1)])" unfolding t(9) m1 using m2 by simp
  moreover have "us_bufs (sends t p) = us_bufs (sends s p) \<and> us_cb (sends t p) = us_cb (sends s p) \<and> us_addr (sends t p) = us_addr (sends s p)" for p
    using t(6) [of p] by simp
  moreover have "map (\<lambda>q. us_status (sends t q)) (q # qs) = map status_of (r # rs)"
    using t(7) t(8) [OF q(1)] by simp
  moreover have "\<forall>p. p \<notin> set (q # qs) \<longrightarrow> sends t p = sends s p" using t(8) by simp
  ultimately show ?case unfolding step using t(1-5,10-17) same by simp
qed

text \<open>Reporting: a callback that leaves the UDP handle alone.\<close>

definition udp_quiet :: "(callback \<Rightarrow> 'a uloop_scheme \<Rightarrow> 'a uloop_scheme) \<Rightarrow> bool" where
  "udp_quiet call \<longleftrightarrow> (\<forall>c u. udps (call c u) = udps u \<and> sends (call c u) = sends u \<and> replies (call c u) = replies u
     \<and> syscalls (call c u) = syscalls u \<and> trace (call c u) = trace u \<and> hnd (call c u) = hnd u
     \<and> active_reqs (call c u) = active_reqs u \<and> io_same u (call c u))"

abbreviation send_report :: "'a uloop_scheme \<Rightarrow> addr \<Rightarrow> callback" where
  "send_report s q \<equiv> Send_cb q (cb_status (us_status (sends s q)))"

lemma send_bytes_cong: "sends t p = sends s p \<Longrightarrow> send_bytes p t = send_bytes p s"
  by (simp add: send_bytes_def send_bufs_def)

lemma udp_completed_step:
  assumes quiet: "udp_quiet call" and ok: "udp_ok h s" and q: "ud_write_completed (udps s h) = q # qs" and cb: "us_cb (sends s q)"
  shows "\<exists>t. udp_completed_one call h q s = Some t \<and> udp_ok h t \<and> ud_write_completed (udps t h) = qs
    \<and> ud_write_queue (udps t h) = ud_write_queue (udps s h) \<and> trace t = trace s @ [send_report s q]
    \<and> (\<forall>p. p \<noteq> q \<longrightarrow> sends t p = sends s p) \<and> replies t = replies s \<and> syscalls t = syscalls s \<and> hnd t = hnd s
    \<and> io t = io s \<and> io_ok t = io_ok s \<and> may_watch t h = may_watch s h"
proof -
  let ?n = "uv__count_bufs (send_bufs q s)"
  let ?u = "upd_send q (\<lambda>r. r\<lparr>us_bufs := None\<rparr>) (upd_udp h (\<lambda>u. u\<lparr>ud_write_completed := qs,
      ud_send_queue_size := ud_send_queue_size u - ?n, ud_send_queue_count := ud_send_queue_count u - 1\<rparr>) (uv__req_unregister q s))"
  let ?c = "send_report s q"
  let ?t = "invoke call ?c ?u"
  have reqs: "udp_reqs h s = ud_write_queue (udps s h) @ q # qs" using q by (simp add: udp_reqs_def)
  have act: "q \<in> set (active_reqs s)" using ok reqs by (auto simp: udp_ok_def)
  have one: "udp_completed_one call h q s = Some ?t"
    using q cb act by (auto simp: udp_completed_one_def req_unregister_def require_def uv__has_active_reqs_def Let_def cb_status_def
        uv__req_unregister_def upd_udp_def upd_send_def send_bufs_def)
  have t: "udps ?t = udps ?u" "sends ?t = sends ?u" "active_reqs ?t = remove1 q (active_reqs s)" "trace ?t = trace s @ [?c]"
    "replies ?t = replies s" "syscalls ?t = syscalls s" "hnd ?t = hnd s" "io_same ?u ?t"
    using quiet by (simp_all add: udp_quiet_def invoke_def uv__req_unregister_def io_same_def)
  have io: "io_same s ?u" by (simp add: io_same_def upd_send_def upd_udp_def uv__req_unregister_def)
  have same: "io ?t = io s" "io_ok ?t = io_ok s" "may_watch ?t h = may_watch s h"
    using io_same_ok [OF io] io_same_ok [OF t(8)] io t(8) by (simp_all add: io_same_def)
  have treqs: "udp_reqs h ?t = ud_write_queue (udps s h) @ qs" using t(1) by (simp add: udp_reqs_def uv__req_unregister_def)
  have other: "p \<noteq> q \<Longrightarrow> sends ?t p = sends s p" for p using t(2) by (simp add: uv__req_unregister_def)
  have q': "q \<notin> set (ud_write_queue (udps s h) @ qs)" "distinct (ud_write_queue (udps s h) @ qs)"
    using ok reqs by (auto simp: udp_ok_def)
  have bytes: "map (\<lambda>p. send_bytes p ?t) (ud_write_queue (udps s h) @ qs) = map (\<lambda>p. send_bytes p s) (ud_write_queue (udps s h) @ qs)"
    by (rule map_cong [OF refl], rule send_bytes_cong, rule other) (use q'(1) in blast)
  have "ud_send_queue_size (udps ?t h) = of_nat (sum_list (map (\<lambda>p. send_bytes p ?t) (ud_write_queue (udps s h) @ qs)))"
    unfolding bytes using t(1) ok reqs by (simp add: udp_ok_def uv__req_unregister_def count_bufs_length send_bytes_def)
  moreover have "ud_send_queue_count (udps ?t h) = of_nat (length (ud_write_queue (udps s h) @ qs))"
    using t(1) ok reqs by (simp add: udp_ok_def uv__req_unregister_def)
  moreover have "set (ud_write_queue (udps s h) @ qs) \<subseteq> set (active_reqs ?t)"
  proof
    fix x assume x: "x \<in> set (ud_write_queue (udps s h) @ qs)"
    then have "x \<in> set (active_reqs s)" "x \<noteq> q" using ok reqs q'(1) by (auto simp: udp_ok_def)
    then show "x \<in> set (active_reqs ?t)" by (simp add: in_set_remove1 t(3))
  qed
  ultimately have "udp_ok h ?t" using q'(2) treqs by (simp add: udp_ok_def)
  then show ?thesis using one t same other by (intro exI [of _ ?t]) (simp add: uv__req_unregister_def)
qed

lemma udp_completed_all:
  assumes quiet: "udp_quiet call"
  shows "udp_ok h s \<Longrightarrow> ud_write_completed (udps s h) = qs \<Longrightarrow> \<forall>q \<in> set qs. us_cb (sends s q) \<Longrightarrow>
    \<exists>t. udp_completed_loop call h s = Some t \<and> udp_ok h t \<and> ud_write_completed (udps t h) = []
      \<and> ud_write_queue (udps t h) = ud_write_queue (udps s h) \<and> trace t = trace s @ map (send_report s) qs
      \<and> replies t = replies s \<and> syscalls t = syscalls s \<and> hnd t = hnd s \<and> io t = io s \<and> io_ok t = io_ok s
      \<and> may_watch t h = may_watch s h"
proof (induction qs arbitrary: s)
  case Nil
  then show ?case by (subst udp_completed_loop.simps) simp
next
  case (Cons q qs)
  from Cons.prems(3) have "us_cb (sends s q)" by simp
  from udp_completed_step [OF quiet Cons.prems(1,2) this] obtain t where
    t: "udp_completed_one call h q s = Some t" "udp_ok h t" "ud_write_completed (udps t h) = qs"
      "ud_write_queue (udps t h) = ud_write_queue (udps s h)" "trace t = trace s @ [send_report s q]"
      "\<And>p. p \<noteq> q \<Longrightarrow> sends t p = sends s p" "replies t = replies s" "syscalls t = syscalls s" "hnd t = hnd s"
      "io t = io s" "io_ok t = io_ok s" "may_watch t h = may_watch s h" by blast
  have q: "q \<notin> set qs" using Cons.prems(1,2) by (auto simp: udp_ok_def udp_reqs_def)
  have m: "map (send_report t) qs = map (send_report s) qs" by (rule map_cong [OF refl]) (use t(6) q in metis)
  have "\<forall>p \<in> set qs. us_cb (sends t p)" using Cons.prems(3) t(6) q by (metis list.set_intros(2))
  from Cons.IH [OF t(2,3) this] obtain u where u: "udp_completed_loop call h t = Some u" "udp_ok h u" "ud_write_completed (udps u h) = []"
      "ud_write_queue (udps u h) = ud_write_queue (udps t h)" "trace u = trace t @ map (send_report t) qs"
      "replies u = replies t" "syscalls u = syscalls t" "hnd u = hnd t" "io u = io t" "io_ok u = io_ok t"
      "may_watch u h = may_watch t h" by blast
  have "udp_completed_loop call h s = Some u"
    using Cons.prems(2) t(1) u(1) by (subst udp_completed_loop.simps) simp
  then show ?case using t u m by simp
qed

lemma udp_ok_same:
  assumes "udps t h = udps s h" "active_reqs t = active_reqs s" "\<And>q. us_bufs (sends t q) = us_bufs (sends s q)"
  shows "udp_ok h t = udp_ok h s"
  using assms by (simp add: udp_ok_def udp_reqs_def send_bytes_def send_bufs_def)

lemma flags_udp_simps [simp]:
  "udps (upd_flags h f s) = udps s" "sends (upd_flags h f s) = sends s" "replies (upd_flags h f s) = replies s"
  "syscalls (upd_flags h f s) = syscalls s" "trace (upd_flags h f s) = trace s" "io (upd_flags h f s) = io s"
  "active_reqs (upd_flags h f s) = active_reqs s" "io_ok (upd_flags h f s) = io_ok s" "may_watch (upd_flags h f s) v = may_watch s v"
  by (simp_all add: upd_flags_def io_ok_def cells_ok_def queue_ok_def may_watch_def cells_def watcher_at_def)

definition udps_same :: "'a uloop_scheme \<Rightarrow> 'a uloop_scheme \<Rightarrow> bool" where
  "udps_same s t \<longleftrightarrow> udps t = udps s \<and> sends t = sends s \<and> replies t = replies s \<and> syscalls t = syscalls s
     \<and> trace t = trace s \<and> active_reqs t = active_reqs s"

lemma io_stop_udps: "wp (uv__io_stop w events s) (udps_same s)"
  by (auto simp: uv__io_stop_def Let_def upd_io_def set_watcher_def udps_same_def intro!: wpI)

lemma handle_stop_udps: "udps_same s (uv__handle_stop h s)"
  by (simp add: udps_same_def uv__handle_stop_def upd_flags_def uv__active_handle_rm_def Let_def)

lemma udps_same_trans: "udps_same s t \<Longrightarrow> udps_same t u \<Longrightarrow> udps_same s u"
  by (simp add: udps_same_def)

text \<open>Behind the loop of \<open>uv__udp_run_completed\<close>.\<close>

lemma run_completed_end:
  assumes "io_ok s" "may_watch s h"
  shows "\<exists>t. (if ud_write_queue (udps s h) = [] then do {
         s \<leftarrow> uv__io_stop h POLLOUT s;
         Some (if \<not> uv__io_active h POLLIN s then uv__handle_stop h s else s)
       } else Some s) = Some t \<and> udps_same s t \<and> (ud_write_queue (udps s h) = [] \<longrightarrow> \<not> uv__io_active h POLLOUT t)"
proof (cases "ud_write_queue (udps s h) = []")
  case True
  have "POLLOUT AND NOT io_mask = 0" "POLLOUT \<noteq> 0" by (simp_all add: io_mask_def)
  from io_stop_ok [OF assms this] obtain u where u: "uv__io_stop h POLLOUT s = Some u"
    "w_pevents (io u h) = w_pevents (io s h) AND NOT POLLOUT" by auto
  have "udps_same s u" using wpD [OF io_stop_udps u(1)] .
  moreover have "\<not> uv__io_active h POLLOUT u" using u(2) by (simp only: uv__io_active_def mask_cleared)
  ultimately show ?thesis using True u(1) handle_stop_udps [of u h] by (auto simp: uv__io_active_def intro: udps_same_trans)
qed (simp add: udps_same_def)

lemma udp_io_sends:
  assumes quiet: "udp_quiet call" and ok: "udp_ok h s" and q: "ud_write_queue (udps s h) = qs @ rest" "ud_write_completed (udps s h) = []"
    and cb: "\<forall>q \<in> set qs. us_cb (sends s q)" and h: "handle_type h s = UV_UDP" "\<not> has h UV_UDP_PROCESSING s"
    and io: "io_ok s" "may_watch s h"
    and rs: "replies s = rs @ rs0" "length rs = length qs" "\<forall>r \<in> set rs. \<not> failed_with EINTR r \<and> \<not> would_block r"
    and last: "rest = [] \<or> (\<exists>r0 rs'. rs0 = r0 # rs' \<and> would_block r0)"
  shows "\<exists>t. uv__udp_io call alloc h POLLOUT s = Some t
    \<and> trace t = trace s @ map2 (\<lambda>q r. Send_cb q (cb_status (status_of r))) qs rs
    \<and> syscalls t = syscalls s @ zip (map (sent_call h s) qs) (map r_ret rs) @ (if rest = [] then [] else [(sent_call h s (hd rest), - 1)])
    \<and> udp_ok h t \<and> udp_reqs h t = rest \<and> (rest = [] \<longrightarrow> \<not> uv__io_active h POLLOUT t)"
proof -
  have "distinct (qs @ rest)" using ok q by (simp add: udp_ok_def udp_reqs_def)
  from udp_sendmsg_steps [OF rs(2,3) last rs(1) this q(1)] obtain t where
    t: "udp_sendmsg_loop (qs @ rest) h s = Some t" "ud_write_queue (udps t h) = rest" "ud_write_completed (udps t h) = qs"
      "ud_send_queue_count (udps t h) = ud_send_queue_count (udps s h)" "ud_send_queue_size (udps t h) = ud_send_queue_size (udps s h)"
      "\<And>q. us_bufs (sends t q) = us_bufs (sends s q)" "\<And>q. us_cb (sends t q) = us_cb (sends s q)"
      "map (\<lambda>q. us_status (sends t q)) qs = map status_of rs"
      "syscalls t = syscalls s @ zip (map (sent_call h s) qs) (map r_ret rs) @ (if rest = [] then [] else [(sent_call h s (hd rest), - 1)])"
      "trace t = trace s" "hnd t = hnd s" "active_reqs t = active_reqs s" "io_ok t" "may_watch t h"
    using io q(2) by (simp only: append_Nil) blast
  have bytes: "send_bytes p t = send_bytes p s" for p using t(6) by (simp add: send_bytes_def send_bufs_def)
  have "udp_ok h t" using ok q t(2-5,12) bytes by (auto simp: udp_ok_def udp_reqs_def)
  let ?u = "set_flags h UV_UDP_PROCESSING t"
  have u: "udp_ok h ?u" "ud_write_completed (udps ?u h) = qs" "\<forall>q \<in> set qs. us_cb (sends ?u q)"
    using \<open>udp_ok h t\<close> t(3,7) cb udp_ok_same [of ?u h t] by (simp_all add: set_flags_def)
  from udp_completed_all [OF quiet u] obtain v where v: "udp_completed_loop call h ?u = Some v" "udp_ok h v"
    "ud_write_completed (udps v h) = []" "ud_write_queue (udps v h) = rest" "trace v = trace s @ map (send_report ?u) qs"
    "syscalls v = syscalls t" "io_ok v" "may_watch v h" using t(2,10,13,14) by (auto simp: set_flags_def)
  from run_completed_end [OF v(7,8)] obtain w where w: "(if ud_write_queue (udps v h) = [] then do {
         s \<leftarrow> uv__io_stop h POLLOUT v;
         Some (if \<not> uv__io_active h POLLIN s then uv__handle_stop h s else s)
       } else Some v) = Some w" "udps_same v w" "ud_write_queue (udps v h) = [] \<longrightarrow> \<not> uv__io_active h POLLOUT w" by blast
  let ?x = "clear_flags h UV_UDP_PROCESSING w"
  have "\<not> has h UV_UDP_PROCESSING t" using h(2) t(11) by (simp add: has_def flags_of_def)
  then have "uv__udp_run_completed call h t = Some ?x"
    unfolding uv__udp_run_completed_def using v(1) w(1) by simp
  then have "uv__udp_io call alloc h POLLOUT s = Some ?x"
    using h(1) t(1) q(1) by (simp add: uv__udp_io_def uv__udp_sendmsg_def)
  moreover have "map (send_report ?u) qs = map2 (\<lambda>q r. Send_cb q (cb_status (status_of r))) qs rs"
  proof -
    have "map (\<lambda>q. Send_cb q (cb_status (us_status (sends t q)))) qs
        = map2 (\<lambda>q st. Send_cb q (cb_status st)) qs (map (\<lambda>q. us_status (sends t q)) qs)"
      by (induction qs) simp_all
    then show ?thesis unfolding t(8) by (simp add: set_flags_def zip_map2 comp_def split_def)
  qed
  moreover have "udp_ok h ?x" using v(2) w(2) udp_ok_same [of ?x h v] by (simp add: udps_same_def clear_flags_def)
  moreover have "uv__io_active h POLLOUT ?x = uv__io_active h POLLOUT w" by (simp add: uv__io_active_def clear_flags_def)
  ultimately show ?thesis using v w(2,3) t(9) by (intro exI [of _ ?x]) (simp add: udps_same_def clear_flags_def udp_reqs_def)
qed

text \<open>A bind that fails on a handle that has a descriptor.\<close>

lemma bind_fails:
  assumes "replies s = r # c # rs" "r_ret r = - 1" "r_errno r > 0" "r_ret c = 0" "w_fd (io s h) > 2"
  shows "\<exists>err t. uv__udp_bind h addr 0 s = Some (err, t) \<and> err < 0 \<and> replies t = rs
    \<and> syscalls t = syscalls s @ [(Bind_addr (w_fd (io s h)) addr, - 1), (Close (w_fd (io s h)), 0)]
    \<and> io t = (io s)(h := (io s h)\<lparr>w_fd := - 1\<rparr>) \<and> hnd t = hnd s \<and> watchers t = watchers s"
  using assms by (auto simp: uv__udp_bind_def udp_bind_out_def uv__close_def uv__close_nocheckstdio_def save_errno_def
      syscall_def upd_io_def Let_def)

lemma close_without_descriptor:
  assumes "w_fd (io s h) = - 1" "watchers s \<noteq> None" "replies s = e # rs"
  shows "\<exists>u. uv__udp_close h s = Some u \<and> io u = io s"
proof -
  have "io_mask AND NOT io_mask = 0" "io_mask \<noteq> 0" by (simp_all add: io_mask_def)
  then show ?thesis using assms
    by (auto simp: uv__udp_close_def uv__io_close_def uv__io_stop_def uv__platform_invalidate_fd_def syscall_def Let_def)
qed

lemma pollin_active: "uv__io_active h POLLIN s \<Longrightarrow> uv__io_active h (POLLIN OR POLLOUT) s"
proof -
  have "(p AND (POLLIN OR POLLOUT)) AND POLLIN = p AND POLLIN" for p :: u32
    by (rule bit_word_eqI) (auto simp: bit_simps)
  then show "uv__io_active h POLLIN s \<Longrightarrow> uv__io_active h (POLLIN OR POLLOUT) s"
    unfolding uv__io_active_def by (metis and_zero_eq zero_and_eq)
qed

section \<open>Properties\<close>

text \<open>C8: when the socket of a UDP handle is writable, the queued datagrams are sent whole, once and in
  the order they were queued, until one has to wait; each request sent, or refused by the kernel, is
  reported to its callback exactly once, in that order, with status 0 or the error, and leaves the
  loop; the requests that wait stay queued in order, and \<open>send_queue_count\<close> and \<open>send_queue_size\<close>
  count exactly them.  With nothing left the handle no longer waits for \<open>POLLOUT\<close>.\<close>
theorem udp_sends_in_order:
  assumes "udp_quiet call" "udp_ok h s" "ud_write_queue (udps s h) = qs @ rest" "ud_write_completed (udps s h) = []"
    "\<forall>q \<in> set qs. us_cb (sends s q)" "handle_type h s = UV_UDP" "\<not> has h UV_UDP_PROCESSING s"
    "io_ok s" "may_watch s h" "replies s = rs @ rs0" "length rs = length qs"
    "\<forall>r \<in> set rs. \<not> failed_with EINTR r \<and> \<not> would_block r"
    "rest = [] \<or> (\<exists>r0 rs'. rs0 = r0 # rs' \<and> would_block r0)"
  shows "\<exists>t. uv__udp_io call alloc h POLLOUT s = Some t
    \<and> trace t = trace s @ map2 (\<lambda>q r. Send_cb q (cb_status (status_of r))) qs rs
    \<and> syscalls t = syscalls s @ zip (map (sent_call h s) qs) (map r_ret rs) @ (if rest = [] then [] else [(sent_call h s (hd rest), - 1)])
    \<and> udp_ok h t \<and> udp_reqs h t = rest \<and> (rest = [] \<longrightarrow> \<not> uv__io_active h POLLOUT t)"
  using udp_io_sends [OF assms] .

text \<open>A loop with a UDP handle, 1 on descriptor 7, and requests of three bytes each to port 53 of 10.0.0.1.\<close>

definition udp_loop :: "reply list \<Rightarrow> addr list \<Rightarrow> unit uloop_scheme" where
  "udp_loop rs queue = (stream_loop rs [] 0 []
     (uloop_ext (\<lambda>_. \<lparr>ud_alloc_cb = True, ud_recv_cb = True, ud_send_queue_size = of_nat (3 * length queue),
          ud_send_queue_count = of_nat (length queue), ud_write_queue = queue, ud_write_completed = []\<rparr>)
        (\<lambda>_. \<lparr>us_addr = \<lparr>sa_family = AF_INET, sa_port = [0, 53], sa_addr = [10, 0, 0, 1], sa_scope = 0\<rparr>,
          us_bufs = Some [[1, 2], [3]], us_status = 0, us_cb = True\<rparr>) ()))
     \<lparr>hnd := \<lambda>_. \<lparr>h_type = UV_UDP, h_flags = UV__HANDLE_ACTIVE, h_close_cb = False\<rparr>, active_reqs := queue\<rparr>"

lemmas udp_loop_defs = udp_loop_def stream_loop_defs

theorem udp_sends_in_order_witness:
  "\<exists>t. uv__udp_io (\<lambda>c u. u) (\<lambda>h u. (0, u)) 1 POLLOUT (udp_loop [ret 3, fail ECONNREFUSED, fail EAGAIN] [10, 11, 12]) = Some t
    \<and> trace t = [Send_cb 10 0, Send_cb 11 (- ECONNREFUSED)] \<and> udp_reqs 1 t = [12]"
proof -
  let ?s = "udp_loop [ret 3, fail ECONNREFUSED, fail EAGAIN] [10, 11, 12]"
  have s: "trace ?s = []" "replies ?s = [ret 3, fail ECONNREFUSED] @ [fail EAGAIN]" "ud_write_queue (udps ?s 1) = [10, 11] @ [12]"
    "ud_write_completed (udps ?s 1) = []" "\<forall>q \<in> set [10, 11]. us_cb (sends ?s q)" "handle_type 1 ?s = UV_UDP"
    "\<not> has 1 UV_UDP_PROCESSING ?s" "io_ok ?s" "may_watch ?s 1" "udp_ok 1 ?s"
    by (simp_all add: udp_loop_defs udp_ok_def udp_reqs_def send_bytes_def send_bufs_def handle_type_def
        has_def flags_of_def flag_simps io_ok_def cells_ok_def queue_ok_def may_watch_def cells_def used_def)
  have r: "\<forall>r \<in> set [ret 3, fail ECONNREFUSED]. \<not> failed_with EINTR r \<and> \<not> would_block r" "would_block (fail EAGAIN)"
    by (simp_all add: failed_with_def would_block_def fail_def ret_def)
  have "udp_quiet (\<lambda>c u :: unit uloop_scheme. u)" by (simp add: udp_quiet_def io_same_def)
  from udp_sends_in_order [OF this s(10,3-9,2) _ r(1)] r(2) show ?thesis unfolding s(1)
    by (auto simp: status_of_def cb_status_def fail_def ret_def)
qed

text \<open>when \<open>bind\<close> fails on a UDP handle that already has a descriptor and is waiting for data, as it
  does on a second bind, \<open>uv__udp_bind\<close> closes that descriptor, although the handle goes on being
  active, and leaves the events set that it waits for.  \<open>uv__io_stop\<close> does nothing without a
  descriptor, so closing the handle later fails the assertion at the head of
  \<open>uv__udp_finish_close\<close>.\<close>
theorem udp_rebind_breaks_close:
  assumes "replies s = r # c # e # rs" "r_ret r = - 1" "r_errno r > 0" "r_ret c = 0" "w_fd (io s h) > 2"
    "uv__io_active h POLLIN s" "uv__is_active h s" "watchers s \<noteq> None"
  shows "\<exists>err t u. uv__udp_bind h addr 0 s = Some (err, t) \<and> err < 0 \<and> last (syscalls t) = (Close (w_fd (io s h)), 0)
    \<and> w_fd (io t h) = - 1 \<and> uv__is_active h t \<and> uv__udp_close h t = Some u \<and> uv__udp_finish_close call h u = None"
proof -
  from bind_fails [OF assms(1-5), of addr] obtain err t where t: "uv__udp_bind h addr 0 s = Some (err, t)" "err < 0"
    "replies t = e # rs" "syscalls t = syscalls s @ [(Bind_addr (w_fd (io s h)) addr, - 1), (Close (w_fd (io s h)), 0)]"
    "io t = (io s)(h := (io s h)\<lparr>w_fd := - 1\<rparr>)" "hnd t = hnd s" "watchers t = watchers s" by blast
  then have fd: "w_fd (io t h) = - 1" "uv__is_active h t" "watchers t \<noteq> None"
    using assms(7,8) by (simp_all add: uv__is_active_def flags_of_def)
  from close_without_descriptor [OF fd(1,3) t(3)] obtain u where u: "uv__udp_close h t = Some u" "io u = io t" by blast
  have "uv__io_active h POLLIN u" using assms(6) t(5) u(2) by (simp add: uv__io_active_def)
  then have "uv__udp_finish_close call h u = None"
    using pollin_active [of h u] by (simp add: uv__udp_finish_close_def require_def)
  then show ?thesis using t fd u by auto
qed

theorem udp_rebind_breaks_close_witness:
  "\<exists>err t u. uv__udp_bind 1 \<lparr>sa_family = AF_INET, sa_port = [0, 53], sa_addr = [0, 0, 0, 0], sa_scope = 0\<rparr> 0
      ((udp_loop [fail EINVAL, ret 0, ret 0] [])\<lparr>watchers := Some [],
         io := \<lambda>_. \<lparr>w_cb = uv__udp_io_cb, w_fd = 7, w_events = 0, w_pevents = POLLIN, w_linked = False\<rparr>\<rparr>) = Some (err, t)
    \<and> uv__udp_close 1 t = Some u \<and> uv__udp_finish_close (\<lambda>c u. u) 1 u = None"
proof -
  let ?s = "(udp_loop [fail EINVAL, ret 0, ret 0] [])\<lparr>watchers := Some [],
         io := \<lambda>_. \<lparr>w_cb = uv__udp_io_cb, w_fd = 7, w_events = 0, w_pevents = POLLIN, w_linked = False\<rparr>\<rparr>"
  have s: "replies ?s = [fail EINVAL, ret 0, ret 0]" "w_fd (io ?s 1) > 2" "uv__io_active 1 POLLIN ?s" "uv__is_active 1 ?s"
    "watchers ?s \<noteq> None" "r_ret (fail EINVAL) = - 1" "r_errno (fail EINVAL) > 0" "r_ret (ret 0) = 0"
    by (simp_all add: udp_loop_defs uv__io_active_def uv__is_active_def flags_of_def flag_simps fail_def ret_def)
  from udp_rebind_breaks_close [OF s(1,6,7,8,2-5)] show ?thesis by blast
qed

text \<open>without memory for the copy of more than four buffers both calls return \<open>-ENOMEM\<close>, but
  \<open>uv_write2\<close> leaves its request registered with the loop, which then has an active request that no
  callback will ever end; \<open>uv__udp_send\<close> takes its request out again.\<close>
theorem request_leaked_without_memory:
  assumes "length bufs > 4" "replies s = r # rs" "r_ret r = - 1" "handle_type h s = UV_TCP" "uv__stream_fd h s \<ge> 0"
    "w_fd (io s g) \<noteq> - 1"
  shows "(\<exists>t. uv_write2 q h bufs None cb s = Some (- ENOMEM, t) \<and> active_reqs t = active_reqs s @ [q]
        \<and> uv__has_active_reqs t \<and> streams t = streams s)
    \<and> (q \<notin> set (active_reqs s) \<longrightarrow> (\<exists>t. uv__udp_send q g bufs addr cb s = Some (- ENOMEM, t) \<and> active_reqs t = active_reqs s
        \<and> udps t = udps s))"
proof -
  have "bufs \<noteq> []" using assms(1) by auto
  then show ?thesis using assms
    by (auto simp: uv_write2_def uv__udp_send_def uv__udp_maybe_deferred_bind_def uv__req_register_def uv__req_unregister_def
        uv__has_active_reqs_def req_unregister_def upd_write_def upd_send_def syscall_def handle_type_def uv__stream_fd_def
        require_def Let_def remove1_append)
qed

theorem request_leaked_without_memory_witness:
  "\<exists>t. uv_write2 20 1 [[1], [2], [3], [4], [5]] None True
      ((udp_loop [fail ENOMEM] [])\<lparr>hnd := \<lambda>_. \<lparr>h_type = UV_TCP, h_flags = 0, h_close_cb = False\<rparr>\<rparr>) = Some (- ENOMEM, t)
    \<and> uv__has_active_reqs t"
proof -
  let ?s = "(udp_loop [fail ENOMEM] [])\<lparr>hnd := \<lambda>_. \<lparr>h_type = UV_TCP, h_flags = 0, h_close_cb = False\<rparr>\<rparr>"
  have s: "replies ?s = [fail ENOMEM]" "r_ret (fail ENOMEM) = - 1" "handle_type 1 ?s = UV_TCP" "uv__stream_fd 1 ?s \<ge> 0" "w_fd (io ?s 2) \<noteq> - 1"
    by (simp_all add: udp_loop_defs handle_type_def uv__stream_fd_def fail_def ret_def)
  have "length [[1 :: u8], [2], [3], [4], [5]] > 4" by simp
  from request_leaked_without_memory [OF this s, of 20 True] show ?thesis by blast
qed

end
