(* ===== verification/Signals.thy ===== *)
theory Signals
  imports Udp "HOL-Library.Product_Lexorder"
begin

text \<open>
  Signals, \<open>src/unix/signal.cpp\<close>, and \<open>uv__make_close_pending\<close>.  The handler runs in any thread, or
  in the middle of the loop's own; it writes a message for each handle to the pipe of the handle's loop.
  Of the tree, which all loops share, the model has the handles of one loop: the list of them in the
  order of \<open>uv__signal_compare\<close>.  The red-black tree of \<open>include/tree.h\<close> is its contract, insertion into
  and removal from a sorted list.  The static \<open>signal_lock_pipefd\<close> is a field of the state.  The last
  section treats the handler as a process of its own.
\<close>

record uv_signal =
  sg_cb :: bool
  sg_signum :: int
  sg_caught :: u32
  sg_dispatched :: u32

record gloop = uloop +
  signals :: "addr \<Rightarrow> uv_signal"
  signal_tree :: "addr list"
  signal_pipefd :: "int \<times> int"
  signal_lock_pipefd :: "int \<times> int"

abbreviation (input) SIG_SETMASK :: int where "SIG_SETMASK \<equiv> 2"
abbreviation (input) SIG_DFL :: int where "SIG_DFL \<equiv> 0"
abbreviation (input) Sigaction :: "int \<Rightarrow> int \<Rightarrow> syscall" where "Sigaction signum sa_handler \<equiv> Sys ''sigaction'' [signum, sa_handler]"
abbreviation (input) Pthread_sigmask :: syscall where "Pthread_sigmask \<equiv> Sys ''pthread_sigmask'' [SIG_SETMASK]"

definition upd_signal :: "addr \<Rightarrow> (uv_signal \<Rightarrow> uv_signal) \<Rightarrow> 'a gloop_scheme \<Rightarrow> 'a gloop_scheme" where
  "upd_signal h f s = s\<lparr>signals := (signals s)(h := f (signals s h))\<rparr>"

definition signum_of :: "'a gloop_scheme \<Rightarrow> addr \<Rightarrow> int" where
  "signum_of s h = sg_signum (signals s h)"

section \<open>Messages\<close>

text \<open>
  \<open>uv__signal_msg_t\<close>: a pointer of 8 bytes, an \<open>int\<close> of 4 and 4 bytes of padding that \<open>memset\<close> has
  cleared, with the least significant byte first.
\<close>

definition signal_msg_bytes :: "addr \<Rightarrow> int \<Rightarrow> u8 list" where
  "signal_msg_bytes h signum = map (\<lambda>i. of_nat (h div 256 ^ i)) [0..<8] @ map (\<lambda>i. of_int (signum div 256 ^ i)) [0..<4] @ [0, 0, 0, 0]"

definition uv__signal_msg_t :: "u8 list \<Rightarrow> addr \<times> int" where
  "uv__signal_msg_t buf = (horner_sum unat 256 (take 8 buf), signed_take_bit 31 (horner_sum uint 256 (take 4 (drop 8 buf))))"

section \<open>The lock\<close>

definition uv__signal_lock :: "'a gloop_scheme \<Rightarrow> (int \<times> 'a gloop_scheme) option" where
  "uv__signal_lock s = do {
     (r, s) \<leftarrow> eintr_loop (Read (fst (signal_lock_pipefd s)) 1) s;
     Some (if r_ret r < 0 then - 1 else 0, s)
   }"

definition uv__signal_unlock :: "'a gloop_scheme \<Rightarrow> (int \<times> 'a gloop_scheme) option" where
  "uv__signal_unlock s = do {
     (r, s) \<leftarrow> eintr_loop (Write (snd (signal_lock_pipefd s)) [42]) s;
     Some (if r_ret r < 0 then - 1 else 0, s)
   }"

definition uv__signal_global_init :: "'a gloop_scheme \<Rightarrow> 'a gloop_scheme option" where
  "uv__signal_global_init s = do {
     (res, s) \<leftarrow> uv__make_pipe 0 s;
     case res of
       Inl err \<Rightarrow> None
     | Inr fdp \<Rightarrow> do {
         (r, s) \<leftarrow> uv__signal_unlock (s\<lparr>signal_lock_pipefd := (fdp ! 0, fdp ! 1)\<rparr>);
         require (r = 0);
         Some s
       }
   }"

text \<open>\<open>uv_once\<close>: the first call runs the function.\<close>

definition uv__signal_global_once_init :: "'a gloop_scheme \<Rightarrow> 'a gloop_scheme option" where
  "uv__signal_global_once_init s =
     (if statics s ''uv__signal_global_init_guard'' then Some s
      else uv__signal_global_init (set_static ''uv__signal_global_init_guard'' s))"

definition uv__signal_block_and_lock :: "'a gloop_scheme \<Rightarrow> 'a gloop_scheme option" where
  "uv__signal_block_and_lock s = do {
     (r, s) \<leftarrow> syscall Pthread_sigmask s;
     require (r_ret r = 0);
     (r, s) \<leftarrow> uv__signal_lock s;
     require (r = 0);
     Some s
   }"

definition uv__signal_unlock_and_unblock :: "'a gloop_scheme \<Rightarrow> 'a gloop_scheme option" where
  "uv__signal_unlock_and_unblock s = do {
     (r, s) \<leftarrow> uv__signal_unlock s;
     require (r = 0);
     (r, s) \<leftarrow> syscall Pthread_sigmask s;
     require (r_ret r = 0);
     Some s
   }"

section \<open>The tree and the handler\<close>

definition uv__signal_key :: "'a gloop_scheme \<Rightarrow> addr \<Rightarrow> int \<times> addr" where
  "uv__signal_key s h = (signum_of s h, h)"

definition tree_insert :: "addr \<Rightarrow> 'a gloop_scheme \<Rightarrow> 'a gloop_scheme" where
  "tree_insert h s = s\<lparr>signal_tree := insort_key (uv__signal_key s) h (signal_tree s)\<rparr>"

text \<open>\<open>RB_NFIND\<close> from \<open>signum\<close> and no loop, and the handles that \<open>RB_NEXT\<close> gives from there on.\<close>

definition tree_from :: "int \<Rightarrow> 'a gloop_scheme \<Rightarrow> addr list" where
  "tree_from signum s = dropWhile (\<lambda>h. signum_of s h < signum) (signal_tree s)"

definition uv__signal_first_handle :: "int \<Rightarrow> 'a gloop_scheme \<Rightarrow> ptr" where
  "uv__signal_first_handle signum s =
     (case tree_from signum s of [] \<Rightarrow> None | h # _ \<Rightarrow> if signum_of s h = signum then Some h else None)"

fun handler_loop :: "addr list \<Rightarrow> int \<Rightarrow> 'a gloop_scheme \<Rightarrow> 'a gloop_scheme option" where
  "handler_loop [] signum s = Some s"
| "handler_loop (h # hs) signum s =
     (if signum_of s h \<noteq> signum then Some s
      else do {
        (r, s) \<leftarrow> eintr_loop (Write (snd (signal_pipefd s)) (signal_msg_bytes h signum)) s;
        require (r_ret r = 16 \<or> r_ret r = - 1 \<and> (errno s = EAGAIN \<or> errno s = EWOULDBLOCK));
        handler_loop hs signum (if r_ret r \<noteq> - 1 then upd_signal h (\<lambda>g. g\<lparr>sg_caught := sg_caught g + 1\<rparr>) s else s)
      })"

definition uv__signal_handler :: "int \<Rightarrow> 'a gloop_scheme \<Rightarrow> 'a gloop_scheme option" where
  "uv__signal_handler signum s = do {
     let saved_errno = errno s;
     (r, s) \<leftarrow> uv__signal_lock s;
     if r \<noteq> 0 then Some (s\<lparr>errno := saved_errno\<rparr>)
     else do {
       s \<leftarrow> handler_loop (tree_from signum s) signum s;
       (_, s) \<leftarrow> uv__signal_unlock s;
       Some (s\<lparr>errno := saved_errno\<rparr>)
     }
   }"

definition uv__signal_register_handler :: "int \<Rightarrow> 'a gloop_scheme \<Rightarrow> (int \<times> 'a gloop_scheme) option" where
  "uv__signal_register_handler signum s = do {
     (r, s) \<leftarrow> syscall (Sigaction signum 1) s;
     Some (if r_ret r \<noteq> 0 then - errno s else 0, s)
   }"

definition uv__signal_unregister_handler :: "int \<Rightarrow> 'a gloop_scheme \<Rightarrow> 'a gloop_scheme option" where
  "uv__signal_unregister_handler signum s = do {
     (r, s) \<leftarrow> syscall (Sigaction signum SIG_DFL) s;
     require (r_ret r = 0);
     Some s
   }"

section \<open>Starting and stopping\<close>

definition uv__signal_stop :: "addr \<Rightarrow> 'a gloop_scheme \<Rightarrow> 'a gloop_scheme option" where
  "uv__signal_stop h s =
     (if signum_of s h = 0 then Some s
      else do {
        s \<leftarrow> uv__signal_block_and_lock s;
        require (h \<in> set (signal_tree s));
        let s = s\<lparr>signal_tree := remove1 h (signal_tree s)\<rparr>;
        s \<leftarrow> (if uv__signal_first_handle (signum_of s h) s = None then uv__signal_unregister_handler (signum_of s h) s else Some s);
        s \<leftarrow> uv__signal_unlock_and_unblock s;
        Some (uv__handle_stop h (upd_signal h (\<lambda>g. g\<lparr>sg_signum := 0\<rparr>) s))
      })"

definition uv_signal_stop :: "addr \<Rightarrow> 'a gloop_scheme \<Rightarrow> (int \<times> 'a gloop_scheme) option" where
  "uv_signal_stop h s = do {
     require (\<not> uv__is_closing h s);
     s \<leftarrow> uv__signal_stop h s;
     Some (0, s)
   }"

definition uv_signal_start :: "addr \<Rightarrow> bool \<Rightarrow> int \<Rightarrow> 'a gloop_scheme \<Rightarrow> (int \<times> 'a gloop_scheme) option" where
  "uv_signal_start h signal_cb signum s = do {
     require (\<not> uv__is_closing h s);
     if signum = 0 then Some (- EINVAL, s)
     else if signum = signum_of s h then Some (0, upd_signal h (\<lambda>g. g\<lparr>sg_cb := signal_cb\<rparr>) s)
     else do {
       s \<leftarrow> (if signum_of s h \<noteq> 0 then uv__signal_stop h s else Some s);
       s \<leftarrow> uv__signal_block_and_lock s;
       (err, s) \<leftarrow> (if uv__signal_first_handle signum s = None then uv__signal_register_handler signum s else Some (0, s));
       if err \<noteq> 0 then do {
         s \<leftarrow> uv__signal_unlock_and_unblock s;
         Some (err, s)
       } else do {
         let s = tree_insert h (upd_signal h (\<lambda>g. g\<lparr>sg_signum := signum\<rparr>) s);
         s \<leftarrow> uv__signal_unlock_and_unblock s;
         Some (0, uv__handle_start h (upd_signal h (\<lambda>g. g\<lparr>sg_cb := signal_cb\<rparr>) s))
       }
     }
   }"

definition uv__make_close_pending :: "addr \<Rightarrow> 'a loop_scheme \<Rightarrow> 'a loop_scheme option" where
  "uv__make_close_pending h s = do {
     require (has h UV_CLOSING s);
     require (\<not> has h UV_CLOSED s);
     Some (s\<lparr>closing_handles := h # closing_handles s\<rparr>)
   }"

definition uv__signal_close :: "addr \<Rightarrow> 'a gloop_scheme \<Rightarrow> 'a gloop_scheme option" where
  "uv__signal_close h s = do {
     s \<leftarrow> uv__signal_stop h s;
     if sg_caught (signals s h) = sg_dispatched (signals s h) then uv__make_close_pending h s else Some s
   }"

section \<open>The loop's side\<close>

definition uv__signal_loop_once_init :: "'a gloop_scheme \<Rightarrow> (int \<times> 'a gloop_scheme) option" where
  "uv__signal_loop_once_init s =
     (if fst (signal_pipefd s) \<noteq> - 1 then Some (0, s)
      else do {
        (res, s) \<leftarrow> uv__make_pipe O_NONBLOCK s;
        case res of
          Inl err \<Rightarrow> Some (err, s)
        | Inr fdp \<Rightarrow> do {
            let s = s\<lparr>signal_pipefd := (fdp ! 0, fdp ! 1)\<rparr>;
            s \<leftarrow> uv__io_init (signal_io_watcher s) uv__signal_event_cb (fst (signal_pipefd s)) s;
            s \<leftarrow> uv__io_start (signal_io_watcher s) POLLIN s;
            Some (0, s)
          }
      })"

fun stop_signals :: "addr list \<Rightarrow> 'a gloop_scheme \<Rightarrow> 'a gloop_scheme option" where
  "stop_signals [] s = Some s"
| "stop_signals (h # q) s = do {
     s \<leftarrow> (if handle_type h s = UV_SIGNAL then uv__signal_stop h s else Some s);
     stop_signals q s
   }"

definition uv__signal_loop_cleanup :: "'a gloop_scheme \<Rightarrow> 'a gloop_scheme option" where
  "uv__signal_loop_cleanup s = do {
     s \<leftarrow> stop_signals (handle_queue s) s;
     s \<leftarrow> (if fst (signal_pipefd s) \<noteq> - 1 then do {
         (_, s) \<leftarrow> uv__close (fst (signal_pipefd s)) s;
         Some (s\<lparr>signal_pipefd := (- 1, snd (signal_pipefd s))\<rparr>)
       } else Some s);
     if snd (signal_pipefd s) \<noteq> - 1 then do {
       (_, s) \<leftarrow> uv__close (snd (signal_pipefd s)) s;
       Some (s\<lparr>signal_pipefd := (fst (signal_pipefd s), - 1)\<rparr>)
     } else Some s
   }"

definition uv_signal_init :: "addr \<Rightarrow> 'a gloop_scheme \<Rightarrow> (int \<times> 'a gloop_scheme) option" where
  "uv_signal_init h s = do {
     (err, s) \<leftarrow> uv__signal_loop_once_init s;
     if err \<noteq> 0 then Some (err, s)
     else Some (0, upd_signal h (\<lambda>g. g\<lparr>sg_signum := 0, sg_caught := 0, sg_dispatched := 0\<rparr>) (uv__handle_init h UV_SIGNAL s))
   }"

text \<open>One message, and the messages of a buffer.\<close>

definition signal_dispatch ::
    "(callback \<Rightarrow> 'a gloop_scheme \<Rightarrow> 'a gloop_scheme) \<Rightarrow> addr \<Rightarrow> int \<Rightarrow> 'a gloop_scheme \<Rightarrow> 'a gloop_scheme option" where
  "signal_dispatch call h signum s = do {
     s \<leftarrow> (if signum = signum_of s h then do {
         require (\<not> has h UV_CLOSING s);
         require (sg_cb (signals s h));
         Some (invoke call (Signal_cb h (signum_of s h)) s)
       } else Some s);
     let s = upd_signal h (\<lambda>g. g\<lparr>sg_dispatched := sg_dispatched g + 1\<rparr>) s;
     if has h UV_CLOSING s \<and> sg_caught (signals s h) = sg_dispatched (signals s h)
     then uv__make_close_pending h s else Some s
   }"

function signal_messages ::
    "(callback \<Rightarrow> 'a gloop_scheme \<Rightarrow> 'a gloop_scheme) \<Rightarrow> u8 list \<Rightarrow> 'a gloop_scheme \<Rightarrow> 'a gloop_scheme option" where
  "signal_messages call buf s =
     (if length buf < 16 then Some s
      else do {
        s \<leftarrow> signal_dispatch call (fst (uv__signal_msg_t buf)) (snd (uv__signal_msg_t buf)) s;
        signal_messages call (drop 16 buf) s
      })"
  by pat_completeness auto
termination
  by (relation "measure (\<lambda>(call, buf, s). length buf)") auto

declare signal_messages.simps [simp del]

text \<open>
  One pass of the loop.  \<open>continue\<close> jumps to the condition \<open>end == sizeof buf\<close>, so that an interrupted
  call and a message that has come in part end the loop.  The first result is \<open>None\<close> when the
  function has returned.
\<close>

definition signal_round ::
    "(callback \<Rightarrow> 'a gloop_scheme \<Rightarrow> 'a gloop_scheme) \<Rightarrow> u8 list \<Rightarrow> nat \<Rightarrow> 'a gloop_scheme \<Rightarrow>
     ((u8 list \<times> nat) option \<times> 'a gloop_scheme) option" where
  "signal_round call buf e s = do {
     (r, s) \<leftarrow> syscall (Read (fst (signal_pipefd s)) (int (512 - length buf))) s;
     if r_ret r = - 1 \<and> errno s = EINTR then Some (Some (buf, e), s)
     else if r_ret r = - 1 \<and> (errno s = EAGAIN \<or> errno s = EWOULDBLOCK)
     then Some (if buf \<noteq> [] then Some (buf, e) else None, s)
     else do {
       require (r_ret r \<noteq> - 1);
       let buf = buf @ r_bytes r;
       let e = (length buf div 16) * 16;
       s \<leftarrow> signal_messages call (take e buf) s;
       Some (Some (drop e buf, e), s)
     }
   }"

partial_function (option) signal_loop ::
    "(callback \<Rightarrow> 'a gloop_scheme \<Rightarrow> 'a gloop_scheme) \<Rightarrow> u8 list \<Rightarrow> nat \<Rightarrow> 'a gloop_scheme \<Rightarrow> 'a gloop_scheme option" where
  "signal_loop call buf e s =
     (case signal_round call buf e s of
        None \<Rightarrow> None
      | Some p \<Rightarrow> (case fst p of
          None \<Rightarrow> Some (snd p)
        | Some q \<Rightarrow> if snd q = 512 then signal_loop call (fst q) (snd q) (snd p) else Some (snd p)))"

definition uv__signal_event ::
    "(callback \<Rightarrow> 'a gloop_scheme \<Rightarrow> 'a gloop_scheme) \<Rightarrow> 'a gloop_scheme \<Rightarrow> 'a gloop_scheme option" where
  "uv__signal_event call s = signal_loop call [] 0 s"

section \<open>Messages in flight and the close of a handle\<close>

text \<open>
  The loop, and the handler in any thread.  A message is in flight from \<open>write\<close> until the loop has
  counted it, and \<open>ab_current\<close> is the handle whose message is being dispatched; its callback, like
  any other code of the loop, may start, stop and close handles.  A pipe holds 64 kB, and a buffer 32
  messages, so that at most 4128 messages wait.  \<open>ab_pending\<close> are the handles whose close has been
  made pending, the last one first.
\<close>

record sig_abs =
  ab_signum :: "addr \<Rightarrow> int"
  ab_caught :: "addr \<Rightarrow> u32"
  ab_dispatched :: "addr \<Rightarrow> u32"
  ab_pipe :: "(addr \<times> int) list"
  ab_current :: ptr
  ab_closing :: "addr \<Rightarrow> bool"
  ab_pending :: "addr list"

definition pipe_room :: nat where
  "pipe_room = 4096 + 32"

inductive sig_step :: "sig_abs \<Rightarrow> sig_abs \<Rightarrow> bool" where
  sig_start: "\<not> ab_closing s h \<Longrightarrow> n \<noteq> 0 \<Longrightarrow> sig_step s (s\<lparr>ab_signum := (ab_signum s)(h := n)\<rparr>)"
| sig_stop: "sig_step s (s\<lparr>ab_signum := (ab_signum s)(h := 0)\<rparr>)"
| sig_close: "\<not> ab_closing s h \<Longrightarrow>
    sig_step s (s\<lparr>ab_closing := (ab_closing s)(h := True), ab_signum := (ab_signum s)(h := 0),
      ab_pending := (if ab_caught s h = ab_dispatched s h then h # ab_pending s else ab_pending s)\<rparr>)"
| sig_deliver: "ab_signum s h = n \<Longrightarrow> n \<noteq> 0 \<Longrightarrow> length (ab_pipe s) < pipe_room \<Longrightarrow>
    sig_step s (s\<lparr>ab_pipe := ab_pipe s @ [(h, n)], ab_caught := (ab_caught s)(h := ab_caught s h + 1)\<rparr>)"
| sig_take: "ab_current s = None \<Longrightarrow> ab_pipe s = (h, n) # rest \<Longrightarrow>
    sig_step s (s\<lparr>ab_pipe := rest, ab_current := Some h\<rparr>)"
| sig_done: "ab_current s = Some h \<Longrightarrow>
    sig_step s (s\<lparr>ab_current := None, ab_dispatched := (ab_dispatched s)(h := ab_dispatched s h + 1),
      ab_pending := (if ab_closing s h \<and> ab_caught s h = ab_dispatched s h + 1 then h # ab_pending s else ab_pending s)\<rparr>)"

inductive sig_reach :: "sig_abs \<Rightarrow> bool" where
  sig_init: "sig_reach \<lparr>ab_signum = (\<lambda>_. 0), ab_caught = (\<lambda>_. 0), ab_dispatched = (\<lambda>_. 0), ab_pipe = [],
    ab_current = None, ab_closing = (\<lambda>_. False), ab_pending = []\<rparr>"
| sig_next: "sig_reach s \<Longrightarrow> sig_step s t \<Longrightarrow> sig_reach t"

inductive_cases sig_stepE: "sig_step s t"

definition in_flight :: "sig_abs \<Rightarrow> addr \<Rightarrow> nat" where
  "in_flight s h = length (filter (\<lambda>m. fst m = h) (ab_pipe s)) + (if ab_current s = Some h then 1 else 0)"

definition sig_ok :: "sig_abs \<Rightarrow> bool" where
  "sig_ok s \<longleftrightarrow> length (ab_pipe s) \<le> pipe_room \<and> distinct (ab_pending s)
     \<and> (\<forall>h. ab_caught s h - ab_dispatched s h = of_nat (in_flight s h)
        \<and> (ab_closing s h \<longrightarrow> ab_signum s h = 0)
        \<and> (h \<in> set (ab_pending s) \<longleftrightarrow> ab_closing s h \<and> in_flight s h = 0))"

lemma in_flight_small: "sig_ok s \<Longrightarrow> in_flight s h \<le> pipe_room + 1"
proof -
  assume "sig_ok s"
  then have "length (filter (\<lambda>m. fst m = h) (ab_pipe s)) \<le> pipe_room"
    unfolding sig_ok_def using length_filter_le order_trans by blast
  then show ?thesis by (simp add: in_flight_def)
qed

lemma small_word: "n \<le> pipe_room + 1 \<Longrightarrow> m \<le> pipe_room + 1 \<Longrightarrow> (of_nat n :: u32) = of_nat m \<longleftrightarrow> n = m"
  by (simp add: pipe_room_def word_unat_eq_iff unat_of_nat take_bit_nat_eq_self)

lemma counts_equal: "sig_ok s \<Longrightarrow> ab_caught s h = ab_dispatched s h \<longleftrightarrow> in_flight s h = 0"
proof -
  assume ok: "sig_ok s"
  then have "ab_caught s h - ab_dispatched s h = of_nat (in_flight s h)" by (simp add: sig_ok_def)
  moreover have "(of_nat (in_flight s h) :: u32) = of_nat 0 \<longleftrightarrow> in_flight s h = 0"
    using in_flight_small [OF ok] by (intro small_word) simp_all
  moreover have "ab_caught s h = ab_dispatched s h \<longleftrightarrow> ab_caught s h - ab_dispatched s h = 0" by simp
  ultimately show ?thesis by simp
qed

lemma sig_step_ok:
  assumes "sig_step s t" "sig_ok s"
  shows "sig_ok t"
  using assms(1)
proof cases
  case (sig_start h n)
  then show ?thesis using assms(2) by (auto simp: sig_ok_def in_flight_def)
next
  case (sig_stop h)
  then show ?thesis using assms(2) by (auto simp: sig_ok_def in_flight_def)
next
  case (sig_close h)
  have f: "in_flight t k = in_flight s k" for k using sig_close by (simp add: in_flight_def)
  have "h \<notin> set (ab_pending s)" using assms(2) sig_close by (auto simp: sig_ok_def)
  then show ?thesis using assms(2) counts_equal [OF assms(2), of h] sig_close f unfolding sig_ok_def by auto
next
  case (sig_deliver h n)
  have f: "in_flight t k = in_flight s k + (if k = h then 1 else 0)" for k using sig_deliver by (simp add: in_flight_def)
  have "\<not> ab_closing s h" using assms(2) sig_deliver by (auto simp: sig_ok_def)
  then show ?thesis using assms(2) sig_deliver f unfolding sig_ok_def by (auto simp: algebra_simps)
next
  case (sig_take h n rest)
  have f: "in_flight t k = in_flight s k" for k using sig_take by (simp add: in_flight_def)
  then show ?thesis using assms(2) sig_take unfolding sig_ok_def by auto
next
  case (sig_done h)
  have f: "in_flight t k = in_flight s k - (if k = h then 1 else 0)" "in_flight s h > 0" for k
    using sig_done by (simp_all add: in_flight_def)
  have d: "ab_caught s h - ab_dispatched s h = of_nat (in_flight s h)" using assms(2) by (simp add: sig_ok_def)
  have "ab_caught s h = ab_dispatched s h + 1 \<longleftrightarrow> in_flight s h = 1"
  proof -
    have "ab_caught s h = ab_dispatched s h + 1 \<longleftrightarrow> (of_nat (in_flight s h) :: u32) = of_nat 1"
      using d by (auto simp: algebra_simps)
    also have "\<dots> \<longleftrightarrow> in_flight s h = 1" using in_flight_small [OF assms(2)] by (intro small_word) simp_all
    finally show ?thesis .
  qed
  moreover have "h \<notin> set (ab_pending s)" using assms(2) f(2) by (auto simp: sig_ok_def)
  ultimately show ?thesis using assms(2) sig_done f d unfolding sig_ok_def by (auto simp: of_nat_diff algebra_simps)
qed

lemma sig_reach_ok: "sig_reach s \<Longrightarrow> sig_ok s"
proof (induction rule: sig_reach.induct)
  case sig_init
  then show ?case by (simp add: sig_ok_def in_flight_def)
qed (rule sig_step_ok)

text \<open>The state of the code as one of these: \<open>pipe\<close> are the messages in the pipe and the buffer.\<close>

definition is_signal :: "'a gloop_scheme \<Rightarrow> addr \<Rightarrow> bool" where
  "is_signal s h \<longleftrightarrow> handle_type h s = UV_SIGNAL"

definition sig_abs_of :: "'a gloop_scheme \<Rightarrow> (addr \<times> int) list \<Rightarrow> ptr \<Rightarrow> sig_abs" where
  "sig_abs_of s pipe cur = \<lparr>ab_signum = signum_of s, ab_caught = (\<lambda>h. sg_caught (signals s h)),
     ab_dispatched = (\<lambda>h. sg_dispatched (signals s h)), ab_pipe = pipe, ab_current = cur,
     ab_closing = (\<lambda>h. is_signal s h \<and> has h UV_CLOSING s), ab_pending = filter (is_signal s) (closing_handles s)\<rparr>"

definition sig_same :: "'a gloop_scheme \<Rightarrow> 'a gloop_scheme \<Rightarrow> bool" where
  "sig_same s t \<longleftrightarrow> signals t = signals s \<and> hnd t = hnd s \<and> closing_handles t = closing_handles s \<and> signal_tree t = signal_tree s"

lemma sig_same_abs: "sig_same s t \<Longrightarrow> sig_abs_of t pipe cur = sig_abs_of s pipe cur"
  by (simp add: sig_same_def sig_abs_of_def signum_of_def [abs_def] is_signal_def [abs_def] handle_type_def has_def flags_of_def)

lemma sig_same_refl [simp]: "sig_same s s"
  by (simp add: sig_same_def)

lemma sig_same_trans: "sig_same s t \<Longrightarrow> sig_same t u \<Longrightarrow> sig_same s u"
  by (simp add: sig_same_def)

lemma syscall_sig: "syscall c s = Some (r, t) \<Longrightarrow> sig_same s t"
  by (auto simp: syscall_def sig_same_def split: list.splits)

lemma retry_sig: "retry_while e c s = Some (r, t) \<Longrightarrow> sig_same s t"
  by (auto dest!: retry_while_state simp: sig_same_def)

lemma lock_sig: "uv__signal_lock s = Some (r, t) \<Longrightarrow> sig_same s t" "uv__signal_unlock s = Some (r, t) \<Longrightarrow> sig_same s t"
  by (auto simp: uv__signal_lock_def uv__signal_unlock_def Option.bind_eq_Some_conv dest!: retry_sig)

lemma block_sig:
  "uv__signal_block_and_lock s = Some t \<Longrightarrow> sig_same s t" "uv__signal_unlock_and_unblock s = Some t \<Longrightarrow> sig_same s t"
  by (auto simp: uv__signal_block_and_lock_def uv__signal_unlock_and_unblock_def Option.bind_eq_Some_conv
      dest!: syscall_sig lock_sig intro: sig_same_trans)

lemma unregister_sig: "uv__signal_unregister_handler n s = Some t \<Longrightarrow> sig_same s t"
  by (auto simp: uv__signal_unregister_handler_def Option.bind_eq_Some_conv dest!: syscall_sig)

text \<open>Stopping: only the signal of this handle changes.\<close>

lemma stop_sig:
  assumes "uv__signal_stop h s = Some t"
  shows "signals t = (signals s)(h := (signals s h)\<lparr>sg_signum := 0\<rparr>) \<and> closing_handles t = closing_handles s
    \<and> (\<forall>k. handle_type k t = handle_type k s \<and> has k UV_CLOSING t = has k UV_CLOSING s \<and> has k UV_CLOSED t = has k UV_CLOSED s)"
proof (cases "signum_of s h = 0")
  case True
  then have "(signals s)(h := (signals s h)\<lparr>sg_signum := 0\<rparr>) = signals s" by (simp add: signum_of_def fun_upd_idem)
  then show ?thesis using assms True by (simp add: uv__signal_stop_def)
next
  case False
  with assms obtain u v w where u: "uv__signal_block_and_lock s = Some u"
    "(if uv__signal_first_handle (signum_of (u\<lparr>signal_tree := remove1 h (signal_tree u)\<rparr>) h) (u\<lparr>signal_tree := remove1 h (signal_tree u)\<rparr>) = None
      then uv__signal_unregister_handler (signum_of (u\<lparr>signal_tree := remove1 h (signal_tree u)\<rparr>) h) (u\<lparr>signal_tree := remove1 h (signal_tree u)\<rparr>)
      else Some (u\<lparr>signal_tree := remove1 h (signal_tree u)\<rparr>)) = Some v"
    "uv__signal_unlock_and_unblock v = Some w" "t = uv__handle_stop h (upd_signal h (\<lambda>g. g\<lparr>sg_signum := 0\<rparr>) w)"
    by (auto simp: uv__signal_stop_def Option.bind_eq_Some_conv Let_def)
  have "sig_same (u\<lparr>signal_tree := remove1 h (signal_tree u)\<rparr>) v" using u(2) by (auto dest: unregister_sig split: if_splits)
  with block_sig(1) [OF u(1)] block_sig(2) [OF u(3)]
  have w: "signals w = signals s" "hnd w = hnd s" "closing_handles w = closing_handles s" by (simp_all add: sig_same_def)
  have "flags_of t k = (if k = h then clear_flag (flags_of s h) UV__HANDLE_ACTIVE else flags_of s k)" for k
    unfolding u(4) handle_ops_flags by (simp add: flags_of_def upd_signal_def w)
  moreover have "handle_type k t = handle_type k s" for k
    using w u(4) by (simp add: handle_type_def uv__handle_stop_def upd_flags_def uv__active_handle_rm_def upd_signal_def Let_def)
  moreover have "signals t = (signals s)(h := (signals s h)\<lparr>sg_signum := 0\<rparr>)"
    using w u(4) by (simp add: uv__handle_stop_def upd_flags_def uv__active_handle_rm_def upd_signal_def Let_def)
  moreover have "closing_handles t = closing_handles s" using w u(4) by (simp add: upd_signal_def)
  ultimately show ?thesis by (simp add: has_def flag_simps)
qed

lemma pending_abs:
  assumes "uv__make_close_pending h s = Some t"
  shows "sig_abs_of t pipe cur = (sig_abs_of s pipe cur)\<lparr>ab_pending := (if is_signal s h then [h] else []) @ ab_pending (sig_abs_of s pipe cur)\<rparr>"
  using assms by (auto simp: uv__make_close_pending_def sig_abs_of_def signum_of_def [abs_def] is_signal_def [abs_def] handle_type_def
      has_def flags_of_def)

lemma upd_signal_simps [simp]:
  "signals (upd_signal h f s) = (signals s)(h := f (signals s h))" "closing_handles (upd_signal h f s) = closing_handles s"
  "handle_type k (upd_signal h f s) = handle_type k s" "has k flag (upd_signal h f s) = has k flag s" "hnd (upd_signal h f s) = hnd s"
  by (simp_all add: upd_signal_def handle_type_def has_def flags_of_def)

text \<open>Closing a handle is one step.\<close>

lemma close_step:
  assumes t: "uv__signal_close h (set_flags h UV_CLOSING s) = Some t" and h: "is_signal s h" "\<not> has h UV_CLOSING s"
  shows "sig_step (sig_abs_of s pipe cur) (sig_abs_of t pipe cur)"
proof -
  let ?u = "set_flags h UV_CLOSING s"
  obtain v where v: "uv__signal_stop h ?u = Some v" "(if sg_caught (signals v h) = sg_dispatched (signals v h)
      then uv__make_close_pending h v else Some v) = Some t"
    using t by (auto simp: uv__signal_close_def Option.bind_eq_Some_conv)
  have u: "signals ?u = signals s" "closing_handles ?u = closing_handles s" "handle_type k ?u = handle_type k s"
    "has k UV_CLOSING ?u = (k = h \<or> has k UV_CLOSING s)" for k
    by (auto simp: set_flags_def upd_flags_def handle_type_def has_def flags_of_def flag_simps)
  note stop = stop_sig [OF v(1), unfolded u]
  have v_abs: "sig_abs_of v pipe cur = (sig_abs_of s pipe cur)\<lparr>ab_closing := (ab_closing (sig_abs_of s pipe cur))(h := True),
      ab_signum := (ab_signum (sig_abs_of s pipe cur))(h := 0)\<rparr>"
    using stop h by (auto simp: sig_abs_of_def signum_of_def fun_eq_iff is_signal_def [abs_def])
  have "sig_step (sig_abs_of s pipe cur) ((sig_abs_of v pipe cur)\<lparr>ab_pending := (if sg_caught (signals s h) = sg_dispatched (signals s h)
      then h # ab_pending (sig_abs_of s pipe cur) else ab_pending (sig_abs_of s pipe cur))\<rparr>)"
    using sig_close [of "sig_abs_of s pipe cur" h] h unfolding v_abs by (simp add: sig_abs_of_def)
  note step = this
  have h': "is_signal v h" using stop h(1) by (simp add: is_signal_def)
  have same: "sg_caught (signals v h) = sg_caught (signals s h)" "sg_dispatched (signals v h) = sg_dispatched (signals s h)"
    "ab_pending (sig_abs_of v pipe cur) = ab_pending (sig_abs_of s pipe cur)"
    using stop by (simp_all add: v_abs)
  show ?thesis
  proof (cases "sg_caught (signals s h) = sg_dispatched (signals s h)")
    case True
    then have "uv__make_close_pending h v = Some t" using v(2) same by simp
    from pending_abs [OF this, of pipe cur] step True same h' show ?thesis by simp
  next
    case False
    have "a\<lparr>ab_pending := ab_pending a\<rparr> = a" for a :: sig_abs by simp
    note idem = this [of "sig_abs_of v pipe cur", unfolded same(3)]
    show ?thesis using step v(2) same False by (simp add: idem)
  qed
qed

text \<open>Dispatching a message: it is taken, its callback makes steps, and it is counted.\<close>

lemma dispatch_steps:
  assumes t: "signal_dispatch call h n s = Some t" and h: "is_signal s h"
    and call: "\<And>c u. sig_step\<^sup>*\<^sup>* (sig_abs_of u pipe (Some h)) (sig_abs_of (call c u) pipe (Some h))"
      "\<And>c u. is_signal (call c u) h = is_signal u h"
  shows "sig_step\<^sup>*\<^sup>* (sig_abs_of s ((h, n) # pipe) None) (sig_abs_of t pipe None)"
proof -
  define v where "v = (if n = signum_of s h then invoke call (Signal_cb h n) s else s)"
  have v: "v = s \<or> v = invoke call (Signal_cb h n) s"
    "(let s = upd_signal h (\<lambda>g. g\<lparr>sg_dispatched := sg_dispatched g + 1\<rparr>) v in
      if has h UV_CLOSING s \<and> sg_caught (signals s h) = sg_dispatched (signals s h) then uv__make_close_pending h s else Some s) = Some t"
    using t by (auto simp: v_def signal_dispatch_def simp del: upd_signal_simps split: if_splits)
  have "sig_step (sig_abs_of s ((h, n) # pipe) None) (sig_abs_of s pipe (Some h))"
    using sig_take [of "sig_abs_of s ((h, n) # pipe) None" h n pipe] by (simp add: sig_abs_of_def)
  moreover have "sig_step\<^sup>*\<^sup>* (sig_abs_of s pipe (Some h)) (sig_abs_of v pipe (Some h))" "is_signal v h"
  proof -
    let ?u = "s\<lparr>trace := trace s @ [Signal_cb h n]\<rparr>"
    have "sig_abs_of ?u pipe (Some h) = sig_abs_of s pipe (Some h)" by (rule sig_same_abs) (simp add: sig_same_def)
    then show "sig_step\<^sup>*\<^sup>* (sig_abs_of s pipe (Some h)) (sig_abs_of v pipe (Some h))"
      using v(1) call(1) [of ?u "Signal_cb h n"] by (auto simp: invoke_def)
    show "is_signal v h" using v(1) h call(2) [of "Signal_cb h n" ?u] by (auto simp: invoke_def is_signal_def handle_type_def)
  qed
  moreover have "sig_step (sig_abs_of v pipe (Some h)) (sig_abs_of t pipe None)"
  proof -
    let ?w = "upd_signal h (\<lambda>g. g\<lparr>sg_dispatched := sg_dispatched g + 1\<rparr>) v"
    let ?c = "sg_caught (signals v h) = sg_dispatched (signals v h) + 1"
    have w: "sig_abs_of ?w pipe None = (sig_abs_of v pipe (Some h))\<lparr>ab_current := None,
        ab_dispatched := (ab_dispatched (sig_abs_of v pipe (Some h)))(h := ab_dispatched (sig_abs_of v pipe (Some h)) h + 1)\<rparr>"
      by (auto simp: sig_abs_of_def signum_of_def fun_eq_iff is_signal_def [abs_def])
    have s: "is_signal ?w h" using \<open>is_signal v h\<close> by (simp add: is_signal_def)
    have "sig_abs_of t pipe None = (sig_abs_of ?w pipe None)\<lparr>ab_pending :=
        (if has h UV_CLOSING v \<and> ?c then h # ab_pending (sig_abs_of v pipe (Some h)) else ab_pending (sig_abs_of v pipe (Some h)))\<rparr>"
      using v(2) pending_abs [of h ?w t pipe None] s w by (auto simp: Let_def split: if_splits)
    then show ?thesis using sig_done [of "sig_abs_of v pipe (Some h)" h] \<open>is_signal v h\<close> unfolding w by (simp add: sig_abs_of_def)
  qed
  ultimately show ?thesis by (meson converse_rtranclp_into_rtranclp rtranclp.rtrancl_into_rtrancl)
qed

text \<open>
  The handler writes messages, the bytes \<open>sent\<close>, for handles of the signal, in the order of the tree, and it counts
  exactly the messages that it writes.  If no call fails, every handle of the signal gets one.
\<close>

definition messages_bytes :: "(addr \<times> int) list \<Rightarrow> u8 list" where
  "messages_bytes msgs = concat (map (\<lambda>m. signal_msg_bytes (fst m) (snd m)) msgs)"

lemma messages_bytes_simps [simp]:
  "messages_bytes [] = []" "messages_bytes (m # msgs) = signal_msg_bytes (fst m) (snd m) @ messages_bytes msgs"
  by (simp_all add: messages_bytes_def)

definition sends :: "int \<Rightarrow> (addr \<times> int) list \<Rightarrow> (addr \<times> int) list \<Rightarrow> 'a kern_scheme \<Rightarrow> 'a kern_scheme \<Rightarrow> bool" where
  "sends fd msgs all s t \<longleftrightarrow> (\<exists>calls. syscalls t = syscalls s @ calls
     \<and> wrote fd calls = messages_bytes msgs \<and> subseq msgs all \<and> ((\<forall>e \<in> set calls. snd e \<ge> 0) \<longrightarrow> msgs = all))"

lemma wrote_Cons: "wrote fd (e # calls) = took fd e @ wrote fd calls"
  by (simp add: wrote_def)

lemma length_signal_msg: "length (signal_msg_bytes h n) = 16"
  by (simp add: signal_msg_bytes_def)

lemma handler_steps:
  assumes "n \<noteq> 0"
  shows "handler_loop hs n s = Some t \<Longrightarrow> \<exists>msgs.
    sends (snd (signal_pipefd s)) msgs (map (\<lambda>h. (h, n)) (takeWhile (\<lambda>h. signum_of s h = n) hs)) s t
    \<and> (length (pipe @ msgs) \<le> pipe_room \<longrightarrow> sig_step\<^sup>*\<^sup>* (sig_abs_of s pipe cur) (sig_abs_of t (pipe @ msgs) cur))
    \<and> signal_lock_pipefd t = signal_lock_pipefd s"
proof (induction hs arbitrary: s pipe)
  case Nil
  then show ?case by (intro exI [of _ "[]"]) (simp add: sends_def wrote_def)
next
  case (Cons h hs)
  show ?case
  proof (cases "signum_of s h = n")
    case False
    then show ?thesis using Cons.prems by (intro exI [of _ "[]"]) (simp add: sends_def wrote_def)
  next
    case True
    let ?fd = "snd (signal_pipefd s)"
    let ?c = "Write ?fd (signal_msg_bytes h n)"
    from Cons.prems True obtain r u where u: "eintr_loop ?c s = Some (r, u)" "r_ret r = 16 \<or> r_ret r = - 1"
      "handler_loop hs n (if r_ret r \<noteq> - 1 then upd_signal h (\<lambda>g. g\<lparr>sg_caught := sg_caught g + 1\<rparr>) u else u) = Some t"
      by (auto simp: Option.bind_eq_Some_conv require_def split: if_splits)
    let ?v = "if r_ret r \<noteq> - 1 then upd_signal h (\<lambda>g. g\<lparr>sg_caught := sg_caught g + 1\<rparr>) u else u"
    let ?m = "if r_ret r \<noteq> - 1 then [(h, n)] else []"
    have same: "sig_same s u" using retry_sig [OF u(1)] .
    from retry_while_state [OF u(1)] obtain k rs en where
      log: "u = s\<lparr>replies := rs, syscalls := syscalls s @ replicate k (?c, - 1) @ [(?c, r_ret r)], errno := en\<rparr>" by auto
    have v: "syscalls ?v = syscalls s @ replicate k (?c, - 1) @ [(?c, r_ret r)]" "signal_pipefd ?v = signal_pipefd s"
      "signal_lock_pipefd ?v = signal_lock_pipefd s"
      by (simp_all add: log upd_signal_def)
    have sg: "signum_of ?v = signum_of s" using same by (auto simp: signum_of_def sig_same_def fun_eq_iff)
    from Cons.IH [OF u(3), of "pipe @ ?m"] obtain msgs where msgs:
      "sends ?fd msgs (map (\<lambda>h. (h, n)) (takeWhile (\<lambda>h. signum_of s h = n) hs)) ?v t"
      "length ((pipe @ ?m) @ msgs) \<le> pipe_room \<longrightarrow> sig_step\<^sup>*\<^sup>* (sig_abs_of ?v (pipe @ ?m) cur) (sig_abs_of t ((pipe @ ?m) @ msgs) cur)"
      "signal_lock_pipefd t = signal_lock_pipefd s"
      unfolding sg v(2,3) by blast
    have "sig_step\<^sup>*\<^sup>* (sig_abs_of s pipe cur) (sig_abs_of ?v (pipe @ ?m) cur)" if room: "length (pipe @ ?m @ msgs) \<le> pipe_room"
    proof (cases "r_ret r = - 1")
      case no: True
      then show ?thesis using sig_same_abs [OF same] by simp
    next
      case yes: False
      have "sig_abs_of ?v (pipe @ [(h, n)]) cur = (sig_abs_of s pipe cur)\<lparr>ab_pipe := pipe @ [(h, n)],
          ab_caught := (ab_caught (sig_abs_of s pipe cur))(h := ab_caught (sig_abs_of s pipe cur) h + 1)\<rparr>"
        using yes same by (auto simp: sig_abs_of_def sig_same_def signum_of_def fun_eq_iff is_signal_def [abs_def] handle_type_def
            has_def flags_of_def upd_signal_def)
      then show ?thesis using sig_deliver [of "sig_abs_of s pipe cur" h n] True assms room yes by (auto simp: sig_abs_of_def)
    qed
    then have "length (pipe @ ?m @ msgs) \<le> pipe_room \<longrightarrow> sig_step\<^sup>*\<^sup>* (sig_abs_of s pipe cur) (sig_abs_of t (pipe @ ?m @ msgs) cur)"
      using msgs(2) by (auto intro: rtranclp_trans)
    moreover have "sends ?fd (?m @ msgs) (map (\<lambda>h. (h, n)) (takeWhile (\<lambda>h. signum_of s h = n) (h # hs))) s t"
    proof -
      let ?done = "replicate k (?c, - 1) @ [(?c, r_ret r)]"
      from msgs(1) obtain calls where calls: "syscalls t = syscalls ?v @ calls" "wrote ?fd calls = messages_bytes msgs"
        "subseq msgs (map (\<lambda>h. (h, n)) (takeWhile (\<lambda>h. signum_of s h = n) hs))"
        "(\<forall>e \<in> set calls. snd e \<ge> 0) \<longrightarrow> msgs = map (\<lambda>h. (h, n)) (takeWhile (\<lambda>h. signum_of s h = n) hs)"
        by (auto simp: sends_def)
      have "syscalls t = syscalls s @ ?done @ calls" using calls(1) v(1) by simp
      moreover have "wrote ?fd (?done @ calls) = messages_bytes (?m @ msgs)"
        using u(2) calls(2) by (auto simp: wrote_Cons took_def length_signal_msg)
      moreover have "(\<forall>e \<in> set (?done @ calls). snd e \<ge> 0) \<longrightarrow> ?m @ msgs = map (\<lambda>h. (h, n)) (takeWhile (\<lambda>h. signum_of s h = n) (h # hs))"
        using calls(4) True by auto
      ultimately show ?thesis using calls(3) True unfolding sends_def by (intro exI [of _ "?done @ calls"]) auto
    qed
    ultimately show ?thesis using msgs(3) by blast
  qed
qed

lemma sorted_group:
  fixes f :: "'b \<Rightarrow> int"
  assumes "sorted (map f xs)"
  shows "takeWhile (\<lambda>x. f x = n) (dropWhile (\<lambda>x. f x < n) xs) = filter (\<lambda>x. f x = n) xs"
  using assms
proof (induction xs)
  case (Cons x xs)
  show ?case
  proof (cases "f x = n")
    case True
    have "dropWhile (\<lambda>x. f x < n) xs = xs" using Cons.prems True by (cases xs) auto
    then show ?thesis using Cons True by simp
  next
    case False
    show ?thesis
    proof (cases "f x < n")
      case True
      then show ?thesis using Cons False by simp
    next
      case above: False
      then have "filter (\<lambda>x. f x = n) xs = []" using Cons.prems False by (auto simp: filter_empty_conv)
      then show ?thesis using False above by simp
    qed
  qed
qed simp

lemma lock_log:
  assumes "uv__signal_lock s = Some (r, t)" "fst (signal_lock_pipefd s) \<noteq> fd"
  shows "\<exists>calls. syscalls t = syscalls s @ calls \<and> wrote fd calls = [] \<and> (r \<noteq> 0 \<longrightarrow> \<not> (\<forall>e \<in> set calls. snd e \<ge> 0))
    \<and> signal_pipefd t = signal_pipefd s \<and> signal_lock_pipefd t = signal_lock_pipefd s"
proof -
  from assms(1) obtain q where q: "eintr_loop (Read (fst (signal_lock_pipefd s)) 1) s = Some (q, t)" "r = (if r_ret q < 0 then - 1 else 0)"
    by (auto simp: uv__signal_lock_def Option.bind_eq_Some_conv)
  from retry_while_state [OF q(1)] q(2) show ?thesis by (auto simp: wrote_one took_def split: if_splits)
qed

lemma unlock_log:
  assumes "uv__signal_unlock s = Some (r, t)" "snd (signal_lock_pipefd s) \<noteq> fd"
  shows "\<exists>calls. syscalls t = syscalls s @ calls \<and> wrote fd calls = []"
proof -
  from assms(1) obtain q where q: "eintr_loop (Write (snd (signal_lock_pipefd s)) [42]) s = Some (q, t)"
    by (auto simp: uv__signal_unlock_def Option.bind_eq_Some_conv)
  from retry_while_state [OF q] assms(2) show ?thesis by (auto simp: wrote_one took_def)
qed

text \<open>The handler: what it sends are the messages that its steps append to the pipe.\<close>

lemma signal_handler_steps:
  assumes "n \<noteq> 0" and sorted: "sorted (map (signum_of s) (signal_tree s))"
    and fd: "fst (signal_lock_pipefd s) \<noteq> snd (signal_pipefd s)" "snd (signal_lock_pipefd s) \<noteq> snd (signal_pipefd s)"
    and run: "uv__signal_handler n s = Some t"
  shows "\<exists>msgs. sends (snd (signal_pipefd s)) msgs (map (\<lambda>h. (h, n)) (filter (\<lambda>h. signum_of s h = n) (signal_tree s))) s t
    \<and> (length (pipe @ msgs) \<le> pipe_room \<longrightarrow> sig_step\<^sup>*\<^sup>* (sig_abs_of s pipe cur) (sig_abs_of t (pipe @ msgs) cur))"
proof -
  let ?fd = "snd (signal_pipefd s)" and ?all = "map (\<lambda>h. (h, n)) (filter (\<lambda>h. signum_of s h = n) (signal_tree s))"
  obtain r u where u: "uv__signal_lock s = Some (r, u)" "(if r \<noteq> 0 then Some (u\<lparr>errno := errno s\<rparr>) else do {
     v \<leftarrow> handler_loop (tree_from n u) n u;
     (_, w) \<leftarrow> uv__signal_unlock v;
     Some (w\<lparr>errno := errno s\<rparr>) }) = Some t"
    using run by (auto simp: uv__signal_handler_def Let_def Option.bind_eq_Some_conv)
  have su: "sig_same s u" using lock_sig(1) [OF u(1)] .
  have err: "sig_same w (w\<lparr>errno := e\<rparr>)" for w :: "'a gloop_scheme" and e by (simp add: sig_same_def)
  from lock_log [OF u(1) fd(1)] obtain c1 where c1: "syscalls u = syscalls s @ c1" "wrote ?fd c1 = []"
    "r \<noteq> 0 \<longrightarrow> \<not> (\<forall>e \<in> set c1. snd e \<ge> 0)" "signal_pipefd u = signal_pipefd s" "signal_lock_pipefd u = signal_lock_pipefd s" by blast
  show ?thesis
  proof (cases "r = 0")
    case False
    then have "sig_same s t" "sends ?fd [] ?all s t" using u(2) su sig_same_trans [OF su err] c1 by (auto simp: sends_def)
    then show ?thesis by (intro exI [of _ "[]"]) (simp add: sig_same_abs)
  next
    case True
    with u(2) obtain v x w where v: "handler_loop (tree_from n u) n u = Some v" "uv__signal_unlock v = Some (x, w)" "t = w\<lparr>errno := errno s\<rparr>"
      by (auto simp: Option.bind_eq_Some_conv)
    have sg: "signum_of u = signum_of s" using su by (auto simp: sig_same_def signum_of_def fun_eq_iff)
    have "takeWhile (\<lambda>h. signum_of s h = n) (tree_from n u) = filter (\<lambda>h. signum_of s h = n) (signal_tree s)"
      using sorted_group [OF sorted, of n] su by (simp add: tree_from_def sg sig_same_def)
    with handler_steps [OF assms(1) v(1), of pipe cur] obtain msgs where m: "sends ?fd msgs ?all u v" "signal_lock_pipefd v = signal_lock_pipefd s"
      "length (pipe @ msgs) \<le> pipe_room \<longrightarrow> sig_step\<^sup>*\<^sup>* (sig_abs_of u pipe cur) (sig_abs_of v (pipe @ msgs) cur)"
      unfolding sg c1(4,5) by auto
    from m(1) obtain c2 where c2: "syscalls v = syscalls u @ c2" "wrote ?fd c2 = messages_bytes msgs" "subseq msgs ?all"
      "(\<forall>e \<in> set c2. snd e \<ge> 0) \<longrightarrow> msgs = ?all" by (auto simp: sends_def)
    from unlock_log [OF v(2), of ?fd] fd(2) m(2) obtain c3 where c3: "syscalls w = syscalls v @ c3" "wrote ?fd c3 = []" by auto
    have "sends ?fd msgs ?all s t"
      using c1 c2 c3 v(3) unfolding sends_def by (intro exI [of _ "c1 @ c2 @ c3"]) auto
    moreover have "sig_same v t" using lock_sig(2) [OF v(2)] sig_same_trans [OF _ err] v(3) by simp
    ultimately show ?thesis using m(3) sig_same_abs [OF su] sig_same_abs [of v t] by (intro exI [of _ msgs]) simp
  qed
qed

text \<open>Starting and stopping a handle.\<close>

lemma stop_step:
  assumes "uv_signal_stop h s = Some (r, t)"
  shows "r = 0 \<and> signum_of t h = 0 \<and> sig_step (sig_abs_of s pipe cur) (sig_abs_of t pipe cur)"
proof -
  from assms have u: "uv__signal_stop h s = Some t" "r = 0" by (auto simp: uv_signal_stop_def Option.bind_eq_Some_conv)
  have "sig_abs_of t pipe cur = (sig_abs_of s pipe cur)\<lparr>ab_signum := (ab_signum (sig_abs_of s pipe cur))(h := 0)\<rparr>"
    using stop_sig [OF u(1)] by (auto simp: sig_abs_of_def signum_of_def fun_eq_iff is_signal_def [abs_def])
  then show ?thesis using sig_stop [of "sig_abs_of s pipe cur" h] u(2) stop_sig [OF u(1)] by (simp add: signum_of_def)
qed

lemma not_closing: "\<not> uv__is_closing h s \<Longrightarrow> \<not> has h UV_CLOSING s"
proof -
  have "f AND UV_CLOSING = (f AND (UV_CLOSING OR UV_CLOSED)) AND UV_CLOSING" for f :: u32
    by (rule bit_word_eqI) (auto simp: bit_simps)
  from this [of "flags_of s h"] show "\<not> uv__is_closing h s \<Longrightarrow> \<not> has h UV_CLOSING s"
    by (simp add: uv__is_closing_def has_def has_flag_def)
qed

lemma start_steps:
  assumes run: "uv_signal_start h cb n s = Some (r, t)"
  shows "sig_step\<^sup>*\<^sup>* (sig_abs_of s pipe cur) (sig_abs_of t pipe cur) \<and> (r = 0 \<longrightarrow> signum_of t h = n)"
proof -
  have closing: "\<not> has h UV_CLOSING s" using run
    by (intro not_closing) (auto simp: uv_signal_start_def require_def split: if_splits)
  have step: "sig_step (sig_abs_of v pipe cur) ((sig_abs_of v pipe cur)\<lparr>ab_signum := (ab_signum (sig_abs_of v pipe cur))(h := n)\<rparr>)"
    if "\<not> has h UV_CLOSING v" "n \<noteq> 0" for v :: "'a gloop_scheme" using that by (intro sig_start) (simp_all add: sig_abs_of_def)
  show ?thesis
  proof (cases "n = 0 \<or> n = signum_of s h")
    case True
    then have "sig_abs_of t pipe cur = sig_abs_of s pipe cur \<and> (r = 0 \<longrightarrow> signum_of t h = n)"
      using run by (auto simp: uv_signal_start_def sig_abs_of_def signum_of_def fun_eq_iff is_signal_def [abs_def] split: if_splits)
    then show ?thesis by simp
  next
    case False
    with run obtain v a e b where new: "n \<noteq> 0" "(if signum_of s h \<noteq> 0 then uv__signal_stop h s else Some s) = Some v"
      "uv__signal_block_and_lock v = Some a"
      "(if uv__signal_first_handle n a = None then uv__signal_register_handler n a else Some (0, a)) = Some (e, b)"
      "(if e \<noteq> 0 then Option.bind (uv__signal_unlock_and_unblock b) (\<lambda>s. Some (e, s))
        else Option.bind (uv__signal_unlock_and_unblock (tree_insert h (upd_signal h (\<lambda>g. g\<lparr>sg_signum := n\<rparr>) b)))
          (\<lambda>s. Some (0, uv__handle_start h (upd_signal h (\<lambda>g. g\<lparr>sg_cb := cb\<rparr>) s)))) = Some (r, t)"
      by (unfold uv_signal_start_def Let_def, auto simp: Option.bind_eq_Some_conv [of "if _ then uv__signal_stop _ _ else _"] Option.bind_eq_Some_conv [of "uv__signal_block_and_lock _"] Option.bind_eq_Some_conv [of "if _ then uv__signal_register_handler _ _ else _"] split del: if_split)
    have v: "sig_step\<^sup>*\<^sup>* (sig_abs_of s pipe cur) (sig_abs_of v pipe cur) \<and> \<not> has h UV_CLOSING v"
    proof (cases "signum_of s h = 0")
      case True
      then show ?thesis using new(2) closing by simp
    next
      case False
      then have stop: "uv__signal_stop h s = Some v" using new(2) by simp
      have "sig_abs_of v pipe cur = (sig_abs_of s pipe cur)\<lparr>ab_signum := (ab_signum (sig_abs_of s pipe cur))(h := 0)\<rparr>"
        using stop_sig [OF stop] by (auto simp: sig_abs_of_def signum_of_def fun_eq_iff is_signal_def [abs_def])
      then show ?thesis using sig_stop [of "sig_abs_of s pipe cur" h] closing stop_sig [OF stop] by (simp add: r_into_rtranclp)
    qed
    have "sig_same a b" using new(4) by (auto simp: uv__signal_register_handler_def Option.bind_eq_Some_conv dest: syscall_sig split: if_splits)
    then have vb: "sig_same v b" using block_sig(1) [OF new(3)] sig_same_trans by blast
    show ?thesis
    proof (cases "e = 0")
      case False
      then obtain "uv__signal_unlock_and_unblock b = Some t" "r = e" using new(5) by (auto simp: Option.bind_eq_Some_conv)
      then have "sig_same v t" using vb block_sig(2) sig_same_trans by blast
      then show ?thesis using v False \<open>r = e\<close> by (simp add: sig_same_abs)
    next
      case True
      let ?c = "tree_insert h (upd_signal h (\<lambda>g. g\<lparr>sg_signum := n\<rparr>) b)"
      from True new(5) obtain d where d: "uv__signal_unlock_and_unblock ?c = Some d" "r = 0"
        "t = uv__handle_start h (upd_signal h (\<lambda>g. g\<lparr>sg_cb := cb\<rparr>) d)" by (auto simp: Option.bind_eq_Some_conv)
      have cd: "sig_same ?c d" using block_sig(2) [OF d(1)] .
      have st: "signals (uv__handle_start h x) = signals x" "closing_handles (uv__handle_start h x) = closing_handles x"
        "handle_type k (uv__handle_start h x) = handle_type k x" for x :: "'a gloop_scheme" and k
        by (simp_all add: uv__handle_start_def upd_flags_def uv__active_handle_add_def handle_type_def Let_def)
      have fl: "has k UV_CLOSING t = has k UV_CLOSING d" for k
        unfolding d(3) has_def handle_ops_flags by (simp add: flags_of_def flag_simps)
      have "sig_abs_of t pipe cur = (sig_abs_of v pipe cur)\<lparr>ab_signum := (ab_signum (sig_abs_of v pipe cur))(h := n)\<rparr>"
        using vb cd fl by (auto simp: sig_abs_of_def d(3) st sig_same_def signum_of_def fun_eq_iff is_signal_def [abs_def] tree_insert_def
            handle_type_def has_def flags_of_def upd_signal_def)
      moreover have "signum_of t h = n" using cd by (simp add: d(3) st sig_same_def signum_of_def tree_insert_def)
      ultimately show ?thesis using v step [of v] new(1) by (auto intro: rtranclp.rtrancl_into_rtrancl)
    qed
  qed
qed

text \<open>A message is read as it was written.\<close>

lemma upt_Suc_map: "[0..<Suc k] = 0 # map Suc [0..<k]"
  by (metis map_Suc_upt upt_conv_Cons zero_less_Suc)

lemma horner_nat_bytes: "horner_sum unat 256 (map (\<lambda>i. of_nat (h div 256 ^ i) :: u8) [0..<k]) = h mod 256 ^ k"
proof (induction k arbitrary: h)
  case (Suc k)
  have "map (\<lambda>i. of_nat (h div 256 ^ i) :: u8) [0..<Suc k] = of_nat h # map (\<lambda>i. of_nat ((h div 256) div 256 ^ i)) [0..<k]"
    by (simp add: upt_Suc_map div_mult2_eq comp_def del: upt_Suc)
  moreover have "unat (of_nat h :: u8) = h mod 256" by (simp add: unat_of_nat take_bit_eq_mod)
  ultimately show ?case using Suc.IH [of "h div 256"] by (simp add: mod_mult2_eq del: upt_Suc)
qed simp

lemma horner_int_bytes: "horner_sum uint 256 (map (\<lambda>i. of_int (n div 256 ^ i) :: u8) [0..<k]) = n mod 256 ^ k"
proof (induction k arbitrary: n)
  case (Suc k)
  have "map (\<lambda>i. of_int (n div 256 ^ i) :: u8) [0..<Suc k] = of_int n # map (\<lambda>i. of_int ((n div 256) div 256 ^ i)) [0..<k]"
    by (simp add: upt_Suc_map zdiv_zmult2_eq comp_def del: upt_Suc)
  moreover have "uint (of_int n :: u8) = n mod 256" by (simp add: unsigned_of_int take_bit_eq_mod)
  ultimately show ?case using Suc.IH [of "n div 256"] by (simp add: zmod_zmult2_eq del: upt_Suc)
qed simp

lemma signal_msg_roundtrip:
  assumes "h < 2 ^ 64" "- (2 ^ 31) \<le> n" "n < 2 ^ 31"
  shows "uv__signal_msg_t (signal_msg_bytes h n @ rest) = (h, n) \<and> length (signal_msg_bytes h n) = 16"
proof -
  have "take 8 (signal_msg_bytes h n @ rest) = map (\<lambda>i. of_nat (h div 256 ^ i)) [0..<8]"
    "take 4 (drop 8 (signal_msg_bytes h n @ rest)) = map (\<lambda>i. of_int (n div 256 ^ i)) [0..<4]"
    by (simp_all add: signal_msg_bytes_def del: upt_Suc)
  then have "uv__signal_msg_t (signal_msg_bytes h n @ rest) = (h mod 256 ^ 8, signed_take_bit 31 (n mod 256 ^ 4))"
    by (simp only: uv__signal_msg_t_def horner_nat_bytes horner_int_bytes)
  moreover have "signed_take_bit 31 (n mod 256 ^ 4) = n"
  proof -
    have "n mod 256 ^ 4 = take_bit 32 n" by (simp add: take_bit_eq_mod)
    then have "signed_take_bit 31 (n mod 256 ^ 4) = signed_take_bit 31 n" by (simp add: signed_take_bit_take_bit)
    then show ?thesis using assms(2,3) by (simp add: signed_take_bit_int_eq_self)
  qed
  ultimately show ?thesis using assms(1) by (simp add: signal_msg_bytes_def del: upt_Suc)
qed

section \<open>Properties\<close>

text \<open>C7: whatever the order in which signals arrive, in any thread, and the loop starts, stops and closes
  signal handles, also from the callback of a signal that is being dispatched: the close of a handle
  that \<open>uv_close\<close> was called on is made pending exactly once, and exactly when no message with the
  handle's address is in the pipe, in the buffer or in dispatch any more, so that its memory may be
  given back.  The counters of caught and dispatched signals may wrap around.\<close>
theorem signal_closed_once:
  assumes "sig_reach s"
  shows "distinct (ab_pending s) \<and> (\<forall>h. h \<in> set (ab_pending s) \<longleftrightarrow>
      ab_closing s h \<and> ab_current s \<noteq> Some h \<and> (\<forall>n. (h, n) \<notin> set (ab_pipe s)))"
proof -
  have "in_flight s h = 0 \<longleftrightarrow> ab_current s \<noteq> Some h \<and> (\<forall>n. (h, n) \<notin> set (ab_pipe s))" for h
    by (auto simp: in_flight_def filter_empty_conv)
  then show ?thesis using sig_reach_ok [OF assms] by (simp add: sig_ok_def)
qed

definition closed_late :: sig_abs where
  "closed_late = \<lparr>ab_signum = (\<lambda>_. 0)(1 := 2, 1 := 0), ab_caught = (\<lambda>_. 0)(1 := 1), ab_dispatched = (\<lambda>_. 0), ab_pipe = [(1, 2)],
    ab_current = None, ab_closing = (\<lambda>_. False)(1 := True), ab_pending = []\<rparr>"

theorem signal_closed_once_witness:
  "sig_reach closed_late \<and> distinct (ab_pending closed_late) \<and> 1 \<notin> set (ab_pending closed_late)"
proof -
  let ?s0 = "\<lparr>ab_signum = (\<lambda>_. 0), ab_caught = (\<lambda>_. 0), ab_dispatched = (\<lambda>_. 0), ab_pipe = [],
    ab_current = None, ab_closing = (\<lambda>_. False), ab_pending = []\<rparr>"
  have "sig_reach (?s0\<lparr>ab_signum := (\<lambda>_. 0)(1 := 2)\<rparr>)" using sig_next [OF sig_init sig_start [of ?s0 1 2]] by simp
  from sig_next [OF this sig_deliver [of _ 1 2]]
  have "sig_reach (?s0\<lparr>ab_signum := (\<lambda>_. 0)(1 := 2), ab_pipe := [(1, 2)], ab_caught := (\<lambda>_. 0)(1 := 1)\<rparr>)"
    by (simp add: pipe_room_def)
  from sig_next [OF this sig_close [of _ 1]] have "sig_reach closed_late" by (simp add: closed_late_def)
  with signal_closed_once [OF this] show ?thesis by (simp add: closed_late_def)
qed

text \<open>C22: the code implements these steps.  \<open>uv_signal_start\<close>, whatever it returns, makes steps, and on success
  the handle watches the signal; \<open>uv_signal_stop\<close> and the closing of a handle are one step each; the
  dispatch of a message takes it from the pipe, lets its callback make steps and counts it.  The handler
  makes the steps that append exactly the messages whose bytes it writes to the pipe: at most one for each handle of the
  signal and none for another, in the order of the tree, each counted in \<open>caught_signals\<close>, and one for every handle of
  the signal if no call fails.  A message is read as it was written, whatever follows it.\<close>
theorem signal_code_refines:
  assumes "is_signal s h" "n \<noteq> 0" "h < 2 ^ 64" "- (2 ^ 31) \<le> n" "n < 2 ^ 31" "sorted (map (signum_of s) (signal_tree s))"
    "fst (signal_lock_pipefd s) \<noteq> snd (signal_pipefd s)" "snd (signal_lock_pipefd s) \<noteq> snd (signal_pipefd s)"
  shows "(uv_signal_start h cb n s = Some (r, t) \<longrightarrow>
        sig_step\<^sup>*\<^sup>* (sig_abs_of s pipe cur) (sig_abs_of t pipe cur) \<and> (r = 0 \<longrightarrow> signum_of t h = n))
    \<and> (uv_signal_stop h s = Some (r, t) \<longrightarrow>
        r = 0 \<and> signum_of t h = 0 \<and> sig_step (sig_abs_of s pipe cur) (sig_abs_of t pipe cur))
    \<and> (\<not> has h UV_CLOSING s \<longrightarrow> uv__signal_close h (set_flags h UV_CLOSING s) = Some t \<longrightarrow>
        sig_step (sig_abs_of s pipe cur) (sig_abs_of t pipe cur))
    \<and> (signal_dispatch call h n s = Some t \<longrightarrow>
        (\<forall>c u. sig_step\<^sup>*\<^sup>* (sig_abs_of u pipe (Some h)) (sig_abs_of (call c u) pipe (Some h)) \<and> is_signal (call c u) h = is_signal u h) \<longrightarrow>
        sig_step\<^sup>*\<^sup>* (sig_abs_of s ((h, n) # pipe) None) (sig_abs_of t pipe None))
    \<and> (uv__signal_handler n s = Some t \<longrightarrow>
        (\<exists>msgs calls. syscalls t = syscalls s @ calls \<and> wrote (snd (signal_pipefd s)) calls = messages_bytes msgs
          \<and> subseq msgs (map (\<lambda>h. (h, n)) (filter (\<lambda>h. signum_of s h = n) (signal_tree s)))
          \<and> ((\<forall>e \<in> set calls. snd e \<ge> 0) \<longrightarrow> msgs = map (\<lambda>h. (h, n)) (filter (\<lambda>h. signum_of s h = n) (signal_tree s)))
          \<and> (length (pipe @ msgs) \<le> pipe_room \<longrightarrow>
              sig_step\<^sup>*\<^sup>* (sig_abs_of s pipe cur) (sig_abs_of t (pipe @ msgs) cur))))
    \<and> uv__signal_msg_t (signal_msg_bytes h n @ rest) = (h, n)"
  using start_steps [of h cb n s r t pipe cur] stop_step [of h s r t pipe cur] close_step [OF _ assms(1)]
    dispatch_steps [OF _ assms(1)] signal_handler_steps [OF assms(2,6-8), of t pipe cur, unfolded sends_def]
    signal_msg_roundtrip [OF assms(3-5)] by blast

definition signal_loop_state :: "reply list \<Rightarrow> unit gloop_scheme" where
  "signal_loop_state rs = (stream_loop rs [] 0 [] (uloop_ext (\<lambda>_. \<lparr>ud_alloc_cb = False, ud_recv_cb = False, ud_send_queue_size = 0,
       ud_send_queue_count = 0, ud_write_queue = [], ud_write_completed = []\<rparr>)
     (\<lambda>_. \<lparr>us_addr = \<lparr>sa_family = 0, sa_port = [], sa_addr = [], sa_scope = 0\<rparr>, us_bufs = None, us_status = 0, us_cb = False\<rparr>)
     (gloop_ext (\<lambda>_. \<lparr>sg_cb = True, sg_signum = 0, sg_caught = 0, sg_dispatched = 0\<rparr>) [] (8, 9) (10, 11) ())))
     \<lparr>hnd := \<lambda>_. \<lparr>h_type = UV_SIGNAL, h_flags = 0, h_close_cb = True\<rparr>\<rparr>"

theorem signal_code_refines_witness:
  "\<exists>t. uv__signal_close 1 (set_flags 1 UV_CLOSING (signal_loop_state [])) = Some t \<and> closing_handles t = [1]
    \<and> sig_step (sig_abs_of (signal_loop_state []) [] None) (sig_abs_of t [] None)
    \<and> uv__signal_msg_t (signal_msg_bytes 1 2 @ []) = (1, 2)"
proof -
  let ?s = "signal_loop_state []"
  have s: "is_signal ?s 1" "\<not> has 1 UV_CLOSING ?s" "sorted (map (signum_of ?s) (signal_tree ?s))"
    "fst (signal_lock_pipefd ?s) \<noteq> snd (signal_pipefd ?s)" "snd (signal_lock_pipefd ?s) \<noteq> snd (signal_pipefd ?s)"
    by (simp_all add: signal_loop_state_def stream_loop_defs is_signal_def handle_type_def has_def flags_of_def flag_simps)
  have "\<exists>t. uv__signal_close 1 (set_flags 1 UV_CLOSING ?s) = Some t \<and> closing_handles t = [1]"
    by (simp add: uv__signal_close_def uv__signal_stop_def uv__make_close_pending_def signum_of_def signal_loop_state_def
        stream_loop_defs set_flags_def upd_flags_def has_def flags_of_def flag_simps require_def set_flag_def)
  then obtain t where t: "uv__signal_close 1 (set_flags 1 UV_CLOSING ?s) = Some t" "closing_handles t = [1]" by blast
  have "(2 :: int) \<noteq> 0" "(1 :: nat) < 2 ^ 64" "- (2 ^ 31) \<le> (2 :: int)" "(2 :: int) < 2 ^ 31" by simp_all
  from signal_code_refines [OF s(1) this s(3-5), of True 0 t "[]" None "\<lambda>c u. u" "[]"] s(2) t show ?thesis by blast
qed

end
