(* ===== verification/Process.thy ===== *)
theory Process
  imports Signals Queues
begin

text \<open>
  Child processes, \<open>src/unix/process.cpp\<close>.  \<open>fork\<close> returns in the parent and in the child: the reply of
  the script says which of the two the run is, and the child ends in \<open>execvp\<close> or \<open>_exit\<close>.  The
  queue of processes is that of the theory \<open>Queues\<close>, pointer by pointer, because \<open>uv__chld\<close> keeps
  a pointer into it while callbacks run.  \<open>uv__make_socketpair\<close> and \<open>uv__make_pipe\<close> are in the theory
  \<open>Fd_Ops\<close>.
\<close>

record uv_process =
  pr_pid :: int
  pr_status :: int
  pr_exit_cb :: bool

record prloop = gloop +
  processes :: "addr \<Rightarrow> uv_process"
  process_queue :: qmem
  process_handles :: addr
  child_watcher :: addr
  environ :: "string list option"

record uv_stdio_container =
  so_flags :: u32
  so_stream :: "addr option"
  so_fd :: int

record uv_process_options =
  po_file :: string
  po_args :: "string list"
  po_env :: "string list option"
  po_cwd :: "string option"
  po_flags :: u32
  po_stdio :: "uv_stdio_container list"
  po_uid :: int
  po_gid :: int
  po_exit_cb :: bool

abbreviation (input) UV_IGNORE :: u32 where "UV_IGNORE \<equiv> 0"
abbreviation (input) UV_CREATE_PIPE :: u32 where "UV_CREATE_PIPE \<equiv> 1"
abbreviation (input) UV_INHERIT_FD :: u32 where "UV_INHERIT_FD \<equiv> 2"
abbreviation (input) UV_INHERIT_STREAM :: u32 where "UV_INHERIT_STREAM \<equiv> 4"
abbreviation (input) UV_PROCESS_SETUID :: u32 where "UV_PROCESS_SETUID \<equiv> 1"
abbreviation (input) UV_PROCESS_SETGID :: u32 where "UV_PROCESS_SETGID \<equiv> 2"
abbreviation (input) UV_PROCESS_WINDOWS_VERBATIM_ARGUMENTS :: u32 where "UV_PROCESS_WINDOWS_VERBATIM_ARGUMENTS \<equiv> 4"
abbreviation (input) UV_PROCESS_DETACHED :: u32 where "UV_PROCESS_DETACHED \<equiv> 8"
abbreviation (input) UV_PROCESS_WINDOWS_HIDE :: u32 where "UV_PROCESS_WINDOWS_HIDE \<equiv> 16"
abbreviation (input) WNOHANG :: int where "WNOHANG \<equiv> 1"
abbreviation (input) SIGCHLD :: int where "SIGCHLD \<equiv> 17"
abbreviation (input) F_DUPFD :: int where "F_DUPFD \<equiv> 0"
abbreviation (input) Waitpid :: "int \<Rightarrow> int \<Rightarrow> syscall" where "Waitpid pid options \<equiv> Sys ''waitpid'' [pid, options]"
abbreviation (input) Fork :: syscall where "Fork \<equiv> Sys ''fork'' []"
abbreviation (input) Kill :: "int \<Rightarrow> int \<Rightarrow> syscall" where "Kill pid signum \<equiv> Sys ''kill'' [pid, signum]"
abbreviation (input) Execvp :: "string \<Rightarrow> string list \<Rightarrow> syscall" where "Execvp file args \<equiv> SysPath ''execvp'' (file # args) []"
abbreviation (input) Rwlock_wrlock :: syscall where "Rwlock_wrlock \<equiv> Sys ''pthread_rwlock_wrlock'' []"
abbreviation (input) Rwlock_unlock :: syscall where "Rwlock_unlock \<equiv> Sys ''pthread_rwlock_unlock'' []"

definition upd_process :: "addr \<Rightarrow> (uv_process \<Rightarrow> uv_process) \<Rightarrow> 'a prloop_scheme \<Rightarrow> 'a prloop_scheme" where
  "upd_process p f s = s\<lparr>processes := (processes s)(p := f (processes s p))\<rparr>"

definition upd_queue :: "(qmem \<Rightarrow> qmem) \<Rightarrow> 'a prloop_scheme \<Rightarrow> 'a prloop_scheme" where
  "upd_queue f s = s\<lparr>process_queue := f (process_queue s)\<rparr>"

section \<open>Children that have ended\<close>

text \<open>\<open>WIFEXITED\<close>, \<open>WEXITSTATUS\<close>, \<open>WIFSIGNALED\<close> and \<open>WTERMSIG\<close> of the C library.\<close>

definition exit_status_of :: "int \<Rightarrow> int" where
  "exit_status_of status = (if status AND 0x7f = 0 then (status AND 0xff00) div 256 else 0)"

definition term_signal_of :: "int \<Rightarrow> int" where
  "term_signal_of status = (if status AND 0x7f \<noteq> 0 \<and> status AND 0x7f \<noteq> 0x7f then status AND 0x7f else 0)"

partial_function (option) chld_reap :: "addr \<Rightarrow> addr \<Rightarrow> addr \<Rightarrow> 'a prloop_scheme \<Rightarrow> 'a prloop_scheme option" where
  "chld_reap pq h q s =
     (if q = h then Some s
      else let p = q; q = q_next (process_queue s) q
        in Option.bind (eintr_loop (Waitpid (pr_pid (processes s p)) WNOHANG) s) (\<lambda>(r, s).
             if r_ret r = 0 then chld_reap pq h q s
             else if r_ret r = - 1 then Option.bind (require (errno s = ECHILD)) (\<lambda>_. chld_reap pq h q s)
             else let s = upd_process p (\<lambda>x. x\<lparr>pr_status := r_val r\<rparr>) s;
                      s = upd_queue (QUEUE_REMOVE p) s;
                      s = upd_queue (QUEUE_INSERT_TAIL pq p) s
               in chld_reap pq h q s))"

definition chld_report ::
    "(callback \<Rightarrow> 'a prloop_scheme \<Rightarrow> 'a prloop_scheme) \<Rightarrow> addr \<Rightarrow> 'a prloop_scheme \<Rightarrow> 'a prloop_scheme" where
  "chld_report call p s =
     (let s = upd_queue (QUEUE_REMOVE p) s;
          s = upd_queue (QUEUE_INIT p) s;
          s = uv__handle_stop p s
      in if \<not> pr_exit_cb (processes s p) then s
         else invoke call (Exit_cb p (exit_status_of (pr_status (processes s p))) (term_signal_of (pr_status (processes s p)))) s)"

text \<open>The next element is read before the callback of this one.\<close>

partial_function (option) chld_run ::
    "(callback \<Rightarrow> 'a prloop_scheme \<Rightarrow> 'a prloop_scheme) \<Rightarrow> addr \<Rightarrow> addr \<Rightarrow> 'a prloop_scheme \<Rightarrow> 'a prloop_scheme option" where
  "chld_run call h q s =
     (if q = h then Some s
      else let p = q; q = q_next (process_queue s) q in chld_run call h q (chld_report call p s))"

text \<open>\<open>pq\<close> is the address of the local queue.\<close>

definition uv__chld ::
    "(callback \<Rightarrow> 'a prloop_scheme \<Rightarrow> 'a prloop_scheme) \<Rightarrow> addr \<Rightarrow> int \<Rightarrow> 'a prloop_scheme \<Rightarrow> 'a prloop_scheme option" where
  "uv__chld call pq signum s = do {
     require (signum = SIGCHLD);
     let s = upd_queue (QUEUE_INIT pq) s;
     let h = process_handles s;
     s \<leftarrow> chld_reap pq h (QUEUE_HEAD h (process_queue s)) s;
     s \<leftarrow> chld_run call pq (QUEUE_HEAD pq (process_queue s)) s;
     require (QUEUE_EMPTY pq (process_queue s));
     Some s
   }"

definition uv__process_close :: "addr \<Rightarrow> 'a prloop_scheme \<Rightarrow> 'a prloop_scheme option" where
  "uv__process_close p s = do {
     let s = uv__handle_stop p (upd_queue (QUEUE_REMOVE p) s);
     if QUEUE_EMPTY (process_handles s) (process_queue s)
     then map_option snd (uv_signal_stop (child_watcher s) s) else Some s
   }"

definition uv_kill :: "int \<Rightarrow> int \<Rightarrow> 'a kern_scheme \<Rightarrow> (int \<times> 'a kern_scheme) option" where
  "uv_kill pid signum s = do {
     (r, s) \<leftarrow> syscall (Kill pid signum) s;
     Some (if r_ret r \<noteq> 0 then - errno s else 0, s)
   }"

definition uv_process_kill :: "addr \<Rightarrow> int \<Rightarrow> 'a prloop_scheme \<Rightarrow> (int \<times> 'a prloop_scheme) option" where
  "uv_process_kill p signum s = uv_kill (pr_pid (processes s p)) signum s"

section \<open>Standard streams of the child\<close>

definition uv__process_init_stdio :: "uv_stdio_container \<Rightarrow> int \<times> int \<Rightarrow> 'a prloop_scheme \<Rightarrow> (int \<times> (int \<times> int) \<times> 'a prloop_scheme) option" where
  "uv__process_init_stdio container fdp s =
     (let kind = so_flags container AND (UV_IGNORE OR UV_CREATE_PIPE OR UV_INHERIT_FD OR UV_INHERIT_STREAM)
      in if kind = UV_IGNORE then Some (0, fdp, s)
         else if kind = UV_CREATE_PIPE then do {
           stream \<leftarrow> so_stream container;
           if handle_type stream s \<noteq> UV_NAMED_PIPE then Some (- EINVAL, fdp, s)
           else do {
             (res, s) \<leftarrow> uv__make_socketpair 0 s;
             Some (case res of Inl err \<Rightarrow> (err, fdp, s) | Inr l \<Rightarrow> (0, (l ! 0, l ! 1), s))
           }
         }
         else if kind = UV_INHERIT_FD \<or> kind = UV_INHERIT_STREAM then do {
           fd \<leftarrow> (if so_flags container AND UV_INHERIT_FD \<noteq> 0 then Some (so_fd container)
                  else map_option (\<lambda>stream. uv__stream_fd stream s) (so_stream container));
           Some (if fd = - 1 then (- EINVAL, fdp, s) else (0, (fst fdp, fd), s))
         }
         else None)"

definition uv__process_open_stream ::
    "uv_stdio_container \<Rightarrow> int \<times> int \<Rightarrow> bool \<Rightarrow> 'a prloop_scheme \<Rightarrow> (int \<times> (int \<times> int) \<times> 'a prloop_scheme) option" where
  "uv__process_open_stream container pipefds writable s =
     (if so_flags container AND UV_CREATE_PIPE = 0 \<or> fst pipefds < 0 then Some (0, pipefds, s)
      else do {
        (err, s) \<leftarrow> uv__close (snd pipefds) s;
        require (err = 0);
        (_, s) \<leftarrow> uv__nonblock (fst pipefds) 1 s;
        stream \<leftarrow> so_stream container;
        let flags = (if handle_type stream s = UV_NAMED_PIPE \<and> st_ipc (streams s stream) then UV_STREAM_READABLE OR UV_STREAM_WRITABLE
                     else if writable then UV_STREAM_WRITABLE else UV_STREAM_READABLE);
        (err, s) \<leftarrow> uv__stream_open stream (fst pipefds) flags s;
        Some (err, (fst pipefds, - 1), s)
      })"

definition uv__process_close_stream :: "uv_stdio_container \<Rightarrow> 'a prloop_scheme \<Rightarrow> 'a prloop_scheme option" where
  "uv__process_close_stream container s =
     (if so_flags container AND UV_CREATE_PIPE = 0 then Some s
      else do { stream \<leftarrow> so_stream container; uv__stream_close stream s })"

section \<open>The child\<close>

text \<open>How the child ends: the new program runs, or \<open>_exit(127)\<close>.  \<open>Inr\<close> is a step that goes on.\<close>

datatype child_end = Child_execs | Child_exits

definition uv__write_int :: "int \<Rightarrow> int \<Rightarrow> 'a kern_scheme \<Rightarrow> 'a kern_scheme option" where
  "uv__write_int fd val s = do {
     (r, s) \<leftarrow> eintr_loop (Write fd (map (\<lambda>i. of_int (val div 256 ^ i)) [0..<4])) s;
     if r_ret r = - 1 \<and> errno s = EPIPE then Some s
     else do { require (r_ret r = 4); Some s }
   }"

definition child_fails :: "int \<Rightarrow> 'a kern_scheme \<Rightarrow> (child_end \<times> 'a kern_scheme) option" where
  "child_fails error_fd s = do { s \<leftarrow> uv__write_int error_fd (- errno s) s; Some (Child_exits, s) }"

text \<open>The low descriptors are duplicated first.\<close>

function child_dups ::
    "nat \<Rightarrow> nat \<Rightarrow> (int \<times> int) list \<Rightarrow> int \<Rightarrow> 'a kern_scheme \<Rightarrow> ((child_end + (int \<times> int) list) \<times> 'a kern_scheme) option" where
  "child_dups fd stdio_count pipes error_fd s =
     (if fd \<ge> stdio_count then Some (Inr pipes, s)
      else let use_fd = snd (pipes ! fd)
        in if use_fd < 0 \<or> use_fd \<ge> int fd then child_dups (fd + 1) stdio_count pipes error_fd s
           else do {
             (r, s) \<leftarrow> syscall (Sys ''fcntl'' [use_fd, F_DUPFD, int stdio_count]) s;
             if r_ret r = - 1 then do { (e, s) \<leftarrow> child_fails error_fd s; Some (Inl e, s) }
             else child_dups (fd + 1) stdio_count (pipes[fd := (fst (pipes ! fd), r_ret r)]) error_fd s
           })"
  by pat_completeness auto
termination
  by (relation "measure (\<lambda>(fd, n, _). n - fd)") auto

declare child_dups.simps [simp del]

definition child_place :: "nat \<Rightarrow> nat \<Rightarrow> int \<times> int \<Rightarrow> int \<Rightarrow> 'a kern_scheme \<Rightarrow> (child_end option \<times> 'a kern_scheme) option" where
  "child_place fd stdio_count pair error_fd s =
     (if snd pair < 0 \<and> fd \<ge> 3 then Some (None, s)
      else do {
        (use_fd, close_fd, s) \<leftarrow> (if snd pair < 0 then do {
            (r, s) \<leftarrow> syscall (Open ''/dev/null'' (if fd = 0 then O_RDONLY else O_RDWR) 0) s;
            Some (r_ret r, r_ret r, s)
          } else Some (snd pair, fst pair, s));
        if use_fd = - 1 then do { (e, s) \<leftarrow> child_fails error_fd s; Some (Some e, s) }
        else do {
          (placed, s) \<leftarrow> (if int fd = use_fd then do { (_, s) \<leftarrow> uv__cloexec_fcntl use_fd 0 s; Some (int fd, s) }
                          else do { (r, s) \<leftarrow> syscall (Sys ''dup2'' [use_fd, int fd]) s; Some (r_ret r, s) });
          if placed = - 1 then do { (e, s) \<leftarrow> child_fails error_fd s; Some (Some e, s) }
          else do {
            s \<leftarrow> (if placed \<le> 2 then map_option snd (uv__nonblock_fcntl placed 0 s) else Some s);
            s \<leftarrow> (if close_fd \<ge> int stdio_count then map_option snd (uv__close close_fd s) else Some s);
            Some (None, s)
          }
        }
      })"

text \<open>\<open>dup2\<close> returns the new descriptor, which is \<open>fd\<close> again, so the loop goes on from it.\<close>

fun child_places ::
    "nat \<Rightarrow> nat \<Rightarrow> (int \<times> int) list \<Rightarrow> int \<Rightarrow> 'a kern_scheme \<Rightarrow> (child_end option \<times> 'a kern_scheme) option" where
  "child_places fd stdio_count [] error_fd s = Some (None, s)"
| "child_places fd stdio_count (pair # pipes) error_fd s = do {
     (e, s) \<leftarrow> child_place fd stdio_count pair error_fd s;
     case e of Some e \<Rightarrow> Some (Some e, s) | None \<Rightarrow> child_places (fd + 1) stdio_count pipes error_fd s
   }"

fun child_closes :: "nat \<Rightarrow> (int \<times> int) list \<Rightarrow> 'a kern_scheme \<Rightarrow> 'a kern_scheme option" where
  "child_closes stdio_count [] s = Some s"
| "child_closes stdio_count (pair # pipes) s = do {
     s \<leftarrow> (if snd pair \<ge> int stdio_count then map_option snd (uv__close (snd pair) s) else Some s);
     child_closes stdio_count pipes s
   }"

text \<open>A call that ends the child when it fails.\<close>

definition child_call :: "bool \<Rightarrow> syscall \<Rightarrow> int \<Rightarrow> 'a kern_scheme \<Rightarrow> (child_end option \<times> 'a kern_scheme) option" where
  "child_call wanted c error_fd s =
     (if \<not> wanted then Some (None, s)
      else do {
        (r, s) \<leftarrow> syscall c s;
        if r_ret r \<noteq> 0 then do { (e, s) \<leftarrow> child_fails error_fd s; Some (Some e, s) } else Some (None, s)
      })"

definition uv__process_child_init ::
    "uv_process_options \<Rightarrow> (int \<times> int) list \<Rightarrow> int \<Rightarrow> 'a prloop_scheme \<Rightarrow> (child_end \<times> 'a prloop_scheme) option" where
  "uv__process_child_init options pipes error_fd s = do {
     let stdio_count = length pipes;
     s \<leftarrow> (if po_flags options AND UV_PROCESS_DETACHED \<noteq> 0 then map_option snd (syscall (Sys ''setsid'' []) s) else Some s);
     (dups, s) \<leftarrow> child_dups 0 stdio_count pipes error_fd s;
     case dups of
       Inl e \<Rightarrow> Some (e, s)
     | Inr pipes \<Rightarrow> do {
         (e, s) \<leftarrow> child_places 0 stdio_count pipes error_fd s;
         case e of Some e \<Rightarrow> Some (e, s) | None \<Rightarrow> do {
         s \<leftarrow> child_closes stdio_count pipes s;
         (e, s) \<leftarrow> child_call (po_cwd options \<noteq> None) (Chdir (case po_cwd options of None \<Rightarrow> '''' | Some d \<Rightarrow> d)) error_fd s;
         case e of Some e \<Rightarrow> Some (e, s) | None \<Rightarrow> do {
         s \<leftarrow> (if po_flags options AND (UV_PROCESS_SETUID OR UV_PROCESS_SETGID) \<noteq> 0
               then save_errno (\<lambda>s. map_option snd (syscall (Sys ''setgroups'' [0]) s)) s else Some s);
         (e, s) \<leftarrow> child_call (po_flags options AND UV_PROCESS_SETGID \<noteq> 0) (Sys ''setgid'' [po_gid options]) error_fd s;
         case e of Some e \<Rightarrow> Some (e, s) | None \<Rightarrow> do {
         (e, s) \<leftarrow> child_call (po_flags options AND UV_PROCESS_SETUID \<noteq> 0) (Sys ''setuid'' [po_uid options]) error_fd s;
         case e of Some e \<Rightarrow> Some (e, s) | None \<Rightarrow> do {
         let s = (if po_env options \<noteq> None then s\<lparr>environ := po_env options\<rparr> else s);
         (r, s) \<leftarrow> syscall (Execvp (po_file options) (po_args options)) s;
         if r_ret r \<noteq> - 1 then Some (Child_execs, s) else child_fails error_fd s
       }}}}}
   }"

section \<open>The parent\<close>

fun init_stdios :: "uv_stdio_container list \<Rightarrow> nat \<Rightarrow> (int \<times> int) list \<Rightarrow> 'a prloop_scheme \<Rightarrow> (int \<times> (int \<times> int) list \<times> 'a prloop_scheme) option" where
  "init_stdios [] i pipes s = Some (0, pipes, s)"
| "init_stdios (c # cs) i pipes s = do {
     (err, pair, s) \<leftarrow> uv__process_init_stdio c (pipes ! i) s;
     if err \<noteq> 0 then Some (err, pipes[i := pair], s) else init_stdios cs (i + 1) (pipes[i := pair]) s
   }"

text \<open>\<open>while (i--)\<close>: the streams before, the last first.\<close>

fun close_streams :: "uv_stdio_container list \<Rightarrow> 'a prloop_scheme \<Rightarrow> 'a prloop_scheme option" where
  "close_streams [] s = Some s"
| "close_streams (c # cs) s = do { s \<leftarrow> uv__process_close_stream c s; close_streams cs s }"

fun open_streams ::
    "uv_stdio_container list \<Rightarrow> uv_stdio_container list \<Rightarrow> (int \<times> int) list \<Rightarrow> 'a prloop_scheme \<Rightarrow>
     (int \<times> (int \<times> int) list \<times> 'a prloop_scheme) option" where
  "open_streams before [] pipes s = Some (0, pipes, s)"
| "open_streams before (c # cs) pipes s = do {
     let i = length before;
     (err, pair, s) \<leftarrow> uv__process_open_stream c (pipes ! i) (i = 0) s;
     if err = 0 then open_streams (c # before) cs (pipes[i := pair]) s
     else do {
       s \<leftarrow> close_streams before s;
       Some (err, pipes[i := pair], s)
     }
   }"

text \<open>From the label \<open>error\<close>: the descriptors that \<open>uv_spawn\<close> has made.\<close>

definition close_maybe :: "int \<Rightarrow> 'a kern_scheme \<Rightarrow> 'a kern_scheme option" where
  "close_maybe fd s = (if fd \<noteq> - 1 then map_option snd (uv__close_nocheckstdio fd s) else Some s)"

fun spawn_cleanup :: "uv_stdio_container list \<Rightarrow> (int \<times> int) list \<Rightarrow> 'a kern_scheme \<Rightarrow> 'a kern_scheme option" where
  "spawn_cleanup stdio [] s = Some s"
| "spawn_cleanup stdio (pair # pipes) s =
     (if stdio \<noteq> [] \<and> so_flags (hd stdio) AND (UV_INHERIT_FD OR UV_INHERIT_STREAM) \<noteq> 0 then spawn_cleanup (tl stdio) pipes s
      else do {
        s \<leftarrow> close_maybe (fst pair) s;
        s \<leftarrow> close_maybe (snd pair) s;
        spawn_cleanup (tl stdio) pipes s
      })"

text \<open>What the parent learns of the child's \<open>execvp\<close>: its error, or 0 when the pipe was closed.\<close>

definition spawn_wait :: "int \<Rightarrow> int \<Rightarrow> 'a kern_scheme \<Rightarrow> (int \<times> 'a kern_scheme) option" where
  "spawn_wait pid fd s = do {
     (r, s) \<leftarrow> eintr_loop (Read fd 4) s;
     if r_ret r = 0 then Some (0, s)
     else if r_ret r = 4 then do {
       (w, s) \<leftarrow> eintr_loop (Waitpid pid 0) s;
       require (r_ret w = pid);
       Some (signed_take_bit 31 (horner_sum uint 256 (r_bytes r)), s)
     }
     else if r_ret r = - 1 \<and> errno s = EPIPE then do {
       (w, s) \<leftarrow> eintr_loop (Waitpid pid 0) s;
       require (r_ret w = pid);
       Some (0, s)
     }
     else None
   }"

text \<open>The child's run ends with \<open>Inl\<close>; \<open>uv_rwlock_wrlock\<close> aborts when its call fails.\<close>

definition rwlock :: "syscall \<Rightarrow> 'a kern_scheme \<Rightarrow> 'a kern_scheme option" where
  "rwlock c s = do { (r, s) \<leftarrow> syscall c s; require (r_ret r = 0); Some s }"

definition spawn_error ::
    "uv_process_options \<Rightarrow> (int \<times> int) list \<Rightarrow> int \<Rightarrow> 'a prloop_scheme \<Rightarrow> ((child_end + int) \<times> 'a prloop_scheme) option" where
  "spawn_error options pipes err s = do { s \<leftarrow> spawn_cleanup (po_stdio options) pipes s; Some (Inr err, s) }"

definition spawn_parent ::
    "addr \<Rightarrow> uv_process_options \<Rightarrow> (int \<times> int) list \<Rightarrow> int list \<Rightarrow> int \<Rightarrow> 'a prloop_scheme \<Rightarrow> ((child_end + int) \<times> 'a prloop_scheme) option" where
  "spawn_parent p options pipes signal_pipe pid s = do {
     s \<leftarrow> rwlock Rwlock_unlock s;
     (_, s) \<leftarrow> uv__close (signal_pipe ! 1) s;
     let s = upd_process p (\<lambda>x. x\<lparr>pr_status := 0\<rparr>) s;
     (exec_errorno, s) \<leftarrow> spawn_wait pid (signal_pipe ! 0) s;
     (_, s) \<leftarrow> uv__close_nocheckstdio (signal_pipe ! 0) s;
     (err, pipes, s) \<leftarrow> open_streams [] (po_stdio options) pipes s;
     if err \<noteq> 0 then spawn_error options pipes err s
     else
       let s = (if exec_errorno = 0 then uv__handle_start p (upd_queue (QUEUE_INSERT_TAIL (process_handles s) p) s) else s);
           s = upd_process p (\<lambda>x. x\<lparr>pr_pid := pid, pr_exit_cb := po_exit_cb options\<rparr>) s
       in Some (Inr exec_errorno, s)
   }"

definition uv_spawn :: "addr \<Rightarrow> uv_process_options \<Rightarrow> 'a prloop_scheme \<Rightarrow> ((child_end + int) \<times> 'a prloop_scheme) option" where
  "uv_spawn p options s = do {
     require (po_flags options AND NOT (UV_PROCESS_DETACHED OR UV_PROCESS_SETGID OR UV_PROCESS_SETUID OR
       UV_PROCESS_WINDOWS_HIDE OR UV_PROCESS_WINDOWS_VERBATIM_ARGUMENTS) = 0);
     let s = upd_queue (QUEUE_INIT p) (uv__handle_init p UV_PROCESS s);
     let stdio_count = max 3 (length (po_stdio options));
     (r, s) \<leftarrow> syscall (Malloc (int stdio_count * 8)) s;
     if r_ret r = - 1 then Some (Inr (- ENOMEM), s)
     else do {
       (err, pipes, s) \<leftarrow> init_stdios (po_stdio options) 0 (replicate stdio_count (- 1, - 1)) s;
       if err \<noteq> 0 then spawn_error options pipes err s
       else do {
         (res, s) \<leftarrow> uv__make_pipe 0 s;
         case res of
           Inl err \<Rightarrow> spawn_error options pipes err s
         | Inr signal_pipe \<Rightarrow> do {
             (_, s) \<leftarrow> uv_signal_start (child_watcher s) True SIGCHLD s;
             s \<leftarrow> rwlock Rwlock_wrlock s;
             (f, s) \<leftarrow> syscall Fork s;
             if r_ret f = - 1 then do {
               let err = - errno s;
               s \<leftarrow> rwlock Rwlock_unlock s;
               (_, s) \<leftarrow> uv__close (signal_pipe ! 0) s;
               (_, s) \<leftarrow> uv__close (signal_pipe ! 1) s;
               spawn_error options pipes err s
             }
             else if r_ret f = 0 then do {
               (e, s) \<leftarrow> uv__process_child_init options pipes (signal_pipe ! 1) s;
               Some (Inl e, s)
             }
             else spawn_parent p options pipes signal_pipe (r_ret f) s
           }
       }
     }
   }"

end
