(* ===== verification/Threadpool.thy ===== *)
theory Threadpool
  imports Process
begin

text \<open>
  The thread pool, \<open>src/threadpool.cpp\<close>.  What the workers share with the loops is the record \<open>pool\<close>,
  and every critical section is a function of it: the mutexes of the pool and of the loop make each
  one step, and the wait on the condition variable ends one section and starts another.  A
  request and the \<open>uv__work\<close> in it have one address.  The theory has the functions as the loop's
  thread runs them and then the threads together, as a transition system over the same sections.
\<close>

datatype work_fn = Queue_work | Fs_work | Getaddrinfo_work | Getnameinfo_work | Uv_cancelled
datatype done_fn = Queue_done | Fs_done | Getaddrinfo_done | Getnameinfo_done

text \<open>
  \<open>uw_linked\<close> is \<open>!QUEUE_EMPTY(&w->wq)\<close>: false from the worker's \<open>QUEUE_INIT\<close> to the next insertion, and not
  changed by \<open>QUEUE_REMOVE\<close>.
\<close>

record uv__work =
  uw_work :: "work_fn option"
  uw_done :: done_fn
  uw_linked :: bool

text \<open>Where a worker is: before the pool's mutex, in \<open>uv_cond_wait\<close>, woken, around \<open>w->work(w)\<close>, returned.\<close>

datatype worker_pc = At_lock | In_wait | Woken | Has_work addr | Work_ran addr | Returned

text \<open>\<open>None\<close> in \<open>pool_wq\<close> is \<open>exit_message\<close>; \<open>cond_pick\<close> is the scheduler's choice of the thread to wake.\<close>

record pool =
  works :: "addr \<Rightarrow> uv__work"
  pool_wq :: "ptr list"
  idle_threads :: u32
  nthreads :: u32
  pool_threads :: "worker_pc list"
  pool_initialized :: bool
  cond_pick :: nat
  loop_wq :: "addr list"
  work_local :: "addr list"

record uv_work_t =
  wk_has_work_cb :: bool
  wk_has_after_cb :: bool

record thloop = prloop +
  pool :: pool
  wq_async :: addr
  req_type :: "addr \<Rightarrow> uv_req_type"
  work_reqs :: "addr \<Rightarrow> uv_work_t"

abbreviation (input) MAX_THREADPOOL_SIZE :: u32 where "MAX_THREADPOOL_SIZE \<equiv> 128"
abbreviation (input) default_threads :: u32 where "default_threads \<equiv> 4"
abbreviation (input) UV_EBUSY :: int where "UV_EBUSY \<equiv> - EBUSY"
abbreviation (input) UV_ECANCELED :: int where "UV_ECANCELED \<equiv> - 125"
abbreviation (input) UV_EINVAL :: int where "UV_EINVAL \<equiv> - EINVAL"

section \<open>Critical sections\<close>

definition upd_work :: "addr \<Rightarrow> (uv__work \<Rightarrow> uv__work) \<Rightarrow> pool \<Rightarrow> pool" where
  "upd_work w f p = p\<lparr>works := (works p)(w := f (works p w))\<rparr>"

definition set_pc :: "nat \<Rightarrow> worker_pc \<Rightarrow> pool \<Rightarrow> pool" where
  "set_pc t pc p = p\<lparr>pool_threads := (pool_threads p)[t := pc]\<rparr>"

definition waiters :: "pool \<Rightarrow> nat list" where
  "waiters p = filter (\<lambda>t. pool_threads p ! t = In_wait) [0..<length (pool_threads p)]"

definition uv_cond_signal :: "pool \<Rightarrow> pool" where
  "uv_cond_signal p = (if waiters p = [] then p else set_pc (waiters p ! (cond_pick p mod length (waiters p))) Woken p)"

text \<open>
  The worker under the pool's mutex, from \<open>uv_mutex_lock\<close> or from \<open>uv_cond_wait\<close> to the next wait or unlock.
\<close>

definition worker_take :: "nat \<Rightarrow> pool \<Rightarrow> pool" where
  "worker_take t p =
     (let p = (if pool_threads p ! t = Woken then p\<lparr>idle_threads := idle_threads p - 1\<rparr> else p)
      in case pool_wq p of
           [] \<Rightarrow> set_pc t In_wait (p\<lparr>idle_threads := idle_threads p + 1\<rparr>)
         | None # _ \<Rightarrow> set_pc t Returned (uv_cond_signal p)
         | Some w # q \<Rightarrow> set_pc t (Has_work w) (upd_work w (\<lambda>x. x\<lparr>uw_linked := False\<rparr>) (p\<lparr>pool_wq := q\<rparr>)))"

text \<open>The worker under the loop's mutex, but for \<open>uv_async_send\<close>.\<close>

definition worker_finish :: "nat \<Rightarrow> addr \<Rightarrow> pool \<Rightarrow> pool" where
  "worker_finish t w p =
     set_pc t At_lock (upd_work w (\<lambda>x. x\<lparr>uw_work := None, uw_linked := True\<rparr>) (p\<lparr>loop_wq := loop_wq p @ [w]\<rparr>))"

definition post :: "ptr \<Rightarrow> pool \<Rightarrow> pool" where
  "post q p =
     (let p = p\<lparr>pool_wq := pool_wq p @ [q]\<rparr>;
          p = (case q of None \<Rightarrow> p | Some w \<Rightarrow> upd_work w (\<lambda>x. x\<lparr>uw_linked := True\<rparr>) p)
      in if idle_threads p > 0 then uv_cond_signal p else p)"

text \<open>
  \<open>uv__work_cancel\<close> under both mutexes.  A request is in one queue at most.  One that is in none, because its
  \<open>done\<close> function has been called or is being called, keeps its old links, and \<open>QUEUE_REMOVE\<close> by them joins its
  old neighbours once more: this leaves the queues as they are while those are still each other's
  neighbours, which is what is assumed here.
\<close>

definition cancel_remove :: "addr \<Rightarrow> pool \<Rightarrow> bool \<times> pool" where
  "cancel_remove w p =
     (if uw_linked (works p w) \<and> uw_work (works p w) \<noteq> None
      then (True, p\<lparr>pool_wq := remove1 (Some w) (pool_wq p), loop_wq := remove1 w (loop_wq p), work_local := remove1 w (work_local p)\<rparr>)
      else (False, p))"

definition cancel_insert :: "addr \<Rightarrow> pool \<Rightarrow> pool" where
  "cancel_insert w p = upd_work w (\<lambda>x. x\<lparr>uw_work := Some Uv_cancelled, uw_linked := True\<rparr>) (p\<lparr>loop_wq := loop_wq p @ [w]\<rparr>)"

definition work_submit :: "addr \<Rightarrow> work_fn \<Rightarrow> done_fn \<Rightarrow> pool \<Rightarrow> pool" where
  "work_submit w f d p = post (Some w) (upd_work w (\<lambda>x. x\<lparr>uw_work := Some f, uw_done := d\<rparr>) p)"

definition work_done_move :: "pool \<Rightarrow> pool" where
  "work_done_move p = p\<lparr>work_local := loop_wq p, loop_wq := []\<rparr>"

definition work_status :: "addr \<Rightarrow> pool \<Rightarrow> int" where
  "work_status w p = (if uw_work (works p w) = Some Uv_cancelled then UV_ECANCELED else 0)"

section \<open>The functions\<close>

definition upd_pool :: "(pool \<Rightarrow> pool) \<Rightarrow> 'a thloop_scheme \<Rightarrow> 'a thloop_scheme" where
  "upd_pool f s = s\<lparr>pool := f (pool s)\<rparr>"

text \<open>\<open>atoi\<close>: blanks, a sign, digits.\<close>

definition atoi :: "string \<Rightarrow> int" where
  "atoi str =
     (let cs = dropWhile (\<lambda>c. c = CHR '' '' \<or> of_char c \<in> {9..<14::nat}) str;
          sgn = (if cs \<noteq> [] \<and> hd cs = CHR ''-'' then - 1 else 1);
          cs = (if cs \<noteq> [] \<and> hd cs \<in> {CHR ''-'', CHR ''+''} then tl cs else cs);
          ds = takeWhile (\<lambda>c. of_char c \<in> {48..<58::nat}) cs
      in sgn * foldl (\<lambda>n c. n * 10 + (of_char c - 48)) 0 ds)"

definition pool_size :: "string option \<Rightarrow> u32" where
  "pool_size val =
     (let n = (case val of None \<Rightarrow> default_threads | Some v \<Rightarrow> of_int (atoi v));
          n = (if n = 0 then 1 else n)
      in if n > MAX_THREADPOOL_SIZE then MAX_THREADPOOL_SIZE else n)"

fun create_threads :: "nat \<Rightarrow> 'a kern_scheme \<Rightarrow> 'a kern_scheme option" where
  "create_threads 0 s = Some s"
| "create_threads (Suc n) s = do {
     (r, s) \<leftarrow> syscall (Sys ''pthread_create'' []) s;
     require (r_ret r = 0);
     create_threads n s
   }"

definition init_once :: "'a thloop_scheme \<Rightarrow> 'a thloop_scheme option" where
  "init_once s = do {
     (r, s) \<leftarrow> syscall (Getenv ''UV_THREADPOOL_SIZE'') s;
     let n = pool_size (r_str r);
     (n, s) \<leftarrow> (if n > default_threads then do {
         (r, s) \<leftarrow> syscall (Malloc (uint n * 8)) s;
         Some (if r_ret r = - 1 then default_threads else n, s)
       } else Some (n, s));
     (r, s) \<leftarrow> syscall (Sys ''pthread_cond_init'' []) s;
     require (r_ret r = 0);
     (r, s) \<leftarrow> syscall (Sys ''pthread_mutex_init'' []) s;
     require (r_ret r = 0);
     s \<leftarrow> create_threads (unat n) s;
     Some (upd_pool (\<lambda>p. p\<lparr>nthreads := n, pool_wq := [], pool_threads := replicate (unat n) At_lock, pool_initialized := True\<rparr>) s)
   }"

text \<open>\<open>worker\<close>, as the thread \<open>t\<close> runs it from one wait to the next; \<open>wk\<close> is what the work functions do.\<close>

definition worker_run ::
    "(work_fn \<Rightarrow> addr \<Rightarrow> 'a thloop_scheme \<Rightarrow> 'a thloop_scheme option) \<Rightarrow> nat \<Rightarrow> 'a thloop_scheme \<Rightarrow> 'a thloop_scheme option" where
  "worker_run wk t s =
     (case pool_threads (pool s) ! t of
        Has_work w \<Rightarrow> do {
          f \<leftarrow> uw_work (works (pool s) w);
          s \<leftarrow> (if f = Uv_cancelled then None else wk f w s);
          Some (upd_pool (set_pc t (Work_ran w)) s)
        }
      | Work_ran w \<Rightarrow> map_option snd (uv_async_send (wq_async s) (upd_pool (worker_finish t w) s))
      | Returned \<Rightarrow> None
      | _ \<Rightarrow> Some (upd_pool (worker_take t) s))"

text \<open>\<open>cleanup\<close> waits for the workers between these two; nothing calls it on Unix.\<close>

definition cleanup_begin :: "'a thloop_scheme \<Rightarrow> 'a thloop_scheme" where
  "cleanup_begin s = (if \<not> pool_initialized (pool s) then s else upd_pool (post None) s)"

definition cleanup_end :: "'a thloop_scheme \<Rightarrow> 'a thloop_scheme option" where
  "cleanup_end s =
     (if \<not> pool_initialized (pool s) then Some s
      else do {
        require (\<forall>pc \<in> set (pool_threads (pool s)). pc = Returned);
        Some (upd_pool (\<lambda>p. p\<lparr>pool_threads := [], nthreads := 0, pool_initialized := False\<rparr>) s)
      })"

definition uv__work_submit :: "addr \<Rightarrow> work_fn \<Rightarrow> done_fn \<Rightarrow> 'a thloop_scheme \<Rightarrow> 'a thloop_scheme option" where
  "uv__work_submit w f d s = do {
     s \<leftarrow> (if statics s ''threadpool_once'' then Some s else init_once (set_static ''threadpool_once'' s));
     Some (upd_pool (work_submit w f d) s)
   }"

definition uv__work_cancel :: "addr \<Rightarrow> 'a thloop_scheme \<Rightarrow> (int \<times> 'a thloop_scheme) option" where
  "uv__work_cancel w s =
     (case cancel_remove w (pool s) of
        (cancelled, p) \<Rightarrow>
          let s = s\<lparr>pool := p\<rparr>
          in if \<not> cancelled then Some (UV_EBUSY, s)
             else map_option (\<lambda>(_, s). (0, s)) (uv_async_send (wq_async s) (upd_pool (cancel_insert w) s)))"

text \<open>\<open>dcb\<close> is what the \<open>done\<close> functions do.  They may submit and cancel, so the queue is read again every time.\<close>

partial_function (option) work_done_loop ::
    "(done_fn \<Rightarrow> addr \<Rightarrow> int \<Rightarrow> 'a thloop_scheme \<Rightarrow> 'a thloop_scheme option) \<Rightarrow> 'a thloop_scheme \<Rightarrow> 'a thloop_scheme option" where
  "work_done_loop dcb s =
     (case work_local (pool s) of
        [] \<Rightarrow> Some s
      | w # q \<Rightarrow>
          let err = work_status w (pool s)
          in Option.bind (dcb (uw_done (works (pool s) w)) w err (upd_pool (\<lambda>p. p\<lparr>work_local := q\<rparr>) s)) (work_done_loop dcb))"

definition uv__work_done ::
    "(done_fn \<Rightarrow> addr \<Rightarrow> int \<Rightarrow> 'a thloop_scheme \<Rightarrow> 'a thloop_scheme option) \<Rightarrow> 'a thloop_scheme \<Rightarrow> 'a thloop_scheme option" where
  "uv__work_done dcb s = work_done_loop dcb (upd_pool work_done_move s)"

definition uv__queue_work :: "(callback \<Rightarrow> 'a thloop_scheme \<Rightarrow> 'a thloop_scheme) \<Rightarrow> addr \<Rightarrow> 'a thloop_scheme \<Rightarrow> 'a thloop_scheme option" where
  "uv__queue_work call w s = Some (invoke call (Work_cb w) s)"

definition uv__queue_done ::
    "(callback \<Rightarrow> 'a thloop_scheme \<Rightarrow> 'a thloop_scheme) \<Rightarrow> addr \<Rightarrow> int \<Rightarrow> 'a thloop_scheme \<Rightarrow> 'a thloop_scheme option" where
  "uv__queue_done call w err s = do {
     s \<leftarrow> req_unregister w s;
     Some (if wk_has_after_cb (work_reqs s w) then invoke call (Done_cb w err) s else s)
   }"

definition uv__req_init :: "addr \<Rightarrow> uv_req_type \<Rightarrow> 'a thloop_scheme \<Rightarrow> 'a thloop_scheme" where
  "uv__req_init r ty s = uv__req_register r (s\<lparr>req_type := (req_type s)(r := ty)\<rparr>)"

definition uv_queue_work :: "addr \<Rightarrow> bool \<Rightarrow> bool \<Rightarrow> 'a thloop_scheme \<Rightarrow> (int \<times> 'a thloop_scheme) option" where
  "uv_queue_work r work_cb after_work_cb s =
     (if \<not> work_cb then Some (UV_EINVAL, s)
      else do {
        let s = uv__req_init r UV_WORK s;
        let s = s\<lparr>work_reqs := (work_reqs s)(r := \<lparr>wk_has_work_cb = work_cb, wk_has_after_cb = after_work_cb\<rparr>)\<rparr>;
        s \<leftarrow> uv__work_submit r Queue_work Queue_done s;
        Some (0, s)
      })"

definition uv_cancel :: "addr \<Rightarrow> 'a thloop_scheme \<Rightarrow> (int \<times> 'a thloop_scheme) option" where
  "uv_cancel r s =
     (if req_type s r \<in> {UV_FS, UV_GETADDRINFO, UV_GETNAMEINFO, UV_WORK} then uv__work_cancel r s else Some (UV_EINVAL, s))"

section \<open>The threads together\<close>

text \<open>
  The workers and the loop's thread as one transition system.  A step is one critical section; between
  the two sections of \<open>uv__work_cancel\<close> the request is in no queue, so that no other thread's step sees
  the difference, and they are one step.  The loop's thread submits a request only when its last use
  has ended, and cancels it only until then.
\<close>

datatype pool_event =
    Submits addr work_fn done_fn | Runs addr "work_fn option" | Cancels addr bool | Done addr int done_fn | Internal

definition holds_work :: "worker_pc \<Rightarrow> (addr \<times> bool) option" where
  "holds_work pc = (case pc of Has_work w \<Rightarrow> Some (w, False) | Work_ran w \<Rightarrow> Some (w, True) | _ \<Rightarrow> None)"

definition holds :: "pool \<Rightarrow> nat \<Rightarrow> (addr \<times> bool) option" where
  "holds p t = (if t < length (pool_threads p) then holds_work (pool_threads p ! t) else None)"

definition outstanding :: "addr \<Rightarrow> pool \<Rightarrow> bool" where
  "outstanding w p \<longleftrightarrow> Some w \<in> set (pool_wq p) \<or> (\<exists>t b. holds p t = Some (w, b)) \<or> w \<in> set (loop_wq p) \<union> set (work_local p)"

inductive worker_step :: "nat \<Rightarrow> pool \<Rightarrow> pool_event \<Rightarrow> pool \<Rightarrow> bool" where
  step_take: "t < length (pool_threads p) \<Longrightarrow> pool_threads p ! t \<in> {At_lock, Woken} \<Longrightarrow> worker_step t p Internal (worker_take t p)"
| step_run: "t < length (pool_threads p) \<Longrightarrow> pool_threads p ! t = Has_work w \<Longrightarrow>
    worker_step t p (Runs w (uw_work (works p w))) (set_pc t (Work_ran w) p)"
| step_finish: "t < length (pool_threads p) \<Longrightarrow> pool_threads p ! t = Work_ran w \<Longrightarrow> worker_step t p Internal (worker_finish t w p)"

inductive pool_step :: "pool \<Rightarrow> pool_event \<Rightarrow> pool \<Rightarrow> bool" where
  step_worker: "worker_step t p e q \<Longrightarrow> pool_step p e q"
| step_spurious: "t < length (pool_threads p) \<Longrightarrow> pool_threads p ! t = In_wait \<Longrightarrow> pool_step p Internal (set_pc t Woken p)"
| step_pick: "pool_step p Internal (p\<lparr>cond_pick := k\<rparr>)"
| step_submit: "\<not> outstanding w p \<Longrightarrow> f \<noteq> Uv_cancelled \<Longrightarrow> pool_step p (Submits w f d) (work_submit w f d p)"
| step_busy: "outstanding w p \<Longrightarrow> cancel_remove w p = (False, q) \<Longrightarrow> pool_step p (Cancels w False) q"
| step_cancel: "outstanding w p \<Longrightarrow> cancel_remove w p = (True, q) \<Longrightarrow> pool_step p (Cancels w True) (cancel_insert w q)"
| step_move: "work_local p = [] \<Longrightarrow> pool_step p Internal (work_done_move p)"
| step_done: "work_local p = w # q \<Longrightarrow> pool_step p (Done w (work_status w p) (uw_done (works p w))) (p\<lparr>work_local := q\<rparr>)"

inductive pool_run :: "pool \<Rightarrow> pool_event list \<Rightarrow> pool \<Rightarrow> bool" where
  run_nil: "pool_run p [] p"
| run_snoc: "pool_run p es q \<Longrightarrow> pool_step q e r \<Longrightarrow> pool_run p (es @ [e]) r"

inductive_cases worker_stepE: "worker_step t p e q"
inductive_cases pool_stepE: "pool_step p e q"

text \<open>The state that \<open>init_once\<close> leaves.\<close>

definition pool_start :: "pool \<Rightarrow> bool" where
  "pool_start p \<longleftrightarrow> pool_wq p = [] \<and> loop_wq p = [] \<and> work_local p = [] \<and> idle_threads p = 0
     \<and> (\<forall>pc \<in> set (pool_threads p). pc = At_lock) \<and> pool_threads p \<noteq> [] \<and> length (pool_threads p) \<le> 128"

text \<open>What one request may go through: the specification.\<close>

datatype life = Unused | Queued work_fn done_fn | Finished done_fn | Cancelled done_fn

fun life_event :: "pool_event \<Rightarrow> life \<Rightarrow> life option" where
  "life_event (Submits w f d) Unused = Some (Queued f d)"
| "life_event (Runs w g) (Queued f d) = (if g = Some f then Some (Finished d) else None)"
| "life_event (Cancels w True) (Queued f d) = Some (Cancelled d)"
| "life_event (Cancels w True) (Cancelled d) = Some (Cancelled d)"
| "life_event (Cancels w False) (Queued f d) = Some (Queued f d)"
| "life_event (Cancels w False) (Finished d) = Some (Finished d)"
| "life_event (Done w err c) (Finished d) = (if err = 0 \<and> c = d then Some Unused else None)"
| "life_event (Done w err c) (Cancelled d) = (if err = UV_ECANCELED \<and> c = d then Some Unused else None)"
| "life_event _ _ = None"

fun event_req :: "pool_event \<Rightarrow> addr option" where
  "event_req (Submits w f d) = Some w"
| "event_req (Runs w f) = Some w"
| "event_req (Cancels w b) = Some w"
| "event_req (Done w err d) = Some w"
| "event_req Internal = None"

definition life_step :: "addr \<Rightarrow> pool_event \<Rightarrow> life \<Rightarrow> life option" where
  "life_step w e l = (if event_req e = Some w then life_event e l else Some l)"

definition life_run :: "addr \<Rightarrow> pool_event list \<Rightarrow> life option" where
  "life_run w es = fold (\<lambda>e l. Option.bind l (life_step w e)) es (Some Unused)"

definition life_of :: "pool \<Rightarrow> addr \<Rightarrow> life" where
  "life_of p w =
     (let x = works p w
      in if \<exists>t. holds p t = Some (w, True) then Finished (uw_done x)
         else if Some w \<in> set (pool_wq p) \<or> (\<exists>t. holds p t = Some (w, False)) then Queued (the (uw_work x)) (uw_done x)
         else if w \<in> set (loop_wq p) \<union> set (work_local p)
         then (if uw_work x = Some Uv_cancelled then Cancelled (uw_done x) else Finished (uw_done x))
         else Unused)"

definition has_fn :: "uv__work \<Rightarrow> bool" where
  "has_fn x \<longleftrightarrow> uw_work x \<noteq> None \<and> uw_work x \<noteq> Some Uv_cancelled"

lemma has_fn_linked [simp]: "has_fn (x\<lparr>uw_linked := b\<rparr>) = has_fn x"
  by (simp add: has_fn_def)

definition pool_ok :: "pool \<Rightarrow> bool" where
  "pool_ok p \<longleftrightarrow> distinct (pool_wq p) \<and> None \<notin> set (pool_wq p) \<and> distinct (loop_wq p @ work_local p)
     \<and> (\<forall>t u w b c. holds p t = Some (w, b) \<longrightarrow> holds p u = Some (w, c) \<longrightarrow> t = u)
     \<and> (\<forall>t w b. holds p t = Some (w, b) \<longrightarrow> Some w \<notin> set (pool_wq p) \<and> w \<notin> set (loop_wq p) \<union> set (work_local p)
          \<and> \<not> uw_linked (works p w) \<and> has_fn (works p w))
     \<and> (\<forall>w. Some w \<in> set (pool_wq p) \<longrightarrow> w \<notin> set (loop_wq p) \<union> set (work_local p) \<and> uw_linked (works p w) \<and> has_fn (works p w))
     \<and> (\<forall>w \<in> set (loop_wq p) \<union> set (work_local p). uw_linked (works p w) \<and> \<not> has_fn (works p w))"

lemma holds_set_pc: "t < length (pool_threads p) \<Longrightarrow> holds (set_pc t pc p) = (holds p)(t := holds_work pc)"
  by (auto simp: holds_def set_pc_def fun_eq_iff)

lemma set_pc_simps [simp]:
  "works (set_pc t pc p) = works p" "pool_wq (set_pc t pc p) = pool_wq p" "loop_wq (set_pc t pc p) = loop_wq p"
  "work_local (set_pc t pc p) = work_local p" "idle_threads (set_pc t pc p) = idle_threads p"
  "length (pool_threads (set_pc t pc p)) = length (pool_threads p)"
  by (simp_all add: set_pc_def)

lemma upd_work_simps [simp]:
  "works (upd_work w f p) = (works p)(w := f (works p w))" "pool_wq (upd_work w f p) = pool_wq p"
  "loop_wq (upd_work w f p) = loop_wq p" "work_local (upd_work w f p) = work_local p"
  "idle_threads (upd_work w f p) = idle_threads p" "pool_threads (upd_work w f p) = pool_threads p"
  "holds (upd_work w f p) = holds p" "waiters (upd_work w f p) = waiters p" "cond_pick (upd_work w f p) = cond_pick p"
  by (simp_all add: upd_work_def holds_def fun_eq_iff waiters_def)

lemma holds_upd [simp]:
  "holds (p\<lparr>pool_wq := a\<rparr>) = holds p" "holds (p\<lparr>loop_wq := b\<rparr>) = holds p" "holds (p\<lparr>work_local := b\<rparr>) = holds p"
  "holds (p\<lparr>idle_threads := i\<rparr>) = holds p" "holds (p\<lparr>cond_pick := k\<rparr>) = holds p" "holds (p\<lparr>works := x\<rparr>) = holds p"
  by (simp_all add: holds_def fun_eq_iff)

lemma waiters_nth: "waiters p \<noteq> [] \<Longrightarrow> i < length (waiters p) \<Longrightarrow>
  waiters p ! i < length (pool_threads p) \<and> pool_threads p ! (waiters p ! i) = In_wait"
  using nth_mem [of i "waiters p"] by (auto simp: waiters_def)

lemma cond_signal_cases:
  obtains "waiters p = []" "uv_cond_signal p = p"
  | t where "t < length (pool_threads p)" "pool_threads p ! t = In_wait" "uv_cond_signal p = set_pc t Woken p"
proof (cases "waiters p = []")
  case True
  then show ?thesis using that(1) by (simp add: uv_cond_signal_def)
next
  case False
  then show ?thesis using that(2) [of "waiters p ! (cond_pick p mod length (waiters p))"]
      waiters_nth [OF False, of "cond_pick p mod length (waiters p)"] by (simp add: uv_cond_signal_def)
qed

lemma cond_signal_simps [simp]:
  "works (uv_cond_signal p) = works p" "pool_wq (uv_cond_signal p) = pool_wq p" "loop_wq (uv_cond_signal p) = loop_wq p"
  "work_local (uv_cond_signal p) = work_local p" "idle_threads (uv_cond_signal p) = idle_threads p"
  "length (pool_threads (uv_cond_signal p)) = length (pool_threads p)"
  by (simp_all add: uv_cond_signal_def)

lemma holds_cond_signal [simp]: "holds (uv_cond_signal p) = holds p"
proof (rule cond_signal_cases [of p])
  fix t assume "t < length (pool_threads p)" "pool_threads p ! t = In_wait" "uv_cond_signal p = set_pc t Woken p"
  then show ?thesis by (simp add: holds_set_pc fun_eq_iff) (simp add: holds_def holds_work_def)
qed simp

text \<open>\<open>post\<close> changes what a waking worker looks at, and no one's request.\<close>

lemma post_simps [simp]:
  "pool_wq (post q p) = pool_wq p @ [q]" "loop_wq (post q p) = loop_wq p" "work_local (post q p) = work_local p"
  "holds (post q p) = holds p" "idle_threads (post q p) = idle_threads p"
  "works (post (Some w) p) = (works p)(w := (works p w)\<lparr>uw_linked := True\<rparr>)"
  "length (pool_threads (post q p)) = length (pool_threads p)"
  by (simp_all add: post_def Let_def split: option.split)

lemma pool_ok_cong:
  assumes "works q = works p" "pool_wq q = pool_wq p" "loop_wq q = loop_wq p" "work_local q = work_local p" "holds q = holds p"
  shows "pool_ok q = pool_ok p" "life_of q w = life_of p w"
  using assms by (simp_all add: pool_ok_def life_of_def Let_def)


definition holds_work_of :: "(addr \<times> bool) option \<Rightarrow> addr option" where
  "holds_work_of x = map_option fst x"

lemma life_of_cong:
  assumes "\<And>b. (\<exists>t. holds q t = Some (v, b)) = (\<exists>t. holds p t = Some (v, b))" "Some v \<in> set (pool_wq q) \<longleftrightarrow> Some v \<in> set (pool_wq p)"
    "v \<in> set (loop_wq q) \<union> set (work_local q) \<longleftrightarrow> v \<in> set (loop_wq p) \<union> set (work_local p)" "works q v = works p v"
  shows "life_of q v = life_of p v"
  unfolding life_of_def Let_def assms ..

lemma holds_other: "holds q = (holds p)(t := x) \<Longrightarrow> holds_work_of x \<noteq> Some v \<Longrightarrow> holds_work_of (holds p t) \<noteq> Some v \<Longrightarrow>
  (\<exists>u. holds q u = Some (v, b)) = (\<exists>u. holds p u = Some (v, b))"
  by (auto simp: holds_work_of_def)

lemma holds_inj: "pool_ok p \<Longrightarrow> holds p t = Some (w, b) \<Longrightarrow> holds p u = Some (w, c) \<Longrightarrow> u = t \<and> c = b"
  unfolding pool_ok_def by (metis option.inject prod.inject)

lemma pool_okD:
  assumes "pool_ok p" "holds p t = Some (w, b)"
  shows "Some w \<notin> set (pool_wq p)" "w \<notin> set (loop_wq p)" "w \<notin> set (work_local p)" "\<not> uw_linked (works p w)" "has_fn (works p w)"
  using assms unfolding pool_ok_def by blast+

lemma pool_ok_queuedD:
  assumes "pool_ok p" "Some w \<in> set (pool_wq p)"
  shows "holds p t \<noteq> Some (w, b)" "w \<notin> set (loop_wq p)" "w \<notin> set (work_local p)" "uw_linked (works p w)" "has_fn (works p w)"
  using assms unfolding pool_ok_def by blast+

text \<open>The steps, one by one: each keeps \<open>pool_ok\<close> and is the request's event.\<close>

lemma take_ok:
  assumes p: "pool_ok p" and t: "t < length (pool_threads p)" "pool_threads p ! t \<in> {At_lock, Woken}"
  shows "pool_ok (worker_take t p) \<and> life_of (worker_take t p) = life_of p"
proof -
  define p1 where "p1 = (if pool_threads p ! t = Woken then p\<lparr>idle_threads := idle_threads p - 1\<rparr> else p)"
  have p1: "works p1 = works p" "pool_wq p1 = pool_wq p" "loop_wq p1 = loop_wq p" "work_local p1 = work_local p" "holds p1 = holds p"
    "t < length (pool_threads p1)" using t by (simp_all add: p1_def)
  have n: "holds p t = None" using t by (auto simp: holds_def holds_work_def)
  show ?thesis
  proof (cases "pool_wq p")
    case Nil
    then have q: "worker_take t p = set_pc t In_wait (p1\<lparr>idle_threads := idle_threads p1 + 1\<rparr>)"
      by (simp add: worker_take_def p1_def Let_def)
    have "holds (worker_take t p) = holds p" using p1 n unfolding q by (subst holds_set_pc) (auto simp: fun_eq_iff holds_work_def)
    then show ?thesis using pool_ok_cong [of "worker_take t p" p] p p1 q by (simp add: fun_eq_iff)
  next
    case (Cons x r)
    moreover have "x \<noteq> None" using p Cons by (auto simp: pool_ok_def)
    ultimately obtain w where w: "pool_wq p = Some w # r" by auto
    define q where "q = worker_take t p"
    have q: "works q = (works p)(w := (works p w)\<lparr>uw_linked := False\<rparr>)" "pool_wq q = r" "loop_wq q = loop_wq p" "work_local q = work_local p"
      "holds q = (holds p)(t := Some (w, False))"
      using p1 w by (simp_all add: q_def worker_take_def p1_def [symmetric] Let_def holds_set_pc holds_work_def)
    have "Some w \<in> set (pool_wq p)" using w by simp
    note d = pool_ok_queuedD [OF p this]
    have "pool_ok q" using p w n d unfolding pool_ok_def q by auto
    moreover have "life_of q v = life_of p v" for v
    proof (cases "v = w")
      case True
      have "life_of q w = Queued (the (uw_work (works p w))) (uw_done (works p w))" using d(1) by (auto simp: life_of_def q Let_def)
      moreover have "life_of p w = Queued (the (uw_work (works p w))) (uw_done (works p w))" using d(1) w by (auto simp: life_of_def Let_def)
      ultimately show ?thesis using True by simp
    next
      case False
      show ?thesis using False n w holds_other [OF q(5)] q by (intro life_of_cong) (auto simp: holds_work_of_def)
    qed
    ultimately show ?thesis by (auto simp: q_def)
  qed
qed

lemma run_ok:
  assumes p: "pool_ok p" and t: "t < length (pool_threads p)" "pool_threads p ! t = Has_work w"
  shows "pool_ok (set_pc t (Work_ran w) p) \<and>
    life_step v (Runs w (uw_work (works p w))) (life_of p v) = Some (life_of (set_pc t (Work_ran w) p) v)"
proof -
  have n: "holds p t = Some (w, False)" using t by (simp add: holds_def holds_work_def)
  define q where "q = set_pc t (Work_ran w) p"
  have q: "works q = works p" "pool_wq q = pool_wq p" "loop_wq q = loop_wq p" "work_local q = work_local p"
    "holds q = (holds p)(t := Some (w, True))" using t by (simp_all add: q_def holds_set_pc holds_work_def)
  note d = pool_okD [OF p n]
  have u: "u = t \<and> b = False" if "holds p u = Some (w, b)" for u b using holds_inj [OF p n that] by simp
  have "pool_ok q" using p d u unfolding pool_ok_def q by auto
  moreover have "life_step v (Runs w (uw_work (works p w))) (life_of p v) = Some (life_of q v)"
  proof (cases "v = w")
    case True
    have "life_of p w = Queued (the (uw_work (works p w))) (uw_done (works p w))" using n u by (auto simp: life_of_def Let_def)
    moreover have "life_of q w = Finished (uw_done (works p w))" by (auto simp: life_of_def q Let_def)
    ultimately show ?thesis using d(5) True by (auto simp: life_step_def has_fn_def)
  next
    case False
    have "life_of q v = life_of p v" using False n holds_other [OF q(5)] q by (intro life_of_cong) (auto simp: holds_work_of_def)
    then show ?thesis using False by (simp add: life_step_def)
  qed
  ultimately show ?thesis by (simp add: q_def)
qed

lemma finish_ok:
  assumes p: "pool_ok p" and t: "t < length (pool_threads p)" "pool_threads p ! t = Work_ran w"
  shows "pool_ok (worker_finish t w p) \<and> life_of (worker_finish t w p) v = life_of p v"
proof -
  have n: "holds p t = Some (w, True)" using t by (simp add: holds_def holds_work_def)
  define q where "q = worker_finish t w p"
  have q: "works q = (works p)(w := (works p w)\<lparr>uw_work := None, uw_linked := True\<rparr>)" "pool_wq q = pool_wq p"
    "loop_wq q = loop_wq p @ [w]" "work_local q = work_local p" "holds q = (holds p)(t := None)"
    using t by (simp_all add: q_def worker_finish_def holds_set_pc holds_work_def)
  note d = pool_okD [OF p n]
  have u: "u = t" if "holds p u = Some (w, b)" for u b using holds_inj [OF p n that] by simp
  have "pool_ok q" using p d u unfolding pool_ok_def q by (auto simp: has_fn_def)
  moreover have "life_of q v = life_of p v"
  proof (cases "v = w")
    case True
    have "life_of p w = Finished (uw_done (works p w))" using n by (auto simp: life_of_def Let_def)
    moreover have "life_of q w = Finished (uw_done (works p w))" using d u by (auto simp: life_of_def q Let_def)
    ultimately show ?thesis using True by simp
  next
    case False
    show ?thesis using False n holds_other [OF q(5)] q by (intro life_of_cong) (auto simp: holds_work_of_def)
  qed
  ultimately show ?thesis by (simp add: q_def)
qed


lemma submit_ok:
  assumes p: "pool_ok p" and w: "\<not> outstanding w p" "f \<noteq> Uv_cancelled"
  shows "pool_ok (work_submit w f d p) \<and> life_step v (Submits w f d) (life_of p v) = Some (life_of (work_submit w f d p) v)"
proof -
  define q where "q = work_submit w f d p"
  have q: "works q = (works p)(w := (works p w)\<lparr>uw_work := Some f, uw_done := d, uw_linked := True\<rparr>)" "pool_wq q = pool_wq p @ [Some w]"
    "loop_wq q = loop_wq p" "work_local q = work_local p" "holds q = holds p"
    by (simp_all add: q_def work_submit_def)
  have "pool_ok q" using p w unfolding pool_ok_def q outstanding_def has_fn_def by auto
  moreover have "life_step v (Submits w f d) (life_of p v) = Some (life_of q v)"
  proof (cases "v = w")
    case True
    then show ?thesis using w by (auto simp: life_of_def q life_step_def outstanding_def)
  next
    case False
    have "life_of q v = life_of p v" using False q by (intro life_of_cong) auto
    then show ?thesis using False by (simp add: life_step_def)
  qed
  ultimately show ?thesis by (simp add: q_def)
qed

lemma cancel_ok:
  assumes p: "pool_ok p" and w: "outstanding w p" "cancel_remove w p = (True, q)"
  shows "pool_ok (cancel_insert w q) \<and> life_step v (Cancels w True) (life_of p v) = Some (life_of (cancel_insert w q) v)"
proof -
  define r where "r = cancel_insert w q"
  have l: "uw_linked (works p w)" "uw_work (works p w) \<noteq> None" using w(2) by (auto simp: cancel_remove_def split: if_splits)
  have h: "holds p t \<noteq> Some (w, b)" for t b using pool_okD(4) [OF p] l by blast
  have r: "works r = (works p)(w := (works p w)\<lparr>uw_work := Some Uv_cancelled, uw_linked := True\<rparr>)" "pool_wq r = remove1 (Some w) (pool_wq p)"
    "loop_wq r = remove1 w (loop_wq p) @ [w]" "work_local r = remove1 w (work_local p)" "holds r = holds p"
    using w(2) l by (auto simp: r_def cancel_insert_def cancel_remove_def)
  have "pool_ok r" using p h unfolding pool_ok_def r has_fn_def by (auto simp: distinct_remove1)
  moreover have "life_step v (Cancels w True) (life_of p v) = Some (life_of r v)"
  proof (cases "v = w")
    case True
    have "life_of r w = Cancelled (uw_done (works p w))" using h p by (auto simp: life_of_def r pool_ok_def)
    moreover have "life_event (Cancels w True) (life_of p w) = Some (Cancelled (uw_done (works p w)))"
    proof (cases "Some w \<in> set (pool_wq p)")
      case False
      then have m: "w \<in> set (loop_wq p) \<union> set (work_local p)" using w(1) h by (simp add: outstanding_def)
      then have "uw_work (works p w) = Some Uv_cancelled" using p l(2) unfolding pool_ok_def has_fn_def by blast
      then show ?thesis using h False m by (simp add: life_of_def)
    qed (simp add: life_of_def h Let_def)
    ultimately show ?thesis using True by (simp add: life_step_def)
  next
    case False
    have "life_of r v = life_of p v" using False r p by (intro life_of_cong) (auto simp: pool_ok_def in_set_remove1)
    then show ?thesis using False by (simp add: life_step_def)
  qed
  ultimately show ?thesis by (simp add: r_def)
qed

lemma busy_ok:
  assumes p: "pool_ok p" and w: "outstanding w p" "cancel_remove w p = (False, q)"
  shows "q = p \<and> life_step v (Cancels w False) (life_of p v) = Some (life_of p v)"
proof -
  have l: "q = p" "\<not> uw_linked (works p w) \<or> uw_work (works p w) = None" using w(2) by (auto simp: cancel_remove_def split: if_splits)
  have "life_event (Cancels w False) (life_of p w) = Some (life_of p w)"
  proof (cases "\<exists>t b. holds p t = Some (w, b)")
    case True
    then have "(\<exists>t. holds p t = Some (w, True)) \<or> (\<exists>t. holds p t = Some (w, False))" by (metis (full_types))
    then show ?thesis by (auto simp: life_of_def Let_def)
  next
    case False
    moreover have "Some w \<notin> set (pool_wq p)" using pool_ok_queuedD(4,5) [OF p, of w] l(2) by (auto simp: has_fn_def)
    ultimately have "w \<in> set (loop_wq p) \<union> set (work_local p)" using w(1) by (auto simp: outstanding_def)
    moreover from this have "uw_linked (works p w)" using p unfolding pool_ok_def by blast
    ultimately show ?thesis using False l(2) by (simp add: life_of_def Let_def \<open>Some w \<notin> set (pool_wq p)\<close>)
  qed
  then show ?thesis using l(1) by (auto simp: life_step_def)
qed

lemma done_ok:
  assumes p: "pool_ok p" and w: "work_local p = w # l"
  shows "pool_ok (p\<lparr>work_local := l\<rparr>)
    \<and> life_step v (Done w (work_status w p) (uw_done (works p w))) (life_of p v) = Some (life_of (p\<lparr>work_local := l\<rparr>) v)"
proof -
  have h: "holds p t \<noteq> Some (w, b)" for t b using pool_okD(3) [OF p] w by fastforce
  have "pool_ok (p\<lparr>work_local := l\<rparr>)" using p w unfolding pool_ok_def by auto
  moreover have "life_step v (Done w (work_status w p) (uw_done (works p w))) (life_of p v) = Some (life_of (p\<lparr>work_local := l\<rparr>) v)"
  proof (cases "v = w")
    case True
    have "w \<notin> set (loop_wq p)" "w \<notin> set l" "Some w \<notin> set (pool_wq p)" using p w unfolding pool_ok_def by auto
    then have "life_of (p\<lparr>work_local := l\<rparr>) w = Unused" using h by (simp add: life_of_def)
    moreover have "life_of p w = (if uw_work (works p w) = Some Uv_cancelled then Cancelled (uw_done (works p w)) else Finished (uw_done (works p w)))"
      using h w \<open>Some w \<notin> set (pool_wq p)\<close> by (simp add: life_of_def)
    ultimately show ?thesis using True by (simp add: life_step_def work_status_def)
  next
    case False
    have "life_of (p\<lparr>work_local := l\<rparr>) v = life_of p v" using False w by (intro life_of_cong) auto
    then show ?thesis using False by (simp add: life_step_def)
  qed
  ultimately show ?thesis ..
qed

lemma move_ok: "pool_ok p \<Longrightarrow> work_local p = [] \<Longrightarrow> pool_ok (work_done_move p) \<and> life_of (work_done_move p) v = life_of p v"
  unfolding pool_ok_def life_of_def work_done_move_def by (auto simp: Let_def holds_def)


lemma pool_step_ok:
  assumes "pool_step p e q" "pool_ok p"
  shows "pool_ok q \<and> life_step v e (life_of p v) = Some (life_of q v)"
  using assms(1)
proof cases
  case (step_worker t)
  then show ?thesis
  proof cases
    case step_take
    then show ?thesis using take_ok [OF assms(2)] by (simp add: life_step_def)
  next
    case (step_run w)
    then show ?thesis using run_ok [OF assms(2)] by simp
  next
    case (step_finish w)
    then show ?thesis using finish_ok [OF assms(2)] by (simp add: life_step_def)
  qed
next
  case (step_spurious t)
  have "holds q = holds p"
    using step_spurious by (simp add: holds_set_pc fun_eq_iff) (simp add: holds_work_def holds_def)
  then show ?thesis using pool_ok_cong [of q p] assms(2) step_spurious by (simp add: life_step_def)
next
  case (step_pick k)
  then show ?thesis using pool_ok_cong [of q p] assms(2) by (simp add: life_step_def)
next
  case (step_submit w f d)
  then show ?thesis using submit_ok [OF assms(2)] by simp
next
  case (step_busy w)
  then show ?thesis using busy_ok [OF assms(2)] assms(2) by metis
next
  case (step_cancel w r)
  then show ?thesis using cancel_ok [OF assms(2)] by simp
next
  case step_move
  then show ?thesis using move_ok [OF assms(2)] by (simp add: life_step_def)
next
  case (step_done w l)
  then show ?thesis using done_ok [OF assms(2)] by simp
qed

lemma holds_start: "\<forall>pc \<in> set (pool_threads p). pc = At_lock \<Longrightarrow> holds p t = None"
  by (auto simp: holds_def holds_work_def dest!: nth_mem)

lemma pool_run_ok:
  assumes "pool_run p es q" "pool_start p"
  shows "pool_ok q \<and> life_run v es = Some (life_of q v)"
  using assms
proof (induction rule: pool_run.induct)
  case (run_nil p)
  then show ?case by (auto simp: pool_start_def pool_ok_def life_run_def life_of_def holds_start)
next
  case (run_snoc p es q e r)
  then show ?case using pool_step_ok [of q e r v] by (simp add: life_run_def)
qed

section \<open>No submitted request is forgotten\<close>

definition idle_set :: "pool \<Rightarrow> nat set" where
  "idle_set p = {t. t < length (pool_threads p) \<and> pool_threads p ! t \<in> {In_wait, Woken}}"

definition awake :: "pool \<Rightarrow> bool" where
  "awake p \<longleftrightarrow> (\<exists>t < length (pool_threads p). pool_threads p ! t \<noteq> In_wait)"

definition wait_ok :: "pool \<Rightarrow> bool" where
  "wait_ok p \<longleftrightarrow> pool_threads p \<noteq> [] \<and> length (pool_threads p) \<le> 128 \<and> Returned \<notin> set (pool_threads p) \<and> None \<notin> set (pool_wq p)
     \<and> idle_threads p = of_nat (card (idle_set p)) \<and> (pool_wq p \<noteq> [] \<longrightarrow> awake p)"

lemma idle_set_finite [simp]: "finite (idle_set p)"
  by (simp add: idle_set_def)

lemma idle_set_set_pc:
  "t < length (pool_threads p) \<Longrightarrow> idle_set (set_pc t pc p) = (if pc \<in> {In_wait, Woken} then insert t (idle_set p) else idle_set p - {t})"
  by (auto simp: idle_set_def set_pc_def nth_list_update)

lemma idle_set_cong: "pool_threads q = pool_threads p \<Longrightarrow> idle_set q = idle_set p"
  by (simp add: idle_set_def)

lemma awake_cong: "pool_threads q = pool_threads p \<Longrightarrow> awake q = awake p"
  by (simp add: awake_def)

lemma awake_set_pc: "t < length (pool_threads p) \<Longrightarrow> pc \<noteq> In_wait \<Longrightarrow> awake (set_pc t pc p)"
  by (auto simp: awake_def set_pc_def)

lemma set_pc_keeps: "pc \<noteq> Returned \<Longrightarrow> Returned \<notin> set (pool_threads p) \<Longrightarrow> Returned \<notin> set (pool_threads (set_pc t pc p))"
  by (auto simp: set_pc_def dest: set_update_subset_insert [THEN subsetD])

lemma set_pc_nonempty [simp]: "pool_threads (set_pc t pc p) = [] \<longleftrightarrow> pool_threads p = []"
  by (simp add: set_pc_def)

lemma idle_positive: "wait_ok p \<Longrightarrow> idle_threads p > 0 \<longleftrightarrow> idle_set p \<noteq> {}"
proof -
  assume p: "wait_ok p"
  have "idle_set p \<subseteq> {..<length (pool_threads p)}" by (auto simp: idle_set_def)
  then have "card (idle_set p) \<le> 128" using p card_mono [of "{..<length (pool_threads p)}" "idle_set p"] by (simp add: wait_ok_def)
  then have "(of_nat (card (idle_set p)) :: u32) = of_nat 0 \<longleftrightarrow> card (idle_set p) = 0"
    by (simp add: word_unat_eq_iff unat_of_nat take_bit_nat_eq_self)
  then show ?thesis using p by (simp add: wait_ok_def word_gt_0)
qed

lemma take_wait_ok:
  assumes p: "wait_ok p" and t: "t < length (pool_threads p)" "pool_threads p ! t \<in> {At_lock, Woken}"
  shows "wait_ok (worker_take t p)"
proof -
  define p1 where "p1 = (if pool_threads p ! t = Woken then p\<lparr>idle_threads := idle_threads p - 1\<rparr> else p)"
  have p1: "pool_threads p1 = pool_threads p" "pool_wq p1 = pool_wq p" "idle_threads p1 = of_nat (card (idle_set p - {t}))"
  proof -
    have "t \<in> idle_set p \<longleftrightarrow> pool_threads p ! t = Woken" using t by (auto simp: idle_set_def)
    moreover define n where "n = card (idle_set p - {t})"
    ultimately have "card (idle_set p) = (if pool_threads p ! t = Woken then Suc n else n)"
      using card.remove [OF idle_set_finite, of t p] by simp
    then have "idle_threads p1 = of_nat n" using p by (simp add: p1_def wait_ok_def)
    then show "idle_threads p1 = of_nat (card (idle_set p - {t}))" unfolding n_def .
  qed (simp_all add: p1_def)
  have i1: "idle_set p1 = idle_set p" using p1(1) by (rule idle_set_cong)
  show ?thesis
  proof (cases "pool_wq p")
    case Nil
    then have q: "worker_take t p = set_pc t In_wait (p1\<lparr>idle_threads := idle_threads p1 + 1\<rparr>)"
      by (simp add: worker_take_def p1_def Let_def)
    have "idle_set (p1\<lparr>idle_threads := idle_threads p1 + 1\<rparr>) = idle_set p" using p1(1) by (intro idle_set_cong) simp
    then have "idle_set (worker_take t p) = insert t (idle_set p - {t})" unfolding q using t p1(1) by (subst idle_set_set_pc) auto
    moreover have "idle_threads (worker_take t p) = of_nat (Suc (card (idle_set p - {t})))" unfolding q using p1 by simp
    ultimately show ?thesis using p p1 Nil unfolding q wait_ok_def
      by (auto simp: card.insert_remove set_pc_keeps simp flip: of_nat_Suc)
  next
    case (Cons x r)
    then obtain w where w: "pool_wq p = Some w # r" using p by (cases x) (auto simp: wait_ok_def)
    have q: "worker_take t p = set_pc t (Has_work w) (upd_work w (\<lambda>x. x\<lparr>uw_linked := False\<rparr>) (p1\<lparr>pool_wq := r\<rparr>))"
      using w by (simp add: worker_take_def p1_def Let_def)
    have "idle_set (upd_work w (\<lambda>x. x\<lparr>uw_linked := False\<rparr>) (p1\<lparr>pool_wq := r\<rparr>)) = idle_set p" using p1(1) by (intro idle_set_cong) simp
    then have "idle_set (worker_take t p) = idle_set p - {t}" unfolding q using t p1(1) by (subst idle_set_set_pc) auto
    moreover have "awake (worker_take t p)" unfolding q using t p1(1) by (intro awake_set_pc) simp_all
    ultimately show ?thesis using p p1 w unfolding q wait_ok_def by (auto simp: set_pc_keeps)
  qed
qed

lemma post_wait_ok: "wait_ok p \<Longrightarrow> wait_ok (post (Some w) p)"
proof -
  assume p: "wait_ok p"
  define p1 where "p1 = upd_work w (\<lambda>x. x\<lparr>uw_linked := True\<rparr>) (p\<lparr>pool_wq := pool_wq p @ [Some w]\<rparr>)"
  have p1: "pool_threads p1 = pool_threads p" "idle_threads p1 = idle_threads p" "pool_wq p1 = pool_wq p @ [Some w]" by (simp_all add: p1_def)
  have q: "post (Some w) p = (if idle_threads p1 > 0 then uv_cond_signal p1 else p1)" by (simp add: post_def p1_def)
  have i: "idle_set p1 = idle_set p" using p1(1) by (rule idle_set_cong)
  show ?thesis
  proof (cases "idle_threads p > 0")
    case False
    then have "idle_set p = {}" using idle_positive [OF p] by blast
    then have "awake p1" using p p1(1) by (auto simp: awake_def idle_set_def wait_ok_def intro!: exI [of _ 0])
    then show ?thesis using False p p1 i unfolding q wait_ok_def by simp
  next
    case True
    have c: "awake (uv_cond_signal p1) \<and> idle_set (uv_cond_signal p1) = idle_set p
      \<and> Returned \<notin> set (pool_threads (uv_cond_signal p1)) \<and> pool_threads (uv_cond_signal p1) \<noteq> []"
    proof (rule cond_signal_cases [of p1])
      assume "waiters p1 = []" "uv_cond_signal p1 = p1"
      then have "\<forall>t < length (pool_threads p). pool_threads p ! t \<noteq> In_wait" using p1(1) by (auto simp: waiters_def filter_empty_conv)
      then show ?thesis using p p1 i \<open>uv_cond_signal p1 = p1\<close> by (auto simp: awake_def wait_ok_def intro!: exI [of _ 0])
    next
      fix t assume s: "t < length (pool_threads p1)" "pool_threads p1 ! t = In_wait" "uv_cond_signal p1 = set_pc t Woken p1"
      then have "t \<in> idle_set p1" by (simp add: idle_set_def)
      then show ?thesis using p p1 i s by (auto simp: awake_set_pc idle_set_set_pc wait_ok_def set_pc_keeps)
    qed
    then show ?thesis using True p p1 i unfolding q wait_ok_def by simp
  qed
qed


lemma set_pc_wait_ok:
  assumes "wait_ok p" "t < length (pool_threads p)" "pc \<noteq> In_wait" "pc \<noteq> Returned" "pc = Woken \<longleftrightarrow> t \<in> idle_set p"
  shows "wait_ok (set_pc t pc p)"
proof -
  have "idle_set (set_pc t pc p) = idle_set p" using assms by (auto simp: idle_set_set_pc)
  then show ?thesis using assms awake_set_pc [OF assms(2,3)] by (auto simp: wait_ok_def set_pc_keeps)
qed

lemma wait_ok_cong: "pool_threads q = pool_threads p \<Longrightarrow> idle_threads q = idle_threads p \<Longrightarrow> None \<notin> set (pool_wq q) \<Longrightarrow>
  (pool_wq q \<noteq> [] \<Longrightarrow> pool_wq p \<noteq> []) \<Longrightarrow> wait_ok p \<Longrightarrow> wait_ok q"
  by (auto simp: wait_ok_def awake_def idle_set_def)

lemma worker_step_wait_ok: "worker_step t p e q \<Longrightarrow> wait_ok p \<Longrightarrow> wait_ok q"
proof (erule worker_step.cases, goal_cases)
  case (2 t p w)
  then show ?case by (auto intro!: set_pc_wait_ok simp: idle_set_def)
next
  case (3 t p w)
  define r where "r = upd_work w (\<lambda>x. x\<lparr>uw_work := None, uw_linked := True\<rparr>) (p\<lparr>loop_wq := loop_wq p @ [w]\<rparr>)"
  have r: "pool_threads r = pool_threads p" "idle_threads r = idle_threads p" "pool_wq r = pool_wq p" by (simp_all add: r_def)
  have "wait_ok r" using 3 r by (intro wait_ok_cong [of r p]) (auto simp: wait_ok_def)
  moreover have "q = set_pc t At_lock r" using 3 by (simp add: worker_finish_def r_def)
  ultimately show ?case using 3 r by (auto intro!: set_pc_wait_ok simp: idle_set_def)
qed (auto intro: take_wait_ok)

lemma pool_step_wait_ok: "pool_step p e q \<Longrightarrow> wait_ok p \<Longrightarrow> wait_ok q"
proof (erule pool_step.cases, goal_cases)
  case (2 t p)
  then show ?case by (auto intro!: set_pc_wait_ok simp: idle_set_def)
next
  case (4 w p f d)
  define r where "r = upd_work w (\<lambda>x. x\<lparr>uw_work := Some f, uw_done := d\<rparr>) p"
  have "wait_ok r" using 4 by (intro wait_ok_cong [of r p]) (auto simp: wait_ok_def r_def)
  then show ?case using 4 post_wait_ok [of r w] by (simp add: work_submit_def r_def)
next
  case (6 w p r)
  then have "pool_threads r = pool_threads p" "idle_threads r = idle_threads p" "pool_wq r = remove1 (Some w) (pool_wq p)"
    by (auto simp: cancel_remove_def split: if_splits)
  then have "pool_threads q = pool_threads p" "idle_threads q = idle_threads p" "pool_wq q = remove1 (Some w) (pool_wq p)"
    using 6 by (simp_all add: cancel_insert_def)
  then show ?case using 6 by (intro wait_ok_cong [of q p]) (auto simp: wait_ok_def dest: notin_set_remove1)
next
  case (1 t p e q)
  then show ?case by (auto intro: worker_step_wait_ok)
next
  case (3 p k)
  then show ?case by (intro wait_ok_cong [of q p]) (auto simp: wait_ok_def)
next
  case (5 w p r)
  then have "q = p" by (simp add: cancel_remove_def split: if_splits)
  then show ?case using 5 by simp
next
  case (7 p)
  then show ?case by (intro wait_ok_cong [of q p]) (auto simp: wait_ok_def work_done_move_def)
next
  case (8 p w l)
  then show ?case by (intro wait_ok_cong [of q p]) (auto simp: wait_ok_def)
qed

lemma pool_run_wait_ok: "pool_run p es q \<Longrightarrow> pool_start p \<Longrightarrow> wait_ok q"
proof (induction rule: pool_run.induct)
  case (run_nil p)
  then have "idle_set p = {}" by (auto simp: pool_start_def idle_set_def dest!: nth_mem)
  with run_nil show ?case by (auto simp: pool_start_def wait_ok_def)
qed (blast intro: pool_step_wait_ok)

text \<open>What a worker does by itself: finish what it has, and take the next request.\<close>

definition works_alone :: "nat \<Rightarrow> pool \<Rightarrow> pool \<Rightarrow> bool" where
  "works_alone t p q \<longleftrightarrow> (\<exists>e. worker_step t p e q)"

lemma alone_take:
  assumes "t < length (pool_threads p)" "pool_threads p ! t \<in> {At_lock, Woken}" "pool_wq p = Some w # l"
  shows "\<exists>q. (works_alone t)\<^sup>*\<^sup>* p q \<and> pool_threads q ! t = Has_work w"
proof -
  have "works_alone t p (worker_take t p)" using assms step_take by (auto simp: works_alone_def)
  moreover have "pool_threads (worker_take t p) ! t = Has_work w" using assms by (auto simp: worker_take_def Let_def set_pc_def upd_work_def)
  ultimately show ?thesis by blast
qed

lemma alone_finish:
  assumes "t < length (pool_threads p)" "pool_threads p ! t = Work_ran v" "pool_wq p = Some w # l"
  shows "\<exists>q. (works_alone t)\<^sup>*\<^sup>* p q \<and> pool_threads q ! t = Has_work w"
proof -
  let ?q = "worker_finish t v p"
  have "works_alone t p ?q" using assms step_finish by (auto simp: works_alone_def)
  moreover have "\<exists>q. (works_alone t)\<^sup>*\<^sup>* ?q q \<and> pool_threads q ! t = Has_work w"
    using assms by (intro alone_take) (auto simp: worker_finish_def set_pc_def upd_work_def)
  ultimately show ?thesis by (meson converse_rtranclp_into_rtranclp)
qed

lemma alone_run:
  assumes "t < length (pool_threads p)" "pool_threads p ! t = Has_work v" "pool_wq p = Some w # l"
  shows "\<exists>q. (works_alone t)\<^sup>*\<^sup>* p q \<and> pool_threads q ! t = Has_work w"
proof -
  let ?q = "set_pc t (Work_ran v) p"
  have "works_alone t p ?q" using assms step_run by (auto simp: works_alone_def)
  moreover have "\<exists>q. (works_alone t)\<^sup>*\<^sup>* ?q q \<and> pool_threads q ! t = Has_work w"
    using assms by (intro alone_finish) (auto simp: set_pc_def)
  ultimately show ?thesis by (meson converse_rtranclp_into_rtranclp)
qed

definition one_worker :: pool where
  "one_worker = \<lparr>works = (\<lambda>_. \<lparr>uw_work = None, uw_done = Queue_done, uw_linked = False\<rparr>), pool_wq = [], idle_threads = 0, nthreads = 1,
     pool_threads = [At_lock], pool_initialized = True, cond_pick = 0, loop_wq = [], work_local = []\<rparr>"

lemma one_worker_start: "pool_start one_worker"
  by (simp add: pool_start_def one_worker_def)

lemma one_worker_submit:
  "pool_run one_worker [Submits 7 Queue_work Queue_done] (work_submit 7 Queue_work Queue_done one_worker)"
  using run_snoc [OF run_nil step_submit [of 7 one_worker Queue_work Queue_done]]
  by (auto simp: outstanding_def one_worker_def holds_def holds_work_def)

lemma one_worker_cancel:
  "pool_run one_worker [Submits 7 Queue_work Queue_done, Cancels 7 True]
     (cancel_insert 7 (snd (cancel_remove 7 (work_submit 7 Queue_work Queue_done one_worker))))"
proof -
  let ?p = "work_submit 7 Queue_work Queue_done one_worker"
  have "outstanding 7 ?p" by (simp add: outstanding_def work_submit_def)
  moreover have "cancel_remove 7 ?p = (True, snd (cancel_remove 7 ?p))" by (simp add: cancel_remove_def work_submit_def)
  ultimately have "pool_step ?p (Cancels 7 True) (cancel_insert 7 (snd (cancel_remove 7 ?p)))" by (rule step_cancel)
  from run_snoc [OF one_worker_submit this] show ?thesis by simp
qed

section \<open>Properties\<close>

text \<open>C3: The thread pool: in every run of the workers and the loop's thread, the events of each request
  follow its specification: it runs once, with the function it was submitted with, or is cancelled and never
  runs; \<open>uv_cancel\<close> succeeds exactly while it is queued or cancelled; and its \<open>done\<close> function is called once,
  with \<open>UV_ECANCELED\<close> if it was cancelled and 0 otherwise.\<close>
theorem work_runs_once_or_is_cancelled:
  assumes "pool_start p" "pool_run p es q"
  shows "\<exists>l. life_run w es = Some l \<and> (l = Unused \<longleftrightarrow> \<not> outstanding w q)"
proof -
  have "life_of q w = Unused \<longleftrightarrow> \<not> outstanding w q" unfolding life_of_def outstanding_def Let_def by (auto simp: all_bool_eq ex_bool_eq)
  then show ?thesis using pool_run_ok [OF assms(2,1), of w] by blast
qed

theorem work_runs_once_or_is_cancelled_witness:
  "\<exists>l. life_run 7 [Submits 7 Queue_work Queue_done, Cancels 7 True] = Some l
     \<and> (l = Unused \<longleftrightarrow> \<not> outstanding 7 (cancel_insert 7 (snd (cancel_remove 7 (work_submit 7 Queue_work Queue_done one_worker)))))"
  by (rule work_runs_once_or_is_cancelled [OF one_worker_start one_worker_cancel])

text \<open>C17: No submitted request is forgotten: in every run, when the queue of the pool starts with a request,
  some worker comes to take it without being signalled again.\<close>
theorem queued_work_is_taken:
  assumes "pool_start p" "pool_run p es q" "pool_wq q = Some w # l"
  shows "\<exists>t r. (works_alone t)\<^sup>*\<^sup>* q r \<and> pool_threads r ! t = Has_work w"
proof -
  obtain t where t: "t < length (pool_threads q)" "pool_threads q ! t \<noteq> In_wait"
    using pool_run_wait_ok [OF assms(2,1)] assms(3) by (auto simp: wait_ok_def awake_def)
  have "pool_threads q ! t \<noteq> Returned" using pool_run_wait_ok [OF assms(2,1)] t(1) by (auto simp: wait_ok_def dest: nth_mem)
  with t show ?thesis using alone_take [OF t(1) _ assms(3)] alone_finish [OF t(1) _ assms(3)] alone_run [OF t(1) _ assms(3)]
    by (cases "pool_threads q ! t") blast+
qed


theorem queued_work_is_taken_witness:
  "\<exists>t r. (works_alone t)\<^sup>*\<^sup>* (work_submit 7 Queue_work Queue_done one_worker) r \<and> pool_threads r ! t = Has_work 7"
  by (rule queued_work_is_taken [OF one_worker_start one_worker_submit]) (simp add: work_submit_def one_worker_def)

text \<open>C31: The limit of that specification: while the \<open>done\<close> function of a cancelled request runs, the request
  is in no queue but still looks queued, so that \<open>uv_cancel\<close> succeeds once more, queues it again, and
  the \<open>done\<close> function will be called a second time.\<close>
theorem cancel_in_done_callback:
  assumes "pool_start s" "pool_run s es p" "work_local p = w # l" "uw_work (works p w) = Some Uv_cancelled"
  shows "\<exists>q. \<not> outstanding w (p\<lparr>work_local := l\<rparr>) \<and> cancel_remove w (p\<lparr>work_local := l\<rparr>) = (True, q) \<and> w \<in> set (loop_wq (cancel_insert w q))"
proof -
  have p: "pool_ok p" using pool_run_ok [OF assms(2,1)] by simp
  have h: "holds p t \<noteq> Some (w, b)" for t b using pool_okD(3) [OF p] assms(3) by fastforce
  have "uw_linked (works p w)" "w \<notin> set (loop_wq p)" "w \<notin> set l" "Some w \<notin> set (pool_wq p)"
    using p assms(3) unfolding pool_ok_def by auto
  then show ?thesis using h assms(4) by (auto simp: outstanding_def cancel_remove_def cancel_insert_def)
qed

theorem cancel_in_done_callback_witness:
  "\<exists>p q. \<not> outstanding 7 (p\<lparr>work_local := []\<rparr>) \<and> cancel_remove 7 (p\<lparr>work_local := []\<rparr>) = (True, q) \<and> 7 \<in> set (loop_wq (cancel_insert 7 q))"
proof -
  let ?p = "cancel_insert 7 (snd (cancel_remove 7 (work_submit 7 Queue_work Queue_done one_worker)))"
  have e: "work_local ?p = []" "loop_wq ?p = [7]" "uw_work (works ?p 7) = Some Uv_cancelled"
    by (simp_all add: cancel_insert_def cancel_remove_def work_submit_def one_worker_def)
  have "pool_run one_worker ([Submits 7 Queue_work Queue_done, Cancels 7 True] @ [Internal]) (work_done_move ?p)"
    using run_snoc [OF one_worker_cancel step_move [OF e(1)]] .
  from cancel_in_done_callback [OF one_worker_start this, of 7 "[]"] e show ?thesis by (auto simp: work_done_move_def)
qed

end
