(* ===== verification/Fs.thy ===== *)
theory Fs
  imports Threadpool
begin

text \<open>
  File system requests, \<open>src/unix/fs.cpp\<close>.  A request without a callback runs at once in the calling
  thread, one with a callback in a worker.  A buffer to write is its bytes, a buffer to read into
  its length (as many bytes, not looked at); \<open>fs_data\<close> is what reading has stored in the buffers, in
  order.  A file time is a \<open>double\<close> in the code: here it is the pair of the two conversions that the
  code makes of it, \<open>(time_t) t\<close> and \<open>(uint64_t) (t * 1000000)\<close>.  What \<open>stat\<close> fills in comes in \<open>r_nums\<close>.
\<close>

datatype uv_fs_type =
    UV_FS_UNKNOWN | UV_FS_CUSTOM | UV_FS_OPEN | UV_FS_CLOSE | UV_FS_READ | UV_FS_WRITE | UV_FS_SENDFILE | UV_FS_STAT
  | UV_FS_LSTAT | UV_FS_FSTAT | UV_FS_FTRUNCATE | UV_FS_UTIME | UV_FS_FUTIME | UV_FS_ACCESS | UV_FS_CHMOD | UV_FS_FCHMOD
  | UV_FS_FSYNC | UV_FS_FDATASYNC | UV_FS_UNLINK | UV_FS_RMDIR | UV_FS_MKDIR | UV_FS_MKDTEMP | UV_FS_RENAME | UV_FS_SCANDIR
  | UV_FS_LINK | UV_FS_SYMLINK | UV_FS_READLINK | UV_FS_CHOWN | UV_FS_FCHOWN | UV_FS_REALPATH

record uv_stat_t =
  st_dev :: int
  st_mode :: int
  st_nlink :: int
  st_uid :: int
  st_gid :: int
  st_rdev :: int
  st_ino :: int
  st_size :: int
  st_blksize :: int
  st_blocks :: int
  st_flags :: int
  st_gen :: int
  st_atim :: "int \<times> int"
  st_mtim :: "int \<times> int"
  st_ctim :: "int \<times> int"
  st_birthtim :: "int \<times> int"

datatype fs_ptr = Ptr_null | Ptr_statbuf | Ptr_dents "(string \<times> int) list" | Ptr_text string

text \<open>The callback: the user's, or \<open>poll_cb\<close> of \<open>src/fs-poll.cpp\<close>.\<close>

datatype fs_cb = User_fs_cb | Poll_fs_cb

record uv_fs_t =
  fs_type :: uv_fs_type
  fs_cb :: "fs_cb option"
  fs_result :: int
  fs_ptr :: fs_ptr
  fs_path :: "string option"
  fs_new_path :: "string option"
  fs_statbuf :: uv_stat_t
  fs_file :: int
  fs_flags :: int
  fs_mode :: int
  fs_nbufs :: nat
  fs_bufs :: "u8 list list option"
  fs_data :: "u8 list"
  fs_off :: int
  fs_len :: nat
  fs_uid :: int
  fs_gid :: int
  fs_atime :: "int \<times> u64"
  fs_mtime :: "int \<times> u64"
  fs_freed :: "nat list"

record fsloop = thloop +
  fs_reqs :: "addr \<Rightarrow> uv_fs_t"

abbreviation (input) ESPIPE :: int where "ESPIPE \<equiv> 29"
abbreviation (input) ENOTDIR :: int where "ENOTDIR \<equiv> 20"
abbreviation (input) PATH_MAX :: int where "PATH_MAX \<equiv> 4096"

definition upd_fs :: "addr \<Rightarrow> (uv_fs_t \<Rightarrow> uv_fs_t) \<Rightarrow> 'a fsloop_scheme \<Rightarrow> 'a fsloop_scheme" where
  "upd_fs r f s = s\<lparr>fs_reqs := (fs_reqs s)(r := f (fs_reqs s r))\<rparr>"

section \<open>The operations\<close>

text \<open>A system call whose result is the operation's.\<close>

definition fs_call :: "syscall \<Rightarrow> 'a kern_scheme \<Rightarrow> (int \<times> 'a kern_scheme) option" where
  "fs_call c s = do { (r, s) \<leftarrow> syscall c s; Some (r_ret r, s) }"

definition uv__fs_fdatasync :: "addr \<Rightarrow> 'a fsloop_scheme \<Rightarrow> (int \<times> 'a fsloop_scheme) option" where
  "uv__fs_fdatasync r s = fs_call (Sys ''fsync'' [fs_file (fs_reqs s r)]) s"

definition uv__fs_fsync :: "addr \<Rightarrow> 'a fsloop_scheme \<Rightarrow> (int \<times> 'a fsloop_scheme) option" where
  "uv__fs_fsync r s = fs_call (Sys ''fsync'' [fs_file (fs_reqs s r)]) s"

text \<open>\<open>tv_sec\<close> and \<open>tv_usec\<close> of a time; \<open>tv_nsec\<close> is \<open>tv_usec * 1000\<close>.\<close>

definition fs_usec :: "int \<times> u64 \<Rightarrow> int" where
  "fs_usec t = uint (snd t mod 1000000)"

definition uv__fs_futime :: "addr \<Rightarrow> 'a fsloop_scheme \<Rightarrow> (int \<times> 'a fsloop_scheme) option" where
  "uv__fs_futime r s = do {
     let q = fs_reqs s r;
     (got, s) \<leftarrow> (if statics s ''no_utimesat'' then Some (None, s) else do {
       (x, s) \<leftarrow> fs_call (Sys ''utimensat'' [fs_file q, fst (fs_atime q), fs_usec (fs_atime q) * 1000, fst (fs_mtime q), fs_usec (fs_mtime q) * 1000, 0]) s;
       if x = 0 \<or> errno s \<noteq> ENOSYS then Some (Some x, s) else Some (None, set_static ''no_utimesat'' s)
     });
     case got of
       Some x \<Rightarrow> Some (x, s)
     | None \<Rightarrow> do {
         (x, s) \<leftarrow> fs_call (SysPath ''utimes'' [''/proc/self/fd/'' @ show_int (fs_file q)]
           [fst (fs_atime q), fs_usec (fs_atime q), fst (fs_mtime q), fs_usec (fs_mtime q)]) s;
         if x = 0 then Some (x, s)
         else if errno s = ENOENT then do {
           (y, s) \<leftarrow> fs_call (Fcntl_getfl (fs_file q)) s;
           Some (x, if y = - 1 \<and> errno s = EBADF then s else s\<lparr>errno := ENOSYS\<rparr>)
         }
         else Some (x, if errno s = EACCES \<or> errno s = ENOTDIR then s\<lparr>errno := ENOSYS\<rparr> else s)
       }
   }"

text \<open>\<open>mkdtemp\<close> overwrites the template.\<close>

definition uv__fs_mkdtemp :: "addr \<Rightarrow> 'a fsloop_scheme \<Rightarrow> (int \<times> 'a fsloop_scheme) option" where
  "uv__fs_mkdtemp r s = do {
     path \<leftarrow> fs_path (fs_reqs s r);
     (x, s) \<leftarrow> syscall (SysPath ''mkdtemp'' [path] []) s;
     if r_ret x = - 1 then Some (- 1, s) else Some (0, upd_fs r (\<lambda>q. q\<lparr>fs_path := r_str x\<rparr>) s)
   }"

definition uv__fs_open :: "addr \<Rightarrow> 'a fsloop_scheme \<Rightarrow> (int \<times> 'a fsloop_scheme) option" where
  "uv__fs_open r s = do {
     let q = fs_reqs s r;
     path \<leftarrow> fs_path q;
     (got, s) \<leftarrow> (if statics s ''no_cloexec_support'' then Some (None, s) else do {
       (x, s) \<leftarrow> fs_call (Open path (fs_flags q OR O_CLOEXEC) (fs_mode q)) s;
       if x \<ge> 0 \<or> errno s \<noteq> EINVAL then Some (Some x, s) else Some (None, set_static ''no_cloexec_support'' s)
     });
     case got of
       Some x \<Rightarrow> Some (x, s)
     | None \<Rightarrow> do {
         s \<leftarrow> (if fs_cb q \<noteq> None then rwlock (Sys ''pthread_rwlock_rdlock'' []) s else Some s);
         (x, s) \<leftarrow> fs_call (Open path (fs_flags q) (fs_mode q)) s;
         (x, s) \<leftarrow> (if x \<ge> 0 then do {
             (err, s) \<leftarrow> uv__cloexec x 1 s;
             if err \<noteq> 0 then do {
               (y, s) \<leftarrow> uv__close x s;
               require (y = 0);
               Some (- 1, s)
             } else Some (x, s)
           } else Some (x, s));
         s \<leftarrow> (if fs_cb q \<noteq> None then rwlock Rwlock_unlock s else Some s);
         Some (x, s)
       }
   }"

text \<open>\<open>HAVE_PREADV\<close> is 0, yet \<open>preadv\<close> and \<open>pwritev\<close> are called.\<close>

definition uv__fs_read :: "addr \<Rightarrow> 'a fsloop_scheme \<Rightarrow> (int \<times> 'a fsloop_scheme) option" where
  "uv__fs_read r s = do {
     let q = fs_reqs s r;
     bufs \<leftarrow> fs_bufs q;
     let lens = map (\<lambda>b. int (length b)) (take (fs_nbufs q) bufs);
     (x, s) \<leftarrow> syscall
       (if fs_off q < 0 then if fs_nbufs q = 1 then Read (fs_file q) (hd lens) else Sys ''readv'' (fs_file q # lens)
        else if fs_nbufs q = 1 then Sys ''pread'' [fs_file q, hd lens, fs_off q] else Sys ''preadv'' (fs_file q # fs_off q # lens)) s;
     Some (r_ret x, if r_ret x > 0 then upd_fs r (\<lambda>q. q\<lparr>fs_data := fs_data q @ r_bytes x\<rparr>) s else s)
   }"

definition uv__fs_write :: "addr \<Rightarrow> 'a fsloop_scheme \<Rightarrow> (int \<times> 'a fsloop_scheme) option" where
  "uv__fs_write r s = do {
     let q = fs_reqs s r;
     bufs \<leftarrow> fs_bufs q;
     let iov = take (fs_nbufs q) bufs;
     fs_call
       (if fs_off q < 0 then if fs_nbufs q = 1 then Write (fs_file q) (hd iov) else Writev (fs_file q) iov
        else SysData (if fs_nbufs q = 1 then ''pwrite'' else ''pwritev'') [fs_file q, fs_off q] iov) s
   }"

text \<open>\<open>scandir\<close> filters and sorts; the names and types are its result.\<close>

definition uv__fs_scandir_filter :: "string \<Rightarrow> bool" where
  "uv__fs_scandir_filter d_name \<longleftrightarrow> d_name \<noteq> ''.'' \<and> d_name \<noteq> ''..''"

definition uv__fs_scandir :: "addr \<Rightarrow> 'a fsloop_scheme \<Rightarrow> (int \<times> 'a fsloop_scheme) option" where
  "uv__fs_scandir r s = do {
     path \<leftarrow> fs_path (fs_reqs s r);
     (x, s) \<leftarrow> syscall (SysPath ''scandir'' [path] []) s;
     let s = upd_fs r (\<lambda>q. q\<lparr>fs_nbufs := 0\<rparr>) s;
     if r_ret x = - 1 then Some (- 1, s)
     else Some (r_ret x, upd_fs r (\<lambda>q. q\<lparr>fs_ptr := (if r_ret x = 0 then Ptr_null else Ptr_dents (zip (r_strs x) (r_nums x)))\<rparr>) s)
   }"

definition uv__fs_pathmax_size :: "string \<Rightarrow> 'a kern_scheme \<Rightarrow> (int \<times> 'a kern_scheme) option" where
  "uv__fs_pathmax_size path s = do {
     (x, s) \<leftarrow> syscall (SysPath ''pathconf'' [path] []) s;
     Some (if r_ret x = - 1 then PATH_MAX else r_ret x, s)
   }"

definition fs_path_result :: "string \<Rightarrow> addr \<Rightarrow> 'a fsloop_scheme \<Rightarrow> (int \<times> 'a fsloop_scheme) option" where
  "fs_path_result name r s = do {
     path \<leftarrow> fs_path (fs_reqs s r);
     (len, s) \<leftarrow> uv__fs_pathmax_size path s;
     (m, s) \<leftarrow> syscall (Malloc (len + 1)) s;
     if r_ret m = - 1 then Some (- 1, s\<lparr>errno := ENOMEM\<rparr>)
     else do {
       (x, s) \<leftarrow> syscall (SysPath name [path] (if name = ''readlink'' then [len] else [])) s;
       if r_ret x = - 1 then Some (- 1, s)
       else do {
         str \<leftarrow> r_str x;
         Some (0, upd_fs r (\<lambda>q. q\<lparr>fs_ptr := Ptr_text str\<rparr>) s)
       }
     }
   }"

definition uv__fs_readlink :: "addr \<Rightarrow> 'a fsloop_scheme \<Rightarrow> (int \<times> 'a fsloop_scheme) option" where
  "uv__fs_readlink = fs_path_result ''readlink''"

definition uv__fs_realpath :: "addr \<Rightarrow> 'a fsloop_scheme \<Rightarrow> (int \<times> 'a fsloop_scheme) option" where
  "uv__fs_realpath = fs_path_result ''realpath''"

text \<open>Copying: the bytes of one read are written out, waiting for the target when it would block.\<close>

partial_function (option) sendfile_write :: "int \<Rightarrow> u8 list \<Rightarrow> 'a kern_scheme \<Rightarrow> (bool \<times> 'a kern_scheme) option" where
  "sendfile_write out_fd buf s =
     (if buf = [] then Some (True, s)
      else Option.bind (eintr_loop (Write out_fd buf) s) (\<lambda>(w, s).
        if r_ret w \<noteq> - 1 then sendfile_write out_fd (drop (nat (r_ret w)) buf) s
        else if errno s \<noteq> EAGAIN \<and> errno s \<noteq> EWOULDBLOCK then Some (False, s)
        else Option.bind (eintr_loop (Poll out_fd 4 (- 1)) s) (\<lambda>(p, s).
          if r_ret p = - 1 \<or> r_val p AND NOT 4 \<noteq> 0 then Some (False, s\<lparr>errno := EIO\<rparr>)
          else sendfile_write out_fd buf s)))"

partial_function (option) sendfile_copy ::
    "int \<Rightarrow> int \<Rightarrow> nat \<Rightarrow> bool \<Rightarrow> int \<Rightarrow> int \<Rightarrow> 'a kern_scheme \<Rightarrow> (int \<times> int \<times> 'a kern_scheme) option" where
  "sendfile_copy in_fd out_fd len use_pread offset nsent s =
     (if \<not> nat nsent < len then Some (nsent, offset, s)
      else let buflen = int (min (len - nat nsent) 8192)
        in Option.bind (eintr_loop (if use_pread then Sys ''pread'' [in_fd, buflen, offset] else Read in_fd buflen) s) (\<lambda>(n, s).
             if r_ret n = 0 then Some (nsent, offset, s)
             else if r_ret n = - 1 then
               if use_pread \<and> nsent = 0 \<and> (errno s = EIO \<or> errno s = ESPIPE)
               then sendfile_copy in_fd out_fd len False offset nsent s
               else Some (if nsent = 0 then - 1 else nsent, offset, s)
             else Option.bind (sendfile_write out_fd (r_bytes n) s) (\<lambda>(ok, s).
               if \<not> ok then Some (- 1, offset, s)
               else sendfile_copy in_fd out_fd len use_pread (offset + r_ret n) (nsent + r_ret n) s)))"

definition uv__fs_sendfile_emul :: "addr \<Rightarrow> 'a fsloop_scheme \<Rightarrow> (int \<times> 'a fsloop_scheme) option" where
  "uv__fs_sendfile_emul r s = do {
     let q = fs_reqs s r;
     (nsent, offset, s) \<leftarrow> sendfile_copy (fs_flags q) (fs_file q) (fs_len q) True (fs_off q) 0 s;
     Some (nsent, if nsent \<noteq> - 1 then upd_fs r (\<lambda>q. q\<lparr>fs_off := offset\<rparr>) s else s)
   }"

text \<open>\<open>r_val\<close> is the offset that \<open>sendfile\<close> leaves.\<close>

definition uv__fs_sendfile :: "addr \<Rightarrow> 'a fsloop_scheme \<Rightarrow> (int \<times> 'a fsloop_scheme) option" where
  "uv__fs_sendfile r s = do {
     let q = fs_reqs s r;
     (x, s) \<leftarrow> syscall (Sys ''sendfile'' [fs_file q, fs_flags q, fs_off q, int (fs_len q)]) s;
     if r_ret x \<noteq> - 1 \<or> r_val x > fs_off q
     then Some (r_val x - fs_off q, upd_fs r (\<lambda>q. q\<lparr>fs_off := r_val x\<rparr>) s)
     else if errno s = EINVAL \<or> errno s = EIO \<or> errno s = ENOTSOCK \<or> errno s = EXDEV
     then uv__fs_sendfile_emul r (s\<lparr>errno := 0\<rparr>)
     else Some (- 1, s)
   }"

definition uv__fs_utime :: "addr \<Rightarrow> 'a fsloop_scheme \<Rightarrow> (int \<times> 'a fsloop_scheme) option" where
  "uv__fs_utime r s = do {
     path \<leftarrow> fs_path (fs_reqs s r);
     fs_call (SysPath ''utime'' [path] [fst (fs_atime (fs_reqs s r)), fst (fs_mtime (fs_reqs s r))]) s
   }"

text \<open>The numbers of \<open>struct stat\<close>, with the nanoseconds behind the seconds of each time.\<close>

definition uv__to_stat :: "int list \<Rightarrow> uv_stat_t \<Rightarrow> uv_stat_t" where
  "uv__to_stat src dst = dst\<lparr>st_dev := src ! 0, st_mode := src ! 1, st_nlink := src ! 2, st_uid := src ! 3, st_gid := src ! 4, st_rdev := src ! 5,
     st_ino := src ! 6, st_size := src ! 7, st_blksize := src ! 8, st_blocks := src ! 9,
     st_atim := (src ! 10, 0), st_mtim := (src ! 12, 0), st_ctim := (src ! 14, 0)\<rparr>"

definition fs_stat_call :: "syscall \<Rightarrow> addr \<Rightarrow> 'a fsloop_scheme \<Rightarrow> (int \<times> 'a fsloop_scheme) option" where
  "fs_stat_call c r s = do {
     (x, s) \<leftarrow> syscall c s;
     Some (r_ret x, if r_ret x = 0 then upd_fs r (\<lambda>q. q\<lparr>fs_statbuf := uv__to_stat (r_nums x) (fs_statbuf q)\<rparr>) s else s)
   }"

definition uv__fs_stat :: "string \<Rightarrow> addr \<Rightarrow> 'a fsloop_scheme \<Rightarrow> (int \<times> 'a fsloop_scheme) option" where
  "uv__fs_stat path = fs_stat_call (SysPath ''stat'' [path] [])"

definition uv__fs_lstat :: "string \<Rightarrow> addr \<Rightarrow> 'a fsloop_scheme \<Rightarrow> (int \<times> 'a fsloop_scheme) option" where
  "uv__fs_lstat path = fs_stat_call (SysPath ''lstat'' [path] [])"

definition uv__fs_fstat :: "int \<Rightarrow> addr \<Rightarrow> 'a fsloop_scheme \<Rightarrow> (int \<times> 'a fsloop_scheme) option" where
  "uv__fs_fstat fd = fs_stat_call (Sys ''fstat'' [fd])"

section \<open>Lists of buffers\<close>

text \<open>At most \<open>iovmax\<close> buffers at a time; \<open>req->bufs\<close> moves on by the buffers passed, whatever was transferred.\<close>

function fs_buf_loop ::
    "(addr \<Rightarrow> 'a fsloop_scheme \<Rightarrow> (int \<times> 'a fsloop_scheme) option) \<Rightarrow> nat \<Rightarrow> int \<Rightarrow> addr \<Rightarrow> 'a fsloop_scheme \<Rightarrow>
     (int \<times> 'a fsloop_scheme) option" where
  "fs_buf_loop process nbufs tot r s =
     (if nbufs = 0 then Some (tot, s)
      else let k = min nbufs uv__getiovmax
        in case process r (upd_fs r (\<lambda>q. q\<lparr>fs_nbufs := k\<rparr>) s) of
             None \<Rightarrow> None
           | Some (result, s) \<Rightarrow>
               if result \<le> 0 then Some (if tot = 0 then result else tot, s)
               else fs_buf_loop process (nbufs - k) (tot + result) r
                 (upd_fs r (\<lambda>q. q\<lparr>fs_off := (if fs_off q \<ge> 0 then fs_off q + result else fs_off q), fs_bufs := map_option (drop k) (fs_bufs q)\<rparr>) s))"
  by pat_completeness auto
termination
  by (relation "measure (\<lambda>(process, nbufs, _). nbufs)") (auto simp: uv__getiovmax_def)

declare fs_buf_loop.simps [simp del]

definition uv__fs_buf_iter ::
    "(addr \<Rightarrow> 'a fsloop_scheme \<Rightarrow> (int \<times> 'a fsloop_scheme) option) \<Rightarrow> addr \<Rightarrow> 'a fsloop_scheme \<Rightarrow> (int \<times> 'a fsloop_scheme) option" where
  "uv__fs_buf_iter process r s = do {
     (tot, s) \<leftarrow> fs_buf_loop process (fs_nbufs (fs_reqs s r)) 0 r s;
     if errno s = EINTR \<and> tot = - 1 then Some (tot, s)
     else Some (tot, upd_fs r (\<lambda>q. q\<lparr>fs_bufs := None, fs_nbufs := 0\<rparr>) s)
   }"

section \<open>In the worker, and after it\<close>

definition fs_action :: "addr \<Rightarrow> 'a fsloop_scheme \<Rightarrow> (int \<times> 'a fsloop_scheme) option" where
  "fs_action r s =
     (let q = fs_reqs s r;
          on_path = (\<lambda>name ns. do { path \<leftarrow> fs_path q; fs_call (SysPath name [path] ns) s });
          on_paths = (\<lambda>name. do { path \<leftarrow> fs_path q; new_path \<leftarrow> fs_new_path q; fs_call (SysPath name [path, new_path] []) s })
      in case fs_type q of
           UV_FS_ACCESS \<Rightarrow> on_path ''access'' [fs_flags q]
         | UV_FS_CHMOD \<Rightarrow> on_path ''chmod'' [fs_mode q]
         | UV_FS_CHOWN \<Rightarrow> on_path ''chown'' [fs_uid q, fs_gid q]
         | UV_FS_CLOSE \<Rightarrow> fs_call (Close (fs_file q)) s
         | UV_FS_FCHMOD \<Rightarrow> fs_call (Sys ''fchmod'' [fs_file q, fs_mode q]) s
         | UV_FS_FCHOWN \<Rightarrow> fs_call (Sys ''fchown'' [fs_file q, fs_uid q, fs_gid q]) s
         | UV_FS_FDATASYNC \<Rightarrow> uv__fs_fdatasync r s
         | UV_FS_FSTAT \<Rightarrow> uv__fs_fstat (fs_file q) r s
         | UV_FS_FSYNC \<Rightarrow> uv__fs_fsync r s
         | UV_FS_FTRUNCATE \<Rightarrow> fs_call (Sys ''ftruncate'' [fs_file q, fs_off q]) s
         | UV_FS_FUTIME \<Rightarrow> uv__fs_futime r s
         | UV_FS_LSTAT \<Rightarrow> do { path \<leftarrow> fs_path q; uv__fs_lstat path r s }
         | UV_FS_LINK \<Rightarrow> on_paths ''link''
         | UV_FS_MKDIR \<Rightarrow> on_path ''mkdir'' [fs_mode q]
         | UV_FS_MKDTEMP \<Rightarrow> uv__fs_mkdtemp r s
         | UV_FS_OPEN \<Rightarrow> uv__fs_open r s
         | UV_FS_READ \<Rightarrow> uv__fs_buf_iter uv__fs_read r s
         | UV_FS_SCANDIR \<Rightarrow> uv__fs_scandir r s
         | UV_FS_READLINK \<Rightarrow> uv__fs_readlink r s
         | UV_FS_REALPATH \<Rightarrow> uv__fs_realpath r s
         | UV_FS_RENAME \<Rightarrow> on_paths ''rename''
         | UV_FS_RMDIR \<Rightarrow> on_path ''rmdir'' []
         | UV_FS_SENDFILE \<Rightarrow> uv__fs_sendfile r s
         | UV_FS_STAT \<Rightarrow> do { path \<leftarrow> fs_path q; uv__fs_stat path r s }
         | UV_FS_SYMLINK \<Rightarrow> on_paths ''symlink''
         | UV_FS_UNLINK \<Rightarrow> on_path ''unlink'' []
         | UV_FS_UTIME \<Rightarrow> uv__fs_utime r s
         | UV_FS_WRITE \<Rightarrow> uv__fs_buf_iter uv__fs_write r s
         | _ \<Rightarrow> None)"

partial_function (option) fs_work_loop :: "addr \<Rightarrow> 'a fsloop_scheme \<Rightarrow> (int \<times> 'a fsloop_scheme) option" where
  "fs_work_loop r s =
     (case fs_action r (s\<lparr>errno := 0\<rparr>) of
        None \<Rightarrow> None
      | Some p \<Rightarrow>
          if fst p = - 1 \<and> errno (snd p) = EINTR \<and> fs_type (fs_reqs s r) \<noteq> UV_FS_CLOSE then fs_work_loop r (snd p) else Some p)"

definition uv__fs_work :: "addr \<Rightarrow> 'a fsloop_scheme \<Rightarrow> 'a fsloop_scheme option" where
  "uv__fs_work r s = do {
     (x, s) \<leftarrow> fs_work_loop r s;
     let s = upd_fs r (\<lambda>q. q\<lparr>fs_result := (if x = - 1 then - errno s else x)\<rparr>) s;
     Some (if x = 0 \<and> fs_type (fs_reqs s r) \<in> {UV_FS_STAT, UV_FS_FSTAT, UV_FS_LSTAT}
           then upd_fs r (\<lambda>q. q\<lparr>fs_ptr := Ptr_statbuf\<rparr>) s else s)
   }"

text \<open>\<open>fcb\<close> is what the callbacks do.\<close>

definition uv__fs_done ::
    "(fs_cb \<Rightarrow> addr \<Rightarrow> 'a fsloop_scheme \<Rightarrow> 'a fsloop_scheme option) \<Rightarrow> addr \<Rightarrow> int \<Rightarrow> 'a fsloop_scheme \<Rightarrow> 'a fsloop_scheme option" where
  "uv__fs_done fcb r status s = do {
     s \<leftarrow> req_unregister r s;
     s \<leftarrow> (if status = - ECANCELED then do {
         require (fs_result (fs_reqs s r) = 0);
         Some (upd_fs r (\<lambda>q. q\<lparr>fs_result := - ECANCELED\<rparr>) s)
       } else Some s);
     cb \<leftarrow> fs_cb (fs_reqs s r);
     fcb cb r (s\<lparr>trace := trace s @ [Req_cb r (fs_result (fs_reqs s r))]\<rparr>)
   }"

section \<open>Requests\<close>

text \<open>The macros \<open>INIT\<close>, \<open>PATH\<close>, \<open>PATH2\<close> and \<open>POST\<close>.\<close>

definition fs_INIT :: "addr \<Rightarrow> uv_fs_type \<Rightarrow> fs_cb option \<Rightarrow> 'a fsloop_scheme \<Rightarrow> 'a fsloop_scheme" where
  "fs_INIT r subtype cb s =
     (let s = s\<lparr>req_type := (req_type s)(r := UV_FS)\<rparr>;
          s = (if cb \<noteq> None then uv__req_init r UV_FS s else s)
      in upd_fs r (\<lambda>q. q\<lparr>fs_type := subtype, fs_result := 0, fs_ptr := Ptr_null, fs_path := None, fs_new_path := None, fs_cb := cb\<rparr>) s)"

definition fs_PATH :: "addr \<Rightarrow> string \<Rightarrow> fs_cb option \<Rightarrow> 'a fsloop_scheme \<Rightarrow> (bool \<times> 'a fsloop_scheme) option" where
  "fs_PATH r path cb s =
     (if cb = None then Some (True, upd_fs r (\<lambda>q. q\<lparr>fs_path := Some path\<rparr>) s)
      else do {
        (p, s) \<leftarrow> uv__strdup path s;
        let s = upd_fs r (\<lambda>q. q\<lparr>fs_path := p\<rparr>) s;
        if p = None then do { s \<leftarrow> req_unregister r s; Some (False, s) } else Some (True, s)
      })"

definition fs_PATH2 :: "addr \<Rightarrow> string \<Rightarrow> string \<Rightarrow> fs_cb option \<Rightarrow> 'a fsloop_scheme \<Rightarrow> (bool \<times> 'a fsloop_scheme) option" where
  "fs_PATH2 r path new_path cb s =
     (if cb = None then Some (True, upd_fs r (\<lambda>q. q\<lparr>fs_path := Some path, fs_new_path := Some new_path\<rparr>) s)
      else do {
        (m, s) \<leftarrow> syscall (Malloc (int (length path + 1 + (length new_path + 1)))) s;
        if r_ret m = - 1 then do { s \<leftarrow> req_unregister r s; Some (False, s) }
        else Some (True, upd_fs r (\<lambda>q. q\<lparr>fs_path := Some path, fs_new_path := Some new_path\<rparr>) s)
      })"

definition fs_POST :: "addr \<Rightarrow> fs_cb option \<Rightarrow> 'a fsloop_scheme \<Rightarrow> (int \<times> 'a fsloop_scheme) option" where
  "fs_POST r cb s =
     (if cb \<noteq> None then do { s \<leftarrow> uv__work_submit r Fs_work Fs_done s; Some (0, s) }
      else do { s \<leftarrow> uv__fs_work r s; Some (fs_result (fs_reqs s r), s) })"

text \<open>Requests on a descriptor, a path and two paths; \<open>f\<close> stores the further arguments.\<close>

definition fs_on_file :: "addr \<Rightarrow> uv_fs_type \<Rightarrow> (uv_fs_t \<Rightarrow> uv_fs_t) \<Rightarrow> fs_cb option \<Rightarrow> 'a fsloop_scheme \<Rightarrow> (int \<times> 'a fsloop_scheme) option" where
  "fs_on_file r subtype f cb s = fs_POST r cb (upd_fs r f (fs_INIT r subtype cb s))"

definition fs_on_path ::
    "addr \<Rightarrow> uv_fs_type \<Rightarrow> string \<Rightarrow> (uv_fs_t \<Rightarrow> uv_fs_t) \<Rightarrow> fs_cb option \<Rightarrow> 'a fsloop_scheme \<Rightarrow> (int \<times> 'a fsloop_scheme) option" where
  "fs_on_path r subtype path f cb s = do {
     (ok, s) \<leftarrow> fs_PATH r path cb (fs_INIT r subtype cb s);
     if ok then fs_POST r cb (upd_fs r f s) else Some (- ENOMEM, s)
   }"

definition fs_on_paths ::
    "addr \<Rightarrow> uv_fs_type \<Rightarrow> string \<Rightarrow> string \<Rightarrow> (uv_fs_t \<Rightarrow> uv_fs_t) \<Rightarrow> fs_cb option \<Rightarrow> 'a fsloop_scheme \<Rightarrow> (int \<times> 'a fsloop_scheme) option" where
  "fs_on_paths r subtype path new_path f cb s = do {
     (ok, s) \<leftarrow> fs_PATH2 r path new_path cb (fs_INIT r subtype cb s);
     if ok then fs_POST r cb (upd_fs r f s) else Some (- ENOMEM, s)
   }"

definition uv_fs_access :: "addr \<Rightarrow> string \<Rightarrow> int \<Rightarrow> fs_cb option \<Rightarrow> 'a fsloop_scheme \<Rightarrow> (int \<times> 'a fsloop_scheme) option" where
  "uv_fs_access r path flags cb = fs_on_path r UV_FS_ACCESS path (\<lambda>q. q\<lparr>fs_flags := flags\<rparr>) cb"

definition uv_fs_chmod :: "addr \<Rightarrow> string \<Rightarrow> int \<Rightarrow> fs_cb option \<Rightarrow> 'a fsloop_scheme \<Rightarrow> (int \<times> 'a fsloop_scheme) option" where
  "uv_fs_chmod r path mode cb = fs_on_path r UV_FS_CHMOD path (\<lambda>q. q\<lparr>fs_mode := mode\<rparr>) cb"

definition uv_fs_chown :: "addr \<Rightarrow> string \<Rightarrow> int \<Rightarrow> int \<Rightarrow> fs_cb option \<Rightarrow> 'a fsloop_scheme \<Rightarrow> (int \<times> 'a fsloop_scheme) option" where
  "uv_fs_chown r path uid gid cb = fs_on_path r UV_FS_CHOWN path (\<lambda>q. q\<lparr>fs_uid := uid, fs_gid := gid\<rparr>) cb"

definition uv_fs_close :: "addr \<Rightarrow> int \<Rightarrow> fs_cb option \<Rightarrow> 'a fsloop_scheme \<Rightarrow> (int \<times> 'a fsloop_scheme) option" where
  "uv_fs_close r file cb = fs_on_file r UV_FS_CLOSE (\<lambda>q. q\<lparr>fs_file := file\<rparr>) cb"

definition uv_fs_fchmod :: "addr \<Rightarrow> int \<Rightarrow> int \<Rightarrow> fs_cb option \<Rightarrow> 'a fsloop_scheme \<Rightarrow> (int \<times> 'a fsloop_scheme) option" where
  "uv_fs_fchmod r file mode cb = fs_on_file r UV_FS_FCHMOD (\<lambda>q. q\<lparr>fs_file := file, fs_mode := mode\<rparr>) cb"

definition uv_fs_fchown :: "addr \<Rightarrow> int \<Rightarrow> int \<Rightarrow> int \<Rightarrow> fs_cb option \<Rightarrow> 'a fsloop_scheme \<Rightarrow> (int \<times> 'a fsloop_scheme) option" where
  "uv_fs_fchown r file uid gid cb = fs_on_file r UV_FS_FCHOWN (\<lambda>q. q\<lparr>fs_file := file, fs_uid := uid, fs_gid := gid\<rparr>) cb"

definition uv_fs_fdatasync :: "addr \<Rightarrow> int \<Rightarrow> fs_cb option \<Rightarrow> 'a fsloop_scheme \<Rightarrow> (int \<times> 'a fsloop_scheme) option" where
  "uv_fs_fdatasync r file cb = fs_on_file r UV_FS_FDATASYNC (\<lambda>q. q\<lparr>fs_file := file\<rparr>) cb"

definition uv_fs_fstat :: "addr \<Rightarrow> int \<Rightarrow> fs_cb option \<Rightarrow> 'a fsloop_scheme \<Rightarrow> (int \<times> 'a fsloop_scheme) option" where
  "uv_fs_fstat r file cb = fs_on_file r UV_FS_FSTAT (\<lambda>q. q\<lparr>fs_file := file\<rparr>) cb"

definition uv_fs_fsync :: "addr \<Rightarrow> int \<Rightarrow> fs_cb option \<Rightarrow> 'a fsloop_scheme \<Rightarrow> (int \<times> 'a fsloop_scheme) option" where
  "uv_fs_fsync r file cb = fs_on_file r UV_FS_FSYNC (\<lambda>q. q\<lparr>fs_file := file\<rparr>) cb"

definition uv_fs_ftruncate :: "addr \<Rightarrow> int \<Rightarrow> int \<Rightarrow> fs_cb option \<Rightarrow> 'a fsloop_scheme \<Rightarrow> (int \<times> 'a fsloop_scheme) option" where
  "uv_fs_ftruncate r file off cb = fs_on_file r UV_FS_FTRUNCATE (\<lambda>q. q\<lparr>fs_file := file, fs_off := off\<rparr>) cb"

definition uv_fs_futime :: "addr \<Rightarrow> int \<Rightarrow> int \<times> u64 \<Rightarrow> int \<times> u64 \<Rightarrow> fs_cb option \<Rightarrow> 'a fsloop_scheme \<Rightarrow> (int \<times> 'a fsloop_scheme) option" where
  "uv_fs_futime r file atime mtime cb = fs_on_file r UV_FS_FUTIME (\<lambda>q. q\<lparr>fs_file := file, fs_atime := atime, fs_mtime := mtime\<rparr>) cb"

definition uv_fs_lstat :: "addr \<Rightarrow> string \<Rightarrow> fs_cb option \<Rightarrow> 'a fsloop_scheme \<Rightarrow> (int \<times> 'a fsloop_scheme) option" where
  "uv_fs_lstat r path cb = fs_on_path r UV_FS_LSTAT path (\<lambda>q. q) cb"

definition uv_fs_link :: "addr \<Rightarrow> string \<Rightarrow> string \<Rightarrow> fs_cb option \<Rightarrow> 'a fsloop_scheme \<Rightarrow> (int \<times> 'a fsloop_scheme) option" where
  "uv_fs_link r path new_path cb = fs_on_paths r UV_FS_LINK path new_path (\<lambda>q. q) cb"

definition uv_fs_mkdir :: "addr \<Rightarrow> string \<Rightarrow> int \<Rightarrow> fs_cb option \<Rightarrow> 'a fsloop_scheme \<Rightarrow> (int \<times> 'a fsloop_scheme) option" where
  "uv_fs_mkdir r path mode cb = fs_on_path r UV_FS_MKDIR path (\<lambda>q. q\<lparr>fs_mode := mode\<rparr>) cb"

text \<open>The template is copied in every case, because \<open>mkdtemp\<close> writes into it.\<close>

definition uv_fs_mkdtemp :: "addr \<Rightarrow> string \<Rightarrow> fs_cb option \<Rightarrow> 'a fsloop_scheme \<Rightarrow> (int \<times> 'a fsloop_scheme) option" where
  "uv_fs_mkdtemp r tpl cb s = do {
     (p, s) \<leftarrow> uv__strdup tpl (fs_INIT r UV_FS_MKDTEMP cb s);
     let s = upd_fs r (\<lambda>q. q\<lparr>fs_path := p\<rparr>) s;
     if p = None then do {
       s \<leftarrow> (if cb \<noteq> None then req_unregister r s else Some s);
       Some (- ENOMEM, s)
     } else fs_POST r cb s
   }"

definition uv_fs_open :: "addr \<Rightarrow> string \<Rightarrow> int \<Rightarrow> int \<Rightarrow> fs_cb option \<Rightarrow> 'a fsloop_scheme \<Rightarrow> (int \<times> 'a fsloop_scheme) option" where
  "uv_fs_open r path flags mode cb = fs_on_path r UV_FS_OPEN path (\<lambda>q. q\<lparr>fs_flags := flags, fs_mode := mode\<rparr>) cb"

text \<open>Up to four buffers are kept in the request, more are copied to the heap.\<close>

definition fs_buffers ::
    "addr \<Rightarrow> uv_fs_type \<Rightarrow> int \<Rightarrow> u8 list list \<Rightarrow> int \<Rightarrow> fs_cb option \<Rightarrow> 'a fsloop_scheme \<Rightarrow> (int \<times> 'a fsloop_scheme) option" where
  "fs_buffers r subtype file bufs off cb s =
     (if bufs = [] then Some (- EINVAL, s)
      else do {
        let s = upd_fs r (\<lambda>q. q\<lparr>fs_file := file, fs_nbufs := length bufs, fs_data := []\<rparr>) (fs_INIT r subtype cb s);
        (ok, s) \<leftarrow> (if length bufs > 4 then do {
            (m, s) \<leftarrow> syscall (Malloc (int (length bufs) * 16)) s;
            Some (r_ret m \<noteq> - 1, s)
          } else Some (True, s));
        if \<not> ok then do {
          s \<leftarrow> (if cb \<noteq> None then req_unregister r (upd_fs r (\<lambda>q. q\<lparr>fs_bufs := None\<rparr>) s) else Some (upd_fs r (\<lambda>q. q\<lparr>fs_bufs := None\<rparr>) s));
          Some (- ENOMEM, s)
        } else fs_POST r cb (upd_fs r (\<lambda>q. q\<lparr>fs_bufs := Some bufs, fs_off := off\<rparr>) s)
      })"

definition uv_fs_read :: "addr \<Rightarrow> int \<Rightarrow> u8 list list \<Rightarrow> int \<Rightarrow> fs_cb option \<Rightarrow> 'a fsloop_scheme \<Rightarrow> (int \<times> 'a fsloop_scheme) option" where
  "uv_fs_read r file bufs off cb = fs_buffers r UV_FS_READ file bufs off cb"

definition uv_fs_scandir :: "addr \<Rightarrow> string \<Rightarrow> int \<Rightarrow> fs_cb option \<Rightarrow> 'a fsloop_scheme \<Rightarrow> (int \<times> 'a fsloop_scheme) option" where
  "uv_fs_scandir r path flags cb = fs_on_path r UV_FS_SCANDIR path (\<lambda>q. q\<lparr>fs_flags := flags\<rparr>) cb"

definition uv_fs_readlink :: "addr \<Rightarrow> string \<Rightarrow> fs_cb option \<Rightarrow> 'a fsloop_scheme \<Rightarrow> (int \<times> 'a fsloop_scheme) option" where
  "uv_fs_readlink r path cb = fs_on_path r UV_FS_READLINK path (\<lambda>q. q) cb"

definition uv_fs_realpath :: "addr \<Rightarrow> string \<Rightarrow> fs_cb option \<Rightarrow> 'a fsloop_scheme \<Rightarrow> (int \<times> 'a fsloop_scheme) option" where
  "uv_fs_realpath r path cb = fs_on_path r UV_FS_REALPATH path (\<lambda>q. q) cb"

definition uv_fs_rename :: "addr \<Rightarrow> string \<Rightarrow> string \<Rightarrow> fs_cb option \<Rightarrow> 'a fsloop_scheme \<Rightarrow> (int \<times> 'a fsloop_scheme) option" where
  "uv_fs_rename r path new_path cb = fs_on_paths r UV_FS_RENAME path new_path (\<lambda>q. q) cb"

definition uv_fs_rmdir :: "addr \<Rightarrow> string \<Rightarrow> fs_cb option \<Rightarrow> 'a fsloop_scheme \<Rightarrow> (int \<times> 'a fsloop_scheme) option" where
  "uv_fs_rmdir r path cb = fs_on_path r UV_FS_RMDIR path (\<lambda>q. q) cb"

definition uv_fs_sendfile :: "addr \<Rightarrow> int \<Rightarrow> int \<Rightarrow> int \<Rightarrow> nat \<Rightarrow> fs_cb option \<Rightarrow> 'a fsloop_scheme \<Rightarrow> (int \<times> 'a fsloop_scheme) option" where
  "uv_fs_sendfile r out_fd in_fd off len cb = fs_on_file r UV_FS_SENDFILE (\<lambda>q. q\<lparr>fs_flags := in_fd, fs_file := out_fd, fs_off := off, fs_len := len\<rparr>) cb"

definition uv_fs_stat :: "addr \<Rightarrow> string \<Rightarrow> fs_cb option \<Rightarrow> 'a fsloop_scheme \<Rightarrow> (int \<times> 'a fsloop_scheme) option" where
  "uv_fs_stat r path cb = fs_on_path r UV_FS_STAT path (\<lambda>q. q) cb"

definition uv_fs_symlink :: "addr \<Rightarrow> string \<Rightarrow> string \<Rightarrow> int \<Rightarrow> fs_cb option \<Rightarrow> 'a fsloop_scheme \<Rightarrow> (int \<times> 'a fsloop_scheme) option" where
  "uv_fs_symlink r path new_path flags cb = fs_on_paths r UV_FS_SYMLINK path new_path (\<lambda>q. q\<lparr>fs_flags := flags\<rparr>) cb"

definition uv_fs_unlink :: "addr \<Rightarrow> string \<Rightarrow> fs_cb option \<Rightarrow> 'a fsloop_scheme \<Rightarrow> (int \<times> 'a fsloop_scheme) option" where
  "uv_fs_unlink r path cb = fs_on_path r UV_FS_UNLINK path (\<lambda>q. q) cb"

definition uv_fs_utime :: "addr \<Rightarrow> string \<Rightarrow> int \<times> u64 \<Rightarrow> int \<times> u64 \<Rightarrow> fs_cb option \<Rightarrow> 'a fsloop_scheme \<Rightarrow> (int \<times> 'a fsloop_scheme) option" where
  "uv_fs_utime r path atime mtime cb = fs_on_path r UV_FS_UTIME path (\<lambda>q. q\<lparr>fs_atime := atime, fs_mtime := mtime\<rparr>) cb"

definition uv_fs_write :: "addr \<Rightarrow> int \<Rightarrow> u8 list list \<Rightarrow> int \<Rightarrow> fs_cb option \<Rightarrow> 'a fsloop_scheme \<Rightarrow> (int \<times> 'a fsloop_scheme) option" where
  "uv_fs_write r file bufs off cb = fs_buffers r UV_FS_WRITE file bufs off cb"

text \<open>The parts of the request that the reading of a directory uses.\<close>

definition dir_of :: "uv_fs_t \<Rightarrow> dir_req" where
  "dir_of q = \<lparr>d_result = fs_result q, d_ptr = (case fs_ptr q of Ptr_dents ds \<Rightarrow> Some ds | _ \<Rightarrow> None), d_nbufs = fs_nbufs q, d_freed = fs_freed q\<rparr>"

definition with_dir :: "dir_req \<Rightarrow> uv_fs_t \<Rightarrow> uv_fs_t" where
  "with_dir d q = q\<lparr>fs_ptr := (case d_ptr d of None \<Rightarrow> Ptr_null | Some ds \<Rightarrow> Ptr_dents ds), fs_nbufs := d_nbufs d, fs_freed := d_freed d\<rparr>"

definition uv_fs_req_cleanup :: "addr \<Rightarrow> 'a fsloop_scheme \<Rightarrow> 'a fsloop_scheme" where
  "uv_fs_req_cleanup r s =
     (let s = upd_fs r (\<lambda>q. q\<lparr>fs_path := None, fs_new_path := None\<rparr>) s;
          s = (if fs_type (fs_reqs s r) = UV_FS_SCANDIR \<and> fs_ptr (fs_reqs s r) \<noteq> Ptr_null
               then upd_fs r (\<lambda>q. with_dir (uv__fs_scandir_cleanup (dir_of q)) q) s else s)
      in upd_fs r (\<lambda>q. q\<lparr>fs_ptr := Ptr_null\<rparr>) s)"

section \<open>What a list of buffers becomes\<close>

function iov_chunks :: "'a list \<Rightarrow> 'a list list" where
  "iov_chunks bufs = (if bufs = [] then [] else take uv__getiovmax bufs # iov_chunks (drop uv__getiovmax bufs))"
  by pat_completeness auto
termination
  by (relation "measure length") (auto simp: uv__getiovmax_def)

declare iov_chunks.simps [simp del]

lemma iov_chunks_nil [simp]: "iov_chunks [] = []"
  by (subst iov_chunks.simps) simp

lemma iov_chunks_step: "bufs \<noteq> [] \<Longrightarrow> iov_chunks bufs = take uv__getiovmax bufs # iov_chunks (drop uv__getiovmax bufs)"
  by (subst iov_chunks.simps) simp

lemma concat_chunks: "concat (iov_chunks bufs) = bufs"
proof (induction bufs rule: iov_chunks.induct)
  case (1 bufs)
  then show ?case by (cases "bufs = []") (simp_all add: iov_chunks_step)
qed

text \<open>What the file receives from the calls of a log: of each as many bytes as it returned.\<close>

definition received :: "(syscall \<times> int) list \<Rightarrow> u8 list" where
  "received log = concat (map (\<lambda>(c, n). case c of SysData name as iov \<Rightarrow> take (nat n) (concat iov) | _ \<Rightarrow> []) log)"

lemma received_append: "received (l1 @ l2) = received l1 @ received l2"
  by (simp add: received_def)

definition took_of :: "int \<Rightarrow> u8 list list \<Rightarrow> u8 list" where
  "took_of n iov = take (nat n) (concat iov)"

lemma upd_fs_simps [simp]:
  "fs_reqs (upd_fs r f s) = (fs_reqs s)(r := f (fs_reqs s r))" "replies (upd_fs r f s) = replies s"
  "syscalls (upd_fs r f s) = syscalls s" "errno (upd_fs r f s) = errno s"
  by (simp_all add: upd_fs_def)

lemma fs_write_one:
  assumes "replies s = ret n # rest" "n > 0" "fs_bufs (fs_reqs s r) = Some bufs" "fs_nbufs (fs_reqs s r) = k" "0 < k" "k \<le> length bufs"
  shows "\<exists>t c. uv__fs_write r s = Some (n, t) \<and> replies t = rest \<and> syscalls t = syscalls s @ [(c, n)] \<and> received [(c, n)] = took_of n (take k bufs)
     \<and> errno t = errno s \<and> fs_reqs t = fs_reqs s"
proof -
  have "take 1 bufs = [hd bufs]" using assms by (cases bufs) auto
  then show ?thesis using assms by (auto simp: uv__fs_write_def fs_call_def Let_def ret_def received_def took_of_def hd_conv_nth)
qed

lemma fs_buf_loop_writes:
  "replies s = map ret ns @ rest \<Longrightarrow> fs_bufs (fs_reqs s r) = Some bufs \<Longrightarrow> length ns = length (iov_chunks bufs) \<Longrightarrow> \<forall>n \<in> set ns. n > 0 \<Longrightarrow>
   \<exists>t l. fs_buf_loop uv__fs_write (length bufs) tot r s = Some (tot + sum_list ns, t) \<and> syscalls t = syscalls s @ l
     \<and> received l = concat (map2 took_of ns (iov_chunks bufs)) \<and> replies t = rest"
proof (induction ns arbitrary: bufs s tot)
  case Nil
  then have "bufs = []" by (cases "bufs = []") (simp_all add: iov_chunks_step)
  with Nil show ?case by (simp add: fs_buf_loop.simps received_def)
next
  case (Cons n ns)
  then have b: "bufs \<noteq> []" by auto
  define k where "k = min (length bufs) uv__getiovmax"
  have k: "0 < k" "k \<le> length bufs" "take k bufs = take uv__getiovmax bufs" "drop k bufs = drop uv__getiovmax bufs"
    using b by (auto simp: k_def uv__getiovmax_def min_def)
  define u where "u = upd_fs r (\<lambda>q. q\<lparr>fs_nbufs := k\<rparr>) s"
  have u: "replies u = ret n # (map ret ns @ rest)" "fs_bufs (fs_reqs u r) = Some bufs" "fs_nbufs (fs_reqs u r) = k" "syscalls u = syscalls s"
    using Cons.prems by (simp_all add: u_def)
  obtain t c where t: "uv__fs_write r u = Some (n, t)" "replies t = map ret ns @ rest" "syscalls t = syscalls u @ [(c, n)]"
    "received [(c, n)] = took_of n (take k bufs)" "fs_reqs t = fs_reqs u"
    using fs_write_one [OF u(1) _ u(2,3) k(1,2)] Cons.prems(4) by auto
  define v where "v = upd_fs r (\<lambda>q. q\<lparr>fs_off := (if fs_off q \<ge> 0 then fs_off q + n else fs_off q), fs_bufs := map_option (drop k) (fs_bufs q)\<rparr>) t"
  have v: "replies v = map ret ns @ rest" "fs_bufs (fs_reqs v r) = Some (drop k bufs)" "syscalls v = syscalls s @ [(c, n)]"
    using t u by (simp_all add: v_def)
  have "length ns = length (iov_chunks (drop k bufs))" using Cons.prems(3) b k(4) by (simp add: iov_chunks_step)
  from Cons.IH [OF v(1,2) this, of "tot + n"] Cons.prems(4) obtain w l where w:
    "fs_buf_loop uv__fs_write (length (drop k bufs)) (tot + n) r v = Some (tot + n + sum_list ns, w)" "syscalls w = syscalls v @ l"
    "received l = concat (map2 took_of ns (iov_chunks (drop k bufs)))" "replies w = rest" by auto
  have "fs_buf_loop uv__fs_write (length bufs) tot r s = fs_buf_loop uv__fs_write (length (drop k bufs)) (tot + n) r v"
    using b t(1) Cons.prems(4) by (subst fs_buf_loop.simps) (simp add: k_def [symmetric] u_def [symmetric] v_def)
  moreover have "received ((c, n) # l) = concat (map2 took_of (n # ns) (iov_chunks bufs))"
    using received_append [of "[(c, n)]" l] t(4) w(3) b k by (simp add: iov_chunks_step)
  ultimately show ?case using w v by (intro exI [of _ w] exI [of _ "(c, n) # l"]) simp
qed

lemma received_whole: "list_all2 (\<lambda>n iov. n = int (length (concat iov))) ns css \<Longrightarrow> concat (map2 took_of ns css) = concat (concat css)"
  by (induction rule: list_all2_induct) (simp_all add: took_of_def)

section \<open>Properties\<close>

text \<open>C34: Writing a list of buffers: the buffers are passed on in order, at most \<open>IOV_MAX\<close> in a call, and the result
  is the number of bytes written.  When every call takes all it was given, the file receives exactly the bytes of
  the buffers; a call that takes less is not made up for: the next call goes on with the next buffers.\<close>
theorem fs_write_drops_short_rest:
  assumes "replies s = map ret ns @ rest" "fs_bufs (fs_reqs s r) = Some bufs" "fs_nbufs (fs_reqs s r) = length bufs"
    "list_all2 (\<lambda>n iov. 0 < n \<and> n \<le> int (length (concat iov))) ns (iov_chunks bufs)"
  shows "\<exists>t l. uv__fs_buf_iter uv__fs_write r s = Some (sum_list ns, t) \<and> syscalls t = syscalls s @ l
    \<and> received l = concat (map2 took_of ns (iov_chunks bufs))
    \<and> (list_all2 (\<lambda>n iov. n = int (length (concat iov))) ns (iov_chunks bufs) \<longrightarrow> received l = concat bufs)"
proof -
  have n: "length ns = length (iov_chunks bufs)" "\<forall>n \<in> set ns. n > 0"
    using assms(4) by (auto simp: list_all2_conv_all_nth in_set_conv_nth)
  from fs_buf_loop_writes [OF assms(1,2) n, of 0] obtain t l where t:
    "fs_buf_loop uv__fs_write (length bufs) 0 r s = Some (sum_list ns, t)" "syscalls t = syscalls s @ l"
    "received l = concat (map2 took_of ns (iov_chunks bufs))" by auto
  have "sum_list ns \<ge> 0" using n(2) by (intro sum_list_nonneg) auto
  then have "uv__fs_buf_iter uv__fs_write r s = Some (sum_list ns, upd_fs r (\<lambda>q. q\<lparr>fs_bufs := None, fs_nbufs := 0\<rparr>) t)"
    using t(1) assms(3) by (simp add: uv__fs_buf_iter_def)
  then show ?thesis using t received_whole [of ns "iov_chunks bufs"] by (auto simp: concat_chunks)
qed


text \<open>A loop whose queues are all empty, with the file request \<open>q\<close> at every address.\<close>

definition fs_loop :: "reply list \<Rightarrow> uv_fs_t \<Rightarrow> 'b \<Rightarrow> 'b fsloop_scheme" where
  "fs_loop rs q ext = stream_loop rs [] 0 []
     (uloop_ext (\<lambda>_. \<lparr>ud_alloc_cb = True, ud_recv_cb = True, ud_send_queue_size = 0, ud_send_queue_count = 0, ud_write_queue = [],
          ud_write_completed = []\<rparr>)
        (\<lambda>_. \<lparr>us_addr = \<lparr>sa_family = AF_INET, sa_port = [0, 53], sa_addr = [10, 0, 0, 1], sa_scope = 0\<rparr>, us_bufs = None, us_status = 0, us_cb = True\<rparr>)
     (gloop_ext (\<lambda>_. \<lparr>sg_cb = True, sg_signum = 0, sg_caught = 0, sg_dispatched = 0\<rparr>) [] (8, 9) (10, 11)
     (prloop_ext (\<lambda>_. \<lparr>pr_pid = 0, pr_status = 0, pr_exit_cb = True\<rparr>) (QUEUE_INIT 90 \<lparr>q_next = (\<lambda>_. 0), q_prev = (\<lambda>_. 0)\<rparr>) 90 91 None
     (thloop_ext one_worker 60 (\<lambda>_. UV_UNKNOWN_REQ) (\<lambda>_. \<lparr>wk_has_work_cb = True, wk_has_after_cb = True\<rparr>)
     (fsloop_ext (\<lambda>_. q) ext)))))"

definition fs_request :: "u8 list list \<Rightarrow> uv_fs_t" where
  "fs_request bufs = \<lparr>fs_type = UV_FS_WRITE, fs_cb = None, fs_result = 0, fs_ptr = Ptr_null, fs_path = None, fs_new_path = None,
     fs_statbuf = \<lparr>st_dev = 0, st_mode = 0, st_nlink = 0, st_uid = 0, st_gid = 0, st_rdev = 0, st_ino = 0, st_size = 0, st_blksize = 0,
       st_blocks = 0, st_flags = 0, st_gen = 0, st_atim = (0, 0), st_mtim = (0, 0), st_ctim = (0, 0), st_birthtim = (0, 0)\<rparr>,
     fs_file = 5, fs_flags = 0, fs_mode = 0, fs_nbufs = length bufs, fs_bufs = Some bufs, fs_data = [], fs_off = - 1, fs_len = 0,
     fs_uid = 0, fs_gid = 0, fs_atime = (0, 0), fs_mtime = (0, 0), fs_freed = []\<rparr>"

lemmas fs_loop_defs = fs_loop_def fs_request_def stream_loop_defs

text \<open>1025 buffers of two bytes: the first call takes three bytes only.\<close>

theorem fs_write_drops_short_rest_witness:
  "\<exists>t l. uv__fs_buf_iter uv__fs_write 1 (fs_loop [ret 3, ret 2] (fs_request (replicate 1025 [7, 8])) ()) = Some (5, t)
    \<and> syscalls t = l \<and> received l = [7, 8, 7, 7, 8]"
proof -
  let ?b = "replicate 1025 [7, 8 :: u8]"
  let ?s = "fs_loop [ret 3, ret 2] (fs_request ?b) ()"
  have c: "iov_chunks ?b = [replicate 1024 [7, 8], [[7, 8]]]"
    by (subst iov_chunks_step, simp, subst iov_chunks_step) (simp_all add: uv__getiovmax_def)
  have s: "replies ?s = map ret [3, 2] @ []" "fs_bufs (fs_reqs ?s 1) = Some ?b" "fs_nbufs (fs_reqs ?s 1) = length ?b" "syscalls ?s = []"
    by (simp_all add: fs_loop_defs del: replicate.simps)
  have l: "length (concat (replicate n [7, 8 :: u8])) = 2 * n" for n by (induction n) simp_all
  have "list_all2 (\<lambda>n iov. 0 < n \<and> n \<le> int (length (concat iov))) [3, 2] (iov_chunks ?b)"
    by (simp only: c list_all2_Cons list_all2_Nil l) simp
  from fs_write_drops_short_rest [OF s(1-3) this] obtain t l where t: "uv__fs_buf_iter uv__fs_write 1 ?s = Some (sum_list [3, 2], t)"
    "syscalls t = l" "received l = concat (map2 took_of [3, 2] (iov_chunks ?b))" using s(4) by auto
  have "take 3 (concat (replicate 1024 [7, 8 :: u8])) = [7, 8, 7]"
    by (subst (2) numeral_eq_Suc, subst numeral_eq_Suc) (simp add: numeral_eq_Suc)
  then have "concat (map2 took_of [3, 2] (iov_chunks ?b)) = [7, 8, 7, 7, 8]" unfolding c by (simp add: took_of_def)
  with t show ?thesis by auto
qed

end
