(* ===== verification/Fs_Poll.thy ===== *)
theory Fs_Poll
  imports Fs
begin

text \<open>
  Polling a file for changes, \<open>src/fs-poll.cpp\<close>.  A context, its timer and its request have one address; the
  handle that started the polling points to it.  The context is freed by \<open>timer_close_cb\<close>, the close callback of
  its timer.  \<open>uv_close\<close> of that timer, which may not be closing yet, is \<open>close_timer\<close>; the theory \<open>Event_Loop\<close>
  shows that it is what \<open>uv_close\<close> does for a timer.
\<close>

record poll_ctx =
  pc_parent :: ptr
  pc_busy :: int
  pc_interval :: u32
  pc_start_time :: u64
  pc_statbuf :: uv_stat_t
  pc_path :: string

record fploop = fsloop +
  poll_ctxs :: "addr \<Rightarrow> poll_ctx"
  fs_poll_ctx :: "addr \<Rightarrow> ptr"

text \<open>The address of the function \<open>timer_cb\<close>.\<close>

abbreviation (input) poll_timer_fn :: addr where "poll_timer_fn \<equiv> 1"
abbreviation (input) UV_ENOBUFS :: int where "UV_ENOBUFS \<equiv> - ENOBUFS"
abbreviation (input) UV_ENOMEM :: int where "UV_ENOMEM \<equiv> - ENOMEM"

definition upd_ctx :: "addr \<Rightarrow> (poll_ctx \<Rightarrow> poll_ctx) \<Rightarrow> 'a fploop_scheme \<Rightarrow> 'a fploop_scheme" where
  "upd_ctx c f s = s\<lparr>poll_ctxs := (poll_ctxs s)(c := f (poll_ctxs s c))\<rparr>"

definition zero_statbuf :: uv_stat_t where
  "zero_statbuf = \<lparr>st_dev = 0, st_mode = 0, st_nlink = 0, st_uid = 0, st_gid = 0, st_rdev = 0, st_ino = 0, st_size = 0, st_blksize = 0,
     st_blocks = 0, st_flags = 0, st_gen = 0, st_atim = (0, 0), st_mtim = (0, 0), st_ctim = (0, 0), st_birthtim = (0, 0)\<rparr>"

definition statbuf_eq :: "uv_stat_t \<Rightarrow> uv_stat_t \<Rightarrow> bool" where
  "statbuf_eq a b \<longleftrightarrow>
     snd (st_ctim a) = snd (st_ctim b) \<and> snd (st_mtim a) = snd (st_mtim b) \<and> snd (st_birthtim a) = snd (st_birthtim b)
     \<and> fst (st_ctim a) = fst (st_ctim b) \<and> fst (st_mtim a) = fst (st_mtim b) \<and> fst (st_birthtim a) = fst (st_birthtim b)
     \<and> st_size a = st_size b \<and> st_mode a = st_mode b \<and> st_uid a = st_uid b \<and> st_gid a = st_gid b \<and> st_ino a = st_ino b
     \<and> st_dev a = st_dev b \<and> st_flags a = st_flags b \<and> st_gen a = st_gen b"

definition close_timer :: "addr \<Rightarrow> 'a tloop_scheme \<Rightarrow> 'a tloop_scheme option" where
  "close_timer h s = do {
     require (\<not> uv__is_closing h s);
     let s = set_flags h UV_CLOSING s;
     let s = s\<lparr>hnd := (hnd s)(h := (hnd s h)\<lparr>h_close_cb := True\<rparr>)\<rparr>;
     s \<leftarrow> uv__timer_close h s;
     uv__make_close_pending h s
   }"

definition uv_fs_poll_init :: "addr \<Rightarrow> 'a loop_scheme \<Rightarrow> int \<times> 'a loop_scheme" where
  "uv_fs_poll_init h s = (0, uv__handle_init h UV_FS_POLL s)"

text \<open>\<open>uv__calloc\<close> returns the address of the context; the size is that of the structure and the path.\<close>

definition uv_fs_poll_start :: "addr \<Rightarrow> string \<Rightarrow> u32 \<Rightarrow> 'a fploop_scheme \<Rightarrow> (int \<times> 'a fploop_scheme) option" where
  "uv_fs_poll_start h path interval s =
     (if uv__is_active h s then Some (0, s)
      else do {
        (m, s) \<leftarrow> syscall (Sys ''calloc'' [int (length path)]) s;
        if r_ret m = - 1 then Some (UV_ENOMEM, s)
        else do {
          let c = nat (r_ret m);
          let s = upd_ctx c (\<lambda>_. \<lparr>pc_parent = Some h, pc_busy = 0, pc_interval = (if interval \<noteq> 0 then interval else 1),
            pc_start_time = uv_now s, pc_statbuf = zero_statbuf, pc_path = path\<rparr>) s;
          let s = upd_fs c (\<lambda>q. q\<lparr>fs_statbuf := zero_statbuf\<rparr>) s;
          let (err, s) = uv_timer_init c s;
          if err < 0 then Some (err, s)
          else do {
            let s = uv__handle_unref c (set_flags c UV__HANDLE_INTERNAL s);
            (err, s) \<leftarrow> uv_fs_stat c path (Some Poll_fs_cb) s;
            if err < 0 then Some (err, s)
            else Some (0, uv__handle_start h (s\<lparr>fs_poll_ctx := (fs_poll_ctx s)(h := Some c)\<rparr>))
          }
        }
      })"

definition uv_fs_poll_stop :: "addr \<Rightarrow> 'a fploop_scheme \<Rightarrow> (int \<times> 'a fploop_scheme) option" where
  "uv_fs_poll_stop h s =
     (if \<not> uv__is_active h s then Some (0, s)
      else do {
        c \<leftarrow> fs_poll_ctx s h;
        require (pc_parent (poll_ctxs s c) \<noteq> None);
        let s = upd_ctx c (\<lambda>x. x\<lparr>pc_parent := None\<rparr>) s;
        let s = s\<lparr>fs_poll_ctx := (fs_poll_ctx s)(h := None)\<rparr>;
        s \<leftarrow> (if uv__is_active c s then close_timer c s else Some s);
        Some (0, uv__handle_stop h s)
      })"

text \<open>The result, the text stored in the buffer if any, and the size.\<close>

definition uv_fs_poll_getpath :: "addr \<Rightarrow> nat \<Rightarrow> 'a fploop_scheme \<Rightarrow> (int \<times> string option \<times> nat) option" where
  "uv_fs_poll_getpath h sz s =
     (if \<not> uv__is_active h s then Some (UV_EINVAL, None, 0)
      else do {
        c \<leftarrow> fs_poll_ctx s h;
        let required_len = length (pc_path (poll_ctxs s c));
        Some (if required_len \<ge> sz then (UV_ENOBUFS, None, required_len + 1) else (0, Some (pc_path (poll_ctxs s c)), required_len))
      })"

definition uv__fs_poll_close :: "addr \<Rightarrow> 'a fploop_scheme \<Rightarrow> 'a fploop_scheme option" where
  "uv__fs_poll_close h s = map_option snd (uv_fs_poll_stop h s)"

definition fs_poll_timer_cb :: "addr \<Rightarrow> 'a fploop_scheme \<Rightarrow> 'a fploop_scheme option" where
  "fs_poll_timer_cb c s = do {
     h \<leftarrow> pc_parent (poll_ctxs s c);
     require (fs_poll_ctx s h = Some c);
     let s = upd_ctx c (\<lambda>x. x\<lparr>pc_start_time := uv_now s\<rparr>) s;
     (err, s) \<leftarrow> uv_fs_stat c (pc_path (poll_ctxs s c)) (Some Poll_fs_cb) s;
     require (err = 0);
     Some s
   }"

text \<open>\<open>ctx->poll_cb\<close> is the user's: its arguments are the two \<open>uv_stat_t\<close>, which the trace leaves out.\<close>

definition poll_delay :: "u32 \<Rightarrow> u64 \<Rightarrow> u64 \<Rightarrow> u64" where
  "poll_delay interval now start = (let interval = ucast interval in interval - (now - start) mod interval)"

definition fs_poll_rearm :: "addr \<Rightarrow> 'a fploop_scheme \<Rightarrow> 'a fploop_scheme option" where
  "fs_poll_rearm c s = do {
     let interval = poll_delay (pc_interval (poll_ctxs s c)) (uv_now s) (pc_start_time (poll_ctxs s c));
     (err, s) \<leftarrow> uv_timer_start c (Some poll_timer_fn) interval 0 s;
     require (err = 0);
     Some s
   }"

definition fs_poll_report ::
    "(callback \<Rightarrow> 'a fploop_scheme \<Rightarrow> 'a fploop_scheme) \<Rightarrow> addr \<Rightarrow> addr \<Rightarrow> 'a fploop_scheme \<Rightarrow> 'a fploop_scheme" where
  "fs_poll_report call h c s =
     (let result = fs_result (fs_reqs s c); busy = pc_busy (poll_ctxs s c)
      in if result \<noteq> 0 then
           (if busy \<noteq> result then upd_ctx c (\<lambda>x. x\<lparr>pc_busy := result\<rparr>) (invoke call (Fs_poll_cb h result) s) else s)
         else
           let s = (if busy \<noteq> 0 \<and> (busy < 0 \<or> \<not> statbuf_eq (pc_statbuf (poll_ctxs s c)) (fs_statbuf (fs_reqs s c)))
                    then invoke call (Fs_poll_cb h 0) s else s)
           in upd_ctx c (\<lambda>x. x\<lparr>pc_statbuf := fs_statbuf (fs_reqs s c), pc_busy := 1\<rparr>) s)"

definition fs_poll_cb :: "(callback \<Rightarrow> 'a fploop_scheme \<Rightarrow> 'a fploop_scheme) \<Rightarrow> addr \<Rightarrow> 'a fploop_scheme \<Rightarrow> 'a fploop_scheme option" where
  "fs_poll_cb call c s =
     (case pc_parent (poll_ctxs s c) of
        None \<Rightarrow> map_option (uv_fs_req_cleanup c) (close_timer c s)
      | Some h \<Rightarrow>
          let s = uv_fs_req_cleanup c (fs_poll_report call h c s)
          in if pc_parent (poll_ctxs s c) = None then close_timer c s else fs_poll_rearm c s)"

section \<open>Lemmas\<close>

lemma timer_stop_fields:
  assumes "uv_timer_stop h s = Some (e, t)"
  shows "timers t = timers s \<and> loop_time t = loop_time s"
  using assms by (auto simp: uv_timer_stop_def uv__handle_stop_def uv__active_handle_rm_def upd_flags_def Let_def split: if_splits option.splits)

lemma timer_start_timeout:
  assumes "uv_timer_start h (Some cb) timeout rep s = Some (0, t)"
  shows "t_timeout (timers t h) = clamp_timeout (loop_time s) timeout"
proof -
  obtain u where u: "timers u = timers s" "loop_time u = loop_time s" "timer_arm h cb timeout rep u = Some (0, t)"
    using assms by (auto simp: uv_timer_start_def split: if_splits option.splits prod.splits dest!: timer_stop_fields)
  then show ?thesis
    by (auto simp: timer_arm_def Let_def upd_timer_def uv__handle_start_def uv__active_handle_add_def upd_flags_def split: if_splits option.splits)
qed

lemma poll_delay_nat:
  assumes "interval \<noteq> 0" "start \<le> now"
  shows "unat (poll_delay interval now start) = unat interval - (unat now - unat start) mod unat interval"
    "0 < unat interval - (unat now - unat start) mod unat interval" "unat (poll_delay interval now start) \<le> unat interval"
proof -
  define i :: u64 where "i = ucast interval"
  have i: "unat i = unat interval" 
  proof -
    have "unat interval < 2 ^ 32" using unsigned_less [of interval, where ?'a = nat] by simp
    then show ?thesis by (simp add: i_def unsigned_ucast_eq take_bit_nat_eq_self)
  qed
  have p: "unat interval > 0" using assms(1) by (simp add: unat_gt_0)
  have d: "unat (now - start) = unat now - unat start" using assms(2) by (rule unat_sub)
  have m: "unat ((now - start) mod i) = (unat now - unat start) mod unat interval" by (simp add: unat_mod d i)
  then have "(now - start) mod i \<le> i" using p by (simp add: word_le_nat_alt i less_imp_le)
  then show "unat (poll_delay interval now start) = unat interval - (unat now - unat start) mod unat interval"
    by (simp add: poll_delay_def i_def [symmetric] unat_sub m i)
  then show "unat (poll_delay interval now start) \<le> unat interval" by simp
  show "0 < unat interval - (unat now - unat start) mod unat interval" using p by simp
qed

lemma next_multiple:
  fixes i d :: nat
  assumes "i > 0"
  shows "(d + (i - d mod i)) mod i = 0"
proof -
  have "d + (i - d mod i) = (d div i) * i + i" using assms mod_less_divisor [OF assms, of d] div_mult_mod_eq [of d i] by linarith
  then show ?thesis by simp
qed

lemma poll_start_frame [simp]:
  "replies (uv__req_init r ty s) = replies s" "handle_queue (uv__req_init r ty s) = handle_queue s"
  "active_reqs (uv__req_init r ty s) = active_reqs s @ [r]"
  "replies (uv__handle_unref h s) = replies s" "handle_queue (uv__handle_unref h s) = handle_queue s"
  "replies (set_flags h fl s) = replies s" "handle_queue (set_flags h fl s) = handle_queue s"
  "replies (upd_timer h f s) = replies s" "handle_queue (upd_timer h f s) = handle_queue s"
  "replies (uv__handle_init h ht s) = replies s" "handle_queue (uv__handle_init h ht s) = handle_queue s @ [h]"
  "handle_queue (upd_fs r g s') = handle_queue s'" "active_reqs (upd_fs r g s') = active_reqs s'"
  "replies (upd_ctx c k s'') = replies s''"
  by (simp_all add: uv__req_init_def uv__req_register_def uv__handle_unref_def upd_flags_def uv__active_handle_rm_def set_flags_def
      upd_timer_def uv__handle_init_def upd_fs_def upd_ctx_def Let_def)

section \<open>Properties\<close>

text \<open>Polls keep their rhythm: after a poll the timer is set to a time later than now, by at most the
  interval, that is a whole number of intervals after the start of that poll, however long \<open>stat\<close> took.\<close>
theorem fs_poll_keeps_rhythm:
  assumes "fs_poll_rearm c s = Some t" "pc_interval (poll_ctxs s c) \<noteq> 0" "pc_start_time (poll_ctxs s c) \<le> uv_now s" "unat (uv_now s) + unat (pc_interval (poll_ctxs s c)) < 2 ^ 64"
  shows "uv_now s < t_timeout (timers t c)
    \<and> unat (t_timeout (timers t c)) \<le> unat (uv_now s) + unat (pc_interval (poll_ctxs s c))
    \<and> (unat (t_timeout (timers t c)) - unat (pc_start_time (poll_ctxs s c))) mod unat (pc_interval (poll_ctxs s c)) = 0"
proof -
  let ?i = "pc_interval (poll_ctxs s c)" and ?st = "pc_start_time (poll_ctxs s c)"
  define d where "d = poll_delay ?i (uv_now s) ?st"
  note n = poll_delay_nat [OF assms(2,3), folded d_def]
  have "t_timeout (timers t c) = clamp_timeout (uv_now s) d"
    using assms(1) by (auto simp: fs_poll_rearm_def Option.bind_eq_Some_conv d_def uv_now_def require_def split: if_splits dest: timer_start_timeout)
  moreover have "unat (uv_now s) + unat d < 2 ^ 64" using assms(4) n(3) by linarith
  ultimately have e: "unat (t_timeout (timers t c)) = unat (uv_now s) + unat d" by (simp add: clamp_unat)
  then have "uv_now s < t_timeout (timers t c)" "unat (t_timeout (timers t c)) \<le> unat (uv_now s) + unat ?i"
    using n by (simp_all add: word_less_nat_alt)
  moreover have "unat ?st \<le> unat (uv_now s)" using assms(3) by (simp add: word_le_nat_alt)
  then have "unat (t_timeout (timers t c)) - unat ?st = (unat (uv_now s) - unat ?st) + (unat ?i - (unat (uv_now s) - unat ?st) mod unat ?i)"
    using e n(1) by simp
  ultimately show ?thesis using next_multiple [of "unat ?i"] assms(2) by (simp add: unat_gt_0)
qed

definition polling_loop :: "reply list \<Rightarrow> u64 \<Rightarrow> u32 \<Rightarrow> int \<Rightarrow> unit fploop_scheme" where
  "polling_loop rs now interval busy = (snd (uv_timer_init 5 (fs_loop rs (fs_request []) (fploop_ext
     (\<lambda>_. \<lparr>pc_parent = Some 4, pc_busy = busy, pc_interval = interval, pc_start_time = 1000, pc_statbuf = uv__to_stat (replicate 16 3) zero_statbuf,
        pc_path = ''a''\<rparr>) (\<lambda>_. Some 5) ()))))\<lparr>loop_time := now\<rparr>"

lemma later_timers: "timers_wf (s\<lparr>loop_time := x\<rparr>) = timers_wf s" "is_timer (s\<lparr>loop_time := x\<rparr>) h = is_timer s h"
  by (simp_all add: timers_wf_def is_timer_def armed_def refs_ok_def counted_def flags_of_def uv__is_active_def uv__has_ref_def)

lemma polling_loop_timer: "timers_wf (polling_loop rs now interval busy)" "is_timer (polling_loop rs now interval busy) 5"
proof -
  let ?s = "fs_loop rs (fs_request []) (fploop_ext (\<lambda>_. \<lparr>pc_parent = Some 4, pc_busy = busy, pc_interval = interval, pc_start_time = 1000,
     pc_statbuf = uv__to_stat (replicate 16 3) zero_statbuf, pc_path = ''a''\<rparr>) (\<lambda>_. Some 5) ()) :: unit fploop_scheme"
  have "timers_ok ?s" unfolding fs_loop_def stream_loop_def empty_iloop_def by (rule empty_tloop_ok)
  moreover have "handle_queue ?s = []" by (simp add: fs_loop_defs)
  ultimately have "timers_wf (snd (uv_timer_init 5 ?s)) \<and> is_timer (snd (uv_timer_init 5 ?s)) 5"
    using timer_init_ok [of ?s 5] by (simp add: timers_ok_def)
  then show "timers_wf (polling_loop rs now interval busy)" "is_timer (polling_loop rs now interval busy) 5"
    unfolding polling_loop_def by (simp_all add: later_timers)
qed

theorem fs_poll_keeps_rhythm_witness:
  "\<exists>t. fs_poll_rearm 5 (polling_loop [] 3345 1000 0) = Some t \<and> 3345 < t_timeout (timers t 5) \<and> unat (t_timeout (timers t 5)) \<le> 4345
     \<and> (unat (t_timeout (timers t 5)) - 1000) mod 1000 = 0"
proof -
  let ?s = "polling_loop [] 3345 1000 0"
  have c: "pc_interval (poll_ctxs ?s 5) = 1000" "pc_start_time (poll_ctxs ?s 5) = 1000" "uv_now ?s = 3345"
    by (simp_all add: polling_loop_def uv_timer_init_def upd_timer_def uv__handle_init_def fs_loop_defs uv_now_def)
  obtain t where "uv_timer_start 5 (Some poll_timer_fn) (poll_delay (pc_interval (poll_ctxs ?s 5)) (uv_now ?s) (pc_start_time (poll_ctxs ?s 5))) 0 ?s
      = Some (0, t)" using timer_start_ok [OF polling_loop_timer] by blast
  then have t: "fs_poll_rearm 5 ?s = Some t" by (simp add: fs_poll_rearm_def)
  then show ?thesis using fs_poll_keeps_rhythm [OF t] by (simp add: c)
qed

text \<open>What polling reports: nothing when the file looks as before; but the nanoseconds that \<open>stat\<close> returns are
  dropped before the comparison, so that a change within the same second that keeps the size is not reported.\<close>
theorem fs_poll_misses_subsecond:
  assumes "pc_busy (poll_ctxs s c) = 1" "fs_result (fs_reqs s c) = 0" "pc_statbuf (poll_ctxs s c) = uv__to_stat src dst"
    "fs_statbuf (fs_reqs s c) = uv__to_stat (src[11 := n1, 13 := n2, 15 := n3]) dst" "length src = 16"
  shows "trace (fs_poll_report call h c s) = trace s"
proof -
  have "statbuf_eq (uv__to_stat src dst) (uv__to_stat (src[11 := n1, 13 := n2, 15 := n3]) dst)"
    using assms(5) by (simp add: statbuf_eq_def uv__to_stat_def nth_list_update)
  then show ?thesis using assms by (simp add: fs_poll_report_def upd_ctx_def Let_def)
qed

theorem fs_poll_misses_subsecond_witness:
  "trace (fs_poll_report (\<lambda>c u. u) 4 5 ((polling_loop [] 0 1 1)\<lparr>fs_reqs := \<lambda>_. (fs_request [])\<lparr>fs_statbuf :=
     uv__to_stat ((replicate 16 3)[11 := 7, 13 := 8, 15 := 9]) zero_statbuf\<rparr>\<rparr>)) = []"
proof -
  let ?s = "(polling_loop [] 0 1 1)\<lparr>fs_reqs := \<lambda>_. (fs_request [])\<lparr>fs_statbuf := uv__to_stat ((replicate 16 3)[11 := 7, 13 := 8, 15 := 9]) zero_statbuf\<rparr>\<rparr>"
  have s: "poll_ctxs (polling_loop [] 0 1 1) = (\<lambda>_. \<lparr>pc_parent = Some 4, pc_busy = 1, pc_interval = 1, pc_start_time = 1000,
      pc_statbuf = uv__to_stat (replicate 16 3) zero_statbuf, pc_path = ''a''\<rparr>)" "trace (polling_loop [] 0 1 1) = []"
    by (simp_all add: polling_loop_def uv_timer_init_def upd_timer_def uv__handle_init_def fs_loop_defs)
  have "trace (fs_poll_report (\<lambda>c u. u) 4 5 ?s) = trace ?s"
    by (rule fs_poll_misses_subsecond [where src = "replicate 16 3" and dst = zero_statbuf and ?n1.0 = 7 and ?n2.0 = 8 and ?n3.0 = 9])
      (simp_all add: s fs_request_def)
  then show ?thesis by (simp add: s)
qed

text \<open>Without memory for the path, \<open>uv_fs_poll_start\<close> frees the context and reports the error, but the timer
  in the context stays in the queue of the loop's handles.\<close>
theorem fs_poll_start_leaves_timer:
  assumes "replies s = ret (int c) # fail ENOMEM # rest" "\<not> uv__is_active h s"
  shows "\<exists>t. uv_fs_poll_start h path interval s = Some (- ENOMEM, t) \<and> c \<in> set (handle_queue t)"
  using assms
proof -
  have "replies s = ret (int c) # fail ENOMEM # rest" by fact
  then show ?thesis using assms(2)
    by (simp add: uv_fs_poll_start_def Let_def uv_timer_init_def uv_fs_stat_def fs_on_path_def fs_PATH_def fs_INIT_def uv__strdup_def
        req_unregister_def uv__req_unregister_def uv__has_active_reqs_def) (simp add: ret_def fail_def)
qed


theorem fs_poll_start_leaves_timer_witness:
  "\<exists>t. uv_fs_poll_start 4 ''a'' 0 (polling_loop [ret (int 6), fail ENOMEM] 0 1 0) = Some (- ENOMEM, t) \<and> 6 \<in> set (handle_queue t)"
  by (rule fs_poll_start_leaves_timer [where rest = "[]"])
    (simp_all add: polling_loop_def uv_timer_init_def upd_timer_def uv__handle_init_def fs_loop_defs uv__is_active_def flags_of_def flag_simps)

end
