(* ===== verification/Inotify.thy ===== *)
theory Inotify
  imports Fs_Poll
begin

text \<open>
  Watching files through the kernel, \<open>src/unix/linux-inotify.cpp\<close>.  The red-black tree of watcher lists, keyed by
  the watch descriptor, is a map.  While a list is iterated over, its handles are in a local queue.
  The events of one \<open>read\<close> are the descriptors and masks in \<open>r_events\<close> with the names in \<open>r_strs\<close>, empty
  when \<open>len\<close> is 0.
\<close>

record watcher_list =
  wl_watchers :: "addr list"
  wl_iterating :: bool
  wl_path :: string

record uv_fs_event =
  fe_cb :: bool
  fe_path :: "string option"
  fe_wd :: int

record inloop = fploop +
  inotify_watchers :: "int \<Rightarrow> watcher_list option"
  inotify_local :: "addr list"
  fs_events :: "addr \<Rightarrow> uv_fs_event"

abbreviation (input) UV_RENAME :: u32 where "UV_RENAME \<equiv> 1"
abbreviation (input) UV_CHANGE :: u32 where "UV_CHANGE \<equiv> 2"

text \<open>\<open>UV__IN_ATTRIB | UV__IN_MODIFY\<close>, and the events asked for.\<close>

abbreviation (input) in_change :: u32 where "in_change \<equiv> 0x006"
abbreviation (input) in_events :: int where "in_events \<equiv> 0xfc6"

definition upd_event :: "addr \<Rightarrow> (uv_fs_event \<Rightarrow> uv_fs_event) \<Rightarrow> 'a inloop_scheme \<Rightarrow> 'a inloop_scheme" where
  "upd_event h f s = s\<lparr>fs_events := (fs_events s)(h := f (fs_events s h))\<rparr>"

definition upd_list :: "int \<Rightarrow> (watcher_list \<Rightarrow> watcher_list) \<Rightarrow> 'a inloop_scheme \<Rightarrow> 'a inloop_scheme" where
  "upd_list wd f s = s\<lparr>inotify_watchers := (inotify_watchers s)(wd := map_option f (inotify_watchers s wd))\<rparr>"

definition new_inotify_fd :: "'a kern_scheme \<Rightarrow> (int \<times> 'a kern_scheme) option" where
  "new_inotify_fd s = do {
     (r, s) \<leftarrow> syscall (Sys ''inotify_init1'' [O_NONBLOCK OR O_CLOEXEC]) s;
     if r_ret r \<noteq> - 1 then Some (r_ret r, s)
     else if errno s \<noteq> ENOSYS then Some (- errno s, s)
     else do {
       (r, s) \<leftarrow> syscall (Sys ''inotify_init'' []) s;
       if r_ret r = - 1 then Some (- errno s, s)
       else do {
         (err, s) \<leftarrow> uv__cloexec (r_ret r) 1 s;
         (err, s) \<leftarrow> (if err = 0 then uv__nonblock (r_ret r) 1 s else Some (err, s));
         if err \<noteq> 0 then do { (_, s) \<leftarrow> uv__close (r_ret r) s; Some (err, s) } else Some (r_ret r, s)
       }
     }
   }"

definition init_inotify :: "'a iloop_scheme \<Rightarrow> (int \<times> 'a iloop_scheme) option" where
  "init_inotify s =
     (if inotify_fd s \<noteq> - 1 then Some (0, s)
      else do {
        (err, s) \<leftarrow> new_inotify_fd s;
        if err < 0 then Some (err, s)
        else do {
          s \<leftarrow> uv__io_init (inotify_read_watcher s) uv__inotify_read_cb err (s\<lparr>inotify_fd := err\<rparr>);
          s \<leftarrow> uv__io_start (inotify_read_watcher s) POLLIN s;
          Some (0, s)
        }
      })"

definition find_watcher :: "int \<Rightarrow> 'a inloop_scheme \<Rightarrow> watcher_list option" where
  "find_watcher wd s = inotify_watchers s wd"

definition maybe_free_watcher_list :: "int \<Rightarrow> 'a inloop_scheme \<Rightarrow> 'a inloop_scheme option" where
  "maybe_free_watcher_list wd s = do {
     w \<leftarrow> inotify_watchers s wd;
     if \<not> wl_iterating w \<and> wl_watchers w = [] then do {
       let s = s\<lparr>inotify_watchers := (inotify_watchers s)(wd := None)\<rparr>;
       (_, s) \<leftarrow> syscall (Sys ''inotify_rm_watch'' [inotify_fd s, wd]) s;
       Some s
     } else Some s
   }"

definition event_kind :: "u32 \<Rightarrow> u32" where
  "event_kind msk = (if msk AND in_change \<noteq> 0 then UV_CHANGE else 0) OR (if msk AND NOT in_change \<noteq> 0 then UV_RENAME else 0)"

text \<open>What follows the last slash.\<close>

definition uv__basename_r :: "string \<Rightarrow> string" where
  "uv__basename_r path = rev (takeWhile (\<lambda>c. c \<noteq> CHR ''/'') (rev path))"

partial_function (option) inotify_calls ::
    "(callback \<Rightarrow> 'a inloop_scheme \<Rightarrow> 'a inloop_scheme) \<Rightarrow> int \<Rightarrow> string \<Rightarrow> u32 \<Rightarrow> 'a inloop_scheme \<Rightarrow> 'a inloop_scheme option" where
  "inotify_calls call wd path events s =
     (case inotify_local s of
        [] \<Rightarrow> Some s
      | h # q \<Rightarrow>
          inotify_calls call wd path events
            (invoke call (Fs_event_cb h path events)
              (upd_list wd (\<lambda>w. w\<lparr>wl_watchers := wl_watchers w @ [h]\<rparr>) (s\<lparr>inotify_local := q\<rparr>))))"

definition inotify_event ::
    "(callback \<Rightarrow> 'a inloop_scheme \<Rightarrow> 'a inloop_scheme) \<Rightarrow> int \<times> u32 \<Rightarrow> string \<Rightarrow> 'a inloop_scheme \<Rightarrow> 'a inloop_scheme option" where
  "inotify_event call e name s =
     (case find_watcher (fst e) s of
        None \<Rightarrow> Some s
      | Some w \<Rightarrow> do {
          let path = (if name \<noteq> [] then name else uv__basename_r (wl_path w));
          let s = upd_list (fst e) (\<lambda>w. w\<lparr>wl_iterating := True, wl_watchers := []\<rparr>) (s\<lparr>inotify_local := wl_watchers w\<rparr>);
          s \<leftarrow> inotify_calls call (fst e) path (event_kind (snd e)) s;
          maybe_free_watcher_list (fst e) (upd_list (fst e) (\<lambda>w. w\<lparr>wl_iterating := False\<rparr>) s)
        })"

fun inotify_events ::
    "(callback \<Rightarrow> 'a inloop_scheme \<Rightarrow> 'a inloop_scheme) \<Rightarrow> ((int \<times> u32) \<times> string) list \<Rightarrow> 'a inloop_scheme \<Rightarrow> 'a inloop_scheme option" where
  "inotify_events call [] s = Some s"
| "inotify_events call (e # es) s = do { s \<leftarrow> inotify_event call (fst e) (snd e) s; inotify_events call es s }"

partial_function (option) uv__inotify_read ::
    "(callback \<Rightarrow> 'a inloop_scheme \<Rightarrow> 'a inloop_scheme) \<Rightarrow> 'a inloop_scheme \<Rightarrow> 'a inloop_scheme option" where
  "uv__inotify_read call s =
     (case eintr_loop (Read (inotify_fd s) 4096) s of
        None \<Rightarrow> None
      | Some p \<Rightarrow>
          if r_ret (fst p) = - 1 then (if errno (snd p) = EAGAIN \<or> errno (snd p) = EWOULDBLOCK then Some (snd p) else None)
          else if r_ret (fst p) \<le> 0 then None
          else Option.bind (inotify_events call (zip (r_events (fst p)) (r_strs (fst p))) (snd p)) (uv__inotify_read call))"

definition uv_fs_event_init :: "addr \<Rightarrow> 'a loop_scheme \<Rightarrow> int \<times> 'a loop_scheme" where
  "uv_fs_event_init h s = (0, uv__handle_init h UV_FS_EVENT s)"

definition uv_fs_event_start :: "addr \<Rightarrow> bool \<Rightarrow> string \<Rightarrow> 'a inloop_scheme \<Rightarrow> (int \<times> 'a inloop_scheme) option" where
  "uv_fs_event_start h cb path s =
     (if uv__is_active h s then Some (- EINVAL, s)
      else do {
        (err, s) \<leftarrow> init_inotify s;
        if err \<noteq> 0 then Some (err, s)
        else do {
          (r, s) \<leftarrow> syscall (SysPath ''inotify_add_watch'' [path] [inotify_fd s, in_events]) s;
          let wd = r_ret r;
          if wd = - 1 then Some (- errno s, s)
          else do {
            (ok, s) \<leftarrow> (case find_watcher wd s of
                Some w \<Rightarrow> Some (True, s)
              | None \<Rightarrow> do {
                  (m, s) \<leftarrow> syscall (Sys ''malloc'' [int (length path) + 1]) s;
                  if r_ret m = - 1 then Some (False, s)
                  else Some (True, s\<lparr>inotify_watchers := (inotify_watchers s)(wd := Some \<lparr>wl_watchers = [], wl_iterating = False, wl_path = path\<rparr>)\<rparr>)
                });
            if \<not> ok then Some (- ENOMEM, s)
            else do {
              let s = uv__handle_start h s;
              let s = upd_list wd (\<lambda>w. w\<lparr>wl_watchers := wl_watchers w @ [h]\<rparr>) s;
              w \<leftarrow> find_watcher wd s;
              Some (0, upd_event h (\<lambda>_. \<lparr>fe_cb = cb, fe_path = Some (wl_path w), fe_wd = wd\<rparr>) s)
            }
          }
        }
      })"

text \<open>\<open>QUEUE_REMOVE\<close> takes the handle out of the queue it is in.\<close>

definition uv_fs_event_stop :: "addr \<Rightarrow> 'a inloop_scheme \<Rightarrow> (int \<times> 'a inloop_scheme) option" where
  "uv_fs_event_stop h s =
     (if \<not> uv__is_active h s then Some (0, s)
      else do {
        let wd = fe_wd (fs_events s h);
        w \<leftarrow> find_watcher wd s;
        let s = upd_event h (\<lambda>e. e\<lparr>fe_wd := - 1, fe_path := None\<rparr>) s;
        let s = uv__handle_stop h s;
        let s = upd_list wd (\<lambda>w. w\<lparr>wl_watchers := remove1 h (wl_watchers w)\<rparr>) (s\<lparr>inotify_local := remove1 h (inotify_local s)\<rparr>);
        s \<leftarrow> maybe_free_watcher_list wd s;
        Some (0, s)
      })"

definition uv__fs_event_close :: "addr \<Rightarrow> 'a inloop_scheme \<Rightarrow> 'a inloop_scheme option" where
  "uv__fs_event_close h s = map_option snd (uv_fs_event_stop h s)"

section \<open>The invariant between events\<close>

definition watching :: "'a inloop_scheme \<Rightarrow> addr \<Rightarrow> bool" where
  "watching s h \<longleftrightarrow> handle_type h s = UV_FS_EVENT \<and> uv__is_active h s"

definition inotify_ok :: "'a inloop_scheme \<Rightarrow> bool" where
  "inotify_ok s \<longleftrightarrow>
     (\<forall>wd w. inotify_watchers s wd = Some w \<longrightarrow> \<not> wl_iterating w \<and> wl_watchers w \<noteq> [] \<and> distinct (wl_watchers w)
        \<and> (\<forall>h \<in> set (wl_watchers w). watching s h \<and> fe_wd (fs_events s h) = wd))
     \<and> (\<forall>h. watching s h \<longrightarrow> (\<exists>w. inotify_watchers s (fe_wd (fs_events s h)) = Some w \<and> h \<in> set (wl_watchers w)))"

definition watchers_of :: "'a inloop_scheme \<Rightarrow> int \<Rightarrow> addr list" where
  "watchers_of s wd = (case inotify_watchers s wd of None \<Rightarrow> [] | Some w \<Rightarrow> wl_watchers w)"

lemma inotify_upd_simps [simp]:
  "inotify_watchers (upd_event h f s) = inotify_watchers s" "fs_events (upd_event h f s) = (fs_events s)(h := f (fs_events s h))"
  "inotify_watchers (upd_list wd g s) = (inotify_watchers s)(wd := map_option g (inotify_watchers s wd))" "fs_events (upd_list wd g s) = fs_events s"
  "hnd (upd_event h f s) = hnd s" "hnd (upd_list wd g s) = hnd s" "syscalls (upd_event h f s) = syscalls s" "syscalls (upd_list wd g s) = syscalls s"
  "replies (upd_event h f s) = replies s" "replies (upd_list wd g s) = replies s"
  "inotify_fd (upd_event h f s) = inotify_fd s" "inotify_fd (upd_list wd g s) = inotify_fd s"
  by (simp_all add: upd_event_def upd_list_def)

lemma handle_stop_inotify [simp]:
  "inotify_watchers (uv__handle_stop h s) = inotify_watchers s" "fs_events (uv__handle_stop h s) = fs_events s"
  "syscalls (uv__handle_stop h s) = syscalls s" "replies (uv__handle_stop h s) = replies s" "inotify_fd (uv__handle_stop h s) = inotify_fd s"
  "handle_type k (uv__handle_stop h s) = handle_type k s"
  by (simp_all add: uv__handle_stop_def upd_flags_def uv__active_handle_rm_def Let_def handle_type_def)

lemma watching_cong: "hnd t = hnd s \<Longrightarrow> watching t h = watching s h"
  by (simp add: watching_def handle_type_def uv__is_active_def flags_of_def)

lemma watching_stop: "watching (uv__handle_stop h s) k \<longleftrightarrow> watching s k \<and> k \<noteq> h"
  by (auto simp: watching_def uv__is_active_def handle_ops_flags flag_simps)

text \<open>Stopping, but for the last step.\<close>

lemma free_list:
  assumes "inotify_watchers s wd = Some w" "\<not> wl_iterating w" "replies s = r # rs"
  shows "\<exists>t. maybe_free_watcher_list wd s = Some t \<and> hnd t = hnd s \<and> fs_events t = fs_events s
    \<and> inotify_watchers t = (if wl_watchers w = [] then (inotify_watchers s)(wd := None) else inotify_watchers s)
    \<and> syscalls t = syscalls s @ (if wl_watchers w = [] then [(Sys ''inotify_rm_watch'' [inotify_fd s, wd], r_ret r)] else [])"
  using assms by (auto simp: maybe_free_watcher_list_def Let_def)

text \<open>The invariant when a handle has left its list, and the list the tree if it was the last.\<close>

lemma list_shrunk:
  assumes "inotify_ok s" "fe_wd (fs_events s h) = wd" "inotify_watchers s wd = Some w"
    "ls = remove1 h (wl_watchers w)" "\<And>k. watching t k \<longleftrightarrow> watching s k \<and> k \<noteq> h"
    "inotify_watchers t = (inotify_watchers s)(wd := if ls = [] then None else Some (w\<lparr>wl_watchers := ls\<rparr>))"
    "\<And>k. k \<noteq> h \<Longrightarrow> fe_wd (fs_events t k) = fe_wd (fs_events s k)"
  shows "inotify_ok t"
  unfolding inotify_ok_def
proof (intro conjI allI impI)
  fix d x assume x: "inotify_watchers t d = Some x"
  have i: "\<not> wl_iterating w" "distinct (wl_watchers w)" using assms(1,3) unfolding inotify_ok_def by blast+
  have "\<not> wl_iterating x \<and> wl_watchers x \<noteq> [] \<and> distinct (wl_watchers x) \<and> set (wl_watchers x) \<subseteq> {k. watching s k \<and> fe_wd (fs_events s k) = d \<and> k \<noteq> h}"
  proof (cases "d = wd")
    case True
    have "set ls = set (wl_watchers w) - {h}" "distinct ls" using i(2) by (simp_all add: assms(4))
    moreover have "x = w\<lparr>wl_watchers := ls\<rparr>" "ls \<noteq> []" using x True assms(6) by (auto split: if_splits)
    ultimately show ?thesis using assms(1,3) i(1) True unfolding inotify_ok_def by auto
  next
    case False
    then have y: "inotify_watchers s d = Some x" using x assms(6) by simp
    have "\<forall>k \<in> set (wl_watchers x). fe_wd (fs_events s k) = d" using assms(1) y unfolding inotify_ok_def by blast
    then have "h \<notin> set (wl_watchers x)" using False assms(2) by auto
    then show ?thesis using assms(1) y unfolding inotify_ok_def by blast
  qed
  then show "\<not> wl_iterating x" "wl_watchers x \<noteq> []" "distinct (wl_watchers x)"
    "\<forall>k \<in> set (wl_watchers x). watching t k \<and> fe_wd (fs_events t k) = d" using assms(5,7) by auto
next
  fix k assume "watching t k"
  then have k: "watching s k" "k \<noteq> h" using assms(5) by auto
  then obtain x where x: "inotify_watchers s (fe_wd (fs_events s k)) = Some x" "k \<in> set (wl_watchers x)"
    using assms(1) unfolding inotify_ok_def by blast
  then have "fe_wd (fs_events s k) = wd \<Longrightarrow> k \<in> set ls" using k assms(3) by (simp add: assms(4))
  then show "\<exists>x. inotify_watchers t (fe_wd (fs_events t k)) = Some x \<and> k \<in> set (wl_watchers x)"
    using x k(2) assms(6,7) by (cases "fe_wd (fs_events s k) = wd") auto
qed

section \<open>Properties\<close>

text \<open>C28: \<open>uv_fs_event_stop\<close> takes the handle out of the list of its watch descriptor and keeps the invariant: every
  list in the tree has active handles of its descriptor, and every active handle is in its list.  The kernel's
  watch is removed, and the list with it, exactly when the last handle stops.\<close>
theorem fs_event_stop_removes_watch:
  assumes "inotify_ok s" "watching s h" "replies s = r # rs"
  shows "\<exists>t. uv_fs_event_stop h s = Some (0, t) \<and> inotify_ok t \<and> (\<forall>k. watching t k \<longleftrightarrow> watching s k \<and> k \<noteq> h)
    \<and> (let wd = fe_wd (fs_events s h); last = (watchers_of s wd = [h])
       in watchers_of t wd = remove1 h (watchers_of s wd)
        \<and> syscalls t = syscalls s @ (if last then [(Sys ''inotify_rm_watch'' [inotify_fd s, wd], r_ret r)] else [])
        \<and> (inotify_watchers t wd = None \<longleftrightarrow> last))"
proof -
  define wd where "wd = fe_wd (fs_events s h)"
  from assms(1,2) obtain w where w: "inotify_watchers s wd = Some w" "h \<in> set (wl_watchers w)" unfolding inotify_ok_def wd_def by blast
  have i: "\<not> wl_iterating w" "distinct (wl_watchers w)" using assms(1) w(1) unfolding inotify_ok_def by blast+
  define ls where "ls = remove1 h (wl_watchers w)"
  define u where "u = upd_list wd (\<lambda>w. w\<lparr>wl_watchers := remove1 h (wl_watchers w)\<rparr>)
    ((uv__handle_stop h (upd_event h (\<lambda>e. e\<lparr>fe_wd := - 1, fe_path := None\<rparr>) s))\<lparr>inotify_local := remove1 h (inotify_local
       (uv__handle_stop h (upd_event h (\<lambda>e. e\<lparr>fe_wd := - 1, fe_path := None\<rparr>) s)))\<rparr>)"
  have u: "inotify_watchers u = (inotify_watchers s)(wd := Some (w\<lparr>wl_watchers := ls\<rparr>))" "replies u = r # rs" "syscalls u = syscalls s"
    "inotify_fd u = inotify_fd s" "fs_events u = (fs_events s)(h := (fs_events s h)\<lparr>fe_wd := - 1, fe_path := None\<rparr>)"
    using w assms(3) by (simp_all add: u_def ls_def)
  have wt: "watching u k \<longleftrightarrow> watching s k \<and> k \<noteq> h" for k
  proof -
    define v where "v = upd_event h (\<lambda>e. e\<lparr>fe_wd := - 1, fe_path := None\<rparr>) s"
    have "hnd u = hnd (uv__handle_stop h v)" "hnd v = hnd s" by (simp_all add: u_def v_def)
    then show ?thesis using watching_cong [of u "uv__handle_stop h v" k] watching_cong [of v s k] watching_stop by blast
  qed
  obtain t where t: "maybe_free_watcher_list wd u = Some t" "hnd t = hnd u" "fs_events t = fs_events u"
    "inotify_watchers t = (if ls = [] then (inotify_watchers u)(wd := None) else inotify_watchers u)"
    "syscalls t = syscalls u @ (if ls = [] then [(Sys ''inotify_rm_watch'' [inotify_fd u, wd], r_ret r)] else [])"
    using free_list [of u wd "w\<lparr>wl_watchers := ls\<rparr>" r rs] u i(1) by auto
  have "uv_fs_event_stop h s = Some (0, t)"
    using assms(2) t(1) w(1) by (simp add: uv_fs_event_stop_def watching_def find_watcher_def wd_def [symmetric] Let_def u_def)
  moreover have wk: "watching t k \<longleftrightarrow> watching s k \<and> k \<noteq> h" for k using watching_cong [OF t(2)] wt by simp
  moreover have last: "ls = [] \<longleftrightarrow> wl_watchers w = [h]" using w(2) i(2) by (cases "wl_watchers w") (auto simp: ls_def)
  moreover have tree: "inotify_watchers t = (inotify_watchers s)(wd := if ls = [] then None else Some (w\<lparr>wl_watchers := ls\<rparr>))"
    using t(4) u(1) by simp
  moreover have "inotify_ok t"
    using list_shrunk [OF assms(1) _ w(1), of h ls t] wk tree t(3) u(5) by (simp add: wd_def ls_def)
  ultimately show ?thesis using t(5) u(3,4) w(1) unfolding wd_def [symmetric] watchers_of_def Let_def by (auto simp: ls_def)
qed


definition two_watchers :: "reply list \<Rightarrow> unit inloop_scheme" where
  "two_watchers rs = (fs_loop rs (fs_request []) (fploop_ext (\<lambda>_. \<lparr>pc_parent = None, pc_busy = 0, pc_interval = 1, pc_start_time = 0,
      pc_statbuf = zero_statbuf, pc_path = []\<rparr>) (\<lambda>_. None)
     (inloop_ext (\<lambda>d. if d = 3 then Some \<lparr>wl_watchers = [1], wl_iterating = False, wl_path = ''a''\<rparr> else None) []
       (\<lambda>_. \<lparr>fe_cb = True, fe_path = Some ''a'', fe_wd = 3\<rparr>) ())))
     \<lparr>hnd := \<lambda>h. \<lparr>h_type = UV_FS_EVENT, h_flags = (if h = 1 then UV__HANDLE_ACTIVE else 0), h_close_cb = False\<rparr>\<rparr>"

theorem fs_event_stop_removes_watch_witness:
  "\<exists>t. uv_fs_event_stop 1 (two_watchers [ret 0]) = Some (0, t) \<and> inotify_ok t \<and> inotify_watchers t 3 = None"
proof -
  let ?s = "two_watchers [ret 0]"
  have w: "watching ?s h \<longleftrightarrow> h = 1" for h
    by (simp add: two_watchers_def watching_def handle_type_def uv__is_active_def flags_of_def flag_simps)
  have e: "inotify_watchers ?s = (\<lambda>d. if d = 3 then Some \<lparr>wl_watchers = [1], wl_iterating = False, wl_path = ''a''\<rparr> else None)"
    "fe_wd (fs_events ?s h) = 3" "replies ?s = [ret 0]" for h by (simp_all add: two_watchers_def fs_loop_defs)
  have "inotify_ok ?s" unfolding inotify_ok_def w e by simp
  from fs_event_stop_removes_watch [OF this _ e(3), of 1] show ?thesis by (auto simp: w e watchers_of_def Let_def)
qed

end
