(* ===== verification/Addrinfo.thy ===== *)
theory Addrinfo
  imports Inotify
begin

text \<open>
  Name resolution, \<open>src/unix/getaddrinfo.cpp\<close> and \<open>src/unix/getnameinfo.cpp\<close>: two kinds of request for the thread
  pool.  A request and the \<open>uv__work\<close> in it have one address.  \<open>getaddrinfo\<close> copies its three arguments into one
  allocation, whose pieces are the address where they start and their contents; \<open>frees\<close> records the addresses
  given back.  The numbers of a \<open>struct addrinfo\<close> that is a hint are its flags, family, type and protocol.
\<close>

abbreviation (input) EAI_ADDRFAMILY :: int where "EAI_ADDRFAMILY \<equiv> - 9"
abbreviation (input) EAI_AGAIN :: int where "EAI_AGAIN \<equiv> - 3"
abbreviation (input) EAI_BADFLAGS :: int where "EAI_BADFLAGS \<equiv> - 1"
abbreviation (input) EAI_CANCELED :: int where "EAI_CANCELED \<equiv> - 101"
abbreviation (input) EAI_FAIL :: int where "EAI_FAIL \<equiv> - 4"
abbreviation (input) EAI_FAMILY :: int where "EAI_FAMILY \<equiv> - 6"
abbreviation (input) EAI_MEMORY :: int where "EAI_MEMORY \<equiv> - 10"
abbreviation (input) EAI_NODATA :: int where "EAI_NODATA \<equiv> - 5"
abbreviation (input) EAI_NONAME :: int where "EAI_NONAME \<equiv> - 2"
abbreviation (input) EAI_OVERFLOW :: int where "EAI_OVERFLOW \<equiv> - 12"
abbreviation (input) EAI_SERVICE :: int where "EAI_SERVICE \<equiv> - 8"
abbreviation (input) EAI_SOCKTYPE :: int where "EAI_SOCKTYPE \<equiv> - 7"
abbreviation (input) EAI_SYSTEM :: int where "EAI_SYSTEM \<equiv> - 11"

abbreviation (input) UV_EAI_CANCELED :: int where "UV_EAI_CANCELED \<equiv> - 3003"

record uv_getaddrinfo_t =
  ai_cb :: bool
  ai_hints :: "(int \<times> int list) option"
  ai_service :: "(int \<times> string) option"
  ai_hostname :: "(int \<times> string) option"
  ai_addrinfo :: int
  ai_retcode :: int

record uv_getnameinfo_t =
  ni_cb :: bool
  ni_storage :: sockaddr
  ni_flags :: int
  ni_host :: string
  ni_service :: string
  ni_retcode :: int

record adloop = inloop +
  ai_reqs :: "addr \<Rightarrow> uv_getaddrinfo_t"
  ni_reqs :: "addr \<Rightarrow> uv_getnameinfo_t"
  frees :: "int list"

definition upd_ai :: "addr \<Rightarrow> (uv_getaddrinfo_t \<Rightarrow> uv_getaddrinfo_t) \<Rightarrow> 'a adloop_scheme \<Rightarrow> 'a adloop_scheme" where
  "upd_ai r f s = s\<lparr>ai_reqs := (ai_reqs s)(r := f (ai_reqs s r))\<rparr>"

definition upd_ni :: "addr \<Rightarrow> (uv_getnameinfo_t \<Rightarrow> uv_getnameinfo_t) \<Rightarrow> 'a adloop_scheme \<Rightarrow> 'a adloop_scheme" where
  "upd_ni r f s = s\<lparr>ni_reqs := (ni_reqs s)(r := f (ni_reqs s r))\<rparr>"

definition free_at :: "int \<Rightarrow> 'a adloop_scheme \<Rightarrow> 'a adloop_scheme" where
  "free_at p s = s\<lparr>frees := frees s @ [p]\<rparr>"

text \<open>The constants \<open>EAI_BADHINTS\<close> and \<open>EAI_PROTOCOL\<close> do not exist on Linux; another code aborts.\<close>

definition uv__getaddrinfo_translate_error :: "int \<Rightarrow> int \<Rightarrow> int option" where
  "uv__getaddrinfo_translate_error sys_err en =
     (if sys_err = 0 then Some 0
      else if sys_err = EAI_ADDRFAMILY then Some (- 3000)
      else if sys_err = EAI_AGAIN then Some (- 3001)
      else if sys_err = EAI_BADFLAGS then Some (- 3002)
      else if sys_err = EAI_CANCELED then Some UV_EAI_CANCELED
      else if sys_err = EAI_FAIL then Some (- 3004)
      else if sys_err = EAI_FAMILY then Some (- 3005)
      else if sys_err = EAI_MEMORY then Some (- 3006)
      else if sys_err = EAI_NODATA then Some (- 3007)
      else if sys_err = EAI_NONAME then Some (- 3008)
      else if sys_err = EAI_OVERFLOW then Some (- 3009)
      else if sys_err = EAI_SERVICE then Some (- 3010)
      else if sys_err = EAI_SOCKTYPE then Some (- 3011)
      else if sys_err = EAI_SYSTEM then Some (- en)
      else None)"

section \<open>getaddrinfo\<close>

definition str_arg :: "(int \<times> string) option \<Rightarrow> string" where
  "str_arg p = (case p of None \<Rightarrow> [] | Some q \<Rightarrow> snd q)"

definition is_some :: "'b option \<Rightarrow> int" where
  "is_some p = (case p of None \<Rightarrow> 0 | Some _ \<Rightarrow> 1)"

text \<open>The result is a code and, in \<open>r_val\<close>, the head of the list of addresses.\<close>

definition uv__getaddrinfo_work :: "addr \<Rightarrow> 'a adloop_scheme \<Rightarrow> 'a adloop_scheme option" where
  "uv__getaddrinfo_work r s = do {
     let q = ai_reqs s r;
     (e, s) \<leftarrow> syscall (SysPath ''getaddrinfo'' [str_arg (ai_hostname q), str_arg (ai_service q)]
       ([is_some (ai_hostname q), is_some (ai_service q)] @ (case ai_hints q of None \<Rightarrow> [] | Some (p, h) \<Rightarrow> h))) s;
     code \<leftarrow> uv__getaddrinfo_translate_error (r_ret e) (r_errno e);
     Some (upd_ai r (\<lambda>q. q\<lparr>ai_addrinfo := (if r_ret e = 0 then r_val e else ai_addrinfo q), ai_retcode := code\<rparr>) s)
   }"

definition uv__getaddrinfo_done ::
    "(callback \<Rightarrow> 'a adloop_scheme \<Rightarrow> 'a adloop_scheme) \<Rightarrow> addr \<Rightarrow> int \<Rightarrow> 'a adloop_scheme \<Rightarrow> 'a adloop_scheme option" where
  "uv__getaddrinfo_done call r status s = do {
     s \<leftarrow> req_unregister r s;
     s \<leftarrow> (case ai_hints (ai_reqs s r) of
         Some (p, h) \<Rightarrow> Some (free_at p s)
       | None \<Rightarrow> (case ai_service (ai_reqs s r) of
           Some (p, v) \<Rightarrow> Some (free_at p s)
         | None \<Rightarrow> (case ai_hostname (ai_reqs s r) of
             Some (p, v) \<Rightarrow> Some (free_at p s)
           | None \<Rightarrow> None)));
     let s = upd_ai r (\<lambda>q. q\<lparr>ai_hints := None, ai_service := None, ai_hostname := None\<rparr>) s;
     s \<leftarrow> (if status = - ECANCELED then do {
         require (ai_retcode (ai_reqs s r) = 0);
         Some (upd_ai r (\<lambda>q. q\<lparr>ai_retcode := UV_EAI_CANCELED\<rparr>) s)
       } else Some s);
     Some (if ai_cb (ai_reqs s r) then invoke call (Req_cb r (ai_retcode (ai_reqs s r))) s else s)
   }"

abbreviation (input) sizeof_addrinfo :: int where "sizeof_addrinfo \<equiv> 48"

definition str_len :: "string option \<Rightarrow> int" where
  "str_len v = (case v of None \<Rightarrow> 0 | Some v \<Rightarrow> int (length v) + 1)"

definition ai_store :: "addr \<Rightarrow> bool \<Rightarrow> int \<Rightarrow> string option \<Rightarrow> string option \<Rightarrow> int list option \<Rightarrow> 'a adloop_scheme \<Rightarrow> 'a adloop_scheme" where
  "ai_store r cb buf hostname service hints s =
     (let s = upd_ai r (\<lambda>_. \<lparr>ai_cb = cb, ai_hints = None, ai_service = None, ai_hostname = None, ai_addrinfo = 0, ai_retcode = 0\<rparr>) s;
          len = 0;
          (len, s) = (case hints of None \<Rightarrow> (len, s)
            | Some h \<Rightarrow> (len + sizeof_addrinfo, upd_ai r (\<lambda>q. q\<lparr>ai_hints := Some (buf + len, h)\<rparr>) s));
          (len, s) = (case service of None \<Rightarrow> (len, s)
            | Some v \<Rightarrow> (len + str_len service, upd_ai r (\<lambda>q. q\<lparr>ai_service := Some (buf + len, v)\<rparr>) s))
      in case hostname of None \<Rightarrow> s
            | Some v \<Rightarrow> upd_ai r (\<lambda>q. q\<lparr>ai_hostname := Some (buf + len, v)\<rparr>) s)"

definition uv_getaddrinfo ::
    "(callback \<Rightarrow> 'a adloop_scheme \<Rightarrow> 'a adloop_scheme) \<Rightarrow> ptr \<Rightarrow> bool \<Rightarrow> string option \<Rightarrow> string option \<Rightarrow> int list option \<Rightarrow>
     'a adloop_scheme \<Rightarrow> (int \<times> 'a adloop_scheme) option" where
  "uv_getaddrinfo call req cb hostname service hints s =
     (case req of
        None \<Rightarrow> Some (- EINVAL, s)
      | Some r \<Rightarrow>
          if hostname = None \<and> service = None then Some (- EINVAL, s)
          else do {
            let hints_len = (if hints = None then 0 else sizeof_addrinfo);
            (buf, s) \<leftarrow> syscall (Malloc (str_len hostname + str_len service + hints_len)) s;
            if r_ret buf = - 1 then Some (- ENOMEM, s)
            else do {
              let s = uv__req_init r UV_GETADDRINFO s;
              let s = ai_store r cb (r_ret buf) hostname service hints s;
              if cb then do {
                s \<leftarrow> uv__work_submit r Getaddrinfo_work Getaddrinfo_done s;
                Some (0, s)
              } else do {
                s \<leftarrow> uv__getaddrinfo_work r s;
                s \<leftarrow> uv__getaddrinfo_done call r 0 s;
                Some (ai_retcode (ai_reqs s r), s)
              }
            }
          })"

definition uv_freeaddrinfo :: "int \<Rightarrow> 'a kern_scheme \<Rightarrow> 'a kern_scheme option" where
  "uv_freeaddrinfo ai s = (if ai \<noteq> 0 then map_option snd (syscall (Sys ''freeaddrinfo'' [ai]) s) else Some s)"

section \<open>getnameinfo\<close>

text \<open>The reply's strings are the two names.\<close>

definition uv__getnameinfo_work :: "addr \<Rightarrow> 'a adloop_scheme \<Rightarrow> 'a adloop_scheme option" where
  "uv__getnameinfo_work r s = do {
     let q = ni_reqs s r;
     salen \<leftarrow> (if sa_family (ni_storage q) = AF_INET then Some 16 else if sa_family (ni_storage q) = AF_INET6 then Some 28 else None);
     (e, s) \<leftarrow> syscall (SysData ''getnameinfo'' [salen, ni_flags q] [sa_port (ni_storage q), sa_addr (ni_storage q)]) s;
     code \<leftarrow> uv__getaddrinfo_translate_error (r_ret e) (r_errno e);
     Some (upd_ni r (\<lambda>q. q\<lparr>ni_host := (case r_strs e of h # _ \<Rightarrow> h | _ \<Rightarrow> ni_host q),
       ni_service := (case r_strs e of _ # v # _ \<Rightarrow> v | _ \<Rightarrow> ni_service q), ni_retcode := code\<rparr>) s)
   }"

text \<open>The callback's two strings are null after an error: the trace leaves them out.\<close>

definition uv__getnameinfo_done ::
    "(callback \<Rightarrow> 'a adloop_scheme \<Rightarrow> 'a adloop_scheme) \<Rightarrow> addr \<Rightarrow> int \<Rightarrow> 'a adloop_scheme \<Rightarrow> 'a adloop_scheme option" where
  "uv__getnameinfo_done call r status s = do {
     s \<leftarrow> req_unregister r s;
     s \<leftarrow> (if status = - ECANCELED then do {
         require (ni_retcode (ni_reqs s r) = 0);
         Some (upd_ni r (\<lambda>q. q\<lparr>ni_retcode := UV_EAI_CANCELED\<rparr>) s)
       } else Some s);
     Some (if ni_cb (ni_reqs s r) then invoke call (Req_cb r (ni_retcode (ni_reqs s r))) s else s)
   }"

definition uv_getnameinfo ::
    "(callback \<Rightarrow> 'a adloop_scheme \<Rightarrow> 'a adloop_scheme) \<Rightarrow> ptr \<Rightarrow> bool \<Rightarrow> sockaddr option \<Rightarrow> int \<Rightarrow>
     'a adloop_scheme \<Rightarrow> (int \<times> 'a adloop_scheme) option" where
  "uv_getnameinfo call req cb addr flags s =
     (case (req, addr) of
        (Some r, Some a) \<Rightarrow>
          if sa_family a \<noteq> AF_INET \<and> sa_family a \<noteq> AF_INET6 then Some (- EINVAL, s)
          else do {
            let s = uv__req_init r UV_GETNAMEINFO (upd_ni r (\<lambda>q. q\<lparr>ni_storage := a\<rparr>) s);
            let s = upd_ni r (\<lambda>q. q\<lparr>ni_cb := cb, ni_flags := flags, ni_retcode := 0\<rparr>) s;
            if cb then do {
              s \<leftarrow> uv__work_submit r Getnameinfo_work Getnameinfo_done s;
              Some (0, s)
            } else do {
              s \<leftarrow> uv__getnameinfo_work r s;
              s \<leftarrow> uv__getnameinfo_done call r 0 s;
              Some (ni_retcode (ni_reqs s r), s)
            }
          }
      | _ \<Rightarrow> Some (- EINVAL, s))"

section \<open>The copy of the arguments\<close>

lemma create_threads_more: "create_threads n s = Some t \<Longrightarrow> kern.more t = kern.more s"
  by (induction n arbitrary: s) (auto simp: require_def Option.bind_eq_Some_conv syscall_def split: if_splits list.splits)

lemma syscall_kept: "syscall c s = Some (r, t) \<Longrightarrow> kern.more t = kern.more s"
  by (auto simp: syscall_def split: list.splits)

lemma init_once_more: "init_once s = Some t \<Longrightarrow> \<exists>u f. t = upd_pool f u \<and> kern.more u = kern.more s"
  by (fastforce simp: init_once_def Let_def require_def Option.bind_eq_Some_conv split: if_splits dest!: syscall_kept create_threads_more)

lemma init_once_ai: "init_once s = Some t \<Longrightarrow> ai_reqs t = ai_reqs s \<and> active_reqs t = active_reqs s"
proof -
  assume "init_once s = Some t"
  then obtain u f where u: "t = upd_pool f u" "kern.more u = kern.more s" using init_once_more by blast
  from u(2) have "ai_reqs u = ai_reqs s \<and> active_reqs u = active_reqs s" by (cases u, cases s) simp
  then show ?thesis using u(1) by (simp add: upd_pool_def)
qed

lemma work_submit_ai: "uv__work_submit w f d s = Some t \<Longrightarrow> ai_reqs t = ai_reqs s \<and> active_reqs t = active_reqs s"
  by (auto simp: uv__work_submit_def set_static_def upd_pool_def Option.bind_eq_Some_conv split: if_splits dest!: init_once_ai)

definition first_piece :: "uv_getaddrinfo_t \<Rightarrow> int option" where
  "first_piece q =
     (case ai_hints q of Some (p, _) \<Rightarrow> Some p
      | None \<Rightarrow> (case ai_service q of Some (p, _) \<Rightarrow> Some p
          | None \<Rightarrow> map_option fst (ai_hostname q)))"

lemma first_piece_result: "first_piece (q\<lparr>ai_addrinfo := a, ai_retcode := e\<rparr>) = first_piece q"
  by (simp add: first_piece_def split: option.splits)

lemma ai_store_first:
  "hostname \<noteq> None \<or> service \<noteq> None \<Longrightarrow>
   first_piece (ai_reqs (ai_store r cb buf hostname service hints s) r) = Some buf
   \<and> ai_cb (ai_reqs (ai_store r cb buf hostname service hints s) r) = cb"
  by (cases hints; cases service; cases hostname) (auto simp: ai_store_def upd_ai_def first_piece_def Let_def)

lemma getaddrinfo_done_frees:
  assumes "first_piece (ai_reqs v r) = Some buf" "uv__getaddrinfo_done call r status v = Some w"
    and "\<And>c x. frees (call c x) = frees x"
  shows "frees w = frees v @ [buf]"
proof -
  obtain u where u: "req_unregister r v = Some u" using assms(2) by (auto simp: uv__getaddrinfo_done_def Option.bind_eq_Some_conv)
  then have e: "ai_reqs u = ai_reqs v" "frees u = frees v" by (auto simp: req_unregister_def uv__req_unregister_def require_def split: if_splits)
  have steps: "uv__getaddrinfo_done call r status v = Option.bind (case first_piece (ai_reqs u r) of None \<Rightarrow> None | Some p \<Rightarrow> Some (free_at p u))
      (\<lambda>s. let s = upd_ai r (\<lambda>q. q\<lparr>ai_hints := None, ai_service := None, ai_hostname := None\<rparr>) s
        in Option.bind (if status = - ECANCELED then Option.bind (require (ai_retcode (ai_reqs s r) = 0)) (\<lambda>_. Some (upd_ai r (\<lambda>q. q\<lparr>ai_retcode := UV_EAI_CANCELED\<rparr>) s))
           else Some s) (\<lambda>s. Some (if ai_cb (ai_reqs s r) then invoke call (Req_cb r (ai_retcode (ai_reqs s r))) s else s)))"
    using u by (simp add: uv__getaddrinfo_done_def first_piece_def split: option.splits)
  have f: "first_piece (ai_reqs u r) = Some buf" using assms(1) e by simp
  have w: "frees w = frees (free_at buf u)" using assms(2) unfolding steps f
    by (auto simp: Let_def invoke_def assms(3) require_def upd_ai_def split: if_splits)
  show ?thesis unfolding w by (simp add: free_at_def e)
qed

text \<open>The copy of the arguments of a lookup is freed when the lookup is done, once and from its beginning,
  whichever of the three arguments were given: the request's pieces may only have got a result in between, which
  other threads store.\<close>
theorem getaddrinfo_frees_its_copy:
  assumes "replies s = b # rs" "r_ret b \<noteq> - 1" "hostname \<noteq> None \<or> service \<noteq> None"
    and "uv_getaddrinfo call (Some r) True hostname service hints s = Some (rc, t)"
    and "ai_reqs v r = (ai_reqs t r)\<lparr>ai_addrinfo := a, ai_retcode := e\<rparr>"
    and "uv__getaddrinfo_done call r status v = Some w"
    and "\<And>c x. frees (call c x) = frees x"
  shows "rc = 0 \<and> r \<in> set (active_reqs t) \<and> frees w = frees v @ [r_ret b]"
proof -
  define u where "u = ai_store r True (r_ret b) hostname service hints (uv__req_init r UV_GETADDRINFO
     (s\<lparr>replies := rs, syscalls := syscalls s @ [(Malloc (str_len hostname + str_len service + (if hints = None then 0 else sizeof_addrinfo)), r_ret b)]\<rparr>))"
  have n: "(hostname = None \<and> service = None) = False" using assms(3) by blast
  have "Option.bind (uv__work_submit r Getaddrinfo_work Getaddrinfo_done u) (\<lambda>s. Some (0, s)) = Some (rc, t)"
    using assms(4) unfolding uv_getaddrinfo_def option.case(2) n if_False u_def
    by (simp add: assms(1,2))
  then have t: "rc = 0" "uv__work_submit r Getaddrinfo_work Getaddrinfo_done u = Some t" by (auto simp: Option.bind_eq_Some_conv)
  have r: "r \<in> set (active_reqs u)"
    by (cases hints; cases service; cases hostname) (simp_all add: u_def ai_store_def upd_ai_def Let_def uv__req_init_def uv__req_register_def)
  have f: "first_piece (ai_reqs u r) = Some (r_ret b)" unfolding u_def using ai_store_first [OF assms(3)] by blast
  have "first_piece (ai_reqs v r) = Some (r_ret b)"
    using f work_submit_ai [OF t(2)] by (simp add: assms(5) first_piece_result)
  from getaddrinfo_done_frees [OF this assms(6,7)] show ?thesis using t(1) r work_submit_ai [OF t(2)] by simp
qed

definition resolving :: "reply list \<Rightarrow> addr list \<Rightarrow> unit adloop_scheme" where
  "resolving rs reqs = (fs_loop rs (fs_request []) (fploop_ext (\<lambda>_. \<lparr>pc_parent = None, pc_busy = 0, pc_interval = 1, pc_start_time = 0,
      pc_statbuf = zero_statbuf, pc_path = []\<rparr>) (\<lambda>_. None)
     (inloop_ext (\<lambda>_. None) [] (\<lambda>_. \<lparr>fe_cb = True, fe_path = None, fe_wd = - 1\<rparr>)
     (adloop_ext (\<lambda>_. \<lparr>ai_cb = True, ai_hints = None, ai_service = None, ai_hostname = None, ai_addrinfo = 0, ai_retcode = 0\<rparr>)
       (\<lambda>_. \<lparr>ni_cb = True, ni_storage = \<lparr>sa_family = AF_INET, sa_port = [0, 53], sa_addr = [10, 0, 0, 1], sa_scope = 0\<rparr>, ni_flags = 0,
          ni_host = [], ni_service = [], ni_retcode = 0\<rparr>) [] ()))))\<lparr>statics := \<lambda>_. True, active_reqs := reqs\<rparr>"

theorem getaddrinfo_frees_its_copy_witness:
  "\<exists>t w. uv_getaddrinfo (\<lambda>c x. x) (Some 7) True (Some ''localhost'') (Some ''80'') None (resolving [ret 4096] []) = Some (0, t)
     \<and> uv__getaddrinfo_done (\<lambda>c x. x) 7 0 t = Some w \<and> frees w = [4096]"
proof -
  let ?s = "resolving [ret 4096] []"
  let ?q = "\<lparr>ai_cb = True, ai_hints = None, ai_service = Some (4096, ''80''), ai_hostname = Some (4099, ''localhost''), ai_addrinfo = 0, ai_retcode = 0\<rparr>"
  have s: "replies ?s = [ret 4096]" "active_reqs ?s = []" "statics ?s x" "frees ?s = []" for x
    by (simp_all add: resolving_def fs_loop_defs)
  have r: "r_ret (ret 4096) = 4096" by (simp add: ret_def)
  obtain t where t: "uv_getaddrinfo (\<lambda>c x. x) (Some 7) True (Some ''localhost'') (Some ''80'') None ?s = Some (0, t)"
    and q: "ai_reqs t 7 = ?q" "active_reqs t = [7]" "frees t = []"
    by (simp add: uv_getaddrinfo_def syscall_cons [OF s(1)] r uv__req_init_def uv__req_register_def ai_store_def upd_ai_def Let_def str_len_def
        uv__work_submit_def upd_pool_def s)
  obtain w where w: "uv__getaddrinfo_done (\<lambda>c x. x) 7 0 t = Some w"
    by (simp add: uv__getaddrinfo_done_def q req_unregister_def require_def uv__has_active_reqs_def uv__req_unregister_def Let_def)
  have same: "ai_reqs t 7 = (ai_reqs t 7)\<lparr>ai_addrinfo := 0, ai_retcode := 0\<rparr>" unfolding q by simp
  have "frees w = frees t @ [r_ret (ret 4096)]"
    using getaddrinfo_frees_its_copy [OF s(1) _ _ t same w] by (simp add: r)
  then have "frees w = [4096]" using q(3) r by simp
  then show ?thesis using t w by blast
qed

end
