(* ===== verification/Event_Loop.thy ===== *)
theory Event_Loop
  imports Addrinfo
begin

text \<open>
  The loop itself: \<open>uv_run\<close>, closing and the rest of \<open>src/unix/core.cpp\<close>, \<open>src/unix/loop.cpp\<close> and the loop functions of
  \<open>src/uv-common.cpp\<close>.  The function pointers of the other theories are resolved here: \<open>io_dispatch\<close>, \<open>async_dispatch\<close>,
  \<open>done_dispatch\<close>, \<open>fs_dispatch\<close> and \<open>loop_call\<close> call the function that a watcher, a handle or a request names.
  What the program around the loop does is a \<open>client\<close>.
\<close>

text \<open>
  The user's callbacks and allocator; what other threads have done by the time the loop looks at the state they share
  with it; and the address of the local queue of \<open>uv__chld\<close>.
\<close>

record 's client =
  cl_call :: "callback \<Rightarrow> 's \<Rightarrow> 's"
  cl_alloc :: "addr \<Rightarrow> 's \<Rightarrow> nat \<times> 's"
  cl_others :: "'s \<Rightarrow> 's"
  cl_local :: addr

section \<open>Callbacks\<close>

text \<open>
  A callback of the library may fail an assertion.  The functions that make calls go on, so the failure is
  recorded, and \<open>checked\<close> makes the phase in which it happened end the program.
\<close>

definition internal :: "('a adloop_scheme \<Rightarrow> 'a adloop_scheme option) \<Rightarrow> 'a adloop_scheme \<Rightarrow> 'a adloop_scheme" where
  "internal f s = (case f s of None \<Rightarrow> set_static ''aborted'' s | Some t \<Rightarrow> t)"

definition checked :: "'a adloop_scheme option \<Rightarrow> 'a adloop_scheme option" where
  "checked m = do { s \<leftarrow> m; require (\<not> statics s ''aborted''); Some s }"

text \<open>
  The timers and the signal handle that the library marks as its own have its callbacks: \<open>timer_cb\<close> and
  \<open>timer_close_cb\<close> of \<open>fs-poll.cpp\<close>, and \<open>uv__chld\<close>.
\<close>

definition loop_call :: "'a adloop_scheme client \<Rightarrow> callback \<Rightarrow> 'a adloop_scheme \<Rightarrow> 'a adloop_scheme" where
  "loop_call cl c s =
     (case c of
        Timer_cb h \<Rightarrow> if has h UV__HANDLE_INTERNAL s then internal (fs_poll_timer_cb h) s else cl_call cl c s
      | Close_cb h \<Rightarrow> if has h UV__HANDLE_INTERNAL s then free_at (int h) s else cl_call cl c s
      | Signal_cb h signum \<Rightarrow> if h = child_watcher s then internal (uv__chld (cl_call cl) (cl_local cl) signum) s else cl_call cl c s
      | _ \<Rightarrow> cl_call cl c s)"

definition fs_dispatch :: "'a adloop_scheme client \<Rightarrow> fs_cb \<Rightarrow> addr \<Rightarrow> 'a adloop_scheme \<Rightarrow> 'a adloop_scheme option" where
  "fs_dispatch cl f r s =
     (case f of
        User_fs_cb \<Rightarrow> Some (cl_call cl (Req_cb r (fs_result (fs_reqs s r))) s)
      | Poll_fs_cb \<Rightarrow> fs_poll_cb (loop_call cl) r s)"

definition done_dispatch :: "'a adloop_scheme client \<Rightarrow> done_fn \<Rightarrow> addr \<Rightarrow> int \<Rightarrow> 'a adloop_scheme \<Rightarrow> 'a adloop_scheme option" where
  "done_dispatch cl f w err =
     (case f of
        Queue_done \<Rightarrow> uv__queue_done (loop_call cl) w err
      | Fs_done \<Rightarrow> uv__fs_done (fs_dispatch cl) w err
      | Getaddrinfo_done \<Rightarrow> uv__getaddrinfo_done (loop_call cl) w err
      | Getnameinfo_done \<Rightarrow> uv__getnameinfo_done (loop_call cl) w err)"

definition async_dispatch :: "'a adloop_scheme client \<Rightarrow> async_cb \<Rightarrow> addr \<Rightarrow> 'a adloop_scheme \<Rightarrow> 'a adloop_scheme option" where
  "async_dispatch cl f h s =
     (case f of
        User_async_cb \<Rightarrow> Some (invoke (loop_call cl) (Async_cb h) s)
      | uv__work_done_cb \<Rightarrow> uv__work_done (done_dispatch cl) s)"

definition io_dispatch :: "'a adloop_scheme client \<Rightarrow> io_cb \<Rightarrow> addr \<Rightarrow> u32 \<Rightarrow> 'a adloop_scheme \<Rightarrow> 'a adloop_scheme option" where
  "io_dispatch cl f w events s =
     (case f of
        uv__async_io_cb \<Rightarrow> uv__async_io (async_dispatch cl) w (cl_others cl s)
      | uv__stream_io_cb \<Rightarrow> uv__stream_io (loop_call cl) (cl_alloc cl) w events s
      | uv__server_io_cb \<Rightarrow> uv__server_io (loop_call cl) w events s
      | uv__udp_io_cb \<Rightarrow> uv__udp_io (loop_call cl) (cl_alloc cl) w events s
      | uv__signal_event_cb \<Rightarrow> uv__signal_event (loop_call cl) s
      | uv__poll_io_cb \<Rightarrow> uv__poll_io (loop_call cl) w events s
      | uv__inotify_read_cb \<Rightarrow> uv__inotify_read (loop_call cl) s)"

section \<open>Closing\<close>

definition close_by_type :: "addr \<Rightarrow> 'a adloop_scheme \<Rightarrow> 'a adloop_scheme option" where
  "close_by_type h s =
     (case handle_type h s of
        UV_NAMED_PIPE \<Rightarrow> uv__pipe_close h s
      | UV_TTY \<Rightarrow> uv__stream_close h s
      | UV_TCP \<Rightarrow> uv__tcp_close h s
      | UV_UDP \<Rightarrow> uv__udp_close h s
      | UV_PREPARE \<Rightarrow> Some (uv__prepare_close h s)
      | UV_CHECK \<Rightarrow> Some (uv__check_close h s)
      | UV_IDLE \<Rightarrow> Some (uv__idle_close h s)
      | UV_ASYNC \<Rightarrow> Some (uv__async_close h s)
      | UV_TIMER \<Rightarrow> uv__timer_close h s
      | UV_PROCESS \<Rightarrow> uv__process_close h s
      | UV_FS_EVENT \<Rightarrow> uv__fs_event_close h s
      | UV_POLL \<Rightarrow> uv__poll_close h s
      | UV_FS_POLL \<Rightarrow> uv__fs_poll_close h s
      | UV_SIGNAL \<Rightarrow> uv__signal_close h s
      | _ \<Rightarrow> None)"

definition uv_close :: "addr \<Rightarrow> bool \<Rightarrow> 'a adloop_scheme \<Rightarrow> 'a adloop_scheme option" where
  "uv_close h close_cb s = do {
     require (\<not> uv__is_closing h s);
     let s = set_flags h UV_CLOSING s;
     let s = s\<lparr>hnd := (hnd s)(h := (hnd s h)\<lparr>h_close_cb := close_cb\<rparr>)\<rparr>;
     let type = handle_type h s;
     s \<leftarrow> close_by_type h s;
     if type = UV_SIGNAL then Some s else uv__make_close_pending h s
   }"

definition finish_by_type :: "'a adloop_scheme client \<Rightarrow> addr \<Rightarrow> 'a adloop_scheme \<Rightarrow> 'a adloop_scheme option" where
  "finish_by_type cl h s =
     (if handle_type h s \<in> {UV_PREPARE, UV_CHECK, UV_IDLE, UV_ASYNC, UV_TIMER, UV_PROCESS, UV_FS_EVENT, UV_FS_POLL, UV_POLL, UV_SIGNAL}
      then Some s
      else if handle_type h s \<in> {UV_NAMED_PIPE, UV_TCP, UV_TTY} then uv__stream_destroy (loop_call cl) h s
      else if handle_type h s = UV_UDP then uv__udp_finish_close (loop_call cl) h s
      else None)"

definition uv__finish_close :: "'a adloop_scheme client \<Rightarrow> addr \<Rightarrow> 'a adloop_scheme \<Rightarrow> 'a adloop_scheme option" where
  "uv__finish_close cl h s = do {
     require (has h UV_CLOSING s);
     require (\<not> has h UV_CLOSED s);
     let s = set_flags h UV_CLOSED s;
     s \<leftarrow> finish_by_type cl h s;
     let s = uv__handle_unref h s;
     let s = s\<lparr>handle_queue := remove1 h (handle_queue s)\<rparr>;
     Some (if h_close_cb (hnd s h) then invoke (loop_call cl) (Close_cb h) s else s)
   }"

text \<open>
  The chain of \<open>next_closing\<close> pointers is the list \<open>closing_handles\<close>.  The callbacks may push handles on the loop's
  new list; they cannot change the chain being walked, since its handles are closing and are not closed twice.
\<close>

fun finish_all :: "'a adloop_scheme client \<Rightarrow> addr list \<Rightarrow> 'a adloop_scheme \<Rightarrow> 'a adloop_scheme option" where
  "finish_all cl [] s = Some s"
| "finish_all cl (p # q) s = do { s \<leftarrow> uv__finish_close cl p s; finish_all cl q s }"

definition uv__run_closing_handles :: "'a adloop_scheme client \<Rightarrow> 'a adloop_scheme \<Rightarrow> 'a adloop_scheme option" where
  "uv__run_closing_handles cl s =
     (let p = closing_handles s
      in finish_all cl p (s\<lparr>closing_handles := []\<rparr>))"

section \<open>Running\<close>

datatype uv_run_mode = UV_RUN_DEFAULT | UV_RUN_ONCE | UV_RUN_NOWAIT

definition uv_backend_fd :: "'a adloop_scheme \<Rightarrow> int" where
  "uv_backend_fd s = backend_fd s"

definition uv_backend_timeout :: "'a adloop_scheme \<Rightarrow> int" where
  "uv_backend_timeout s =
     (if stop_flag s \<noteq> 0 then 0
      else if \<not> uv__has_active_handles s \<and> \<not> uv__has_active_reqs s then 0
      else if lw_handles s Idle \<noteq> [] then 0
      else if pending_queue s \<noteq> [] then 0
      else if closing_handles s \<noteq> [] then 0
      else uv__next_timeout s)"

definition uv__loop_alive :: "'a loop_scheme \<Rightarrow> bool" where
  "uv__loop_alive s \<longleftrightarrow> uv__has_active_handles s \<or> uv__has_active_reqs s \<or> closing_handles s \<noteq> []"

definition uv_loop_alive :: "'a loop_scheme \<Rightarrow> bool" where
  "uv_loop_alive s = uv__loop_alive s"

text \<open>The body of the loop of \<open>uv_run\<close>, and the loop, with the variable \<open>r\<close>.\<close>

definition run_iteration :: "'a adloop_scheme client \<Rightarrow> uv_run_mode \<Rightarrow> 'a adloop_scheme \<Rightarrow> 'a adloop_scheme option" where
  "run_iteration cl mode s = do {
     s \<leftarrow> uv__update_time s;
     s \<leftarrow> checked (uv__run_timers (loop_call cl) s);
     (ran_pending, s) \<leftarrow> uv__run_pending (io_dispatch cl) s;
     s \<leftarrow> checked (uv__run_idle (loop_call cl) s);
     s \<leftarrow> checked (uv__run_prepare (loop_call cl) s);
     let timeout = (if (mode = UV_RUN_ONCE \<and> ran_pending = 0) \<or> mode = UV_RUN_DEFAULT then uv_backend_timeout s else 0);
     s \<leftarrow> checked (uv__io_poll (io_dispatch cl) timeout s);
     s \<leftarrow> checked (uv__run_check (loop_call cl) s);
     s \<leftarrow> checked (uv__run_closing_handles cl s);
     if mode = UV_RUN_ONCE then do {
       s \<leftarrow> uv__update_time s;
       checked (uv__run_timers (loop_call cl) s)
     } else Some s
   }"

partial_function (option) run_loop :: "'a adloop_scheme client \<Rightarrow> uv_run_mode \<Rightarrow> bool \<Rightarrow> 'a adloop_scheme \<Rightarrow> (bool \<times> 'a adloop_scheme) option" where
  "run_loop cl mode r s =
     (if r \<and> stop_flag s = 0
      then Option.bind (run_iteration cl mode s)
        (\<lambda>s. if mode = UV_RUN_ONCE \<or> mode = UV_RUN_NOWAIT then Some (uv__loop_alive s, s) else run_loop cl mode (uv__loop_alive s) s)
      else Some (r, s))"

definition uv_run :: "'a adloop_scheme client \<Rightarrow> uv_run_mode \<Rightarrow> 'a adloop_scheme \<Rightarrow> (bool \<times> 'a adloop_scheme) option" where
  "uv_run cl mode s = do {
     let r = uv__loop_alive s;
     s \<leftarrow> (if \<not> r then uv__update_time s else Some s);
     (r, s) \<leftarrow> run_loop cl mode r s;
     Some (r, if stop_flag s \<noteq> 0 then s\<lparr>stop_flag := 0\<rparr> else s)
   }"

section \<open>Descriptors of handles\<close>

abbreviation (input) SO_RCVBUF :: int where "SO_RCVBUF \<equiv> 8"
abbreviation (input) SO_SNDBUF :: int where "SO_SNDBUF \<equiv> 7"

text \<open>\<open>None\<close> is a null pointer; the result has the value \<open>getsockopt\<close> stores.\<close>

definition uv__socket_sockopt :: "ptr \<Rightarrow> int \<Rightarrow> int option \<Rightarrow> 'a adloop_scheme \<Rightarrow> (int \<times> int option \<times> 'a adloop_scheme) option" where
  "uv__socket_sockopt handle optname val s =
     (case (handle, val) of
        (Some h, Some v) \<Rightarrow>
          (case (if handle_type h s = UV_TCP \<or> handle_type h s = UV_NAMED_PIPE then Some (uv__stream_fd h s)
                 else if handle_type h s = UV_UDP then Some (w_fd (io s h)) else None) of
             None \<Rightarrow> Some (- ENOTSUP, val, s)
           | Some fd \<Rightarrow> do {
               (r, s) \<leftarrow> (if v = 0 then syscall (Getsockopt fd SOL_SOCKET optname) s
                          else syscall (Setsockopt fd SOL_SOCKET optname v) s);
               Some (if r_ret r < 0 then - errno s else 0, if v = 0 \<and> r_ret r \<ge> 0 then Some (r_val r) else val, s)
             })
      | _ \<Rightarrow> Some (- EINVAL, val, s))"

definition uv_recv_buffer_size :: "ptr \<Rightarrow> int option \<Rightarrow> 'a adloop_scheme \<Rightarrow> (int \<times> int option \<times> 'a adloop_scheme) option" where
  "uv_recv_buffer_size handle val s = uv__socket_sockopt handle SO_RCVBUF val s"

definition uv_send_buffer_size :: "ptr \<Rightarrow> int option \<Rightarrow> 'a adloop_scheme \<Rightarrow> (int \<times> int option \<times> 'a adloop_scheme) option" where
  "uv_send_buffer_size handle val s = uv__socket_sockopt handle SO_SNDBUF val s"

definition uv_fileno :: "addr \<Rightarrow> 'a adloop_scheme \<Rightarrow> int + int" where
  "uv_fileno h s =
     (case (if handle_type h s \<in> {UV_TCP, UV_NAMED_PIPE, UV_TTY} then Some (uv__stream_fd h s)
            else if handle_type h s = UV_UDP \<or> handle_type h s = UV_POLL then Some (w_fd (io s h)) else None) of
        None \<Rightarrow> Inl (- EINVAL)
      | Some fd_out \<Rightarrow> if uv__is_closing h s \<or> fd_out = - 1 then Inl (- EBADF) else Inr fd_out)"

text \<open>The numbers of \<open>struct rusage\<close> in order: both structures have the same members.\<close>

definition uv_getrusage :: "'a kern_scheme \<Rightarrow> ((int + int list) \<times> 'a kern_scheme) option" where
  "uv_getrusage s = do {
     (r, s) \<leftarrow> syscall (Sys ''getrusage'' [0]) s;
     Some (if r_ret r \<noteq> 0 then Inl (- errno s) else Inr (take 16 (r_nums r)), s)
   }"

section \<open>The life of a loop\<close>

definition thread_init :: "string \<Rightarrow> 'a kern_scheme \<Rightarrow> (int \<times> 'a kern_scheme) option" where
  "thread_init name s = do { (r, s) \<leftarrow> syscall (Sys name []) s; Some (- r_ret r, s) }"

definition uv_rwlock_init :: "'a kern_scheme \<Rightarrow> (int \<times> 'a kern_scheme) option" where
  "uv_rwlock_init s = thread_init ''pthread_rwlock_init'' s"

definition uv_mutex_init :: "'a kern_scheme \<Rightarrow> (int \<times> 'a kern_scheme) option" where
  "uv_mutex_init s = thread_init ''pthread_mutex_init'' s"

definition uv_rwlock_destroy :: "'a kern_scheme \<Rightarrow> 'a kern_scheme option" where
  "uv_rwlock_destroy s = rwlock (Sys ''pthread_rwlock_destroy'' []) s"

definition uv_mutex_destroy :: "'a kern_scheme \<Rightarrow> 'a kern_scheme option" where
  "uv_mutex_destroy s = rwlock (Sys ''pthread_mutex_destroy'' []) s"

text \<open>\<open>memset\<close> and the initialisations of the fields, up to \<open>uv__update_time\<close>.\<close>

definition loop_zero :: "'a adloop_scheme \<Rightarrow> 'a adloop_scheme" where
  "loop_zero s =
     (let s = s\<lparr>active_handles := 0, handle_queue := [], active_reqs := [], closing_handles := [], stop_flag := 0, loop_time := 0\<rparr>;
          s = s\<lparr>timer_heap := heap_init (timer_heap s), lw_handles := (\<lambda>_. [])\<rparr>;
          s = s\<lparr>nfds := 0, watchers := None, nwatchers := 0, pending_queue := [], watcher_queue := [], loop_flags := 0\<rparr>;
          s = s\<lparr>async_handles := [], inotify_watchers := (\<lambda>_. None), timer_counter := 0\<rparr>
      in upd_pool (\<lambda>p. p\<lparr>loop_wq := []\<rparr>) s)"

definition fail_signal_init :: "int \<Rightarrow> 'a adloop_scheme \<Rightarrow> (int \<times> 'a adloop_scheme) option" where
  "fail_signal_init err s = map_option (Pair err) (uv__platform_loop_delete s)"

definition fail_rwlock_init :: "int \<Rightarrow> 'a adloop_scheme \<Rightarrow> (int \<times> 'a adloop_scheme) option" where
  "fail_rwlock_init err s = do { s \<leftarrow> uv__signal_loop_cleanup s; fail_signal_init err s }"

definition fail_mutex_init :: "int \<Rightarrow> 'a adloop_scheme \<Rightarrow> (int \<times> 'a adloop_scheme) option" where
  "fail_mutex_init err s = do { s \<leftarrow> uv_rwlock_destroy s; fail_rwlock_init err s }"

definition fail_async_init :: "int \<Rightarrow> 'a adloop_scheme \<Rightarrow> (int \<times> 'a adloop_scheme) option" where
  "fail_async_init err s = do { s \<leftarrow> uv_mutex_destroy s; fail_mutex_init err s }"

definition uv_loop_init :: "'a adloop_scheme \<Rightarrow> (int \<times> 'a adloop_scheme) option" where
  "uv_loop_init s = do {
     s \<leftarrow> uv__signal_global_once_init s;
     s \<leftarrow> uv__update_time (loop_zero s);
     let s = (uv__async_init s)\<lparr>signal_pipefd := (- 1, - 1), backend_fd := - 1, emfile_fd := - 1\<rparr>;
     (err, s) \<leftarrow> uv__platform_loop_init s;
     if err \<noteq> 0 then Some (err, s)
     else do {
       (err, s) \<leftarrow> uv_signal_init (child_watcher s) s;
       if err \<noteq> 0 then fail_signal_init err s
       else do {
         let s = set_flags (child_watcher s) UV__HANDLE_INTERNAL (uv__handle_unref (child_watcher s) s);
         let s = upd_queue (QUEUE_INIT (process_handles s)) s;
         (err, s) \<leftarrow> uv_rwlock_init s;
         if err \<noteq> 0 then fail_rwlock_init err s
         else do {
           (err, s) \<leftarrow> uv_mutex_init s;
           if err \<noteq> 0 then fail_mutex_init err s
           else do {
             (err, s) \<leftarrow> uv_async_init (wq_async s) (Some uv__work_done_cb) s;
             if err \<noteq> 0 then fail_async_init err s
             else Some (0, set_flags (wq_async s) UV__HANDLE_INTERNAL (uv__handle_unref (wq_async s) s))
           }
         }
       }
     }
   }"

definition close_fd :: "int \<Rightarrow> 'a kern_scheme \<Rightarrow> 'a kern_scheme option" where
  "close_fd fd s = (if fd \<noteq> - 1 then map_option snd (uv__close fd s) else Some s)"

definition uv__loop_close :: "'a adloop_scheme \<Rightarrow> 'a adloop_scheme option" where
  "uv__loop_close s = do {
     s \<leftarrow> uv__signal_loop_cleanup s;
     s \<leftarrow> uv__platform_loop_delete s;
     s \<leftarrow> uv__async_stop s;
     s \<leftarrow> close_fd (emfile_fd s) s;
     let s = s\<lparr>emfile_fd := - 1\<rparr>;
     s \<leftarrow> close_fd (backend_fd s) s;
     let s = s\<lparr>backend_fd := - 1\<rparr>;
     require (loop_wq (pool s) = []);
     require (\<not> uv__has_active_reqs s);
     s \<leftarrow> uv_mutex_destroy s;
     s \<leftarrow> uv_rwlock_destroy s;
     Some (s\<lparr>watchers := None, nwatchers := 0\<rparr>)
   }"

datatype uv_loop_option = UV_LOOP_BLOCK_SIGNAL | Other_loop_option

abbreviation (input) SIGPROF :: int where "SIGPROF \<equiv> 27"
abbreviation (input) UV_ENOSYS :: int where "UV_ENOSYS \<equiv> - ENOSYS"

definition uv__loop_configure :: "uv_loop_option \<Rightarrow> int \<Rightarrow> 'a adloop_scheme \<Rightarrow> int \<times> 'a adloop_scheme" where
  "uv__loop_configure opt arg s =
     (if opt \<noteq> UV_LOOP_BLOCK_SIGNAL then (UV_ENOSYS, s)
      else if arg \<noteq> SIGPROF then (UV_EINVAL, s)
      else (0, s\<lparr>loop_flags := loop_flags s OR UV_LOOP_BLOCK_SIGPROF\<rparr>))"

definition uv_loop_configure :: "uv_loop_option \<Rightarrow> int \<Rightarrow> 'a adloop_scheme \<Rightarrow> int \<times> 'a adloop_scheme" where
  "uv_loop_configure opt arg s = uv__loop_configure opt arg s"

text \<open>
  The static \<open>default_loop_ptr\<close> of the state says that \<open>default_loop_ptr\<close> is this loop.  \<open>False\<close> is a null result.
\<close>

definition uv_default_loop :: "'a adloop_scheme \<Rightarrow> (bool \<times> 'a adloop_scheme) option" where
  "uv_default_loop s =
     (if statics s ''default_loop_ptr'' then Some (True, s)
      else do {
        (err, s) \<leftarrow> uv_loop_init s;
        Some (if err \<noteq> 0 then (False, s) else (True, set_static ''default_loop_ptr'' s))
      })"

definition uv_loop_new :: "'a adloop_scheme \<Rightarrow> (bool \<times> 'a adloop_scheme) option" where
  "uv_loop_new s = do {
     (m, s) \<leftarrow> syscall (Sys ''malloc uv_loop_t'' []) s;
     if r_ret m = - 1 then Some (False, s)
     else do {
       (err, s) \<leftarrow> uv_loop_init s;
       Some (if err \<noteq> 0 then (False, free_at (r_ret m) s) else (True, s))
     }
   }"

text \<open>A build with assertions also overwrites the loop's memory, which nothing reads afterwards.\<close>

definition uv_loop_close :: "'a adloop_scheme \<Rightarrow> (int \<times> 'a adloop_scheme) option" where
  "uv_loop_close s =
     (if active_reqs s \<noteq> [] then Some (UV_EBUSY, s)
      else if list_ex (\<lambda>h. \<not> has_flag (flags_of s h) UV__HANDLE_INTERNAL) (handle_queue s) then Some (UV_EBUSY, s)
      else do {
        s \<leftarrow> uv__loop_close s;
        Some (0, s\<lparr>statics := (statics s)(''default_loop_ptr'' := False)\<rparr>)
      })"

text \<open>\<open>loop\<close> is the address of the allocation; a null \<open>default_loop\<close> is not the loop.\<close>

definition uv_loop_delete :: "int \<Rightarrow> 'a adloop_scheme \<Rightarrow> 'a adloop_scheme option" where
  "uv_loop_delete loop s = do {
     let default_loop = statics s ''default_loop_ptr'';
     (err, s) \<leftarrow> uv_loop_close s;
     require (err = 0);
     Some (if \<not> default_loop then free_at loop s else s)
   }"

section \<open>Closing handles\<close>

lemma close_timer_is_uv_close:
  "handle_type h s = UV_TIMER \<Longrightarrow> uv_close h True s = close_timer h s"
  by (simp add: uv_close_def close_timer_def close_by_type_def handle_type_def set_flags_def upd_flags_def)

text \<open>The handles for which closing has nothing more to do than to tell the user.\<close>

definition plain_type :: "uv_handle_type \<Rightarrow> bool" where
  "plain_type ty \<longleftrightarrow> ty \<in> {UV_PREPARE, UV_CHECK, UV_IDLE, UV_ASYNC, UV_TIMER, UV_PROCESS, UV_FS_EVENT, UV_FS_POLL, UV_POLL, UV_SIGNAL}"

definition awaits_close :: "addr \<Rightarrow> 'a adloop_scheme \<Rightarrow> bool" where
  "awaits_close h s \<longleftrightarrow> has h UV_CLOSING s \<and> \<not> has h UV_CLOSED s \<and> \<not> has h UV__HANDLE_INTERNAL s \<and> plain_type (handle_type h s)"

lemma hnd_fields_unref:
  "h_close_cb (hnd (uv__handle_unref h s) k) = h_close_cb (hnd s k)"
  "h_type (hnd (uv__handle_unref h s) k) = h_type (hnd s k)"
  by (simp_all add: uv__handle_unref_def upd_flags_def uv__active_handle_rm_def Let_def)

lemma hnd_fields_set:
  "h_close_cb (hnd (set_flags h f s) k) = h_close_cb (hnd s k)" "h_type (hnd (set_flags h f s) k) = h_type (hnd s k)"
  by (simp_all add: set_flags_def upd_flags_def)

text \<open>What is done before the user is told.\<close>

definition finished :: "addr \<Rightarrow> 'a adloop_scheme \<Rightarrow> 'a adloop_scheme" where
  "finished h s = (let u = uv__handle_unref h (set_flags h UV_CLOSED s) in u\<lparr>handle_queue := remove1 h (handle_queue u)\<rparr>)"

lemma finished_fields:
  "handle_queue (finished h s) = remove1 h (handle_queue s)"
  "closing_handles (finished h s) = closing_handles s" "trace (finished h s) = trace s"
  "h_close_cb (hnd (finished h s) k) = h_close_cb (hnd s k)" "handle_type k (finished h s) = handle_type k s"
  "has k f (finished h s) = (if k = h then has_flag (clear_flag (set_flag (flags_of s h) UV_CLOSED) UV__HANDLE_REF) f else has k f s)"
  by (simp_all add: finished_def Let_def set_flags_def handle_type_def hnd_fields_unref hnd_fields_set [unfolded set_flags_def] has_def handle_ops_flags)

lemma finish_plain:
  assumes "awaits_close h s"
  shows "uv__finish_close cl h s = Some (if h_close_cb (hnd s h) then invoke (cl_call cl) (Close_cb h) (finished h s) else finished h s)"
proof -
  have t: "handle_type h (set_flags h UV_CLOSED s) = handle_type h s" by (simp add: handle_type_def hnd_fields_set)
  have i: "\<not> has h UV__HANDLE_INTERNAL (finished h s)" using assms by (simp add: awaits_close_def finished_fields) (simp add: has_def flag_simps)
  have "finish_by_type cl h (set_flags h UV_CLOSED s) = Some (set_flags h UV_CLOSED s)"
    using assms unfolding awaits_close_def plain_type_def finish_by_type_def t by argo
  then have "uv__finish_close cl h s
      = Some (if h_close_cb (hnd (finished h s) h) then invoke (loop_call cl) (Close_cb h) (finished h s) else finished h s)"
    using assms by (simp add: uv__finish_close_def awaits_close_def require_def finished_def Let_def)
  moreover have "invoke (loop_call cl) (Close_cb h) (finished h s) = invoke (cl_call cl) (Close_cb h) (finished h s)"
    using i by (simp add: invoke_def loop_call_def has_def)
  ultimately show ?thesis by (simp add: finished_fields)
qed

text \<open>The handle is taken out of the loop and no longer counts, whether or not it was active.\<close>

lemma finish_refs:
  assumes "refs_ok s" "h \<in> set (handle_queue s)"
  shows "refs_ok (finished h s)"
proof -
  let ?u = "set_flags h UV_CLOSED s"
  have "refs_ok ?u"
    by (rule refs_ok_flags_change [OF assms])
      (simp_all add: set_flags_def counted_def assms uv__is_active_def uv__has_ref_def flag_simps)
  then have "refs_ok (uv__handle_unref h ?u)" using assms(2) by (simp add: handle_unref_refs set_flags_def)
  then show ?thesis unfolding finished_def Let_def by (rule unlink_refs) (rule unref_not_counted)
qed

definition told :: "('b \<Rightarrow> uv_handle) \<Rightarrow> 'b list \<Rightarrow> 'b list" where
  "told H hs = filter (\<lambda>h. h_close_cb (H h)) hs"

lemma finish_all_plain:
  assumes "distinct hs" "\<And>h. h \<in> set hs \<Longrightarrow> awaits_close h s"
    and "\<And>c x h. awaits_close h x \<Longrightarrow> awaits_close h (cl_call cl c x) \<and> h_close_cb (hnd (cl_call cl c x) h) = h_close_cb (hnd x h)"
    and "\<And>c x. trace (cl_call cl c x) = trace x" "\<And>c x h. has h UV_CLOSED x \<Longrightarrow> has h UV_CLOSED (cl_call cl c x)"
  shows "\<exists>t. finish_all cl hs s = Some t \<and> trace t = trace s @ map Close_cb (told (hnd s) hs)
    \<and> (\<forall>h. h \<in> set hs \<or> has h UV_CLOSED s \<longrightarrow> has h UV_CLOSED t)"
  using assms(1,2)
proof (induction hs arbitrary: s)
  case Nil
  then show ?case by (simp add: told_def)
next
  case (Cons h hs)
  define u where "u = (if h_close_cb (hnd s h) then invoke (cl_call cl) (Close_cb h) (finished h s) else finished h s)"
  have f: "awaits_close k (finished h s)" if "k \<in> set hs" for k
    using Cons.prems(1) Cons.prems(2) [of k] that by (auto simp: awaits_close_def finished_fields)
  have tr: "hnd (x\<lparr>trace := tr\<rparr>) = hnd x" "awaits_close k (x\<lparr>trace := tr\<rparr>) = awaits_close k x" "has k g (x\<lparr>trace := tr\<rparr>) = has k g x"
    for x :: "'a adloop_scheme" and tr k g
    by (simp_all add: awaits_close_def has_def handle_type_def)
  have u: "uv__finish_close cl h s = Some u" unfolding u_def by (rule finish_plain) (simp add: Cons.prems)
  have w: "awaits_close k u \<and> h_close_cb (hnd u k) = h_close_cb (hnd s k)" if k: "k \<in> set hs" for k
  proof (cases "h_close_cb (hnd s h)")
    case True
    from f [OF k] have "awaits_close k ((finished h s)\<lparr>trace := trace (finished h s) @ [Close_cb h]\<rparr>)" by (simp add: tr)
    from assms(3) [OF this, of "Close_cb h"] True show ?thesis by (simp add: u_def invoke_def tr finished_fields)
  next
    case False
    with f [OF k] show ?thesis by (simp add: u_def finished_fields)
  qed
  have c: "has k UV_CLOSED u" if "k = h \<or> has k UV_CLOSED s" for k
  proof -
    have "has k UV_CLOSED (finished h s)" using that unfolding finished_fields by (auto simp: has_def flag_simps)
    then have "has k UV_CLOSED ((finished h s)\<lparr>trace := trace (finished h s) @ [Close_cb h]\<rparr>)" by (simp add: tr)
    from assms(5) [OF this] \<open>has k UV_CLOSED (finished h s)\<close> show ?thesis by (simp add: u_def invoke_def)
  qed
  obtain t where t: "finish_all cl hs u = Some t" "trace t = trace u @ map Close_cb (told (hnd u) hs)"
    "\<forall>k. k \<in> set hs \<or> has k UV_CLOSED u \<longrightarrow> has k UV_CLOSED t"
    using Cons.IH [of u] Cons.prems(1) w by auto
  have "told (hnd u) hs = told (hnd s) hs" unfolding told_def by (rule filter_cong) (simp_all add: w)
  moreover have "trace u = trace s @ (if h_close_cb (hnd s h) then [Close_cb h] else [])"
    by (simp add: u_def invoke_def assms(4) finished_fields)
  ultimately have "trace t = trace s @ map Close_cb (told (hnd s) (h # hs))" using t(2) by (simp add: told_def)
  then show ?case using u t(1,3) c by auto
qed

section \<open>An iteration\<close>

text \<open>A piece of the iteration that only makes the calls \<open>es\<close> and reads the clock.\<close>

definition clocked :: "reply list \<Rightarrow> (syscall \<times> int) list \<Rightarrow> 'a loop_scheme \<Rightarrow> 'a loop_scheme \<Rightarrow> bool" where
  "clocked rs es s t \<longleftrightarrow> (\<exists>e w. t = s\<lparr>replies := rs, syscalls := syscalls s @ es, errno := e, loop_time := w\<rparr>)"

lemma clockedI: "clocked rs es s (s\<lparr>replies := rs, syscalls := syscalls s @ es, errno := e, loop_time := w\<rparr>)"
  unfolding clocked_def by blast

lemma clockedI': "clocked rs es s (s\<lparr>replies := rs, syscalls := syscalls s @ es, loop_time := w\<rparr>)"
  using clockedI [where rs = rs and s = s and es = es and e = "errno s" and w = w] by (rule back_subst) (rule loop.equality, simp_all)

definition clock_read :: "reply \<Rightarrow> 'a kern_scheme \<Rightarrow> syscall \<times> int" where
  "clock_read c s = (Clock_gettime (fast_clock_id s), r_ret c)"

lemma update_time_step:
  assumes "fast_clock_id s \<noteq> - 1" "replies s = r # rs"
  shows "\<exists>t. uv__update_time s = Some t \<and> clocked rs [clock_read r s] s t"
  using assms by (auto simp: uv__update_time_def uv__hrtime_def Let_def clock_read_def intro!: clockedI clockedI')

lemma watcher_run_empty: "lw_handles s k = [] \<Longrightarrow> watcher_run k call s = Some (s\<lparr>lw_local := (lw_local s)(k := [])\<rparr>)"
  by (simp add: watcher_run_def watcher_loop.simps fun_upd_idem)

lemma run_timers_empty: "heap_min (timer_heap s) = None \<Longrightarrow> uv__run_timers call s = Some s"
  by (rule run_timers_stop) (simp add: none_due_def)

text \<open>A poll that does not wait and finds nothing.\<close>

lemma poll_nothing:
  assumes "watcher_queue s = []" "fast_clock_id s \<noteq> - 1" "replies s = w # c # rs" "r_ret w = 0" "r_events w = []"
    and "loop_flags s AND UV_LOOP_BLOCK_SIGPROF = 0" "\<not> no_epoll_wait s" "nfds s \<noteq> 0"
  shows "\<exists>t. uv__io_poll iocb 0 s = Some t \<and> clocked rs [(Epoll_wait (backend_fd s) 0, 0), clock_read c s] s t"
proof -
  define u where "u = s\<lparr>replies := c # rs, syscalls := syscalls s @ [(Epoll_wait (backend_fd s) 0, r_ret w)]\<rparr>"
  have "fast_clock_id u \<noteq> - 1" "replies u = c # rs" using assms(2) by (simp_all add: u_def)
  from update_time_step [OF this] obtain v where v: "uv__update_time u = Some v" "clocked rs [clock_read c u] u v" by blast
  have "poll_wait 0 0 s = Some (0, [], v\<lparr>errno := errno u\<rparr>)"
    using assms(4,5,7) v(1) by (simp add: poll_wait_def syscall_cons [OF assms(3)] save_errno_def u_def)
  then have "poll_loop iocb 0 (loop_time s) 48 0 0 s = Some (v\<lparr>errno := errno u\<rparr>)"
    by (subst poll_loop.simps) (simp add: poll_round_def require_def long_is_32_def)
  moreover have "clocked rs [(Epoll_wait (backend_fd s) 0, 0), clock_read c s] s (v\<lparr>errno := errno u\<rparr>)"
    using v(2) clockedI' [of rs "[(Epoll_wait (backend_fd s) 0, 0), clock_read c s]" s] assms(4)
    unfolding clocked_def [of rs "[clock_read c u]"] by (auto simp: u_def clock_read_def)
  ultimately show ?thesis using assms(1,6,8) by (auto simp: uv__io_poll_def require_def)
qed

text \<open>An idle loop: only closing handles are left.\<close>

definition quiet :: "'a adloop_scheme \<Rightarrow> bool" where
  "quiet s \<longleftrightarrow> active_handles s = 0 \<and> active_reqs s = [] \<and> heap_min (timer_heap s) = None \<and> pending_queue s = []
     \<and> lw_handles s = (\<lambda>_. []) \<and> lw_local s = (\<lambda>_. []) \<and> watcher_queue s = [] \<and> stop_flag s = 0 \<and> fast_clock_id s \<noteq> - 1
     \<and> loop_flags s AND UV_LOOP_BLOCK_SIGPROF = 0 \<and> \<not> no_epoll_wait s \<and> nfds s \<noteq> 0 \<and> \<not> statics s ''aborted''"

lemma clocked_same:
  assumes "clocked rs es s t"
  shows "quiet t = quiet s" "replies t = rs" "syscalls t = syscalls s @ es" "closing_handles t = closing_handles s" "hnd t = hnd s"
    "trace t = trace s" "clock_read c t = clock_read c s" "backend_fd t = backend_fd s"
  using assms by (auto simp: clocked_def quiet_def clock_read_def)

text \<open>Callbacks that leave the loop alone: they work on memory of their own only.\<close>

definition leaves_loop :: "'a adloop_scheme client \<Rightarrow> bool" where
  "leaves_loop cl \<longleftrightarrow> (\<forall>c x. let y = cl_call cl c x in quiet y = quiet x \<and> closing_handles y = closing_handles x
     \<and> hnd y = hnd x \<and> trace y = trace x \<and> replies y = replies x \<and> syscalls y = syscalls x
     \<and> fast_clock_id y = fast_clock_id x)"

lemma leaves_loopD:
  assumes "leaves_loop cl"
  shows "quiet (cl_call cl c x) = quiet x" "closing_handles (cl_call cl c x) = closing_handles x" "hnd (cl_call cl c x) = hnd x"
    "trace (cl_call cl c x) = trace x" "replies (cl_call cl c x) = replies x" "syscalls (cl_call cl c x) = syscalls x"
    "fast_clock_id (cl_call cl c x) = fast_clock_id x"
  using assms by (simp_all add: leaves_loop_def Let_def)

lemma same_hnd:
  assumes "hnd y = hnd x"
  shows "awaits_close h y = awaits_close h x" "uv__is_active h y = uv__is_active h x" "has h flag y = has h flag x"
  using assms by (simp_all add: awaits_close_def has_def handle_type_def uv__is_active_def flags_of_def)

lemma quiet_phases:
  assumes "quiet s"
  shows "checked (uv__run_timers call s) = Some s" "uv__run_pending iocb s = Some (0, s)" "checked (uv__run_idle call s) = Some s"
    "checked (uv__run_prepare call s) = Some s" "checked (uv__run_check call s) = Some s" "uv_backend_timeout s = 0"
proof -
  have "watcher_run k call s = Some s" for k
  proof -
    have "lw_handles s k = []" "(lw_local s)(k := []) = lw_local s" using assms by (simp_all add: quiet_def fun_upd_idem)
    moreover have "s\<lparr>lw_local := lw_local s\<rparr> = s" by (cases s) simp
    ultimately show ?thesis using watcher_run_empty [of s k call] by simp
  qed
  with assms show "checked (uv__run_idle call s) = Some s" "checked (uv__run_prepare call s) = Some s" "checked (uv__run_check call s) = Some s"
    by (simp_all add: uv__run_idle_def uv__run_prepare_def uv__run_check_def checked_def quiet_def require_def)
  show "checked (uv__run_timers call s) = Some s" "uv__run_pending iocb s = Some (0, s)" "uv_backend_timeout s = 0"
    using assms by (simp_all add: run_timers_empty checked_def quiet_def uv__run_pending_def require_def uv_backend_timeout_def
        uv__has_active_handles_def uv__has_active_reqs_def)
qed

lemma finished_inactive:
  assumes "\<not> uv__is_active h s"
  shows "\<exists>H q. finished h s = s\<lparr>hnd := H, handle_queue := q\<rparr>"
proof -
  have "\<not> has_flag (flags_of (set_flags h UV_CLOSED s) h) UV__HANDLE_ACTIVE"
    using assms by (simp add: uv__is_active_def set_flags_def flag_simps)
  then show ?thesis by (auto simp: finished_def uv__handle_unref_def set_flags_def upd_flags_def Let_def uv__active_handle_rm_def flags_of_def flag_simps)
qed

lemma finish_all_quiet:
  assumes "distinct hs" "\<And>h. h \<in> set hs \<Longrightarrow> awaits_close h s \<and> \<not> uv__is_active h s" "quiet s" "leaves_loop cl"
  shows "\<exists>t. finish_all cl hs s = Some t \<and> quiet t \<and> closing_handles t = closing_handles s
    \<and> replies t = replies s \<and> syscalls t = syscalls s \<and> fast_clock_id t = fast_clock_id s"
  using assms(1-3)
proof (induction hs arbitrary: s)
  case Nil
  then show ?case by simp
next
  case (Cons h hs)
  define u where "u = (if h_close_cb (hnd s h) then invoke (cl_call cl) (Close_cb h) (finished h s) else finished h s)"
  have u: "uv__finish_close cl h s = Some u" unfolding u_def by (rule finish_plain) (simp add: Cons.prems)
  have n: "\<not> uv__is_active h s" using Cons.prems(2) [of h] by simp
  from finished_inactive [OF n] obtain H q where f: "finished h s = s\<lparr>hnd := H, handle_queue := q\<rparr>" by blast
  have q: "quiet u" "closing_handles u = closing_handles s" "replies u = replies s" "syscalls u = syscalls s"
    "fast_clock_id u = fast_clock_id s" "hnd u = hnd (finished h s)"
    using Cons.prems(3) by (auto simp: u_def f quiet_def [of s] invoke_def leaves_loopD [OF assms(4)]) (simp_all add: quiet_def)
  have a: "awaits_close k (finished h s) \<and> \<not> uv__is_active k (finished h s)" if "k \<in> set hs" for k
  proof -
    have k: "k \<noteq> h" "awaits_close k s" "\<not> uv__is_active k s" using Cons.prems(1) Cons.prems(2) [of k] that by auto
    have "has k f (finished h s) = has k f s" for f using k(1) by (simp add: finished_fields)
    with k(2,3) show ?thesis by (simp add: awaits_close_def finished_fields(5) uv__is_active_def) (simp add: has_def)
  qed
  then have "awaits_close k u \<and> \<not> uv__is_active k u" if "k \<in> set hs" for k
    using that by (simp add: same_hnd [OF q(6)])
  from Cons.IH [OF _ this q(1)] Cons.prems(1) u q(2-5) show ?case by auto
qed

text \<open>The handles that wait to be closed are closed by one pass of \<open>uv__run_closing_handles\<close>: each is told once,
  if \<open>uv_close\<close> got a callback, in the order of the list, the last closed first, and each is then marked as closed.
  What the callbacks do, such as closing further handles, does not change this, as long as they leave the
  handles that wait alone; handles they close wait for the next pass.\<close>
theorem closing_pass_tells_each_once:
  assumes "distinct (closing_handles s)" "\<And>h. h \<in> set (closing_handles s) \<Longrightarrow> awaits_close h s"
    and "\<And>c x h. awaits_close h x \<Longrightarrow> awaits_close h (cl_call cl c x) \<and> h_close_cb (hnd (cl_call cl c x) h) = h_close_cb (hnd x h)"
    and "\<And>c x. trace (cl_call cl c x) = trace x" "\<And>c x h. has h UV_CLOSED x \<Longrightarrow> has h UV_CLOSED (cl_call cl c x)"
  shows "\<exists>t. uv__run_closing_handles cl s = Some t \<and> trace t = trace s @ map Close_cb (told (hnd s) (closing_handles s))
    \<and> (\<forall>h. h \<in> set (closing_handles s) \<longrightarrow> has h UV_CLOSED t)"
proof -
  let ?s = "s\<lparr>closing_handles := []\<rparr>"
  have "awaits_close h ?s = awaits_close h s" for h by (simp add: awaits_close_def has_def handle_type_def)
  with assms(2) have "\<And>h. h \<in> set (closing_handles s) \<Longrightarrow> awaits_close h ?s" by simp
  from finish_all_plain [OF assms(1) this assms(3-5)] show ?thesis by (auto simp: uv__run_closing_handles_def Let_def)
qed

text \<open>C1: \<open>uv_run\<close>, in every mode, on a loop in which only closed handles are left, each waiting for its
  callback: the loop is alive, and the call reads the clock, polls exactly once, with the timeout 0, makes no other
  system call than to read the clock again (once more in \<open>UV_RUN_ONCE\<close>, for the timers behind the poll), tells the
  handles in the order of the list and returns 0 with none left.  The handles are inactive, as
  \<open>uv_close\<close> leaves them, of types whose closing frees no descriptor, the poll finds no event, and the callbacks leave
  the loop alone (\<open>leaves_loop\<close>): they close, start or stop nothing.\<close>
theorem run_closes_and_returns:
  assumes "quiet s" "closing_handles s \<noteq> []" "distinct (closing_handles s)"
    and "\<And>h. h \<in> set (closing_handles s) \<Longrightarrow> awaits_close h s \<and> \<not> uv__is_active h s"
    and "leaves_loop cl"
    and "replies s = c1 # w # c2 # (if mode = UV_RUN_ONCE then c3 # rs else rs)" "r_ret w = 0" "r_events w = []"
  shows "\<exists>t. uv_run cl mode s = Some (False, t) \<and> closing_handles t = [] \<and> replies t = rs
    \<and> trace t = trace s @ map Close_cb (told (hnd s) (closing_handles s))
    \<and> syscalls t = syscalls s @ [clock_read c1 s, (Epoll_wait (backend_fd s) 0, 0), clock_read c2 s]
        @ (if mode = UV_RUN_ONCE then [clock_read c3 s] else [])"
proof -
  let ?rs = "if mode = UV_RUN_ONCE then c3 # rs else rs"
  obtain a where a: "uv__update_time s = Some a" "clocked (w # c2 # ?rs) [clock_read c1 s] s a"
    using update_time_step [of s c1 "w # c2 # ?rs"] assms(1,6) by (auto simp: quiet_def)
  note sa = clocked_same [OF a(2)]
  have qa: "quiet a" using sa(1) assms(1) by simp
  obtain b where b: "uv__io_poll (io_dispatch cl) 0 a = Some b" "clocked ?rs [(Epoll_wait (backend_fd a) 0, 0), clock_read c2 a] a b"
    using poll_nothing [of a w c2 ?rs "io_dispatch cl", OF _ _ sa(2) assms(7,8)] qa by (auto simp: quiet_def)
  note sb = clocked_same [OF b(2)]
  have qb: "quiet b" using sb(1) qa by simp
  let ?b = "b\<lparr>closing_handles := []\<rparr>"
  have w: "awaits_close h ?b \<and> \<not> uv__is_active h ?b" if "h \<in> set (closing_handles s)" for h
    using assms(4) [OF that] by (simp add: same_hnd [of ?b s] sa sb)
  have "quiet ?b" using qb by (simp add: quiet_def)
  from finish_all_quiet [OF assms(3) w this assms(5)] obtain t where
    t: "finish_all cl (closing_handles s) ?b = Some t" "quiet t" "closing_handles t = []" "replies t = replies b"
      "syscalls t = syscalls b" "fast_clock_id t = fast_clock_id b" by auto
  note lv = leaves_loopD [OF assms(5)]
  have "\<exists>t. finish_all cl (closing_handles s) ?b = Some t \<and> trace t = trace s @ map Close_cb (told (hnd s) (closing_handles s))"
    using finish_all_plain [OF assms(3), of ?b cl] w by (auto simp: sa sb lv same_hnd [OF lv(3)])
  then have tr: "trace t = trace s @ map Close_cb (told (hnd s) (closing_handles s))" using t(1) by simp
  have c: "checked (uv__run_closing_handles cl b) = Some t"
    using t(1,2) by (simp add: uv__run_closing_handles_def Let_def sa sb checked_def require_def quiet_def)
  have p: "checked (uv__io_poll (io_dispatch cl) 0 a) = Some b" using b(1) qb by (simp add: checked_def require_def quiet_def)
  have log: "syscalls t = syscalls s @ [clock_read c1 s, (Epoll_wait (backend_fd s) 0, 0), clock_read c2 s]" "replies t = ?rs"
    using t(4,5) sa sb by simp_all
  have alive: "uv__loop_alive s" "stop_flag s = 0"
    using assms(1,2) by (simp_all add: uv__loop_alive_def quiet_def)
  have ended: "\<not> uv__loop_alive x \<and> stop_flag x = 0" if "quiet x" "closing_handles x = []" for x :: "'a adloop_scheme"
    using that by (simp add: uv__loop_alive_def quiet_def uv__has_active_handles_def uv__has_active_reqs_def)
  define v where "v = the (run_iteration cl mode s)"
  have "run_iteration cl mode s = Some v \<and> quiet v \<and> closing_handles v = [] \<and> trace v = trace t \<and> replies v = rs
    \<and> syscalls v = syscalls t @ (if mode = UV_RUN_ONCE then [clock_read c3 s] else [])"
  proof (cases "mode = UV_RUN_ONCE")
    case True
    have clk: "clock_read c3 t = clock_read c3 s" using t(6) sa(7) [of c3] sb(7) [of c3] by (simp add: clock_read_def)
    from update_time_step [of t c3 rs] t(2) log(2) True obtain x where x: "uv__update_time t = Some x" "clocked rs [clock_read c3 t] t x"
      by (auto simp: quiet_def)
    note sx = clocked_same [OF x(2)]
    have "run_iteration cl mode s = Some x"
      by (simp add: run_iteration_def a(1) quiet_phases [OF qa] p quiet_phases [OF qb] c True x(1) quiet_phases [of x] sx(1) t(2))
    then show ?thesis using sx t(2,3) True clk by (simp add: v_def)
  next
    case False
    have "run_iteration cl mode s = Some t"
      using False by (simp add: run_iteration_def a(1) quiet_phases [OF qa] p quiet_phases [OF qb] c)
    then show ?thesis using False t(2,3) log(2) by (simp add: v_def)
  qed
  note it = this
  with ended [of v] have d: "\<not> uv__loop_alive v" "stop_flag v = 0" by auto
  have "run_loop cl mode True s = Some (False, v)"
    by (subst run_loop.simps, subst run_loop.simps) (simp add: it alive d)
  then show ?thesis using alive d it tr log(1) by (simp add: uv_run_def)
qed

definition do_nothing :: "'s client" where
  "do_nothing = \<lparr>cl_call = \<lambda>c x. x, cl_alloc = \<lambda>h x. (0, x), cl_others = \<lambda>x. x, cl_local = 99\<rparr>"

definition closing_loop :: "reply list \<Rightarrow> unit adloop_scheme" where
  "closing_loop rs = (resolving rs [])\<lparr>statics := \<lambda>_. False, closing_handles := [5, 4], nfds := 1, fast_clock_id := 6, active_handles := 0,
     lw_handles := \<lambda>_. [], lw_local := \<lambda>_. [],
     hnd := \<lambda>h. \<lparr>h_type = UV_TIMER, h_flags = UV_CLOSING OR UV__HANDLE_REF, h_close_cb = True\<rparr>\<rparr>"

lemma closing_loop_facts:
  "closing_handles (closing_loop rs) = [5, 4]" "replies (closing_loop rs) = rs" "trace (closing_loop rs) = []"
  "hnd (closing_loop rs) h = \<lparr>h_type = UV_TIMER, h_flags = UV_CLOSING OR UV__HANDLE_REF, h_close_cb = True\<rparr>"
  by (simp_all add: closing_loop_def resolving_def fs_loop_defs)

lemma closing_loop_waits: "awaits_close h (closing_loop rs) \<and> \<not> uv__is_active h (closing_loop rs)"
  by (simp add: awaits_close_def has_def handle_type_def uv__is_active_def flags_of_def closing_loop_facts plain_type_def flag_simps)

lemma closing_loop_quiet: "quiet (closing_loop rs)"
  by (simp add: quiet_def closing_loop_def resolving_def fs_loop_defs heap_init_def heap_min_def)

theorem closing_pass_tells_each_once_witness:
  "\<exists>t. uv__run_closing_handles do_nothing (closing_loop []) = Some t \<and> trace t = [Close_cb 5, Close_cb 4]"
proof -
  have "\<exists>t. uv__run_closing_handles do_nothing (closing_loop []) = Some t
      \<and> trace t = trace (closing_loop []) @ map Close_cb (told (hnd (closing_loop [])) (closing_handles (closing_loop [])))
      \<and> (\<forall>h. h \<in> set (closing_handles (closing_loop [])) \<longrightarrow> has h UV_CLOSED t)"
    by (rule closing_pass_tells_each_once) (simp_all add: closing_loop_facts(1) closing_loop_waits do_nothing_def)
  then show ?thesis by (auto simp: closing_loop_facts told_def)
qed

theorem run_closes_and_returns_witness:
  "\<exists>t. uv_run do_nothing UV_RUN_ONCE (closing_loop [ret 0, ret 0, ret 0, ret 0]) = Some (False, t) \<and> trace t = [Close_cb 5, Close_cb 4]"
proof -
  let ?s = "closing_loop [ret 0, ret 0, ret 0, ret 0]"
  have "leaves_loop (do_nothing :: unit adloop_scheme client)" by (simp add: leaves_loop_def do_nothing_def)
  from run_closes_and_returns [where s = ?s, OF closing_loop_quiet _ _ _ this, where mode = UV_RUN_ONCE and rs = "[]"
      and ?c1.0 = "ret 0" and w = "ret 0" and ?c2.0 = "ret 0" and ?c3.0 = "ret 0"]
  show ?thesis by (auto simp: closing_loop_facts closing_loop_waits told_def ret_def)
qed

text \<open>C14: \<open>uv_run\<close> lets the poll wait only when the loop is not stopped, something keeps it alive and nothing can be
  done at once: no idle handle, no pending watcher, no handle to close, no timer due.  Then it waits no longer than to
  the earliest deadline, and without bound only if no timer is active.\<close>
theorem backend_timeout_is_safe:
  assumes "timers_ok s" "uv_backend_timeout s \<noteq> 0"
  shows "stop_flag s = 0 \<and> (uv__has_active_handles s \<or> uv__has_active_reqs s) \<and> lw_handles s Idle = [] \<and> pending_queue s = []
    \<and> closing_handles s = [] \<and> due s = {} \<and> (uv_backend_timeout s = - 1 \<longleftrightarrow> armed s = {})
    \<and> (\<forall>h \<in> armed s. int (unat (loop_time s)) + uv_backend_timeout s \<le> int (unat (t_timeout (timers s h))))"
proof -
  from assms(2) have n: "stop_flag s = 0" "uv__has_active_handles s \<or> uv__has_active_reqs s" "lw_handles s Idle = []" "pending_queue s = []"
    "closing_handles s = []" "uv_backend_timeout s = uv__next_timeout s"
    by (auto simp: uv_backend_timeout_def split: if_splits)
  have "x \<notin> due s" for x
  proof
    assume "x \<in> due s"
    then have x: "x \<in> armed s" "wait_of s x = 0" by (simp_all add: due_def wait_of_def word_le_nat_alt)
    then have "Min (wait_of s ` armed s) = 0" using armed_finite [of s] by (metis Min_le finite_imageI imageI le_zero_eq)
    moreover have "armed s \<noteq> {}" using x(1) by blast
    ultimately have "uv__next_timeout s = 0" using next_timeout_value [of s] assms(1) by (simp add: timers_ok_def)
    then show False using assms(2) n(6) by simp
  qed
  then have d: "due s = {}" by blast
  show ?thesis
  proof (cases "armed s = {}")
    case True
    then show ?thesis using next_timeout_value [of s] n d assms(1) by (simp add: timers_ok_def)
  next
    case False
    let ?m = "Min (wait_of s ` armed s)"
    have v: "uv_backend_timeout s = int (min INT_MAX ?m)" using False next_timeout_value [of s] n(6) assms(1) by (simp add: timers_ok_def)
    have "int (unat (loop_time s)) + uv_backend_timeout s \<le> int (unat (t_timeout (timers s h)))" if h: "h \<in> armed s" for h
    proof -
      have "?m \<le> wait_of s h" using h armed_finite [of s] by (intro Min_le) auto
      moreover have "\<not> t_timeout (timers s h) \<le> loop_time s" using d h by (auto simp: due_def)
      then have "unat (loop_time s) < unat (t_timeout (timers s h))" by (simp add: word_le_nat_alt)
      ultimately have "unat (loop_time s) + min INT_MAX ?m \<le> unat (t_timeout (timers s h))" by (simp add: wait_of_def)
      then show ?thesis unfolding v by linarith
    qed
    moreover have "uv_backend_timeout s \<noteq> - 1" unfolding v by simp
    ultimately show ?thesis using n d False by blast
  qed
qed

theorem backend_timeout_is_safe_witness:
  "\<exists>s :: unit adloop_scheme. uv_backend_timeout s = - 1 \<and> armed s = {} \<and> closing_handles s = []"
proof -
  let ?s = "resolving [] [3]"
  have "timers_ok (s\<lparr>statics := f, active_reqs := q\<rparr>) = timers_ok s" for s :: "unit adloop_scheme" and f q
    by (simp add: timers_ok_def timers_wf_def ids_ok_def armed_def refs_ok_def counted_def flags_of_def uv__is_active_def uv__has_ref_def)
  then have "timers_ok ?s"
    unfolding resolving_def fs_loop_def stream_loop_def empty_iloop_def by (simp add: empty_tloop_ok)
  moreover have "uv_backend_timeout ?s = - 1"
    by (simp add: uv_backend_timeout_def resolving_def fs_loop_defs uv__has_active_handles_def uv__has_active_reqs_def uv__next_timeout_def heap_min_def heap_init_def)
  ultimately show ?thesis using backend_timeout_is_safe [of ?s] by (intro exI [of _ ?s]) auto
qed

section \<open>Opening and closing the loop\<close>

text \<open>A loop with a request in progress or with a handle that is not the library's own is not closed:
  \<open>uv_loop_close\<close> changes nothing and returns \<open>UV_EBUSY\<close>.  Otherwise it never does; when it returns, the backend's
  descriptor and the spare one are closed and the loop is no longer the default loop.\<close>
theorem loop_close_refuses_a_busy_loop:
  assumes "uv_loop_close s = Some (rc, t)"
  shows "if active_reqs s = [] \<and> (\<forall>h \<in> set (handle_queue s). has h UV__HANDLE_INTERNAL s)
     then rc = 0 \<and> backend_fd t = - 1 \<and> emfile_fd t = - 1 \<and> watchers t = None \<and> \<not> statics t ''default_loop_ptr''
     else rc = UV_EBUSY \<and> t = s"
proof (cases "active_reqs s = [] \<and> (\<forall>h \<in> set (handle_queue s). has h UV__HANDLE_INTERNAL s)")
  case True
  then have "active_reqs s = []" "\<not> list_ex (\<lambda>h. \<not> has_flag (flags_of s h) UV__HANDLE_INTERNAL) (handle_queue s)"
    by (auto simp: list_ex_iff has_def)
  with assms obtain u where u: "uv__loop_close s = Some u" "rc = 0" "t = u\<lparr>statics := (statics u)(''default_loop_ptr'' := False)\<rparr>"
    by (auto simp: uv_loop_close_def Option.bind_eq_Some_conv)
  from u(1) obtain a b c d e where
    a: "close_fd (emfile_fd a) a = Some b" "close_fd (backend_fd b) (b\<lparr>emfile_fd := - 1\<rparr>) = Some c"
    and d: "uv_mutex_destroy (c\<lparr>backend_fd := - 1\<rparr>) = Some d" "uv_rwlock_destroy d = Some e"
    and e: "u = e\<lparr>watchers := None, nwatchers := 0\<rparr>"
    by (auto simp: uv__loop_close_def Option.bind_eq_Some_conv Let_def)
  have rw: "kern.more y = kern.more x" if "rwlock k x = Some y" for k and x y :: "'a adloop_scheme"
    using that by (auto simp: rwlock_def Option.bind_eq_Some_conv dest: syscall_kept)
  have f: "backend_fd y = backend_fd x \<and> emfile_fd y = emfile_fd x" if "kern.more y = kern.more x" for x y :: "'a adloop_scheme"
    using that by (cases x, cases y) simp
  have c: "emfile_fd c = - 1"
    using a(2) by (auto simp: close_fd_def uv__close_def uv__close_nocheckstdio_def require_def Option.bind_eq_Some_conv Let_def
        split: if_splits dest!: syscall_kept f)
  have "backend_fd e = - 1" "emfile_fd e = - 1"
    using f [OF rw [OF d(1) [unfolded uv_mutex_destroy_def]]] f [OF rw [OF d(2) [unfolded uv_rwlock_destroy_def]]] c by simp_all
  then show ?thesis using True u(2,3) e by simp
next
  case False
  then have "active_reqs s \<noteq> [] \<or> list_ex (\<lambda>h. \<not> has_flag (flags_of s h) UV__HANDLE_INTERNAL) (handle_queue s)"
    by (auto simp: list_ex_iff has_def)
  then have "uv_loop_close s = Some (UV_EBUSY, s)" by (auto simp: uv_loop_close_def)
  with assms False show ?thesis by auto
qed

text \<open>When \<open>uv_loop_init\<close> fails after the backend is open, here because no pipe can be made for the signals, it
  returns the error but nothing closes the backend's descriptor: \<open>uv__platform_loop_delete\<close> only knows inotify's.\<close>
theorem loop_init_leaks_backend:
  assumes "replies s = c # ret n # fail e # rs" "0 \<le> n" "e \<noteq> ENOSYS" "e \<noteq> 0"
    and "statics s ''uv__signal_global_init_guard''" "\<not> statics s ''no_pipe2''" "fast_clock_id s \<noteq> - 1"
  shows "\<exists>t. uv_loop_init s = Some (- e, t) \<and> backend_fd t = n \<and> replies t = rs
    \<and> map fst (syscalls t) = map fst (syscalls s) @ [Clock_gettime (fast_clock_id s), Epoll_create1 EPOLL_CLOEXEC, Pipe2 (O_NONBLOCK OR O_CLOEXEC)]"
proof -
  define z where "z = loop_zero s"
  have z: "replies z = c # ret n # fail e # rs" "statics z = statics s" "fast_clock_id z = fast_clock_id s" "syscalls z = syscalls s"
    using assms(1) by (simp_all add: z_def loop_zero_def upd_pool_def Let_def)
  obtain a where a: "uv__update_time z = Some a" "replies a = ret n # fail e # rs" "statics a = statics s"
    "map fst (syscalls a) = map fst (syscalls s) @ [Clock_gettime (fast_clock_id s)]"
    using z assms(7) by (auto simp: uv__update_time_def uv__hrtime_def Let_def)
  define b where "b = (uv__async_init a)\<lparr>signal_pipefd := (- 1, - 1), backend_fd := - 1, emfile_fd := - 1\<rparr>"
  have b: "replies b = ret n # fail e # rs" "statics b = statics s" "map fst (syscalls b) = map fst (syscalls s) @ [Clock_gettime (fast_clock_id s)]"
    "signal_pipefd b = (- 1, - 1)"
    using a by (simp_all add: b_def uv__async_init_def upd_io_def)
  obtain d where d: "uv__platform_loop_init b = Some (0, d)" "replies d = fail e # rs" "statics d = statics s" "signal_pipefd d = (- 1, - 1)"
    "map fst (syscalls d) = map fst (syscalls s) @ [Clock_gettime (fast_clock_id s), Epoll_create1 EPOLL_CLOEXEC]" "backend_fd d = n" "inotify_fd d = - 1"
    using b assms(2) by (simp add: uv__platform_loop_init_def ret_def Let_def)
  obtain u where u: "uv_signal_init (child_watcher d) d = Some (- e, u)" "replies u = rs" "backend_fd u = n" "inotify_fd u = - 1"
    "map fst (syscalls u) = map fst (syscalls d) @ [Pipe2 (O_NONBLOCK OR O_CLOEXEC)]"
    using d assms(3,4,6) by (simp add: uv_signal_init_def uv__signal_loop_once_init_def uv__make_pipe_def fail_def ret_def)
  have "uv_loop_init s = Some (- e, u)"
    using a(1) d(1) u(1,4) assms(4,5)
    by (simp add: uv_loop_init_def uv__signal_global_once_init_def z_def [symmetric] b_def [symmetric] Let_def fail_signal_init_def
        uv__platform_loop_delete_def)
  then show ?thesis using u d(5) by simp
qed

definition starting_loop :: "reply list \<Rightarrow> unit adloop_scheme" where
  "starting_loop rs = (resolving rs [])\<lparr>statics := \<lambda>x. x = ''uv__signal_global_init_guard'', fast_clock_id := 6\<rparr>"

theorem loop_init_leaks_backend_witness:
  "\<exists>t. uv_loop_init (starting_loop [ret 0, ret 3, fail EMFILE]) = Some (- EMFILE, t) \<and> backend_fd t = 3
     \<and> map fst (syscalls t) = [Clock_gettime 6, Epoll_create1 EPOLL_CLOEXEC, Pipe2 (O_NONBLOCK OR O_CLOEXEC)]"
proof -
  let ?s = "starting_loop [ret 0, ret 3, fail EMFILE]"
  have s: "replies ?s = [ret 0, ret 3, fail EMFILE]" "fast_clock_id ?s = 6" "statics ?s x = (x = ''uv__signal_global_init_guard'')" "syscalls ?s = []" for x
    by (simp_all add: starting_loop_def resolving_def fs_loop_defs)
  have "\<exists>t. uv_loop_init ?s = Some (- EMFILE, t) \<and> backend_fd t = 3 \<and> replies t = []
     \<and> map fst (syscalls t) = map fst (syscalls ?s) @ [Clock_gettime (fast_clock_id ?s), Epoll_create1 EPOLL_CLOEXEC, Pipe2 (O_NONBLOCK OR O_CLOEXEC)]"
    by (rule loop_init_leaks_backend [OF s(1)]) (simp_all add: s)
  then show ?thesis by (auto simp: s)
qed

theorem loop_close_refuses_a_busy_loop_witness:
  "uv_loop_close (resolving [] [3]) = Some (UV_EBUSY, resolving [] [3])"
proof -
  have a: "active_reqs (resolving [] [3]) = [3]" by (simp add: resolving_def)
  then obtain rc t where t: "uv_loop_close (resolving [] [3]) = Some (rc, t)" by (simp add: uv_loop_close_def)
  from loop_close_refuses_a_busy_loop [OF t] a t show ?thesis by simp
qed

end
