(* ===== verification/Linux_Info.thy ===== *)
theory Linux_Info
  imports Threadpool
begin

text \<open>
  What the library tells about the machine: the rest of \<open>src/unix/linux-core.cpp\<close>.  The files under \<open>/proc\<close> are read with
  one call each into a buffer; the text a call gives is the string of its reply, cut to the number of bytes it
  returned.  A pointer into the buffer is the part of it from there on; the bytes after what was read count as the
  end of the string.  Functions that parse are definitions on strings, functions that allocate or call the kernel pass the state.
\<close>

definition text_of :: "reply \<Rightarrow> string" where
  "text_of r = (case r_str r of None \<Rightarrow> [] | Some t \<Rightarrow> take (nat (r_ret r)) t)"

abbreviation (input) NUL :: char where "NUL \<equiv> CHR 0x00"
abbreviation (input) newline :: char where "newline \<equiv> CHR 0x0A"

text \<open>The C string that starts at a place of a buffer.\<close>

definition c_str :: "string \<Rightarrow> string" where
  "c_str b = takeWhile (\<lambda>c. c \<noteq> NUL) b"

section \<open>Memory, load, uptime\<close>

text \<open>The numbers of \<open>struct sysinfo\<close> a call stores are those of its reply.\<close>

abbreviation (input) Sysinfo :: syscall where "Sysinfo \<equiv> Sys ''sysinfo'' []"

text \<open>The averages are numerators over 65536; \<open>None\<close> is an array left as it was.\<close>

definition uv_loadavg :: "'a kern_scheme \<Rightarrow> (int list option \<times> 'a kern_scheme) option" where
  "uv_loadavg s = do {
     (r, s) \<leftarrow> syscall Sysinfo s;
     Some (if r_ret r < 0 then None else Some (take 3 (r_nums r)), s)
   }"

definition uv_exepath :: "nat option \<Rightarrow> 'a kern_scheme \<Rightarrow> ((int + string) \<times> 'a kern_scheme) option" where
  "uv_exepath sz s =
     (if sz = None \<or> sz = Some 0 then Some (Inl (- EINVAL), s)
      else do {
        let n = int (the sz) - 1;
        (n, t, s) \<leftarrow> (if n > 0 then do {
            (r, s) \<leftarrow> syscall (SysPath ''readlink'' [''/proc/self/exe''] [n]) s;
            Some (r_ret r, text_of r, s)
          } else Some (n, [], s));
        Some (if n = - 1 then Inl (- errno s) else Inr (take (nat n) t), s)
      })"

text \<open>The first number is the amount, the second the unit.\<close>

definition memory_of :: "reply \<Rightarrow> u64" where
  "memory_of r = (case r_nums r of amount # mem_unit # _ \<Rightarrow> of_int amount * of_int mem_unit | _ \<Rightarrow> 0)"

definition uv_get_free_memory :: "'a kern_scheme \<Rightarrow> (u64 \<times> 'a kern_scheme) option" where
  "uv_get_free_memory s = do { (r, s) \<leftarrow> syscall Sysinfo s; Some (if r_ret r = 0 then memory_of r else 0, s) }"

definition uv_get_total_memory :: "'a kern_scheme \<Rightarrow> (u64 \<times> 'a kern_scheme) option" where
  "uv_get_total_memory s = do { (r, s) \<leftarrow> syscall Sysinfo s; Some (if r_ret r = 0 then memory_of r else 0, s) }"

abbreviation (input) CLOCK_BOOTTIME :: int where "CLOCK_BOOTTIME \<equiv> 7"

text \<open>\<open>retry:\<close>\<close>

definition uptime_retry :: "'a kern_scheme \<Rightarrow> (reply \<times> 'a kern_scheme) option" where
  "uptime_retry s = syscall (Clock_gettime CLOCK_MONOTONIC) s"

definition uv_uptime :: "'a kern_scheme \<Rightarrow> ((int + u64) \<times> 'a kern_scheme) option" where
  "uv_uptime s = do {
     (r, s) \<leftarrow> (if statics s ''no_clock_boottime'' then uptime_retry s
       else do {
         (r, s) \<leftarrow> syscall (Clock_gettime CLOCK_BOOTTIME) s;
         if r_ret r \<noteq> 0 \<and> errno s = EINVAL then uptime_retry (set_static ''no_clock_boottime'' s) else Some (r, s)
       });
     Some (if r_ret r \<noteq> 0 then Inl (- errno s) else Inr (fst (r_clock r)), s)
   }"

section \<open>The resident set\<close>

definition from_char :: "string \<Rightarrow> char \<Rightarrow> string option" where
  "from_char str c = map_option (\<lambda>k. drop k str) (strchr str c)"

fun skip_fields :: "nat \<Rightarrow> string \<Rightarrow> string option" where
  "skip_fields 0 str = Some str"
| "skip_fields (Suc i) str = Option.bind (from_char (tl str) (CHR '' '')) (skip_fields i)"

definition rss_field :: "string \<Rightarrow> string option" where
  "rss_field buf = do {
     str \<leftarrow> from_char buf (CHR '' '');
     let str = tl str;
     require (str \<noteq> [] \<and> hd str = CHR ''('');
     str \<leftarrow> from_char str (CHR '')'');
     skip_fields 22 str
   }"

text \<open>\<open>strtol\<close> sets \<open>errno\<close> when the number does not fit.\<close>

definition strtol :: "string \<Rightarrow> int option" where
  "strtol str = (let n = atoi str in if - (2 ^ 63) \<le> n \<and> n < 2 ^ 63 then Some n else None)"

definition rss_pages :: "string \<Rightarrow> int option" where
  "rss_pages buf = do { str \<leftarrow> rss_field buf; n \<leftarrow> strtol str; require (\<not> n < 0); Some n }"

definition uv_resident_set_memory :: "'a kern_scheme \<Rightarrow> ((int + u64) \<times> 'a kern_scheme) option" where
  "uv_resident_set_memory s = do {
     (fd, s) \<leftarrow> eintr_loop (Open ''/proc/self/stat'' O_RDONLY 0) s;
     if r_ret fd = - 1 then Some (Inl (- errno s), s)
     else do {
       (n, s) \<leftarrow> eintr_loop (Read (r_ret fd) 1023) s;
       (_, s) \<leftarrow> uv__close (r_ret fd) s;
       if r_ret n = - 1 then Some (Inl (- errno s), s)
       else case rss_pages (c_str (text_of n)) of
              None \<Rightarrow> Some (Inl (- EINVAL), s)
            | Some pages \<Rightarrow> do {
                (page, s) \<leftarrow> syscall (Sys ''getpagesize'' []) s;
                Some (Inr (of_int (pages * r_ret page)), s)
              }
     }
   }"

section \<open>Processors\<close>

record uv_cpu_times_s =
  ct_user :: u64
  ct_nice :: u64
  ct_sys :: u64
  ct_idle :: u64
  ct_irq :: u64

record uv_cpu_info_t =
  ci_model :: "string option"
  ci_speed :: int
  ci_times :: uv_cpu_times_s

definition no_cpu :: uv_cpu_info_t where
  "no_cpu = \<lparr>ci_model = None, ci_speed = 0, ci_times = \<lparr>ct_user = 0, ct_nice = 0, ct_sys = 0, ct_idle = 0, ct_irq = 0\<rparr>\<rparr>"

text \<open>The line's length with its end, which is overwritten by the end of a string; the buffer is what is left of it.\<close>

fun get_line :: "string \<Rightarrow> string \<times> nat" where
  "get_line [] = ([], 0)"
| "get_line (c # cs) = (if c = newline then (NUL # cs, 1) else (case get_line cs of (b, n) \<Rightarrow> (c # b, n + 1)))"

lemma get_line_length [simp]: "length (fst (get_line b)) = length b"
  by (induction b rule: get_line.induct) (auto split: prod.splits)

lemma get_line_end: "snd (get_line b) \<le> length b" "snd (get_line b) = 0 \<longleftrightarrow> b = []"
  by (induction b rule: get_line.induct) (auto split: prod.splits)

lemma get_line_shorter: "b \<noteq> [] \<Longrightarrow> length b - snd (get_line b) < length b"
proof -
  assume b: "b \<noteq> []"
  then have "snd (get_line b) \<noteq> 0" using get_line_end(2) [of b] by simp
  then show ?thesis using b by (simp add: length_greater_0_conv [symmetric] del: length_greater_0_conv)
qed

function cpu_lines :: "string \<Rightarrow> u32 \<Rightarrow> u32" where
  "cpu_lines buf num =
     (let line_size = snd (get_line buf); buf' = fst (get_line buf)
      in if line_size = 0 then num
         else if take 3 buf' \<noteq> ''cpu'' then num
         else cpu_lines (drop line_size buf') (num + 1))"
  by pat_completeness auto
termination
  by (relation "measure (\<lambda>(buf, num). length buf)") (auto simp: get_line_end(2) get_line_shorter)

declare cpu_lines.simps [simp del]

definition uv__cpu_num :: "int \<Rightarrow> 'a kern_scheme \<Rightarrow> ((int + u32) \<times> 'a kern_scheme) option" where
  "uv__cpu_num fd s = do {
     (r, s) \<leftarrow> syscall (Read fd 4096) s;
     let (buf, line_size) = get_line (text_of r);
     if line_size = 0 then Some (Inl (- EIO), s)
     else do {
       let num = cpu_lines buf 0;
       Some (if num = 0 then Inl (- EIO) else Inr num, s)
     }
   }"

definition model_marker :: string where
  "model_marker = ''model name'' @ [CHR 0x09] @ '': ''"

definition speed_marker :: string where
  "speed_marker = ''cpu MHz'' @ [CHR 0x09, CHR 0x09] @ '': ''"

text \<open>\<open>strlen(model) - 1\<close> wraps around when the name is empty.\<close>

definition strip_last :: "string \<Rightarrow> nat" where
  "strip_last str = (if str = [] then 2 ^ 64 - 1 else length str - 1)"

function models_loop ::
    "string \<Rightarrow> nat \<Rightarrow> nat \<Rightarrow> nat \<Rightarrow> uv_cpu_info_t list \<Rightarrow> 'a kern_scheme \<Rightarrow> ((int \<times> nat \<times> uv_cpu_info_t list) \<times> 'a kern_scheme) option" where
  "models_loop buf numcpus model_idx speed_idx ci s =
     (let line_size = snd (get_line buf); buf' = fst (get_line buf); str = c_str buf'; rest = drop line_size buf'
      in if line_size = 0 then Some ((0, model_idx, ci), s)
         else if model_idx < numcpus \<and> take (length model_marker) str = model_marker then
           (let model = drop (length model_marker) str
            in case uv__strndup model (strip_last model) s of
                 None \<Rightarrow> None
               | Some (None, s) \<Rightarrow> Some ((- ENOMEM, model_idx, ci), s)
               | Some (Some m, s) \<Rightarrow> models_loop rest numcpus (model_idx + 1) speed_idx (ci[model_idx := (ci ! model_idx)\<lparr>ci_model := Some m\<rparr>]) s)
         else if speed_idx < numcpus \<and> take (length speed_marker) str = speed_marker then
           models_loop rest numcpus model_idx (speed_idx + 1)
             (ci[speed_idx := (ci ! speed_idx)\<lparr>ci_speed := atoi (drop (length speed_marker) str)\<rparr>]) s
         else models_loop rest numcpus model_idx speed_idx ci s)"
  by pat_completeness auto
termination
  by (relation "measure (\<lambda>(buf, numcpus, mi, si, ci, s). length buf)") (auto simp: get_line_end(2) get_line_shorter)

declare models_loop.simps [simp del]

text \<open>\<open>k\<close> models are missing.\<close>

fun fill_models ::
    "nat \<Rightarrow> nat \<Rightarrow> string \<Rightarrow> uv_cpu_info_t list \<Rightarrow> 'a kern_scheme \<Rightarrow> ((int \<times> uv_cpu_info_t list) \<times> 'a kern_scheme) option" where
  "fill_models 0 model_idx inferred_model ci s = Some ((0, ci), s)"
| "fill_models (Suc k) model_idx inferred_model ci s = do {
     (m, s) \<leftarrow> uv__strndup inferred_model (length inferred_model) s;
     case m of
       None \<Rightarrow> Some ((- ENOMEM, ci), s)
     | Some m \<Rightarrow> fill_models k (model_idx + 1) inferred_model (ci[model_idx := (ci ! model_idx)\<lparr>ci_model := Some m\<rparr>]) s
   }"

definition read_models :: "nat \<Rightarrow> uv_cpu_info_t list \<Rightarrow> 'a kern_scheme \<Rightarrow> ((int \<times> uv_cpu_info_t list) \<times> 'a kern_scheme) option" where
  "read_models numcpus ci s = do {
     (fd, s) \<leftarrow> syscall (Open ''/proc/cpuinfo'' O_RDONLY 0) s;
     if r_ret fd < 0 then Some ((- errno s, ci), s)
     else do {
       (r, s) \<leftarrow> syscall (Read (r_ret fd) 4096) s;
       (_, s) \<leftarrow> syscall (Close (r_ret fd)) s;
       if r_ret r \<le> 0 then Some ((- 1, ci), s)
       else do {
         ((err, model_idx, ci), s) \<leftarrow> models_loop (text_of r) numcpus 0 0 ci s;
         if err \<noteq> 0 then Some ((err, ci), s)
         else fill_models (numcpus - model_idx) model_idx
           (if model_idx > 0 then the (ci_model (ci ! (model_idx - 1))) else ''unknown'') ci s
       }
     }
   }"

text \<open>\<open>sscanf\<close> with \<open>%u\<close> and \<open>%lu\<close>: blanks, a sign, at least one digit; what follows.\<close>

definition is_blank :: "char \<Rightarrow> bool" where
  "is_blank c \<longleftrightarrow> c = CHR '' '' \<or> of_char c \<in> {9..<14::nat}"

definition is_digit :: "char \<Rightarrow> bool" where
  "is_digit c \<longleftrightarrow> of_char c \<in> {48..<58::nat}"

definition scan_unsigned :: "string \<Rightarrow> (int \<times> string) option" where
  "scan_unsigned str =
     (let cs = dropWhile is_blank str;
          cs' = (if cs \<noteq> [] \<and> hd cs \<in> {CHR ''-'', CHR ''+''} then tl cs else cs)
      in if cs' = [] \<or> \<not> is_digit (hd cs') then None else Some (atoi cs, dropWhile is_digit cs'))"

fun scan_many :: "nat \<Rightarrow> string \<Rightarrow> int list option" where
  "scan_many 0 str = Some []"
| "scan_many (Suc k) str = do { (n, rest) \<leftarrow> scan_unsigned str; ns \<leftarrow> scan_many k rest; Some (n # ns) }"

text \<open>\<open>sizeof("cpu0")\<close>, and one more for every further digit.\<close>

definition cpu_marker_length :: "u32 \<Rightarrow> nat" where
  "cpu_marker_length n = 5 + (length (dec (unat n)) - 1)"

definition times_of :: "u64 \<Rightarrow> int list \<Rightarrow> uv_cpu_times_s" where
  "times_of clock_ticks ns = \<lparr>ct_user = clock_ticks * of_int (ns ! 0), ct_nice = clock_ticks * of_int (ns ! 1),
     ct_sys = clock_ticks * of_int (ns ! 2), ct_idle = clock_ticks * of_int (ns ! 3), ct_irq = clock_ticks * of_int (ns ! 5)\<rparr>"

function times_loop :: "u64 \<Rightarrow> string \<Rightarrow> nat \<Rightarrow> nat \<Rightarrow> uv_cpu_info_t list \<Rightarrow> (nat \<times> uv_cpu_info_t list) option" where
  "times_loop clock_ticks buf numcpus num ci =
     (let line_size = snd (get_line buf); buf' = fst (get_line buf)
      in if line_size = 0 then Some (num, ci)
         else if num \<ge> numcpus then Some (num, ci)
         else if take 3 buf' \<noteq> ''cpu'' then Some (num, ci)
         else case scan_unsigned (c_str (drop 3 buf')) of
                None \<Rightarrow> None
              | Some (n, _) \<Rightarrow>
                  (case scan_many 6 (c_str (drop (cpu_marker_length (of_int n)) buf')) of
                     None \<Rightarrow> None
                   | Some ns \<Rightarrow> times_loop clock_ticks (drop line_size buf') numcpus (num + 1)
                       (ci[num := (ci ! num)\<lparr>ci_times := times_of clock_ticks ns\<rparr>])))"
  by pat_completeness auto
termination
  by (relation "measure (\<lambda>(ticks, buf, numcpus, num, ci). length buf)") (auto simp: get_line_end(2) get_line_shorter)

declare times_loop.simps [simp del]

definition read_times :: "int \<Rightarrow> nat \<Rightarrow> uv_cpu_info_t list \<Rightarrow> 'a kern_scheme \<Rightarrow> ((int \<times> uv_cpu_info_t list) \<times> 'a kern_scheme) option" where
  "read_times fd numcpus ci s = do {
     (t, s) \<leftarrow> syscall (Sysconf 2) s;
     let clock_ticks = of_int (r_ret t);
     require (clock_ticks \<noteq> (- 1 :: u64));
     require (clock_ticks \<noteq> (0 :: u64));
     (r, s) \<leftarrow> syscall (Read fd 4096) s;
     require (r_ret r > 0);
     (num, ci) \<leftarrow> times_loop clock_ticks (text_of r) numcpus 0 ci;
     require (num = numcpus);
     Some ((0, ci), s)
   }"

definition read_cpufreq :: "nat \<Rightarrow> int" where
  "read_cpufreq cpunum = 0"

fun read_speeds :: "nat \<Rightarrow> nat \<Rightarrow> uv_cpu_info_t list \<Rightarrow> uv_cpu_info_t list" where
  "read_speeds 0 num ci = ci"
| "read_speeds (Suc k) num ci = read_speeds k (num + 1) (ci[num := (ci ! num)\<lparr>ci_speed := read_cpufreq num div 1000\<rparr>])"

text \<open>What is at \<open>out:\<close>.\<close>

definition cpu_info_out :: "int \<Rightarrow> int + uv_cpu_info_t list \<Rightarrow> 'a kern_scheme \<Rightarrow> ((int + uv_cpu_info_t list) \<times> 'a kern_scheme) option" where
  "cpu_info_out fd res s = do {
     (r, s) \<leftarrow> syscall (Close fd) s;
     require (r_ret r = 0 \<or> errno s = EINTR \<or> errno s = EINPROGRESS);
     Some (res, s)
   }"

definition uv_cpu_info :: "'a kern_scheme \<Rightarrow> ((int + uv_cpu_info_t list) \<times> 'a kern_scheme) option" where
  "uv_cpu_info s = do {
     (fd, s) \<leftarrow> syscall (Open ''/proc/stat'' O_RDONLY 0) s;
     if r_ret fd = - 1 then Some (Inl (- errno s), s)
     else do {
       (num, s) \<leftarrow> uv__cpu_num (r_ret fd) s;
       case num of
         Inl err \<Rightarrow> cpu_info_out (r_ret fd) (Inl err) s
       | Inr n \<Rightarrow> do {
           let numcpus = unat n;
           (m, s) \<leftarrow> syscall (Sys ''calloc'' [int numcpus]) s;
           if r_ret m = - 1 then cpu_info_out (r_ret fd) (Inl (- ENOMEM)) s
           else do {
             ((err, ci), s) \<leftarrow> read_models numcpus (replicate numcpus no_cpu) s;
             ((err, ci), s) \<leftarrow> (if err = 0 then read_times (r_ret fd) numcpus ci s else Some ((err, ci), s));
             if err \<noteq> 0 then cpu_info_out (r_ret fd) (Inl err) s
             else cpu_info_out (r_ret fd) (Inr (if ci_speed (ci ! 0) = 0 then read_speeds numcpus 0 ci else ci)) s
           }
         }
     }
   }"

section \<open>Network interfaces\<close>

text \<open>
  An entry of the list of \<open>getifaddrs\<close>; \<open>ifa_phys\<close> is \<open>sll_addr\<close> when the address is of the family \<open>PF_PACKET\<close>.
  The physical address of a result is \<open>None\<close> until it is filled in: the memory comes from \<open>malloc\<close>.
\<close>

record ifaddrs =
  ifa_name :: string
  ifa_flags :: u32
  ifa_addr :: "sockaddr option"
  ifa_netmask :: "sockaddr option"
  ifa_phys :: "u8 list"

record uv_interface_address_t =
  ia_name :: "string option"
  ia_phys_addr :: "u8 list option"
  ia_is_internal :: bool
  ia_address :: sockaddr
  ia_netmask :: sockaddr

abbreviation (input) IFF_UP :: u32 where "IFF_UP \<equiv> 0x1"
abbreviation (input) IFF_LOOPBACK :: u32 where "IFF_LOOPBACK \<equiv> 0x8"
abbreviation (input) IFF_RUNNING :: u32 where "IFF_RUNNING \<equiv> 0x40"
abbreviation (input) PF_PACKET :: int where "PF_PACKET \<equiv> 17"

definition if_running :: "ifaddrs \<Rightarrow> bool" where
  "if_running ent \<longleftrightarrow> ifa_flags ent AND IFF_UP \<noteq> 0 \<and> ifa_flags ent AND IFF_RUNNING \<noteq> 0"

definition if_counted :: "ifaddrs \<Rightarrow> bool" where
  "if_counted ent \<longleftrightarrow> if_running ent \<and> (case ifa_addr ent of None \<Rightarrow> False | Some a \<Rightarrow> sa_family a \<noteq> PF_PACKET)"

text \<open>The results stored so far are a list; a name for which there was no memory is stored as null.\<close>

fun if_fill :: "ifaddrs list \<Rightarrow> uv_interface_address_t list \<Rightarrow> 'a kern_scheme \<Rightarrow> (uv_interface_address_t list \<times> 'a kern_scheme) option" where
  "if_fill [] acc s = Some (acc, s)"
| "if_fill (ent # es) acc s =
     (if \<not> if_running ent then if_fill es acc s
      else case ifa_addr ent of
             None \<Rightarrow> if_fill es acc s
           | Some a \<Rightarrow>
               if sa_family a = PF_PACKET then if_fill es acc s
               else do {
                 (name, s) \<leftarrow> uv__strdup (ifa_name ent) s;
                 netmask \<leftarrow> ifa_netmask ent;
                 if_fill es (acc @ [\<lparr>ia_name = name, ia_phys_addr = None, ia_is_internal = (ifa_flags ent AND IFF_LOOPBACK \<noteq> 0),
                   ia_address = a, ia_netmask = netmask\<rparr>]) s
               })"

text \<open>\<open>strcmp\<close> of a null name is a crash.\<close>

definition if_phys_one :: "ifaddrs \<Rightarrow> uv_interface_address_t list \<Rightarrow> uv_interface_address_t list option" where
  "if_phys_one ent as =
     (if list_ex (\<lambda>a. ia_name a = None) as then None
      else Some (map (\<lambda>a. if ia_name a = Some (ifa_name ent) then a\<lparr>ia_phys_addr := Some (take 6 (ifa_phys ent))\<rparr> else a) as))"

fun if_phys :: "ifaddrs list \<Rightarrow> uv_interface_address_t list \<Rightarrow> uv_interface_address_t list option" where
  "if_phys [] as = Some as"
| "if_phys (ent # es) as =
     (if \<not> if_running ent \<or> (case ifa_addr ent of None \<Rightarrow> True | Some a \<Rightarrow> sa_family a \<noteq> PF_PACKET) then if_phys es as
      else Option.bind (if_phys_one ent as) (if_phys es))"

abbreviation (input) Getifaddrs :: syscall where "Getifaddrs \<equiv> Sys ''getifaddrs'' []"
abbreviation (input) Freeifaddrs :: syscall where "Freeifaddrs \<equiv> Sys ''freeifaddrs'' []"

definition uv_interface_addresses ::
    "ifaddrs list \<Rightarrow> 'a kern_scheme \<Rightarrow> ((int + uv_interface_address_t list) \<times> 'a kern_scheme) option" where
  "uv_interface_addresses addrs s = do {
     (r, s) \<leftarrow> syscall Getifaddrs s;
     if r_ret r \<noteq> 0 then Some (Inl (- errno s), s)
     else do {
       let count = length (filter if_counted addrs);
       if count = 0 then Some (Inr [], s)
       else do {
         (m, s) \<leftarrow> syscall (Sys ''malloc uv_interface_address_t'' [int count]) s;
         if r_ret m = - 1 then do { (_, s) \<leftarrow> syscall Freeifaddrs s; Some (Inl (- ENOMEM), s) }
         else do {
           (as, s) \<leftarrow> if_fill addrs [] s;
           as \<leftarrow> if_phys addrs as;
           (_, s) \<leftarrow> syscall Freeifaddrs s;
           Some (Inr as, s)
         }
       }
     }
   }"

text \<open>\<open>prctl\<close> copies the first 16 characters.\<close>

definition uv__set_process_title :: "string \<Rightarrow> 'a kern_scheme \<Rightarrow> 'a kern_scheme option" where
  "uv__set_process_title title s = map_option snd (syscall (SysPath ''prctl'' [title] [15]) s)"

section \<open>The place of the resident set\<close>

definition spaced :: "string list \<Rightarrow> string" where
  "spaced fs = concat (map (\<lambda>f. CHR '' '' # f) fs)"

lemma from_char_append: "c \<notin> set xs \<Longrightarrow> from_char (xs @ c # ys) c = Some (c # ys)"
  by (simp add: from_char_def strchr_append)

lemma skip_fields_spaced:
  assumes "\<And>f. f \<in> set fs \<Longrightarrow> CHR '' '' \<notin> set f" "k < length fs" "CHR '' '' \<notin> set y"
  shows "skip_fields (Suc k) (x # y @ spaced fs) = Some (spaced (drop k fs))"
  using assms
proof (induction k arbitrary: fs x y)
  case 0
  then obtain f gs where "fs = f # gs" by (cases fs) auto
  then show ?case using 0 by (simp add: spaced_def from_char_append)
next
  case (Suc k)
  then obtain f gs where fs: "fs = f # gs" by (cases fs) auto
  have "from_char (y @ spaced fs) (CHR '' '') = Some (CHR '' '' # f @ spaced gs)"
    using Suc.prems(3) by (simp add: spaced_def fs from_char_append)
  then have "skip_fields (Suc (Suc k)) (x # y @ spaced fs) = skip_fields (Suc k) (CHR '' '' # f @ spaced gs)"
    by (simp del: skip_fields.simps(2) add: skip_fields.simps(2) [of "Suc k"])
  also have "\<dots> = Some (spaced (drop k gs))"
    by (rule Suc.IH) (use Suc.prems fs in auto)
  finally show ?case by (simp add: fs)
qed

definition stat_line :: "string \<Rightarrow> string \<Rightarrow> string list \<Rightarrow> string" where
  "stat_line pid comm fs = pid @ '' ('' @ comm @ '')'' @ spaced fs"

lemma rss_field_spaced:
  assumes "CHR '' '' \<notin> set pid" "CHR '')'' \<notin> set comm" "\<And>f. f \<in> set fs \<Longrightarrow> CHR '' '' \<notin> set f" "21 < length fs"
  shows "rss_field (stat_line pid comm fs) = Some (spaced (drop 21 fs))"
proof -
  have a: "from_char (stat_line pid comm fs) (CHR '' '') = Some ('' ('' @ comm @ '')'' @ spaced fs)"
    using assms(1) by (simp add: stat_line_def from_char_append)
  have b: "from_char (CHR ''('' # comm @ CHR '')'' # spaced fs) (CHR '')'') = Some (CHR '')'' # spaced fs)"
    using from_char_append [of "CHR '')''" "CHR ''('' # comm" "spaced fs"] assms(2) by simp
  have "skip_fields (Suc 21) (CHR '')'' # [] @ spaced fs) = Some (spaced (drop 21 fs))"
    by (rule skip_fields_spaced) (use assms(3,4) in auto)
  then have "skip_fields 22 (CHR '')'' # spaced fs) = Some (spaced (drop 21 fs))" by (simp add: eval_nat_numeral)
  then show ?thesis by (simp add: rss_field_def a b require_def Let_def)
qed

section \<open>Numbers\<close>

definition digit_val :: "char \<Rightarrow> int" where
  "digit_val c = of_char c - 48"

lemma digit_chars:
  assumes "d < 10"
  shows "is_digit (xdigits_l ! d)" "digit_val (xdigits_l ! d) = int d" "\<not> is_blank (xdigits_l ! d)"
    "xdigits_l ! d \<noteq> CHR ''-''" "xdigits_l ! d \<noteq> CHR ''+''"
proof -
  have "d \<in> {0, 1, 2, 3, 4, 5, 6, 7, 8, 9}" using assms by auto
  then show "is_digit (xdigits_l ! d)" "digit_val (xdigits_l ! d) = int d" "\<not> is_blank (xdigits_l ! d)"
    "xdigits_l ! d \<noteq> CHR ''-''" "xdigits_l ! d \<noteq> CHR ''+''"
    by (auto simp: xdigits_l_def is_digit_def is_blank_def digit_val_def)
qed

lemma dec_value:
  "(\<forall>c \<in> set (dec n). is_digit c) \<and> foldl (\<lambda>m c. m * 10 + (of_char c - 48)) 0 (dec n) = int n
   \<and> dec n \<noteq> [] \<and> \<not> is_blank (hd (dec n)) \<and> hd (dec n) \<noteq> CHR ''-'' \<and> hd (dec n) \<noteq> CHR ''+''"
proof (induction n rule: less_induct)
  case (less n)
  show ?case
  proof (cases "n < 10")
    case True
    then have "dec n = [xdigits_l ! n]" unfolding dec_def by (subst in_base.simps) simp
    then show ?thesis using digit_chars [OF True] by (simp add: digit_val_def)
  next
    case False
    then have d: "dec n = dec (n div 10) @ [xdigits_l ! (n mod 10)]" unfolding dec_def by (subst in_base.simps) simp
    have m: "n mod 10 < 10" by simp
    have i: "int (n div 10) * 10 + int (n mod 10) = int n" by (metis div_mult_mod_eq of_nat_add of_nat_mult of_nat_numeral)
    from less.IH [of "n div 10"] False show ?thesis using digit_chars [OF m]
      by (auto simp: d digit_val_def i)
  qed
qed

lemma digits_of_dec:
  assumes "rest = [] \<or> \<not> is_digit (hd rest)"
  shows "takeWhile is_digit (dec n @ rest) = dec n" "dropWhile is_digit (dec n @ rest) = rest"
  using assms dec_value [of n] by (cases rest; simp add: takeWhile_append dropWhile_append)+

lemma atoi_dec:
  assumes "rest = [] \<or> \<not> is_digit (hd rest)"
  shows "atoi (dec n @ rest) = int n" "atoi (CHR '' '' # dec n @ rest) = int n"
proof -
  have b: "dropWhile (\<lambda>c. c = CHR '' '' \<or> of_char c \<in> {9..<14::nat}) (dec n @ rest) = dec n @ rest"
    using dec_value [of n] by (cases "dec n") (auto simp: is_blank_def)
  have t: "takeWhile (\<lambda>c. of_char c \<in> {48..<58::nat}) (dec n @ rest) = dec n"
    using digits_of_dec(1) [OF assms] by (simp add: is_digit_def [abs_def])
  have h: "hd (dec n @ rest) = hd (dec n)" using dec_value [of n] by simp
  show "atoi (dec n @ rest) = int n"
    using dec_value [of n] unfolding atoi_def b by (simp add: Let_def h t [simplified])
  then show "atoi (CHR '' '' # dec n @ rest) = int n" by (simp add: atoi_def)
qed

section \<open>Lines of /proc/stat\<close>

lemma get_line_append:
  "newline \<notin> set l \<Longrightarrow> get_line (l @ newline # rest) = (l @ NUL # rest, length l + 1)"
  by (induction l) auto

definition lines_of :: "string list \<Rightarrow> string" where
  "lines_of ls = concat (map (\<lambda>l. l @ [newline]) ls)"

lemma lines_of_Cons: "lines_of (l # ls) @ rest = l @ newline # lines_of ls @ rest"
  by (simp add: lines_of_def)

lemma cpu_lines_count:
  assumes "\<And>l. l \<in> set ls \<Longrightarrow> newline \<notin> set l \<and> take 3 l = ''cpu''" "take 3 (fst (get_line rest)) \<noteq> ''cpu''"
  shows "cpu_lines (lines_of ls @ rest) num = num + of_nat (length ls)"
  using assms
proof (induction ls arbitrary: num)
  case Nil
  then show ?case by (subst cpu_lines.simps) (simp add: lines_of_def Let_def)
next
  case (Cons l ls)
  have l: "newline \<notin> set l" "take 3 l = ''cpu''" using Cons.prems(1) [of l] by simp_all
  have g: "get_line (lines_of (l # ls) @ rest) = (l @ NUL # lines_of ls @ rest, length l + 1)"
    unfolding lines_of_Cons using get_line_append [OF l(1)] by simp
  have "length l \<ge> 3" using l(2) by (metis length_Cons length_take list.size(3) min_def nat_le_linear numeral_3_eq_3 order_refl take_all)
  then have "take 3 (l @ NUL # lines_of ls @ rest) = ''cpu''" using l(2) by simp
  then have "cpu_lines (lines_of (l # ls) @ rest) num = cpu_lines (lines_of ls @ rest) (num + 1)"
    by (subst cpu_lines.simps) (simp add: g Let_def)
  also have "\<dots> = num + 1 + of_nat (length ls)" by (rule Cons.IH) (use Cons.prems in auto)
  finally show ?case by (simp add: ac_simps)
qed

section \<open>Properties\<close>

text \<open>The beginning of a line that fits into the buffer has the same first fields.\<close>

lemma take_spaced:
  assumes "length (spaced (take j fs)) \<le> k" "\<And>f. f \<in> set fs \<Longrightarrow> c \<notin> set f"
  shows "\<exists>gs. take k (spaced fs) = spaced gs \<and> take j gs = take j fs \<and> (\<forall>f \<in> set gs. c \<notin> set f)"
  using assms
proof (induction fs arbitrary: j k)
  case Nil
  then show ?case by (intro exI [of _ "[]"]) (simp add: spaced_def)
next
  case (Cons f fs)
  have one: "spaced (f # gs) = CHR '' '' # f @ spaced gs" for gs by (simp add: spaced_def)
  show ?case
  proof (cases "Suc (length f) \<le> k")
    case True
    have "length (spaced (take (j - 1) fs)) \<le> k - Suc (length f)"
      using Cons.prems(1) True by (cases j) (simp_all add: one, simp add: spaced_def)
    with Cons.IH [of "j - 1" "k - Suc (length f)"] Cons.prems(2) obtain gs where
      gs: "take (k - Suc (length f)) (spaced fs) = spaced gs" "take (j - 1) gs = take (j - 1) fs" "\<forall>f \<in> set gs. c \<notin> set f" by auto
    have "take k (spaced (f # fs)) = spaced (f # gs)" using True gs(1) by (cases k) (simp_all add: one)
    moreover have "take j (f # gs) = take j (f # fs)" using gs(2) by (cases j) simp_all
    ultimately show ?thesis using gs(3) Cons.prems(2) by (intro exI [of _ "f # gs"]) auto
  next
    case False
    have "j = 0" using Cons.prems(1) False by (cases j) (simp_all add: one)
    have "take k (spaced (f # fs)) = spaced (if k = 0 then [] else [take (k - 1) f])"
      using False by (cases k) (simp_all add: spaced_def)
    moreover have "c \<notin> set (take (k - 1) f)" using Cons.prems(2) by (meson in_set_takeD list.set_intros(1))
    ultimately show ?thesis using \<open>j = 0\<close> by (intro exI [of _ "if k = 0 then [] else [take (k - 1) f]"]) auto
  qed
qed

lemma stat_line_begins:
  assumes "length (stat_line pid comm (take 22 fs)) \<le> k" "\<And>f. f \<in> set fs \<Longrightarrow> CHR '' '' \<notin> set f"
  shows "\<exists>gs. take k (stat_line pid comm fs) = stat_line pid comm gs \<and> take 22 gs = take 22 fs \<and> (\<forall>f \<in> set gs. CHR '' '' \<notin> set f)"
proof -
  let ?m = "length pid + length comm + 3"
  have len: "length (spaced (take 22 fs)) \<le> k - ?m" "?m \<le> k" using assms(1) by (simp_all add: stat_line_def)
  obtain gs where gs: "take (k - ?m) (spaced fs) = spaced gs" "take 22 gs = take 22 fs" "\<forall>f \<in> set gs. CHR '' '' \<notin> set f"
    using take_spaced [OF len(1) assms(2)] by blast
  have "take k (stat_line pid comm fs) = pid @ '' ('' @ comm @ '')'' @ take (k - ?m) (spaced fs)"
    using len(2) by (simp add: stat_line_def take_Cons' numeral_3_eq_3)
  then have "take k (stat_line pid comm fs) = stat_line pid comm gs" by (simp add: gs(1)) (simp add: stat_line_def)
  then show ?thesis using gs by blast
qed

text \<open>The number that is read from the beginning of a line.\<close>

lemma rss_pages_line:
  assumes "CHR '' '' \<notin> set pid" "CHR '')'' \<notin> set comm" "\<And>f. f \<in> set fs \<Longrightarrow> CHR '' '' \<notin> set f"
    and "21 < length fs" "fs ! 21 = dec n" "n < 2 ^ 63"
  shows "rss_pages (stat_line pid comm fs) = Some (int n)"
proof -
  have d: "spaced (drop 21 fs) = CHR '' '' # dec n @ spaced (drop 22 fs)"
    using assms(4,5) by (simp add: spaced_def Cons_nth_drop_Suc [symmetric])
  have e: "spaced gs = [] \<or> \<not> is_digit (hd (spaced gs))" for gs by (cases gs) (simp_all add: spaced_def is_digit_def)
  have "int n < 2 ^ 63" using assms(6) by (metis of_nat_less_iff of_nat_numeral of_nat_power)
  moreover have "atoi (spaced (drop 21 fs)) = int n" unfolding d using atoi_dec(2) [OF e] .
  ultimately show ?thesis using rss_field_spaced [OF assms(1-4)] by (simp add: rss_pages_def strtol_def require_def)
qed

text \<open>C32: \<open>uv_resident_set_memory\<close>, whose buffer holds the first 1023 bytes of \<open>/proc/self/stat\<close>, returns the 24th
  field of the line times the page size, whatever the other fields and the rest of the line are, as long as the name of the program
  has no closing parenthesis.  The first one in the line is taken for the end of the name: after a name such
  as \<open>a) b\<close> it returns the 23rd field, the size of the address space in bytes, times the page size.  The calls
  are assumed to succeed without an interruption and the first 24 fields to fit into the buffer.\<close>
theorem resident_set_is_field_24:
  assumes "replies s = op # rd # cl # pg # rs" "r_ret op > 2" "r_ret cl = 0"
    and content: "r_str rd = Some (stat_line pid name fs)" "r_ret rd = int (min 1023 (length (stat_line pid name fs)))"
      "NUL \<notin> set (stat_line pid name fs)" "length (stat_line pid name (take 22 fs)) \<le> 1023"
    and line: "CHR '' '' \<notin> set pid" "\<And>f. f \<in> set fs \<Longrightarrow> CHR '' '' \<notin> set f"
      "21 < length fs" "fs ! 21 = dec n" "n < 2 ^ 63" "fs ! 20 = dec m" "m < 2 ^ 63"
    and name: "CHR '')'' \<notin> set comm" "name = comm \<or> name = comm @ '') '' @ nam \<and> CHR '' '' \<notin> set nam"
  shows "\<exists>t. uv_resident_set_memory s = Some (Inr (of_int (int (if name = comm then n else m) * r_ret pg)), t) \<and> replies t = rs"
proof -
  obtain gs where gs: "take 1023 (stat_line pid name fs) = stat_line pid name gs" "take 22 gs = take 22 fs" "\<forall>f \<in> set gs. CHR '' '' \<notin> set f"
    using stat_line_begins [OF content(4) line(2)] by blast
  have len: "21 < length gs" using arg_cong [OF gs(2), of length] line(3) by simp
  have nth: "gs ! k = fs ! k" if "k < 22" for k using gs(2) that by (metis nth_take)
  have buf: "text_of rd = stat_line pid name gs" using content(1,2) gs(1) by (simp add: text_of_def min_def split: if_splits)
  have "x \<noteq> NUL" if "x \<in> set (stat_line pid name gs)" for x
    using that content(3) in_set_takeD [of x 1023 "stat_line pid name fs"] unfolding gs(1) by blast
  then have c: "c_str (text_of rd) = stat_line pid name gs" unfolding c_str_def buf by (simp add: takeWhile_eq_all_conv)
  have "rss_pages (stat_line pid name gs) = Some (int (if name = comm then n else m))"
  proof (cases "name = comm")
    case True
    then show ?thesis using rss_pages_line [OF line(1) name(1) _ len, of n] gs(3) nth [of 21] line(4,5) by simp
  next
    case False
    let ?fs = "(nam @ '')'') # gs"
    have split: "stat_line pid name gs = stat_line pid comm ?fs" "CHR '' '' \<notin> set nam"
      using False name(2) by (auto simp: stat_line_def spaced_def)
    have "rss_pages (stat_line pid comm ?fs) = Some (int m)"
      by (rule rss_pages_line [OF line(1) name(1)]) (use split(2) gs(3) len nth [of 20] line(6,7) in auto)
    then show ?thesis using False split(1) by simp
  qed
  moreover have "r_ret op \<noteq> - 1" "r_ret rd \<noteq> - 1" "r_ret cl \<noteq> - 1" using assms(2,3) content(2) by auto
  ultimately show ?thesis using assms(1-3)
    by (simp add: uv_resident_set_memory_def retry_while.simps uv__close_def uv__close_nocheckstdio_def c require_def Let_def)
qed

text \<open>The lines of two programs, \<open>cat\<close> and one with the name \<open>a) b\<close>.\<close>

definition stat_replies :: "string \<Rightarrow> unit kern_scheme" where
  "stat_replies name = (let l = stat_line ''12'' name (replicate 20 ''0'' @ [dec 4096, dec 77]) in
     kern_with [ret 5, (ret (int (length l)))\<lparr>r_str := Some l\<rparr>, ret 0, ret 4096])"

theorem resident_set_is_field_24_witness:
  "(\<exists>t. uv_resident_set_memory (stat_replies ''cat'') = Some (Inr (77 * 4096), t))
   \<and> (\<exists>t. uv_resident_set_memory (stat_replies ''a) b'') = Some (Inr (4096 * 4096), t))"
proof -
  let ?fs = "replicate 20 ''0'' @ [dec 4096, dec 77]"
  have d: "CHR '' '' \<notin> set (dec n)" "NUL \<notin> set (dec n)" for n using dec_value [of n] by (auto simp: is_digit_def)
  have n: "?fs ! 21 = dec 77" "?fs ! 20 = dec 4096" by (simp_all add: nth_append)
  have dec_length: "length (dec 4096) = 4" "length (dec 77) = 2" by code_simp+
  have len: "length (stat_line ''12'' name ?fs) = length name + 53" for name
    by (simp add: stat_line_def spaced_def length_concat comp_def sum_list_replicate dec_length)
  have nul: "NUL \<notin> set (stat_line ''12'' name ?fs)" if "NUL \<notin> set name" for name
    using that d(2) by (auto simp: stat_line_def spaced_def)
  have r: "replies (stat_replies name) = [ret 5, (ret (int (length name + 53)))\<lparr>r_str := Some (stat_line ''12'' name ?fs)\<rparr>, ret 0, ret 4096]" for name
    by (simp add: stat_replies_def kern_with_def Let_def len)
  have run: "\<exists>t. uv_resident_set_memory (stat_replies name) = Some (Inr (of_int (int (if name = comm then 77 else 4096) * 4096)), t)"
    if "name = comm \<or> name = comm @ '') '' @ nam \<and> CHR '' '' \<notin> set nam" "CHR '')'' \<notin> set comm" "NUL \<notin> set name" "length name < 900"
    for name comm nam
  proof -
    have "\<exists>t. uv_resident_set_memory (stat_replies name)
        = Some (Inr (of_int (int (if name = comm then 77 else 4096) * r_ret (ret 4096))), t) \<and> replies t = []"
      by (rule resident_set_is_field_24 [OF r _ _ _ _ nul _ _ _ _ n(1) _ n(2) _ that(2,1)]) (use that d len in \<open>auto simp: ret_def\<close>)
    then show ?thesis by (auto simp: ret_def)
  qed
  from run [of "''cat''" "''cat''" "[]"] run [of "''a) b''" "''a''" "''b''"] show ?thesis by simp
qed

text \<open>\<open>uv__cpu_num\<close> returns the number of lines \<open>cpu<n>\<close> of \<open>/proc/stat\<close>, the lines after the first that begin with
  \<open>cpu\<close>.  The first line is never skipped, but its end was overwritten, so that it counts as one with the next.\<close>
theorem cpu_num_counts_processors:
  assumes "replies s = r # rs" "text_of r = lines_of (first # cpus) @ rest" "cpus \<noteq> []" "length cpus < 2 ^ 32"
    and "\<And>l. l \<in> set (first # cpus) \<Longrightarrow> newline \<notin> set l \<and> take 3 l = ''cpu''" "take 3 (fst (get_line rest)) \<noteq> ''cpu''"
  shows "\<exists>t. uv__cpu_num fd s = Some (Inr (of_nat (length cpus)), t) \<and> replies t = rs"
proof -
  obtain l ls where c: "cpus = l # ls" using assms(3) by (cases cpus) auto
  have f: "newline \<notin> set first" "take 3 first = ''cpu''" using assms(5) [of first] by simp_all
  have g: "get_line (text_of r) = (first @ NUL # lines_of cpus @ rest, length first + 1)"
    unfolding assms(2) lines_of_Cons using get_line_append [OF f(1)] by simp
  have "length first \<ge> 3" using f(2) by (metis length_Cons length_take list.size(3) min_def nat_le_linear numeral_3_eq_3 order_refl take_all)
  then have joined: "take 3 (first @ NUL # l) = ''cpu''" using f(2) by simp
  have e: "first @ NUL # lines_of cpus @ rest = lines_of ((first @ NUL # l) # ls) @ rest" by (simp add: c lines_of_def)
  have "cpu_lines (lines_of ((first @ NUL # l) # ls) @ rest) 0 = 0 + of_nat (length ((first @ NUL # l) # ls))"
    by (rule cpu_lines_count) (use assms(5,6) f c joined in auto)
  then have n: "cpu_lines (first @ NUL # lines_of cpus @ rest) 0 = of_nat (length cpus)" unfolding e by (simp add: c)
  have "(of_nat (length cpus) :: u32) \<noteq> 0"
    using assms(3,4) by (auto simp: word_of_nat_eq_0_iff dest!: dvd_imp_le)
  then show ?thesis by (simp add: uv__cpu_num_def syscall_cons [OF assms(1)] g n Let_def)
qed

theorem cpu_num_counts_processors_witness:
  "\<exists>t. uv__cpu_num 3 (kern_with [(ret 28)\<lparr>r_str := Some (lines_of [''cpu  9 9'', ''cpu0 4 4'', ''cpu1 5 5''] @ ''x'')\<rparr>]) = Some (Inr 2, t)"
proof -
  let ?r = "(ret 28)\<lparr>r_str := Some (lines_of [''cpu  9 9'', ''cpu0 4 4'', ''cpu1 5 5''] @ ''x'')\<rparr>"
  have "\<exists>t. uv__cpu_num 3 (kern_with [?r]) = Some (Inr (of_nat (length [''cpu0 4 4'', ''cpu1 5 5''])), t) \<and> replies t = []"
    by (rule cpu_num_counts_processors [where first = "''cpu  9 9''" and rest = "''x''"])
      (auto simp: text_of_def ret_def lines_of_def kern_with_def)
  then show ?thesis by auto
qed

text \<open>\<open>uv_cpu_info\<close> ends the program: \<open>read_times\<close> reads \<open>/proc/stat\<close> again without going back to its beginning, so
  that when the first read got the whole file the second gets nothing and \<open>abort\<close> is called, whatever the kernel does after that.\<close>
theorem cpu_info_aborts:
  assumes "replies s = ret fd # r # m # rs" "fd \<noteq> - 1"
    and "uv__cpu_num fd (s\<lparr>replies := r # m # rs, syscalls := syscalls s @ [(Open ''/proc/stat'' O_RDONLY 0, fd)]\<rparr>) = Some (Inr n, t)"
    and "read_models (unat n) (replicate (unat n) no_cpu) u = Some ((0, ci), v)"
    and "syscall (Sys ''calloc'' [int (unat n)]) t = Some (m, u)" "r_ret m \<noteq> - 1"
    and "replies v = ret ticks # ret 0 # rs'"
  shows "uv_cpu_info s = None"
proof -
  have "read_times fd (unat n) ci v = None"
    using assms(7) by (simp add: read_times_def require_def ret_def Let_def)
  then show ?thesis
    using assms(2-6) by (simp add: uv_cpu_info_def syscall_cons [OF assms(1)] ret_def Let_def)
qed

definition stat_text :: reply where
  "stat_text = (ret 15)\<lparr>r_str := Some (lines_of [''cpu 1'', ''cpu0 1''] @ ''x'')\<rparr>"

theorem cpu_info_aborts_witness:
  "uv_cpu_info (kern_with ([ret 3, stat_text, ret 4096, ret 4, (ret 1)\<lparr>r_str := Some ''x''\<rparr>, ret 0, ret 4097, ret 100, ret 0])) = None"
proof -
  let ?rs = "[ret 4, (ret 1)\<lparr>r_str := Some ''x''\<rparr>, ret 0, ret 4097, ret 100, ret 0]"
  let ?s = "kern_with ([ret 3, stat_text, ret 4096] @ ?rs)"
  have s: "replies ?s = ret 3 # stat_text # ret 4096 # ?rs" by (simp add: kern_with_def)
  define a where "a = ?s\<lparr>replies := stat_text # ret 4096 # ?rs, syscalls := syscalls ?s @ [(Open ''/proc/stat'' O_RDONLY 0, 3)]\<rparr>"
  have "\<exists>t. uv__cpu_num 3 a = Some (Inr (of_nat (length [''cpu0 1''])), t) \<and> replies t = ret 4096 # ?rs"
    by (rule cpu_num_counts_processors [where r = stat_text and first = "''cpu 1''" and rest = "''x''"])
      (auto simp: a_def text_of_def stat_text_def ret_def lines_of_def)
  then obtain t where t: "uv__cpu_num 3 a = Some (Inr 1, t)" "replies t = ret 4096 # ?rs" by auto
  define u where "u = t\<lparr>replies := ?rs, syscalls := syscalls t @ [(Sys ''calloc'' [1], 4096)]\<rparr>"
  have u: "syscall (Sys ''calloc'' [int (unat (1 :: u32))]) t = Some (ret 4096, u)" using t(2) by (simp add: u_def ret_def)
  have l: "models_loop ''x'' 1 0 0 ci v = Some ((0, 0, ci), v)" for ci and v :: kern
    by (subst models_loop.simps, subst models_loop.simps) (simp add: Let_def c_str_def model_marker_def speed_marker_def)
  obtain v ci where v: "read_models 1 (replicate 1 no_cpu) u = Some ((0, ci), v)" "replies v = [ret 100, ret 0]"
    by (simp add: read_models_def u_def text_of_def ret_def l [simplified] uv__strndup_def Let_def)
  show ?thesis
    using cpu_info_aborts [OF s _ _ _ u, where ci = ci and v = v and ticks = 100 and rs' = "[]"] t(1) v by (simp add: a_def ret_def)
qed

section \<open>The list of interfaces\<close>

definition if_entry :: "ifaddrs \<Rightarrow> uv_interface_address_t \<Rightarrow> bool" where
  "if_entry ent a \<longleftrightarrow> ia_name a \<in> {None, Some (ifa_name ent)} \<and> Some (ia_address a) = ifa_addr ent \<and> Some (ia_netmask a) = ifa_netmask ent
     \<and> ia_is_internal a = (ifa_flags ent AND IFF_LOOPBACK \<noteq> 0)"

lemma if_fill_entries:
  assumes "if_fill es acc s = Some (as, t)"
  shows "\<exists>new. as = acc @ new \<and> list_all2 if_entry (filter if_counted es) new \<and> kern.more t = kern.more s
    \<and> (\<exists>cs. map fst (syscalls t) = map fst (syscalls s) @ cs \<and> Freeifaddrs \<notin> set cs)"
  using assms
proof (induction es arbitrary: acc s)
  case Nil
  then show ?case by simp
next
  case (Cons ent es)
  show ?case
  proof (cases "if_counted ent")
    case False
    then have "if_fill es acc s = Some (as, t)" using Cons.prems by (auto simp: if_counted_def split: option.splits if_splits)
    from Cons.IH [OF this] False show ?thesis by simp
  next
    case True
    then obtain a where a: "if_running ent" "ifa_addr ent = Some a" "sa_family a \<noteq> PF_PACKET" by (auto simp: if_counted_def split: option.splits)
    then obtain name u netmask where u: "uv__strdup (ifa_name ent) s = Some (name, u)" "ifa_netmask ent = Some netmask"
      "if_fill es (acc @ [\<lparr>ia_name = name, ia_phys_addr = None, ia_is_internal = (ifa_flags ent AND IFF_LOOPBACK \<noteq> 0), ia_address = a,
         ia_netmask = netmask\<rparr>]) u = Some (as, t)"
      using Cons.prems by (auto simp: Option.bind_eq_Some_conv)
    have n: "name \<in> {None, Some (ifa_name ent)}" "kern.more u = kern.more s"
      "\<exists>c. map fst (syscalls u) = map fst (syscalls s) @ [Malloc c]"
      using u(1) by (auto simp: uv__strdup_def syscall_def split: list.splits if_splits)
    let ?e = "\<lparr>ia_name = name, ia_phys_addr = None, ia_is_internal = (ifa_flags ent AND IFF_LOOPBACK \<noteq> 0), ia_address = a, ia_netmask = netmask\<rparr>"
    from Cons.IH [OF u(3)] obtain new where new: "as = (acc @ [?e]) @ new"
      "list_all2 if_entry (filter if_counted es) new" "kern.more t = kern.more u"
      "\<exists>cs. map fst (syscalls t) = map fst (syscalls u) @ cs \<and> Freeifaddrs \<notin> set cs" by blast
    have "if_entry ent ?e" using a(2) u(2) n(1) by (simp add: if_entry_def)
    then have "list_all2 if_entry (filter if_counted (ent # es)) (?e # new)" using True new(2) by simp
    moreover have "\<exists>cs. map fst (syscalls t) = map fst (syscalls s) @ cs \<and> Freeifaddrs \<notin> set cs"
    proof -
      obtain c cs where "map fst (syscalls u) = map fst (syscalls s) @ [Malloc c]" "map fst (syscalls t) = map fst (syscalls u) @ cs" "Freeifaddrs \<notin> set cs"
        using new(4) n(3) by blast
      then show ?thesis by (intro exI [of _ "Malloc c # cs"]) simp
    qed
    ultimately show ?thesis using new(1,3) n(2) by (intro exI [of _ "?e # new"]) simp
  qed
qed

lemma if_phys_entries:
  assumes "if_phys es as = Some bs" "list_all2 if_entry xs as"
  shows "list_all2 if_entry xs bs"
  using assms
proof (induction es arbitrary: as)
  case Nil
  then show ?case by simp
next
  case (Cons ent es)
  have one: "list_all2 if_entry xs cs" if "if_phys_one ent as = Some cs" for cs
    using that Cons.prems(2) by (fastforce simp: if_phys_one_def if_entry_def list_all2_conv_all_nth split: if_splits)
  show ?case using Cons one by (auto simp: Option.bind_eq_Some_conv split: if_splits)
qed

text \<open>When \<open>uv_interface_addresses\<close> succeeds its result has one entry for each interface that is up and running and
  has an address other than a physical one, in the order of the list, with its address, netmask and name (or null,
  when there was no memory for the name).  The list is then given back, except when the result is empty.\<close>
theorem interfaces_in_order:
  assumes "uv_interface_addresses addrs s = Some (Inr as, t)"
  shows "list_all2 if_entry (filter if_counted addrs) as
    \<and> (Freeifaddrs \<in> set (drop (length (syscalls s)) (map fst (syscalls t))) \<longleftrightarrow> as \<noteq> [])"
proof (cases "filter if_counted addrs = []")
  case True
  then show ?thesis using assms by (auto simp: uv_interface_addresses_def syscall_def split: list.splits if_splits)
next
  case False
  then have "length (filter if_counted addrs) \<noteq> 0" by simp
  then obtain r a m b cs c e d where a: "syscall Getifaddrs s = Some (r, a)"
    "syscall (Sys ''malloc uv_interface_address_t'' [int (length (filter if_counted addrs))]) a = Some (m, b)"
    "if_fill addrs [] b = Some (cs, c)" "if_phys addrs cs = Some as" "syscall Freeifaddrs c = Some (d, t)"
    using assms by (auto simp: uv_interface_addresses_def Option.bind_eq_Some_conv Let_def split: if_splits)
  have e: "list_all2 if_entry (filter if_counted addrs) as" using if_fill_entries [OF a(3)] if_phys_entries [OF a(4)] by auto
  have n: "as \<noteq> []" using e False by (cases as) auto
  obtain xs where xs: "map fst (syscalls c) = map fst (syscalls b) @ xs" using if_fill_entries [OF a(3)] by blast
  have "map fst (syscalls t) = map fst (syscalls s) @ [Getifaddrs, Sys ''malloc uv_interface_address_t'' [int (length (filter if_counted addrs))]] @ xs @ [Freeifaddrs]"
    using a(1,2,5) xs by (auto simp: syscall_def split: list.splits)
  then show ?thesis using e n by simp
qed

definition loopback :: "int \<Rightarrow> ifaddrs" where
  "loopback family = \<lparr>ifa_name = ''lo'', ifa_flags = IFF_UP OR IFF_LOOPBACK OR IFF_RUNNING,
     ifa_addr = Some \<lparr>sa_family = family, sa_port = [], sa_addr = [127, 0, 0, 1], sa_scope = 0\<rparr>,
     ifa_netmask = Some \<lparr>sa_family = family, sa_port = [], sa_addr = [255, 0, 0, 0], sa_scope = 0\<rparr>, ifa_phys = [1, 2, 3, 4, 5, 6]\<rparr>"

theorem interfaces_in_order_witness:
  "\<exists>as t. uv_interface_addresses [loopback 2, loopback 17] (kern_with [ret 0, ret 4096, ret 4097, ret 0]) = Some (Inr as, t) \<and> as \<noteq> []
     \<and> list_all2 if_entry [loopback 2] as"
proof -
  let ?s = "kern_with [ret 0, ret 4096, ret 4097, ret 0]"
  have f: "filter if_counted [loopback 2, loopback 17] = [loopback 2]" by (simp add: if_counted_def if_running_def loopback_def)
  have l: "if_running (loopback k)" "ifa_addr (loopback k) = Some \<lparr>sa_family = k, sa_port = [], sa_addr = [127, 0, 0, 1], sa_scope = 0\<rparr>"
    "ifa_netmask (loopback k) = Some \<lparr>sa_family = k, sa_port = [], sa_addr = [255, 0, 0, 0], sa_scope = 0\<rparr>" "ifa_name (loopback k) = ''lo''" for k
    by (simp_all add: loopback_def if_running_def)
  obtain as t where t: "uv_interface_addresses [loopback 2, loopback 17] ?s = Some (Inr as, t)"
    by (simp add: uv_interface_addresses_def f kern_with_def ret_def uv__strdup_def l if_phys_one_def if_counted_def Let_def)
  from interfaces_in_order [OF t] have "list_all2 if_entry [loopback 2] as" unfolding f by simp
  then show ?thesis using t by auto
qed

end
