(* ===== verification/Tty.thy ===== *)
theory Tty
  imports Addrinfo
begin

text \<open>
  Terminals, \<open>src/unix/tty.cpp\<close>: opening a descriptor that may be a terminal, its modes, its size, and the guess of
  what a descriptor is.  A terminal is a stream, whose other operations are those of \<open>Streams\<close>.  The attributes of
  a terminal are a record; \<open>tcsetattr\<close> is logged with the four words of flags and the control characters.  The lock
  around the saved attributes is the static \<open>termios_spinlock\<close>, set only while \<open>uv_tty_set_mode\<close> is interrupted inside its section.
\<close>

record termios =
  c_iflag :: u32
  c_oflag :: u32
  c_cflag :: u32
  c_lflag :: u32
  c_cc :: "u8 list"

datatype uv_tty_mode_t = UV_TTY_MODE_NORMAL | UV_TTY_MODE_RAW | UV_TTY_MODE_IO

record uv_tty =
  tty_orig_termios :: termios
  tty_mode :: uv_tty_mode_t

record ttloop = adloop +
  ttys :: "addr \<Rightarrow> uv_tty"
  orig_termios_fd :: int
  orig_termios :: termios

definition upd_tty :: "addr \<Rightarrow> (uv_tty \<Rightarrow> uv_tty) \<Rightarrow> 'a ttloop_scheme \<Rightarrow> 'a ttloop_scheme" where
  "upd_tty h f s = s\<lparr>ttys := (ttys s)(h := f (ttys s h))\<rparr>"

abbreviation (input) TCSANOW :: int where "TCSANOW \<equiv> 0"
abbreviation (input) TCSADRAIN :: int where "TCSADRAIN \<equiv> 1"
abbreviation (input) VTIME :: nat where "VTIME \<equiv> 5"
abbreviation (input) VMIN :: nat where "VMIN \<equiv> 6"
abbreviation (input) BRKINT :: u32 where "BRKINT \<equiv> 0x2"
abbreviation (input) INPCK :: u32 where "INPCK \<equiv> 0x10"
abbreviation (input) ISTRIP :: u32 where "ISTRIP \<equiv> 0x20"
abbreviation (input) ICRNL :: u32 where "ICRNL \<equiv> 0x100"
abbreviation (input) IXON :: u32 where "IXON \<equiv> 0x400"
abbreviation (input) ONLCR :: u32 where "ONLCR \<equiv> 0x4"
abbreviation (input) CS8 :: u32 where "CS8 \<equiv> 0x30"
abbreviation (input) ISIG :: u32 where "ISIG \<equiv> 0x1"
abbreviation (input) ICANON :: u32 where "ICANON \<equiv> 0x2"
abbreviation (input) ECHO :: u32 where "ECHO \<equiv> 0x8"
abbreviation (input) IEXTEN :: u32 where "IEXTEN \<equiv> 0x8000"

section \<open>What a descriptor is\<close>

abbreviation (input) S_IFMT :: int where "S_IFMT \<equiv> 61440"
abbreviation (input) S_IFREG :: int where "S_IFREG \<equiv> 32768"
abbreviation (input) S_IFCHR :: int where "S_IFCHR \<equiv> 8192"
abbreviation (input) S_IFIFO :: int where "S_IFIFO \<equiv> 4096"
abbreviation (input) S_IFSOCK :: int where "S_IFSOCK \<equiv> 49152"

text \<open>The kinds of a socket of the given type and address family.\<close>

definition guess_socket :: "int \<Rightarrow> int \<Rightarrow> uv_handle_type" where
  "guess_socket type family =
     (if type = 2 \<and> (family = AF_INET \<or> family = AF_INET6) then UV_UDP
      else if type = 1 \<and> (family = AF_INET \<or> family = AF_INET6) then UV_TCP
      else if type = 1 \<and> family = 1 then UV_NAMED_PIPE
      else UV_UNKNOWN_HANDLE)"

text \<open>The value of the reply is \<open>st_mode\<close>, the option, or the family of the address.\<close>

definition uv_guess_handle :: "int \<Rightarrow> 'a kern_scheme \<Rightarrow> (uv_handle_type \<times> 'a kern_scheme) option" where
  "uv_guess_handle file s =
     (if file < 0 then Some (UV_UNKNOWN_HANDLE, s)
      else do {
        (t, s) \<leftarrow> syscall (Sys ''isatty'' [file]) s;
        if r_ret t \<noteq> 0 then Some (UV_TTY, s)
        else do {
          (f, s) \<leftarrow> syscall (Sys ''fstat'' [file]) s;
          let mode = r_val f AND S_IFMT;
          if r_ret f \<noteq> 0 then Some (UV_UNKNOWN_HANDLE, s)
          else if mode = S_IFREG then Some (UV_FILE, s)
          else if mode = S_IFCHR then Some (UV_FILE, s)
          else if mode = S_IFIFO then Some (UV_NAMED_PIPE, s)
          else if mode \<noteq> S_IFSOCK then Some (UV_UNKNOWN_HANDLE, s)
          else do {
            (q, s) \<leftarrow> syscall (Getsockopt file SOL_SOCKET SO_TYPE) s;
            if r_ret q \<noteq> 0 then Some (UV_UNKNOWN_HANDLE, s)
            else do {
              (n, s) \<leftarrow> syscall (Getsockname file) s;
              Some (if r_ret n \<noteq> 0 then UV_UNKNOWN_HANDLE else guess_socket (r_val q) (r_val n), s)
            }
          }
        }
      })"

section \<open>Opening\<close>

definition uv__tty_is_slave :: "int \<Rightarrow> 'a kern_scheme \<Rightarrow> (bool \<times> 'a kern_scheme) option" where
  "uv__tty_is_slave fd s = do { (r, s) \<leftarrow> syscall (Sys ''ioctl TIOCGPTN'' [fd]) s; Some (r_ret r \<noteq> 0, s) }"

text \<open>\<open>ttyname_r\<close> returns 0 and the name.\<close>

definition tty_reopen :: "int \<Rightarrow> 'a kern_scheme \<Rightarrow> (int \<times> 'a kern_scheme) option" where
  "tty_reopen fd s = do {
     (slave, s) \<leftarrow> uv__tty_is_slave fd s;
     (path, s) \<leftarrow> (if slave then do { (r, s) \<leftarrow> syscall (Sys ''ttyname_r'' [fd]) s; Some (if r_ret r = 0 then r_str r else None, s) }
                  else Some (None, s));
     case path of Some p \<Rightarrow> uv__open_cloexec p O_RDWR s | None \<Rightarrow> Some (- 1, s)
   }"

text \<open>From \<open>skip:\<close> on.\<close>

definition tty_skip :: "addr \<Rightarrow> int \<Rightarrow> bool \<Rightarrow> u32 \<Rightarrow> 'a ttloop_scheme \<Rightarrow> (int \<times> 'a ttloop_scheme) option" where
  "tty_skip h fd readable flags s = do {
     s \<leftarrow> uv__stream_init h UV_TTY s;
     s \<leftarrow> (if flags AND UV_STREAM_BLOCKING = 0 then map_option snd (uv__nonblock fd 1 s) else Some s);
     let flags = (if readable then flags OR UV_STREAM_READABLE else flags OR UV_STREAM_WRITABLE);
     (_, s) \<leftarrow> uv__stream_open h fd flags s;
     Some (0, upd_tty h (\<lambda>t. t\<lparr>tty_mode := UV_TTY_MODE_NORMAL\<rparr>) s)
   }"

definition uv_tty_init :: "addr \<Rightarrow> int \<Rightarrow> bool \<Rightarrow> 'a ttloop_scheme \<Rightarrow> (int \<times> 'a ttloop_scheme) option" where
  "uv_tty_init h fd readable s = do {
     (type, s) \<leftarrow> uv_guess_handle fd s;
     if type = UV_FILE \<or> type = UV_UNKNOWN_HANDLE then Some (- EINVAL, s)
     else if type = UV_TTY then do {
       (newfd, s) \<leftarrow> tty_reopen fd s;
       if newfd < 0 then tty_skip h fd readable (if \<not> readable then UV_STREAM_BLOCKING else 0) s
       else do {
         (r, s) \<leftarrow> uv__dup2_cloexec newfd fd s;
         if r < 0 \<and> r \<noteq> - EINVAL then do { (_, s) \<leftarrow> uv__close newfd s; Some (r, s) }
         else tty_skip h newfd readable 0 s
       }
     }
     else tty_skip h fd readable 0 s
   }"

section \<open>Modes\<close>

text \<open>\<open>cfmakeraw\<close>, by its documentation.\<close>

definition cfmakeraw :: "termios \<Rightarrow> termios" where
  "cfmakeraw t = t\<lparr>c_iflag := c_iflag t AND NOT 0x5EB, c_oflag := c_oflag t AND NOT 0x1, c_lflag := c_lflag t AND NOT 0x804B,
     c_cflag := (c_cflag t AND NOT 0x130) OR CS8\<rparr>"

definition uv__tty_make_raw :: "termios \<Rightarrow> termios" where
  "uv__tty_make_raw tio = cfmakeraw tio"

definition termios_for :: "uv_tty_mode_t \<Rightarrow> termios \<Rightarrow> termios" where
  "termios_for mode tmp =
     (case mode of
        UV_TTY_MODE_NORMAL \<Rightarrow> tmp
      | UV_TTY_MODE_RAW \<Rightarrow> tmp\<lparr>c_iflag := c_iflag tmp AND NOT (BRKINT OR ICRNL OR INPCK OR ISTRIP OR IXON),
          c_oflag := c_oflag tmp OR ONLCR, c_cflag := c_cflag tmp OR CS8,
          c_lflag := c_lflag tmp AND NOT (ECHO OR ICANON OR IEXTEN OR ISIG), c_cc := (c_cc tmp)[VMIN := 1, VTIME := 0]\<rparr>
      | UV_TTY_MODE_IO \<Rightarrow> uv__tty_make_raw tmp)"

abbreviation (input) Tcgetattr :: "int \<Rightarrow> syscall" where "Tcgetattr fd \<equiv> Sys ''tcgetattr'' [fd]"
definition Tcsetattr :: "int \<Rightarrow> int \<Rightarrow> termios \<Rightarrow> syscall" where
  "Tcsetattr fd action t = SysData ''tcsetattr'' [fd, action, uint (c_iflag t), uint (c_oflag t), uint (c_cflag t), uint (c_lflag t)] [c_cc t]"

text \<open>The attributes in the reply to \<open>tcgetattr\<close>: four numbers and the characters.\<close>

definition termios_of :: "reply \<Rightarrow> termios" where
  "termios_of r = \<lparr>c_iflag = of_int (r_nums r ! 0), c_oflag = of_int (r_nums r ! 1), c_cflag = of_int (r_nums r ! 2),
     c_lflag = of_int (r_nums r ! 3), c_cc = r_bytes r\<rparr>"

definition uv_tty_set_mode :: "addr \<Rightarrow> uv_tty_mode_t \<Rightarrow> 'a ttloop_scheme \<Rightarrow> (int \<times> 'a ttloop_scheme) option" where
  "uv_tty_set_mode h mode s =
     (if tty_mode (ttys s h) = mode then Some (0, s)
      else do {
        let fd = uv__stream_fd h s;
        (failed, s) \<leftarrow> (if tty_mode (ttys s h) = UV_TTY_MODE_NORMAL \<and> mode \<noteq> UV_TTY_MODE_NORMAL then do {
            (r, s) \<leftarrow> syscall (Tcgetattr fd) s;
            if r_ret r \<noteq> 0 then Some (True, s)
            else do {
              let s = upd_tty h (\<lambda>t. t\<lparr>tty_orig_termios := termios_of r\<rparr>) s;
              Some (False, if orig_termios_fd s = - 1
                then s\<lparr>orig_termios := tty_orig_termios (ttys s h), orig_termios_fd := fd\<rparr> else s)
            }
          } else Some (False, s));
        if failed then Some (- errno s, s)
        else do {
          let tmp = termios_for mode (tty_orig_termios (ttys s h));
          (r, s) \<leftarrow> syscall (Tcsetattr fd TCSADRAIN tmp) s;
          Some (if r_ret r \<noteq> 0 then (- errno s, s) else (0, upd_tty h (\<lambda>t. t\<lparr>tty_mode := mode\<rparr>) s))
        }
      })"

definition uv_tty_reset_mode :: "'a ttloop_scheme \<Rightarrow> (int \<times> 'a ttloop_scheme) option" where
  "uv_tty_reset_mode s =
     (if statics s ''termios_spinlock'' then Some (- EBUSY, s)
      else do {
        let saved_errno = errno s;
        (err, s) \<leftarrow> (if orig_termios_fd s \<noteq> - 1 then do {
            (r, s) \<leftarrow> syscall (Tcsetattr (orig_termios_fd s) TCSANOW (orig_termios s)) s;
            Some (if r_ret r \<noteq> 0 then - errno s else 0, s)
          } else Some (0, s));
        Some (err, s\<lparr>errno := saved_errno\<rparr>)
      })"

text \<open>The two numbers of the reply are the columns and the rows.\<close>

definition uv_tty_get_winsize :: "addr \<Rightarrow> 'a ttloop_scheme \<Rightarrow> ((int + int \<times> int) \<times> 'a ttloop_scheme) option" where
  "uv_tty_get_winsize h s = do {
     (r, s) \<leftarrow> eintr_loop (Sys ''ioctl TIOCGWINSZ'' [uv__stream_fd h s]) s;
     Some (if r_ret r = - 1 then Inl (- errno s) else Inr (r_nums r ! 0, r_nums r ! 1), s)
   }"

section \<open>Putting a terminal back\<close>

text \<open>
  The kernel's side: the attributes of the terminal behind each descriptor, which a successful
  \<open>tcsetattr\<close> sets and \<open>tcgetattr\<close> reports.
\<close>

definition set_by :: "syscall \<times> int \<Rightarrow> (int \<Rightarrow> termios) \<Rightarrow> int \<Rightarrow> termios" where
  "set_by c a = (case c of
     (SysData name [fd, action, i, u, f, l] [cc], r) \<Rightarrow>
       if name = ''tcsetattr'' \<and> r = 0
       then a(fd := \<lparr>c_iflag = of_int i, c_oflag = of_int u, c_cflag = of_int f, c_lflag = of_int l, c_cc = cc\<rparr>) else a
   | _ \<Rightarrow> a)"

definition attributes :: "(int \<Rightarrow> termios) \<Rightarrow> 'a kern_scheme \<Rightarrow> 'a kern_scheme \<Rightarrow> int \<Rightarrow> termios" where
  "attributes a s t = fold set_by (drop (length (syscalls s)) (syscalls t)) a"

lemma set_by_calls:
  "set_by (Tcgetattr fd, r) a = a" "set_by (Tcsetattr fd action tm, r) a = (if r = 0 then a(fd := tm) else a)"
proof -
  show "set_by (Tcsetattr fd action tm, r) a = (if r = 0 then a(fd := tm) else a)"
    by (cases tm) (simp add: set_by_def Tcsetattr_def)
qed (simp add: set_by_def)

text \<open>
  Mode changes of the terminals \<open>T\<close>, any number of them, in any order and whether or not their calls
  succeed, on a kernel where nothing else changes their attributes.
\<close>

inductive tty_runs :: "addr set \<Rightarrow> (int \<Rightarrow> termios) \<Rightarrow> 'a ttloop_scheme \<Rightarrow> (int \<Rightarrow> termios) \<Rightarrow> 'a ttloop_scheme \<Rightarrow> bool" for T a s where
  tty_unchanged: "tty_runs T a s a s"
| tty_change: "tty_runs T a s b t \<Longrightarrow> h \<in> T \<Longrightarrow> uv_tty_set_mode h m t = Some (e, u) \<Longrightarrow>
    (\<And>g rs. tty_mode (ttys t h) = UV_TTY_MODE_NORMAL \<Longrightarrow> m \<noteq> UV_TTY_MODE_NORMAL \<Longrightarrow> replies t = g # rs \<Longrightarrow> r_ret g = 0
      \<Longrightarrow> termios_of g = b (uv__stream_fd h t)) \<Longrightarrow>
    tty_runs T a s (attributes b t u) u"

text \<open>
  What holds throughout: a terminal in its normal mode has its own attributes, those of another have been
  saved in its handle, and the attributes saved for \<open>uv_tty_reset_mode\<close> are those of the first terminal.
\<close>

definition tty_ok :: "addr set \<Rightarrow> (int \<Rightarrow> termios) \<Rightarrow> 'a ttloop_scheme \<Rightarrow> (int \<Rightarrow> termios) \<Rightarrow> 'a ttloop_scheme \<Rightarrow> bool" where
  "tty_ok T a s b t \<longleftrightarrow> (\<forall>h. uv__stream_fd h t = uv__stream_fd h s)
     \<and> (\<forall>h \<in> T. if tty_mode (ttys t h) = UV_TTY_MODE_NORMAL then b (uv__stream_fd h s) = a (uv__stream_fd h s)
          else tty_orig_termios (ttys t h) = a (uv__stream_fd h s))
     \<and> (if orig_termios_fd t = - 1 then \<forall>h \<in> T. tty_mode (ttys t h) = UV_TTY_MODE_NORMAL
        else orig_termios t = a (orig_termios_fd t) \<and> (\<exists>h \<in> T. orig_termios_fd t = uv__stream_fd h s))
     \<and> statics t = statics s"

lemma kern_stream_fd: "uv__stream_fd h (s\<lparr>replies := p, syscalls := q, errno := e\<rparr>) = uv__stream_fd h s"
  by (simp add: uv__stream_fd_def)

lemma upd_tty_fd: "uv__stream_fd k (upd_tty h f s) = uv__stream_fd k s"
  by (simp add: upd_tty_def uv__stream_fd_def)

text \<open>The two halves of a change: saving the attributes, and applying the mode.\<close>

definition tty_save :: "addr \<Rightarrow> int \<Rightarrow> reply \<Rightarrow> 'a ttloop_scheme \<Rightarrow> 'a ttloop_scheme" where
  "tty_save h fd r s = (let s = upd_tty h (\<lambda>t. t\<lparr>tty_orig_termios := termios_of r\<rparr>) s in
     if orig_termios_fd s = - 1 then s\<lparr>orig_termios := tty_orig_termios (ttys s h), orig_termios_fd := fd\<rparr> else s)"

definition tty_apply :: "addr \<Rightarrow> int \<Rightarrow> uv_tty_mode_t \<Rightarrow> 'a ttloop_scheme \<Rightarrow> (int \<times> 'a ttloop_scheme) option" where
  "tty_apply h fd m s = Option.bind (syscall (Tcsetattr fd TCSADRAIN (termios_for m (tty_orig_termios (ttys s h)))) s)
     (\<lambda>(r, s). Some (if r_ret r \<noteq> 0 then (- errno s, s) else (0, upd_tty h (\<lambda>t. t\<lparr>tty_mode := m\<rparr>) s)))"

lemma set_mode_halves:
  assumes "tty_mode (ttys s h) \<noteq> m"
  shows "uv_tty_set_mode h m s =
    (if tty_mode (ttys s h) = UV_TTY_MODE_NORMAL
     then Option.bind (syscall (Tcgetattr (uv__stream_fd h s)) s) (\<lambda>(r, u). if r_ret r \<noteq> 0 then Some (- errno u, u)
       else tty_apply h (uv__stream_fd h s) m (tty_save h (uv__stream_fd h s) r u))
     else tty_apply h (uv__stream_fd h s) m s)"
  using assms by (auto simp: uv_tty_set_mode_def tty_apply_def tty_save_def Let_def split: option.splits prod.splits intro!: Option.bind_cong)

lemma tty_apply_ok:
  assumes ok: "tty_ok T a s b v" and h: "h \<in> T" "inj_on (\<lambda>h. uv__stream_fd h s) T"
    and saved: "tty_orig_termios (ttys v h) = a (uv__stream_fd h s)" "m \<noteq> UV_TTY_MODE_NORMAL \<Longrightarrow> orig_termios_fd v \<noteq> - 1"
    and run: "tty_apply h (uv__stream_fd h s) m v = Some (e, u)"
  shows "tty_ok T a s (attributes b v u) u"
proof -
  let ?fd = "uv__stream_fd h s"
  have others: "uv__stream_fd k s \<noteq> ?fd" if "k \<in> T" "k \<noteq> h" for k using h that by (auto dest: inj_onD)
  obtain r x where x: "syscall (Tcsetattr ?fd TCSADRAIN (termios_for m (a ?fd))) v = Some (r, x)"
    "u = (if r_ret r \<noteq> 0 then x else upd_tty h (\<lambda>t. t\<lparr>tty_mode := m\<rparr>) x)"
  proof -
    let ?c = "syscall (Tcsetattr ?fd TCSADRAIN (termios_for m (a ?fd))) v"
    have "?c \<noteq> None" using run saved(1) by (cases ?c) (simp_all add: tty_apply_def)
    then obtain r x where c: "?c = Some (r, x)" by auto
    with run saved(1) have "(if r_ret r \<noteq> 0 then (- errno x, x) else (0, upd_tty h (\<lambda>t. t\<lparr>tty_mode := m\<rparr>) x)) = (e, u)"
      by (simp add: tty_apply_def)
    then show thesis using that [OF c] by (cases "r_ret r = 0") simp_all
  qed
  from x(1) obtain rs q en where k: "x = v\<lparr>replies := rs, syscalls := syscalls v @ [(Tcsetattr ?fd TCSADRAIN (termios_for m (a ?fd)), r_ret r)], errno := en\<rparr>"
    by (auto simp: syscall_def split: list.splits)
  have okx: "tty_ok T a s b x" "tty_orig_termios (ttys x h) = a ?fd" "orig_termios_fd x = orig_termios_fd v"
    "syscalls x = syscalls v @ [(Tcsetattr ?fd TCSADRAIN (termios_for m (a ?fd)), r_ret r)]"
    using ok saved(1) by (simp_all add: k tty_ok_def kern_stream_fd)
  show ?thesis
  proof (cases "r_ret r = 0")
    case False
    then show ?thesis using okx x(2) by (simp add: attributes_def set_by_calls)
  next
    case True
    have u: "ttys u = (ttys x)(h := (ttys x h)\<lparr>tty_mode := m\<rparr>)" "orig_termios u = orig_termios x" "orig_termios_fd u = orig_termios_fd x"
      "statics u = statics x" "syscalls u = syscalls x" "uv__stream_fd k u = uv__stream_fd k x" for k
      using True x(2) by (simp_all add: upd_tty_def uv__stream_fd_def)
    have "attributes b v u = b(?fd := termios_for m (a ?fd))" using True okx(4) by (simp add: attributes_def u set_by_calls)
    then show ?thesis using okx(1-3) saved(2) h(1) others unfolding tty_ok_def u by (auto simp: termios_for_def)
  qed
qed

lemma set_mode_tty_ok:
  assumes ok: "tty_ok T a s b t" and h: "h \<in> T" and run: "uv_tty_set_mode h m t = Some (e, u)"
    and inj: "inj_on (\<lambda>h. uv__stream_fd h s) T" and fd: "\<forall>h \<in> T. uv__stream_fd h s \<ge> 0"
    and got: "\<And>g rs. tty_mode (ttys t h) = UV_TTY_MODE_NORMAL \<Longrightarrow> m \<noteq> UV_TTY_MODE_NORMAL \<Longrightarrow> replies t = g # rs \<Longrightarrow> r_ret g = 0
      \<Longrightarrow> termios_of g = b (uv__stream_fd h t)"
  shows "tty_ok T a s (attributes b t u) u"
proof (cases "tty_mode (ttys t h) = m")
  case True
  then show ?thesis using ok run by (simp add: uv_tty_set_mode_def attributes_def)
next
  case False
  let ?fd = "uv__stream_fd h s"
  have f: "uv__stream_fd h t = ?fd" using ok by (simp add: tty_ok_def)
  note halves = set_mode_halves [OF False, unfolded f]
  show ?thesis
  proof (cases "tty_mode (ttys t h) = UV_TTY_MODE_NORMAL")
    case normal: True
    with False have m: "m \<noteq> UV_TTY_MODE_NORMAL" by simp
    from run halves normal obtain g x where x: "syscall (Tcgetattr ?fd) t = Some (g, x)"
      "(if r_ret g \<noteq> 0 then Some (- errno x, x) else tty_apply h ?fd m (tty_save h ?fd g x)) = Some (e, u)"
      by (auto simp: Option.bind_eq_Some_conv)
    from x(1) obtain rs en where k: "replies t = g # rs"
      "x = t\<lparr>replies := rs, syscalls := syscalls t @ [(Tcgetattr ?fd, r_ret g)], errno := en\<rparr>"
      by (auto simp: syscall_def split: list.splits)
    have okx: "tty_ok T a s b x" "syscalls x = syscalls t @ [(Tcgetattr ?fd, r_ret g)]" "tty_mode (ttys x h) = UV_TTY_MODE_NORMAL"
      using ok normal by (simp_all add: k(2) tty_ok_def kern_stream_fd)
    show ?thesis
    proof (cases "r_ret g = 0")
      case failed: False
      then show ?thesis using okx x(2) by (simp add: attributes_def set_by_calls)
    next
      case True
      have tm: "termios_of g = a ?fd" using got [OF normal m k(1) True] ok h normal f by (simp add: tty_ok_def)
      define v where "v = tty_save h ?fd g x"
      have v: "ttys v = (ttys x)(h := (ttys x h)\<lparr>tty_orig_termios := a ?fd\<rparr>)" "statics v = statics x" "syscalls v = syscalls x"
        "uv__stream_fd k v = uv__stream_fd k x" "orig_termios_fd v = (if orig_termios_fd x = - 1 then ?fd else orig_termios_fd x)"
        "orig_termios v = (if orig_termios_fd x = - 1 then a ?fd else orig_termios x)" for k
        by (simp_all add: v_def tty_save_def Let_def upd_tty_def tm uv__stream_fd_def)
      have "?fd \<noteq> - 1" using fd h by force
      then have okv: "tty_ok T a s b v" "orig_termios_fd v \<noteq> - 1" using okx(1,3) h unfolding tty_ok_def v by auto
      have "tty_apply h ?fd m v = Some (e, u)" using x(2) True by (simp add: v_def)
      from tty_apply_ok [OF okv(1) h inj _ _ this] okv(2) have "tty_ok T a s (attributes b v u) u" by (simp add: v)
      moreover have "attributes b v u = attributes b t u"
      proof -
        obtain calls where "syscalls u = syscalls v @ calls"
          using \<open>tty_apply h ?fd m v = Some (e, u)\<close> by (auto simp: tty_apply_def syscall_def upd_tty_def split: list.splits if_splits)
        then show ?thesis using okx(2) by (simp add: attributes_def v set_by_calls)
      qed
      ultimately show ?thesis by simp
    qed
  next
    case other: False
    have "tty_orig_termios (ttys t h) = a ?fd" "orig_termios_fd t \<noteq> - 1"
      using ok h other by (auto simp: tty_ok_def split: if_splits)
    then show ?thesis using tty_apply_ok [OF ok h inj] run halves other by simp
  qed
qed

lemma tty_runs_ok:
  assumes "tty_runs T a s b t" "\<forall>h \<in> T. tty_mode (ttys s h) = UV_TTY_MODE_NORMAL" "orig_termios_fd s = - 1"
    "inj_on (\<lambda>h. uv__stream_fd h s) T" "\<forall>h \<in> T. uv__stream_fd h s \<ge> 0"
  shows "tty_ok T a s b t"
  using assms(1)
proof induction
  case tty_unchanged
  then show ?case using assms(2,3) by (simp add: tty_ok_def)
next
  case (tty_change b t h m e u)
  show ?case by (rule set_mode_tty_ok [OF tty_change.IH tty_change.hyps(2,3) assms(4,5)]) (rule tty_change.hyps(4))
qed

text \<open>C30: Terminals can be put back.  Let the modes of terminals, in their normal mode at first and with descriptors
  of their own, be changed any number of times, back to the normal mode included, and whether the calls succeed or
  not, while nothing else changes their attributes.  Then, if \<open>tcsetattr\<close> succeeds, a change of any of them to the normal
  mode leaves it with the attributes it had before the first change; and \<open>uv_tty_reset_mode\<close> does the same for the
  terminal whose attributes were read first.  If none were read, all terminals are in their normal mode and have
  their attributes.\<close>
theorem tty_modes_undone:
  assumes "tty_runs T a s b t" "\<forall>h \<in> T. tty_mode (ttys s h) = UV_TTY_MODE_NORMAL" "orig_termios_fd s = - 1"
    "inj_on (\<lambda>h. uv__stream_fd h s) T" "\<forall>h \<in> T. uv__stream_fd h s \<ge> 0" "\<not> statics s ''termios_spinlock''"
    and "replies t = r # rs" "r_ret r = 0"
  shows "(\<forall>h \<in> T. \<exists>u. uv_tty_set_mode h UV_TTY_MODE_NORMAL t = Some (0, u) \<and> tty_mode (ttys u h) = UV_TTY_MODE_NORMAL
        \<and> attributes b t u (uv__stream_fd h s) = a (uv__stream_fd h s))
    \<and> (if orig_termios_fd t = - 1 then \<forall>h \<in> T. tty_mode (ttys t h) = UV_TTY_MODE_NORMAL \<and> b (uv__stream_fd h s) = a (uv__stream_fd h s)
       else (\<exists>h \<in> T. orig_termios_fd t = uv__stream_fd h s)
         \<and> (\<exists>u. uv_tty_reset_mode t = Some (0, u) \<and> attributes b t u (orig_termios_fd t) = a (orig_termios_fd t)))"
proof -
  note ok = tty_runs_ok [OF assms(1-5)]
  have f: "uv__stream_fd k t = uv__stream_fd k s" for k using ok by (simp add: tty_ok_def)
  have "\<exists>u. uv_tty_set_mode h UV_TTY_MODE_NORMAL t = Some (0, u) \<and> tty_mode (ttys u h) = UV_TTY_MODE_NORMAL
      \<and> attributes b t u (uv__stream_fd h s) = a (uv__stream_fd h s)" if "h \<in> T" for h
    using ok that assms(7,8) f
    by (cases "tty_mode (ttys t h) = UV_TTY_MODE_NORMAL")
      (auto simp: tty_ok_def uv_tty_set_mode_def attributes_def set_by_calls syscall_cons Let_def upd_tty_def termios_for_def)
  moreover have "\<exists>u. uv_tty_reset_mode t = Some (0, u) \<and> attributes b t u (orig_termios_fd t) = a (orig_termios_fd t)"
    if "orig_termios_fd t \<noteq> - 1"
    using ok that assms(6-8) by (simp add: tty_ok_def uv_tty_reset_mode_def attributes_def set_by_calls syscall_cons Let_def)
  ultimately show ?thesis using ok by (auto simp: tty_ok_def split: if_splits)
qed

definition terminal :: "reply list \<Rightarrow> unit ttloop_scheme" where
  "terminal rs = fs_loop rs (fs_request []) (fploop_ext (\<lambda>_. \<lparr>pc_parent = None, pc_busy = 0, pc_interval = 1, pc_start_time = 0,
      pc_statbuf = zero_statbuf, pc_path = []\<rparr>) (\<lambda>_. None)
     (inloop_ext (\<lambda>_. None) [] (\<lambda>_. \<lparr>fe_cb = True, fe_path = None, fe_wd = - 1\<rparr>)
     (adloop_ext (\<lambda>_. \<lparr>ai_cb = True, ai_hints = None, ai_service = None, ai_hostname = None, ai_addrinfo = 0, ai_retcode = 0\<rparr>)
       (\<lambda>_. \<lparr>ni_cb = True, ni_storage = \<lparr>sa_family = AF_INET, sa_port = [0, 53], sa_addr = [10, 0, 0, 1], sa_scope = 0\<rparr>, ni_flags = 0,
          ni_host = [], ni_service = [], ni_retcode = 0\<rparr>) []
     (ttloop_ext (\<lambda>_. \<lparr>tty_orig_termios = \<lparr>c_iflag = 0, c_oflag = 0, c_cflag = 0, c_lflag = 0, c_cc = []\<rparr>, tty_mode = UV_TTY_MODE_NORMAL\<rparr>)
       (- 1) \<lparr>c_iflag = 0, c_oflag = 0, c_cflag = 0, c_lflag = 0, c_cc = []\<rparr> ()))))"

text \<open>Raw, normal and raw again.\<close>

theorem tty_modes_undone_witness:
  "\<exists>b t u. tty_runs {7} (\<lambda>_. \<lparr>c_iflag = 0x500, c_oflag = 5, c_cflag = 0xBF, c_lflag = 0x8A3B, c_cc = replicate 32 3\<rparr>)
      (terminal [(ret 0)\<lparr>r_nums := [0x500, 5, 0xBF, 0x8A3B], r_bytes := replicate 32 3\<rparr>, ret 0, ret 0,
        (ret 0)\<lparr>r_nums := [0x500, 5, 0xBF, 0x8A3B], r_bytes := replicate 32 3\<rparr>, ret 0, ret 0]) b t
    \<and> tty_mode (ttys t 7) = UV_TTY_MODE_RAW
    \<and> uv_tty_reset_mode t = Some (0, u)
    \<and> attributes b t u 7 = \<lparr>c_iflag = 0x500, c_oflag = 5, c_cflag = 0xBF, c_lflag = 0x8A3B, c_cc = replicate 32 3\<rparr>"
proof -
  let ?g = "(ret 0)\<lparr>r_nums := [0x500, 5, 0xBF, 0x8A3B], r_bytes := replicate 32 3\<rparr>"
  define tm :: termios where "tm = \<lparr>c_iflag = 0x500, c_oflag = 5, c_cflag = 0xBF, c_lflag = 0x8A3B, c_cc = replicate 32 3\<rparr>"
  define s where "s = terminal [?g, ret 0, ret 0, ?g, ret 0, ret 0]"
  have s: "replies s = [?g, ret 0, ret 0, ?g, ret 0, ret 0]" "tty_mode (ttys s h) = UV_TTY_MODE_NORMAL" "orig_termios_fd s = - 1"
    "uv__stream_fd h s = 7" "\<not> statics s x" for h x
    by (simp_all add: s_def terminal_def fs_loop_defs uv__stream_fd_def)
  have g: "termios_of ?g = tm" "r_ret ?g = 0" "r_ret (ret 0) = 0" by (simp_all add: termios_of_def tm_def ret_def)
  obtain t1 where t1: "uv_tty_set_mode 7 UV_TTY_MODE_RAW s = Some (0, t1)" "replies t1 = [ret 0, ?g, ret 0, ret 0]"
    "tty_mode (ttys t1 7) = UV_TTY_MODE_RAW" "orig_termios_fd t1 = 7" "uv__stream_fd 7 t1 = 7"
    using s(4) [of 7] by (simp add: uv_tty_set_mode_def s upd_tty_def syscall_cons Let_def g uv__stream_fd_def)
  obtain t2 where t2: "uv_tty_set_mode 7 UV_TTY_MODE_NORMAL t1 = Some (0, t2)" "replies t2 = [?g, ret 0, ret 0]"
    "tty_mode (ttys t2 7) = UV_TTY_MODE_NORMAL" "orig_termios_fd t2 = 7" "uv__stream_fd 7 t2 = 7"
    using t1(2-5) by (simp add: uv_tty_set_mode_def upd_tty_def syscall_cons Let_def g uv__stream_fd_def)
  obtain t3 where t3: "uv_tty_set_mode 7 UV_TTY_MODE_RAW t2 = Some (0, t3)" "replies t3 = [ret 0]"
    "tty_mode (ttys t3 7) = UV_TTY_MODE_RAW" "orig_termios_fd t3 = 7"
    using t2(2-5) by (simp add: uv_tty_set_mode_def upd_tty_def syscall_cons Let_def g uv__stream_fd_def)
  let ?a = "\<lambda>_. tm"
  have r1: "tty_runs {7} ?a s (attributes ?a s t1) t1"
    by (rule tty_change [OF tty_unchanged _ t1(1)]) (auto simp: s(1) g(1))
  have r2: "tty_runs {7} ?a s (attributes (attributes ?a s t1) t1 t2) t2"
    by (rule tty_change [OF r1 _ t2(1)]) (auto simp: t1(3))
  have "inj_on (\<lambda>h. uv__stream_fd h s) {7}" by simp
  have restored: "tty_ok {7} ?a s (attributes (attributes ?a s t1) t1 t2) t2" using s by (intro tty_runs_ok [OF r2]) simp_all
  then have "attributes (attributes ?a s t1) t1 t2 7 = tm" using t2(3) s(4) [of 7] by (simp add: tty_ok_def)
  then have r3: "tty_runs {7} ?a s (attributes (attributes (attributes ?a s t1) t1 t2) t2 t3) t3"
    by (intro tty_change [OF r2 _ t3(1)]) (auto simp: t2(2,5) g(1))
  from tty_modes_undone [OF r3 _ s(3) _ _ s(5) t3(2) g(3)] s(2,4) t3(4)
  obtain u where "uv_tty_reset_mode t3 = Some (0, u)" "attributes (attributes (attributes (attributes ?a s t1) t1 t2) t2 t3) t3 u 7 = tm"
    by auto
  with r3 t3(3) show ?thesis unfolding tm_def s_def by blast
qed

end
