(* ===== verification/Threads.thy ===== *)
theory Threads
  imports Event_Loop
begin

text \<open>
  \<open>src/unix/thread.cpp\<close> and \<open>src/unix/pthread-fixes.cpp\<close>: the wrappers of the POSIX threads.  The
  functions of the threads library return an error number, the reply of the call; the objects are
  named by their addresses.  A wrapper that aborts has no result.  The mutexes and read-write locks
  of a loop are initialised and destroyed in \<open>Event_Loop\<close>; the barriers are in \<open>Barrier\<close>.
\<close>

section \<open>Calls that return an error and calls that must succeed\<close>

definition negated :: "string \<Rightarrow> int list \<Rightarrow> 'a kern_scheme \<Rightarrow> (int \<times> 'a kern_scheme) option" where
  "negated name args s = do { (r, s) \<leftarrow> syscall (Sys name args) s; Some (- r_ret r, s) }"

abbreviation (input) or_abort :: "string \<Rightarrow> int list \<Rightarrow> 'a kern_scheme \<Rightarrow> 'a kern_scheme option" where
  "or_abort name args \<equiv> rwlock (Sys name args)"

text \<open>The functions named \<open>try\<close>: busy is an answer.\<close>

definition try_call :: "string \<Rightarrow> int list \<Rightarrow> 'a kern_scheme \<Rightarrow> (int \<times> 'a kern_scheme) option" where
  "try_call name args s = do {
     (err, s) \<leftarrow> syscall (Sys name args) s;
     if r_ret err \<noteq> 0 then do {
       require (r_ret err = EBUSY \<or> r_ret err = EAGAIN);
       Some (- EBUSY, s)
     } else Some (0, s)
   }"

section \<open>Threads\<close>

definition uv_thread_create :: "int \<Rightarrow> int \<Rightarrow> 'a kern_scheme \<Rightarrow> (int \<times> 'a kern_scheme) option" where
  "uv_thread_create entry arg s = negated ''pthread_create'' [entry, arg] s"

definition uv_thread_self :: "'a kern_scheme \<Rightarrow> (int \<times> 'a kern_scheme) option" where
  "uv_thread_self s = do { (r, s) \<leftarrow> syscall (Sys ''pthread_self'' []) s; Some (r_ret r, s) }"

definition uv_thread_join :: "int \<Rightarrow> 'a kern_scheme \<Rightarrow> (int \<times> 'a kern_scheme) option" where
  "uv_thread_join tid s = negated ''pthread_join'' [tid] s"

definition uv_thread_equal :: "int \<Rightarrow> int \<Rightarrow> 'a kern_scheme \<Rightarrow> (int \<times> 'a kern_scheme) option" where
  "uv_thread_equal t1 t2 s = do { (r, s) \<leftarrow> syscall (Sys ''pthread_equal'' [t1, t2]) s; Some (r_ret r, s) }"

text \<open>\<open>pthread_once\<close> calls the function once for a guard; the guard is a static variable.\<close>

definition uv_once :: "string \<Rightarrow> ('a kern_scheme \<Rightarrow> 'a kern_scheme option) \<Rightarrow> 'a kern_scheme \<Rightarrow> 'a kern_scheme option" where
  "uv_once guard callback s = do {
     s \<leftarrow> or_abort ''pthread_once'' [] s;
     if statics s guard then Some s else callback (set_static guard s)
   }"

section \<open>Mutexes, read-write locks\<close>

definition uv_mutex_lock :: "int \<Rightarrow> 'a kern_scheme \<Rightarrow> 'a kern_scheme option" where
  "uv_mutex_lock mutex s = or_abort ''pthread_mutex_lock'' [mutex] s"

definition uv_mutex_trylock :: "int \<Rightarrow> 'a kern_scheme \<Rightarrow> (int \<times> 'a kern_scheme) option" where
  "uv_mutex_trylock mutex s = try_call ''pthread_mutex_trylock'' [mutex] s"

definition uv_mutex_unlock :: "int \<Rightarrow> 'a kern_scheme \<Rightarrow> 'a kern_scheme option" where
  "uv_mutex_unlock mutex s = or_abort ''pthread_mutex_unlock'' [mutex] s"

definition uv_rwlock_rdlock :: "int \<Rightarrow> 'a kern_scheme \<Rightarrow> 'a kern_scheme option" where
  "uv_rwlock_rdlock l s = or_abort ''pthread_rwlock_rdlock'' [l] s"

definition uv_rwlock_tryrdlock :: "int \<Rightarrow> 'a kern_scheme \<Rightarrow> (int \<times> 'a kern_scheme) option" where
  "uv_rwlock_tryrdlock l s = try_call ''pthread_rwlock_tryrdlock'' [l] s"

definition uv_rwlock_rdunlock :: "int \<Rightarrow> 'a kern_scheme \<Rightarrow> 'a kern_scheme option" where
  "uv_rwlock_rdunlock l s = or_abort ''pthread_rwlock_unlock'' [l] s"

definition uv_rwlock_wrlock :: "int \<Rightarrow> 'a kern_scheme \<Rightarrow> 'a kern_scheme option" where
  "uv_rwlock_wrlock l s = or_abort ''pthread_rwlock_wrlock'' [l] s"

definition uv_rwlock_trywrlock :: "int \<Rightarrow> 'a kern_scheme \<Rightarrow> (int \<times> 'a kern_scheme) option" where
  "uv_rwlock_trywrlock l s = try_call ''pthread_rwlock_trywrlock'' [l] s"

definition uv_rwlock_wrunlock :: "int \<Rightarrow> 'a kern_scheme \<Rightarrow> 'a kern_scheme option" where
  "uv_rwlock_wrunlock l s = or_abort ''pthread_rwlock_unlock'' [l] s"

section \<open>Semaphores\<close>

definition uv_sem_init :: "int \<Rightarrow> u32 \<Rightarrow> 'a kern_scheme \<Rightarrow> (int \<times> 'a kern_scheme) option" where
  "uv_sem_init sem v s = do {
     (r, s) \<leftarrow> syscall (Sys ''sem_init'' [sem, 0, uint v]) s;
     Some (if r_ret r \<noteq> 0 then - errno s else 0, s)
   }"

definition uv_sem_destroy :: "int \<Rightarrow> 'a kern_scheme \<Rightarrow> 'a kern_scheme option" where
  "uv_sem_destroy sem s = or_abort ''sem_destroy'' [sem] s"

definition uv_sem_post :: "int \<Rightarrow> 'a kern_scheme \<Rightarrow> 'a kern_scheme option" where
  "uv_sem_post sem s = or_abort ''sem_post'' [sem] s"

definition uv_sem_wait :: "int \<Rightarrow> 'a kern_scheme \<Rightarrow> 'a kern_scheme option" where
  "uv_sem_wait sem s = do {
     (r, s) \<leftarrow> eintr_loop (Sys ''sem_wait'' [sem]) s;
     require (r_ret r = 0);
     Some s
   }"

definition uv_sem_trywait :: "int \<Rightarrow> 'a kern_scheme \<Rightarrow> (int \<times> 'a kern_scheme) option" where
  "uv_sem_trywait sem s = do {
     (r, s) \<leftarrow> eintr_loop (Sys ''sem_trywait'' [sem]) s;
     if r_ret r \<noteq> 0 then do { require (errno s = EAGAIN); Some (- EAGAIN, s) }
     else Some (0, s)
   }"

section \<open>Condition variables\<close>

definition uv_cond_init :: "int \<Rightarrow> 'a kern_scheme \<Rightarrow> (int \<times> 'a kern_scheme) option" where
  "uv_cond_init cond s = do {
     (err, s) \<leftarrow> syscall (Sys ''pthread_condattr_init'' []) s;
     if r_ret err \<noteq> 0 then Some (- r_ret err, s)
     else do {
       (err, s) \<leftarrow> syscall (Sys ''pthread_cond_init'' [cond]) s;
       if r_ret err \<noteq> 0 then do {
         (_, s) \<leftarrow> syscall (Sys ''pthread_condattr_destroy'' []) s;
         Some (- r_ret err, s)
       } else do {
         (err, s) \<leftarrow> syscall (Sys ''pthread_condattr_destroy'' []) s;
         if r_ret err \<noteq> 0 then do {
           (_, s) \<leftarrow> syscall (Sys ''pthread_cond_destroy'' [cond]) s;
           (_, s) \<leftarrow> syscall (Sys ''pthread_condattr_destroy'' []) s;
           Some (- r_ret err, s)
         } else Some (0, s)
       }
     }
   }"

definition uv_cond_destroy :: "int \<Rightarrow> 'a kern_scheme \<Rightarrow> 'a kern_scheme option" where
  "uv_cond_destroy cond s = or_abort ''pthread_cond_destroy'' [cond] s"

definition cond_signal :: "int \<Rightarrow> 'a kern_scheme \<Rightarrow> 'a kern_scheme option" where
  "cond_signal cond s = or_abort ''pthread_cond_signal'' [cond] s"

definition uv_cond_broadcast :: "int \<Rightarrow> 'a kern_scheme \<Rightarrow> 'a kern_scheme option" where
  "uv_cond_broadcast cond s = or_abort ''pthread_cond_broadcast'' [cond] s"

definition uv_cond_wait :: "int \<Rightarrow> int \<Rightarrow> 'a kern_scheme \<Rightarrow> 'a kern_scheme option" where
  "uv_cond_wait cond mutex s = or_abort ''pthread_cond_wait'' [cond, mutex] s"

text \<open>The deadline is a number of nanoseconds of the clock of \<open>uv__hrtime\<close>, in 64 bits.\<close>

abbreviation (input) NANOSEC :: u64 where "NANOSEC \<equiv> 1000000000"

definition uv_cond_timedwait :: "int \<Rightarrow> int \<Rightarrow> u64 \<Rightarrow> 'a kern_scheme \<Rightarrow> (int \<times> 'a kern_scheme) option" where
  "uv_cond_timedwait cond mutex timeout s = do {
     (now, s) \<leftarrow> uv__hrtime UV_CLOCK_PRECISE s;
     let timeout = timeout + now;
     (r, s) \<leftarrow> syscall (Sys ''pthread_cond_timedwait'' [cond, mutex, uint (timeout div NANOSEC), uint (timeout mod NANOSEC)]) s;
     if r_ret r = 0 then Some (0, s)
     else do {
       require (r_ret r = ETIMEDOUT);
       Some (- ETIMEDOUT, s)
     }
   }"

section \<open>Thread-local keys\<close>

definition uv_key_create :: "'a kern_scheme \<Rightarrow> (int \<times> 'a kern_scheme) option" where
  "uv_key_create s = negated ''pthread_key_create'' [] s"

definition uv_key_delete :: "int \<Rightarrow> 'a kern_scheme \<Rightarrow> 'a kern_scheme option" where
  "uv_key_delete key s = or_abort ''pthread_key_delete'' [key] s"

definition uv_key_get :: "int \<Rightarrow> 'a kern_scheme \<Rightarrow> (int \<times> 'a kern_scheme) option" where
  "uv_key_get key s = do { (r, s) \<leftarrow> syscall (Sys ''pthread_getspecific'' [key]) s; Some (r_ret r, s) }"

definition uv_key_set :: "int \<Rightarrow> int \<Rightarrow> 'a kern_scheme \<Rightarrow> 'a kern_scheme option" where
  "uv_key_set key val s = or_abort ''pthread_setspecific'' [key, val] s"

section \<open>The signal mask\<close>

text \<open>\<open>src/unix/pthread-fixes.cpp\<close>; the static \<open>workaround\<close> remembers that \<open>pthread_sigmask\<close> is broken.\<close>

definition uv__pthread_sigmask :: "int \<Rightarrow> 'a kern_scheme \<Rightarrow> (int \<times> 'a kern_scheme) option" where
  "uv__pthread_sigmask how s =
     (if statics s ''workaround'' then do {
        (r, s) \<leftarrow> syscall (Sys ''sigprocmask'' [how]) s;
        Some (r_ret r, s)
      } else do {
        (err, s) \<leftarrow> syscall (Sys ''pthread_sigmask'' [how]) s;
        if r_ret err = 0 then Some (0, s)
        else if r_ret err = EINVAL then do {
          (r, s) \<leftarrow> syscall (Sys ''sigprocmask'' [how]) s;
          if r_ret r = 0 then Some (0, set_static ''workaround'' s) else Some (- 1, s)
        } else Some (- 1, s)
      })"

section \<open>Spin locks\<close>

text \<open>
  \<open>src/unix/spinlock.h\<close> and \<open>cmpxchgi\<close> of \<open>src/unix/atomic-ops.h\<close>.  The atomic operation is the system's:
  \<open>cas v old new\<close> is what it returns and leaves in a cell with the value \<open>v\<close>.
\<close>

definition cmpxchgi :: "(u32 \<Rightarrow> u32 \<Rightarrow> u32 \<Rightarrow> u32 \<times> u32) \<Rightarrow> u32 \<Rightarrow> u32 \<Rightarrow> u32 \<Rightarrow> u32 \<times> u32" where
  "cmpxchgi cas ptr oldval newval = cas ptr oldval newval"

definition uv_spinlock_init :: "u32 \<Rightarrow> u32" where
  "uv_spinlock_init lck = 0"

definition uv_spinlock_unlock :: "u32 \<Rightarrow> u32" where
  "uv_spinlock_unlock lck = 0"

definition uv_spinlock_trylock :: "(u32 \<Rightarrow> u32 \<Rightarrow> u32 \<Rightarrow> u32 \<times> u32) \<Rightarrow> u32 \<Rightarrow> bool \<times> u32" where
  "uv_spinlock_trylock cas lck = (let (r, lck) = cmpxchgi cas lck 0 1 in (0 = r, lck))"

text \<open>The lock as the loop finds it at each attempt; it is spinning still when the list ends first.\<close>

fun uv_spinlock_lock :: "(u32 \<Rightarrow> u32 \<Rightarrow> u32 \<Rightarrow> u32 \<times> u32) \<Rightarrow> u32 list \<Rightarrow> u32 option" where
  "uv_spinlock_lock cas [] = None"
| "uv_spinlock_lock cas (lck # seen) =
     (let (taken, lck) = uv_spinlock_trylock cas lck in if taken then Some lck else uv_spinlock_lock cas seen)"

definition swaps :: "(u32 \<Rightarrow> u32 \<Rightarrow> u32 \<Rightarrow> u32 \<times> u32) \<Rightarrow> bool" where
  "swaps cas \<longleftrightarrow> (\<forall>v old new. cas v old new = (v, if v = old then new else v))"

lemma spinlock_takes_free:
  assumes "swaps cas"
  shows "uv_spinlock_trylock cas lck = (lck = 0, if lck = 0 then 1 else lck)"
    "uv_spinlock_lock cas seen = (if 0 \<in> set seen then Some 1 else None)"
proof -
  show *: "uv_spinlock_trylock cas lck = (lck = 0, if lck = 0 then 1 else lck)" for lck
    using assms by (auto simp: uv_spinlock_trylock_def cmpxchgi_def swaps_def)
  show "uv_spinlock_lock cas seen = (if 0 \<in> set seen then Some 1 else None)"
    by (induction seen) (auto simp: * Let_def)
qed

section \<open>Properties\<close>

text \<open>A call that may be busy is made once, and its answer is its result.\<close>

lemma try_call_result:
  assumes "replies s = r # rs"
  shows "try_call name args s =
    (if r_ret r \<in> {0, EBUSY, EAGAIN}
     then Some (if r_ret r = 0 then 0 else - EBUSY, s\<lparr>replies := rs, syscalls := syscalls s @ [(Sys name args, r_ret r)]\<rparr>)
     else None)"
  by (simp add: try_call_def assms syscall_cons [OF assms])

text \<open>
  A wait with \<open>uv_cond_timedwait\<close> on a condition variable of \<open>uv_cond_init\<close>, from its initialisation
  on: the attributes are made and destroyed without \<open>pthread_condattr_setclock\<close>, so that the variable
  keeps the real time clock of POSIX, while the deadline is a reading of the monotonic clock plus the
  timeout, modulo \<open>2^64\<close>.
\<close>

definition cond_use :: "int \<Rightarrow> int \<Rightarrow> u64 \<Rightarrow> 'a kern_scheme \<Rightarrow> (int \<times> 'a kern_scheme) option" where
  "cond_use cond mutex timeout s = do { (_, s) \<leftarrow> uv_cond_init cond s; uv_cond_timedwait cond mutex timeout s }"

definition nanoseconds :: "u64 \<times> u64 \<Rightarrow> nat" where
  "nanoseconds t = unat (fst t) * 10 ^ 9 + unat (snd t)"

lemma nanoseconds_word: "fst t * 1000000000 + snd t = (of_nat (nanoseconds t) :: u64)"
  by (simp add: nanoseconds_def)

lemma hrtime_cons:
  assumes "replies s = k # rs" "r_ret k = 0"
  shows "uv__hrtime UV_CLOCK_PRECISE s =
    Some (of_nat (nanoseconds (r_clock k)), s\<lparr>replies := rs, syscalls := syscalls s @ [(Clock_gettime CLOCK_MONOTONIC, 0)]\<rparr>)"
  by (simp add: uv__hrtime_def Let_def syscall_cons [OF assms(1)] assms(2) nanoseconds_word)

text \<open>on a condition variable made by \<open>uv_cond_init\<close>, \<open>uv_cond_timedwait\<close> makes one timed wait, whose
  deadline is the reading of the monotonic clock plus the timeout, modulo \<open>2^64\<close> nanoseconds, with a
  valid number of nanoseconds; nowhere is the clock of the condition variable set to the monotonic
  one.  The answer is 0 or a timeout as the wait answers.
\<close>
theorem cond_timedwait_clock:
  assumes "replies s = a # b # c # k # w # rs" "r_ret a = 0" "r_ret b = 0" "r_ret c = 0" "r_ret k = 0"
    and "r_ret w = 0 \<or> r_ret w = ETIMEDOUT"
  shows "\<exists>t sec ns. cond_use cond mutex timeout s = Some (- r_ret w, t)
    \<and> syscalls t = syscalls s @ [(Sys ''pthread_condattr_init'' [], 0), (Sys ''pthread_cond_init'' [cond], 0),
        (Sys ''pthread_condattr_destroy'' [], 0), (Clock_gettime CLOCK_MONOTONIC, 0),
        (Sys ''pthread_cond_timedwait'' [cond, mutex, sec, ns], r_ret w)]
    \<and> sec * 10 ^ 9 + ns = int ((unat timeout + nanoseconds (r_clock k)) mod 2 ^ 64) \<and> 0 \<le> ns \<and> ns < 10 ^ 9"
proof -
  define u where "u = s\<lparr>replies := k # w # rs, syscalls := syscalls s @ [(Sys ''pthread_condattr_init'' [], 0),
    (Sys ''pthread_cond_init'' [cond], 0), (Sys ''pthread_condattr_destroy'' [], 0)]\<rparr>"
  have i: "uv_cond_init cond s = Some (0, u)"
    by (simp add: uv_cond_init_def assms u_def)
  define d where "d = timeout + (of_nat (nanoseconds (r_clock k)) :: u64)"
  have ud: "unat d = (unat timeout + nanoseconds (r_clock k)) mod 2 ^ 64"
    by (simp add: d_def unat_word_ariths(1) unat_of_nat mod_add_right_eq)
  define t where "t = u\<lparr>replies := rs, syscalls := syscalls u @ [(Clock_gettime CLOCK_MONOTONIC, 0),
    (Sys ''pthread_cond_timedwait'' [cond, mutex, uint (d div NANOSEC), uint (d mod NANOSEC)], r_ret w)]\<rparr>"
  have u: "replies u = k # w # rs" by (simp add: u_def)
  have "uv_cond_timedwait cond mutex timeout u = Some (- r_ret w, t)"
    using assms(5,6) by (auto simp: uv_cond_timedwait_def hrtime_cons [OF u assms(5)] Let_def d_def [symmetric] t_def)
  then have "cond_use cond mutex timeout s = Some (- r_ret w, t)"
    by (simp add: cond_use_def i)
  moreover have "uint (d div NANOSEC) * 10 ^ 9 + uint (d mod NANOSEC) = uint d"
    by (simp add: uint_div uint_mod)
  moreover have "uint (d mod NANOSEC) < 10 ^ 9" by (simp add: uint_mod)
  moreover from ud have "uint d = int ((unat timeout + nanoseconds (r_clock k)) mod 2 ^ 64)" by (metis uint_nat)
  ultimately show ?thesis
    by (intro exI [of _ t] exI [of _ "uint (d div NANOSEC)"] exI [of _ "uint (d mod NANOSEC)"])
      (simp add: t_def u_def)
qed

text \<open>A second and a half on the monotonic clock and a timeout of ten seconds: the deadline is 11.5 seconds after 1970.\<close>

lemma cond_timedwait_clock_witness:
  "\<exists>t sec ns. cond_use 7 8 10000000000 (kern_with [ret 0, ret 0, ret 0, (ret 0)\<lparr>r_clock := (1, 500000000)\<rparr>, ret 110]) = Some (- 110, t)
    \<and> snd (last (syscalls t)) = 110 \<and> fst (last (syscalls t)) = Sys ''pthread_cond_timedwait'' [7, 8, sec, ns]
    \<and> sec * 10 ^ 9 + ns = 11500000000"
proof -
  have r: "r_ret (ret n) = n" for n by (simp add: ret_def)
  have "\<exists>t sec ns. cond_use 7 8 10000000000 (kern_with [ret 0, ret 0, ret 0, (ret 0)\<lparr>r_clock := (1, 500000000)\<rparr>, ret 110]) = Some (- r_ret (ret 110), t)
    \<and> syscalls t = syscalls (kern_with [ret 0, ret 0, ret 0, (ret 0)\<lparr>r_clock := (1, 500000000)\<rparr>, ret 110]) @ [(Sys ''pthread_condattr_init'' [], 0), (Sys ''pthread_cond_init'' [7], 0),
        (Sys ''pthread_condattr_destroy'' [], 0), (Clock_gettime CLOCK_MONOTONIC, 0),
        (Sys ''pthread_cond_timedwait'' [7, 8, sec, ns], r_ret (ret 110))]
    \<and> sec * 10 ^ 9 + ns = int ((unat (10000000000::u64) + nanoseconds (r_clock ((ret 0)\<lparr>r_clock := (1, 500000000)\<rparr>))) mod 2 ^ 64) \<and> 0 \<le> ns \<and> ns < 10 ^ 9"
    by (rule cond_timedwait_clock [where b = "ret 0" and c = "ret 0" and a = "ret 0" and rs = "[]"]) (simp_all add: kern_with_def r)
  then show ?thesis by (auto simp: nanoseconds_def r)
qed

text \<open>Waiting for a semaphore goes on through signals, and returns after the one call that succeeds.\<close>

lemma sem_wait_returns:
  assumes "replies s = fs @ r # rs" "\<forall>f \<in> set fs. failed_with EINTR f" "r_ret r = 0"
  shows "\<exists>t. uv_sem_wait sem s = Some t \<and> replies t = rs
    \<and> syscalls t = syscalls s @ replicate (length fs) (Sys ''sem_wait'' [sem], - 1) @ [(Sys ''sem_wait'' [sem], 0)]"
proof -
  have "\<not> failed_with EINTR r" using assms(3) by (simp add: failed_with_def)
  from retry_while_result [OF assms(1,2) this, of "Sys ''sem_wait'' [sem]"] show ?thesis
    using assms(3) by (auto simp: uv_sem_wait_def)
qed

end
