(* ===== verification/Barrier.thy ===== *)
theory Barrier
  imports Threads
begin

text \<open>
  \<open>src/unix/pthread-barrier.cpp\<close>, the barrier the library brings where the system has none.  The
  mutex of a barrier makes each stretch of code between two waits one operation on its three
  counters; \<open>pthread_cond_wait\<close> gives the mutex up, so that a thread finds the counters as the others
  have left them.  The second half runs any number of threads against one barrier: a step relation
  whose steps are those stretches, with wake-ups that may be spurious, as POSIX allows.
\<close>

section \<open>The operations\<close>

record barrier =
  b_in :: u32
  b_out :: u32
  b_threshold :: u32

abbreviation (input) SERIAL_THREAD :: int where "SERIAL_THREAD \<equiv> 74565"

text \<open>
  \<open>pthread_barrier_init\<close>: \<open>attr\<close> says that an attribute was given; the result is the barrier the
  pointer \<open>barrier->b\<close> is set to, unless there is an error.
\<close>

definition pthread_barrier_init :: "bool \<Rightarrow> bool \<Rightarrow> u32 \<Rightarrow> 'a kern_scheme \<Rightarrow> ((int + barrier) \<times> 'a kern_scheme) option" where
  "pthread_barrier_init null attr count s =
     (if null \<or> count = 0 then Some (Inl EINVAL, s)
      else if attr then Some (Inl ENOTSUP, s)
      else do {
        (b, s) \<leftarrow> syscall (Malloc 104) s;
        if r_ret b = - 1 then Some (Inl ENOMEM, s)
        else do {
          (rc, s) \<leftarrow> syscall (Sys ''pthread_mutex_init'' []) s;
          if r_ret rc \<noteq> 0 then Some (Inl (r_ret rc), s)
          else do {
            (rc, s) \<leftarrow> syscall (Sys ''pthread_cond_init'' []) s;
            if r_ret rc \<noteq> 0 then do {
              (_, s) \<leftarrow> syscall (Sys ''pthread_mutex_destroy'' []) s;
              Some (Inl (r_ret rc), s)
            } else Some (Inr \<lparr>b_in = 0, b_out = 0, b_threshold = count\<rparr>, s)
          }
        }
      })"

text \<open>Arriving, to the first wait: whether this thread is the one that completes the round.\<close>

definition barrier_arrive :: "barrier \<Rightarrow> bool \<times> barrier" where
  "barrier_arrive b =
     (let b = b\<lparr>b_in := b_in b + 1\<rparr>
      in if b_in b = b_threshold b then (True, b\<lparr>b_in := 0, b_out := b_threshold b - 1\<rparr>) else (False, b))"

definition barrier_leave :: "barrier \<Rightarrow> barrier" where
  "barrier_leave b = b\<lparr>b_out := b_out b - 1\<rparr>"

text \<open>
  The loop around \<open>pthread_cond_wait\<close>: for every wait, what it returns and the counters then.  A list
  that ends before the loop does stands for a thread that still waits.
\<close>

fun barrier_loop :: "(int \<times> barrier) list \<Rightarrow> (int \<times> barrier) option" where
  "barrier_loop [] = None"
| "barrier_loop ((rc, b) # waits) = (if rc \<noteq> 0 then Some (rc, b) else if b_in b \<noteq> 0 then barrier_loop waits else Some (0, b))"

definition pthread_barrier_wait :: "barrier option \<Rightarrow> int \<Rightarrow> (int \<times> barrier) list \<Rightarrow> (int \<times> barrier option) option" where
  "pthread_barrier_wait bp locked waits =
     (case bp of
        None \<Rightarrow> Some (EINVAL, None)
      | Some b \<Rightarrow>
          if locked \<noteq> 0 then Some (locked, Some b)
          else (case barrier_arrive b of
                  (True, b) \<Rightarrow> Some (SERIAL_THREAD, Some b)
                | (False, _) \<Rightarrow> map_option (\<lambda>(rc, b). (rc, Some (barrier_leave b))) (barrier_loop waits)))"

definition pthread_barrier_destroy :: "barrier option \<Rightarrow> int \<Rightarrow> int \<times> barrier option" where
  "pthread_barrier_destroy bp locked =
     (case bp of
        None \<Rightarrow> (EINVAL, None)
      | Some b \<Rightarrow>
          if locked \<noteq> 0 then (locked, Some b)
          else if b_in b > 0 \<or> b_out b > 0 then (EBUSY, Some b)
          else (0, None))"

text \<open>The wrappers of \<open>src/unix/thread.cpp\<close>: waiting returns whether this thread is the serial one.\<close>

definition uv_barrier_init :: "u32 \<Rightarrow> 'a kern_scheme \<Rightarrow> ((int + barrier) \<times> 'a kern_scheme) option" where
  "uv_barrier_init count s = do {
     (r, s) \<leftarrow> pthread_barrier_init False False count s;
     Some (case r of Inl e \<Rightarrow> Inl (- e) | Inr b \<Rightarrow> Inr b, s)
   }"

definition uv_barrier_wait :: "barrier option \<Rightarrow> int \<Rightarrow> (int \<times> barrier) list \<Rightarrow> (bool \<times> barrier option) option" where
  "uv_barrier_wait bp locked waits = do {
     (r, bp) \<leftarrow> pthread_barrier_wait bp locked waits;
     require (r = 0 \<or> r = SERIAL_THREAD);
     Some (r = SERIAL_THREAD, bp)
   }"

definition uv_barrier_destroy :: "barrier option \<Rightarrow> int \<Rightarrow> barrier option option" where
  "uv_barrier_destroy bp locked = (let (r, bp) = pthread_barrier_destroy bp locked in do { require (r = 0); Some bp })"

section \<open>Threads at a barrier\<close>

text \<open>
  Where a thread is: before its call, asleep in \<open>pthread_cond_wait\<close>, woken and about to take the mutex
  again, or back from the call with its result.
\<close>

datatype at_barrier = Before | Asleep | Awoken | Passed bool

type_synonym party = "barrier \<times> at_barrier list"

text \<open>\<open>pthread_cond_signal\<close> wakes a thread if one is asleep.\<close>

inductive signalled :: "at_barrier list \<Rightarrow> at_barrier list \<Rightarrow> bool" where
  nobody: "Asleep \<notin> set ts \<Longrightarrow> signalled ts ts"
| somebody: "j < length ts \<Longrightarrow> ts ! j = Asleep \<Longrightarrow> signalled ts (ts[j := Awoken])"

text \<open>
  The steps of thread \<open>i\<close>: arriving as the last, arriving before, finding the round not complete or
  complete after a wake-up.
\<close>

inductive barrier_step :: "nat \<Rightarrow> party \<Rightarrow> party \<Rightarrow> bool" where
  last: "i < length ts \<Longrightarrow> ts ! i = Before \<Longrightarrow> barrier_arrive b = (True, b') \<Longrightarrow> signalled (ts[i := Passed True]) ts'
    \<Longrightarrow> barrier_step i (b, ts) (b', ts')"
| early: "i < length ts \<Longrightarrow> ts ! i = Before \<Longrightarrow> barrier_arrive b = (False, b')
    \<Longrightarrow> barrier_step i (b, ts) (b', ts[i := Asleep])"
| again: "i < length ts \<Longrightarrow> ts ! i = Awoken \<Longrightarrow> b_in b \<noteq> 0 \<Longrightarrow> barrier_step i (b, ts) (b, ts[i := Asleep])"
| out: "i < length ts \<Longrightarrow> ts ! i = Awoken \<Longrightarrow> b_in b = 0 \<Longrightarrow> signalled (ts[i := Passed False]) ts'
    \<Longrightarrow> barrier_step i (b, ts) (barrier_leave b, ts')"

inductive_cases barrier_stepE: "barrier_step i (b, ts) q"

text \<open>A spurious wake-up, and a thread that calls \<open>pthread_barrier_wait\<close> once more.\<close>

inductive spurious :: "party \<Rightarrow> party \<Rightarrow> bool" where
  "j < length ts \<Longrightarrow> ts ! j = Asleep \<Longrightarrow> spurious (b, ts) (b, ts[j := Awoken])"

inductive reenters :: "party \<Rightarrow> party \<Rightarrow> bool" where
  "j < length ts \<Longrightarrow> ts ! j = Passed v \<Longrightarrow> reenters (b, ts) (b, ts[j := Before])"

definition round_step :: "party \<Rightarrow> party \<Rightarrow> bool" where
  "round_step p q \<longleftrightarrow> (\<exists>i. barrier_step i p q) \<or> spurious p q"

definition use_step :: "party \<Rightarrow> party \<Rightarrow> bool" where
  "use_step p q \<longleftrightarrow> round_step p q \<or> reenters p q"

definition fresh :: "u32 \<Rightarrow> party" where
  "fresh n = (\<lparr>b_in = 0, b_out = 0, b_threshold = n\<rparr>, replicate (unat n) Before)"

section \<open>One round\<close>

definition inside :: "at_barrier \<Rightarrow> bool" where
  "inside t \<longleftrightarrow> t = Asleep \<or> t = Awoken"

definition count_if :: "('a \<Rightarrow> bool) \<Rightarrow> 'a list \<Rightarrow> nat" where
  "count_if P xs = length (filter P xs)"

lemma count_if_update:
  "i < length xs \<Longrightarrow> count_if P (xs[i := x]) + (if P (xs ! i) then 1 else 0) = count_if P xs + (if P x then 1 else 0)"
proof (induction xs arbitrary: i)
  case (Cons y ys)
  then show ?case by (cases i) (auto simp: count_if_def)
qed simp

lemma count_if_replicate: "count_if P (replicate n x) = (if P x then n else 0)"
  by (simp add: count_if_def)

lemma count_if_pos: "i < length xs \<Longrightarrow> P (xs ! i) \<Longrightarrow> 0 < count_if P xs"
  by (auto simp: count_if_def length_greater_0_conv filter_empty_conv)

lemma count_if_0: "count_if P xs = 0 \<longleftrightarrow> (\<forall>x \<in> set xs. \<not> P x)"
  by (auto simp: count_if_def filter_empty_conv)

lemma count_if_mem: "x \<in> set xs \<longleftrightarrow> count_if (\<lambda>y. y = x) xs \<noteq> 0"
  by (auto simp: count_if_0)

lemma count_if_partition: "count_if P xs + count_if (\<lambda>x. \<not> P x) xs = length xs"
  unfolding count_if_def by (rule sum_length_filter_compl)

text \<open>Nobody has passed and the counter \<open>in\<close> counts those inside; or nobody is before and \<open>out\<close> counts them.\<close>

definition gathering :: "u32 \<Rightarrow> party \<Rightarrow> bool" where
  "gathering n p \<longleftrightarrow> (\<forall>t \<in> set (snd p). t = Before \<or> inside t) \<and> b_in (fst p) = of_nat (count_if inside (snd p))
     \<and> Before \<in> set (snd p) \<and> b_out (fst p) = 0"

definition leaving :: "party \<Rightarrow> bool" where
  "leaving p \<longleftrightarrow> Before \<notin> set (snd p) \<and> count_if (\<lambda>t. t = Passed True) (snd p) = 1 \<and> b_in (fst p) = 0
     \<and> b_out (fst p) = of_nat (count_if inside (snd p)) \<and> (Asleep \<in> set (snd p) \<longrightarrow> Awoken \<in> set (snd p))"

definition round_inv :: "u32 \<Rightarrow> party \<Rightarrow> bool" where
  "round_inv n p \<longleftrightarrow> length (snd p) = unat n \<and> b_threshold (fst p) = n \<and> (gathering n p \<or> leaving p)"

lemma signalled_keeps:
  assumes "signalled ts ts'"
  shows "length ts' = length ts \<and> count_if inside ts' = count_if inside ts
    \<and> count_if (\<lambda>t. t = Passed True) ts' = count_if (\<lambda>t. t = Passed True) ts
    \<and> (Before \<in> set ts' \<longleftrightarrow> Before \<in> set ts) \<and> (Asleep \<in> set ts' \<longrightarrow> Awoken \<in> set ts')"
  using assms
proof cases
  case (somebody j)
  have "Before \<in> set (ts[j := Awoken]) \<longleftrightarrow> Before \<in> set ts"
    using somebody(2,3) count_if_update [OF somebody(2), of "\<lambda>t. t = Before" Awoken] by (simp add: count_if_mem)
  moreover have "Awoken \<in> set (ts[j := Awoken])" using somebody(2) by (simp add: set_update_memI)
  ultimately show ?thesis
    using somebody count_if_update [OF somebody(2), of inside Awoken] count_if_update [OF somebody(2), of "\<lambda>t. t = Passed True" Awoken]
    by (simp add: inside_def)
qed simp

lemma u32_of_nat_eq:
  assumes "k \<le> unat (n :: u32)"
  shows "of_nat k = n \<longleftrightarrow> k = unat n"
proof
  assume "of_nat k = n"
  then show "k = unat n" using le_unat_uoi [OF assms] by metis
qed simp

text \<open>Those who are not before are inside, while the round is gathering: the last one to come finds the others inside.\<close>

lemma gathering_count:
  assumes "gathering n (b, ts)"
  shows "count_if inside ts + count_if (\<lambda>t. t = Before) ts = length ts"
proof -
  have "filter (\<lambda>t. \<not> inside t) ts = filter (\<lambda>t. t = Before) ts"
    using assms by (intro filter_cong) (auto simp: gathering_def inside_def)
  then show ?thesis using count_if_partition [of inside ts] by (simp add: count_if_def)
qed

lemma arrive_keeps:
  assumes g: "gathering n (b, ts)" and l: "length ts = unat n" "b_threshold b = n" and i: "i < length ts" "ts ! i = Before"
  shows "barrier_arrive b = (True, b') \<Longrightarrow> signalled (ts[i := Passed True]) ts' \<Longrightarrow> round_inv n (b', ts')"
    and "barrier_arrive b = (False, b') \<Longrightarrow> round_inv n (b', ts[i := Asleep])"
proof -
  let ?k = "count_if inside ts"
  have k: "?k + count_if (\<lambda>t. t = Before) ts = unat n" using gathering_count [OF g] l by simp
  have before: "0 < count_if (\<lambda>t. t = Before) ts" using count_if_pos [OF i(1), of "\<lambda>t. t = Before"] i(2) by simp
  have inn: "b_in b = of_nat ?k" and out: "b_out b = 0" using g by (simp_all add: gathering_def)
  have full: "b_in b + 1 = n \<longleftrightarrow> Suc ?k = unat n"
    using u32_of_nat_eq [of "Suc ?k" n] k before inn by (simp add: add.commute)
  have last: "Before \<in> set (ts[i := x]) \<longleftrightarrow> x = Before \<or> Suc ?k \<noteq> unat n" for x
  proof -
    have "count_if (\<lambda>t. t = Before) (ts[i := x]) + 1 + ?k = unat n + (if x = Before then 1 else 0)"
      using count_if_update [OF i(1), of "\<lambda>t. t = Before" x] i(2) k by simp
    then show ?thesis using k before by (auto simp: count_if_mem)
  qed
  {
    assume a: "barrier_arrive b = (True, b')" and s: "signalled (ts[i := Passed True]) ts'"
    then have f: "Suc ?k = unat n" and b': "b' = b\<lparr>b_in := 0, b_out := n - 1\<rparr>"
      using full l by (auto simp: barrier_arrive_def Let_def split: if_splits)
    have nobody: "count_if (\<lambda>t. t = Passed True) ts = 0"
      using g by (auto simp: count_if_0 gathering_def inside_def)
    have "n = of_nat (Suc ?k)" unfolding f by simp
    then have "b_out b' = of_nat ?k" by (simp add: b')
    moreover have "count_if inside (ts[i := Passed True]) = ?k"
      using count_if_update [OF i(1), of inside "Passed True"] i(2) by (simp add: inside_def)
    moreover have "count_if (\<lambda>t. t = Passed True) (ts[i := Passed True]) = 1"
      using count_if_update [OF i(1), of "\<lambda>t. t = Passed True" "Passed True"] i(2) nobody by simp
    moreover have "Before \<notin> set (ts[i := Passed True])" using last [of "Passed True"] f by simp
    ultimately show "round_inv n (b', ts')"
      using signalled_keeps [OF s] l by (simp add: round_inv_def leaving_def b')
  }
  {
    assume a: "barrier_arrive b = (False, b')"
    then have f: "Suc ?k \<noteq> unat n" and b': "b' = b\<lparr>b_in := b_in b + 1\<rparr>"
      using full l by (auto simp: barrier_arrive_def Let_def split: if_splits)
    have "\<forall>t \<in> set (ts[i := Asleep]). t = Before \<or> inside t"
      using g set_update_subset_insert [of ts i Asleep] by (auto simp: gathering_def inside_def)
    then show "round_inv n (b', ts[i := Asleep])"
      using last [of Asleep] f l count_if_update [OF i(1), of inside Asleep] i(2) inn out
      by (simp add: round_inv_def gathering_def b' inside_def add.commute)
  }
qed


lemma leave_keeps:
  assumes l: "leaving (b, ts)" "length ts = unat n" "b_threshold b = n" and i: "i < length ts" "ts ! i = Awoken"
    and s: "signalled (ts[i := Passed False]) ts'"
  shows "round_inv n (barrier_leave b, ts')" "count_if inside ts' < count_if inside ts"
proof -
  let ?us = "ts[i := Passed False]"
  have k: "count_if inside ?us + 1 = count_if inside ts"
    using count_if_update [OF i(1), of inside "Passed False"] i(2) by (simp add: inside_def)
  have o': "b_out b = of_nat (count_if inside ts)" using l(1) by (simp add: leaving_def)
  have "b_out b - 1 = of_nat (count_if inside ?us)" unfolding o' k [symmetric] by simp
  moreover have "count_if (\<lambda>t. t = Passed True) ?us = count_if (\<lambda>t. t = Passed True) ts"
    using count_if_update [OF i(1), of "\<lambda>t. t = Passed True" "Passed False"] i(2) by simp
  moreover have "Before \<notin> set ?us"
    using l(1) count_if_update [OF i(1), of "\<lambda>t. t = Before" "Passed False"] i(2) by (simp add: leaving_def count_if_mem)
  ultimately show "round_inv n (barrier_leave b, ts')"
    using signalled_keeps [OF s] l by (simp add: round_inv_def leaving_def barrier_leave_def)
  show "count_if inside ts' < count_if inside ts" using signalled_keeps [OF s] k by simp
qed

lemma inside_keeps:
  assumes r: "round_inv n (b, ts)" and i: "i < length ts" "inside (ts ! i)" and t: "inside t" "leaving (b, ts) \<Longrightarrow> t = Awoken"
  shows "round_inv n (b, ts[i := t])"
proof -
  have k: "count_if inside (ts[i := t]) = count_if inside ts"
    using count_if_update [OF i(1), of inside t] i(2) t(1) by simp
  have s: "count_if (\<lambda>t. t = Passed True) (ts[i := t]) = count_if (\<lambda>t. t = Passed True) ts"
    using count_if_update [OF i(1), of "\<lambda>t. t = Passed True" t] i(2) t(1) by (auto simp: inside_def split: if_splits)
  have m: "Before \<in> set (ts[i := t]) \<longleftrightarrow> Before \<in> set ts"
    using count_if_update [OF i(1), of "\<lambda>t. t = Before" t] i(2) t(1) by (auto simp: count_if_mem inside_def split: if_splits)
  from r consider "gathering n (b, ts)" | "leaving (b, ts)" by (auto simp: round_inv_def)
  then show ?thesis
  proof cases
    case 1
    have "\<forall>x \<in> set (ts[i := t]). x = Before \<or> inside x"
      using 1 t(1) set_update_subset_insert [of ts i t] by (auto simp: gathering_def)
    then have "gathering n (b, ts[i := t])" using 1 k m by (simp add: gathering_def)
    then show ?thesis using r by (simp add: round_inv_def)
  next
    case 2
    then have "Awoken \<in> set (ts[i := t])" using t(2) i(1) by (simp add: set_update_memI)
    then have "leaving (b, ts[i := t])" using 2 k m s by (simp add: leaving_def)
    then show ?thesis using r by (simp add: round_inv_def)
  qed
qed

lemma gathering_inside:
  assumes "round_inv n (b, ts)" "b_in b \<noteq> 0"
  shows "gathering n (b, ts)" "\<not> leaving (b, ts)"
  using assms by (auto simp: round_inv_def leaving_def)

lemma awoken_leaving:
  assumes r: "round_inv n (b, ts)" and i: "i < length ts" "ts ! i = Awoken" and z: "b_in b = 0"
  shows "leaving (b, ts)"
proof (rule ccontr)
  assume "\<not> leaving (b, ts)"
  then have g: "gathering n (b, ts)" using r by (simp add: round_inv_def)
  have le: "count_if inside ts \<le> unat n" using gathering_count [OF g] r by (simp add: round_inv_def)
  have "unat (of_nat (count_if inside ts) :: u32) = count_if inside ts" by (rule le_unat_uoi [OF le])
  then have "count_if inside ts = 0" using g z by (simp add: gathering_def)
  then show False using count_if_pos [OF i(1), of inside] i(2) by (simp add: inside_def)
qed

lemma before_gathering:
  assumes "round_inv n (b, ts)" "i < length ts" "ts ! i = Before"
  shows "gathering n (b, ts)"
  using assms nth_mem [OF assms(2)] by (auto simp: round_inv_def leaving_def)

lemma barrier_step_keeps:
  assumes r: "round_inv n (b, ts)" and s: "barrier_step i (b, ts) q"
  shows "round_inv n q"
proof -
  have l: "length ts = unat n" "b_threshold b = n" using r by (simp_all add: round_inv_def)
  from s show ?thesis
  proof cases
    case (last b' ts')
    from arrive_keeps(1) [OF before_gathering [OF r last(2,3)] l last(2-5)] show ?thesis by (simp add: last(1))
  next
    case (early b')
    from arrive_keeps(2) [OF before_gathering [OF r early(2,3)] l early(2-4)] show ?thesis by (simp add: early(1))
  next
    case again
    then show ?thesis using inside_keeps [OF r again(2), of Asleep] gathering_inside [OF r] by (simp add: inside_def)
  next
    case (out ts')
    from leave_keeps(1) [OF awoken_leaving [OF r out(2-4)] l out(2,3,5)] show ?thesis by (simp add: out(1))
  qed
qed

lemma round_step_keeps: "round_inv n p \<Longrightarrow> round_step p q \<Longrightarrow> round_inv n q"
  by (cases p) (auto simp: round_step_def inside_def elim!: spurious.cases intro: barrier_step_keeps inside_keeps)

lemma fresh_round: "n > 0 \<Longrightarrow> round_inv n (fresh n)"
  by (auto simp: round_inv_def gathering_def fresh_def count_if_replicate inside_def unat_eq_zero word_neq_0_conv [symmetric] simp del: word_neq_0_conv)

lemma round_reach: "round_step\<^sup>*\<^sup>* (fresh n) p \<Longrightarrow> n > 0 \<Longrightarrow> round_inv n p"
  by (induction rule: rtranclp_induct) (auto intro: fresh_round round_step_keeps)

lemma signal_possible: "\<exists>ts'. signalled ts ts'"
proof (cases "Asleep \<in> set ts")
  case True
  then show ?thesis by (metis in_set_conv_nth signalled.somebody)
qed (blast intro: signalled.nobody)

text \<open>A thread that has not passed can always go on, or is asleep while another one is not.\<close>

lemma party_goes_on:
  assumes r: "round_inv n (b, ts)" and x: "x \<in> set ts" "x = Before \<or> inside x"
  shows "\<exists>i q. barrier_step i (b, ts) q"
proof -
  have "Before \<in> set ts \<or> Awoken \<in> set ts"
    using r x by (auto simp: round_inv_def gathering_def leaving_def inside_def)
  then show ?thesis
  proof
    assume "Before \<in> set ts"
    then obtain i where i: "i < length ts" "ts ! i = Before" by (auto simp: in_set_conv_nth)
    obtain l b' where a: "barrier_arrive b = (l, b')" by fastforce
    obtain ts' where "signalled (ts[i := Passed True]) ts'" using signal_possible by blast
    then show ?thesis using barrier_step.last [OF i, of b b'] barrier_step.early [OF i, of b b'] a by (cases l) (simp, blast)+
  next
    assume "Awoken \<in> set ts"
    then obtain i where i: "i < length ts" "ts ! i = Awoken" by (auto simp: in_set_conv_nth)
    obtain ts' where "signalled (ts[i := Passed False]) ts'" using signal_possible by blast
    then show ?thesis using barrier_step.again [OF i] barrier_step.out [OF i] by blast
  qed
qed


section \<open>Properties\<close>

lemma barrier_round_parts:
  assumes "n > 0" "round_step\<^sup>*\<^sup>* (fresh n) (b, ts)"
  shows "(\<exists>v. Passed v \<in> set ts) \<longrightarrow> Before \<notin> set ts \<and> count_if (\<lambda>t. t = Passed True) ts = 1"
    and "(\<exists>x \<in> set ts. x = Before \<or> inside x) \<longrightarrow> (\<exists>i q. barrier_step i (b, ts) q)"
    and "Before \<notin> set ts \<longrightarrow> (\<forall>i b' ts'. barrier_step i (b, ts) (b', ts') \<longrightarrow> count_if inside ts' < count_if inside ts)"
    and "pthread_barrier_destroy (Some b) 0 = (if \<forall>x \<in> set ts. x = Before \<or> (\<exists>v. x = Passed v) then (0, None) else (EBUSY, Some b))"
proof -
  note r = round_reach [OF assms(2,1)]
  show "(\<exists>v. Passed v \<in> set ts) \<longrightarrow> Before \<notin> set ts \<and> count_if (\<lambda>t. t = Passed True) ts = 1"
    using r by (auto simp: round_inv_def gathering_def leaving_def inside_def)
  show "(\<exists>x \<in> set ts. x = Before \<or> inside x) \<longrightarrow> (\<exists>i q. barrier_step i (b, ts) q)"
    using party_goes_on [OF r] by blast
  show "Before \<notin> set ts \<longrightarrow> (\<forall>i b' ts'. barrier_step i (b, ts) (b', ts') \<longrightarrow> count_if inside ts' < count_if inside ts)"
  proof (intro impI allI)
    fix i b' ts'
    assume no: "Before \<notin> set ts" and "barrier_step i (b, ts) (b', ts')"
    then have l: "leaving (b, ts)" using r by (auto simp: round_inv_def gathering_def)
    from \<open>barrier_step i (b, ts) (b', ts')\<close> show "count_if inside ts' < count_if inside ts"
    proof cases
      case out
      then show ?thesis using leave_keeps(2) [OF l] r by (simp add: round_inv_def)
    qed (use no l in \<open>auto simp: leaving_def dest: nth_mem\<close>)
  qed
  have le: "count_if inside ts \<le> unat n"
    using r by (simp add: round_inv_def count_if_def) (metis length_filter_le)
  have z: "of_nat (count_if inside ts) > (0 :: u32) \<longleftrightarrow> (\<exists>x \<in> set ts. inside x)"
    using le_unat_uoi [OF le] count_if_0 [of inside ts] by (auto simp: word_greater_zero_iff word_unat_eq_iff simp del: unat_of_nat)
  have "b_in b > 0 \<or> b_out b > 0 \<longleftrightarrow> (\<exists>x \<in> set ts. inside x)"
    using r z by (auto simp: round_inv_def gathering_def leaving_def)
  moreover have "x = Before \<or> (\<exists>v. x = Passed v) \<longleftrightarrow> \<not> inside x" for x by (cases x) (auto simp: inside_def)
  ultimately show "pthread_barrier_destroy (Some b) 0 = (if \<forall>x \<in> set ts. x = Before \<or> (\<exists>v. x = Passed v) then (0, None) else (EBUSY, Some b))"
    by (simp add: pthread_barrier_destroy_def)
qed

text \<open>C23: of any number of threads that each call \<open>pthread_barrier_wait\<close> once on a barrier made for that
  number, in every interleaving and with any spurious wake-ups: when a thread has passed, all have
  come, and exactly one has got \<open>PTHREAD_BARRIER_SERIAL_THREAD\<close>; as long as a thread has not passed,
  some thread can go on without a spurious wake-up, and once all have come each such step lets one
  more pass; when all have passed the barrier can be destroyed, and not while a thread is inside after that.
\<close>
theorem barrier_round:
  assumes "n > 0" "round_step\<^sup>*\<^sup>* (fresh n) (b, ts)"
  shows "((\<exists>v. Passed v \<in> set ts) \<longrightarrow> Before \<notin> set ts \<and> count_if (\<lambda>t. t = Passed True) ts = 1)
    \<and> ((\<exists>x \<in> set ts. x = Before \<or> inside x) \<longrightarrow> (\<exists>i q. barrier_step i (b, ts) q))
    \<and> (Before \<notin> set ts \<longrightarrow> (\<forall>i b' ts'. barrier_step i (b, ts) (b', ts') \<longrightarrow> count_if inside ts' < count_if inside ts))
    \<and> (pthread_barrier_destroy (Some b) 0 = (if \<forall>x \<in> set ts. x = Before \<or> (\<exists>v. x = Passed v) then (0, None) else (EBUSY, Some b)))"
  by (intro conjI) (rule barrier_round_parts [OF assms])+

text \<open>Two threads: one comes and sleeps, the other one completes the round and wakes it.\<close>

lemma two_threads:
  "round_step\<^sup>*\<^sup>* (fresh 2) (\<lparr>b_in = 0, b_out = 1, b_threshold = 2\<rparr>, [Awoken, Passed True])"
proof -
  have f: "fresh 2 = (\<lparr>b_in = 0, b_out = 0, b_threshold = 2\<rparr>, [Before, Before])"
    by (simp add: fresh_def) (simp add: numeral_2_eq_2)
  have "barrier_step 0 (fresh 2) (\<lparr>b_in = 1, b_out = 0, b_threshold = 2\<rparr>, [Asleep, Before])"
    using barrier_step.early [of 0 "[Before, Before]" "\<lparr>b_in = 0, b_out = 0, b_threshold = 2\<rparr>" "\<lparr>b_in = 1, b_out = 0, b_threshold = 2\<rparr>"]
    by (simp add: f barrier_arrive_def Let_def)
  moreover have "barrier_step 1 (\<lparr>b_in = 1, b_out = 0, b_threshold = 2\<rparr>, [Asleep, Before])
      (\<lparr>b_in = 0, b_out = 1, b_threshold = 2\<rparr>, [Awoken, Passed True])"
  proof (rule barrier_step.last)
    have "signalled [Asleep, Passed True] ([Asleep, Passed True][0 := Awoken])" by (rule signalled.somebody) auto
    then show "signalled ([Asleep, Before][1 := Passed True]) [Awoken, Passed True]" by simp
  qed (auto simp: barrier_arrive_def Let_def)
  ultimately show ?thesis by (meson round_step_def converse_rtranclp_into_rtranclp r_into_rtranclp)
qed

lemma barrier_round_witness:
  "Before \<notin> set [Awoken, Passed True] \<and> (\<exists>i q. barrier_step i (\<lparr>b_in = 0, b_out = 1, b_threshold = 2\<rparr>, [Awoken, Passed True]) q)
    \<and> pthread_barrier_destroy (Some \<lparr>b_in = 0, b_out = 1, b_threshold = 2\<rparr>) 0 = (EBUSY, Some \<lparr>b_in = 0, b_out = 1, b_threshold = 2\<rparr>)"
  using barrier_round [OF _ two_threads] by (auto simp: inside_def)

text \<open>
  A thread that comes back for another round before the others have left makes \<open>in\<close> count again, and
  those others wait for it to be 0: with two threads, both wait for good.
\<close>

definition stuck :: "party \<Rightarrow> bool" where
  "stuck p \<longleftrightarrow> b_in (fst p) = 1 \<and> b_threshold (fst p) = 2 \<and> length (snd p) = 2 \<and> (\<forall>t \<in> set (snd p). inside t)"

lemma stuck_stays:
  assumes "stuck p" "use_step p q"
  shows "stuck q"
proof -
  obtain b ts where p: "p = (b, ts)" by force
  have i: "i < length ts \<Longrightarrow> ts ! i = Asleep \<or> ts ! i = Awoken" for i using assms(1) by (simp add: stuck_def p inside_def)
  have u: "\<forall>t \<in> set (ts[i := x]). inside t" if "inside x" for i x
    using assms(1) that set_update_subset_insert [of ts i x] by (auto simp: stuck_def p)
  from assms(2) show ?thesis
    unfolding use_step_def round_step_def p
  proof (elim disjE exE)
    fix k assume "barrier_step k (b, ts) q"
    then show ?thesis
    proof cases
      case again
      then show ?thesis using assms(1) u [of Asleep] by (simp add: stuck_def p inside_def)
    qed (use i [of k] assms(1) in \<open>auto simp: stuck_def p\<close>)
  next
    assume "spurious (b, ts) q"
    then show ?thesis by cases (use assms(1) u [of Awoken] in \<open>simp add: stuck_def p inside_def\<close>)
  next
    assume "reenters (b, ts) q"
    then show ?thesis by cases (use i in force)
  qed
qed

text \<open>C40: the barrier is not safe to use again at once, as POSIX demands: two threads can reach a state
  in which both are inside and from which, whatever steps are taken, neither ever passes.
\<close>
theorem barrier_reuse_deadlocks:
  "\<exists>p. use_step\<^sup>*\<^sup>* (fresh 2) p \<and> {q. use_step\<^sup>*\<^sup>* p q} \<subseteq> {q. set (snd q) \<subseteq> {Asleep, Awoken}}"
proof -
  let ?b = "\<lparr>b_in = 0, b_out = 1, b_threshold = 2\<rparr>" and ?c = "\<lparr>b_in = 1, b_out = 1, b_threshold = 2\<rparr>"
  have "use_step\<^sup>*\<^sup>* (fresh 2) (?b, [Awoken, Passed True])"
    using two_threads by (rule rtranclp_mono [THEN predicate2D, rotated]) (auto simp: use_step_def)
  also have "use_step (?b, [Awoken, Passed True]) (?b, [Awoken, Before])"
    using reenters.intros [of 1 "[Awoken, Passed True]" True ?b] by (simp add: use_step_def)
  also have "use_step (?b, [Awoken, Before]) (?c, [Awoken, Asleep])"
    using barrier_step.early [of 1 "[Awoken, Before]" ?b ?c] by (auto simp: use_step_def round_step_def barrier_arrive_def Let_def)
  finally have "use_step\<^sup>*\<^sup>* (fresh 2) (?c, [Awoken, Asleep])" .
  moreover have "stuck q" if "use_step\<^sup>*\<^sup>* (?c, [Awoken, Asleep]) q" for q
    using that
  proof (induction rule: rtranclp_induct)
    case base
    show ?case by (simp add: stuck_def inside_def)
  qed (rule stuck_stays)
  ultimately show ?thesis by (fastforce simp: stuck_def inside_def)
qed

end
