(* ===== verification/Process_Title.thy ===== *)
theory Process_Title
  imports Linux_Info
begin

text \<open>
  \<open>src/unix/proctitle.cpp\<close>: the title of the process is the memory of the program's arguments, which
  \<open>uv_setup_args\<close> therefore copies elsewhere.  The memory is a function from addresses to characters;
  address 0 is not readable.  The table of pointers of the new \<open>argv\<close> is the list that is returned,
  and the strings are behind it in the same allocation.
\<close>

record title_state = kern +
  cmem :: "int \<Rightarrow> char"
  title_str :: int
  title_len :: nat
  args_mem :: int

section \<open>Characters in memory\<close>

partial_function (option) strlen :: "(int \<Rightarrow> char) \<Rightarrow> int \<Rightarrow> nat option" where
  "strlen m p = (if p = 0 then None else if m p = NUL then Some 0 else do { n \<leftarrow> strlen m (p + 1); Some (Suc n) })"

declare strlen.simps [code]

fun load :: "(int \<Rightarrow> char) \<Rightarrow> int \<Rightarrow> nat \<Rightarrow> string" where
  "load m p 0 = []"
| "load m p (Suc n) = m p # load m (p + 1) n"

fun store :: "(int \<Rightarrow> char) \<Rightarrow> int \<Rightarrow> string \<Rightarrow> (int \<Rightarrow> char)" where
  "store m p [] = m"
| "store m p (c # cs) = store (m(p := c)) (p + 1) cs"

definition strncpy_bytes :: "string \<Rightarrow> nat \<Rightarrow> string" where
  "strncpy_bytes src n = take n (c_str src @ replicate n NUL)"

section \<open>The operations\<close>

fun args_size :: "(int \<Rightarrow> char) \<Rightarrow> int list \<Rightarrow> nat option" where
  "args_size m [] = Some 0"
| "args_size m (p # ps) = do { n \<leftarrow> strlen m p; k \<leftarrow> args_size m ps; Some (n + 1 + k) }"

fun copy_args :: "int list \<Rightarrow> int \<Rightarrow> (int \<Rightarrow> char) \<Rightarrow> (int list \<times> (int \<Rightarrow> char)) option" where
  "copy_args [] s m = Some ([], m)"
| "copy_args (p # ps) s m = do {
     n \<leftarrow> strlen m p;
     (qs, m) \<leftarrow> copy_args ps (s + int n + 1) (store m s (load m p (n + 1)));
     Some (s # qs, m)
   }"

definition uv_setup_args :: "int list \<Rightarrow> 'a title_state_scheme \<Rightarrow> (int list \<times> 'a title_state_scheme) option" where
  "uv_setup_args argv s =
     (if argv = [] then Some (argv, s)
      else do {
        sz \<leftarrow> args_size (cmem s) argv;
        n \<leftarrow> strlen (cmem s) (last argv);
        let len = last argv + int n - hd argv;
        let s = s\<lparr>title_str := hd argv, title_len := nat len\<rparr>;
        require (len + 1 = int sz);
        let table = (int (length argv) + 1) * 8;
        (r, s) \<leftarrow> syscall (Malloc (int sz + table)) s;
        if r_ret r = - 1 then Some (argv, s)
        else do {
          let s = s\<lparr>args_mem := r_ret r\<rparr>;
          (new_argv, m) \<leftarrow> copy_args argv (r_ret r + table) (cmem s);
          Some (new_argv, s\<lparr>cmem := m\<rparr>)
        }
      })"

definition uv_set_process_title :: "string \<Rightarrow> 'a title_state_scheme \<Rightarrow> (int \<times> 'a title_state_scheme) option" where
  "uv_set_process_title title s =
     (if title_len s = 0 then Some (0, s)
      else do {
        let s = s\<lparr>cmem := store (cmem s) (title_str s) (strncpy_bytes title (title_len s))\<rparr>;
        s \<leftarrow> uv__set_process_title title s;
        Some (0, s)
      })"

definition uv_get_process_title :: "bool \<Rightarrow> nat \<Rightarrow> 'a title_state_scheme \<Rightarrow> (int + string) option" where
  "uv_get_process_title null sz s =
     (if null \<or> sz = 0 then Some (Inl (- EINVAL))
      else if sz \<le> title_len s then Some (Inl (- ENOBUFS))
      else do {
        require (title_str s \<noteq> 0);
        Some (Inr ((load (cmem s) (title_str s) (title_len s + 1))[title_len s := NUL]))
      })"

definition free_args_mem :: "'a title_state_scheme \<Rightarrow> int \<times> 'a title_state_scheme" where
  "free_args_mem s = (args_mem s, s\<lparr>args_mem := 0\<rparr>)"

section \<open>Lemmas\<close>

lemma load_nth: "i < n \<Longrightarrow> load m p n ! i = m (p + int i)"
proof (induction n arbitrary: p i)
  case (Suc n)
  then show ?case by (cases i) (auto simp: algebra_simps)
qed simp

lemma length_load [simp]: "length (load m p n) = n"
  by (induction n arbitrary: p) auto

lemma store_at: "store m p cs a = (if p \<le> a \<and> a < p + int (length cs) then cs ! nat (a - p) else m a)"
proof (induction cs arbitrary: m p)
  case (Cons c cs)
  show ?case
  proof (cases "a = p")
    case True
    then show ?thesis by (simp add: Cons.IH flip: True)
  next
    case False
    have "nat (a - p) = Suc (nat (a - (p + 1)))" if "p + 1 \<le> a" using that by simp
    then show ?thesis using False by (auto simp: Cons.IH)
  qed
qed auto

text \<open>A string is at an address.\<close>

definition str_at :: "(int \<Rightarrow> char) \<Rightarrow> int \<Rightarrow> string \<Rightarrow> bool" where
  "str_at m p a \<longleftrightarrow> p > 0 \<and> NUL \<notin> set a \<and> (\<forall>i \<le> length a. m (p + int i) = (a @ [NUL]) ! i)"

lemma str_at_load: "str_at m p a \<Longrightarrow> load m p (length a + 1) = a @ [NUL]"
  by (rule nth_equalityI) (auto simp: load_nth str_at_def simp del: load.simps)

lemma str_at_strlen: "str_at m p a \<Longrightarrow> strlen m p = Some (length a)"
proof (induction a arbitrary: p)
  case Nil
  then show ?case by (subst strlen.simps) (auto simp: str_at_def)
next
  case (Cons c a)
  have c: "m p = c" "c \<noteq> NUL" "p \<noteq> 0" using Cons.prems by (auto simp: str_at_def)
  have "m (p + 1 + int i) = (a @ [NUL]) ! i" if "i \<le> length a" for i
  proof -
    have "Suc i \<le> length (c # a)" using that by simp
    then have "m (p + int (Suc i)) = ((c # a) @ [NUL]) ! Suc i" using Cons.prems unfolding str_at_def by blast
    then show ?thesis by (simp add: algebra_simps)
  qed
  then have "str_at m (p + 1) a" using Cons.prems by (auto simp: str_at_def)
  then have "strlen m (p + 1) = Some (length a)" by (rule Cons.IH)
  then show ?case using c by (subst strlen.simps) simp
qed

lemma str_at_store:
  assumes "str_at m p a" "q + int (length cs) \<le> p \<or> p + int (length a) < q"
  shows "str_at (store m q cs) p a"
  using assms by (auto simp: str_at_def store_at)

lemma str_at_stored: "q > 0 \<Longrightarrow> NUL \<notin> set a \<Longrightarrow> str_at (store m q (a @ [NUL])) q a"
  by (auto simp: str_at_def store_at)

text \<open>Strings one after the other.\<close>

fun row :: "int \<Rightarrow> string list \<Rightarrow> int list" where
  "row p [] = []"
| "row p (a # as) = p # row (p + int (length a) + 1) as"

fun row_size :: "string list \<Rightarrow> nat" where
  "row_size [] = 0"
| "row_size (a # as) = length a + 1 + row_size as"

definition rows_at :: "(int \<Rightarrow> char) \<Rightarrow> int list \<Rightarrow> string list \<Rightarrow> bool" where
  "rows_at m ps as \<longleftrightarrow> list_all2 (str_at m) ps as"

lemma row_bounds: "x \<in> set (zip (row p as) as) \<Longrightarrow> p \<le> fst x \<and> fst x + int (length (snd x)) < p + int (row_size as)"
proof (induction as arbitrary: p)
  case (Cons a as)
  then show ?case by fastforce
qed simp

lemma length_row [simp]: "length (row p as) = length as"
  by (induction as arbitrary: p) auto

lemma rows_at_store:
  assumes "rows_at m (row p as) as" "q + int (length cs) \<le> p \<or> p + int (row_size as) \<le> q"
  shows "rows_at (store m q cs) (row p as) as"
  unfolding rows_at_def
proof (rule list_all2I)
  show "\<forall>x \<in> set (zip (row p as) as). case x of (x, y) \<Rightarrow> str_at (store m q cs) x y"
  proof
    fix x
    assume x: "x \<in> set (zip (row p as) as)"
    then have "str_at m (fst x) (snd x)" using assms(1) by (auto simp: rows_at_def list_all2_iff)
    then show "case x of (x, y) \<Rightarrow> str_at (store m q cs) x y"
      using row_bounds [OF x] assms(2) by (auto simp: split_beta intro!: str_at_store)
  qed
qed simp

lemma rows_size: "rows_at m (row p as) as \<Longrightarrow> args_size m (row p as) = Some (row_size as)"
proof (induction as arbitrary: p)
  case (Cons a as)
  then show ?case by (auto simp: rows_at_def str_at_strlen)
qed simp

lemma row_last: "as \<noteq> [] \<Longrightarrow> last (row p as) + int (length (last as)) + 1 = p + int (row_size as)"
proof (induction as arbitrary: p)
  case (Cons a as)
  then show ?case by (cases "as = []") (auto simp: neq_Nil_conv)
qed simp

lemma rows_last: "rows_at m ps as \<Longrightarrow> as \<noteq> [] \<Longrightarrow> str_at m (last ps) (last as)"
  by (cases "ps = []") (auto simp: rows_at_def last_conv_nth list_all2_conv_all_nth)

lemma str_at_cong: "str_at m p a \<Longrightarrow> (\<And>x. p \<le> x \<Longrightarrow> x \<le> p + int (length a) \<Longrightarrow> m' x = m x) \<Longrightarrow> str_at m' p a"
  by (auto simp: str_at_def)

lemma copy_args_row:
  assumes "rows_at m (row p as) as" "q > 0" "q + int (row_size as) \<le> p \<or> p + int (row_size as) \<le> q"
  shows "\<exists>m'. copy_args (row p as) q m = Some (row q as, m') \<and> rows_at m' (row q as) as
    \<and> (\<forall>x. x < q \<or> q + int (row_size as) \<le> x \<longrightarrow> m' x = m x)"
  using assms
proof (induction as arbitrary: p q m)
  case Nil
  then show ?case by (simp add: rows_at_def)
next
  case (Cons a as)
  let ?m = "store m q (a @ [NUL])" and ?p = "p + int (length a) + 1" and ?q = "q + int (length a) + 1"
  have a: "str_at m p a" and r: "rows_at m (row ?p as) as" using Cons.prems(1) by (simp_all add: rows_at_def)
  have "rows_at ?m (row ?p as) as" using r Cons.prems(3) by (intro rows_at_store) auto
  moreover have "?q > 0" "?q + int (row_size as) \<le> ?p \<or> ?p + int (row_size as) \<le> ?q" using Cons.prems(2,3) by auto
  ultimately obtain m' where m': "copy_args (row ?p as) ?q ?m = Some (row ?q as, m')" "rows_at m' (row ?q as) as"
    and f: "\<And>x. x < ?q \<or> ?q + int (row_size as) \<le> x \<Longrightarrow> m' x = ?m x"
    using Cons.IH by blast
  have "str_at ?m q a" using Cons.prems(2) a by (auto simp: str_at_def [of m] intro: str_at_stored)
  then have "str_at m' q a" by (rule str_at_cong) (simp add: f)
  moreover have "copy_args (row p (a # as)) q m = Some (row q (a # as), m')"
    using m'(1) str_at_load [OF a] by (simp add: str_at_strlen [OF a] del: load.simps store.simps)
  ultimately show ?case using m'(2) f by (auto simp: rows_at_def store_at)
qed

lemma c_str_id: "NUL \<notin> set a \<Longrightarrow> c_str (a @ NUL # b) = a"
  unfolding c_str_def by (subst takeWhile_append2) auto

lemma strncpy_title:
  assumes "NUL \<notin> set title"
  shows "length (strncpy_bytes title n) = n" "c_str (strncpy_bytes title n @ NUL # b) = take n title"
proof -
  have t: "c_str title = title" using assms unfolding c_str_def by (intro takeWhile_eq_all_conv [THEN iffD2]) auto
  show "length (strncpy_bytes title n) = n" by (simp add: strncpy_bytes_def)
  have n: "NUL \<notin> set (take n title)" using assms by (auto dest: in_set_takeD)
  have "strncpy_bytes title n @ NUL # b = take n title @ replicate (n - length title) NUL @ NUL # b"
    by (simp add: strncpy_bytes_def t)
  also have "c_str \<dots> = take n title"
    using c_str_id [OF n] by (cases "n - length title") (simp_all del: append_assoc)
  finally show "c_str (strncpy_bytes title n @ NUL # b) = take n title" .
qed

lemma load_stored: "load (store m p cs) p (length cs + 1) = cs @ [m (p + int (length cs))]"
  by (rule nth_equalityI) (auto simp: load_nth store_at nth_append less_Suc_eq simp del: load.simps)

section \<open>Properties\<close>

lemma get_stored_title:
  assumes "cmem v = store m base cs" "title_str v = base" "title_len v = n" "length cs = n" "n \<noteq> 0" "base > 0"
  shows "uv_get_process_title False sz v =
    Some (if sz = 0 then Inl (- EINVAL) else if sz < Suc n then Inl (- ENOBUFS) else Inr (cs @ [NUL]))"
proof -
  have "load (cmem v) base (n + 1) = cs @ [m (base + int n)]" using load_stored [of m base cs] assms(1,4) by simp
  then have "(load (cmem v) base (n + 1))[n := NUL] = cs @ [NUL]" using assms(4) by (simp add: list_update_append del: load.simps)
  then show ?thesis using assms(2,3,5,6) by (auto simp: uv_get_process_title_def)
qed

text \<open>C29: when the arguments are adjacent strings, as the system gives them, \<open>uv_setup_args\<close> returns a
  table of their copies; setting a title afterwards leaves the copies as they are, and the title is
  read back cut to the length of the original arguments, or \<open>UV_ENOBUFS\<close> is returned when the buffer
  does not have room for that length and the final 0.
\<close>
theorem title_roundtrip:
  assumes as: "as \<noteq> []" "rows_at (cmem s) (row base as) as" and t: "NUL \<notin> set title"
    and r: "replies s = r # p # rs" "r_ret r > 0"
    and d: "r_ret r + (int (length as) + 1) * 8 + int (row_size as) \<le> base \<or> base + int (row_size as) \<le> r_ret r"
  shows "\<exists>ps u v. uv_setup_args (row base as) s = Some (ps, u) \<and> uv_set_process_title title u = Some (0, v)
    \<and> rows_at (cmem v) ps as
    \<and> (\<exists>b. uv_get_process_title False sz v =
           Some (if sz = 0 then Inl (- EINVAL) else if sz < row_size as then Inl (- ENOBUFS) else Inr b)
         \<and> length b = row_size as \<and> c_str b = take (row_size as - 1) title)"
proof -
  let ?n = "row_size as - 1" and ?q = "r_ret r + (int (length as) + 1) * 8"
  have pos: "row_size as > 0" "base > 0" using as by (cases as; auto simp: rows_at_def str_at_def)+
  have ne: "row base as \<noteq> []" "hd (row base as) = base" using as(1) by (cases as; simp)+
  have len: "nat (last (row base as) + int (length (last as)) - base) = ?n"
    "last (row base as) + int (length (last as)) - base + 1 = int (row_size as)"
    using row_last [OF as(1), of base] by auto
  have q: "?q > 0" "?q + int (row_size as) \<le> base \<or> base + int (row_size as) \<le> ?q" using r(2) d by auto
  obtain m where m: "copy_args (row base as) ?q (cmem s) = Some (row ?q as, m)" "rows_at m (row ?q as) as"
    using copy_args_row [OF as(2) q] by blast
  define u where "u = s\<lparr>title_str := base, title_len := ?n, args_mem := r_ret r, cmem := m, replies := p # rs,
    syscalls := syscalls s @ [(Malloc (int (row_size as) + (int (length as) + 1) * 8), r_ret r)]\<rparr>"
  have u: "uv_setup_args (row base as) s = Some (row ?q as, u)"
    using ne r m(1) [unfolded ring_distribs, simplified] by (simp add: uv_setup_args_def rows_size [OF as(2)] str_at_strlen [OF rows_last [OF as(2,1)]] Let_def len m u_def)
  have uf: "title_str u = base" "title_len u = ?n" "cmem u = m" "replies u = p # rs" by (simp_all add: u_def)
  let ?cs = "strncpy_bytes title ?n"
  define w where "w = u\<lparr>cmem := store m base ?cs\<rparr>"
  have wr: "replies w = p # rs" by (simp add: w_def uf)
  obtain v where v: "uv__set_process_title title w = Some v" "cmem v = cmem w" "title_str v = title_str w" "title_len v = title_len w"
    by (simp add: uv__set_process_title_def syscall_cons [OF wr])
  have vf: "cmem v = store m base ?cs" "title_str v = base" "title_len v = ?n" using v by (simp_all add: w_def uf)
  have ln: "length ?cs = ?n" by (rule strncpy_title(1) [OF t])
  have k: "rows_at (cmem v) (row ?q as) as"
    unfolding vf using q(2) pos(1) by (intro rows_at_store [OF m(2)]) (auto simp: ln [simplified])
  show ?thesis
  proof (cases "?n = 0")
    case True
    then have "uv_set_process_title title u = Some (0, u)" by (simp add: uv_set_process_title_def uf)
    moreover have "c_str [NUL] = []" by (simp add: c_str_def)
    ultimately show ?thesis
      using u m(2) pos True by (intro exI [of _ "row ?q as"] exI [of _ u]) (auto simp: uf uv_get_process_title_def intro!: exI [of _ "[NUL]"])
  next
    case False
    then have "uv_set_process_title title u = Some (0, v)" using v(1) by (simp add: uv_set_process_title_def uf w_def)
    moreover have "uv_get_process_title False sz v =
      Some (if sz = 0 then Inl (- EINVAL) else if sz < row_size as then Inl (- ENOBUFS) else Inr (?cs @ [NUL]))"
      using get_stored_title [OF vf ln False pos(2), of sz] pos(1) by simp
    ultimately show ?thesis
      using u k strncpy_title [OF t, of ?n] pos
      by (intro exI [of _ "row ?q as"] exI [of _ u] exI [of _ v]) (auto intro!: exI [of _ "?cs @ [NUL]"])
  qed
qed

text \<open>The arguments \<open>ab\<close> and \<open>c\<close> at 100, the copies in an allocation at 4096, and the title \<open>xyzw\<close>.\<close>

definition two_args :: "int \<Rightarrow> char" where
  "two_args = store (\<lambda>_. NUL) 100 (''ab'' @ [NUL] @ ''c'' @ [NUL])"

definition title_process :: "reply list \<Rightarrow> title_state" where
  "title_process rs = kern.extend (kern_with rs) \<lparr>cmem = two_args, title_str = 0, title_len = 0, args_mem = 0\<rparr>"

lemma title_roundtrip_witness:
  "\<exists>ps u v b. uv_setup_args [100, 103] (title_process [ret 4096, ret 0]) = Some (ps, u) \<and> uv_set_process_title ''xyzwv'' u = Some (0, v)
    \<and> rows_at (cmem v) ps [''ab'', ''c''] \<and> uv_get_process_title False 5 v = Some (Inr b) \<and> c_str b = ''xyzw''"
proof -
  have a: "row 100 [''ab'', ''c''] = [100, 103]" "row_size [''ab'', ''c''] = 5" by simp_all
  have c: "cmem (title_process rs) = two_args" "replies (title_process rs) = rs" for rs
    by (simp_all add: title_process_def kern.defs kern_with_def)
  have "str_at two_args 100 ''ab''" "str_at two_args 103 ''c''"
    by (auto simp: str_at_def two_args_def store_at less_Suc_eq_le numeral_eq_Suc le_Suc_eq)
  then have "rows_at (cmem (title_process [ret 4096, ret 0])) (row 100 [''ab'', ''c'']) [''ab'', ''c'']"
    unfolding a c by (simp add: rows_at_def)
  moreover have r: "r_ret (ret 4096) = 4096" by (simp add: ret_def)
  ultimately have "\<exists>ps u v. uv_setup_args (row 100 [''ab'', ''c'']) (title_process [ret 4096, ret 0]) = Some (ps, u)
    \<and> uv_set_process_title ''xyzwv'' u = Some (0, v) \<and> rows_at (cmem v) ps [''ab'', ''c'']
    \<and> (\<exists>b. uv_get_process_title False 5 v =
           Some (if (5::nat) = 0 then Inl (- EINVAL) else if 5 < row_size [''ab'', ''c''] then Inl (- ENOBUFS) else Inr b)
         \<and> length b = row_size [''ab'', ''c''] \<and> c_str b = take (row_size [''ab'', ''c''] - 1) ''xyzwv'')"
    by (intro title_roundtrip [where p = "ret 0" and rs = "[]" and r = "ret 4096"]) (simp_all add: c r)
  then show ?thesis unfolding a by (auto simp: numeral_eq_Suc)
qed

text \<open>
  Two uses the code does not guard: reading the title of a process that has not called
  \<open>uv_setup_args\<close> dereferences the null pointer, and when the allocation of the copies fails,
  the arguments themselves are returned although the title will overwrite them.
\<close>

lemma title_before_setup: "title_str s = 0 \<Longrightarrow> title_len s = 0 \<Longrightarrow> sz > 0 \<Longrightarrow> uv_get_process_title False sz s = None"
  by (simp add: uv_get_process_title_def)

lemma title_shares_arguments:
  assumes "as \<noteq> []" "rows_at (cmem s) (row base as) as" "replies s = r # rs" "r_ret r = - 1"
  shows "\<exists>u. uv_setup_args (row base as) s = Some (row base as, u) \<and> title_str u = hd (row base as)"
proof -
  have ne: "row base as \<noteq> []" using assms(1) by (cases as) simp_all
  have h: "hd (row base as) = base" using assms(1) by (cases as) simp_all
  have "last (row base as) + int (length (last as)) - base + 1 = int (row_size as)"
    using row_last [OF assms(1), of base] by simp
  then show ?thesis
    using assms(3,4) ne h by (simp add: uv_setup_args_def rows_size [OF assms(2)] str_at_strlen [OF rows_last [OF assms(2,1)]] Let_def)
qed

end
