(* ===== verification/Dl.thy ===== *)
theory Dl
  imports Linux_Info
begin

unbundle bit_operations_syntax

text \<open>
  \<open>src/unix/dl.cpp\<close>, shared libraries, and \<open>src/version.cpp\<close>.  The dynamic linker is the system's: a
  call of \<open>dlerror\<close> returns the message of the last error and forgets it, so its reply has the message
  or none.  \<open>freed\<close> lists the messages that were freed.
\<close>

record uv_lib =
  lib_handle :: int
  lib_errmsg :: "string option"

record dl_state = kern +
  lib :: uv_lib
  freed :: "string list"

abbreviation (input) RTLD_LAZY :: int where "RTLD_LAZY \<equiv> 1"
abbreviation (input) Dlerror :: syscall where "Dlerror \<equiv> Sys ''dlerror'' []"

definition free_errmsg :: "'a dl_state_scheme \<Rightarrow> 'a dl_state_scheme" where
  "free_errmsg s = (case lib_errmsg (lib s) of None \<Rightarrow> s | Some e \<Rightarrow> s\<lparr>freed := freed s @ [e]\<rparr>)"

definition set_errmsg :: "string option \<Rightarrow> 'a dl_state_scheme \<Rightarrow> 'a dl_state_scheme" where
  "set_errmsg e s = s\<lparr>lib := (lib s)\<lparr>lib_errmsg := e\<rparr>\<rparr>"

definition uv__dlerror :: "'a dl_state_scheme \<Rightarrow> (int \<times> 'a dl_state_scheme) option" where
  "uv__dlerror s = do {
     let s = free_errmsg s;
     (m, s) \<leftarrow> syscall Dlerror s;
     case r_str m of
       Some errmsg \<Rightarrow> do {
         (p, s) \<leftarrow> syscall (Malloc (int (length errmsg) + 1)) s;
         Some (- 1, set_errmsg (if r_ret p = - 1 then None else Some errmsg) s)
       }
     | None \<Rightarrow> Some (0, set_errmsg None s)
   }"

definition uv_dlopen :: "string \<Rightarrow> 'a dl_state_scheme \<Rightarrow> (int \<times> 'a dl_state_scheme) option" where
  "uv_dlopen filename s = do {
     (_, s) \<leftarrow> syscall Dlerror s;
     let s = set_errmsg None s;
     (h, s) \<leftarrow> syscall (SysPath ''dlopen'' [filename] [RTLD_LAZY]) s;
     let s = s\<lparr>lib := (lib s)\<lparr>lib_handle := r_ret h\<rparr>\<rparr>;
     if lib_handle (lib s) \<noteq> 0 then Some (0, s) else uv__dlerror s
   }"

definition uv_dlclose :: "'a dl_state_scheme \<Rightarrow> 'a dl_state_scheme option" where
  "uv_dlclose s = do {
     let s = set_errmsg None (free_errmsg s);
     if lib_handle (lib s) \<noteq> 0 then do {
       (_, s) \<leftarrow> syscall (Sys ''dlclose'' [lib_handle (lib s)]) s;
       Some (s\<lparr>lib := (lib s)\<lparr>lib_handle := 0\<rparr>\<rparr>)
     } else Some s
   }"

definition uv_dlsym :: "string \<Rightarrow> 'a dl_state_scheme \<Rightarrow> ((int \<times> int) \<times> 'a dl_state_scheme) option" where
  "uv_dlsym name s = do {
     (_, s) \<leftarrow> syscall Dlerror s;
     (p, s) \<leftarrow> syscall (SysPath ''dlsym'' [name] [lib_handle (lib s)]) s;
     (r, s) \<leftarrow> uv__dlerror s;
     Some ((r, r_ret p), s)
   }"

definition uv_dlerror :: "'a dl_state_scheme \<Rightarrow> string" where
  "uv_dlerror s = (case lib_errmsg (lib s) of Some e \<Rightarrow> e | None \<Rightarrow> ''no error'')"

section \<open>The version\<close>

abbreviation (input) UV_VERSION_MAJOR :: u32 where "UV_VERSION_MAJOR \<equiv> 1"
abbreviation (input) UV_VERSION_MINOR :: u32 where "UV_VERSION_MINOR \<equiv> 11"
abbreviation (input) UV_VERSION_PATCH :: u32 where "UV_VERSION_PATCH \<equiv> 1"

definition uv_version :: u32 where
  "uv_version = push_bit 16 UV_VERSION_MAJOR OR push_bit 8 UV_VERSION_MINOR OR UV_VERSION_PATCH"

definition uv_version_string :: string where
  "uv_version_string = ''1'' @ ''.'' @ ''11'' @ ''.'' @ ''1'' @ ''-'' @ ''dev''"

section \<open>Properties\<close>

definition message :: "'a dl_state_scheme \<Rightarrow> string list" where
  "message s = (case lib_errmsg (lib s) of None \<Rightarrow> [] | Some e \<Rightarrow> [e])"

lemma dl_syscall: "syscall c s = Some (r, t) \<Longrightarrow> lib t = lib s \<and> freed t = freed s"
  by (auto simp: syscall_def split: list.splits)

lemma free_errmsg_simps [simp]: "lib (free_errmsg s) = lib s" "freed (free_errmsg s) = freed s @ message s"
  by (simp_all add: free_errmsg_def message_def split: option.splits)

lemma set_errmsg_simps [simp]:
  "lib_errmsg (lib (set_errmsg e s)) = e" "lib_handle (lib (set_errmsg e s)) = lib_handle (lib s)" "freed (set_errmsg e s) = freed s"
  by (simp_all add: set_errmsg_def)

lemma dlerror_message:
  assumes "uv__dlerror s = Some (r, t)"
  shows "freed t = freed s @ message s \<and> lib_handle (lib t) = lib_handle (lib s) \<and> (r = 0 \<longrightarrow> message t = [])"
  using assms by (auto simp: uv__dlerror_def Let_def Option.bind_eq_Some_conv message_def split: option.splits dest!: dl_syscall)

lemma dlsym_message:
  assumes "uv_dlsym name s = Some (rp, t)"
  shows "freed t = freed s @ message s \<and> lib_handle (lib t) = lib_handle (lib s) \<and> (fst rp = 0 \<longrightarrow> message t = [])"
  using assms by (auto simp: uv_dlsym_def message_def Option.bind_eq_Some_conv dest!: dl_syscall dlerror_message)

text \<open>Several symbols, and the messages the library has held in between.\<close>

fun dlsyms :: "string list \<Rightarrow> 'a dl_state_scheme \<Rightarrow> (string list \<times> 'a dl_state_scheme) option" where
  "dlsyms [] s = Some ([], s)"
| "dlsyms (n # ns) s = do {
     (_, u) \<leftarrow> uv_dlsym n s;
     (ms, t) \<leftarrow> dlsyms ns u;
     Some (message u @ ms, t)
   }"

lemma dlsyms_message: "dlsyms ns s = Some (ms, t) \<Longrightarrow> freed t @ message t = freed s @ message s @ ms"
proof (induction ns arbitrary: s ms)
  case (Cons n ns)
  from Cons.prems obtain rp u ms' where u: "uv_dlsym n s = Some (rp, u)" "dlsyms ns u = Some (ms', t)" "ms = message u @ ms'"
    by (auto simp: Option.bind_eq_Some_conv)
  show ?case using Cons.IH [OF u(2)] dlsym_message [OF u(1)] u(3) by simp
qed simp

lemma dlclose_message: "uv_dlclose s = Some t \<Longrightarrow> freed t = freed s @ message s \<and> message t = [] \<and> lib_handle (lib t) = 0"
  by (auto simp: uv_dlclose_def Let_def message_def Option.bind_eq_Some_conv split: if_splits dest!: dl_syscall)

text \<open>
  After a library has been opened, however many symbols were looked up and whatever the linker
  answered, closing it has freed every message that was ever stored, each once and in order.
\<close>
theorem dl_messages_freed:
  assumes "uv_dlopen file s = Some (0, s1)" "dlsyms names s1 = Some (ms, s2)" "uv_dlclose s2 = Some s3" "freed s = []"
  shows "freed s3 = ms \<and> uv_dlerror s3 = ''no error'' \<and> lib_handle (lib s3) = 0"
proof -
  have "freed s1 = [] \<and> message s1 = []"
    using assms(1,4) by (auto simp: uv_dlopen_def Let_def message_def Option.bind_eq_Some_conv split: if_splits option.splits
      dest!: dl_syscall dlerror_message)
  then show ?thesis
    using dlsyms_message [OF assms(2)] dlclose_message [OF assms(3)]
    by (auto simp: uv_dlerror_def message_def split: option.splits)
qed

end
