(* ===== verification/Rb_Tree.thy ===== *)
theory Rb_Tree
  imports Prelude "HOL-Library.Monad_Syntax" "HOL-Library.Tree"
begin

text \<open>
  The intrusive red-black tree of \<open>include/tree.h\<close>, pointer by pointer: the macros and the functions
  that \<open>RB_GENERATE\<close> makes.  A store maps the address of an element to its entry.  Reading through
  the null pointer has no result, and a loop that did not end would have none either, so that a
  result is part of every property.  The code has each case twice, once for either side; the
  definitions take the side as an argument, \<open>Lf\<close> where the code tests \<open>RB_LEFT\<close>.  The macros of
  the splay tree have no use in the library.
\<close>

section \<open>Entries and links\<close>

datatype rb_color = RB_BLACK | RB_RED

record rb_entry =
  rbe_left :: ptr
  rbe_right :: ptr
  rbe_parent :: ptr
  rbe_color :: rb_color

record rb_head =
  rbh_root :: ptr
  rbh_mem :: "addr \<Rightarrow> rb_entry"

datatype side = Lf | Rt

fun other :: "side \<Rightarrow> side" where
  "other Lf = Rt"
| "other Rt = Lf"

fun rb_child :: "side \<Rightarrow> rb_head \<Rightarrow> addr \<Rightarrow> ptr" where
  "rb_child Lf h x = rbe_left (rbh_mem h x)"
| "rb_child Rt h x = rbe_right (rbh_mem h x)"

abbreviation (input) RB_LEFT :: "rb_head \<Rightarrow> addr \<Rightarrow> ptr" where "RB_LEFT \<equiv> rb_child Lf"
abbreviation (input) RB_RIGHT :: "rb_head \<Rightarrow> addr \<Rightarrow> ptr" where "RB_RIGHT \<equiv> rb_child Rt"

definition RB_PARENT :: "rb_head \<Rightarrow> addr \<Rightarrow> ptr" where
  "RB_PARENT h x = rbe_parent (rbh_mem h x)"

definition RB_COLOR :: "rb_head \<Rightarrow> addr \<Rightarrow> rb_color" where
  "RB_COLOR h x = rbe_color (rbh_mem h x)"

definition set_entry :: "addr \<Rightarrow> (rb_entry \<Rightarrow> rb_entry) \<Rightarrow> rb_head \<Rightarrow> rb_head" where
  "set_entry x f h = h\<lparr>rbh_mem := (rbh_mem h)(x := f (rbh_mem h x))\<rparr>"

fun set_child :: "side \<Rightarrow> addr \<Rightarrow> ptr \<Rightarrow> rb_head \<Rightarrow> rb_head" where
  "set_child Lf x p h = set_entry x (\<lambda>e. e\<lparr>rbe_left := p\<rparr>) h"
| "set_child Rt x p h = set_entry x (\<lambda>e. e\<lparr>rbe_right := p\<rparr>) h"

definition set_par :: "addr \<Rightarrow> ptr \<Rightarrow> rb_head \<Rightarrow> rb_head" where
  "set_par x p h = set_entry x (\<lambda>e. e\<lparr>rbe_parent := p\<rparr>) h"

definition set_col :: "addr \<Rightarrow> rb_color \<Rightarrow> rb_head \<Rightarrow> rb_head" where
  "set_col x k h = set_entry x (\<lambda>e. e\<lparr>rbe_color := k\<rparr>) h"

definition set_root :: "ptr \<Rightarrow> rb_head \<Rightarrow> rb_head" where
  "set_root p h = h\<lparr>rbh_root := p\<rparr>"

text \<open>\<open>if (p) RB_PARENT(p) = q\<close>, and the same for the color.\<close>

definition set_par_of :: "ptr \<Rightarrow> ptr \<Rightarrow> rb_head \<Rightarrow> rb_head" where
  "set_par_of p q h = (case p of None \<Rightarrow> h | Some c \<Rightarrow> set_par c q h)"

definition set_col_of :: "ptr \<Rightarrow> rb_color \<Rightarrow> rb_head \<Rightarrow> rb_head" where
  "set_col_of p k h = (case p of None \<Rightarrow> h | Some c \<Rightarrow> set_col c k h)"

text \<open>The link to \<open>old\<close>, from its parent or from the head, becomes \<open>new\<close>.\<close>

definition replace_child :: "ptr \<Rightarrow> ptr \<Rightarrow> ptr \<Rightarrow> rb_head \<Rightarrow> rb_head" where
  "replace_child parent old new h =
     (case parent of
        None \<Rightarrow> set_root new h
      | Some p \<Rightarrow> if RB_LEFT h p = old then set_child Lf p new h else set_child Rt p new h)"

definition RB_SET :: "addr \<Rightarrow> ptr \<Rightarrow> rb_head \<Rightarrow> rb_head" where
  "RB_SET elm parent h = set_col elm RB_RED (set_child Rt elm None (set_child Lf elm None (set_par elm parent h)))"

definition RB_SET_BLACKRED :: "addr \<Rightarrow> addr \<Rightarrow> rb_head \<Rightarrow> rb_head" where
  "RB_SET_BLACKRED black red h = set_col red RB_RED (set_col black RB_BLACK h)"

definition is_black :: "rb_head \<Rightarrow> ptr \<Rightarrow> bool" where
  "is_black h p = (case p of None \<Rightarrow> True | Some x \<Rightarrow> RB_COLOR h x = RB_BLACK)"

text \<open>\<open>RB_ROTATE_LEFT\<close> is \<open>RB_ROTATE Lf\<close>, \<open>RB_ROTATE_RIGHT\<close> is \<open>RB_ROTATE Rt\<close>.\<close>

definition RB_ROTATE :: "side \<Rightarrow> addr \<Rightarrow> rb_head \<Rightarrow> rb_head option" where
  "RB_ROTATE d elm h = do {
     tmp \<leftarrow> rb_child (other d) h elm;
     let h = set_child (other d) elm (rb_child d h tmp) h;
     let h = set_par_of (rb_child (other d) h elm) (Some elm) h;
     let h = set_par tmp (RB_PARENT h elm) h;
     let h = replace_child (RB_PARENT h elm) (Some elm) (Some tmp) h;
     let h = set_child d tmp (Some elm) h;
     Some (set_par elm (Some tmp) h)
   }"

section \<open>Insertion\<close>

text \<open>The statement after the loop.\<close>

definition insert_end :: "rb_head \<Rightarrow> rb_head option" where
  "insert_end h = do { r \<leftarrow> rbh_root h; Some (set_col r RB_BLACK h) }"

partial_function (option) RB_INSERT_COLOR :: "addr \<Rightarrow> rb_head \<Rightarrow> rb_head option" where
  "RB_INSERT_COLOR elm h =
     (case RB_PARENT h elm of
        None \<Rightarrow> insert_end h
      | Some parent \<Rightarrow>
          if RB_COLOR h parent \<noteq> RB_RED then insert_end h
          else do {
            gparent \<leftarrow> RB_PARENT h parent;
            let d = (if Some parent = RB_LEFT h gparent then Lf else Rt);
            let tmp = rb_child (other d) h gparent;
            if \<not> is_black h tmp then
              RB_INSERT_COLOR gparent (RB_SET_BLACKRED parent gparent (set_col_of tmp RB_BLACK h))
            else do {
              (elm, parent, h) \<leftarrow> (if rb_child (other d) h parent = Some elm
                then do { h \<leftarrow> RB_ROTATE d parent h; Some (parent, elm, h) }
                else Some (elm, parent, h));
              h \<leftarrow> RB_ROTATE (other d) gparent (RB_SET_BLACKRED parent gparent h);
              RB_INSERT_COLOR elm h
            }
          })"

text \<open>The way down: the last node, with the comparison there, or the node that is equal.\<close>

partial_function (option) insert_walk :: "(addr \<Rightarrow> addr \<Rightarrow> int) \<Rightarrow> addr \<Rightarrow> ptr \<Rightarrow> ptr \<Rightarrow> int \<Rightarrow> rb_head \<Rightarrow> (addr + ptr \<times> int) option" where
  "insert_walk cmp elm tmp parent cmpr h =
     (case tmp of
        None \<Rightarrow> Some (Inr (parent, cmpr))
      | Some t \<Rightarrow>
          if cmp elm t < 0 then insert_walk cmp elm (RB_LEFT h t) (Some t) (cmp elm t) h
          else if cmp elm t > 0 then insert_walk cmp elm (RB_RIGHT h t) (Some t) (cmp elm t) h
          else Some (Inl t))"

definition RB_INSERT :: "(addr \<Rightarrow> addr \<Rightarrow> int) \<Rightarrow> addr \<Rightarrow> rb_head \<Rightarrow> (ptr \<times> rb_head) option" where
  "RB_INSERT cmp elm h = do {
     w \<leftarrow> insert_walk cmp elm (rbh_root h) None 0 h;
     case w of
       Inl t \<Rightarrow> Some (Some t, h)
     | Inr (parent, cmpr) \<Rightarrow> do {
         let h = RB_SET elm parent h;
         let h = (case parent of
                    None \<Rightarrow> set_root (Some elm) h
                  | Some p \<Rightarrow> if cmpr < 0 then set_child Lf p (Some elm) h else set_child Rt p (Some elm) h);
         h \<leftarrow> RB_INSERT_COLOR elm h;
         Some (None, h)
       }
   }"

section \<open>Removal\<close>

partial_function (option) RB_REMOVE_COLOR :: "ptr \<Rightarrow> ptr \<Rightarrow> rb_head \<Rightarrow> rb_head option" where
  "RB_REMOVE_COLOR parent elm h =
     (if is_black h elm \<and> elm \<noteq> rbh_root h then do {
        p \<leftarrow> parent;
        let d = (if RB_LEFT h p = elm then Lf else Rt);
        tmp \<leftarrow> rb_child (other d) h p;
        (tmp, h) \<leftarrow> (if RB_COLOR h tmp = RB_RED then do {
            h \<leftarrow> RB_ROTATE d p (RB_SET_BLACKRED tmp p h);
            tmp \<leftarrow> rb_child (other d) h p;
            Some (tmp, h)
          } else Some (tmp, h));
        if is_black h (RB_LEFT h tmp) \<and> is_black h (RB_RIGHT h tmp) then do {
          let h = set_col tmp RB_RED h;
          RB_REMOVE_COLOR (RB_PARENT h p) (Some p) h
        } else do {
          (tmp, h) \<leftarrow> (if is_black h (rb_child (other d) h tmp) then do {
              let h = set_col_of (rb_child d h tmp) RB_BLACK h;
              let h = set_col tmp RB_RED h;
              h \<leftarrow> RB_ROTATE (other d) tmp h;
              tmp \<leftarrow> rb_child (other d) h p;
              Some (tmp, h)
            } else Some (tmp, h));
          let h = set_col tmp (RB_COLOR h p) h;
          let h = set_col p RB_BLACK h;
          let h = set_col_of (rb_child (other d) h tmp) RB_BLACK h;
          h \<leftarrow> RB_ROTATE d p h;
          Some (set_col_of (rbh_root h) RB_BLACK h)
        }
      } else Some (set_col_of elm RB_BLACK h))"

partial_function (option) rb_descend :: "side \<Rightarrow> addr \<Rightarrow> rb_head \<Rightarrow> addr option" where
  "rb_descend d elm h = (case rb_child d h elm of None \<Rightarrow> Some elm | Some l \<Rightarrow> rb_descend d l h)"

text \<open>Taking out an element with at most one child, up to the label \<open>color\<close>.\<close>

definition rb_unlink :: "addr \<Rightarrow> ptr \<Rightarrow> rb_head \<Rightarrow> rb_head" where
  "rb_unlink elm child h = replace_child (RB_PARENT h elm) (Some elm) child (set_par_of child (RB_PARENT h elm) h)"

text \<open>\<open>elm\<close>, which has been taken out, takes the place of \<open>old\<close>, which has a left child.\<close>

definition rb_transplant :: "addr \<Rightarrow> addr \<Rightarrow> rb_head \<Rightarrow> rb_head option" where
  "rb_transplant old elm h = do {
     let h = set_entry elm (\<lambda>_. rbh_mem h old) h;
     let h = replace_child (RB_PARENT h old) (Some old) (Some elm) h;
     l \<leftarrow> RB_LEFT h old;
     let h = set_par l (Some elm) h;
     Some (set_par_of (RB_RIGHT h old) (Some elm) h)
   }"

definition RB_REMOVE :: "addr \<Rightarrow> rb_head \<Rightarrow> (addr \<times> rb_head) option" where
  "RB_REMOVE elm h =
     (if RB_LEFT h elm = None \<or> RB_RIGHT h elm = None then do {
        let child = (if RB_LEFT h elm = None then RB_RIGHT h elm else RB_LEFT h elm);
        let parent = RB_PARENT h elm;
        let color = RB_COLOR h elm;
        let h = rb_unlink elm child h;
        h \<leftarrow> (if color = RB_BLACK then RB_REMOVE_COLOR parent child h else Some h);
        Some (elm, h)
      } else do {
        let old = elm;
        r \<leftarrow> RB_RIGHT h elm;
        elm \<leftarrow> rb_descend Lf r h;
        let child = RB_RIGHT h elm;
        let parent = RB_PARENT h elm;
        let color = RB_COLOR h elm;
        let h = rb_unlink elm child h;
        let parent = (if RB_PARENT h elm = Some old then Some elm else parent);
        h \<leftarrow> rb_transplant old elm h;
        h \<leftarrow> (if color = RB_BLACK then RB_REMOVE_COLOR parent child h else Some h);
        Some (old, h)
      })"

section \<open>Searching and traversing\<close>

partial_function (option) rb_find_from :: "(addr \<Rightarrow> addr \<Rightarrow> int) \<Rightarrow> addr \<Rightarrow> ptr \<Rightarrow> rb_head \<Rightarrow> ptr option" where
  "rb_find_from cmp elm tmp h =
     (case tmp of
        None \<Rightarrow> Some None
      | Some t \<Rightarrow>
          if cmp elm t < 0 then rb_find_from cmp elm (RB_LEFT h t) h
          else if cmp elm t > 0 then rb_find_from cmp elm (RB_RIGHT h t) h
          else Some (Some t))"

definition RB_FIND :: "(addr \<Rightarrow> addr \<Rightarrow> int) \<Rightarrow> addr \<Rightarrow> rb_head \<Rightarrow> ptr option" where
  "RB_FIND cmp elm h = rb_find_from cmp elm (rbh_root h) h"

partial_function (option) rb_nfind_from :: "(addr \<Rightarrow> addr \<Rightarrow> int) \<Rightarrow> addr \<Rightarrow> ptr \<Rightarrow> ptr \<Rightarrow> rb_head \<Rightarrow> ptr option" where
  "rb_nfind_from cmp elm tmp res h =
     (case tmp of
        None \<Rightarrow> Some res
      | Some t \<Rightarrow>
          if cmp elm t < 0 then rb_nfind_from cmp elm (RB_LEFT h t) (Some t) h
          else if cmp elm t > 0 then rb_nfind_from cmp elm (RB_RIGHT h t) res h
          else Some (Some t))"

definition RB_NFIND :: "(addr \<Rightarrow> addr \<Rightarrow> int) \<Rightarrow> addr \<Rightarrow> rb_head \<Rightarrow> ptr option" where
  "RB_NFIND cmp elm h = rb_nfind_from cmp elm (rbh_root h) None h"

text \<open>Upwards, as long as the element is the child on side \<open>d\<close>, and once more.\<close>

partial_function (option) rb_ascend :: "side \<Rightarrow> addr \<Rightarrow> rb_head \<Rightarrow> ptr option" where
  "rb_ascend d elm h =
     (case RB_PARENT h elm of
        None \<Rightarrow> Some None
      | Some p \<Rightarrow> if Some elm = rb_child d h p then rb_ascend d p h else Some (Some p))"

text \<open>\<open>RB_NEXT\<close> is \<open>rb_step Lf\<close>, \<open>RB_PREV\<close> is \<open>rb_step Rt\<close>.\<close>

definition rb_step :: "side \<Rightarrow> addr \<Rightarrow> rb_head \<Rightarrow> ptr option" where
  "rb_step d elm h =
     (case rb_child (other d) h elm of
        Some c \<Rightarrow> map_option Some (rb_descend d c h)
      | None \<Rightarrow>
          (case RB_PARENT h elm of
             Some p \<Rightarrow> if Some elm = rb_child d h p then Some (Some p) else rb_ascend (other d) elm h
           | None \<Rightarrow> rb_ascend (other d) elm h))"

abbreviation (input) RB_NEXT :: "addr \<Rightarrow> rb_head \<Rightarrow> ptr option" where "RB_NEXT \<equiv> rb_step Lf"
abbreviation (input) RB_PREV :: "addr \<Rightarrow> rb_head \<Rightarrow> ptr option" where "RB_PREV \<equiv> rb_step Rt"

definition RB_MINMAX :: "rb_head \<Rightarrow> int \<Rightarrow> ptr option" where
  "RB_MINMAX h val =
     (case rbh_root h of None \<Rightarrow> Some None | Some t \<Rightarrow> map_option Some (rb_descend (if val < 0 then Lf else Rt) t h))"

text \<open>The elements that \<open>RB_FOREACH\<close> visits from \<open>x\<close> on.\<close>

partial_function (option) rb_foreach_from :: "ptr \<Rightarrow> rb_head \<Rightarrow> addr list option" where
  "rb_foreach_from x h =
     (case x of
        None \<Rightarrow> Some []
      | Some e \<Rightarrow> do { y \<leftarrow> RB_NEXT e h; es \<leftarrow> rb_foreach_from y h; Some (e # es) })"

definition RB_FOREACH :: "rb_head \<Rightarrow> addr list option" where
  "RB_FOREACH h = do { x \<leftarrow> RB_MINMAX h (- 1); rb_foreach_from x h }"

section \<open>Reading after writing\<close>

named_theorems rb_simps \<open>what the updates of entries do to the links and colors\<close>

lemma other_simps [simp]: "other (other d) = d" "other d \<noteq> d" "d \<noteq> other d"
  by (cases d; simp)+

lemma child_set_child [rb_simps]: "rb_child d (set_child d' x p h) y = (if d = d' \<and> y = x then p else rb_child d h y)"
  by (cases d; cases d') (auto simp: set_entry_def)

lemma set_child_other [rb_simps]:
  "RB_PARENT (set_child d x p h) = RB_PARENT h" "RB_COLOR (set_child d x p h) = RB_COLOR h" "rbh_root (set_child d x p h) = rbh_root h"
  by (cases d; auto simp: set_entry_def RB_PARENT_def RB_COLOR_def)+

lemma set_par_simps [rb_simps]:
  "rb_child d (set_par x p h) = rb_child d h" "RB_PARENT (set_par x p h) = (RB_PARENT h)(x := p)"
  "RB_COLOR (set_par x p h) = RB_COLOR h" "rbh_root (set_par x p h) = rbh_root h"
  by (cases d; auto simp: set_par_def set_entry_def RB_PARENT_def RB_COLOR_def)+

lemma set_col_simps [rb_simps]:
  "rb_child d (set_col x k h) = rb_child d h" "RB_PARENT (set_col x k h) = RB_PARENT h"
  "RB_COLOR (set_col x k h) = (RB_COLOR h)(x := k)" "rbh_root (set_col x k h) = rbh_root h"
  by (cases d; auto simp: set_col_def set_entry_def RB_PARENT_def RB_COLOR_def)+

lemma set_root_simps [rb_simps]:
  "rb_child d (set_root p h) = rb_child d h" "RB_PARENT (set_root p h) = RB_PARENT h"
  "RB_COLOR (set_root p h) = RB_COLOR h" "rbh_root (set_root p h) = p"
  by (cases d; auto simp: set_root_def RB_PARENT_def RB_COLOR_def)+

lemma set_par_of_simps [rb_simps]:
  "rb_child d (set_par_of p q h) = rb_child d h" "RB_PARENT (set_par_of p q h) w = (if p = Some w then q else RB_PARENT h w)"
  "RB_COLOR (set_par_of p q h) = RB_COLOR h" "rbh_root (set_par_of p q h) = rbh_root h"
  by (auto simp: set_par_of_def rb_simps split: option.splits)

lemma set_col_of_simps [rb_simps]:
  "rb_child d (set_col_of p k h) = rb_child d h" "RB_PARENT (set_col_of p k h) = RB_PARENT h"
  "RB_COLOR (set_col_of p k h) w = (if p = Some w then k else RB_COLOR h w)" "rbh_root (set_col_of p k h) = rbh_root h"
  by (auto simp: set_col_of_def rb_simps split: option.splits)

lemma replace_child_simps [rb_simps]:
  "RB_PARENT (replace_child q p p' h) = RB_PARENT h" "RB_COLOR (replace_child q p p' h) = RB_COLOR h"
  "rbh_root (replace_child q p p' h) = (if q = None then p' else rbh_root h)"
  "rb_child d (replace_child q p p' h) w =
     (if q = Some w \<and> d = (if RB_LEFT h w = p then Lf else Rt) then p' else rb_child d h w)"
  by (auto simp: replace_child_def rb_simps split: option.splits simp del: set_child.simps rb_child.simps)

declare rb_child.simps [simp del] set_child.simps [simp del]

section \<open>Trees in the store\<close>

text \<open>A node with the subtree \<open>a\<close> on the side \<open>d\<close>; \<open>shape h q p t\<close>: at \<open>p\<close>, below \<open>q\<close>, is the tree \<open>t\<close>.\<close>

definition nd :: "side \<Rightarrow> addr tree \<Rightarrow> addr \<Rightarrow> addr tree \<Rightarrow> addr tree" where
  "nd d a x b = (case d of Lf \<Rightarrow> \<langle>a, x, b\<rangle> | Rt \<Rightarrow> \<langle>b, x, a\<rangle>)"

fun shape :: "rb_head \<Rightarrow> ptr \<Rightarrow> ptr \<Rightarrow> addr tree \<Rightarrow> bool" where
  "shape h q p \<langle>\<rangle> \<longleftrightarrow> p = None"
| "shape h q p \<langle>l, x, r\<rangle> \<longleftrightarrow> p = Some x \<and> RB_PARENT h x = q
     \<and> shape h (Some x) (RB_LEFT h x) l \<and> shape h (Some x) (RB_RIGHT h x) r"

lemma shape_nd [simp]:
  "shape h q p (nd d a x b) \<longleftrightarrow> p = Some x \<and> RB_PARENT h x = q
     \<and> shape h (Some x) (rb_child d h x) a \<and> shape h (Some x) (rb_child (other d) h x) b"
  by (cases d) (auto simp: nd_def)

lemma nd_simps [simp]:
  "set_tree (nd d a x b) = insert x (set_tree a \<union> set_tree b)" "nd d a x b \<noteq> \<langle>\<rangle>"
  "distinct (inorder (nd d a x b)) \<longleftrightarrow> x \<notin> set_tree a \<and> x \<notin> set_tree b \<and> distinct (inorder a) \<and> distinct (inorder b)
     \<and> set_tree a \<inter> set_tree b = {}"
  by (cases d; auto simp: nd_def)+

lemma nd_cases: "t = \<langle>\<rangle> \<or> (\<exists>a x b. t = nd d a x b)"
  by (cases t; cases d) (auto simp: nd_def)

lemma inorder_nd: "inorder (nd d a x b) = (if d = Lf then inorder a @ x # inorder b else inorder b @ x # inorder a)"
  by (cases d) (auto simp: nd_def)

lemma inorder_rotate: "inorder (nd d (nd d a x b) y e) = inorder (nd d a x (nd d b y e))"
  by (cases d) (auto simp: nd_def)

lemma shape_ptr: "shape h q p t \<Longrightarrow> (p = None \<longleftrightarrow> t = \<langle>\<rangle>) \<and> (\<forall>w. p = Some w \<longrightarrow> w \<in> set_tree t)"
  by (cases t) auto

lemma shape_moved:
  assumes "shape h q p t" "distinct (inorder t)" "\<And>w d. w \<in> set_tree t \<Longrightarrow> rb_child d h' w = rb_child d h w"
    and "\<And>w. w \<in> set_tree t \<Longrightarrow> p \<noteq> Some w \<Longrightarrow> RB_PARENT h' w = RB_PARENT h w" "\<And>w. p = Some w \<Longrightarrow> RB_PARENT h' w = q'"
  shows "shape h' q' p t"
  using assms
proof (induction t arbitrary: q p q')
  case (Node l x r)
  have p: "p = Some x" using Node.prems(1) by simp
  have "shape h' (Some x) (RB_LEFT h x) l"
  proof (rule Node.IH(1))
    show "shape h (Some x) (RB_LEFT h x) l" "distinct (inorder l)" using Node.prems(1,2) by auto
    show "RB_PARENT h' w = Some x" if "RB_LEFT h x = Some w" for w
    proof -
      have w: "w \<in> set_tree l" "RB_PARENT h w = Some x" using that Node.prems(1) by (cases l; simp)+
      then show ?thesis using Node.prems(2) Node.prems(4) [of w] p by auto
    qed
    show "RB_PARENT h' w = RB_PARENT h w" if "w \<in> set_tree l" for w using that Node.prems(2) Node.prems(4) [of w] p by auto
  qed (use Node.prems(3) in auto)
  moreover have "shape h' (Some x) (RB_RIGHT h x) r"
  proof (rule Node.IH(2))
    show "shape h (Some x) (RB_RIGHT h x) r" "distinct (inorder r)" using Node.prems(1,2) by auto
    show "RB_PARENT h' w = Some x" if "RB_RIGHT h x = Some w" for w
    proof -
      have w: "w \<in> set_tree r" "RB_PARENT h w = Some x" using that Node.prems(1) by (cases r; simp)+
      then show ?thesis using Node.prems(2) Node.prems(4) [of w] p by auto
    qed
    show "RB_PARENT h' w = RB_PARENT h w" if "w \<in> set_tree r" for w using that Node.prems(2) Node.prems(4) [of w] p by auto
  qed (use Node.prems(3) in auto)
  ultimately show ?case using Node.prems(3) [of x] Node.prems(5) [OF p] p by simp
qed simp

lemma shape_same:
  assumes "shape h q p t" "\<And>w. w \<in> set_tree t \<Longrightarrow> RB_PARENT h' w = RB_PARENT h w"
    "\<And>w d. w \<in> set_tree t \<Longrightarrow> rb_child d h' w = rb_child d h w"
  shows "shape h' q p t"
  using assms by (induction t arbitrary: q p) auto

text \<open>
  The rest of the tree, from a place in it up to the root: each frame is the side one comes from,
  the node and the other subtree.
\<close>

type_synonym frames = "(side \<times> addr \<times> addr tree) list"

fun plug :: "addr tree \<Rightarrow> frames \<Rightarrow> addr tree" where
  "plug t [] = t"
| "plug t ((d, x, s) # c) = plug (nd d t x s) c"

fun above :: "frames \<Rightarrow> addr set" where
  "above [] = {}"
| "above ((d, x, s) # c) = insert x (set_tree s \<union> above c)"

fun above_distinct :: "frames \<Rightarrow> bool" where
  "above_distinct [] = True"
| "above_distinct ((d, x, s) # c) \<longleftrightarrow> x \<notin> set_tree s \<and> x \<notin> above c \<and> distinct (inorder s) \<and> set_tree s \<inter> above c = {} \<and> above_distinct c"

fun up :: "rb_head \<Rightarrow> ptr \<Rightarrow> ptr \<Rightarrow> frames \<Rightarrow> bool" where
  "up h q p [] \<longleftrightarrow> q = None \<and> rbh_root h = p"
| "up h q p ((d, x, s) # c) \<longleftrightarrow> q = Some x \<and> rb_child d h x = p \<and> shape h (Some x) (rb_child (other d) h x) s
     \<and> up h (RB_PARENT h x) (Some x) c"

lemma set_plug: "set_tree (plug t c) = set_tree t \<union> above c"
  by (induction t c rule: plug.induct) auto

lemma distinct_plug: "distinct (inorder (plug t c)) \<longleftrightarrow> distinct (inorder t) \<and> set_tree t \<inter> above c = {} \<and> above_distinct c"
  by (induction t c rule: plug.induct) auto

lemma shape_plug: "shape h None (rbh_root h) (plug t c) \<longleftrightarrow> (\<exists>q p. up h q p c \<and> shape h q p t)"
  by (induction t c rule: plug.induct) auto

lemma plug_append: "plug t (c1 @ c2) = plug (plug t c1) c2"
  by (induction t c1 rule: plug.induct) auto

lemma up_parent: "up h q p c \<Longrightarrow> (case c of [] \<Rightarrow> q = None | (d, x, s) # _ \<Rightarrow> q = Some x)"
  by (cases c) auto

lemma inorder_plug_cong: "inorder t = inorder t' \<Longrightarrow> inorder (plug t c) = inorder (plug t' c)"
proof (induction c arbitrary: t t')
  case (Cons f c)
  obtain d x s where f: "f = (d, x, s)" by (cases f)
  show ?case unfolding f plug.simps by (rule Cons.IH) (simp add: inorder_nd Cons.prems)
qed simp

lemma up_same:
  assumes "up h q p c" "\<And>w. w \<in> above c \<Longrightarrow> RB_PARENT h' w = RB_PARENT h w"
    "\<And>w d. w \<in> above c \<Longrightarrow> rb_child d h' w = rb_child d h w" "rbh_root h' = rbh_root h"
  shows "up h' q p c"
  using assms
proof (induction h q p c rule: up.induct)
  case (2 h q p d x s c)
  have "shape h' (Some x) (rb_child (other d) h' x) s"
    using 2(2) 2(3) 2(4) by (auto intro: shape_same)
  then show ?case using 2 by simp
qed simp

text \<open>The link down to the hole changes.\<close>

lemma up_moved:
  assumes u: "up h q p c" and ad: "above_distinct c" and par: "\<And>w. w \<in> above c \<Longrightarrow> RB_PARENT h' w = RB_PARENT h w"
    and ch: "\<And>w d. w \<in> above c \<Longrightarrow> q \<noteq> Some w \<Longrightarrow> rb_child d h' w = rb_child d h w"
    and top: "\<And>d x s c'. c = (d, x, s) # c' \<Longrightarrow> rb_child d h' x = p' \<and> rb_child (other d) h' x = rb_child (other d) h x"
    and root: "rbh_root h' = (if q = None then p' else rbh_root h)"
  shows "up h' q p' c"
proof (cases c)
  case Nil
  then show ?thesis using u root by simp
next
  case (Cons f c')
  obtain d x s where f: "f = (d, x, s)" by (cases f)
  have q: "q = Some x" and s: "shape h (Some x) (rb_child (other d) h x) s" and u': "up h (RB_PARENT h x) (Some x) c'"
    using u Cons f by auto
  have x: "x \<notin> set_tree s" "x \<notin> above c'" using ad Cons f by auto
  have "shape h' (Some x) (rb_child (other d) h x) s"
    using s by (rule shape_same) (use par ch x q Cons f in auto)
  moreover have "up h' (RB_PARENT h x) (Some x) c'"
    using u' by (rule up_same) (use par ch x q root Cons f in auto)
  ultimately show ?thesis using q top [OF Cons [unfolded f]] par [of x] Cons f by simp
qed


section \<open>The whole tree\<close>

definition rep :: "rb_head \<Rightarrow> addr tree \<Rightarrow> bool" where
  "rep h T \<longleftrightarrow> shape h None (rbh_root h) T \<and> distinct (inorder T)"

lemma rep_plug:
  "rep h (plug t c) \<longleftrightarrow> (\<exists>q p. up h q p c \<and> shape h q p t) \<and> distinct (inorder t) \<and> set_tree t \<inter> above c = {} \<and> above_distinct c"
  by (auto simp: rep_def shape_plug distinct_plug)

lemma rep_set_col [simp]: "rep (set_col x k h) T = rep h T"
proof -
  have "shape (set_col x k h) q p t = shape h q p t" for q p t by (induction t arbitrary: q p) (auto simp: rb_simps)
  then show ?thesis by (simp add: rep_def rb_simps)
qed

lemma rep_set_col_of [simp]: "rep (set_col_of p k h) T = rep h T"
  by (simp add: set_col_of_def split: option.splits)

lemma RB_SET_BLACKRED_simps [rb_simps]:
  "rb_child d (RB_SET_BLACKRED b r h) = rb_child d h" "RB_PARENT (RB_SET_BLACKRED b r h) = RB_PARENT h"
  "RB_COLOR (RB_SET_BLACKRED b r h) = (RB_COLOR h)(b := RB_BLACK, r := RB_RED)" "rbh_root (RB_SET_BLACKRED b r h) = rbh_root h"
  by (simp_all add: RB_SET_BLACKRED_def rb_simps)

lemma rep_SET_BLACKRED [simp]: "rep (RB_SET_BLACKRED b r h) T = rep h T"
  by (simp add: RB_SET_BLACKRED_def)

lemma rotate_reads:
  assumes "rb_child (other d) h x = Some y" "x \<noteq> y" "RB_PARENT h x \<notin> {Some x, Some y}" "rb_child d h y \<notin> {Some x, Some y}"
  obtains h' where "RB_ROTATE d x h = Some h'" "RB_COLOR h' = RB_COLOR h"
    "rbh_root h' = (if RB_PARENT h x = None then Some y else rbh_root h)"
    "\<And>w. RB_PARENT h' w = (if w = x then Some y else if w = y then RB_PARENT h x
        else if rb_child d h y = Some w then Some x else RB_PARENT h w)"
    "\<And>d' w. rb_child d' h' w = (if w = x \<and> d' = other d then rb_child d h y else if w = y \<and> d' = d then Some x
        else if RB_PARENT h x = Some w \<and> d' = (if RB_LEFT h w = Some x then Lf else Rt) then Some y else rb_child d' h w)"
proof -
  have "RB_ROTATE d x h \<noteq> None" using assms(1) by (simp add: RB_ROTATE_def Let_def)
  then obtain h' where h': "RB_ROTATE d x h = Some h'" by auto
  show thesis
    by (rule that [OF h'])
      (use h' assms in \<open>auto simp: RB_ROTATE_def Let_def rb_simps fun_eq_iff\<close>)
qed

text \<open>A rotation at \<open>x\<close> is the rotation of the tree, and leaves the colors alone.\<close>

lemma rotate_rep:
  assumes r: "rep h (plug (nd d a x (nd d b y e)) c)"
  obtains h' where "RB_ROTATE d x h = Some h'" "rep h' (plug (nd d (nd d a x b) y e) c)" "RB_COLOR h' = RB_COLOR h"
proof -
  from r obtain q where u: "up h q (Some x) c" and s: "shape h q (Some x) (nd d a x (nd d b y e))" and ad: "above_distinct c"
    and di: "distinct (inorder (nd d a x (nd d b y e)))" and dj: "set_tree (nd d a x (nd d b y e)) \<inter> above c = {}"
    unfolding rep_plug by auto
  have q: "RB_PARENT h x = q" "q \<noteq> Some x" "q \<noteq> Some y" using s up_parent [OF u] dj by (auto split: list.splits)
  have ch: "rb_child (other d) h x = Some y" "rb_child d h x \<noteq> Some x" "RB_PARENT h y = Some x"
    and sa: "shape h (Some x) (rb_child d h x) a" and sb: "shape h (Some y) (rb_child d h y) b"
    and se: "shape h (Some y) (rb_child (other d) h y) e"
    using s di shape_ptr [of h "Some x" "rb_child d h x" a] by auto
  have y: "rb_child d h y \<notin> {Some x, Some y}" using shape_ptr [OF sb] di by auto
  have xy: "x \<noteq> y" "x \<notin> set_tree a" "y \<notin> set_tree a" "x \<notin> set_tree b" "y \<notin> set_tree b" "x \<notin> set_tree e" "y \<notin> set_tree e"
    "set_tree a \<inter> set_tree b = {}" "set_tree b \<inter> set_tree e = {}" "set_tree a \<inter> set_tree e = {}" using di by auto
  have "RB_PARENT h x \<notin> {Some x, Some y}" using q by auto
  from rotate_reads [OF ch(1) xy(1) this y] obtain h' where h': "RB_ROTATE d x h = Some h'" "RB_COLOR h' = RB_COLOR h"
    and ro: "rbh_root h' = (if q = None then Some y else rbh_root h)"
    and pa: "\<And>w. RB_PARENT h' w = (if w = x then Some y else if w = y then q else if rb_child d h y = Some w then Some x else RB_PARENT h w)"
    and ci: "\<And>d' w. rb_child d' h' w = (if w = x \<and> d' = other d then rb_child d h y else if w = y \<and> d' = d then Some x
        else if q = Some w \<and> d' = (if RB_LEFT h w = Some x then Lf else Rt) then Some y else rb_child d' h w)"
    unfolding q(1) by blast
  have qn: "q = Some w \<Longrightarrow> w \<in> above c" for w using up_parent [OF u] by (auto split: list.splits)
  have bw: "rb_child d h y = Some w \<Longrightarrow> w \<in> set_tree b" for w using shape_ptr [OF sb] by auto
  have "shape h' (Some x) (rb_child d h x) a"
    by (rule shape_same [OF sa]) (use xy qn bw dj in \<open>auto simp: pa ci\<close>)
  moreover have "shape h' (Some x) (rb_child d h y) b"
    by (rule shape_moved [OF sb]) (use xy qn bw dj di in \<open>auto simp: pa ci\<close>)
  moreover have "shape h' (Some y) (rb_child (other d) h y) e"
    by (rule shape_same [OF se]) (use xy qn bw dj in \<open>auto simp: pa ci\<close>)
  ultimately have s': "shape h' q (Some y) (nd d (nd d a x b) y e)" using q xy(1) by (auto simp: pa ci)
  have u': "up h' q (Some y) c"
  proof (rule up_moved [OF u ad])
    show "RB_PARENT h' w = RB_PARENT h w" if "w \<in> above c" for w using that dj bw by (auto simp: pa)
    show "rb_child d' h' w = rb_child d' h w" if "w \<in> above c" "q \<noteq> Some w" for w d' using that dj by (auto simp: ci)
    show "rb_child dd h' z = Some y \<and> rb_child (other dd) h' z = rb_child (other dd) h z" if c: "c = (dd, z, s) # c'" for dd z s c'
    proof -
      have z: "q = Some z" "rb_child dd h z = Some x" and sz: "shape h (Some z) (rb_child (other dd) h z) s" using u c by auto
      have "rb_child (other dd) h z \<noteq> Some x" using shape_ptr [OF sz] dj c by auto
      then have "dd = (if RB_LEFT h z = Some x then Lf else Rt)" using z(2) by (cases dd) auto
      moreover have "z \<noteq> x" "z \<noteq> y" using z(1) q(2,3) by auto
      ultimately show ?thesis using z(1) by (cases dd) (auto simp: ci)
    qed
  qed (rule ro)
  have "rep h' (plug (nd d (nd d a x b) y e) c)"
    unfolding rep_plug using u' s' ad di dj by (auto simp: shape_nd)
  then show thesis by (rule that [OF h'(1) _ h'(2)])
qed

end
