(* ===== verification/Rb_Insert.thy ===== *)
theory Rb_Insert
  imports Rb_Tree
begin

text \<open>
  Insertion into the red-black tree: the invariant of the colors, the loop that restores it on the
  way up, and the walk that finds the place.  The comparison of the elements is a parameter, whose
  laws are those of \<open>tree_order\<close>.
\<close>

section \<open>The invariant of the colors\<close>

definition rt_black :: "(addr \<Rightarrow> rb_color) \<Rightarrow> addr tree \<Rightarrow> bool" where
  "rt_black k t = (case t of \<langle>\<rangle> \<Rightarrow> True | \<langle>l, x, r\<rangle> \<Rightarrow> k x = RB_BLACK)"

text \<open>No red node has a red child, and every path has \<open>n\<close> black nodes.\<close>

fun rbt :: "(addr \<Rightarrow> rb_color) \<Rightarrow> nat \<Rightarrow> addr tree \<Rightarrow> bool" where
  "rbt k n \<langle>\<rangle> \<longleftrightarrow> n = 0"
| "rbt k n \<langle>l, x, r\<rangle> \<longleftrightarrow> (if k x = RB_RED then rt_black k l \<and> rt_black k r \<and> rbt k n l \<and> rbt k n r
     else 0 < n \<and> rbt k (n - 1) l \<and> rbt k (n - 1) r)"

definition balanced :: "(addr \<Rightarrow> rb_color) \<Rightarrow> addr tree \<Rightarrow> bool" where
  "balanced k T \<longleftrightarrow> (\<exists>n. rbt k n T) \<and> rt_black k T"

definition top_black :: "(addr \<Rightarrow> rb_color) \<Rightarrow> frames \<Rightarrow> bool" where
  "top_black k c = (case c of [] \<Rightarrow> True | (d, x, s) # _ \<Rightarrow> k x = RB_BLACK)"

text \<open>The same of the rest of the tree, for a hole that has \<open>n\<close> black nodes on every path.\<close>

fun ctx_rb :: "(addr \<Rightarrow> rb_color) \<Rightarrow> nat \<Rightarrow> frames \<Rightarrow> bool" where
  "ctx_rb k n [] \<longleftrightarrow> True"
| "ctx_rb k n ((d, x, s) # c) \<longleftrightarrow> rbt k n s \<and>
     (if k x = RB_RED then rt_black k s \<and> c \<noteq> [] \<and> top_black k c \<and> ctx_rb k n c else ctx_rb k (Suc n) c)"

lemma rt_black_simps [simp]: "rt_black k \<langle>\<rangle>" "rt_black k \<langle>l, x, r\<rangle> \<longleftrightarrow> k x = RB_BLACK" "rt_black k (nd d a x b) \<longleftrightarrow> k x = RB_BLACK"
  by (cases d; simp add: rt_black_def nd_def)+

lemma top_black_simps [simp]: "top_black k []" "top_black k ((d, x, s) # c) \<longleftrightarrow> k x = RB_BLACK"
  by (simp_all add: top_black_def)

lemma rbt_nd [simp]:
  "rbt k n (nd d a x b) \<longleftrightarrow> (if k x = RB_RED then rt_black k a \<and> rt_black k b \<and> rbt k n a \<and> rbt k n b
     else 0 < n \<and> rbt k (n - 1) a \<and> rbt k (n - 1) b)"
  by (cases d) (auto simp: nd_def)

lemma nd_other: "nd (other d) a x b = nd d b x a"
  by (cases d) (simp_all add: nd_def)

lemma not_red [simp]: "k \<noteq> RB_RED \<longleftrightarrow> k = RB_BLACK" "k \<noteq> RB_BLACK \<longleftrightarrow> k = RB_RED"
  by (cases k; simp)+

lemma rt_black_cong: "(\<And>x. x \<in> set_tree t \<Longrightarrow> k' x = k x) \<Longrightarrow> rt_black k' t = rt_black k t"
  by (cases t) auto

lemma rbt_cong: "(\<And>x. x \<in> set_tree t \<Longrightarrow> k' x = k x) \<Longrightarrow> rbt k' n t = rbt k n t"
  by (induction t arbitrary: n) (auto simp: rt_black_cong [of _ k' k])

lemma ctx_rb_cong: "(\<And>x. x \<in> above c \<Longrightarrow> k' x = k x) \<Longrightarrow> ctx_rb k' n c = ctx_rb k n c"
proof (induction k n c rule: ctx_rb.induct)
  case (2 k n d x s c)
  have "rbt k' n s = rbt k n s" for n by (rule rbt_cong) (simp add: 2)
  moreover have "rt_black k' s = rt_black k s" by (rule rt_black_cong) (simp add: 2)
  moreover have "top_black k' c = top_black k c" using 2(3) by (auto simp: top_black_def split: list.splits)
  ultimately show ?case using 2 by auto
qed simp

lemma plug_rbt: "ctx_rb k n c \<Longrightarrow> rbt k n t \<Longrightarrow> rt_black k t \<or> c \<noteq> [] \<and> top_black k c \<Longrightarrow> \<exists>m. rbt k m (plug t c)"
proof (induction k n c arbitrary: t rule: ctx_rb.induct)
  case (2 k n d x s c)
  show ?case
  proof (cases "k x = RB_RED")
    case True
    then show ?thesis using 2(1) [OF True, of "nd d t x s"] 2(3-) by auto
  next
    case False
    then show ?thesis using 2(2) [OF False, of "nd d t x s"] 2(3-) by auto
  qed
qed auto

lemma plug_rt_black: "ctx_rb k n c \<Longrightarrow> c \<noteq> [] \<or> rt_black k t \<Longrightarrow> rt_black k (plug t c)"
proof (induction k n c arbitrary: t rule: ctx_rb.induct)
  case (2 k n d x s c)
  then show ?case by (cases "k x = RB_RED") auto
qed simp

lemma plug_balanced: "ctx_rb k n c \<Longrightarrow> rbt k n t \<Longrightarrow> rt_black k t \<Longrightarrow> balanced k (plug t c)"
  using plug_rbt [of k n c t] plug_rt_black [of k n c t] by (auto simp: balanced_def)

lemma is_black_shape: "shape h q p t \<Longrightarrow> is_black h p = rt_black (RB_COLOR h) t"
  by (cases t) (auto simp: is_black_def)

lemma side_of:
  assumes "up h q (Some x) ((d, z, s) # c)" "x \<notin> set_tree s"
  shows "(if Some x = RB_LEFT h z then Lf else Rt) = d"
  using assms shape_ptr [of h "Some z" "rb_child (other d) h z" s] by (cases d) auto

section \<open>Restoring the colors after an insertion\<close>

lemma insert_end_rep:
  assumes r: "rep h T" and T: "T \<noteq> \<langle>\<rangle>" "rbt (RB_COLOR h) n T"
  obtains h' where "insert_end h = Some h'" "rep h' T" "balanced (RB_COLOR h') T"
proof -
  from T(1) obtain l x r where t: "T = \<langle>l, x, r\<rangle>" by (cases T) auto
  have root: "rbh_root h = Some x" and di: "x \<notin> set_tree l" "x \<notin> set_tree r" using r by (auto simp: rep_def t)
  let ?k = "(RB_COLOR h)(x := RB_BLACK)"
  have c: "rbt ?k m l = rbt (RB_COLOR h) m l" "rbt ?k m r = rbt (RB_COLOR h) m r" for m
    by (rule rbt_cong; use di in auto)+
  have "balanced ?k T"
  proof (cases "RB_COLOR h x = RB_RED")
    case True
    then have "rbt ?k (Suc n) T" using T(2) c by (simp add: t)
    then show ?thesis by (auto simp: balanced_def t)
  next
    case False
    then have "?k = RB_COLOR h" by auto
    then show ?thesis using T(2) False by (auto simp: balanced_def t)
  qed
  then show thesis using that [of "set_col x RB_BLACK h"] r root by (simp add: insert_end_def rb_simps)
qed

definition restored :: "rb_head option \<Rightarrow> addr list \<Rightarrow> bool" where
  "restored m xs \<longleftrightarrow> (\<exists>h T. m = Some h \<and> rep h T \<and> inorder T = xs \<and> balanced (RB_COLOR h) T)"

lemma insert_color_end:
  assumes "rep h T" "T \<noteq> \<langle>\<rangle>" "rbt (RB_COLOR h) n T" "RB_PARENT h elm = None \<or> (\<exists>p. RB_PARENT h elm = Some p \<and> RB_COLOR h p = RB_BLACK)"
  shows "restored (RB_INSERT_COLOR elm h) (inorder T)"
proof -
  from assms(4) have "RB_INSERT_COLOR elm h = insert_end h" by (subst RB_INSERT_COLOR.simps) auto
  moreover obtain h' where "insert_end h = Some h'" "rep h' T" "balanced (RB_COLOR h') T" by (rule insert_end_rep [OF assms(1-3)])
  ultimately show ?thesis by (auto simp: restored_def)
qed

text \<open>The last rotation: the grandparent \<open>g\<close> goes below the parent \<open>y\<close> of \<open>z\<close>.\<close>

lemma insert_last:
  assumes r: "rep h (plug (nd d s g (nd d m y (nd d' a z b))) c)" and k: "k = RB_COLOR h"
    and t: "rbt k n s" "rt_black k s" "rbt k n m" "rt_black k m" "rbt k n a" "rt_black k a" "rbt k n b" "rt_black k b" "k z = RB_RED"
    and c: "ctx_rb k (Suc n) c"
  shows "restored (do { h \<leftarrow> RB_ROTATE d g (RB_SET_BLACKRED y g h); RB_INSERT_COLOR z h })
    (inorder (plug (nd d s g (nd d m y (nd d' a z b))) c))"
proof -
  let ?h = "RB_SET_BLACKRED y g h" and ?z = "nd d' a z b"
  have r': "rep ?h (plug (nd d s g (nd d m y ?z)) c)" using r by simp
  obtain h' where h': "RB_ROTATE d g ?h = Some h'" "rep h' (plug (nd d (nd d s g m) y ?z) c)" "RB_COLOR h' = RB_COLOR ?h"
    by (rule rotate_rep [OF r'])
  have di: "distinct (inorder (nd d s g (nd d m y ?z)))" "set_tree (nd d s g (nd d m y ?z)) \<inter> above c = {}"
    using r unfolding rep_plug by auto
  define k' where "k' = k(y := RB_BLACK, g := RB_RED)"
  have k': "RB_COLOR h' = k'" using h'(3) k by (simp add: rb_simps k'_def)
  have v: "k' y = RB_BLACK" "k' g = RB_RED" "k' z = RB_RED" using di(1) t(9) by (auto simp: k'_def)
  have cg: "rbt k' j x = rbt k j x" "rt_black k' x = rt_black k x" if "y \<notin> set_tree x" "g \<notin> set_tree x" for j x
    using that by (auto intro!: rbt_cong rt_black_cong simp: k'_def)
  have nb: "y \<notin> set_tree s" "g \<notin> set_tree s" "y \<notin> set_tree m" "g \<notin> set_tree m" "y \<notin> set_tree a" "g \<notin> set_tree a"
    "y \<notin> set_tree b" "g \<notin> set_tree b" using di(1) by auto
  have "rbt k' (Suc n) (nd d (nd d s g m) y ?z)" using t(1-8) by (simp add: cg nb v)
  moreover have "ctx_rb k' (Suc n) c" using c di(2) by (subst ctx_rb_cong [where k = k]) (auto simp: k'_def)
  ultimately obtain j where j: "rbt (RB_COLOR h') j (plug (nd d (nd d s g m) y ?z) c)"
    using plug_balanced [of k' "Suc n" c "nd d (nd d s g m) y ?z"] v by (auto simp: balanced_def k')
  have p: "RB_PARENT h' z = Some y" using h'(2) unfolding rep_plug by auto
  have "plug (nd d (nd d s g m) y ?z) c \<noteq> \<langle>\<rangle>" using set_plug [of "nd d (nd d s g m) y ?z" c] by force
  from insert_color_end [OF h'(2) this j, of z] p v
  have "restored (RB_INSERT_COLOR z h') (inorder (plug (nd d (nd d s g m) y ?z) c))" by (simp add: k')
  moreover have "inorder (plug (nd d (nd d s g m) y ?z) c) = inorder (plug (nd d s g (nd d m y ?z)) c)"
    by (rule inorder_plug_cong) (rule inorder_rotate)
  ultimately show ?thesis using h'(1) by simp
qed

lemma nd_side:
  obtains a' b' where "nd d a x b = nd d' a' x b'" "{a', b'} = {a, b}"
proof (cases "d = d'")
  case True
  then show thesis using that [of a b] by simp
next
  case False
  then have "nd d a x b = nd d' b x a" by (cases d; cases d') (auto simp: nd_def)
  then show thesis by (rule that) auto
qed

text \<open>The loop, from a red element with black children: the parent is black, or the uncle red, or neither.\<close>

lemma insert_color_rep:
  assumes "rep h (plug (nd d0 a x b) c)" "RB_COLOR h x = RB_RED" "rt_black (RB_COLOR h) a" "rt_black (RB_COLOR h) b"
    and "rbt (RB_COLOR h) n a" "rbt (RB_COLOR h) n b" "ctx_rb (RB_COLOR h) n c"
  shows "restored (RB_INSERT_COLOR x h) (inorder (plug (nd d0 a x b) c))"
  using assms
proof (induction c arbitrary: h d0 a x b n rule: measure_induct_rule [where f = length])
  case (less c)
  define k where "k = RB_COLOR h"
  note p = less.prems [folded k_def]
  let ?T = "plug (nd d0 a x b) c"
  from p(1) obtain q where u: "up h q (Some x) c" "RB_PARENT h x = q"
    and di: "distinct (inorder (nd d0 a x b))" "set_tree (nd d0 a x b) \<inter> above c = {}" "above_distinct c"
    unfolding rep_plug by auto
  have tx: "rbt k n (nd d0 a x b)" using p by simp
  show ?case
  proof (cases "top_black k c")
    case True
    obtain m where m: "rbt k m ?T"
    proof (cases "c = []")
      case True
      then show thesis using that [of n] tx by simp
    next
      case False
      then show thesis using that plug_rbt [OF p(7) tx] True by blast
    qed
    have "RB_PARENT h x = None \<or> (\<exists>p. RB_PARENT h x = Some p \<and> RB_COLOR h p = RB_BLACK)"
      using u True by (cases c) (auto simp: k_def)
    moreover have "?T \<noteq> \<langle>\<rangle>" using set_plug [of "nd d0 a x b" c] by force
    ultimately show ?thesis using insert_color_end [OF p(1)] m by (simp add: k_def)
  next
    case False
    then obtain d1 pa s1 c1 where c1: "c = (d1, pa, s1) # c1" and kp: "k pa = RB_RED"
      by (cases c) (auto simp: top_black_def)
    with p(7) obtain f c2 where "c1 = f # c2" by (cases c1) auto
    with c1 obtain d2 g s2 where c: "c = (d1, pa, s1) # (d2, g, s2) # c2" by (cases f) auto
    have kg: "k g = RB_BLACK" and s1: "rbt k n s1" "rt_black k s1" and s2: "rbt k n s2" and c2: "ctx_rb k (Suc n) c2"
      using p(7) kp by (auto simp: c split: if_splits)
    have up: "q = Some pa" "rb_child d1 h pa = Some x" "shape h (Some pa) (rb_child (other d1) h pa) s1"
      "RB_PARENT h pa = Some g" "up h (Some g) (Some pa) ((d2, g, s2) # c2)" "shape h (Some g) (rb_child (other d2) h g) s2"
      using u by (auto simp: c)
    have side: "(if Some pa = RB_LEFT h g then Lf else Rt) = d2"
      by (rule side_of [OF up(5)]) (use di(3) in \<open>simp add: c\<close>)
    note code = RB_INSERT_COLOR.simps [of x h] u(2) up(1,4) kp [unfolded k_def] side is_black_shape [OF up(6), folded k_def] Let_def
    show ?thesis
    proof (cases "rt_black k s2")
      case False
      then obtain d3 l v r where v: "s2 = nd d3 l v r" "k v = RB_RED" using nd_cases [of s2 d2] by auto
      have cv: "rb_child (other d2) h g = Some v" using up(6) v(1) by simp
      let ?h = "RB_SET_BLACKRED pa g (set_col_of (Some v) RB_BLACK h)"
      define kk where "kk = k(v := RB_BLACK, pa := RB_BLACK, g := RB_RED)"
      have eq: "RB_INSERT_COLOR x h = RB_INSERT_COLOR g ?h"
        using False is_black_shape [OF up(6), folded k_def] by (simp add: code cv)
      have kh: "RB_COLOR ?h = kk" by (auto simp: rb_simps k_def kk_def fun_eq_iff)
      have val: "kk v = RB_BLACK" "kk pa = RB_BLACK" "kk g = RB_RED" using di(3) by (auto simp: c v(1) kk_def)
      have cg: "rbt kk j t = rbt k j t" "rt_black kk t = rt_black k t"
        if "v \<notin> set_tree t" "pa \<notin> set_tree t" "g \<notin> set_tree t" for j t
        using that by (auto intro!: rbt_cong rt_black_cong simp: kk_def)
      let ?A = "nd d1 (nd d0 a x b) pa s1"
      have "rbt kk n (nd d0 a x b)" using tx di(2) by (subst cg) (auto simp: c v(1))
      moreover have "rbt kk n s1" using s1 di(3) by (subst cg) (auto simp: c v(1))
      ultimately have A: "rbt kk (Suc n) ?A" "rt_black kk ?A" using val by (simp_all del: rbt_nd(1) add: rbt_nd [of _ _ d1])
      have "rbt kk n l" "rbt kk n r" using s2 v di(3) by (subst cg; auto simp: c v(1))+
      then have S: "rbt kk (Suc n) s2" "rt_black kk s2" using val by (auto simp: v(1))
      have "rep ?h (plug (nd d2 ?A g s2) c2)" using p(1) by (simp add: c)
      moreover have "ctx_rb kk (Suc n) c2" using c2 di(3) by (subst ctx_rb_cong [where k = k]) (auto simp: c v(1) kk_def)
      ultimately have "restored (RB_INSERT_COLOR g ?h) (inorder (plug (nd d2 ?A g s2) c2))"
        using A S val(3) less.IH [of c2 ?h d2 ?A g s2 "Suc n"] unfolding kh c by (simp del: rbt_nd)
      then show ?thesis by (simp add: eq c)
    next
      case True
      let ?d = "other d2"
      obtain a' b' where ab: "nd d0 a x b = nd d2 a' x b'" "{a', b'} = {a, b}" by (rule nd_side)
      then have "a' = a \<and> b' = b \<or> a' = b \<and> b' = a" by (simp add: doubleton_eq_iff)
      then have t: "rbt k n a'" "rt_black k a'" "rbt k n b'" "rt_black k b'" using p(3-6) by auto
      show ?thesis
      proof (cases "rb_child ?d h pa = Some x")
        case inner: True
        have d1: "d1 = ?d"
        proof (rule ccontr)
          assume "d1 \<noteq> ?d"
          then have "other d1 = ?d" by (cases d1; cases d2) auto
          then have "x \<in> set_tree s1" using shape_ptr [OF up(3)] inner by simp
          then show False using di(2) by (auto simp: c)
        qed
        have "?T = plug (nd d2 s1 pa (nd d2 a' x b')) ((d2, g, s2) # c2)" by (simp add: c d1 nd_other ab)
        then have r: "rep h (plug (nd d2 s1 pa (nd d2 a' x b')) ((d2, g, s2) # c2))" using p(1) by simp
        obtain h1 where h1: "RB_ROTATE d2 pa h = Some h1" "rep h1 (plug (nd d2 (nd d2 s1 pa a') x b') ((d2, g, s2) # c2))"
          "RB_COLOR h1 = k" by (rule rotate_rep [OF r]) (auto simp: k_def)
        have r1: "rep h1 (plug (nd ?d s2 g (nd ?d b' x (nd d2 s1 pa a'))) c2)" using h1(2) by (simp add: nd_other)
        have "inorder (plug (nd ?d s2 g (nd ?d b' x (nd d2 s1 pa a'))) c2) = inorder ?T"
          unfolding \<open>?T = _\<close> by (simp add: nd_other, rule inorder_plug_cong) (simp add: inorder_nd inorder_rotate)
        moreover have "RB_INSERT_COLOR x h = do { h \<leftarrow> RB_ROTATE ?d g (RB_SET_BLACKRED x g h1); RB_INSERT_COLOR pa h }"
          using True inner by (simp add: code h1(1))
        ultimately show ?thesis
          using insert_last [OF r1 h1(3) [symmetric] s2 True t(3,4) s1 t(1,2) kp c2] by simp
      next
        case outer: False
        have d1: "d1 = d2" using outer up(2) by (cases d1; cases d2) auto
        have r1: "rep h (plug (nd ?d s2 g (nd ?d s1 pa (nd d0 a x b))) c2)" using p(1) by (simp add: c d1 nd_other)
        have "?T = plug (nd ?d s2 g (nd ?d s1 pa (nd d0 a x b))) c2" by (simp add: c d1 nd_other)
        moreover have "RB_INSERT_COLOR x h = do { h \<leftarrow> RB_ROTATE ?d g (RB_SET_BLACKRED pa g h); RB_INSERT_COLOR x h }"
          using True outer by (simp add: code)
        ultimately show ?thesis
          using insert_last [OF r1 k_def s2 True s1 p(5,3,6,4,2) c2] by simp
      qed
    qed
  qed
qed

section \<open>The order\<close>

text \<open>The elements in the order of a traversal towards the right or the left, and those that come after a hole.\<close>

definition lin :: "side \<Rightarrow> addr tree \<Rightarrow> addr list" where
  "lin d t = (if d = Lf then inorder t else rev (inorder t))"

fun along :: "side \<Rightarrow> frames \<Rightarrow> addr list" where
  "along d [] = []"
| "along d ((d', x, s) # c) = (if d' = d then x # lin d s @ along d c else along d c)"

lemma lin_simps [simp]:
  "lin d \<langle>\<rangle> = []" "lin d (nd d a x b) = lin d a @ x # lin d b" "set (lin d t) = set_tree t" "lin Lf t = inorder t"
  "rev (lin (other d) t) = lin d t" "lin d t = [] \<longleftrightarrow> t = \<langle>\<rangle>" "distinct (lin d t) = distinct (inorder t)"
proof -
  show "lin d t = [] \<longleftrightarrow> t = \<langle>\<rangle>" by (cases t) (simp_all add: lin_def)
qed (cases d; simp add: lin_def nd_def)+

lemma lin_other [simp]: "lin d (nd (other d) a x b) = lin d b @ x # lin d a"
  by (cases d) (simp_all add: lin_def nd_def)

lemma lin_plug: "lin d (plug t c) = rev (along (other d) c) @ lin d t @ along d c"
proof (induction t c rule: plug.induct)
  case (2 t d' x s c)
  show ?case
  proof (cases "d' = d")
    case True
    then show ?thesis using 2 by simp
  next
    case False
    then have "d' = other d" by (cases d; cases d') auto
    then show ?thesis using 2 by simp
  qed
qed simp

lemma inorder_plug: "inorder (plug t c) = rev (along Rt c) @ inorder t @ along Lf c"
  using lin_plug [of Lf t c] by simp

text \<open>What a comparison function of the program promises to the tree.\<close>

locale tree_order =
  fixes cmp :: "addr \<Rightarrow> addr \<Rightarrow> int"
  assumes swap: "cmp a b < 0 \<longleftrightarrow> 0 < cmp b a"
    and trans: "cmp a b \<le> 0 \<Longrightarrow> cmp b c < 0 \<Longrightarrow> cmp a c < 0"

definition ordered :: "(addr \<Rightarrow> addr \<Rightarrow> int) \<Rightarrow> addr list \<Rightarrow> bool" where
  "ordered cmp xs \<longleftrightarrow> sorted_wrt (\<lambda>a b. cmp a b < 0) xs"

lemma ordered_append:
  "ordered cmp (xs @ ys) \<longleftrightarrow> ordered cmp xs \<and> ordered cmp ys \<and> (\<forall>x \<in> set xs. \<forall>y \<in> set ys. cmp x y < 0)"
  by (simp add: ordered_def sorted_wrt_append)

lemma ordered_Cons: "ordered cmp (x # xs) \<longleftrightarrow> (\<forall>y \<in> set xs. cmp x y < 0) \<and> ordered cmp xs"
  by (simp add: ordered_def)

text \<open>A tree that holds the elements \<open>xs\<close>: the state the operations keep.\<close>

definition rb_tree :: "(addr \<Rightarrow> addr \<Rightarrow> int) \<Rightarrow> rb_head \<Rightarrow> addr list \<Rightarrow> bool" where
  "rb_tree cmp h xs \<longleftrightarrow> (\<exists>T. rep h T \<and> inorder T = xs \<and> balanced (RB_COLOR h) T) \<and> ordered cmp xs"

text \<open>What the walk down finds: an equal element, or the hole in which the new one belongs.\<close>

definition walked :: "(addr \<Rightarrow> addr \<Rightarrow> int) \<Rightarrow> addr \<Rightarrow> rb_head \<Rightarrow> addr tree \<Rightarrow> addr + ptr \<times> int \<Rightarrow> bool" where
  "walked cmp e h T r \<longleftrightarrow>
     (case r of
        Inl x \<Rightarrow> x \<in> set_tree T \<and> cmp e x = 0
      | Inr (q, m) \<Rightarrow> \<exists>c. T = plug \<langle>\<rangle> c \<and> up h q None c \<and> (c \<noteq> [] \<longrightarrow> (m < 0 \<longleftrightarrow> fst (hd c) = Lf))
          \<and> (\<forall>y \<in> set (along Rt c). cmp y e < 0) \<and> (\<forall>y \<in> set (along Lf c). cmp e y < 0))"

definition place :: "(addr \<Rightarrow> addr \<Rightarrow> int) \<Rightarrow> addr \<Rightarrow> addr list \<Rightarrow> addr list" where
  "place cmp e xs = takeWhile (\<lambda>x. cmp x e < 0) xs @ e # dropWhile (\<lambda>x. cmp x e < 0) xs"

lemma place_between:
  assumes "\<forall>x \<in> set xs. cmp x e < 0" "\<forall>y \<in> set ys. \<not> cmp y e < 0"
  shows "place cmp e (xs @ ys) = xs @ e # ys"
  using assms by (cases ys) (auto simp: place_def takeWhile_append2 dropWhile_append2 intro!: takeWhile_eq_all_conv [THEN iffD2])

context tree_order
begin

lemma trans2: "cmp a b < 0 \<Longrightarrow> cmp b c \<le> 0 \<Longrightarrow> cmp a c < 0"
  using trans [of c a b] swap [of a c] swap [of c b] swap [of b c] by force

lemma not_before: "cmp e y < 0 \<Longrightarrow> \<not> cmp y e < 0"
  using swap [of y e] by simp

lemma place_ordered:
  assumes "ordered cmp xs" "\<forall>x \<in> set xs. cmp e x \<noteq> 0"
  shows "ordered cmp (place cmp e xs)"
proof -
  let ?P = "\<lambda>x. cmp x e < 0"
  have xs: "takeWhile ?P xs @ dropWhile ?P xs = xs" by simp
  have d: "cmp e y < 0" if "y \<in> set (dropWhile ?P xs)" for y
  proof -
    have nz: "dropWhile ?P xs \<noteq> []" using that by (metis empty_iff list.set(1))
    then have h: "\<not> ?P (hd (dropWhile ?P xs))" by (rule hd_dropWhile)
    have "hd (dropWhile ?P xs) \<in> set xs" using nz by (meson hd_in_set set_dropWhileD)
    then have "cmp e (hd (dropWhile ?P xs)) < 0"
      using h assms(2) swap [of "hd (dropWhile ?P xs)" e] by force
    moreover have "y = hd (dropWhile ?P xs) \<or> cmp (hd (dropWhile ?P xs)) y < 0"
    proof -
      have "ordered cmp (dropWhile ?P xs)" using assms(1) xs ordered_append by metis
      then show ?thesis using that nz by (cases "dropWhile ?P xs") (auto simp: ordered_Cons)
    qed
    ultimately show ?thesis using trans [of e "hd (dropWhile ?P xs)" y] by auto
  qed
  have t: "cmp x e < 0" if "x \<in> set (takeWhile ?P xs)" for x using that set_takeWhileD by fastforce
  have "ordered cmp (takeWhile ?P xs @ dropWhile ?P xs)" using assms(1) by simp
  moreover define A where "A = takeWhile ?P xs"
  moreover define B where "B = dropWhile ?P xs"
  ultimately have "ordered cmp (A @ B)" "\<forall>x \<in> set A. cmp x e < 0" "\<forall>y \<in> set B. cmp e y < 0" using d t by (simp_all only:) blast+
  moreover have "place cmp e xs = A @ e # B" by (simp add: place_def A_def B_def)
  ultimately show ?thesis by (simp add: ordered_append ordered_Cons)
qed

lemma insert_walk_finds:
  assumes "up h q p c" "shape h q p t" "ordered cmp (inorder (plug t c))"
    and "\<forall>y \<in> set (along Rt c). cmp y e < 0" "\<forall>y \<in> set (along Lf c). cmp e y < 0"
    and "c \<noteq> [] \<longrightarrow> (m < 0 \<longleftrightarrow> fst (hd c) = Lf)"
  shows "\<exists>r. insert_walk cmp e p q m h = Some r \<and> walked cmp e h (plug t c) r"
  using assms
proof (induction t arbitrary: q p c m)
  case Leaf
  then have "insert_walk cmp e p q m h = Some (Inr (q, m))" by (subst insert_walk.simps) simp
  then show ?case using Leaf by (auto simp: walked_def)
next
  case (Node l x r)
  have p: "p = Some x" and q: "RB_PARENT h x = q" and sl: "shape h (Some x) (RB_LEFT h x) l" and sr: "shape h (Some x) (RB_RIGHT h x) r"
    using Node.prems(2) by auto
  have o3: "ordered cmp (inorder l @ x # inorder r)" using Node.prems(3) by (auto simp: inorder_plug ordered_append ordered_Cons)
  consider "cmp e x < 0" | "cmp e x > 0" | "cmp e x = 0" by linarith
  then show ?case
  proof cases
    case 1
    let ?c = "(Lf, x, r) # c"
    have w: "insert_walk cmp e p q m h = insert_walk cmp e (RB_LEFT h x) (Some x) (cmp e x) h"
      using 1 p by (subst insert_walk.simps) simp
    have pl: "plug \<langle>l, x, r\<rangle> c = plug l ?c" by (simp add: nd_def)
    have "up h (Some x) (RB_LEFT h x) ?c" using sr Node.prems(1) p q by simp
    moreover have "\<forall>y \<in> set (along Lf ?c). cmp e y < 0"
      using Node.prems(5) 1 o3 trans [of e x] by (auto simp: ordered_append ordered_Cons)
    ultimately show ?thesis
      unfolding w pl using Node.prems(3,4) 1 by (intro Node.IH(1) sl) (simp_all add: pl)
  next
    case 2
    let ?c = "(Rt, x, l) # c"
    have w: "insert_walk cmp e p q m h = insert_walk cmp e (RB_RIGHT h x) (Some x) (cmp e x) h"
      using 2 p by (subst insert_walk.simps) simp
    have pl: "plug \<langle>l, x, r\<rangle> c = plug r ?c" by (simp add: nd_def)
    have "up h (Some x) (RB_RIGHT h x) ?c" using sl Node.prems(1) p q by simp
    moreover have "cmp x e < 0" using 2 swap by blast
    then have "\<forall>y \<in> set (along Rt ?c). cmp y e < 0"
      using Node.prems(4) o3 trans [of _ x e] by (auto simp: ordered_append ordered_Cons)
    ultimately show ?thesis
      unfolding w pl using Node.prems(3,5) 2 by (intro Node.IH(2) sr) (simp_all add: pl)
  next
    case 3
    then have "insert_walk cmp e p q m h = Some (Inl x)" using p by (subst insert_walk.simps) simp
    then show ?thesis using 3 by (simp add: walked_def set_plug)
  qed
qed

end

section \<open>Insertion\<close>

lemma balanced_plug:
  "balanced k (plug t c) \<Longrightarrow> \<exists>m. ctx_rb k m c \<and> rbt k m t \<and> (rt_black k t \<or> c \<noteq> [] \<and> top_black k c)"
proof (induction t c rule: plug.induct)
  case (2 t d x s c)
  then obtain m where m: "ctx_rb k m c" "rbt k m (nd d t x s)" "k x = RB_BLACK \<or> c \<noteq> [] \<and> top_black k c" by auto
  show ?case
  proof (cases "k x = RB_RED")
    case True
    then show ?thesis using m by auto
  next
    case False
    then obtain m' where "m = Suc m'" using m(2) by (cases m) auto
    then show ?thesis using m False by (auto intro!: exI [of _ m'])
  qed
qed (auto simp: balanced_def)

text \<open>Linking a new red element into a hole.\<close>

definition link_new :: "addr \<Rightarrow> ptr \<Rightarrow> int \<Rightarrow> rb_head \<Rightarrow> rb_head" where
  "link_new elm parent cmpr h =
     (case parent of
        None \<Rightarrow> set_root (Some elm) (RB_SET elm parent h)
      | Some p \<Rightarrow> if cmpr < 0 then set_child Lf p (Some elm) (RB_SET elm parent h) else set_child Rt p (Some elm) (RB_SET elm parent h))"

lemma link_new_reads:
  "RB_COLOR (link_new e q m h) = (RB_COLOR h)(e := RB_RED)" "RB_PARENT (link_new e q m h) = (RB_PARENT h)(e := q)"
  "rbh_root (link_new e q m h) = (if q = None then Some e else rbh_root h)"
  "rb_child d (link_new e q m h) w =
     (if q = Some w \<and> d = (if m < 0 then Lf else Rt) then Some e else if w = e then None else rb_child d h w)"
  by (cases d; auto simp: link_new_def RB_SET_def rb_simps split: option.splits)+

lemma link_new_rep:
  assumes r: "rep h (plug \<langle>\<rangle> c)" and u: "up h q None c" and e: "e \<notin> above c" and m: "c \<noteq> [] \<longrightarrow> (m < 0 \<longleftrightarrow> fst (hd c) = Lf)"
  shows "rep (link_new e q m h) (plug \<langle>\<langle>\<rangle>, e, \<langle>\<rangle>\<rangle> c)"
proof -
  let ?h = "link_new e q m h"
  have ad: "above_distinct c" using r by (simp add: rep_plug)
  have q: "q = Some w \<Longrightarrow> w \<in> above c" for w using up_parent [OF u] by (auto split: list.splits)
  have "up ?h q (Some e) c"
  proof (rule up_moved [OF u ad])
    show "rb_child dd ?h z = Some e \<and> rb_child (other dd) ?h z = rb_child (other dd) h z" if c: "c = (dd, z, s) # c'" for dd z s c'
    proof -
      have "q = Some z" "z \<noteq> e" using u e c by auto
      moreover have "dd = (if m < 0 then Lf else Rt)" using m c by (cases dd) auto
      ultimately show ?thesis by (cases dd) (auto simp: link_new_reads)
    qed
  qed (use e in \<open>auto simp: link_new_reads\<close>)
  moreover have "shape ?h q (Some e) \<langle>\<langle>\<rangle>, e, \<langle>\<rangle>\<rangle>" using e q by (auto simp: link_new_reads)
  ultimately show ?thesis using ad e by (auto simp: rep_plug)
qed

lemma RB_INSERT_link:
  "insert_walk cmp e (rbh_root h) None 0 h = Some (Inr (q, m)) \<Longrightarrow>
    RB_INSERT cmp e h = map_option (\<lambda>h. (None, h)) (RB_INSERT_COLOR e (link_new e q m h))"
  by (cases "RB_INSERT_COLOR e (link_new e q m h)") (auto simp: RB_INSERT_def link_new_def Let_def split: option.splits)

context tree_order
begin

lemma equal_in_order:
  assumes "ordered cmp xs" "x \<in> set xs" "cmp e x = 0"
  shows "find (\<lambda>y. cmp e y = 0) xs = Some x"
proof -
  obtain ys zs where xs: "xs = ys @ x # zs" using assms(2) by (auto simp: in_set_conv_decomp)
  have "cmp y x < 0" if "y \<in> set ys" for y using assms(1) that by (simp add: xs ordered_append)
  then have "cmp e y \<noteq> 0" if "y \<in> set ys" for y
    using that trans2 [of y x e] assms(3) swap [of e x] swap [of x e] swap [of y e] swap [of e y] by fastforce
  then have "find (\<lambda>y. cmp e y = 0) ys = None" by (auto simp: find_None_iff)
  moreover have "find P (us @ vs) = (case find P us of None \<Rightarrow> find P vs | Some u \<Rightarrow> Some u)" for P and us vs :: "addr list"
    by (induction us) auto
  ultimately show ?thesis by (simp add: xs assms(3))
qed

lemma insert_in_order:
  assumes t: "rb_tree cmp h xs" and e: "e \<notin> set xs"
  shows "case find (\<lambda>x. cmp e x = 0) xs of
      Some x \<Rightarrow> RB_INSERT cmp e h = Some (Some x, h)
    | None \<Rightarrow> \<exists>h'. RB_INSERT cmp e h = Some (None, h') \<and> rb_tree cmp h' (place cmp e xs)"
proof -
  from t obtain T where T: "rep h T" "inorder T = xs" "balanced (RB_COLOR h) T" and o': "ordered cmp xs"
    by (auto simp: rb_tree_def)
  have "\<exists>r. insert_walk cmp e (rbh_root h) None 0 h = Some r \<and> walked cmp e h (plug T []) r"
    using T o' by (intro insert_walk_finds) (auto simp: rep_def)
  then obtain r where w: "insert_walk cmp e (rbh_root h) None 0 h = Some r" "walked cmp e h T r" by auto
  show ?thesis
  proof (cases r)
    case (Inl x)
    then have "x \<in> set xs" "cmp e x = 0" using w(2) T(2) set_inorder [of T] by (auto simp: walked_def)
    from equal_in_order [OF o' this] show ?thesis using w(1) Inl by (simp add: RB_INSERT_def)
  next
    case (Inr qm)
    obtain q m where qm: "qm = (q, m)" by force
    with w(2) Inr obtain c where c: "T = plug \<langle>\<rangle> c" "up h q None c" "c \<noteq> [] \<longrightarrow> (m < 0 \<longleftrightarrow> fst (hd c) = Lf)"
      and b: "\<forall>y \<in> set (along Rt c). cmp y e < 0" "\<forall>y \<in> set (along Lf c). cmp e y < 0"
      by (auto simp: walked_def)
    let ?h = "link_new e q m h"
    have xs: "xs = rev (along Rt c) @ along Lf c" using T(2) by (simp add: c(1) inorder_plug)
    have ea: "e \<notin> above c" using e T(2) set_inorder [of T] by (simp add: c(1) set_plug)
    have r: "rep ?h (plug (nd Lf \<langle>\<rangle> e \<langle>\<rangle>) c)" using link_new_rep [OF T(1) [unfolded c(1)] c(2) ea c(3)] by (simp add: nd_def)
    have "\<forall>x \<in> set xs. cmp e x \<noteq> 0" using b swap by (force simp: xs)
    then have f: "find (\<lambda>x. cmp e x = 0) xs = None" by (auto simp: find_None_iff)
    obtain n where "ctx_rb (RB_COLOR h) n c" "rbt (RB_COLOR h) n \<langle>\<rangle>" using balanced_plug T(3) c(1) by blast
    then have "ctx_rb (RB_COLOR ?h) 0 c" using ea by (subst ctx_rb_cong [where k = "RB_COLOR h"]) (auto simp: link_new_reads)
    then have "restored (RB_INSERT_COLOR e ?h) (inorder (plug (nd Lf \<langle>\<rangle> e \<langle>\<rangle>) c))"
      by (intro insert_color_rep [OF r, of 0]) (simp_all add: link_new_reads)
    then obtain h' T' where h': "RB_INSERT_COLOR e ?h = Some h'" "rep h' T'" "inorder T' = inorder (plug (nd Lf \<langle>\<rangle> e \<langle>\<rangle>) c)"
      "balanced (RB_COLOR h') T'" by (auto simp: restored_def)
    have "inorder T' = place cmp e xs"
      using place_between [of "rev (along Rt c)" cmp e "along Lf c"] b not_before
      by (simp add: h'(3) inorder_plug xs nd_def)
    then have "rb_tree cmp h' (place cmp e xs)"
      using h' place_ordered [OF o' \<open>\<forall>x \<in> set xs. cmp e x \<noteq> 0\<close>] by (auto simp: rb_tree_def)
    then show ?thesis using RB_INSERT_link [OF w(1) [unfolded Inr qm]] h'(1) f by simp
  qed
qed

end

end
