(* ===== verification/Rb_Remove.thy ===== *)
theory Rb_Remove
  imports Rb_Insert
begin

text \<open>
  Removal from the red-black tree: the loop that makes up for a missing black node, taking out an
  element with at most one child, and putting the successor in the place of an element with two.
\<close>

section \<open>Making up for a black node\<close>

text \<open>What \<open>RB_REMOVE_COLOR\<close> does once the sibling \<open>tmp\<close> is black.\<close>

definition remove_last :: "side \<Rightarrow> addr \<Rightarrow> addr \<Rightarrow> rb_head \<Rightarrow> rb_head option" where
  "remove_last d p tmp h = do {
     let h = set_col tmp (RB_COLOR h p) h;
     let h = set_col p RB_BLACK h;
     let h = set_col_of (rb_child (other d) h tmp) RB_BLACK h;
     h \<leftarrow> RB_ROTATE d p h;
     Some (set_col_of (rbh_root h) RB_BLACK h)
   }"

definition remove_rest :: "side \<Rightarrow> addr \<Rightarrow> addr \<Rightarrow> rb_head \<Rightarrow> rb_head option" where
  "remove_rest d p tmp h =
     (if is_black h (RB_LEFT h tmp) \<and> is_black h (RB_RIGHT h tmp) then do {
        let h = set_col tmp RB_RED h;
        RB_REMOVE_COLOR (RB_PARENT h p) (Some p) h
      } else do {
        (tmp, h) \<leftarrow> (if is_black h (rb_child (other d) h tmp) then do {
            let h = set_col_of (rb_child d h tmp) RB_BLACK h;
            let h = set_col tmp RB_RED h;
            h \<leftarrow> RB_ROTATE (other d) tmp h;
            tmp \<leftarrow> rb_child (other d) h p;
            Some (tmp, h)
          } else Some (tmp, h));
        remove_last d p tmp h
      })"

lemma RB_REMOVE_COLOR_rest:
  "RB_REMOVE_COLOR parent elm h =
     (if is_black h elm \<and> elm \<noteq> rbh_root h then do {
        p \<leftarrow> parent;
        let d = (if RB_LEFT h p = elm then Lf else Rt);
        tmp \<leftarrow> rb_child (other d) h p;
        (tmp, h) \<leftarrow> (if RB_COLOR h tmp = RB_RED then do {
            h \<leftarrow> RB_ROTATE d p (RB_SET_BLACKRED tmp p h);
            tmp \<leftarrow> rb_child (other d) h p;
            Some (tmp, h)
          } else Some (tmp, h));
        remove_rest d p tmp h
      } else Some (set_col_of elm RB_BLACK h))"
  unfolding remove_rest_def remove_last_def by (rule RB_REMOVE_COLOR.simps)

text \<open>A subtree that lacks a black node: its root may be red with red children, to be painted black.\<close>

definition short_by_one :: "(addr \<Rightarrow> rb_color) \<Rightarrow> nat \<Rightarrow> addr tree \<Rightarrow> bool" where
  "short_by_one k n t \<longleftrightarrow> (if rt_black k t then rbt k n t else (\<forall>l x r. t = \<langle>l, x, r\<rangle> \<longrightarrow> rbt k n l \<and> rbt k n r))"

lemma short_nd: "k x = RB_RED \<Longrightarrow> short_by_one k n (nd d a x b) \<longleftrightarrow> rbt k n a \<and> rbt k n b"
  by (cases d) (auto simp: short_by_one_def nd_def)

lemma top_black_cong: "(\<And>x. x \<in> above c \<Longrightarrow> k' x = k x) \<Longrightarrow> top_black k' c = top_black k c"
  by (cases c) (auto simp: top_black_def)

lemma root_above: "up h q p c \<Longrightarrow> c \<noteq> [] \<Longrightarrow> \<exists>x \<in> above c. rbh_root h = Some x"
proof (induction h q p c rule: up.induct)
  case (2 h q p d x s c)
  then show ?case by (cases c) auto
qed simp

lemma root_painted:
  assumes "rep h T" "balanced (RB_COLOR h) T"
  shows "restored (Some (set_col_of (rbh_root h) RB_BLACK h)) (inorder T)"
proof -
  have "RB_COLOR (set_col_of (rbh_root h) RB_BLACK h) = RB_COLOR h"
    using assms by (cases T) (auto simp: rb_simps rep_def balanced_def fun_eq_iff)
  then show ?thesis using assms by (auto simp: restored_def)
qed

lemma remove_end:
  assumes r: "rep h (plug t c)" and u: "up h q p c" "shape h q p t"
    and t: "short_by_one (RB_COLOR h) n t" "ctx_rb (RB_COLOR h) (Suc n) c" and e: "\<not> rt_black (RB_COLOR h) t \<or> c = []"
  shows "restored (RB_REMOVE_COLOR q p h) (inorder (plug t c))"
proof (cases "rt_black (RB_COLOR h) t")
  case False
  then obtain l x rr where tt: "t = \<langle>l, x, rr\<rangle>" and x: "RB_COLOR h x = RB_RED" by (cases t) auto
  have p: "p = Some x" using u(2) tt by simp
  have "RB_REMOVE_COLOR q p h = Some (set_col x RB_BLACK h)"
    using x by (subst RB_REMOVE_COLOR_rest) (simp add: p is_black_def set_col_of_def)
  moreover have di: "x \<notin> set_tree l" "x \<notin> set_tree rr" "x \<notin> above c" using r by (auto simp: rep_plug tt)
  define k where "k = (RB_COLOR h)(x := RB_BLACK)"
  have cg: "rbt k j s = rbt (RB_COLOR h) j s" if "x \<notin> set_tree s" for j s
    using that by (auto intro!: rbt_cong simp: k_def)
  have "rbt k n l" "rbt k n rr"
    using t(1) False di by (auto simp: short_by_one_def tt cg)
  then have "rbt k (Suc n) t" "rt_black k t" by (simp_all add: tt k_def)
  moreover have "ctx_rb k (Suc n) c" using t(2) di by (subst ctx_rb_cong [where k = "RB_COLOR h"]) (auto simp: k_def)
  ultimately show ?thesis
    using plug_balanced [of k "Suc n" c t] r by (auto simp: restored_def rb_simps k_def)
next
  case True
  then have c: "c = []" and b: "balanced (RB_COLOR h) t" using e t(1) by (auto simp: short_by_one_def balanced_def)
  then have p: "p = rbh_root h" using u by simp
  have "RB_REMOVE_COLOR q p h = Some (set_col_of (rbh_root h) RB_BLACK h)"
    by (subst RB_REMOVE_COLOR_rest) (simp add: p)
  then show ?thesis using root_painted [of h t] r b by (simp add: c)
qed

text \<open>The last rotation: the far nephew is red.\<close>

lemma remove_last_rep:
  assumes r: "rep h (plug (nd d t x (nd d near w (nd d' f1 f f2))) c)" and k: "k = RB_COLOR h"
    and t: "rbt k n t" "rbt k n near" "rbt k n f1" "rbt k n f2" and f: "k f = RB_RED"
    and c: "if k x = RB_RED then c \<noteq> [] \<and> top_black k c \<and> ctx_rb k (Suc n) c else ctx_rb k (Suc (Suc n)) c"
  shows "restored (remove_last d x w h) (inorder (plug (nd d t x (nd d near w (nd d' f1 f f2))) c))"
proof -
  let ?far = "nd d' f1 f f2"
  let ?T = "plug (nd d t x (nd d near w ?far)) c" and ?U = "plug (nd d (nd d t x near) w ?far) c"
  have di: "distinct (inorder (nd d t x (nd d near w ?far)))" "set_tree (nd d t x (nd d near w ?far)) \<inter> above c = {}"
    using r unfolding rep_plug by auto
  define h1 where "h1 = set_col_of (Some f) RB_BLACK (set_col x RB_BLACK (set_col w (RB_COLOR h x) h))"
  have far: "rb_child (other d) h w = Some f" using r unfolding rep_plug by auto
  have code: "remove_last d x w h = do { h \<leftarrow> RB_ROTATE d x h1; Some (set_col_of (rbh_root h) RB_BLACK h) }"
    by (simp add: remove_last_def Let_def rb_simps far h1_def)
  have "rep h1 ?T" using r by (simp add: h1_def)
  then obtain h2 where h2: "RB_ROTATE d x h1 = Some h2" "rep h2 ?U" "RB_COLOR h2 = RB_COLOR h1" by (rule rotate_rep)
  define k' where "k' = k(w := k x, x := RB_BLACK, f := RB_BLACK)"
  have kh: "RB_COLOR h2 = k'" by (auto simp: h2(3) h1_def rb_simps k'_def k fun_eq_iff)
  have v: "k' w = k x" "k' x = RB_BLACK" "k' f = RB_BLACK" using di(1) by (auto simp: k'_def)
  have cg: "rbt k' j s = rbt k j s" if "w \<notin> set_tree s" "x \<notin> set_tree s" "f \<notin> set_tree s" for j s
    using that by (auto intro!: rbt_cong simp: k'_def)
  have nb: "w \<notin> set_tree t" "x \<notin> set_tree t" "f \<notin> set_tree t" "w \<notin> set_tree near" "x \<notin> set_tree near" "f \<notin> set_tree near"
    "w \<notin> set_tree f1" "x \<notin> set_tree f1" "f \<notin> set_tree f1" "w \<notin> set_tree f2" "x \<notin> set_tree f2" "f \<notin> set_tree f2"
    using di(1) by auto
  have "rbt k' (Suc n) (nd d t x near)" "rbt k' (Suc n) ?far" using t v by (simp_all add: cg nb)
  then have sub: "rbt k' (if k x = RB_RED then Suc n else Suc (Suc n)) (nd d (nd d t x near) w ?far)"
    using v rbt_nd [of k' _ d "nd d t x near" w ?far] by (simp del: rbt_nd)
  have cc: "ctx_rb k' j c = ctx_rb k j c" for j by (rule ctx_rb_cong) (use di(2) in \<open>auto simp: k'_def\<close>)
  have tb: "top_black k' c = top_black k c" by (rule top_black_cong) (use di(2) in \<open>auto simp: k'_def\<close>)
  have "balanced k' ?U"
  proof (cases "k x = RB_RED")
    case True
    then show ?thesis
      using plug_rbt [of k' "Suc n" c] plug_rt_black [of k' "Suc n" c] sub c cc tb by (auto simp: balanced_def simp del: rbt_nd)
  next
    case False
    then show ?thesis using sub c cc v by (intro plug_balanced) auto
  qed
  then have "restored (Some (set_col_of (rbh_root h2) RB_BLACK h2)) (inorder ?U)" using h2(2) kh by (intro root_painted) auto
  moreover have "inorder ?U = inorder ?T" by (rule inorder_plug_cong) (rule inorder_rotate)
  ultimately show ?thesis using h2(1) by (simp add: code)
qed

lemma not_black_nd: "\<not> rt_black k t \<Longrightarrow> \<exists>l x r. t = nd d l x r \<and> k x = RB_RED"
  using nd_cases [of t d] by (metis rt_black_simps(1,3) not_red(2))

lemma rt_black_rbt: "rbt k (Suc n) t \<Longrightarrow> rt_black k t \<Longrightarrow> \<exists>l x r. t = nd d l x r \<and> k x = RB_BLACK \<and> rbt k n l \<and> rbt k n r"
proof -
  assume t: "rbt k (Suc n) t" "rt_black k t"
  then obtain l x r where "t = nd d l x r" using nd_cases [of t d] by auto
  then show ?thesis using t by (intro exI [of _ l] exI [of _ x] exI [of _ r]) simp
qed

text \<open>A nephew is red: one or two rotations and the tree is balanced.\<close>

lemma remove_nephew:
  assumes r: "rep h (plug (nd d t x (nd d near w far)) c)" and k: "k = RB_COLOR h"
    and t: "rbt k n t" "rbt k n near" "rbt k n far" and w: "k w = RB_BLACK" and f: "\<not> rt_black k near \<or> \<not> rt_black k far"
    and c: "if k x = RB_RED then c \<noteq> [] \<and> top_black k c \<and> ctx_rb k (Suc n) c else ctx_rb k (Suc (Suc n)) c"
  shows "restored (remove_rest d x w h) (inorder (plug (nd d t x (nd d near w far)) c))"
proof -
  obtain q where s: "shape h q (Some x) (nd d t x (nd d near w far))" using r unfolding rep_plug by auto
  then have sn: "shape h (Some w) (rb_child d h w) near" and sf: "shape h (Some w) (rb_child (other d) h w) far" by simp_all
  have nb: "is_black h (rb_child d h w) = rt_black k near" "is_black h (rb_child (other d) h w) = rt_black k far"
    using is_black_shape [OF sn] is_black_shape [OF sf] by (simp_all add: k)
  then have go: "\<not> (is_black h (RB_LEFT h w) \<and> is_black h (RB_RIGHT h w))" using f by (cases d) auto
  show ?thesis
  proof (cases "rt_black k far")
    case False
    then obtain f1 g f2 where far: "far = nd d f1 g f2" "k g = RB_RED" using not_black_nd [of k far d] by blast
    have "remove_rest d x w h = remove_last d x w h" using nb False unfolding remove_rest_def if_not_P [OF go] by simp
    then show ?thesis using remove_last_rep [OF r [unfolded far(1)] k t(1,2)] t(3) far c by simp
  next
    case True
    then obtain n1 v n2 where near: "near = nd d n1 v n2" "k v = RB_RED" using f not_black_nd [of k near d] by blast
    have v: "rb_child d h w = Some v" using sn near(1) by simp
    have tn: "rbt k n n1" "rbt k n n2" "rt_black k n1" "rt_black k n2" using t(2) near by auto
    define h1 where "h1 = set_col w RB_RED (set_col_of (Some v) RB_BLACK h)"
    have r1: "rep h1 (plug (nd (other d) far w (nd (other d) n2 v n1)) ((other d, x, t) # c))"
      using r by (simp add: h1_def near(1) nd_other)
    obtain h2 where h2: "RB_ROTATE (other d) w h1 = Some h2"
      "rep h2 (plug (nd (other d) (nd (other d) far w n2) v n1) ((other d, x, t) # c))" "RB_COLOR h2 = RB_COLOR h1"
      by (rule rotate_rep [OF r1])
    have r2: "rep h2 (plug (nd d t x (nd d n1 v (nd d n2 w far))) c)" using h2(2) by (simp add: nd_other)
    then have cx: "rb_child (other d) h2 x = Some v" unfolding rep_plug by auto
    have "remove_rest d x w h = remove_last d x v h2"
      using nb True h2(1) cx unfolding remove_rest_def if_not_P [OF go] by (simp add: v Let_def h1_def)
    moreover define k2 where "k2 = k(v := RB_BLACK, w := RB_RED)"
    moreover have kh: "RB_COLOR h2 = k2" by (auto simp: h2(3) h1_def rb_simps k2_def k fun_eq_iff)
    have di: "distinct (inorder (nd d t x (nd d n1 v (nd d n2 w far))))" "set_tree (nd d t x (nd d n1 v (nd d n2 w far))) \<inter> above c = {}"
      using r2 unfolding rep_plug by auto
    have val: "k2 x = k x" "k2 w = RB_RED" using di(1) by (auto simp: k2_def)
    have cg: "rbt k2 j s = rbt k j s" if "v \<notin> set_tree s" "w \<notin> set_tree s" for j s
      using that by (auto intro!: rbt_cong simp: k2_def)
    have "v \<notin> set_tree t" "w \<notin> set_tree t" "v \<notin> set_tree n1" "w \<notin> set_tree n1" "v \<notin> set_tree n2" "w \<notin> set_tree n2"
      "v \<notin> set_tree far" "w \<notin> set_tree far" using di(1) by auto
    then have "rbt k2 n t" "rbt k2 n n1" "rbt k2 n n2" "rbt k2 n far" using t tn by (simp_all add: cg)
    moreover have "ctx_rb k2 j c = ctx_rb k j c" for j by (rule ctx_rb_cong) (use di(2) in \<open>auto simp: k2_def\<close>)
    moreover have "top_black k2 c = top_black k c" by (rule top_black_cong) (use di(2) in \<open>auto simp: k2_def\<close>)
    ultimately have "restored (remove_last d x v h2) (inorder (plug (nd d t x (nd d n1 v (nd d n2 w far))) c))"
      using remove_last_rep [OF r2 kh [symmetric], of n] val c by simp
    moreover have "inorder (plug (nd d t x (nd d n1 v (nd d n2 w far))) c) = inorder (plug (nd d t x (nd d near w far)) c)"
      by (rule inorder_plug_cong) (simp add: inorder_nd near(1))
    ultimately show ?thesis using \<open>remove_rest d x w h = remove_last d x v h2\<close> by simp
  qed
qed

text \<open>Both nephews are black: the sibling becomes red and the parent's subtree is the one that is short.\<close>

lemma remove_push:
  assumes r: "rep h (plug (nd d t x (nd d near w far)) c)" and k: "k = RB_COLOR h"
    and t: "rbt k n t" "rbt k n near" "rbt k n far" and b: "rt_black k t" "rt_black k near" "rt_black k far" and w: "k w = RB_BLACK"
  obtains h' k' q where "remove_rest d x w h = RB_REMOVE_COLOR q (Some x) h'" "rep h' (plug (nd d t x (nd d near w far)) c)"
    "up h' q (Some x) c" "shape h' q (Some x) (nd d t x (nd d near w far))" "k' = RB_COLOR h'" "k' x = k x"
    "short_by_one k' (if k x = RB_RED then n else Suc n) (nd d t x (nd d near w far))" "\<And>j. ctx_rb k' j c = ctx_rb k j c"
proof -
  define h' where "h' = set_col w RB_RED h"
  have r': "rep h' (plug (nd d t x (nd d near w far)) c)" using r by (simp add: h'_def)
  then obtain q where u: "up h' q (Some x) c" "shape h' q (Some x) (nd d t x (nd d near w far))" unfolding rep_plug by auto
  have di: "distinct (inorder (nd d t x (nd d near w far)))" "set_tree (nd d t x (nd d near w far)) \<inter> above c = {}"
    using r unfolding rep_plug by auto
  have "shape h (Some w) (rb_child d h w) near" "shape h (Some w) (rb_child (other d) h w) far" using r unfolding rep_plug by auto
  then have "is_black h (rb_child d h w)" "is_black h (rb_child (other d) h w)" using b by (simp_all add: is_black_shape k)
  then have "is_black h (RB_LEFT h w) \<and> is_black h (RB_RIGHT h w)" by (cases d) auto
  then have code: "remove_rest d x w h = RB_REMOVE_COLOR q (Some x) h'" using u by (simp add: remove_rest_def h'_def Let_def)
  define k' where "k' = k(w := RB_RED)"
  have kh: "k' = RB_COLOR h'" by (simp add: k'_def k h'_def rb_simps)
  have val: "k' x = k x" "k' w = RB_RED" using di(1) by (auto simp: k'_def)
  have nb: "w \<notin> set_tree t" "w \<notin> set_tree near" "w \<notin> set_tree far" using di(1) by auto
  have cg: "rbt k' j s = rbt k j s" "rt_black k' s = rt_black k s" if "w \<notin> set_tree s" for j s
    using that by (auto intro!: rbt_cong rt_black_cong simp: k'_def)
  have S: "rbt k' n (nd d near w far)" using t b val by (simp add: cg nb)
  have T: "rbt k' n t" using t by (simp add: cg nb)
  have "short_by_one k' (if k x = RB_RED then n else Suc n) (nd d t x (nd d near w far))"
  proof (cases "k x = RB_RED")
    case True
    then show ?thesis using S T val by (simp add: short_nd del: rbt_nd)
  next
    case False
    then have "rbt k' (Suc n) (nd d t x (nd d near w far))" "k' x = RB_BLACK"
      using S T val rbt_nd [of k' "Suc n" d t x "nd d near w far"] by (simp_all del: rbt_nd)
    then show ?thesis using False by (simp add: short_by_one_def del: rbt_nd)
  qed
  moreover have "ctx_rb k' j c = ctx_rb k j c" for j by (rule ctx_rb_cong) (use di(2) in \<open>auto simp: k'_def\<close>)
  ultimately show thesis using that code r' u kh val(1) by blast
qed


lemma remove_rest_rep:
  assumes r: "rep h (plug (nd d t x (nd d near w far)) c)" and k: "k = RB_COLOR h"
    and t: "rbt k n t" "rbt k n near" "rbt k n far" and b: "rt_black k t" and w: "k w = RB_BLACK"
    and c: "if k x = RB_RED then c \<noteq> [] \<and> top_black k c \<and> ctx_rb k (Suc n) c else ctx_rb k (Suc (Suc n)) c"
    and next_up: "\<And>h q p t n. k x = RB_BLACK \<Longrightarrow> rep h (plug t c) \<Longrightarrow> up h q p c \<Longrightarrow> shape h q p t
      \<Longrightarrow> short_by_one (RB_COLOR h) n t \<Longrightarrow> ctx_rb (RB_COLOR h) (Suc n) c \<Longrightarrow> restored (RB_REMOVE_COLOR q p h) (inorder (plug t c))"
  shows "restored (remove_rest d x w h) (inorder (plug (nd d t x (nd d near w far)) c))"
proof (cases "rt_black k near \<and> rt_black k far")
  case False
  then show ?thesis using remove_nephew [OF r k t w _ c] by blast
next
  case True
  let ?T = "nd d t x (nd d near w far)"
  obtain h' k' q where h': "remove_rest d x w h = RB_REMOVE_COLOR q (Some x) h'" "rep h' (plug ?T c)"
    "up h' q (Some x) c" "shape h' q (Some x) ?T" "k' = RB_COLOR h'" "k' x = k x"
    "short_by_one k' (if k x = RB_RED then n else Suc n) ?T" "\<And>j. ctx_rb k' j c = ctx_rb k j c"
    by (rule remove_push [OF r k t b _ _ w]) (use True in auto)
  show ?thesis
  proof (cases "k x = RB_RED")
    case True
    then have "\<not> rt_black k' ?T" using h'(6) by simp
    then show ?thesis
      using remove_end [OF h'(2-4), of n] h'(1,5,7,8) c True by simp
  next
    case False
    then show ?thesis using next_up [OF _ h'(2-4), of "Suc n"] h'(1,5,7,8) c by simp
  qed
qed

lemma sibling_side:
  assumes "up h q p ((d, x, s) # c)" "shape h (Some x) p t" "s \<noteq> \<langle>\<rangle>" "set_tree t \<inter> set_tree s = {}"
  shows "(if RB_LEFT h x = p then Lf else Rt) = d"
proof (cases d)
  case Rt
  have "shape h (Some x) (RB_LEFT h x) s" using assms(1) Rt by simp
  then obtain w where "RB_LEFT h x = Some w" "w \<in> set_tree s" using assms(3) by (cases s) auto
  moreover have "p \<noteq> Some w" using shape_ptr [OF assms(2)] assms(4) calculation(2) by auto
  ultimately show ?thesis using Rt by auto
qed (use assms(1) in auto)

text \<open>The loop ends and the tree is balanced again, with the same elements in the same order.\<close>

lemma remove_color_rep:
  assumes "rep h (plug t c)" "up h q p c" "shape h q p t" "short_by_one (RB_COLOR h) n t" "ctx_rb (RB_COLOR h) (Suc n) c"
  shows "restored (RB_REMOVE_COLOR q p h) (inorder (plug t c))"
  using assms
proof (induction c arbitrary: h q p t n)
  case Nil
  then show ?case by (intro remove_end) auto
next
  case (Cons fr c)
  obtain d x s where fr: "fr = (d, x, s)" by (cases fr)
  note p = Cons.prems [unfolded fr]
  define k where "k = RB_COLOR h"
  show ?case
  proof (cases "rt_black k t")
    case False
    then show ?thesis using remove_end [OF p] by (simp add: k_def fr)
  next
    case True
    have t: "rbt k n t" using p(4) True by (simp add: short_by_one_def k_def)
    have s: "rbt k (Suc n) s" and c: "if k x = RB_RED then rt_black k s \<and> c \<noteq> [] \<and> top_black k c \<and> ctx_rb k (Suc n) c else ctx_rb k (Suc (Suc n)) c"
      using p(5) by (simp_all add: k_def)
    have "s \<noteq> \<langle>\<rangle>" using s by auto
    then obtain near w far where sw: "s = nd d near w far" using nd_cases [of s d] by auto
    have q: "q = Some x" "up h (RB_PARENT h x) (Some x) c" using p(2) by simp_all
    have dj: "set_tree t \<inter> set_tree s = {}" using p(1) unfolding rep_plug by auto
    have side: "(if RB_LEFT h x = p then Lf else Rt) = d"
      using sibling_side [OF p(2) _ \<open>s \<noteq> \<langle>\<rangle>\<close> dj] p(3) q by simp
    have w: "rb_child (other d) h x = Some w" using p(2) sw by simp
    have "p \<noteq> rbh_root h"
    proof -
      obtain y where y: "y \<in> above ((d, x, s) # c)" "rbh_root h = Some y" using root_above [OF p(2)] by auto
      then have "y \<notin> set_tree t" using p(1) unfolding rep_plug by blast
      then show ?thesis using y(2) shape_ptr [OF p(3)] by auto
    qed
    moreover have "is_black h p" using is_black_shape [OF p(3)] True by (simp add: k_def)
    ultimately have code: "RB_REMOVE_COLOR q p h = do {
        (tmp, h) \<leftarrow> (if k w = RB_RED then do { h \<leftarrow> RB_ROTATE d x (RB_SET_BLACKRED w x h); tmp \<leftarrow> rb_child (other d) h x; Some (tmp, h) }
                    else Some (w, h));
        remove_rest d x tmp h
      }"
      by (subst RB_REMOVE_COLOR_rest) (simp add: q(1) Let_def side w k_def)
    have r: "rep h (plug (nd d t x (nd d near w far)) c)" using p(1) sw by simp
    show ?thesis
    proof (cases "k w = RB_RED")
      case False
      then have "rbt k n near" "rbt k n far" using s sw by simp_all
      moreover have "if k x = RB_RED then c \<noteq> [] \<and> top_black k c \<and> ctx_rb k (Suc n) c else ctx_rb k (Suc (Suc n)) c"
        using c by (auto split: if_splits)
      ultimately have "restored (remove_rest d x w h) (inorder (plug (nd d t x (nd d near w far)) c))"
        using False Cons.IH by (intro remove_rest_rep [OF r k_def t _ _ True]) auto
      then show ?thesis using False by (simp add: code fr sw)
    next
      case red: True
      have x: "k x = RB_BLACK" using c red sw by (auto split: if_splits)
      then have cc: "ctx_rb k (Suc (Suc n)) c" using c by simp
      have nf: "rbt k (Suc n) near" "rt_black k near" "rbt k (Suc n) far" using s sw red by auto
      obtain n1 v n2 where near: "near = nd d n1 v n2" "k v = RB_BLACK" "rbt k n n1" "rbt k n n2"
        using rt_black_rbt [OF nf(1,2)] by blast
      have "rep (RB_SET_BLACKRED w x h) (plug (nd d t x (nd d near w far)) c)" using r by simp
      then obtain h2 where h2: "RB_ROTATE d x (RB_SET_BLACKRED w x h) = Some h2" "rep h2 (plug (nd d (nd d t x near) w far) c)"
        "RB_COLOR h2 = RB_COLOR (RB_SET_BLACKRED w x h)" by (rule rotate_rep)
      let ?c = "(d, w, far) # c"
      have r2: "rep h2 (plug (nd d t x (nd d n1 v n2)) ?c)" using h2(2) by (simp add: near(1))
      then have v: "rb_child (other d) h2 x = Some v" unfolding rep_plug by auto
      define k2 where "k2 = k(w := RB_BLACK, x := RB_RED)"
      have k2: "k2 = RB_COLOR h2" by (simp add: h2(3) rb_simps k2_def k_def)
      have di: "distinct (inorder (nd d t x (nd d n1 v n2)))" "set_tree (nd d t x (nd d n1 v n2)) \<inter> above ?c = {}" "above_distinct ?c"
        using r2 unfolding rep_plug by auto
      have val: "k2 w = RB_BLACK" "k2 x = RB_RED" "k2 v = RB_BLACK" using di near(2) by (auto simp: k2_def)
      have nb: "w \<notin> set_tree t" "x \<notin> set_tree t" "w \<notin> set_tree n1" "x \<notin> set_tree n1" "w \<notin> set_tree n2" "x \<notin> set_tree n2"
        "w \<notin> set_tree far" "x \<notin> set_tree far" using di by auto
      have cg: "rbt k2 j u = rbt k j u" "rt_black k2 u = rt_black k u" if "w \<notin> set_tree u" "x \<notin> set_tree u" for j u
        using that by (auto intro!: rbt_cong rt_black_cong simp: k2_def)
      have "ctx_rb k2 (Suc (Suc n)) c" using cc di by (subst ctx_rb_cong [where k = k]) (auto simp: k2_def)
      then have "ctx_rb k2 (Suc n) ?c" using nf(3) val(1) by (simp add: cg nb)
      then have "restored (remove_rest d x v h2) (inorder (plug (nd d t x (nd d n1 v n2)) ?c))"
        using t near(3,4) True val by (intro remove_rest_rep [OF r2 k2]) (simp_all add: cg nb)
      moreover have "inorder (plug (nd d t x (nd d n1 v n2)) ?c) = inorder (plug (nd d t x s) c)"
        using inorder_plug_cong [OF inorder_rotate, of d t x near w far c] by (simp add: near(1) sw)
      ultimately show ?thesis using red h2(1) v by (simp add: code fr)
    qed
  qed
qed

section \<open>Taking an element out\<close>

lemma in_plug: "x \<in> set_tree T \<Longrightarrow> \<exists>l r c. T = plug \<langle>l, x, r\<rangle> c"
proof (induction T)
  case (Node l y r)
  consider "x = y" | "x \<in> set_tree l" | "x \<in> set_tree r" using Node.prems by auto
  then show ?case
  proof cases
    case 1
    then show ?thesis by (intro exI [of _ l] exI [of _ r] exI [of _ "[]"]) simp
  next
    case 2
    then obtain l' r' c where "l = plug \<langle>l', x, r'\<rangle> c" using Node.IH(1) by blast
    then have "\<langle>l, y, r\<rangle> = plug \<langle>l', x, r'\<rangle> (c @ [(Lf, y, r)])" by (simp add: plug_append nd_def)
    then show ?thesis by blast
  next
    case 3
    then obtain l' r' c where "r = plug \<langle>l', x, r'\<rangle> c" using Node.IH(2) by blast
    then have "\<langle>l, y, r\<rangle> = plug \<langle>l', x, r'\<rangle> (c @ [(Rt, y, l)])" by (simp add: plug_append nd_def)
    then show ?thesis by blast
  qed
qed simp

lemma unlink_reads:
  "RB_COLOR (rb_unlink e p h) = RB_COLOR h" "rbh_root (rb_unlink e p h) = (if RB_PARENT h e = None then p else rbh_root h)"
  "RB_PARENT (rb_unlink e p h) w = (if p = Some w then RB_PARENT h e else RB_PARENT h w)"
  "rb_child d (rb_unlink e p h) w = (if RB_PARENT h e = Some w \<and> d = (if RB_LEFT h w = Some e then Lf else Rt) then p else rb_child d h w)"
  by (simp_all add: rb_unlink_def rb_simps)

lemma unlink_rep:
  assumes r: "rep h (plug (nd d t e \<langle>\<rangle>) c)"
  defines "h1 \<equiv> rb_unlink e (rb_child d h e) h"
  shows "rep h1 (plug t c)" "up h1 (RB_PARENT h e) (rb_child d h e) c" "shape h1 (RB_PARENT h e) (rb_child d h e) t"
proof -
  let ?p = "rb_child d h e" and ?q = "RB_PARENT h e"
  from r obtain q where u: "up h q (Some e) c" and s: "shape h q (Some e) (nd d t e \<langle>\<rangle>)" and ad: "above_distinct c"
    and di: "distinct (inorder (nd d t e \<langle>\<rangle>))" "set_tree (nd d t e \<langle>\<rangle>) \<inter> above c = {}"
    unfolding rep_plug by auto
  have q: "?q = q" and st: "shape h (Some e) ?p t" using s by simp_all
  have pt: "?p = Some w \<Longrightarrow> w \<in> set_tree t" for w using shape_ptr [OF st] by auto
  have qc: "q = Some w \<Longrightarrow> w \<in> above c" for w using up_parent [OF u] by (auto split: list.splits)
  show s1: "shape h1 ?q ?p t"
    by (rule shape_moved [OF st]) (use di qc q in \<open>auto simp: h1_def unlink_reads\<close>)
  show u1: "up h1 ?q ?p c"
    unfolding q
  proof (rule up_moved [OF u ad])
    show "RB_PARENT h1 w = RB_PARENT h w" if "w \<in> above c" for w using that pt di(2) by (auto simp: h1_def unlink_reads)
    show "rb_child dd h1 z = ?p \<and> rb_child (other dd) h1 z = rb_child (other dd) h z" if c: "c = (dd, z, s) # c'" for dd z s c'
    proof -
      have z: "q = Some z" and ce: "rb_child dd h z = Some e" and sz: "shape h (Some z) (rb_child (other dd) h z) s" using u c by auto
      have "rb_child (other dd) h z \<noteq> Some e" using shape_ptr [OF sz] di(2) c by auto
      then have "dd = (if RB_LEFT h z = Some e then Lf else Rt)" using ce by (cases dd) auto
      then show ?thesis using z q by (cases dd) (auto simp: h1_def unlink_reads)
    qed
  qed (use q in \<open>auto simp: h1_def unlink_reads\<close>)
  show "rep h1 (plug t c)" unfolding rep_plug using s1 u1 ad di by auto
qed

lemma short_of_rbt: "rbt k n t \<Longrightarrow> short_by_one k n t"
  by (auto simp: short_by_one_def)

text \<open>What follows the label \<open>color\<close>, for a removed node of color \<open>col\<close>.\<close>

lemma recolor_after:
  assumes r: "rep h (plug t c)" and u: "up h q p c" "shape h q p t" and k: "k = RB_COLOR h"
    and b: "ctx_rb k m c" "if col = RB_BLACK then \<exists>n. m = Suc n \<and> rbt k n t else rbt k m t \<and> rt_black k t"
  shows "restored (if col = RB_BLACK then RB_REMOVE_COLOR q p h else Some h) (inorder (plug t c))"
proof (cases "col = RB_BLACK")
  case True
  then obtain n where n: "m = Suc n" "rbt k n t" using b(2) by auto
  then show ?thesis using remove_color_rep [OF r u short_of_rbt] b(1) True by (simp add: k)
next
  case False
  then show ?thesis using plug_balanced [OF b(1), of t] b(2) r by (auto simp: restored_def k)
qed

lemma remove_one_child:
  assumes r: "rep h (plug (nd d t e \<langle>\<rangle>) c)" and b: "balanced (RB_COLOR h) (plug (nd d t e \<langle>\<rangle>) c)"
    and d: "d = (if RB_LEFT h e = None then Rt else Lf)"
  shows "\<exists>h'. RB_REMOVE e h = Some (e, h') \<and> restored (Some h') (inorder (plug t c))"
proof -
  obtain m where m: "ctx_rb (RB_COLOR h) m c" "rbt (RB_COLOR h) m (nd d t e \<langle>\<rangle>)" using balanced_plug [OF b] by auto
  note un = unlink_rep [OF r]
  let ?h = "rb_unlink e (rb_child d h e) h"
  have none: "rb_child (other d) h e = None" using r unfolding rep_plug by auto
  have ch: "(if RB_LEFT h e = None then RB_RIGHT h e else RB_LEFT h e) = rb_child d h e" using d by auto
  have guard: "RB_LEFT h e = None \<or> RB_RIGHT h e = None" using none d by (cases d) auto
  have code: "RB_REMOVE e h = map_option (\<lambda>h. (e, h)) (if RB_COLOR h e = RB_BLACK then RB_REMOVE_COLOR (RB_PARENT h e) (rb_child d h e) ?h else Some ?h)"
    unfolding RB_REMOVE_def if_P [OF guard] ch Let_def by (auto simp: map_option_case split: option.splits)
  have "restored (if RB_COLOR h e = RB_BLACK then RB_REMOVE_COLOR (RB_PARENT h e) (rb_child d h e) ?h else Some ?h) (inorder (plug t c))"
  proof (rule recolor_after [OF un refl])
    show "ctx_rb (RB_COLOR ?h) m c" using m(1) by (simp add: unlink_reads)
    show "if RB_COLOR h e = RB_BLACK then \<exists>n. m = Suc n \<and> rbt (RB_COLOR ?h) n t else rbt (RB_COLOR ?h) m t \<and> rt_black (RB_COLOR ?h) t"
      using m(2) by (cases m; cases "RB_COLOR h e") (auto simp: unlink_reads)
  qed
  then show ?thesis unfolding code by (auto simp: restored_def)
qed


section \<open>The successor takes the place\<close>

lemma descend_rep:
  assumes "shape h q (Some z) t"
  shows "\<exists>y b c. rb_descend d z h = Some y \<and> t = plug (nd d \<langle>\<rangle> y b) c \<and> (\<forall>f \<in> set c. fst f = d)"
  using assms
proof (induction t arbitrary: q z)
  case (Node l x r)
  obtain a b where ab: "\<langle>l, x, r\<rangle> = nd d a x b" "a = l \<or> a = r" by (cases d) (auto simp: nd_def)
  have s: "shape h q (Some z) (nd d a x b)" using Node.prems ab(1) by simp
  then have z: "z = x" and sa: "shape h (Some x) (rb_child d h x) a" by simp_all
  show ?case
  proof (cases "rb_child d h x")
    case None
    then have "a = \<langle>\<rangle>" using sa by (cases a) auto
    moreover have "rb_descend d z h = Some x" using None z by (subst rb_descend.simps) simp
    ultimately show ?thesis using ab(1) by (intro exI [of _ x] exI [of _ b] exI [of _ "[]"]) simp
  next
    case (Some v)
    then have "shape h (Some x) (Some v) a" using sa by simp
    then obtain y b' c where y: "rb_descend d v h = Some y" "a = plug (nd d \<langle>\<rangle> y b') c" "\<forall>f \<in> set c. fst f = d"
      using Node.IH ab(2) by blast
    have "rb_descend d z h = Some y" using Some z y(1) by (subst rb_descend.simps) simp
    moreover have "\<langle>l, x, r\<rangle> = plug (nd d \<langle>\<rangle> y b') (c @ [(d, x, b)])" using ab(1) y(2) by (simp add: plug_append)
    ultimately show ?thesis using y(3) by (intro exI [of _ y] exI [of _ b'] exI [of _ "c @ [(d, x, b)]"]) auto
  qed
qed simp

text \<open>The node \<open>y\<close>, which is not in the tree, takes the place of \<open>x\<close>.\<close>

lemma transplant_reads:
  assumes "RB_LEFT h x = Some lp" "x \<noteq> y" "RB_PARENT h x \<noteq> Some y" "RB_PARENT h x \<noteq> Some x"
  obtains h' where "rb_transplant x y h = Some h'" "RB_COLOR h' = (RB_COLOR h)(y := RB_COLOR h x)"
    "rbh_root h' = (if RB_PARENT h x = None then Some y else rbh_root h)"
    "\<And>w. RB_PARENT h' w = (if RB_RIGHT h x = Some w \<or> lp = w then Some y else if w = y then RB_PARENT h x else RB_PARENT h w)"
    "\<And>d w. rb_child d h' w = (if w = y then rb_child d h x
        else if RB_PARENT h x = Some w \<and> d = (if RB_LEFT h w = Some x then Lf else Rt) then Some y else rb_child d h w)"
proof -
  let ?e = "set_entry y (\<lambda>_. rbh_mem h x) h"
  have e: "rb_child d ?e w = (if w = y then rb_child d h x else rb_child d h w)" "RB_PARENT ?e = (RB_PARENT h)(y := RB_PARENT h x)"
    "RB_COLOR ?e = (RB_COLOR h)(y := RB_COLOR h x)" "rbh_root ?e = rbh_root h" for d w
    by (cases d; auto simp: set_entry_def RB_PARENT_def RB_COLOR_def rb_child.simps fun_eq_iff)+
  have "rb_transplant x y h \<noteq> None" using assms by (simp add: rb_transplant_def Let_def rb_simps e)
  then obtain h' where h': "rb_transplant x y h = Some h'" by auto
  show thesis
    by (rule that [OF h'])
      (use h' assms in \<open>auto simp: rb_transplant_def Let_def rb_simps e fun_eq_iff split: if_splits\<close>)
qed

lemma transplant_rep:
  assumes r: "rep h (plug \<langle>l, x, rr\<rangle> c)" and l: "l \<noteq> \<langle>\<rangle>" and y: "y \<notin> set_tree \<langle>l, x, rr\<rangle> \<union> above c"
  obtains h' where "rb_transplant x y h = Some h'" "rep h' (plug \<langle>l, y, rr\<rangle> c)" "RB_COLOR h' = (RB_COLOR h)(y := RB_COLOR h x)"
proof -
  from r obtain q where u: "up h q (Some x) c" and s: "shape h q (Some x) \<langle>l, x, rr\<rangle>" and ad: "above_distinct c"
    and di: "distinct (inorder \<langle>l, x, rr\<rangle>)" "set_tree \<langle>l, x, rr\<rangle> \<inter> above c = {}"
    unfolding rep_plug by auto
  have q: "RB_PARENT h x = q" and sl: "shape h (Some x) (RB_LEFT h x) l" and sr: "shape h (Some x) (RB_RIGHT h x) rr" using s by simp_all
  obtain lp where lp: "RB_LEFT h x = Some lp" "lp \<in> set_tree l" using sl l by (cases l) auto
  have rp: "RB_RIGHT h x = Some w \<Longrightarrow> w \<in> set_tree rr" for w using shape_ptr [OF sr] by auto
  have qc: "q = Some w \<Longrightarrow> w \<in> above c" for w using up_parent [OF u] by (auto split: list.splits)
  have nq: "q \<noteq> Some y" "q \<noteq> Some x" "x \<noteq> y" using qc y di(2) by auto
  from transplant_reads [OF lp(1) nq(3) nq(1,2) [folded q]] obtain h' where h': "rb_transplant x y h = Some h'"
      "RB_COLOR h' = (RB_COLOR h)(y := RB_COLOR h x)" "rbh_root h' = (if q = None then Some y else rbh_root h)"
    and pa: "\<And>w. RB_PARENT h' w = (if RB_RIGHT h x = Some w \<or> lp = w then Some y else if w = y then q else RB_PARENT h w)"
    and ch: "\<And>d w. rb_child d h' w = (if w = y then rb_child d h x
        else if q = Some w \<and> d = (if RB_LEFT h w = Some x then Lf else Rt) then Some y else rb_child d h w)"
    unfolding q by blast
  have "shape h' (Some y) (RB_LEFT h x) l"
    by (rule shape_moved [OF sl]) (use di y qc rp lp in \<open>auto simp: pa ch\<close>)
  moreover have "shape h' (Some y) (RB_RIGHT h x) rr"
    by (rule shape_moved [OF sr]) (use di y qc rp lp in \<open>auto simp: pa ch\<close>)
  moreover have "RB_PARENT h' y = q" using y rp lp by (auto simp: pa)
  ultimately have s': "shape h' q (Some y) \<langle>l, y, rr\<rangle>" by (simp add: ch)
  have u': "up h' q (Some y) c"
  proof (rule up_moved [OF u ad])
    show "RB_PARENT h' w = RB_PARENT h w" if "w \<in> above c" for w using that di(2) y rp lp(2) by (auto simp: pa)
    show "rb_child d h' w = rb_child d h w" if "w \<in> above c" "q \<noteq> Some w" for w d using that y by (auto simp: ch)
    show "rb_child dd h' z = Some y \<and> rb_child (other dd) h' z = rb_child (other dd) h z" if c: "c = (dd, z, s) # c'" for dd z s c'
    proof -
      have z: "q = Some z" and ce: "rb_child dd h z = Some x" and sz: "shape h (Some z) (rb_child (other dd) h z) s" using u c by auto
      have "rb_child (other dd) h z \<noteq> Some x" using shape_ptr [OF sz] di(2) c by auto
      then have "dd = (if RB_LEFT h z = Some x then Lf else Rt)" using ce by (cases dd) auto
      moreover have "z \<noteq> y" using z nq by auto
      ultimately show ?thesis using z by (cases dd) (auto simp: ch)
    qed
  qed (rule h'(3))
  have "rep h' (plug \<langle>l, y, rr\<rangle> c)" unfolding rep_plug using s' u' ad di y by auto
  then show thesis by (rule that [OF h'(1) _ h'(2)])
qed


text \<open>Renaming a node of the rest of the tree, color included.\<close>

lemma ctx_rb_rename:
  assumes "ctx_rb k m (c2 @ (d, x, s) # c)" "k' y = k x" "\<And>w. w \<in> above c2 \<union> set_tree s \<union> above c \<Longrightarrow> k' w = k w"
  shows "ctx_rb k' m (c2 @ (d, y, s) # c)"
  using assms
proof (induction c2 arbitrary: m)
  case Nil
  have "rbt k' j s = rbt k j s" "rt_black k' s = rt_black k s" for j using Nil(3) by (auto intro!: rbt_cong rt_black_cong)
  moreover have "ctx_rb k' j c = ctx_rb k j c" for j by (rule ctx_rb_cong) (use Nil(3) in auto)
  moreover have "top_black k' c = top_black k c" by (rule top_black_cong) (use Nil(3) in auto)
  ultimately show ?case using Nil(1,2) by (auto split: if_splits)
next
  case (Cons f c2)
  obtain d' z s' where f: "f = (d', z, s')" by (cases f)
  have "rbt k' j s' = rbt k j s'" "rt_black k' s' = rt_black k s'" for j using Cons.prems(3) f by (auto intro!: rbt_cong rt_black_cong)
  moreover have "top_black k' (c2 @ (d, y, s) # c) = top_black k (c2 @ (d, x, s) # c)"
    using Cons.prems(2,3) by (cases c2) (auto simp: top_black_def f)
  moreover have "k' z = k z" using Cons.prems(3) f by simp
  moreover have "ctx_rb k' j (c2 @ (d, y, s) # c)" if "ctx_rb k j (c2 @ (d, x, s) # c)" for j
    using Cons.IH [OF that] Cons.prems(2,3) f by auto
  ultimately show ?case using Cons.prems(1) by (auto simp: f split: if_splits)
qed

lemma above_append: "above (c1 @ c2) = above c1 \<union> above c2"
  by (induction c1 rule: above.induct) auto

lemma along_one_side: "\<forall>f \<in> set c. fst f = d \<Longrightarrow> along (other d) c = []"
  by (induction c) auto

lemma shape_root: "shape h q p t \<Longrightarrow> p = (case t of \<langle>\<rangle> \<Rightarrow> None | \<langle>l, x, r\<rangle> \<Rightarrow> Some x)"
  by (cases t) auto

lemma remove_two_children:
  assumes r: "rep h (plug \<langle>l, e, rr\<rangle> c)" and b: "balanced (RB_COLOR h) (plug \<langle>l, e, rr\<rangle> c)" and ne: "l \<noteq> \<langle>\<rangle>" "rr \<noteq> \<langle>\<rangle>"
  shows "\<exists>h'. RB_REMOVE e h = Some (e, h') \<and> restored (Some h') (remove1 e (inorder (plug \<langle>l, e, rr\<rangle> c)))"
proof -
  obtain q where s: "shape h q (Some e) \<langle>l, e, rr\<rangle>" using r unfolding rep_plug by auto
  then obtain rp lp where rp: "RB_RIGHT h e = Some rp" "shape h (Some e) (Some rp) rr" and lp: "RB_LEFT h e = Some lp"
    using ne by (cases l; cases rr) auto
  from descend_rep [OF rp(2), of Lf] obtain y rc c2 where y: "rb_descend Lf rp h = Some y" "rr = plug (nd Lf \<langle>\<rangle> y rc) c2"
    and c2: "\<forall>f \<in> set c2. fst f = Lf" by blast
  let ?C = "c2 @ (Rt, e, l) # c" and ?D = "c2 @ (Rt, y, l) # c"
  have T: "plug \<langle>l, e, rr\<rangle> c = plug (nd Rt rc y \<langle>\<rangle>) ?C" by (simp add: plug_append y(2)) (simp add: nd_def)
  have r1: "rep h (plug (nd Rt rc y \<langle>\<rangle>) ?C)" using r T by simp
  define h1 where "h1 = rb_unlink y (RB_RIGHT h y) h"
  note un = unlink_rep [OF r1, folded h1_def]
  have mem: "distinct (inorder (nd Rt rc y \<langle>\<rangle>))" "set_tree (nd Rt rc y \<langle>\<rangle>) \<inter> above ?C = {}" "above_distinct ?C"
    using r1 unfolding rep_plug by auto
  have U: "plug rc ?C = plug \<langle>l, e, plug rc c2\<rangle> c" and V: "plug rc ?D = plug \<langle>l, y, plug rc c2\<rangle> c"
    by (simp_all add: plug_append) (simp_all add: nd_def)
  have r2: "rep h1 (plug \<langle>l, e, plug rc c2\<rangle> c)" using un(1) U by simp
  have "y \<notin> set_tree \<langle>l, e, plug rc c2\<rangle> \<union> above c" using mem by (auto simp: set_plug above_append)
  from transplant_rep [OF r2 ne(1) this] obtain h2 where h2: "rb_transplant e y h1 = Some h2" "rep h2 (plug rc ?D)"
    "RB_COLOR h2 = (RB_COLOR h1)(y := RB_COLOR h1 e)" unfolding V by blast
  define k2 where "k2 = RB_COLOR h2"
  have k2: "k2 = (RB_COLOR h)(y := RB_COLOR h e)" by (simp add: k2_def h2(3) h1_def unlink_reads)
  obtain q' p' where u: "up h2 q' p' ?D" "shape h2 q' p' rc" using h2(2) unfolding rep_plug by blast
  have p': "p' = RB_RIGHT h y" using shape_root [OF u(2)] shape_root [OF un(3)] by simp
  have py: "RB_PARENT h1 y = RB_PARENT h y"
  proof -
    have "RB_RIGHT h y \<noteq> Some y" using shape_ptr [OF un(3)] mem(1) by auto
    then show ?thesis by (simp add: h1_def unlink_reads)
  qed
  have q': "q' = (if RB_PARENT h1 y = Some e then Some y else RB_PARENT h y)"
    using up_parent [OF u(1)] up_parent [OF un(2)] mem(3) py by (cases c2) (auto simp: above_append)
  obtain m where m: "ctx_rb (RB_COLOR h) m ?C" "rbt (RB_COLOR h) m (nd Rt rc y \<langle>\<rangle>)"
    using balanced_plug b unfolding T by blast
  have cD: "ctx_rb k2 m ?D"
    by (rule ctx_rb_rename [OF m(1)]) (use mem(2) in \<open>auto simp: k2 above_append\<close>)
  have "y \<notin> set_tree rc" using mem(1) by simp
  then have crc: "rbt k2 j rc = rbt (RB_COLOR h) j rc" "rt_black k2 rc = rt_black (RB_COLOR h) rc" for j
    by (auto intro!: rbt_cong rt_black_cong simp: k2)
  have fin: "restored (if RB_COLOR h y = RB_BLACK then RB_REMOVE_COLOR q' p' h2 else Some h2) (inorder (plug rc ?D))"
  proof (rule recolor_after [OF h2(2) u k2_def cD])
    show "if RB_COLOR h y = RB_BLACK then \<exists>n. m = Suc n \<and> rbt k2 n rc else rbt k2 m rc \<and> rt_black k2 rc"
      using m(2) by (cases m; cases "RB_COLOR h y") (auto simp: crc)
  qed
  have "RB_REMOVE e h = map_option (\<lambda>h. (e, h)) (if RB_COLOR h y = RB_BLACK then RB_REMOVE_COLOR q' p' h2 else Some h2)"
    unfolding RB_REMOVE_def using rp(1) lp y(1) h2(1)
    by (auto simp: Let_def h1_def [symmetric] q' p' py map_conv_bind_option comp_def)
  moreover have "inorder (plug rc ?D) = remove1 e (inorder (plug \<langle>l, e, rr\<rangle> c))"
  proof -
    have "inorder rr = y # inorder (plug rc c2)"
      using along_one_side [OF c2] by (simp add: y(2) inorder_plug) (simp add: nd_def)
    moreover have "e \<notin> set (rev (along Rt c) @ inorder l)"
      using r unfolding rep_def inorder_plug by auto
    ultimately show ?thesis
      using remove1_middle [of e "rev (along Rt c) @ inorder l" "inorder rr @ along Lf c"] by (simp add: V inorder_plug)
  qed
  ultimately show ?thesis using fin by (auto simp: restored_def)
qed

lemma ordered_remove1: "ordered cmp xs \<Longrightarrow> ordered cmp (remove1 e xs)"
proof (induction xs)
  case (Cons x xs)
  then show ?case using notin_set_remove1 [of _ xs e] by (auto simp: ordered_Cons dest: notin_set_remove1)
qed (simp add: ordered_def)

lemma remove_in_order:
  assumes t: "rb_tree cmp h xs" and e: "e \<in> set xs"
  shows "\<exists>h'. RB_REMOVE e h = Some (e, h') \<and> rb_tree cmp h' (remove1 e xs)"
proof -
  from t obtain T where T: "rep h T" "inorder T = xs" "balanced (RB_COLOR h) T" and o': "ordered cmp xs"
    by (auto simp: rb_tree_def)
  have "e \<in> set_tree T" using e T(2) by (metis set_inorder)
  then obtain l rr c where p: "T = plug \<langle>l, e, rr\<rangle> c" using in_plug by blast
  have "\<exists>h'. RB_REMOVE e h = Some (e, h') \<and> restored (Some h') (remove1 e xs)"
  proof (cases "l = \<langle>\<rangle> \<or> rr = \<langle>\<rangle>")
    case False
    then show ?thesis using remove_two_children [of h l e rr c] T p by simp
  next
    case True
    define d where "d = (if RB_LEFT h e = None then Rt else Lf)"
    obtain q where "shape h q (Some e) \<langle>l, e, rr\<rangle>" using T(1) unfolding p rep_plug by auto
    then have "l = \<langle>\<rangle> \<longleftrightarrow> RB_LEFT h e = None" by (cases l) auto
    then obtain tt where tt: "\<langle>l, e, rr\<rangle> = nd d tt e \<langle>\<rangle>" "inorder tt = inorder l @ inorder rr"
      using True by (cases "l = \<langle>\<rangle>") (auto simp: d_def nd_def)
    have "e \<notin> set (rev (along Rt c) @ inorder l)" using T(1) unfolding p rep_def inorder_plug by auto
    then have "remove1 e xs = inorder (plug tt c)"
      using remove1_middle [of e "rev (along Rt c) @ inorder l" "inorder rr @ along Lf c"] T(2) by (auto simp: p inorder_plug tt(2))
    then show ?thesis using remove_one_child [of h d tt e c] T(1,3) p tt(1) d_def by simp
  qed
  then show ?thesis using ordered_remove1 [OF o'] by (auto simp: restored_def rb_tree_def)
qed

end
