(* ===== verification/Rb_Search.thy ===== *)
theory Rb_Search
  imports Rb_Remove
begin

text \<open>
  Searching and traversing the red-black tree: \<open>RB_FIND\<close> and \<open>RB_NFIND\<close> are the searches in the list of
  the elements, \<open>RB_NEXT\<close>, \<open>RB_PREV\<close> and \<open>RB_MINMAX\<close> the steps in it.
\<close>

section \<open>Searching\<close>

lemma find_append: "find P (xs @ ys) = (case find P xs of None \<Rightarrow> find P ys | Some x \<Rightarrow> Some x)"
  by (induction xs) auto

context tree_order
begin

lemma ordered_node:
  assumes "ordered cmp (inorder \<langle>l, x, r\<rangle>)"
  shows "ordered cmp (inorder l)" "ordered cmp (inorder r)"
    "cmp e x < 0 \<Longrightarrow> y \<in> set_tree r \<Longrightarrow> cmp e y < 0" "cmp e x \<ge> 0 \<Longrightarrow> y \<in> set_tree l \<Longrightarrow> cmp e y > 0"
proof -
  have o4: "ordered cmp (inorder l)" "ordered cmp (inorder r)" "\<And>y. y \<in> set_tree r \<Longrightarrow> cmp x y < 0" "\<And>y. y \<in> set_tree l \<Longrightarrow> cmp y x < 0"
    using assms by (auto simp: ordered_append ordered_Cons)
  show "ordered cmp (inorder l)" "ordered cmp (inorder r)" using o4 by auto
  show "cmp e y < 0" if "cmp e x < 0" "y \<in> set_tree r" using trans [of e x y] that o4(3) by simp
  show "cmp e y > 0" if "cmp e x \<ge> 0" "y \<in> set_tree l"
  proof -
    have "cmp x e \<le> 0" using that(1) swap [of e x] by linarith
    then have "cmp y e < 0" using trans2 o4(4) [OF that(2)] by blast
    then show ?thesis using swap by blast
  qed
qed

lemma find_none_l: "ordered cmp (inorder \<langle>l, x, r\<rangle>) \<Longrightarrow> cmp e x \<ge> 0 \<Longrightarrow> find (\<lambda>y. cmp e y \<le> 0) (inorder l) = None"
  using ordered_node(4) by (fastforce simp: find_None_iff)

lemma find_in_order:
  assumes "shape h q p t" "ordered cmp (inorder t)"
  shows "rb_find_from cmp e p h = Some (find (\<lambda>x. cmp e x = 0) (inorder t))"
  using assms
proof (induction t arbitrary: q p)
  case Leaf
  then show ?case by (subst rb_find_from.simps) simp
next
  case (Node l x r)
  have p: "p = Some x" using Node.prems(1) by simp
  have IH: "rb_find_from cmp e (RB_LEFT h x) h = Some (find (\<lambda>x. cmp e x = 0) (inorder l))"
    "rb_find_from cmp e (RB_RIGHT h x) h = Some (find (\<lambda>x. cmp e x = 0) (inorder r))"
    using Node ordered_node(1,2) [OF Node.prems(2)] by auto
  consider "cmp e x < 0" | "cmp e x > 0" | "cmp e x = 0" by linarith
  then show ?case
  proof cases
    case 1
    have "find (\<lambda>x. cmp e x = 0) (inorder r) = None"
      using ordered_node(3) [OF Node.prems(2) 1] by (fastforce simp: find_None_iff)
    then show ?thesis using 1 IH p by (subst rb_find_from.simps) (simp add: find_append split: option.splits)
  next
    case 2
    have "find (\<lambda>x. cmp e x = 0) (inorder l) = None"
      using ordered_node(4) [OF Node.prems(2), of e] 2 by (fastforce simp: find_None_iff)
    then show ?thesis using 2 IH p by (subst rb_find_from.simps) (simp add: find_append)
  next
    case 3
    have "find (\<lambda>x. cmp e x = 0) (inorder l) = None"
      using ordered_node(4) [OF Node.prems(2), of e] 3 by (fastforce simp: find_None_iff)
    then show ?thesis using 3 p by (subst rb_find_from.simps) (simp add: find_append)
  qed
qed

lemma nfind_in_order:
  assumes "shape h q p t" "ordered cmp (inorder t)"
  shows "rb_nfind_from cmp e p res h = Some (case find (\<lambda>x. cmp e x \<le> 0) (inorder t) of None \<Rightarrow> res | Some x \<Rightarrow> Some x)"
  using assms
proof (induction t arbitrary: q p res)
  case Leaf
  then show ?case by (subst rb_nfind_from.simps) simp
next
  case (Node l x r)
  have p: "p = Some x" using Node.prems(1) by simp
  have IH: "rb_nfind_from cmp e (RB_LEFT h x) res h = Some (case find (\<lambda>x. cmp e x \<le> 0) (inorder l) of None \<Rightarrow> res | Some x \<Rightarrow> Some x)"
    "rb_nfind_from cmp e (RB_RIGHT h x) res h = Some (case find (\<lambda>x. cmp e x \<le> 0) (inorder r) of None \<Rightarrow> res | Some x \<Rightarrow> Some x)" for res
    using Node ordered_node(1,2) [OF Node.prems(2)] by auto
  consider "cmp e x < 0" | "cmp e x > 0" | "cmp e x = 0" by linarith
  then show ?case
  proof cases
    case 1
    then show ?thesis using IH p by (subst rb_nfind_from.simps) (simp add: find_append split: option.splits)
  next
    case 2
    then show ?thesis using IH p find_none_l [OF Node.prems(2), of e] by (subst rb_nfind_from.simps) (simp add: find_append)
  next
    case 3
    then show ?thesis using p find_none_l [OF Node.prems(2), of e] by (subst rb_nfind_from.simps) (simp add: find_append)
  qed
qed

lemma search_in_order:
  assumes "rb_tree cmp h xs"
  shows "RB_FIND cmp e h = Some (find (\<lambda>x. cmp e x = 0) xs)" "RB_NFIND cmp e h = Some (find (\<lambda>x. cmp e x \<le> 0) xs)"
proof -
  from assms obtain T where T: "shape h None (rbh_root h) T" "inorder T = xs" and o': "ordered cmp (inorder T)"
    by (auto simp: rb_tree_def rep_def)
  show "RB_FIND cmp e h = Some (find (\<lambda>x. cmp e x = 0) xs)" using find_in_order [OF T(1) o'] T(2) by (simp add: RB_FIND_def)
  show "RB_NFIND cmp e h = Some (find (\<lambda>x. cmp e x \<le> 0) xs)"
    using nfind_in_order [OF T(1) o', of e None] T(2) by (simp add: RB_NFIND_def split: option.splits)
qed

end

section \<open>Traversing\<close>

definition first :: "addr list \<Rightarrow> ptr" where
  "first xs = (case xs of [] \<Rightarrow> None | x # _ \<Rightarrow> Some x)"

lemma first_simps [simp]: "first [] = None" "first (x # xs) = Some x" "xs \<noteq> [] \<Longrightarrow> first (xs @ ys) = first xs"
  by (cases xs; simp add: first_def)+

lemma descend_first:
  assumes "shape h q (Some z) t"
  shows "map_option Some (rb_descend d z h) = Some (first (lin d t))"
proof -
  from descend_rep [OF assms, of d] obtain y b c where y: "rb_descend d z h = Some y" "t = plug (nd d \<langle>\<rangle> y b) c" "\<forall>f \<in> set c. fst f = d"
    by blast
  then show ?thesis using along_one_side [OF y(3)] by (simp add: lin_plug)
qed

lemma ascend_first:
  assumes "up h q (Some x) c" "x \<notin> above c" "above_distinct c" "RB_PARENT h x = q"
  shows "rb_ascend (other d) x h = Some (first (along d c))"
  using assms
proof (induction h q "Some x" c arbitrary: x rule: up.induct)
  case (1 h q)
  then show ?case by (subst rb_ascend.simps) simp
next
  case (2 h q d' p s c)
  have par: "RB_PARENT h x = Some p" and ch: "rb_child d' h p = Some x" and sh: "shape h (Some p) (rb_child (other d') h p) s"
    and u: "up h (RB_PARENT h p) (Some p) c" using 2(2,5) by auto
  show ?case
  proof (cases "d' = d")
    case True
    then have "rb_child (other d) h p \<noteq> Some x" using shape_ptr [OF sh] 2(3) by auto
    then show ?thesis using par True by (subst rb_ascend.simps) simp
  next
    case False
    then have d: "d' = other d" by (cases d; cases d') auto
    have "rb_ascend (other d) p h = Some (first (along d c))" using 2(1) [OF u] 2(4) by auto
    then show ?thesis using par ch d by (subst rb_ascend.simps) simp
  qed
qed

lemma step_first:
  assumes "rep h (plug (nd d a x b) c)"
  shows "rb_step d x h = Some (first (lin d b @ along d c))"
proof -
  from assms obtain q where u: "up h q (Some x) c" and q: "RB_PARENT h x = q" and sb: "shape h (Some x) (rb_child (other d) h x) b"
    and ad: "above_distinct c" "x \<notin> above c"
    unfolding rep_plug by auto
  show ?thesis
  proof (cases "rb_child (other d) h x")
    case (Some z)
    then have s: "shape h (Some x) (Some z) b" "b \<noteq> \<langle>\<rangle>" using sb by auto
    then show ?thesis using descend_first [OF s(1), of d] Some by (simp add: rb_step_def)
  next
    case None
    then have b: "b = \<langle>\<rangle>" using sb by (cases b) auto
    note asc = ascend_first [OF u ad(2,1) q, of d]
    show ?thesis
    proof (cases c)
      case Nil
      then show ?thesis using None b asc u q by (simp add: rb_step_def)
    next
      case (Cons f c')
      obtain d' p s where f: "f = (d', p, s)" by (cases f)
      have p: "RB_PARENT h x = Some p" "rb_child d' h p = Some x" using u q Cons f by auto
      show ?thesis
      proof (cases "Some x = rb_child d h p")
        case True
        have "d' = d"
        proof (rule ccontr)
          assume "d' \<noteq> d"
          then have "other d' = d" by (cases d; cases d') auto
          then have "shape h (Some p) (Some x) s" using u Cons f True by auto
          then show False using shape_ptr [of h "Some p" "Some x" s] ad(2) Cons f by auto
        qed
        then show ?thesis using None p True b Cons f by (simp add: rb_step_def)
      next
        case False
        then show ?thesis using None p b asc by (simp add: rb_step_def)
      qed
    qed
  qed
qed

lemma in_plug_nd: "x \<in> set_tree T \<Longrightarrow> \<exists>a b c. T = plug (nd d a x b) c"
proof -
  assume "x \<in> set_tree T"
  then obtain l r c where "T = plug \<langle>l, x, r\<rangle> c" using in_plug by blast
  moreover have "\<langle>l, x, r\<rangle> = nd Lf l x r" "\<langle>l, x, r\<rangle> = nd Rt r x l" by (simp_all add: nd_def)
  ultimately show ?thesis by (cases d) metis+
qed

text \<open>The step from an element goes to the next one of the list, in either direction.\<close>

lemma step_in_order:
  assumes "rep h T" "lin d T = xs @ x # ys"
  shows "rb_step d x h = Some (first ys)"
proof -
  have "x \<in> set_tree T" using assms(2) lin_simps(3) [of d T] by (metis in_set_conv_decomp)
  then obtain a b c where T: "T = plug (nd d a x b) c" using in_plug_nd by blast
  have "lin d T = (rev (along (other d) c) @ lin d a) @ x # (lin d b @ along d c)" by (simp add: T lin_plug)
  then have "xs @ x # ys = (rev (along (other d) c) @ lin d a) @ x # (lin d b @ along d c)" using assms(2) by simp
  moreover have "distinct (lin d T)" using assms(1) by (simp add: rep_def)
  then have "x \<notin> set xs" "x \<notin> set ys" by (simp_all add: assms(2))
  ultimately have "ys = lin d b @ along d c" using append_Cons_eq_iff [of x xs ys] by blast
  then show ?thesis using step_first assms(1) T by simp
qed

lemma minmax_in_order:
  assumes "rep h T"
  shows "RB_MINMAX h val = Some (first (lin (if val < 0 then Lf else Rt) T))"
proof (cases "rbh_root h")
  case None
  then have "T = \<langle>\<rangle>" using assms by (cases T) (auto simp: rep_def)
  then show ?thesis using None by (simp add: RB_MINMAX_def)
next
  case (Some z)
  then have "shape h None (Some z) T" using assms by (simp add: rep_def)
  from descend_first [OF this] show ?thesis using Some by (simp add: RB_MINMAX_def)
qed

lemma foreach_from_in_order: "rep h T \<Longrightarrow> inorder T = xs @ ys \<Longrightarrow> rb_foreach_from (first ys) h = Some ys"
proof (induction ys arbitrary: xs)
  case Nil
  then show ?case by (subst rb_foreach_from.simps) simp
next
  case (Cons y ys)
  have "RB_NEXT y h = Some (first ys)" using step_in_order [of h T Lf xs y ys] Cons.prems by simp
  moreover have "rb_foreach_from (first ys) h = Some ys" using Cons.IH [of "xs @ [y]"] Cons.prems by simp
  ultimately show ?case by (subst rb_foreach_from.simps) simp
qed

lemma traverse_in_order:
  assumes "rb_tree cmp h xs"
  shows "RB_FOREACH h = Some xs" "ys @ x # zs = xs \<Longrightarrow> RB_NEXT x h = Some (first zs) \<and> RB_PREV x h = Some (first (rev ys))"
    "us @ vs = xs \<Longrightarrow> rb_foreach_from (first vs) h = Some vs"
proof -
  from assms obtain T where T: "rep h T" "inorder T = xs" by (auto simp: rb_tree_def)
  have "rb_foreach_from (first xs) h = Some xs" using foreach_from_in_order [OF T(1), of "[]" xs] T(2) by simp
  then show "RB_FOREACH h = Some xs" using minmax_in_order [OF T(1)] T(2) by (simp add: RB_FOREACH_def)
  show "rb_foreach_from (first vs) h = Some vs" if "us @ vs = xs" using foreach_from_in_order [OF T(1), of us vs] T(2) that by simp
  show "RB_NEXT x h = Some (first zs) \<and> RB_PREV x h = Some (first (rev ys))" if "ys @ x # zs = xs"
  proof -
    have "lin Rt T = rev zs @ x # rev ys" using T(2) that [symmetric] by (simp add: lin_def)
    then show ?thesis using step_in_order [OF T(1), of Lf ys x zs] step_in_order [OF T(1), of Rt] T(2) that by simp
  qed
qed

end
