(* ===== verification/Tree_Users.thy ===== *)
theory Tree_Users
  imports Signals Inotify Rb_Search
begin

text \<open>
  The red-black tree in the program: the laws of its comparison functions, \<open>uv__signal_compare\<close> and
  \<open>compare_watchers\<close>, the properties of the tree, and its refinement of what \<open>Signals\<close> and \<open>Inotify\<close>
  take it for, a sorted list and a map.
\<close>

section \<open>The comparison functions\<close>

definition uv__signal_compare :: "(addr \<Rightarrow> int) \<Rightarrow> (addr \<Rightarrow> addr) \<Rightarrow> addr \<Rightarrow> addr \<Rightarrow> int" where
  "uv__signal_compare signum lp w1 w2 =
     (if signum w1 < signum w2 then - 1
      else if signum w1 > signum w2 then 1
      else if lp w1 < lp w2 then - 1
      else if lp w1 > lp w2 then 1
      else if w1 < w2 then - 1
      else if w1 > w2 then 1
      else 0)"

definition compare_watchers :: "(addr \<Rightarrow> int) \<Rightarrow> addr \<Rightarrow> addr \<Rightarrow> int" where
  "compare_watchers wd a b = (if wd a < wd b then - 1 else if wd a > wd b then 1 else 0)"

interpretation signal_order: tree_order "uv__signal_compare signum lp" for signum lp
  by unfold_locales (auto simp: uv__signal_compare_def split: if_splits)

interpretation watcher_order: tree_order "compare_watchers wd" for wd
  by unfold_locales (auto simp: compare_watchers_def split: if_splits)

lemma rb_tree_cong:
  assumes "\<And>x y. x \<in> set xs \<Longrightarrow> y \<in> set xs \<Longrightarrow> cmp x y = cmp' x y"
  shows "rb_tree cmp h xs = rb_tree cmp' h xs"
proof -
  have "sorted_wrt (\<lambda>a b. cmp a b < 0) xs = sorted_wrt (\<lambda>a b. cmp' a b < 0) xs"
    using assms by (induction xs) auto
  then show ?thesis by (simp add: rb_tree_def ordered_def)
qed

section \<open>The height\<close>

lemma rbt_height: "rbt k n t \<Longrightarrow> height t \<le> 2 * n + (if rt_black k t then 0 else 1)"
proof (induction t arbitrary: n)
  case (Node l x r)
  show ?case
  proof (cases "k x = RB_RED")
    case True
    then show ?thesis using Node.prems Node.IH(1) [of n] Node.IH(2) [of n] by simp
  next
    case False
    then obtain m where "n = Suc m" "rbt k m l" "rbt k m r" using Node.prems by (cases n) auto
    then show ?thesis using Node.IH(1) [of m] Node.IH(2) [of m] False by (auto split: if_splits)
  qed
qed simp

lemma rbt_size: "rbt k n t \<Longrightarrow> 2 ^ n \<le> size1 t"
proof (induction t arbitrary: n)
  case (Node l x r)
  show ?case
  proof (cases "k x = RB_RED")
    case True
    then show ?thesis using Node.prems Node.IH(1) [of n] by simp
  next
    case False
    then obtain m where "n = Suc m" "rbt k m l" "rbt k m r" using Node.prems by (cases n) auto
    then show ?thesis using Node.IH(1) [of m] Node.IH(2) [of m] by simp
  qed
qed simp

section \<open>Properties of the tree\<close>

text \<open>C9: inserting a new element into a red-black tree ends without following a null pointer; when the
  tree has an equal element it returns that one and changes nothing, otherwise it returns the null pointer
  and the tree is a red-black tree with the new element in its place in the order.\<close>
theorem rb_insert_correct:
  assumes "tree_order cmp" "rb_tree cmp h xs" "e \<notin> set xs"
  shows "case find (\<lambda>x. cmp e x = 0) xs of
      Some x \<Rightarrow> RB_INSERT cmp e h = Some (Some x, h)
    | None \<Rightarrow> \<exists>h'. RB_INSERT cmp e h = Some (None, h') \<and> rb_tree cmp h' (place cmp e xs)"
  using tree_order.insert_in_order [OF assms] .

text \<open>C10: removing an element of the tree ends and leaves a red-black tree with the other elements in
  their order.\<close>
theorem rb_remove_correct:
  assumes "rb_tree cmp h xs" "e \<in> set xs"
  shows "\<exists>h'. RB_REMOVE e h = Some (e, h') \<and> rb_tree cmp h' (remove1 e xs)"
  using remove_in_order [OF assms] .

text \<open>C24: in a red-black tree \<open>RB_FIND\<close> gives the equal element, \<open>RB_NFIND\<close> the first one that is not
  before, \<open>RB_FOREACH\<close> visits the elements in order, \<open>RB_NEXT\<close> and \<open>RB_PREV\<close> go to the neighbours; and no
  path is longer than twice the logarithm of the number of elements plus one.\<close>
theorem rb_search_correct:
  assumes "tree_order cmp" "rb_tree cmp h xs" "xs = ys @ x # zs"
  shows "RB_FIND cmp e h = Some (find (\<lambda>y. cmp e y = 0) xs)
    \<and> RB_NFIND cmp e h = Some (find (\<lambda>y. cmp e y \<le> 0) xs)
    \<and> RB_FOREACH h = Some xs \<and> RB_NEXT x h = Some (first zs) \<and> RB_PREV x h = Some (first (rev ys))
    \<and> (\<exists>T n. rep h T \<and> height T \<le> 2 * n \<and> 2 ^ n \<le> length xs + 1)"
proof -
  obtain T n where T: "rep h T" "inorder T = xs" "rbt (RB_COLOR h) n T" "rt_black (RB_COLOR h) T"
    using assms(2) by (auto simp: rb_tree_def balanced_def)
  have "length xs + 1 = size1 T" using T(2) by (metis length_inorder size1_size)
  then have "\<exists>T n. rep h T \<and> height T \<le> 2 * n \<and> 2 ^ n \<le> length xs + 1"
    using rbt_height [OF T(3)] rbt_size [OF T(3)] T(1,4) by (intro exI [of _ T] exI [of _ n]) simp
  then show ?thesis
    using tree_order.search_in_order [OF assms(1,2)] traverse_in_order [OF assms(2)] assms(3) by blast
qed

text \<open>Three watcher lists with the descriptors 2, 4 and 6, each at the address of its number.\<close>

definition three_watchers :: rb_head where
  "three_watchers = \<lparr>rbh_root = Some 4, rbh_mem = (\<lambda>x.
     if x = 4 then \<lparr>rbe_left = Some 2, rbe_right = Some 6, rbe_parent = None, rbe_color = RB_BLACK\<rparr>
     else \<lparr>rbe_left = None, rbe_right = None, rbe_parent = Some 4, rbe_color = RB_RED\<rparr>)\<rparr>"

lemma three_watchers_tree: "rb_tree (compare_watchers int) three_watchers [2, 4, 6]"
proof -
  let ?T = "\<langle>\<langle>\<langle>\<rangle>, 2, \<langle>\<rangle>\<rangle>, 4, \<langle>\<langle>\<rangle>, 6, \<langle>\<rangle>\<rangle>\<rangle> :: addr tree"
  have "rep three_watchers ?T" by (simp add: rep_def three_watchers_def rb_child.simps RB_PARENT_def)
  moreover have "balanced (RB_COLOR three_watchers) ?T"
    unfolding balanced_def by (intro conjI exI [of _ 1]) (simp_all add: three_watchers_def RB_COLOR_def)
  moreover have "inorder ?T = [2, 4, 6]" by simp
  moreover have "ordered (compare_watchers int) [2, 4, 6]" by (simp add: ordered_def compare_watchers_def)
  ultimately show ?thesis unfolding rb_tree_def by blast
qed

lemma rb_insert_correct_witness:
  "\<exists>h'. RB_INSERT (compare_watchers int) 5 three_watchers = Some (None, h') \<and> rb_tree (compare_watchers int) h' [2, 4, 5, 6]"
  using rb_insert_correct [OF watcher_order.tree_order_axioms three_watchers_tree, of 5]
  by (simp add: compare_watchers_def place_def)

lemma rb_remove_correct_witness:
  "\<exists>h'. RB_REMOVE 4 three_watchers = Some (4, h') \<and> rb_tree (compare_watchers int) h' [2, 6]"
  using rb_remove_correct [OF three_watchers_tree, of 4] by simp

lemma rb_search_correct_witness:
  "RB_NFIND (compare_watchers int) 5 three_watchers = Some (Some 6) \<and> RB_NEXT 4 three_watchers = Some (Some 6)
    \<and> RB_FOREACH three_watchers = Some [2, 4, 6]"
  using rb_search_correct [OF watcher_order.tree_order_axioms three_watchers_tree, of "[2]" 4 "[6]" 5]
  by (simp add: compare_watchers_def)


section \<open>The list of the signal handles\<close>

lemma insort_key_place: "insort_key f x xs = takeWhile (\<lambda>y. f y < f x) xs @ x # dropWhile (\<lambda>y. f y < f x) xs"
  by (induction xs) auto

lemma signal_compare_key:
  "uv__signal_compare (signum_of s) (\<lambda>_. L) a b < 0 \<longleftrightarrow> uv__signal_key s a < uv__signal_key s b"
  "uv__signal_compare (signum_of s) (\<lambda>_. L) a b = 0 \<longleftrightarrow> a = b"
  by (auto simp: uv__signal_compare_def uv__signal_key_def less_prod_def')

lemma place_insort: "place (uv__signal_compare (signum_of s) (\<lambda>_. L)) h xs = insort_key (uv__signal_key s) h xs"
  by (simp add: place_def insort_key_place signal_compare_key)

lemma find_not_before:
  assumes "\<And>x. x \<in> set xs \<Longrightarrow> P x \<longleftrightarrow> \<not> Q x"
  shows "find P xs = first (dropWhile Q xs)"
  using assms by (induction xs) auto

text \<open>C11: as long as the tree that all loops share holds the handles of one loop, at the address \<open>L\<close>, it does
  what the model of the signal handles takes it to do: \<open>RB_INSERT\<close> is \<open>tree_insert\<close>, \<open>RB_REMOVE\<close> removes
  from the list, and \<open>RB_NFIND\<close> for the structure at \<open>k\<close> that \<open>uv__signal_first_handle\<close> fills in with the
  signal number and no loop, and \<open>RB_NEXT\<close> after it, go through \<open>tree_from\<close>.
\<close>
theorem signal_tree_refines:
  assumes t: "rb_tree (uv__signal_compare (signum_of s) (\<lambda>_. L)) tr (signal_tree s)" and L: "L > 0"
  shows "(h \<notin> set (signal_tree s) \<longrightarrow> (\<exists>tr'. RB_INSERT (uv__signal_compare (signum_of s) (\<lambda>_. L)) h tr = Some (None, tr')
        \<and> rb_tree (uv__signal_compare (signum_of s) (\<lambda>_. L)) tr' (signal_tree (tree_insert h s))))
    \<and> (h \<in> set (signal_tree s) \<longrightarrow> (\<exists>tr'. RB_REMOVE h tr = Some (h, tr')
        \<and> rb_tree (uv__signal_compare (signum_of s) (\<lambda>_. L)) tr' (remove1 h (signal_tree s))))
    \<and> (k \<notin> set (signal_tree s) \<longrightarrow> RB_NFIND (uv__signal_compare ((signum_of s)(k := n)) ((\<lambda>_. L)(k := 0))) k tr = Some (first (tree_from n s))
        \<and> rb_foreach_from (first (tree_from n s)) tr = Some (tree_from n s))"
proof (intro conjI impI)
  let ?cmp = "uv__signal_compare (signum_of s) (\<lambda>_. L)" and ?xs = "signal_tree s"
  show "\<exists>tr'. RB_INSERT ?cmp h tr = Some (None, tr') \<and> rb_tree ?cmp tr' (signal_tree (tree_insert h s))" if "h \<notin> set ?xs"
  proof -
    have "find (\<lambda>x. ?cmp h x = 0) ?xs = None" using that by (auto simp: find_None_iff signal_compare_key)
    then show ?thesis using signal_order.insert_in_order [OF t that] by (simp add: place_insort tree_insert_def)
  qed
  show "\<exists>tr'. RB_REMOVE h tr = Some (h, tr') \<and> rb_tree ?cmp tr' (remove1 h ?xs)" if "h \<in> set ?xs"
    using remove_in_order [OF t that] .
  show "RB_NFIND (uv__signal_compare ((signum_of s)(k := n)) ((\<lambda>_. L)(k := 0))) k tr = Some (first (tree_from n s))" if "k \<notin> set ?xs"
  proof -
    let ?look = "uv__signal_compare ((signum_of s)(k := n)) ((\<lambda>_. L)(k := 0))"
    have "rb_tree ?look tr ?xs" using t that by (subst rb_tree_cong [where cmp' = ?cmp]) (auto simp: uv__signal_compare_def)
    then have "RB_NFIND ?look k tr = Some (find (\<lambda>x. ?look k x \<le> 0) ?xs)" by (rule signal_order.search_in_order)
    also have "find (\<lambda>x. ?look k x \<le> 0) ?xs = first (dropWhile (\<lambda>x. signum_of s x < n) ?xs)"
    proof (rule find_not_before)
      fix x assume "x \<in> set ?xs"
      then have "x \<noteq> k" using that by auto
      then show "?look k x \<le> 0 \<longleftrightarrow> \<not> signum_of s x < n" using L by (auto simp: uv__signal_compare_def)
    qed
    finally show ?thesis unfolding tree_from_def .
  qed
  show "rb_foreach_from (first (tree_from n s)) tr = Some (tree_from n s)"
    using traverse_in_order(3) [OF t, of "takeWhile (\<lambda>x. signum_of s x < n) ?xs" "tree_from n s"] by (simp add: tree_from_def)
qed

text \<open>A tree with the one handle 1 of the loop at 100: the handle 9 for the same signal goes behind it.\<close>

definition one_signal :: rb_head where
  "one_signal = \<lparr>rbh_root = Some 1, rbh_mem = (\<lambda>_.
     \<lparr>rbe_left = None, rbe_right = None, rbe_parent = None, rbe_color = RB_BLACK\<rparr>)\<rparr>"

lemma signal_tree_refines_witness:
  "\<exists>tr'. RB_INSERT (uv__signal_compare (signum_of (signal_loop_state []\<lparr>signal_tree := [1]\<rparr>)) (\<lambda>_. 100)) 9 one_signal = Some (None, tr')
    \<and> rb_tree (uv__signal_compare (signum_of (signal_loop_state []\<lparr>signal_tree := [1]\<rparr>)) (\<lambda>_. 100)) tr'
        (signal_tree (tree_insert 9 (signal_loop_state []\<lparr>signal_tree := [1]\<rparr>)))"
proof -
  define st :: "unit gloop_scheme" where "st = signal_loop_state []\<lparr>signal_tree := [1]\<rparr>"
  have s: "signal_tree st = [1]" by (simp add: st_def)
  let ?T = "\<langle>\<langle>\<rangle>, 1, \<langle>\<rangle>\<rangle> :: addr tree"
  have "rep one_signal ?T" by (simp add: rep_def one_signal_def rb_child.simps RB_PARENT_def)
  moreover have "balanced (RB_COLOR one_signal) ?T"
    unfolding balanced_def by (intro conjI exI [of _ 1]) (simp_all add: one_signal_def RB_COLOR_def)
  moreover have "inorder ?T = [1]" by simp
  ultimately have t: "rb_tree (uv__signal_compare (signum_of st) (\<lambda>_. 100)) one_signal (signal_tree st)"
    unfolding rb_tree_def s by (auto simp: ordered_def)
  have "(9 :: addr) \<notin> set (signal_tree st)" by (simp add: s)
  then show ?thesis
    using conjunct1 [OF signal_tree_refines [OF t, of 9]] unfolding st_def [symmetric] by simp
qed

text \<open>The lists of \<open>inotify_watchers\<close>, found by descriptor.\<close>

definition watcher_lists :: "(addr \<Rightarrow> int) \<Rightarrow> (addr \<Rightarrow> watcher_list) \<Rightarrow> addr list \<Rightarrow> 'a inloop_scheme \<Rightarrow> bool" where
  "watcher_lists wd wl xs s \<longleftrightarrow> (\<forall>n. inotify_watchers s n = map_option wl (find (\<lambda>x. wd x = n) xs))"

text \<open>
  The lookup of \<open>find_watcher\<close>, with a structure at \<open>k\<close> that has the descriptor \<open>n\<close>, gives the list that
  the model's map gives.
\<close>
lemma find_watcher_refines:
  assumes t: "rb_tree (compare_watchers wd) tr xs" "watcher_lists wd wl xs s" and k: "k \<notin> set xs"
  shows "map_option (map_option wl) (RB_FIND (compare_watchers (wd(k := n))) k tr) = Some (find_watcher n s)"
proof -
  let ?look = "compare_watchers (wd(k := n))"
  have "rb_tree ?look tr xs" using t(1) k by (subst rb_tree_cong [where cmp' = "compare_watchers wd"]) (auto simp: compare_watchers_def)
  then have "RB_FIND ?look k tr = Some (find (\<lambda>x. ?look k x = 0) xs)" by (rule watcher_order.search_in_order)
  moreover have "find (\<lambda>x. ?look k x = 0) xs = find (\<lambda>x. wd x = n) xs"
    using k by (intro find_cong) (auto simp: compare_watchers_def)
  ultimately show ?thesis using t(2) by (simp add: find_watcher_def watcher_lists_def)
qed

end
