(* ===== verification/Fsevents.thy ===== *)
theory Fsevents
  imports Threads
begin

text \<open>
  Watching files on macOS, \<open>src/unix/fsevents.cpp\<close>.  A second thread runs a run loop of CoreFoundation, which
  is woken by signals from the loop's thread and creates the stream of events; the events it accepts for
  a handle are queued at the handle, and an async handle calls the loop back.  The functions of the two
  frameworks answer by replies, as do the allocator (\<open>- 1\<close> is the null pointer) and the threads library.
  A critical section is one step, so the calls of \<open>uv_mutex_lock\<close> and \<open>uv_mutex_unlock\<close> do not appear.
  An array of CoreFoundation is named by its address; the paths behind it are in the calls that made it.
\<close>

section \<open>State\<close>

datatype cf_signal_type = kUVCFLoopSignalRegular | kUVCFLoopSignalClosing

record cf_event =
  cfe_events :: u32
  cfe_path :: string

text \<open>The fields that a handle has for this platform.\<close>

record cf_handle =
  cf_realpath :: "string option"
  cf_realpath_len :: nat
  cf_flags :: u32
  cf_events :: "cf_event list"
  cf_error :: int
  cf_cb :: ptr

text \<open>A call of the handle's callback, with the path (or the null pointer), the events and the status.\<close>

datatype fs_report = Fs_report addr "string option" u32 int

record cfloop = adloop +
  core_foundation_handle :: int
  core_services_handle :: int
  cf_state :: bool
  cf_runloop :: int
  signal_source :: int
  cf_signals :: "(ptr \<times> cf_signal_type) list"
  fsevent_need_reschedule :: bool
  fsevent_stream :: "int option"
  fsevent_handles :: "addr list"
  fsevent_handle_count :: u32
  cfh :: "addr \<Rightarrow> cf_handle"
  cf_data :: "addr \<Rightarrow> addr"
  cf_path :: "addr \<Rightarrow> string"
  reports :: "fs_report list"

abbreviation (input) UV_FS_EVENT_RECURSIVE :: u32 where "UV_FS_EVENT_RECURSIVE \<equiv> 4"

text \<open>The flags of the framework's events: the item was changed, was created, removed or renamed, and the system's own.\<close>

definition kFSEventsModified :: u32 where
  "kFSEventsModified = 0x2000 OR 0x1000 OR 0x400 OR 0x4000 OR 0x8000"

definition kFSEventsRenamed :: u32 where
  "kFSEventsRenamed = 0x100 OR 0x200 OR 0x800"

definition kFSEventsSystem :: u32 where
  "kFSEventsSystem = 0x2 OR 0x4 OR 0x8 OR 0x10 OR 0x40 OR 0x80 OR 0x20"

definition upd_cf :: "addr \<Rightarrow> (cf_handle \<Rightarrow> cf_handle) \<Rightarrow> 'a cfloop_scheme \<Rightarrow> 'a cfloop_scheme" where
  "upd_cf h f s = s\<lparr>cfh := (cfh s)(h := f (cfh s h))\<rparr>"

definition report_to :: "(fs_report \<Rightarrow> 'a cfloop_scheme \<Rightarrow> 'a cfloop_scheme) \<Rightarrow> fs_report \<Rightarrow> 'a cfloop_scheme \<Rightarrow> 'a cfloop_scheme" where
  "report_to call r s = call r (s\<lparr>reports := reports s @ [r]\<rparr>)"

text \<open>A call of the frameworks whose result is not looked at.\<close>

definition cf_call :: "string \<Rightarrow> int list \<Rightarrow> 'a cfloop_scheme \<Rightarrow> 'a cfloop_scheme option" where
  "cf_call name args s = map_option snd (syscall (Sys name args) s)"

section \<open>Reporting in the loop's thread\<close>

definition cf_live :: "addr \<Rightarrow> 'a cfloop_scheme \<Rightarrow> bool" where
  "cf_live h s \<longleftrightarrow> \<not> uv__is_closing h s \<and> uv__is_active h s"

fun process_events :: "(cf_event \<Rightarrow> 'a cfloop_scheme \<Rightarrow> 'a cfloop_scheme) \<Rightarrow> addr \<Rightarrow> cf_event list \<Rightarrow> 'a cfloop_scheme \<Rightarrow> 'a cfloop_scheme" where
  "process_events block h [] s = s"
| "process_events block h (e # es) s = process_events block h es (if cf_live h s then block e s else s)"

text \<open>\<open>UV__FSEVENTS_PROCESS\<close>.\<close>

definition fsevents_process ::
    "(fs_report \<Rightarrow> 'a cfloop_scheme \<Rightarrow> 'a cfloop_scheme) \<Rightarrow> addr \<Rightarrow> (cf_event \<Rightarrow> 'a cfloop_scheme \<Rightarrow> 'a cfloop_scheme) \<Rightarrow> 'a cfloop_scheme \<Rightarrow> 'a cfloop_scheme" where
  "fsevents_process call h block s =
     (let events = cf_events (cfh s h);
          err = cf_error (cfh s h);
          s = upd_cf h (\<lambda>c. c\<lparr>cf_events := [], cf_error := 0\<rparr>) s;
          s = process_events block h events s
      in if err \<noteq> 0 \<and> cf_live h s then report_to call (Fs_report h None 0 err) s else s)"



section \<open>Events in the run loop's thread\<close>

definition uv__fsevents_push_event :: "addr \<Rightarrow> cf_event list option \<Rightarrow> int \<Rightarrow> 'a cfloop_scheme \<Rightarrow> 'a cfloop_scheme option" where
  "uv__fsevents_push_event h events err s = do {
     require (events \<noteq> None \<or> err \<noteq> 0);
     let s = (case events of None \<Rightarrow> s | Some es \<Rightarrow> upd_cf h (\<lambda>c. c\<lparr>cf_events := cf_events c @ es\<rparr>) s);
     let s = (if err \<noteq> 0 then upd_cf h (\<lambda>c. c\<lparr>cf_error := err\<rparr>) s else s);
     cb \<leftarrow> cf_cb (cfh s h);
     (_, s) \<leftarrow> uv_async_send cb s;
     Some s
   }"

text \<open>The path of an event below the path \<open>rp\<close> of the handle, without the slash, if it is to be reported.\<close>

definition path_below :: "string \<Rightarrow> nat \<Rightarrow> u32 \<Rightarrow> string \<Rightarrow> string option" where
  "path_below rp n flags path =
     (if take n path \<noteq> take n rp then None
      else let path = (if n > 1 \<or> rp = [] \<or> hd rp \<noteq> CHR ''/'' then (let p = drop n path in if p \<noteq> [] then tl p else p) else path)
           in if flags AND UV_FS_EVENT_RECURSIVE = 0 \<and> path \<noteq> [] \<and> CHR ''/'' \<in> set (tl path) then None else Some path)"

definition cf_kind :: "u32 \<Rightarrow> u32" where
  "cf_kind flags = (if flags AND kFSEventsModified \<noteq> 0 \<and> flags AND kFSEventsRenamed = 0 then UV_CHANGE else UV_RENAME)"

fun collect_events :: "addr \<Rightarrow> (string \<times> u32) list \<Rightarrow> cf_event list \<Rightarrow> 'a cfloop_scheme \<Rightarrow> (cf_event list \<times> 'a cfloop_scheme) option" where
  "collect_events h [] head s = Some (head, s)"
| "collect_events h (e # es) head s =
     (if snd e AND kFSEventsSystem \<noteq> 0 then collect_events h es head s
      else do {
        rp \<leftarrow> cf_realpath (cfh s h);
        case path_below rp (cf_realpath_len (cfh s h)) (cf_flags (cfh s h)) (fst e) of
          None \<Rightarrow> collect_events h es head s
        | Some _ \<Rightarrow> do {
            let path = '''';
            (event, s) \<leftarrow> syscall (Sys ''malloc'' [int (length path)]) s;
            if r_ret event = - 1 then Some (head, s)
            else collect_events h es (head @ [\<lparr>cfe_events = cf_kind (snd e), cfe_path = path\<rparr>]) s
          }
      })"

fun event_to_handles :: "(string \<times> u32) list \<Rightarrow> addr list \<Rightarrow> 'a cfloop_scheme \<Rightarrow> 'a cfloop_scheme option" where
  "event_to_handles es [] s = Some s"
| "event_to_handles es (h # hs) s = do {
     (head, s) \<leftarrow> collect_events h es [] s;
     s \<leftarrow> (if head \<noteq> [] then uv__fsevents_push_event h (Some head) 0 s else Some s);
     event_to_handles es hs s
   }"

definition uv__fsevents_event_cb :: "(string \<times> u32) list \<Rightarrow> 'a cfloop_scheme \<Rightarrow> 'a cfloop_scheme option" where
  "uv__fsevents_event_cb es s = do {
     require (cf_state s);
     event_to_handles es (fsevent_handles s) s
   }"

section \<open>The stream\<close>

text \<open>The calls name the stream, the run loop and the array of paths.\<close>

definition uv__fsevents_create_stream :: "int \<Rightarrow> 'a cfloop_scheme \<Rightarrow> (int \<times> 'a cfloop_scheme) option" where
  "uv__fsevents_create_stream cf_paths s = do {
     (r, s) \<leftarrow> syscall (Sys ''FSEventStreamCreate'' [cf_paths]) s;
     require (r_ret r \<noteq> - 1);
     let ref = r_ret r;
     s \<leftarrow> cf_call ''FSEventStreamScheduleWithRunLoop'' [ref, cf_runloop s] s;
     (started, s) \<leftarrow> syscall (Sys ''FSEventStreamStart'' [ref]) s;
     if r_ret started = 0 then do {
       s \<leftarrow> cf_call ''FSEventStreamInvalidate'' [ref] s;
       s \<leftarrow> cf_call ''FSEventStreamRelease'' [ref] s;
       Some (- EMFILE, s)
     } else Some (0, s\<lparr>fsevent_stream := Some ref\<rparr>)
   }"

text \<open>
  \<open>FSEventStreamFlushSync\<close> returns after the callback has been given the events that were pending: the names and
  the flags of its reply.
\<close>

definition uv__fsevents_destroy_stream :: "'a cfloop_scheme \<Rightarrow> 'a cfloop_scheme option" where
  "uv__fsevents_destroy_stream s =
     (case fsevent_stream s of
        None \<Rightarrow> Some s
      | Some ref \<Rightarrow> do {
          (r, s) \<leftarrow> syscall (Sys ''FSEventStreamFlushSync'' [ref]) s;
          s \<leftarrow> uv__fsevents_event_cb (zip (r_strs r) (map snd (r_events r))) s;
          s \<leftarrow> cf_call ''FSEventStreamStop'' [ref] s;
          s \<leftarrow> cf_call ''FSEventStreamInvalidate'' [ref] s;
          s \<leftarrow> cf_call ''FSEventStreamRelease'' [ref] s;
          Some (s\<lparr>fsevent_stream := None\<rparr>)
        })"

text \<open>The strings made for the paths of the next \<open>n\<close> handles, and whether all could be made.\<close>

fun create_paths :: "nat \<Rightarrow> addr list \<Rightarrow> int list \<Rightarrow> 'a cfloop_scheme \<Rightarrow> (bool \<times> int list \<times> 'a cfloop_scheme) option" where
  "create_paths 0 qs paths s = Some (True, paths, s)"
| "create_paths (Suc n) [] paths s = None"
| "create_paths (Suc n) (q # qs) paths s = do {
     rp \<leftarrow> cf_realpath (cfh s q);
     (r, s) \<leftarrow> syscall (SysPath ''CFStringCreateWithFileSystemRepresentation'' [rp] []) s;
     if r_ret r = - 1 then Some (False, paths, s) else create_paths n qs (paths @ [r_ret r]) s
   }"

fun release_all :: "int list \<Rightarrow> 'a cfloop_scheme \<Rightarrow> 'a cfloop_scheme option" where
  "release_all [] s = Some s"
| "release_all (p # ps) s = do { s \<leftarrow> cf_call ''CFRelease'' [p] s; release_all ps s }"

fun broadcast :: "int \<Rightarrow> addr list \<Rightarrow> 'a cfloop_scheme \<Rightarrow> 'a cfloop_scheme option" where
  "broadcast err [] s = Some s"
| "broadcast err (h # hs) s = do { s \<leftarrow> uv__fsevents_push_event h None err s; broadcast err hs s }"

text \<open>The paths and the new stream: the error, the strings and the array made.\<close>

definition new_stream :: "'a cfloop_scheme \<Rightarrow> (int \<times> int list \<times> int option \<times> 'a cfloop_scheme) option" where
  "new_stream s =
     (let path_count = fsevent_handle_count s in
      if path_count = 0 then Some (0, [], None, s)
      else do {
        (p, s) \<leftarrow> syscall (Sys ''malloc'' [uint path_count]) s;
        if r_ret p = - 1 then Some (- ENOMEM, [], None, s)
        else do {
          (made, paths, s) \<leftarrow> create_paths (unat path_count) (fsevent_handles s) [] s;
          if \<not> made then Some (- ENOMEM, paths, None, s)
          else do {
            (a, s) \<leftarrow> syscall (Sys ''CFArrayCreate'' paths) s;
            if r_ret a = - 1 then Some (- ENOMEM, paths, None, s)
            else do {
              (err, s) \<leftarrow> uv__fsevents_create_stream (r_ret a) s;
              Some (err, paths, Some (r_ret a), s)
            }
          }
        }
      })"

text \<open>The semaphore is \<open>fsevent_sem\<close>, at the address 2; \<open>cf_sem\<close> is at the address 1.\<close>

abbreviation (input) cf_sem :: int where "cf_sem \<equiv> 1"
abbreviation (input) fsevent_sem :: int where "fsevent_sem \<equiv> 2"

definition reschedule_final :: "int \<Rightarrow> int list \<Rightarrow> int option \<Rightarrow> cf_signal_type \<Rightarrow> 'a cfloop_scheme \<Rightarrow> 'a cfloop_scheme option" where
  "reschedule_final err paths cf_paths type s = do {
     s \<leftarrow> (if err \<noteq> 0 then do {
         s \<leftarrow> (case cf_paths of None \<Rightarrow> release_all (rev paths) s | Some a \<Rightarrow> cf_call ''CFRelease'' [a] s);
         broadcast err (fsevent_handles s) s
       } else Some s);
     if type = kUVCFLoopSignalClosing then uv_sem_post fsevent_sem s else Some s
   }"

definition uv__fsevents_reschedule :: "cf_signal_type \<Rightarrow> 'a cfloop_scheme \<Rightarrow> 'a cfloop_scheme option" where
  "uv__fsevents_reschedule type s =
     (if \<not> fsevent_need_reschedule s then reschedule_final 0 [] None type s
      else do {
        s \<leftarrow> uv__fsevents_destroy_stream (s\<lparr>fsevent_need_reschedule := False\<rparr>);
        (err, paths, cf_paths, s) \<leftarrow> new_stream s;
        reschedule_final err paths cf_paths type s
      })"

section \<open>The frameworks\<close>

text \<open>The libraries are never unloaded once all of their symbols have been found.\<close>

definition cf_symbols :: "string list" where
  "cf_symbols = [''CFArrayCreate'', ''CFRelease'', ''CFRunLoopAddSource'', ''CFRunLoopGetCurrent'', ''CFRunLoopRemoveSource'',
     ''CFRunLoopRun'', ''CFRunLoopSourceCreate'', ''CFRunLoopSourceSignal'', ''CFRunLoopStop'', ''CFRunLoopWakeUp'',
     ''CFStringCreateWithFileSystemRepresentation'', ''CFStringGetSystemEncoding'', ''kCFRunLoopDefaultMode'']"

definition cs_symbols :: "string list" where
  "cs_symbols = [''FSEventStreamCreate'', ''FSEventStreamFlushSync'', ''FSEventStreamInvalidate'', ''FSEventStreamRelease'',
     ''FSEventStreamScheduleWithRunLoop'', ''FSEventStreamStart'', ''FSEventStreamStop'']"

fun find_symbols :: "int \<Rightarrow> string list \<Rightarrow> 'a cfloop_scheme \<Rightarrow> (bool \<times> 'a cfloop_scheme) option" where
  "find_symbols handle [] s = Some (True, s)"
| "find_symbols handle (f # fs) s = do {
     (r, s) \<leftarrow> syscall (SysPath ''dlsym'' [f] [handle]) s;
     if r_ret r = 0 then Some (False, s) else find_symbols handle fs s
   }"

definition find_all :: "'a cfloop_scheme \<Rightarrow> (bool \<times> 'a cfloop_scheme) option" where
  "find_all s = do {
     (found, s) \<leftarrow> find_symbols (core_foundation_handle s) cf_symbols s;
     if found then find_symbols (core_services_handle s) cs_symbols s else Some (False, s)
   }"

abbreviation (input) cf_lib :: string where
  "cf_lib \<equiv> ''/System/Library/Frameworks/CoreFoundation.framework/Versions/A/CoreFoundation''"
abbreviation (input) cs_lib :: string where
  "cs_lib \<equiv> ''/System/Library/Frameworks/CoreServices.framework/Versions/A/CoreServices''"

text \<open>Up to the label \<open>out\<close>.\<close>

definition load_frameworks :: "'a cfloop_scheme \<Rightarrow> (int \<times> 'a cfloop_scheme) option" where
  "load_frameworks s = do {
     (r, s) \<leftarrow> syscall (SysPath ''dlopen'' [cf_lib] []) s;
     let s = s\<lparr>core_foundation_handle := r_ret r\<rparr>;
     if r_ret r = 0 then Some (- ENOSYS, s)
     else do {
       (r, s) \<leftarrow> syscall (SysPath ''dlopen'' [cs_lib] []) s;
       let s = s\<lparr>core_services_handle := r_ret r\<rparr>;
       if r_ret r = 0 then Some (- ENOSYS, s)
       else do {
         (found, s) \<leftarrow> find_all s;
         Some (if found then 0 else - ENOENT, s)
       }
     }
   }"

definition uv__fsevents_global_init :: "'a cfloop_scheme \<Rightarrow> (int \<times> 'a cfloop_scheme) option" where
  "uv__fsevents_global_init s =
     (if core_foundation_handle s \<noteq> 0 then Some (0, s)
      else do {
        (err, s) \<leftarrow> load_frameworks s;
        s \<leftarrow> (if err \<noteq> 0 \<and> core_services_handle s \<noteq> 0
              then do { s \<leftarrow> cf_call ''dlclose'' [core_services_handle s] s; Some (s\<lparr>core_services_handle := 0\<rparr>) } else Some s);
        s \<leftarrow> (if err \<noteq> 0 \<and> core_foundation_handle s \<noteq> 0
              then do { s \<leftarrow> cf_call ''dlclose'' [core_foundation_handle s] s; Some (s\<lparr>core_foundation_handle := 0\<rparr>) } else Some s);
        Some (err, s)
      })"

section \<open>Signals to the run loop\<close>

definition uv__cf_loop_signal :: "ptr \<Rightarrow> cf_signal_type \<Rightarrow> 'a cfloop_scheme \<Rightarrow> (int \<times> 'a cfloop_scheme) option" where
  "uv__cf_loop_signal h type s = do {
     (item, s) \<leftarrow> syscall (Sys ''malloc'' []) s;
     if r_ret item = - 1 then Some (- ENOMEM, s)
     else do {
       let s = s\<lparr>cf_signals := cf_signals s @ [(h, type)]\<rparr>;
       require (cf_state s);
       s \<leftarrow> cf_call ''CFRunLoopSourceSignal'' [signal_source s] s;
       s \<leftarrow> cf_call ''CFRunLoopWakeUp'' [cf_runloop s] s;
       Some (0, s)
     }
   }"

fun cf_signals_loop :: "(ptr \<times> cf_signal_type) list \<Rightarrow> 'a cfloop_scheme \<Rightarrow> 'a cfloop_scheme option" where
  "cf_signals_loop [] s = Some s"
| "cf_signals_loop (g # gs) s = do {
     s \<leftarrow> (case fst g of None \<Rightarrow> cf_call ''CFRunLoopStop'' [cf_runloop s] s | Some h \<Rightarrow> uv__fsevents_reschedule (snd g) s);
     cf_signals_loop gs s
   }"

definition uv__cf_loop_cb :: "'a cfloop_scheme \<Rightarrow> 'a cfloop_scheme option" where
  "uv__cf_loop_cb s = cf_signals_loop (cf_signals s) (s\<lparr>cf_signals := []\<rparr>)"

text \<open>The body of the thread: \<open>run\<close> is what \<open>CFRunLoopRun\<close> does until it is stopped, calling the two callbacks.\<close>

definition uv__cf_loop_runner :: "('a cfloop_scheme \<Rightarrow> 'a cfloop_scheme option) \<Rightarrow> 'a cfloop_scheme \<Rightarrow> 'a cfloop_scheme option" where
  "uv__cf_loop_runner run s = do {
     (r, s) \<leftarrow> syscall (Sys ''CFRunLoopGetCurrent'' []) s;
     let s = s\<lparr>cf_runloop := r_ret r\<rparr>;
     s \<leftarrow> cf_call ''CFRunLoopAddSource'' [cf_runloop s, signal_source s] s;
     s \<leftarrow> uv_sem_post cf_sem s;
     s \<leftarrow> cf_call ''CFRunLoopRun'' [] s;
     s \<leftarrow> run s;
     cf_call ''CFRunLoopRemoveSource'' [cf_runloop s, signal_source s] s
   }"

section \<open>The run loop of a loop\<close>

text \<open>From the attributes of the thread on.  The stack is 4 times \<open>PTHREAD_STACK_MIN\<close>.\<close>

definition cf_thread_create :: "'a cfloop_scheme \<Rightarrow> (int \<times> 'a cfloop_scheme) option" where
  "cf_thread_create s = do {
     (a, s) \<leftarrow> syscall (Sys ''pthread_attr_init'' []) s;
     let attr = (r_ret a = 0);
     s \<leftarrow> (if attr then do {
         (r, s) \<leftarrow> syscall (Sys ''pthread_attr_setstacksize'' [4]) s;
         require (r_ret r = 0);
         Some s
       } else Some s);
     let s = s\<lparr>cf_state := True\<rparr>;
     (r, s) \<leftarrow> syscall (Sys ''pthread_create'' [if attr then 1 else 0]) s;
     s \<leftarrow> (if attr then cf_call ''pthread_attr_destroy'' [] s else Some s);
     Some (- r_ret r, s)
   }"

text \<open>The initialisations, with the number of objects that a failure leaves initialised: the label that the
  code jumps to.  \<open>loop_init_undo\<close> is what follows the labels.\<close>

definition loop_init_steps :: "'a cfloop_scheme \<Rightarrow> (int \<times> nat \<times> 'a cfloop_scheme) option" where
  "loop_init_steps s = do {
     (err, s) \<leftarrow> uv_mutex_init s;
     if err \<noteq> 0 then Some (err, 0, s)
     else do {
       (err, s) \<leftarrow> uv_sem_init cf_sem 0 s;
       if err \<noteq> 0 then Some (err, 1, s)
       else do {
         (err, s) \<leftarrow> uv_sem_init fsevent_sem 0 (s\<lparr>cf_signals := []\<rparr>);
         if err \<noteq> 0 then Some (err, 2, s)
         else do {
           (err, s) \<leftarrow> uv_mutex_init s;
           if err \<noteq> 0 then Some (err, 3, s)
           else do {
             let s = s\<lparr>fsevent_handles := [], fsevent_need_reschedule := False, fsevent_handle_count := 0, fsevent_stream := None\<rparr>;
             (r, s) \<leftarrow> syscall (Sys ''CFRunLoopSourceCreate'' []) s;
             if r_ret r = - 1 then Some (- ENOMEM, 4, s)
             else do {
               (err, s) \<leftarrow> cf_thread_create (s\<lparr>signal_source := r_ret r\<rparr>);
               Some (err, 4, if err \<noteq> 0 then s\<lparr>cf_state := False\<rparr> else s)
             }
           }
         }
       }
     }
   }"

definition loop_init_undo :: "nat \<Rightarrow> 'a cfloop_scheme \<Rightarrow> 'a cfloop_scheme option" where
  "loop_init_undo k s = do {
     s \<leftarrow> (if k \<ge> 4 then uv_mutex_destroy s else Some s);
     s \<leftarrow> (if k \<ge> 3 then uv_sem_destroy fsevent_sem s else Some s);
     s \<leftarrow> (if k \<ge> 2 then uv_sem_destroy cf_sem s else Some s);
     if k \<ge> 1 then uv_mutex_destroy s else Some s
   }"

definition uv__fsevents_loop_init :: "'a cfloop_scheme \<Rightarrow> (int \<times> 'a cfloop_scheme) option" where
  "uv__fsevents_loop_init s =
     (if cf_state s then Some (0, s)
      else do {
        (err, s) \<leftarrow> uv__fsevents_global_init s;
        if err \<noteq> 0 then Some (err, s)
        else do {
          (m, s) \<leftarrow> syscall (Sys ''calloc'' [1]) s;
          if r_ret m = - 1 then Some (- ENOMEM, s)
          else do {
            (err, k, s) \<leftarrow> loop_init_steps s;
            if err \<noteq> 0 then do { s \<leftarrow> loop_init_undo k s; Some (err, s) }
            else do { s \<leftarrow> uv_sem_wait cf_sem s; Some (0, s) }
          }
        }
      })"

definition uv__fsevents_loop_delete :: "'a cfloop_scheme \<Rightarrow> 'a cfloop_scheme option" where
  "uv__fsevents_loop_delete s =
     (if \<not> cf_state s then Some s
      else do {
        (err, s) \<leftarrow> uv__cf_loop_signal None kUVCFLoopSignalRegular s;
        require (err = 0);
        (_, s) \<leftarrow> uv_thread_join 0 s;
        s \<leftarrow> uv_sem_destroy cf_sem s;
        s \<leftarrow> uv_mutex_destroy s;
        let s = s\<lparr>cf_signals := []\<rparr>;
        s \<leftarrow> uv_sem_destroy fsevent_sem s;
        s \<leftarrow> uv_mutex_destroy s;
        s \<leftarrow> cf_call ''CFRelease'' [signal_source s] s;
        Some (s\<lparr>cf_state := False\<rparr>)
      })"

section \<open>Handles\<close>

text \<open>From \<open>uv_mutex_init\<close> on, with the cleanup at the labels.\<close>

definition fsevents_insert :: "addr \<Rightarrow> 'a cfloop_scheme \<Rightarrow> (int \<times> 'a cfloop_scheme) option" where
  "fsevents_insert h s = do {
     let undo = upd_cf h (\<lambda>c. c\<lparr>cf_cb := None, cf_realpath := None, cf_realpath_len := 0\<rparr>);
     (err, s) \<leftarrow> uv_mutex_init s;
     if err \<noteq> 0 then Some (err, undo s)
     else do {
       let s = s\<lparr>fsevent_handles := fsevent_handles s @ [h], fsevent_handle_count := fsevent_handle_count s + 1,
                 fsevent_need_reschedule := True\<rparr>;
       (err, s) \<leftarrow> uv__cf_loop_signal (Some h) kUVCFLoopSignalRegular s;
       if err \<noteq> 0 then do { s \<leftarrow> uv_mutex_destroy s; Some (err, undo s) }
       else Some (0, s)
     }
   }"

definition uv__fsevents_init :: "addr \<Rightarrow> 'a cfloop_scheme \<Rightarrow> (int \<times> 'a cfloop_scheme) option" where
  "uv__fsevents_init h s = do {
     (err, s) \<leftarrow> uv__fsevents_loop_init s;
     if err \<noteq> 0 then Some (err, s)
     else do {
       (r, s) \<leftarrow> syscall (SysPath ''realpath'' [cf_path s h] []) s;
       if r_ret r = - 1 then Some (- errno s, upd_cf h (\<lambda>c. c\<lparr>cf_realpath := None\<rparr>) s)
       else do {
         rp \<leftarrow> r_str r;
         let s = upd_cf h (\<lambda>c. c\<lparr>cf_realpath := Some rp, cf_realpath_len := length rp, cf_events := [], cf_error := 0\<rparr>) s;
         (m, s) \<leftarrow> syscall (Sys ''malloc'' []) s;
         if r_ret m = - 1
         then Some (- ENOMEM, upd_cf h (\<lambda>c. c\<lparr>cf_cb := None, cf_realpath := None, cf_realpath_len := 0\<rparr>) s)
         else do {
           let cb = nat (r_ret m);
           let s = (upd_cf h (\<lambda>c. c\<lparr>cf_cb := Some cb\<rparr>) s)\<lparr>cf_data := (cf_data s)(cb := h)\<rparr>;
           (_, s) \<leftarrow> uv_async_init cb (Some User_async_cb) s;
           let s = uv_unref cb (upd_flags cb (\<lambda>f. set_flag f UV__HANDLE_INTERNAL) s);
           fsevents_insert h s
         }
       }
     }
   }"

definition uv__fsevents_close :: "(fs_report \<Rightarrow> 'a cfloop_scheme \<Rightarrow> 'a cfloop_scheme) \<Rightarrow> addr \<Rightarrow> 'a cfloop_scheme \<Rightarrow> (int \<times> 'a cfloop_scheme) option" where
  "uv__fsevents_close call h s =
     (case cf_cb (cfh s h) of
        None \<Rightarrow> Some (- EINVAL, s)
      | Some cb \<Rightarrow> do {
          let s = s\<lparr>fsevent_handles := remove1 h (fsevent_handles s), fsevent_handle_count := fsevent_handle_count s - 1,
                    fsevent_need_reschedule := True\<rparr>;
          (err, s) \<leftarrow> uv__cf_loop_signal (Some h) kUVCFLoopSignalClosing s;
          if err \<noteq> 0 then Some (- err, s)
          else do {
            s \<leftarrow> uv_sem_wait fsevent_sem s;
            s \<leftarrow> uv_close cb True s;
            let s = upd_cf h (\<lambda>c. c\<lparr>cf_cb := None\<rparr>) s;
            let s = fsevents_process call h (\<lambda>e s. s) s;
            s \<leftarrow> uv_mutex_destroy s;
            Some (0, upd_cf h (\<lambda>c. c\<lparr>cf_realpath := None, cf_realpath_len := 0\<rparr>) s)
          }
        })"


section \<open>What the run loop's thread leaves alone\<close>

text \<open>The fields that a system call keeps, and the number of times the closing of a handle has been allowed to go on.\<close>

definition cf_view where
  "cf_view (s :: 'a cfloop_scheme) = ((cfh s, fsevent_handles s, fsevent_handle_count s, hnd s, reports s),
     (cf_data s, fsevent_need_reschedule s, fsevent_stream s, cf_state s, cf_signals s))"

definition posted :: "(syscall \<times> int) list \<Rightarrow> nat" where
  "posted log = length (filter (\<lambda>c. fst c = Sys ''sem_post'' [fsevent_sem]) log)"

definition quiet_step :: "'a cfloop_scheme \<Rightarrow> 'a cfloop_scheme \<Rightarrow> bool" where
  "quiet_step s t \<longleftrightarrow> cf_view t = cf_view s \<and> posted (syscalls t) = posted (syscalls s) \<and> set (replies t) \<subseteq> set (replies s)"

lemma posted_append [simp]: "posted (l1 @ l2) = posted l1 + posted l2"
  by (simp add: posted_def)

lemma posted_simps [simp]:
  "posted [] = 0" "posted (c # l) = (if fst c = Sys ''sem_post'' [fsevent_sem] then 1 else 0) + posted l"
  by (simp_all add: posted_def)

lemma quiet_refl [simp, intro]: "quiet_step s s"
  by (simp add: quiet_step_def)

lemma quiet_trans: "quiet_step s t \<Longrightarrow> quiet_step t u \<Longrightarrow> quiet_step s u"
  by (auto simp: quiet_step_def)

lemma quiet_fields:
  assumes "quiet_step s t"
  shows "cfh t = cfh s" "fsevent_handles t = fsevent_handles s" "fsevent_handle_count t = fsevent_handle_count s" "hnd t = hnd s"
    "reports t = reports s" "cf_data t = cf_data s" "fsevent_need_reschedule t = fsevent_need_reschedule s"
    "fsevent_stream t = fsevent_stream s" "cf_state t = cf_state s" "cf_signals t = cf_signals s"
    "posted (syscalls t) = posted (syscalls s)"
  using assms by (simp_all add: quiet_step_def cf_view_def)

lemma syscall_quiet:
  assumes "syscall c (s :: 'a cfloop_scheme) = Some (r, t)" "c \<noteq> Sys ''sem_post'' [fsevent_sem]"
  shows "quiet_step s t"
  using assms by (auto simp: syscall_def quiet_step_def cf_view_def split: list.splits)

lemma cf_call_quiet: "cf_call name args s = Some t \<Longrightarrow> name \<noteq> ''sem_post'' \<Longrightarrow> quiet_step s t"
  by (auto simp: cf_call_def intro: syscall_quiet)

lemma retry_quiet:
  fixes s :: "'a cfloop_scheme"
  assumes "retry_while e c s = Some (r, t)" "c \<noteq> Sys ''sem_post'' [fsevent_sem]"
  shows "quiet_step s t"
  using assms(1)
proof (induction "length (replies s)" arbitrary: s rule: less_induct)
  case less
  from less.prems obtain r' u where u: "syscall c s = Some (r', u)"
    "(if r_ret r' = - 1 \<and> errno u = e then retry_while e c u else Some (r', u)) = Some (r, t)"
    by (subst (asm) retry_while.simps) (auto split: option.splits)
  have "quiet_step s u" using u(1) assms(2) by (rule syscall_quiet)
  moreover have "quiet_step u t"
    using u(2) less.hyps [OF syscall_shorter [OF u(1)]] by (auto split: if_splits)
  ultimately show ?case by (rule quiet_trans)
qed

lemma async_send_quiet:
  assumes "uv_async_send a (s :: 'a cfloop_scheme) = Some (r, t)"
  shows "quiet_step s t"
proof (cases "a_pending (asyncs s a)")
  case True
  then show ?thesis using assms by (simp add: uv_async_send_def)
next
  case False
  let ?u = "upd_async a (\<lambda>a. a\<lparr>a_pending := True\<rparr>) s"
  from False assms have "uv__async_send ?u = Some t" by (auto simp: uv_async_send_def bind_eq_Some_conv)
  then obtain c r' where "eintr_loop c ?u = Some (r', t)" "c \<noteq> Sys ''sem_post'' [fsevent_sem]"
    by (auto simp: uv__async_send_def bind_eq_Some_conv Let_def split: if_splits prod.splits)
  then have "quiet_step ?u t" by (rule retry_quiet)
  then show ?thesis by (simp add: quiet_step_def cf_view_def upd_async_def)
qed

section \<open>Queued events\<close>

text \<open>What a push leaves: the events and the error of the one handle.\<close>

lemma push_event_result:
  assumes "uv__fsevents_push_event h events err s = Some t"
  shows "quiet_step (upd_cf h (\<lambda>c. c\<lparr>cf_events := cf_events c @ (case events of None \<Rightarrow> [] | Some es \<Rightarrow> es),
    cf_error := (if err \<noteq> 0 then err else cf_error c)\<rparr>) s) t"
proof -
  let ?u = "upd_cf h (\<lambda>c. c\<lparr>cf_events := cf_events c @ (case events of None \<Rightarrow> [] | Some es \<Rightarrow> es),
    cf_error := (if err \<noteq> 0 then err else cf_error c)\<rparr>) s"
  have "(let s = (case events of None \<Rightarrow> s | Some es \<Rightarrow> upd_cf h (\<lambda>c. c\<lparr>cf_events := cf_events c @ es\<rparr>) s)
      in if err \<noteq> 0 then upd_cf h (\<lambda>c. c\<lparr>cf_error := err\<rparr>) s else s) = ?u"
    by (auto simp: upd_cf_def split: option.splits)
  then obtain cb r where "uv_async_send cb ?u = Some (r, t)"
    using assms by (auto simp: uv__fsevents_push_event_def bind_eq_Some_conv Let_def)
  then show ?thesis by (rule async_send_quiet)
qed

text \<open>No reply is a failure.\<close>

definition allocs :: "'a cfloop_scheme \<Rightarrow> bool" where
  "allocs s \<longleftrightarrow> (\<forall>r \<in> set (replies s). r_ret r \<noteq> - 1)"


text \<open>The events of the stream that a handle takes, and what it makes of each: the name is lost.\<close>

definition event_wanted :: "cf_handle \<Rightarrow> string \<times> u32 \<Rightarrow> bool" where
  "event_wanted c e \<longleftrightarrow> snd e AND kFSEventsSystem = 0
     \<and> path_below (the (cf_realpath c)) (cf_realpath_len c) (cf_flags c) (fst e) \<noteq> None"

definition queued_event :: "string \<times> u32 \<Rightarrow> cf_event" where
  "queued_event e = \<lparr>cfe_events = cf_kind (snd e), cfe_path = ''''\<rparr>"









lemma collect_step:
  assumes "collect_events h (e # es) head s = Some (out, t)"
  shows "\<not> event_wanted (cfh s h) e \<and> collect_events h es head s = Some (out, t)
    \<or> event_wanted (cfh s h) e \<and> (\<exists>r u. syscall (Sys ''malloc'' [0]) s = Some (r, u)
        \<and> (if r_ret r = - 1 then out = head \<and> t = u else collect_events h es (head @ [queued_event e]) u = Some (out, t)))"
proof (cases "snd e AND kFSEventsSystem = 0")
  case False
  then show ?thesis using assms by (simp add: event_wanted_def)
next
  case True
  with assms obtain rp where rp: "cf_realpath (cfh s h) = Some rp" by (auto simp: bind_eq_Some_conv)
  show ?thesis
  proof (cases "path_below rp (cf_realpath_len (cfh s h)) (cf_flags (cfh s h)) (fst e)")
    case None
    then show ?thesis using assms True rp by (simp add: event_wanted_def)
  next
    case (Some p)
    from assms True rp Some obtain r u where u: "syscall (Sys ''malloc'' [0]) s = Some (r, u)" by (auto simp: bind_eq_Some_conv)
    then show ?thesis using assms True rp Some by (simp add: event_wanted_def queued_event_def split: if_splits)
  qed
qed

lemma collect_result:
  assumes "collect_events h es head s = Some (out, t)"
  shows "\<exists>k. out = head @ map queued_event (take k (filter (event_wanted (cfh s h)) es)) \<and> quiet_step s t
    \<and> (allocs s \<longrightarrow> length (filter (event_wanted (cfh s h)) es) \<le> k \<and> allocs t)"
  using assms
proof (induction es arbitrary: head s)
  case Nil
  then show ?case by auto
next
  case (Cons e es)
  consider (skip) "\<not> event_wanted (cfh s h) e" "collect_events h es head s = Some (out, t)"
    | (take) r u where "event_wanted (cfh s h) e" "syscall (Sys ''malloc'' [0]) s = Some (r, u)"
        "if r_ret r = - 1 then out = head \<and> t = u else collect_events h es (head @ [queued_event e]) u = Some (out, t)"
    using collect_step [OF Cons.prems] by blast
  then show ?case
  proof cases
    case skip
    from Cons.IH [OF skip(2)] skip(1) show ?thesis by simp
  next
    case take
    have q: "quiet_step s u" using take(2) by (rule syscall_quiet) simp
    have a: "allocs s \<Longrightarrow> allocs u \<and> r_ret r \<noteq> - 1" using take(2) by (auto simp: syscall_def allocs_def split: list.splits)
    show ?thesis
    proof (cases "r_ret r = - 1")
      case True
      with take(3) q a show ?thesis by (intro exI [of _ 0]) auto
    next
      case False
      with take(3) have "collect_events h es (head @ [queued_event e]) u = Some (out, t)" by simp
      from Cons.IH [OF this] obtain k where "out = (head @ [queued_event e]) @ map queued_event (List.take k (filter (event_wanted (cfh s h)) es))"
        "quiet_step u t" "allocs u \<longrightarrow> length (filter (event_wanted (cfh s h)) es) \<le> k \<and> allocs t" by (auto simp: quiet_fields [OF q])
      with take(1) q a show ?thesis by (intro exI [of _ "Suc k"]) (auto intro: quiet_trans)
    qed
  qed
qed





section \<open>Reporting\<close>





text \<open>A loop with one handle, 7, for the directory \<open>/a\<close>; its async handle, 8, is pending.\<close>

definition watching_a :: "reply list \<Rightarrow> unit cfloop_scheme" where
  "watching_a rs = adloop.extend ((resolving rs [])\<lparr>asyncs := \<lambda>_. \<lparr>a_cb = Some User_async_cb, a_pending = True\<rparr>,
       hnd := \<lambda>_. \<lparr>h_type = UV_FS_EVENT, h_flags = UV__HANDLE_ACTIVE OR UV__HANDLE_REF, h_close_cb = False\<rparr>\<rparr>)
     (cfloop.fields 0 0 True 0 0 [] False None [7] 1
       (\<lambda>_. \<lparr>cf_realpath = Some ''/a'', cf_realpath_len = 2, cf_flags = 0, cf_events = [], cf_error = 0, cf_cb = Some 8\<rparr>)
       (\<lambda>_. 7) (\<lambda>_. ''/a'') [])"

lemma watching_fields [simp]:
  "replies (watching_a rs) = rs" "fsevent_handles (watching_a rs) = [7]" "cf_state (watching_a rs)" "cf_data (watching_a rs) = (\<lambda>_. 7)"
  "cfh (watching_a rs) = (\<lambda>_. \<lparr>cf_realpath = Some ''/a'', cf_realpath_len = 2, cf_flags = 0, cf_events = [], cf_error = 0, cf_cb = Some 8\<rparr>)"
  "asyncs (watching_a rs) = (\<lambda>_. \<lparr>a_cb = Some User_async_cb, a_pending = True\<rparr>)" "reports (watching_a rs) = []"
  "fsevent_handle_count (watching_a rs) = 1" "fsevent_stream (watching_a rs) = None" "fsevent_need_reschedule (watching_a rs) = False"
  "hnd (watching_a rs) = (\<lambda>_. \<lparr>h_type = UV_FS_EVENT, h_flags = UV__HANDLE_ACTIVE OR UV__HANDLE_REF, h_close_cb = False\<rparr>)"
  by (simp_all add: watching_a_def adloop.defs cfloop.defs resolving_def fs_loop_defs)



section \<open>A handle that failed to start\<close>

text \<open>What every function of the thread keeps: the list, and the path and the async handle of each handle.\<close>

definition cf_kept :: "'a cfloop_scheme \<Rightarrow> 'a cfloop_scheme \<Rightarrow> bool" where
  "cf_kept s t \<longleftrightarrow> fsevent_handles t = fsevent_handles s \<and> fsevent_handle_count t = fsevent_handle_count s
    \<and> fsevent_need_reschedule t = fsevent_need_reschedule s \<and> posted (syscalls t) = posted (syscalls s)
    \<and> (\<forall>h. cf_cb (cfh t h) = cf_cb (cfh s h) \<and> cf_realpath (cfh t h) = cf_realpath (cfh s h))"

lemma kept_refl [simp, intro]: "cf_kept s s"
  by (simp add: cf_kept_def)

lemma kept_trans: "cf_kept s t \<Longrightarrow> cf_kept t u \<Longrightarrow> cf_kept s u"
  by (simp add: cf_kept_def)

lemma quiet_kept: "quiet_step s t \<Longrightarrow> cf_kept s t"
  by (simp add: cf_kept_def quiet_fields)

lemma push_kept:
  assumes "uv__fsevents_push_event h events err s = Some t"
  shows "cf_kept s t"
proof (rule kept_trans [OF _ quiet_kept [OF push_event_result [OF assms]]])
  show "cf_kept s (upd_cf h (\<lambda>c. c\<lparr>cf_events := cf_events c @ (case events of None \<Rightarrow> [] | Some es \<Rightarrow> es),
    cf_error := (if err \<noteq> 0 then err else cf_error c)\<rparr>) s)"
    unfolding cf_kept_def upd_cf_def by auto
qed

lemma event_to_handles_kept: "event_to_handles es hs s = Some t \<Longrightarrow> cf_kept s t"
proof (induction hs arbitrary: s)
  case (Cons h hs)
  then obtain head u v where u: "collect_events h es [] s = Some (head, u)"
    and v: "(if head \<noteq> [] then uv__fsevents_push_event h (Some head) 0 u else Some u) = Some v" "event_to_handles es hs v = Some t"
    by (auto simp: bind_eq_Some_conv)
  have "cf_kept s u" using collect_result [OF u] quiet_kept by blast
  moreover have "cf_kept u v" using v(1) push_kept by (auto split: if_splits)
  ultimately show ?case using Cons.IH [OF v(2)] kept_trans by blast
qed simp

text \<open>The same as rules for the steps of a function.\<close>

lemma wp_kept:
  "c \<noteq> Sys ''sem_post'' [fsevent_sem] \<Longrightarrow> cf_kept s u \<Longrightarrow> (\<And>r t. cf_kept s t \<Longrightarrow> Q (r, t)) \<Longrightarrow> wp (syscall c u) Q"
  "name \<noteq> ''sem_post'' \<Longrightarrow> cf_kept s u \<Longrightarrow> (\<And>t. cf_kept s t \<Longrightarrow> R t) \<Longrightarrow> wp (cf_call name args u) R"
  by (auto intro!: wpI dest!: syscall_quiet cf_call_quiet quiet_kept intro: kept_trans)

lemma kept_stream [simp]: "cf_kept s (t\<lparr>fsevent_stream := x\<rparr>) = cf_kept s t"
  by (simp add: cf_kept_def)

lemma create_stream_kept: "wp (uv__fsevents_create_stream a s) (\<lambda>(_, t). cf_kept s t)"
  unfolding uv__fsevents_create_stream_def Let_def
  apply simp
  apply (rule wp_kept, simp, rule kept_refl)
  apply simp
  apply (rule impI, rule wp_kept, simp, assumption)
  apply (rule wp_kept, simp, assumption)
  apply simp
  apply (rule impI, rule wp_kept, simp, assumption)
  apply (rule wp_kept, simp, assumption)
  apply assumption
  done

lemma wp_event_cb_kept:
  assumes "cf_kept s u" "\<And>t. cf_kept s t \<Longrightarrow> Q t"
  shows "wp (uv__fsevents_event_cb es u) Q"
proof (rule wpI)
  fix t assume "uv__fsevents_event_cb es u = Some t"
  then have "event_to_handles es (fsevent_handles u) u = Some t" by (auto simp: uv__fsevents_event_cb_def)
  then show "Q t" using assms event_to_handles_kept kept_trans by blast
qed

lemma destroy_stream_kept: "wp (uv__fsevents_destroy_stream s) (\<lambda>t. cf_kept s t)"
proof (cases "fsevent_stream s")
  case (Some ref)
  then show ?thesis unfolding uv__fsevents_destroy_stream_def
    apply simp
    apply (rule wp_kept, simp, rule kept_refl)
    apply simp
    apply (rule wp_event_cb_kept, assumption)
    apply (rule wp_kept, simp, assumption)+
    apply simp
    done
qed (simp add: uv__fsevents_destroy_stream_def)

text \<open>The paths of a list with a handle that has none: the strings are not all made.\<close>

lemma create_paths_kept:
  "create_paths n qs paths s = Some (ok, refs, t) \<Longrightarrow> quiet_step s t
    \<and> (ok \<longrightarrow> (\<forall>q \<in> set (take n qs). cf_realpath (cfh s q) \<noteq> None))"
proof (induction n qs paths s rule: create_paths.induct)
  case (3 n q qs paths s)
  from 3(2) obtain rp r u where u: "cf_realpath (cfh s q) = Some rp"
    "syscall (SysPath ''CFStringCreateWithFileSystemRepresentation'' [rp] []) s = Some (r, u)"
    "(if r_ret r = - 1 then Some (False, paths, u) else create_paths n qs (paths @ [r_ret r]) u) = Some (ok, refs, t)"
    by (auto simp: bind_eq_Some_conv)
  have q: "quiet_step s u" using u(2) by (rule syscall_quiet) simp
  show ?case
  proof (cases "r_ret r = - 1")
    case True
    with u(3) q show ?thesis by auto
  next
    case False
    with 3(1) [OF u(1) u(2)] u(3) q show ?thesis by (auto simp: quiet_fields [OF q] u(1) intro: quiet_trans)
  qed
qed auto

lemma broadcast_crashes:
  "h \<in> set hs \<Longrightarrow> cf_cb (cfh s h) = None \<Longrightarrow> broadcast err hs s = None"
proof (induction hs arbitrary: s)
  case (Cons g hs)
  show ?case
  proof (cases "uv__fsevents_push_event g None err s")
    case (Some t)
    have "g \<noteq> h" using Some Cons.prems(2)
      by (auto simp: uv__fsevents_push_event_def bind_eq_Some_conv upd_cf_def Let_def split: if_splits)
    moreover have "cf_cb (cfh t h) = None" using push_kept [OF Some] Cons.prems(2) by (simp add: cf_kept_def)
    ultimately show ?thesis using Cons Some by simp
  qed simp
qed simp

lemma release_quiet: "release_all ps s = Some t \<Longrightarrow> quiet_step s t"
proof (induction ps arbitrary: s)
  case (Cons p ps)
  then obtain u where u: "cf_call ''CFRelease'' [p] s = Some u" "release_all ps u = Some t" by (auto simp: bind_eq_Some_conv)
  from u(1) have "quiet_step s u" by (rule cf_call_quiet) simp
  with Cons.IH [OF u(2)] show ?case by (rule quiet_trans [rotated])
qed simp

lemma final_error_crashes:
  assumes "err \<noteq> 0" "h \<in> set (fsevent_handles s)" "cf_cb (cfh s h) = None"
  shows "reschedule_final err paths arr type s = None"
proof -
  have "broadcast err (fsevent_handles t) t = None" if "quiet_step s t" for t
    using broadcast_crashes [of h "fsevent_handles t" t err] assms(2,3) quiet_fields [OF that] by simp
  moreover have "quiet_step s t"
    if "(case arr of None \<Rightarrow> release_all (rev paths) s | Some a \<Rightarrow> cf_call ''CFRelease'' [a] s) = Some t" for t
    using that by (cases arr) (auto intro: release_quiet cf_call_quiet)
  ultimately show ?thesis using assms(1)
    by (cases "case arr of None \<Rightarrow> release_all (rev paths) s | Some a \<Rightarrow> cf_call ''CFRelease'' [a] s")
      (simp_all add: reschedule_final_def)
qed

lemma new_stream_fails:
  assumes "new_stream s = Some (err, paths, arr, t)" "h \<in> set (take (unat (fsevent_handle_count s)) (fsevent_handles s))"
    and "cf_realpath (cfh s h) = None"
  shows "err = - ENOMEM \<and> quiet_step s t"
proof -
  have z: "fsevent_handle_count s \<noteq> 0" using assms(2) by auto
  with assms(1) obtain r w where w: "syscall (Sys ''malloc'' [uint (fsevent_handle_count s)]) s = Some (r, w)"
    by (auto simp: new_stream_def Let_def bind_eq_Some_conv)
  have q: "quiet_step s w" using w by (rule syscall_quiet) simp
  show ?thesis
  proof (cases "r_ret r = - 1")
    case True
    with assms(1) w z q show ?thesis by (auto simp: new_stream_def)
  next
    case False
    with assms(1) w z obtain ok refs x where x: "create_paths (unat (fsevent_handle_count s)) (fsevent_handles w) [] w = Some (ok, refs, x)"
      "ok \<or> err = - ENOMEM \<and> t = x" by (auto simp: new_stream_def bind_eq_Some_conv Let_def split: if_splits)
    have "\<not> ok" using create_paths_kept [OF x(1)] assms(2,3) by (auto simp: quiet_fields [OF q])
    with x q create_paths_kept [OF x(1)] show ?thesis using quiet_trans by blast
  qed
qed

text \<open>C36: when the signal to the run loop cannot be sent, \<open>uv__fsevents_init\<close> reports the error and frees what it
  made for the handle, but leaves the handle in the list.  The next time the run loop's thread makes a stream, it comes to
  the handle, whatever the system answers, and the program ends.\<close>
theorem failed_init_crashes:
  assumes "replies s = ret 0 # r # ret 0 # rs" "r_ret r = - 1"
    and "fsevent_handle_count s = of_nat (length (fsevent_handles s))" "length (fsevent_handles s) < 2 ^ 32 - 1"
  shows "\<exists>t. fsevents_insert h s = Some (- ENOMEM, t) \<and> (\<forall>type. uv__fsevents_reschedule type t = None)"
proof -
  have "\<exists>t. fsevents_insert h s = Some (- ENOMEM, t) \<and> fsevent_handles t = fsevent_handles s @ [h] \<and> fsevent_need_reschedule t
    \<and> fsevent_handle_count t = fsevent_handle_count s + 1 \<and> cf_cb (cfh t h) = None \<and> cf_realpath (cfh t h) = None"
    using assms(1,2) by (simp add: fsevents_insert_def uv_mutex_init_def thread_init_def uv__cf_loop_signal_def uv_mutex_destroy_def
      rwlock_def ret_def upd_cf_def Let_def)
  then obtain t where t: "fsevents_insert h s = Some (- ENOMEM, t)" "fsevent_handles t = fsevent_handles s @ [h]" "fsevent_need_reschedule t"
    "fsevent_handle_count t = fsevent_handle_count s + 1" "cf_cb (cfh t h) = None" "cf_realpath (cfh t h) = None" by blast
  have n: "unat (fsevent_handle_count t) = Suc (length (fsevent_handles s))"
    using assms(3,4) t(4) by (simp add: unat_word_ariths unat_of_nat)
  have "uv__fsevents_reschedule type t = None" for type
  proof (cases "uv__fsevents_destroy_stream (t\<lparr>fsevent_need_reschedule := False\<rparr>)")
    case (Some u)
    have "cf_kept (t\<lparr>fsevent_need_reschedule := False\<rparr>) u" by (rule wpD [OF destroy_stream_kept Some])
    then have u: "fsevent_handles u = fsevent_handles s @ [h]" "cf_cb (cfh u h) = None" "cf_realpath (cfh u h) = None"
      "fsevent_handle_count u = fsevent_handle_count t"
      using t by (simp_all add: cf_kept_def)
    have "reschedule_final err paths arr type v = None" if v: "new_stream u = Some (err, paths, arr, v)" for err paths arr v
    proof (rule final_error_crashes [of _ h])
      have "err = - ENOMEM \<and> quiet_step u v" using v by (rule new_stream_fails [of _ _ _ _ _ h]) (simp_all add: u n)
      then show "err \<noteq> 0" "h \<in> set (fsevent_handles v)" "cf_cb (cfh v h) = None"
        using u by (auto simp: quiet_fields)
    qed
    then show ?thesis using t(3) Some
      by (cases "new_stream u") (auto simp: uv__fsevents_reschedule_def)
  qed (simp add: uv__fsevents_reschedule_def t(3))
  with t(1) show ?thesis by blast
qed


lemma failed_init_crashes_witness:
  "\<exists>t. fsevents_insert 9 (watching_a [ret 0, ret (- 1), ret 0]) = Some (- ENOMEM, t) \<and> uv__fsevents_reschedule kUVCFLoopSignalRegular t = None"
  using failed_init_crashes [of "watching_a [ret 0, ret (- 1), ret 0]" "ret (- 1)" "[]" 9] by (auto simp: ret_def)

section \<open>What is watched\<close>

text \<open>The stream was made from an array of the strings made for the paths, in their order.\<close>

definition watched :: "(syscall \<times> int) list \<Rightarrow> int \<Rightarrow> string list \<Rightarrow> bool" where
  "watched log ref ps \<longleftrightarrow> (\<exists>refs a. (Sys ''FSEventStreamCreate'' [a], ref) \<in> set log \<and> (Sys ''CFArrayCreate'' refs, a) \<in> set log
     \<and> list_all2 (\<lambda>p r. (SysPath ''CFStringCreateWithFileSystemRepresentation'' [p] [], r) \<in> set log) ps refs)"

abbreviation (input) path_of :: "'a cfloop_scheme \<Rightarrow> addr \<Rightarrow> string" where
  "path_of s h \<equiv> the (cf_realpath (cfh s h))"

lemma syscall_log: "syscall c s = Some (r, t) \<Longrightarrow> set (syscalls t) = insert (c, r_ret r) (set (syscalls s))"
  by (auto simp: syscall_def split: list.splits)

lemma cf_call_log: "cf_call name args s = Some t \<Longrightarrow> set (syscalls s) \<subseteq> set (syscalls t)"
  by (auto simp: cf_call_def dest: syscall_log)

lemma create_paths_strings:
  "create_paths n qs refs s = Some (True, refs', t) \<Longrightarrow> set (syscalls s) \<subseteq> set (syscalls t)
    \<and> (\<exists>new. refs' = refs @ new
        \<and> list_all2 (\<lambda>p r. (SysPath ''CFStringCreateWithFileSystemRepresentation'' [p] [], r) \<in> set (syscalls t)) (map (path_of s) (take n qs)) new)"
proof (induction n qs refs s rule: create_paths.induct)
  case (3 n q qs refs s)
  from 3(2) obtain rp r u where u: "cf_realpath (cfh s q) = Some rp"
    "syscall (SysPath ''CFStringCreateWithFileSystemRepresentation'' [rp] []) s = Some (r, u)"
    "create_paths n qs (refs @ [r_ret r]) u = Some (True, refs', t)" "r_ret r \<noteq> - 1"
    by (auto simp: bind_eq_Some_conv split: if_splits)
  have q: "cfh u = cfh s" using syscall_quiet [OF u(2)] by (simp add: quiet_fields)
  from 3(1) [OF u(1) u(2) refl u(4) u(3)] obtain new where new: "set (syscalls u) \<subseteq> set (syscalls t)" "refs' = (refs @ [r_ret r]) @ new"
    "list_all2 (\<lambda>p r. (SysPath ''CFStringCreateWithFileSystemRepresentation'' [p] [], r) \<in> set (syscalls t)) (map (path_of s) (take n qs)) new"
    by (auto simp: q)
  then show ?case using syscall_log [OF u(2)] u(1) by (intro conjI exI [of _ "r_ret r # new"]) auto
qed auto

lemma create_stream_result:
  assumes "uv__fsevents_create_stream a s = Some (err, t)" "fsevent_stream s = None"
  shows "cf_kept s t \<and> set (syscalls s) \<subseteq> set (syscalls t)
    \<and> (if err = 0 then \<exists>ref. fsevent_stream t = Some ref \<and> (Sys ''FSEventStreamCreate'' [a], ref) \<in> set (syscalls t)
       else fsevent_stream t = None)"
proof -
  from assms obtain r u v st w where u: "syscall (Sys ''FSEventStreamCreate'' [a]) s = Some (r, u)"
    and v: "cf_call ''FSEventStreamScheduleWithRunLoop'' [r_ret r, cf_runloop u] u = Some v"
    and w: "syscall (Sys ''FSEventStreamStart'' [r_ret r]) v = Some (st, w)"
    and t: "(if r_ret st = 0 then do { s \<leftarrow> cf_call ''FSEventStreamInvalidate'' [r_ret r] w;
         s \<leftarrow> cf_call ''FSEventStreamRelease'' [r_ret r] s; Some (- EMFILE, s) }
       else Some (0, w\<lparr>fsevent_stream := Some (r_ret r)\<rparr>)) = Some (err, t)"
    by (auto simp: uv__fsevents_create_stream_def bind_eq_Some_conv Let_def)
  have k: "cf_kept s t" using wpD [OF create_stream_kept assms(1)] by simp
  have "quiet_step s u" "quiet_step u v" "quiet_step v w"
    using syscall_quiet [OF u] cf_call_quiet [OF v] syscall_quiet [OF w] by simp_all
  then have n: "fsevent_stream w = None" using assms(2) by (simp add: quiet_fields)
  have l: "insert (Sys ''FSEventStreamCreate'' [a], r_ret r) (set (syscalls s)) \<subseteq> set (syscalls w)"
    using syscall_log [OF u] cf_call_log [OF v] syscall_log [OF w] by auto
  show ?thesis
  proof (cases "r_ret st = 0")
    case False
    then show ?thesis using t k l by auto
  next
    case True
    with t obtain x where x: "cf_call ''FSEventStreamInvalidate'' [r_ret r] w = Some x" "cf_call ''FSEventStreamRelease'' [r_ret r] x = Some t"
      "err = - EMFILE" by (auto simp: bind_eq_Some_conv)
    have "quiet_step w x" "quiet_step x t" using cf_call_quiet [OF x(1)] cf_call_quiet [OF x(2)] by simp_all
    then show ?thesis using x k l n cf_call_log [OF x(1)] cf_call_log [OF x(2)] by (auto simp: quiet_fields)
  qed
qed

lemma new_stream_result:
  assumes "new_stream s = Some (err, paths, arr, t)" "fsevent_stream s = None"
    and "unat (fsevent_handle_count s) = length (fsevent_handles s)"
  shows "cf_kept s t \<and> (err \<noteq> 0 \<and> fsevent_stream t = None \<or> fsevent_handles s = [] \<and> fsevent_stream t = None
    \<or> err = 0 \<and> fsevent_handles s \<noteq> [] \<and> (\<exists>ref. fsevent_stream t = Some ref
        \<and> watched (syscalls t) ref (map (path_of s) (fsevent_handles s))))"
proof (cases "fsevent_handle_count s = 0")
  case True
  with assms show ?thesis by (simp add: new_stream_def)
next
  case z: False
  with assms(1) obtain r w where w: "syscall (Sys ''malloc'' [uint (fsevent_handle_count s)]) s = Some (r, w)"
    by (auto simp: new_stream_def Let_def bind_eq_Some_conv)
  have q: "quiet_step s w" using w by (rule syscall_quiet) simp
  show ?thesis
  proof (cases "r_ret r = - 1")
    case True
    with assms(1) w z have "err \<noteq> 0" "t = w" by (auto simp: new_stream_def)
    with q assms(2) show ?thesis by (simp add: quiet_kept quiet_fields)
  next
    case False
    with assms(1) w z obtain ok refs x where x: "create_paths (unat (fsevent_handle_count s)) (fsevent_handles w) [] w = Some (ok, refs, x)"
      and y: "if \<not> ok then err = - ENOMEM \<and> t = x else (do { (a, s) \<leftarrow> syscall (Sys ''CFArrayCreate'' refs) x;
            if r_ret a = - 1 then Some (- ENOMEM, refs, None, s)
            else do { (err, s) \<leftarrow> uv__fsevents_create_stream (r_ret a) s; Some (err, refs, Some (r_ret a), s) } }) = Some (err, paths, arr, t)"
      by (auto simp: new_stream_def bind_eq_Some_conv Let_def split: if_splits)
    have qx: "quiet_step s x" using q create_paths_kept [OF x] quiet_trans by blast
    show ?thesis
    proof (cases ok)
      case False
      with y qx assms(2) show ?thesis by (simp add: quiet_kept quiet_fields)
    next
      case ok: True
      with y obtain a v where v: "syscall (Sys ''CFArrayCreate'' refs) x = Some (a, v)"
        "(if r_ret a = - 1 then Some (- ENOMEM, refs, None, v)
            else do { (err, s) \<leftarrow> uv__fsevents_create_stream (r_ret a) v; Some (err, refs, Some (r_ret a), s) }) = Some (err, paths, arr, t)"
        by (auto simp: bind_eq_Some_conv)
      have qv: "quiet_step s v" using qx syscall_quiet [OF v(1)] quiet_trans by auto
      have ne: "fsevent_handles s \<noteq> []" using z assms(3) by (auto simp: unat_eq_zero)
      show ?thesis
      proof (cases "r_ret a = - 1")
        case True
        with v(2) qv assms(2) show ?thesis by (auto simp: quiet_kept quiet_fields)
      next
        case False
        with v(2) have c: "uv__fsevents_create_stream (r_ret a) v = Some (err, t)" by (auto simp: bind_eq_Some_conv)
        have "fsevent_stream v = None" using qv assms(2) by (simp add: quiet_fields)
        from create_stream_result [OF c this] have t: "cf_kept v t" "set (syscalls v) \<subseteq> set (syscalls t)"
          "if err = 0 then \<exists>ref. fsevent_stream t = Some ref \<and> (Sys ''FSEventStreamCreate'' [r_ret a], ref) \<in> set (syscalls t)
           else fsevent_stream t = None" by auto
        have sub: "set (syscalls x) \<subseteq> set (syscalls t)" "(Sys ''CFArrayCreate'' refs, r_ret a) \<in> set (syscalls t)"
          using t(2) syscall_log [OF v(1)] by auto
        have "list_all2 (\<lambda>p r. (SysPath ''CFStringCreateWithFileSystemRepresentation'' [p] [], r) \<in> set (syscalls x))
            (map (path_of s) (fsevent_handles s)) refs"
          using create_paths_strings [of "length (fsevent_handles s)" "fsevent_handles s" "[]" w refs x] x ok assms(3) by (simp add: quiet_fields [OF q])
        then have "list_all2 (\<lambda>p r. (SysPath ''CFStringCreateWithFileSystemRepresentation'' [p] [], r) \<in> set (syscalls t))
            (map (path_of s) (fsevent_handles s)) refs"
          by (rule list_all2_mono) (use sub in auto)
        with t(3) sub(2) have "err = 0 \<Longrightarrow> \<exists>ref. fsevent_stream t = Some ref \<and> watched (syscalls t) ref (map (path_of s) (fsevent_handles s))"
          by (auto simp: watched_def)
        moreover have "cf_kept s t" using quiet_kept [OF qv] t(1) by (rule kept_trans)
        ultimately show ?thesis using t(3) ne by (cases "err = 0") auto
      qed
    qed
  qed
qed


text \<open>The error reaches all handles.\<close>

lemma broadcast_result:
  assumes "broadcast err hs s = Some t" "err \<noteq> 0"
  shows "cf_kept s t \<and> fsevent_stream t = fsevent_stream s \<and> (\<forall>h. cf_error (cfh t h) = (if h \<in> set hs then err else cf_error (cfh s h)))"
  using assms(1)
proof (induction hs arbitrary: s)
  case (Cons g hs)
  then obtain u where u: "uv__fsevents_push_event g None err s = Some u" "broadcast err hs u = Some t"
    by (auto simp: bind_eq_Some_conv)
  have "fsevent_stream u = fsevent_stream s" "\<forall>h. cf_error (cfh u h) = (if h = g then err else cf_error (cfh s h))"
    using quiet_fields [OF push_event_result [OF u(1)]] assms(2) by (simp_all add: upd_cf_def)
  with Cons.IH [OF u(2)] push_kept [OF u(1)] show ?case using kept_trans by auto
qed simp

lemma final_result:
  assumes "reschedule_final err paths arr type s = Some t"
  shows "fsevent_handles t = fsevent_handles s \<and> fsevent_need_reschedule t = fsevent_need_reschedule s \<and> fsevent_stream t = fsevent_stream s
    \<and> posted (syscalls t) = posted (syscalls s) + (if type = kUVCFLoopSignalClosing then 1 else 0)
    \<and> (err \<noteq> 0 \<longrightarrow> (\<forall>h \<in> set (fsevent_handles s). cf_error (cfh t h) = err))
    \<and> (err = 0 \<longrightarrow> set (syscalls s) \<subseteq> set (syscalls t))"
proof -
  obtain u where u: "(if err \<noteq> 0 then do {
         s \<leftarrow> (case arr of None \<Rightarrow> release_all (rev paths) s | Some a \<Rightarrow> cf_call ''CFRelease'' [a] s);
         broadcast err (fsevent_handles s) s
       } else Some s) = Some u" "(if type = kUVCFLoopSignalClosing then uv_sem_post fsevent_sem u else Some u) = Some t"
    using assms by (auto simp: reschedule_final_def bind_eq_Some_conv)
  have "cf_kept s u \<and> fsevent_stream u = fsevent_stream s \<and> (err \<noteq> 0 \<longrightarrow> (\<forall>h \<in> set (fsevent_handles s). cf_error (cfh u h) = err))
    \<and> (err = 0 \<longrightarrow> u = s)"
  proof (cases "err = 0")
    case False
    with u(1) obtain v where v: "(case arr of None \<Rightarrow> release_all (rev paths) s | Some a \<Rightarrow> cf_call ''CFRelease'' [a] s) = Some v"
      "broadcast err (fsevent_handles v) v = Some u" by (auto simp: bind_eq_Some_conv)
    have q: "quiet_step s v" using v(1) by (cases arr) (auto intro: release_quiet cf_call_quiet)
    from broadcast_result [OF v(2) False] show ?thesis
      using kept_trans [OF quiet_kept [OF q]] False by (simp add: quiet_fields [OF q])
  qed (use u(1) in simp)
  then show ?thesis using u(2)
    by (auto simp: cf_kept_def uv_sem_post_def rwlock_def syscall_def split: if_splits list.splits)
qed

text \<open>C37: when \<open>uv__fsevents_reschedule\<close> has to act and returns, there is nothing more to do; either the new stream
  watches the paths of all handles of the list, in order, or there is none, and then the list is empty or every handle
  of it has been given the error.  The closing of a handle is allowed to go on exactly once, whatever failed.\<close>
theorem reschedule_watches_all:
  assumes "uv__fsevents_reschedule type s = Some t" "fsevent_need_reschedule s"
    and "unat (fsevent_handle_count s) = length (fsevent_handles s)"
  shows "\<not> fsevent_need_reschedule t \<and> fsevent_handles t = fsevent_handles s
    \<and> posted (syscalls t) = posted (syscalls s) + (if type = kUVCFLoopSignalClosing then 1 else 0)
    \<and> (case fsevent_stream t of
         None \<Rightarrow> \<exists>err. err \<noteq> 0 \<and> (\<forall>h \<in> set (fsevent_handles s). cf_error (cfh t h) = err)
       | Some ref \<Rightarrow> fsevent_handles s \<noteq> [] \<and> watched (syscalls t) ref (map (path_of s) (fsevent_handles s)))"
proof -
  let ?s = "s\<lparr>fsevent_need_reschedule := False\<rparr>"
  from assms(1,2) obtain u err paths arr v where u: "uv__fsevents_destroy_stream ?s = Some u" "new_stream u = Some (err, paths, arr, v)"
    "reschedule_final err paths arr type v = Some t" by (auto simp: uv__fsevents_reschedule_def bind_eq_Some_conv)
  have k: "cf_kept ?s u" by (rule wpD [OF destroy_stream_kept u(1)])
  have n: "fsevent_stream u = None"
    using u(1) by (auto simp: uv__fsevents_destroy_stream_def bind_eq_Some_conv split: option.splits)
  from new_stream_result [OF u(2) n] k assms(3) have v: "cf_kept u v"
    "err \<noteq> 0 \<and> fsevent_stream v = None \<or> fsevent_handles s = [] \<and> fsevent_stream v = None
     \<or> err = 0 \<and> fsevent_handles s \<noteq> [] \<and> (\<exists>ref. fsevent_stream v = Some ref \<and> watched (syscalls v) ref (map (path_of s) (fsevent_handles s)))"
    by (auto simp: cf_kept_def)
  have w: "watched (syscalls t) ref ps" if "watched (syscalls v) ref ps" "set (syscalls v) \<subseteq> set (syscalls t)" for ref ps
    using that unfolding watched_def by (blast intro: list_all2_mono)
  from final_result [OF u(3)] k v w show ?thesis
    by (auto simp: cf_kept_def split: option.splits intro: exI [of _ 1])
qed

lemma reschedule_watches_all_witness:
  "\<exists>t. uv__fsevents_reschedule kUVCFLoopSignalClosing ((watching_a (map ret [4096, 21, 22, 23, 0, 1, 0]))\<lparr>fsevent_need_reschedule := True\<rparr>) = Some t
    \<and> fsevent_stream t = Some 23 \<and> watched (syscalls t) 23 [''/a''] \<and> posted (syscalls t) = 1"
proof -
  let ?s = "(watching_a (map ret [4096, 21, 22, 23, 0, 1, 0]))\<lparr>fsevent_need_reschedule := True\<rparr>"
  have "\<exists>t. uv__fsevents_reschedule kUVCFLoopSignalClosing ?s = Some t \<and> fsevent_stream t = Some 23"
    by (simp add: uv__fsevents_reschedule_def uv__fsevents_destroy_stream_def new_stream_def uv__fsevents_create_stream_def cf_call_def
      reschedule_final_def uv_sem_post_def rwlock_def ret_def Let_def)
  then obtain t where t: "uv__fsevents_reschedule kUVCFLoopSignalClosing ?s = Some t" "fsevent_stream t = Some 23" by blast
  have "posted (syscalls ?s) = 0" by (simp add: watching_a_def adloop.defs cfloop.defs resolving_def fs_loop_defs)
  with reschedule_watches_all [OF t(1)] t show ?thesis by auto
qed


section \<open>Errors of the remaining functions\<close>

text \<open>The frameworks are loaded as a whole or not at all.\<close>

lemma find_symbols_keep:
  "find_symbols l fs s = Some (ok, t) \<Longrightarrow> core_foundation_handle t = core_foundation_handle s \<and> core_services_handle t = core_services_handle s"
  by (induction fs arbitrary: s) (auto simp: syscall_def bind_eq_Some_conv split: list.splits if_splits)

lemma cf_call_keeps_libs:
  "cf_call name args s = Some t \<Longrightarrow> core_foundation_handle t = core_foundation_handle s \<and> core_services_handle t = core_services_handle s"
  by (auto simp: cf_call_def syscall_def split: list.splits)

lemma find_all_keeps:
  "find_all s = Some (ok, t) \<Longrightarrow> core_foundation_handle t = core_foundation_handle s \<and> core_services_handle t = core_services_handle s"
  by (auto simp: find_all_def bind_eq_Some_conv split: if_splits dest!: find_symbols_keep)

lemma load_frameworks_result:
  assumes "load_frameworks s = Some (0, t)"
  shows "core_foundation_handle t \<noteq> 0 \<and> core_services_handle t \<noteq> 0"
proof -
  have e: "(\<exists>a. (a \<longrightarrow> P) \<and> a) \<longleftrightarrow> P" for P by blast
  from assms obtain r :: reply and u r' v where u: "r_ret r \<noteq> 0" "r_ret r' \<noteq> 0"
    "syscall (SysPath ''dlopen'' [cs_lib] []) (u\<lparr>core_foundation_handle := r_ret r\<rparr>) = Some (r', v)"
    "find_all (v\<lparr>core_services_handle := r_ret r'\<rparr>) = Some (True, t)"
    by (simp add: load_frameworks_def bind_eq_Some_conv Let_def e split: if_splits) blast
  have "core_foundation_handle v = r_ret r" using u(3) by (auto simp: syscall_def split: list.splits)
  with find_all_keeps [OF u(4)] u(1,2) show ?thesis by simp
qed

lemma global_init_all_or_nothing:
  assumes "uv__fsevents_global_init s = Some (err, t)" "core_foundation_handle s = 0" "core_services_handle s = 0"
  shows "(core_foundation_handle t \<noteq> 0 \<and> core_services_handle t \<noteq> 0) = (err = 0) \<and> (err \<noteq> 0 \<longrightarrow> core_foundation_handle t = 0 \<and> core_services_handle t = 0)"
proof -
  from assms obtain u v where u: "load_frameworks s = Some (err, u)"
    and v: "(if err \<noteq> 0 \<and> core_services_handle u \<noteq> 0
        then do { s \<leftarrow> cf_call ''dlclose'' [core_services_handle u] u; Some (s\<lparr>core_services_handle := 0\<rparr>) } else Some u) = Some v"
    and t: "(if err \<noteq> 0 \<and> core_foundation_handle v \<noteq> 0
        then do { s \<leftarrow> cf_call ''dlclose'' [core_foundation_handle v] v; Some (s\<lparr>core_foundation_handle := 0\<rparr>) } else Some v) = Some t"
    by (auto simp: uv__fsevents_global_init_def bind_eq_Some_conv)
  show ?thesis
  proof (cases "err = 0")
    case True
    with u v t load_frameworks_result [of s u] show ?thesis by simp
  next
    case False
    with v have "core_services_handle v = 0" by (auto simp: bind_eq_Some_conv split: if_splits)
    with False t show ?thesis by (auto simp: bind_eq_Some_conv split: if_splits dest!: cf_call_keeps_libs)
  qed
qed

text \<open>After a failure with \<open>k\<close> objects initialised, these are destroyed, the last one first.\<close>

lemma loop_init_undo_calls:
  assumes "loop_init_undo k s = Some t" "k \<le> 4"
  shows "map fst (syscalls t) = map fst (syscalls s) @ drop (4 - k)
    [Sys ''pthread_mutex_destroy'' [], Sys ''sem_destroy'' [fsevent_sem], Sys ''sem_destroy'' [cf_sem], Sys ''pthread_mutex_destroy'' []]"
proof -
  have r: "map fst (syscalls v) = map fst (syscalls u) @ [c]" if "rwlock c u = Some v" for c and u v :: "'a cfloop_scheme"
    using that by (auto simp: rwlock_def syscall_def split: list.splits)
  from assms(2) consider "k = 0" | "k = 1" | "k = 2" | "k = 3" | "k = 4" by linarith
  then show ?thesis using assms(1)
    by cases (auto simp: loop_init_undo_def uv_mutex_destroy_def uv_sem_destroy_def bind_eq_Some_conv dest!: r)
qed

text \<open>When its signal cannot be sent, \<open>uv__fsevents_close\<close> returns a positive number, the handle is out of the list
  and counted out of it, but still has its async handle: closing it again removes and counts it out once more.\<close>

lemma failed_close:
  assumes "replies s = r # rs" "r_ret r = - 1" "cf_cb (cfh s h) = Some cb"
  shows "\<exists>t. uv__fsevents_close call h s = Some (ENOMEM, t) \<and> cf_cb (cfh t h) = Some cb
    \<and> fsevent_handles t = remove1 h (fsevent_handles s) \<and> fsevent_handle_count t = fsevent_handle_count s - 1"
  using assms by (simp add: uv__fsevents_close_def uv__cf_loop_signal_def)

end
