(* ===== verification/Linux_Syscalls.thy ===== *)
theory Linux_Syscalls
  imports Fd_Ops
begin

text \<open>
  \<open>src/unix/linux-syscalls.cpp\<close>: the calls that an old C library may not have, made by number.  The numbers are
  those the file defines where the system headers have none.  A call is recorded under the name
  \<open>syscall\<close> with its number first; a pointer is passed by an address of its own, and a path as a text.
\<close>

datatype arch = X86_64 | I386

definition NR :: "arch \<Rightarrow> string \<Rightarrow> int option" where
  "NR a name = map_option (\<lambda>(x, i). case a of X86_64 \<Rightarrow> x | I386 \<Rightarrow> i) (map_of
     [(''eventfd'', 284, 323), (''eventfd2'', 290, 328), (''epoll_create'', 213, 254), (''epoll_create1'', 291, 329),
      (''epoll_ctl'', 233, 255), (''epoll_wait'', 232, 256), (''epoll_pwait'', 281, 319), (''inotify_init'', 253, 291),
      (''inotify_init1'', 294, 332), (''inotify_add_watch'', 254, 292), (''inotify_rm_watch'', 255, 293), (''pipe2'', 293, 331),
      (''recvmmsg'', 299, 337), (''sendmmsg'', 307, 345), (''utimensat'', 280, 320), (''preadv'', 295, 333),
      (''pwritev'', 296, 334), (''dup3'', 292, 330)] name)"

abbreviation (input) NR_socketcall :: int where "NR_socketcall \<equiv> 102"
abbreviation (input) NR_accept4 :: int where "NR_accept4 \<equiv> 288"
abbreviation (input) sock_flags :: int where "sock_flags \<equiv> 0x80800"

definition numbered :: "arch \<Rightarrow> string \<Rightarrow> int list \<Rightarrow> 'a kern_scheme \<Rightarrow> (int \<times> 'a kern_scheme) option" where
  "numbered a name args s = do { n \<leftarrow> NR a name; (r, s) \<leftarrow> syscall (Sys ''syscall'' (n # args)) s; Some (r_ret r, s) }"

definition numbered_path :: "arch \<Rightarrow> string \<Rightarrow> string \<Rightarrow> int list \<Rightarrow> 'a kern_scheme \<Rightarrow> (int \<times> 'a kern_scheme) option" where
  "numbered_path a name path args s = do { n \<leftarrow> NR a name; (r, s) \<leftarrow> syscall (SysPath ''syscall'' [path] (n # args)) s; Some (r_ret r, s) }"

text \<open>On i386 the call goes through \<open>socketcall\<close>, which answers \<open>EINVAL\<close> when it does not know the call.  Flags are
  numbers of bits, so that there is none but the two when the remainder is 0.\<close>

definition uv__accept4 :: "arch \<Rightarrow> int \<Rightarrow> int \<Rightarrow> int \<Rightarrow> int \<Rightarrow> 'a kern_scheme \<Rightarrow> (int \<times> 'a kern_scheme) option" where
  "uv__accept4 a fd addr addrlen flags s =
     (case a of
        I386 \<Rightarrow> do {
          (r, s) \<leftarrow> syscall (Sys ''syscall'' [NR_socketcall, 18, fd, addr, addrlen, flags]) s;
          let s = (if r_ret r = - 1 \<and> errno s = EINVAL \<and> flags AND NOT sock_flags = 0 then s\<lparr>errno := ENOSYS\<rparr> else s);
          Some (r_ret r, s)
        }
      | X86_64 \<Rightarrow> do {
          (r, s) \<leftarrow> syscall (Sys ''syscall'' [NR_accept4, fd, addr, addrlen, flags]) s;
          Some (r_ret r, s)
        })"

definition uv__eventfd :: "arch \<Rightarrow> u32 \<Rightarrow> 'a kern_scheme \<Rightarrow> (int \<times> 'a kern_scheme) option" where
  "uv__eventfd a count s = numbered a ''eventfd'' [uint count] s"

definition uv__eventfd2 :: "arch \<Rightarrow> u32 \<Rightarrow> int \<Rightarrow> 'a kern_scheme \<Rightarrow> (int \<times> 'a kern_scheme) option" where
  "uv__eventfd2 a count flags s = numbered a ''eventfd2'' [uint count, flags] s"

definition uv__epoll_create :: "arch \<Rightarrow> int \<Rightarrow> 'a kern_scheme \<Rightarrow> (int \<times> 'a kern_scheme) option" where
  "uv__epoll_create a sz s = numbered a ''epoll_create'' [sz] s"

definition uv__epoll_create1 :: "arch \<Rightarrow> int \<Rightarrow> 'a kern_scheme \<Rightarrow> (int \<times> 'a kern_scheme) option" where
  "uv__epoll_create1 a flags s = numbered a ''epoll_create1'' [flags] s"

definition uv__epoll_ctl :: "arch \<Rightarrow> int \<Rightarrow> int \<Rightarrow> int \<Rightarrow> int \<Rightarrow> 'a kern_scheme \<Rightarrow> (int \<times> 'a kern_scheme) option" where
  "uv__epoll_ctl a epfd op fd events s = numbered a ''epoll_ctl'' [epfd, op, fd, events] s"

definition uv__epoll_wait :: "arch \<Rightarrow> int \<Rightarrow> int \<Rightarrow> int \<Rightarrow> int \<Rightarrow> 'a kern_scheme \<Rightarrow> (int \<times> 'a kern_scheme) option" where
  "uv__epoll_wait a epfd events nevents timeout s = numbered a ''epoll_wait'' [epfd, events, nevents, timeout] s"

text \<open>The mask is passed by a pointer, with its size.\<close>

definition uv__epoll_pwait :: "arch \<Rightarrow> int \<Rightarrow> int \<Rightarrow> int \<Rightarrow> int \<Rightarrow> u64 \<Rightarrow> 'a kern_scheme \<Rightarrow> (int \<times> 'a kern_scheme) option" where
  "uv__epoll_pwait a epfd events nevents timeout sigmask s =
     numbered a ''epoll_pwait'' [epfd, events, nevents, timeout, uint sigmask, 8] s"

definition uv__inotify_init :: "arch \<Rightarrow> 'a kern_scheme \<Rightarrow> (int \<times> 'a kern_scheme) option" where
  "uv__inotify_init a s = numbered a ''inotify_init'' [] s"

definition uv__inotify_init1 :: "arch \<Rightarrow> int \<Rightarrow> 'a kern_scheme \<Rightarrow> (int \<times> 'a kern_scheme) option" where
  "uv__inotify_init1 a flags s = numbered a ''inotify_init1'' [flags] s"

definition uv__inotify_add_watch :: "arch \<Rightarrow> int \<Rightarrow> string \<Rightarrow> u32 \<Rightarrow> 'a kern_scheme \<Rightarrow> (int \<times> 'a kern_scheme) option" where
  "uv__inotify_add_watch a fd path msk s = numbered_path a ''inotify_add_watch'' path [fd, uint msk] s"

definition uv__inotify_rm_watch :: "arch \<Rightarrow> int \<Rightarrow> int \<Rightarrow> 'a kern_scheme \<Rightarrow> (int \<times> 'a kern_scheme) option" where
  "uv__inotify_rm_watch a fd wd s = numbered a ''inotify_rm_watch'' [fd, wd] s"

definition uv__pipe2 :: "arch \<Rightarrow> int \<Rightarrow> int \<Rightarrow> 'a kern_scheme \<Rightarrow> (int \<times> 'a kern_scheme) option" where
  "uv__pipe2 a pipefd flags s = numbered a ''pipe2'' [pipefd, flags] s"

definition uv__sendmmsg :: "arch \<Rightarrow> int \<Rightarrow> int \<Rightarrow> u32 \<Rightarrow> u32 \<Rightarrow> 'a kern_scheme \<Rightarrow> (int \<times> 'a kern_scheme) option" where
  "uv__sendmmsg a fd mmsg vlen flags s = numbered a ''sendmmsg'' [fd, mmsg, uint vlen, uint flags] s"

definition uv__recvmmsg :: "arch \<Rightarrow> int \<Rightarrow> int \<Rightarrow> u32 \<Rightarrow> u32 \<Rightarrow> int \<Rightarrow> 'a kern_scheme \<Rightarrow> (int \<times> 'a kern_scheme) option" where
  "uv__recvmmsg a fd mmsg vlen flags timeout s = numbered a ''recvmmsg'' [fd, mmsg, uint vlen, uint flags, timeout] s"

definition uv__utimesat :: "arch \<Rightarrow> int \<Rightarrow> string \<Rightarrow> int \<Rightarrow> int \<Rightarrow> 'a kern_scheme \<Rightarrow> (int \<times> 'a kern_scheme) option" where
  "uv__utimesat a dirfd path ts flags s = numbered_path a ''utimensat'' path [dirfd, ts, flags] s"

text \<open>\<open>(long) offset\<close> and \<open>(long) (offset >> 32)\<close>: a \<open>long\<close> has 64 or 32 bits, and the shift keeps the sign.\<close>

fun offset_words :: "arch \<Rightarrow> u64 \<Rightarrow> int \<times> int" where
  "offset_words X86_64 offset = (sint offset, sint (signed_drop_bit 32 offset))"
| "offset_words I386 offset = (sint (ucast offset :: u32), sint (ucast (signed_drop_bit 32 offset) :: u32))"

definition uv__preadv :: "arch \<Rightarrow> int \<Rightarrow> int \<Rightarrow> int \<Rightarrow> u64 \<Rightarrow> 'a kern_scheme \<Rightarrow> (int \<times> 'a kern_scheme) option" where
  "uv__preadv a fd iov iovcnt offset s =
     numbered a ''preadv'' [fd, iov, iovcnt, fst (offset_words a offset), snd (offset_words a offset)] s"

definition uv__pwritev :: "arch \<Rightarrow> int \<Rightarrow> int \<Rightarrow> int \<Rightarrow> u64 \<Rightarrow> 'a kern_scheme \<Rightarrow> (int \<times> 'a kern_scheme) option" where
  "uv__pwritev a fd iov iovcnt offset s =
     numbered a ''pwritev'' [fd, iov, iovcnt, fst (offset_words a offset), snd (offset_words a offset)] s"

definition uv__dup3 :: "arch \<Rightarrow> int \<Rightarrow> int \<Rightarrow> int \<Rightarrow> 'a kern_scheme \<Rightarrow> (int \<times> 'a kern_scheme) option" where
  "uv__dup3 a oldfd newfd flags s = numbered a ''dup3'' [oldfd, newfd, flags] s"

section \<open>What the kernel makes of it\<close>

text \<open>The kernel takes the low and the high half of the offset from two words of the width of a \<open>long\<close>, and
  with 64 bits only the low word counts.\<close>

definition kernel_offset :: "arch \<Rightarrow> int \<times> int \<Rightarrow> u64" where
  "kernel_offset a lh = (case a of X86_64 \<Rightarrow> word_of_int (fst lh)
     | I386 \<Rightarrow> word_cat (word_of_int (snd lh) :: u32) (word_of_int (fst lh) :: u32))"

lemma offset_reaches_kernel: "kernel_offset a (offset_words a offset) = offset"
proof (cases a)
  case I386
  have "word_cat (ucast (signed_drop_bit 32 offset) :: u32) (ucast offset :: u32) = offset"
    by (rule bit_word_eqI) (auto simp: bit_word_cat_iff bit_ucast_iff bit_signed_drop_bit_iff)
  then show ?thesis using I386 by (simp add: kernel_offset_def)
qed (simp add: kernel_offset_def)

text \<open>The caller sees \<open>ENOSYS\<close> where \<open>accept4\<close> is missing, on both architectures, and \<open>EINVAL\<close> only for flags that are
  not allowed: what it needs to fall back on \<open>accept\<close>.\<close>

lemma accept4_missing:
  assumes "replies s = r # rs" "r_ret r = - 1"
  shows "\<exists>t. uv__accept4 a fd addr addrlen flags s = Some (- 1, t)
    \<and> errno t = (if a = I386 \<and> r_errno r = EINVAL \<and> flags AND NOT sock_flags = 0 then ENOSYS else r_errno r)"
  using assms by (cases a) (simp_all add: uv__accept4_def)

text \<open>Every call that the file makes by number has a number.\<close>

lemma NR_defined:
  "name \<in> {''eventfd'', ''eventfd2'', ''epoll_create'', ''epoll_create1'', ''epoll_ctl'', ''epoll_wait'', ''epoll_pwait'', ''inotify_init'',
     ''inotify_init1'', ''inotify_add_watch'', ''inotify_rm_watch'', ''pipe2'', ''recvmmsg'', ''sendmmsg'', ''utimensat'', ''preadv'',
     ''pwritev'', ''dup3''} \<Longrightarrow> NR a name \<noteq> None"
  by (auto simp: NR_def)

end
