(* ===== verification/Common_Api.thy ===== *)
theory Common_Api
  imports Inotify
begin

text \<open>
  The rest of \<open>src/uv-common.cpp\<close>: the allocator that a program may replace, the sizes of the
  structures, buffers, and the path of a file system event handle.  A function of an allocator is any
  function on the memory and \<open>errno\<close>; a null function pointer is \<open>None\<close>.
\<close>

section \<open>The allocator\<close>

record memory =
  mem_errno :: int
  mem_blocks :: "addr \<Rightarrow> nat option"

record 'm allocator_t =
  local_malloc :: "nat \<Rightarrow> 'm \<Rightarrow> ptr \<times> 'm"
  local_realloc :: "ptr \<Rightarrow> nat \<Rightarrow> 'm \<Rightarrow> ptr \<times> 'm"
  local_calloc :: "nat \<Rightarrow> nat \<Rightarrow> 'm \<Rightarrow> ptr \<times> 'm"
  local_free :: "ptr \<Rightarrow> 'm \<Rightarrow> 'm"

definition uv__malloc :: "'m allocator_t \<Rightarrow> nat \<Rightarrow> 'm \<Rightarrow> ptr \<times> 'm" where
  "uv__malloc a sz m = local_malloc a sz m"

definition uv__calloc :: "'m allocator_t \<Rightarrow> nat \<Rightarrow> nat \<Rightarrow> 'm \<Rightarrow> ptr \<times> 'm" where
  "uv__calloc a count sz m = local_calloc a count sz m"

definition uv__realloc :: "'m allocator_t \<Rightarrow> ptr \<Rightarrow> nat \<Rightarrow> 'm \<Rightarrow> ptr \<times> 'm" where
  "uv__realloc a p sz m = local_realloc a p sz m"

definition uv__free :: "'a memory_scheme allocator_t \<Rightarrow> ptr \<Rightarrow> 'a memory_scheme \<Rightarrow> 'a memory_scheme" where
  "uv__free a p m =
     (let saved_errno = mem_errno m;
          m = local_free a p m
      in m\<lparr>mem_errno := saved_errno\<rparr>)"

definition uv_replace_allocator ::
    "(nat \<Rightarrow> 'm \<Rightarrow> ptr \<times> 'm) option \<Rightarrow> (ptr \<Rightarrow> nat \<Rightarrow> 'm \<Rightarrow> ptr \<times> 'm) option \<Rightarrow> (nat \<Rightarrow> nat \<Rightarrow> 'm \<Rightarrow> ptr \<times> 'm) option
     \<Rightarrow> (ptr \<Rightarrow> 'm \<Rightarrow> 'm) option \<Rightarrow> 'm allocator_t \<Rightarrow> int \<times> 'm allocator_t" where
  "uv_replace_allocator malloc_func realloc_func calloc_func free_func a =
     (case (malloc_func, realloc_func, calloc_func, free_func) of
        (Some m, Some r, Some c, Some f) \<Rightarrow> (0, a\<lparr>local_malloc := m, local_realloc := r, local_calloc := c, local_free := f\<rparr>)
      | _ \<Rightarrow> (- EINVAL, a))"

text \<open>All four functions are replaced, or the old allocator stays whole: a block is never freed by one allocator
  that another one made in between.\<close>

lemma replace_all_or_nothing:
  assumes "uv_replace_allocator m r c f a = (err, b)"
  shows "(err = 0 \<longrightarrow> m = Some (local_malloc b) \<and> r = Some (local_realloc b)
      \<and> c = Some (local_calloc b) \<and> f = Some (local_free b)) \<and> (err \<noteq> 0 \<longrightarrow> err = - EINVAL \<and> b = a)"
  using assms by (auto simp: uv_replace_allocator_def split: option.splits)

lemma free_keeps_errno: "mem_errno (uv__free a p m) = mem_errno m" "mem_blocks (uv__free a p m) = mem_blocks (local_free a p m)"
  by (simp_all add: uv__free_def Let_def)

section \<open>Sizes and buffers\<close>

text \<open>The sizes are those of the platform.\<close>

definition uv_handle_size :: "(uv_handle_type \<Rightarrow> u64) \<Rightarrow> uv_handle_type \<Rightarrow> u64" where
  "uv_handle_size sizeof type = (if type \<in> {UV_UNKNOWN_HANDLE, UV_FILE} then - 1 else sizeof type)"

definition uv_req_size :: "(uv_req_type \<Rightarrow> u64) \<Rightarrow> uv_req_type \<Rightarrow> u64" where
  "uv_req_size sizeof type = (if type = UV_UNKNOWN_REQ then - 1 else sizeof type)"

definition uv_loop_size :: "u64 \<Rightarrow> u64" where
  "uv_loop_size sizeof_loop = sizeof_loop"

record uv_buf_t =
  buf_base :: ptr
  buf_len :: u64

definition uv_buf_init :: "ptr \<Rightarrow> u32 \<Rightarrow> uv_buf_t" where
  "uv_buf_init base len = \<lparr>buf_base = base, buf_len = ucast len\<rparr>"

lemma buf_init_len: "uint (buf_len (uv_buf_init base len)) = uint len"
  by (simp add: uv_buf_init_def uint_up_ucast is_up)

section \<open>The path of a file system event handle\<close>

text \<open>The result, the text stored in the buffer if any, and the size.\<close>

definition uv_fs_event_getpath :: "addr \<Rightarrow> nat \<Rightarrow> 'a inloop_scheme \<Rightarrow> (int \<times> string option \<times> nat) option" where
  "uv_fs_event_getpath h sz s =
     (if \<not> uv__is_active h s then Some (UV_EINVAL, None, 0)
      else do {
        path \<leftarrow> fe_path (fs_events s h);
        let required_len = length path;
        Some (if required_len \<ge> sz then (UV_ENOBUFS, None, required_len + 1) else (0, Some path, required_len))
      })"

text \<open>A caller that tries again with the size it was told gets the path; the size told includes the end of the text,
  the size of the result does not.\<close>

lemma getpath_retry:
  assumes "uv__is_active h s" "fe_path (fs_events s h) = Some path"
  shows "\<exists>r. uv_fs_event_getpath h sz s = Some r \<and> (fst r = 0 \<longrightarrow> snd r = (Some path, length path) \<and> length path < sz)
    \<and> (fst r \<noteq> 0 \<longrightarrow> fst r = UV_ENOBUFS \<and> uv_fs_event_getpath h (snd (snd r)) s = Some (0, Some path, length path))"
  using assms by (simp add: uv_fs_event_getpath_def Let_def)

end
