(* ===== verification/Socks5.thy ===== *)
theory Socks5
  imports Prelude
begin

text \<open>
  The parser of the sample proxy, \<open>samples/socks5-proxy/s5.c\<close>: a state machine fed with whatever
  bytes have arrived.  It stops at the end of the input or with something for its caller to do, and
  goes on in the same state.  The arrays have 257 bytes; a store outside of one has no result.
\<close>

unbundle bit_operations_syntax

section \<open>State\<close>

datatype s5_state =
    s5_version | s5_nmethods | s5_methods | s5_auth_pw_version | s5_auth_pw_userlen | s5_auth_pw_username
  | s5_auth_pw_passlen | s5_auth_pw_password | s5_req_version | s5_req_cmd | s5_req_reserved | s5_req_atyp
  | s5_req_atyp_host | s5_req_daddr | s5_req_dport0 | s5_req_dport1 | s5_dead

datatype s5_err = s5_bad_version | s5_bad_cmd | s5_bad_atyp | s5_ok | s5_auth_select | s5_auth_verify | s5_exec_cmd

datatype s5_atyp = s5_atyp_ipv4 | s5_atyp_ipv6 | s5_atyp_host

datatype s5_cmd = s5_cmd_tcp_connect | s5_cmd_tcp_bind | s5_cmd_udp_assoc

abbreviation (input) S5_AUTH_NONE :: u8 where "S5_AUTH_NONE \<equiv> 1"
abbreviation (input) S5_AUTH_GSSAPI :: u8 where "S5_AUTH_GSSAPI \<equiv> 2"
abbreviation (input) S5_AUTH_PASSWD :: u8 where "S5_AUTH_PASSWD \<equiv> 4"

record s5_ctx =
  s5_arg0 :: u32
  s5_arg1 :: u32
  s5_st :: s5_state
  s5_meths :: u8
  s5_command :: s5_cmd
  s5_atype :: s5_atyp
  s5_userlen :: u8
  s5_passlen :: u8
  s5_dport :: "16 word"
  s5_username :: "u8 list"
  s5_password :: "u8 list"
  s5_daddr :: "u8 list"

text \<open>\<open>memset\<close> to 0: the command and the address type with the number 0 are the first ones.\<close>

definition s5_init :: s5_ctx where
  "s5_init = \<lparr>s5_arg0 = 0, s5_arg1 = 0, s5_st = s5_version, s5_meths = 0, s5_command = s5_cmd_tcp_connect, s5_atype = s5_atyp_ipv4,
     s5_userlen = 0, s5_passlen = 0, s5_dport = 0, s5_username = replicate 257 0, s5_password = replicate 257 0,
     s5_daddr = replicate 257 0\<rparr>"

definition store_at :: "u8 list \<Rightarrow> nat \<Rightarrow> u8 \<Rightarrow> u8 list option" where
  "store_at xs i c = (if i < length xs then Some (xs[i := c]) else None)"

section \<open>One byte\<close>

text \<open>A state that collects bytes: one is stored if any is missing, and the last one ends the text and moves on.\<close>

definition collect :: "u8 \<Rightarrow> u32 \<Rightarrow> u8 list \<Rightarrow> u32 \<Rightarrow> (bool \<times> u8 list \<times> u32) option" where
  "collect c len xs arg0 =
     Option.bind (if arg0 < len then map_option (\<lambda>xs. (xs, arg0 + 1)) (store_at xs (unat arg0) c) else Some (xs, arg0))
       (\<lambda>(xs, arg0). if arg0 = len then map_option (\<lambda>xs. (True, xs, arg0)) (store_at xs (unat len) 0) else Some (False, xs, arg0))"

definition method_bit :: "u8 \<Rightarrow> u8" where
  "method_bit c = (if c = 0 then S5_AUTH_NONE else if c = 1 then S5_AUTH_GSSAPI else if c = 2 then S5_AUTH_PASSWD else 0)"

text \<open>What the \<open>switch\<close> does with one byte: the code with which the loop is left, or \<open>s5_ok\<close> to go on.\<close>

definition s5_byte :: "u8 \<Rightarrow> s5_ctx \<Rightarrow> (s5_err \<times> s5_ctx) option" where
  "s5_byte c cx =
     (case s5_st cx of
        s5_version \<Rightarrow> Some (if c \<noteq> 5 then (s5_bad_version, cx) else (s5_ok, cx\<lparr>s5_st := s5_nmethods\<rparr>))
      | s5_nmethods \<Rightarrow> Some (s5_ok, cx\<lparr>s5_arg0 := 0, s5_arg1 := ucast c, s5_st := s5_methods\<rparr>)
      | s5_methods \<Rightarrow>
          (let cx = (if s5_arg0 cx < s5_arg1 cx
                     then cx\<lparr>s5_meths := s5_meths cx OR method_bit c, s5_arg0 := s5_arg0 cx + 1\<rparr> else cx)
           in Some (if s5_arg0 cx = s5_arg1 cx then s5_auth_select else s5_ok, cx))
      | s5_auth_pw_version \<Rightarrow> Some (if c \<noteq> 1 then (s5_bad_version, cx) else (s5_ok, cx\<lparr>s5_st := s5_auth_pw_userlen\<rparr>))
      | s5_auth_pw_userlen \<Rightarrow> Some (s5_ok, cx\<lparr>s5_arg0 := 0, s5_userlen := c, s5_st := s5_auth_pw_username\<rparr>)
      | s5_auth_pw_username \<Rightarrow>
          map_option (\<lambda>(full, xs, a). (s5_ok, cx\<lparr>s5_username := xs, s5_arg0 := a, s5_st := if full then s5_auth_pw_passlen else s5_auth_pw_username\<rparr>))
            (collect c (ucast (s5_userlen cx)) (s5_username cx) (s5_arg0 cx))
      | s5_auth_pw_passlen \<Rightarrow> Some (s5_ok, cx\<lparr>s5_arg0 := 0, s5_passlen := c, s5_st := s5_auth_pw_password\<rparr>)
      | s5_auth_pw_password \<Rightarrow>
          map_option (\<lambda>(full, xs, a). (if full then s5_auth_verify else s5_ok,
              cx\<lparr>s5_password := xs, s5_arg0 := a, s5_st := if full then s5_req_version else s5_auth_pw_password\<rparr>))
            (collect c (ucast (s5_passlen cx)) (s5_password cx) (s5_arg0 cx))
      | s5_req_version \<Rightarrow> Some (if c \<noteq> 5 then (s5_bad_version, cx) else (s5_ok, cx\<lparr>s5_st := s5_req_cmd\<rparr>))
      | s5_req_cmd \<Rightarrow> Some
          (if c = 1 then (s5_ok, cx\<lparr>s5_command := s5_cmd_tcp_connect, s5_st := s5_req_reserved\<rparr>)
           else if c = 3 then (s5_ok, cx\<lparr>s5_command := s5_cmd_udp_assoc, s5_st := s5_req_reserved\<rparr>)
           else (s5_bad_cmd, cx))
      | s5_req_reserved \<Rightarrow> Some (s5_ok, cx\<lparr>s5_st := s5_req_atyp\<rparr>)
      | s5_req_atyp \<Rightarrow>
          (let cx = cx\<lparr>s5_arg0 := 0\<rparr>
           in Some
             (if c = 1 then (s5_ok, cx\<lparr>s5_st := s5_req_daddr, s5_atype := s5_atyp_ipv4, s5_arg1 := 4\<rparr>)
              else if c = 3 then (s5_ok, cx\<lparr>s5_st := s5_req_atyp_host, s5_atype := s5_atyp_host, s5_arg1 := 0\<rparr>)
              else if c = 4 then (s5_ok, cx\<lparr>s5_st := s5_req_daddr, s5_atype := s5_atyp_ipv6, s5_arg1 := 16\<rparr>)
              else (s5_bad_atyp, cx)))
      | s5_req_atyp_host \<Rightarrow> Some (s5_ok, cx\<lparr>s5_arg1 := ucast c, s5_st := s5_req_daddr\<rparr>)
      | s5_req_daddr \<Rightarrow>
          map_option (\<lambda>(full, xs, a). (s5_ok, cx\<lparr>s5_daddr := xs, s5_arg0 := a, s5_st := if full then s5_req_dport0 else s5_req_daddr\<rparr>))
            (collect c (s5_arg1 cx) (s5_daddr cx) (s5_arg0 cx))
      | s5_req_dport0 \<Rightarrow> Some (s5_ok, cx\<lparr>s5_dport := push_bit 8 (ucast c), s5_st := s5_req_dport1\<rparr>)
      | s5_req_dport1 \<Rightarrow> Some (s5_exec_cmd, cx\<lparr>s5_dport := s5_dport cx OR ucast c, s5_st := s5_dead\<rparr>)
      | s5_dead \<Rightarrow> Some (s5_ok, cx))"

section \<open>The loop\<close>

fun s5_parse :: "u8 list \<Rightarrow> s5_ctx \<Rightarrow> (s5_err \<times> u8 list \<times> s5_ctx) option" where
  "s5_parse [] cx = Some (s5_ok, [], cx)"
| "s5_parse (c # cs) cx =
     (case s5_byte c cx of
        None \<Rightarrow> None
      | Some (err, cx) \<Rightarrow> if err \<noteq> s5_ok then Some (err, cs, cx) else s5_parse cs cx)"

definition s5_auth_methods :: "s5_ctx \<Rightarrow> u8" where
  "s5_auth_methods cx = s5_meths cx"

definition s5_select_auth :: "u8 \<Rightarrow> s5_ctx \<Rightarrow> int \<times> s5_ctx" where
  "s5_select_auth meth cx =
     (if meth = S5_AUTH_NONE then (0, cx\<lparr>s5_st := s5_req_version\<rparr>)
      else if meth = S5_AUTH_PASSWD then (0, cx\<lparr>s5_st := s5_auth_pw_version\<rparr>)
      else (- 22, cx))"

fun s5_strerror :: "s5_err \<Rightarrow> string" where
  "s5_strerror s5_bad_version = ''Bad protocol version.''"
| "s5_strerror s5_bad_cmd = ''Bad protocol command.''"
| "s5_strerror s5_bad_atyp = ''Bad address type.''"
| "s5_strerror s5_ok = ''No error.''"
| "s5_strerror s5_auth_select = ''Select authentication method.''"
| "s5_strerror s5_auth_verify = ''Verify authentication.''"
| "s5_strerror s5_exec_cmd = ''Execute command.''"


section \<open>Input in pieces\<close>

lemma parse_ok_all: "s5_parse cs cx = Some (s5_ok, rest, cx') \<Longrightarrow> rest = []"
  by (induction cs arbitrary: cx) (auto split: option.splits if_splits)

lemma parse_append:
  "s5_parse (cs @ ds) cx =
     (case s5_parse cs cx of
        None \<Rightarrow> None
      | Some (err, rest, cx') \<Rightarrow> if err = s5_ok then s5_parse ds cx' else Some (err, rest @ ds, cx'))"
  by (induction cs arbitrary: cx) (auto split: option.splits if_splits)

text \<open>The calls of a program that hands over what has arrived until it has something to do.\<close>

fun s5_feed :: "u8 list list \<Rightarrow> s5_ctx \<Rightarrow> (s5_err \<times> u8 list \<times> s5_ctx) option" where
  "s5_feed [] cx = Some (s5_ok, [], cx)"
| "s5_feed (d # ds) cx =
     (case s5_parse d cx of
        None \<Rightarrow> None
      | Some (err, rest, cx) \<Rightarrow> if err = s5_ok then s5_feed ds cx else Some (err, rest @ concat ds, cx))"

text \<open>it makes no difference in which pieces the input arrives: the same result, after the same bytes, in the same state.\<close>
theorem s5_pieces: "s5_feed ds cx = s5_parse (concat ds) cx"
  by (induction ds arbitrary: cx) (auto simp: parse_append split: option.splits)

section \<open>The arrays\<close>

definition s5_inv :: "s5_ctx \<Rightarrow> bool" where
  "s5_inv cx \<longleftrightarrow> length (s5_username cx) = 257 \<and> length (s5_password cx) = 257 \<and> length (s5_daddr cx) = 257
     \<and> (s5_st cx = s5_auth_pw_username \<longrightarrow> s5_arg0 cx \<le> ucast (s5_userlen cx))
     \<and> (s5_st cx = s5_auth_pw_password \<longrightarrow> s5_arg0 cx \<le> ucast (s5_passlen cx))
     \<and> (s5_st cx = s5_req_atyp_host \<longrightarrow> s5_arg0 cx = 0)
     \<and> (s5_st cx = s5_req_daddr \<longrightarrow> s5_arg0 cx \<le> s5_arg1 cx \<and> s5_arg1 cx \<le> 255)"

lemma byte_u32: "unat (ucast (c :: u8) :: u32) = unat c" "(ucast (c :: u8) :: u32) \<le> 255"
proof -
  show u: "unat (ucast (c :: u8) :: u32) = unat c" by (simp add: unsigned_ucast_eq take_bit_nat_eq_self_iff) (use unsigned_less [of c, where ?'a = nat] in simp)
  show "(ucast (c :: u8) :: u32) \<le> 255" using unsigned_less [of c, where ?'a = nat] by (simp add: word_le_nat_alt u)
qed

lemma collect_within:
  assumes "length xs = 257" "a \<le> len" "len \<le> 255"
  shows "\<exists>full xs' a'. collect c len xs a = Some (full, xs', a') \<and> length xs' = 257 \<and> a' \<le> len \<and> full = (a' = len)"
proof -
  have "a < len \<Longrightarrow> a + 1 \<le> len" by (simp add: inc_le)
  moreover have "unat len < 257" "unat a < 257" using assms(2,3) by (simp_all add: word_le_nat_alt)
  ultimately show ?thesis using assms by (auto simp: collect_def store_at_def)
qed

lemma s5_inv_parse:
  assumes "s5_inv cx"
  shows "\<exists>err rest cx'. s5_parse cs cx = Some (err, rest, cx') \<and> s5_inv cx' \<and> s5_inv (snd (s5_select_auth meth cx'))"
proof -
  have byte: "\<exists>err cx'. s5_byte c cx = Some (err, cx') \<and> s5_inv cx'" if "s5_inv cx" for c cx
  proof (cases "s5_st cx")
    case s5_auth_pw_username
    then obtain full xs a where "collect c (ucast (s5_userlen cx)) (s5_username cx) (s5_arg0 cx) = Some (full, xs, a)"
      "length xs = 257" "a \<le> ucast (s5_userlen cx)"
      using collect_within [of "s5_username cx" "s5_arg0 cx" "ucast (s5_userlen cx)" c] \<open>s5_inv cx\<close> byte_u32 by (auto simp: s5_inv_def)
    then show ?thesis using s5_auth_pw_username \<open>s5_inv cx\<close> by (auto simp: s5_byte_def s5_inv_def)
  next
    case s5_auth_pw_password
    then obtain full xs a where "collect c (ucast (s5_passlen cx)) (s5_password cx) (s5_arg0 cx) = Some (full, xs, a)"
      "length xs = 257" "a \<le> ucast (s5_passlen cx)"
      using collect_within [of "s5_password cx" "s5_arg0 cx" "ucast (s5_passlen cx)" c] \<open>s5_inv cx\<close> byte_u32 by (auto simp: s5_inv_def)
    then show ?thesis using s5_auth_pw_password \<open>s5_inv cx\<close> by (auto simp: s5_byte_def s5_inv_def)
  next
    case s5_req_daddr
    then obtain full xs a where "collect c (s5_arg1 cx) (s5_daddr cx) (s5_arg0 cx) = Some (full, xs, a)"
      "length xs = 257" "a \<le> s5_arg1 cx"
      using collect_within [of "s5_daddr cx" "s5_arg0 cx" "s5_arg1 cx" c] \<open>s5_inv cx\<close> by (auto simp: s5_inv_def)
    then show ?thesis using s5_req_daddr \<open>s5_inv cx\<close> by (auto simp: s5_byte_def s5_inv_def)
  qed (use that in \<open>auto simp: s5_byte_def s5_inv_def byte_u32 Let_def\<close>)
  have sel: "s5_inv (snd (s5_select_auth meth cx))" if "s5_inv cx" for cx
    using that by (auto simp: s5_select_auth_def s5_inv_def)
  show ?thesis using assms
  proof (induction cs arbitrary: cx)
    case (Cons c cs)
    from byte [OF Cons.prems, of c] obtain err cx' where "s5_byte c cx = Some (err, cx')" "s5_inv cx'" by blast
    with Cons.IH [of cx'] sel show ?case by auto
  qed (use sel in auto)
qed

text \<open>no input, in whatever pieces, and no answer of the caller makes the parser write outside of its arrays.\<close>
theorem s5_never_overruns:
  assumes "s5_inv cx"
  shows "\<exists>err rest cx'. s5_parse cs cx = Some (err, rest, cx') \<and> s5_inv cx' \<and> s5_inv (snd (s5_select_auth meth cx'))"
  using s5_inv_parse [OF assms] .

lemma s5_never_overruns_witness:
  "\<exists>err rest cx. s5_parse [5, 1, 0] s5_init = Some (err, rest, cx) \<and> s5_inv cx \<and> s5_inv (snd (s5_select_auth S5_AUTH_NONE cx))"
  by (rule s5_never_overruns) (simp add: s5_inv_def s5_init_def)


section \<open>Messages\<close>

text \<open>The bytes \<open>bs\<close> of a field of \<open>n\<close> bytes, and the 0 after them.\<close>

definition field_of :: "u8 list \<Rightarrow> u8 list \<Rightarrow> bool" where
  "field_of bs xs \<longleftrightarrow> take (length bs + 1) xs = bs @ [0]"

lemma collect_more:
  assumes "k < n" "n \<le> 255" "length xs = 257"
  shows "collect c (of_nat n) xs (of_nat k) =
    Some (Suc k = n, if Suc k = n then xs[k := c, n := 0] else xs[k := c], of_nat (Suc k))"
proof -
  have u: "unat (of_nat j :: u32) = j" if "j \<le> 255" for j using that by (simp add: unsigned_of_nat take_bit_nat_eq_self)
  have l: "(of_nat k :: u32) < of_nat n" using assms by (simp add: word_less_nat_alt u)
  have e: "(of_nat (Suc k) :: u32) = of_nat n \<longleftrightarrow> Suc k = n"
    using u [of "Suc k"] u [of n] assms(1,2) by (metis Suc_leI order_trans)
  show ?thesis using assms l e by (simp add: collect_def store_at_def u del: of_nat_Suc) (simp add: add.commute)
qed

lemma two_updates:
  assumes "Suc k < length xs"
  shows "xs[k := a, Suc k := b] = take k xs @ [a, b] @ drop (k + 2) xs"
proof -
  have "xs[k := a] = take k xs @ a # drop (Suc k) xs" using assms by (simp add: upd_conv_take_nth_drop)
  moreover have "drop (Suc k) xs = xs ! Suc k # drop (k + 2) xs" using assms by (simp add: Cons_nth_drop_Suc)
  ultimately show ?thesis using assms by (simp add: list_update_append)
qed

text \<open>The bytes that are still missing fill the address, which ends with a 0.\<close>

lemma daddr_filled:
  assumes "s5_st cx = s5_req_daddr" "s5_arg1 cx = of_nat n" "n \<le> 255" "s5_arg0 cx = of_nat k" "k + length bs = n" "bs \<noteq> []"
    and "length (s5_daddr cx) = 257"
  shows "s5_parse (bs @ ds) cx = s5_parse ds (cx\<lparr>s5_daddr := take k (s5_daddr cx) @ bs @ 0 # drop (n + 1) (s5_daddr cx), s5_arg0 := of_nat n,
    s5_st := s5_req_dport0\<rparr>)"
  using assms
proof (induction bs arbitrary: cx k)
  case (Cons b bs)
  have c: "collect b (of_nat n) (s5_daddr cx) (of_nat k) =
      Some (Suc k = n, if Suc k = n then (s5_daddr cx)[k := b, n := 0] else (s5_daddr cx)[k := b], of_nat (Suc k))"
    using Cons.prems by (intro collect_more) auto
  show ?case
  proof (cases "bs = []")
    case True
    then have n: "n = Suc k" using Cons.prems by simp
    have "(s5_daddr cx)[k := b, n := 0] = take k (s5_daddr cx) @ [b, 0] @ drop (n + 1) (s5_daddr cx)"
      using two_updates [of k "s5_daddr cx" b 0] Cons.prems n by simp
    then show ?thesis using True n Cons.prems c by (simp add: s5_byte_def)
  next
    case False
    let ?cx = "cx\<lparr>s5_daddr := (s5_daddr cx)[k := b], s5_arg0 := of_nat (Suc k), s5_st := s5_req_daddr\<rparr>"
    have n: "Suc k \<noteq> n" using Cons.prems False by auto
    have "s5_parse (bs @ ds) ?cx = s5_parse ds (?cx\<lparr>s5_daddr := take (Suc k) (s5_daddr ?cx) @ bs @ 0 # drop (n + 1) (s5_daddr ?cx),
        s5_arg0 := of_nat n, s5_st := s5_req_dport0\<rparr>)"
      using Cons.prems False by (intro Cons.IH) auto
    moreover have "take (Suc k) ((s5_daddr cx)[k := b]) = take k (s5_daddr cx) @ [b]"
      using Cons.prems by (simp add: take_Suc_conv_app_nth)
    moreover have "drop (n + 1) ((s5_daddr cx)[k := b]) = drop (n + 1) (s5_daddr cx)" using Cons.prems by simp
    ultimately show ?thesis using Cons.prems(1,2,4) c n by (simp add: s5_byte_def)
  qed
qed simp

text \<open>A request as RFC 1928 has it: version, command, a reserved byte, the type of the address, the address and the port.\<close>

definition request_addr :: "s5_atyp \<Rightarrow> u8 list \<Rightarrow> u8 list" where
  "request_addr t a = (case t of s5_atyp_ipv4 \<Rightarrow> 1 # a | s5_atyp_ipv6 \<Rightarrow> 4 # a | s5_atyp_host \<Rightarrow> 3 # of_nat (length a) # a)"

definition addr_fits :: "s5_atyp \<Rightarrow> u8 list \<Rightarrow> bool" where
  "addr_fits t a = (case t of s5_atyp_ipv4 \<Rightarrow> length a = 4 | s5_atyp_ipv6 \<Rightarrow> length a = 16 | s5_atyp_host \<Rightarrow> a \<noteq> [] \<and> length a \<le> 255)"

definition request :: "s5_cmd \<Rightarrow> s5_atyp \<Rightarrow> u8 list \<Rightarrow> 16 word \<Rightarrow> u8 list" where
  "request cmd t a port = [5, if cmd = s5_cmd_tcp_connect then 1 else 3, 0] @ request_addr t a @ [ucast (drop_bit 8 port), ucast port]"

lemma port_bytes: "push_bit 8 (ucast (ucast (drop_bit 8 p) :: u8)) OR ucast (ucast p :: u8) = (p :: 16 word)"
  by (rule bit_word_eqI) (auto simp: bit_simps)

text \<open>C38: a request is read back, however it arrives: the parser stops right after it with \<open>s5_exec_cmd\<close> and
  has its command, address and port.\<close>
theorem s5_request_roundtrip:
  assumes "s5_inv cx" "s5_st cx = s5_req_version" "cmd \<noteq> s5_cmd_tcp_bind" "addr_fits t a" "concat ds = request cmd t a port @ rest"
  shows "\<exists>cx'. s5_feed ds cx = Some (s5_exec_cmd, rest, cx') \<and> s5_command cx' = cmd \<and> s5_atype cx' = t \<and> field_of a (s5_daddr cx')
    \<and> s5_dport cx' = port \<and> s5_st cx' = s5_dead"
proof -
  let ?tail = "[ucast (drop_bit 8 port), ucast port] @ rest"
  let ?at = "cx\<lparr>s5_command := cmd, s5_atype := t, s5_arg0 := 0, s5_arg1 := of_nat (length a), s5_st := s5_req_daddr\<rparr>"
  have len: "a \<noteq> []" "length a \<le> 255" using assms(4) by (auto simp: addr_fits_def split: s5_atyp.splits)
  have w: "(ucast (of_nat (length a) :: u8) :: u32) = of_nat (length a)"
    using len(2) by (intro word_unat_eq_iff [THEN iffD2]) (simp add: byte_u32 unsigned_of_nat take_bit_nat_eq_self)
  have "s5_feed ds cx = s5_parse (request cmd t a port @ rest) cx" by (simp add: s5_pieces assms(5))
  also have "\<dots> = s5_parse (request_addr t a @ ?tail) (cx\<lparr>s5_command := cmd, s5_st := s5_req_atyp\<rparr>)"
    using assms(2,3) by (cases cmd) (simp_all add: request_def s5_byte_def)
  also have "\<dots> = s5_parse (a @ ?tail) ?at"
    using assms(4) w by (cases cx; cases t) (simp_all add: request_addr_def s5_byte_def addr_fits_def Let_def)
  also have "\<dots> = s5_parse ?tail (?at\<lparr>s5_daddr := take 0 (s5_daddr ?at) @ a @ 0 # drop (length a + 1) (s5_daddr ?at),
      s5_arg0 := of_nat (length a), s5_st := s5_req_dport0\<rparr>)"
    using len assms(1) by (intro daddr_filled) (auto simp: s5_inv_def)
  finally show ?thesis by (simp add: s5_byte_def field_of_def port_bytes)
qed

text \<open>The name \<open>a\<close>, with the port 80, in three pieces.\<close>

lemma s5_request_roundtrip_witness:
  "\<exists>cx. s5_feed [[5, 1], [0, 3, 1, 97, 0], [80, 7]] (s5_init\<lparr>s5_st := s5_req_version\<rparr>) = Some (s5_exec_cmd, [7], cx)
    \<and> field_of [97] (s5_daddr cx) \<and> s5_dport cx = 80"
proof -
  have "s5_inv (s5_init\<lparr>s5_st := s5_req_version\<rparr>)" by (simp add: s5_inv_def s5_init_def)
  from s5_request_roundtrip [OF this _ _ _, of s5_cmd_tcp_connect s5_atyp_host "[97]" "[[5, 1], [0, 3, 1, 97, 0], [80, 7]]" 80 "[7]"]
  show ?thesis by (auto simp: addr_fits_def request_def request_addr_def)
qed

text \<open>A length of 0 is not treated as an empty field: the byte that follows is swallowed.\<close>

lemma empty_field_swallows:
  "s5_byte c (s5_init\<lparr>s5_st := s5_req_daddr\<rparr>) = Some (s5_ok, s5_init\<lparr>s5_st := s5_req_dport0\<rparr>)"
  by (simp add: s5_byte_def collect_def store_at_def s5_init_def list_update_same_conv)

end
