(* ===== verification/Socks_Client.thy ===== *)
theory Socks_Client
  imports Socks5 Common
begin

text \<open>
  The sessions of the sample proxy, \<open>samples/socks5-proxy/client.c\<close>, and the functions of \<open>server.c\<close> that
  they ask.  A session has two connections, each with a state machine for reading and one for
  writing.  What the library still has to call back is part of the state, so that its callbacks are the
  steps of a relation.  \<open>CHECK\<close> and, when the assertions are compiled in, \<open>ASSERT\<close> end the program
  when they fail, as does a use of the session after it was freed: no result.
\<close>

section \<open>State\<close>

datatype conn_state = c_busy | c_done | c_stop | c_dead

datatype sess_state =
    s_handshake | s_handshake_auth | s_req_start | s_req_parse | s_req_lookup | s_req_connect | s_proxy_start | s_proxy
  | s_kill | s_almost_dead_0 | s_almost_dead_1 | s_almost_dead_2 | s_almost_dead_3 | s_almost_dead_4 | s_dead

text \<open>The code compares the states as the numbers that an enumeration gives them.\<close>

primrec sess_number :: "sess_state \<Rightarrow> nat" where
  "sess_number s_handshake = 0"
| "sess_number s_handshake_auth = 1"
| "sess_number s_req_start = 2"
| "sess_number s_req_parse = 3"
| "sess_number s_req_lookup = 4"
| "sess_number s_req_connect = 5"
| "sess_number s_proxy_start = 6"
| "sess_number s_proxy = 7"
| "sess_number s_kill = 8"
| "sess_number s_almost_dead_0 = 9"
| "sess_number s_almost_dead_1 = 10"
| "sess_number s_almost_dead_2 = 11"
| "sess_number s_almost_dead_3 = 12"
| "sess_number s_almost_dead_4 = 13"
| "sess_number s_dead = 14"

lemma sess_number_inject: "sess_number a = sess_number b \<Longrightarrow> a = b"
  by (cases a; cases b) simp_all

instantiation sess_state :: linorder
begin

definition less_eq_sess_state :: "sess_state \<Rightarrow> sess_state \<Rightarrow> bool" where
  "less_eq_sess_state a b \<longleftrightarrow> sess_number a \<le> sess_number b"

definition less_sess_state :: "sess_state \<Rightarrow> sess_state \<Rightarrow> bool" where
  "less_sess_state a b \<longleftrightarrow> sess_number a < sess_number b"

instance
  by standard (auto simp: less_eq_sess_state_def less_sess_state_def intro: sess_number_inject)

end

datatype who = Incoming | Outgoing

text \<open>The memory that a connection's buffer, address and requests share: what was written to it last.\<close>

datatype shared = T_none | T_buf "u8 list" | T_addr sockaddr | T_request

record conn =
  rdstate :: conn_state
  wrstate :: conn_state
  idle_timeout :: u32
  c_result :: int
  c_t :: shared

text \<open>The session, and below it what is outstanding: reads, writes, timers, the lookup, the connection attempt and the close
  callbacks of the two handles of each connection.  \<open>connect_ret\<close> and \<open>sockname\<close> are the results of
  \<open>uv_tcp_connect\<close> and \<open>uv_tcp_getsockname\<close>.\<close>

record client_ctx =
  cx_state :: sess_state
  cx_parser :: s5_ctx
  cx_conn :: "who \<Rightarrow> conn"
  cx_freed :: bool
  ndebug :: bool
  reading :: "who \<Rightarrow> bool"
  writing :: "who \<Rightarrow> bool"
  timing :: "who \<Rightarrow> bool"
  looking :: bool
  connecting :: bool
  close_tcp :: "who \<Rightarrow> bool"
  close_timer :: "who \<Rightarrow> bool"
  sent_to :: "(who \<times> u8 list) list"
  connect_ret :: int
  sockname :: sockaddr

abbreviation (input) AF_INET :: int where "AF_INET \<equiv> 2"
abbreviation (input) AF_INET6 :: int where "AF_INET6 \<equiv> 10"
abbreviation (input) UV_ETIMEDOUT :: int where "UV_ETIMEDOUT \<equiv> - 110"
abbreviation (input) UV_ECANCELED :: int where "UV_ECANCELED \<equiv> - 125"

definition upd_conn :: "who \<Rightarrow> (conn \<Rightarrow> conn) \<Rightarrow> client_ctx \<Rightarrow> client_ctx" where
  "upd_conn w f s = s\<lparr>cx_conn := (cx_conn s)(w := f (cx_conn s w))\<rparr>"

definition assertion :: "bool \<Rightarrow> client_ctx \<Rightarrow> unit option" where
  "assertion b s = require (b \<or> ndebug s)"

text \<open>The bytes that \<open>t.buf\<close> was filled with.\<close>

definition buffer :: "conn \<Rightarrow> u8 list option" where
  "buffer c = (case c_t c of T_buf d \<Rightarrow> Some d | _ \<Rightarrow> None)"

definition addr_of :: "conn \<Rightarrow> sockaddr option" where
  "addr_of c = (case c_t c of T_addr a \<Rightarrow> Some a | _ \<Rightarrow> None)"

section \<open>What the server allows\<close>

definition can_auth_none :: "client_ctx \<Rightarrow> bool" where
  "can_auth_none s = True"

definition can_auth_passwd :: "client_ctx \<Rightarrow> bool" where
  "can_auth_passwd s = False"

definition ntohl :: "u8 list \<Rightarrow> u32" where
  "ntohl bs = fold (\<lambda>b n. push_bit 8 n OR ucast b) (take 4 bs) 0"

definition can_access :: "sockaddr \<Rightarrow> bool" where
  "can_access ad =
     (if sa_family ad = AF_INET then drop_bit 24 (ntohl (sa_addr ad)) \<noteq> 0x7F
      else if sa_family ad = AF_INET6 then
        (let p = sa_addr ad; a = ntohl p; b = ntohl (drop 4 p); c = ntohl (drop 8 p); d = ntohl (drop 12 p)
         in if a = 0 \<and> b = 0 \<and> c = 0 \<and> d = 1 then False
            else if a = 0 \<and> b = 0 \<and> c = 0xFFFF \<and> drop_bit 24 d = 0x7F then False
            else True)
      else False)"

section \<open>The operations on a connection\<close>

definition conn_timer_reset :: "who \<Rightarrow> client_ctx \<Rightarrow> client_ctx" where
  "conn_timer_reset w s = s\<lparr>timing := (timing s)(w := True)\<rparr>"

text \<open>\<open>uv_read_start\<close> and \<open>uv_write\<close> refuse a handle that is being closed.\<close>

definition conn_read :: "who \<Rightarrow> client_ctx \<Rightarrow> client_ctx option" where
  "conn_read w s = do {
     assertion (rdstate (cx_conn s w) = c_stop) s;
     require (rdstate (cx_conn s w) \<noteq> c_dead);
     let s = s\<lparr>reading := (reading s)(w := True)\<rparr>;
     let s = upd_conn w (\<lambda>c. c\<lparr>rdstate := c_busy\<rparr>) s;
     Some (conn_timer_reset w s)
   }"

definition conn_write :: "who \<Rightarrow> u8 list \<Rightarrow> client_ctx \<Rightarrow> client_ctx option" where
  "conn_write w data s = do {
     assertion (wrstate (cx_conn s w) = c_stop \<or> wrstate (cx_conn s w) = c_done) s;
     require (wrstate (cx_conn s w) \<noteq> c_dead);
     let s = upd_conn w (\<lambda>c. c\<lparr>wrstate := c_busy\<rparr>) s;
     let s = s\<lparr>writing := (writing s)(w := True), sent_to := sent_to s @ [(w, data)]\<rparr>;
     Some (conn_timer_reset w s)
   }"

definition conn_getaddrinfo :: "who \<Rightarrow> client_ctx \<Rightarrow> client_ctx" where
  "conn_getaddrinfo w s = conn_timer_reset w ((upd_conn w (\<lambda>c. c\<lparr>c_t := T_request\<rparr>) s)\<lparr>looking := True\<rparr>)"

definition conn_connect :: "who \<Rightarrow> client_ctx \<Rightarrow> (int \<times> client_ctx) option" where
  "conn_connect w s = do {
     ad \<leftarrow> addr_of (cx_conn s w);
     assertion (sa_family ad = AF_INET \<or> sa_family ad = AF_INET6) s;
     let s = conn_timer_reset w s;
     Some (connect_ret s, if connect_ret s = 0 then (upd_conn w (\<lambda>c. c\<lparr>c_t := T_request\<rparr>) s)\<lparr>connecting := True\<rparr> else s)
   }"

text \<open>\<open>uv_close\<close> stops reading and the timer; a write or a connection attempt is called back as cancelled.\<close>

definition conn_close :: "who \<Rightarrow> client_ctx \<Rightarrow> client_ctx option" where
  "conn_close w s = do {
     assertion (rdstate (cx_conn s w) \<noteq> c_dead) s;
     assertion (wrstate (cx_conn s w) \<noteq> c_dead) s;
     let s = upd_conn w (\<lambda>c. c\<lparr>rdstate := c_dead, wrstate := c_dead\<rparr>) s;
     Some (s\<lparr>reading := (reading s)(w := False), timing := (timing s)(w := False),
             close_tcp := (close_tcp s)(w := True), close_timer := (close_timer s)(w := True)\<rparr>)
   }"

definition conn_cycle :: "who \<Rightarrow> who \<Rightarrow> client_ctx \<Rightarrow> (int \<times> client_ctx) option" where
  "conn_cycle a b s =
     (if c_result (cx_conn s a) < 0 then Some (- 1, s)
      else if c_result (cx_conn s b) < 0 then Some (- 1, s)
      else do {
        let s = (if wrstate (cx_conn s a) = c_done then upd_conn a (\<lambda>c. c\<lparr>wrstate := c_stop\<rparr>) s else s);
        s \<leftarrow> (if wrstate (cx_conn s a) = c_stop then
               (if rdstate (cx_conn s b) = c_stop then conn_read b s
                else if rdstate (cx_conn s b) = c_done then do {
                  data \<leftarrow> buffer (cx_conn s b);
                  s \<leftarrow> conn_write a (take (nat (c_result (cx_conn s b))) data) s;
                  Some (upd_conn b (\<lambda>c. c\<lparr>rdstate := c_stop\<rparr>) s)
                } else Some s)
             else Some s);
        Some (0, s)
      })"


section \<open>The steps of a session\<close>

definition after_death :: "sess_state \<Rightarrow> bool" where
  "after_death st \<longleftrightarrow> s_almost_dead_0 \<le> st"

lemma after_death_iff:
  "after_death st \<longleftrightarrow> st \<in> {s_almost_dead_0, s_almost_dead_1, s_almost_dead_2, s_almost_dead_3, s_almost_dead_4, s_dead}"
  by (cases st) (simp_all add: after_death_def less_eq_sess_state_def)

text \<open>\<open>uv_cancel\<close> may fail, and the callback comes in either case.\<close>

definition do_kill :: "client_ctx \<Rightarrow> (sess_state \<times> client_ctx) option" where
  "do_kill s =
     (if after_death (cx_state s) then Some (cx_state s, s)
      else do {
        let new_state = (if cx_state s = s_req_lookup then s_almost_dead_0 else s_almost_dead_1);
        s \<leftarrow> conn_close Incoming s;
        s \<leftarrow> conn_close Outgoing s;
        Some (new_state, s)
      })"

fun next_finalizer :: "sess_state \<Rightarrow> sess_state" where
  "next_finalizer s_almost_dead_0 = s_almost_dead_1"
| "next_finalizer s_almost_dead_1 = s_almost_dead_2"
| "next_finalizer s_almost_dead_2 = s_almost_dead_3"
| "next_finalizer s_almost_dead_3 = s_almost_dead_4"
| "next_finalizer s_almost_dead_4 = s_dead"
| "next_finalizer st = st"

definition do_almost_dead :: "client_ctx \<Rightarrow> (sess_state \<times> client_ctx) option" where
  "do_almost_dead s = do { assertion (after_death (cx_state s)) s; Some (next_finalizer (cx_state s), s) }"

definition do_handshake :: "client_ctx \<Rightarrow> (sess_state \<times> client_ctx) option" where
  "do_handshake s = do {
     assertion (rdstate (cx_conn s Incoming) = c_done) s;
     assertion (wrstate (cx_conn s Incoming) = c_stop) s;
     let s = upd_conn Incoming (\<lambda>c. c\<lparr>rdstate := c_stop\<rparr>) s;
     if c_result (cx_conn s Incoming) < 0 then do_kill s
     else do {
       data \<leftarrow> buffer (cx_conn s Incoming);
       (err, rest, parser) \<leftarrow> s5_parse data (cx_parser s);
       let s = s\<lparr>cx_parser := parser\<rparr>;
       if err = s5_ok then do { s \<leftarrow> conn_read Incoming s; Some (s_handshake, s) }
       else if rest \<noteq> [] then do_kill s
       else if err \<noteq> s5_auth_select then do_kill s
       else if s5_auth_methods (cx_parser s) AND S5_AUTH_NONE \<noteq> 0 \<and> can_auth_none s then do {
         s \<leftarrow> conn_write Incoming [5, 0] (s\<lparr>cx_parser := snd (s5_select_auth S5_AUTH_NONE (cx_parser s))\<rparr>);
         Some (s_req_start, s)
       } else do {
         s \<leftarrow> conn_write Incoming [5, 255] s;
         Some (s_kill, s)
       }
     }
   }"

definition do_handshake_auth :: "client_ctx \<Rightarrow> (sess_state \<times> client_ctx) option" where
  "do_handshake_auth s = None"

definition do_req_start :: "client_ctx \<Rightarrow> (sess_state \<times> client_ctx) option" where
  "do_req_start s = do {
     assertion (rdstate (cx_conn s Incoming) = c_stop) s;
     assertion (wrstate (cx_conn s Incoming) = c_done) s;
     let s = upd_conn Incoming (\<lambda>c. c\<lparr>wrstate := c_stop\<rparr>) s;
     if c_result (cx_conn s Incoming) < 0 then do_kill s
     else do { s \<leftarrow> conn_read Incoming s; Some (s_req_parse, s) }
   }"

definition all_stopped :: "client_ctx \<Rightarrow> unit option" where
  "all_stopped s = do {
     assertion (rdstate (cx_conn s Incoming) = c_stop) s;
     assertion (wrstate (cx_conn s Incoming) = c_stop) s;
     assertion (rdstate (cx_conn s Outgoing) = c_stop) s;
     assertion (wrstate (cx_conn s Outgoing) = c_stop) s
   }"

definition do_req_connect_start :: "client_ctx \<Rightarrow> (sess_state \<times> client_ctx) option" where
  "do_req_connect_start s = do {
     all_stopped s;
     ad \<leftarrow> addr_of (cx_conn s Outgoing);
     if \<not> can_access ad then do {
       s \<leftarrow> conn_write Incoming [5, 2, 0, 1, 0, 0, 0, 0, 0, 0] s;
       Some (s_kill, s)
     } else do {
       (err, s) \<leftarrow> conn_connect Outgoing s;
       if err \<noteq> 0 then do_kill s else Some (s_req_connect, s)
     }
   }"

definition request_target :: "s5_ctx \<Rightarrow> sockaddr" where
  "request_target p =
     (if s5_atype p = s5_atyp_ipv4
      then \<lparr>sa_family = AF_INET, sa_port = htons (uint (s5_dport p)), sa_addr = take 4 (s5_daddr p), sa_scope = 0\<rparr>
      else \<lparr>sa_family = AF_INET6, sa_port = htons (uint (s5_dport p)), sa_addr = take 16 (s5_daddr p), sa_scope = 0\<rparr>)"

definition do_req_parse :: "client_ctx \<Rightarrow> (sess_state \<times> client_ctx) option" where
  "do_req_parse s = do {
     assertion (rdstate (cx_conn s Incoming) = c_done) s;
     assertion (wrstate (cx_conn s Incoming) = c_stop) s;
     assertion (rdstate (cx_conn s Outgoing) = c_stop) s;
     assertion (wrstate (cx_conn s Outgoing) = c_stop) s;
     let s = upd_conn Incoming (\<lambda>c. c\<lparr>rdstate := c_stop\<rparr>) s;
     if c_result (cx_conn s Incoming) < 0 then do_kill s
     else do {
       data \<leftarrow> buffer (cx_conn s Incoming);
       (err, rest, parser) \<leftarrow> s5_parse data (cx_parser s);
       let s = s\<lparr>cx_parser := parser\<rparr>;
       if err = s5_ok then do { s \<leftarrow> conn_read Incoming s; Some (s_req_parse, s) }
       else if rest \<noteq> [] then do_kill s
       else if err \<noteq> s5_exec_cmd then do_kill s
       else if s5_command (cx_parser s) = s5_cmd_tcp_bind then do_kill s
       else if s5_command (cx_parser s) = s5_cmd_udp_assoc then do_kill s
       else if s5_atype (cx_parser s) = s5_atyp_host then Some (s_req_lookup, conn_getaddrinfo Outgoing s)
       else do_req_connect_start (upd_conn Outgoing (\<lambda>c. c\<lparr>c_t := T_addr (request_target (cx_parser s))\<rparr>) s)
     }
   }"

text \<open>Where the shared memory holds no address, its family is unknown: no result.\<close>

definition do_req_lookup :: "client_ctx \<Rightarrow> (sess_state \<times> client_ctx) option" where
  "do_req_lookup s = do {
     all_stopped s;
     if c_result (cx_conn s Outgoing) < 0 then do {
       s \<leftarrow> conn_write Incoming [5, 4, 0, 1, 0, 0, 0, 0, 0, 0] s;
       Some (s_kill, s)
     } else do {
       ad \<leftarrow> addr_of (cx_conn s Outgoing);
       require (sa_family ad = AF_INET \<or> sa_family ad = AF_INET6);
       do_req_connect_start (upd_conn Outgoing (\<lambda>c. c\<lparr>c_t := T_addr (ad\<lparr>sa_port := htons (uint (s5_dport (cx_parser s)))\<rparr>)\<rparr>) s)
     }
   }"

definition connect_reply :: "sockaddr \<Rightarrow> u8 list" where
  "connect_reply ad = [5, 0, 0] @ (if sa_family ad = AF_INET then [1] else [4]) @ sa_addr ad @ sa_port ad"

definition do_req_connect :: "client_ctx \<Rightarrow> (sess_state \<times> client_ctx) option" where
  "do_req_connect s = do {
     all_stopped s;
     if c_result (cx_conn s Outgoing) = 0 then do {
       require (sa_family (sockname s) = AF_INET \<or> sa_family (sockname s) = AF_INET6);
       let buf = connect_reply (sockname s);
       s \<leftarrow> conn_write Incoming buf (upd_conn Incoming (\<lambda>c. c\<lparr>c_t := T_buf buf\<rparr>) s);
       Some (s_proxy_start, s)
     } else do {
       s \<leftarrow> conn_write Incoming [5, 5, 0, 1, 0, 0, 0, 0, 0, 0] s;
       Some (s_kill, s)
     }
   }"

definition do_proxy_start :: "client_ctx \<Rightarrow> (sess_state \<times> client_ctx) option" where
  "do_proxy_start s = do {
     assertion (rdstate (cx_conn s Incoming) = c_stop) s;
     assertion (wrstate (cx_conn s Incoming) = c_done) s;
     assertion (rdstate (cx_conn s Outgoing) = c_stop) s;
     assertion (wrstate (cx_conn s Outgoing) = c_stop) s;
     let s = upd_conn Incoming (\<lambda>c. c\<lparr>wrstate := c_stop\<rparr>) s;
     if c_result (cx_conn s Incoming) < 0 then do_kill s
     else do {
       s \<leftarrow> conn_read Incoming s;
       s \<leftarrow> conn_read Outgoing s;
       Some (s_proxy, s)
     }
   }"

definition do_proxy :: "client_ctx \<Rightarrow> (sess_state \<times> client_ctx) option" where
  "do_proxy s = do {
     (r, s) \<leftarrow> conn_cycle Incoming Outgoing s;
     if r \<noteq> 0 then do_kill s
     else do {
       (r, s) \<leftarrow> conn_cycle Outgoing Incoming s;
       if r \<noteq> 0 then do_kill s else Some (s_proxy, s)
     }
   }"

definition session_step :: "client_ctx \<Rightarrow> (sess_state \<times> client_ctx) option" where
  "session_step s =
     (case cx_state s of
        s_handshake \<Rightarrow> do_handshake s
      | s_handshake_auth \<Rightarrow> do_handshake_auth s
      | s_req_start \<Rightarrow> do_req_start s
      | s_req_parse \<Rightarrow> do_req_parse s
      | s_req_lookup \<Rightarrow> do_req_lookup s
      | s_req_connect \<Rightarrow> do_req_connect s
      | s_proxy_start \<Rightarrow> do_proxy_start s
      | s_proxy \<Rightarrow> do_proxy s
      | s_kill \<Rightarrow> do_kill s
      | s_dead \<Rightarrow> None
      | _ \<Rightarrow> do_almost_dead s)"

text \<open>A session that was freed is not there any more.\<close>

definition do_next :: "client_ctx \<Rightarrow> client_ctx option" where
  "do_next s = do {
     require (\<not> cx_freed s);
     (new_state, s) \<leftarrow> session_step s;
     let s = s\<lparr>cx_state := new_state\<rparr>;
     Some (if new_state = s_dead then s\<lparr>cx_freed := True\<rparr> else s)
   }"

section \<open>Callbacks\<close>

definition conn_timer_expire :: "who \<Rightarrow> client_ctx \<Rightarrow> client_ctx option" where
  "conn_timer_expire w s = do_next (upd_conn w (\<lambda>c. c\<lparr>c_result := UV_ETIMEDOUT\<rparr>) s)"

definition conn_getaddrinfo_done :: "who \<Rightarrow> int \<Rightarrow> sockaddr \<Rightarrow> client_ctx \<Rightarrow> client_ctx option" where
  "conn_getaddrinfo_done w status ai s = do {
     require (\<not> cx_freed s);
     let s = upd_conn w (\<lambda>c. c\<lparr>c_result := status\<rparr>) s;
     s \<leftarrow> (if status = 0 then do {
         require (sa_family ai = AF_INET \<or> sa_family ai = AF_INET6);
         Some (upd_conn w (\<lambda>c. c\<lparr>c_t := T_addr ai\<rparr>) s)
       } else Some s);
     do_next s
   }"

definition conn_connect_done :: "who \<Rightarrow> int \<Rightarrow> client_ctx \<Rightarrow> client_ctx option" where
  "conn_connect_done w status s =
     (if status = UV_ECANCELED then Some s else do_next (upd_conn w (\<lambda>c. c\<lparr>c_result := status\<rparr>) s))"

definition conn_read_done :: "who \<Rightarrow> int \<Rightarrow> client_ctx \<Rightarrow> client_ctx option" where
  "conn_read_done w nread s = do {
     assertion (rdstate (cx_conn s w) = c_busy) s;
     let s = upd_conn w (\<lambda>c. c\<lparr>rdstate := c_done, c_result := nread\<rparr>) s;
     let s = s\<lparr>reading := (reading s)(w := False)\<rparr>;
     do_next s
   }"

definition conn_write_done :: "who \<Rightarrow> int \<Rightarrow> client_ctx \<Rightarrow> client_ctx option" where
  "conn_write_done w status s =
     (if status = UV_ECANCELED then Some s
      else do {
        assertion (wrstate (cx_conn s w) = c_busy) s;
        do_next (upd_conn w (\<lambda>c. c\<lparr>wrstate := c_done, c_result := status\<rparr>) s)
      })"

definition conn_close_done :: "client_ctx \<Rightarrow> client_ctx option" where
  "conn_close_done s = do_next s"

definition new_conn :: "u32 \<Rightarrow> conn" where
  "new_conn t = \<lparr>rdstate = c_stop, wrstate = c_stop, idle_timeout = t, c_result = 0, c_t = T_none\<rparr>"

definition client_finish_init :: "bool \<Rightarrow> u32 \<Rightarrow> int \<Rightarrow> sockaddr \<Rightarrow> client_ctx option" where
  "client_finish_init nd t cret name = conn_read Incoming
     \<lparr>cx_state = s_handshake, cx_parser = s5_init, cx_conn = (\<lambda>_. new_conn t), cx_freed = False, ndebug = nd, reading = (\<lambda>_. False),
      writing = (\<lambda>_. False), timing = (\<lambda>_. False), looking = False, connecting = False, close_tcp = (\<lambda>_. False),
      close_timer = (\<lambda>_. False), sent_to = [], connect_ret = cret, sockname = name\<rparr>"

text \<open>
  What the library may call next, and what the call makes of the session.  A read fills the buffer with what
  arrived.  Requests that are outstanding when their connection is closed are cancelled, before its close callback; a write and
  a connection attempt are cancelled only then.  Two callbacks are kept apart, as steps of their own: the expiry of a timer, and a write that was
  over when its connection was closed, which \<open>uv__stream_destroy\<close> does not cancel.
\<close>

definition closed :: "who \<Rightarrow> client_ctx \<Rightarrow> bool" where
  "closed w s \<longleftrightarrow> rdstate (cx_conn s w) = c_dead"

definition filled :: "who \<Rightarrow> u8 list \<Rightarrow> client_ctx \<Rightarrow> client_ctx" where
  "filled w data s = upd_conn w (\<lambda>c. c\<lparr>c_t := T_buf data\<rparr>) s"

inductive callback :: "client_ctx \<Rightarrow> client_ctx option \<Rightarrow> bool" where
  cb_data: "reading s w \<Longrightarrow> length data \<le> 2048 \<Longrightarrow> callback s (conn_read_done w (int (length data)) (filled w data s))"
| cb_read_error: "reading s w \<Longrightarrow> nread < 0 \<Longrightarrow> callback s (conn_read_done w nread s)"
| cb_write: "writing s w \<Longrightarrow> status \<le> 0 \<Longrightarrow> status = UV_ECANCELED \<longleftrightarrow> closed w s
    \<Longrightarrow> callback s (conn_write_done w status (s\<lparr>writing := (writing s)(w := False)\<rparr>))"
| cb_lookup: "looking s \<Longrightarrow> status \<le> 0 \<Longrightarrow> sa_family ai = AF_INET \<or> sa_family ai = AF_INET6
    \<Longrightarrow> callback s (conn_getaddrinfo_done Outgoing status ai (s\<lparr>looking := False\<rparr>))"
| cb_connect: "connecting s \<Longrightarrow> status \<le> 0 \<Longrightarrow> status = UV_ECANCELED \<longleftrightarrow> closed Outgoing s
    \<Longrightarrow> callback s (conn_connect_done Outgoing status (s\<lparr>connecting := False\<rparr>))"
| cb_close_tcp: "close_tcp s w \<Longrightarrow> \<not> writing s w \<Longrightarrow> \<not> (w = Outgoing \<and> connecting s)
    \<Longrightarrow> callback s (conn_close_done (s\<lparr>close_tcp := (close_tcp s)(w := False)\<rparr>))"
| cb_close_timer: "close_timer s w \<Longrightarrow> callback s (conn_close_done (s\<lparr>close_timer := (close_timer s)(w := False)\<rparr>))"


definition expiry :: "who \<Rightarrow> client_ctx \<Rightarrow> client_ctx option" where
  "expiry w s = conn_timer_expire w (s\<lparr>timing := (timing s)(w := False)\<rparr>)"

definition late_write :: "who \<Rightarrow> client_ctx \<Rightarrow> client_ctx option" where
  "late_write w s = conn_write_done w 0 (s\<lparr>writing := (writing s)(w := False)\<rparr>)"


section \<open>The invariant of a session\<close>

lemma who_all [simp]: "(\<forall>w. P w) \<longleftrightarrow> P Incoming \<and> P Outgoing"
  by (metis (full_types) who.exhaust)

definition live :: "conn_state \<Rightarrow> conn_state \<Rightarrow> conn_state \<Rightarrow> conn_state \<Rightarrow> client_ctx \<Rightarrow> bool" where
  "live ir iw orr ow s \<longleftrightarrow> rdstate (cx_conn s Incoming) = ir \<and> wrstate (cx_conn s Incoming) = iw
     \<and> rdstate (cx_conn s Outgoing) = orr \<and> wrstate (cx_conn s Outgoing) = ow
     \<and> (\<forall>w. reading s w = (rdstate (cx_conn s w) = c_busy)) \<and> (\<forall>w. writing s w = (wrstate (cx_conn s w) = c_busy))
     \<and> (\<forall>w. \<not> close_tcp s w \<and> \<not> close_timer s w) \<and> timing s Incoming"

definition one :: "bool \<Rightarrow> nat" where
  "one b = (if b then 1 else 0)"

lemma one_simps [simp]: "one True = 1" "one False = 0"
  by (simp_all add: one_def)

text \<open>The callbacks that are still to come before the session can be freed.\<close>

definition finalizers :: "client_ctx \<Rightarrow> nat" where
  "finalizers s = one (close_tcp s Incoming) + one (close_tcp s Outgoing) + one (close_timer s Incoming) + one (close_timer s Outgoing)
     + one (looking s)"

text \<open>A session being torn down, \<open>n\<close> callbacks before its end.\<close>

definition dying :: "nat \<Rightarrow> client_ctx \<Rightarrow> bool" where
  "dying n s \<longleftrightarrow> finalizers s = n \<and> (\<forall>w. closed w s \<and> wrstate (cx_conn s w) = c_dead \<and> \<not> reading s w \<and> (writing s w \<longrightarrow> close_tcp s w))
     \<and> (connecting s \<longrightarrow> close_tcp s Outgoing)"

text \<open>One direction of the proxy: data is on its way to \<open>a\<close>, or is waited for from \<open>b\<close>.\<close>

definition direction :: "who \<Rightarrow> who \<Rightarrow> client_ctx \<Rightarrow> bool" where
  "direction a b s \<longleftrightarrow> wrstate (cx_conn s a) = c_busy \<and> rdstate (cx_conn s b) = c_stop
     \<or> wrstate (cx_conn s a) = c_stop \<and> rdstate (cx_conn s b) = c_busy"

text \<open>
  The same, or one callback fewer: so it is after a lookup when the connection attempt has failed at once.
\<close>

definition torn :: "nat \<Rightarrow> client_ctx \<Rightarrow> bool" where
  "torn n s \<longleftrightarrow> dying n s \<or> connect_ret s \<noteq> 0 \<and> dying (n - 1) s"

definition session_ok :: "int \<Rightarrow> client_ctx \<Rightarrow> bool" where
  "session_ok cret s \<longleftrightarrow> s5_inv (cx_parser s) \<and> connect_ret s = cret \<and> (sa_family (sockname s) = AF_INET \<or> sa_family (sockname s) = AF_INET6)
     \<and> cx_freed s = (cx_state s = s_dead)
     \<and> (case cx_state s of
          s_handshake \<Rightarrow> live c_busy c_stop c_stop c_stop s \<and> \<not> looking s \<and> \<not> connecting s \<and> c_result (cx_conn s Outgoing) = 0
        | s_handshake_auth \<Rightarrow> False
        | s_req_start \<Rightarrow> live c_stop c_busy c_stop c_stop s \<and> \<not> looking s \<and> \<not> connecting s \<and> c_result (cx_conn s Outgoing) = 0
        | s_req_parse \<Rightarrow> live c_busy c_stop c_stop c_stop s \<and> \<not> looking s \<and> \<not> connecting s \<and> c_result (cx_conn s Outgoing) = 0
        | s_req_lookup \<Rightarrow> live c_stop c_stop c_stop c_stop s \<and> looking s \<and> \<not> connecting s \<and> c_result (cx_conn s Outgoing) = 0
            \<and> c_t (cx_conn s Outgoing) = T_request
        | s_req_connect \<Rightarrow> live c_stop c_stop c_stop c_stop s \<and> \<not> looking s \<and> connecting s
        | s_proxy_start \<Rightarrow> live c_stop c_busy c_stop c_stop s \<and> \<not> looking s \<and> \<not> connecting s
        | s_proxy \<Rightarrow> (\<exists>ir iw orr ow. live ir iw orr ow s) \<and> \<not> looking s \<and> \<not> connecting s
            \<and> direction Incoming Outgoing s \<and> direction Outgoing Incoming s
        | s_kill \<Rightarrow> live c_stop c_busy c_stop c_stop s \<and> \<not> looking s \<and> \<not> connecting s
        | s_almost_dead_0 \<Rightarrow> torn 5 s
        | s_almost_dead_1 \<Rightarrow> torn 4 s
        | s_almost_dead_2 \<Rightarrow> torn 3 s
        | s_almost_dead_3 \<Rightarrow> torn 2 s
        | s_almost_dead_4 \<Rightarrow> torn 1 s
        | s_dead \<Rightarrow> dying 0 s)"

lemmas conn_defs = conn_read_def conn_write_def conn_timer_reset_def conn_close_def upd_conn_def assertion_def require_def

text \<open>Tearing down a session that is not yet torn down.\<close>

definition killable :: "int \<Rightarrow> client_ctx \<Rightarrow> bool" where
  "killable cret s \<longleftrightarrow> s5_inv (cx_parser s) \<and> connect_ret s = cret \<and> (sa_family (sockname s) = AF_INET \<or> sa_family (sockname s) = AF_INET6)
     \<and> \<not> cx_freed s \<and> \<not> after_death (cx_state s) \<and> cx_state s \<noteq> s_req_lookup \<and> \<not> looking s
     \<and> (\<forall>w. rdstate (cx_conn s w) \<noteq> c_dead \<and> wrstate (cx_conn s w) \<noteq> c_dead \<and> \<not> close_tcp s w \<and> \<not> close_timer s w)"

definition steps_ok :: "int \<Rightarrow> (sess_state \<times> client_ctx) option \<Rightarrow> bool" where
  "steps_ok cret r \<longleftrightarrow> (\<exists>st t. r = Some (st, t) \<and> \<not> cx_freed t \<and> session_ok cret (t\<lparr>cx_state := st, cx_freed := (st = s_dead)\<rparr>))"

lemma kill_ok: "killable cret s \<Longrightarrow> steps_ok cret (do_kill s)"
  by (auto simp: killable_def steps_ok_def do_kill_def conn_defs session_ok_def dying_def torn_def finalizers_def one_def closed_def Let_def)

lemma next_ok:
  assumes "\<not> cx_freed s" "steps_ok cret (session_step s)"
  shows "\<exists>t. do_next s = Some t \<and> session_ok cret t"
proof -
  from assms(2) obtain st t where t: "session_step s = Some (st, t)" "\<not> cx_freed t"
    "session_ok cret (t\<lparr>cx_state := st, cx_freed := (st = s_dead)\<rparr>)" by (auto simp: steps_ok_def)
  have "do_next s = Some (t\<lparr>cx_state := st, cx_freed := (st = s_dead)\<rparr>)"
    using assms(1) t(1,2) by (cases t; cases "st = s_dead") (simp_all add: do_next_def Let_def)
  with t(3) show ?thesis by simp
qed

text \<open>The parser never fails.\<close>

lemma parser_result:
  assumes "s5_inv p"
  obtains err rest q where "s5_parse data p = Some (err, rest, q)" "s5_inv q" "s5_inv (snd (s5_select_auth S5_AUTH_NONE q))"
  using s5_inv_parse [OF assms] by blast

lemma handshake_ok:
  assumes "s5_inv (cx_parser s)" "connect_ret s = cret" "sa_family (sockname s) = AF_INET \<or> sa_family (sockname s) = AF_INET6"
    "\<not> cx_freed s" "cx_state s = s_handshake" "live c_done c_stop c_stop c_stop s" "\<not> looking s" "\<not> connecting s"
    "c_result (cx_conn s Outgoing) = 0" "c_result (cx_conn s Incoming) \<ge> 0 \<longrightarrow> c_t (cx_conn s Incoming) = T_buf data"
  shows "steps_ok cret (do_handshake s)"
proof (cases "c_result (cx_conn s Incoming) < 0")
  case True
  have "killable cret (upd_conn Incoming (\<lambda>c. c\<lparr>rdstate := c_stop\<rparr>) s)"
    using assms by (auto simp: killable_def live_def upd_conn_def after_death_iff)
  with True assms show ?thesis by (simp add: do_handshake_def kill_ok live_def conn_defs)
next
  case False
  obtain err rest q where q: "s5_parse data (cx_parser s) = Some (err, rest, q)" "s5_inv q" "s5_inv (snd (s5_select_auth S5_AUTH_NONE q))"
    by (rule parser_result [OF assms(1)])
  let ?s = "(upd_conn Incoming (\<lambda>c. c\<lparr>rdstate := c_stop\<rparr>) s)\<lparr>cx_parser := q\<rparr>"
  have k: "killable cret ?s" using assms q by (auto simp: killable_def live_def upd_conn_def after_death_iff)
  have b: "buffer (cx_conn s Incoming) = Some data" using assms False by (simp add: buffer_def)
  consider "err = s5_ok" | "err \<noteq> s5_ok" "rest \<noteq> [] \<or> err \<noteq> s5_auth_select"
    | "err = s5_auth_select" "rest = []" by blast
  then show ?thesis
  proof cases
    case 2
    then have "do_handshake s = do_kill ?s" using assms False q b
      by (auto simp: do_handshake_def live_def conn_defs buffer_def Let_def)
    with kill_ok [OF k] show ?thesis by simp
  qed (use assms False q b in \<open>auto simp: do_handshake_def steps_ok_def session_ok_def live_def conn_defs buffer_def Let_def\<close>)
qed


text \<open>What all states have in common.\<close>

definition session_base :: "int \<Rightarrow> client_ctx \<Rightarrow> bool" where
  "session_base cret s \<longleftrightarrow> s5_inv (cx_parser s) \<and> connect_ret s = cret \<and> (sa_family (sockname s) = AF_INET \<or> sa_family (sockname s) = AF_INET6) \<and> \<not> cx_freed s"

lemma req_start_ok:
  assumes "session_base cret s" "cx_state s = s_req_start" "live c_stop c_done c_stop c_stop s" "\<not> looking s" "\<not> connecting s"
    "c_result (cx_conn s Outgoing) = 0"
  shows "steps_ok cret (do_req_start s)"
proof (cases "c_result (cx_conn s Incoming) < 0")
  case True
  have "killable cret (upd_conn Incoming (\<lambda>c. c\<lparr>wrstate := c_stop\<rparr>) s)"
    using assms by (auto simp: killable_def live_def upd_conn_def after_death_iff session_base_def)
  with True assms show ?thesis by (simp add: do_req_start_def kill_ok live_def conn_defs)
qed (use assms in \<open>auto simp: do_req_start_def steps_ok_def session_ok_def session_base_def live_def conn_defs Let_def\<close>)

text \<open>A connection attempt that fails at once tears the session down; after a lookup it then waits for one callback too many.\<close>

lemma connect_start_ok:
  assumes "session_base cret s" "live c_stop c_stop c_stop c_stop s" "\<not> looking s" "\<not> connecting s"
    "addr_of (cx_conn s Outgoing) = Some ad" "sa_family ad = AF_INET \<or> sa_family ad = AF_INET6" "\<not> after_death (cx_state s)"
  shows "steps_ok cret (do_req_connect_start s)"
proof (cases "can_access ad \<and> cret \<noteq> 0")
  case True
  let ?u = "conn_timer_reset Outgoing s"
  have run: "do_req_connect_start s = do_kill ?u"
    using assms True by (auto simp: do_req_connect_start_def all_stopped_def conn_connect_def session_base_def live_def assertion_def
      conn_timer_reset_def upd_conn_def addr_of_def Let_def)
  show ?thesis
  proof (cases "cx_state s = s_req_lookup")
    case False
    have "killable cret ?u" using assms False by (auto simp: killable_def session_base_def live_def conn_timer_reset_def)
    then show ?thesis using kill_ok run by simp
  next
    case lookup: True
    have "steps_ok cret (do_kill ?u)" using assms lookup True
      by (auto simp: steps_ok_def do_kill_def conn_defs session_ok_def dying_def torn_def finalizers_def one_def closed_def session_base_def
        live_def after_death_iff Let_def)
    then show ?thesis using run by simp
  qed
next
  case False
  then show ?thesis using assms
    by (auto simp: do_req_connect_start_def all_stopped_def conn_connect_def addr_of_def steps_ok_def session_ok_def session_base_def live_def
      conn_defs Let_def)
qed

lemma req_parse_ok:
  assumes "session_base cret s" "cx_state s = s_req_parse" "live c_done c_stop c_stop c_stop s" "\<not> looking s" "\<not> connecting s"
    "c_result (cx_conn s Outgoing) = 0" "c_result (cx_conn s Incoming) \<ge> 0 \<longrightarrow> c_t (cx_conn s Incoming) = T_buf data"
  shows "steps_ok cret (do_req_parse s)"
proof (cases "c_result (cx_conn s Incoming) < 0")
  case True
  have "killable cret (upd_conn Incoming (\<lambda>c. c\<lparr>rdstate := c_stop\<rparr>) s)"
    using assms by (auto simp: killable_def live_def upd_conn_def after_death_iff session_base_def)
  with True assms show ?thesis by (simp add: do_req_parse_def kill_ok live_def conn_defs)
next
  case False
  have p: "s5_inv (cx_parser s)" using assms(1) by (simp add: session_base_def)
  obtain err rest q where q: "s5_parse data (cx_parser s) = Some (err, rest, q)" "s5_inv q" by (rule parser_result [OF p])
  let ?s = "(upd_conn Incoming (\<lambda>c. c\<lparr>rdstate := c_stop\<rparr>) s)\<lparr>cx_parser := q\<rparr>"
  have k: "killable cret ?s" using assms q by (auto simp: killable_def live_def upd_conn_def after_death_iff session_base_def)
  have b: "buffer (cx_conn s Incoming) = Some data" using assms False by (simp add: buffer_def)
  consider "err = s5_ok" | "err \<noteq> s5_ok" "rest \<noteq> [] \<or> err \<noteq> s5_exec_cmd \<or> s5_command q \<noteq> s5_cmd_tcp_connect"
    | "err = s5_exec_cmd" "rest = []" "s5_command q = s5_cmd_tcp_connect" "s5_atype q = s5_atyp_host"
    | "err = s5_exec_cmd" "rest = []" "s5_command q = s5_cmd_tcp_connect" "s5_atype q \<noteq> s5_atyp_host" by blast
  then show ?thesis
  proof cases
    case 2
    then have "do_req_parse s = do_kill ?s" using assms False q b
      by (cases "s5_command q") (auto simp: do_req_parse_def live_def conn_defs buffer_def Let_def)
    with kill_ok [OF k] show ?thesis by simp
  next
    case 4
    let ?u = "upd_conn Outgoing (\<lambda>c. c\<lparr>c_t := T_addr (request_target q)\<rparr>) ?s"
    have "do_req_parse s = do_req_connect_start ?u" using 4 assms False q b
      by (auto simp: do_req_parse_def live_def conn_defs buffer_def Let_def)
    moreover have "steps_ok cret (do_req_connect_start ?u)"
      using assms q by (intro connect_start_ok [where ad = "request_target q"])
        (auto simp: session_base_def live_def upd_conn_def addr_of_def request_target_def after_death_iff)
    ultimately show ?thesis by simp
  qed (use assms False q b in \<open>auto simp: do_req_parse_def conn_getaddrinfo_def steps_ok_def session_ok_def session_base_def live_def
      conn_defs buffer_def Let_def\<close>)
qed

lemma req_lookup_ok:
  assumes "session_base cret s" "cx_state s = s_req_lookup" "live c_stop c_stop c_stop c_stop s" "\<not> looking s" "\<not> connecting s"
    "c_result (cx_conn s Outgoing) \<ge> 0 \<longrightarrow> c_t (cx_conn s Outgoing) = T_addr ad \<and> (sa_family ad = AF_INET \<or> sa_family ad = AF_INET6)"
  shows "steps_ok cret (do_req_lookup s)"
proof (cases "c_result (cx_conn s Outgoing) < 0")
  case True
  with assms show ?thesis
    by (auto simp: do_req_lookup_def all_stopped_def steps_ok_def session_ok_def session_base_def live_def conn_defs Let_def)
next
  case False
  let ?ad = "ad\<lparr>sa_port := htons (uint (s5_dport (cx_parser s)))\<rparr>"
  let ?u = "upd_conn Outgoing (\<lambda>c. c\<lparr>c_t := T_addr ?ad\<rparr>) s"
  have "do_req_lookup s = do_req_connect_start ?u"
    using assms False by (auto simp: do_req_lookup_def all_stopped_def live_def conn_defs addr_of_def)
  moreover have "steps_ok cret (do_req_connect_start ?u)"
    using assms False by (intro connect_start_ok [where ad = ?ad]) (auto simp: session_base_def live_def upd_conn_def addr_of_def after_death_iff)
  ultimately show ?thesis by simp
qed

lemma req_connect_ok:
  assumes "session_base cret s" "live c_stop c_stop c_stop c_stop s" "\<not> looking s" "\<not> connecting s"
  shows "steps_ok cret (do_req_connect s)"
  using assms
  by (auto simp: do_req_connect_def all_stopped_def steps_ok_def session_ok_def session_base_def live_def conn_defs Let_def)

lemma proxy_start_ok:
  assumes "session_base cret s" "cx_state s = s_proxy_start" "live c_stop c_done c_stop c_stop s" "\<not> looking s" "\<not> connecting s"
  shows "steps_ok cret (do_proxy_start s)"
proof (cases "c_result (cx_conn s Incoming) < 0")
  case True
  have "killable cret (upd_conn Incoming (\<lambda>c. c\<lparr>wrstate := c_stop\<rparr>) s)"
    using assms by (auto simp: killable_def live_def upd_conn_def after_death_iff session_base_def)
  with True assms show ?thesis by (simp add: do_proxy_start_def kill_ok live_def conn_defs)
qed (use assms in \<open>auto simp: do_proxy_start_def steps_ok_def session_ok_def session_base_def live_def direction_def conn_defs Let_def\<close>)

lemma almost_dead_ok:
  assumes "session_base cret s" "after_death (cx_state s)" "cx_state s \<noteq> s_dead"
    "torn (case cx_state s of s_almost_dead_0 \<Rightarrow> 4 | s_almost_dead_1 \<Rightarrow> 3 | s_almost_dead_2 \<Rightarrow> 2 | s_almost_dead_3 \<Rightarrow> 1 | _ \<Rightarrow> 0) s"
  shows "steps_ok cret (do_almost_dead s)"
  using assms
  by (cases "cx_state s") (auto simp: do_almost_dead_def steps_ok_def session_ok_def session_base_def assertion_def require_def after_death_iff
    dying_def torn_def finalizers_def closed_def)


text \<open>One direction of the proxy when a callback has come.\<close>

definition turn :: "who \<Rightarrow> who \<Rightarrow> client_ctx \<Rightarrow> bool" where
  "turn a b s \<longleftrightarrow> direction a b s
     \<or> wrstate (cx_conn s a) = c_done \<and> rdstate (cx_conn s b) = c_stop
     \<or> wrstate (cx_conn s a) = c_stop \<and> rdstate (cx_conn s b) = c_done
         \<and> (c_result (cx_conn s b) \<ge> 0 \<longrightarrow> (\<exists>data. c_t (cx_conn s b) = T_buf data))"

definition proxying :: "int \<Rightarrow> client_ctx \<Rightarrow> bool" where
  "proxying cret s \<longleftrightarrow> session_base cret s \<and> cx_state s = s_proxy \<and> \<not> looking s \<and> \<not> connecting s
     \<and> (\<exists>ir iw orr ow. live ir iw orr ow s \<and> c_dead \<notin> {ir, iw, orr, ow})"

lemma proxying_killable: "proxying cret s \<Longrightarrow> killable cret s"
  by (auto simp: proxying_def killable_def session_base_def live_def after_death_iff)

lemma cycle_ok:
  assumes "proxying cret s" "turn a b s" "a \<noteq> b"
  shows "\<exists>r t. conn_cycle a b s = Some (r, t) \<and> proxying cret t \<and> (r = 0 \<longrightarrow> direction a b t)
    \<and> wrstate (cx_conn t b) = wrstate (cx_conn s b) \<and> rdstate (cx_conn t a) = rdstate (cx_conn s a)
    \<and> c_t (cx_conn t a) = c_t (cx_conn s a) \<and> c_result (cx_conn t a) = c_result (cx_conn s a)"
proof (cases "c_result (cx_conn s a) < 0 \<or> c_result (cx_conn s b) < 0")
  case True
  then have "conn_cycle a b s = Some (- 1, s)" by (auto simp: conn_cycle_def)
  with assms(1) show ?thesis by simp
next
  case False
  consider "direction a b s" | "wrstate (cx_conn s a) = c_done" "rdstate (cx_conn s b) = c_stop"
    | data where "wrstate (cx_conn s a) = c_stop" "rdstate (cx_conn s b) = c_done" "c_t (cx_conn s b) = T_buf data"
    using assms(2) False by (auto simp: turn_def)
  then show ?thesis
  proof cases
    case 1
    then have "conn_cycle a b s = Some (0, s)" using False by (auto simp: conn_cycle_def direction_def)
    with assms(1) 1 show ?thesis by simp
  next
    case 2
    let ?t = "conn_timer_reset b (upd_conn b (\<lambda>c. c\<lparr>rdstate := c_busy\<rparr>)
      ((upd_conn a (\<lambda>c. c\<lparr>wrstate := c_stop\<rparr>) s)\<lparr>reading := (reading s)(b := True)\<rparr>))"
    have "conn_cycle a b s = Some (0, ?t)" using 2 False assms(3) by (simp add: conn_cycle_def conn_defs)
    moreover have "proxying cret ?t" using assms(1,3) 2
      by (cases a; cases b) (auto simp: proxying_def session_base_def live_def upd_conn_def conn_timer_reset_def)
    ultimately show ?thesis using assms(3) by (simp add: direction_def upd_conn_def conn_timer_reset_def)
  next
    case 3
    let ?t = "upd_conn b (\<lambda>c. c\<lparr>rdstate := c_stop\<rparr>) (conn_timer_reset a ((upd_conn a (\<lambda>c. c\<lparr>wrstate := c_busy\<rparr>) s)
      \<lparr>writing := (writing s)(a := True), sent_to := sent_to s @ [(a, take (nat (c_result (cx_conn s b))) data)]\<rparr>))"
    have "conn_cycle a b s = Some (0, ?t)" using 3 False assms(3) by (simp add: conn_cycle_def conn_defs buffer_def)
    moreover have "proxying cret ?t" using assms(1,3) 3
      by (cases a; cases b) (auto simp: proxying_def session_base_def live_def upd_conn_def conn_timer_reset_def)
    ultimately show ?thesis using assms(3) by (simp add: direction_def upd_conn_def conn_timer_reset_def)
  qed
qed

lemma turn_cong:
  assumes "turn b a s" "wrstate (cx_conn t b) = wrstate (cx_conn s b)" "rdstate (cx_conn t a) = rdstate (cx_conn s a)"
    "c_t (cx_conn t a) = c_t (cx_conn s a)" "c_result (cx_conn t a) = c_result (cx_conn s a)"
  shows "turn b a t"
  using assms by (simp add: turn_def direction_def)

lemma proxy_ok:
  assumes "proxying cret s" "turn Incoming Outgoing s" "turn Outgoing Incoming s"
  shows "steps_ok cret (do_proxy s)"
proof -
  from cycle_ok [OF assms(1,2)] obtain r t where t: "conn_cycle Incoming Outgoing s = Some (r, t)" "proxying cret t"
    "r = 0 \<longrightarrow> direction Incoming Outgoing t" "turn Outgoing Incoming t"
    using turn_cong [OF assms(3)] by auto
  show ?thesis
  proof (cases "r = 0")
    case False
    then show ?thesis using t(1) kill_ok [OF proxying_killable [OF t(2)]] by (simp add: do_proxy_def)
  next
    case True
    from cycle_ok [OF t(2,4)] obtain r' u where u: "conn_cycle Outgoing Incoming t = Some (r', u)" "proxying cret u"
      "r' = 0 \<longrightarrow> direction Outgoing Incoming u" "wrstate (cx_conn u Incoming) = wrstate (cx_conn t Incoming)"
      "rdstate (cx_conn u Outgoing) = rdstate (cx_conn t Outgoing)" by auto
    show ?thesis
    proof (cases "r' = 0")
      case False
      then show ?thesis using t(1) True u(1) kill_ok [OF proxying_killable [OF u(2)]] by (simp add: do_proxy_def)
    next
      case r: True
      have "direction Incoming Outgoing u" using t(3) True u(4,5) by (simp add: direction_def)
      with r True t(1) u show ?thesis
        by (auto simp: do_proxy_def steps_ok_def session_ok_def proxying_def session_base_def live_def direction_def)
    qed
  qed
qed


section \<open>Every callback keeps the invariant\<close>

definition fine :: "int \<Rightarrow> client_ctx option \<Rightarrow> bool" where
  "fine cret r \<longleftrightarrow> (\<exists>t. r = Some t \<and> session_ok cret t)"

lemma fine_next: "\<not> cx_freed s \<Longrightarrow> steps_ok cret (session_step s) \<Longrightarrow> fine cret (do_next s)"
  unfolding fine_def by (rule next_ok)

lemma filled_ok: "session_ok cret s \<Longrightarrow> reading s w \<Longrightarrow> session_ok cret (filled w data s)"
  by (cases "cx_state s"; cases w) (auto simp: session_ok_def filled_def upd_conn_def live_def dying_def torn_def finalizers_def closed_def direction_def)

lemma who_other: "\<exists>b. b \<noteq> (a :: who) \<and> (\<forall>w. w = a \<or> w = b)"
  by (cases a) auto

lemma read_fine:
  assumes "session_ok cret s" "reading s w" "nread < 0 \<or> c_t (cx_conn s w) = T_buf data"
  shows "fine cret (conn_read_done w nread s)"
proof -
  let ?s = "(upd_conn w (\<lambda>c. c\<lparr>rdstate := c_done, c_result := nread\<rparr>) s)\<lparr>reading := (reading s)(w := False)\<rparr>"
  from assms(1,2) consider "cx_state s = s_handshake" "w = Incoming" | "cx_state s = s_req_parse" "w = Incoming" | "cx_state s = s_proxy"
    by (cases "cx_state s"; cases w) (auto simp: session_ok_def live_def dying_def torn_def)
  then have "steps_ok cret (session_step ?s) \<and> rdstate (cx_conn s w) = c_busy \<and> \<not> cx_freed ?s"
  proof cases
    case 1
    then have "steps_ok cret (do_handshake ?s)" using assms
      by (intro handshake_ok [where data = data]) (auto simp: session_ok_def live_def upd_conn_def)
    with 1 assms show ?thesis by (auto simp: session_step_def session_ok_def live_def upd_conn_def)
  next
    case 2
    then have "steps_ok cret (do_req_parse ?s)" using assms
      by (intro req_parse_ok [where data = data]) (auto simp: session_ok_def session_base_def live_def upd_conn_def)
    with 2 assms show ?thesis by (auto simp: session_step_def session_ok_def live_def upd_conn_def)
  next
    case 3
    have "proxying cret ?s" using 3 assms(1)
      by (cases w) (auto simp: proxying_def session_ok_def session_base_def live_def upd_conn_def direction_def)
    moreover have "turn Incoming Outgoing ?s" "turn Outgoing Incoming ?s" using 3 assms
      by (cases w; auto simp: session_ok_def turn_def direction_def live_def upd_conn_def)+
    ultimately have "steps_ok cret (do_proxy ?s)" by (rule proxy_ok)
    with 3 assms show ?thesis by (cases w) (auto simp: session_step_def session_ok_def live_def upd_conn_def)
  qed
  then show ?thesis using fine_next [of ?s] by (simp add: conn_read_done_def assertion_def upd_conn_def Let_def)
qed

lemma write_fine:
  assumes "session_ok cret s" "writing s w" "status \<le> 0" "status = UV_ECANCELED \<longleftrightarrow> closed w s"
  shows "fine cret (conn_write_done w status (s\<lparr>writing := (writing s)(w := False)\<rparr>))"
proof (cases "closed w s")
  case True
  then have "session_ok cret (s\<lparr>writing := (writing s)(w := False)\<rparr>)" using assms
    by (cases "cx_state s"; cases w) (auto simp: session_ok_def live_def dying_def torn_def finalizers_def closed_def direction_def)
  with True assms(4) show ?thesis by (simp add: conn_write_done_def fine_def)
next
  case False
  let ?s = "upd_conn w (\<lambda>c. c\<lparr>wrstate := c_done, c_result := status\<rparr>) (s\<lparr>writing := (writing s)(w := False)\<rparr>)"
  from assms(1,2) False consider "cx_state s = s_req_start" "w = Incoming" | "cx_state s = s_proxy_start" "w = Incoming"
    | "cx_state s = s_kill" "w = Incoming" | "cx_state s = s_proxy"
    by (cases "cx_state s"; cases w) (auto simp: session_ok_def live_def dying_def torn_def closed_def)
  then have "steps_ok cret (session_step ?s) \<and> wrstate (cx_conn s w) = c_busy \<and> \<not> cx_freed ?s"
  proof cases
    case 1
    then have "steps_ok cret (do_req_start ?s)" using assms
      by (intro req_start_ok) (auto simp: session_ok_def session_base_def live_def upd_conn_def)
    with 1 assms show ?thesis by (auto simp: session_step_def session_ok_def live_def upd_conn_def)
  next
    case 2
    then have "steps_ok cret (do_proxy_start ?s)" using assms
      by (intro proxy_start_ok) (auto simp: session_ok_def session_base_def live_def upd_conn_def)
    with 2 assms show ?thesis by (auto simp: session_step_def session_ok_def live_def upd_conn_def)
  next
    case 3
    then have "steps_ok cret (do_kill ?s)" using assms
      by (intro kill_ok) (auto simp: killable_def session_ok_def live_def upd_conn_def after_death_iff)
    with 3 assms show ?thesis by (auto simp: session_step_def session_ok_def live_def upd_conn_def)
  next
    case 4
    have "proxying cret ?s" using 4 assms(1)
      by (cases w) (auto simp: proxying_def session_ok_def session_base_def live_def upd_conn_def direction_def)
    moreover have "turn Incoming Outgoing ?s" "turn Outgoing Incoming ?s" using 4 assms
      by (cases w; auto simp: session_ok_def turn_def direction_def live_def upd_conn_def)+
    ultimately have "steps_ok cret (do_proxy ?s)" by (rule proxy_ok)
    with 4 assms show ?thesis by (cases w) (auto simp: session_step_def session_ok_def live_def upd_conn_def)
  qed
  then show ?thesis using fine_next [of ?s] False assms(4) by (simp add: conn_write_done_def assertion_def upd_conn_def Let_def)
qed

lemma dying_pending:
  "session_ok cret s \<Longrightarrow> after_death (cx_state s) \<Longrightarrow> (\<forall>w. writing s w \<longrightarrow> close_tcp s w) \<and> (connecting s \<longrightarrow> close_tcp s Outgoing)"
  by (cases "cx_state s") (auto simp: session_ok_def dying_def torn_def after_death_iff)

text \<open>One of the callbacks that a session being torn down waits for.\<close>

lemma torn_step:
  assumes "torn n s" "finalizers s = Suc (finalizers t)" "connect_ret t = connect_ret s"
    "\<forall>w. rdstate (cx_conn t w) = rdstate (cx_conn s w) \<and> wrstate (cx_conn t w) = wrstate (cx_conn s w)" "reading t = reading s"
    "\<forall>w. writing t w \<longrightarrow> close_tcp t w" "connecting t \<longrightarrow> close_tcp t Outgoing"
  shows "torn (n - 1) t"
proof -
  have "dying (k - 1) t" if "dying k s" for k using that assms(2,4-7) by (auto simp: dying_def closed_def)
  from this [of n] this [of "n - 1"] show ?thesis using assms(1,3) by (auto simp: torn_def)
qed

lemma finalizer_fine:
  assumes "session_ok cret s" "finalizers s = Suc (finalizers t)" "after_death (cx_state s)"
    "cx_state t = cx_state s" "cx_parser t = cx_parser s" "connect_ret t = connect_ret s" "sockname t = sockname s" "cx_freed t = cx_freed s"
    "\<forall>w. rdstate (cx_conn t w) = rdstate (cx_conn s w) \<and> wrstate (cx_conn t w) = wrstate (cx_conn s w)" "reading t = reading s"
    "\<forall>w. writing t w \<longrightarrow> close_tcp t w" "connecting t \<longrightarrow> close_tcp t Outgoing"
  shows "fine cret (do_next t)"
proof -
  note step = torn_step [OF _ assms(2,6,9-12)]
  have "cx_state s \<noteq> s_dead" using assms(1,2) by (auto simp: session_ok_def dying_def)
  then have d: "torn (case cx_state t of s_almost_dead_0 \<Rightarrow> 4 | s_almost_dead_1 \<Rightarrow> 3 | s_almost_dead_2 \<Rightarrow> 2 | s_almost_dead_3 \<Rightarrow> 1 | _ \<Rightarrow> 0) t"
    "cx_state t \<noteq> s_dead"
    using assms(1,3,4) step [of 5] step [of 4] step [of 3] step [of 2] step [of 1]
    by (cases "cx_state s"; simp add: session_ok_def after_death_iff)+
  have "session_base cret t" using assms d(2) by (simp add: session_ok_def session_base_def)
  moreover have "after_death (cx_state t)" using assms by simp
  ultimately have "steps_ok cret (do_almost_dead t)" using d by (intro almost_dead_ok)
  moreover have "session_step t = do_almost_dead t"
    using \<open>after_death (cx_state t)\<close> d(2) by (auto simp: session_step_def after_death_iff)
  ultimately show ?thesis using \<open>session_base cret t\<close> by (simp add: fine_next session_base_def)
qed

lemma lookup_fine:
  assumes "session_ok cret s" "looking s" "status \<le> 0" "sa_family ai = AF_INET \<or> sa_family ai = AF_INET6"
  shows "fine cret (conn_getaddrinfo_done Outgoing status ai (s\<lparr>looking := False\<rparr>))"
proof -
  let ?u = "upd_conn Outgoing (\<lambda>c. c\<lparr>c_result := status\<rparr>) (s\<lparr>looking := False\<rparr>)"
  let ?s = "if status = 0 then upd_conn Outgoing (\<lambda>c. c\<lparr>c_t := T_addr ai\<rparr>) ?u else ?u"
  from assms(1,2) consider "cx_state s = s_req_lookup" | "after_death (cx_state s)"
    by (cases "cx_state s") (auto simp: session_ok_def after_death_iff)
  then have "fine cret (do_next ?s)"
  proof cases
    case 1
    then have "steps_ok cret (do_req_lookup ?s)" using assms
      by (intro req_lookup_ok [where ad = ai]) (auto simp: session_ok_def session_base_def live_def upd_conn_def)
    with 1 assms(1) show ?thesis by (intro fine_next) (auto simp: session_step_def session_ok_def upd_conn_def)
  next
    case 2
    then show ?thesis using assms(1,2)
      dying_pending [OF assms(1) 2] by (intro finalizer_fine [where s = s]) (simp_all add: finalizers_def one_def upd_conn_def)
  qed
  moreover have "\<not> cx_freed s" using assms(1,2) by (cases "cx_state s") (auto simp: session_ok_def dying_def torn_def finalizers_def one_def)
  ultimately show ?thesis using assms(4) by (cases "status = 0") (simp_all add: conn_getaddrinfo_done_def upd_conn_def Let_def)
qed

lemma connect_fine:
  assumes "session_ok cret s" "connecting s" "status \<le> 0" "status = UV_ECANCELED \<longleftrightarrow> closed Outgoing s"
  shows "fine cret (conn_connect_done Outgoing status (s\<lparr>connecting := False\<rparr>))"
proof (cases "closed Outgoing s")
  case True
  then have "session_ok cret (s\<lparr>connecting := False\<rparr>)" using assms
    by (cases "cx_state s") (auto simp: session_ok_def live_def dying_def torn_def finalizers_def closed_def direction_def)
  with True assms(4) show ?thesis by (simp add: conn_connect_done_def fine_def)
next
  case False
  let ?s = "upd_conn Outgoing (\<lambda>c. c\<lparr>c_result := status\<rparr>) (s\<lparr>connecting := False\<rparr>)"
  have c: "cx_state s = s_req_connect" using assms(1,2) False by (cases "cx_state s") (auto simp: session_ok_def dying_def torn_def)
  then have "steps_ok cret (do_req_connect ?s)" using assms
    by (intro req_connect_ok) (auto simp: session_ok_def session_base_def live_def upd_conn_def)
  then have "fine cret (do_next ?s)" using c assms(1) by (intro fine_next) (auto simp: session_step_def session_ok_def upd_conn_def)
  with False assms(4) show ?thesis by (simp add: conn_connect_done_def)
qed

lemma close_fine:
  assumes "session_ok cret s"
  shows "close_tcp s w \<Longrightarrow> \<not> writing s w \<Longrightarrow> \<not> (w = Outgoing \<and> connecting s)
      \<Longrightarrow> fine cret (conn_close_done (s\<lparr>close_tcp := (close_tcp s)(w := False)\<rparr>))"
    "close_timer s w \<Longrightarrow> fine cret (conn_close_done (s\<lparr>close_timer := (close_timer s)(w := False)\<rparr>))"
proof -
  have a: "after_death (cx_state s)" if "close_tcp s w \<or> close_timer s w"
    using that assms by (cases "cx_state s"; cases w) (auto simp: session_ok_def live_def after_death_iff)
  have p: "\<forall>w. writing s w \<longrightarrow> close_tcp s w" "connecting s \<longrightarrow> close_tcp s Outgoing" if "close_tcp s w \<or> close_timer s w"
    using dying_pending [OF assms a [OF that]] by simp_all
  show "fine cret (conn_close_done (s\<lparr>close_tcp := (close_tcp s)(w := False)\<rparr>))"
    if t: "close_tcp s w" "\<not> writing s w" "\<not> (w = Outgoing \<and> connecting s)"
    unfolding conn_close_done_def
  proof (rule finalizer_fine [OF assms])
    show "finalizers s = Suc (finalizers (s\<lparr>close_tcp := (close_tcp s)(w := False)\<rparr>))"
      using t(1) by (cases w) (simp_all add: finalizers_def)
    show "\<forall>x. writing (s\<lparr>close_tcp := (close_tcp s)(w := False)\<rparr>) x \<longrightarrow> close_tcp (s\<lparr>close_tcp := (close_tcp s)(w := False)\<rparr>) x"
      "connecting (s\<lparr>close_tcp := (close_tcp s)(w := False)\<rparr>) \<longrightarrow> close_tcp (s\<lparr>close_tcp := (close_tcp s)(w := False)\<rparr>) Outgoing"
      using t(2,3) p [OF disjI1 [OF t(1)]] by (cases w; auto)+
  qed (use a [OF disjI1 [OF t(1)]] in simp_all)
  show "fine cret (conn_close_done (s\<lparr>close_timer := (close_timer s)(w := False)\<rparr>))" if t: "close_timer s w"
    unfolding conn_close_done_def
  proof (rule finalizer_fine [OF assms])
    show "finalizers s = Suc (finalizers (s\<lparr>close_timer := (close_timer s)(w := False)\<rparr>))"
      using t by (cases w) (simp_all add: finalizers_def)
  qed (use a [OF disjI2 [OF t]] p [OF disjI2 [OF t]] in simp_all)
qed

lemma callback_fine: "callback s r \<Longrightarrow> session_ok cret s \<Longrightarrow> fine cret r"
proof (induction rule: callback.induct)
  case (cb_data s w data)
  then show ?case using read_fine [OF filled_ok, of cret s w data w "int (length data)" data]
    by (simp add: filled_def upd_conn_def)
qed (use read_fine write_fine lookup_fine connect_fine close_fine in auto)


section \<open>Runs\<close>

inductive session_run :: "client_ctx \<Rightarrow> client_ctx \<Rightarrow> bool" where
  run_start: "session_run s s"
| run_callback: "session_run s t \<Longrightarrow> callback t (Some u) \<Longrightarrow> session_run s u"

lemma session_run_ok: "session_run s t \<Longrightarrow> session_ok cret s \<Longrightarrow> session_ok cret t"
  by (induction rule: session_run.induct) (auto dest: callback_fine simp: fine_def)

lemma init_ok:
  assumes "client_finish_init nd tmo cret name = Some s" "sa_family name = AF_INET \<or> sa_family name = AF_INET6"
  shows "session_ok cret s"
proof -
  have "s5_inv s5_init" by (simp add: s5_inv_def s5_init_def)
  with assms show ?thesis
    by (auto simp: client_finish_init_def session_ok_def live_def new_conn_def conn_defs split: if_splits)
qed






section \<open>Timers\<close>

text \<open>while the name of the peer is looked up, the timer of the client's connection, started at the last read, is still
  running.  When it expires first, the session goes on as if the lookup were done and takes the address from the
  memory of the request: the program is in error.  With the assertions compiled in, a client that sends nothing in time
  ends the program too.\<close>
theorem idle_timer_crashes:
  assumes "client_finish_init nd tmo 0 name = Some s" "sa_family name = AF_INET \<or> sa_family name = AF_INET6" "session_run s t"
  shows "(cx_state t = s_req_lookup \<longrightarrow> timing t Incoming \<and> expiry Incoming t = None)
    \<and> (cx_state t \<in> {s_handshake, s_req_start, s_req_parse} \<and> \<not> ndebug t \<longrightarrow> timing t Incoming \<and> expiry Incoming t = None)"
proof -
  have ok: "session_ok 0 t" using session_run_ok [OF assms(3) init_ok [OF assms(1,2)]] .
  then show ?thesis
    by (auto simp: session_ok_def live_def expiry_def conn_timer_expire_def do_next_def session_step_def do_req_lookup_def all_stopped_def
      do_handshake_def do_req_start_def do_req_parse_def addr_of_def conn_defs Let_def)
qed

section \<open>Writes that are over when their connection is closed\<close>

definition awaited :: "sess_state \<Rightarrow> nat" where
  "awaited st = (case st of s_almost_dead_0 \<Rightarrow> 5 | s_almost_dead_1 \<Rightarrow> 4 | s_almost_dead_2 \<Rightarrow> 3 | s_almost_dead_3 \<Rightarrow> 2
     | s_almost_dead_4 \<Rightarrow> 1 | _ \<Rightarrow> 0)"

text \<open>a write that was over before its connection was closed is not cancelled but called back with success.  With the
  assertions compiled in the program ends; without them the callback is counted for one of a handle, and the
  session is freed while one of its handles is still to be called back.\<close>
theorem late_write_miscounted:
  assumes "client_finish_init nd tmo 0 name = Some s" "sa_family name = AF_INET \<or> sa_family name = AF_INET6" "session_run s t"
    "after_death (cx_state t)" "writing t w"
  shows "(\<not> ndebug t \<longrightarrow> late_write w t = None)
    \<and> (ndebug t \<longrightarrow> (\<exists>u. late_write w t = Some u \<and> finalizers u = Suc (awaited (cx_state u)) \<and> (cx_freed u \<longleftrightarrow> awaited (cx_state u) = 0)))"
proof -
  have ok: "session_ok 0 t" using session_run_ok [OF assms(3) init_ok [OF assms(1,2)]] .
  have "wrstate (cx_conn t w) = c_dead" "cx_state t \<noteq> s_dead"
    using ok assms(4,5) by (cases w; cases "cx_state t"; simp add: session_ok_def dying_def torn_def after_death_iff finalizers_def one_def split: if_splits)+
  then show ?thesis using ok assms(4)
    by (cases "cx_state t") (auto simp: late_write_def conn_write_done_def do_next_def session_step_def do_almost_dead_def session_ok_def
      dying_def torn_def after_death_iff awaited_def finalizers_def conn_defs Let_def)
qed

section \<open>A connection attempt that fails at once\<close>

lemma can_access_family: "can_access (a\<lparr>sa_port := p\<rparr>) = can_access a"
  by (simp add: can_access_def)

text \<open>after a lookup, a connection attempt that cannot be started tears the session down as if the lookup were still to be
  called back: it waits for one callback more than will come, and is never freed.\<close>
theorem failed_connect_leaks:
  assumes "cx_state s = s_req_lookup" "live c_stop c_stop c_stop c_stop s" "\<not> looking s" "\<not> connecting s"
    "c_result (cx_conn s Outgoing) = 0" "c_t (cx_conn s Outgoing) = T_addr ad" "sa_family ad = AF_INET \<or> sa_family ad = AF_INET6"
    "can_access ad" "connect_ret s \<noteq> 0"
  shows "\<exists>t. session_step s = Some (s_almost_dead_0, t) \<and> Suc (finalizers t) = awaited s_almost_dead_0"
  using assms
  by (auto simp: session_step_def do_req_lookup_def all_stopped_def do_req_connect_start_def conn_connect_def can_access_family addr_of_def
    do_kill_def after_death_iff awaited_def finalizers_def live_def conn_defs Let_def)

end
