(* ===== verification/Socks_Server.thy ===== *)
theory Socks_Server
  imports Socks_Client Event_Loop Linux_Info
begin

text \<open>
  The rest of the sample proxy, \<open>samples/socks5-proxy\<close>: the options of the command line (\<open>getopt.c\<close>, \<open>main.c\<close>)
  and the listening sockets (\<open>server.c\<close>), which use the functions of the library as \<open>Tcp\<close>, \<open>Pipes\<close>, \<open>Addrinfo\<close> and
  \<open>Event_Loop\<close> model them.  What is printed is left out; \<open>exit\<close> ends the program: no result.
\<close>

section \<open>Options\<close>

text \<open>The static variables of \<open>getopt\<close>.  \<open>opt_place\<close> is what is left of the argument it points into.\<close>

record getopt_state =
  optind :: nat
  optopt :: char
  optreset :: bool
  optarg :: "string option"
  opt_place :: string

definition getopt_start :: getopt_state where
  "getopt_start = \<lparr>optind = 1, optopt = CHR 0x00, optreset = False, optarg = None, opt_place = ''''\<rparr>"

definition BADCH :: int where "BADCH = of_char CHR ''?''"
definition BADARG :: int where "BADARG = of_char CHR '':''"

text \<open>\<open>getopt_option\<close> is the function from the test of the letter on, with the rest of the argument at \<open>opt_place\<close>.\<close>

definition next_arg :: "getopt_state \<Rightarrow> getopt_state" where
  "next_arg s = s\<lparr>optind := optind s + 1\<rparr>"

definition getopt_option :: "string list \<Rightarrow> string \<Rightarrow> getopt_state \<Rightarrow> int \<times> getopt_state" where
  "getopt_option nargv ostr s =
     (let oli = dropWhile (\<lambda>c. c \<noteq> optopt s) ostr
      in if optopt s = CHR '':'' \<or> oli = [] then (BADCH, if opt_place s = [] then next_arg s else s)
         else if take 1 (drop 1 oli) \<noteq> '':'' then
           (of_char (optopt s), (if opt_place s = [] then next_arg s else s)\<lparr>optarg := None\<rparr>)
         else if opt_place s \<noteq> [] then
           (of_char (optopt s), (next_arg s)\<lparr>optarg := Some (opt_place s), opt_place := ''''\<rparr>)
         else
           (let s = next_arg s
            in if length nargv > optind s then
                 (of_char (optopt s), (next_arg s)\<lparr>optarg := Some (nargv ! optind s), opt_place := ''''\<rparr>)
               else (if take 1 ostr = '':'' then BADARG else BADCH, s\<lparr>opt_place := ''''\<rparr>)))"

definition getopt :: "string list \<Rightarrow> string \<Rightarrow> getopt_state \<Rightarrow> int \<times> getopt_state" where
  "getopt nargv ostr s =
     (if optreset s \<or> opt_place s = [] then
        (let s = s\<lparr>optreset := False\<rparr>
         in if optind s \<ge> length nargv \<or> take 1 (nargv ! optind s) \<noteq> ''-'' then (- 1, s\<lparr>opt_place := ''''\<rparr>)
            else (case drop 1 (nargv ! optind s) of
                [] \<Rightarrow>
                  (if CHR ''-'' \<notin> set ostr then (- 1, s\<lparr>optopt := CHR 0x00, opt_place := ''''\<rparr>)
                   else getopt_option nargv ostr (s\<lparr>optopt := CHR ''-'', opt_place := ''''\<rparr>))
              | c # rest \<Rightarrow>
                  (if c = CHR ''-'' \<and> rest = [] then (- 1, (next_arg s)\<lparr>optopt := c, opt_place := ''''\<rparr>)
                   else getopt_option nargv ostr (s\<lparr>optopt := c, opt_place := rest\<rparr>))))
      else getopt_option nargv ostr (s\<lparr>optopt := hd (opt_place s), opt_place := tl (opt_place s)\<rparr>))"

record server_config =
  bind_host :: string
  bind_port :: u16
  cf_idle_timeout :: u32

text \<open>\<open>sscanf\<close> with \<open>%hu\<close> stores the number it reads, of at most 64 bits, in 16 bits.  \<open>usage\<close> ends the program.\<close>

definition parse_option :: "int \<Rightarrow> string option \<Rightarrow> server_config \<Rightarrow> server_config option" where
  "parse_option opt arg cf =
     (if opt = of_char CHR ''H'' then do { a \<leftarrow> arg; Some (cf\<lparr>bind_host := a\<rparr>) }
      else if opt = of_char CHR ''p'' then do {
        a \<leftarrow> arg;
        (n, _) \<leftarrow> scan_unsigned a;
        Some (cf\<lparr>bind_port := of_int n\<rparr>)
      } else None)"

partial_function (option) parse_opts :: "string list \<Rightarrow> getopt_state \<Rightarrow> server_config \<Rightarrow> (server_config \<times> getopt_state) option" where
  "parse_opts argv s cf =
     (let (opt, s) = getopt argv ''H:hp:'' s
      in if opt = - 1 then Some (cf, s)
         else do {
           cf \<leftarrow> parse_option opt (optarg s) cf;
           parse_opts argv s cf
         })"

definition default_config :: server_config where
  "default_config = \<lparr>bind_host = ''127.0.0.1'', bind_port = 1080, cf_idle_timeout = 60 * 1000\<rparr>"

section \<open>Listening\<close>

text \<open>
  A \<open>server_ctx\<close> starts with its timeout; \<open>tcp_handle\<close> is 8 bytes behind its start.  \<open>sx n\<close> is the address of the
  server with number \<open>n\<close>.  The loop gains \<open>server_state\<close>.
\<close>

record svloop = adloop +
  sv_config :: server_config
  sv_servers :: int

definition tcp_handle :: "addr \<Rightarrow> addr" where
  "tcp_handle sx = sx + 8"

definition is_inet :: "sockaddr \<Rightarrow> bool" where
  "is_inet ai \<longleftrightarrow> sa_family ai = AF_INET \<or> sa_family ai = AF_INET6"

fun close_servers :: "(nat \<Rightarrow> addr) \<Rightarrow> nat \<Rightarrow> 'a adloop_scheme \<Rightarrow> 'a adloop_scheme option" where
  "close_servers sx 0 s = Some s"
| "close_servers sx (Suc n) s = do { s \<leftarrow> uv_close (sx n) False s; close_servers sx n s }"

definition start_server :: "addr \<Rightarrow> u16 \<Rightarrow> sockaddr \<Rightarrow> 'a adloop_scheme \<Rightarrow> (int \<times> 'a adloop_scheme) option" where
  "start_server x port ai s = do {
     let ad = ai\<lparr>sa_port := htons (uint port)\<rparr>;
     require (case uv_inet_ntop (sa_family ad) (sa_addr ad) 47 of Inl _ \<Rightarrow> False | Inr _ \<Rightarrow> True);
     (err, s) \<leftarrow> uv_tcp_init (tcp_handle x) s;
     require (err = 0);
     (err, s) \<leftarrow> uv_tcp_bind (tcp_handle x) ad 0 s;
     if err = 0 then uv_listen (tcp_handle x) 128 True s else Some (err, s)
   }"

fun bind_all :: "(nat \<Rightarrow> addr) \<Rightarrow> u16 \<Rightarrow> sockaddr list \<Rightarrow> nat \<Rightarrow> 'a adloop_scheme \<Rightarrow> 'a adloop_scheme option" where
  "bind_all sx port [] n s = Some s"
| "bind_all sx port (ai # as) n s =
     (if \<not> is_inet ai then bind_all sx port as n s
      else do {
        (err, s) \<leftarrow> start_server (sx n) port ai s;
        if err \<noteq> 0 then close_servers sx n s else bind_all sx port as (n + 1) s
      })"

text \<open>\<open>addrs\<close> is the list that \<open>ai\<close> points to; \<open>elem base n\<close> is the element \<open>n\<close> of the array at \<open>base\<close>.\<close>

definition do_bind :: "(int \<Rightarrow> nat \<Rightarrow> addr) \<Rightarrow> int \<Rightarrow> int \<Rightarrow> int \<Rightarrow> sockaddr list \<Rightarrow> 'a svloop_scheme \<Rightarrow> 'a svloop_scheme option" where
  "do_bind elem sz status ai addrs s =
     (if status < 0 then uv_freeaddrinfo ai s
      else if filter is_inet addrs = [] then uv_freeaddrinfo ai s
      else do {
        (r, s) \<leftarrow> syscall (Malloc (int (length (filter is_inet addrs)) * sz)) s;
        require (r_ret r \<noteq> - 1);
        let s = s\<lparr>sv_servers := r_ret r\<rparr>;
        s \<leftarrow> bind_all (elem (r_ret r)) (bind_port (sv_config s)) addrs 0 s;
        uv_freeaddrinfo ai s
      })"

text \<open>\<open>h\<close> is the handle of the incoming connection of the new session.\<close>

definition on_connection :: "addr \<Rightarrow> addr \<Rightarrow> int \<Rightarrow> bool \<Rightarrow> u32 \<Rightarrow> int \<Rightarrow> sockaddr \<Rightarrow> 'a adloop_scheme \<Rightarrow> (client_ctx \<times> 'a adloop_scheme) option" where
  "on_connection server h status nd idle cret name s = do {
     require (status = 0);
     (err, s) \<leftarrow> uv_tcp_init h s;
     require (err = 0);
     (err, s) \<leftarrow> uv_accept server h s;
     require (err = 0);
     cx \<leftarrow> client_finish_init nd idle cret name;
     Some (cx, s)
   }"

text \<open>The hints are the flags, family, type and protocol.\<close>

definition server_run ::
    "'a svloop_scheme client \<Rightarrow> server_config \<Rightarrow> addr \<Rightarrow> int \<Rightarrow> 'a svloop_scheme \<Rightarrow> (int \<times> 'a svloop_scheme) option" where
  "server_run cl cf req loop s = do {
     let s = s\<lparr>sv_servers := 0, sv_config := cf\<rparr>;
     (err, s) \<leftarrow> uv_getaddrinfo (loop_call cl) (Some req) True (Some (bind_host cf)) None (Some [0, 0, 1, 6]) s;
     if err \<noteq> 0 then Some (err, s)
     else do {
       (alive, s) \<leftarrow> uv_run cl UV_RUN_DEFAULT s;
       require (\<not> alive);
       s \<leftarrow> uv_loop_delete loop s;
       Some (0, free_at (sv_servers s) s)
     }
   }"

text \<open>The exit status of the program.\<close>

definition main :: "'a svloop_scheme client \<Rightarrow> string list \<Rightarrow> addr \<Rightarrow> int \<Rightarrow> 'a svloop_scheme \<Rightarrow> int option" where
  "main cl argv req loop s = do {
     (cf, _) \<leftarrow> parse_opts argv getopt_start default_config;
     (ok, s) \<leftarrow> uv_default_loop s;
     require ok;
     (err, s) \<leftarrow> server_run cl cf req loop s;
     Some (if err \<noteq> 0 then 1 else 0)
   }"


section \<open>Reading the command line\<close>

text \<open>An option as it is written: with its argument in the same word, which then is not empty, or in the next.\<close>

type_synonym cli_option = "bool \<times> char \<times> string"

definition option_ok :: "cli_option \<Rightarrow> bool" where
  "option_ok p = (case p of (attached, c, v) \<Rightarrow> (c = CHR ''H'' \<or> c = CHR ''p'') \<and> (attached \<longrightarrow> v \<noteq> []))"

definition option_words :: "cli_option \<Rightarrow> string list" where
  "option_words p = (case p of (attached, c, v) \<Rightarrow> if attached then [CHR ''-'' # c # v] else [[CHR ''-'', c], v])"

fun configure :: "cli_option list \<Rightarrow> server_config \<Rightarrow> server_config option" where
  "configure [] cf = Some cf"
| "configure ((a, c, v) # ps) cf = do { cf \<leftarrow> parse_option (of_char c) (Some v) cf; configure ps cf }"

text \<open>Where the options end: at the end of the words, at one that is no option, and at \<open>--\<close> or \<open>-\<close>.\<close>

definition options_end :: "string list \<Rightarrow> bool" where
  "options_end ws \<longleftrightarrow> ws = [] \<or> take 1 (hd ws) \<noteq> ''-'' \<or> hd ws = ''-'' \<or> hd ws = ''--''"

definition at_word :: "nat \<Rightarrow> getopt_state \<Rightarrow> bool" where
  "at_word n s \<longleftrightarrow> optind s = n \<and> \<not> optreset s \<and> opt_place s = []"

lemma getopt_end:
  assumes "at_word (length pre) s" "options_end ws"
  shows "fst (getopt (pre @ ws) ''H:hp:'' s) = - 1"
proof (cases ws)
  case (Cons w ws')
  then consider "take 1 w \<noteq> ''-''" | "w = ''-''" | "w = ''--''" using assms(2) by (auto simp: options_end_def)
  then show ?thesis using assms(1) Cons by cases (simp_all add: getopt_def at_word_def Let_def)
qed (use assms(1) in \<open>simp add: getopt_def at_word_def Let_def\<close>)

lemma getopt_word:
  assumes "at_word (length pre) s" "option_ok (a, c, v)"
  obtains t where "getopt (pre @ option_words (a, c, v) @ ws) ''H:hp:'' s = (of_char c, t)" "optarg t = Some v"
    "at_word (length (pre @ option_words (a, c, v))) t"
proof -
  from assms have "\<exists>t. getopt (pre @ option_words (a, c, v) @ ws) ''H:hp:'' s = (of_char c, t) \<and> optarg t = Some v
      \<and> at_word (length (pre @ option_words (a, c, v))) t"
    by (cases a) (auto simp: getopt_def getopt_option_def option_words_def option_ok_def at_word_def next_arg_def Let_def nth_append)
  then show thesis using that by blast
qed

lemma options_from:
  assumes "\<forall>p \<in> set ps. option_ok p" "options_end ws" "at_word (length pre) s"
  shows "map_option fst (parse_opts (pre @ concat (map option_words ps) @ ws) s cf) = configure ps cf"
  using assms(1,3)
proof (induction ps arbitrary: pre s cf)
  case Nil
  then obtain t where "getopt (pre @ ws) ''H:hp:'' s = (- 1, t)" using getopt_end [OF _ assms(2)] by (metis prod.collapse)
  then show ?case by (subst parse_opts.simps) simp
next
  case (Cons p ps)
  obtain a c v where p: "p = (a, c, v)" by (cases p)
  with Cons.prems have o_ok: "option_ok (a, c, v)" by simp
  from getopt_word [OF Cons.prems(2) o_ok, of "concat (map option_words ps) @ ws"]
  obtain t where t: "getopt (pre @ option_words p @ concat (map option_words ps) @ ws) ''H:hp:'' s = (of_char c, t)" "optarg t = Some v"
    "at_word (length (pre @ option_words p)) t" unfolding p by blast
  have c: "(of_char c :: int) \<noteq> - 1" using o_ok by (auto simp: option_ok_def)
  have "map_option fst (parse_opts ((pre @ option_words p) @ concat (map option_words ps) @ ws) t cf') = configure ps cf'" for cf'
    using Cons.prems(1) by (intro Cons.IH t(3)) simp
  then show ?case using t(1,2) c
    by (subst parse_opts.simps) (auto simp: Let_def p split: bind_splits)
qed

text \<open>options are read as they are meant, wherever their argument is written: the last host and the last port count,
  a bad port ends the program, and reading stops at the first word that is no option.\<close>
theorem options_roundtrip:
  assumes "\<forall>p \<in> set ps. option_ok p" "options_end ws"
  shows "map_option fst (parse_opts (prog # concat (map option_words ps) @ ws) getopt_start cf) = configure ps cf"
  using options_from [OF assms, of "[prog]" getopt_start cf] by (simp add: at_word_def getopt_start_def)

text \<open>The line \<open>s5-proxy -H localhost -p81 file\<close>.\<close>

lemma options_roundtrip_witness:
  "map_option fst (parse_opts [''s5-proxy'', ''-H'', ''localhost'', ''-p81'', ''file''] getopt_start default_config)
    = configure [(False, CHR ''H'', ''localhost''), (True, CHR ''p'', ''81'')] default_config"
  using options_roundtrip [of "[(False, CHR ''H'', ''localhost''), (True, CHR ''p'', ''81'')]" "[''file'']" "''s5-proxy''" default_config]
  by (simp add: option_ok_def option_words_def options_end_def)

text \<open>The option that the usage message calls \<open>-b\<close> is not known.\<close>

lemma option_b: "parse_opts [''s5-proxy'', ''-b'', ''localhost''] getopt_start cf = None"
  by (subst parse_opts.simps) (simp add: getopt_def getopt_option_def getopt_start_def next_arg_def BADCH_def parse_option_def Let_def)

section \<open>What is allowed\<close>

lemma ntohl_top: "drop_bit 24 (ntohl [a, b, c, d]) = ucast a"
  by (rule bit_word_eqI) (auto simp: ntohl_def bit_simps dest: bit_imp_le_length)

lemma access_ipv4:
  assumes "sa_family ad = AF_INET" "sa_addr ad = [a, b, c, d]"
  shows "can_access ad \<longleftrightarrow> a \<noteq> 127"
proof -
  have "uint (ucast a :: u32) = uint a" by (rule bit_eqI) (auto simp: bit_simps dest: bit_imp_le_length)
  then have "(ucast a = (0x7F :: u32)) = (a = 0x7F)" by (simp add: word_eq_iff_unsigned [where 'a = int])
  then show ?thesis using assms by (simp add: can_access_def ntohl_top)
qed

section \<open>A server that cannot listen\<close>

text \<open>After an address that fails, \<open>uv_close\<close> is called on the servers, not on their handles: on memory that is no handle
  it ends the program.\<close>

theorem failed_bind_aborts:
  assumes "\<not> uv__is_closing (sx n) s" "handle_type (sx n) s = UV_UNKNOWN_HANDLE"
  shows "close_servers sx (Suc n) s = None"
  using assms by (simp add: uv_close_def close_by_type_def handle_type_def set_flags_def upd_flags_def)

end
