(* ===== verification/Spec2Isabelle.thy ===== *)
theory Spec2Isabelle
  imports Queues Heap_Inl Kernel Fd_Ops Handles Timers Loop_Watchers Io Inet Common Async Poll Streams Tcp Pipes Udp Signals Process Threadpool Fs Fs_Poll Inotify Addrinfo Event_Loop Linux_Info Tty Threads Barrier Process_Title Dl Tree_Users Fsevents Linux_Syscalls Common_Api Socks5 Socks_Client Socks_Server
begin

text \<open>
  This is a development about libuv, the library of event loops whose sources are under \<open>src/\<close> (version
  1.11, built as C++ with the Unix backend).  The functions of the library on Linux are definitions, translated from
  the code statement by statement, and so are the backend for file system events on macOS, the headers with
  code (\<open>queue.h\<close>, \<open>heap-inl.h\<close>, \<open>tree.h\<close>) and the sample proxy.  The theorems state
  what makes each part correct, and where the code does not do what it means to, how it fails.

  \<^bold>\<open>The program.\<close>  A program owns a loop (\<open>uv_loop_t\<close>), puts handles (\<open>uv_handle_t\<close>: timers, streams,
  signals and so on) and requests (\<open>uv_req_t\<close>: writes, connections, work for the pool) on it, and calls \<open>uv_run\<close>.
  An iteration of \<open>uv_run\<close> runs the due timers, the pending watchers, the idle and prepare handles, waits in \<open>epoll_wait\<close>
  for as long as \<open>uv_backend_timeout\<close> allows, calls the watchers that are ready, the check handles, and at last the
  close callbacks.  Callbacks run in the middle of the library's functions and may call any of them.  Other
  threads meet a loop in three places only: an async handle, which writes to a descriptor that wakes the loop; the
  queue of finished work of the thread pool, which is announced by an async handle; and the signal
  handler, which writes to a pipe of the loop.

  \<^bold>\<open>How the model is built.\<close>

  \<^item> The state of the loop is a record, extended by each component with the fields of \<open>uv_loop_t\<close>, of its
    handles and of its requests that it needs.  The chain is \<open>kern\<close> (\<open>Kernel\<close>), \<open>loop\<close> (\<open>Handles\<close>), \<open>tloop\<close>
    (\<open>Timers\<close>), \<open>wloop\<close> (\<open>Loop_Watchers\<close>), \<open>iloop\<close> (\<open>Io\<close>), \<open>aloop\<close> (\<open>Async\<close>), \<open>ploop\<close> (\<open>Poll\<close>), \<open>sloop\<close>
    (\<open>Streams\<close>), \<open>uloop\<close> (\<open>Udp\<close>), \<open>gloop\<close> (\<open>Signals\<close>), \<open>prloop\<close> (\<open>Process\<close>), \<open>thloop\<close> (\<open>Threadpool\<close>), \<open>fsloop\<close> (\<open>Fs\<close>),
    \<open>fploop\<close> (\<open>Fs_Poll\<close>), \<open>inloop\<close> (\<open>Inotify\<close>), \<open>adloop\<close> (\<open>Addrinfo\<close>), and beside the loop \<open>ttloop\<close> (\<open>Tty\<close>) and \<open>cfloop\<close>
    (\<open>Fsevents\<close>).  Operations are polymorphic in the extension, so a lemma of a component holds for the
    whole loop.
  \<^item> A pointer is an address (\<open>addr\<close>, a natural number; \<open>None\<close> where it may be null), and \<open>container_of\<close> is the
    identity.  Intrusive queues are lists in most theories; \<open>Queues\<close> proves that the rings of pointers
    behave as lists, and \<open>Process\<close> keeps the ring where a pointer into it is held across callbacks.  The heap
    of timers is pointer by pointer everywhere.  The trees of \<open>Signals\<close> and \<open>Inotify\<close> are a sorted list and a map,
    and \<open>Tree_Users\<close> discharges that with the pointer model of the trees.
  \<^item> The operating system is a script: the list of the replies that the calls will give, in order.  A call
    takes the next one and is recorded with its arguments.  So a theorem about a routine holds
    for everything the system may answer, errors and interruptions included.
  \<^item> The result \<open>None\<close> is the end of the program (\<open>assert\<close>, \<open>abort\<close>, a null pointer read), a loop that does
    not end, or a script that is used up.  Error codes are integers or the left summand, as the function returns them.
  \<^item> The callbacks are a parameter, a function on the state, so that they may do whatever the program could.  They are
    collected in the record \<open>client\<close> of \<open>Event_Loop\<close>, with the allocator of read buffers, what other threads have
    done by the time the loop looks (\<open>cl_others\<close>), and the address of a local queue.  Function pointers to
    code of the library are datatypes (\<open>io_cb\<close>, \<open>async_cb\<close>, \<open>done_fn\<close>, \<open>fs_cb\<close>), which the functions \<open>*_dispatch\<close> and
    \<open>loop_call\<close> of \<open>Event_Loop\<close> resolve to the code they name.  An assertion that fails inside a callback of the
    library is recorded (static \<open>aborted\<close>) and ends the program in \<open>checked\<close> at the end of the phase.
  \<^item> Integers have their widths (\<open>u8\<close>, \<open>u32\<close>, \<open>u64\<close>) wherever the code relies on it or may
    overflow: deadlines, flags, reference counts, address bytes.  Descriptors and error codes are integers.
  \<^item> Threads are step relations over the same critical sections that the sequential definitions use
    (\<open>Async\<close>, \<open>Signals\<close>, \<open>Threadpool\<close>, \<open>Barrier\<close>): a section protected by a mutex is one step.

  \<^bold>\<open>Bounds.\<close>  There is no fuel.  A loop that repeats a system call recurses on the script, because each call uses up a
  reply.  A loop that may run for ever, because callbacks or pointers decide it, is a \<open>partial_function (option)\<close>, and that it
  returns is stated with the result: for the queue, the heap and the trees from their well-formedness, for
  \<open>uv__run_timers\<close> and \<open>uv_run\<close> from the callbacks.  The loops with a counter (the 32 reads of a stream, those over an array
  or a text) are structural.
\<close>

subsection \<open>The theories and the code\<close>

text \<open>
  Foundations:

  \<^item> \<open>Prelude\<close>: widths, addresses and results.  \<open>Kernel\<close>: replies, calls, error numbers.
  \<^item> \<open>Queues\<close> (\<open>src/queue.h\<close>): the macros over a store of links, the locale \<open>fifo\<close> of what the code expects of a queue and its
    interpretation on the rings (\<open>queue_edits_lists\<close>, \<open>queue_move_drain\<close>).
  \<^item> \<open>Heap_Inl\<close> (\<open>src/heap-inl.h\<close>): the linked binary heap; the locale \<open>heap_order\<close>, interpreted in \<open>Timers\<close> on
    \<open>timer_less_than\<close> (\<open>heap_insert_correct\<close>, \<open>heap_remove_correct\<close>, \<open>heap_dequeue_least\<close>).
  \<^item> \<open>Rb_Tree\<close>, \<open>Rb_Insert\<close>, \<open>Rb_Remove\<close>, \<open>Rb_Search\<close> (\<open>include/tree.h\<close>): the red-black tree; the locale
    \<open>tree_order\<close> for the comparison.  \<open>Tree_Users\<close> interprets it on \<open>uv__signal_compare\<close> and \<open>compare_watchers\<close>, states the
    correctness of insertion, removal and search, and refines the list of \<open>Signals\<close> and the map of \<open>Inotify\<close>.
  \<^item> \<open>Inet\<close> (\<open>src/inet.cpp\<close>): addresses as text, their exact language and round trips.  \<open>Common\<close> and \<open>Common_Api\<close>
    (\<open>src/uv-common.cpp\<close>, \<open>include/uv.h\<close>, \<open>include/uv-errno.h\<close>, parts of \<open>src/unix/core.cpp\<close>): errors and their names, strings, socket
    addresses, environment, directory entries, the replaceable allocator, sizes.

  The loop and its handles:

  \<^item> \<open>Handles\<close> (\<open>src/uv-common.h\<close>, \<open>uv-common.cpp\<close>): flags and reference counts; the invariant \<open>refs_ok\<close>.
  \<^item> \<open>Timers\<close> (\<open>src/unix/timer.cpp\<close>), \<open>Loop_Watchers\<close> (\<open>loop-watcher_*.cpp\<close>), \<open>Fd_Ops\<close> and \<open>Io\<close> (\<open>core.cpp\<close>, \<open>linux-core.cpp\<close>):
    order of the timers and the deadline, the passes over idle, prepare and check handles, descriptors, watchers and \<open>uv__io_poll\<close>.
  \<^item> \<open>Event_Loop\<close> (\<open>core.cpp\<close>, \<open>loop.cpp\<close>, \<open>uv-common.cpp\<close>): \<open>uv_run\<close>, \<open>uv_close\<close>, the life of a loop, and the dispatch
    of callbacks.
  \<^item> \<open>Async\<close> (\<open>async.cpp\<close>), \<open>Poll\<close> (\<open>poll.cpp\<close>), \<open>Streams\<close> (\<open>stream.cpp\<close>), \<open>Tcp\<close> (\<open>tcp.cpp\<close>), \<open>Pipes\<close> (\<open>pipe.cpp\<close>), \<open>Udp\<close> (\<open>udp.cpp\<close>),
    \<open>Tty\<close> (\<open>tty.cpp\<close>), \<open>Signals\<close> (\<open>signal.cpp\<close>), \<open>Process\<close> (\<open>process.cpp\<close>), \<open>Fs_Poll\<close> (\<open>src/fs-poll.cpp\<close>), \<open>Inotify\<close>
    (\<open>linux-inotify.cpp\<close>), \<open>Fsevents\<close> (\<open>fsevents.cpp\<close>).
  \<^item> \<open>Threadpool\<close> (\<open>src/threadpool.cpp\<close>) and what runs in it: \<open>Fs\<close> (\<open>fs.cpp\<close>) and \<open>Addrinfo\<close> (\<open>getaddrinfo.cpp\<close>,
    \<open>getnameinfo.cpp\<close>).

  The rest: \<open>Linux_Info\<close> (\<open>linux-core.cpp\<close>: memory, processors, interfaces), \<open>Linux_Syscalls\<close> (\<open>linux-syscalls.cpp\<close>), \<open>Threads\<close>
  (\<open>thread.cpp\<close>, \<open>pthread-fixes.cpp\<close>, \<open>spinlock.h\<close>), \<open>Barrier\<close> (\<open>pthread-barrier.cpp\<close>), \<open>Process_Title\<close> (\<open>proctitle.cpp\<close>), \<open>Dl\<close> (\<open>dl.cpp\<close>,
  \<open>src/version.cpp\<close>), \<open>Socks5\<close>, \<open>Socks_Client\<close> and \<open>Socks_Server\<close> (\<open>samples/socks5-proxy\<close>: \<open>s5.c\<close>; \<open>client.c\<close> with the three rules of
  \<open>server.c\<close>; the rest of \<open>server.c\<close>, \<open>main.c\<close> and \<open>getopt.c\<close>).
\<close>

subsection \<open>What is shown\<close>

text \<open>
  \<^item> \<^bold>\<open>The loop.\<close>  A loop with handles to close is alive, polls without waiting, tells each handle once and in order, and \<open>uv_run\<close>
    returns 0; the timeout of the poll never goes beyond the next deadline and is 0 whenever something is already
    due.  The count of active handles is exact, and the number of watched descriptors too, so that \<open>uv__io_poll\<close> never
    indexes outside the table of watchers.  After \<open>uv__io_close\<close> no event of the batch that is being dispatched reaches the descriptor.
  \<^item> \<^bold>\<open>Data structures.\<close>  Queue, heap and tree are equal, operation by operation, to a list, a multiset with a least element, and a
    sorted list; the pointer invariants and the balance of colors are preserved, and all loops end.
  \<^item> \<^bold>\<open>Data.\<close>  A stream writes the bytes it was given, once and in order, through partial writes and errors; datagrams
    are sent and reported in order; reads deliver the chunks in order.  Addresses, titles, terminal modes and proxy requests make a round trip.
  \<^item> \<^bold>\<open>Threads.\<close>  A wake-up that was sent is never lost, although most senders do not write; a signal handle closes
    exactly when its last message was taken; work runs once or is cancelled, never both, and queued work finds a
    worker; a barrier lets nobody out before all have come.  The sequential code is shown to perform the steps of these relations.
  \<^item> \<^bold>\<open>Errors.\<close>  Descriptors opened by a routine that fails are closed again, or the theorem says which is not.
    Where modelling showed a defect the development states it as a theorem of its own: \<open>cancel_in_done_callback\<close>, \<open>zero_timeout_starves\<close>,
    \<open>fs_write_drops_short_rest\<close>, \<open>barrier_reuse_deadlocks\<close>, \<open>failed_init_crashes\<close>, \<open>udp_rebind_breaks_close\<close>,
    \<open>fs_poll_start_leaves_timer\<close>, \<open>loop_init_leaks_backend\<close>, \<open>cpu_info_aborts\<close>, \<open>cond_timedwait_clock\<close>,
    \<open>late_write_miscounted\<close>, \<open>idle_timer_crashes\<close>, \<open>failed_connect_leaks\<close> and others beside the code they are about.
  \<^item> \<^bold>\<open>A program on top.\<close>  \<open>Socks_Client\<close> verifies a client of the library: the state machine of a proxy session, over all orders in
    which the library may call it back.
\<close>

subsection \<open>Not modelled\<close>

text \<open>
  \<^item> Code that is not in the repository: the kernel, the C library, the threads library, the dynamic linker and the
    frameworks of macOS.  They answer by replies.  The values of flags and error numbers are those of Linux (for \<open>Fsevents\<close> those
    that Apple documents).
  \<^item> Errors of \<open>pthread_mutex_lock\<close> and its like inside \<open>Threadpool\<close>, \<open>Barrier\<close> and \<open>Fsevents\<close>, where a critical section is one step; the
    wrappers that would abort are in \<open>Threads\<close>.  The function \<open>cleanup\<close> of the pool, which nothing calls on Unix, is two definitions,
    before and after it waits for its threads, that no step uses.
  \<^item> Other threads that use a loop directly, which the library forbids.
  \<^item> Times given as \<open>double\<close> in \<open>Fs\<close>: the two conversions that the code makes of them are the data of the model.
  \<^item> Sizes of structures (\<open>uv_handle_size\<close>, \<open>uv_req_size\<close>), which depend on the platform, are a parameter in \<open>Common_Api\<close>.
  \<^item> The system calls are recorded by name; that \<open>linux-syscalls.cpp\<close> finds the right number for a name is in \<open>Linux_Syscalls\<close>.
  \<^item> The thread that calls \<open>select\<close> on macOS (\<open>stream.cpp\<close>), compiled out elsewhere; the variants of
    \<open>fsevents.cpp\<close> for iOS, which do nothing; the splay tree of \<open>tree.h\<close>, which nothing uses; \<open>uv_free_cpu_info\<close> and
    \<open>uv_free_interface_addresses\<close>, which only free memory.
  \<^item> The headers that only declare; the tests and project files; the output of the sample program (\<open>util.c\<close>).
\<close>

end
